(* ===== verification/Kernel_Prelude.thy ===== *)
theory Kernel_Prelude
  imports Main "HOL-Library.Word" "HOL-Library.Monad_Syntax"
begin

text \<open>
  Shared vocabulary of the development.

  \<^item> the kernel's integer types (\<^verbatim>\<open>core/num_defs.h\<close>) as machine words: \<open>usize_ptr\<close> is
    32 bits wide on i386, \<open>usize\<close> is 64 bits wide;
  \<^item> the ways a kernel function can stop without returning (a failed \<^verbatim>\<open>assert\<close>, an
    \<^verbatim>\<open>abort\<close>, an access outside every object), as values of a sum type;
  \<^item> the rewrite collections \<open>word_nat\<close> (word operations read as natural numbers) and
    \<open>pow2\<close> (masks by a power of two), and the generic lemmas behind them.
\<close>

unbundle bit_operations_syntax

section \<open>Types\<close>

type_synonym u8 = "8 word"
type_synonym u16 = "16 word"
type_synonym u32 = "32 word"
type_synonym u64 = "64 word"

type_synonym usize_ptr = u32
type_synonym usize = u64

abbreviation NULL :: usize_ptr where
  "NULL \<equiv> 0"

text \<open>
  How a kernel function fails to return: \<open>AssertFailed\<close> is \<^verbatim>\<open>assert(false)\<close>,
  \<open>Aborted\<close> is \<^verbatim>\<open>abort()\<close> or \<^verbatim>\<open>cpu_halt()\<close> on an error path, \<open>BadAccess\<close> is
  an access outside the objects the function may touch (undefined behaviour in C), \<open>DivideError\<close> is a division by zero.
\<close>

datatype kerror = AssertFailed | Aborted | BadAccess | DivideError

type_synonym 'a kres = "kerror + 'a"

definition kbind :: "'a kres \<Rightarrow> ('a \<Rightarrow> 'b kres) \<Rightarrow> 'b kres" where
  "kbind r f = (case r of Inl e \<Rightarrow> Inl e | Inr x \<Rightarrow> f x)"

definition kassert :: "bool \<Rightarrow> unit kres" where
  "kassert b = (if b then Inr () else Inl AssertFailed)"

lemma kbind_simps [simp]:
  "kbind (Inl e) f = Inl e" "kbind (Inr x) f = f x"
  by (simp_all add: kbind_def)

lemma kbind_Inr_iff: "kbind r f = Inr y \<longleftrightarrow> (\<exists>x. r = Inr x \<and> f x = Inr y)"
  by (auto simp: kbind_def split: sum.splits)

lemma kassert_simps [simp]:
  "kassert True = Inr ()" "kassert False = Inl AssertFailed"
  by (simp_all add: kassert_def)

lemma kassert_Inr_iff [simp]: "kassert b = Inr u \<longleftrightarrow> b"
  by (simp add: kassert_def)

text \<open>
  A computation with a loop that may not end: \<open>None\<close> is not returning, \<open>Some (Inl e)\<close> is
  stopping with an error, \<open>Some (Inr x)\<close> is returning \<open>x\<close>.
\<close>

type_synonym 'a kloop = "'a kres option"

definition lbind :: "'a kloop \<Rightarrow> ('a \<Rightarrow> 'b kloop) \<Rightarrow> 'b kloop" where
  "lbind r f = (case r of None \<Rightarrow> None | Some (Inl e) \<Rightarrow> Some (Inl e) | Some (Inr x) \<Rightarrow> f x)"

abbreviation lret :: "'a \<Rightarrow> 'a kloop" where
  "lret x \<equiv> Some (Inr x)"

definition lassert :: "bool \<Rightarrow> unit kloop" where
  "lassert b = (if b then lret () else Some (Inl AssertFailed))"

definition lopt :: "'a option \<Rightarrow> 'a kloop" where
  "lopt r = map_option Inr r"

lemma lbind_simps [simp]:
  "lbind None f = None" "lbind (Some (Inl e)) f = Some (Inl e)" "lbind (lret x) f = f x"
  by (simp_all add: lbind_def)

lemma lassert_simps [simp]: "lassert True = lret ()" "lassert False = Some (Inl AssertFailed)"
  by (simp_all add: lassert_def)

lemma lopt_simps [simp]: "lopt (Some x) = lret x" "lopt None = None"
  by (simp_all add: lopt_def)

lemma lbind_ret_iff: "lbind r f = lret y \<longleftrightarrow> (\<exists>x. r = lret x \<and> f x = lret y)"
  by (auto simp: lbind_def split: option.splits sum.splits)

text \<open>\<open>lbind\<close> is monotone in both arguments, so a loop may recurse under it.\<close>

lemma lbind_mono [partial_function_mono]:
  assumes mf: "mono_option B" and mg: "\<And>y. mono_option (\<lambda>f. C y f)"
  shows "mono_option (\<lambda>f. lbind (B f) (\<lambda>y. C y f))"
proof (rule monotoneI)
  fix f g :: "'a \<Rightarrow> 'b option" assume fg: "fun_ord option_ord f g"
  with mf have "option_ord (B f) (B g)" by (rule monotoneD [of _ _ B])
  then have *: "option_ord (lbind (B f) (\<lambda>y. C y f)) (lbind (B g) (\<lambda>y. C y f))"
    by (auto simp: lbind_def flat_ord_def)
  have "\<And>y. option_ord (C y f) (C y g)" using mg fg by (auto dest: monotoneD)
  then have "option_ord (lbind (B g) (\<lambda>y. C y f)) (lbind (B g) (\<lambda>y. C y g))"
    by (auto simp: lbind_def flat_ord_def split: option.splits sum.splits)
  with * show "option_ord (lbind (B f) (\<lambda>y. C y f)) (lbind (B g) (\<lambda>y. C y g))"
    by (auto simp: flat_ord_def)
qed

text \<open>A \<^verbatim>\<open>for\<close> loop over a known sequence of indices whose body may fail.\<close>

primrec kfor :: "('i \<Rightarrow> 's \<Rightarrow> 's kres) \<Rightarrow> 'i list \<Rightarrow> 's \<Rightarrow> 's kres" where
  "kfor f [] s = Inr s"
| "kfor f (x # xs) s = kbind (f x s) (kfor f xs)"

lemma kfor_append: "kfor f (xs @ ys) s = kbind (kfor f xs s) (kfor f ys)"
  by (induction xs arbitrary: s) (auto simp: kbind_def split: sum.splits)

lemma kfor_fold:
  assumes "\<And>x s. x \<in> set xs \<Longrightarrow> P s \<Longrightarrow> f x s = Inr (g x s) \<and> P (g x s)" "P s"
  shows "kfor f xs s = Inr (fold g xs s) \<and> P (fold g xs s)"
  using assms by (induction xs arbitrary: s) simp_all

lemma kfor_fold_simple:
  assumes "\<And>x s. x \<in> set xs \<Longrightarrow> f x s = Inr (g x s)"
  shows "kfor f xs s = Inr (fold g xs s)"
  using kfor_fold [of xs "\<lambda>_. True" f g s] assms by simp

section \<open>Words as natural numbers\<close>

named_theorems word_nat "word operations read as natural numbers"
named_theorems pow2 "masks by powers of two"

lemmas unat_arith_rules [word_nat] =
  unat_word_ariths unat_of_nat word_less_nat_alt word_le_nat_alt

lemma unat_u8_lt [simp]: "unat (w :: u8) < 256"
  using unsigned_less [of w] by simp

lemma unat_u32_lt [simp]: "unat (w :: u32) < 4294967296"
  using unsigned_less [of w] by simp

lemma unat_u64_lt [simp]: "unat (w :: u64) < 18446744073709551616"
  using unsigned_less [of w] by simp

lemma unat_ucast_u64 [simp]: "unat (ucast (w :: u32) :: u64) = unat w"
  using unat_u32_lt [of w] by (simp add: unsigned_ucast_eq take_bit_eq_mod del: unat_u32_lt)

lemma unat_Suc_lt: "unat (w :: 'a::len word) < unat (c :: 'a word) \<Longrightarrow> unat (w + 1) = Suc (unat w)"
  using unsigned_less [of c, where ?'a = nat] by (simp add: unat_word_ariths del: unsigned_less)

lemma unat_pred: "Suc n = unat (w :: 'a::len word) \<Longrightarrow> unat (w - 1) = n"
  using unat_minus_one [of w] by (cases "w = 0") auto

lemma unat_and_pow2_mask:
  fixes w :: "'a::len word"
  shows "unat (w AND (2 ^ k - 1)) = unat w mod 2 ^ k"
proof -
  have "w AND (2 ^ k - 1) = take_bit k w"
    by (simp add: take_bit_eq_mask mask_eq_exp_minus_1)
  then show ?thesis
    by (simp add: unsigned_take_bit_eq flip: take_bit_eq_mod)
qed

lemma unat_pow2 [pow2]:
  "k < LENGTH('a::len) \<Longrightarrow> unat ((2::'a word) ^ k) = 2 ^ k"
  using unat_of_nat [of "2 ^ k", where ?'a = 'a] by simp

lemma unat_and_mask_of_pow2:
  fixes w c :: "'a::len word"
  assumes "unat c = 2 ^ k"
  shows "unat (w AND (c - 1)) = unat w mod unat c"
proof -
  have "k < LENGTH('a)"
  proof (rule ccontr)
    assume "\<not> k < LENGTH('a)"
    then have "(2::nat) ^ LENGTH('a) \<le> 2 ^ k" by simp
    with assms unsigned_less [of c, where ?'a = nat] show False by simp
  qed
  then have "c = 2 ^ k"
    using assms by (simp add: word_unat_eq_iff unat_pow2)
  then show ?thesis
    using assms by (simp add: unat_and_pow2_mask)
qed

section \<open>Powers of two\<close>

definition is_pow2 :: "nat \<Rightarrow> bool" where
  "is_pow2 n \<longleftrightarrow> (\<exists>k. n = 2 ^ k)"

lemma is_pow2I [intro]: "is_pow2 (2 ^ k)"
  by (auto simp: is_pow2_def)

lemma is_pow2_pos: "is_pow2 n \<Longrightarrow> 0 < n"
  by (auto simp: is_pow2_def)

lemma is_pow2_double: "is_pow2 n \<Longrightarrow> is_pow2 (2 * n)"
  by (metis is_pow2_def power_Suc)

lemma nat_and_pred_zero_pow2: "0 < n \<Longrightarrow> and n (n - 1) = (0::nat) \<Longrightarrow> is_pow2 n"
proof (induction n rule: less_induct)
  case (less n)
  show ?case
  proof (cases "even n")
    case True
    then obtain m where m: "n = 2 * m" by blast
    with less.prems have pos: "0 < m" by simp
    have "and n (n - 1) = 2 * and m (m - 1)"
    proof -
      have "n - 1 = 2 * (m - 1) + 1" using m pos by simp
      then show ?thesis by (simp add: m and_nat_rec [of "2 * m"])
    qed
    with less.prems have "and m (m - 1) = 0" by simp
    with less.IH [of m] m pos have "is_pow2 m" by simp
    then show ?thesis by (simp add: m is_pow2_double)
  next
    case False
    then obtain m where m: "n = 2 * m + 1" by (blast elim: oddE)
    have "and n (n - 1) = 2 * m"
      using m by (simp add: and_nat_rec [of "Suc (2 * m)"])
    with less.prems m have "n = 2 ^ 0" by simp
    then show ?thesis unfolding is_pow2_def by blast
  qed
qed

lemma unat_and_word: "unat (v AND w) = and (unat v) (unat (w :: 'a::len word))"
  by (simp add: unsigned_and_eq)

lemma word_and_pred_zero:
  fixes w :: "'a::len word"
  assumes "w AND (w - 1) = 0" "w \<noteq> 0"
  shows "is_pow2 (unat w)"
proof -
  have pos: "0 < unat w" using assms(2) by (simp add: unat_gt_0)
  have "unat (w - 1) = unat w - 1" using assms(2) by (simp add: unat_minus_one)
  then have "and (unat w) (unat w - 1) = 0"
    using arg_cong [OF assms(1), of unat] by (simp add: unat_and_word)
  with pos show ?thesis by (rule nat_and_pred_zero_pow2)
qed

lemma word_pow2_and_pred:
  fixes w :: "'a::len word"
  assumes "is_pow2 (unat w)"
  shows "w AND (w - 1) = 0"
proof -
  obtain k where k: "unat w = 2 ^ k" using assms by (auto simp: is_pow2_def)
  have "unat (w AND (w - 1)) = 0" using unat_and_mask_of_pow2 [OF k] by simp
  then show ?thesis by (simp add: unat_eq_zero)
qed

lemma word_pow2_iff:
  fixes w :: "'a::len word"
  shows "w AND (w - 1) = 0 \<longleftrightarrow> w = 0 \<or> is_pow2 (unat w)"
  using word_and_pred_zero word_pow2_and_pred by (metis and_zero_eq word_and_pred_zero zero_and_eq)

lemma is_pow2_mask:
  fixes w c :: "'a::len word"
  assumes "is_pow2 (unat c)"
  shows "unat (w AND (c - 1)) = unat w mod unat c"
  using assms by (auto simp: is_pow2_def dest: unat_and_mask_of_pow2)

section \<open>Modular stepping through a circular array\<close>

lemma mod_add_inj:
  fixes n :: nat
  assumes "i < n" "j < n" "(p + i) mod n = (p + j) mod n"
  shows "i = j"
proof (cases "i \<le> j")
  case True
  then have "n dvd (p + j) - (p + i)"
    using assms(3) by (metis add_left_mono mod_eq_dvd_iff_nat)
  with True assms(2) show ?thesis by (auto dest: dvd_imp_le)
next
  case False
  then have "n dvd (p + i) - (p + j)"
    using assms(3) by (metis add_left_mono mod_eq_dvd_iff_nat nat_le_linear)
  with False assms(1) show ?thesis by (auto dest: dvd_imp_le)
qed

lemma mod_step: "((p + i) mod n + 1) mod n = (p + Suc i) mod (n::nat)"
  by (simp add: mod_Suc_eq)

lemma mod_reach:
  fixes n :: nat
  assumes "q < n"
  shows "\<exists>d<n. (p + d) mod n = q"
proof -
  have n: "0 < n" using assms by simp
  define d where "d = (q + n - p mod n) mod n"
  have "(p + d) mod n = (p mod n + (q + n - p mod n)) mod n"
    by (simp add: d_def mod_simps)
  also have "p mod n + (q + n - p mod n) = q + n"
    using n by (simp add: less_imp_le trans_le_add2)
  finally have "(p + d) mod n = q" using assms by simp
  moreover have "d < n" using n by (simp add: d_def)
  ultimately show ?thesis by blast
qed

section \<open>Lists\<close>

lemma find_append: "find P (xs @ ys) = (case find P xs of None \<Rightarrow> find P ys | Some x \<Rightarrow> Some x)"
  by (induction xs) auto

lemma distinct_split_unique:
  "distinct (xs @ a # ys) \<Longrightarrow> xs @ a # ys = xs' @ a # ys' \<Longrightarrow> xs = xs' \<and> ys = ys'"
  by (subst (asm) append_Cons_eq_iff) auto

end
