(* ===== verification/Core_Defs.thy ===== *)
theory Core_Defs
  imports Kernel_Prelude
begin

text \<open>
  The arithmetic of \<^verbatim>\<open>kernel/include/core/defs.h\<close> and the page rounding macros of
  \<^verbatim>\<open>kernel/include/kernel/core/paging.h\<close>: \<open>div_up\<close>, \<open>align_up_n\<close>, \<open>align_down_n\<close>,
  \<open>align_up_pow2\<close>, \<open>log2_u32\<close>, \<open>round_page_up\<close> and \<open>round_page_down\<close>, at the width
  the code computes them with. The lemmas give their value as natural numbers where no
  step wraps around, and the value of \<open>align_up_pow2\<close> where its last increment does.
\<close>

section \<open>Definitions\<close>

definition PAGE_SIZE :: u32 where
  "PAGE_SIZE = 0x1000"

definition PAGE_MASK :: u32 where
  "PAGE_MASK = NOT (PAGE_SIZE - 1)"

definition clamp_u32 :: "u32 \<Rightarrow> u32 \<Rightarrow> u32 \<Rightarrow> u32" where
  "clamp_u32 v lo hi = (if v < lo then lo else (if v > hi then hi else v))"

definition div_up :: "u64 \<Rightarrow> u64 \<Rightarrow> u64 kres" where
  "div_up a b = (if b \<noteq> 0 then Inr ((a + (b - 1)) div b) else Inl AssertFailed)"

definition align_up_n :: "u32 \<Rightarrow> u32 \<Rightarrow> u32 kres" where
  "align_up_n value alignment =
     (if (alignment AND (alignment - 1)) = 0
      then Inr ((value + alignment - 1) AND NOT (alignment - 1))
      else Inl AssertFailed)"

definition align_down_n :: "u32 \<Rightarrow> u32 \<Rightarrow> u32 kres" where
  "align_down_n value alignment =
     (if (alignment AND (alignment - 1)) = 0
      then Inr (value AND NOT (alignment - 1))
      else Inl AssertFailed)"

definition smear :: "nat \<Rightarrow> u32 \<Rightarrow> u32" where
  "smear s value = value OR drop_bit s value"

definition align_up_pow2 :: "u32 \<Rightarrow> u32" where
  "align_up_pow2 value =
     (if value = 0 then 1
      else smear 16 (smear 8 (smear 4 (smear 2 (smear 1 (value - 1))))) + 1)"

text \<open>
  \<^verbatim>\<open>bsr\<close> leaves its destination undefined on zero, so \<open>log2_u32\<close> has a value on
  non-zero words only.
\<close>

fun bsr :: "nat \<Rightarrow> nat" where
  "bsr n = (if n < 2 then 0 else Suc (bsr (n div 2)))"

declare bsr.simps [simp del]

definition log2_u32 :: "u32 \<Rightarrow> u32 option" where
  "log2_u32 x = (if x = 0 then None else Some (of_nat (bsr (unat x))))"

definition round_page_down :: "u32 \<Rightarrow> u32" where
  "round_page_down addr = addr AND PAGE_MASK"

definition round_page_up :: "u32 \<Rightarrow> u32" where
  "round_page_up addr = (addr + PAGE_SIZE - 1) AND PAGE_MASK"

section \<open>Clearing low bits\<close>

lemma and_not_mask_eq:
  fixes w :: "'a::len word"
  shows "w AND NOT v = w - (w AND v)"
proof -
  have "w - (w AND v) = w AND NOT (w AND v)"
    by (rule disjunctive_diff_eq_and_not) (simp add: bit_eq_iff bit_simps)
  also have "\<dots> = w AND NOT v"
    by (auto simp: bit_eq_iff bit_simps)
  finally show ?thesis by simp
qed

lemma unat_and_not_pow2:
  fixes w c :: "'a::len word"
  assumes "is_pow2 (unat c)"
  shows "unat (w AND NOT (c - 1)) = unat w - unat w mod unat c"
proof -
  have "w AND (c - 1) \<le> w" by (rule word_and_le2)
  then have "unat (w - (w AND (c - 1))) = unat w - unat (w AND (c - 1))"
    by (rule unat_sub)
  then show ?thesis by (simp add: and_not_mask_eq is_pow2_mask assms)
qed

lemma PAGE_SIZE_nat [simp]: "unat PAGE_SIZE = 4096"
  by (simp add: PAGE_SIZE_def)

lemma PAGE_SIZE_pow2 [simp]: "is_pow2 (unat PAGE_SIZE)"
proof -
  have "unat PAGE_SIZE = 2 ^ 12" by simp
  then show ?thesis by (metis is_pow2I)
qed

lemma round_down_nat: "n - n mod m = (n div m) * (m::nat)"
  by (metis minus_mod_eq_div_mult)

lemma round_page_down_nat: "unat (round_page_down a) = (unat a div 4096) * 4096"
  using unat_and_not_pow2 [OF PAGE_SIZE_pow2, of a]
  by (simp add: round_page_down_def PAGE_MASK_def round_down_nat)

text \<open>Rounding \<open>n + (m - 1)\<close> down to a multiple of \<open>m\<close> is rounding \<open>n\<close> up.\<close>

lemma round_up_bounds:
  fixes n m :: nat
  assumes "0 < m"
  defines "r \<equiv> (n + m - 1) - (n + m - 1) mod m"
  shows "m dvd r" "n \<le> r" "r < n + m"
proof -
  show "m dvd r" by (simp add: r_def round_down_nat)
  have "(n + m - 1) mod m < m" using assms(1) by simp
  then show "n \<le> r" "r < n + m" using assms(1) unfolding r_def by linarith+
qed

lemma align_up_n_cases:
  "align_up_n v a = (if a = 0 \<or> is_pow2 (unat a) then Inr ((v + a - 1) AND NOT (a - 1)) else Inl AssertFailed)"
  by (simp add: align_up_n_def word_pow2_iff)

lemma unat_add_pred:
  fixes v a :: "'a::len word"
  assumes "unat v + unat a \<le> 2 ^ LENGTH('a)" "a \<noteq> 0"
  shows "unat (v + a - 1) = unat v + unat a - 1"
proof -
  have "v + a - 1 = v + (a - 1)" by (simp add: algebra_simps)
  moreover have "unat (a - 1) = unat a - 1" using assms(2) by (simp add: unat_minus_one)
  moreover have "0 < unat a" using assms(2) by (simp add: unat_gt_0)
  ultimately show ?thesis
    using assms(1) by (simp only: unat_word_ariths) simp
qed

lemma align_up_n_spec:
  assumes "is_pow2 (unat a)" "unat v + unat a \<le> 2 ^ 32"
  obtains r where "align_up_n v a = Inr r"
    "unat a dvd unat r" "unat v \<le> unat r" "unat r < unat v + unat a"
proof
  have a: "a \<noteq> 0" "0 < unat a" using is_pow2_pos [OF assms(1)] by auto
  let ?r = "(v + a - 1) AND NOT (a - 1)"
  show "align_up_n v a = Inr ?r" using assms(1) by (simp add: align_up_n_cases)
  have "unat ?r = (unat v + unat a - 1) - (unat v + unat a - 1) mod unat a"
    using assms a unat_add_pred [of v a] by (simp add: unat_and_not_pow2)
  then show "unat a dvd unat ?r" "unat v \<le> unat ?r" "unat ?r < unat v + unat a"
    using round_up_bounds [OF a(2), of "unat v"] by simp_all
qed

lemma round_page_up_spec:
  assumes "unat a \<le> 2 ^ 32 - 4096"
  shows "4096 dvd unat (round_page_up a)" "unat a \<le> unat (round_page_up a)"
    "unat (round_page_up a) < unat a + 4096"
proof -
  have nz: "PAGE_SIZE \<noteq> 0" by (simp add: PAGE_SIZE_def)
  have "unat (a + PAGE_SIZE - 1) = unat a + 4096 - 1"
    using assms unat_add_pred [of a PAGE_SIZE] nz by simp
  then have "unat (round_page_up a) = (unat a + 4096 - 1) - (unat a + 4096 - 1) mod 4096"
    using unat_and_not_pow2 [OF PAGE_SIZE_pow2, of "a + PAGE_SIZE - 1"]
    by (simp add: round_page_up_def PAGE_MASK_def)
  then show "4096 dvd unat (round_page_up a)" "unat a \<le> unat (round_page_up a)"
    "unat (round_page_up a) < unat a + 4096"
    using round_up_bounds [of 4096 "unat a"] by simp_all
qed

section \<open>The next power of two\<close>

lemma bit_smear: "bit (smear s x) i \<longleftrightarrow> bit x i \<or> bit x (i + s)"
  by (auto simp: smear_def bit_simps add.commute)

lemma bit_smear_step:
  assumes "\<And>i. bit y i \<longleftrightarrow> (\<exists>j<n. bit x (i + j))"
  shows "bit (smear n y) i \<longleftrightarrow> (\<exists>j<2 * n. bit x (i + j))"
proof
  assume "bit (smear n y) i"
  then consider "bit y i" | "bit y (i + n)" by (auto simp: bit_smear)
  then show "\<exists>j<2 * n. bit x (i + j)"
  proof cases
    case 1
    then obtain j where "j < n" "bit x (i + j)" using assms [of i] by blast
    then show ?thesis by (intro exI [of _ j]) simp
  next
    case 2
    then obtain j where "j < n" "bit x (i + n + j)" using assms [of "i + n"] by blast
    then show ?thesis by (intro exI [of _ "n + j"]) (simp add: add.assoc)
  qed
next
  assume "\<exists>j<2 * n. bit x (i + j)"
  then obtain j where j: "j < 2 * n" "bit x (i + j)" by blast
  show "bit (smear n y) i"
  proof (cases "j < n")
    case True
    then show ?thesis using j assms [of i] by (auto simp: bit_smear)
  next
    case False
    then have "j - n < n" "bit x (i + n + (j - n))" using j by auto
    then show ?thesis using assms [of "i + n"] by (auto simp: bit_smear)
  qed
qed

lemma bit_smear_all:
  "bit (smear 16 (smear 8 (smear 4 (smear 2 (smear 1 x))))) i \<longleftrightarrow> (\<exists>j<32. bit x (i + j))"
proof -
  have s1: "bit (smear 1 x) i \<longleftrightarrow> (\<exists>j<2. bit x (i + j))" for i
    using bit_smear_step [of x 1 x i] by simp
  have s2: "bit (smear 2 (smear 1 x)) i \<longleftrightarrow> (\<exists>j<4. bit x (i + j))" for i
    using bit_smear_step [OF s1] by simp
  have s4: "bit (smear 4 (smear 2 (smear 1 x))) i \<longleftrightarrow> (\<exists>j<8. bit x (i + j))" for i
    using bit_smear_step [OF s2] by simp
  have s8: "bit (smear 8 (smear 4 (smear 2 (smear 1 x)))) i \<longleftrightarrow> (\<exists>j<16. bit x (i + j))" for i
    using bit_smear_step [OF s4] by simp
  show ?thesis using bit_smear_step [OF s8] by simp
qed

definition bitlen :: "nat \<Rightarrow> nat" where
  "bitlen n = (if n = 0 then 0 else Suc (bsr n))"

lemma bsr_bounds: "0 < n \<Longrightarrow> 2 ^ bsr n \<le> n \<and> n < 2 ^ Suc (bsr n)"
proof (induction n rule: bsr.induct)
  case (1 n)
  show ?case
  proof (cases "n < 2")
    case True
    with "1.prems" show ?thesis by (simp add: bsr.simps [of n])
  next
    case False
    with "1.IH" have "2 ^ bsr (n div 2) \<le> n div 2" "n div 2 < 2 ^ Suc (bsr (n div 2))" by auto
    then have "2 * 2 ^ bsr (n div 2) \<le> n" "n < 4 * 2 ^ bsr (n div 2)" by simp_all
    with False show ?thesis by (simp add: bsr.simps [of n])
  qed
qed

lemma bitlen_upper: "n < 2 ^ bitlen n"
  using bsr_bounds [of n] by (simp add: bitlen_def)

lemma bitlen_lower: "0 < n \<Longrightarrow> 2 ^ (bitlen n - 1) \<le> n"
  using bsr_bounds [of n] by (simp add: bitlen_def)

lemma bitlen_le: "n < 2 ^ k \<Longrightarrow> bitlen n \<le> k"
  using bitlen_lower [of n]
  by (cases "n = 0") (auto simp: bitlen_def dest: power_strict_increasing_iff [THEN iffD1, rotated 1] le_less_trans)

lemma top_bit:
  assumes "0 < unat x"
  shows "bit (x :: u32) (bitlen (unat x) - 1)"
proof -
  let ?k = "bitlen (unat x) - 1"
  have "unat x < 2 ^ Suc ?k" using bitlen_upper [of "unat x"] assms by (simp add: bitlen_def)
  moreover have "2 ^ ?k \<le> unat x" using bitlen_lower assms by blast
  ultimately have "unat x div 2 ^ ?k = 1" by (intro div_nat_eqI) auto
  then have "bit (unat x) ?k" by (simp add: bit_iff_odd)
  then show ?thesis by (simp add: bit_unsigned_iff)
qed

lemma bit_below_bitlen:
  assumes "bit (x :: u32) i"
  shows "i < bitlen (unat x)"
proof (rule ccontr)
  assume "\<not> i < bitlen (unat x)"
  then have "(2::nat) ^ bitlen (unat x) \<le> 2 ^ i" by simp
  then have "unat x < 2 ^ i" using bitlen_upper [of "unat x"] by linarith
  moreover from assms have "bit (unat x) i" by (simp add: bit_unsigned_iff)
  then have "odd (unat x div 2 ^ i)" by (simp add: bit_iff_odd)
  ultimately show False by simp
qed

lemma smear_all_mask:
  "smear 16 (smear 8 (smear 4 (smear 2 (smear 1 x)))) = mask (bitlen (unat x))"
proof (rule bit_eqI)
  fix i assume "possible_bit TYPE(u32) i"
  then have i: "i < 32" by simp
  have len: "bitlen (unat x) \<le> 32" by (rule bitlen_le) simp
  show "bit (smear 16 (smear 8 (smear 4 (smear 2 (smear 1 x))))) i = bit (mask (bitlen (unat x)) :: u32) i"
  proof
    assume "bit (smear 16 (smear 8 (smear 4 (smear 2 (smear 1 x))))) i"
    then obtain j where "bit x (i + j)" unfolding bit_smear_all by blast
    then have "i < bitlen (unat x)" using bit_below_bitlen by fastforce
    with i show "bit (mask (bitlen (unat x)) :: u32) i" by (simp add: bit_mask_iff)
  next
    assume "bit (mask (bitlen (unat x)) :: u32) i"
    then have lt: "i < bitlen (unat x)" by (simp add: bit_mask_iff)
    then have "0 < unat x" by (auto simp: bitlen_def split: if_splits)
    then have "bit x (i + (bitlen (unat x) - 1 - i))" using top_bit lt by simp
    moreover have "bitlen (unat x) - 1 - i < 32" using len lt by simp
    ultimately show "bit (smear 16 (smear 8 (smear 4 (smear 2 (smear 1 x))))) i"
      unfolding bit_smear_all by blast
  qed
qed

lemma align_up_pow2_eq:
  "v \<noteq> 0 \<Longrightarrow> align_up_pow2 v = 2 ^ bitlen (unat v - 1)"
  unfolding align_up_pow2_def smear_all_mask by (simp add: unat_minus_one mask_eq_exp_minus_1)

lemma align_up_pow2_wraps:
  assumes "2 ^ 31 < unat v"
  shows "align_up_pow2 v = 0"
proof -
  have nz: "v \<noteq> 0" using assms by auto
  have "\<not> bitlen (unat v - 1) \<le> 31"
  proof
    assume "bitlen (unat v - 1) \<le> 31"
    then have "(2::nat) ^ bitlen (unat v - 1) \<le> 2 ^ 31" by (rule power_increasing) simp
    then show False using bitlen_upper [of "unat v - 1"] assms by linarith
  qed
  moreover have "bitlen (unat v - 1) \<le> 32" by (rule bitlen_le) (simp add: less_imp_diff_less)
  ultimately have "bitlen (unat v - 1) = 32" by simp
  then show ?thesis using align_up_pow2_eq [OF nz] by simp
qed

lemma align_up_pow2_spec:
  assumes "0 < unat v" "unat v \<le> 2 ^ 31"
  shows "is_pow2 (unat (align_up_pow2 v))" "unat v \<le> unat (align_up_pow2 v)"
    "unat (align_up_pow2 v) < 2 * unat v"
proof -
  let ?k = "bitlen (unat v - 1)"
  have nz: "v \<noteq> 0" using assms(1) by auto
  have "?k \<le> 31" using assms by (intro bitlen_le) linarith
  then have eq: "unat (align_up_pow2 v) = 2 ^ ?k"
    by (simp add: align_up_pow2_eq [OF nz] unat_pow2)
  then show "is_pow2 (unat (align_up_pow2 v))" by auto
  show "unat v \<le> unat (align_up_pow2 v)"
    using eq bitlen_upper [of "unat v - 1"] by simp
  show "unat (align_up_pow2 v) < 2 * unat v"
  proof (cases "unat v = 1")
    case True
    then show ?thesis using eq by (simp add: bitlen_def)
  next
    case False
    then have "0 < unat v - 1" using assms(1) by simp
    then have "2 ^ (?k - 1) \<le> unat v - 1" "?k = Suc (?k - 1)"
      using bitlen_lower by (auto simp: bitlen_def)
    then have "2 ^ ?k \<le> 2 * (unat v - 1)" by (metis mult_le_mono2 power_Suc)
    then show ?thesis using eq assms(1) by simp
  qed
qed

lemma log2_u32_spec:
  assumes "x \<noteq> 0"
  obtains k where "log2_u32 x = Some (of_nat k)" "k < 32" "2 ^ k \<le> unat x" "unat x < 2 ^ Suc k"
proof
  have pos: "0 < unat x" using assms by (simp add: unat_gt_0)
  show "log2_u32 x = Some (of_nat (bsr (unat x)))" using assms by (simp add: log2_u32_def)
  show "2 ^ bsr (unat x) \<le> unat x" "unat x < 2 ^ Suc (bsr (unat x))" using bsr_bounds [OF pos] by auto
  have "bitlen (unat x) \<le> 32" by (rule bitlen_le) simp
  then show "bsr (unat x) < 32" using pos by (simp add: bitlen_def)
qed

lemma div_up_spec:
  assumes "b \<noteq> 0" "unat a + unat b \<le> 2 ^ 64"
  obtains q where "div_up a b = Inr q" "unat a \<le> unat q * unat b" "unat q * unat b < unat a + unat b"
proof
  have b: "0 < unat b" using assms(1) by (simp add: unat_gt_0)
  let ?q = "(a + (b - 1)) div b"
  show "div_up a b = Inr ?q" using assms(1) by (simp add: div_up_def)
  have "unat (a + b - 1) = unat a + unat b - 1"
    using unat_add_pred [of a b] assms by simp
  then have "unat (a + (b - 1)) = unat a + unat b - 1"
    by (simp only: add_diff_eq)
  then have "unat ?q * unat b = (unat a + unat b - 1) - (unat a + unat b - 1) mod unat b"
    by (simp only: unat_div_distrib round_down_nat)
  then show "unat a \<le> unat ?q * unat b" "unat ?q * unat b < unat a + unat b"
    using round_up_bounds(2,3) [OF b, of "unat a"] by (simp_all only:)
qed

section \<open>Properties\<close>

lemma pow2_between: "is_pow2 p \<Longrightarrow> is_pow2 q \<Longrightarrow> q < 2 * p \<Longrightarrow> q \<le> p"
proof -
  assume "is_pow2 p" "is_pow2 q" "q < 2 * p"
  then obtain i j where ij: "p = 2 ^ i" "q = 2 ^ j" by (auto simp: is_pow2_def)
  with \<open>q < 2 * p\<close> have "(2::nat) ^ j < 2 ^ Suc i" by simp
  then have "j < Suc i" by (simp only: power_strict_increasing_iff)
  then show "q \<le> p" using ij by simp
qed

text \<open>For every word up to \<open>2 ^ 31\<close> the bit smearing of \<^verbatim>\<open>align_up_pow2\<close> computes the
  least power of two that is not below it (1 for 0); for larger words the final increment
  wraps and the result is 0.\<close>

theorem align_up_pow2_least:
  "unat (align_up_pow2 v) = (if unat v \<le> 2 ^ 31 then (LEAST p. is_pow2 p \<and> unat v \<le> p) else 0)"
proof (cases "0 < unat v \<and> unat v \<le> 2 ^ 31")
  case True
  note spec = align_up_pow2_spec [OF conjunct1 [OF True] conjunct2 [OF True]]
  have "(LEAST p. is_pow2 p \<and> unat v \<le> p) = unat (align_up_pow2 v)"
  proof (rule Least_equality)
    fix p assume "is_pow2 p \<and> unat v \<le> p"
    then show "unat (align_up_pow2 v) \<le> p" using pow2_between [of p] spec by fastforce
  qed (use spec in simp)
  with True show ?thesis by simp
next
  case False
  show ?thesis
  proof (cases "unat v = 0")
    case True
    have "(LEAST p. is_pow2 p \<and> 0 \<le> p) = 1"
      by (rule Least_equality) (use is_pow2I [of 0] in \<open>auto simp: Suc_le_eq intro: is_pow2_pos\<close>)
    with True show ?thesis by (simp add: align_up_pow2_def unat_eq_zero)
  next
    case nz: False
    with False have "2 ^ 31 < unat v" by simp
    with align_up_pow2_wraps show ?thesis by simp
  qed
qed

end
