(* ===== verification/Flat_Memory.thy ===== *)
theory Flat_Memory
  imports Kernel_Prelude
begin

text \<open>
  The 32-bit byte-addressed address space the C code runs in. \<open>bytes\<close> reads a block,
  \<open>load32\<close> and \<open>store32\<close> are the little-endian accesses of a pointer-sized object, the other widths are beside them.
  Blocks are named by a base and an offset: offsets below \<open>2 ^ 32\<close> name different bytes
  whatever the base is, so the frame lemmas speak of offsets only.
\<close>

type_synonym mem = "u32 \<Rightarrow> u8"

definition bytes :: "mem \<Rightarrow> u32 \<Rightarrow> nat \<Rightarrow> u8 list" where
  "bytes m a n = map (\<lambda>i. m (a + of_nat i)) [0..<n]"

definition load32 :: "mem \<Rightarrow> u32 \<Rightarrow> u32" where
  "load32 m a = ucast (m a) OR push_bit 8 (ucast (m (a + 1)))
     OR push_bit 16 (ucast (m (a + 2))) OR push_bit 24 (ucast (m (a + 3)))"

definition store32 :: "mem \<Rightarrow> u32 \<Rightarrow> u32 \<Rightarrow> mem" where
  "store32 m a v = m(a := ucast v, a + 1 := ucast (drop_bit 8 v),
     a + 2 := ucast (drop_bit 16 v), a + 3 := ucast (drop_bit 24 v))"

definition load16 :: "mem \<Rightarrow> u32 \<Rightarrow> u16" where
  "load16 m a = ucast (m a) OR push_bit 8 (ucast (m (a + 1)))"

definition load64 :: "mem \<Rightarrow> u32 \<Rightarrow> u64" where
  "load64 m a = ucast (load32 m a) OR push_bit 32 (ucast (load32 m (a + 4)))"

definition store64 :: "mem \<Rightarrow> u32 \<Rightarrow> u64 \<Rightarrow> mem" where
  "store64 m a v = store32 (store32 m a (ucast v)) (a + 4) (ucast (drop_bit 32 v))"

lemma length_bytes [simp]: "length (bytes m a n) = n"
  by (simp add: bytes_def)

lemma nth_bytes [simp]: "i < n \<Longrightarrow> bytes m a n ! i = m (a + of_nat i)"
  by (simp add: bytes_def)

lemma bytes_0 [simp]: "bytes m a 0 = []"
  by (simp add: bytes_def)

lemma bytes_cong: "(\<And>i. i < n \<Longrightarrow> m (a + of_nat i) = m' (b + of_nat i)) \<Longrightarrow> bytes m a n = bytes m' b n"
  by (simp add: bytes_def)

lemma bytes_eq_iff: "bytes m a n = bytes m' b n \<longleftrightarrow> (\<forall>i<n. m (a + of_nat i) = m' (b + of_nat i))"
  by (auto simp: bytes_def)

section \<open>Offsets from a base\<close>

lemma of_nat_u32_inj:
  assumes "i < 2 ^ 32" "j < 2 ^ 32"
  shows "(of_nat i :: u32) = of_nat j \<longleftrightarrow> i = j"
proof
  assume "(of_nat i :: u32) = of_nat j"
  then have "unat (of_nat i :: u32) = unat (of_nat j :: u32)" by simp
  then show "i = j" using assms by (simp add: unat_of_nat)
qed simp

lemma offset_inj:
  "i < 2 ^ 32 \<Longrightarrow> j < 2 ^ 32 \<Longrightarrow> (a + of_nat i :: u32) = a + of_nat j \<longleftrightarrow> i = j"
  using of_nat_u32_inj by simp

lemma u32_offset: "\<exists>i<2 ^ 32. (b :: u32) = a + of_nat i"
  by (intro exI [of _ "unat (b - a)"]) simp

section \<open>Pointer-sized accesses\<close>

lemma u32_bytes_or:
  fixes v :: u32
  shows "ucast (ucast v :: u8) OR push_bit 8 (ucast (ucast (drop_bit 8 v) :: u8))
     OR push_bit 16 (ucast (ucast (drop_bit 16 v) :: u8))
     OR push_bit 24 (ucast (ucast (drop_bit 24 v) :: u8)) = v" (is "?l = v")
proof (rule bit_eqI)
  fix n assume "possible_bit TYPE(u32) n"
  then have n: "n < 32" by simp
  consider "n < 8" | "8 \<le> n" "n < 16" | "16 \<le> n" "n < 24" | "24 \<le> n" using not_le by blast
  then show "bit ?l n = bit v n"
    by cases (use n in \<open>auto simp: bit_simps\<close>)
qed

lemma small_offsets_neq [simp]:
  "(a :: u32) + 1 \<noteq> a" "a + 2 \<noteq> a" "a + 3 \<noteq> a" "a + 2 \<noteq> a + 1" "a + 3 \<noteq> a + 1" "a + 3 \<noteq> a + 2"
  "a \<noteq> a + 1" "a \<noteq> a + 2" "a \<noteq> a + 3" "a + 1 \<noteq> a + 2" "a + 1 \<noteq> a + 3" "a + 2 \<noteq> a + 3"
  by simp_all

lemma load32_store32_same [simp]: "load32 (store32 m a v) a = v"
  by (simp add: load32_def store32_def u32_bytes_or)

text \<open>A store at one offset leaves every byte outside its four bytes alone.\<close>

lemma store32_other:
  assumes "i + 4 \<le> 2 ^ 32" "j < 2 ^ 32" "j < i \<or> i + 4 \<le> j"
  shows "store32 m (a + of_nat i) v (a + of_nat j) = m (a + of_nat j)"
proof -
  have "a + of_nat i + 1 = a + of_nat (i + 1)" "a + of_nat i + 2 = a + of_nat (i + 2)"
    "a + of_nat i + 3 = a + of_nat (i + 3)" by simp_all
  moreover have "a + of_nat j \<noteq> a + of_nat i" "a + of_nat j \<noteq> a + of_nat (i + 1)"
    "a + of_nat j \<noteq> a + of_nat (i + 2)" "a + of_nat j \<noteq> a + of_nat (i + 3)"
    using assms by (subst offset_inj; simp; linarith)+
  ultimately show ?thesis by (simp only: store32_def fun_upd_apply if_False)
qed

lemma load32_cong:
  "(\<And>k. k < 4 \<Longrightarrow> m (a + of_nat k) = m' (b + of_nat k)) \<Longrightarrow> load32 m a = load32 m' b"
proof -
  assume h: "\<And>k. k < 4 \<Longrightarrow> m (a + of_nat k) = m' (b + of_nat k)"
  have "m a = m' b" "m (a + 1) = m' (b + 1)" "m (a + 2) = m' (b + 2)" "m (a + 3) = m' (b + 3)"
    using h [of 0] h [of 1] h [of 2] h [of 3] by simp_all
  then show ?thesis by (simp only: load32_def)
qed

lemma load32_store32_other:
  assumes "i + 4 \<le> 2 ^ 32" "j + 4 \<le> 2 ^ 32" "j + 4 \<le> i \<or> i + 4 \<le> j"
  shows "load32 (store32 m (a + of_nat i) v) (a + of_nat j) = load32 m (a + of_nat j)"
proof (rule load32_cong)
  fix k :: nat assume "k < 4"
  then show "store32 m (a + of_nat i) v (a + of_nat j + of_nat k) = m (a + of_nat j + of_nat k)"
    using store32_other [of i "j + k" m a v] assms by (simp add: add.assoc) linarith
qed

end
