(* ===== verification/Libk_String.thy ===== *)
theory Libk_String
  imports Flat_Memory
begin

text \<open>
  The memory and string routines of \<^verbatim>\<open>libk/string\<close> on the flat address space.
  A counted loop is a fold over its index values in the order the code visits them; a
  loop that scans for a terminator is a \<open>partial_function\<close> whose value \<open>None\<close> is a scan
  that never ends.
\<close>

section \<open>Definitions\<close>

definition memcpy :: "mem \<Rightarrow> u32 \<Rightarrow> u32 \<Rightarrow> u32 \<Rightarrow> mem" where
  "memcpy m dst src sz = fold (\<lambda>i m. m(dst + of_nat i := m (src + of_nat i))) [0..<unat sz] m"

definition memmove :: "mem \<Rightarrow> u32 \<Rightarrow> u32 \<Rightarrow> u32 \<Rightarrow> mem" where
  "memmove m dst src sz =
     (if dst < src
      then fold (\<lambda>i m. m(dst + of_nat i := m (src + of_nat i))) [0..<unat sz] m
      else fold (\<lambda>i m. m(dst + of_nat i := m (src + of_nat i))) (rev [0..<unat sz]) m)"

definition memset :: "mem \<Rightarrow> u32 \<Rightarrow> u32 \<Rightarrow> u32 \<Rightarrow> mem" where
  "memset m buf value sz = fold (\<lambda>i m. m(buf + of_nat i := ucast value)) [0..<unat sz] m"

fun memcmp_loop :: "mem \<Rightarrow> u32 \<Rightarrow> u32 \<Rightarrow> nat list \<Rightarrow> int" where
  "memcmp_loop m a b [] = 0"
| "memcmp_loop m a b (i # is) =
     (if m (a + of_nat i) < m (b + of_nat i) then - 1
      else if m (b + of_nat i) < m (a + of_nat i) then 1
      else memcmp_loop m a b is)"

definition memcmp :: "mem \<Rightarrow> u32 \<Rightarrow> u32 \<Rightarrow> u32 \<Rightarrow> int" where
  "memcmp m a b sz = memcmp_loop m a b [0..<unat sz]"

partial_function (option) strlen_loop :: "mem \<Rightarrow> u32 \<Rightarrow> u32 \<Rightarrow> u32 option" where
  "strlen_loop m str len = (if m (str + len) \<noteq> 0 then strlen_loop m str (len + 1) else Some len)"

declare strlen_loop.simps [code]

definition strlen :: "mem \<Rightarrow> u32 \<Rightarrow> u32 option" where
  "strlen m str = strlen_loop m str 0"

partial_function (option) strcmp :: "mem \<Rightarrow> u32 \<Rightarrow> u32 \<Rightarrow> int option" where
  "strcmp m s1 s2 =
     (if m s1 \<noteq> 0 \<and> m s1 = m s2 then strcmp m (s1 + 1) (s2 + 1)
      else Some (uint (m s1) - uint (m s2)))"

declare strcmp.simps [code]

fun strncmp_loop :: "mem \<Rightarrow> u32 \<Rightarrow> u32 \<Rightarrow> nat list \<Rightarrow> int" where
  "strncmp_loop m s1 s2 [] = 0"
| "strncmp_loop m s1 s2 (i # is) =
     (if m (s1 + of_nat i) \<noteq> 0 \<and> m (s2 + of_nat i) \<noteq> 0
      then (if m (s1 + of_nat i) \<noteq> m (s2 + of_nat i)
            then uint (m (s1 + of_nat i)) - uint (m (s2 + of_nat i))
            else strncmp_loop m s1 s2 is)
      else uint (m (s1 + of_nat i)) - uint (m (s2 + of_nat i)))"

definition strncmp :: "mem \<Rightarrow> u32 \<Rightarrow> u32 \<Rightarrow> u32 \<Rightarrow> int" where
  "strncmp m s1 s2 n = strncmp_loop m s1 s2 [0..<unat n]"

partial_function (option) kfind_loop :: "mem \<Rightarrow> u32 \<Rightarrow> u8 \<Rightarrow> u32 \<Rightarrow> int option" where
  "kfind_loop m s1 target it =
     (if m it \<noteq> target
      then (if m it = 0 then Some (- 1) else kfind_loop m s1 target (it + 1))
      else Some (sint (it - s1)))"

declare kfind_loop.simps [code]

definition kfind_index_first_of_from :: "mem \<Rightarrow> u32 \<Rightarrow> u8 \<Rightarrow> u32 \<Rightarrow> int option" where
  "kfind_index_first_of_from m s1 target offset = kfind_loop m s1 target (s1 + offset)"

text \<open>
  \<^verbatim>\<open>kstrdup\<close>: \<open>kmalloc\<close> is the heap allocator, called with the length plus one; the
  value is the final memory and the address of the copy.
\<close>

definition kstrdup :: "(u32 \<Rightarrow> u32) \<Rightarrow> mem \<Rightarrow> u32 \<Rightarrow> (mem \<times> u32) option" where
  "kstrdup kmalloc m s1 = do {
     length \<leftarrow> strlen m s1;
     again \<leftarrow> strlen m s1;
     let new_str = kmalloc (again + 1);
     let m = memcpy m new_str s1 length;
     Some (m(new_str + length := 0), new_str)
   }"

section \<open>Copying\<close>

text \<open>
  Copying byte by byte in the order \<open>is\<close> delivers the original source bytes when no step
  overwrites a source byte that a later step still reads.
\<close>

lemma fold_copy_outside:
  "x \<notin> (\<lambda>i. dst + of_nat i) ` set is \<Longrightarrow>
   fold (\<lambda>i m. m(dst + of_nat i := m (src + of_nat i))) is m x = m x"
  for x dst src :: u32
  by (induction "is" arbitrary: m) auto

lemma fold_copy_at:
  fixes dst src :: u32 and m :: mem
  assumes "distinct is" "set is \<subseteq> {..<n}" "n \<le> 2 ^ 32" "i \<in> set is"
    and safe: "\<And>pre suf j k. is = pre @ j # suf \<Longrightarrow> k \<in> set pre \<Longrightarrow> dst + of_nat k \<noteq> src + of_nat j"
  shows "fold (\<lambda>i m. m(dst + of_nat i := m (src + of_nat i))) is m (dst + of_nat i) = m (src + of_nat i)"
proof -
  let ?f = "\<lambda>i m. m(dst + of_nat i := m (src + of_nat i)) :: mem"
  obtain pre suf where sp: "is = pre @ i # suf" using assms(4) split_list by fast
  have pre: "fold ?f pre m (src + of_nat i) = m (src + of_nat i)"
    by (rule fold_copy_outside) (use safe [OF sp] in fastforce)
  have inj: "(dst + of_nat i :: u32) \<noteq> dst + of_nat k" if "k \<in> set suf" for k
  proof -
    have "i \<noteq> k" "i < 2 ^ 32" "k < 2 ^ 32" using assms(1-3) sp that by auto
    then show ?thesis by (simp only: offset_inj) simp
  qed
  have "fold ?f is m (dst + of_nat i) = fold ?f suf (?f i (fold ?f pre m)) (dst + of_nat i)"
    by (simp add: sp)
  also have "\<dots> = ?f i (fold ?f pre m) (dst + of_nat i)"
    by (rule fold_copy_outside) (use inj in auto)
  finally show ?thesis using pre by simp
qed

text \<open>A block of \<open>n\<close> bytes at \<open>a\<close> that does not run over the end of the address space.\<close>

definition no_wrap :: "u32 \<Rightarrow> nat \<Rightarrow> bool" where
  "no_wrap a n \<longleftrightarrow> unat a + n \<le> 2 ^ 32"

definition in_block :: "u32 \<Rightarrow> nat \<Rightarrow> u32 \<Rightarrow> bool" where
  "in_block a n x \<longleftrightarrow> (\<exists>i<n. x = a + of_nat i)"

lemma unat_offset: "no_wrap a n \<Longrightarrow> i < n \<Longrightarrow> unat (a + of_nat i) = unat a + i"
  by (simp add: no_wrap_def unat_word_ariths unat_of_nat)

lemma upt_split_order: "[0..<n] = pre @ j # suf \<Longrightarrow> k \<in> set pre \<Longrightarrow> k < j"
  by (metis list.distinct(1) list.sel(1) set_append sorted_wrt_append sorted_wrt_upt list.set_intros(1))

lemma rev_upt_split_order: "rev [0..<n] = pre @ j # suf \<Longrightarrow> k \<in> set pre \<Longrightarrow> j < k"
proof -
  assume "rev [0..<n] = pre @ j # suf" "k \<in> set pre"
  then have "[0..<n] = rev suf @ j # rev pre" "k \<in> set (rev pre)"
    by (simp_all add: rev_swap)
  then show "j < k"
    by (metis sorted_wrt_append sorted_wrt_upt sorted_wrt.simps(2))
qed

lemma split_mem:
  assumes "xs = pre @ j # suf" "k \<in> set pre" "\<And>x. x \<in> set xs \<Longrightarrow> x < n"
  shows "j < n" "k < n"
  using assms by simp_all

lemma memmove_at:
  assumes "no_wrap dst (unat sz)" "no_wrap src (unat sz)" "i < unat sz"
  shows "memmove m dst src sz (dst + of_nat i) = m (src + of_nat i)"
proof (cases "dst < src")
  case True
  have "fold (\<lambda>i m. m(dst + of_nat i := m (src + of_nat i))) [0..<unat sz] m (dst + of_nat i) = m (src + of_nat i)"
  proof (rule fold_copy_at [where n = "unat sz"])
    fix pre suf j k assume sp: "[0..<unat sz] = pre @ j # suf" "k \<in> set pre"
    then have "k < j" by (rule upt_split_order)
    moreover have "j < unat sz" "k < unat sz" by (rule split_mem [OF sp], simp)+
    ultimately have "unat (dst + of_nat k) < unat (src + of_nat j)"
      using True assms(1,2) by (simp add: unat_offset word_less_nat_alt)
    then show "dst + of_nat k \<noteq> src + of_nat j" by auto
  qed (use assms(3) in \<open>auto intro: less_imp_le\<close>)
  then show ?thesis using True by (simp add: memmove_def)
next
  case False
  have "fold (\<lambda>i m. m(dst + of_nat i := m (src + of_nat i))) (rev [0..<unat sz]) m (dst + of_nat i) = m (src + of_nat i)"
  proof (rule fold_copy_at [where n = "unat sz"])
    fix pre suf j k assume sp: "rev [0..<unat sz] = pre @ j # suf" "k \<in> set pre"
    then have "j < k" by (rule rev_upt_split_order)
    moreover have "j < unat sz" "k < unat sz" by (rule split_mem [OF sp], simp)+
    ultimately have "unat (src + of_nat j) < unat (dst + of_nat k)"
      using False assms(1,2) by (simp add: unat_offset word_less_nat_alt)
    then show "dst + of_nat k \<noteq> src + of_nat j" by auto
  qed (use assms(3) in \<open>auto intro: less_imp_le\<close>)
  then show ?thesis using False by (simp add: memmove_def)
qed

lemma memmove_outside: "\<not> in_block dst (unat sz) x \<Longrightarrow> memmove m dst src sz x = m x"
  unfolding memmove_def in_block_def by (auto intro!: fold_copy_outside)

lemma memcpy_outside: "\<not> in_block dst (unat sz) x \<Longrightarrow> memcpy m dst src sz x = m x"
  unfolding memcpy_def in_block_def by (auto intro!: fold_copy_outside)

lemma memcpy_at:
  assumes "\<And>j k. j < unat sz \<Longrightarrow> k < unat sz \<Longrightarrow> dst + of_nat k \<noteq> src + of_nat j" "i < unat sz"
  shows "memcpy m dst src sz (dst + of_nat i) = m (src + of_nat i)"
  unfolding memcpy_def
proof (rule fold_copy_at [where n = "unat sz"])
  fix pre suf j k assume sp: "[0..<unat sz] = pre @ j # suf" "k \<in> set pre"
  have "j < unat sz" "k < unat sz" by (rule split_mem [OF sp], simp)+
  then show "dst + of_nat k \<noteq> src + of_nat j" by (rule assms(1))
qed (use assms(2) in \<open>auto intro: less_imp_le\<close>)

lemma memmove_bytes:
  "no_wrap dst (unat sz) \<Longrightarrow> no_wrap src (unat sz) \<Longrightarrow>
   bytes (memmove m dst src sz) dst (unat sz) = bytes m src (unat sz)"
  by (simp add: bytes_eq_iff memmove_at)

lemma memcpy_bytes:
  "(\<And>j k. j < unat sz \<Longrightarrow> k < unat sz \<Longrightarrow> dst + of_nat k \<noteq> src + of_nat j) \<Longrightarrow>
   bytes (memcpy m dst src sz) dst (unat sz) = bytes m src (unat sz)"
  by (simp add: bytes_eq_iff memcpy_at)

section \<open>Comparing and scanning\<close>

lemma memcmp_loop_zero: "memcmp_loop m a b is = 0 \<longleftrightarrow> (\<forall>i\<in>set is. m (a + of_nat i) = m (b + of_nat i))"
  by (induction "is") (auto simp: not_less_iff_gr_or_eq)

lemma memcmp_zero_iff: "memcmp m a b sz = 0 \<longleftrightarrow> bytes m a (unat sz) = bytes m b (unat sz)"
  by (auto simp: memcmp_def memcmp_loop_zero bytes_eq_iff)

lemma memcmp_loop_range: "memcmp_loop m a b is \<in> {- 1, 0, 1}"
  by (induction "is") auto

text \<open>\<open>n\<close> is the length of the C string at \<open>a\<close>: the first \<open>n\<close> bytes are not NUL and
  the next one is.\<close>

definition cstr_len :: "mem \<Rightarrow> u32 \<Rightarrow> nat \<Rightarrow> bool" where
  "cstr_len m a n \<longleftrightarrow> (\<forall>i<n. m (a + of_nat i) \<noteq> 0) \<and> m (a + of_nat n) = 0"

lemma cstr_len_unique: "cstr_len m a n \<Longrightarrow> cstr_len m a k \<Longrightarrow> n = k"
  unfolding cstr_len_def by (metis linorder_neqE_nat)

lemma all_less_Suc_split: "(\<forall>i<Suc n. P i) \<longleftrightarrow> P 0 \<and> (\<forall>i<n. P (Suc i))"
  using less_Suc_eq_0_disj by auto

lemma cstr_len_Suc:
  "cstr_len m a (Suc n) \<longleftrightarrow> m a \<noteq> 0 \<and> cstr_len m (a + 1) n"
  by (simp add: cstr_len_def all_less_Suc_split add_ac)

lemma strlen_loop_eq:
  "cstr_len m (str + of_nat k) n \<Longrightarrow> strlen_loop m str (of_nat k) = Some (of_nat (k + n))"
proof (induction n arbitrary: k)
  case 0
  then show ?case by (simp add: strlen_loop.simps cstr_len_def)
next
  case (Suc n)
  have "cstr_len m (str + of_nat (Suc k)) n"
    using Suc.prems by (simp add: cstr_len_Suc add_ac)
  moreover have "m (str + of_nat k) \<noteq> 0" using Suc.prems by (auto simp: cstr_len_def)
  ultimately show ?case
    using Suc.IH [of "Suc k"] by (subst strlen_loop.simps) (simp add: add.commute)
qed

lemma strlen_eq: "cstr_len m str n \<Longrightarrow> strlen m str = Some (of_nat n)"
  using strlen_loop_eq [of m str 0 n] by (simp add: strlen_def)

lemma bytes_Suc: "bytes m a (Suc n) = m a # bytes m (a + 1) n"
  unfolding bytes_def upt_conv_Cons [OF zero_less_Suc] map_Suc_upt [symmetric]
  by (simp add: add_ac)

lemma uint_nonzero: "x \<noteq> 0 \<longleftrightarrow> uint x \<noteq> 0" "x \<noteq> 0 \<Longrightarrow> 0 < uint x" for x :: u8
  by (simp_all add: word_uint_eq_iff less_le)

lemma strcmp_value:
  assumes "cstr_len m a n" "cstr_len m b k"
  obtains r where "strcmp m a b = Some r"
    and "r = 0 \<longleftrightarrow> bytes m a n = bytes m b k"
    and "r < 0 \<longleftrightarrow> ord_class.lexordp (bytes m a n) (bytes m b k)"
proof -
  have "\<exists>r. strcmp m a b = Some r \<and> (r = 0 \<longleftrightarrow> bytes m a n = bytes m b k) \<and>
          (r < 0 \<longleftrightarrow> ord_class.lexordp (bytes m a n) (bytes m b k))"
    using assms
  proof (induction n arbitrary: a b k)
    case 0
    then show ?case
      by (cases k) (auto simp: strcmp.simps cstr_len_def [of _ _ 0] bytes_Suc cstr_len_Suc uint_nonzero)
  next
    case (Suc n)
    note a = Suc.prems(1) [unfolded cstr_len_Suc]
    show ?case
    proof (cases k)
      case 0
      then show ?thesis using a Suc.prems(2)
        by (subst strcmp.simps) (auto simp: cstr_len_def [of _ _ 0] bytes_Suc uint_nonzero)
    next
      case (Suc l)
      show ?thesis
      proof (cases "m a = m b")
        case True
        have "strcmp m a b = strcmp m (a + 1) (b + 1)"
          using a True by (subst strcmp.simps) simp
        then show ?thesis using Suc.IH [of "a + 1" "b + 1" l] a Suc.prems(2) Suc True
          by (simp add: cstr_len_Suc bytes_Suc)
      next
        case False
        then show ?thesis using Suc
          by (subst strcmp.simps) (auto simp: bytes_Suc word_less_def word_uint_eq_iff)
      qed
    qed
  qed
  then show ?thesis using that by blast
qed

lemma uint_diff_zero: "uint x - uint y = 0 \<longleftrightarrow> x = y" "uint x = uint y \<longleftrightarrow> x = y" "uint x = 0 \<longleftrightarrow> x = 0" for x y :: u8
  by (auto simp: word_uint_eq_iff)

lemma strncmp_loop_zero:
  "cstr_len m (a + of_nat i) n \<Longrightarrow> cstr_len m (b + of_nat i) k \<Longrightarrow>
   strncmp_loop m a b [i..<i + d] = 0 \<longleftrightarrow>
     take d (bytes m (a + of_nat i) n) = take d (bytes m (b + of_nat i) k)"
proof (induction d arbitrary: i n k)
  case 0
  then show ?case by simp
next
  case (Suc d)
  have u: "[i..<i + Suc d] = i # [Suc i..<Suc (i + d)]" by (simp add: upt_conv_Cons)
  have IH: "strncmp_loop m a b [Suc i..<Suc (i + d)] = 0 \<longleftrightarrow>
     take d (bytes m (a + of_nat i + 1) n') = take d (bytes m (b + of_nat i + 1) k')"
    if "cstr_len m (a + of_nat i + 1) n'" "cstr_len m (b + of_nat i + 1) k'" for n' k'
    using Suc.IH [of "Suc i" n' k'] that by (simp del: upt_Suc add: add_ac)
  show ?case
    using Suc.prems unfolding u strncmp_loop.simps
    by (cases n; cases k)
      (simp_all del: upt_Suc add: cstr_len_Suc bytes_Suc cstr_len_def [of _ _ 0] IH uint_diff_zero)
qed

lemma strncmp_zero_iff:
  "cstr_len m a n \<Longrightarrow> cstr_len m b k \<Longrightarrow>
   strncmp m a b sz = 0 \<longleftrightarrow> take (unat sz) (bytes m a n) = take (unat sz) (bytes m b k)"
  using strncmp_loop_zero [of m a 0 n b k "unat sz"] by (simp add: strncmp_def)

lemma kfind_loop_eq:
  "(\<forall>i<n. m (it + of_nat i) \<noteq> target \<and> m (it + of_nat i) \<noteq> 0) \<Longrightarrow>
   kfind_loop m s1 target it = kfind_loop m s1 target (it + of_nat n)"
proof (induction n arbitrary: it)
  case (Suc n)
  have "kfind_loop m s1 target it = kfind_loop m s1 target (it + 1)"
    using Suc.prems by (subst kfind_loop.simps) auto
  then show ?case using Suc.IH [of "it + 1"] Suc.prems
    by (simp add: all_less_Suc_split add_ac)
qed simp

lemma kfind_value:
  assumes "cstr_len m (s1 + offset) n"
  shows "kfind_index_first_of_from m s1 target offset =
    Some (case find (\<lambda>i. m (s1 + offset + of_nat i) = target) [0..<Suc n] of
            None \<Rightarrow> - 1 | Some i \<Rightarrow> sint (offset + of_nat i))"
proof (cases "find (\<lambda>i. m (s1 + offset + of_nat i) = target) [0..<Suc n]")
  case None
  then have "\<forall>i<Suc n. m (s1 + offset + of_nat i) \<noteq> target" by (simp add: find_None_iff less_Suc_eq) blast
  then show ?thesis
    using kfind_loop_eq [of n m "s1 + offset" target s1] assms None
    by (simp add: kfind_index_first_of_from_def cstr_len_def kfind_loop.simps [of _ _ _ "_ + _ + of_nat _"])
next
  case (Some i)
  then obtain j where j: "j < length [0..<Suc n]" "m (s1 + offset + of_nat ([0..<Suc n] ! j)) = target"
      "i = [0..<Suc n] ! j" "\<And>k. k < j \<Longrightarrow> m (s1 + offset + of_nat ([0..<Suc n] ! k)) \<noteq> target"
    by (auto simp: find_Some_iff)
  have nth: "[0..<Suc n] ! k = k" if "k \<le> n" for k using that by (subst nth_upt) auto
  have i: "i \<le> n" "m (s1 + offset + of_nat i) = target" "\<forall>k<i. m (s1 + offset + of_nat k) \<noteq> target"
    using j nth by auto
  then have "\<forall>k<i. m (s1 + offset + of_nat k) \<noteq> target \<and> m (s1 + offset + of_nat k) \<noteq> 0"
    using assms by (auto simp: cstr_len_def)
  then show ?thesis
    using kfind_loop_eq [of i m "s1 + offset" target s1] i(2) Some
    by (simp add: kfind_index_first_of_from_def kfind_loop.simps [of _ _ _ "_ + _ + of_nat _"])
qed

section \<open>Properties\<close>

text \<open>\<^verbatim>\<open>memmove\<close> delivers the original source block whatever the overlap of the two
  blocks, and touches no byte outside the destination block.\<close>

theorem memmove_correct:
  assumes "no_wrap dst (unat sz)" "no_wrap src (unat sz)"
  shows "bytes (memmove m dst src sz) dst (unat sz) = bytes m src (unat sz) \<and>
    (\<forall>x. in_block dst (unat sz) x \<or> memmove m dst src sz x = m x)"
  using memmove_bytes [OF assms] memmove_outside by blast

theorem memmove_correct_witness:
  "bytes (memmove (\<lambda>a. ucast a) 0x1001 0x1000 3) 0x1001 (unat (3 :: u32))
     = bytes (\<lambda>a. ucast a) 0x1000 (unat (3 :: u32)) \<and>
   (\<forall>x. in_block 0x1001 (unat (3 :: u32)) x \<or> memmove (\<lambda>a. ucast a) 0x1001 0x1000 3 x = ucast x)"
  by (rule memmove_correct) (simp_all add: no_wrap_def)

text \<open>On two NUL-terminated strings \<^verbatim>\<open>strcmp\<close> returns, and the sign of its value is the
  lexicographic comparison of the strings: zero exactly on equal strings, negative exactly
  when the first is smaller.\<close>

theorem strcmp_lexicographic:
  assumes "cstr_len m s1 n1" "cstr_len m s2 n2"
  shows "\<exists>r. strcmp m s1 s2 = Some r \<and> (r = 0 \<longleftrightarrow> bytes m s1 n1 = bytes m s2 n2) \<and>
    (r < 0 \<longleftrightarrow> ord_class.lexordp (bytes m s1 n1) (bytes m s2 n2))"
  using strcmp_value [OF assms] by metis

theorem strcmp_lexicographic_witness:
  "\<exists>r. strcmp ((\<lambda>_. 0)(16 := 97, 17 := 98, 32 := 97)) 16 32 = Some r \<and>
     (r = 0 \<longleftrightarrow> [97, 98] = [97 :: u8]) \<and> (r < 0 \<longleftrightarrow> ord_class.lexordp [97, 98] [97 :: u8])"
proof -
  let ?m = "(\<lambda>_. 0)(16 := 97, 17 := 98, 32 := 97) :: mem"
  have "cstr_len ?m 16 (Suc (Suc 0))" "cstr_len ?m 32 (Suc 0)"
    unfolding cstr_len_Suc by (simp_all add: cstr_len_def)
  from strcmp_lexicographic [OF this] show ?thesis by (simp add: bytes_Suc)
qed

text \<open>When the allocator returns a block of length plus one bytes that does not overlap the
  argument, \<^verbatim>\<open>kstrdup\<close> returns, the block holds a NUL-terminated copy of the string, and
  the argument is unchanged.\<close>

theorem kstrdup_copies:
  assumes "cstr_len m s1 n" "n < 2 ^ 32 - 1" "kmalloc (of_nat n + 1) = p"
    and "\<And>i j. i \<le> n \<Longrightarrow> j \<le> n \<Longrightarrow> p + of_nat i \<noteq> s1 + of_nat j"
  shows "\<exists>m'. kstrdup kmalloc m s1 = Some (m', p) \<and> bytes m' p n = bytes m s1 n \<and>
    m' (p + of_nat n) = 0 \<and> bytes m' s1 (Suc n) = bytes m s1 (Suc n)"
proof -
  let ?w = "of_nat n :: u32" and ?m = "memcpy m p s1 (of_nat n)"
  have n: "unat ?w = n" using assms(2) by (simp add: unat_of_nat)
  have copy: "?m (p + of_nat i) = m (s1 + of_nat i)" if "i < n" for i
    by (rule memcpy_at) (use assms(4) n that in \<open>auto intro: less_imp_le\<close>)
  have keep: "?m (s1 + of_nat j) = m (s1 + of_nat j)" if "j \<le> n" for j
    by (rule memcpy_outside) (use assms(4) n that in \<open>fastforce simp: in_block_def dest: less_imp_le\<close>)
  have ne: "p + of_nat i \<noteq> p + of_nat n" if "i < n" for i
    using that assms(2) by (subst offset_inj) auto
  let ?r = "?m(p + of_nat n := 0)"
  have "kstrdup kmalloc m s1 = Some (?r, p)"
    using assms(1,3) by (simp add: kstrdup_def strlen_eq)
  moreover have "bytes ?r p n = bytes m s1 n"
    using copy ne by (simp add: bytes_eq_iff)
  moreover have "bytes ?r s1 (Suc n) = bytes m s1 (Suc n)"
    using keep assms(4) [of n] by (fastforce simp: bytes_eq_iff less_Suc_eq_le)
  ultimately show ?thesis by (intro exI [of _ ?r]) simp
qed

theorem kstrdup_copies_witness:
  "\<exists>m'. kstrdup (\<lambda>_. 64) ((\<lambda>_. 0)(16 := 97)) 16 = Some (m', 64) \<and> bytes m' 64 1 = [97] \<and>
     m' (64 + of_nat 1) = 0 \<and> bytes m' 16 (Suc 1) = [97, 0]"
proof -
  have "\<exists>m'. kstrdup (\<lambda>_. 64) ((\<lambda>_. 0)(16 := 97)) 16 = Some (m', 64) \<and>
     bytes m' 64 1 = bytes ((\<lambda>_. 0)(16 := 97)) 16 1 \<and> m' (64 + of_nat 1) = 0 \<and>
     bytes m' 16 (Suc 1) = bytes ((\<lambda>_. 0)(16 := 97)) 16 (Suc 1)"
    by (rule kstrdup_copies) (auto simp: cstr_len_def le_Suc_eq)
  then show ?thesis by (simp add: bytes_def)
qed

end
