(* ===== verification/Ring_Queue.thy ===== *)
theory Ring_Queue
  imports Libk_String
begin

text \<open>
  The ring buffer of pointers of \<^verbatim>\<open>kernel/utils/data_structs/ring_queue.c\<close>, the request
  queue of a storage device. The descriptor is a record, the slots live in the flat
  memory, and \<^verbatim>\<open>kmalloc\<close> is a parameter: a function from the requested size to the
  address of the block, whose contents are whatever the memory holds there. The size
  passed to it wraps at 32 bits as in the code; an access behind the block is an access to
  other memory, so the lemmas bound the capacity. Where \<^verbatim>\<open>ring_queue_grow\<close> does not install
  the new block it releases it, which leaves the memory of the queue as it is.

  The interface locale \<open>bounded_fifo\<close> states what a client relies on; its lemma says that
  every history of pushes and pops that stays within the capacity answers like a list
  queue. The ring buffer is an interpretation of it.
\<close>

section \<open>Definitions\<close>

record ring_queue =
  rq_head :: usize_ptr
  rq_count :: usize_ptr
  rq_capacity :: usize_ptr
  rq_arr :: usize_ptr

definition RING_QUEUE_INIT_CAPACITY :: usize_ptr where
  "RING_QUEUE_INIT_CAPACITY = 16"

definition ring_queue_init :: "(usize_ptr \<Rightarrow> usize_ptr) \<Rightarrow> ring_queue kres" where
  "ring_queue_init kmalloc =
     (let arr = kmalloc (4 * RING_QUEUE_INIT_CAPACITY)
      in kbind (kassert (arr \<noteq> NULL))
           (\<lambda>_. Inr \<lparr>rq_head = 0, rq_count = 0, rq_capacity = RING_QUEUE_INIT_CAPACITY, rq_arr = arr\<rparr>))"

definition ring_queue_init_capacity :: "(usize_ptr \<Rightarrow> usize_ptr) \<Rightarrow> usize_ptr \<Rightarrow> ring_queue kres" where
  "ring_queue_init_capacity kmalloc init_capacity =
     kbind (kassert (init_capacity AND (init_capacity - 1) = 0)) (\<lambda>_.
     (let arr = kmalloc (4 * init_capacity)
      in kbind (kassert (arr \<noteq> NULL))
           (\<lambda>_. Inr \<lparr>rq_head = 0, rq_count = 0, rq_capacity = init_capacity, rq_arr = arr\<rparr>)))"

definition ring_queue_get_index :: "ring_queue \<Rightarrow> usize_ptr \<Rightarrow> usize_ptr" where
  "ring_queue_get_index queue offset = (rq_head queue + offset) AND (rq_capacity queue - 1)"

definition ring_queue_grow ::
  "(usize_ptr \<Rightarrow> usize_ptr) \<Rightarrow> mem \<times> ring_queue \<Rightarrow> bool \<times> mem \<times> ring_queue" where
  "ring_queue_grow kmalloc = (\<lambda>(m, queue).
     let head = rq_head queue; capacity = rq_capacity queue; count = rq_count queue;
         arr = rq_arr queue;
         start_arr_item_count = count - (capacity - head);
         new_capacity = capacity * 2;
         new_arr = kmalloc (new_capacity * 4);
         m = memcpy m new_arr arr (start_arr_item_count * 4);
         new_head = head + capacity;
         m = memmove m (new_arr + 4 * new_head) (new_arr + 4 * head) (min (capacity - head) (count - head))
     in if rq_capacity queue < new_capacity
        then (True, m, queue\<lparr>rq_arr := new_arr, rq_head := new_head, rq_capacity := new_capacity\<rparr>)
        else (True, m, queue))"

definition ring_queue_ensure_size ::
  "(usize_ptr \<Rightarrow> usize_ptr) \<Rightarrow> mem \<times> ring_queue \<Rightarrow> usize_ptr \<Rightarrow> bool \<times> mem \<times> ring_queue" where
  "ring_queue_ensure_size kmalloc = (\<lambda>(m, queue) add_count.
     let count = ucast (rq_count queue) :: usize; capacity = ucast (rq_capacity queue) :: usize
     in if capacity < count + ucast add_count then ring_queue_grow kmalloc (m, queue)
        else (True, m, queue))"

definition ring_queue_push ::
  "(usize_ptr \<Rightarrow> usize_ptr) \<Rightarrow> usize_ptr \<Rightarrow> mem \<times> ring_queue \<Rightarrow> bool \<times> mem \<times> ring_queue" where
  "ring_queue_push kmalloc item s =
     (case ring_queue_ensure_size kmalloc s 1 of
        (False, s) \<Rightarrow> (False, s)
      | (True, m, queue) \<Rightarrow>
          let relative_index = ring_queue_get_index queue (rq_count queue)
          in (True, store32 m (rq_arr queue + 4 * relative_index) item,
              queue\<lparr>rq_count := rq_count queue + 1\<rparr>))"

definition ring_queue_pop :: "mem \<times> ring_queue \<Rightarrow> usize_ptr \<times> mem \<times> ring_queue" where
  "ring_queue_pop = (\<lambda>(m, queue).
     if rq_count queue = 0 then (NULL, m, queue)
     else (load32 m (rq_arr queue + 4 * rq_head queue), m,
           queue\<lparr>rq_head := ring_queue_get_index queue 1, rq_count := rq_count queue - 1\<rparr>))"

definition ring_queue_is_empty :: "ring_queue \<Rightarrow> bool" where
  "ring_queue_is_empty queue \<longleftrightarrow> rq_count queue = 0"

section \<open>The interface of a bounded queue\<close>

datatype 'a qop = Push 'a | Pop

text \<open>The answers of the pops of a history.\<close>

fun qrun :: "('a \<Rightarrow> 's \<Rightarrow> 's) \<Rightarrow> ('s \<Rightarrow> 'a \<times> 's) \<Rightarrow> 'a qop list \<Rightarrow> 's \<Rightarrow> 'a list" where
  "qrun push pop [] s = []"
| "qrun push pop (Push x # ops) s = qrun push pop ops (push x s)"
| "qrun push pop (Pop # ops) s = (let (x, s') = pop s in x # qrun push pop ops s')"

definition list_push :: "'a \<Rightarrow> 'a list \<Rightarrow> 'a list" where
  "list_push x xs = xs @ [x]"

definition list_pop :: "'a \<Rightarrow> 'a list \<Rightarrow> 'a \<times> 'a list" where
  "list_pop d xs = (case xs of [] \<Rightarrow> (d, []) | x # xs' \<Rightarrow> (x, xs'))"

text \<open>A history that starts with \<open>n\<close> items never holds more than \<open>c\<close> of them.\<close>

fun qfits :: "nat \<Rightarrow> 'a qop list \<Rightarrow> nat \<Rightarrow> bool" where
  "qfits c [] n = True"
| "qfits c (Push x # ops) n = (n < c \<and> qfits c ops (Suc n))"
| "qfits c (Pop # ops) n = qfits c ops (n - 1)"

locale bounded_fifo =
  fixes inv :: "'s \<Rightarrow> bool" and items :: "'s \<Rightarrow> 'a list" and cap :: "'s \<Rightarrow> nat"
    and push :: "'a \<Rightarrow> 's \<Rightarrow> 's" and pop :: "'s \<Rightarrow> 'a \<times> 's" and null :: 'a
  assumes push_inv: "inv s \<Longrightarrow> length (items s) < cap s \<Longrightarrow> inv (push x s)"
    and push_items: "inv s \<Longrightarrow> length (items s) < cap s \<Longrightarrow> items (push x s) = list_push x (items s)"
    and push_cap: "inv s \<Longrightarrow> length (items s) < cap s \<Longrightarrow> cap (push x s) = cap s"
    and pop_inv: "inv s \<Longrightarrow> inv (snd (pop s))"
    and pop_cap: "inv s \<Longrightarrow> cap (snd (pop s)) = cap s"
    and pop_items: "inv s \<Longrightarrow> (fst (pop s), items (snd (pop s))) = list_pop null (items s)"
begin

lemma pop_length: "inv s \<Longrightarrow> length (items (snd (pop s))) = length (items s) - 1"
  using pop_items [of s] by (auto simp: list_pop_def split: list.splits)

lemma history_refines_list:
  "inv s \<Longrightarrow> qfits (cap s) ops (length (items s)) \<Longrightarrow>
   qrun push pop ops s = qrun list_push (list_pop null) ops (items s)"
proof (induction ops arbitrary: s)
  case (Cons op ops)
  show ?case
  proof (cases op)
    case (Push x)
    with Cons show ?thesis
      by (simp add: push_inv push_items push_cap list_push_def)
  next
    case Pop
    have "list_pop null (items s) = (fst (pop s), items (snd (pop s)))"
      using Cons.prems(1) by (simp only: pop_items)
    with Pop Cons show ?thesis
      by (simp add: pop_inv pop_cap pop_length split_beta)
  qed
qed simp

lemma push_all_pop_all:
  assumes "inv s" "items s = []" "length xs \<le> cap s"
  shows "qrun push pop (map Push xs @ replicate (length xs) Pop) s = xs"
proof -
  have fit: "qfits c (map Push ys @ replicate k Pop) n" if "n + length ys \<le> c" for c ys k n
    using that
  proof (induction ys arbitrary: n)
    case Nil
    show ?case by (induction k arbitrary: n) auto
  qed auto
  have spec: "qrun list_push (list_pop null) (map Push ys @ replicate (length zs + length ys) Pop) zs = zs @ ys" for ys zs
  proof (induction ys arbitrary: zs)
    case Nil
    show ?case by (induction zs) (auto simp: list_pop_def)
  next
    case (Cons y ys)
    show ?case using Cons.IH [of "zs @ [y]"] by (simp add: list_push_def)
  qed
  show ?thesis
    using history_refines_list [OF assms(1)] fit [of 0 xs "cap s"] spec [of xs "[]"] assms(2,3) by simp
qed

end

section \<open>The ring buffer provides it\<close>

definition rq_inv :: "mem \<times> ring_queue \<Rightarrow> bool" where
  "rq_inv = (\<lambda>(m, q). is_pow2 (unat (rq_capacity q)) \<and> 4 * unat (rq_capacity q) \<le> 2 ^ 32 \<and>
     rq_head q < rq_capacity q \<and> rq_count q \<le> rq_capacity q)"

text \<open>The word in slot \<open>k\<close> of the array.\<close>

definition rq_slot :: "mem \<Rightarrow> ring_queue \<Rightarrow> nat \<Rightarrow> usize_ptr" where
  "rq_slot m q k = load32 m (rq_arr q + of_nat (4 * k))"

definition rq_items :: "mem \<times> ring_queue \<Rightarrow> usize_ptr list" where
  "rq_items = (\<lambda>(m, q). map (\<lambda>i. rq_slot m q ((unat (rq_head q) + i) mod unat (rq_capacity q)))
     [0..<unat (rq_count q)])"

definition rq_cap :: "mem \<times> ring_queue \<Rightarrow> nat" where
  "rq_cap = (\<lambda>(m, q). unat (rq_capacity q))"

lemma length_rq_items [simp]: "length (rq_items (m, q)) = unat (rq_count q)"
  by (simp add: rq_items_def)

lemma four_times: "4 * (w :: u32) = of_nat (4 * unat w)"
  by simp

lemma get_index_nat:
  assumes "rq_inv (m, q)" "unat off \<le> unat (rq_capacity q)"
  shows "unat (ring_queue_get_index q off) = (unat (rq_head q) + unat off) mod unat (rq_capacity q)"
proof -
  have "unat (rq_head q) + unat off < 2 ^ 32"
    using assms by (auto simp: rq_inv_def word_less_nat_alt)
  then have "unat (rq_head q + off) = unat (rq_head q) + unat off"
    by (simp add: unat_word_ariths)
  then show ?thesis
    using assms(1) by (simp add: ring_queue_get_index_def is_pow2_mask rq_inv_def)
qed

lemma slot_store:
  assumes "rq_inv (m, q)" "i < unat (rq_capacity q)" "k < unat (rq_capacity q)"
  shows "rq_slot (store32 m (rq_arr q + of_nat (4 * i)) v) q k = (if i = k then v else rq_slot m q k)"
proof (cases "i = k")
  case True
  then show ?thesis by (simp only: rq_slot_def load32_store32_same if_True refl)
next
  case False
  have "load32 (store32 m (rq_arr q + of_nat (4 * i)) v) (rq_arr q + of_nat (4 * k))
      = load32 m (rq_arr q + of_nat (4 * k))"
    by (rule load32_store32_other) (use assms False in \<open>auto simp: rq_inv_def\<close>)
  with False show ?thesis by (simp only: rq_slot_def if_False)
qed

lemma ensure_size_room:
  assumes "rq_count q < rq_capacity q"
  shows "ring_queue_ensure_size km (m, q) 1 = (True, m, q)"
proof -
  have c: "unat (rq_count q) < unat (rq_capacity q)" using assms by (simp add: word_less_nat_alt)
  have "unat (ucast (rq_count q) + 1 :: u64) = unat (rq_count q) + 1"
    using unat_u32_lt [of "rq_count q"] by (simp add: unat_word_ariths del: unat_u32_lt)
  then have "\<not> (ucast (rq_capacity q) :: u64) < ucast (rq_count q) + 1"
    using c by (simp add: word_less_nat_alt)
  then show ?thesis by (simp add: ring_queue_ensure_size_def)
qed

lemma push_room:
  assumes "rq_count q < rq_capacity q"
  shows "ring_queue_push km x (m, q) =
    (True, store32 m (rq_arr q + 4 * ring_queue_get_index q (rq_count q)) x, q\<lparr>rq_count := rq_count q + 1\<rparr>)"
  using assms by (simp add: ring_queue_push_def ensure_size_room Let_def)

lemma push_items_ring:
  assumes "rq_inv (m, q)" "rq_count q < rq_capacity q"
  shows "rq_items (snd (ring_queue_push km x (m, q))) = rq_items (m, q) @ [x]"
proof -
  let ?h = "unat (rq_head q)" and ?c = "unat (rq_capacity q)" and ?n = "unat (rq_count q)"
  let ?i = "ring_queue_get_index q (rq_count q)"
  have n: "?n < ?c" using assms(2) by (simp add: word_less_nat_alt)
  have i: "unat ?i = (?h + ?n) mod ?c" using get_index_nat [OF assms(1)] n by simp
  let ?m = "store32 m (rq_arr q + of_nat (4 * unat ?i)) x"
  have slot: "rq_slot ?m q ((?h + j) mod ?c) = (if j = ?n then x else rq_slot m q ((?h + j) mod ?c))"
    if "j \<le> ?n" for j
    using slot_store [OF assms(1), of "unat ?i" "(?h + j) mod ?c" x] n i that
      mod_add_inj [of ?n ?c j ?h] by auto
  have un: "unat (rq_count q + 1) = Suc ?n" using n by (rule unat_Suc_lt)
  have "rq_items (snd (ring_queue_push km x (m, q)))
      = map (\<lambda>j. rq_slot ?m q ((?h + j) mod ?c)) [0..<Suc ?n]"
    unfolding push_room [OF assms(2)] four_times rq_items_def rq_slot_def
    by (simp del: upt_Suc add: un)
  also have "\<dots> = map (\<lambda>j. if j = ?n then x else rq_slot m q ((?h + j) mod ?c)) [0..<Suc ?n]"
    by (rule map_cong [OF refl]) (rule slot, auto)
  also have "\<dots> = rq_items (m, q) @ [x]"
    by (auto simp: rq_items_def)
  finally show ?thesis .
qed

lemma push_inv_ring:
  assumes "rq_inv (m, q)" "rq_count q < rq_capacity q"
  shows "rq_inv (snd (ring_queue_push km x (m, q)))"
  using assms unat_Suc_lt [of "rq_count q" "rq_capacity q"]
  by (simp add: push_room rq_inv_def word_less_nat_alt word_le_nat_alt)

lemma pop_ring:
  assumes "rq_inv (m, q)"
  shows "rq_inv (snd (ring_queue_pop (m, q)))"
    and "(fst (ring_queue_pop (m, q)), rq_items (snd (ring_queue_pop (m, q)))) = list_pop NULL (rq_items (m, q))"
    and "rq_cap (snd (ring_queue_pop (m, q))) = rq_cap (m, q)"
proof -
  let ?h = "unat (rq_head q)" and ?c = "unat (rq_capacity q)" and ?n = "unat (rq_count q)"
  have h: "?h < ?c" using assms by (simp add: rq_inv_def word_less_nat_alt)
  have "unat (1 :: u32) \<le> ?c" using h by simp
  with get_index_nat [OF assms] have i: "unat (ring_queue_get_index q 1) = (?h + 1) mod ?c"
    by (simp only: unat_1)
  have c0: "rq_count q \<noteq> 0 \<Longrightarrow> unat (rq_count q - 1) = ?n - 1"
    by (simp add: unat_minus_one)
  have i_lt: "unat (ring_queue_get_index q 1) < ?c" using i h by simp
  show "rq_inv (snd (ring_queue_pop (m, q)))"
    using assms i_lt c0
    by (auto simp: ring_queue_pop_def rq_inv_def word_less_nat_alt word_le_nat_alt)
  show "rq_cap (snd (ring_queue_pop (m, q))) = rq_cap (m, q)"
    by (simp add: ring_queue_pop_def rq_cap_def)
  show "(fst (ring_queue_pop (m, q)), rq_items (snd (ring_queue_pop (m, q)))) = list_pop NULL (rq_items (m, q))"
  proof (cases "?n")
    case 0
    then have "rq_count q = 0" by (simp add: unat_eq_zero)
    then show ?thesis by (simp add: ring_queue_pop_def rq_items_def list_pop_def)
  next
    case (Suc k)
    then have nz: "rq_count q \<noteq> 0" by auto
    have "rq_items (m, q) = rq_slot m q ?h # map (\<lambda>j. rq_slot m q ((?h + Suc j) mod ?c)) [0..<k]"
      using Suc h by (simp add: rq_items_def upt_conv_Cons map_Suc_upt [symmetric] del: upt_Suc)
    moreover have "((?h + 1) mod ?c + j) mod ?c = (?h + Suc j) mod ?c" for j
      by (simp add: mod_simps)
    ultimately show ?thesis
      using nz c0 Suc i unfolding list_pop_def ring_queue_pop_def four_times
      by (simp add: rq_items_def rq_slot_def)
  qed
qed

interpretation ring: bounded_fifo rq_inv rq_items rq_cap
  "\<lambda>x s. snd (ring_queue_push km x s)" ring_queue_pop NULL
proof unfold_locales
  fix s x assume s: "rq_inv s" "length (rq_items s) < rq_cap s"
  obtain m q where mq: "s = (m, q)" by (cases s)
  have room: "rq_count q < rq_capacity q"
    using s by (simp add: mq rq_cap_def word_less_nat_alt)
  show "rq_inv (snd (ring_queue_push km x s))" using s(1) room by (simp add: mq push_inv_ring)
  show "rq_items (snd (ring_queue_push km x s)) = list_push x (rq_items s)"
    using s(1) room by (simp add: mq push_items_ring list_push_def)
  show "rq_cap (snd (ring_queue_push km x s)) = rq_cap s"
    using room by (simp add: mq push_room rq_cap_def)
next
  fix s assume s: "rq_inv s"
  obtain m q where mq: "s = (m, q)" by (cases s)
  show "rq_inv (snd (ring_queue_pop s))" "rq_cap (snd (ring_queue_pop s)) = rq_cap s"
    "(fst (ring_queue_pop s), rq_items (snd (ring_queue_pop s))) = list_pop NULL (rq_items s)"
    using pop_ring [of m q] s mq by simp_all
qed

lemma init_ring:
  assumes "ring_queue_init_capacity km c = Inr q" "c \<noteq> 0" "4 * unat c \<le> 2 ^ 32"
  shows "rq_inv (m, q)" "rq_items (m, q) = []" "rq_cap (m, q) = unat c"
  using assms by (auto simp: ring_queue_init_capacity_def kbind_Inr_iff Let_def rq_inv_def rq_items_def
      rq_cap_def word_pow2_iff word_less_nat_alt unat_gt_0)

text \<open>
  The size that is asked of \<^verbatim>\<open>kmalloc\<close> is a product of 32 bits. For the powers of two from
  \<open>2 ^ 30\<close> on it is 0: the queue is created, with a block that has no slot.
\<close>

lemma init_size_wraps:
  assumes "c = 0x40000000 \<or> c = 0x80000000" "kmalloc 0 \<noteq> NULL"
  shows "ring_queue_init_capacity kmalloc c = Inr \<lparr>rq_head = 0, rq_count = 0, rq_capacity = c, rq_arr = kmalloc 0\<rparr>"
proof -
  have "4 * c = 0" "c AND (c - 1) = 0" using assms(1) by auto
  then show ?thesis using assms(2) by (simp add: ring_queue_init_capacity_def Let_def)
qed

section \<open>Growing a full queue\<close>

text \<open>
  When the queue is full and has not wrapped (\<open>head = 0\<close>), \<^verbatim>\<open>ring_queue_grow\<close> copies
  \<open>count - (capacity - head) = 0\<close> items into the new array and then moves bytes of the new
  array itself, so that the grown queue reads only what the new block held before.
\<close>

lemma grow_full:
  assumes "rq_inv (m, q)" "rq_head q = 0" "rq_count q = rq_capacity q" "8 * unat (rq_capacity q) < 2 ^ 32"
  shows "snd (ring_queue_grow km (m, q)) =
    (memmove m (km (rq_capacity q * 8) + 4 * rq_capacity q) (km (rq_capacity q * 8)) (rq_capacity q),
     q\<lparr>rq_arr := km (rq_capacity q * 8), rq_head := rq_capacity q, rq_capacity := rq_capacity q * 2\<rparr>)"
proof -
  have "unat (rq_capacity q * 2) = unat (rq_capacity q) * 2"
    using assms(4) by (simp add: unat_word_ariths)
  moreover have "0 < unat (rq_capacity q)" using assms(1) by (auto simp: rq_inv_def is_pow2_pos)
  ultimately have "rq_capacity q < rq_capacity q * 2" by (simp add: word_less_nat_alt)
  moreover have "memcpy m a b 0 = m" for a b by (simp add: memcpy_def)
  ultimately show ?thesis
    using assms(2,3) by (simp add: ring_queue_grow_def Let_def mult.assoc)
qed

lemma memmove_agree:
  assumes "no_wrap dst (unat sz)" "no_wrap src (unat sz)"
    and "\<And>i. i < unat sz \<Longrightarrow> m (src + of_nat i) = m' (src + of_nat i)" "m x = m' x"
  shows "memmove m dst src sz x = memmove m' dst src sz x"
proof (cases "in_block dst (unat sz) x")
  case True
  then obtain i where "i < unat sz" "x = dst + of_nat i" by (auto simp: in_block_def)
  with assms show ?thesis by (simp add: memmove_at)
next
  case False
  with assms(4) show ?thesis by (simp add: memmove_outside)
qed

lemma grow_agree:
  assumes inv: "rq_inv (m, q)" and full: "rq_head q = 0" "rq_count q = rq_capacity q"
    and fits: "8 * unat (rq_capacity q) < 2 ^ 32" "no_wrap (km (rq_capacity q * 8)) (8 * unat (rq_capacity q))"
    and agree: "bytes m (km (rq_capacity q * 8)) (8 * unat (rq_capacity q))
              = bytes m' (km (rq_capacity q * 8)) (8 * unat (rq_capacity q))"
  shows "rq_items (snd (ring_queue_grow km (m, q))) = rq_items (snd (ring_queue_grow km (m', q)))"
proof -
  let ?c = "unat (rq_capacity q)" and ?a = "km (rq_capacity q * 8)"
  have inv': "rq_inv (m', q)" using inv by (simp add: rq_inv_def)
  have ag: "m (?a + of_nat i) = m' (?a + of_nat i)" if "i < 8 * ?c" for i
    using agree that by (simp add: bytes_eq_iff)
  have c4: "unat (4 * rq_capacity q) = 4 * ?c" using fits(1) by (simp add: unat_word_ariths)
  have c2: "unat (rq_capacity q * 2) = 2 * ?c" using fits(1) by (simp add: unat_word_ariths)
  have base: "unat (?a + 4 * rq_capacity q) = unat ?a + 4 * ?c" if "?c > 0"
    using unat_offset [OF fits(2), of "4 * ?c"] that c4 by simp
  have pos: "0 < ?c" using inv by (auto simp: rq_inv_def is_pow2_pos)
  have nw: "no_wrap ?a ?c" "no_wrap (?a + 4 * rq_capacity q) ?c"
    using fits(2) base pos by (auto simp: no_wrap_def)
  have "load32 (memmove m (?a + 4 * rq_capacity q) ?a (rq_capacity q)) (?a + of_nat (4 * k))
      = load32 (memmove m' (?a + 4 * rq_capacity q) ?a (rq_capacity q)) (?a + of_nat (4 * k))"
    if "k < 2 * ?c" for k
  proof (rule load32_cong)
    fix j :: nat assume "j < 4"
    then have "m (?a + of_nat (4 * k + j)) = m' (?a + of_nat (4 * k + j))" using that by (intro ag) simp
    then have "m (?a + of_nat (4 * k) + of_nat j) = m' (?a + of_nat (4 * k) + of_nat j)"
      by (simp add: add.assoc)
    with nw ag show "memmove m (?a + 4 * rq_capacity q) ?a (rq_capacity q) (?a + of_nat (4 * k) + of_nat j)
      = memmove m' (?a + 4 * rq_capacity q) ?a (rq_capacity q) (?a + of_nat (4 * k) + of_nat j)"
      by (intro memmove_agree) auto
  qed
  then show ?thesis
    unfolding grow_full [OF inv full fits(1)] grow_full [OF inv' full fits(1)] rq_items_def rq_slot_def
    by (auto simp: c2 pos simp del: of_nat_mult)
qed

section \<open>Properties\<close>

text \<open>C28. A fresh ring queue answers every history of pushes and pops that never holds more
  than its capacity exactly like a first-in first-out list queue: each pop returns the
  oldest item not yet popped, and NULL when the queue is empty. The size of the slots in
  bytes must fit 32 bits: from a capacity of \<open>2 ^ 30\<close> on it wraps (see \<open>init_size_wraps\<close>).\<close>

theorem ring_queue_fifo:
  assumes "ring_queue_init_capacity kmalloc c = Inr q" "c \<noteq> 0" "4 * unat c < 2 ^ 32"
    and "qfits (unat c) ops 0"
  shows "qrun (\<lambda>x s. snd (ring_queue_push kmalloc x s)) ring_queue_pop ops (m, q)
       = qrun list_push (list_pop NULL) ops []"
  using ring.history_refines_list [of "(m, q)" ops kmalloc] init_ring [OF assms(1,2) less_imp_le [OF assms(3)], of m] assms(4) by simp

theorem ring_queue_fifo_witness:
  "qrun (\<lambda>x s. snd (ring_queue_push (\<lambda>_. 4096) x s)) ring_queue_pop
     [Push 7, Push 8, Pop, Push 9, Pop, Pop, Pop]
     (\<lambda>_. 0, \<lparr>rq_head = 0, rq_count = 0, rq_capacity = 2, rq_arr = 4096\<rparr>) = [7, 8, 9, 0]"
  by (subst ring_queue_fifo [where c = 2])
    (simp_all add: ring_queue_init_capacity_def list_push_def list_pop_def)

text \<open>Growing a full, unwrapped queue loses its contents: the items of the grown queue
  are a function of the bytes the freshly allocated block happened to hold, and do not
  depend on what was queued.\<close>

theorem ring_queue_grow_forgets:
  assumes "rq_inv (m, q)" "rq_head q = 0" "rq_count q = rq_capacity q"
    and "8 * unat (rq_capacity q) < 2 ^ 32"
    and "no_wrap (kmalloc (rq_capacity q * 8)) (8 * unat (rq_capacity q))"
    and "bytes m (kmalloc (rq_capacity q * 8)) (8 * unat (rq_capacity q))
       = bytes m' (kmalloc (rq_capacity q * 8)) (8 * unat (rq_capacity q))"
  shows "rq_items (snd (ring_queue_grow kmalloc (m, q))) = rq_items (snd (ring_queue_grow kmalloc (m', q)))"
  using assms by (rule grow_agree)

theorem ring_queue_grow_forgets_witness:
  "let q = \<lparr>rq_head = 0, rq_count = 1, rq_capacity = 1, rq_arr = 64\<rparr>;
       m = store32 (\<lambda>_. 0) 64 5; m' = store32 (\<lambda>_. 0) 64 6
   in rq_items (m, q) = [5] \<and> rq_items (m', q) = [6] \<and>
      rq_items (snd (ring_queue_grow (\<lambda>_. 4096) (m, q))) = rq_items (snd (ring_queue_grow (\<lambda>_. 4096) (m', q)))"
proof -
  have one: "is_pow2 (Suc 0)" using is_pow2I [of 0] by simp
  have "rq_items (snd (ring_queue_grow (\<lambda>_. 4096) (store32 (\<lambda>_. 0) 64 5, \<lparr>rq_head = 0, rq_count = 1, rq_capacity = 1, rq_arr = 64\<rparr>)))
      = rq_items (snd (ring_queue_grow (\<lambda>_. 4096) (store32 (\<lambda>_. 0) 64 6, \<lparr>rq_head = 0, rq_count = 1, rq_capacity = 1, rq_arr = 64\<rparr>)))"
    by (rule ring_queue_grow_forgets)
      (simp_all add: rq_inv_def one no_wrap_def store32_def bytes_eq_iff unat_of_nat word_unat_eq_iff unat_word_ariths)
  then show ?thesis
    unfolding Let_def by (simp add: rq_items_def rq_slot_def del: load32_store32_same) simp
qed

end
