(* ===== verification/Murmur_Hash.thy ===== *)
theory Murmur_Hash
  imports Core_Defs Libk_String
begin

text \<open>
  The MurmurHash2 routines of \<^verbatim>\<open>kernel/utils/hash/murmur2_hash.c\<close>, which read their
  input through a pointer and an index computed on 32-bit words. The reference functions
  \<open>murmur32_ref\<close> and \<open>murmur64_ref\<close> consume a list of bytes; the code is proved equal to
  them on the bytes of its input block, so a hash depends on nothing but these bytes.
\<close>

section \<open>Definitions\<close>

definition murmur32_m :: u32 where "murmur32_m = 0x5BD1E995"

definition murmur64_m :: u64 where "murmur64_m = 0xC6A4A7935BD1E995"

text \<open>One chunk of the 32-bit hash: the body of the \<^verbatim>\<open>for\<close> loop.\<close>

definition murmur32_step :: "mem \<Rightarrow> u32 \<Rightarrow> u32 \<Rightarrow> u32 \<Rightarrow> u32" where
  "murmur32_step m data i4 hash =
     (let index = i4 * 4;
          k = push_bit 0 (ucast (m (data + (index + 0)) AND 0xFF))
            + push_bit 8 (ucast (m (data + (index + 1)) AND 0xFF))
            + push_bit 16 (ucast (m (data + (index + 2)) AND 0xFF))
            + push_bit 24 (ucast (m (data + (index + 3)) AND 0xFF));
          k = k * murmur32_m;
          k = k XOR drop_bit 24 k;
          k = k * murmur32_m
      in (hash * murmur32_m) XOR k)"

text \<open>The \<^verbatim>\<open>switch\<close> with its fall-through cases.\<close>

definition murmur32_tail :: "mem \<Rightarrow> u32 \<Rightarrow> u32 \<Rightarrow> u32 \<Rightarrow> u32" where
  "murmur32_tail m data len hash =
     (let base = len AND NOT 3; r = len mod 4;
          hash = (if r = 3 then hash XOR push_bit 16 (ucast (m (data + (base + 2))) AND 0xFF) else hash);
          hash = (if r = 3 \<or> r = 2 then hash XOR push_bit 8 (ucast (m (data + (base + 1))) AND 0xFF) else hash)
      in if r = 3 \<or> r = 2 \<or> r = 1
         then (hash XOR push_bit 0 (ucast (m (data + (base + 0))) AND 0xFF)) * murmur32_m
         else hash)"

definition murmur32_final :: "u32 \<Rightarrow> u32" where
  "murmur32_final hash =
     (let hash = hash XOR drop_bit 13 hash; hash = hash * murmur32_m in hash XOR drop_bit 15 hash)"

definition murmur2_hash32_seed :: "mem \<Rightarrow> u32 \<Rightarrow> u32 \<Rightarrow> u32 \<Rightarrow> u32" where
  "murmur2_hash32_seed m data len seed =
     (let hash = seed XOR len;
          length4 = len div 4;
          hash = fold (\<lambda>i. murmur32_step m data (of_nat i)) [0..<unat length4] hash;
          hash = murmur32_tail m data len hash
      in murmur32_final hash)"

definition murmur2_hash32 :: "mem \<Rightarrow> u32 \<Rightarrow> u32 \<Rightarrow> u32" where
  "murmur2_hash32 m data len = murmur2_hash32_seed m data len 0x9747B28C"

definition murmur64_step :: "mem \<Rightarrow> u32 \<Rightarrow> u32 \<Rightarrow> u64 \<Rightarrow> u64" where
  "murmur64_step m data i8 hash =
     (let index = i8 * 8;
          k = push_bit 0 (ucast (m (data + (index + 0)) AND 0xFF))
            + push_bit 8 (ucast (m (data + (index + 1)) AND 0xFF))
            + push_bit 16 (ucast (m (data + (index + 2)) AND 0xFF))
            + push_bit 24 (ucast (m (data + (index + 3)) AND 0xFF))
            + push_bit 32 (ucast (m (data + (index + 4)) AND 0xFF))
            + push_bit 40 (ucast (m (data + (index + 5)) AND 0xFF))
            + push_bit 48 (ucast (m (data + (index + 6)) AND 0xFF))
            + push_bit 56 (ucast (m (data + (index + 7)) AND 0xFF));
          k = k * murmur64_m;
          k = k XOR drop_bit 47 k;
          k = k * murmur64_m
      in (hash * murmur64_m) XOR k)"

text \<open>The loop counter \<open>i8\<close> has 32 bits and the bound \<open>length8\<close> has 64.\<close>

partial_function (option) murmur64_loop :: "mem \<Rightarrow> u32 \<Rightarrow> u64 \<Rightarrow> u32 \<Rightarrow> u64 \<Rightarrow> u64 option" where
  "murmur64_loop m data length8 i8 hash =
     (if ucast i8 < length8 then murmur64_loop m data length8 (i8 + 1) (murmur64_step m data i8 hash)
      else Some hash)"

declare murmur64_loop.simps [code]

definition murmur64_tail :: "mem \<Rightarrow> u32 \<Rightarrow> u64 \<Rightarrow> u64 \<Rightarrow> u64" where
  "murmur64_tail m data len hash =
     (let base = len AND NOT 7; r = unat (len mod 8);
          byte = (\<lambda>j :: u64. ucast (m (data + ucast (base + j)) AND 0xFF) :: u64);
          hash = (if r \<ge> 7 then hash XOR push_bit 48 (byte 6) else hash);
          hash = (if r \<ge> 6 then hash XOR push_bit 40 (byte 5) else hash);
          hash = (if r \<ge> 5 then hash XOR push_bit 32 (byte 4) else hash);
          hash = (if r \<ge> 4 then hash XOR push_bit 24 (byte 3) else hash);
          hash = (if r \<ge> 3 then hash XOR push_bit 16 (byte 2) else hash);
          hash = (if r \<ge> 2 then hash XOR push_bit 8 (byte 1) else hash)
      in if r \<ge> 1 then (hash XOR push_bit 0 (byte 0)) * murmur64_m else hash)"

definition murmur64_final :: "u64 \<Rightarrow> u64" where
  "murmur64_final hash =
     (let hash = hash XOR drop_bit 47 hash; hash = hash * murmur64_m in hash XOR drop_bit 47 hash)"

definition murmur2_hash64_seed :: "mem \<Rightarrow> u32 \<Rightarrow> u64 \<Rightarrow> u32 \<Rightarrow> u64 option" where
  "murmur2_hash64_seed m data len seed = do {
     hash \<leftarrow> murmur64_loop m data (len div 8) 0 (ucast seed XOR len);
     Some (murmur64_final (murmur64_tail m data len hash))
   }"

definition murmur2_hash64 :: "mem \<Rightarrow> u32 \<Rightarrow> u64 \<Rightarrow> u64 option" where
  "murmur2_hash64 m data len = murmur2_hash64_seed m data len 0xe17a1465"

section \<open>Reference functions on byte lists\<close>

definition mix32 :: "u32 \<Rightarrow> u32 \<Rightarrow> u32" where
  "mix32 hash k =
     (hash * murmur32_m) XOR (((k * murmur32_m) XOR drop_bit 24 (k * murmur32_m)) * murmur32_m)"

definition mix64 :: "u64 \<Rightarrow> u64 \<Rightarrow> u64" where
  "mix64 hash k =
     (hash * murmur64_m) XOR (((k * murmur64_m) XOR drop_bit 47 (k * murmur64_m)) * murmur64_m)"

text \<open>The little-endian value of a list of bytes.\<close>

fun le_val :: "u8 list \<Rightarrow> 'a::len word" where
  "le_val [] = 0"
| "le_val (b # bs) = ucast b + push_bit 8 (le_val bs)"

fun murmur32_body :: "u8 list \<Rightarrow> u32 \<Rightarrow> u32" where
  "murmur32_body bs hash =
     (if bs = [] then hash
      else if length bs < 4 then (hash XOR le_val bs) * murmur32_m
      else murmur32_body (drop 4 bs) (mix32 hash (le_val (take 4 bs))))"

declare murmur32_body.simps [simp del]

definition murmur32_ref :: "u32 \<Rightarrow> u8 list \<Rightarrow> u32" where
  "murmur32_ref seed bs = murmur32_final (murmur32_body bs (seed XOR of_nat (length bs)))"

fun murmur64_body :: "u8 list \<Rightarrow> u64 \<Rightarrow> u64" where
  "murmur64_body bs hash =
     (if bs = [] then hash
      else if length bs < 8 then (hash XOR le_val bs) * murmur64_m
      else murmur64_body (drop 8 bs) (mix64 hash (le_val (take 8 bs))))"

declare murmur64_body.simps [simp del]

definition murmur64_ref :: "u32 \<Rightarrow> u8 list \<Rightarrow> u64" where
  "murmur64_ref seed bs = murmur64_final (murmur64_body bs (ucast seed XOR of_nat (length bs)))"

section \<open>The code computes the reference\<close>

lemma byte_and_ff [simp]: "(b :: u8) AND 0xFF = b"
  using take_bit_eq_mask [of 8 b] by (simp add: mask_eq_exp_minus_1 take_bit_word_eq_self)

lemma bit_u8_ge: "bit (b :: u8) n \<Longrightarrow> n < 8"
  using bit_imp_le_length [of b n] by simp

lemma ucast_and_ff [simp]: "ucast (b :: u8) AND 0xFF = (ucast b :: u32)"
proof -
  have "ucast b AND mask 8 = (ucast b :: u32)"
    by (auto intro!: bit_word_eqI simp: bit_simps dest: bit_u8_ge)
  then show ?thesis by (simp add: mask_eq_exp_minus_1)
qed

lemma byte_plus_shift: "ucast (b :: u8) + push_bit 8 x = ucast b XOR push_bit 8 (x :: 'a::len word)"
proof (rule disjunctive_add_eq_xor)
  show "ucast b AND push_bit 8 x = 0"
    by (rule bit_word_eqI) (auto simp: bit_simps dest: bit_u8_ge)
qed

lemmas le_val_xor = le_val.simps [unfolded byte_plus_shift]

declare le_val.simps [simp del]

lemma bytes_numeral:
  "bytes m a 1 = [m a]" "bytes m a 2 = [m a, m (a + 1)]" "bytes m a 3 = [m a, m (a + 1), m (a + 2)]"
  "bytes m a 4 = [m a, m (a + 1), m (a + 2), m (a + 3)]"
  "bytes m a 5 = [m a, m (a + 1), m (a + 2), m (a + 3), m (a + 4)]"
  "bytes m a 6 = [m a, m (a + 1), m (a + 2), m (a + 3), m (a + 4), m (a + 5)]"
  "bytes m a 7 = [m a, m (a + 1), m (a + 2), m (a + 3), m (a + 4), m (a + 5), m (a + 6)]"
  "bytes m a 8 = [m a, m (a + 1), m (a + 2), m (a + 3), m (a + 4), m (a + 5), m (a + 6), m (a + 7)]"
  by (simp_all add: bytes_Suc eval_nat_numeral add.assoc)

lemma bytes_take: "k \<le> n \<Longrightarrow> take k (bytes m a n) = bytes m a k"
  by (simp add: bytes_def take_map)

lemma bytes_drop: "drop k (bytes m a n) = bytes m (a + of_nat k) (n - k)"
  by (rule nth_equalityI) (simp_all add: less_diff_conv add.assoc add.commute add.left_commute)

lemma murmur32_step_eq:
  "murmur32_step m data i4 hash = mix32 hash (le_val (bytes m (data + i4 * 4) 4))"
  unfolding murmur32_step_def Let_def mix32_def bytes_numeral le_val.simps
  by (simp add: push_bit_add add.assoc)

lemma murmur64_step_eq:
  "murmur64_step m data i8 hash = mix64 hash (le_val (bytes m (data + i8 * 8) 8))"
  unfolding murmur64_step_def Let_def mix64_def bytes_numeral le_val.simps
  by (simp add: push_bit_add add.assoc)

lemma murmur32_chunks:
  "murmur32_body (bytes m data (4 * n + r)) hash =
   murmur32_body (bytes m (data + of_nat (4 * n)) r)
     (fold (\<lambda>i. murmur32_step m data (of_nat i)) [0..<n] hash)"
proof (induction n arbitrary: r)
  case (Suc n)
  have "murmur32_body (bytes m (data + of_nat (4 * n)) (4 + r)) h =
      murmur32_body (bytes m (data + of_nat (4 * Suc n)) r) (murmur32_step m data (of_nat n) h)" for h
    by (subst murmur32_body.simps)
      (simp add: bytes_take bytes_drop murmur32_step_eq add_ac mult.commute flip: length_0_conv)
  with Suc.IH [of "4 + r"] show ?case by (simp add: add_ac)
qed simp

lemma murmur32_tail_eq:
  "murmur32_tail m data len hash = murmur32_body (bytes m (data + (len AND NOT 3)) (unat len mod 4)) hash"
proof -
  have r: "unat (len mod 4) = unat len mod 4" by (simp add: unat_mod_distrib)
  then have eq: "(len mod 4 = of_nat k) = (unat len mod 4 = k)" if "k < 4" for k
    using that by (simp add: word_unat_eq_iff unat_of_nat)
  have three: "(len mod 4 = 3) = (unat len mod 4 = 3)" "(len mod 4 = 2) = (unat len mod 4 = 2)"
    "(len mod 4 = 1) = (unat len mod 4 = 1)"
    using eq [of 3] eq [of 2] eq [of 1] by simp_all
  have "unat len mod 4 < 4" by simp
  then consider "unat len mod 4 = 0" | "unat len mod 4 = 1" | "unat len mod 4 = 2" | "unat len mod 4 = 3"
    by linarith
  then show ?thesis
    by cases (simp_all only: murmur32_tail_def three Let_def bytes_numeral bytes_0,
      simp_all add: murmur32_body.simps [of "[]"] murmur32_body.simps [of "_ # _"] le_val_xor
        xor.assoc xor.commute xor.left_commute add.assoc)
qed

lemma and_not_low:
  fixes len c m :: "'a::len word"
  assumes "m = c - 1" "unat c = n" "is_pow2 n"
  shows "len AND NOT m = of_nat (n * (unat len div n))"
proof -
  have "unat (len AND NOT m) = n * (unat len div n)"
    using unat_and_not_pow2 [of c len] assms by (simp add: minus_mod_eq_mult_div)
  from arg_cong [OF this, of "of_nat :: nat \<Rightarrow> 'a word"] show ?thesis by simp
qed

lemma murmur32_seed_eq:
  "murmur2_hash32_seed m data len seed = murmur32_ref seed (bytes m data (unat len))"
proof -
  have n: "unat (len div 4) = unat len div 4" by (simp add: unat_div_distrib)
  have base: "len AND NOT 3 = of_nat (4 * (unat len div 4))"
    by (rule and_not_low [where c = 4]) (use is_pow2I [of 2] in simp_all)
  show ?thesis
    using murmur32_chunks [of m data "unat len div 4" "unat len mod 4" "seed XOR len"]
    unfolding murmur2_hash32_seed_def murmur32_ref_def murmur32_tail_eq base Let_def by (simp add: n)
qed

lemma murmur64_chunks:
  assumes "i + n = unat length8" "unat length8 < 2 ^ 32"
  shows "\<exists>h. murmur64_loop m data length8 (of_nat i) hash = Some h \<and>
    murmur64_body (bytes m (data + of_nat (8 * i)) (8 * n + r)) hash =
    murmur64_body (bytes m (data + of_nat (8 * (i + n))) r) h"
  using assms
proof (induction n arbitrary: i hash)
  case 0
  then have "unat (ucast (of_nat i :: u32) :: u64) = i" by (simp only: unat_ucast_u64 unat_of_nat) simp
  with 0 have "\<not> (ucast (of_nat i :: u32) :: u64) < length8"
    by (simp add: word_less_nat_alt)
  then show ?case by (subst murmur64_loop.simps) simp
next
  case (Suc n)
  then have "(ucast (of_nat i :: u32) :: u64) < length8"
    by (simp add: word_less_nat_alt unat_of_nat)
  then have "murmur64_loop m data length8 (of_nat i) hash =
      murmur64_loop m data length8 (of_nat (Suc i)) (murmur64_step m data (of_nat i) hash)"
    by (subst murmur64_loop.simps) (simp add: add.commute)
  moreover have "murmur64_body (bytes m (data + of_nat (8 * i)) (8 * Suc n + r)) hash =
      murmur64_body (bytes m (data + of_nat (8 * Suc i)) (8 * n + r)) (murmur64_step m data (of_nat i) hash)"
    by (subst murmur64_body.simps)
      (simp add: bytes_take bytes_drop murmur64_step_eq add_ac mult.commute flip: length_0_conv)
  moreover have "Suc i + n = i + Suc n" by simp
  ultimately show ?case
    using Suc.IH [of "Suc i" "murmur64_step m data (of_nat i) hash"] Suc.prems by (simp only:)
qed

lemma murmur64_tail_eq:
  assumes "unat len < 2 ^ 32"
  shows "murmur64_tail m data len hash =
    murmur64_body (bytes m (data + of_nat (8 * (unat len div 8))) (unat len mod 8)) hash"
proof -
  have r: "unat (len mod 8) = unat len mod 8" by (simp add: unat_mod_distrib)
  have base: "len AND NOT 7 = of_nat (8 * (unat len div 8))"
    by (rule and_not_low [where c = 8]) (use is_pow2I [of 3] in simp_all)
  have addr: "ucast (of_nat a + j :: u64) = (of_nat a + ucast j :: u32)" for a and j :: u64
    by (simp add: word_unat_eq_iff unsigned_ucast_eq take_bit_eq_mod unat_word_ariths unat_of_nat
        mod_simps mod_mod_cancel)
  have "unat len mod 8 < 8" by simp
  then consider "unat len mod 8 = 0" | "unat len mod 8 = 1" | "unat len mod 8 = 2" | "unat len mod 8 = 3"
    | "unat len mod 8 = 4" | "unat len mod 8 = 5" | "unat len mod 8 = 6" | "unat len mod 8 = 7"
    by linarith
  then show ?thesis
    by cases (simp_all only: murmur64_tail_def Let_def bytes_numeral bytes_0 r base addr,
      simp_all add: murmur64_body.simps [of "[]"] murmur64_body.simps [of "_ # _"] le_val_xor
        xor.assoc xor.commute xor.left_commute add.assoc)
qed

lemma murmur64_seed_eq:
  assumes "unat len < 2 ^ 32"
  shows "murmur2_hash64_seed m data len seed = Some (murmur64_ref seed (bytes m data (unat len)))"
proof -
  have n: "unat (len div 8) = unat len div 8" by (simp add: unat_div_distrib)
  then have "0 + unat len div 8 = unat (len div 8)" "unat (len div 8) < 2 ^ 32"
    using assms by simp_all
  from murmur64_chunks [OF this, of m data "ucast seed XOR len" "unat len mod 8"] obtain h where
    "murmur64_loop m data (len div 8) 0 (ucast seed XOR len) = Some h"
    "murmur64_body (bytes m data (unat len)) (ucast seed XOR len) =
     murmur64_body (bytes m (data + of_nat (8 * (unat len div 8))) (unat len mod 8)) h"
    by auto
  then show ?thesis
    by (simp add: murmur2_hash64_seed_def murmur64_ref_def murmur64_tail_eq [OF assms])
qed

section \<open>Properties\<close>

text \<open>\<^verbatim>\<open>murmur2_hash32_seed\<close> is MurmurHash2 of the bytes of its input block: the
  chunked loop, the masked tail index and the fall-through switch compute the reference
  function on the byte list, for every length.\<close>

theorem murmur2_hash32_reference:
  "murmur2_hash32_seed m data len seed = murmur32_ref seed (bytes m data (unat len))"
  by (rule murmur32_seed_eq)

text \<open>\<^verbatim>\<open>murmur2_hash64_seed\<close> returns for every block of the 32-bit address space, and its
  value is the 64-bit reference function of the bytes of the block.\<close>

theorem murmur2_hash64_reference:
  assumes "unat len < 2 ^ 32"
  shows "murmur2_hash64_seed m data len seed = Some (murmur64_ref seed (bytes m data (unat len)))"
  using assms by (rule murmur64_seed_eq)

theorem murmur2_hash64_reference_witness:
  "murmur2_hash64_seed (\<lambda>a. ucast a) 1 3 0 = Some (murmur64_ref 0 [1, 2, 3])"
  using murmur2_hash64_reference [of 3 "\<lambda>a. ucast a" 1 0]
  by (simp add: bytes_numeral)

end
