(* ===== verification/Flat_Hashmap.thy ===== *)
theory Flat_Hashmap
  imports Core_Defs Murmur_Hash
begin

text \<open>
  The open-addressing hash map of \<^verbatim>\<open>kernel/utils/data_structs/flat_hashmap.c\<close>: entries in
  one array, linear probing under a power-of-two mask, deleted entries kept as tombstones
  until a rehash. The entry array is a list (an index past its end is \<open>BadAccess\<close>), keys
  are byte blocks of the flat memory, and the probing loops may run forever (\<open>None\<close>) on a
  table without a free slot. \<^verbatim>\<open>kmalloc\<close> is a parameter that gives the address of the
  requested block and \<^verbatim>\<open>kfree\<close> one that gives the memory after a release; the destroy
  callback is a field of the map, as in the code. The entry array itself is the field
  \<open>fh_entries\<close> and not a block of the flat memory, so releasing the array shows only in
  that the list is gone. Its size in bytes is cut to the 32 bits of the parameter of
  \<^verbatim>\<open>kmalloc\<close>: above \<open>2 ^ 27\<close> entries the list is shorter than the capacity.
\<close>

section \<open>Definitions\<close>

definition INIT_CAPACITY :: u64 where "INIT_CAPACITY = 64"

definition MIN_CAPACITY :: u64 where "MIN_CAPACITY = 4"

definition STATE_EMPTY :: u8 where "STATE_EMPTY = 0"

definition STATE_USED :: u8 where "STATE_USED = 1"

definition STATE_DELETE :: u8 where "STATE_DELETE = 2"

definition FLAG_ALLOCATED :: u8 where "FLAG_ALLOCATED = 1"

definition FHASHMAP_INS_FLAG_KEY_COPY :: u8 where "FHASHMAP_INS_FLAG_KEY_COPY = 1"

definition FHASHMAP_INS_FLAG_OVERWRITE :: u8 where "FHASHMAP_INS_FLAG_OVERWRITE = 2"

record flat_hashmap_result =
  res_value :: usize_ptr
  res_succeed :: bool

record flat_hashmap_entry =
  e_hash :: u64
  e_key_data :: usize_ptr
  e_key_length :: u64
  e_data :: usize_ptr
  e_state :: u8
  e_flags :: u8

type_synonym fmap_hash_func = "mem \<Rightarrow> usize_ptr \<Rightarrow> u64 \<Rightarrow> u64 option"

type_synonym fmap_destroy_cb_func = "usize_ptr \<Rightarrow> usize_ptr \<Rightarrow> usize_ptr \<Rightarrow> mem \<Rightarrow> mem"

record flat_hashmap =
  fh_entries :: "flat_hashmap_entry list"
  fh_empty_count :: u64
  fh_used_count :: u64
  fh_delete_count :: u64
  fh_capacity :: u64
  fh_hash :: fmap_hash_func
  fh_destroy_cb :: "fmap_destroy_cb_func option"

text \<open>An entry whose bytes are all zero, which is what \<^verbatim>\<open>memset\<close> leaves.\<close>

definition zero_entry :: flat_hashmap_entry where
  "zero_entry = \<lparr>e_hash = 0, e_key_data = 0, e_key_length = 0, e_data = 0, e_state = 0, e_flags = 0\<rparr>"

definition sizeof_entry :: u64 where "sizeof_entry = 28"

text \<open>The whole entries in a block of \<^verbatim>\<open>sizeof(flat_hashmap_entry_t) * capacity\<close> bytes, a product of 64 bits that is passed as 32 bits.\<close>

definition entry_slots :: "u64 \<Rightarrow> nat" where
  "entry_slots capacity = unat (ucast (sizeof_entry * capacity) :: u32) div 28"

partial_function (option) find_free_loop :: "flat_hashmap_entry list \<Rightarrow> u64 \<Rightarrow> u64 \<Rightarrow> u64 kloop" where
  "find_free_loop entries capacity pos =
     (if \<not> unat pos < length entries then Some (Inl BadAccess)
      else if e_state (entries ! unat pos) = STATE_USED
      then find_free_loop entries capacity ((pos + 1) AND (capacity - 1))
      else lret pos)"

declare find_free_loop.simps [code]

definition find_free_slot :: "flat_hashmap_entry list \<Rightarrow> u64 \<Rightarrow> u64 \<Rightarrow> u64 kloop" where
  "find_free_slot entries capacity hash = find_free_loop entries capacity (hash AND (capacity - 1))"

text \<open>The copying loop of \<^verbatim>\<open>rehash\<close>: \<open>n\<close> iterations are left, over the old entries from the current position on.\<close>

fun rehash_loop ::
  "nat \<Rightarrow> flat_hashmap_entry list \<Rightarrow> u64 \<Rightarrow> u64 \<Rightarrow> u64 \<Rightarrow> flat_hashmap_entry list \<Rightarrow> flat_hashmap_entry list kloop" where
  "rehash_loop 0 olds used_count new_capacity cur_used_count new_entries = lret new_entries"
| "rehash_loop (Suc n) [] used_count new_capacity cur_used_count new_entries =
     (if \<not> cur_used_count < used_count then lret new_entries else Some (Inl BadAccess))"
| "rehash_loop (Suc n) (old # olds) used_count new_capacity cur_used_count new_entries =
     (if \<not> cur_used_count < used_count then lret new_entries
      else if e_state old \<noteq> STATE_USED
      then rehash_loop n olds used_count new_capacity cur_used_count new_entries
      else lbind (find_free_slot new_entries new_capacity (e_hash old))
             (\<lambda>new_pos. rehash_loop n olds used_count new_capacity (cur_used_count + 1)
                (new_entries[unat new_pos := old])))"

definition rehash :: "(usize_ptr \<Rightarrow> usize_ptr) \<Rightarrow> flat_hashmap \<Rightarrow> u64 \<Rightarrow> (int \<times> flat_hashmap) kloop" where
  "rehash kmalloc hashmap new_capacity =
     lbind (lassert (new_capacity \<ge> fh_capacity hashmap)) (\<lambda>_.
     lbind (lassert (kmalloc (ucast (sizeof_entry * new_capacity)) \<noteq> NULL)) (\<lambda>_.
     lbind (rehash_loop (unat (fh_capacity hashmap)) (fh_entries hashmap) (fh_used_count hashmap)
              new_capacity 0 (replicate (entry_slots new_capacity) zero_entry)) (\<lambda>new_entries.
     lret (0, hashmap\<lparr>fh_delete_count := 0, fh_empty_count := new_capacity - fh_used_count hashmap,
                fh_used_count := fh_used_count hashmap, fh_capacity := new_capacity,
                fh_entries := new_entries\<rparr>))))"

definition need_resize :: "flat_hashmap \<Rightarrow> bool kloop" where
  "need_resize hashmap =
     (if fh_capacity hashmap = 0 then Some (Inl DivideError)
      else lret ((fh_used_count hashmap + fh_delete_count hashmap) * 100 div fh_capacity hashmap > 75))"

definition need_rehash :: "flat_hashmap \<Rightarrow> bool kloop" where
  "need_rehash hashmap =
     (if fh_used_count hashmap + fh_delete_count hashmap = 0 then Some (Inl DivideError)
      else lret (fh_delete_count hashmap * 100 div (fh_used_count hashmap + fh_delete_count hashmap) > 25))"

definition entry_matches :: "mem \<Rightarrow> flat_hashmap_entry \<Rightarrow> u64 \<Rightarrow> usize_ptr \<Rightarrow> u64 \<Rightarrow> bool" where
  "entry_matches m it hash key_data key_length \<longleftrightarrow>
     e_hash it = hash \<and> e_key_length it = key_length \<and> memcmp m (e_key_data it) key_data (ucast key_length) = 0"

text \<open>
  The two searches return \<open>None\<close> for \<^verbatim>\<open>NULL\<close> and \<open>Some i\<close> for the entry at index \<open>i\<close>.
\<close>

partial_function (option) find_exact_entry_interval ::
  "mem \<Rightarrow> flat_hashmap_entry list \<Rightarrow> u64 \<Rightarrow> u64 \<Rightarrow> u64 \<Rightarrow> u64 \<Rightarrow> usize_ptr \<Rightarrow> u64 \<Rightarrow> u64 option kloop" where
  "find_exact_entry_interval m entries capacity cur_index to_index hash key_data key_length =
     (if cur_index = to_index then lret None
      else if \<not> unat cur_index < length entries then Some (Inl BadAccess)
      else if e_state (entries ! unat cur_index) = STATE_EMPTY then lret None
      else if entry_matches m (entries ! unat cur_index) hash key_data key_length then lret (Some cur_index)
      else find_exact_entry_interval m entries capacity ((cur_index + 1) AND (capacity - 1)) to_index
             hash key_data key_length)"

declare find_exact_entry_interval.simps [code]

partial_function (option) find_exact_loop ::
  "mem \<Rightarrow> flat_hashmap_entry list \<Rightarrow> u64 \<Rightarrow> u64 \<Rightarrow> u64 \<Rightarrow> usize_ptr \<Rightarrow> u64 \<Rightarrow> u64 option kloop" where
  "find_exact_loop m entries capacity pos hash key_data key_length =
     (if \<not> unat pos < length entries then Some (Inl BadAccess)
      else if e_state (entries ! unat pos) = STATE_EMPTY then lret None
      else if e_state (entries ! unat pos) = STATE_USED \<and>
              entry_matches m (entries ! unat pos) hash key_data key_length then lret (Some pos)
      else find_exact_loop m entries capacity ((pos + 1) AND (capacity - 1)) hash key_data key_length)"

declare find_exact_loop.simps [code]

definition find_exact_entry ::
  "mem \<Rightarrow> flat_hashmap \<Rightarrow> u64 \<Rightarrow> usize_ptr \<Rightarrow> u64 \<Rightarrow> u64 option kloop" where
  "find_exact_entry m hashmap hash key_data key_length =
     lbind (lassert (fh_empty_count hashmap \<noteq> 0)) (\<lambda>_.
     find_exact_loop m (fh_entries hashmap) (fh_capacity hashmap)
       (hash AND (fh_capacity hashmap - 1)) hash key_data key_length)"

text \<open>
  \<^verbatim>\<open>clean_entry\<close> calls the destroy callback on the entry, releases the key when the map had
  allocated it, and resets the entry.
\<close>

definition clean_entry :: "(usize_ptr \<Rightarrow> mem \<Rightarrow> mem) \<Rightarrow> mem \<times> flat_hashmap \<Rightarrow> nat \<Rightarrow> u8 \<Rightarrow> mem \<times> flat_hashmap" where
  "clean_entry kfree = (\<lambda>(m, hashmap) i new_state.
     let entry = fh_entries hashmap ! i;
         m = (case fh_destroy_cb hashmap of None \<Rightarrow> m
              | Some cb \<Rightarrow> cb (e_data entry) (e_key_data entry) (ucast (e_key_length entry)) m);
         m = (if e_flags entry AND FLAG_ALLOCATED \<noteq> 0 then kfree (e_key_data entry) m else m);
         entry = entry\<lparr>e_key_data := NULL, e_key_length := 0, e_hash := 0, e_flags := 0, e_state := new_state\<rparr>
     in (m, hashmap\<lparr>fh_entries := (fh_entries hashmap)[i := entry]\<rparr>))"

definition handle_rehash :: "(usize_ptr \<Rightarrow> usize_ptr) \<Rightarrow> flat_hashmap \<Rightarrow> (int \<times> flat_hashmap) kloop" where
  "handle_rehash kmalloc hashmap =
     lbind (need_resize hashmap) (\<lambda>resize.
     if resize
     then lbind (rehash kmalloc hashmap (fh_capacity hashmap * 2))
            (\<lambda>(rehash_result, hashmap). if rehash_result < 0 then lret (rehash_result, hashmap) else lret (0, hashmap))
     else lbind (need_rehash hashmap) (\<lambda>again.
     if again
     then lbind (rehash kmalloc hashmap (fh_capacity hashmap))
            (\<lambda>(rehash_result, hashmap). if rehash_result < 0 then lret (rehash_result, hashmap) else lret (0, hashmap))
     else lret (0, hashmap)))"

definition init_fhashmap_custom ::
  "(usize_ptr \<Rightarrow> usize_ptr) \<Rightarrow> u64 \<Rightarrow> fmap_hash_func \<Rightarrow> fmap_destroy_cb_func option \<Rightarrow> flat_hashmap kres" where
  "init_fhashmap_custom kmalloc capacity hash destroy_cb =
     (let capacity = ucast (align_up_pow2 (ucast capacity)) :: u64
      in kbind (kassert (capacity \<noteq> 0)) (\<lambda>_.
         let capacity = (if capacity < MIN_CAPACITY then MIN_CAPACITY else capacity)
         in kbind (kassert (kmalloc (ucast (capacity * sizeof_entry)) \<noteq> NULL)) (\<lambda>_.
            Inr \<lparr>fh_entries = replicate (entry_slots capacity) zero_entry, fh_empty_count = capacity,
                 fh_used_count = 0, fh_delete_count = 0, fh_capacity = capacity, fh_hash = hash,
                 fh_destroy_cb = destroy_cb\<rparr>)))"

definition init_fhashmap_capacity :: "(usize_ptr \<Rightarrow> usize_ptr) \<Rightarrow> u64 \<Rightarrow> flat_hashmap kres" where
  "init_fhashmap_capacity kmalloc capacity = init_fhashmap_custom kmalloc capacity murmur2_hash64 None"

definition init_fhashmap :: "(usize_ptr \<Rightarrow> usize_ptr) \<Rightarrow> flat_hashmap kres" where
  "init_fhashmap kmalloc = init_fhashmap_custom kmalloc INIT_CAPACITY murmur2_hash64 None"

definition init_fhashmap_destroy_hash ::
  "(usize_ptr \<Rightarrow> usize_ptr) \<Rightarrow> fmap_hash_func \<Rightarrow> fmap_destroy_cb_func option \<Rightarrow> flat_hashmap kres" where
  "init_fhashmap_destroy_hash kmalloc hash destroy_cb = init_fhashmap_custom kmalloc INIT_CAPACITY hash destroy_cb"

definition init_fhashmap_destroy ::
  "(usize_ptr \<Rightarrow> usize_ptr) \<Rightarrow> fmap_destroy_cb_func option \<Rightarrow> flat_hashmap kres" where
  "init_fhashmap_destroy kmalloc destroy_cb = init_fhashmap_custom kmalloc INIT_CAPACITY murmur2_hash64 destroy_cb"

definition init_fhashmap_hash :: "(usize_ptr \<Rightarrow> usize_ptr) \<Rightarrow> fmap_hash_func \<Rightarrow> flat_hashmap kres" where
  "init_fhashmap_hash kmalloc hash = init_fhashmap_custom kmalloc INIT_CAPACITY hash None"

text \<open>
  The second half of \<^verbatim>\<open>fhashmap_insert\<close>: the entry at index \<open>i\<close> is counted and filled.
\<close>

definition fill_entry ::
  "(usize_ptr \<Rightarrow> usize_ptr) \<Rightarrow> mem \<times> flat_hashmap \<Rightarrow> nat \<Rightarrow> u64 \<Rightarrow> usize_ptr \<Rightarrow> u64 \<Rightarrow> usize_ptr \<Rightarrow> u8 \<Rightarrow>
   mem \<times> flat_hashmap" where
  "fill_entry kmalloc = (\<lambda>(m, hashmap) i hash key_data key_length data flags.
     let entry = fh_entries hashmap ! i;
         hashmap = hashmap\<lparr>fh_used_count := fh_used_count hashmap + 1\<rparr>;
         hashmap = (if e_state entry = STATE_EMPTY
                    then hashmap\<lparr>fh_empty_count := fh_empty_count hashmap - 1\<rparr>
                    else if e_state entry = STATE_DELETE
                    then hashmap\<lparr>fh_delete_count := fh_delete_count hashmap - 1\<rparr>
                    else hashmap);
         (m, entry) = (if flags AND FHASHMAP_INS_FLAG_KEY_COPY \<noteq> 0
                       then (let new_key = kmalloc (ucast key_length)
                             in (memcpy m new_key key_data (ucast key_length),
                                 entry\<lparr>e_flags := e_flags entry OR FLAG_ALLOCATED, e_key_data := new_key\<rparr>))
                       else (m, entry\<lparr>e_flags := e_flags entry AND NOT FLAG_ALLOCATED, e_key_data := key_data\<rparr>));
         entry = entry\<lparr>e_key_length := key_length, e_hash := hash, e_data := data, e_state := STATE_USED\<rparr>
     in (m, hashmap\<lparr>fh_entries := (fh_entries hashmap)[i := entry]\<rparr>))"

definition fhashmap_insert ::
  "(usize_ptr \<Rightarrow> usize_ptr) \<Rightarrow> (usize_ptr \<Rightarrow> mem \<Rightarrow> mem) \<Rightarrow> mem \<times> flat_hashmap \<Rightarrow> usize_ptr \<Rightarrow> u64 \<Rightarrow> usize_ptr \<Rightarrow> u8 \<Rightarrow>
   (int \<times> mem \<times> flat_hashmap) kloop" where
  "fhashmap_insert kmalloc kfree = (\<lambda>(m, hashmap) key_data key_length data flags.
     lbind (lopt (fh_hash hashmap m key_data key_length)) (\<lambda>hash.
     lbind (find_free_slot (fh_entries hashmap) (fh_capacity hashmap) hash) (\<lambda>entry.
     lbind (find_exact_entry_interval m (fh_entries hashmap) (fh_capacity hashmap)
              (hash AND (fh_capacity hashmap - 1)) entry hash key_data key_length) (\<lambda>same_entry.
     if same_entry \<noteq> None \<and> flags AND FHASHMAP_INS_FLAG_OVERWRITE = 0 then lret (- 1, m, hashmap)
     else
       let (m, hashmap, entry) =
             (case same_entry of
                Some same \<Rightarrow>
                  (let (m, hashmap) = clean_entry kfree (m, hashmap) (unat same) STATE_EMPTY
                   in (m, hashmap\<lparr>fh_used_count := fh_used_count hashmap - 1,
                         fh_empty_count := fh_empty_count hashmap + 1\<rparr>, same))
              | None \<Rightarrow> (m, hashmap, entry));
           (m, hashmap) = fill_entry kmalloc (m, hashmap) (unat entry) hash key_data key_length data flags
       in lbind (handle_rehash kmalloc hashmap) (\<lambda>(r, hashmap). lret (r, m, hashmap))))))"

text \<open>
  \<^verbatim>\<open>fhashmap_foreach\<close>: the loop condition is \<^verbatim>\<open>hashmap->capacity\<close>, which the loop does
  not change. \<open>cb\<close> is the callback on the memory and the caller's context.
\<close>

partial_function (option) fhashmap_foreach_loop ::
  "flat_hashmap \<Rightarrow> (usize_ptr \<Rightarrow> usize_ptr \<Rightarrow> usize_ptr \<Rightarrow> 'c \<Rightarrow> 'c) \<Rightarrow> usize_ptr \<Rightarrow> 'c \<Rightarrow> 'c kloop" where
  "fhashmap_foreach_loop hashmap cb i ctx =
     (if fh_capacity hashmap = 0 then lret ctx
      else if \<not> unat i < length (fh_entries hashmap) then Some (Inl BadAccess)
      else let entry = fh_entries hashmap ! unat i
           in fhashmap_foreach_loop hashmap cb (i + 1)
                (if e_state entry = STATE_USED
                 then cb (e_data entry) (e_key_data entry) (ucast (e_key_length entry)) ctx else ctx))"

declare fhashmap_foreach_loop.simps [code]

definition fhashmap_foreach ::
  "flat_hashmap \<Rightarrow> (usize_ptr \<Rightarrow> usize_ptr \<Rightarrow> usize_ptr \<Rightarrow> 'c \<Rightarrow> 'c) option \<Rightarrow> 'c \<Rightarrow> 'c kloop" where
  "fhashmap_foreach hashmap cb ctx =
     (case cb of None \<Rightarrow> Some (Inl AssertFailed) | Some cb \<Rightarrow> fhashmap_foreach_loop hashmap cb 0 ctx)"

definition fhashmap_get_data ::
  "mem \<times> flat_hashmap \<Rightarrow> usize_ptr \<Rightarrow> u64 \<Rightarrow> flat_hashmap_result kloop" where
  "fhashmap_get_data = (\<lambda>(m, hashmap) key_data key_length.
     lbind (lopt (fh_hash hashmap m key_data key_length)) (\<lambda>hash.
     lbind (find_exact_entry m hashmap hash key_data key_length) (\<lambda>same_entry.
     case same_entry of
       Some i \<Rightarrow> lret \<lparr>res_value = e_data (fh_entries hashmap ! unat i), res_succeed = True\<rparr>
     | None \<Rightarrow> lret \<lparr>res_value = NULL, res_succeed = False\<rparr>)))"

definition fhashmap_delete ::
  "(usize_ptr \<Rightarrow> usize_ptr) \<Rightarrow> (usize_ptr \<Rightarrow> mem \<Rightarrow> mem) \<Rightarrow> mem \<times> flat_hashmap \<Rightarrow> usize_ptr \<Rightarrow> u64 \<Rightarrow>
   (flat_hashmap_result \<times> mem \<times> flat_hashmap) kloop" where
  "fhashmap_delete kmalloc kfree = (\<lambda>(m, hashmap) key_data key_length.
     lbind (lopt (fh_hash hashmap m key_data key_length)) (\<lambda>hash.
     lbind (find_exact_entry m hashmap hash key_data key_length) (\<lambda>same_entry.
     case same_entry of
       None \<Rightarrow> lret (\<lparr>res_value = NULL, res_succeed = False\<rparr>, m, hashmap)
     | Some i \<Rightarrow>
         let user_data = e_data (fh_entries hashmap ! unat i);
             (m, hashmap) = clean_entry kfree (m, hashmap) (unat i) STATE_DELETE;
             hashmap = hashmap\<lparr>fh_delete_count := fh_delete_count hashmap + 1,
                               fh_used_count := fh_used_count hashmap - 1\<rparr>
         in lbind (handle_rehash kmalloc hashmap) (\<lambda>(r, hashmap).
              if r \<noteq> 0 then lret (\<lparr>res_value = NULL, res_succeed = False\<rparr>, m, hashmap)
              else lret (\<lparr>res_value = user_data, res_succeed = True\<rparr>, m, hashmap)))))"

text \<open>
  The loop of \<^verbatim>\<open>fhashmap_clear\<close> and \<^verbatim>\<open>fhashmap_free\<close> that releases the allocated keys. Its index
  has 32 bits and is compared with the capacity of 64 bits.
\<close>

partial_function (option) free_keys_loop ::
  "(usize_ptr \<Rightarrow> mem \<Rightarrow> mem) \<Rightarrow> flat_hashmap \<Rightarrow> u32 \<Rightarrow> mem \<Rightarrow> mem kloop" where
  "free_keys_loop kfree hashmap i m =
     (if \<not> (ucast i :: u64) < fh_capacity hashmap then lret m
      else if \<not> unat i < length (fh_entries hashmap) then Some (Inl BadAccess)
      else let entry = fh_entries hashmap ! unat i
           in free_keys_loop kfree hashmap (i + 1)
                (if e_flags entry AND FLAG_ALLOCATED \<noteq> 0 then kfree (e_key_data entry) m else m))"

declare free_keys_loop.simps [code]

definition fhashmap_clear ::
  "(usize_ptr \<Rightarrow> mem \<Rightarrow> mem) \<Rightarrow> mem \<times> flat_hashmap \<Rightarrow> (mem \<times> flat_hashmap) kloop" where
  "fhashmap_clear kfree = (\<lambda>(m, hashmap).
     lbind (free_keys_loop kfree hashmap 0 m) (\<lambda>m.
     let n = entry_slots (fh_capacity hashmap)
     in if length (fh_entries hashmap) < n then Some (Inl BadAccess)
        else lret (m, hashmap\<lparr>fh_entries := replicate n zero_entry @ drop n (fh_entries hashmap),
               fh_delete_count := 0, fh_used_count := 0, fh_empty_count := fh_capacity hashmap\<rparr>)))"

text \<open>\<^verbatim>\<open>fhashmap_free\<close> releases the keys and then the array, which is not part of the
  byte memory; the map is not used after it.\<close>

definition fhashmap_free :: "(usize_ptr \<Rightarrow> mem \<Rightarrow> mem) \<Rightarrow> mem \<times> flat_hashmap \<Rightarrow> mem kloop" where
  "fhashmap_free kfree = (\<lambda>(m, hashmap). free_keys_loop kfree hashmap 0 m)"

end
