(* ===== verification/Flat_Hashmap_Correct.thy ===== *)
theory Flat_Hashmap_Correct
  imports Flat_Hashmap
begin

text \<open>
  Correctness of the hash map. A table is well formed (\<open>fh_inv\<close>) when every used entry is
  reachable by probing from its home slot without crossing an empty slot, keys are
  distinct, hashes and counters are those of the entries, and the load is at most 75
  percent. Under it the map is a function from key bytes to data (\<open>fh_abs\<close>); lookup reads
  it, insertion of an absent key and deletion update it, and rehashing keeps it.
\<close>

section \<open>Counting entries by state\<close>

definition count_state :: "u8 \<Rightarrow> flat_hashmap_entry list \<Rightarrow> nat" where
  "count_state st es = length (filter (\<lambda>e. e_state e = st) es)"

lemma count_state_simps [simp]:
  "count_state st [] = 0"
  "count_state st (e # es) = (if e_state e = st then 1 else 0) + count_state st es"
  by (simp_all add: count_state_def)

lemma count_state_le: "count_state st es \<le> length es"
  by (simp add: count_state_def)

lemma count_state_replicate [simp]:
  "count_state st (replicate n e) = (if e_state e = st then n else 0)"
  by (induction n) auto

lemma count_state_update:
  "i < length es \<Longrightarrow>
   count_state st (es[i := e]) + (if e_state (es ! i) = st then 1 else 0) =
   count_state st es + (if e_state e = st then 1 else 0)"
proof (induction es arbitrary: i)
  case (Cons a es)
  then show ?case by (cases i) auto
qed simp

lemma count_state_pos: "0 < count_state st es \<longleftrightarrow> (\<exists>i<length es. e_state (es ! i) = st)"
  by (auto simp: count_state_def filter_empty_conv in_set_conv_nth) (metis nth_mem)

lemma count_state_full: "count_state st es < length es \<Longrightarrow> \<exists>i<length es. e_state (es ! i) \<noteq> st"
  unfolding count_state_def by (metis (mono_tags, lifting) filter_True in_set_conv_nth less_irrefl)

definition state_ok :: "flat_hashmap_entry \<Rightarrow> bool" where
  "state_ok e \<longleftrightarrow> e_state e \<in> {STATE_EMPTY, STATE_USED, STATE_DELETE}"

lemmas state_defs = STATE_EMPTY_def STATE_USED_def STATE_DELETE_def

lemma states_distinct [simp]:
  "STATE_EMPTY \<noteq> STATE_USED" "STATE_USED \<noteq> STATE_EMPTY" "STATE_EMPTY \<noteq> STATE_DELETE"
  "STATE_DELETE \<noteq> STATE_EMPTY" "STATE_USED \<noteq> STATE_DELETE" "STATE_DELETE \<noteq> STATE_USED"
  by (simp_all add: state_defs)

lemma count_state_total:
  "(\<And>e. e \<in> set es \<Longrightarrow> state_ok e) \<Longrightarrow>
   count_state STATE_EMPTY es + count_state STATE_USED es + count_state STATE_DELETE es = length es"
proof (induction es)
  case (Cons e es)
  then have "state_ok e" "count_state STATE_EMPTY es + count_state STATE_USED es + count_state STATE_DELETE es = length es"
    by simp_all
  then show ?case by (auto simp: state_ok_def)
qed simp

section \<open>Probing\<close>

text \<open>The \<open>i\<close>-th slot of the probe sequence of a hash in a table of \<open>n\<close> slots.\<close>

definition probe :: "nat \<Rightarrow> u64 \<Rightarrow> nat \<Rightarrow> nat" where
  "probe n hash i = (unat hash + i) mod n"

lemma probe_less: "0 < n \<Longrightarrow> probe n hash i < n"
  by (simp add: probe_def)

lemma probe_inj: "i < n \<Longrightarrow> j < n \<Longrightarrow> probe n hash i = probe n hash j \<Longrightarrow> i = j"
  unfolding probe_def by (rule mod_add_inj)

lemma probe_reach: "q < n \<Longrightarrow> \<exists>d<n. probe n hash d = q"
  unfolding probe_def by (rule mod_reach)

definition cap_ok :: "u64 \<Rightarrow> flat_hashmap_entry list \<Rightarrow> bool" where
  "cap_ok cap es \<longleftrightarrow> is_pow2 (unat cap) \<and> length es = unat cap"

lemma cap_ok_pos: "cap_ok cap es \<Longrightarrow> 0 < length es"
  by (simp add: cap_ok_def is_pow2_pos)

lemma home_probe:
  "cap_ok cap es \<Longrightarrow> unat (hash AND (cap - 1)) = probe (length es) hash 0"
  by (simp add: cap_ok_def probe_def is_pow2_mask)

lemma next_probe:
  assumes "cap_ok cap es" "unat pos = probe (length es) hash i"
  shows "unat ((pos + 1) AND (cap - 1)) = probe (length es) hash (Suc i)"
proof -
  have "unat pos < unat cap"
    using assms probe_less [OF cap_ok_pos [OF assms(1)], of hash i] by (simp add: cap_ok_def)
  then have "unat (pos + 1) = Suc (unat pos)" by (rule unat_Suc_lt)
  then have "unat ((pos + 1) AND (cap - 1)) = (unat pos + 1) mod length es"
    using assms(1) by (simp add: cap_ok_def is_pow2_mask)
  then show ?thesis
    using assms(2) mod_step [of "unat hash" i "length es"] by (simp add: probe_def)
qed

lemma find_free_loop_eq:
  assumes "cap_ok cap es" "unat pos = probe (length es) hash i"
    and "\<forall>j<d. e_state (es ! probe (length es) hash (i + j)) = STATE_USED"
    and "e_state (es ! probe (length es) hash (i + d)) \<noteq> STATE_USED"
  shows "\<exists>q. find_free_loop es cap pos = lret q \<and> unat q = probe (length es) hash (i + d)"
  using assms(2-4)
proof (induction d arbitrary: i pos)
  case 0
  then show ?case using probe_less [OF cap_ok_pos [OF assms(1)]]
    by (subst find_free_loop.simps) simp
next
  case (Suc d)
  have used: "e_state (es ! probe (length es) hash i) = STATE_USED" using Suc.prems(2) by force
  have "find_free_loop es cap pos = find_free_loop es cap ((pos + 1) AND (cap - 1))"
    using Suc.prems(1) used probe_less [OF cap_ok_pos [OF assms(1)]]
    by (subst find_free_loop.simps) simp
  moreover have "\<forall>j<d. e_state (es ! probe (length es) hash (Suc i + j)) = STATE_USED"
    using Suc.prems(2) by (metis Suc_less_eq add_Suc_shift)
  ultimately show ?case
    using Suc.IH [OF next_probe [OF assms(1) Suc.prems(1)]] Suc.prems(3) by simp
qed

text \<open>The first probed slot that is not in use.\<close>

definition first_free :: "flat_hashmap_entry list \<Rightarrow> u64 \<Rightarrow> nat \<Rightarrow> bool" where
  "first_free es hash d \<longleftrightarrow> d < length es \<and> e_state (es ! probe (length es) hash d) \<noteq> STATE_USED \<and>
     (\<forall>j<d. e_state (es ! probe (length es) hash j) = STATE_USED)"

lemma first_free_exists:
  assumes "cap_ok cap es" "count_state STATE_USED es < length es"
  obtains d where "first_free es hash d"
proof -
  obtain q where "q < length es" "e_state (es ! q) \<noteq> STATE_USED"
    using count_state_full [OF assms(2)] by auto
  then have "\<exists>d. d < length es \<and> e_state (es ! probe (length es) hash d) \<noteq> STATE_USED"
    using probe_reach by metis
  then obtain d where "d < length es \<and> e_state (es ! probe (length es) hash d) \<noteq> STATE_USED"
    "\<forall>j<d. \<not> (j < length es \<and> e_state (es ! probe (length es) hash j) \<noteq> STATE_USED)"
    using exists_least_iff [of "\<lambda>d. d < length es \<and> e_state (es ! probe (length es) hash d) \<noteq> STATE_USED"]
    by blast
  then have "first_free es hash d" by (auto simp: first_free_def)
  then show ?thesis by (rule that)
qed

lemma find_free_slot_eq:
  assumes "cap_ok cap es" "first_free es hash d"
  shows "\<exists>q. find_free_slot es cap hash = lret q \<and> unat q = probe (length es) hash d"
  using find_free_loop_eq [OF assms(1) home_probe [OF assms(1)], of d] assms(2)
  by (simp add: find_free_slot_def first_free_def)

lemma find_exact_loop_eq:
  assumes "cap_ok cap es" "unat pos = probe (length es) hash i"
    and "\<forall>j<d. e_state (es ! probe (length es) hash (i + j)) \<noteq> STATE_EMPTY \<and>
      \<not> (e_state (es ! probe (length es) hash (i + j)) = STATE_USED \<and>
         entry_matches m (es ! probe (length es) hash (i + j)) h k l)"
  shows "\<exists>q. unat q = probe (length es) hash (i + d) \<and>
    find_exact_loop m es cap pos h k l = find_exact_loop m es cap q h k l"
  using assms(2,3)
proof (induction d arbitrary: i pos)
  case 0
  then show ?case by auto
next
  case (Suc d)
  have "find_exact_loop m es cap pos h k l = find_exact_loop m es cap ((pos + 1) AND (cap - 1)) h k l"
    using Suc.prems probe_less [OF cap_ok_pos [OF assms(1)]]
    by (subst find_exact_loop.simps) force
  moreover have "\<forall>j<d. e_state (es ! probe (length es) hash (Suc i + j)) \<noteq> STATE_EMPTY \<and>
      \<not> (e_state (es ! probe (length es) hash (Suc i + j)) = STATE_USED \<and>
         entry_matches m (es ! probe (length es) hash (Suc i + j)) h k l)"
    using Suc.prems(2) by (metis Suc_less_eq add_Suc_shift)
  ultimately show ?case
    using Suc.IH [OF next_probe [OF assms(1) Suc.prems(1)]] by simp
qed

section \<open>Well-formed tables\<close>

definition key_bytes :: "mem \<Rightarrow> flat_hashmap_entry \<Rightarrow> u8 list" where
  "key_bytes m e = bytes m (e_key_data e) (unat (e_key_length e))"

text \<open>
  \<open>entry_ok H m e\<close>: the stored hash is the hash \<open>H\<close> of the key, whose length fits the
  32-bit length parameter of \<^verbatim>\<open>memcmp\<close>. \<open>reachable\<close>: no empty slot separates the entry
  at \<open>j\<close> from its home slot.
\<close>

definition entry_ok :: "(u8 list \<Rightarrow> u64) \<Rightarrow> mem \<Rightarrow> flat_hashmap_entry \<Rightarrow> bool" where
  "entry_ok H m e \<longleftrightarrow> e_hash e = H (key_bytes m e) \<and> unat (e_key_length e) < 2 ^ 32"

definition reachable :: "flat_hashmap_entry list \<Rightarrow> nat \<Rightarrow> bool" where
  "reachable es j \<longleftrightarrow> (\<exists>d<length es. probe (length es) (e_hash (es ! j)) d = j \<and>
     (\<forall>i<d. e_state (es ! probe (length es) (e_hash (es ! j)) i) \<noteq> STATE_EMPTY))"

definition used_at :: "flat_hashmap_entry list \<Rightarrow> nat \<Rightarrow> bool" where
  "used_at es i \<longleftrightarrow> i < length es \<and> e_state (es ! i) = STATE_USED"

definition table_ok :: "(u8 list \<Rightarrow> u64) \<Rightarrow> mem \<Rightarrow> flat_hashmap_entry list \<Rightarrow> bool" where
  "table_ok H m es \<longleftrightarrow> (\<forall>e\<in>set es. state_ok e) \<and>
     (\<forall>j. used_at es j \<longrightarrow> entry_ok H m (es ! j) \<and> reachable es j) \<and>
     (\<forall>i j. used_at es i \<longrightarrow> used_at es j \<longrightarrow> key_bytes m (es ! i) = key_bytes m (es ! j) \<longrightarrow> i = j)"

text \<open>The bindings of a table.\<close>

definition binds :: "mem \<Rightarrow> flat_hashmap_entry list \<Rightarrow> u8 list \<Rightarrow> usize_ptr \<Rightarrow> bool" where
  "binds m es k v \<longleftrightarrow> (\<exists>i. used_at es i \<and> key_bytes m (es ! i) = k \<and> e_data (es ! i) = v)"

definition bound_key :: "mem \<Rightarrow> flat_hashmap_entry list \<Rightarrow> u8 list \<Rightarrow> bool" where
  "bound_key m es k \<longleftrightarrow> (\<exists>i. used_at es i \<and> key_bytes m (es ! i) = k)"

lemma used_at_update:
  "i < length es \<Longrightarrow> used_at (es[i := e]) j \<longleftrightarrow> (if i = j then e_state e = STATE_USED else used_at es j)"
  by (auto simp: used_at_def nth_list_update)

lemma reachable_update:
  assumes "reachable es j" "i < length es" "i \<noteq> j" "e_state (es ! i) \<noteq> STATE_EMPTY \<longrightarrow> e_state e \<noteq> STATE_EMPTY"
  shows "reachable (es[i := e]) j"
  using assms unfolding reachable_def by (auto simp: nth_list_update)

lemma state_ok_update:
  "\<forall>e\<in>set es. state_ok e \<Longrightarrow> state_ok e \<Longrightarrow> \<forall>e\<in>set (es[i := e]). state_ok e"
  using set_update_subset_insert [of es i e] by blast

text \<open>
  Filling the first free slot of a new key's probe sequence keeps the table well formed
  and adds exactly one binding.
\<close>

lemma place_entry:
  assumes tab: "table_ok H m es" and free: "first_free es (e_hash e) d"
    and e: "e_state e = STATE_USED" "entry_ok H m e" and new: "\<not> bound_key m es (key_bytes m e)"
  defines "i \<equiv> probe (length es) (e_hash e) d"
  shows "table_ok H m (es[i := e])"
    and "binds m (es[i := e]) k v \<longleftrightarrow> (k = key_bytes m e \<and> v = e_data e) \<or> binds m es k v"
proof -
  have i: "i < length es" "e_state (es ! i) \<noteq> STATE_USED"
    using free by (auto simp: first_free_def i_def intro!: probe_less)
  have st: "used_at (es[i := e]) j \<longleftrightarrow> j = i \<or> used_at es j" for j
    using i e(1) by (auto simp: used_at_update)
  have ni: "\<not> used_at es i" using i by (simp add: used_at_def)
  have home: "reachable (es[i := e]) i"
    unfolding reachable_def length_list_update
  proof (intro exI [of _ d] conjI)
    show "d < length es" using free by (simp add: first_free_def)
    have "es[i := e] ! i = e" using i by simp
    then show "probe (length es) (e_hash (es[i := e] ! i)) d = i" by (simp add: i_def)
    show "\<forall>j<d. e_state (es[i := e] ! probe (length es) (e_hash (es[i := e] ! i)) j) \<noteq> STATE_EMPTY"
      using free e(1) i by (auto simp: first_free_def nth_list_update)
  qed
  show "table_ok H m (es[i := e])"
    unfolding table_ok_def
  proof (intro conjI allI impI)
    show "\<forall>e\<in>set (es[i := e]). state_ok e"
      using tab e(1) by (intro state_ok_update) (auto simp: table_ok_def state_ok_def)
    fix j assume "used_at (es[i := e]) j"
    then have "j = i \<or> used_at es j" by (simp add: st)
    then show "entry_ok H m (es[i := e] ! j)" "reachable (es[i := e]) j"
      using tab e ni i home by (auto simp: table_ok_def nth_list_update intro!: reachable_update)
  next
    fix j k assume "used_at (es[i := e]) j" "used_at (es[i := e]) k"
      "key_bytes m (es[i := e] ! j) = key_bytes m (es[i := e] ! k)"
    then show "j = k"
      using tab new i ni by (auto simp: st table_ok_def bound_key_def nth_list_update split: if_splits)
  qed
  show "binds m (es[i := e]) k v \<longleftrightarrow> (k = key_bytes m e \<and> v = e_data e) \<or> binds m es k v"
    using i ni by (auto simp: binds_def st nth_list_update)
qed

lemma bound_key_iff: "bound_key m es k \<longleftrightarrow> (\<exists>v. binds m es k v)"
  by (auto simp: bound_key_def binds_def)

lemma binds_unique: "table_ok H m es \<Longrightarrow> binds m es k v \<Longrightarrow> binds m es k w \<Longrightarrow> v = w"
  by (auto simp: binds_def table_ok_def)

section \<open>Rehashing\<close>

lemma rehash_loop_correct:
  assumes "cap_ok cap new" "table_ok H m new" "count_state STATE_DELETE new = 0"
    and "\<forall>e\<in>set olds. e_state e = STATE_USED \<longrightarrow> entry_ok H m e"
    and "distinct (map (key_bytes m) (filter (\<lambda>e. e_state e = STATE_USED) olds))"
    and "\<forall>e\<in>set olds. e_state e = STATE_USED \<longrightarrow> \<not> bound_key m new (key_bytes m e)"
    and "unat used \<le> unat cap" "unat cur + count_state STATE_USED olds = unat used"
    and "count_state STATE_USED new = unat cur"
  shows "\<exists>new'. rehash_loop (length olds) olds used cap cur new = lret new' \<and> cap_ok cap new' \<and> table_ok H m new' \<and>
    count_state STATE_DELETE new' = 0 \<and> count_state STATE_USED new' = unat used \<and>
    (\<forall>k v. binds m new' k v \<longleftrightarrow>
       binds m new k v \<or> (\<exists>e\<in>set olds. e_state e = STATE_USED \<and> key_bytes m e = k \<and> e_data e = v))"
  using assms
proof (induction olds arbitrary: cur new)
  case Nil
  then show ?case by simp
next
  case (Cons old olds)
  show ?case
  proof (cases "e_state old = STATE_USED")
    case False
    show ?thesis
    proof (cases "cur < used")
      case True
      then show ?thesis using Cons.IH [of new cur] Cons.prems False by auto
    next
      case stop: False
      then have "count_state STATE_USED (old # olds) = 0" "unat cur = unat used"
        using Cons.prems(8) by (auto simp: word_less_nat_alt)
      then show ?thesis using Cons.prems(1-3,9) stop
        by (auto simp: count_state_def filter_empty_conv split: if_splits)
    qed
  next
    case True
    have lt: "cur < used" using Cons.prems(8) True by (simp add: word_less_nat_alt)
    have cur: "unat (cur + 1) = Suc (unat cur)" using lt unat_Suc_lt by (simp add: word_less_nat_alt)
    have "count_state STATE_USED new < length new"
      using Cons.prems(1,7-9) True by (simp add: cap_ok_def)
    then obtain d where d: "first_free new (e_hash old) d" using first_free_exists [OF Cons.prems(1)] by blast
    obtain q where q: "find_free_slot new cap (e_hash old) = lret q" "unat q = probe (length new) (e_hash old) d"
      using find_free_slot_eq [OF Cons.prems(1) d] by blast
    let ?new = "new[unat q := old]"
    have qi: "unat q < length new" "e_state (new ! unat q) \<noteq> STATE_USED"
      using d q(2) probe_less [OF cap_ok_pos [OF Cons.prems(1)]] by (auto simp: first_free_def)
    have place: "table_ok H m ?new"
      "binds m ?new k v \<longleftrightarrow> (k = key_bytes m old \<and> v = e_data old) \<or> binds m new k v" for k v
      using place_entry [OF Cons.prems(2) d True] Cons.prems(4,6) True q(2) by auto
    have "e_state (new ! unat q) \<noteq> STATE_DELETE"
      using Cons.prems(3) qi(1) by (metis count_state_pos less_irrefl)
    then have cnt: "count_state STATE_USED ?new = unat (cur + 1)" "count_state STATE_DELETE ?new = 0"
      using count_state_update [OF qi(1), of STATE_USED old] count_state_update [OF qi(1), of STATE_DELETE old]
        Cons.prems(3,9) True qi(2) cur by auto
    have "\<exists>new'. rehash_loop (length olds) olds used cap (cur + 1) ?new = lret new' \<and> cap_ok cap new' \<and> table_ok H m new' \<and>
      count_state STATE_DELETE new' = 0 \<and> count_state STATE_USED new' = unat used \<and>
      (\<forall>k v. binds m new' k v \<longleftrightarrow>
         binds m ?new k v \<or> (\<exists>e\<in>set olds. e_state e = STATE_USED \<and> key_bytes m e = k \<and> e_data e = v))"
    proof (rule Cons.IH)
      show "\<forall>e\<in>set olds. e_state e = STATE_USED \<longrightarrow> \<not> bound_key m ?new (key_bytes m e)"
        using Cons.prems(5,6) True unfolding bound_key_iff place(2) by (auto simp: image_iff)
      show "unat (cur + 1) + count_state STATE_USED olds = unat used" using Cons.prems(8) True cur by simp
    qed (use Cons.prems place cnt True in \<open>auto simp: cap_ok_def\<close>)
    then show ?thesis using lt True q(1) by (auto simp: place(2))
  qed
qed

section \<open>The invariant of the map\<close>

definition hash_ok :: "(u8 list \<Rightarrow> u64) \<Rightarrow> fmap_hash_func \<Rightarrow> bool" where
  "hash_ok H f \<longleftrightarrow> (\<forall>m p l. unat l < 2 ^ 32 \<longrightarrow> f m p l = Some (H (bytes m p (unat l))))"

text \<open>
  \<open>fh_wf\<close> is what holds at every point, \<open>fh_inv\<close> adds the load bound that holds between
  operations. The capacity bound is the largest power of two for which the size of the
  entry array in bytes fits the 32 bits that \<^verbatim>\<open>kmalloc\<close> takes; it also keeps the
  percentage computation within 64 bits.
\<close>

definition fh_wf :: "(u8 list \<Rightarrow> u64) \<Rightarrow> mem \<Rightarrow> flat_hashmap \<Rightarrow> bool" where
  "fh_wf H m hm \<longleftrightarrow> cap_ok (fh_capacity hm) (fh_entries hm) \<and> table_ok H m (fh_entries hm) \<and>
     unat (fh_used_count hm) = count_state STATE_USED (fh_entries hm) \<and>
     unat (fh_delete_count hm) = count_state STATE_DELETE (fh_entries hm) \<and>
     unat (fh_empty_count hm) = count_state STATE_EMPTY (fh_entries hm) \<and>
     unat (fh_capacity hm) \<le> 2 ^ 27 \<and> hash_ok H (fh_hash hm)"

definition fh_load :: "flat_hashmap \<Rightarrow> nat" where
  "fh_load hm = unat (fh_used_count hm) + unat (fh_delete_count hm)"

definition fh_inv :: "(u8 list \<Rightarrow> u64) \<Rightarrow> mem \<Rightarrow> flat_hashmap \<Rightarrow> bool" where
  "fh_inv H m hm \<longleftrightarrow> fh_wf H m hm \<and> fh_load hm * 100 div unat (fh_capacity hm) \<le> 75"

definition fh_abs :: "mem \<Rightarrow> flat_hashmap \<Rightarrow> u8 list \<Rightarrow> usize_ptr option" where
  "fh_abs m hm = map_of (map (\<lambda>e. (key_bytes m e, e_data e)) (filter (\<lambda>e. e_state e = STATE_USED) (fh_entries hm)))"

lemma fh_wf_counts:
  assumes "fh_wf H m hm"
  shows "unat (fh_empty_count hm) + fh_load hm = unat (fh_capacity hm)"
  using assms count_state_total [of "fh_entries hm"]
  by (simp add: fh_wf_def fh_load_def cap_ok_def table_ok_def)

lemma fh_load_word:
  assumes "fh_wf H m hm"
  shows "unat (fh_used_count hm + fh_delete_count hm) = fh_load hm"
    and "unat ((fh_used_count hm + fh_delete_count hm) * 100) = fh_load hm * 100"
    and "unat (fh_delete_count hm * 100) = unat (fh_delete_count hm) * 100"
proof -
  have b: "fh_load hm \<le> 2 ^ 27" using fh_wf_counts [OF assms] assms by (simp add: fh_wf_def)
  then show *: "unat (fh_used_count hm + fh_delete_count hm) = fh_load hm"
    by (simp add: fh_load_def unat_word_ariths)
  show "unat ((fh_used_count hm + fh_delete_count hm) * 100) = fh_load hm * 100"
    unfolding unat_word_ariths(2) * using b by simp
  show "unat (fh_delete_count hm * 100) = unat (fh_delete_count hm) * 100"
    using b by (simp add: unat_word_ariths fh_load_def)
qed

lemma fh_cap_nonzero: "fh_wf H m hm \<Longrightarrow> fh_capacity hm \<noteq> 0"
  by (auto simp: fh_wf_def cap_ok_def dest: is_pow2_pos)

lemma need_resize_eq:
  assumes "fh_wf H m hm"
  shows "need_resize hm = lret (75 < fh_load hm * 100 div unat (fh_capacity hm))"
  using fh_load_word(2) [OF assms] fh_cap_nonzero [OF assms]
  by (simp add: need_resize_def word_less_nat_alt unat_div_distrib)

lemma need_rehash_defined:
  assumes "fh_wf H m hm" "0 < fh_load hm"
  obtains b where "need_rehash hm = lret b"
proof -
  have "fh_used_count hm + fh_delete_count hm \<noteq> 0"
    using assms(2) fh_load_word(1) [OF assms(1)] by (metis less_irrefl unat_0)
  then show ?thesis using that by (simp add: need_rehash_def)
qed

lemma fh_inv_empty:
  assumes "fh_inv H m hm"
  shows "fh_empty_count hm \<noteq> 0" "fh_load hm < unat (fh_capacity hm)"
proof -
  have c: "0 < unat (fh_capacity hm)" "unat (fh_empty_count hm) + fh_load hm = unat (fh_capacity hm)"
    using assms fh_wf_counts by (auto simp: fh_inv_def fh_wf_def cap_ok_def is_pow2_pos)
  have "fh_load hm * 100 div unat (fh_capacity hm) < 76" using assms by (simp add: fh_inv_def)
  then have "fh_load hm * 100 < 76 * unat (fh_capacity hm)"
    using c(1) by (simp add: div_less_iff_less_mult)
  then show "fh_load hm < unat (fh_capacity hm)" by simp
  with c(2) show "fh_empty_count hm \<noteq> 0" by auto
qed

lemma distinct_used_keys:
  assumes "table_ok H m es"
  shows "distinct (map (key_bytes m) (filter (\<lambda>e. e_state e = STATE_USED) es))"
proof -
  have "distinct (map (key_bytes m) (filter (\<lambda>e. e_state e = STATE_USED) xs))"
    if "\<forall>i j. used_at xs i \<longrightarrow> used_at xs j \<longrightarrow> key_bytes m (xs ! i) = key_bytes m (xs ! j) \<longrightarrow> i = j" for xs
    using that
  proof (induction xs)
    case (Cons x xs)
    have inner: "\<forall>i j. used_at xs i \<longrightarrow> used_at xs j \<longrightarrow> key_bytes m (xs ! i) = key_bytes m (xs ! j) \<longrightarrow> i = j"
    proof (intro allI impI)
      fix i j assume "used_at xs i" "used_at xs j" "key_bytes m (xs ! i) = key_bytes m (xs ! j)"
      then show "i = j" using Cons.prems [rule_format, of "Suc i" "Suc j"] by (simp add: used_at_def)
    qed
    have "key_bytes m x \<noteq> key_bytes m y" if "e_state x = STATE_USED" "y \<in> set xs" "e_state y = STATE_USED" for y
    proof -
      obtain j where "j < length xs" "xs ! j = y" using \<open>y \<in> set xs\<close> by (auto simp: in_set_conv_nth)
      then show ?thesis using Cons.prems [rule_format, of 0 "Suc j"] that by (auto simp: used_at_def)
    qed
    then show ?case using Cons.IH [OF inner] by (auto simp: image_iff)
  qed simp
  then show ?thesis using assms by (simp add: table_ok_def)
qed

lemma binds_set: "binds m es k v \<longleftrightarrow> (\<exists>e\<in>set es. e_state e = STATE_USED \<and> key_bytes m e = k \<and> e_data e = v)"
  unfolding binds_def used_at_def by (auto simp: in_set_conv_nth) (metis nth_mem)

lemma fh_abs_iff:
  assumes "table_ok H m (fh_entries hm)"
  shows "fh_abs m hm k = Some v \<longleftrightarrow> binds m (fh_entries hm) k v"
proof -
  have "distinct (map fst (map (\<lambda>e. (key_bytes m e, e_data e)) (filter (\<lambda>e. e_state e = STATE_USED) (fh_entries hm))))"
    using distinct_used_keys [OF assms] by (simp add: comp_def)
  then show ?thesis
    unfolding fh_abs_def by (subst map_of_eq_Some_iff) (auto simp: binds_set)
qed

lemma fh_abs_eqI:
  assumes "table_ok H m (fh_entries hm)" "\<And>k v. binds m (fh_entries hm) k v \<longleftrightarrow> f k = Some v"
  shows "fh_abs m hm = f"
  by (rule ext) (metis assms fh_abs_iff not_Some_eq)

lemma fh_abs_None:
  "table_ok H m (fh_entries hm) \<Longrightarrow> fh_abs m hm k = None \<longleftrightarrow> \<not> bound_key m (fh_entries hm) k"
  using fh_abs_iff [of H m hm k] by (cases "fh_abs m hm k") (auto simp: bound_key_iff)

lemma zero_table:
  assumes "0 < n"
  shows "table_ok H m (replicate n zero_entry)" "\<not> binds m (replicate n zero_entry) k v"
  using assms by (auto simp: table_ok_def used_at_def binds_def zero_entry_def state_ok_def state_defs)

lemma entry_slots_eq:
  assumes "unat cap \<le> 2 ^ 27"
  shows "entry_slots cap = unat cap"
proof -
  have "28 * unat cap < 2 ^ 32" using assms by simp
  then have "unat (ucast (sizeof_entry * cap) :: u32) = 28 * unat cap"
    by (simp add: sizeof_entry_def unat_word_ariths unsigned_ucast_eq take_bit_eq_mod)
  then show ?thesis by (simp add: entry_slots_def)
qed

lemma rehash_correct:
  assumes wf: "fh_wf H m hm" and cap: "fh_capacity hm \<le> cap" "is_pow2 (unat cap)" "unat cap \<le> 2 ^ 27"
    and km: "\<And>sz. kmalloc sz \<noteq> NULL"
  shows "\<exists>hm'. rehash kmalloc hm cap = lret (0, hm') \<and> fh_wf H m hm' \<and> fh_capacity hm' = cap \<and>
    fh_load hm' = unat (fh_used_count hm) \<and> fh_abs m hm' = fh_abs m hm \<and> fh_destroy_cb hm' = fh_destroy_cb hm"
proof -
  let ?es = "fh_entries hm" and ?z = "replicate (unat cap) zero_entry"
  note t = wf [unfolded fh_wf_def cap_ok_def]
  have z: "zero_entry \<in> {e. e_state e = STATE_EMPTY}" by (simp add: zero_entry_def state_defs)
  have "\<exists>new'. rehash_loop (length ?es) ?es (fh_used_count hm) cap 0 ?z = lret new' \<and> cap_ok cap new' \<and> table_ok H m new' \<and>
    count_state STATE_DELETE new' = 0 \<and> count_state STATE_USED new' = unat (fh_used_count hm) \<and>
    (\<forall>k v. binds m new' k v \<longleftrightarrow>
       binds m ?z k v \<or> (\<exists>e\<in>set ?es. e_state e = STATE_USED \<and> key_bytes m e = k \<and> e_data e = v))"
  proof (rule rehash_loop_correct)
    show "\<forall>e\<in>set ?es. e_state e = STATE_USED \<longrightarrow> entry_ok H m e"
      using t by (auto simp: table_ok_def used_at_def in_set_conv_nth)
    show "unat (fh_used_count hm) \<le> unat cap"
      using t cap(1) count_state_le [of STATE_USED ?es] by (simp add: word_le_nat_alt)
  qed (use t z cap(2) distinct_used_keys [of H m ?es] zero_table [OF is_pow2_pos [OF cap(2)]]
      in \<open>auto simp: cap_ok_def bound_key_iff\<close>)
  then obtain new where new: "rehash_loop (length ?es) ?es (fh_used_count hm) cap 0 ?z = lret new" "cap_ok cap new" "table_ok H m new"
    "count_state STATE_DELETE new = 0" "count_state STATE_USED new = unat (fh_used_count hm)"
    "\<And>k v. binds m new k v \<longleftrightarrow> binds m ?es k v"
    using zero_table(2) [OF is_pow2_pos [OF cap(2)]] unfolding binds_set [of m ?es] by blast
  let ?hm = "hm\<lparr>fh_delete_count := 0, fh_empty_count := cap - fh_used_count hm,
      fh_used_count := fh_used_count hm, fh_capacity := cap, fh_entries := new\<rparr>"
  have total: "count_state STATE_EMPTY new + unat (fh_used_count hm) = unat cap"
    using count_state_total [of new] new(2-5) by (simp add: table_ok_def cap_ok_def)
  then have "unat (cap - fh_used_count hm) = count_state STATE_EMPTY new"
    by (subst unat_sub) (auto simp: word_le_nat_alt)
  then have "fh_wf H m ?hm" using new t cap(3) by (simp add: fh_wf_def)
  moreover have "rehash kmalloc hm cap = lret (0, ?hm)"
    using new(1) t cap(1) km by (simp add: rehash_def entry_slots_eq [OF cap(3)])
  moreover have "fh_abs m ?hm = fh_abs m hm"
    by (rule fh_abs_eqI [of H]) (use new(3,6) t fh_abs_iff [of H m hm] in simp_all)
  ultimately show ?thesis by (intro exI [of _ ?hm]) (simp add: fh_load_def)
qed

lemma handle_rehash_correct:
  assumes wf: "fh_wf H m hm" and load: "0 < fh_load hm" and cap: "unat (fh_capacity hm) \<le> 2 ^ 26"
    and km: "\<And>sz. kmalloc sz \<noteq> NULL"
  shows "\<exists>hm'. handle_rehash kmalloc hm = lret (0, hm') \<and> fh_inv H m hm' \<and>
    fh_abs m hm' = fh_abs m hm \<and> fh_destroy_cb hm' = fh_destroy_cb hm \<and>
    unat (fh_capacity hm') \<le> 2 * unat (fh_capacity hm)"
proof -
  let ?c = "fh_capacity hm"
  have pow: "is_pow2 (unat ?c)" using wf by (simp add: fh_wf_def cap_ok_def)
  have c2: "unat (?c * 2) = 2 * unat ?c" using cap by (simp add: unat_word_ariths)
  have used: "unat (fh_used_count hm) \<le> fh_load hm" "fh_load hm \<le> unat ?c"
    using fh_wf_counts [OF wf] by (simp_all add: fh_load_def)
  consider (resize) "75 < fh_load hm * 100 div unat ?c"
    | (again) "\<not> 75 < fh_load hm * 100 div unat ?c" "need_rehash hm = lret True"
    | (keep) "\<not> 75 < fh_load hm * 100 div unat ?c" "need_rehash hm = lret False"
    using need_rehash_defined [OF wf load] by metis
  then show ?thesis
  proof cases
    case resize
    have "is_pow2 (unat (?c * 2))" using is_pow2_double [OF pow] c2 by simp
    moreover have "?c \<le> ?c * 2" using c2 by (simp add: word_le_nat_alt)
    ultimately obtain hm' where hm': "rehash kmalloc hm (?c * 2) = lret (0, hm')" "fh_wf H m hm'"
      "fh_capacity hm' = ?c * 2" "fh_load hm' = unat (fh_used_count hm)" "fh_abs m hm' = fh_abs m hm"
      "fh_destroy_cb hm' = fh_destroy_cb hm"
      using rehash_correct [OF wf, of "?c * 2" kmalloc] c2 cap km by auto
    have "fh_load hm' * 100 div (2 * unat ?c) \<le> unat ?c * 100 div (2 * unat ?c)"
      using used hm'(4) by (intro div_le_mono) simp
    also have "\<dots> = 50" using is_pow2_pos [OF pow] by simp
    finally show ?thesis
      using hm' resize c2 need_resize_eq [OF wf] by (simp add: handle_rehash_def fh_inv_def)
  next
    case again
    obtain hm' where hm': "rehash kmalloc hm ?c = lret (0, hm')" "fh_wf H m hm'"
      "fh_capacity hm' = ?c" "fh_load hm' = unat (fh_used_count hm)" "fh_abs m hm' = fh_abs m hm"
      "fh_destroy_cb hm' = fh_destroy_cb hm"
      using rehash_correct [OF wf, of ?c kmalloc] pow cap km by auto
    have "fh_load hm' * 100 div unat ?c \<le> fh_load hm * 100 div unat ?c"
      using used hm'(4) by (intro div_le_mono) simp
    then show ?thesis
      using hm' again need_resize_eq [OF wf] by (simp add: handle_rehash_def fh_inv_def)
  next
    case keep
    then show ?thesis using wf need_resize_eq [OF wf] by (simp add: handle_rehash_def fh_inv_def)
  qed
qed

section \<open>Lookup\<close>

lemma entry_matches_iff:
  assumes "entry_ok H m e" "unat l < 2 ^ 32"
  shows "entry_matches m e (H (bytes m p (unat l))) p l \<longleftrightarrow> key_bytes m e = bytes m p (unat l)"
proof
  have len: "unat (ucast l :: u32) = unat l" using assms(2) by (simp add: unsigned_ucast_eq take_bit_eq_mod)
  show "key_bytes m e = bytes m p (unat l)" if "entry_matches m e (H (bytes m p (unat l))) p l"
    using that len by (simp add: entry_matches_def memcmp_zero_iff key_bytes_def)
  assume k: "key_bytes m e = bytes m p (unat l)"
  from arg_cong [OF k, of length] have "e_key_length e = l" by (simp add: key_bytes_def word_unat_eq_iff)
  with k assms(1) len show "entry_matches m e (H (bytes m p (unat l))) p l"
    by (simp add: entry_matches_def memcmp_zero_iff entry_ok_def) (simp add: key_bytes_def)
qed

lemma find_exact_bound:
  assumes tab: "cap_ok cap es" "table_ok H m es" "unat l < 2 ^ 32"
    and j: "used_at es j" "key_bytes m (es ! j) = bytes m p (unat l)"
  defines "h \<equiv> H (bytes m p (unat l))"
  shows "\<exists>q. find_exact_loop m es cap (h AND (cap - 1)) h p l = lret (Some q) \<and> unat q = j"
proof -
  have ok: "entry_ok H m (es ! j)" "reachable es j" using tab(2) j(1) by (auto simp: table_ok_def)
  have hj: "e_hash (es ! j) = h" using ok(1) j(2) by (simp add: entry_ok_def h_def)
  obtain d where d: "d < length es" "probe (length es) h d = j"
    "\<forall>i<d. e_state (es ! probe (length es) h i) \<noteq> STATE_EMPTY"
    using ok(2) unfolding reachable_def hj by blast
  have no: "\<not> (e_state (es ! probe (length es) h i) = STATE_USED \<and> entry_matches m (es ! probe (length es) h i) h p l)"
    if "i < d" for i
  proof
    assume a: "e_state (es ! probe (length es) h i) = STATE_USED \<and> entry_matches m (es ! probe (length es) h i) h p l"
    then have u: "used_at es (probe (length es) h i)" using probe_less [OF cap_ok_pos [OF tab(1)]] by (simp add: used_at_def)
    then have "entry_ok H m (es ! probe (length es) h i)" using tab(2) by (simp add: table_ok_def)
    then have "key_bytes m (es ! probe (length es) h i) = key_bytes m (es ! j)"
      using a entry_matches_iff [OF _ tab(3)] j(2) by (simp add: h_def)
    then have "probe (length es) h i = probe (length es) h d" using tab(2) u j(1) d(2) by (simp add: table_ok_def)
    then show False using probe_inj [of i "length es" d h] that d(1) by simp
  qed
  obtain q where q: "unat q = probe (length es) h (0 + d)"
    "find_exact_loop m es cap (h AND (cap - 1)) h p l = find_exact_loop m es cap q h p l"
    using find_exact_loop_eq [OF tab(1) home_probe [OF tab(1), of h], of d m h p l] d(3) no by auto
  have "entry_matches m (es ! j) h p l" using entry_matches_iff [OF ok(1) tab(3)] j(2) by (simp add: h_def)
  then have "find_exact_loop m es cap q h p l = lret (Some q)"
    using q(1) d(2) j(1) by (subst find_exact_loop.simps) (simp add: used_at_def)
  with q d(2) show ?thesis by simp
qed

lemma find_exact_unbound:
  assumes tab: "cap_ok cap es" "table_ok H m es" "unat l < 2 ^ 32"
    and empty: "0 < count_state STATE_EMPTY es" and k: "\<not> bound_key m es (bytes m p (unat l))"
  defines "h \<equiv> H (bytes m p (unat l))"
  shows "find_exact_loop m es cap (h AND (cap - 1)) h p l = lret None"
proof -
  obtain q0 where "q0 < length es" "e_state (es ! q0) = STATE_EMPTY" using empty by (auto simp: count_state_pos)
  then have "\<exists>d. e_state (es ! probe (length es) h d) = STATE_EMPTY" using probe_reach by metis
  then obtain d where d: "e_state (es ! probe (length es) h d) = STATE_EMPTY"
    "\<forall>i<d. e_state (es ! probe (length es) h i) \<noteq> STATE_EMPTY"
    using exists_least_iff [of "\<lambda>d. e_state (es ! probe (length es) h d) = STATE_EMPTY"] by blast
  have no: "\<not> (e_state (es ! probe (length es) h i) = STATE_USED \<and> entry_matches m (es ! probe (length es) h i) h p l)" for i
  proof
    assume a: "e_state (es ! probe (length es) h i) = STATE_USED \<and> entry_matches m (es ! probe (length es) h i) h p l"
    then have u: "used_at es (probe (length es) h i)" using probe_less [OF cap_ok_pos [OF tab(1)]] by (simp add: used_at_def)
    then have "entry_ok H m (es ! probe (length es) h i)" using tab(2) by (simp add: table_ok_def)
    with a u k show False using entry_matches_iff [OF _ tab(3)] by (auto simp: h_def bound_key_def)
  qed
  obtain q where q: "unat q = probe (length es) h (0 + d)"
    "find_exact_loop m es cap (h AND (cap - 1)) h p l = find_exact_loop m es cap q h p l"
    using find_exact_loop_eq [OF tab(1) home_probe [OF tab(1), of h], of d m h p l] d(2) no by auto
  have "find_exact_loop m es cap q h p l = lret None"
    using q(1) d(1) probe_less [OF cap_ok_pos [OF tab(1)]] by (subst find_exact_loop.simps) simp
  with q show ?thesis by simp
qed

text \<open>What \<^verbatim>\<open>find_exact_entry\<close> returns on a well-formed map.\<close>

lemma find_exact_entry_cases:
  assumes inv: "fh_inv H m hm" and l: "unat l < 2 ^ 32" and k_def: "k = bytes m p (unat l)"
  obtains (found) q where "find_exact_entry m hm (H k) p l = lret (Some q)" "used_at (fh_entries hm) (unat q)"
      "key_bytes m (fh_entries hm ! unat q) = k" "fh_abs m hm k = Some (e_data (fh_entries hm ! unat q))"
    | (missing) "find_exact_entry m hm (H k) p l = lret None" "fh_abs m hm k = None"
proof -
  have wf: "cap_ok (fh_capacity hm) (fh_entries hm)" "table_ok H m (fh_entries hm)"
    "0 < count_state STATE_EMPTY (fh_entries hm)"
    using inv fh_inv_empty(1) [OF inv] by (auto simp: fh_inv_def fh_wf_def unat_gt_0 simp flip: unat_gt_0)
  have ne: "fh_empty_count hm \<noteq> 0" using fh_inv_empty(1) [OF inv] .
  show ?thesis
  proof (cases "bound_key m (fh_entries hm) k")
    case True
    then obtain j where j: "used_at (fh_entries hm) j" "key_bytes m (fh_entries hm ! j) = k"
      by (auto simp: bound_key_def)
    then obtain q where "find_exact_entry m hm (H k) p l = lret (Some q)" "unat q = j"
      using find_exact_bound [OF wf(1,2) l j(1)] ne by (auto simp: k_def find_exact_entry_def)
    moreover from j this have "fh_abs m hm k = Some (e_data (fh_entries hm ! j))"
      unfolding fh_abs_iff [OF wf(2)] by (auto simp: binds_def)
    ultimately show ?thesis using found j by auto
  next
    case False
    then show ?thesis
      using missing find_exact_unbound [OF wf(1,2) l wf(3)] ne fh_abs_None [OF wf(2)]
      by (auto simp: k_def find_exact_entry_def)
  qed
qed

definition lookup_result :: "usize_ptr option \<Rightarrow> flat_hashmap_result" where
  "lookup_result r = (case r of None \<Rightarrow> \<lparr>res_value = NULL, res_succeed = False\<rparr>
     | Some v \<Rightarrow> \<lparr>res_value = v, res_succeed = True\<rparr>)"

lemma fh_hash_eq:
  "fh_inv H m hm \<Longrightarrow> unat l < 2 ^ 32 \<Longrightarrow> fh_hash hm m p l = Some (H (bytes m p (unat l)))"
  by (simp add: fh_inv_def fh_wf_def hash_ok_def)

lemma get_data_correct:
  assumes "fh_inv H m hm" "unat l < 2 ^ 32"
  shows "fhashmap_get_data (m, hm) p l = lret (lookup_result (fh_abs m hm (bytes m p (unat l))))"
  by (rule find_exact_entry_cases [OF assms refl, of p])
    (simp_all add: fhashmap_get_data_def fh_hash_eq [OF assms] lookup_result_def)

section \<open>Deletion\<close>

text \<open>
  The memory that the release of \<open>entry\<close> leaves: the destroy callback of the map has run on it, then the
  key has gone back to \<^verbatim>\<open>kfree\<close> if the map had allocated it.
\<close>

definition clean_mem :: "(usize_ptr \<Rightarrow> mem \<Rightarrow> mem) \<Rightarrow> flat_hashmap \<Rightarrow> flat_hashmap_entry \<Rightarrow> mem \<Rightarrow> mem" where
  "clean_mem kfree hashmap entry m =
     (let called = (case fh_destroy_cb hashmap of None \<Rightarrow> m
                    | Some cb \<Rightarrow> cb (e_data entry) (e_key_data entry) (ucast (e_key_length entry)) m)
      in if e_flags entry AND FLAG_ALLOCATED = 0 then called else kfree (e_key_data entry) called)"

text \<open>
  Cleaning an entry may change the memory: the destroy callback runs and an allocated key
  is released. \<open>kept m m' es i\<close> says that the keys of the other used entries survive.
\<close>

definition kept :: "mem \<Rightarrow> mem \<Rightarrow> flat_hashmap_entry list \<Rightarrow> nat \<Rightarrow> bool" where
  "kept m m' es i \<longleftrightarrow> (\<forall>j. used_at es j \<longrightarrow> j \<noteq> i \<longrightarrow> key_bytes m' (es ! j) = key_bytes m (es ! j))"

lemma kept_refl [simp]: "kept m m es i"
  by (simp add: kept_def)

text \<open>
  What deleting the key \<open>k\<close> asks of the callback and of \<^verbatim>\<open>kfree\<close>: they leave the bytes of the
  other keys in the map alone. Other memory they may change as they like.
\<close>

definition clean_safe :: "(usize_ptr \<Rightarrow> mem \<Rightarrow> mem) \<Rightarrow> mem \<Rightarrow> flat_hashmap \<Rightarrow> u8 list \<Rightarrow> bool" where
  "clean_safe kfree m hm k \<longleftrightarrow> (\<forall>d\<in>set (fh_entries hm). \<forall>e\<in>set (fh_entries hm).
     e_state d = STATE_USED \<longrightarrow> key_bytes m d = k \<longrightarrow> e_state e = STATE_USED \<longrightarrow> key_bytes m e \<noteq> k \<longrightarrow>
     key_bytes (clean_mem kfree hm d m) e = key_bytes m e)"

lemma clean_safe_kept:
  assumes "clean_safe kfree m hm k" "table_ok H m (fh_entries hm)" "used_at (fh_entries hm) i" "key_bytes m (fh_entries hm ! i) = k"
  shows "kept m (clean_mem kfree hm (fh_entries hm ! i) m) (fh_entries hm) i"
  unfolding kept_def
proof (intro allI impI)
  fix j assume j: "used_at (fh_entries hm) j" "j \<noteq> i"
  then have "key_bytes m (fh_entries hm ! j) \<noteq> k" using assms by (auto simp: table_ok_def)
  then show "key_bytes (clean_mem kfree hm (fh_entries hm ! i) m) (fh_entries hm ! j) = key_bytes m (fh_entries hm ! j)"
    using assms(1,3,4) j(1) by (auto simp: clean_safe_def used_at_def)
qed

lemma clear_entry:
  assumes tab: "table_ok H m es" and i: "used_at es i" and e: "e_state e = STATE_DELETE" and m': "kept m m' es i"
  shows "table_ok H m' (es[i := e])"
    and "binds m' (es[i := e]) k v \<longleftrightarrow> binds m es k v \<and> k \<noteq> key_bytes m (es ! i)"
proof -
  have il: "i < length es" using i by (simp add: used_at_def)
  have st: "used_at (es[i := e]) j \<longleftrightarrow> j \<noteq> i \<and> used_at es j" for j
    using il e by (auto simp: used_at_update)
  have kb: "key_bytes m' (es ! j) = key_bytes m (es ! j)" if "used_at es j" "j \<noteq> i" for j
    using m' that by (simp add: kept_def)
  show "table_ok H m' (es[i := e])"
    unfolding table_ok_def
  proof (intro conjI allI impI)
    show "\<forall>e\<in>set (es[i := e]). state_ok e"
      using tab e by (intro state_ok_update) (auto simp: table_ok_def state_ok_def)
    fix j assume "used_at (es[i := e]) j"
    then have j: "j \<noteq> i" "used_at es j" by (simp_all add: st)
    then show "entry_ok H m' (es[i := e] ! j)" using tab kb by (simp add: table_ok_def entry_ok_def)
    show "reachable (es[i := e]) j"
      using tab j il e by (intro reachable_update) (auto simp: table_ok_def)
  next
    fix j k assume "used_at (es[i := e]) j" "used_at (es[i := e]) k"
      "key_bytes m' (es[i := e] ! j) = key_bytes m' (es[i := e] ! k)"
    then show "j = k" using tab kb by (auto simp: st table_ok_def)
  qed
  have uniq: "j = i" if "used_at es j" "key_bytes m (es ! j) = key_bytes m (es ! i)" for j
    using tab i that by (simp add: table_ok_def)
  have "binds m' (es[i := e]) k v \<longleftrightarrow> (\<exists>j. (j \<noteq> i \<and> used_at es j) \<and> key_bytes m (es ! j) = k \<and> e_data (es ! j) = v)"
    unfolding binds_def st using kb by (intro ex_cong1) auto
  then show "binds m' (es[i := e]) k v \<longleftrightarrow> binds m es k v \<and> k \<noteq> key_bytes m (es ! i)"
    using uniq by (auto simp: binds_def)
qed

definition cleaned :: "flat_hashmap_entry \<Rightarrow> u8 \<Rightarrow> flat_hashmap_entry" where
  "cleaned e st = e\<lparr>e_key_data := NULL, e_key_length := 0, e_hash := 0, e_flags := 0, e_state := st\<rparr>"

lemma clean_entry_eq:
  "clean_entry kfree (m, hm) i st =
    (clean_mem kfree hm (fh_entries hm ! i) m, hm\<lparr>fh_entries := (fh_entries hm)[i := cleaned (fh_entries hm ! i) st]\<rparr>)"
  by (simp add: clean_entry_def clean_mem_def cleaned_def Let_def)

lemma cleaned_state [simp]: "e_state (cleaned e st) = st" "e_flags (cleaned e st) = 0"
  by (simp_all add: cleaned_def)

text \<open>The memory that deleting \<open>k\<close> leaves: cleaned for the entry of the key, the same when there is none.\<close>

definition delete_mem :: "(usize_ptr \<Rightarrow> mem \<Rightarrow> mem) \<Rightarrow> mem \<Rightarrow> flat_hashmap \<Rightarrow> u8 list \<Rightarrow> mem" where
  "delete_mem kfree m hm k =
     (case filter (\<lambda>e. e_state e = STATE_USED \<and> key_bytes m e = k) (fh_entries hm) of
        [] \<Rightarrow> m | d # _ \<Rightarrow> clean_mem kfree hm d m)"

lemma delete_mem_bound:
  assumes "table_ok H m (fh_entries hm)" "used_at (fh_entries hm) i" "key_bytes m (fh_entries hm ! i) = k"
  shows "delete_mem kfree m hm k = clean_mem kfree hm (fh_entries hm ! i) m"
proof (cases "filter (\<lambda>e. e_state e = STATE_USED \<and> key_bytes m e = k) (fh_entries hm)")
  case Nil
  then show ?thesis using assms(2,3) by (auto simp: filter_empty_conv used_at_def)
next
  case (Cons d ds)
  then have "d \<in> set (fh_entries hm)" "e_state d = STATE_USED" "key_bytes m d = k"
    by (auto dest!: filter_eq_ConsD)
  then obtain j where "used_at (fh_entries hm) j" "fh_entries hm ! j = d" "key_bytes m (fh_entries hm ! j) = k"
    by (auto simp: in_set_conv_nth used_at_def)
  then have "fh_entries hm ! i = d" using assms unfolding table_ok_def by metis
  then show ?thesis using Cons by (simp add: delete_mem_def)
qed

lemma delete_mem_unbound: "\<not> bound_key m (fh_entries hm) k \<Longrightarrow> delete_mem kfree m hm k = m"
proof -
  assume "\<not> bound_key m (fh_entries hm) k"
  then have "filter (\<lambda>e. e_state e = STATE_USED \<and> key_bytes m e = k) (fh_entries hm) = []"
    by (auto simp: bound_key_def used_at_def filter_empty_conv in_set_conv_nth)
  then show ?thesis by (simp add: delete_mem_def)
qed

lemma delete_correct:
  assumes inv: "fh_inv H m hm" and l: "unat l < 2 ^ 32" and cap: "unat (fh_capacity hm) \<le> 2 ^ 26"
    and km: "\<And>sz. kmalloc sz \<noteq> NULL" and safe: "clean_safe kfree m hm k"
    and k_def: "k = bytes m p (unat l)" and m': "m' = delete_mem kfree m hm k"
  shows "\<exists>hm'. fhashmap_delete kmalloc kfree (m, hm) p l = lret (lookup_result (fh_abs m hm k), m', hm') \<and>
    fh_inv H m' hm' \<and> fh_abs m' hm' = (fh_abs m hm)(k := None) \<and> fh_destroy_cb hm' = fh_destroy_cb hm"
  using inv l k_def
proof (cases rule: find_exact_entry_cases)
  case missing
  have "m' = m" using m' missing(2) delete_mem_unbound fh_abs_None inv by (auto simp: fh_inv_def fh_wf_def)
  then show ?thesis using missing inv fh_hash_eq [OF inv l] by (auto simp: fhashmap_delete_def lookup_result_def k_def)
next
  case (found q)
  let ?es = "fh_entries hm"
  define e where "e = cleaned (?es ! unat q) STATE_DELETE"
  define hm1 where "hm1 = hm\<lparr>fh_entries := ?es[unat q := e], fh_delete_count := fh_delete_count hm + 1,
      fh_used_count := fh_used_count hm - 1\<rparr>"
  have q: "unat q < length ?es" "e_state (?es ! unat q) = STATE_USED" "e_state e = STATE_DELETE"
    using found(2) by (auto simp: used_at_def e_def)
  have wf: "fh_wf H m hm" "table_ok H m ?es" using inv by (auto simp: fh_inv_def fh_wf_def)
  have mc: "m' = clean_mem kfree hm (?es ! unat q) m" using m' delete_mem_bound [OF wf(2) found(2,3)] by simp
  have kp: "kept m m' ?es (unat q)" using clean_safe_kept [OF safe wf(2) found(2,3)] mc by simp
  have cnt: "count_state STATE_USED (?es[unat q := e]) + 1 = unat (fh_used_count hm)"
    "count_state STATE_DELETE (?es[unat q := e]) = unat (fh_delete_count hm) + 1"
    "count_state STATE_EMPTY (?es[unat q := e]) = unat (fh_empty_count hm)"
    using count_state_update [OF q(1), of STATE_USED e] count_state_update [OF q(1), of STATE_DELETE e]
      count_state_update [OF q(1), of STATE_EMPTY e] q(2,3) wf(1)
    by (simp_all add: fh_wf_def)
  have used: "unat (fh_used_count hm - 1) = unat (fh_used_count hm) - 1"
    using cnt(1) by (metis add_is_0 one_neq_zero unat_0 unat_minus_one)
  have del: "unat (fh_delete_count hm + 1) = unat (fh_delete_count hm) + 1"
    using fh_wf_counts [OF wf(1)] cap by (simp add: fh_load_def unat_word_ariths)
  have wf1: "fh_wf H m' hm1"
    using wf(1) cnt used del clear_entry(1) [OF wf(2) found(2) q(3) kp]
    by (simp add: fh_wf_def hm1_def cap_ok_def)
  have abs1: "fh_abs m' hm1 = (fh_abs m hm)(k := None)"
  proof (rule fh_abs_eqI [of H])
    show "table_ok H m' (fh_entries hm1)" using wf1 by (simp add: fh_wf_def)
    show "binds m' (fh_entries hm1) k' v \<longleftrightarrow> ((fh_abs m hm)(k := None)) k' = Some v" for k' v
      using clear_entry(2) [OF wf(2) found(2) q(3) kp] found(3) fh_abs_iff [OF wf(2)]
      by (auto simp: hm1_def k_def)
  qed
  have "0 < fh_load hm1" "unat (fh_capacity hm1) \<le> 2 ^ 26"
    using del cap by (simp_all add: fh_load_def hm1_def)
  from handle_rehash_correct [OF wf1 this, of kmalloc] km obtain hm' where hm':
    "handle_rehash kmalloc hm1 = lret (0, hm')" "fh_inv H m' hm'" "fh_abs m' hm' = fh_abs m' hm1"
    "fh_destroy_cb hm' = fh_destroy_cb hm1" by blast
  have "fhashmap_delete kmalloc kfree (m, hm) p l = lret (lookup_result (fh_abs m hm k), m', hm')"
    using found hm'(1) fh_hash_eq [OF inv l, of p]
    by (simp add: fhashmap_delete_def clean_entry_eq lookup_result_def k_def e_def hm1_def mc)
  with hm' abs1 show ?thesis by (simp add: hm1_def)
qed

section \<open>Insertion\<close>

lemma find_exact_interval_eq:
  assumes "cap_ok cap es" "unat cur = probe (length es) hash i"
    and "\<forall>j<d. probe (length es) hash (i + j) \<noteq> unat to \<and>
      e_state (es ! probe (length es) hash (i + j)) \<noteq> STATE_EMPTY \<and>
      \<not> entry_matches m (es ! probe (length es) hash (i + j)) h k l"
  shows "\<exists>q. unat q = probe (length es) hash (i + d) \<and>
    find_exact_entry_interval m es cap cur to h k l = find_exact_entry_interval m es cap q to h k l"
  using assms(2,3)
proof (induction d arbitrary: i cur)
  case 0
  then show ?case by auto
next
  case (Suc d)
  have i: "probe (length es) hash i \<noteq> unat to"
    "e_state (es ! probe (length es) hash i) \<noteq> STATE_EMPTY" "\<not> entry_matches m (es ! probe (length es) hash i) h k l"
    using Suc.prems(2) [rule_format, of 0] by simp_all
  have "cur \<noteq> to" using i(1) Suc.prems(1) by auto
  then have "find_exact_entry_interval m es cap cur to h k l =
      find_exact_entry_interval m es cap ((cur + 1) AND (cap - 1)) to h k l"
    using Suc.prems(1) i(2,3) probe_less [OF cap_ok_pos [OF assms(1)]]
    by (subst find_exact_entry_interval.simps) simp
  moreover have "\<forall>j<d. probe (length es) hash (Suc i + j) \<noteq> unat to \<and>
      e_state (es ! probe (length es) hash (Suc i + j)) \<noteq> STATE_EMPTY \<and>
      \<not> entry_matches m (es ! probe (length es) hash (Suc i + j)) h k l"
    using Suc.prems(2) by (metis Suc_less_eq add_Suc_shift)
  ultimately show ?case
    using Suc.IH [OF next_probe [OF assms(1) Suc.prems(1)]] by simp
qed

lemma used_matches_iff:
  assumes "table_ok H m es" "used_at es i" "unat l < 2 ^ 32"
  shows "entry_matches m (es ! i) (H (bytes m p (unat l))) p l \<longleftrightarrow> key_bytes m (es ! i) = bytes m p (unat l)"
  using assms by (intro entry_matches_iff) (auto simp: table_ok_def)

text \<open>The search of an insertion finds nothing when none of the slots in front of the first free one has the key.\<close>

lemma interval_new_key:
  assumes tab: "cap_ok cap es" "table_ok H m es" "unat l < 2 ^ 32"
    and free: "first_free es (H (bytes m p (unat l))) d"
    and new: "\<And>j. j < d \<Longrightarrow> key_bytes m (es ! probe (length es) (H (bytes m p (unat l))) j) \<noteq> bytes m p (unat l)"
    and q: "unat q = probe (length es) (H (bytes m p (unat l))) d"
  shows "find_exact_entry_interval m es cap (H (bytes m p (unat l)) AND (cap - 1)) q (H (bytes m p (unat l))) p l = lret None"
proof -
  let ?h = "H (bytes m p (unat l))" and ?n = "length es"
  have ne: "\<not> used_at es (probe ?n ?h d)" using free by (simp add: first_free_def used_at_def)
  have "\<forall>j<d. probe ?n ?h (0 + j) \<noteq> unat q \<and> e_state (es ! probe ?n ?h (0 + j)) \<noteq> STATE_EMPTY \<and>
      \<not> entry_matches m (es ! probe ?n ?h (0 + j)) ?h p l"
  proof (intro allI impI)
    fix j assume "j < d"
    then have uj: "used_at es (probe ?n ?h j)"
      using free by (auto simp: first_free_def used_at_def intro!: probe_less)
    have "key_bytes m (es ! probe ?n ?h j) \<noteq> bytes m p (unat l)" using new \<open>j < d\<close> .
    with uj ne q show "probe ?n ?h (0 + j) \<noteq> unat q \<and> e_state (es ! probe ?n ?h (0 + j)) \<noteq> STATE_EMPTY \<and>
      \<not> entry_matches m (es ! probe ?n ?h (0 + j)) ?h p l"
      using used_matches_iff [OF tab(2) uj tab(3), of p] by (auto simp: used_at_def)
  qed
  from find_exact_interval_eq [OF tab(1) home_probe [OF tab(1)] this] obtain q' where
    "unat q' = unat q" "find_exact_entry_interval m es cap (?h AND (cap - 1)) q ?h p l
      = find_exact_entry_interval m es cap q' q ?h p l" using q by auto
  then show ?thesis by (simp add: word_unat_eq_iff find_exact_entry_interval.simps)
qed

lemma interval_old_key:
  assumes tab: "cap_ok cap es" "table_ok H m es" "unat l < 2 ^ 32" and nodel: "count_state STATE_DELETE es = 0"
    and j: "used_at es j" "key_bytes m (es ! j) = bytes m p (unat l)"
    and q: "unat q < length es" "e_state (es ! unat q) \<noteq> STATE_USED"
  shows "\<exists>s. find_exact_entry_interval m es cap (H (bytes m p (unat l)) AND (cap - 1)) q (H (bytes m p (unat l))) p l
      = lret (Some s) \<and> unat s = j"
proof -
  let ?h = "H (bytes m p (unat l))" and ?n = "length es"
  have ok: "entry_ok H m (es ! j)" "reachable es j" using tab(2) j(1) by (auto simp: table_ok_def)
  have hj: "e_hash (es ! j) = ?h" using ok(1) j(2) by (simp add: entry_ok_def)
  obtain d where d: "d < ?n" "probe ?n ?h d = j" "\<forall>i<d. e_state (es ! probe ?n ?h i) \<noteq> STATE_EMPTY"
    using ok(2) unfolding reachable_def hj by blast
  have u: "used_at es (probe ?n ?h i)" if "i \<le> d" for i
  proof (cases "i = d")
    case False
    have "e_state (es ! probe ?n ?h i) \<noteq> STATE_DELETE"
      using nodel count_state_pos [of STATE_DELETE es] probe_less [OF cap_ok_pos [OF tab(1)]] by auto
    moreover have "state_ok (es ! probe ?n ?h i)"
      using tab(2) probe_less [OF cap_ok_pos [OF tab(1)]] by (simp add: table_ok_def)
    ultimately show ?thesis
      using d(3) False that probe_less [OF cap_ok_pos [OF tab(1)]] by (auto simp: used_at_def state_ok_def)
  qed (use j d in simp)
  have nq: "probe ?n ?h i \<noteq> unat q" if "i \<le> d" for i using u [OF that] q by (auto simp: used_at_def)
  have "\<forall>i<d. probe ?n ?h (0 + i) \<noteq> unat q \<and> e_state (es ! probe ?n ?h (0 + i)) \<noteq> STATE_EMPTY \<and>
      \<not> entry_matches m (es ! probe ?n ?h (0 + i)) ?h p l"
  proof (intro allI impI)
    fix i assume i: "i < d"
    have "probe ?n ?h i \<noteq> j" using probe_inj [of i ?n d ?h] i d by auto
    then have "key_bytes m (es ! probe ?n ?h i) \<noteq> bytes m p (unat l)"
      using tab(2) u [of i] i j unfolding table_ok_def by (metis less_imp_le_nat)
    then show "probe ?n ?h (0 + i) \<noteq> unat q \<and> e_state (es ! probe ?n ?h (0 + i)) \<noteq> STATE_EMPTY \<and>
      \<not> entry_matches m (es ! probe ?n ?h (0 + i)) ?h p l"
      using used_matches_iff [OF tab(2) u tab(3), of i p] nq [of i] d(3) i by simp
  qed
  from find_exact_interval_eq [OF tab(1) home_probe [OF tab(1)] this] obtain s where
    s: "unat s = j" "find_exact_entry_interval m es cap (?h AND (cap - 1)) q ?h p l
      = find_exact_entry_interval m es cap s q ?h p l" using d(2) by auto
  have "s \<noteq> q" using nq [of d] d(2) s(1) by auto
  then have "find_exact_entry_interval m es cap s q ?h p l = lret (Some s)"
    using s(1) j used_matches_iff [OF tab(2) j(1) tab(3), of p]
    by (subst find_exact_entry_interval.simps) (simp add: used_at_def)
  with s show ?thesis by auto
qed

text \<open>The memory after the optional copy of the key, and when that copy is harmless.\<close>

definition key_copy_mem :: "(usize_ptr \<Rightarrow> usize_ptr) \<Rightarrow> mem \<Rightarrow> usize_ptr \<Rightarrow> u64 \<Rightarrow> u8 \<Rightarrow> mem" where
  "key_copy_mem kmalloc m p l flags =
     (if flags AND FHASHMAP_INS_FLAG_KEY_COPY \<noteq> 0 then memcpy m (kmalloc (ucast l)) p (ucast l) else m)"

definition key_ptr :: "(usize_ptr \<Rightarrow> usize_ptr) \<Rightarrow> usize_ptr \<Rightarrow> u64 \<Rightarrow> u8 \<Rightarrow> usize_ptr" where
  "key_ptr kmalloc p l flags = (if flags AND FHASHMAP_INS_FLAG_KEY_COPY \<noteq> 0 then kmalloc (ucast l) else p)"

definition copy_safe :: "(usize_ptr \<Rightarrow> usize_ptr) \<Rightarrow> flat_hashmap \<Rightarrow> usize_ptr \<Rightarrow> u64 \<Rightarrow> u8 \<Rightarrow> bool" where
  "copy_safe kmalloc hm p l flags \<longleftrightarrow> flags AND FHASHMAP_INS_FLAG_KEY_COPY = 0 \<or>
     (\<forall>x. in_block (kmalloc (ucast l)) (unat l) x \<longrightarrow> \<not> in_block p (unat l) x \<and>
        (\<forall>e\<in>set (fh_entries hm). \<not> in_block (e_key_data e) (unat (e_key_length e)) x))"

lemma unat_ucast_len: "unat (l :: u64) < 2 ^ 32 \<Longrightarrow> unat (ucast l :: u32) = unat l"
  by (simp add: unsigned_ucast_eq take_bit_eq_mod)

lemma key_copy_keeps:
  assumes "copy_safe kmalloc hm p l flags" "unat l < 2 ^ 32" "e \<in> set (fh_entries hm)"
  shows "key_bytes (key_copy_mem kmalloc m p l flags) e = key_bytes m e"
proof (cases "flags AND FHASHMAP_INS_FLAG_KEY_COPY = 0")
  case True
  then show ?thesis by (simp add: key_copy_mem_def)
next
  case False
  have "memcpy m (kmalloc (ucast l)) p (ucast l) (e_key_data e + of_nat i) = m (e_key_data e + of_nat i)"
    if "i < unat (e_key_length e)" for i
  proof (rule memcpy_outside)
    have "in_block (e_key_data e) (unat (e_key_length e)) (e_key_data e + of_nat i)"
      using that by (auto simp: in_block_def)
    then show "\<not> in_block (kmalloc (ucast l)) (unat (ucast l :: u32)) (e_key_data e + of_nat i)"
      using assms False by (auto simp: copy_safe_def unat_ucast_len)
  qed
  then show ?thesis by (simp add: key_copy_mem_def key_bytes_def bytes_eq_iff)
qed

lemma key_copy_bytes:
  assumes "copy_safe kmalloc hm p l flags" "unat l < 2 ^ 32"
  shows "bytes (key_copy_mem kmalloc m p l flags) (key_ptr kmalloc p l flags) (unat l) = bytes m p (unat l)"
proof (cases "flags AND FHASHMAP_INS_FLAG_KEY_COPY = 0")
  case True
  then show ?thesis by (simp add: key_copy_mem_def key_ptr_def)
next
  case False
  have "kmalloc (ucast l) + of_nat k \<noteq> p + of_nat j" if "j < unat l" "k < unat l" for j k
    using assms(1) False that unfolding copy_safe_def in_block_def by blast
  moreover note len = unat_ucast_len [OF assms(2)]
  ultimately have "bytes (memcpy m (kmalloc (ucast l)) p (ucast l)) (kmalloc (ucast l)) (unat (ucast l :: u32))
      = bytes m p (unat (ucast l :: u32))"
    by (intro memcpy_bytes) (simp_all only: len not_False_eq_True)
  then show ?thesis using False by (simp only: key_copy_mem_def key_ptr_def len if_True not_False_eq_True)
qed

lemma table_mem_cong:
  assumes "\<And>e. e \<in> set es \<Longrightarrow> key_bytes m' e = key_bytes m e"
  shows "table_ok H m' es = table_ok H m es" "binds m' es k v = binds m es k v" "bound_key m' es k = bound_key m es k"
proof -
  have u: "key_bytes m' (es ! i) = key_bytes m (es ! i)" if "used_at es i" for i
    using assms that by (simp add: used_at_def)
  show "table_ok H m' es = table_ok H m es"
    unfolding table_ok_def entry_ok_def using u by auto
  show "binds m' es k v = binds m es k v" "bound_key m' es k = bound_key m es k"
    unfolding binds_def bound_key_def using u by auto
qed

text \<open>The entry that \<open>fill_entry\<close> leaves, and its effect on the counters.\<close>

definition new_entry ::
  "(usize_ptr \<Rightarrow> usize_ptr) \<Rightarrow> flat_hashmap_entry \<Rightarrow> u64 \<Rightarrow> usize_ptr \<Rightarrow> u64 \<Rightarrow> usize_ptr \<Rightarrow> u8 \<Rightarrow> flat_hashmap_entry" where
  "new_entry kmalloc e hash p l data flags =
     \<lparr>e_hash = hash, e_key_data = key_ptr kmalloc p l flags, e_key_length = l, e_data = data, e_state = STATE_USED,
      e_flags = (if flags AND FHASHMAP_INS_FLAG_KEY_COPY \<noteq> 0 then e_flags e OR FLAG_ALLOCATED
                 else e_flags e AND NOT FLAG_ALLOCATED)\<rparr>"

lemma fill_entry_eq:
  "fill_entry kmalloc (m, hm) i hash p l data flags =
    (key_copy_mem kmalloc m p l flags,
     hm\<lparr>fh_used_count := fh_used_count hm + 1,
        fh_empty_count := fh_empty_count hm - (if e_state (fh_entries hm ! i) = STATE_EMPTY then 1 else 0),
        fh_delete_count := fh_delete_count hm - (if e_state (fh_entries hm ! i) = STATE_DELETE then 1 else 0),
        fh_entries := (fh_entries hm)[i := new_entry kmalloc (fh_entries hm ! i) hash p l data flags]\<rparr>)"
  by (cases "fh_entries hm ! i")
    (auto simp: fill_entry_def key_copy_mem_def key_ptr_def new_entry_def Let_def split: if_splits)

lemma new_entry_ok:
  assumes "copy_safe kmalloc hm p l flags" "unat l < 2 ^ 32" "m' = key_copy_mem kmalloc m p l flags"
    and "k = bytes m p (unat l)"
  shows "key_bytes m' (new_entry kmalloc e (H k) p l v flags) = k"
    and "entry_ok H m' (new_entry kmalloc e (H k) p l v flags)"
  using key_copy_bytes [OF assms(1,2), of m] assms(2-4)
  by (simp_all add: entry_ok_def key_bytes_def new_entry_def)

lemma insert_new_correct:
  assumes inv: "fh_inv H m hm" and l: "unat l < 2 ^ 32" and cap: "unat (fh_capacity hm) \<le> 2 ^ 26"
    and km: "\<And>sz. kmalloc sz \<noteq> NULL" and safe: "copy_safe kmalloc hm p l flags"
    and k: "k = bytes m p (unat l)" "fh_abs m hm k = None" and m': "m' = key_copy_mem kmalloc m p l flags"
  shows "\<exists>hm'. fhashmap_insert kmalloc kfree (m, hm) p l v flags = lret (0, m', hm') \<and>
    fh_inv H m' hm' \<and> fh_abs m' hm' = (fh_abs m hm)(k \<mapsto> v) \<and> fh_destroy_cb hm' = fh_destroy_cb hm"
proof -
  let ?es = "fh_entries hm" and ?n = "length (fh_entries hm)"
  have wf: "fh_wf H m hm" "cap_ok (fh_capacity hm) ?es" "table_ok H m ?es"
    using inv by (auto simp: fh_inv_def fh_wf_def)
  have keep: "key_bytes m' e = key_bytes m e" if "e \<in> set ?es" for e
    using key_copy_keeps [OF safe l that] m' by simp
  note mem = table_mem_cong [of ?es m' m, OF keep]
  have nb: "\<not> bound_key m ?es k" using fh_abs_None [OF wf(3)] k(2) by simp
  have room: "count_state STATE_USED ?es < ?n"
    using fh_inv_empty(2) [OF inv] wf by (simp add: fh_load_def fh_wf_def cap_ok_def)
  obtain d where d: "first_free ?es (H k) d" using first_free_exists [OF wf(2) room] by blast
  have other: "key_bytes m (?es ! probe ?n (H k) j) \<noteq> k" if "j < d" for j
    using nb that d probe_less [OF cap_ok_pos [OF wf(2)]] by (auto simp: bound_key_def used_at_def first_free_def)
  obtain q where q: "find_free_slot ?es (fh_capacity hm) (H k) = lret q" "unat q = probe ?n (H k) d"
    using find_free_slot_eq [OF wf(2) d] by blast
  have ql: "unat q < ?n" "e_state (?es ! unat q) \<noteq> STATE_USED"
    using d q(2) probe_less [OF cap_ok_pos [OF wf(2)]] by (auto simp: first_free_def)
  define e where "e = new_entry kmalloc (?es ! unat q) (H k) p l v flags"
  have e: "e_state e = STATE_USED" "e_hash e = H k" "e_data e = v" by (simp_all add: e_def new_entry_def)
  have ek: "key_bytes m' e = k" "entry_ok H m' e" using new_entry_ok [OF safe l m' k(1)] by (simp_all add: e_def)
  have place: "table_ok H m' (?es[unat q := e])"
    "binds m' (?es[unat q := e]) k' w \<longleftrightarrow> (k' = k \<and> w = v) \<or> binds m ?es k' w" for k' w
    using place_entry [of H m' ?es e d] d e ek mem wf(3) nb q(2) by simp_all
  define hm1 where "hm1 = snd (fill_entry kmalloc (m, hm) (unat q) (H k) p l v flags)"
  have fill: "fill_entry kmalloc (m, hm) (unat q) (H k) p l v flags = (m', hm1)"
    by (simp add: hm1_def fill_entry_eq m')
  have fields: "fh_entries hm1 = ?es[unat q := e]" "fh_capacity hm1 = fh_capacity hm" "fh_hash hm1 = fh_hash hm"
    "fh_destroy_cb hm1 = fh_destroy_cb hm" "fh_used_count hm1 = fh_used_count hm + 1"
    "fh_empty_count hm1 = fh_empty_count hm - (if e_state (?es ! unat q) = STATE_EMPTY then 1 else 0)"
    "fh_delete_count hm1 = fh_delete_count hm - (if e_state (?es ! unat q) = STATE_DELETE then 1 else 0)"
    by (simp_all add: hm1_def fill_entry_eq e_def)
  have "unat (fh_used_count hm + 1) = unat (fh_used_count hm) + 1"
    using fh_wf_counts [OF wf(1)] cap by (simp add: fh_load_def unat_word_ariths)
  then have wf1: "fh_wf H m' hm1"
    unfolding fh_wf_def fields using wf place(1) ql(2) e(1)
      count_state_update [OF ql(1), of STATE_USED e] count_state_update [OF ql(1), of STATE_DELETE e]
      count_state_update [OF ql(1), of STATE_EMPTY e]
    by (auto simp: fh_wf_def cap_ok_def intro!: unat_pred split: if_splits)
  have "fh_abs m' hm1 = (fh_abs m hm)(k \<mapsto> v)"
  proof (rule fh_abs_eqI [of H])
    show "table_ok H m' (fh_entries hm1)" using wf1 by (simp add: fh_wf_def)
    show "binds m' (fh_entries hm1) k' w \<longleftrightarrow> ((fh_abs m hm)(k \<mapsto> v)) k' = Some w" for k' w
      unfolding fields place(2) using fh_abs_iff [OF wf(3)] nb by (auto simp: bound_key_iff)
  qed
  moreover have "0 < fh_load hm1" "unat (fh_capacity hm1) \<le> 2 ^ 26"
    using wf1 place(2) [of k v] cap count_state_pos [of STATE_USED "fh_entries hm1"]
    by (auto simp: fh_load_def fields fh_wf_def binds_def used_at_def)
  note handle_rehash_correct [OF wf1 this, of kmalloc]
  moreover have "fhashmap_insert kmalloc kfree (m, hm) p l v flags = lbind (handle_rehash kmalloc hm1) (\<lambda>(r, hm). lret (r, m', hm))"
    using q(1) fill interval_new_key [OF wf(2,3) l, of p d q] other d q(2) k(1) fh_hash_eq [OF inv l, of p]
    by (simp add: fhashmap_insert_def)
  ultimately show ?thesis using km fields(4) by auto
qed

text \<open>Replacing the entry of a bound key by one with the same key.\<close>

lemma replace_entry:
  assumes tab: "table_ok H m es" and i: "used_at es i" and m': "kept m m' es i"
    and e: "e_state e = STATE_USED" "entry_ok H m' e" "key_bytes m' e = key_bytes m (es ! i)"
  shows "table_ok H m' (es[i := e])"
    and "binds m' (es[i := e]) k v \<longleftrightarrow> (if k = key_bytes m' e then v = e_data e else binds m es k v)"
proof -
  have il: "i < length es" using i by (simp add: used_at_def)
  have st: "used_at (es[i := e]) j \<longleftrightarrow> used_at es j" for j
    using i il e(1) by (auto simp: used_at_update)
  have kb: "key_bytes m' (es[i := e] ! j) = key_bytes m (es ! j)" if "used_at es j" for j
    using e(3) il m' that by (cases "i = j") (auto simp: kept_def)
  have same_hash: "e_hash e = e_hash (es ! i)"
    using tab i e by (simp add: table_ok_def entry_ok_def)
  show "table_ok H m' (es[i := e])"
    unfolding table_ok_def
  proof (intro conjI allI impI)
    show "\<forall>e\<in>set (es[i := e]). state_ok e"
      using tab e by (intro state_ok_update) (auto simp: table_ok_def state_ok_def)
    fix j assume "used_at (es[i := e]) j"
    then have j: "used_at es j" by (simp add: st)
    then show "entry_ok H m' (es[i := e] ! j)"
      using tab e(2) il kb [OF j] by (cases "i = j") (auto simp: table_ok_def entry_ok_def)
    have "reachable es j" using tab j by (simp add: table_ok_def)
    then show "reachable (es[i := e]) j"
      using il e(1) same_hash by (auto simp: reachable_def nth_list_update)
  next
    fix j k assume "used_at (es[i := e]) j" "used_at (es[i := e]) k"
      "key_bytes m' (es[i := e] ! j) = key_bytes m' (es[i := e] ! k)"
    then show "j = k" using tab by (simp add: st kb table_ok_def)
  qed
  have uniq: "j = i" if "used_at es j" "key_bytes m (es ! j) = key_bytes m (es ! i)" for j
    using tab i that by (simp add: table_ok_def)
  show "binds m' (es[i := e]) k v \<longleftrightarrow> (if k = key_bytes m' e then v = e_data e else binds m es k v)"
  proof -
    have "binds m' (es[i := e]) k v \<longleftrightarrow> (\<exists>j. used_at es j \<and> key_bytes m (es ! j) = k \<and> e_data (es[i := e] ! j) = v)"
      unfolding binds_def st using kb by (intro ex_cong1) auto
    then show ?thesis unfolding e(3) using uniq i il by (auto simp: binds_def nth_list_update)
  qed
qed

text \<open>What overwriting the key \<open>k\<close> asks beside \<open>clean_safe\<close>: cleaning the old entry leaves the caller's key alone.\<close>

definition caller_key_safe :: "(usize_ptr \<Rightarrow> mem \<Rightarrow> mem) \<Rightarrow> mem \<Rightarrow> flat_hashmap \<Rightarrow> usize_ptr \<Rightarrow> u64 \<Rightarrow> bool" where
  "caller_key_safe kfree m hm p l \<longleftrightarrow>
     bytes (delete_mem kfree m hm (bytes m p (unat l))) p (unat l) = bytes m p (unat l)"

lemma insert_old_correct:
  assumes inv: "fh_inv H m hm" and l: "unat l < 2 ^ 32" and cap: "unat (fh_capacity hm) \<le> 2 ^ 26"
    and km: "\<And>sz. kmalloc sz \<noteq> NULL" and safe: "copy_safe kmalloc hm p l flags"
    and nodel: "fh_delete_count hm = 0" and clean: "clean_safe kfree m hm k" "caller_key_safe kfree m hm p l"
    and k: "k = bytes m p (unat l)" "fh_abs m hm k = Some v0"
    and m': "m' = key_copy_mem kmalloc (delete_mem kfree m hm k) p l flags"
  shows "flags AND FHASHMAP_INS_FLAG_OVERWRITE = 0 \<Longrightarrow> fhashmap_insert kmalloc kfree (m, hm) p l v flags = lret (- 1, m, hm)"
    and "flags AND FHASHMAP_INS_FLAG_OVERWRITE \<noteq> 0 \<Longrightarrow>
      \<exists>hm'. fhashmap_insert kmalloc kfree (m, hm) p l v flags = lret (0, m', hm') \<and>
        fh_inv H m' hm' \<and> fh_abs m' hm' = (fh_abs m hm)(k \<mapsto> v) \<and> fh_destroy_cb hm' = fh_destroy_cb hm"
proof -
  let ?es = "fh_entries hm"
  have wf: "fh_wf H m hm" "cap_ok (fh_capacity hm) ?es" "table_ok H m ?es" "count_state STATE_DELETE ?es = 0"
    using inv nodel by (auto simp: fh_inv_def fh_wf_def)
  obtain j where j: "used_at ?es j" "key_bytes m (?es ! j) = k" "e_data (?es ! j) = v0"
    using k(2) unfolding fh_abs_iff [OF wf(3)] by (auto simp: binds_def)
  define m1 where "m1 = clean_mem kfree hm (?es ! j) m"
  have m1: "m1 = delete_mem kfree m hm k" using delete_mem_bound [OF wf(3) j(1,2)] by (simp add: m1_def)
  have k1: "k = bytes m1 p (unat l)" using clean(2) k(1) m1 by (simp add: caller_key_safe_def)
  have m1': "m' = key_copy_mem kmalloc m1 p l flags" using m' m1 by simp
  have keep: "kept m m' ?es j"
    using clean_safe_kept [OF clean(1) wf(3) j(1,2)] key_copy_keeps [OF safe l, of _ m1] m1'
    by (auto simp: kept_def m1_def used_at_def)
  have room: "count_state STATE_USED ?es < length ?es"
    using fh_inv_empty(2) [OF inv] wf by (simp add: fh_load_def fh_wf_def cap_ok_def)
  obtain d where d: "first_free ?es (H k) d" using first_free_exists [OF wf(2) room] by blast
  obtain q where q: "find_free_slot ?es (fh_capacity hm) (H k) = lret q" "unat q = probe (length ?es) (H k) d"
    using find_free_slot_eq [OF wf(2) d] by blast
  have ql: "unat q < length ?es" "e_state (?es ! unat q) \<noteq> STATE_USED"
    using d q(2) probe_less [OF cap_ok_pos [OF wf(2)]] by (auto simp: first_free_def)
  obtain s where s: "find_exact_entry_interval m ?es (fh_capacity hm) (H k AND (fh_capacity hm - 1)) q (H k) p l = lret (Some s)"
      "unat s = j"
    using interval_old_key [OF wf(2,3) l wf(4) j(1) _ ql, of p] j(2) k(1) by auto
  note hash = fh_hash_eq [OF inv l, of p, folded k(1)]
  show "fhashmap_insert kmalloc kfree (m, hm) p l v flags = lret (- 1, m, hm)" if "flags AND FHASHMAP_INS_FLAG_OVERWRITE = 0"
    using q(1) s(1) that hash by (simp add: fhashmap_insert_def)
  assume ow: "flags AND FHASHMAP_INS_FLAG_OVERWRITE \<noteq> 0"
  define c where "c = cleaned (?es ! j) STATE_EMPTY"
  define hmc where "hmc = hm\<lparr>fh_entries := ?es[j := c], fh_used_count := fh_used_count hm - 1,
      fh_empty_count := fh_empty_count hm + 1\<rparr>"
  define e where "e = new_entry kmalloc c (H k) p l v flags"
  define hm1 where "hm1 = hm\<lparr>fh_entries := ?es[j := e]\<rparr>"
  have jl: "j < length ?es" using j(1) by (simp add: used_at_def)
  have fill: "fill_entry kmalloc (m1, hmc) j (H k) p l v flags = (m', hm1)"
    using jl by (simp add: fill_entry_eq m1' hmc_def hm1_def e_def c_def)
  have e: "e_state e = STATE_USED" "e_data e = v" by (simp_all add: e_def new_entry_def)
  have ek: "key_bytes m' e = k" "entry_ok H m' e" using new_entry_ok [OF safe l m1' k1] by (simp_all add: e_def)
  have repl: "table_ok H m' (?es[j := e])"
    "binds m' (?es[j := e]) k' w \<longleftrightarrow> (if k' = k then w = v else binds m ?es k' w)" for k' w
    using replace_entry [OF wf(3) j(1) keep e(1) ek(2)] ek(1) j(2) e(2) by simp_all
  have "count_state st (?es[j := e]) = count_state st ?es" for st
    using count_state_update [OF jl, of st e] e(1) j(1) by (simp add: used_at_def split: if_splits)
  then have wf1: "fh_wf H m' hm1" using wf repl(1) by (simp add: fh_wf_def hm1_def cap_ok_def)
  have abs1: "fh_abs m' hm1 = (fh_abs m hm)(k \<mapsto> v)"
  proof (rule fh_abs_eqI [of H])
    show "table_ok H m' (fh_entries hm1)" using wf1 by (simp add: fh_wf_def)
    show "binds m' (fh_entries hm1) k' w \<longleftrightarrow> ((fh_abs m hm)(k \<mapsto> v)) k' = Some w" for k' w
      using repl(2) fh_abs_iff [OF wf(3)] by (auto simp: hm1_def)
  qed
  have "0 < count_state STATE_USED ?es" using j(1) by (auto simp: count_state_pos used_at_def)
  then have "0 < fh_load hm1" "unat (fh_capacity hm1) \<le> 2 ^ 26"
    using wf(1) cap by (auto simp: fh_load_def hm1_def fh_wf_def)
  note rh = handle_rehash_correct [OF wf1 this, of kmalloc]
  have "fhashmap_insert kmalloc kfree (m, hm) p l v flags = lbind (handle_rehash kmalloc hm1) (\<lambda>(r, hm). lret (r, m', hm))"
    using q(1) s ow hash fill by (simp add: fhashmap_insert_def clean_entry_eq Let_def hmc_def c_def m1_def)
  then show "\<exists>hm'. fhashmap_insert kmalloc kfree (m, hm) p l v flags = lret (0, m', hm') \<and>
        fh_inv H m' hm' \<and> fh_abs m' hm' = (fh_abs m hm)(k \<mapsto> v) \<and> fh_destroy_cb hm' = fh_destroy_cb hm"
    using rh km abs1 by (auto simp: hm1_def)
qed

section \<open>Creation\<close>

text \<open>
  A map is created with a capacity of up to \<open>2 ^ 31\<close>, but its entry array has that many
  entries only up to \<open>2 ^ 27\<close>.
\<close>

lemma init_custom_correct:
  assumes "init_fhashmap_custom kmalloc c f cb = Inr hm" "hash_ok H f" "unat (fh_capacity hm) \<le> 2 ^ 27"
  shows "fh_inv H m hm" "fh_abs m hm = Map.empty" "fh_delete_count hm = 0" "fh_destroy_cb hm = cb"
proof -
  let ?a = "align_up_pow2 (ucast c)"
  define cap where "cap = (if (ucast ?a :: u64) < MIN_CAPACITY then MIN_CAPACITY else ucast ?a)"
  have hm: "(ucast ?a :: u64) \<noteq> 0" "hm = \<lparr>fh_entries = replicate (entry_slots cap) zero_entry, fh_empty_count = cap,
      fh_used_count = 0, fh_delete_count = 0, fh_capacity = cap, fh_hash = f, fh_destroy_cb = cb\<rparr>"
    using assms(1) by (auto simp: init_fhashmap_custom_def Let_def kbind_Inr_iff cap_def)
  have "unat ?a \<noteq> 0" using hm(1) by (metis unat_ucast_u64 unat_0 unat_eq_zero)
  then have p: "is_pow2 (unat ?a)"
    using align_up_pow2_wraps [of "ucast c"] align_up_pow2_spec(1) [of "ucast c"] is_pow2I [of 0]
    by (cases "unat (ucast c :: u32) = 0"; cases "2 ^ 31 < unat (ucast c :: u32)")
      (auto simp: align_up_pow2_def unat_eq_zero not_less)
  have cap: "is_pow2 (unat cap)" "unat cap \<le> 2 ^ 27" "entry_slots cap = unat cap"
    using p is_pow2I [of 2] assms(3) entry_slots_eq [of cap] by (auto simp: cap_def MIN_CAPACITY_def hm)
  have wf: "fh_wf H m hm"
    using zero_table(1) [OF is_pow2_pos [OF cap(1)]] assms(2) cap
    by (simp add: hm fh_wf_def cap_ok_def zero_entry_def state_defs)
  then show "fh_inv H m hm" by (simp add: fh_inv_def fh_load_def hm)
  show "fh_abs m hm = Map.empty"
    by (rule fh_abs_eqI [of H])
      (use wf zero_table(2) [OF is_pow2_pos [OF cap(1)]] in \<open>auto simp: fh_wf_def hm cap(3)\<close>)
  show "fh_delete_count hm = 0" "fh_destroy_cb hm = cb" by (simp_all add: hm)
qed

text \<open>The maps of the kernel are created with \<^verbatim>\<open>INIT_CAPACITY\<close>.\<close>

lemma init_capacity_64:
  assumes "init_fhashmap_custom kmalloc INIT_CAPACITY f cb = Inr hm"
  shows "fh_capacity hm = 64"
proof -
  have "align_up_pow2 64 = 64" by (simp add: align_up_pow2_def smear_def)
  then show ?thesis
    using assms by (auto simp: init_fhashmap_custom_def INIT_CAPACITY_def MIN_CAPACITY_def Let_def kbind_Inr_iff)
qed

section \<open>Releasing the entries\<close>

text \<open>The memory after the keys that the map allocated have been released, in the order of the entries.\<close>

definition release_keys :: "(usize_ptr \<Rightarrow> mem \<Rightarrow> mem) \<Rightarrow> flat_hashmap_entry list \<Rightarrow> mem \<Rightarrow> mem" where
  "release_keys kfree es m = fold kfree (map e_key_data (filter (\<lambda>e. e_flags e AND FLAG_ALLOCATED \<noteq> 0) es)) m"

lemma free_keys_loop_eq:
  assumes "length (fh_entries hm) = unat (fh_capacity hm)" "unat (fh_capacity hm) < 2 ^ 32"
  shows "unat i \<le> unat (fh_capacity hm) \<Longrightarrow>
    free_keys_loop kfree hm i m = lret (release_keys kfree (drop (unat i) (fh_entries hm)) m)"
proof (induction "unat (fh_capacity hm) - unat i" arbitrary: i m)
  case 0
  then show ?case using assms by (subst free_keys_loop.simps) (simp add: word_less_nat_alt release_keys_def)
next
  case (Suc n)
  then have lt: "unat i < unat (fh_capacity hm)" by simp
  then have i1: "unat (i + 1) = Suc (unat i)" using assms(2) by (simp add: unat_word_ariths)
  have "drop (unat i) (fh_entries hm) = fh_entries hm ! unat i # drop (Suc (unat i)) (fh_entries hm)"
    using lt assms(1) by (simp add: Cons_nth_drop_Suc)
  then show ?case using Suc.hyps(1) [of "i + 1"] Suc.hyps(2) lt i1 assms
    by (subst free_keys_loop.simps) (simp add: Let_def word_less_nat_alt release_keys_def)
qed

lemma fh_inv_length: "fh_inv H m hm \<Longrightarrow> length (fh_entries hm) = unat (fh_capacity hm) \<and> unat (fh_capacity hm) \<le> 2 ^ 27"
  by (simp add: fh_inv_def fh_wf_def cap_ok_def)

lemma free_correct:
  "fh_inv H m hm \<Longrightarrow> fhashmap_free kfree (m, hm) = lret (release_keys kfree (fh_entries hm) m)"
  using fh_inv_length [of H m hm] free_keys_loop_eq [of hm 0 kfree m] by (simp add: fhashmap_free_def)

lemma clear_correct:
  assumes "fh_inv H m hm" and m': "m' = release_keys kfree (fh_entries hm) m"
  shows "\<exists>hm'. fhashmap_clear kfree (m, hm) = lret (m', hm') \<and> fh_inv H m' hm' \<and> fh_abs m' hm' = Map.empty"
proof -
  note len = fh_inv_length [OF assms(1)]
  have n: "entry_slots (fh_capacity hm) = length (fh_entries hm)" using len entry_slots_eq by simp
  define hm' where "hm' = hm\<lparr>fh_entries := replicate (length (fh_entries hm)) zero_entry, fh_delete_count := 0,
      fh_used_count := 0, fh_empty_count := fh_capacity hm\<rparr>"
  have run: "fhashmap_clear kfree (m, hm) = lret (m', hm')"
    using free_keys_loop_eq [of hm 0 kfree m] len by (simp add: fhashmap_clear_def n hm'_def m')
  have "0 < length (fh_entries hm)" using assms by (simp add: fh_inv_def fh_wf_def cap_ok_def is_pow2_pos)
  note z = zero_table [OF this]
  have wf: "fh_wf H m' hm'"
    using assms(1) z(1) by (simp add: fh_inv_def fh_wf_def hm'_def cap_ok_def zero_entry_def state_defs)
  then have "fh_inv H m' hm'" by (simp add: fh_inv_def fh_load_def hm'_def)
  moreover have "fh_abs m' hm' = Map.empty"
    by (rule fh_abs_eqI [of H]) (use wf z(2) in \<open>auto simp: fh_wf_def hm'_def\<close>)
  ultimately show ?thesis using run by blast
qed

lemma murmur_hash_ok: "hash_ok (murmur64_ref 0xe17a1465) murmur2_hash64"
  by (simp add: hash_ok_def murmur2_hash64_def murmur64_seed_eq)

end
