(* ===== verification/Flat_Hashmap_Tombstone.thy ===== *)
theory Flat_Hashmap_Tombstone
  imports Flat_Hashmap_Correct
begin

text \<open>
  Insertion of a key whose entry lies behind a deleted one: \<^verbatim>\<open>fhashmap_insert\<close> searches for the key only up to the
  first slot that is not in use, so it stores a second entry in the place of the tombstone. Here is what this
  insertion and a following deletion do on any well-formed map.
\<close>

section \<open>A key behind a tombstone\<close>

text \<open>
  The entry of the key \<open>k\<close> lies behind a tombstone when the first slot of its probe sequence that is not in use is
  a deleted one, in front of the entry.
\<close>

definition behind_tombstone :: "mem \<Rightarrow> flat_hashmap_entry list \<Rightarrow> u64 \<Rightarrow> u8 list \<Rightarrow> bool" where
  "behind_tombstone m es h k \<longleftrightarrow> (\<exists>d j. d < j \<and> j < length es \<and> first_free es h d \<and>
     e_state (es ! probe (length es) h d) = STATE_DELETE \<and>
     used_at es (probe (length es) h j) \<and> key_bytes m (es ! probe (length es) h j) = k)"

text \<open>Replacing a tombstone by a tombstone changes nothing.\<close>

lemma swap_tombstone:
  assumes tab: "table_ok H m es" and i: "i < length es" "e_state (es ! i) = STATE_DELETE" and e: "e_state e = STATE_DELETE"
    and m': "\<And>x. x \<in> set es \<Longrightarrow> e_state x = STATE_USED \<Longrightarrow> key_bytes m' x = key_bytes m x"
  shows "table_ok H m' (es[i := e])" and "binds m' (es[i := e]) k v \<longleftrightarrow> binds m es k v"
    and "count_state st (es[i := e]) = count_state st es"
proof -
  have st: "used_at (es[i := e]) j \<longleftrightarrow> used_at es j" for j
    using i e by (auto simp: used_at_update) (simp add: used_at_def)
  have kb: "es[i := e] ! j = es ! j" "key_bytes m' (es ! j) = key_bytes m (es ! j)" if "used_at es j" for j
    using m' [of "es ! j"] i that by (cases "i = j"; auto simp: used_at_def)+
  show "table_ok H m' (es[i := e])"
    unfolding table_ok_def
  proof (intro conjI allI impI)
    show "\<forall>e\<in>set (es[i := e]). state_ok e"
      using tab e by (intro state_ok_update) (auto simp: table_ok_def state_ok_def)
    fix j assume "used_at (es[i := e]) j"
    then have j: "used_at es j" by (simp add: st)
    then show "entry_ok H m' (es[i := e] ! j)" using tab kb [OF j] by (simp add: table_ok_def entry_ok_def)
    have "i \<noteq> j" using j i by (auto simp: used_at_def)
    then show "reachable (es[i := e]) j"
      using tab j i e by (intro reachable_update) (auto simp: table_ok_def)
  next
    fix j k assume "used_at (es[i := e]) j" "used_at (es[i := e]) k"
      "key_bytes m' (es[i := e] ! j) = key_bytes m' (es[i := e] ! k)"
    then show "j = k" using tab kb by (simp add: st table_ok_def)
  qed
  show "binds m' (es[i := e]) k v \<longleftrightarrow> binds m es k v"
    unfolding binds_def st using kb by (intro ex_cong1) (metis (no_types))
  show "count_state st (es[i := e]) = count_state st es"
    using count_state_update [OF i(1), of st e] i(2) e by (simp split: if_splits)
qed

text \<open>The counters decide about resizing and rehashing alone.\<close>

lemma handle_rehash_none:
  assumes "need_resize hm = lret False" "need_rehash hm = lret False"
  shows "handle_rehash kmalloc hm = lret (0, hm)"
  using assms by (simp add: handle_rehash_def)

lemma need_counts [simp]:
  "need_resize (hm\<lparr>fh_entries := es\<rparr>) = need_resize hm" "need_rehash (hm\<lparr>fh_entries := es\<rparr>) = need_rehash hm"
  by (simp_all add: need_resize_def need_rehash_def)

lemma reuse_no_rehash:
  assumes wf: "fh_wf H m hm" and no: "need_rehash hm = lret False" and pos: "0 < unat (fh_delete_count hm)"
    and hm1: "fh_capacity hm1 = fh_capacity hm" "fh_used_count hm1 = fh_used_count hm + 1"
      "fh_delete_count hm1 = fh_delete_count hm - 1"
  shows "need_resize hm1 = need_resize hm" "need_rehash hm1 = lret False"
proof -
  have load: "fh_used_count hm1 + fh_delete_count hm1 = fh_used_count hm + fh_delete_count hm" by (simp add: hm1)
  then show "need_resize hm1 = need_resize hm" by (simp add: need_resize_def hm1(1))
  have nz: "fh_used_count hm + fh_delete_count hm \<noteq> 0" "\<not> fh_delete_count hm * 100 div (fh_used_count hm + fh_delete_count hm) > 25"
    using no by (auto simp: need_rehash_def split: if_splits)
  have d: "unat (fh_delete_count hm - 1) = unat (fh_delete_count hm) - 1"
    using pos by (metis less_irrefl unat_0 unat_minus_one)
  have b: "unat (fh_delete_count hm) \<le> 2 ^ 27"
    using wf fh_wf_counts [OF wf] by (simp add: fh_wf_def fh_load_def)
  have "(unat (fh_delete_count hm) - 1) * 100 div fh_load hm \<le> unat (fh_delete_count hm) * 100 div fh_load hm"
    by (rule div_le_mono) simp
  also have "\<dots> \<le> 25"
    using nz(2) fh_load_word [OF wf] by (simp add: word_less_nat_alt unat_div_distrib)
  finally have le: "(unat (fh_delete_count hm) - 1) * 100 div fh_load hm \<le> 25" .
  have "unat ((fh_delete_count hm - 1) * 100) = (unat (fh_delete_count hm) - 1) * 100"
    unfolding unat_word_ariths(2) d using b by simp
  then have "\<not> (fh_delete_count hm - 1) * 100 div (fh_used_count hm + fh_delete_count hm) > 25"
    unfolding word_less_nat_alt unat_div_distrib fh_load_word(1) [OF wf] using le by simp
  then show "need_rehash hm1 = lret False" unfolding need_rehash_def load unfolding hm1(3) using nz(1) by simp
qed

lemma find_exact_first:
  assumes cap: "cap_ok cap es" and q: "unat q = probe (length es) h d"
    and front: "\<And>x. x < d \<Longrightarrow> e_state (es ! probe (length es) h x) = STATE_USED \<and>
      \<not> entry_matches m (es ! probe (length es) h x) h p l"
    and at: "e_state (es ! unat q) = STATE_USED" "entry_matches m (es ! unat q) h p l"
  shows "find_exact_loop m es cap (h AND (cap - 1)) h p l = lret (Some q)"
proof -
  obtain q' where q': "unat q' = probe (length es) h (0 + d)"
      "find_exact_loop m es cap (h AND (cap - 1)) h p l = find_exact_loop m es cap q' h p l"
    using find_exact_loop_eq [OF cap home_probe [OF cap, of h], of d m h p l] front by auto
  have "q' = q" using q'(1) q by (simp add: word_unat_eq_iff)
  then show ?thesis unfolding q'(2) using at q probe_less [OF cap_ok_pos [OF cap]]
    by (subst find_exact_loop.simps) simp
qed

lemma delete_found:
  assumes "fh_hash hm m p l = Some h" "find_exact_entry m hm h p l = lret (Some q)"
    and "handle_rehash kmalloc (hm\<lparr>fh_entries := (fh_entries hm)[unat q := cleaned (fh_entries hm ! unat q) STATE_DELETE],
      fh_delete_count := fh_delete_count hm + 1, fh_used_count := fh_used_count hm - 1\<rparr>) = lret (0, hm2)"
  shows "fhashmap_delete kmalloc kfree (m, hm) p l =
    lret (\<lparr>res_value = e_data (fh_entries hm ! unat q), res_succeed = True\<rparr>, clean_mem kfree hm (fh_entries hm ! unat q) m, hm2)"
  using assms by (simp add: fhashmap_delete_def clean_entry_eq)

lemma insert_behind_tombstone:
  assumes inv: "fh_inv H m hm" and l: "unat l < 2 ^ 32" and k: "k = bytes m p (unat l)" "fh_abs m hm k = Some old"
    and no: "need_rehash hm = lret False" and tomb: "behind_tombstone m (fh_entries hm) (H k) k"
    and flags: "flags AND FHASHMAP_INS_FLAG_KEY_COPY = 0"
  obtains i j e hm1 where "fhashmap_insert kmalloc kfree (m, hm) p l data flags = lret (0, m, hm1)"
    "hm1 = hm\<lparr>fh_entries := (fh_entries hm)[i := e], fh_used_count := fh_used_count hm + 1, fh_delete_count := fh_delete_count hm - 1\<rparr>"
    "i \<noteq> j" "i < length (fh_entries hm)" "e_state (fh_entries hm ! i) = STATE_DELETE" "used_at (fh_entries hm) j" "key_bytes m (fh_entries hm ! j) = k"
    "e = \<lparr>e_hash = H k, e_key_data = p, e_key_length = l, e_data = data, e_state = STATE_USED, e_flags = e_flags (fh_entries hm ! i) AND NOT FLAG_ALLOCATED\<rparr>"
    "\<And>kfree. fhashmap_delete kmalloc kfree (m, hm1) p l =
       lret (\<lparr>res_value = data, res_succeed = True\<rparr>, clean_mem kfree hm e m, hm\<lparr>fh_entries := (fh_entries hm)[i := cleaned e STATE_DELETE]\<rparr>)"
proof -
  let ?es = "fh_entries hm" and ?n = "length (fh_entries hm)"
  have wf: "fh_wf H m hm" "cap_ok (fh_capacity hm) ?es" "table_ok H m ?es"
    using inv by (auto simp: fh_inv_def fh_wf_def)
  have resize: "need_resize hm = lret False" using need_resize_eq [OF wf(1)] inv by (simp add: fh_inv_def)
  obtain d dj where d: "d < dj" "dj < ?n" "first_free ?es (H k) d" "e_state (?es ! probe ?n (H k) d) = STATE_DELETE"
      "used_at ?es (probe ?n (H k) dj)" "key_bytes m (?es ! probe ?n (H k) dj) = k"
    using tomb by (auto simp: behind_tombstone_def)
  have other: "key_bytes m (?es ! probe ?n (H k) x) \<noteq> k" if "x < d" for x
  proof
    assume "key_bytes m (?es ! probe ?n (H k) x) = k"
    moreover have "used_at ?es (probe ?n (H k) x)"
      using d(2,3) that by (auto simp: first_free_def used_at_def intro!: probe_less)
    ultimately have "probe ?n (H k) x = probe ?n (H k) dj" using d(5,6) wf(3) by (simp add: table_ok_def)
    then show False using probe_inj [of x ?n dj "H k"] d(1,2) that by simp
  qed
  obtain q where q: "find_free_slot ?es (fh_capacity hm) (H k) = lret q" "unat q = probe ?n (H k) d"
    using find_free_slot_eq [OF wf(2) d(3)] by blast
  have ql: "unat q < ?n" using q(2) probe_less [OF cap_ok_pos [OF wf(2)]] by simp
  define e where "e = new_entry kmalloc (?es ! unat q) (H k) p l data flags"
  have e: "e = \<lparr>e_hash = H k, e_key_data = p, e_key_length = l, e_data = data, e_state = STATE_USED, e_flags = e_flags (?es ! unat q) AND NOT FLAG_ALLOCATED\<rparr>"
    by (simp add: e_def new_entry_def key_ptr_def flags)
  define hm1 where "hm1 = hm\<lparr>fh_entries := ?es[unat q := e], fh_used_count := fh_used_count hm + 1, fh_delete_count := fh_delete_count hm - 1\<rparr>"
  have pos: "0 < unat (fh_delete_count hm)"
    using wf(1) count_state_pos [of STATE_DELETE ?es] d(4) ql q(2) by (auto simp: fh_wf_def)
  note rr = reuse_no_rehash [OF wf(1) no pos, of hm1]
  have fill: "fill_entry kmalloc (m, hm) (unat q) (H k) p l data flags = (m, hm1)"
    using d(4) q(2) by (simp add: fill_entry_eq hm1_def e_def key_copy_mem_def flags)
  have hash: "fh_hash hm m p l = Some (H k)" using fh_hash_eq [OF inv l, of p] k(1) by simp
  have ins: "fhashmap_insert kmalloc kfree (m, hm) p l data flags = lret (0, m, hm1)"
    using q(1) fill interval_new_key [OF wf(2,3) l, of p d q] other d(3) q(2) k(1) hash
      handle_rehash_none [of hm1 kmalloc] rr resize
    by (simp add: fhashmap_insert_def hm1_def)
  have ek: "entry_ok H m e" "key_bytes m e = k" using l k(1) by (simp_all add: e entry_ok_def key_bytes_def)
  let ?es1 = "?es[unat q := e]" and ?home = "H k AND (fh_capacity hm - 1)"
  have cap1: "cap_ok (fh_capacity hm) ?es1" using wf(2) by (simp add: cap_ok_def)
  have "find_exact_loop m ?es1 (fh_capacity hm) ?home (H k) p l = lret (Some q)"
  proof (rule find_exact_first [OF cap1])
    show "unat q = probe (length ?es1) (H k) d" using q(2) by simp
    show "entry_matches m (?es1 ! unat q) (H k) p l" "e_state (?es1 ! unat q) = STATE_USED"
      using entry_matches_iff [OF ek(1) l, of p] ek(2) k(1) ql by (simp_all add: e)
    fix x assume x: "x < d"
    have u: "used_at ?es (probe ?n (H k) x)"
      using d(2,3) x by (auto simp: first_free_def used_at_def intro!: probe_less)
    have "unat q \<noteq> probe ?n (H k) x" using u q(2) d(4) by (auto simp: used_at_def)
    then show "e_state (?es1 ! probe (length ?es1) (H k) x) = STATE_USED \<and>
        \<not> entry_matches m (?es1 ! probe (length ?es1) (H k) x) (H k) p l"
      using u other [OF x] used_matches_iff [OF wf(3) u l, of p] k(1) by (simp add: used_at_def)
  qed
  then have found: "find_exact_entry m hm1 (H k) p l = lret (Some q)"
    using fh_inv_empty(1) [OF inv] by (simp add: find_exact_entry_def hm1_def)
  have "handle_rehash kmalloc (hm\<lparr>fh_entries := es\<rparr>) = lret (0, hm\<lparr>fh_entries := es\<rparr>)" for es
    using resize no by (intro handle_rehash_none) simp_all
  then have "fhashmap_delete kmalloc f (m, hm1) p l =
       lret (\<lparr>res_value = data, res_succeed = True\<rparr>, clean_mem f hm e m, hm\<lparr>fh_entries := ?es[unat q := cleaned e STATE_DELETE]\<rparr>)" for f
    using delete_found [of hm1 m p l "H k" q kmalloc "hm\<lparr>fh_entries := ?es[unat q := cleaned e STATE_DELETE]\<rparr>" f]
      found hash ql by (simp add: hm1_def clean_mem_def) (simp add: e)
  moreover have "unat q \<noteq> probe ?n (H k) dj" using q(2) probe_inj [of d ?n dj "H k"] d(1,2) by auto
  ultimately show ?thesis using that [OF ins hm1_def _ ql _ d(5,6) e] d(4) q(2) by simp
qed

text \<open>Together: the deletion after the second insertion gives the map back as it was before both.\<close>

lemma tombstone_run:
  assumes inv: "fh_inv H m hm" and l: "unat l < 2 ^ 32" and k: "k = bytes m p (unat l)" "fh_abs m hm k = Some old"
    and no: "need_rehash hm = lret False" and tomb: "behind_tombstone m (fh_entries hm) (H k) k"
    and flags: "flags AND FHASHMAP_INS_FLAG_KEY_COPY = 0"
    and m': "m' = (case fh_destroy_cb hm of None \<Rightarrow> m | Some cb \<Rightarrow> cb data p (ucast l) m)"
    and keys: "bytes m' p (unat l) = k" "\<And>e. e \<in> set (fh_entries hm) \<Longrightarrow> e_state e = STATE_USED \<Longrightarrow> key_bytes m' e = key_bytes m e"
  shows "\<exists>hm1 hm2 i j. fhashmap_insert kmalloc kfree (m, hm) p l data flags = lret (0, m, hm1) \<and>
    i \<noteq> j \<and> used_at (fh_entries hm1) i \<and> used_at (fh_entries hm1) j \<and>
    key_bytes m (fh_entries hm1 ! i) = k \<and> key_bytes m (fh_entries hm1 ! j) = k \<and>
    fhashmap_delete kmalloc kfree (m, hm1) p l = lret (\<lparr>res_value = data, res_succeed = True\<rparr>, m', hm2) \<and>
    fh_inv H m' hm2 \<and> fh_abs m' hm2 = fh_abs m hm \<and>
    fhashmap_get_data (m', hm2) p l = lret \<lparr>res_value = old, res_succeed = True\<rparr>"
proof (rule insert_behind_tombstone [OF assms(1-7), of kmalloc kfree data], goal_cases)
  case (1 i j e hm1)
  let ?es = "fh_entries hm" and ?c = "cleaned e STATE_DELETE"
  define hm2 where "hm2 = hm\<lparr>fh_entries := ?es[i := ?c]\<rparr>"
  have wf: "fh_wf H m hm" "table_ok H m ?es" using inv by (auto simp: fh_inv_def fh_wf_def)
  note sw = swap_tombstone [OF wf(2) 1(4,5), of ?c m', OF cleaned_state(1) keys(2)]
  have wf2: "fh_wf H m' hm2" using wf(1) sw(1,3) by (simp add: fh_wf_def hm2_def cap_ok_def)
  then have inv2: "fh_inv H m' hm2" using inv by (simp add: fh_inv_def hm2_def fh_load_def)
  have abs2: "fh_abs m' hm2 = fh_abs m hm"
    by (rule fh_abs_eqI [of H]) (use wf2 sw(2) fh_abs_iff [OF wf(2)] in \<open>simp_all add: fh_wf_def hm2_def\<close>)
  have nf: "(x AND NOT FLAG_ALLOCATED) AND FLAG_ALLOCATED = 0" for x
    by (simp add: FLAG_ALLOCATED_def and.assoc)
  have del: "fhashmap_delete kmalloc kfree (m, hm1) p l = lret (\<lparr>res_value = data, res_succeed = True\<rparr>, m', hm2)"
    unfolding 1(9) by (simp add: hm2_def clean_mem_def 1(8) m' nf split: option.split)
  have get: "fhashmap_get_data (m', hm2) p l = lret \<lparr>res_value = old, res_succeed = True\<rparr>"
    using get_data_correct [OF inv2 l, of p] keys(1) abs2 k(2) by (simp add: lookup_result_def)
  have two: "used_at (fh_entries hm1) i" "used_at (fh_entries hm1) j" "key_bytes m (fh_entries hm1 ! i) = k"
      "key_bytes m (fh_entries hm1 ! j) = k"
    using 1(3-7) k(1) by (auto simp: 1(2,8) used_at_update key_bytes_def)
  show ?case using 1(1,3) two del inv2 abs2 get by blast
qed

end
