(* ===== verification/Flat_Hashmap_Props.thy ===== *)
theory Flat_Hashmap_Props
  imports Flat_Hashmap_Tombstone
begin

text \<open>
  What the clients of the hash map (the directory cache, the mount table, the inode cache)
  rely on, as the interface \<open>byte_map\<close>, its interpretation on the model, and the
  properties of the hash map, including the two places where the code does not keep the
  contract: inserting an existing key behind a tombstone, and \<^verbatim>\<open>fhashmap_foreach\<close>.
\<close>

section \<open>The interface\<close>

locale byte_map =
  fixes ok :: "'s \<Rightarrow> bool" and room :: "'s \<Rightarrow> bool" and safe :: "'s \<Rightarrow> u8 list \<Rightarrow> bool" and key :: "'s \<Rightarrow> 'p \<Rightarrow> u8 list option"
    and view :: "'s \<Rightarrow> u8 list \<Rightarrow> usize_ptr option"
    and get :: "'s \<Rightarrow> 'p \<Rightarrow> flat_hashmap_result kloop"
    and ins :: "'s \<Rightarrow> 'p \<Rightarrow> usize_ptr \<Rightarrow> (int \<times> 's) kloop"
    and del :: "'s \<Rightarrow> 'p \<Rightarrow> (flat_hashmap_result \<times> 's) kloop"
  assumes get_law: "ok s \<Longrightarrow> key s p = Some k \<Longrightarrow> get s p = lret (lookup_result (view s k))"
    and ins_law: "ok s \<Longrightarrow> room s \<Longrightarrow> key s p = Some k \<Longrightarrow> view s k = None \<Longrightarrow>
      \<exists>s'. ins s p v = lret (0, s') \<and> ok s' \<and> view s' = (view s)(k \<mapsto> v) \<and> key s' = key s"
    and del_law: "ok s \<Longrightarrow> room s \<Longrightarrow> key s p = Some k \<Longrightarrow> safe s k \<Longrightarrow>
      \<exists>s'. del s p = lret (lookup_result (view s k), s') \<and> ok s' \<and> view s' = (view s)(k := None)"
begin

lemma ins_then_get:
  assumes "ok s" "room s" "key s p = Some k" "view s k = None" "key s p' = Some k'"
  shows "lbind (ins s p v) (\<lambda>(r, s'). get s' p') = lret (lookup_result (if k' = k then Some v else view s k'))"
proof -
  obtain s' where s': "ins s p v = lret (0, s')" "ok s'" "view s' = (view s)(k \<mapsto> v)" "key s' = key s"
    using ins_law [OF assms(1-4), of v] by blast
  then show ?thesis using get_law [OF s'(2), of p' k'] assms(5) by simp
qed

text \<open>A deletion may change memory, so the key of the later lookup is read in the state it leaves.\<close>

lemma del_then_get:
  assumes "ok s" "room s" "key s p = Some k" "safe s k" "del s p = lret (r, s')" "key s' p' = Some k'"
  shows "get s' p' = lret (lookup_result (if k' = k then None else view s k'))"
proof -
  have "ok s'" "view s' = (view s)(k := None)" using del_law [OF assms(1-4)] assms(5) by auto
  then show ?thesis using get_law [of s' p' k'] assms(6) by simp
qed

end

section \<open>The hash map provides it\<close>

definition fhm_ok :: "(u8 list \<Rightarrow> u64) \<Rightarrow> mem \<times> flat_hashmap \<Rightarrow> bool" where
  "fhm_ok H = (\<lambda>(m, hm). fh_inv H m hm)"

definition fhm_room :: "(usize_ptr \<Rightarrow> usize_ptr) \<Rightarrow> mem \<times> flat_hashmap \<Rightarrow> bool" where
  "fhm_room kmalloc = (\<lambda>(m, hm). unat (fh_capacity hm) \<le> 2 ^ 26 \<and> (\<forall>sz. kmalloc sz \<noteq> NULL))"

definition fhm_safe :: "(usize_ptr \<Rightarrow> mem \<Rightarrow> mem) \<Rightarrow> mem \<times> flat_hashmap \<Rightarrow> u8 list \<Rightarrow> bool" where
  "fhm_safe kfree = (\<lambda>(m, hm) k. clean_safe kfree m hm k)"

definition fhm_key :: "mem \<times> flat_hashmap \<Rightarrow> usize_ptr \<times> u64 \<Rightarrow> u8 list option" where
  "fhm_key = (\<lambda>(m, hm) (p, l). if unat l < 2 ^ 32 then Some (bytes m p (unat l)) else None)"

definition fhm_view :: "mem \<times> flat_hashmap \<Rightarrow> u8 list \<Rightarrow> usize_ptr option" where
  "fhm_view = (\<lambda>(m, hm). fh_abs m hm)"

lemma key_copy_mem_0 [simp]: "key_copy_mem kmalloc m p l 0 = m"
  by (simp add: key_copy_mem_def)

lemma copy_safe_0 [simp]: "copy_safe kmalloc hm p l 0"
  by (simp add: copy_safe_def)

interpretation fhm: byte_map "fhm_ok H" "fhm_room kmalloc" "fhm_safe kfree" fhm_key fhm_view
  "\<lambda>s (p, l). fhashmap_get_data s p l" "\<lambda>s (p, l) v. fhashmap_insert kmalloc kfree s p l v 0"
  "\<lambda>s (p, l). fhashmap_delete kmalloc kfree s p l"
proof (unfold_locales, goal_cases)
  case (1 s pl k)
  then show ?case
    using get_data_correct [of H "fst s" "snd s" "snd pl" "fst pl"]
    by (auto simp: fhm_ok_def fhm_key_def fhm_view_def split: prod.splits if_splits)
next
  case (2 s pl k v)
  obtain m hm p l where s: "s = (m, hm)" "pl = (p, l)" by (cases s; cases pl)
  from 2 have h: "fh_inv H m hm" "unat l < 2 ^ 32" "unat (fh_capacity hm) \<le> 2 ^ 26"
    "\<And>sz. kmalloc sz \<noteq> NULL" "k = bytes m p (unat l)" "fh_abs m hm k = None"
    by (auto simp: s fhm_ok_def fhm_room_def fhm_key_def fhm_view_def split: if_splits)
  show ?case
    using insert_new_correct [where kmalloc = kmalloc, OF h(1-4) copy_safe_0 h(5,6) refl, of kfree v]
    by (force simp: s fhm_view_def fhm_ok_def fhm_key_def)
next
  case (3 s pl k)
  obtain m hm p l where s: "s = (m, hm)" "pl = (p, l)" by (cases s; cases pl)
  from 3 have h: "fh_inv H m hm" "unat l < 2 ^ 32" "unat (fh_capacity hm) \<le> 2 ^ 26"
    "\<And>sz. kmalloc sz \<noteq> NULL" "clean_safe kfree m hm k" "k = bytes m p (unat l)"
    by (auto simp: s fhm_ok_def fhm_room_def fhm_safe_def fhm_key_def fhm_view_def split: if_splits)
  show ?case
    using delete_correct [where kmalloc = kmalloc, OF h refl]
    by (force simp: s fhm_view_def fhm_ok_def)
qed

section \<open>Concrete maps\<close>

text \<open>A hash function that sends every key to slot 0, and two small tables with it.\<close>

definition zero_hash :: fmap_hash_func where
  "zero_hash m p l = Some 0"

definition map_with :: "flat_hashmap_entry list \<Rightarrow> u64 \<Rightarrow> u64 \<Rightarrow> flat_hashmap" where
  "map_with es used deleted =
     \<lparr>fh_entries = es, fh_empty_count = of_nat (length es) - used - deleted, fh_used_count = used,
      fh_delete_count = deleted, fh_capacity = of_nat (length es), fh_hash = zero_hash, fh_destroy_cb = None\<rparr>"

definition byte_entry :: "usize_ptr \<Rightarrow> usize_ptr \<Rightarrow> flat_hashmap_entry" where
  "byte_entry p v = \<lparr>e_hash = 0, e_key_data = p, e_key_length = 1, e_data = v, e_state = STATE_USED, e_flags = 0\<rparr>"

definition empty4 :: flat_hashmap where
  "empty4 = map_with [zero_entry, zero_entry, zero_entry, zero_entry] 0 0"

definition single4 :: flat_hashmap where
  "single4 = map_with [byte_entry 64 7, zero_entry, zero_entry, zero_entry] 1 0"

definition ident_mem :: mem where
  "ident_mem a = ucast a"

lemma zero_hash_ok: "hash_ok (\<lambda>_. 0) zero_hash"
  by (simp add: hash_ok_def zero_hash_def)

text \<open>
  Two tables with a destroy callback: one with a key that the map has allocated, one with a
  tombstone in front of three entries. The callback writes to memory, and so does the
  release of a block.
\<close>

definition note_cb :: fmap_destroy_cb_func where
  "note_cb data key_data key_length m = m(0x200 := 1)"

definition poison_free :: "usize_ptr \<Rightarrow> mem \<Rightarrow> mem" where
  "poison_free p m = m(p := 0)"

definition owned4 :: flat_hashmap where
  "owned4 = (map_with [(byte_entry 64 7)\<lparr>e_flags := FLAG_ALLOCATED\<rparr>, byte_entry 65 8, zero_entry, zero_entry] 2 0)
     \<lparr>fh_destroy_cb := Some note_cb\<rparr>"

definition tomb8 :: flat_hashmap where
  "tomb8 = (map_with [zero_entry\<lparr>e_state := STATE_DELETE\<rparr>, byte_entry 2 22, byte_entry 3 33, byte_entry 4 44,
     zero_entry, zero_entry, zero_entry, zero_entry] 3 1)\<lparr>fh_destroy_cb := Some note_cb\<rparr>"

lemma replicate_2: "replicate 2 x = [x, x]" and replicate_4: "replicate 4 x = [x, x, x, x]"
  by (simp_all add: numeral_eq_Suc)

lemma distinct_filter_nth:
  "distinct (map f (filter P xs)) \<Longrightarrow> i < length xs \<Longrightarrow> j < length xs \<Longrightarrow> P (xs ! i) \<Longrightarrow> P (xs ! j) \<Longrightarrow>
   f (xs ! i) = f (xs ! j) \<Longrightarrow> i = j"
proof (induction xs arbitrary: i j)
  case (Cons x xs)
  have "f (xs ! n) \<noteq> f x" if "n < length xs" "P (xs ! n)" "P x" for n
    using Cons.prems(1) that by (auto simp: image_iff)
  then show ?case using Cons by (cases i; cases j) (force split: if_splits)+
qed simp

text \<open>A table whose occupied slots come first, all with the hash 0.\<close>

lemma packed_table:
  assumes es: "es = xs @ replicate n zero_entry"
    and st: "\<And>e. e \<in> set xs \<Longrightarrow> e_state e \<in> {STATE_USED, STATE_DELETE}"
    and ok: "\<And>e. e \<in> set xs \<Longrightarrow> e_hash e = 0 \<and> unat (e_key_length e) < 2 ^ 32"
    and keys: "distinct (map (key_bytes m) (filter (\<lambda>e. e_state e = STATE_USED) xs))"
  shows "table_ok (\<lambda>_. 0) m es"
proof -
  have used: "used_at es i \<longleftrightarrow> i < length xs \<and> e_state (xs ! i) = STATE_USED" for i
    by (auto simp: used_at_def es nth_append zero_entry_def state_defs)
  have "reachable es i" if "used_at es i" for i
    using that ok [of "es ! i"] st unfolding used
    by (auto simp: reachable_def probe_def es nth_append intro!: exI [of _ i])
      (metis insertE nth_mem order.strict_trans singletonD states_distinct(2,4))
  moreover have "\<forall>e\<in>set es. state_ok e" using st by (auto simp: es state_ok_def zero_entry_def state_defs)
  moreover have "entry_ok (\<lambda>_. 0) m (es ! i)" if "used_at es i" for i
    using that ok [of "xs ! i"] unfolding used by (simp add: entry_ok_def es nth_append)
  moreover have "i = j" if "used_at es i" "used_at es j" "key_bytes m (es ! i) = key_bytes m (es ! j)" for i j
    using that distinct_filter_nth [OF keys, of i j] unfolding used by (simp add: es nth_append)
  ultimately show ?thesis by (simp add: table_ok_def)
qed

lemma empty4_ok: "fh_inv (\<lambda>_. 0) m empty4" "fh_abs m empty4 = Map.empty" "fh_destroy_cb empty4 = None"
  "unat (fh_capacity empty4) \<le> 2 ^ 26" "fh_delete_count empty4 = 0"
proof -
  have es: "fh_entries empty4 = replicate 4 zero_entry"
    by (simp add: empty4_def map_with_def numeral_eq_Suc)
  have wf: "fh_wf (\<lambda>_. 0) m empty4"
    using zero_table(1) [of 4] zero_hash_ok is_pow2I [of 2]
    by (simp add: fh_wf_def es cap_ok_def zero_entry_def state_defs) (simp add: empty4_def map_with_def)
  then show "fh_inv (\<lambda>_. 0) m empty4" by (simp add: fh_inv_def fh_load_def empty4_def map_with_def)
  show "fh_abs m empty4 = Map.empty"
    by (rule fh_abs_eqI [of "\<lambda>_. 0"]) (use wf zero_table(2) [of 4] in \<open>auto simp: fh_wf_def es\<close>)
qed (simp_all add: empty4_def map_with_def)

lemma single4_ok: "fh_inv (\<lambda>_. 0) m single4" "fh_destroy_cb single4 = None"
  "unat (fh_capacity single4) \<le> 2 ^ 26" "fh_delete_count single4 = 0"
  "fh_abs m single4 = [[m 64] \<mapsto> 7]"
proof -
  have es: "fh_entries single4 = (fh_entries empty4)[probe 4 0 0 := byte_entry 64 7]"
    by (simp add: empty4_def single4_def map_with_def probe_def)
  have e: "table_ok (\<lambda>_. 0) m (fh_entries empty4)" "\<not> bound_key m (fh_entries empty4) [m 64]"
    using empty4_ok(1,2) [of m] fh_abs_None [of "\<lambda>_. 0" m empty4] by (auto simp: fh_inv_def fh_wf_def)
  have k: "key_bytes m (byte_entry 64 7) = [m 64]" by (simp add: byte_entry_def key_bytes_def bytes_Suc)
  have free: "first_free (fh_entries empty4) (e_hash (byte_entry 64 7)) 0"
    by (simp add: first_free_def empty4_def map_with_def probe_def byte_entry_def zero_entry_def state_defs)
  have b: "e_state (byte_entry 64 7) = STATE_USED" "entry_ok (\<lambda>_. 0) m (byte_entry 64 7)"
    "e_data (byte_entry 64 7) = 7" "e_hash (byte_entry 64 7) = 0"
    by (simp_all add: byte_entry_def entry_ok_def)
  have len: "length (fh_entries empty4) = 4" by (simp add: empty4_def map_with_def)
  note p = place_entry [OF e(1) free b(1,2), unfolded k, OF e(2), unfolded b len, folded es]
  have wf: "fh_wf (\<lambda>_. 0) m single4"
    using p(1) zero_hash_ok is_pow2I [of 2]
    by (simp add: fh_wf_def cap_ok_def) (simp add: single4_def map_with_def byte_entry_def zero_entry_def state_defs)
  then show "fh_inv (\<lambda>_. 0) m single4" by (simp add: fh_inv_def fh_load_def single4_def map_with_def)
  show "fh_abs m single4 = [[m 64] \<mapsto> 7]"
    by (rule fh_abs_eqI [of "\<lambda>_. 0"])
      (use p empty4_ok(2) [of m] fh_abs_iff [OF e(1)] in \<open>auto split: if_splits\<close>)
qed (simp_all add: single4_def map_with_def)

lemma owned4_ok: "fh_inv (\<lambda>_. 0) ident_mem owned4" "fh_abs ident_mem owned4 = [[64] \<mapsto> 7, [65] \<mapsto> 8]"
proof -
  let ?es = "fh_entries owned4"
  have "table_ok (\<lambda>_. 0) ident_mem ?es"
    by (rule packed_table [of _ "[(byte_entry 64 7)\<lparr>e_flags := FLAG_ALLOCATED\<rparr>, byte_entry 65 8]" 2])
      (auto simp: owned4_def map_with_def replicate_2 replicate_4 byte_entry_def zero_entry_def state_defs key_bytes_def bytes_Suc ident_mem_def)
  then have "fh_wf (\<lambda>_. 0) ident_mem owned4"
    using zero_hash_ok is_pow2I [of 2]
    by (simp add: fh_wf_def cap_ok_def) (simp add: owned4_def map_with_def byte_entry_def zero_entry_def state_defs)
  then show "fh_inv (\<lambda>_. 0) ident_mem owned4" by (simp add: fh_inv_def fh_load_def owned4_def map_with_def)
  show "fh_abs ident_mem owned4 = [[64] \<mapsto> 7, [65] \<mapsto> 8]"
    by (auto simp: fh_abs_def owned4_def map_with_def byte_entry_def zero_entry_def state_defs key_bytes_def bytes_Suc ident_mem_def)
qed

lemma tomb8_ok: "fh_inv (\<lambda>_. 0) ident_mem tomb8" "fh_abs ident_mem tomb8 = [[2] \<mapsto> 22, [3] \<mapsto> 33, [4] \<mapsto> 44]"
proof -
  let ?es = "fh_entries tomb8"
  have "table_ok (\<lambda>_. 0) ident_mem ?es"
    by (rule packed_table [of _ "[zero_entry\<lparr>e_state := STATE_DELETE\<rparr>, byte_entry 2 22, byte_entry 3 33, byte_entry 4 44]" 4])
      (auto simp: tomb8_def map_with_def replicate_2 replicate_4 byte_entry_def zero_entry_def state_defs key_bytes_def bytes_Suc ident_mem_def)
  then have "fh_wf (\<lambda>_. 0) ident_mem tomb8"
    using zero_hash_ok is_pow2I [of 3]
    by (simp add: fh_wf_def cap_ok_def) (simp add: tomb8_def map_with_def byte_entry_def zero_entry_def state_defs)
  then show "fh_inv (\<lambda>_. 0) ident_mem tomb8" by (simp add: fh_inv_def fh_load_def tomb8_def map_with_def)
  show "fh_abs ident_mem tomb8 = [[2] \<mapsto> 22, [3] \<mapsto> 33, [4] \<mapsto> 44]"
    by (auto simp: fh_abs_def tomb8_def map_with_def byte_entry_def zero_entry_def state_defs key_bytes_def bytes_Suc ident_mem_def)
qed

section \<open>Properties\<close>

text \<open>Lookup: on a well-formed map \<^verbatim>\<open>fhashmap_get_data\<close> always returns (its probing loop
  ends), and it returns exactly the data bound to the key, or failure when the key is not
  in the map.\<close>

theorem fhashmap_get_refines:
  assumes "fh_inv H m hm" "unat key_length < 2 ^ 32"
  shows "fhashmap_get_data (m, hm) key_data key_length
       = lret (lookup_result (fh_abs m hm (bytes m key_data (unat key_length))))"
  using assms by (rule get_data_correct)

theorem fhashmap_get_refines_witness:
  "fhashmap_get_data (ident_mem, single4) 64 1 = lret \<lparr>res_value = 7, res_succeed = True\<rparr>"
  using fhashmap_get_refines [OF single4_ok(1), of 1 ident_mem 64]
  by (simp add: single4_ok(5) lookup_result_def bytes_Suc)

text \<open>C9. Insertion of a key that is not in the map, with or without copying the key: the
  operation returns success, the map gains exactly this binding, and the invariant
  (distinct keys, probe paths, counters, load at most 75 percent) holds again, through the
  resize or rehash that the insertion may cause.\<close>

theorem fhashmap_insert_new_refines:
  assumes "fh_inv H m hm" "unat key_length < 2 ^ 32" "unat (fh_capacity hm) \<le> 2 ^ 26"
    and "\<And>sz. kmalloc sz \<noteq> NULL" "copy_safe kmalloc hm key_data key_length flags"
    and "fh_abs m hm (bytes m key_data (unat key_length)) = None"
  shows "\<exists>m' hm'. fhashmap_insert kmalloc kfree (m, hm) key_data key_length data flags = lret (0, m', hm') \<and>
    fh_inv H m' hm' \<and> fh_abs m' hm' = (fh_abs m hm)(bytes m key_data (unat key_length) \<mapsto> data)"
  using insert_new_correct [where kmalloc = kmalloc, OF assms(1-5) refl assms(6) refl, of kfree data] by blast

theorem fhashmap_insert_new_refines_witness:
  "\<exists>m' hm'. fhashmap_insert (\<lambda>_. 4096) poison_free (ident_mem, empty4) 64 1 9 FHASHMAP_INS_FLAG_KEY_COPY = lret (0, m', hm') \<and>
     fh_inv (\<lambda>_. 0) m' hm' \<and> fh_abs m' hm' = [[64] \<mapsto> 9]"
proof -
  have "copy_safe (\<lambda>_. 4096) empty4 64 1 FHASHMAP_INS_FLAG_KEY_COPY"
    by (auto simp: copy_safe_def in_block_def empty4_def map_with_def zero_entry_def)
  then show ?thesis
    using fhashmap_insert_new_refines [of "\<lambda>_. 0" ident_mem empty4 1 "\<lambda>_. 4096" 64 FHASHMAP_INS_FLAG_KEY_COPY poison_free 9]
    by (simp add: empty4_ok(1,2) empty4_ok(4) [simplified] bytes_Suc ident_mem_def)
qed

text \<open>Insertion of a key that is already in a map without tombstones: without the overwrite
  flag it returns \<open>-1\<close> and changes nothing, with it the binding is replaced and the
  invariant kept.\<close>

theorem fhashmap_insert_existing:
  assumes "fh_inv H m hm" "unat key_length < 2 ^ 32" "unat (fh_capacity hm) \<le> 2 ^ 26"
    and "\<And>sz. kmalloc sz \<noteq> NULL" "copy_safe kmalloc hm key_data key_length flags"
    and "fh_delete_count hm = 0" "clean_safe kfree m hm (bytes m key_data (unat key_length))"
    and "caller_key_safe kfree m hm key_data key_length"
    and "fh_abs m hm (bytes m key_data (unat key_length)) = Some old"
  shows "if flags AND FHASHMAP_INS_FLAG_OVERWRITE = 0
    then fhashmap_insert kmalloc kfree (m, hm) key_data key_length data flags = lret (- 1, m, hm)
    else \<exists>m' hm'. fhashmap_insert kmalloc kfree (m, hm) key_data key_length data flags = lret (0, m', hm') \<and>
      fh_inv H m' hm' \<and> fh_abs m' hm' = (fh_abs m hm)(bytes m key_data (unat key_length) \<mapsto> data)"
  using insert_old_correct [where kmalloc = kmalloc, OF assms(1-8) refl assms(9) refl, of data] by auto

theorem fhashmap_insert_existing_witness:
  "\<exists>m' hm'. fhashmap_insert (\<lambda>_. 4096) poison_free (ident_mem, single4) 64 1 9 FHASHMAP_INS_FLAG_OVERWRITE = lret (0, m', hm') \<and>
     fh_inv (\<lambda>_. 0) m' hm' \<and> fh_abs m' hm' = [[64] \<mapsto> 9]"
proof -
  have "clean_mem poison_free single4 e ident_mem = ident_mem" if "e \<in> set (fh_entries single4)" for e
    using that by (auto simp: clean_mem_def single4_def map_with_def byte_entry_def zero_entry_def)
  then have "clean_safe poison_free ident_mem single4 k" "delete_mem poison_free ident_mem single4 k = ident_mem" for k
    by (auto simp: clean_safe_def delete_mem_def split: list.split dest!: filter_eq_ConsD)
  moreover have "copy_safe (\<lambda>_. 4096) single4 64 1 FHASHMAP_INS_FLAG_OVERWRITE"
    by (simp add: copy_safe_def FHASHMAP_INS_FLAG_OVERWRITE_def FHASHMAP_INS_FLAG_KEY_COPY_def)
  ultimately show ?thesis
    using fhashmap_insert_existing [OF single4_ok(1) _ single4_ok(3) _ _ single4_ok(4),
        of 1 "\<lambda>_. 4096" 64 FHASHMAP_INS_FLAG_OVERWRITE poison_free ident_mem 7 9]
    by (simp add: single4_ok(5) bytes_Suc ident_mem_def FHASHMAP_INS_FLAG_OVERWRITE_def caller_key_safe_def)
qed

text \<open>C26. Deletion returns the data that was bound to the key (failure when it was absent),
  removes exactly this binding, and keeps the invariant through the rehash it may cause.
  The memory it leaves is \<open>delete_mem\<close>: the destroy callback of the map has run on the
  entry and the key has been released when the map had allocated it; without an entry the
  memory is the same. The hypothesis \<open>clean_safe\<close> is that the callback and \<^verbatim>\<open>kfree\<close> leave the
  bytes of the other keys in the map alone.\<close>

theorem fhashmap_delete_refines:
  assumes "fh_inv H m hm" "unat key_length < 2 ^ 32" "unat (fh_capacity hm) \<le> 2 ^ 26"
    and "\<And>sz. kmalloc sz \<noteq> NULL" "clean_safe kfree m hm (bytes m key_data (unat key_length))"
  shows "\<exists>m' hm'. fhashmap_delete kmalloc kfree (m, hm) key_data key_length
      = lret (lookup_result (fh_abs m hm (bytes m key_data (unat key_length))), m', hm') \<and>
    m' = delete_mem kfree m hm (bytes m key_data (unat key_length)) \<and>
    fh_inv H m' hm' \<and> fh_abs m' hm' = (fh_abs m hm)(bytes m key_data (unat key_length) := None)"
  using delete_correct [where kmalloc = kmalloc, OF assms refl refl] by blast

theorem fhashmap_delete_refines_witness:
  "\<exists>hm'. fhashmap_delete (\<lambda>_. 4096) poison_free (ident_mem, owned4) 64 1
       = lret (\<lparr>res_value = 7, res_succeed = True\<rparr>, ident_mem(0x200 := 1, 64 := 0), hm') \<and>
     fh_inv (\<lambda>_. 0) (ident_mem(0x200 := 1, 64 := 0)) hm' \<and> fh_abs (ident_mem(0x200 := 1, 64 := 0)) hm' = [[65] \<mapsto> 8]"
proof -
  have "clean_safe poison_free ident_mem owned4 [64]"
    by (simp add: clean_safe_def clean_mem_def note_cb_def poison_free_def owned4_def map_with_def byte_entry_def
        zero_entry_def state_defs FLAG_ALLOCATED_def key_bytes_def bytes_Suc ident_mem_def)
  moreover have "delete_mem poison_free ident_mem owned4 [64] = ident_mem(0x200 := 1, 64 := 0)"
    by (simp add: delete_mem_def clean_mem_def note_cb_def poison_free_def owned4_def map_with_def byte_entry_def
        zero_entry_def state_defs FLAG_ALLOCATED_def key_bytes_def bytes_Suc ident_mem_def)
  moreover have "unat (fh_capacity owned4) \<le> 2 ^ 26" by (simp add: owned4_def map_with_def)
  moreover have "[[64 :: u8] \<mapsto> (7 :: usize_ptr), [65] \<mapsto> 8]([64] := None) = [[65] \<mapsto> 8]" by auto
  moreover have "bytes ident_mem 64 (unat (1 :: u64)) = [64]" by (simp add: bytes_Suc ident_mem_def)
  ultimately show ?thesis
    using fhashmap_delete_refines [OF owned4_ok(1), of 1 "\<lambda>_. 4096" poison_free 64]
    by (simp add: owned4_ok(2) lookup_result_def)
qed

text \<open>The map that \<^verbatim>\<open>init_fhashmap_capacity\<close> returns satisfies the invariant with the
  64-bit MurmurHash2 and is empty, for every requested capacity for which it returns a map
  of at most \<open>2 ^ 27\<close> entries.\<close>

theorem init_fhashmap_ok:
  assumes "init_fhashmap_capacity kmalloc capacity = Inr hm" "unat (fh_capacity hm) \<le> 2 ^ 27"
  shows "fh_inv (murmur64_ref 0xe17a1465) m hm \<and> fh_abs m hm = Map.empty"
  using init_custom_correct [OF assms(1) [unfolded init_fhashmap_capacity_def] murmur_hash_ok assms(2)] by blast

text \<open>Above that bound the array is shorter than the capacity says: the 7 GB for \<open>2 ^ 28\<close> entries are cut to 3 GB.\<close>

lemma init_fhashmap_truncates:
  "length (fh_entries hm) = 115043766" "fh_capacity hm = 2 ^ 28"
  if "init_fhashmap_capacity kmalloc (2 ^ 28) = Inr hm"
proof -
  have "align_up_pow2 0x10000000 = 0x10000000" by (simp add: align_up_pow2_def smear_def)
  then show "length (fh_entries hm) = 115043766" "fh_capacity hm = 2 ^ 28"
    using that by (auto simp: init_fhashmap_capacity_def init_fhashmap_custom_def MIN_CAPACITY_def Let_def kbind_Inr_iff
        entry_slots_def sizeof_entry_def)
qed

text \<open>A freshly inserted binding is the one a later lookup returns, and lookups of other keys
  are not affected.\<close>

theorem fhashmap_insert_then_get:
  assumes "fh_inv H m hm" "unat (fh_capacity hm) \<le> 2 ^ 26" "\<And>sz. kmalloc sz \<noteq> NULL"
    and "unat l < 2 ^ 32" "unat l' < 2 ^ 32" "fh_abs m hm (bytes m p (unat l)) = None"
  shows "lbind (fhashmap_insert kmalloc kfree (m, hm) p l v 0) (\<lambda>(r, s'). fhashmap_get_data s' p' l')
       = lret (lookup_result (if bytes m p' (unat l') = bytes m p (unat l) then Some v
                              else fh_abs m hm (bytes m p' (unat l'))))"
  using fhm.ins_then_get [of H "(m, hm)" kmalloc "(p, l)" "bytes m p (unat l)" "(p', l')" "bytes m p' (unat l')" kfree v] assms
  by (simp add: fhm_ok_def fhm_room_def fhm_key_def fhm_view_def)

text \<open>A deleted key is not found any more, and the other keys are found as before.\<close>

theorem fhashmap_delete_then_get:
  assumes "fh_inv H m hm" "unat (fh_capacity hm) \<le> 2 ^ 26" "\<And>sz. kmalloc sz \<noteq> NULL"
    and "unat l < 2 ^ 32" "unat l' < 2 ^ 32" "clean_safe kfree m hm (bytes m p (unat l))"
    and "fhashmap_delete kmalloc kfree (m, hm) p l = lret (r, m', hm')"
  shows "fhashmap_get_data (m', hm') p' l'
       = lret (lookup_result (if bytes m' p' (unat l') = bytes m p (unat l) then None else fh_abs m hm (bytes m' p' (unat l'))))"
  using fhm.del_then_get [of H "(m, hm)" kmalloc "(p, l)" "bytes m p (unat l)" kfree r "(m', hm')" "(p', l')" "bytes m' p' (unat l')"] assms
  by (simp add: fhm_ok_def fhm_room_def fhm_safe_def fhm_key_def fhm_view_def)

section \<open>Where the contract is not kept\<close>

lemma foreach_loop_overruns:
  assumes "fh_capacity hm \<noteq> 0" "length (fh_entries hm) < 2 ^ 32"
  shows "unat i \<le> length (fh_entries hm) \<Longrightarrow> fhashmap_foreach_loop hm cb i ctx = Some (Inl BadAccess)"
proof (induction "length (fh_entries hm) - unat i" arbitrary: i ctx)
  case 0
  then show ?case using assms by (subst fhashmap_foreach_loop.simps) simp
next
  case (Suc n)
  then have lt: "unat i < length (fh_entries hm)" by simp
  then have "unat (i + 1) = Suc (unat i)" using assms(2) by (simp add: unat_word_ariths)
  then show ?case using Suc.hyps(1) [of "i + 1"] Suc.hyps(2) lt assms
    by (subst fhashmap_foreach_loop.simps) (simp add: Let_def)
qed

text \<open>\<^verbatim>\<open>fhashmap_foreach\<close> on any map with entries runs past the end of the entry array
  (its loop condition does not test the index): it never returns normally.\<close>

theorem fhashmap_foreach_overruns:
  assumes "fh_inv H m hm" "unat (fh_capacity hm) < 2 ^ 32"
  shows "fhashmap_foreach hm (Some cb) ctx = Some (Inl BadAccess)"
  using foreach_loop_overruns [of hm 0 cb ctx] assms fh_cap_nonzero [of H m hm]
  by (simp add: fhashmap_foreach_def fh_inv_def fh_wf_def cap_ok_def)

theorem fhashmap_foreach_overruns_witness:
  "fhashmap_foreach empty4 (Some (\<lambda>d k l n. Suc n)) 0 = Some (Inl BadAccess)"
  by (rule fhashmap_foreach_overruns [OF empty4_ok(1)]) (simp add: empty4_def map_with_def)

text \<open>C40. When the entry of a key lies behind a tombstone, an insertion of the key (with or without the overwrite flag)
  returns success and leaves two entries for the key; the deletion of the key then returns the new data, and after
  it the key is still in the map with the old data: the map is what it was before both operations. This holds on
  every well-formed map that does not need a rehash, which is how the operations leave it, as long as the destroy
  callback does not write to the keys.\<close>

theorem fhashmap_tombstone_resurrects:
  assumes "fh_inv H m hm" "unat key_length < 2 ^ 32" "k = bytes m key_data (unat key_length)" "fh_abs m hm k = Some old"
    and "need_rehash hm = lret False" "behind_tombstone m (fh_entries hm) (H k) k" "flags AND FHASHMAP_INS_FLAG_KEY_COPY = 0"
    and "m' = (case fh_destroy_cb hm of None \<Rightarrow> m | Some cb \<Rightarrow> cb data key_data (ucast key_length) m)"
    and "bytes m' key_data (unat key_length) = k"
    and "\<And>e. e \<in> set (fh_entries hm) \<Longrightarrow> e_state e = STATE_USED \<Longrightarrow> key_bytes m' e = key_bytes m e"
  shows "\<exists>hm1 hm2 i j. fhashmap_insert kmalloc kfree (m, hm) key_data key_length data flags = lret (0, m, hm1) \<and>
    i \<noteq> j \<and> used_at (fh_entries hm1) i \<and> used_at (fh_entries hm1) j \<and>
    key_bytes m (fh_entries hm1 ! i) = k \<and> key_bytes m (fh_entries hm1 ! j) = k \<and>
    fhashmap_delete kmalloc kfree (m, hm1) key_data key_length = lret (\<lparr>res_value = data, res_succeed = True\<rparr>, m', hm2) \<and>
    fh_inv H m' hm2 \<and> fh_abs m' hm2 = fh_abs m hm \<and>
    fhashmap_get_data (m', hm2) key_data key_length = lret \<lparr>res_value = old, res_succeed = True\<rparr>"
  using assms by (rule tombstone_run)

theorem fhashmap_tombstone_resurrects_witness:
  "\<exists>hm1 hm2. fhashmap_insert (\<lambda>_. 4096) poison_free (ident_mem, tomb8) 2 1 99 FHASHMAP_INS_FLAG_OVERWRITE = lret (0, ident_mem, hm1) \<and>
    fhashmap_delete (\<lambda>_. 4096) poison_free (ident_mem, hm1) 2 1
      = lret (\<lparr>res_value = 99, res_succeed = True\<rparr>, ident_mem(0x200 := 1), hm2) \<and>
    fhashmap_get_data (ident_mem(0x200 := 1), hm2) 2 1 = lret \<lparr>res_value = 22, res_succeed = True\<rparr>"
proof -
  let ?es = "fh_entries tomb8"
  have k: "bytes ident_mem 2 (unat (1 :: u64)) = [2]" by (simp add: bytes_Suc ident_mem_def)
  have "first_free ?es 0 0 \<and> used_at ?es (probe (length ?es) 0 1) \<and> key_bytes ident_mem (?es ! probe (length ?es) 0 1) = [2]"
    by (simp add: first_free_def probe_def used_at_def tomb8_def map_with_def byte_entry_def zero_entry_def state_defs
        key_bytes_def bytes_Suc ident_mem_def)
  then have tomb: "behind_tombstone ident_mem ?es 0 [2]"
    unfolding behind_tombstone_def
    by (intro exI [of _ 0] exI [of _ 1]) (auto simp: probe_def tomb8_def map_with_def)
  have no: "need_rehash tomb8 = lret False" by (simp add: need_rehash_def tomb8_def map_with_def)
  have keys: "\<And>e. e \<in> set ?es \<Longrightarrow> e_state e = STATE_USED \<Longrightarrow> key_bytes (ident_mem(0x200 := 1)) e = key_bytes ident_mem e"
    by (auto simp: tomb8_def map_with_def byte_entry_def zero_entry_def state_defs key_bytes_def bytes_Suc ident_mem_def)
  have cb: "ident_mem(0x200 := 1) = (case fh_destroy_cb tomb8 of None \<Rightarrow> ident_mem | Some cb \<Rightarrow> cb 99 2 (ucast (1 :: u64)) ident_mem)"
    by (simp add: tomb8_def note_cb_def)
  have rest: "unat (1 :: u64) < 2 ^ 32" "fh_abs ident_mem tomb8 [2] = Some 22" "FHASHMAP_INS_FLAG_OVERWRITE AND FHASHMAP_INS_FLAG_KEY_COPY = 0"
      "bytes (ident_mem(0x200 := 1)) 2 (unat (1 :: u64)) = [2]"
    by (simp_all add: tomb8_ok(2) bytes_Suc ident_mem_def FHASHMAP_INS_FLAG_OVERWRITE_def FHASHMAP_INS_FLAG_KEY_COPY_def)
  show ?thesis
    using fhashmap_tombstone_resurrects [OF tomb8_ok(1) rest(1) k [symmetric] rest(2) no tomb rest(3) cb rest(4) keys,
        of "\<lambda>_. 4096" poison_free] by blast
qed

end
