(* ===== verification/Rb_Tree.thy ===== *)
theory Rb_Tree
  imports Kernel_Prelude
begin

text \<open>
  The intrusive red-black tree of \<^verbatim>\<open>kernel/utils/data_structs/rb_tree.c\<close>, statement by
  statement. A node has the parent pointer and the colour packed into one word; the heap
  maps the addresses of nodes to their contents. The comparison callback is a function of
  the two addresses, the augmentation callback is represented by the list of nodes it is
  called on. The value \<open>None\<close> stands for a dereference of an address that is not a node
  (NULL in particular) or a loop that does not end.
\<close>

section \<open>Nodes\<close>

record rb_node =
  parent_color :: usize_ptr
  rb_left :: usize_ptr
  rb_right :: usize_ptr

type_synonym rb_heap = "usize_ptr \<Rightarrow> rb_node option"

type_synonym rb_cmp_t = "usize_ptr \<Rightarrow> usize_ptr \<Rightarrow> int"

record rb_tree =
  rb_root :: usize_ptr
  rb_cmp :: rb_cmp_t

definition RB_COLOR :: usize_ptr where "RB_COLOR = 1"

definition RB_FLAGS :: usize_ptr where "RB_FLAGS = 3"

definition is_red :: "rb_heap \<Rightarrow> usize_ptr \<Rightarrow> bool option" where
  "is_red h node =
     (if node = NULL then Some False
      else do { n \<leftarrow> h node; Some (parent_color n AND RB_COLOR \<noteq> 0) })"

definition is_black :: "rb_heap \<Rightarrow> usize_ptr \<Rightarrow> bool option" where
  "is_black h node = do { r \<leftarrow> is_red h node; Some (\<not> r) }"

definition set_red :: "usize_ptr \<Rightarrow> rb_heap \<Rightarrow> rb_heap option" where
  "set_red node h = do {
     n \<leftarrow> h node; Some (h(node \<mapsto> n\<lparr>parent_color := parent_color n OR RB_COLOR\<rparr>)) }"

definition set_black :: "usize_ptr \<Rightarrow> rb_heap \<Rightarrow> rb_heap option" where
  "set_black node h = do {
     n \<leftarrow> h node; Some (h(node \<mapsto> n\<lparr>parent_color := parent_color n AND NOT RB_COLOR\<rparr>)) }"

definition get_parent :: "rb_heap \<Rightarrow> usize_ptr \<Rightarrow> usize_ptr option" where
  "get_parent h node = do { n \<leftarrow> h node; Some (parent_color n AND NOT RB_FLAGS) }"

definition set_parent :: "usize_ptr \<Rightarrow> usize_ptr \<Rightarrow> rb_heap \<Rightarrow> rb_heap option" where
  "set_parent node new_parent h = do {
     n \<leftarrow> h node;
     Some (h(node \<mapsto> n\<lparr>parent_color := (parent_color n AND RB_FLAGS) OR new_parent\<rparr>)) }"

definition set_color_to_other :: "usize_ptr \<Rightarrow> usize_ptr \<Rightarrow> rb_heap \<Rightarrow> rb_heap option" where
  "set_color_to_other left right h = do {
     p \<leftarrow> get_parent h left;
     l \<leftarrow> h left;
     r \<leftarrow> h right;
     Some (h(left \<mapsto> l\<lparr>parent_color := p OR (parent_color r AND RB_COLOR)\<rparr>)) }"

definition set_left :: "usize_ptr \<Rightarrow> usize_ptr \<Rightarrow> rb_heap \<Rightarrow> rb_heap option" where
  "set_left node v h = do { n \<leftarrow> h node; Some (h(node \<mapsto> n\<lparr>rb_left := v\<rparr>)) }"

definition set_right :: "usize_ptr \<Rightarrow> usize_ptr \<Rightarrow> rb_heap \<Rightarrow> rb_heap option" where
  "set_right node v h = do { n \<leftarrow> h node; Some (h(node \<mapsto> n\<lparr>rb_right := v\<rparr>)) }"

definition get_left :: "rb_heap \<Rightarrow> usize_ptr \<Rightarrow> usize_ptr option" where
  "get_left h node = map_option rb_left (h node)"

definition get_right :: "rb_heap \<Rightarrow> usize_ptr \<Rightarrow> usize_ptr option" where
  "get_right h node = map_option rb_right (h node)"

definition get_sibling :: "rb_heap \<Rightarrow> usize_ptr \<Rightarrow> usize_ptr option" where
  "get_sibling h node = do {
     parent \<leftarrow> get_parent h node;
     if parent = NULL then Some NULL
     else do { l \<leftarrow> get_left h parent; if l = node then get_right h parent else get_left h parent } }"

definition get_uncle :: "rb_heap \<Rightarrow> usize_ptr \<Rightarrow> usize_ptr option" where
  "get_uncle h node = do {
     parent \<leftarrow> get_parent h node;
     if parent = NULL then Some NULL else get_sibling h parent }"

section \<open>Rotations\<close>

text \<open>The root pointer \<^verbatim>\<open>*root\<close> and the heap are passed and returned.\<close>

definition rb_rotate_left :: "usize_ptr \<Rightarrow> usize_ptr \<times> rb_heap \<Rightarrow> (usize_ptr \<times> rb_heap) option" where
  "rb_rotate_left parent = (\<lambda>(root, h). do {
     right \<leftarrow> get_right h parent;
     pivot \<leftarrow> get_left h right;
     h \<leftarrow> set_right parent pivot h;
     h \<leftarrow> (if pivot \<noteq> NULL then set_parent pivot parent h else Some h);
     gparent \<leftarrow> get_parent h parent;
     h \<leftarrow> set_parent right gparent h;
     (root, h) \<leftarrow>
       (if gparent = NULL then Some (right, h)
        else do {
          gl \<leftarrow> get_left h gparent;
          gr \<leftarrow> get_right h gparent;
          h \<leftarrow> (if gl = parent then set_left gparent right h
                else if gr = parent then set_right gparent right h
                else Some h);
          Some (root, h) });
     h \<leftarrow> set_left right parent h;
     h \<leftarrow> set_parent parent right h;
     Some (root, h) })"

definition rb_rotate_right :: "usize_ptr \<Rightarrow> usize_ptr \<times> rb_heap \<Rightarrow> (usize_ptr \<times> rb_heap) option" where
  "rb_rotate_right parent = (\<lambda>(root, h). do {
     left \<leftarrow> get_left h parent;
     pivot \<leftarrow> get_right h left;
     h \<leftarrow> set_left parent pivot h;
     h \<leftarrow> (if pivot \<noteq> NULL then set_parent pivot parent h else Some h);
     gparent \<leftarrow> get_parent h parent;
     h \<leftarrow> set_parent left gparent h;
     (root, h) \<leftarrow>
       (if gparent = NULL then Some (left, h)
        else do {
          gl \<leftarrow> get_left h gparent;
          gr \<leftarrow> get_right h gparent;
          h \<leftarrow> (if gl = parent then set_left gparent left h
                else if gr = parent then set_right gparent left h
                else Some h);
          Some (root, h) });
     h \<leftarrow> set_right left parent h;
     h \<leftarrow> set_parent parent left h;
     Some (root, h) })"

section \<open>Searching\<close>

text \<open>A pointer to a link: the root variable, or a child field of a node.\<close>

datatype rb_link = RootLink | LeftLink usize_ptr | RightLink usize_ptr

definition read_link :: "usize_ptr \<times> rb_heap \<Rightarrow> rb_link \<Rightarrow> usize_ptr option" where
  "read_link s link =
     (case link of RootLink \<Rightarrow> Some (fst s) | LeftLink p \<Rightarrow> get_left (snd s) p | RightLink p \<Rightarrow> get_right (snd s) p)"

definition write_link :: "rb_link \<Rightarrow> usize_ptr \<Rightarrow> usize_ptr \<times> rb_heap \<Rightarrow> (usize_ptr \<times> rb_heap) option" where
  "write_link link v = (\<lambda>(root, h).
     case link of RootLink \<Rightarrow> Some (v, h)
     | LeftLink p \<Rightarrow> do { h \<leftarrow> set_left p v h; Some (root, h) }
     | RightLink p \<Rightarrow> do { h \<leftarrow> set_right p v h; Some (root, h) })"

partial_function (option) rb_find_link_loop ::
  "rb_cmp_t \<Rightarrow> usize_ptr \<times> rb_heap \<Rightarrow> usize_ptr \<Rightarrow> rb_link \<Rightarrow> usize_ptr \<Rightarrow> (rb_link \<times> usize_ptr) option" where
  "rb_find_link_loop cmp s data link link_parent = do {
     cur \<leftarrow> read_link s link;
     if cur = NULL then Some (link, link_parent)
     else if cmp cur data > 0 then rb_find_link_loop cmp s data (LeftLink cur) cur
     else if cmp cur data < 0 then rb_find_link_loop cmp s data (RightLink cur) cur
     else Some (link, cur) }"

declare rb_find_link_loop.simps [code]

definition rb_find_node_link ::
  "rb_cmp_t \<Rightarrow> usize_ptr \<times> rb_heap \<Rightarrow> usize_ptr \<Rightarrow> (rb_link \<times> usize_ptr) option" where
  "rb_find_node_link cmp s data = rb_find_link_loop cmp s data RootLink NULL"

section \<open>Insertion\<close>

definition rb_handle_insert_fixup_rotation ::
  "usize_ptr \<Rightarrow> usize_ptr \<Rightarrow> bool \<Rightarrow> bool \<Rightarrow> usize_ptr \<times> rb_heap \<Rightarrow> (usize_ptr \<times> rb_heap) option" where
  "rb_handle_insert_fixup_rotation gparent parent parent_left_child node_left_child s = do {
     let is_zigzag = (parent_left_child \<noteq> node_left_child);
     s \<leftarrow> (if parent_left_child
           then do {
             s \<leftarrow> (if is_zigzag then rb_rotate_left parent s else Some s);
             rb_rotate_right gparent s }
           else do {
             s \<leftarrow> (if is_zigzag then rb_rotate_right parent s else Some s);
             rb_rotate_left gparent s });
     new_top \<leftarrow> get_parent (snd s) gparent;
     h \<leftarrow> set_black new_top (snd s);
     h \<leftarrow> set_red gparent h;
     Some (fst s, h) }"

partial_function (option) rb_insert_fixup ::
  "usize_ptr \<Rightarrow> usize_ptr \<times> rb_heap \<Rightarrow> (usize_ptr \<times> rb_heap) option" where
  "rb_insert_fixup node s = do {
     parent \<leftarrow> get_parent (snd s) node;
     if parent = NULL
     then do { h \<leftarrow> set_black (fst s) (snd s); Some (fst s, h) }
     else do {
       parent_black \<leftarrow> is_black (snd s) parent;
       if parent_black then Some s
       else do {
         gparent \<leftarrow> get_parent (snd s) parent;
         if gparent = NULL then Some s
         else do {
           uncle \<leftarrow> get_uncle (snd s) node;
           uncle_red \<leftarrow> is_red (snd s) uncle;
           s \<leftarrow> (if uncle_red
                 then do {
                   h \<leftarrow> set_black uncle (snd s);
                   h \<leftarrow> set_black parent h;
                   h \<leftarrow> set_red gparent h;
                   rb_insert_fixup gparent (fst s, h) }
                 else do {
                   gl \<leftarrow> get_left (snd s) gparent;
                   pl \<leftarrow> get_left (snd s) parent;
                   rb_handle_insert_fixup_rotation gparent parent (gl = parent) (pl = node) s });
           h \<leftarrow> set_black (fst s) (snd s);
           Some (fst s, h) } } } }"

declare rb_insert_fixup.simps [code]

section \<open>Deletion\<close>

partial_function (option) leftmost :: "rb_heap \<Rightarrow> usize_ptr \<Rightarrow> usize_ptr option" where
  "leftmost h node = do { l \<leftarrow> get_left h node; if l \<noteq> NULL then leftmost h l else Some node }"

declare leftmost.simps [code]

partial_function (option) rightmost :: "rb_heap \<Rightarrow> usize_ptr \<Rightarrow> usize_ptr option" where
  "rightmost h node = do { r \<leftarrow> get_right h node; if r \<noteq> NULL then rightmost h r else Some node }"

declare rightmost.simps [code]

definition rb_find_successor :: "rb_heap \<Rightarrow> usize_ptr \<Rightarrow> usize_ptr option" where
  "rb_find_successor h node = do {
     node \<leftarrow> get_right h node;
     if node = NULL then Some NULL else leftmost h node }"

definition rb_transplant ::
  "usize_ptr \<Rightarrow> usize_ptr \<Rightarrow> usize_ptr \<times> rb_heap \<Rightarrow> (usize_ptr \<times> rb_heap) option" where
  "rb_transplant old_node new_node = (\<lambda>(root, h). do {
     parent \<leftarrow> get_parent h old_node;
     (root, h) \<leftarrow>
       (if parent = NULL then Some (new_node, h)
        else do {
          pl \<leftarrow> get_left h parent;
          h \<leftarrow> (if old_node = pl then set_left parent new_node h else set_right parent new_node h);
          Some (root, h) });
     h \<leftarrow> (if new_node \<noteq> NULL then set_parent new_node parent h else Some h);
     Some (root, h) })"

text \<open>The result is the state, \<^verbatim>\<open>delete_was_black\<close>, \<^verbatim>\<open>node_to_fix\<close> and \<^verbatim>\<open>node_to_fix_parent\<close>.\<close>

definition rb_delete_configure_nuclear_node ::
  "usize_ptr \<Rightarrow> usize_ptr \<times> rb_heap \<Rightarrow> ((usize_ptr \<times> rb_heap) \<times> bool \<times> usize_ptr \<times> usize_ptr) option" where
  "rb_delete_configure_nuclear_node delete_node s = do {
     successor_node \<leftarrow> rb_find_successor (snd s) delete_node;
     delete_was_black \<leftarrow> is_black (snd s) successor_node;
     node_to_fix \<leftarrow> get_right (snd s) successor_node;
     sp \<leftarrow> get_parent (snd s) successor_node;
     (s, node_to_fix_parent) \<leftarrow>
       (if sp = delete_node then Some (s, successor_node)
        else do {
          sr \<leftarrow> get_right (snd s) successor_node;
          s \<leftarrow> rb_transplant successor_node sr s;
          dr \<leftarrow> get_right (snd s) delete_node;
          h \<leftarrow> set_right successor_node dr (snd s);
          h \<leftarrow> (if dr \<noteq> NULL then set_parent dr successor_node h else Some h);
          Some ((fst s, h), sp) });
     s \<leftarrow> rb_transplant delete_node successor_node s;
     h \<leftarrow> set_color_to_other successor_node delete_node (snd s);
     dl \<leftarrow> get_left h delete_node;
     h \<leftarrow> set_left successor_node dl h;
     h \<leftarrow> (if dl \<noteq> NULL then set_parent dl successor_node h else Some h);
     h \<leftarrow> set_color_to_other delete_node successor_node h;
     Some ((fst s, h), delete_was_black, node_to_fix, node_to_fix_parent) }"

definition rb_delete_fixup_sibling_red ::
  "usize_ptr \<Rightarrow> usize_ptr \<Rightarrow> bool \<Rightarrow> usize_ptr \<times> rb_heap \<Rightarrow> (usize_ptr \<times> rb_heap) option" where
  "rb_delete_fixup_sibling_red parent sibling is_left_child s = do {
     h \<leftarrow> set_black sibling (snd s);
     h \<leftarrow> set_red parent h;
     if is_left_child then rb_rotate_left parent (fst s, h) else rb_rotate_right parent (fst s, h) }"

definition rb_delete_fixup_sibling_black_child_red ::
  "usize_ptr \<Rightarrow> usize_ptr \<Rightarrow> bool \<Rightarrow> usize_ptr \<times> rb_heap \<Rightarrow> (usize_ptr \<times> rb_heap) option" where
  "rb_delete_fixup_sibling_black_child_red parent sibling is_left_child s = do {
     sl \<leftarrow> get_left (snd s) sibling;
     sr \<leftarrow> get_right (snd s) sibling;
     sl_red \<leftarrow> (if is_left_child then is_red (snd s) sl else Some False);
     sr_red \<leftarrow> (if is_left_child then Some False else is_red (snd s) sr);
     (s, sibling) \<leftarrow>
       (if sl_red
        then do {
          h \<leftarrow> (if sl \<noteq> NULL then set_black sl (snd s) else Some (snd s));
          h \<leftarrow> set_red sibling h;
          s \<leftarrow> rb_rotate_right sibling (fst s, h);
          sibling \<leftarrow> get_right (snd s) parent;
          Some (s, sibling) }
        else if sr_red
        then do {
          h \<leftarrow> (if sr \<noteq> NULL then set_black sr (snd s) else Some (snd s));
          h \<leftarrow> set_red sibling h;
          s \<leftarrow> rb_rotate_left sibling (fst s, h);
          sibling \<leftarrow> get_left (snd s) parent;
          Some (s, sibling) }
        else Some (s, sibling));
     h \<leftarrow> set_black parent (snd s);
     if is_left_child
     then do {
       sr \<leftarrow> get_right h sibling;
       h \<leftarrow> (if sr \<noteq> NULL then set_black sr h else Some h);
       rb_rotate_left parent (fst s, h) }
     else do {
       sl \<leftarrow> get_left h sibling;
       h \<leftarrow> (if sl \<noteq> NULL then set_black sl h else Some h);
       rb_rotate_right parent (fst s, h) } }"

text \<open>The loop of \<^verbatim>\<open>rb_delete_fixup\<close>; the value is the final state and \<^verbatim>\<open>node_to_fix\<close>.\<close>

partial_function (option) rb_delete_fixup_loop ::
  "usize_ptr \<Rightarrow> usize_ptr \<Rightarrow> usize_ptr \<times> rb_heap \<Rightarrow> ((usize_ptr \<times> rb_heap) \<times> usize_ptr) option" where
  "rb_delete_fixup_loop node_to_fix node_to_fix_parent s = do {
     fix_black \<leftarrow> (if node_to_fix \<noteq> fst s then is_black (snd s) node_to_fix else Some False);
     if \<not> fix_black then Some (s, node_to_fix)
     else do {
       pl \<leftarrow> get_left (snd s) node_to_fix_parent;
       let is_left_child = (node_to_fix = pl);
       sibling \<leftarrow> (if is_left_child then get_right (snd s) node_to_fix_parent
                  else get_left (snd s) node_to_fix_parent);
       sibling_red \<leftarrow> is_red (snd s) sibling;
       (s, sibling) \<leftarrow>
         (if sibling_red
          then do {
            s \<leftarrow> rb_delete_fixup_sibling_red node_to_fix_parent sibling is_left_child s;
            sibling \<leftarrow> (if is_left_child then get_right (snd s) node_to_fix_parent
                       else get_left (snd s) node_to_fix_parent);
            Some (s, sibling) }
          else Some (s, sibling));
       sl \<leftarrow> get_left (snd s) sibling;
       sr \<leftarrow> get_right (snd s) sibling;
       sl_black \<leftarrow> is_black (snd s) sl;
       both_black \<leftarrow> (if sl_black then is_black (snd s) sr else Some False);
       if both_black
       then do {
         h \<leftarrow> set_red sibling (snd s);
         gp \<leftarrow> get_parent h node_to_fix_parent;
         rb_delete_fixup_loop node_to_fix_parent gp (fst s, h) }
       else do {
         s \<leftarrow> rb_delete_fixup_sibling_black_child_red node_to_fix_parent sibling is_left_child s;
         Some (s, fst s) } } }"

declare rb_delete_fixup_loop.simps [code]

definition rb_delete_fixup ::
  "usize_ptr \<Rightarrow> usize_ptr \<Rightarrow> usize_ptr \<times> rb_heap \<Rightarrow> (usize_ptr \<times> rb_heap) option" where
  "rb_delete_fixup node_to_fix node_to_fix_parent s = do {
     (s, node_to_fix) \<leftarrow> rb_delete_fixup_loop node_to_fix node_to_fix_parent s;
     h \<leftarrow> (if node_to_fix \<noteq> NULL then set_black node_to_fix (snd s) else Some (snd s));
     Some (fst s, h) }"

definition rb_configure_delete ::
  "usize_ptr \<Rightarrow> usize_ptr \<times> rb_heap \<Rightarrow> ((usize_ptr \<times> rb_heap) \<times> bool \<times> usize_ptr \<times> usize_ptr) option" where
  "rb_configure_delete delete s = do {
     l \<leftarrow> get_left (snd s) delete;
     r \<leftarrow> get_right (snd s) delete;
     if l = NULL
     then do {
       p \<leftarrow> get_parent (snd s) delete;
       b \<leftarrow> is_black (snd s) delete;
       s \<leftarrow> rb_transplant delete r s;
       Some (s, b, r, p) }
     else if r = NULL
     then do {
       p \<leftarrow> get_parent (snd s) delete;
       b \<leftarrow> is_black (snd s) delete;
       s \<leftarrow> rb_transplant delete l s;
       Some (s, b, l, p) }
     else rb_delete_configure_nuclear_node delete s }"

section \<open>The interface\<close>

text \<open>The nodes on which \<^verbatim>\<open>rb_augment_from\<close> calls the augmentation callback, in order.\<close>

partial_function (option) rb_augment_from :: "usize_ptr \<times> rb_heap \<Rightarrow> usize_ptr \<Rightarrow> usize_ptr list option" where
  "rb_augment_from s node =
     (if node = NULL then Some []
      else if fst s = node then Some [node]
      else do { p \<leftarrow> get_parent (snd s) node; rest \<leftarrow> rb_augment_from s p; Some (node # rest) })"

declare rb_augment_from.simps [code]

definition rb_init_tree :: "rb_cmp_t \<Rightarrow> rb_tree" where
  "rb_init_tree cmp = \<lparr>rb_root = NULL, rb_cmp = cmp\<rparr>"

definition rb_empty :: "rb_tree \<Rightarrow> bool" where
  "rb_empty tree \<longleftrightarrow> rb_root tree = NULL"

text \<open>
  The operations take the tree and the heap; the value is the returned pointer, the new
  tree and heap, and the calls of the augmentation callback.
\<close>

definition rb_insert ::
  "rb_tree \<times> rb_heap \<Rightarrow> usize_ptr \<Rightarrow> (usize_ptr \<times> (rb_tree \<times> rb_heap) \<times> usize_ptr list) option" where
  "rb_insert = (\<lambda>(tree, h) node. do {
     (link, parent) \<leftarrow> rb_find_node_link (rb_cmp tree) (rb_root tree, h) node;
     cur \<leftarrow> read_link (rb_root tree, h) link;
     if cur \<noteq> NULL then Some (NULL, (tree, h), [])
     else do {
       h \<leftarrow> set_right node NULL h;
       h \<leftarrow> set_left node NULL h;
       h \<leftarrow> set_red node h;
       s \<leftarrow> write_link link node (rb_root tree, h);
       h \<leftarrow> set_parent node parent (snd s);
       s \<leftarrow> rb_insert_fixup node (fst s, h);
       from \<leftarrow> read_link s link;
       aug \<leftarrow> rb_augment_from s from;
       Some (node, (tree\<lparr>rb_root := fst s\<rparr>, snd s), aug) } })"

definition rb_remove_node ::
  "rb_tree \<times> rb_heap \<Rightarrow> usize_ptr \<Rightarrow> (usize_ptr \<times> (rb_tree \<times> rb_heap) \<times> usize_ptr list) option" where
  "rb_remove_node = (\<lambda>(tree, h) delete.
     if delete = NULL then Some (NULL, (tree, h), [])
     else do {
       b \<leftarrow> is_black h delete;
       (s, delete_was_black, node_to_fix, node_to_fix_parent) \<leftarrow> rb_configure_delete delete (rb_root tree, h);
       s \<leftarrow> (if delete_was_black then rb_delete_fixup node_to_fix node_to_fix_parent s else Some s);
       aug \<leftarrow> (if node_to_fix \<noteq> NULL then rb_augment_from s node_to_fix
              else if node_to_fix_parent \<noteq> NULL then rb_augment_from s node_to_fix_parent
              else Some []);
       Some (delete, (tree\<lparr>rb_root := fst s\<rparr>, snd s), aug) })"

definition rb_remove_key ::
  "rb_tree \<times> rb_heap \<Rightarrow> usize_ptr \<Rightarrow> (usize_ptr \<times> (rb_tree \<times> rb_heap) \<times> usize_ptr list) option" where
  "rb_remove_key = (\<lambda>(tree, h) key. do {
     (link, parent) \<leftarrow> rb_find_node_link (rb_cmp tree) (rb_root tree, h) key;
     delete \<leftarrow> read_link (rb_root tree, h) link;
     rb_remove_node (tree, h) delete })"

definition rb_search :: "rb_tree \<times> rb_heap \<Rightarrow> usize_ptr \<Rightarrow> usize_ptr option" where
  "rb_search = (\<lambda>(tree, h) key. do {
     (link, parent) \<leftarrow> rb_find_node_link (rb_cmp tree) (rb_root tree, h) key;
     read_link (rb_root tree, h) link })"

definition rb_get_min :: "rb_heap \<Rightarrow> usize_ptr \<Rightarrow> usize_ptr option" where
  "rb_get_min h node = (if node = NULL then Some NULL else leftmost h node)"

definition rb_get_max :: "rb_heap \<Rightarrow> usize_ptr \<Rightarrow> usize_ptr option" where
  "rb_get_max h node = (if node = NULL then Some NULL else rightmost h node)"

definition rb_min :: "rb_tree \<times> rb_heap \<Rightarrow> usize_ptr option" where
  "rb_min = (\<lambda>(tree, h). rb_get_min h (rb_root tree))"

definition rb_max :: "rb_tree \<times> rb_heap \<Rightarrow> usize_ptr option" where
  "rb_max = (\<lambda>(tree, h). rb_get_max h (rb_root tree))"

partial_function (option) rb_climb_prev :: "rb_heap \<Rightarrow> usize_ptr \<Rightarrow> usize_ptr option" where
  "rb_climb_prev h node = do {
     parent \<leftarrow> get_parent h node;
     if parent = NULL then Some NULL
     else do { r \<leftarrow> get_right h parent; if r = node then Some parent else rb_climb_prev h parent } }"

declare rb_climb_prev.simps [code]

definition rb_prev :: "rb_heap \<Rightarrow> usize_ptr \<Rightarrow> usize_ptr option" where
  "rb_prev h node = do {
     l \<leftarrow> get_left h node;
     if l \<noteq> NULL then rb_get_max h l else rb_climb_prev h node }"

partial_function (option) rb_climb_next :: "rb_heap \<Rightarrow> usize_ptr \<Rightarrow> usize_ptr option" where
  "rb_climb_next h node = do {
     parent \<leftarrow> get_parent h node;
     if parent = NULL then Some NULL
     else do { l \<leftarrow> get_left h parent; if l = node then Some parent else rb_climb_next h parent } }"

declare rb_climb_next.simps [code]

definition rb_next :: "rb_heap \<Rightarrow> usize_ptr \<Rightarrow> usize_ptr option" where
  "rb_next h node = do {
     r \<leftarrow> get_right h node;
     if r \<noteq> NULL then rb_get_min h r else rb_climb_next h node }"

text \<open>The nodes that \<^verbatim>\<open>rb_free_tree\<close> hands to the callback, in order.\<close>

partial_function (option) rb_free_loop :: "rb_heap \<Rightarrow> usize_ptr \<Rightarrow> usize_ptr \<Rightarrow> usize_ptr list option" where
  "rb_free_loop h node prev =
     (if node = NULL then Some []
      else do {
        l \<leftarrow> get_left h node;
        r \<leftarrow> get_right h node;
        if l \<noteq> NULL \<and> prev \<noteq> l \<and> prev \<noteq> r then rb_free_loop h l prev
        else if r \<noteq> NULL \<and> prev \<noteq> r then rb_free_loop h r prev
        else do {
          parent \<leftarrow> get_parent h node;
          rest \<leftarrow> rb_free_loop h parent node;
          Some (node # rest) } })"

declare rb_free_loop.simps [code]

definition rb_free_tree :: "rb_tree \<times> rb_heap \<Rightarrow> (rb_tree \<times> usize_ptr list) option" where
  "rb_free_tree = (\<lambda>(tree, h). do {
     freed \<leftarrow> rb_free_loop h (rb_root tree) NULL;
     Some (tree\<lparr>rb_root := NULL\<rparr>, freed) })"

partial_function (option) rb_lower_loop ::
  "rb_cmp_t \<Rightarrow> rb_heap \<Rightarrow> usize_ptr \<Rightarrow> usize_ptr \<Rightarrow> usize_ptr \<Rightarrow> usize_ptr option" where
  "rb_lower_loop cmp h key node result =
     (if node = NULL then Some result
      else if cmp key node \<le> 0
      then do { l \<leftarrow> get_left h node; rb_lower_loop cmp h key l node }
      else do { r \<leftarrow> get_right h node; rb_lower_loop cmp h key r result })"

declare rb_lower_loop.simps [code]

definition rb_lower_bound :: "rb_tree \<times> rb_heap \<Rightarrow> usize_ptr \<Rightarrow> usize_ptr option" where
  "rb_lower_bound = (\<lambda>(tree, h) key. rb_lower_loop (rb_cmp tree) h key (rb_root tree) NULL)"

partial_function (option) rb_upper_loop ::
  "rb_cmp_t \<Rightarrow> rb_heap \<Rightarrow> usize_ptr \<Rightarrow> usize_ptr \<Rightarrow> usize_ptr \<Rightarrow> usize_ptr option" where
  "rb_upper_loop cmp h key node result =
     (if node = NULL then Some result
      else if cmp key node \<ge> 0
      then do { r \<leftarrow> get_right h node; rb_upper_loop cmp h key r node }
      else do { l \<leftarrow> get_left h node; rb_upper_loop cmp h key l result })"

declare rb_upper_loop.simps [code]

definition rb_upper_bound :: "rb_tree \<times> rb_heap \<Rightarrow> usize_ptr \<Rightarrow> usize_ptr option" where
  "rb_upper_bound = (\<lambda>(tree, h) key. rb_upper_loop (rb_cmp tree) h key (rb_root tree) NULL)"

text \<open>The nodes that the loop \<^verbatim>\<open>rb_for_each\<close> visits from a node on.\<close>

partial_function (option) rb_for_each :: "rb_heap \<Rightarrow> usize_ptr \<Rightarrow> usize_ptr list option" where
  "rb_for_each h node =
     (if node = NULL then Some []
      else do { n \<leftarrow> rb_next h node; rest \<leftarrow> rb_for_each h n; Some (node # rest) })"

declare rb_for_each.simps [code]

end
