(* ===== verification/Rb_Tree_Shape.thy ===== *)
theory Rb_Tree_Shape
  imports Rb_Tree
begin

text \<open>
  The shape of the pointer structure: abstract trees that carry the addresses of their
  nodes, contexts (the path from a subtree up to the root), and the relation \<open>wft\<close> between
  a heap and a tree. Each primitive of the code that reads or writes the structure gets one
  lemma about \<open>wft\<close> at a focus; the algorithms are then followed on abstract trees only.
\<close>

section \<open>Abstract trees and contexts\<close>

text \<open>The Boolean is the colour, \<open>True\<close> for red.\<close>

datatype rbt = Lf | Nd bool rbt usize_ptr rbt

datatype rctx = CTop | CLeft bool usize_ptr rbt rctx | CRight bool rbt usize_ptr rctx

fun addr :: "rbt \<Rightarrow> usize_ptr" where
  "addr Lf = 0"
| "addr (Nd c l a r) = a"

fun red :: "rbt \<Rightarrow> bool" where
  "red Lf = False"
| "red (Nd c l a r) = c"

fun inord :: "rbt \<Rightarrow> usize_ptr list" where
  "inord Lf = []"
| "inord (Nd c l a r) = inord l @ a # inord r"

fun fill :: "rctx \<Rightarrow> rbt \<Rightarrow> rbt" where
  "fill CTop t = t"
| "fill (CLeft c a r K) t = fill K (Nd c t a r)"
| "fill (CRight c l a K) t = fill K (Nd c l a t)"

fun cpar :: "rctx \<Rightarrow> usize_ptr" where
  "cpar CTop = 0"
| "cpar (CLeft c a r K) = a"
| "cpar (CRight c l a K) = a"

fun croot :: "usize_ptr \<Rightarrow> rctx \<Rightarrow> usize_ptr" where
  "croot p CTop = p"
| "croot p (CLeft c a r K) = croot a K"
| "croot p (CRight c l a K) = croot a K"

text \<open>What lies before and after the hole in the in-order sequence.\<close>

fun cbefore :: "rctx \<Rightarrow> usize_ptr list" where
  "cbefore CTop = []"
| "cbefore (CLeft c a r K) = cbefore K"
| "cbefore (CRight c l a K) = cbefore K @ inord l @ [a]"

fun cafter :: "rctx \<Rightarrow> usize_ptr list" where
  "cafter CTop = []"
| "cafter (CLeft c a r K) = a # inord r @ cafter K"
| "cafter (CRight c l a K) = cafter K"

lemma inord_fill: "inord (fill K t) = cbefore K @ inord t @ cafter K"
  by (induction K arbitrary: t) auto

lemma addr_fill: "addr (fill K t) = croot (addr t) K"
  by (induction K arbitrary: t) auto

section \<open>The heap holds a tree\<close>

definition aligned :: "usize_ptr \<Rightarrow> bool" where
  "aligned a \<longleftrightarrow> a AND RB_FLAGS = 0"

definition node_is :: "rb_node \<Rightarrow> usize_ptr \<Rightarrow> bool \<Rightarrow> usize_ptr \<Rightarrow> usize_ptr \<Rightarrow> bool" where
  "node_is n par c l r \<longleftrightarrow> parent_color n AND NOT RB_FLAGS = par \<and>
     (parent_color n AND RB_COLOR \<noteq> 0) = c \<and> rb_left n = l \<and> rb_right n = r"

definition node_at :: "rb_heap \<Rightarrow> usize_ptr \<Rightarrow> usize_ptr \<Rightarrow> bool \<Rightarrow> usize_ptr \<Rightarrow> usize_ptr \<Rightarrow> bool" where
  "node_at h a par c l r \<longleftrightarrow> a \<noteq> 0 \<and> aligned a \<and> (\<exists>n. h a = Some n \<and> node_is n par c l r)"

fun rtree :: "rb_heap \<Rightarrow> usize_ptr \<Rightarrow> rbt \<Rightarrow> bool" where
  "rtree h par Lf = True"
| "rtree h par (Nd c l a r) = (node_at h a par c (addr l) (addr r) \<and> rtree h a l \<and> rtree h a r)"

fun hctx :: "rb_heap \<Rightarrow> usize_ptr \<Rightarrow> rctx \<Rightarrow> bool" where
  "hctx h p CTop = True"
| "hctx h p (CLeft c a r K) = (node_at h a (cpar K) c p (addr r) \<and> rtree h a r \<and> hctx h a K)"
| "hctx h p (CRight c l a K) = (node_at h a (cpar K) c (addr l) p \<and> rtree h a l \<and> hctx h a K)"

definition wft :: "rb_heap \<Rightarrow> usize_ptr \<Rightarrow> rbt \<Rightarrow> bool" where
  "wft h root t \<longleftrightarrow> root = addr t \<and> rtree h 0 t \<and> distinct (inord t)"

lemma rtree_fill: "rtree h 0 (fill K t) \<longleftrightarrow> rtree h (cpar K) t \<and> hctx h (addr t) K"
  by (induction K arbitrary: t) auto

lemma wft_fill:
  "wft h root (fill K t) \<longleftrightarrow> root = croot (addr t) K \<and> rtree h (cpar K) t \<and> hctx h (addr t) K \<and>
     distinct (cbefore K @ inord t @ cafter K)"
  by (auto simp: wft_def addr_fill rtree_fill inord_fill)

lemma node_at_cong: "h a = h' a \<Longrightarrow> node_at h a = node_at h' a"
  by (simp add: node_at_def fun_eq_iff)

lemma rtree_cong: "(\<And>a. a \<in> set (inord t) \<Longrightarrow> h a = h' a) \<Longrightarrow> rtree h par t = rtree h' par t"
proof (induction t arbitrary: par)
  case (Nd c l a r)
  then have "node_at h a = node_at h' a" by (intro node_at_cong) simp
  with Nd show ?case by simp
qed simp

lemma hctx_cong:
  "(\<And>a. a \<in> set (cbefore K) \<union> set (cafter K) \<Longrightarrow> h a = h' a) \<Longrightarrow> hctx h p K = hctx h' p K"
proof (induction K arbitrary: p)
  case (CLeft c a r K)
  then have "node_at h a = node_at h' a" by (intro node_at_cong) simp
  moreover have "rtree h a r = rtree h' a r" using CLeft.prems by (intro rtree_cong) simp
  moreover have "hctx h a K = hctx h' a K" using CLeft.prems by (intro CLeft.IH) auto
  ultimately show ?case by simp
next
  case (CRight c l a K)
  then have "node_at h a = node_at h' a" by (intro node_at_cong) simp
  moreover have "rtree h a l = rtree h' a l" using CRight.prems by (intro rtree_cong) simp
  moreover have "hctx h a K = hctx h' a K" using CRight.prems by (intro CRight.IH) auto
  ultimately show ?case by simp
qed simp

lemma rtree_nonzero: "rtree h par t \<Longrightarrow> a \<in> set (inord t) \<Longrightarrow> a \<noteq> 0"
  by (induction t arbitrary: par) (auto simp: node_at_def)

lemma hctx_nonzero: "hctx h p K \<Longrightarrow> a \<in> set (cbefore K) \<union> set (cafter K) \<Longrightarrow> a \<noteq> 0"
proof (induction K arbitrary: p)
  case (CLeft c b r K)
  then show ?case using rtree_nonzero [of h b r a] by (auto simp: node_at_def)
next
  case (CRight c l b K)
  then show ?case using rtree_nonzero [of h b l a] by (auto simp: node_at_def)
qed simp

lemma addr_in: "t \<noteq> Lf \<Longrightarrow> addr t \<in> set (inord t)"
  by (cases t) auto

lemma rtree_addr_zero: "rtree h par t \<Longrightarrow> addr t = 0 \<longleftrightarrow> t = Lf"
  by (cases t) (auto simp: node_at_def)

section \<open>The packed word\<close>

lemma flag_bits:
  fixes w p :: usize_ptr
  assumes "p AND RB_FLAGS = 0"
  shows "((w AND RB_FLAGS) OR p) AND NOT RB_FLAGS = p"
    and "((w AND RB_FLAGS) OR p) AND RB_COLOR = w AND RB_COLOR"
proof -
  have m: "RB_FLAGS = mask 2" "RB_COLOR = mask 1" by (simp_all add: RB_FLAGS_def RB_COLOR_def mask_eq_exp_minus_1)
  have pb: "\<not> bit p n" if "n < 2" for n
  proof
    assume b: "bit p n"
    then have "n < 32" using bit_imp_le_length [of p n] by simp
    then have "bit (p AND RB_FLAGS) n" using b that by (simp add: m bit_simps)
    with assms show False by simp
  qed
  show "((w AND RB_FLAGS) OR p) AND NOT RB_FLAGS = p"
    unfolding m by (rule bit_word_eqI) (use pb in \<open>auto simp: bit_simps\<close>)
  show "((w AND RB_FLAGS) OR p) AND RB_COLOR = w AND RB_COLOR"
    unfolding m by (rule bit_word_eqI) (use pb in \<open>auto simp: bit_simps\<close>)
qed

lemma color_bits:
  fixes w :: usize_ptr
  shows "(w OR RB_COLOR) AND NOT RB_FLAGS = w AND NOT RB_FLAGS"
    and "(w OR RB_COLOR) AND RB_COLOR = RB_COLOR"
    and "(w AND NOT RB_COLOR) AND NOT RB_FLAGS = w AND NOT RB_FLAGS"
    and "(w AND NOT RB_COLOR) AND RB_COLOR = 0"
proof -
  have m: "RB_FLAGS = mask 2" "RB_COLOR = mask 1" by (simp_all add: RB_FLAGS_def RB_COLOR_def mask_eq_exp_minus_1)
  show "(w OR RB_COLOR) AND NOT RB_FLAGS = w AND NOT RB_FLAGS" "(w OR RB_COLOR) AND RB_COLOR = RB_COLOR"
    "(w AND NOT RB_COLOR) AND NOT RB_FLAGS = w AND NOT RB_FLAGS" "(w AND NOT RB_COLOR) AND RB_COLOR = 0"
    unfolding m by (rule bit_word_eqI; auto simp: bit_simps)+
qed

lemma aligned_0 [simp]: "aligned 0"
  by (simp add: aligned_def)

lemma aligned_parent: "aligned (w AND NOT RB_FLAGS)"
  unfolding aligned_def by (rule bit_word_eqI) (auto simp: bit_simps)

lemma node_is_updates:
  assumes "node_is n par c l r"
  shows "aligned p \<Longrightarrow> node_is (n\<lparr>parent_color := (parent_color n AND RB_FLAGS) OR p\<rparr>) p c l r"
    and "node_is (n\<lparr>parent_color := parent_color n OR RB_COLOR\<rparr>) par True l r"
    and "node_is (n\<lparr>parent_color := parent_color n AND NOT RB_COLOR\<rparr>) par False l r"
    and "node_is (n\<lparr>rb_left := x\<rparr>) par c x r" and "node_is (n\<lparr>rb_right := x\<rparr>) par c l x"
  using assms flag_bits [of p "parent_color n"] color_bits [of "parent_color n"]
  by (auto simp: node_is_def aligned_def RB_COLOR_def)

section \<open>Reading at a focus\<close>

lemma focus_reads:
  assumes "wft h root (fill K (Nd c l a r))"
  shows "get_parent h a = Some (cpar K)" "get_left h a = Some (addr l)" "get_right h a = Some (addr r)"
    "is_red h a = Some c" "is_black h a = Some (\<not> c)" "a \<noteq> 0" "aligned a"
  using assms
  by (auto simp: wft_fill node_at_def node_is_def get_parent_def get_left_def get_right_def is_red_def is_black_def)

lemma focus_color:
  assumes "wft h root (fill K t)"
  shows "is_red h (addr t) = Some (red t)" "is_black h (addr t) = Some (\<not> red t)" "addr t = 0 \<longleftrightarrow> t = Lf"
  using assms focus_reads [of h root K]
  by (cases t; force simp: is_red_def is_black_def)+

section \<open>Writing at a focus\<close>

text \<open>\<open>same_outside T h h'\<close>: only nodes of the tree \<open>T\<close> changed.\<close>

definition same_outside :: "usize_ptr list \<Rightarrow> rb_heap \<Rightarrow> rb_heap \<Rightarrow> bool" where
  "same_outside xs h h' \<longleftrightarrow> (\<forall>a. a \<notin> set xs \<longrightarrow> h' a = h a)"

lemma same_outside_refl [simp]: "same_outside xs h h"
  by (simp add: same_outside_def)

lemma same_outside_trans: "same_outside xs h h' \<Longrightarrow> same_outside xs h' h'' \<Longrightarrow> same_outside xs h h''"
  by (simp add: same_outside_def)

lemma same_outside_upd: "a \<in> set xs \<Longrightarrow> same_outside xs h (h(a := v))"
  by (auto simp: same_outside_def)

lemma set_color_focus:
  assumes "wft h root (fill K (Nd c l a r))"
  shows "\<exists>h'. set_red a h = Some h' \<and> wft h' root (fill K (Nd True l a r)) \<and>
      same_outside (inord (fill K (Nd c l a r))) h h'"
    and "\<exists>h'. set_black a h = Some h' \<and> wft h' root (fill K (Nd False l a r)) \<and>
      same_outside (inord (fill K (Nd c l a r))) h h'"
proof -
  obtain n where n: "h a = Some n" "node_is n (cpar K) c (addr l) (addr r)" "a \<noteq> 0" "aligned a"
    using assms by (auto simp: wft_fill node_at_def)
  have a: "a \<notin> set (inord l)" "a \<notin> set (inord r)" "a \<notin> set (cbefore K)" "a \<notin> set (cafter K)"
    using assms by (auto simp: wft_fill)
  have keep: "rtree (h(a := v)) p l = rtree h p l" "rtree (h(a := v)) p r = rtree h p r"
    "hctx (h(a := v)) p K = hctx h p K" for v p
    using a by (auto intro!: rtree_cong hctx_cong)
  have upd: "wft (h(a \<mapsto> n')) root (fill K (Nd c' l a r)) \<and> same_outside (inord (fill K (Nd c l a r))) h (h(a \<mapsto> n'))"
    if "node_is n' (cpar K) c' (addr l) (addr r)" for n' c'
    using assms that n(3,4) by (auto simp: wft_fill keep node_at_def inord_fill intro!: same_outside_upd)
  show "\<exists>h'. set_red a h = Some h' \<and> wft h' root (fill K (Nd True l a r)) \<and>
      same_outside (inord (fill K (Nd c l a r))) h h'"
    using upd [OF node_is_updates(2) [OF n(2)]] n(1) by (auto simp: set_red_def)
  show "\<exists>h'. set_black a h = Some h' \<and> wft h' root (fill K (Nd False l a r)) \<and>
      same_outside (inord (fill K (Nd c l a r))) h h'"
    using upd [OF node_is_updates(3) [OF n(2)]] n(1) by (auto simp: set_black_def)
qed

text \<open>The two conditional writes of a rotation: a subtree gets a new parent, and the link to
  a subtree is redirected.\<close>

lemma reparent:
  assumes "rtree h par t" "distinct (inord t)" "aligned q"
  shows "\<exists>h'. (if addr t \<noteq> NULL then set_parent (addr t) q h else Some h) = Some h' \<and> rtree h' q t \<and>
    same_outside (inord t) h h'"
proof (cases t)
  case (Nd c l a r)
  obtain n where n: "h a = Some n" "node_is n par c (addr l) (addr r)" "a \<noteq> 0" "aligned a"
    using assms(1) Nd by (auto simp: node_at_def)
  have keep: "rtree (h(a := v)) p l = rtree h p l" "rtree (h(a := v)) p r = rtree h p r" for v p
    using assms(2) Nd by (auto intro!: rtree_cong)
  show ?thesis
    using Nd n assms(1) node_is_updates(1) [OF n(2) assms(3)]
    by (auto simp: set_parent_def keep node_at_def intro!: same_outside_upd)
qed simp

definition relink :: "usize_ptr \<Rightarrow> usize_ptr \<Rightarrow> usize_ptr \<Rightarrow> usize_ptr \<times> rb_heap \<Rightarrow> (usize_ptr \<times> rb_heap) option" where
  "relink gparent parent new = (\<lambda>(root, h).
     if gparent = NULL then Some (new, h)
     else do {
       gl \<leftarrow> get_left h gparent;
       gr \<leftarrow> get_right h gparent;
       h \<leftarrow> (if gl = parent then set_left gparent new h
             else if gr = parent then set_right gparent new h
             else Some h);
       Some (root, h) })"

lemma relink_focus:
  assumes ctx: "hctx h p K" and d: "distinct (cbefore K @ cafter K)" "p \<noteq> 0" "p \<notin> set (cbefore K) \<union> set (cafter K)"
  shows "\<exists>h'. relink (cpar K) p q (croot p K, h) = Some (croot q K, h') \<and> hctx h' q K \<and>
    same_outside (cbefore K @ cafter K) h h'"
proof (cases K)
  case CTop
  then show ?thesis by (simp add: relink_def)
next
  case (CLeft c a r K2)
  obtain n where n: "h a = Some n" "node_is n (cpar K2) c p (addr r)" "a \<noteq> 0" "aligned a"
    using ctx CLeft by (auto simp: node_at_def)
  have keep: "rtree (h(a := v)) x r = rtree h x r" "hctx (h(a := v)) x K2 = hctx h x K2" for v x
    using d CLeft by (auto intro!: rtree_cong hctx_cong)
  have "relink (cpar K) p q (croot p K, h) = Some (croot q K, h(a \<mapsto> n\<lparr>rb_left := q\<rparr>))"
    using n CLeft by (simp add: relink_def get_left_def get_right_def set_left_def node_is_def)
  moreover have "hctx (h(a \<mapsto> n\<lparr>rb_left := q\<rparr>)) q K"
    using ctx CLeft n node_is_updates(4) [OF n(2)] by (simp add: keep node_at_def)
  ultimately show ?thesis using CLeft by (auto intro!: same_outside_upd)
next
  case (CRight c l a K2)
  obtain n where n: "h a = Some n" "node_is n (cpar K2) c (addr l) p" "a \<noteq> 0" "aligned a"
    using ctx CRight by (auto simp: node_at_def)
  have keep: "rtree (h(a := v)) x l = rtree h x l" "hctx (h(a := v)) x K2 = hctx h x K2" for v x
    using d CRight by (auto intro!: rtree_cong hctx_cong)
  have "addr l \<noteq> p"
    using d(2,3) CRight by (cases l) auto
  then have "relink (cpar K) p q (croot p K, h) = Some (croot q K, h(a \<mapsto> n\<lparr>rb_right := q\<rparr>))"
    using n CRight by (simp add: relink_def get_left_def get_right_def set_right_def node_is_def)
  moreover have "hctx (h(a \<mapsto> n\<lparr>rb_right := q\<rparr>)) q K"
    using ctx CRight n node_is_updates(5) [OF n(2)] by (simp add: keep node_at_def)
  ultimately show ?thesis using CRight by (auto intro!: same_outside_upd)
qed

lemma rb_rotate_left_eq:
  "rb_rotate_left parent (root, h) = do {
     right \<leftarrow> get_right h parent;
     pivot \<leftarrow> get_left h right;
     h \<leftarrow> set_right parent pivot h;
     h \<leftarrow> (if pivot \<noteq> NULL then set_parent pivot parent h else Some h);
     gparent \<leftarrow> get_parent h parent;
     h \<leftarrow> set_parent right gparent h;
     (root, h) \<leftarrow> relink gparent parent right (root, h);
     h \<leftarrow> set_left right parent h;
     h \<leftarrow> set_parent parent right h;
     Some (root, h) }"
  by (simp add: rb_rotate_left_def relink_def)

lemma rb_rotate_right_eq:
  "rb_rotate_right parent (root, h) = do {
     left \<leftarrow> get_left h parent;
     pivot \<leftarrow> get_right h left;
     h \<leftarrow> set_left parent pivot h;
     h \<leftarrow> (if pivot \<noteq> NULL then set_parent pivot parent h else Some h);
     gparent \<leftarrow> get_parent h parent;
     h \<leftarrow> set_parent left gparent h;
     (root, h) \<leftarrow> relink gparent parent left (root, h);
     h \<leftarrow> set_right left parent h;
     h \<leftarrow> set_parent parent left h;
     Some (root, h) }"
  by (simp add: rb_rotate_right_def relink_def)

section \<open>Rotations\<close>

lemma rotate_left_focus:
  assumes wf: "wft h root (fill K (Nd c1 A x (Nd c2 B y C)))"
  shows "\<exists>root' h'. rb_rotate_left x (root, h) = Some (root', h') \<and>
    wft h' root' (fill K (Nd c2 (Nd c1 A x B) y C)) \<and>
    same_outside (inord (fill K (Nd c1 A x (Nd c2 B y C)))) h h'"
proof -
  note w = wf [unfolded wft_fill]
  obtain nx ny where nx: "h x = Some nx" "node_is nx (cpar K) c1 (addr A) y" "x \<noteq> 0" "aligned x"
    and ny: "h y = Some ny" "node_is ny x c2 (addr B) (addr C)" "y \<noteq> 0" "aligned y"
    using w by (auto simp: node_at_def)
  have d: "distinct (cbefore K @ (inord A @ x # inord B @ y # inord C) @ cafter K)" using w by simp
  have dK: "distinct (cbefore K @ cafter K)" "x \<notin> set (cbefore K) \<union> set (cafter K)" using d by auto
  have apar: "aligned (cpar K)" using nx(2) by (metis aligned_parent node_is_def)
  define h1 where "h1 = h(x \<mapsto> nx\<lparr>rb_right := addr B\<rparr>)"
  have "rtree h1 y B" using w d by (subst rtree_cong [of B h1 h]) (auto simp: h1_def)
  then obtain h2 where h2: "(if addr B \<noteq> NULL then set_parent (addr B) x h1 else Some h1) = Some h2"
    "rtree h2 x B" "same_outside (inord B) h1 h2" using reparent [of h1 y B x] d nx(4) by auto
  have h2x: "h2 x = Some (nx\<lparr>rb_right := addr B\<rparr>)" and h2y: "h2 y = Some ny"
    using h2(3) d ny(1) by (auto simp: same_outside_def h1_def)
  define h3 where "h3 = h2(y \<mapsto> ny\<lparr>parent_color := (parent_color ny AND RB_FLAGS) OR cpar K\<rparr>)"
  have "hctx h3 x K"
  proof (subst hctx_cong [of K h3 h])
    fix a assume "a \<in> set (cbefore K) \<union> set (cafter K)"
    then have "a \<notin> set (inord B)" "a \<noteq> x" "a \<noteq> y" using d by auto
    then show "h3 a = h a" using h2(3) by (simp add: h3_def h1_def same_outside_def)
  qed (use w in simp)
  then obtain h4 where h4: "relink (cpar K) x y (croot x K, h3) = Some (croot y K, h4)" "hctx h4 y K"
    "same_outside (cbefore K @ cafter K) h3 h4"
    using relink_focus [OF _ dK(1) nx(3) dK(2)] by blast
  define h5 where "h5 = h4(y \<mapsto> ny\<lparr>parent_color := (parent_color ny AND RB_FLAGS) OR cpar K, rb_left := x\<rparr>)"
  define h6 where "h6 = h5(x \<mapsto> nx\<lparr>rb_right := addr B, parent_color := (parent_color nx AND RB_FLAGS) OR y\<rparr>)"
  have h4x: "h4 x = Some (nx\<lparr>rb_right := addr B\<rparr>)"
    and h4y: "h4 y = Some (ny\<lparr>parent_color := (parent_color ny AND RB_FLAGS) OR cpar K\<rparr>)"
    using h4(3) d h2x by (auto simp: same_outside_def h3_def)
  have xy: "x \<noteq> y" using d by auto
  have "get_right h x = Some y" "get_left h y = Some (addr B)" "set_right x (addr B) h = Some h1"
    "get_parent h2 x = Some (cpar K)" "set_parent y (cpar K) h2 = Some h3" "set_left y x h4 = Some h5"
    "set_parent x y h5 = Some h6"
    using nx ny h2x h2y h4x h4y xy
    by (simp_all add: get_right_def get_left_def get_parent_def set_right_def set_left_def set_parent_def
        node_is_def h1_def h3_def h5_def h6_def)
  then have run: "rb_rotate_left x (root, h) = Some (croot y K, h6)"
    using w h2(1) h4(1) by (simp add: rb_rotate_left_eq)
  have out: "h6 a = h a" if "a \<in> set (inord A) \<union> set (inord C)" for a
  proof -
    have "a \<notin> set (inord B)" "a \<notin> set (cbefore K)" "a \<notin> set (cafter K)" "a \<noteq> x" "a \<noteq> y"
      using that d by auto
    then show ?thesis using h2(3) h4(3) by (simp add: h6_def h5_def h3_def h1_def same_outside_def)
  qed
  have "rtree h6 x A" "rtree h6 y C" using w out by (auto simp: rtree_cong [of A h6 h] rtree_cong [of C h6 h])
  moreover have "rtree h6 x B"
  proof (subst rtree_cong [of B h6 h2])
    fix a assume "a \<in> set (inord B)"
    then have "a \<notin> set (cbefore K)" "a \<notin> set (cafter K)" "a \<noteq> x" "a \<noteq> y" using d by auto
    then show "h6 a = h2 a" using h4(3) by (simp add: h6_def h5_def h3_def same_outside_def)
  qed (rule h2(2))
  moreover have "hctx h6 y K"
    using h4(2) d by (subst hctx_cong [of K h6 h4]) (auto simp: h6_def h5_def)
  moreover have "node_at h6 y (cpar K) c2 x (addr C)"
    using node_is_updates(4) [OF node_is_updates(1) [OF ny(2) apar], of x] ny(3,4) d
    by (auto simp: node_at_def h6_def h5_def)
  moreover have "node_at h6 x y c1 (addr A) (addr B)"
    using node_is_updates(1) [OF node_is_updates(5) [OF nx(2)] ny(4), of "addr B"] nx(3,4)
    by (auto simp: node_at_def h6_def)
  moreover have "same_outside (inord (fill K (Nd c1 A x (Nd c2 B y C)))) h h6"
    using h2(3) h4(3) by (auto simp: same_outside_def h6_def h5_def h3_def h1_def inord_fill)
  ultimately show ?thesis using run d by (auto simp: wft_fill)
qed

lemma rotate_right_focus:
  assumes wf: "wft h root (fill K (Nd c1 (Nd c2 C y B) x A))"
  shows "\<exists>root' h'. rb_rotate_right x (root, h) = Some (root', h') \<and>
    wft h' root' (fill K (Nd c2 C y (Nd c1 B x A))) \<and>
    same_outside (inord (fill K (Nd c1 (Nd c2 C y B) x A))) h h'"
proof -
  note w = wf [unfolded wft_fill]
  obtain nx ny where nx: "h x = Some nx" "node_is nx (cpar K) c1 y (addr A)" "x \<noteq> 0" "aligned x"
    and ny: "h y = Some ny" "node_is ny x c2 (addr C) (addr B)" "y \<noteq> 0" "aligned y"
    using w by (auto simp: node_at_def)
  have d: "distinct (cbefore K @ (inord C @ y # inord B @ x # inord A) @ cafter K)" using w by simp
  have dK: "distinct (cbefore K @ cafter K)" "x \<notin> set (cbefore K) \<union> set (cafter K)" using d by auto
  have apar: "aligned (cpar K)" using nx(2) by (metis aligned_parent node_is_def)
  define h1 where "h1 = h(x \<mapsto> nx\<lparr>rb_left := addr B\<rparr>)"
  have "rtree h1 y B" using w d by (subst rtree_cong [of B h1 h]) (auto simp: h1_def)
  then obtain h2 where h2: "(if addr B \<noteq> NULL then set_parent (addr B) x h1 else Some h1) = Some h2"
    "rtree h2 x B" "same_outside (inord B) h1 h2" using reparent [of h1 y B x] d nx(4) by auto
  have h2x: "h2 x = Some (nx\<lparr>rb_left := addr B\<rparr>)" and h2y: "h2 y = Some ny"
    using h2(3) d ny(1) by (auto simp: same_outside_def h1_def)
  define h3 where "h3 = h2(y \<mapsto> ny\<lparr>parent_color := (parent_color ny AND RB_FLAGS) OR cpar K\<rparr>)"
  have "hctx h3 x K"
  proof (subst hctx_cong [of K h3 h])
    fix a assume "a \<in> set (cbefore K) \<union> set (cafter K)"
    then have "a \<notin> set (inord B)" "a \<noteq> x" "a \<noteq> y" using d by auto
    then show "h3 a = h a" using h2(3) by (simp add: h3_def h1_def same_outside_def)
  qed (use w in simp)
  then obtain h4 where h4: "relink (cpar K) x y (croot x K, h3) = Some (croot y K, h4)" "hctx h4 y K"
    "same_outside (cbefore K @ cafter K) h3 h4"
    using relink_focus [OF _ dK(1) nx(3) dK(2)] by blast
  define h5 where "h5 = h4(y \<mapsto> ny\<lparr>parent_color := (parent_color ny AND RB_FLAGS) OR cpar K, rb_right := x\<rparr>)"
  define h6 where "h6 = h5(x \<mapsto> nx\<lparr>rb_left := addr B, parent_color := (parent_color nx AND RB_FLAGS) OR y\<rparr>)"
  have h4x: "h4 x = Some (nx\<lparr>rb_left := addr B\<rparr>)"
    and h4y: "h4 y = Some (ny\<lparr>parent_color := (parent_color ny AND RB_FLAGS) OR cpar K\<rparr>)"
    using h4(3) d h2x by (auto simp: same_outside_def h3_def)
  have xy: "x \<noteq> y" using d by auto
  have "get_left h x = Some y" "get_right h y = Some (addr B)" "set_left x (addr B) h = Some h1"
    "get_parent h2 x = Some (cpar K)" "set_parent y (cpar K) h2 = Some h3" "set_right y x h4 = Some h5"
    "set_parent x y h5 = Some h6"
    using nx ny h2x h2y h4x h4y xy
    by (simp_all add: get_right_def get_left_def get_parent_def set_right_def set_left_def set_parent_def
        node_is_def h1_def h3_def h5_def h6_def)
  then have run: "rb_rotate_right x (root, h) = Some (croot y K, h6)"
    using w h2(1) h4(1) by (simp add: rb_rotate_right_eq)
  have out: "h6 a = h a" if "a \<in> set (inord A) \<union> set (inord C)" for a
  proof -
    have "a \<notin> set (inord B)" "a \<notin> set (cbefore K)" "a \<notin> set (cafter K)" "a \<noteq> x" "a \<noteq> y"
      using that d by auto
    then show ?thesis using h2(3) h4(3) by (simp add: h6_def h5_def h3_def h1_def same_outside_def)
  qed
  have "rtree h6 x A" "rtree h6 y C" using w out by (auto simp: rtree_cong [of A h6 h] rtree_cong [of C h6 h])
  moreover have "rtree h6 x B"
  proof (subst rtree_cong [of B h6 h2])
    fix a assume "a \<in> set (inord B)"
    then have "a \<notin> set (cbefore K)" "a \<notin> set (cafter K)" "a \<noteq> x" "a \<noteq> y" using d by auto
    then show "h6 a = h2 a" using h4(3) by (simp add: h6_def h5_def h3_def same_outside_def)
  qed (rule h2(2))
  moreover have "hctx h6 y K"
    using h4(2) d by (subst hctx_cong [of K h6 h4]) (auto simp: h6_def h5_def)
  moreover have "node_at h6 y (cpar K) c2 (addr C) x"
    using node_is_updates(5) [OF node_is_updates(1) [OF ny(2) apar], of x] ny(3,4) d
    by (auto simp: node_at_def h6_def h5_def)
  moreover have "node_at h6 x y c1 (addr B) (addr A)"
    using node_is_updates(1) [OF node_is_updates(4) [OF nx(2)] ny(4), of "addr B"] nx(3,4)
    by (auto simp: node_at_def h6_def)
  moreover have "same_outside (inord (fill K (Nd c1 (Nd c2 C y B) x A))) h h6"
    using h2(3) h4(3) by (auto simp: same_outside_def h6_def h5_def h3_def h1_def inord_fill)
  ultimately show ?thesis using run d by (auto simp: wft_fill)
qed

end
