(* ===== verification/Rb_Tree_Insert.thy ===== *)
theory Rb_Tree_Insert
  imports Rb_Tree_Shape
begin

text \<open>
  Insertion into the red-black tree: the invariants of red-black trees on abstract trees
  and on contexts, the rebalancing of \<^verbatim>\<open>rb_insert_fixup\<close>, the descent of
  \<^verbatim>\<open>rb_find_node_link\<close>, and the result for \<^verbatim>\<open>rb_insert\<close>.
\<close>

section \<open>Invariants\<close>

fun invc :: "rbt \<Rightarrow> bool" where
  "invc Lf = True"
| "invc (Nd c l a r) = ((c \<longrightarrow> \<not> red l \<and> \<not> red r) \<and> invc l \<and> invc r)"

fun bh :: "rbt \<Rightarrow> nat \<Rightarrow> bool" where
  "bh Lf n = (n = 0)"
| "bh (Nd c l a r) n = (if c then bh l n \<and> bh r n else (\<exists>m. n = Suc m \<and> bh l m \<and> bh r m))"

definition rb_inv :: "rbt \<Rightarrow> bool" where
  "rb_inv t \<longleftrightarrow> invc t \<and> (\<exists>n. bh t n) \<and> \<not> red t"

fun cred :: "rctx \<Rightarrow> bool" where
  "cred CTop = False"
| "cred (CLeft c a r K) = c"
| "cred (CRight c l a K) = c"

fun cinvc :: "rctx \<Rightarrow> bool" where
  "cinvc CTop = True"
| "cinvc (CLeft c a r K) = ((c \<longrightarrow> \<not> red r \<and> K \<noteq> CTop \<and> \<not> cred K) \<and> invc r \<and> cinvc K)"
| "cinvc (CRight c l a K) = ((c \<longrightarrow> \<not> red l \<and> K \<noteq> CTop \<and> \<not> cred K) \<and> invc l \<and> cinvc K)"

fun cbh :: "rctx \<Rightarrow> nat \<Rightarrow> bool" where
  "cbh CTop n = True"
| "cbh (CLeft c a r K) n = (bh r n \<and> cbh K (if c then n else Suc n))"
| "cbh (CRight c l a K) n = (bh l n \<and> cbh K (if c then n else Suc n))"

lemma fill_bh: "cbh K n \<Longrightarrow> bh t n \<Longrightarrow> \<exists>m. bh (fill K t) m"
proof (induction K arbitrary: t n)
  case (CLeft c a r K)
  show ?case using CLeft.IH [of "if c then n else Suc n" "Nd c t a r"] CLeft.prems by (cases c) simp_all
next
  case (CRight c l a K)
  show ?case using CRight.IH [of "if c then n else Suc n" "Nd c l a t"] CRight.prems by (cases c) simp_all
qed auto

lemma fill_invc: "cinvc K \<Longrightarrow> invc t \<Longrightarrow> (cred K \<longrightarrow> \<not> red t) \<Longrightarrow> invc (fill K t)"
proof (induction K arbitrary: t)
  case (CLeft c a r K)
  show ?case using CLeft.prems CLeft.IH [of "Nd c t a r"] by auto
next
  case (CRight c l a K)
  show ?case using CRight.prems CRight.IH [of "Nd c l a t"] by auto
qed simp

lemma fill_black: "cinvc K \<Longrightarrow> K \<noteq> CTop \<Longrightarrow> \<not> red (fill K t)"
proof (induction K arbitrary: t)
  case (CLeft c a r K)
  then show ?case by (cases "K = CTop") auto
next
  case (CRight c l a K)
  then show ?case by (cases "K = CTop") auto
qed simp

lemma bh_fill_split: "bh (fill K t) m \<Longrightarrow> \<exists>n. bh t n \<and> cbh K n"
proof (induction K arbitrary: t)
  case (CLeft c a r K)
  then obtain n where "bh (Nd c t a r) n" "cbh K n" by fastforce
  then show ?case by (auto split: if_splits)
next
  case (CRight c l a K)
  then obtain n where "bh (Nd c l a t) n" "cbh K n" by fastforce
  then show ?case by (auto split: if_splits)
qed auto

lemma invc_fill_split:
  "invc (fill K t) \<Longrightarrow> \<not> red (fill K t) \<Longrightarrow> cinvc K \<and> invc t \<and> (cred K \<longrightarrow> \<not> red t)"
proof (induction K arbitrary: t)
  case (CLeft c a r K)
  then have "cinvc K \<and> invc (Nd c t a r) \<and> (cred K \<longrightarrow> \<not> c)" by fastforce
  with CLeft.prems show ?case by (cases K) auto
next
  case (CRight c l a K)
  then have "cinvc K \<and> invc (Nd c l a t) \<and> (cred K \<longrightarrow> \<not> c)" by fastforce
  with CRight.prems show ?case by (cases K) auto
qed auto

lemma rb_inv_fill:
  "cinvc K \<Longrightarrow> cbh K n \<Longrightarrow> invc t \<Longrightarrow> bh t n \<Longrightarrow> \<not> red t \<Longrightarrow> rb_inv (fill K t)"
  unfolding rb_inv_def using fill_bh [of K n t] fill_invc [of K t] fill_black [of K t]
  by (cases "K = CTop") auto

section \<open>Rebalancing\<close>

lemma set_black_root:
  assumes "wft h root t" "t \<noteq> Lf" "\<not> red t"
  shows "\<exists>h'. set_black root h = Some h' \<and> wft h' root t \<and> same_outside (inord t) h h'"
proof -
  obtain l a r where "t = Nd False l a r" using assms(2,3) by (cases t) auto
  then show ?thesis using set_color_focus(2) [of h root CTop False l a r] assms(1) by (simp add: wft_def)
qed

lemma sibling_focus:
  assumes "wft h root (fill K (Nd c l a r))"
  shows "K = CLeft c2 g s K2 \<Longrightarrow> get_sibling h a = Some (addr s)"
    and "K = CRight c2 s g K2 \<Longrightarrow> get_sibling h a = Some (addr s)"
proof -
  show "get_sibling h a = Some (addr s)" if K: "K = CLeft c2 g s K2"
    using focus_reads [OF assms] focus_reads [of h root K2 c2 "Nd c l a r" g s] assms K
    by (simp add: get_sibling_def)
  show "get_sibling h a = Some (addr s)" if K: "K = CRight c2 s g K2"
  proof -
    have "addr s \<noteq> a"
      using assms K focus_reads(6) [OF assms] by (cases s) (auto simp: wft_fill)
    then show ?thesis
      using focus_reads [OF assms] focus_reads [of h root K2 c2 s g "Nd c l a r"] assms K
      by (simp add: get_sibling_def)
  qed
qed

text \<open>One call of the rotation case, for the two positions of the parent.\<close>

lemma insert_rotation_left:
  assumes wf: "wft h root (fill K (Nd False (Nd True A p B) g S))"
  shows "\<exists>s'. rb_handle_insert_fixup_rotation g p True True (root, h) = Some s' \<and>
      wft (snd s') (fst s') (fill K (Nd False A p (Nd True B g S))) \<and>
      same_outside (inord (fill K (Nd False (Nd True A p B) g S))) h (snd s')"
    and "B = Nd True L x R \<Longrightarrow>
      \<exists>s'. rb_handle_insert_fixup_rotation g p True False (root, h) = Some s' \<and>
      wft (snd s') (fst s') (fill K (Nd False (Nd True A p L) x (Nd True R g S))) \<and>
      same_outside (inord (fill K (Nd False (Nd True A p B) g S))) h (snd s')"
proof -
  let ?T = "inord (fill K (Nd False (Nd True A p B) g S))"
  have finish: "\<exists>s'. do { new_top \<leftarrow> get_parent h1 g; h \<leftarrow> set_black new_top h1; h \<leftarrow> set_red g h; Some (root1, h) } = Some s' \<and>
      wft (snd s') (fst s') (fill K (Nd False X t (Nd True Y g Z))) \<and>
      same_outside (inord (fill K (Nd True X t (Nd False Y g Z)))) h1 (snd s')"
    if w: "wft h1 root1 (fill K (Nd True X t (Nd False Y g Z)))" for h1 root1 X t Y Z
  proof -
    have w2: "wft h1 root1 (fill (CRight True X t K) (Nd False Y g Z))" using w by simp
    have par: "get_parent h1 g = Some t" using focus_reads(1) [OF w2] by simp
    obtain h2 where h2: "set_black t h1 = Some h2" "wft h2 root1 (fill K (Nd False X t (Nd False Y g Z)))"
      "same_outside (inord (fill K (Nd True X t (Nd False Y g Z)))) h1 h2"
      using set_color_focus(2) [OF w] by blast
    have w3: "wft h2 root1 (fill (CRight False X t K) (Nd False Y g Z))" using h2(2) by simp
    obtain h3 where h3: "set_red g h2 = Some h3" "wft h3 root1 (fill (CRight False X t K) (Nd True Y g Z))"
      "same_outside (inord (fill (CRight False X t K) (Nd False Y g Z))) h2 h3"
      using set_color_focus(1) [OF w3] by blast
    show ?thesis using par h2 h3 by (auto simp: inord_fill same_outside_def)
  qed
  show "\<exists>s'. rb_handle_insert_fixup_rotation g p True True (root, h) = Some s' \<and>
      wft (snd s') (fst s') (fill K (Nd False A p (Nd True B g S))) \<and> same_outside ?T h (snd s')"
  proof -
    obtain root1 h1 where r: "rb_rotate_right g (root, h) = Some (root1, h1)"
      "wft h1 root1 (fill K (Nd True A p (Nd False B g S)))" "same_outside ?T h h1"
      using rotate_right_focus [OF wf] by blast
    show ?thesis using finish [OF r(2)] r(1,3)
      by (auto simp: rb_handle_insert_fixup_rotation_def inord_fill same_outside_def)
  qed
  show "\<exists>s'. rb_handle_insert_fixup_rotation g p True False (root, h) = Some s' \<and>
      wft (snd s') (fst s') (fill K (Nd False (Nd True A p L) x (Nd True R g S))) \<and> same_outside ?T h (snd s')"
    if B: "B = Nd True L x R"
  proof -
    have "wft h root (fill (CLeft False g S K) (Nd True A p (Nd True L x R)))" using wf B by simp
    from rotate_left_focus [OF this] obtain root1 h1 where r: "rb_rotate_left p (root, h) = Some (root1, h1)"
      "wft h1 root1 (fill K (Nd False (Nd True (Nd True A p L) x R) g S))" "same_outside ?T h h1"
      using B by auto
    obtain root2 h2 where r2: "rb_rotate_right g (root1, h1) = Some (root2, h2)"
      "wft h2 root2 (fill K (Nd True (Nd True A p L) x (Nd False R g S)))"
      "same_outside (inord (fill K (Nd False (Nd True (Nd True A p L) x R) g S))) h1 h2"
      using rotate_right_focus [OF r(2)] by blast
    show ?thesis using finish [OF r2(2)] r(1,3) r2(1,3) B
      by (auto simp: rb_handle_insert_fixup_rotation_def inord_fill same_outside_def)
  qed
qed

lemma insert_rotation_right:
  assumes wf: "wft h root (fill K (Nd False S g (Nd True B p A)))"
  shows "\<exists>s'. rb_handle_insert_fixup_rotation g p False False (root, h) = Some s' \<and>
      wft (snd s') (fst s') (fill K (Nd False (Nd True S g B) p A)) \<and>
      same_outside (inord (fill K (Nd False S g (Nd True B p A)))) h (snd s')"
    and "B = Nd True R x L \<Longrightarrow>
      \<exists>s'. rb_handle_insert_fixup_rotation g p False True (root, h) = Some s' \<and>
      wft (snd s') (fst s') (fill K (Nd False (Nd True S g R) x (Nd True L p A))) \<and>
      same_outside (inord (fill K (Nd False S g (Nd True B p A)))) h (snd s')"
proof -
  let ?T = "inord (fill K (Nd False S g (Nd True B p A)))"
  have finish: "\<exists>s'. do { new_top \<leftarrow> get_parent h1 g; h \<leftarrow> set_black new_top h1; h \<leftarrow> set_red g h; Some (root1, h) } = Some s' \<and>
      wft (snd s') (fst s') (fill K (Nd False (Nd True Z g Y) t X)) \<and>
      same_outside (inord (fill K (Nd True (Nd False Z g Y) t X))) h1 (snd s')"
    if w: "wft h1 root1 (fill K (Nd True (Nd False Z g Y) t X))" for h1 root1 X t Y Z
  proof -
    have w2: "wft h1 root1 (fill (CLeft True t X K) (Nd False Z g Y))" using w by simp
    have par: "get_parent h1 g = Some t" using focus_reads(1) [OF w2] by simp
    obtain h2 where h2: "set_black t h1 = Some h2" "wft h2 root1 (fill K (Nd False (Nd False Z g Y) t X))"
      "same_outside (inord (fill K (Nd True (Nd False Z g Y) t X))) h1 h2"
      using set_color_focus(2) [OF w] by blast
    have w3: "wft h2 root1 (fill (CLeft False t X K) (Nd False Z g Y))" using h2(2) by simp
    obtain h3 where h3: "set_red g h2 = Some h3" "wft h3 root1 (fill (CLeft False t X K) (Nd True Z g Y))"
      "same_outside (inord (fill (CLeft False t X K) (Nd False Z g Y))) h2 h3"
      using set_color_focus(1) [OF w3] by blast
    show ?thesis using par h2 h3 by (auto simp: inord_fill same_outside_def)
  qed
  show "\<exists>s'. rb_handle_insert_fixup_rotation g p False False (root, h) = Some s' \<and>
      wft (snd s') (fst s') (fill K (Nd False (Nd True S g B) p A)) \<and> same_outside ?T h (snd s')"
  proof -
    obtain root1 h1 where r: "rb_rotate_left g (root, h) = Some (root1, h1)"
      "wft h1 root1 (fill K (Nd True (Nd False S g B) p A))" "same_outside ?T h h1"
      using rotate_left_focus [OF wf] by blast
    show ?thesis using finish [OF r(2)] r(1,3)
      by (auto simp: rb_handle_insert_fixup_rotation_def inord_fill same_outside_def)
  qed
  show "\<exists>s'. rb_handle_insert_fixup_rotation g p False True (root, h) = Some s' \<and>
      wft (snd s') (fst s') (fill K (Nd False (Nd True S g R) x (Nd True L p A))) \<and> same_outside ?T h (snd s')"
    if B: "B = Nd True R x L"
  proof -
    have "wft h root (fill (CRight False S g K) (Nd True (Nd True R x L) p A))" using wf B by simp
    from rotate_right_focus [OF this] obtain root1 h1 where r: "rb_rotate_right p (root, h) = Some (root1, h1)"
      "wft h1 root1 (fill K (Nd False S g (Nd True R x (Nd True L p A))))" "same_outside ?T h h1"
      using B by auto
    obtain root2 h2 where r2: "rb_rotate_left g (root1, h1) = Some (root2, h2)"
      "wft h2 root2 (fill K (Nd True (Nd False S g R) x (Nd True L p A)))"
      "same_outside (inord (fill K (Nd False S g (Nd True R x (Nd True L p A))))) h1 h2"
      using rotate_left_focus [OF r(2)] by blast
    show ?thesis using finish [OF r2(2)] r(1,3) r2(1,3) B
      by (auto simp: rb_handle_insert_fixup_rotation_def inord_fill same_outside_def)
  qed
qed

text \<open>The recolouring case: the red uncle \<open>S\<close> and the red parent become black, the grandparent
  red, and the recursion continues at the grandparent.\<close>

lemma insert_recolor:
  assumes wf: "wft h root (fill K T)"
    and T: "T = Nd False (Nd True A p B) g (Nd True SL s SR) \<and> T' = Nd True (Nd False A p B) g (Nd False SL s SR) \<or>
            T = Nd False (Nd True SL s SR) g (Nd True A p B) \<and> T' = Nd True (Nd False SL s SR) g (Nd False A p B)"
  shows "\<exists>h'. do { h \<leftarrow> set_black s h; h \<leftarrow> set_black p h; set_red g h } = Some h' \<and> wft h' root (fill K T') \<and>
    same_outside (inord (fill K T)) h h'"
  using T
proof (elim disjE conjE)
  assume T: "T = Nd False (Nd True A p B) g (Nd True SL s SR)" "T' = Nd True (Nd False A p B) g (Nd False SL s SR)"
  have "wft h root (fill (CRight False (Nd True A p B) g K) (Nd True SL s SR))" using wf T by simp
  from set_color_focus(2) [OF this] obtain h1 where h1: "set_black s h = Some h1"
    "wft h1 root (fill (CLeft False g (Nd False SL s SR) K) (Nd True A p B))" "same_outside (inord (fill K T)) h h1"
    using T by auto
  from set_color_focus(2) [OF h1(2)] obtain h2 where h2: "set_black p h1 = Some h2"
    "wft h2 root (fill K (Nd False (Nd False A p B) g (Nd False SL s SR)))" "same_outside (inord (fill K T)) h1 h2"
    using T by (auto simp: inord_fill)
  from set_color_focus(1) [OF h2(2)] obtain h3 where h3: "set_red g h2 = Some h3" "wft h3 root (fill K T')"
    "same_outside (inord (fill K T)) h2 h3" using T by (auto simp: inord_fill)
  from h1 h2 h3 show ?thesis by (auto simp: same_outside_def)
next
  assume T: "T = Nd False (Nd True SL s SR) g (Nd True A p B)" "T' = Nd True (Nd False SL s SR) g (Nd False A p B)"
  have "wft h root (fill (CLeft False g (Nd True A p B) K) (Nd True SL s SR))" using wf T by simp
  from set_color_focus(2) [OF this] obtain h1 where h1: "set_black s h = Some h1"
    "wft h1 root (fill (CRight False (Nd False SL s SR) g K) (Nd True A p B))" "same_outside (inord (fill K T)) h h1"
    using T by auto
  from set_color_focus(2) [OF h1(2)] obtain h2 where h2: "set_black p h1 = Some h2"
    "wft h2 root (fill K (Nd False (Nd False SL s SR) g (Nd False A p B)))" "same_outside (inord (fill K T)) h1 h2"
    using T by (auto simp: inord_fill)
  from set_color_focus(1) [OF h2(2)] obtain h3 where h3: "set_red g h2 = Some h3" "wft h3 root (fill K T')"
    "same_outside (inord (fill K T)) h2 h3" using T by (auto simp: inord_fill)
  from h1 h2 h3 show ?thesis by (auto simp: same_outside_def)
qed

text \<open>The result a call of the fixup must deliver.\<close>

definition fixed :: "usize_ptr list \<Rightarrow> rb_heap \<Rightarrow> (usize_ptr \<times> rb_heap) option \<Rightarrow> bool" where
  "fixed xs h r \<longleftrightarrow> (\<exists>root' h' t'. r = Some (root', h') \<and> wft h' root' t' \<and> inord t' = xs \<and> rb_inv t' \<and>
     same_outside xs h h')"

lemma fixedI:
  "r = Some (root', h') \<Longrightarrow> wft h' root' t' \<Longrightarrow> inord t' = xs \<Longrightarrow> rb_inv t' \<Longrightarrow> same_outside xs h h' \<Longrightarrow> fixed xs h r"
  by (auto simp: fixed_def)

lemma fixed_set_black:
  assumes "fixed xs h (Some s)" "xs \<noteq> []"
  shows "fixed xs h (do { h' \<leftarrow> set_black (fst s) (snd s); Some (fst s, h') })"
proof -
  obtain t where t: "wft (snd s) (fst s) t" "inord t = xs" "rb_inv t" "same_outside xs h (snd s)"
    using assms(1) by (cases s) (auto simp: fixed_def)
  have "t \<noteq> Lf" using t(2) assms(2) by auto
  from set_black_root [OF t(1) this] t(3) obtain h' where "set_black (fst s) (snd s) = Some h'"
    "wft h' (fst s) t" "same_outside (inord t) (snd s) h'" by (auto simp: rb_inv_def)
  then show ?thesis using t by (auto simp: fixed_def same_outside_def)
qed

lemma addr_neq: "x \<notin> set (inord t) \<Longrightarrow> x \<noteq> 0 \<Longrightarrow> addr t \<noteq> x"
  by (cases t) auto

text \<open>The black-uncle case: parent and grandparent are known, the uncle is black.\<close>

lemma insert_rotate_case:
  assumes wf: "wft h root (fill K (Nd True l a r))" and ctx: "cinvc K" "cbh K n"
    and t: "invc (Nd True l a r)" "bh (Nd True l a r) n"
    and K: "K = Kp Kg" "Kp = (\<lambda>x. CLeft True p u x) \<or> Kp = (\<lambda>x. CRight True u p x)"
      "Kg = CLeft False g s K2 \<or> Kg = CRight False s g K2" and black: "\<not> red s"
  shows "fixed (inord (fill K (Nd True l a r))) h (do {
      gl \<leftarrow> get_left h g; pl \<leftarrow> get_left h p;
      rb_handle_insert_fixup_rotation g p (gl = p) (pl = a) (root, h) })"
proof -
  have ne: "a \<noteq> p" "addr s \<noteq> p" "addr u \<noteq> a"
  proof -
    have w: "hctx h a K" "distinct (cbefore K @ (inord l @ a # inord r) @ cafter K)" using wf by (auto simp: wft_fill)
    have "p \<in> set (cbefore K) \<union> set (cafter K)" using K by auto
    then have "p \<noteq> 0" using hctx_nonzero [OF w(1)] by blast
    moreover have "p \<notin> set (inord s)" "a \<notin> set (inord u)" "a \<noteq> p" using w(2) K by auto
    ultimately show "a \<noteq> p" "addr s \<noteq> p" "addr u \<noteq> a"
      using addr_neq focus_reads(6) [OF wf] by blast+
  qed
  have inv: "\<not> red u" "invc u" "invc s" "bh u n" "bh s n" "cinvc K2" "cbh K2 (Suc n)"
    using ctx K by auto
  note ch = t(1) [simplified] t(2) [simplified]
  have balanced: "rb_inv (fill K2 (Nd False (Nd True A x B) y (Nd True C z D)))"
    if "invc A" "invc B" "invc C" "invc D" "\<not> red A" "\<not> red B" "\<not> red C" "\<not> red D" "bh A n" "bh B n" "bh C n" "bh D n" for A x B y C z D
    by (rule rb_inv_fill [OF inv(6,7)]) (use that in auto)
  from K(2,3) consider
      (LL) "K = CLeft True p u (CLeft False g s K2)" | (RL) "K = CLeft True p u (CRight False s g K2)"
    | (LR) "K = CRight True u p (CLeft False g s K2)" | (RR) "K = CRight True u p (CRight False s g K2)"
    using K(1) by blast
  then show ?thesis
  proof cases
    case LL
    have w: "wft h root (fill K2 (Nd False (Nd True (Nd True l a r) p u) g s))" using wf LL by simp
    have "get_left h g = Some p" "get_left h p = Some a"
      using focus_reads(2) [OF w] focus_reads(2) [of h root "CLeft False g s K2" True "Nd True l a r" p u] w by auto
    with insert_rotation_left(1) [OF w] show ?thesis
      using balanced [of l r u s a p g] inv ch black LL by (fastforce simp: inord_fill intro: fixedI)
  next
    case LR
    have w: "wft h root (fill K2 (Nd False (Nd True u p (Nd True l a r)) g s))" using wf LR by simp
    have "get_left h g = Some p" "get_left h p = Some (addr u)"
      using focus_reads(2) [OF w] focus_reads(2) [of h root "CLeft False g s K2" True u p "Nd True l a r"] w by auto
    with insert_rotation_left(2) [OF w refl] show ?thesis
      using balanced [of u l r s p a g] inv ch black LR ne by (fastforce simp: inord_fill intro: fixedI)
  next
    case RL
    have w: "wft h root (fill K2 (Nd False s g (Nd True (Nd True l a r) p u)))" using wf RL by simp
    have "get_left h g = Some (addr s)" "get_left h p = Some a"
      using focus_reads(2) [OF w] focus_reads(2) [of h root "CRight False s g K2" True "Nd True l a r" p u] w by auto
    with insert_rotation_right(2) [OF w refl] show ?thesis
      using balanced [of s l r u g a p] inv ch black RL ne by (fastforce simp: inord_fill intro: fixedI)
  next
    case RR
    have w: "wft h root (fill K2 (Nd False s g (Nd True u p (Nd True l a r))))" using wf RR by simp
    have "get_left h g = Some (addr s)" "get_left h p = Some (addr u)"
      using focus_reads(2) [OF w] focus_reads(2) [of h root "CRight False s g K2" True u p "Nd True l a r"] w by auto
    with insert_rotation_right(1) [OF w] show ?thesis
      using balanced [of s u l r g p a] inv ch black RR ne by (fastforce simp: inord_fill intro: fixedI)
  qed
qed

text \<open>What the code reads before it decides between the two cases.\<close>

lemma insert_reads:
  assumes wf: "wft h root (fill K (Nd True l a r))"
    and K: "K = CLeft True p u Kg \<or> K = CRight True u p Kg" "Kg = CLeft cg g s K2 \<or> Kg = CRight cg s g K2"
  shows "get_parent h a = Some p" "p \<noteq> 0" "is_black h p = Some False" "get_parent h p = Some g" "g \<noteq> 0"
    "get_uncle h a = Some (addr s)" "is_red h (addr s) = Some (red s)"
proof -
  obtain X where X: "wft h root (fill Kg X)" "X = Nd True (Nd True l a r) p u \<or> X = Nd True u p (Nd True l a r)"
    using wf K(1) by auto
  obtain c x y where Xe: "X = Nd c x p y" "c = True" using X(2) by auto
  have wX: "wft h root (fill Kg (Nd c x p y))" using X(1) Xe by simp
  note rd = focus_reads [OF wX]
  show gp: "get_parent h a = Some p" using focus_reads(1) [OF wf] K(1) by auto
  show "p \<noteq> 0" using rd by simp
  show "is_black h p = Some False" using rd Xe(2) by simp
  show pg: "get_parent h p = Some g" using rd(1) K(2) by auto
  obtain Y where Y: "wft h root (fill K2 Y)" "Y = Nd cg X g s \<or> Y = Nd cg s g X" using X(1) K(2) by auto
  then show "g \<noteq> 0" using focus_reads(6) by blast
  show "get_uncle h a = Some (addr s)"
    using gp sibling_focus [OF wX] K(2) rd(6) by (auto simp: get_uncle_def)
  have "\<exists>K3. wft h root (fill K3 s)"
    using Y by (metis fill.simps(2,3))
  then show "is_red h (addr s) = Some (red s)" using focus_color(1) by blast
qed

lemma insert_fixup_correct:
  "wft h root (fill K (Nd True l a r)) \<Longrightarrow> cinvc K \<Longrightarrow> cbh K n \<Longrightarrow> invc (Nd True l a r) \<Longrightarrow>
   bh (Nd True l a r) n \<Longrightarrow> fixed (inord (fill K (Nd True l a r))) h (rb_insert_fixup a (root, h))"
proof (induction "size K" arbitrary: K l a r n root h rule: less_induct)
  case less
  note wf = less.prems(1)
  show ?case
  proof (cases "cred K")
    case False
    show ?thesis
    proof (cases "K = CTop")
      case True
      have w: "wft h a (fill CTop (Nd True l a r))" "root = a" using wf True by (auto simp: wft_def)
      obtain h' where h': "set_black a h = Some h'" "wft h' a (Nd False l a r)" "same_outside (inord (Nd True l a r)) h h'"
        using set_color_focus(2) [OF w(1)] by auto
      have "rb_insert_fixup a (root, h) = Some (a, h')"
        using focus_reads(1) [OF wf] True h'(1) w(2) by (subst rb_insert_fixup.simps) simp
      moreover have "rb_inv (Nd False l a r)" using less.prems(4,5) by (auto simp: rb_inv_def)
      ultimately show ?thesis using h' True by (auto intro: fixedI)
    next
      case nt: False
      then obtain c x q y K' where up: "wft h root (fill K' (Nd c x q y))" "cpar K = q" "c = False"
        using wf False by (cases K) auto
      have "rb_insert_fixup a (root, h) = Some (root, h)"
        using focus_reads [OF up(1)] focus_reads(1) [OF wf] up(2,3) by (subst rb_insert_fixup.simps) simp
      moreover have "rb_inv (fill K (Nd True l a r))"
        using fill_bh [OF less.prems(3,5)] fill_invc [OF less.prems(2,4)] fill_black [OF less.prems(2) nt] False
        by (auto simp: rb_inv_def)
      ultimately show ?thesis using wf by (auto intro: fixedI)
    qed
  next
    case True
    then obtain p u Kg where Kp: "K = CLeft True p u Kg \<or> K = CRight True u p Kg" by (cases K) auto
    then have "Kg \<noteq> CTop" "\<not> cred Kg" using less.prems(2) by auto
    then obtain g s K2 where Kg: "Kg = CLeft False g s K2 \<or> Kg = CRight False s g K2" by (cases Kg) auto
    note rd = insert_reads [OF wf Kp Kg]
    let ?xs = "inord (fill K (Nd True l a r))"
    have ne: "?xs \<noteq> []" by (simp add: inord_fill)
    show ?thesis
    proof (cases "red s")
      case False
      have rot: "fixed ?xs h (do { gl \<leftarrow> get_left h g; pl \<leftarrow> get_left h p;
          rb_handle_insert_fixup_rotation g p (gl = p) (pl = a) (root, h) })"
        using insert_rotate_case [OF wf less.prems(2,3,4,5) _ _ Kg False] Kp by blast
      then obtain s1 where s1: "do { gl \<leftarrow> get_left h g; pl \<leftarrow> get_left h p;
          rb_handle_insert_fixup_rotation g p (gl = p) (pl = a) (root, h) } = Some s1"
        by (auto simp: fixed_def)
      have "rb_insert_fixup a (root, h) = do { h' \<leftarrow> set_black (fst s1) (snd s1); Some (fst s1, h') }"
        using rd False s1 by (subst rb_insert_fixup.simps) simp
      then show ?thesis using fixed_set_black [OF rot [unfolded s1] ne] by simp
    next
      case True
      then obtain SL sa SR where s: "s = Nd True SL sa SR" by (cases s) auto
      obtain A B where AB: "fill K (Nd True l a r) = fill Kg (Nd True A p B)"
        "A = Nd True l a r \<and> B = u \<or> A = u \<and> B = Nd True l a r"
        using Kp by (metis fill.simps(2,3))
      define Tl where "Tl = Nd False (Nd True A p B) g s"
      define Tr where "Tr = Nd False s g (Nd True A p B)"
      have "fill K (Nd True l a r) = fill K2 Tl \<or> fill K (Nd True l a r) = fill K2 Tr"
        using AB(1) Kg by (auto simp: Tl_def Tr_def)
      then obtain T T' where T: "fill K (Nd True l a r) = fill K2 T"
        "T = Nd False (Nd True A p B) g (Nd True SL sa SR) \<and> T' = Nd True (Nd False A p B) g (Nd False SL sa SR) \<or>
         T = Nd False (Nd True SL sa SR) g (Nd True A p B) \<and> T' = Nd True (Nd False SL sa SR) g (Nd False A p B)"
        unfolding Tl_def Tr_def s by blast
      obtain h1 where h1: "do { h \<leftarrow> set_black sa h; h \<leftarrow> set_black p h; set_red g h } = Some h1"
        "wft h1 root (fill K2 T')" "same_outside ?xs h h1"
        using insert_recolor [OF wf [unfolded T(1)] T(2)] T(1) by auto
      obtain TL TR where T': "T' = Nd True TL g TR" using T(2) by auto
      have xs: "inord (fill K2 T') = ?xs" using T by (auto simp: inord_fill)
      have inv: "invc u" "\<not> red u" "bh u n" "invc s" "bh s n" "cinvc K2" "cbh K2 (Suc n)"
        using less.prems(2,3) Kp Kg by auto
      have "size K2 < size K" using Kp Kg by auto
      from less.hyps [OF this h1(2) [unfolded T'] inv(6,7)]
      have rec: "fixed ?xs h1 (rb_insert_fixup g (root, h1))"
        using T(2) T' AB(2) inv s less.prems(4,5) xs by auto
      then obtain s2 where s2: "rb_insert_fixup g (root, h1) = Some s2" by (auto simp: fixed_def)
      have "fixed ?xs h (Some s2)" using rec s2 h1(3) by (auto simp: fixed_def same_outside_def)
      moreover have "rb_insert_fixup a (root, h) = do { h' \<leftarrow> set_black (fst s2) (snd s2); Some (fst s2, h') }"
        using rd True s h1(1) s2 by (subst rb_insert_fixup.simps) (auto split: bind_splits)
      ultimately show ?thesis using fixed_set_black [OF _ ne] by simp
    qed
  qed
qed

end
