(* ===== verification/Rb_Tree_Search.thy ===== *)
theory Rb_Tree_Search
  imports Rb_Tree_Insert
begin

text \<open>
  Order: the descent of \<^verbatim>\<open>rb_find_node_link\<close> in a search tree, and with it \<^verbatim>\<open>rb_search\<close>,
  \<^verbatim>\<open>rb_insert\<close>, the extreme elements and the neighbours of a node.
\<close>

section \<open>Search trees\<close>

text \<open>
  The laws of the comparison callback on the nodes \<open>S\<close>: it is a strict order up to the
  equality it reports. Equality need not be transitive (the kernel compares address
  intervals, which are equal when they overlap).
\<close>

definition cmp_ok :: "rb_cmp_t \<Rightarrow> usize_ptr set \<Rightarrow> bool" where
  "cmp_ok cmp S \<longleftrightarrow> (\<forall>a\<in>S. \<forall>b\<in>S. cmp a b < 0 \<longleftrightarrow> cmp b a > 0) \<and>
     (\<forall>a\<in>S. \<forall>b\<in>S. \<forall>c\<in>S. cmp a b < 0 \<longrightarrow> cmp b c < 0 \<longrightarrow> cmp a c < 0)"

definition bst :: "rb_cmp_t \<Rightarrow> rbt \<Rightarrow> bool" where
  "bst cmp t \<longleftrightarrow> sorted_wrt (\<lambda>a b. cmp a b < 0) (inord t)"

lemma cmp_okD:
  assumes "cmp_ok cmp S"
  shows "a \<in> S \<Longrightarrow> b \<in> S \<Longrightarrow> cmp a b < 0 \<longleftrightarrow> cmp b a > 0"
    and "a \<in> S \<Longrightarrow> b \<in> S \<Longrightarrow> c \<in> S \<Longrightarrow> cmp a b < 0 \<Longrightarrow> cmp b c < 0 \<Longrightarrow> cmp a c < 0"
  using assms unfolding cmp_ok_def by blast+

lemma cmp_ok_mono: "cmp_ok cmp S \<Longrightarrow> S' \<subseteq> S \<Longrightarrow> cmp_ok cmp S'"
  unfolding cmp_ok_def by blast

fun clink :: "rctx \<Rightarrow> rb_link" where
  "clink CTop = RootLink"
| "clink (CLeft c a r K) = LeftLink a"
| "clink (CRight c l a K) = RightLink a"

lemma read_clink:
  assumes "wft h root (fill K t)"
  shows "read_link (root, h) (clink K) = Some (addr t)"
  using assms focus_reads(2) [of h root] focus_reads(3) [of h root]
  by (cases K) (auto simp: read_link_def wft_def)

text \<open>The descent stops at an empty subtree, or at a node that compares equal; everything
  before it is smaller than the key and everything after it is larger.\<close>

lemma find_link:
  assumes "wft h root (fill K t)" "bst cmp t" "cmp_ok cmp (insert key (set (inord t)))"
  shows "\<exists>K' t'. rb_find_link_loop cmp (root, h) key (clink K) (cpar K)
      = Some (clink K', if t' = Lf then cpar K' else addr t') \<and>
    fill K' t' = fill K t \<and> (t' \<noteq> Lf \<longrightarrow> cmp (addr t') key = 0) \<and>
    (\<exists>xs ys. cbefore K' = cbefore K @ xs \<and> cafter K' = ys @ cafter K \<and>
       (\<forall>x\<in>set xs. cmp x key < 0) \<and> (\<forall>y\<in>set ys. cmp key y < 0))"
  using assms
proof (induction t arbitrary: K)
  case Lf
  then show ?case
    by (intro exI [of _ K] exI [of _ Lf], subst rb_find_link_loop.simps) (auto simp: read_clink)
next
  case (Nd c l a r)
  have a0: "a \<noteq> 0" using focus_reads(6) [OF Nd.prems(1)] .
  have order: "\<forall>x\<in>set (inord l). cmp x a < 0" "\<forall>y\<in>set (inord r). cmp a y < 0" "bst cmp l" "bst cmp r"
    using Nd.prems(2) by (auto simp: bst_def sorted_wrt_append)
  note law = cmp_okD [OF Nd.prems(3)]
  have step: "rb_find_link_loop cmp (root, h) key (clink K) (cpar K) =
      (if cmp a key > 0 then rb_find_link_loop cmp (root, h) key (LeftLink a) a
       else if cmp a key < 0 then rb_find_link_loop cmp (root, h) key (RightLink a) a else Some (clink K, a))"
    using read_clink [OF Nd.prems(1)] a0 by (subst rb_find_link_loop.simps) simp
  consider (gt) "cmp a key > 0" | (lt) "cmp a key < 0" | (eq) "cmp a key = 0" by linarith
  then show ?case
  proof cases
    case gt
    then have ka: "cmp key a < 0" using law(1) [of key a] by simp
    have "cmp_ok cmp (insert key (set (inord l)))" using Nd.prems(3) by (rule cmp_ok_mono) auto
    from Nd.IH(1) [OF _ order(3) this, of "CLeft c a r K"] Nd.prems(1) obtain K' t' xs ys where
      "rb_find_link_loop cmp (root, h) key (LeftLink a) a = Some (clink K', if t' = Lf then cpar K' else addr t')"
      "fill K' t' = fill K (Nd c l a r)" "t' \<noteq> Lf \<longrightarrow> cmp (addr t') key = 0" "cbefore K' = cbefore K @ xs"
      "cafter K' = ys @ a # inord r @ cafter K" "\<forall>x\<in>set xs. cmp x key < 0" "\<forall>y\<in>set ys. cmp key y < 0" by auto
    moreover have "cmp key y < 0" if "y \<in> set (inord r)" for y
      using law(2) [of key a y] ka order(2) that by simp
    ultimately show ?thesis using step gt ka
      by (intro exI [of _ K'] exI [of _ t']) (auto intro!: exI [of _ "ys @ a # inord r"])
  next
    case lt
    have "cmp_ok cmp (insert key (set (inord r)))" using Nd.prems(3) by (rule cmp_ok_mono) auto
    from Nd.IH(2) [OF _ order(4) this, of "CRight c l a K"] Nd.prems(1) obtain K' t' xs ys where
      "rb_find_link_loop cmp (root, h) key (RightLink a) a = Some (clink K', if t' = Lf then cpar K' else addr t')"
      "fill K' t' = fill K (Nd c l a r)" "t' \<noteq> Lf \<longrightarrow> cmp (addr t') key = 0"
      "cbefore K' = cbefore K @ inord l @ a # xs"
      "cafter K' = ys @ cafter K" "\<forall>x\<in>set xs. cmp x key < 0" "\<forall>y\<in>set ys. cmp key y < 0" by auto
    moreover have "cmp x key < 0" if "x \<in> set (inord l)" for x
      using law(2) [of x a key] lt order(1) that by simp
    ultimately show ?thesis using step lt
      by (intro exI [of _ K'] exI [of _ t']) (auto intro!: exI [of _ "inord l @ a # xs"])
  next
    case eq
    then show ?thesis using step by (intro exI [of _ K] exI [of _ "Nd c l a r"]) auto
  qed
qed

text \<open>The result of \<^verbatim>\<open>rb_find_node_link\<close>.\<close>

lemma find_node_link:
  assumes "wft h root t" "bst cmp t" "cmp_ok cmp (insert key (set (inord t)))"
  obtains (found) K c l a r where "rb_find_node_link cmp (root, h) key = Some (clink K, a)"
      "fill K (Nd c l a r) = t" "cmp a key = 0" "read_link (root, h) (clink K) = Some a" "a \<noteq> 0"
    | (missing) K where "rb_find_node_link cmp (root, h) key = Some (clink K, cpar K)" "fill K Lf = t"
      "\<forall>x\<in>set (cbefore K). cmp x key < 0" "\<forall>y\<in>set (cafter K). cmp key y < 0"
      "read_link (root, h) (clink K) = Some 0"
proof -
  have w: "wft h root (fill CTop t)" using assms(1) by simp
  obtain K t' where K: "rb_find_node_link cmp (root, h) key = Some (clink K, if t' = Lf then cpar K else addr t')"
    "fill K t' = t" "t' \<noteq> Lf \<longrightarrow> cmp (addr t') key = 0" "\<forall>x\<in>set (cbefore K). cmp x key < 0"
    "\<forall>y\<in>set (cafter K). cmp key y < 0"
    using find_link [OF w assms(2,3)] by (auto simp: rb_find_node_link_def)
  have rd: "read_link (root, h) (clink K) = Some (addr t')" using read_clink [of h root K t'] K(2) assms(1) by simp
  show ?thesis
  proof (cases t')
    case Lf
    then show ?thesis using missing K rd by simp
  next
    case (Nd c l a r)
    then show ?thesis using found K rd focus_reads(6) [of h root K c l a r] assms(1) by simp
  qed
qed

section \<open>Insertion\<close>

lemma write_clink:
  assumes ctx: "hctx h p K" and d: "distinct (cbefore K @ cafter K)"
  shows "\<exists>h'. write_link (clink K) q (croot p K, h) = Some (croot q K, h') \<and> hctx h' q K \<and>
    same_outside (cbefore K @ cafter K) h h'"
proof (cases K)
  case CTop
  then show ?thesis by (simp add: write_link_def)
next
  case (CLeft c a r K2)
  obtain n where n: "h a = Some n" "node_is n (cpar K2) c p (addr r)" "a \<noteq> 0" "aligned a"
    using ctx CLeft by (auto simp: node_at_def)
  have keep: "rtree (h(a := v)) x r = rtree h x r" "hctx (h(a := v)) x K2 = hctx h x K2" for v x
    using d CLeft by (auto intro!: rtree_cong hctx_cong)
  have "hctx (h(a \<mapsto> n\<lparr>rb_left := q\<rparr>)) q K"
    using ctx CLeft n node_is_updates(4) [OF n(2)] by (simp add: keep node_at_def)
  then show ?thesis using CLeft n by (auto simp: write_link_def set_left_def intro!: same_outside_upd)
next
  case (CRight c l a K2)
  obtain n where n: "h a = Some n" "node_is n (cpar K2) c (addr l) p" "a \<noteq> 0" "aligned a"
    using ctx CRight by (auto simp: node_at_def)
  have keep: "rtree (h(a := v)) x l = rtree h x l" "hctx (h(a := v)) x K2 = hctx h x K2" for v x
    using d CRight by (auto intro!: rtree_cong hctx_cong)
  have "hctx (h(a \<mapsto> n\<lparr>rb_right := q\<rparr>)) q K"
    using ctx CRight n node_is_updates(5) [OF n(2)] by (simp add: keep node_at_def)
  then show ?thesis using CRight n by (auto simp: write_link_def set_right_def intro!: same_outside_upd)
qed

lemma cpar_aligned: "hctx h p K \<Longrightarrow> aligned (cpar K)"
  by (cases K) (auto simp: node_at_def)

text \<open>Linking a fresh red node into the empty subtree where the descent stopped.\<close>

lemma attach_node:
  assumes wf: "wft h root (fill K Lf)" and x: "h x = Some n" "x \<noteq> 0" "aligned x" "x \<notin> set (inord (fill K Lf))"
  shows "\<exists>s'. do { h \<leftarrow> set_right x NULL h; h \<leftarrow> set_left x NULL h; h \<leftarrow> set_red x h;
        s \<leftarrow> write_link (clink K) x (root, h); h \<leftarrow> set_parent x (cpar K) (snd s); Some (fst s, h) } = Some s' \<and>
      wft (snd s') (fst s') (fill K (Nd True Lf x Lf)) \<and> same_outside (inord (fill K (Nd True Lf x Lf))) h (snd s')"
proof -
  define n1 where "n1 = n\<lparr>rb_right := 0, rb_left := 0, parent_color := parent_color n OR RB_COLOR\<rparr>"
  have n1: "node_is n1 (parent_color n AND NOT RB_FLAGS) True 0 0"
    using color_bits [of "parent_color n"] by (simp add: node_is_def n1_def RB_COLOR_def)
  define h1 where "h1 = h(x \<mapsto> n1)"
  have d: "x \<notin> set (cbefore K)" "x \<notin> set (cafter K)" "distinct (cbefore K @ cafter K)"
    using x(4) wf by (auto simp: inord_fill wft_def)
  have ctx: "hctx h 0 K" "root = croot 0 K" using wf by (auto simp: wft_fill)
  have "hctx h1 0 K" using ctx d by (subst hctx_cong [of K h1 h]) (auto simp: h1_def)
  then obtain h2 where h2: "write_link (clink K) x (croot 0 K, h1) = Some (croot x K, h2)" "hctx h2 x K"
    "same_outside (cbefore K @ cafter K) h1 h2" using write_clink [OF _ d(3)] by blast
  have h2x: "h2 x = Some n1" using h2(3) d by (simp add: same_outside_def h1_def)
  define h3 where "h3 = h2(x \<mapsto> n1\<lparr>parent_color := (parent_color n1 AND RB_FLAGS) OR cpar K\<rparr>)"
  have "hctx h3 x K" using h2(2) d by (subst hctx_cong [of K h3 h2]) (auto simp: h3_def)
  moreover have "node_at h3 x (cpar K) True 0 0"
    using node_is_updates(1) [OF n1 cpar_aligned [OF ctx(1)]] x(2,3) by (simp add: h3_def node_at_def)
  ultimately have "wft h3 (croot x K) (fill K (Nd True Lf x Lf))"
    using wf d by (auto simp: wft_fill)
  moreover have "same_outside (inord (fill K (Nd True Lf x Lf))) h h3"
    using h2(3) by (auto simp: same_outside_def h3_def h1_def inord_fill)
  moreover have "do { h \<leftarrow> set_right x NULL h; h \<leftarrow> set_left x NULL h; h \<leftarrow> set_red x h;
        s \<leftarrow> write_link (clink K) x (root, h); h \<leftarrow> set_parent x (cpar K) (snd s); Some (fst s, h) } = Some (croot x K, h3)"
    using x(1) h2(1) h2x ctx(2)
    by (simp add: set_right_def set_left_def set_red_def set_parent_def h1_def n1_def h3_def)
  ultimately show ?thesis by (intro exI [of _ "(croot x K, h3)"]) simp
qed

text \<open>The augmentation walk from a node of the tree (or NULL) reaches the root.\<close>

lemma augment_from_node:
  "wft h root (fill K (Nd c l a r)) \<Longrightarrow> \<exists>xs. rb_augment_from (root, h) a = Some xs \<and> set xs \<subseteq> set (inord (fill K (Nd c l a r)))"
proof (induction K arbitrary: c l a r)
  case CTop
  then show ?case by (subst rb_augment_from.simps) (auto simp: wft_def)
next
  case (CLeft c2 b r2 K)
  have w: "wft h root (fill K (Nd c2 (Nd c l a r) b r2))" using CLeft.prems by simp
  obtain xs where xs: "rb_augment_from (root, h) b = Some xs" "set xs \<subseteq> set (inord (fill K (Nd c2 (Nd c l a r) b r2)))"
    using CLeft.IH [OF w] by blast
  show ?case
    using xs focus_reads(1,6) [OF CLeft.prems] by (subst rb_augment_from.simps) (auto simp: inord_fill)
next
  case (CRight c2 l2 b K)
  have w: "wft h root (fill K (Nd c2 l2 b (Nd c l a r)))" using CRight.prems by simp
  obtain xs where xs: "rb_augment_from (root, h) b = Some xs" "set xs \<subseteq> set (inord (fill K (Nd c2 l2 b (Nd c l a r))))"
    using CRight.IH [OF w] by blast
  show ?case
    using xs focus_reads(1,6) [OF CRight.prems] by (subst rb_augment_from.simps) (auto simp: inord_fill)
qed

lemma split_at: "a \<in> set (inord t) \<Longrightarrow> \<exists>K c l r. t = fill K (Nd c l a r)"
proof (induction t)
  case (Nd c l b r)
  then consider "a = b" | "a \<in> set (inord l)" | "a \<in> set (inord r)" by auto
  then show ?case
  proof cases
    case 1
    then show ?thesis by (metis fill.simps(1))
  next
    case 2
    then obtain K c2 l2 r2 where K: "l = fill K (Nd c2 l2 a r2)" using Nd.IH(1) by blast
    have "\<exists>K'. \<forall>t. fill K' t = Nd c (fill K t) b r"
    proof (induction K)
      case (CLeft x y z K)
      then obtain K' where "\<forall>t. fill K' t = Nd c (fill K t) b r" by blast
      then show ?case by (intro exI [of _ "CLeft x y z K'"]) simp
    next
      case (CRight x y z K)
      then obtain K' where "\<forall>t. fill K' t = Nd c (fill K t) b r" by blast
      then show ?case by (intro exI [of _ "CRight x y z K'"]) simp
    qed (intro exI [of _ "CLeft c b r CTop"], simp)
    then show ?thesis using K by metis
  next
    case 3
    then obtain K c2 l2 r2 where K: "r = fill K (Nd c2 l2 a r2)" using Nd.IH(2) by blast
    have "\<exists>K'. \<forall>t. fill K' t = Nd c l b (fill K t)"
    proof (induction K)
      case (CLeft x y z K)
      then obtain K' where "\<forall>t. fill K' t = Nd c l b (fill K t)" by blast
      then show ?case by (intro exI [of _ "CLeft x y z K'"]) simp
    next
      case (CRight x y z K)
      then obtain K' where "\<forall>t. fill K' t = Nd c l b (fill K t)" by blast
      then show ?case by (intro exI [of _ "CRight x y z K'"]) simp
    qed (intro exI [of _ "CRight c l b CTop"], simp)
    then show ?thesis using K by metis
  qed
qed simp

lemma augment_from_tree:
  assumes "wft h root t" "a = 0 \<or> a \<in> set (inord t)"
  shows "\<exists>xs. rb_augment_from (root, h) a = Some xs \<and> set xs \<subseteq> set (inord t)"
  using assms(2)
proof
  assume "a = 0"
  then show ?thesis by (subst rb_augment_from.simps) simp
next
  assume "a \<in> set (inord t)"
  then show ?thesis using split_at augment_from_node assms(1) by metis
qed

text \<open>A link of the tree still reads NULL or a node after the fixup has moved nodes around.\<close>

lemma read_link_tree:
  assumes "wft h root t" "link = RootLink \<or> (\<exists>p\<in>set (inord t). link = LeftLink p \<or> link = RightLink p)"
  shows "\<exists>v. read_link (root, h) link = Some v \<and> (v = 0 \<or> v \<in> set (inord t))"
  using assms(2)
proof
  assume "link = RootLink"
  then show ?thesis using assms(1) by (cases t) (auto simp: read_link_def wft_def)
next
  assume "\<exists>p\<in>set (inord t). link = LeftLink p \<or> link = RightLink p"
  then obtain p where p: "p \<in> set (inord t)" "link = LeftLink p \<or> link = RightLink p" by blast
  obtain K c l r where t: "t = fill K (Nd c l p r)" using split_at [OF p(1)] by blast
  have "addr l = 0 \<or> addr l \<in> set (inord t)" "addr r = 0 \<or> addr r \<in> set (inord t)"
    using addr_in [of l] addr_in [of r] t by (cases l; cases r; auto simp: inord_fill)+
  then show ?thesis
    using focus_reads(2,3) [of h root K c l p r] assms(1) t p(2) by (auto simp: read_link_def)
qed

lemma clink_in_tree:
  "clink K = RootLink \<or> (\<exists>p\<in>set (cbefore K) \<union> set (cafter K). clink K = LeftLink p \<or> clink K = RightLink p)"
  by (cases K) auto

lemma rb_insert_correct:
  assumes wf: "wft h (rb_root T) t" and inv: "rb_inv t" "bst (rb_cmp T) t"
    and cmp: "cmp_ok (rb_cmp T) (insert x (set (inord t)))"
    and x: "h x = Some n" "x \<noteq> 0" "aligned x" "x \<notin> set (inord t)"
  shows "if \<exists>a\<in>set (inord t). rb_cmp T a x = 0 then rb_insert (T, h) x = Some (NULL, (T, h), [])
    else \<exists>root' h' aug t' before after. rb_insert (T, h) x = Some (x, (T\<lparr>rb_root := root'\<rparr>, h'), aug) \<and>
      wft h' root' t' \<and> rb_inv t' \<and> bst (rb_cmp T) t' \<and> inord t = before @ after \<and>
      inord t' = before @ x # after \<and> same_outside (inord t') h h'"
proof (cases rule: find_node_link [OF wf inv(2) cmp])
  case (1 K c l a r)
  then have "a \<in> set (inord t)" by (auto simp: inord_fill)
  then show ?thesis using 1 by (auto simp: rb_insert_def)
next
  case (2 K)
  have sets: "set (inord t) = set (cbefore K) \<union> set (cafter K)" using 2(2) by (auto simp: inord_fill)
  have none: "\<not> (\<exists>a\<in>set (inord t). rb_cmp T a x = 0)"
    using 2(3,4) cmp_okD(1) [OF cmp] sets by (metis Un_iff insertI1 insertI2 less_irrefl)
  have wl: "wft h (rb_root T) (fill K Lf)" using wf 2(2) by simp
  from attach_node [OF wl x(1-3)] x(4) 2(2) obtain s1 where s1:
    "do { h \<leftarrow> set_right x NULL h; h \<leftarrow> set_left x NULL h; h \<leftarrow> set_red x h;
        s \<leftarrow> write_link (clink K) x (rb_root T, h); h \<leftarrow> set_parent x (cpar K) (snd s); Some (fst s, h) } = Some s1"
    "wft (snd s1) (fst s1) (fill K (Nd True Lf x Lf))" "same_outside (inord (fill K (Nd True Lf x Lf))) h (snd s1)"
    by auto
  obtain k where k: "bh Lf k" "cbh K k" using inv(1) 2(2) bh_fill_split [of K Lf] by (auto simp: rb_inv_def)
  have c: "cinvc K" using inv(1) 2(2) invc_fill_split [of K Lf] by (auto simp: rb_inv_def)
  have "fixed (inord (fill K (Nd True Lf x Lf))) (snd s1) (rb_insert_fixup x (fst s1, snd s1))"
    by (rule insert_fixup_correct [OF s1(2) c k(2)]) (use k(1) in auto)
  then obtain root' h' t' where fx: "rb_insert_fixup x (fst s1, snd s1) = Some (root', h')" "wft h' root' t'"
    "inord t' = cbefore K @ x # cafter K" "rb_inv t'" "same_outside (inord t') (snd s1) h'"
    by (auto simp: fixed_def inord_fill)
  have "clink K = RootLink \<or> (\<exists>p\<in>set (inord t'). clink K = LeftLink p \<or> clink K = RightLink p)"
    using clink_in_tree [of K] fx(3) by auto
  from read_link_tree [OF fx(2) this] obtain v where v: "read_link (root', h') (clink K) = Some v" "v = 0 \<or> v \<in> set (inord t')"
    by blast
  obtain aug where aug: "rb_augment_from (root', h') v = Some aug" using augment_from_tree [OF fx(2) v(2)] by blast
  have sorted: "bst (rb_cmp T) t'"
    using inv(2) 2(2,3,4) fx(3) unfolding bst_def by (auto simp: sorted_wrt_append inord_fill)
  have "rb_insert (T, h) x = Some (x, (T\<lparr>rb_root := root'\<rparr>, h'), aug)"
    using 2(1,5) s1(1) fx(1) v(1) aug by (auto simp: rb_insert_def split: bind_splits)
  moreover have "same_outside (inord t') h h'"
    using s1(3) fx(3,5) by (auto simp: same_outside_def inord_fill)
  moreover have "inord t = cbefore K @ cafter K" using 2(2) by (auto simp: inord_fill)
  ultimately show ?thesis using fx sorted unfolding if_not_P [OF none] by blast
qed

section \<open>Search, extremes and bounds\<close>

lemma rb_search_correct:
  assumes wf: "wft h (rb_root T) t" and inv: "bst (rb_cmp T) t"
    and cmp: "cmp_ok (rb_cmp T) (insert key (set (inord t)))"
  shows "\<exists>a. rb_search (T, h) key = Some a \<and>
    (if a = 0 then \<forall>x\<in>set (inord t). rb_cmp T x key \<noteq> 0 else a \<in> set (inord t) \<and> rb_cmp T a key = 0)"
proof (cases rule: find_node_link [OF wf inv cmp])
  case (1 K c l a r)
  then have "a \<in> set (inord t)" by (auto simp: inord_fill)
  then show ?thesis using 1 by (auto simp: rb_search_def)
next
  case (2 K)
  have sets: "set (inord t) = set (cbefore K) \<union> set (cafter K)" using 2(2) by (auto simp: inord_fill)
  have "\<forall>a\<in>set (inord t). rb_cmp T a key \<noteq> 0"
    using 2(3,4) cmp_okD(1) [OF cmp] sets by (metis Un_iff insertI1 insertI2 less_irrefl)
  then show ?thesis using 2 by (auto simp: rb_search_def)
qed

lemma leftmost_focus:
  "wft h root (fill K (Nd c l a r)) \<Longrightarrow> leftmost h a = Some (hd (inord (Nd c l a r)))"
proof (induction l arbitrary: K c a r)
  case Lf
  then show ?case using focus_reads(2) [OF Lf] by (subst leftmost.simps) simp
next
  case (Nd c2 l2 a2 r2)
  have w: "wft h root (fill (CLeft c a r K) (Nd c2 l2 a2 r2))" using Nd.prems by simp
  have "leftmost h a = leftmost h a2"
    using focus_reads(2) [OF Nd.prems] focus_reads(6) [OF w] by (subst leftmost.simps) simp
  then show ?case using Nd.IH(1) [OF w] by (simp add: hd_append)
qed

lemma rightmost_focus:
  "wft h root (fill K (Nd c l a r)) \<Longrightarrow> rightmost h a = Some (last (inord (Nd c l a r)))"
proof (induction r arbitrary: K c a l)
  case Lf
  then show ?case using focus_reads(3) [OF Lf] by (subst rightmost.simps) simp
next
  case (Nd c2 l2 a2 r2)
  have w: "wft h root (fill (CRight c l a K) (Nd c2 l2 a2 r2))" using Nd.prems by simp
  have "rightmost h a = rightmost h a2"
    using focus_reads(3) [OF Nd.prems] focus_reads(6) [OF w] by (subst rightmost.simps) simp
  then show ?case using Nd.IH(2) [OF w] by simp
qed

lemma climb_next_focus:
  "wft h root (fill K (Nd c l a r)) \<Longrightarrow>
   rb_climb_next h a = Some (case cafter K of [] \<Rightarrow> 0 | y # ys \<Rightarrow> y)"
proof (induction K arbitrary: c l a r)
  case CTop
  then show ?case using focus_reads(1) [of h root CTop c l a r] by (subst rb_climb_next.simps) simp
next
  case (CLeft c2 b r2 K)
  have w: "wft h root (fill K (Nd c2 (Nd c l a r) b r2))" using CLeft.prems by simp
  show ?case using focus_reads(1) [OF CLeft.prems] focus_reads(2,6) [OF w] by (subst rb_climb_next.simps) simp
next
  case (CRight c2 l2 b K)
  have w: "wft h root (fill K (Nd c2 l2 b (Nd c l a r)))" using CRight.prems by simp
  have "a \<notin> set (inord l2)" using CRight.prems by (auto simp: wft_fill)
  then have "addr l2 \<noteq> a" using addr_neq focus_reads(6) [OF CRight.prems] by blast
  then show ?case using focus_reads(1) [OF CRight.prems] focus_reads(2,6) [OF w] CRight.IH [OF w]
    by (subst rb_climb_next.simps) simp
qed

lemma climb_prev_focus:
  "wft h root (fill K (Nd c l a r)) \<Longrightarrow>
   rb_climb_prev h a = Some (if cbefore K = [] then 0 else last (cbefore K))"
proof (induction K arbitrary: c l a r)
  case CTop
  then show ?case using focus_reads(1) [of h root CTop c l a r] by (subst rb_climb_prev.simps) simp
next
  case (CRight c2 l2 b K)
  have w: "wft h root (fill K (Nd c2 l2 b (Nd c l a r)))" using CRight.prems by simp
  show ?case using focus_reads(1) [OF CRight.prems] focus_reads(3,6) [OF w] by (subst rb_climb_prev.simps) simp
next
  case (CLeft c2 b r2 K)
  have w: "wft h root (fill K (Nd c2 (Nd c l a r) b r2))" using CLeft.prems by simp
  have "a \<notin> set (inord r2)" using CLeft.prems by (auto simp: wft_fill)
  then have "addr r2 \<noteq> a" using addr_neq focus_reads(6) [OF CLeft.prems] by blast
  then show ?case using focus_reads(1) [OF CLeft.prems] focus_reads(3,6) [OF w] CLeft.IH [OF w]
    by (subst rb_climb_prev.simps) simp
qed

text \<open>\<^verbatim>\<open>rb_next\<close> and \<^verbatim>\<open>rb_prev\<close> are the neighbours in the in-order sequence.\<close>

lemma rb_next_correct:
  assumes "wft h root t" "inord t = xs @ a # ys"
  shows "rb_next h a = Some (case ys of [] \<Rightarrow> 0 | y # _ \<Rightarrow> y)"
proof -
  obtain K c l r where t: "t = fill K (Nd c l a r)" using split_at [of a t] assms(2) by auto
  have w: "wft h root (fill K (Nd c l a r))" using assms(1) t by simp
  have d: "distinct (inord t)" using assms(1) by (simp add: wft_def)
  have "inord t = (cbefore K @ inord l) @ a # (inord r @ cafter K)" by (simp add: t inord_fill)
  then have ys: "ys = inord r @ cafter K"
    using distinct_split_unique [of xs a ys] d assms(2) by simp
  show ?thesis
  proof (cases r)
    case Lf
    then show ?thesis using focus_reads(3) [OF w] climb_next_focus [OF w] ys by (simp add: rb_next_def)
  next
    case (Nd c2 l2 b r2)
    have w2: "wft h root (fill (CRight c l a K) (Nd c2 l2 b r2))" using w Nd by simp
    show ?thesis
      using focus_reads(3) [OF w] focus_reads(6) [OF w2] leftmost_focus [OF w2] Nd ys
      by (cases "inord l2") (auto simp: rb_next_def rb_get_min_def)
  qed
qed

lemma rb_min_correct:
  assumes "wft h (rb_root T) t"
  shows "rb_min (T, h) = Some (case inord t of [] \<Rightarrow> 0 | y # _ \<Rightarrow> y)"
proof (cases t)
  case Lf
  then show ?thesis using assms by (simp add: rb_min_def rb_get_min_def wft_def)
next
  case (Nd c l a r)
  have w: "wft h (rb_root T) (fill CTop (Nd c l a r))" using assms Nd by simp
  show ?thesis using leftmost_focus [OF w] focus_reads(6) [OF w] assms Nd
    by (cases "inord l") (auto simp: rb_min_def rb_get_min_def wft_def)
qed

text \<open>Iterating \<^verbatim>\<open>rb_next\<close> from \<^verbatim>\<open>rb_min\<close>, as \<^verbatim>\<open>rb_for_each\<close> does.\<close>

lemma rb_for_each_correct:
  assumes "wft h root t" "inord t = xs @ ys"
  shows "rb_for_each h (case ys of [] \<Rightarrow> 0 | y # _ \<Rightarrow> y) = Some ys"
  using assms(2)
proof (induction ys arbitrary: xs)
  case Nil
  then show ?case by (subst rb_for_each.simps) simp
next
  case (Cons y ys)
  have "y \<noteq> 0" using rtree_nonzero [of h 0 t y] assms(1) Cons.prems(1) by (simp add: wft_def)
  then show ?case
    using Cons.IH [of "xs @ [y]"] Cons.prems rb_next_correct [OF assms(1), of xs y ys]
    by (subst rb_for_each.simps) simp
qed

lemma lower_loop_correct:
  assumes "rtree h par t" "bst cmp t" "cmp_ok cmp (insert key (set (inord t)))"
  shows "rb_lower_loop cmp h key (addr t) res =
    Some (case find (\<lambda>a. cmp key a \<le> 0) (inord t) of None \<Rightarrow> res | Some a \<Rightarrow> a)"
  using assms
proof (induction t arbitrary: par res)
  case Lf
  then show ?case by (subst rb_lower_loop.simps) simp
next
  case (Nd c l a r)
  obtain n where n: "h a = Some n" "rb_left n = addr l" "rb_right n = addr r" "a \<noteq> 0"
    using Nd.prems(1) by (auto simp: node_at_def node_is_def)
  have order: "\<forall>x\<in>set (inord l). cmp x a < 0" "bst cmp l" "bst cmp r" "rtree h a l" "rtree h a r"
    using Nd.prems by (auto simp: bst_def sorted_wrt_append)
  have ok: "cmp_ok cmp (insert key (set (inord l)))" "cmp_ok cmp (insert key (set (inord r)))"
    using cmp_ok_mono [OF Nd.prems(3)] by auto
  note law = cmp_okD [OF Nd.prems(3)]
  show ?case
  proof (cases "cmp key a \<le> 0")
    case True
    then show ?thesis
      using n Nd.IH(1) [OF order(4,2) ok(1), of a]
      by (subst rb_lower_loop.simps) (simp add: get_left_def find_append split: option.splits)
  next
    case False
    then have "cmp a key < 0" using law(1) [of a key] by simp
    then have "cmp key x > 0" if "x \<in> set (inord l)" for x
      using law(2) [of x a key] law(1) [of x key] order(1) that by simp
    then have "find (\<lambda>a. cmp key a \<le> 0) (inord l) = None" by (fastforce simp: find_None_iff)
    then show ?thesis
      using n False Nd.IH(2) [OF order(5,3) ok(2), of res]
      by (subst rb_lower_loop.simps) (simp add: get_right_def find_append)
  qed
qed

end
