(* ===== verification/Rb_Tree_Delete.thy ===== *)
theory Rb_Tree_Delete
  imports Rb_Tree_Search
begin

text \<open>
  Removal from the red-black tree. From a tree that satisfies the red-black invariant the
  code always returns (no NULL dereference, no endless loop), removes exactly the given
  node, keeps the order, the no-red-red condition and the black root. It does not keep the
  equal black heights: \<^verbatim>\<open>rb_delete_fixup_sibling_black_child_red\<close> leaves the new top of the
  rotated subtree black also where the old top was red.
\<close>

section \<open>Composed contexts\<close>

fun ccat :: "rctx \<Rightarrow> rctx \<Rightarrow> rctx" where
  "ccat CTop K = K"
| "ccat (CLeft c a r M) K = CLeft c a r (ccat M K)"
| "ccat (CRight c l a M) K = CRight c l a (ccat M K)"

lemma fill_ccat: "fill (ccat M K) t = fill K (fill M t)"
  by (induction M arbitrary: t) auto

lemma cpar_ccat: "cpar (ccat M K) = (if M = CTop then cpar K else cpar M)"
  by (cases M) auto

lemma croot_ccat: "M \<noteq> CTop \<Longrightarrow> croot p (ccat M K) = croot q (ccat M K)"
  by (cases M) auto

lemma ccat_before_after:
  "cbefore (ccat M K) = cbefore K @ cbefore M" "cafter (ccat M K) = cafter M @ cafter K"
  by (induction M) auto

lemma ccat_readdress:
  "cinvc (ccat M (CRight c l a K)) = cinvc (ccat M (CRight c l b K))"
  "cbh (ccat M (CRight c l a K)) n = cbh (ccat M (CRight c l b K)) n"
  "cred (ccat M (CRight c l a K)) = cred (ccat M (CRight c l b K))"
  "ccat M (CRight c l a K) \<noteq> CTop"
proof -
  have 1: "cred (ccat M (CRight c l a K)) = cred (ccat M (CRight c l b K))" "ccat M (CRight c l a K) \<noteq> CTop"
    "ccat M (CRight c l b K) \<noteq> CTop" for M
    by (cases M; simp)+
  show "cinvc (ccat M (CRight c l a K)) = cinvc (ccat M (CRight c l b K))"
    by (induction M) (auto simp: 1)
  show "cbh (ccat M (CRight c l a K)) n = cbh (ccat M (CRight c l b K)) n"
    by (induction M arbitrary: n) auto
qed (cases M; simp)+

text \<open>The successor of a node: the leftmost node of its right subtree.\<close>

lemma leftmost_split:
  "t \<noteq> Lf \<Longrightarrow> \<exists>M c s r. t = fill M (Nd c Lf s r) \<and> hd (inord t) = s \<and> cbefore M = [] \<and> (M = CTop \<or> cpar M \<in> set (cafter M))"
proof (induction t)
  case (Nd c l a r)
  show ?case
  proof (cases "l = Lf")
    case True
    then show ?thesis by (intro exI [of _ CTop] exI [of _ c] exI [of _ a] exI [of _ r]) simp
  next
    case False
    then obtain M c2 s r2 where M: "l = fill M (Nd c2 Lf s r2)" "hd (inord l) = s" "cbefore M = []"
      "M = CTop \<or> cpar M \<in> set (cafter M)" using Nd.IH(1) by blast
    have "inord l \<noteq> []" using False by (cases l) auto
    then show ?thesis using M
      by (intro exI [of _ "ccat M (CLeft c a r CTop)"] exI [of _ c2] exI [of _ s] exI [of _ r2])
        (auto simp: fill_ccat cpar_ccat ccat_before_after hd_append)
  qed
qed simp

section \<open>Transplanting\<close>

definition tlink :: "usize_ptr \<Rightarrow> usize_ptr \<Rightarrow> usize_ptr \<Rightarrow> usize_ptr \<times> rb_heap \<Rightarrow> (usize_ptr \<times> rb_heap) option" where
  "tlink parent old_node new_node = (\<lambda>(root, h).
     if parent = NULL then Some (new_node, h)
     else do {
       pl \<leftarrow> get_left h parent;
       h \<leftarrow> (if old_node = pl then set_left parent new_node h else set_right parent new_node h);
       Some (root, h) })"

lemma rb_transplant_eq:
  "rb_transplant old_node new_node (root, h) = do {
     parent \<leftarrow> get_parent h old_node;
     (root, h) \<leftarrow> tlink parent old_node new_node (root, h);
     h \<leftarrow> (if new_node \<noteq> NULL then set_parent new_node parent h else Some h);
     Some (root, h) }"
  by (simp add: rb_transplant_def tlink_def)

lemma tlink_focus:
  assumes ctx: "hctx h p K" and d: "distinct (cbefore K @ cafter K)" "p \<noteq> 0" "p \<notin> set (cbefore K) \<union> set (cafter K)"
  shows "\<exists>h'. tlink (cpar K) p q (croot p K, h) = Some (croot q K, h') \<and> hctx h' q K \<and>
    same_outside (cbefore K @ cafter K) h h'"
proof -
  have "tlink (cpar K) p q (croot p K, h) = write_link (clink K) q (croot p K, h)"
  proof (cases K)
    case CTop
    then show ?thesis by (simp add: tlink_def write_link_def)
  next
    case (CLeft c a r K2)
    then show ?thesis using ctx
      by (auto simp: tlink_def write_link_def node_at_def node_is_def get_left_def)
  next
    case (CRight c l a K2)
    then have "addr l \<noteq> p" using d(2,3) by (intro addr_neq) auto
    then show ?thesis using ctx CRight
      by (auto simp: tlink_def write_link_def node_at_def node_is_def get_left_def)
  qed
  then show ?thesis using write_clink [OF ctx d(1)] by simp
qed

text \<open>Replacing a node by one of its subtrees.\<close>

lemma transplant_child:
  assumes wf: "wft h root (fill K (Nd c l a r))" and u: "u = l \<or> u = r"
  shows "\<exists>h'. rb_transplant a (addr u) (root, h) = Some (croot (addr u) K, h') \<and>
    wft h' (croot (addr u) K) (fill K u) \<and> same_outside (inord u @ cbefore K @ cafter K) h h'"
proof -
  have w: "root = croot a K" "hctx h a K" "rtree h a u" using wf u by (auto simp: wft_fill)
  have d: "distinct (cbefore K @ (inord l @ a # inord r) @ cafter K)" using wf by (simp add: wft_fill)
  have dK: "distinct (cbefore K @ cafter K)" "a \<notin> set (cbefore K) \<union> set (cafter K)" using d by auto
  have du: "distinct (inord u)" "\<And>x. x \<in> set (inord u) \<Longrightarrow> x \<notin> set (cbefore K) \<and> x \<notin> set (cafter K)"
    "distinct (cbefore K @ inord u @ cafter K)"
    using d u by auto
  obtain h1 where h1: "tlink (cpar K) a (addr u) (croot a K, h) = Some (croot (addr u) K, h1)" "hctx h1 (addr u) K"
    "same_outside (cbefore K @ cafter K) h h1"
    using tlink_focus [OF w(2) dK(1) focus_reads(6) [OF wf] dK(2)] by blast
  have "rtree h1 a u"
    using w(3) h1(3) du(2) by (subst rtree_cong [of u h1 h]) (auto simp: same_outside_def)
  then obtain h2 where h2: "(if addr u \<noteq> NULL then set_parent (addr u) (cpar K) h1 else Some h1) = Some h2"
    "rtree h2 (cpar K) u" "same_outside (inord u) h1 h2"
    using reparent [OF _ du(1) cpar_aligned [OF w(2)]] by blast
  have "hctx h2 (addr u) K"
    using h1(2) h2(3) du(2) by (subst hctx_cong [of K h2 h1]) (auto simp: same_outside_def)
  then have "wft h2 (croot (addr u) K) (fill K u)" using h2(2) du(3) by (auto simp: wft_fill)
  moreover have "rb_transplant a (addr u) (root, h) = Some (croot (addr u) K, h2)"
    using focus_reads(1) [OF wf] h1(1) h2(1) w(1) by (simp add: rb_transplant_eq)
  moreover have "same_outside (inord u @ cbefore K @ cafter K) h h2"
    using h1(3) h2(3) by (auto simp: same_outside_def)
  ultimately show ?thesis by blast
qed

section \<open>The node with two children\<close>

lemma copy_color_bits:
  fixes p w :: usize_ptr
  assumes "aligned p"
  shows "(p OR (w AND RB_COLOR)) AND NOT RB_FLAGS = p" "(p OR (w AND RB_COLOR)) AND RB_COLOR = w AND RB_COLOR"
proof -
  have m: "RB_FLAGS = mask 2" "RB_COLOR = mask 1" by (simp_all add: RB_FLAGS_def RB_COLOR_def mask_eq_exp_minus_1)
  have pb: "\<not> bit p n" if "n < 2" for n
  proof
    assume b: "bit p n"
    then have "n < 32" using bit_imp_le_length [of p n] by simp
    then have "bit (p AND RB_FLAGS) n" using b that by (simp add: m bit_simps)
    with assms show False by (simp add: aligned_def)
  qed
  show "(p OR (w AND RB_COLOR)) AND NOT RB_FLAGS = p" "(p OR (w AND RB_COLOR)) AND RB_COLOR = w AND RB_COLOR"
    unfolding m by (rule bit_word_eqI; use pb in \<open>auto simp: bit_simps\<close>)+
qed

lemma set_color_to_other_eq:
  assumes "h x = Some nx" "node_is nx p c l r" "h y = Some ny" "node_is ny p' c' l' r'" "aligned p"
  shows "\<exists>n. set_color_to_other x y h = Some (h(x \<mapsto> n)) \<and> node_is n p c' l r"
proof -
  let ?n = "nx\<lparr>parent_color := p OR (parent_color ny AND RB_COLOR)\<rparr>"
  have "set_color_to_other x y h = Some (h(x \<mapsto> ?n))"
    using assms(1-4) by (simp add: set_color_to_other_def get_parent_def node_is_def)
  moreover have "node_is ?n p c' l r"
    using assms(2,4) copy_color_bits [OF assms(5)] by (simp add: node_is_def)
  ultimately show ?thesis by blast
qed

text \<open>
  The second half of \<^verbatim>\<open>rb_delete_configure_nuclear_node\<close>: the successor \<open>s\<close>, whose right
  subtree is already \<open>R\<close>, takes the place, the colour and the left subtree of the node \<open>a\<close>.
\<close>

lemma replace_by_successor:
  assumes a: "node_at h a (cpar K) c (addr l) x" "hctx h a K" "rtree h a l"
    and s: "h s = Some ns" "s \<noteq> 0" "aligned s" "rb_right ns = addr R" "rtree h s R"
    and d: "distinct (cbefore K @ (inord l @ [a, s] @ inord R) @ cafter K)"
  shows "\<exists>s'. do {
      st \<leftarrow> rb_transplant a s (croot a K, h);
      h \<leftarrow> set_color_to_other s a (snd st);
      dl \<leftarrow> get_left h a;
      h \<leftarrow> set_left s dl h;
      h \<leftarrow> (if dl \<noteq> NULL then set_parent dl s h else Some h);
      h \<leftarrow> set_color_to_other a s h;
      Some (fst st, h) } = Some s' \<and> wft (snd s') (fst s') (fill K (Nd c l s R)) \<and>
    same_outside (inord l @ [a, s] @ cbefore K @ cafter K) h (snd s')"
proof -
  obtain na where na: "h a = Some na" "node_is na (cpar K) c (addr l) x" "a \<noteq> 0" "aligned a"
    using a(1) by (auto simp: node_at_def)
  have dK: "distinct (cbefore K @ cafter K)" "a \<notin> set (cbefore K) \<union> set (cafter K)"
    and ds: "s \<notin> set (cbefore K) \<union> set (cafter K)" "a \<noteq> s" "s \<notin> set (inord l)" "a \<notin> set (inord l)"
    using d by auto
  obtain h1 where h1: "tlink (cpar K) a s (croot a K, h) = Some (croot s K, h1)" "hctx h1 s K"
    "same_outside (cbefore K @ cafter K) h h1"
    using tlink_focus [OF a(2) dK(1) na(3) dK(2)] by blast
  note al = cpar_aligned [OF a(2)]
  have h1v: "h1 a = Some na" "h1 s = Some ns" using h1(3) dK ds na(1) s(1) by (auto simp: same_outside_def)
  define n2 where "n2 = ns\<lparr>parent_color := (parent_color ns AND RB_FLAGS) OR cpar K\<rparr>"
  have n2: "node_is n2 (cpar K) (parent_color ns AND RB_COLOR \<noteq> 0) (rb_left ns) (addr R)"
    using node_is_updates(1) [of ns "parent_color ns AND NOT RB_FLAGS" _ "rb_left ns" "rb_right ns" "cpar K"] al s(4)
    by (simp add: n2_def node_is_def)
  define h2 where "h2 = h1(s \<mapsto> n2)"
  have t: "rb_transplant a s (croot a K, h) = Some (croot s K, h2)"
    using na h1(1) h1v s(2) by (simp add: rb_transplant_eq get_parent_def node_is_def set_parent_def h2_def n2_def)
  obtain n3 where n3: "set_color_to_other s a h2 = Some (h2(s \<mapsto> n3))" "node_is n3 (cpar K) c (rb_left ns) (addr R)"
    using set_color_to_other_eq [of h2 s n2 _ _ _ _ a na, OF _ n2 _ na(2) al] h1v ds(2) by (auto simp: h2_def)
  define h4 where "h4 = h2(s \<mapsto> n3\<lparr>rb_left := addr l\<rparr>)"
  have n4: "node_is (n3\<lparr>rb_left := addr l\<rparr>) (cpar K) c (addr l) (addr R)" using node_is_updates(4) [OF n3(2)] .
  have "rtree h4 a l"
  proof (subst rtree_cong [of l h4 h])
    fix y assume "y \<in> set (inord l)"
    then have "y \<notin> set (cbefore K) \<union> set (cafter K)" "y \<noteq> s" using d by auto
    then show "h4 y = h y" using h1(3) by (simp add: h4_def h2_def same_outside_def)
  qed (rule a(3))
  then obtain h5 where h5: "(if addr l \<noteq> NULL then set_parent (addr l) s h4 else Some h4) = Some h5" "rtree h5 s l"
    "same_outside (inord l) h4 h5"
    using reparent [of h4 a l s] d s(3) by auto
  have h5v: "h5 s = Some (n3\<lparr>rb_left := addr l\<rparr>)" "h5 a = Some na"
    using h5(3) ds h1v by (auto simp: same_outside_def h4_def h2_def)
  obtain n6 where n6: "set_color_to_other a s h5 = Some (h5(a \<mapsto> n6))"
    using set_color_to_other_eq [of h5 a na _ _ _ _ s, OF h5v(2) na(2) h5v(1) n4 al] by blast
  define h6 where "h6 = h5(a \<mapsto> n6)"
  have "rtree h6 s l" using h5(2) ds by (subst rtree_cong [of l h6 h5]) (auto simp: h6_def)
  moreover have "rtree h6 s R"
  proof (subst rtree_cong [of R h6 h])
    fix y assume "y \<in> set (inord R)"
    then have "y \<notin> set (cbefore K) \<union> set (cafter K)" "y \<noteq> s" "y \<noteq> a" "y \<notin> set (inord l)" using d by auto
    then show "h6 y = h y" using h1(3) h5(3) by (simp add: h6_def h4_def h2_def same_outside_def)
  qed (rule s(5))
  moreover have "hctx h6 s K"
  proof (subst hctx_cong [of K h6 h1])
    fix y assume "y \<in> set (cbefore K) \<union> set (cafter K)"
    then have "y \<noteq> s" "y \<noteq> a" "y \<notin> set (inord l)" using d by auto
    then show "h6 y = h1 y" using h5(3) by (simp add: h6_def h4_def h2_def same_outside_def)
  qed (rule h1(2))
  moreover have "node_at h6 s (cpar K) c (addr l) (addr R)"
    using n4 h5v(1) ds(2) s(2,3) by (auto simp: node_at_def h6_def)
  moreover have "distinct (cbefore K @ inord (Nd c l s R) @ cafter K)" using d by auto
  ultimately have "wft h6 (croot s K) (fill K (Nd c l s R))" by (auto simp: wft_fill)
  moreover have "same_outside (inord l @ [a, s] @ cbefore K @ cafter K) h h6"
    using h1(3) h5(3) by (auto simp: same_outside_def h6_def h4_def h2_def)
  moreover have "get_left (h2(s \<mapsto> n3)) a = Some (addr l)" "set_left s (addr l) (h2(s \<mapsto> n3)) = Some h4"
    using h1v ds(2) na(2) by (auto simp: get_left_def set_left_def h2_def h4_def node_is_def)
  ultimately show ?thesis
    using t n3(1) h5(1) n6 by (intro exI [of _ "(croot s K, h6)"]) (simp add: h6_def)
qed

text \<open>
  What unlinking a node leaves: a subtree \<open>X\<close> in a context \<open>Kx\<close>, and, when the unlinked
  position was black, a black height that is one too small at \<open>X\<close>.
\<close>

definition unlinked :: "rb_heap \<Rightarrow> usize_ptr list \<Rightarrow> usize_ptr list \<Rightarrow>
    ((usize_ptr \<times> rb_heap) \<times> bool \<times> usize_ptr \<times> usize_ptr) option \<Rightarrow> bool" where
  "unlinked h touched rest res \<longleftrightarrow> (\<exists>s' b X Kx n. res = Some (s', b, addr X, cpar Kx) \<and>
     wft (snd s') (fst s') (fill Kx X) \<and> inord (fill Kx X) = rest \<and> cinvc Kx \<and> invc X \<and>
     bh X n \<and> cbh Kx (if b then Suc n else n) \<and> (b \<or> \<not> red X) \<and> same_outside touched h (snd s'))"

lemma unlinkedI:
  "res = Some (s', b, addr X, cpar Kx) \<Longrightarrow> wft (snd s') (fst s') (fill Kx X) \<Longrightarrow> inord (fill Kx X) = rest \<Longrightarrow>
   cinvc Kx \<Longrightarrow> invc X \<Longrightarrow> bh X n \<Longrightarrow> cbh Kx (if b then Suc n else n) \<Longrightarrow> b \<or> \<not> red X \<Longrightarrow>
   same_outside touched h (snd s') \<Longrightarrow> unlinked h touched rest res"
  unfolding unlinked_def by blast

lemma focus_invariants:
  assumes "rb_inv (fill K (Nd c l a r))"
  obtains n where "cinvc K" "invc (Nd c l a r)" "bh (Nd c l a r) n" "cbh K n"
  using assms invc_fill_split [of K "Nd c l a r"] bh_fill_split [of K "Nd c l a r"] unfolding rb_inv_def by blast

lemma unlink_one_child:
  assumes wf: "wft h root (fill K (Nd c l a r))" and inv: "rb_inv (fill K (Nd c l a r))"
    and lr: "l = Lf \<and> u = r \<or> r = Lf \<and> u = l"
  shows "unlinked h (inord (fill K (Nd c l a r))) (cbefore K @ inord l @ inord r @ cafter K)
    (do { p \<leftarrow> get_parent h a; b \<leftarrow> is_black h a; s \<leftarrow> rb_transplant a (addr u) (root, h); Some (s, b, addr u, p) })"
proof -
  obtain n where n: "cinvc K" "invc (Nd c l a r)" "bh (Nd c l a r) n" "cbh K n" using inv by (rule focus_invariants)
  have "u = l \<or> u = r" using lr by auto
  from transplant_child [OF wf this] obtain h' where h': "rb_transplant a (addr u) (root, h) = Some (croot (addr u) K, h')"
    "wft h' (croot (addr u) K) (fill K u)" "same_outside (inord u @ cbefore K @ cafter K) h h'" by blast
  have u: "invc u" "c \<longrightarrow> \<not> red u" using n(2) lr by auto
  obtain k where k: "bh u k" "n = (if \<not> c then Suc k else k)" using n(3) lr by (auto split: if_splits)
  show ?thesis
  proof (rule unlinkedI [where s' = "(croot (addr u) K, h')" and b = "\<not> c" and X = u and Kx = K and n = k])
    show "do { p \<leftarrow> get_parent h a; b \<leftarrow> is_black h a; s \<leftarrow> rb_transplant a (addr u) (root, h); Some (s, b, addr u, p) }
        = Some ((croot (addr u) K, h'), \<not> c, addr u, cpar K)"
      using focus_reads(1,5) [OF wf] h'(1) by simp
    show "same_outside (inord (fill K (Nd c l a r))) h (snd (croot (addr u) K, h'))"
      using h'(3) lr by (auto simp: same_outside_def inord_fill)
  qed (use h'(2) n k u lr in \<open>auto simp: inord_fill\<close>)
qed

lemma unlink_two_children:
  assumes wf: "wft h root (fill K (Nd c l a r))" and inv: "rb_inv (fill K (Nd c l a r))" and r: "r \<noteq> Lf"
  shows "unlinked h (inord (fill K (Nd c l a r))) (cbefore K @ inord l @ inord r @ cafter K)
    (rb_delete_configure_nuclear_node a (root, h))"
proof -
  obtain M cs s sr where M: "r = fill M (Nd cs Lf s sr)" "hd (inord r) = s" "cbefore M = []" "M = CTop \<or> cpar M \<in> set (cafter M)"
    using leftmost_split [OF r] by blast
  let ?K1 = "ccat M (CRight c l a K)" and ?K2 = "ccat M (CRight c l s K)"
  have T1: "fill K (Nd c l a r) = fill ?K1 (Nd cs Lf s sr)" by (simp add: M(1) fill_ccat)
  have ws: "wft h root (fill ?K1 (Nd cs Lf s sr))" using wf T1 by simp
  obtain k where k: "cinvc ?K1" "invc (Nd cs Lf s sr)" "bh (Nd cs Lf s sr) k" "cbh ?K1 k"
    using focus_invariants [of ?K1 cs Lf s sr] inv T1 by metis
  have d: "distinct (cbefore K @ (inord l @ a # (s # inord sr @ cafter M)) @ cafter K)"
    using wf M by (simp add: wft_fill inord_fill)
  obtain cr lr ar rr where rN: "r = Nd cr lr ar rr" using r by (cases r) auto
  have wr: "wft h root (fill (CRight c l a K) (Nd cr lr ar rr))" using wf rN by simp
  have succ: "rb_find_successor h a = Some s"
    using focus_reads(3) [OF wf] focus_reads(6) [OF wr] leftmost_focus [OF wr] M(2) rN by (simp add: rb_find_successor_def)
  have rds: "is_black h s = Some (\<not> cs)" "get_right h s = Some (addr sr)" "get_parent h s = Some (cpar ?K1)" "s \<noteq> 0" "aligned s"
    using focus_reads [OF ws] by auto
  obtain ns where ns: "h s = Some ns" "rb_right ns = addr sr" using rds(2) by (auto simp: get_right_def)
  have wK: "root = croot a K" "hctx h a K" "rtree h a l" "node_at h a (cpar K) c (addr l) (addr r)" using wf by (auto simp: wft_fill)
  let ?tail = "\<lambda>st. do {
      st \<leftarrow> rb_transplant a s st;
      h \<leftarrow> set_color_to_other s a (snd st);
      dl \<leftarrow> get_left h a;
      h \<leftarrow> set_left s dl h;
      h \<leftarrow> (if dl \<noteq> NULL then set_parent dl s h else Some h);
      h \<leftarrow> set_color_to_other a s h;
      Some (fst st, h) }"
  have finish: "unlinked h (inord (fill K (Nd c l a r))) (cbefore K @ inord l @ inord r @ cafter K)
      (rb_delete_configure_nuclear_node a (root, h))"
    if run: "rb_delete_configure_nuclear_node a (root, h) = do { st \<leftarrow> ?tail st0; Some (st, \<not> cs, addr sr, cpar ?K2) }"
      and res: "?tail st0 = Some s'" "wft (snd s') (fst s') (fill K (Nd c l s (fill M sr)))"
      "same_outside (inord (fill K (Nd c l a r))) h (snd s')" for st0 s'
  proof (rule unlinkedI [where s' = s' and b = "\<not> cs" and X = sr and Kx = ?K2 and n = "if cs then k else k - 1"])
    show "rb_delete_configure_nuclear_node a (root, h) = Some (s', \<not> cs, addr sr, cpar ?K2)" using run res(1) by simp
    show "wft (snd s') (fst s') (fill ?K2 sr)" using res(2) by (simp add: fill_ccat)
    show "cbh ?K2 (if \<not> cs then Suc (if cs then k else k - 1) else (if cs then k else k - 1))"
      using k(3,4) ccat_readdress(2) [of M c l a K k s] by (auto split: if_splits)
  qed (use k res(3) M ccat_readdress(1) [of M c l a K s] in \<open>auto simp: fill_ccat inord_fill split: if_splits\<close>)
  show ?thesis
  proof (cases "M = CTop")
    case True
    then have rS: "r = Nd cs Lf s sr" using M(1) by simp
    have "rtree h s sr" using wf rS by (auto simp: wft_fill)
    from replace_by_successor [OF wK(4,2,3) ns(1) rds(4,5) ns(2) this] d True obtain s' where
      s': "?tail (root, h) = Some s'" "wft (snd s') (fst s') (fill K (Nd c l s sr))"
      "same_outside (inord l @ [a, s] @ cbefore K @ cafter K) h (snd s')"
      using wK(1) by auto
    have "rb_delete_configure_nuclear_node a (root, h) = do { st \<leftarrow> ?tail (root, h); Some (st, \<not> cs, addr sr, cpar ?K2) }"
      using succ rds True by (simp add: rb_delete_configure_nuclear_node_def)
    then show ?thesis using finish s' True rS by (auto simp: same_outside_def inord_fill)
  next
    case False
    have pa: "cpar ?K1 \<noteq> a" "cpar ?K1 = cpar M" "cpar ?K2 = cpar M" using M(4) False d by (auto simp: cpar_ccat)
    obtain h1 where h1: "rb_transplant s (addr sr) (root, h) = Some (croot (addr sr) ?K1, h1)"
      "wft h1 (croot (addr sr) ?K1) (fill ?K1 sr)" "same_outside (inord sr @ cbefore ?K1 @ cafter ?K1) h h1"
      using transplant_child [OF ws, of sr] by blast
    have root1: "croot (addr sr) ?K1 = root"
      using ws croot_ccat [OF False, of "addr sr" _ s] by (simp add: wft_fill)
    let ?R = "fill M sr"
    have w1: "wft h1 root (fill K (Nd c l a ?R))" using h1(2) root1 by (simp add: fill_ccat)
    have w1': "hctx h1 a K" "rtree h1 a l" "rtree h1 a ?R" "node_at h1 a (cpar K) c (addr l) (addr ?R)"
      using w1 by (auto simp: wft_fill)
    have h1s: "h1 s = Some ns"
      using h1(3) d ns(1) M(3) by (auto simp: same_outside_def ccat_before_after)
    have dR: "inord ?R = inord sr @ cafter M" by (simp add: inord_fill M(3))
    define h2 where "h2 = h1(s \<mapsto> ns\<lparr>rb_right := addr ?R\<rparr>)"
    have "rtree h2 a ?R" using w1'(3) d by (subst rtree_cong [of ?R h2 h1]) (auto simp: h2_def dR)
    then obtain h3 where h3: "(if addr ?R \<noteq> NULL then set_parent (addr ?R) s h2 else Some h2) = Some h3" "rtree h3 s ?R"
      "same_outside (inord ?R) h2 h3"
      using reparent [of h2 a ?R s] d rds(5) dR by auto
    have keep: "h3 y = h1 y" if "y \<in> set (cbefore K) \<union> set (cafter K) \<union> set (inord l) \<union> {a}" for y
    proof -
      have "y \<noteq> s" "y \<notin> set (inord ?R)" using that d by (auto simp: dR)
      then show ?thesis using h3(3) by (simp add: same_outside_def h2_def)
    qed
    have c3: "hctx h3 a K" "rtree h3 a l" "node_at h3 a (cpar K) c (addr l) (addr ?R)"
      using w1' keep hctx_cong [of K h3 h1] rtree_cong [of l h3 h1] node_at_cong [of h3 a h1] by auto
    have h3s: "h3 s = Some (ns\<lparr>rb_right := addr ?R\<rparr>)" using h3(3) d by (auto simp: same_outside_def h2_def dR)
    have d3: "distinct (cbefore K @ (inord l @ [a, s] @ inord ?R) @ cafter K)" using d by (simp add: dR)
    from replace_by_successor [OF c3(3,1,2) h3s rds(4,5) _ h3(2) d3] obtain s' where
      s': "?tail (root, h3) = Some s'" "wft (snd s') (fst s') (fill K (Nd c l s ?R))"
      "same_outside (inord l @ [a, s] @ cbefore K @ cafter K) h3 (snd s')" using wK(1) by auto
    have "get_right h1 a = Some (addr ?R)" "set_right s (addr ?R) h1 = Some h2"
      using focus_reads(3) [OF w1] h1s by (auto simp: set_right_def h2_def)
    then have "rb_delete_configure_nuclear_node a (root, h) = do { st \<leftarrow> ?tail (root, h3); Some (st, \<not> cs, addr sr, cpar ?K2) }"
      using succ rds pa h1(1) root1 h3(1) by (simp add: rb_delete_configure_nuclear_node_def)
    moreover have "same_outside (inord (fill K (Nd c l a r))) h (snd s')"
      using h1(3) h3(3) s'(3) by (auto simp: same_outside_def h2_def dR inord_fill M(1,3) ccat_before_after)
    ultimately show ?thesis using finish s'(1,2) by blast
  qed
qed

lemma configure_delete_correct:
  assumes wf: "wft h root (fill K (Nd c l a r))" and inv: "rb_inv (fill K (Nd c l a r))"
  shows "unlinked h (inord (fill K (Nd c l a r))) (cbefore K @ inord l @ inord r @ cafter K) (rb_configure_delete a (root, h))"
proof -
  have z: "addr l = 0 \<longleftrightarrow> l = Lf" "addr r = 0 \<longleftrightarrow> r = Lf"
    using wf rtree_addr_zero by (auto simp: wft_fill)
  have "rb_configure_delete a (root, h) =
      (if l = Lf then do { p \<leftarrow> get_parent h a; b \<leftarrow> is_black h a; s \<leftarrow> rb_transplant a (addr r) (root, h); Some (s, b, addr r, p) }
       else if r = Lf then do { p \<leftarrow> get_parent h a; b \<leftarrow> is_black h a; s \<leftarrow> rb_transplant a (addr l) (root, h); Some (s, b, addr l, p) }
       else rb_delete_configure_nuclear_node a (root, h))"
    using focus_reads(2,3) [OF wf] z by (simp add: rb_configure_delete_def)
  then show ?thesis
    using unlink_one_child [OF wf inv, of r] unlink_one_child [OF wf inv, of l] unlink_two_children [OF wf inv]
    by (cases "l = Lf"; cases "r = Lf") simp_all
qed

section \<open>Rebalancing\<close>

text \<open>A black sibling with a red child: the rotations at the parent.\<close>

lemma child_red_left:
  assumes wf: "wft h root (fill K (Nd c X p (Nd False C s D)))" and red: "red C \<or> red D"
  shows "\<exists>s' t'. rb_delete_fixup_sibling_black_child_red p s True (root, h) = Some s' \<and>
    wft (snd s') (fst s') (fill K t') \<and> inord t' = inord (Nd c X p (Nd False C s D)) \<and>
    (invc X \<longrightarrow> invc C \<longrightarrow> invc D \<longrightarrow> invc t') \<and> \<not> red t' \<and> (\<forall>n. bh X n \<longrightarrow> bh C n \<longrightarrow> bh D n \<longrightarrow> bh t' (Suc (Suc n))) \<and>
    same_outside (inord (fill K (Nd c X p (Nd False C s D)))) h (snd s')"
proof -
  let ?T = "inord (fill K (Nd c X p (Nd False C s D)))"
  have wS: "wft h root (fill (CRight c X p K) (Nd False C s D))" using wf by simp
  have wC: "wft h root (fill (CLeft False s D (CRight c X p K)) C)" using wf by simp
  note rS = focus_reads [OF wS] and rC = focus_color [OF wC]
  have line: "\<exists>s'. do { h \<leftarrow> set_black p h1; sr \<leftarrow> get_right h q; h \<leftarrow> (if sr \<noteq> NULL then set_black sr h else Some h);
        rb_rotate_left p (root1, h) } = Some s' \<and>
      wft (snd s') (fst s') (fill K (Nd False (Nd False X p E) q (Nd False F f G))) \<and>
      same_outside (inord (fill K (Nd c X p (Nd False E q (Nd True F f G))))) h1 (snd s')"
    if w: "wft h1 root1 (fill K (Nd c X p (Nd False E q (Nd True F f G))))" for h1 root1 E q F f G
  proof -
    obtain h2 where h2: "set_black p h1 = Some h2" "wft h2 root1 (fill K (Nd False X p (Nd False E q (Nd True F f G))))"
      "same_outside (inord (fill K (Nd c X p (Nd False E q (Nd True F f G))))) h1 h2"
      using set_color_focus(2) [OF w] by blast
    have w2: "wft h2 root1 (fill (CRight False X p K) (Nd False E q (Nd True F f G)))"
      "wft h2 root1 (fill (CRight False E q (CRight False X p K)) (Nd True F f G))" using h2(2) by simp_all
    obtain h3 where h3: "set_black f h2 = Some h3" "wft h3 root1 (fill K (Nd False X p (Nd False E q (Nd False F f G))))"
      "same_outside (inord (fill K (Nd c X p (Nd False E q (Nd True F f G))))) h2 h3"
      using set_color_focus(2) [OF w2(2)] by (auto simp: inord_fill)
    obtain root4 h4 where h4: "rb_rotate_left p (root1, h3) = Some (root4, h4)"
      "wft h4 root4 (fill K (Nd False (Nd False X p E) q (Nd False F f G)))"
      "same_outside (inord (fill K (Nd False X p (Nd False E q (Nd False F f G))))) h3 h4"
      using rotate_left_focus [OF h2(2)] rotate_left_focus [OF h3(2)] by blast
    show ?thesis
      using h2(1,3) h3(1,3) h4 focus_reads(3) [OF w2(1)] focus_reads(6) [OF w2(2)]
      by (auto simp: same_outside_def inord_fill)
  qed
  show ?thesis
  proof (cases "red C")
    case True
    then obtain C1 x C2 where C: "C = Nd True C1 x C2" by (cases C) auto
    obtain h1 where h1: "set_black x h = Some h1" "wft h1 root (fill (CRight c X p K) (Nd False (Nd False C1 x C2) s D))"
      "same_outside ?T h h1"
      using set_color_focus(2) [OF wC [unfolded C]] C by auto
    obtain h2 where h2: "set_red s h1 = Some h2" "wft h2 root (fill (CRight c X p K) (Nd True (Nd False C1 x C2) s D))"
      "same_outside ?T h1 h2"
      using set_color_focus(1) [OF h1(2)] C by (auto simp: inord_fill)
    obtain root3 h3 where h3: "rb_rotate_right s (root, h2) = Some (root3, h3)"
      "wft h3 root3 (fill K (Nd c X p (Nd False C1 x (Nd True C2 s D))))" "same_outside ?T h2 h3"
      using rotate_right_focus [OF h2(2)] C by (auto simp: inord_fill)
    obtain s4 where s4: "do { h \<leftarrow> set_black p h3; sr \<leftarrow> get_right h x; h \<leftarrow> (if sr \<noteq> NULL then set_black sr h else Some h);
        rb_rotate_left p (root3, h) } = Some s4"
      "wft (snd s4) (fst s4) (fill K (Nd False (Nd False X p C1) x (Nd False C2 s D)))" "same_outside ?T h3 (snd s4)"
      using line [OF h3(2)] C by (auto simp: inord_fill)
    have xnz: "x \<noteq> 0" using focus_reads(6) [OF wC [unfolded C]] .
    have "rb_delete_fixup_sibling_black_child_red p s True (root, h) = Some s4"
      using rS(2,3) rC(1) True C xnz h1(1) h2(1) h3(1) focus_reads(3) [OF h3(2)] s4(1)
      by (simp add: rb_delete_fixup_sibling_black_child_red_def)
    then show ?thesis using s4 h1(3) h2(3) h3(3) C
      by (intro exI [of _ s4] exI [of _ "Nd False (Nd False X p C1) x (Nd False C2 s D)"]) (auto simp: same_outside_def)
  next
    case False
    then obtain F f G where D: "D = Nd True F f G" using red by (cases D) auto
    obtain s4 where s4: "do { h \<leftarrow> set_black p h; sr \<leftarrow> get_right h s; h \<leftarrow> (if sr \<noteq> NULL then set_black sr h else Some h);
        rb_rotate_left p (root, h) } = Some s4"
      "wft (snd s4) (fst s4) (fill K (Nd False (Nd False X p C) s (Nd False F f G)))" "same_outside ?T h (snd s4)"
      using line [of h root C s F f G] wf D by auto
    have "rb_delete_fixup_sibling_black_child_red p s True (root, h) = Some s4"
      using rS(2,3) rC(1) False s4(1) by (simp add: rb_delete_fixup_sibling_black_child_red_def)
    then show ?thesis using s4 D
      by (intro exI [of _ s4] exI [of _ "Nd False (Nd False X p C) s (Nd False F f G)"]) auto
  qed
qed

lemma child_red_right:
  assumes wf: "wft h root (fill K (Nd c (Nd False D s C) p X))" and red: "red C \<or> red D"
  shows "\<exists>s' t'. rb_delete_fixup_sibling_black_child_red p s False (root, h) = Some s' \<and>
    wft (snd s') (fst s') (fill K t') \<and> inord t' = inord (Nd c (Nd False D s C) p X) \<and>
    (invc X \<longrightarrow> invc C \<longrightarrow> invc D \<longrightarrow> invc t') \<and> \<not> red t' \<and>
    same_outside (inord (fill K (Nd c (Nd False D s C) p X))) h (snd s')"
proof -
  let ?T = "inord (fill K (Nd c (Nd False D s C) p X))"
  have wS: "wft h root (fill (CLeft c p X K) (Nd False D s C))" using wf by simp
  have wC: "wft h root (fill (CRight False D s (CLeft c p X K)) C)" using wf by simp
  note rS = focus_reads [OF wS] and rC = focus_color [OF wC]
  have line: "\<exists>s'. do { h \<leftarrow> set_black p h1; sl \<leftarrow> get_left h q; h \<leftarrow> (if sl \<noteq> NULL then set_black sl h else Some h);
        rb_rotate_right p (root1, h) } = Some s' \<and>
      wft (snd s') (fst s') (fill K (Nd False (Nd False G f F) q (Nd False E p X))) \<and>
      same_outside (inord (fill K (Nd c (Nd False (Nd True G f F) q E) p X))) h1 (snd s')"
    if w: "wft h1 root1 (fill K (Nd c (Nd False (Nd True G f F) q E) p X))" for h1 root1 E q F f G
  proof -
    obtain h2 where h2: "set_black p h1 = Some h2" "wft h2 root1 (fill K (Nd False (Nd False (Nd True G f F) q E) p X))"
      "same_outside (inord (fill K (Nd c (Nd False (Nd True G f F) q E) p X))) h1 h2"
      using set_color_focus(2) [OF w] by blast
    have w2: "wft h2 root1 (fill (CLeft False p X K) (Nd False (Nd True G f F) q E))"
      "wft h2 root1 (fill (CLeft False q E (CLeft False p X K)) (Nd True G f F))" using h2(2) by simp_all
    obtain h3 where h3: "set_black f h2 = Some h3" "wft h3 root1 (fill K (Nd False (Nd False (Nd False G f F) q E) p X))"
      "same_outside (inord (fill K (Nd c (Nd False (Nd True G f F) q E) p X))) h2 h3"
      using set_color_focus(2) [OF w2(2)] by (auto simp: inord_fill)
    obtain root4 h4 where h4: "rb_rotate_right p (root1, h3) = Some (root4, h4)"
      "wft h4 root4 (fill K (Nd False (Nd False G f F) q (Nd False E p X)))"
      "same_outside (inord (fill K (Nd False (Nd False (Nd False G f F) q E) p X))) h3 h4"
      using rotate_right_focus [OF h2(2)] rotate_right_focus [OF h3(2)] by blast
    show ?thesis
      using h2(1,3) h3(1,3) h4 focus_reads(2) [OF w2(1)] focus_reads(6) [OF w2(2)]
      by (auto simp: same_outside_def inord_fill)
  qed
  show ?thesis
  proof (cases "red C")
    case True
    then obtain C1 x C2 where C: "C = Nd True C2 x C1" by (cases C) auto
    obtain h1 where h1: "set_black x h = Some h1" "wft h1 root (fill (CLeft c p X K) (Nd False D s (Nd False C2 x C1)))"
      "same_outside ?T h h1"
      using set_color_focus(2) [OF wC [unfolded C]] C by auto
    obtain h2 where h2: "set_red s h1 = Some h2" "wft h2 root (fill (CLeft c p X K) (Nd True D s (Nd False C2 x C1)))"
      "same_outside ?T h1 h2"
      using set_color_focus(1) [OF h1(2)] C by (auto simp: inord_fill)
    obtain root3 h3 where h3: "rb_rotate_left s (root, h2) = Some (root3, h3)"
      "wft h3 root3 (fill K (Nd c (Nd False (Nd True D s C2) x C1) p X))" "same_outside ?T h2 h3"
      using rotate_left_focus [OF h2(2)] C by (auto simp: inord_fill)
    obtain s4 where s4: "do { h \<leftarrow> set_black p h3; sl \<leftarrow> get_left h x; h \<leftarrow> (if sl \<noteq> NULL then set_black sl h else Some h);
        rb_rotate_right p (root3, h) } = Some s4"
      "wft (snd s4) (fst s4) (fill K (Nd False (Nd False D s C2) x (Nd False C1 p X)))" "same_outside ?T h3 (snd s4)"
      using line [OF h3(2)] C by (auto simp: inord_fill)
    have xnz: "x \<noteq> 0" using focus_reads(6) [OF wC [unfolded C]] .
    have "rb_delete_fixup_sibling_black_child_red p s False (root, h) = Some s4"
      using rS(2,3) rC(1) True C xnz h1(1) h2(1) h3(1) focus_reads(2) [OF h3(2)] s4(1)
      by (simp add: rb_delete_fixup_sibling_black_child_red_def)
    then show ?thesis using s4 h1(3) h2(3) h3(3) C
      by (intro exI [of _ s4] exI [of _ "Nd False (Nd False D s C2) x (Nd False C1 p X)"]) (auto simp: same_outside_def)
  next
    case False
    then obtain F f G where D: "D = Nd True G f F" using red by (cases D) auto
    obtain s4 where s4: "do { h \<leftarrow> set_black p h; sl \<leftarrow> get_left h s; h \<leftarrow> (if sl \<noteq> NULL then set_black sl h else Some h);
        rb_rotate_right p (root, h) } = Some s4"
      "wft (snd s4) (fst s4) (fill K (Nd False (Nd False G f F) s (Nd False C p X)))" "same_outside ?T h (snd s4)"
      using line [of h root G f F s C] wf D by auto
    have "rb_delete_fixup_sibling_black_child_red p s False (root, h) = Some s4"
      using rS(2,3) rC(1) False s4(1) by (simp add: rb_delete_fixup_sibling_black_child_red_def)
    then show ?thesis using s4 D
      by (intro exI [of _ s4] exI [of _ "Nd False (Nd False G f F) s (Nd False C p X)"]) auto
  qed
qed

lemma croot_in: "croot p K = p \<or> croot p K \<in> set (cbefore K) \<union> set (cafter K)"
proof (induction K arbitrary: p)
  case (CLeft c a r K)
  then show ?case by (auto dest: spec [of _ a])
next
  case (CRight c l a K)
  then show ?case by (auto dest: spec [of _ a])
qed simp

text \<open>The loop test: it stops at the root and at a red node, and only there.\<close>

lemma loop_test:
  assumes "wft h root (fill K X)"
  shows "(if addr X \<noteq> root then is_black h (addr X) else Some False) = Some (K \<noteq> CTop \<and> \<not> red X)"
proof (cases "K = CTop")
  case True
  then show ?thesis using assms by (simp add: wft_def)
next
  case False
  have w: "root = croot (addr X) K" "hctx h (addr X) K" "distinct (cbefore K @ inord X @ cafter K)" "rtree h (cpar K) X"
    using assms by (auto simp: wft_fill)
  have "root \<in> set (cbefore K) \<union> set (cafter K)"
    using w(1) False croot_in by (cases K) fastforce+
  then have "root \<noteq> addr X"
    using w(2,3) hctx_nonzero [OF w(2)] addr_in [of X] by (cases "X = Lf") auto
  then show ?thesis using focus_color(2) [OF assms] False by auto
qed

text \<open>
  The state after the loop: the focus \<open>X\<close> is the node that is painted black last, and
  painting it black restores the colour condition.
\<close>

definition loop_done :: "rb_heap \<Rightarrow> usize_ptr list \<Rightarrow> ((usize_ptr \<times> rb_heap) \<times> usize_ptr) option \<Rightarrow> bool" where
  "loop_done h xs res \<longleftrightarrow> (\<exists>s' X K. res = Some (s', addr X) \<and> wft (snd s') (fst s') (fill K X) \<and>
     inord (fill K X) = xs \<and> cinvc K \<and> (\<forall>c l a r. X = Nd c l a r \<longrightarrow> invc l \<and> invc r) \<and>
     (K = CTop \<or> red X) \<and> same_outside xs h (snd s'))"

lemma loop_doneI:
  "res = Some (s', addr X) \<Longrightarrow> wft (snd s') (fst s') (fill K X) \<Longrightarrow> inord (fill K X) = xs \<Longrightarrow> cinvc K \<Longrightarrow>
   (\<And>c l a r. X = Nd c l a r \<Longrightarrow> invc l \<and> invc r) \<Longrightarrow> K = CTop \<or> red X \<Longrightarrow> same_outside xs h (snd s') \<Longrightarrow> loop_done h xs res"
  unfolding loop_done_def by blast

lemma loop_done_mono: "loop_done h1 xs res \<Longrightarrow> same_outside xs h h1 \<Longrightarrow> loop_done h xs res"
  unfolding loop_done_def using same_outside_trans by blast

lemma loop_stops:
  assumes "wft h root (fill K X)" "K = CTop \<or> red X" "cinvc K" "\<And>c l a r. X = Nd c l a r \<Longrightarrow> invc l \<and> invc r"
  shows "loop_done h (inord (fill K X)) (rb_delete_fixup_loop (addr X) (cpar K) (root, h))"
proof (rule loop_doneI [where s' = "(root, h)" and X = X and K = K])
  show "rb_delete_fixup_loop (addr X) (cpar K) (root, h) = Some ((root, h), addr X)"
    using loop_test [OF assms(1)] assms(2) by (subst rb_delete_fixup_loop.simps) auto
qed (use assms in auto)

text \<open>The part of the loop body after the sibling is known to be black.\<close>

definition fixup_black_sibling ::
  "usize_ptr \<Rightarrow> usize_ptr \<Rightarrow> bool \<Rightarrow> usize_ptr \<times> rb_heap \<Rightarrow> ((usize_ptr \<times> rb_heap) \<times> usize_ptr) option" where
  "fixup_black_sibling node_to_fix_parent sibling is_left_child s = do {
       sl \<leftarrow> get_left (snd s) sibling;
       sr \<leftarrow> get_right (snd s) sibling;
       sl_black \<leftarrow> is_black (snd s) sl;
       both_black \<leftarrow> (if sl_black then is_black (snd s) sr else Some False);
       if both_black
       then do {
         h \<leftarrow> set_red sibling (snd s);
         gp \<leftarrow> get_parent h node_to_fix_parent;
         rb_delete_fixup_loop node_to_fix_parent gp (fst s, h) }
       else do {
         s \<leftarrow> rb_delete_fixup_sibling_black_child_red node_to_fix_parent sibling is_left_child s;
         Some (s, fst s) } }"

lemma loop_unfold:
  "rb_delete_fixup_loop node_to_fix node_to_fix_parent s = do {
     fix_black \<leftarrow> (if node_to_fix \<noteq> fst s then is_black (snd s) node_to_fix else Some False);
     if \<not> fix_black then Some (s, node_to_fix)
     else do {
       pl \<leftarrow> get_left (snd s) node_to_fix_parent;
       let is_left_child = (node_to_fix = pl);
       sibling \<leftarrow> (if is_left_child then get_right (snd s) node_to_fix_parent
                  else get_left (snd s) node_to_fix_parent);
       sibling_red \<leftarrow> is_red (snd s) sibling;
       (s, sibling) \<leftarrow>
         (if sibling_red
          then do {
            s \<leftarrow> rb_delete_fixup_sibling_red node_to_fix_parent sibling is_left_child s;
            sibling \<leftarrow> (if is_left_child then get_right (snd s) node_to_fix_parent
                       else get_left (snd s) node_to_fix_parent);
            Some (s, sibling) }
          else Some (s, sibling));
       fixup_black_sibling node_to_fix_parent sibling is_left_child s } }"
  by (subst rb_delete_fixup_loop.simps) (simp only: fixup_black_sibling_def)

lemma whole_tree_done:
  assumes "wft (snd s') (fst s') (fill K t)" "invc (fill K t)" "inord (fill K t) = xs" "same_outside xs h (snd s')"
  shows "loop_done h xs (Some (s', fst s'))"
proof (rule loop_doneI [where s' = s' and X = "fill K t" and K = CTop])
  show "invc l \<and> invc r" if "fill K t = Nd c l a r" for c l a r using assms(2) that by auto
qed (use assms in \<open>auto simp: wft_def\<close>)

lemma black_sibling_left:
  assumes wf: "wft h root (fill K (Nd c X p (Nd False C s D)))" and inv: "cinvc K" "invc X" "invc C" "invc D"
    and rec: "\<And>h1. wft h1 root (fill K (Nd c X p (Nd True C s D))) \<Longrightarrow> \<not> red C \<Longrightarrow> \<not> red D \<Longrightarrow>
      loop_done h1 (inord (fill K (Nd c X p (Nd False C s D)))) (rb_delete_fixup_loop p (cpar K) (root, h1))"
  shows "loop_done h (inord (fill K (Nd c X p (Nd False C s D)))) (fixup_black_sibling p s True (root, h))"
proof -
  let ?T = "inord (fill K (Nd c X p (Nd False C s D)))"
  have wS: "wft h root (fill (CRight c X p K) (Nd False C s D))" using wf by simp
  have wC: "wft h root (fill (CLeft False s D (CRight c X p K)) C)" using wf by simp
  have wD: "wft h root (fill (CRight False C s (CRight c X p K)) D)" using wf by simp
  note rd = focus_reads(2,3) [OF wS] focus_color(2) [OF wC] focus_color(2) [OF wD]
  show ?thesis
  proof (cases "red C \<or> red D")
    case True
    obtain s' t' where s': "rb_delete_fixup_sibling_black_child_red p s True (root, h) = Some s'"
      "wft (snd s') (fst s') (fill K t')" "inord t' = inord (Nd c X p (Nd False C s D))" "invc t'" "\<not> red t'"
      "same_outside ?T h (snd s')"
      using child_red_left [OF wf True] inv by blast
    have "fixup_black_sibling p s True (root, h) = Some (s', fst s')"
      using rd True s'(1) by (auto simp: fixup_black_sibling_def)
    moreover have "invc (fill K t')" using fill_invc [OF inv(1) s'(4)] s'(5) by simp
    ultimately show ?thesis using whole_tree_done [OF s'(2)] s'(3,6) by (simp add: inord_fill)
  next
    case False
    obtain h1 where h1: "set_red s h = Some h1" "wft h1 root (fill (CRight c X p K) (Nd True C s D))"
      "same_outside ?T h h1"
      using set_color_focus(1) [OF wS] by auto
    have w1: "wft h1 root (fill K (Nd c X p (Nd True C s D)))" using h1(2) by simp
    have "fixup_black_sibling p s True (root, h) = rb_delete_fixup_loop p (cpar K) (root, h1)"
      using rd False h1(1) focus_reads(1) [OF w1] by (simp add: fixup_black_sibling_def)
    then show ?thesis using rec [OF w1] False loop_done_mono [OF _ h1(3)] by simp
  qed
qed

lemma black_sibling_right:
  assumes wf: "wft h root (fill K (Nd c (Nd False D s C) p X))" and inv: "cinvc K" "invc X" "invc C" "invc D"
    and rec: "\<And>h1. wft h1 root (fill K (Nd c (Nd True D s C) p X)) \<Longrightarrow> \<not> red C \<Longrightarrow> \<not> red D \<Longrightarrow>
      loop_done h1 (inord (fill K (Nd c (Nd False D s C) p X))) (rb_delete_fixup_loop p (cpar K) (root, h1))"
  shows "loop_done h (inord (fill K (Nd c (Nd False D s C) p X))) (fixup_black_sibling p s False (root, h))"
proof -
  let ?T = "inord (fill K (Nd c (Nd False D s C) p X))"
  have wS: "wft h root (fill (CLeft c p X K) (Nd False D s C))" using wf by simp
  have wC: "wft h root (fill (CRight False D s (CLeft c p X K)) C)" using wf by simp
  have wD: "wft h root (fill (CLeft False s C (CLeft c p X K)) D)" using wf by simp
  note rd = focus_reads(2,3) [OF wS] focus_color(2) [OF wC] focus_color(2) [OF wD]
  show ?thesis
  proof (cases "red C \<or> red D")
    case True
    obtain s' t' where s': "rb_delete_fixup_sibling_black_child_red p s False (root, h) = Some s'"
      "wft (snd s') (fst s') (fill K t')" "inord t' = inord (Nd c (Nd False D s C) p X)" "invc t'" "\<not> red t'"
      "same_outside ?T h (snd s')"
      using child_red_right [OF wf True] inv by blast
    have "fixup_black_sibling p s False (root, h) = Some (s', fst s')"
      using rd True s'(1) by (auto simp: fixup_black_sibling_def)
    moreover have "invc (fill K t')" using fill_invc [OF inv(1) s'(4)] s'(5) by simp
    ultimately show ?thesis using whole_tree_done [OF s'(2)] s'(3,6) by (simp add: inord_fill)
  next
    case False
    obtain h1 where h1: "set_red s h = Some h1" "wft h1 root (fill (CLeft c p X K) (Nd True D s C))"
      "same_outside ?T h h1"
      using set_color_focus(1) [OF wS] by auto
    have w1: "wft h1 root (fill K (Nd c (Nd True D s C) p X))" using h1(2) by simp
    have "fixup_black_sibling p s False (root, h) = rb_delete_fixup_loop p (cpar K) (root, h1)"
      using rd False h1(1) focus_reads(1) [OF w1] by (simp add: fixup_black_sibling_def)
    then show ?thesis using rec [OF w1] False loop_done_mono [OF _ h1(3)] by simp
  qed
qed

lemma red_sibling_left:
  assumes wf: "wft h root (fill K (Nd False X p (Nd True A s B)))"
  shows "\<exists>root' h'. rb_delete_fixup_sibling_red p s True (root, h) = Some (root', h') \<and>
    wft h' root' (fill (CLeft False s B K) (Nd True X p A)) \<and>
    same_outside (inord (fill K (Nd False X p (Nd True A s B)))) h h'"
proof -
  let ?T = "inord (fill K (Nd False X p (Nd True A s B)))"
  have wS: "wft h root (fill (CRight False X p K) (Nd True A s B))" using wf by simp
  obtain h1 where h1: "set_black s h = Some h1" "wft h1 root (fill K (Nd False X p (Nd False A s B)))" "same_outside ?T h h1"
    using set_color_focus(2) [OF wS] by auto
  obtain h2 where h2: "set_red p h1 = Some h2" "wft h2 root (fill K (Nd True X p (Nd False A s B)))" "same_outside ?T h1 h2"
    using set_color_focus(1) [OF h1(2)] by (auto simp: inord_fill)
  obtain root3 h3 where h3: "rb_rotate_left p (root, h2) = Some (root3, h3)"
    "wft h3 root3 (fill K (Nd False (Nd True X p A) s B))" "same_outside ?T h2 h3"
    using rotate_left_focus [OF h2(2)] by (auto simp: inord_fill)
  show ?thesis using h1 h2 h3 by (auto simp: rb_delete_fixup_sibling_red_def same_outside_def)
qed

lemma loop_step_left:
  assumes wf: "wft h root (fill (CLeft c p S K) X)" and inv: "cinvc (CLeft c p S K)" "cbh (CLeft c p S K) (Suc n)"
    and X: "bh X n" "\<not> red X" "invc X"
    and rec: "\<And>h1 S'. wft h1 root (fill K (Nd c X p S')) \<Longrightarrow> bh S' n \<Longrightarrow> invc S' \<Longrightarrow>
      loop_done h1 (inord (fill K (Nd c X p S'))) (rb_delete_fixup_loop p (cpar K) (root, h1))"
  shows "loop_done h (inord (fill (CLeft c p S K) X)) (rb_delete_fixup_loop (addr X) p (root, h))"
proof -
  have wP: "wft h root (fill K (Nd c X p S))" using wf by simp
  have wS: "wft h root (fill (CRight c X p K) S)" using wf by simp
  have S: "bh S (Suc n)" "invc S" "c \<longrightarrow> \<not> red S" "cinvc K" using inv by auto
  have rd: "get_left h p = Some (addr X)" "get_right h p = Some (addr S)" using focus_reads(2,3) [OF wP] by auto
  have test: "addr X \<noteq> root" "is_black h (addr X) = Some True"
    using loop_test [OF wf] X(2) by (simp_all split: if_splits)
  have neq: "addr S \<noteq> addr X"
  proof -
    have "S \<noteq> Lf" using S(1) by auto
    then have "addr S \<in> set (inord S)" by (rule addr_in)
    moreover have "rtree h p S" "distinct (inord X @ inord S)" using wP by (auto simp: wft_fill)
    ultimately show ?thesis
      using rtree_nonzero [of h p S "addr S"] addr_in [of X] by (cases "X = Lf") auto
  qed
  show ?thesis
  proof (cases "red S")
    case False
    then obtain C s D where Sf: "S = Nd False C s D" using S(1) by (cases S) auto
    have ch: "bh C n" "bh D n" "invc C" "invc D" using S(1,2) Sf by auto
    have run: "rb_delete_fixup_loop (addr X) p (root, h) = fixup_black_sibling p s True (root, h)"
      using test rd neq focus_color(1) [OF wS] False Sf
      by (subst loop_unfold) simp
    have "loop_done h (inord (fill K (Nd c X p (Nd False C s D)))) (fixup_black_sibling p s True (root, h))"
    proof (rule black_sibling_left [OF _ S(4) X(3) ch(3,4)])
      show "wft h root (fill K (Nd c X p (Nd False C s D)))" using wP Sf by simp
      fix h1 assume "wft h1 root (fill K (Nd c X p (Nd True C s D)))" "\<not> red C" "\<not> red D"
      then show "loop_done h1 (inord (fill K (Nd c X p (Nd False C s D)))) (rb_delete_fixup_loop p (cpar K) (root, h1))"
        using rec [of h1 "Nd True C s D"] ch by (simp add: inord_fill)
    qed
    then show ?thesis using run Sf by simp
  next
    case True
    then obtain A s B where Sf: "S = Nd True A s B" by (cases S) auto
    have c: "c = False" using S(3) True by auto
    have AB: "bh A (Suc n)" "\<not> red A" "invc A" "\<not> red B" "invc B" using S(1,2) Sf by auto
    then obtain C a D where Af: "A = Nd False C a D" by (cases A) auto
    have ch: "bh C n" "bh D n" "invc C" "invc D" using AB Af by auto
    have "wft h root (fill K (Nd False X p (Nd True A s B)))" using wP Sf c by simp
    from red_sibling_left [OF this] obtain root1 h1 where h1:
      "rb_delete_fixup_sibling_red p s True (root, h) = Some (root1, h1)"
      "wft h1 root1 (fill (CLeft False s B K) (Nd True X p (Nd False C a D)))"
      "same_outside (inord (fill (CLeft c p S K) X)) h h1"
      using Sf c Af by auto
    have run: "rb_delete_fixup_loop (addr X) p (root, h) = fixup_black_sibling p a True (root1, h1)"
      using test rd neq focus_color(1) [OF wS] True Sf h1(1) focus_reads(2,3) [OF h1(2)]
      by (subst loop_unfold) simp
    have ctx: "cinvc (CLeft False s B K)" using S(4) AB by simp
    have "loop_done h1 (inord (fill (CLeft False s B K) (Nd True X p (Nd False C a D)))) (fixup_black_sibling p a True (root1, h1))"
    proof (rule black_sibling_left [OF h1(2) ctx X(3) ch(3,4)])
      fix h2 assume w2: "wft h2 root1 (fill (CLeft False s B K) (Nd True X p (Nd True C a D)))" "\<not> red C" "\<not> red D"
      from loop_stops [OF w2(1) _ ctx] w2(2,3) X(3) ch
      show "loop_done h2 (inord (fill (CLeft False s B K) (Nd True X p (Nd False C a D))))
          (rb_delete_fixup_loop p (cpar (CLeft False s B K)) (root1, h2))"
        by (simp add: inord_fill)
    qed
    then have "loop_done h1 (inord (fill (CLeft c p S K) X)) (rb_delete_fixup_loop (addr X) p (root, h))"
      using run Sf Af by (simp add: inord_fill)
    then show ?thesis using h1(3) by (rule loop_done_mono)
  qed
qed

lemma red_sibling_right:
  assumes wf: "wft h root (fill K (Nd False (Nd True B s A) p X))"
  shows "\<exists>root' h'. rb_delete_fixup_sibling_red p s False (root, h) = Some (root', h') \<and>
    wft h' root' (fill (CRight False B s K) (Nd True A p X)) \<and>
    same_outside (inord (fill K (Nd False (Nd True B s A) p X))) h h'"
proof -
  let ?T = "inord (fill K (Nd False (Nd True B s A) p X))"
  have wS: "wft h root (fill (CLeft False p X K) (Nd True B s A))" using wf by simp
  obtain h1 where h1: "set_black s h = Some h1" "wft h1 root (fill K (Nd False (Nd False B s A) p X))" "same_outside ?T h h1"
    using set_color_focus(2) [OF wS] by auto
  obtain h2 where h2: "set_red p h1 = Some h2" "wft h2 root (fill K (Nd True (Nd False B s A) p X))" "same_outside ?T h1 h2"
    using set_color_focus(1) [OF h1(2)] by (auto simp: inord_fill)
  obtain root3 h3 where h3: "rb_rotate_right p (root, h2) = Some (root3, h3)"
    "wft h3 root3 (fill K (Nd False B s (Nd True A p X)))" "same_outside ?T h2 h3"
    using rotate_right_focus [OF h2(2)] by (auto simp: inord_fill)
  show ?thesis using h1 h2 h3 by (auto simp: rb_delete_fixup_sibling_red_def same_outside_def)
qed

lemma loop_step_right:
  assumes wf: "wft h root (fill (CRight c S p K) X)" and inv: "cinvc (CRight c S p K)" "cbh (CRight c S p K) (Suc n)"
    and X: "bh X n" "\<not> red X" "invc X"
    and rec: "\<And>h1 S'. wft h1 root (fill K (Nd c S' p X)) \<Longrightarrow> bh S' n \<Longrightarrow> invc S' \<Longrightarrow>
      loop_done h1 (inord (fill K (Nd c S' p X))) (rb_delete_fixup_loop p (cpar K) (root, h1))"
  shows "loop_done h (inord (fill (CRight c S p K) X)) (rb_delete_fixup_loop (addr X) p (root, h))"
proof -
  have wP: "wft h root (fill K (Nd c S p X))" using wf by simp
  have wS: "wft h root (fill (CLeft c p X K) S)" using wf by simp
  have S: "bh S (Suc n)" "invc S" "c \<longrightarrow> \<not> red S" "cinvc K" using inv by auto
  have rd: "get_left h p = Some (addr S)" "get_right h p = Some (addr X)" using focus_reads(2,3) [OF wP] by auto
  have test: "addr X \<noteq> root" "is_black h (addr X) = Some True"
    using loop_test [OF wf] X(2) by (simp_all split: if_splits)
  have neq: "addr S \<noteq> addr X"
  proof -
    have "S \<noteq> Lf" using S(1) by auto
    then have "addr S \<in> set (inord S)" by (rule addr_in)
    moreover have "rtree h p S" "distinct (inord S @ inord X)" using wP by (auto simp: wft_fill)
    ultimately show ?thesis
      using rtree_nonzero [of h p S "addr S"] addr_in [of X] by (cases "X = Lf") auto
  qed
  show ?thesis
  proof (cases "red S")
    case False
    then obtain C s D where Sf: "S = Nd False D s C" using S(1) by (cases S) auto
    have ch: "bh C n" "bh D n" "invc C" "invc D" using S(1,2) Sf by auto
    have run: "rb_delete_fixup_loop (addr X) p (root, h) = fixup_black_sibling p s False (root, h)"
      using test rd neq focus_color(1) [OF wS] False Sf
      by (subst loop_unfold) simp
    have "loop_done h (inord (fill K (Nd c (Nd False D s C) p X))) (fixup_black_sibling p s False (root, h))"
    proof (rule black_sibling_right [OF _ S(4) X(3) ch(3,4)])
      show "wft h root (fill K (Nd c (Nd False D s C) p X))" using wP Sf by simp
      fix h1 assume "wft h1 root (fill K (Nd c (Nd True D s C) p X))" "\<not> red C" "\<not> red D"
      then show "loop_done h1 (inord (fill K (Nd c (Nd False D s C) p X))) (rb_delete_fixup_loop p (cpar K) (root, h1))"
        using rec [of h1 "Nd True D s C"] ch by (simp add: inord_fill)
    qed
    then show ?thesis using run Sf by simp
  next
    case True
    then obtain A s B where Sf: "S = Nd True B s A" by (cases S) auto
    have c: "c = False" using S(3) True by auto
    have AB: "bh A (Suc n)" "\<not> red A" "invc A" "\<not> red B" "invc B" using S(1,2) Sf by auto
    then obtain C a D where Af: "A = Nd False D a C" by (cases A) auto
    have ch: "bh C n" "bh D n" "invc C" "invc D" using AB Af by auto
    have "wft h root (fill K (Nd False (Nd True B s A) p X))" using wP Sf c by simp
    from red_sibling_right [OF this] obtain root1 h1 where h1:
      "rb_delete_fixup_sibling_red p s False (root, h) = Some (root1, h1)"
      "wft h1 root1 (fill (CRight False B s K) (Nd True (Nd False D a C) p X))"
      "same_outside (inord (fill (CRight c S p K) X)) h h1"
      using Sf c Af by auto
    have run: "rb_delete_fixup_loop (addr X) p (root, h) = fixup_black_sibling p a False (root1, h1)"
      using test rd neq focus_color(1) [OF wS] True Sf h1(1) focus_reads(2,3) [OF h1(2)]
      by (subst loop_unfold) simp
    have ctx: "cinvc (CRight False B s K)" using S(4) AB by simp
    have "loop_done h1 (inord (fill (CRight False B s K) (Nd True (Nd False D a C) p X))) (fixup_black_sibling p a False (root1, h1))"
    proof (rule black_sibling_right [OF h1(2) ctx X(3) ch(3,4)])
      fix h2 assume w2: "wft h2 root1 (fill (CRight False B s K) (Nd True (Nd True D a C) p X))" "\<not> red C" "\<not> red D"
      from loop_stops [OF w2(1) _ ctx] w2(2,3) X(3) ch
      show "loop_done h2 (inord (fill (CRight False B s K) (Nd True (Nd False D a C) p X)))
          (rb_delete_fixup_loop p (cpar (CRight False B s K)) (root1, h2))"
        by (simp add: inord_fill)
    qed
    then have "loop_done h1 (inord (fill (CRight c S p K) X)) (rb_delete_fixup_loop (addr X) p (root, h))"
      using run Sf Af by (simp add: inord_fill)
    then show ?thesis using h1(3) by (rule loop_done_mono)
  qed
qed

lemma delete_loop_correct:
  "wft h root (fill K X) \<Longrightarrow> cinvc K \<Longrightarrow> cbh K (Suc n) \<Longrightarrow> bh X n \<Longrightarrow>
   (\<And>c l a r. X = Nd c l a r \<Longrightarrow> invc l \<and> invc r) \<Longrightarrow>
   loop_done h (inord (fill K X)) (rb_delete_fixup_loop (addr X) (cpar K) (root, h))"
proof (induction K arbitrary: X h n)
  case CTop
  then show ?case by (intro loop_stops) auto
next
  case (CLeft c p S K)
  show ?case
  proof (cases "red X")
    case True
    then show ?thesis using CLeft.prems by (intro loop_stops) auto
  next
    case False
    have invX: "invc X" using CLeft.prems(5) False by (cases X) auto
    show ?thesis unfolding cpar.simps
    proof (rule loop_step_left [OF CLeft.prems(1-4) False invX])
      fix h1 S' assume S': "wft h1 root (fill K (Nd c X p S'))" "bh S' n" "invc S'"
      show "loop_done h1 (inord (fill K (Nd c X p S'))) (rb_delete_fixup_loop p (cpar K) (root, h1))"
        using CLeft.IH [OF S'(1), of "if c then n else Suc n"] CLeft.prems(2-4) S' invX by (auto split: if_splits)
    qed
  qed
next
  case (CRight c S p K)
  show ?case
  proof (cases "red X")
    case True
    then show ?thesis using CRight.prems by (intro loop_stops) auto
  next
    case False
    have invX: "invc X" using CRight.prems(5) False by (cases X) auto
    show ?thesis unfolding cpar.simps
    proof (rule loop_step_right [OF CRight.prems(1-4) False invX])
      fix h1 S' assume S': "wft h1 root (fill K (Nd c S' p X))" "bh S' n" "invc S'"
      show "loop_done h1 (inord (fill K (Nd c S' p X))) (rb_delete_fixup_loop p (cpar K) (root, h1))"
        using CRight.IH [OF S'(1), of "if c then n else Suc n"] CRight.prems(2-4) S' invX by (auto split: if_splits)
    qed
  qed
qed

lemma delete_fixup_correct:
  assumes "wft h root (fill K X)" "cinvc K" "cbh K (Suc n)" "bh X n" "invc X"
  shows "\<exists>s' t'. rb_delete_fixup (addr X) (cpar K) (root, h) = Some s' \<and> wft (snd s') (fst s') t' \<and>
    inord t' = inord (fill K X) \<and> invc t' \<and> \<not> red t' \<and> same_outside (inord (fill K X)) h (snd s')"
proof -
  have "loop_done h (inord (fill K X)) (rb_delete_fixup_loop (addr X) (cpar K) (root, h))"
    by (rule delete_loop_correct [OF assms(1-4)]) (use assms(5) in auto)
  then obtain s1 Y L where Y: "rb_delete_fixup_loop (addr X) (cpar K) (root, h) = Some (s1, addr Y)"
    "wft (snd s1) (fst s1) (fill L Y)" "inord (fill L Y) = inord (fill K X)" "cinvc L"
    "\<forall>c l a r. Y = Nd c l a r \<longrightarrow> invc l \<and> invc r" "L = CTop \<or> red Y" "same_outside (inord (fill K X)) h (snd s1)"
    unfolding loop_done_def by blast
  show ?thesis
  proof (cases Y)
    case Lf
    then have "L = CTop" using Y(6) by simp
    then show ?thesis using Y Lf by (intro exI [of _ s1] exI [of _ Lf]) (simp add: rb_delete_fixup_def)
  next
    case (Nd c l a r)
    obtain h2 where h2: "set_black a (snd s1) = Some h2" "wft h2 (fst s1) (fill L (Nd False l a r))"
      "same_outside (inord (fill L (Nd c l a r))) (snd s1) h2"
      using set_color_focus(2) [OF Y(2) [unfolded Nd]] by blast
    have anz: "a \<noteq> 0" using focus_reads(6) [OF Y(2) [unfolded Nd]] .
    have "invc (fill L (Nd False l a r))" using fill_invc [OF Y(4)] Y(5) Nd by simp
    moreover have "\<not> red (fill L (Nd False l a r))" using fill_black [OF Y(4)] by (cases "L = CTop") auto
    moreover have "rb_delete_fixup (addr X) (cpar K) (root, h) = Some (fst s1, h2)"
      using Y(1) Nd h2(1) anz by (simp add: rb_delete_fixup_def)
    moreover have "same_outside (inord (fill K X)) h h2"
      using Y(7) h2(3) Y(3) [unfolded Nd] by (auto intro: same_outside_trans)
    moreover have "inord (fill L (Nd False l a r)) = inord (fill K X)"
      using Y(3) Nd by (simp add: inord_fill)
    ultimately show ?thesis using h2(2)
      by (intro exI [of _ "(fst s1, h2)"] exI [of _ "fill L (Nd False l a r)"]) simp
  qed
qed

section \<open>Removal\<close>

lemma cpar_cases: "cpar K = 0 \<or> cpar K \<in> set (cbefore K) \<union> set (cafter K)"
  by (cases K) auto

lemma rb_remove_node_correct:
  assumes wf: "wft h (rb_root T) t" and inv: "rb_inv t" and a: "inord t = xs @ a # ys"
  shows "\<exists>root' h' aug t'. rb_remove_node (T, h) a = Some (a, (T\<lparr>rb_root := root'\<rparr>, h'), aug) \<and>
    wft h' root' t' \<and> inord t' = xs @ ys \<and> invc t' \<and> \<not> red t' \<and> same_outside (inord t) h h'"
proof -
  obtain K c l r where t: "t = fill K (Nd c l a r)" using split_at [of a t] a by auto
  have w: "wft h (rb_root T) (fill K (Nd c l a r))" using wf t by simp
  have xy: "xs = cbefore K @ inord l" "ys = inord r @ cafter K"
    using distinct_split_unique [of xs a ys "cbefore K @ inord l" "inord r @ cafter K"] wf a t
    by (auto simp: wft_def inord_fill)
  have "unlinked h (inord t) (xs @ ys) (rb_configure_delete a (rb_root T, h))"
    using configure_delete_correct [OF w] inv t xy by simp
  then obtain s1 b X Kx n where X: "rb_configure_delete a (rb_root T, h) = Some (s1, b, addr X, cpar Kx)"
    "wft (snd s1) (fst s1) (fill Kx X)" "inord (fill Kx X) = xs @ ys" "cinvc Kx" "invc X" "bh X n"
    "cbh Kx (if b then Suc n else n)" "b \<or> \<not> red X" "same_outside (inord t) h (snd s1)"
    unfolding unlinked_def by blast
  have "\<exists>s2 t'. (if b then rb_delete_fixup (addr X) (cpar Kx) s1 else Some s1) = Some s2 \<and> wft (snd s2) (fst s2) t' \<and>
      inord t' = xs @ ys \<and> invc t' \<and> \<not> red t' \<and> same_outside (xs @ ys) (snd s1) (snd s2)"
  proof (cases b)
    case True
    then show ?thesis using delete_fixup_correct [OF X(2,4) _ X(6,5)] X(3,7) by (cases s1) auto
  next
    case False
    then have "rb_inv (fill Kx X)" using rb_inv_fill [OF X(4)] X(5-8) by auto
    then show ?thesis using False X(2,3) by (intro exI [of _ s1] exI [of _ "fill Kx X"]) (auto simp: rb_inv_def)
  qed
  then obtain s2 t' where s2: "(if b then rb_delete_fixup (addr X) (cpar Kx) s1 else Some s1) = Some s2"
    "wft (snd s2) (fst s2) t'" "inord t' = xs @ ys" "invc t'" "\<not> red t'" "same_outside (xs @ ys) (snd s1) (snd s2)" by blast
  have t': "inord t' = cbefore Kx @ inord X @ cafter Kx" using X(3) s2(3) inord_fill [of Kx X] by simp
  have "addr X = 0 \<or> addr X \<in> set (inord t')" unfolding t' by (cases X) auto
  moreover have "cpar Kx = 0 \<or> cpar Kx \<in> set (inord t')" unfolding t' using cpar_cases [of Kx] by auto
  ultimately obtain aug where aug: "(if addr X \<noteq> NULL then rb_augment_from s2 (addr X)
       else if cpar Kx \<noteq> NULL then rb_augment_from s2 (cpar Kx) else Some []) = Some aug"
    using augment_from_tree [OF s2(2), of "addr X"] augment_from_tree [OF s2(2), of "cpar Kx"]
    by (cases "addr X = 0"; cases "cpar Kx = 0") auto
  have "a \<noteq> 0" "is_black h a = Some (\<not> c)" using focus_reads [OF w] by auto
  then have "rb_remove_node (T, h) a = Some (a, (T\<lparr>rb_root := fst s2\<rparr>, snd s2), aug)"
    using X(1) s2(1) aug by (simp add: rb_remove_node_def)
  moreover have "same_outside (inord t) h (snd s2)" using X(9) s2(6) a by (auto simp: same_outside_def)
  ultimately show ?thesis using s2 by blast
qed

section \<open>Where the black heights are lost\<close>

lemma bh_unique: "bh t n \<Longrightarrow> bh t m \<Longrightarrow> n = m"
  by (induction t arbitrary: n m) (auto split: if_splits)

lemma cbh_unique: "K \<noteq> CTop \<Longrightarrow> cbh K n \<Longrightarrow> cbh K m \<Longrightarrow> n = m"
  by (cases K) (auto dest: bh_unique)

text \<open>One subtree of another black height unbalances the whole tree.\<close>

lemma fill_unbalanced:
  assumes "bh (fill K t) m" "K \<noteq> CTop" "bh t n" "bh t' n'" "n' \<noteq> n"
  shows "\<not> bh (fill K t') m'"
proof
  assume "bh (fill K t') m'"
  then obtain k k' where "bh t k" "cbh K k" "bh t' k'" "cbh K k'" using assms(1) bh_fill_split by blast
  then show False using assms cbh_unique [OF assms(2)] bh_unique by metis
qed

text \<open>
  The rebalancing for a black node without children that was the left child of a red node, when
  its sibling has a red child: the subtree of the parent gets one black node more on every path.
\<close>

lemma leaf_fixup:
  assumes wf: "wft h root (fill (CLeft True p (Nd False C s D) K) Lf)" and K: "K \<noteq> CTop" "cinvc K"
    and S: "bh C 0" "bh D 0" "red C \<or> red D"
  shows "\<exists>s' t'. rb_delete_fixup 0 p (root, h) = Some s' \<and> wft (snd s') (fst s') (fill K t') \<and> bh t' 2"
proof -
  have wP: "wft h root (fill K (Nd True Lf p (Nd False C s D)))" using wf by simp
  have wS: "wft h root (fill (CRight True Lf p K) (Nd False C s D))" using wf by simp
  have wC: "wft h root (fill (CLeft False s D (CRight True Lf p K)) C)" using wf by simp
  have wD: "wft h root (fill (CRight False C s (CRight True Lf p K)) D)" using wf by simp
  note rd = focus_reads(2,3) [OF wP] focus_reads(2,3,4) [OF wS] focus_color(2) [OF wC] focus_color(2) [OF wD]
  obtain s' t' where s': "rb_delete_fixup_sibling_black_child_red p s True (root, h) = Some s'"
      "wft (snd s') (fst s') (fill K t')" "bh t' (Suc (Suc 0))"
    using child_red_left [OF wP S(3)] S(1,2) by auto
  have "fixup_black_sibling p s True (root, h) = Some (s', fst s')"
    using rd S(3) s'(1) by (auto simp: fixup_black_sibling_def)
  moreover have "0 \<noteq> root" "is_black h 0 = Some True" using loop_test [OF wf] by (simp_all split: if_splits)
  ultimately have loop: "rb_delete_fixup_loop 0 p (root, h) = Some (s', fst s')"
    using rd by (subst loop_unfold) simp
  have b: "\<not> red (fill K t')" using fill_black [OF K(2,1)] .
  have "fill K t' \<noteq> Lf" using K(1) by (cases K) (auto dest: arg_cong [of _ _ inord] simp: inord_fill)
  then obtain h2 where h2: "set_black (fst s') (snd s') = Some h2" "wft h2 (fst s') (fill K t')"
    using set_black_root [OF s'(2) _ b] by blast
  have "fst s' \<noteq> 0" using s'(2) \<open>fill K t' \<noteq> Lf\<close> rtree_addr_zero by (auto simp: wft_def)
  then have "rb_delete_fixup 0 p (root, h) = Some (fst s', h2)" using loop h2(1) by (simp add: rb_delete_fixup_def)
  then show ?thesis using h2(2) s'(3) by (intro exI [of _ "(fst s', h2)"] exI [of _ t']) (simp add: numeral_2_eq_2)
qed

lemma remove_leaf_unbalances:
  assumes wf: "wft h (rb_root T) (fill K (Nd True (Nd False Lf x Lf) p (Nd False C s D)))"
    and inv: "rb_inv (fill K (Nd True (Nd False Lf x Lf) p (Nd False C s D)))" and red: "red C \<or> red D"
  shows "\<exists>root' h' aug t'. rb_remove_node (T, h) x = Some (x, (T\<lparr>rb_root := root'\<rparr>, h'), aug) \<and>
    wft h' root' t' \<and> (\<nexists>n. bh t' n)"
proof -
  let ?old = "Nd True (Nd False Lf x Lf) p (Nd False C s D)" and ?K = "CLeft True p (Nd False C s D) K"
  have wx: "wft h (rb_root T) (fill ?K (Nd False Lf x Lf))" using wf by simp
  obtain n m where n: "cinvc K" "bh ?old n" "cbh K n" "bh (fill K ?old) m" "\<not> red (fill K ?old)"
    using inv focus_invariants [OF inv] by (metis rb_inv_def)
  have n1: "n = 1" "bh C 0" "bh D 0" using n(2) by auto
  have K: "K \<noteq> CTop" using n(5) by auto
  obtain h1 where h1: "rb_transplant x 0 (rb_root T, h) = Some (croot 0 ?K, h1)" "wft h1 (croot 0 ?K) (fill ?K Lf)"
    using transplant_child [OF wx, of Lf] by auto
  have conf: "rb_configure_delete x (rb_root T, h) = Some ((croot 0 ?K, h1), True, 0, p)"
    using focus_reads [OF wx] h1(1) by (simp add: rb_configure_delete_def)
  obtain s2 t' where s2: "rb_delete_fixup 0 p (croot 0 ?K, h1) = Some s2" "wft (snd s2) (fst s2) (fill K t')" "bh t' 2"
    using leaf_fixup [OF h1(2) K n(1) n1(2,3) red] by blast
  have "inord (fill K ?old) = cbefore K @ x # (p # inord (Nd False C s D) @ cafter K)" by (simp add: inord_fill)
  then obtain root' h' aug where r: "rb_remove_node (T, h) x = Some (x, (T\<lparr>rb_root := root'\<rparr>, h'), aug)"
    using rb_remove_node_correct [OF wf inv] by blast
  have "root' = fst s2 \<and> h' = snd s2"
    using r conf s2(1) focus_reads(5,6) [OF wx]
    by (auto simp: rb_remove_node_def bind_eq_Some_conv split: if_splits) (metis rb_tree.select_convs(1) rb_tree.surjective rb_tree.update_convs(1))+
  moreover have "\<not> bh (fill K t') m'" for m' using fill_unbalanced [OF n(4) K n(2) s2(3)] n1(1) by simp
  ultimately show ?thesis using r s2(2) by blast
qed

end
