(* ===== verification/Rb_Tree_Props.thy ===== *)
theory Rb_Tree_Props
  imports Rb_Tree_Delete
begin

text \<open>
  The contract of the tree as an interface (\<open>ordered_index\<close>), its interpretation on the
  pointer structure, and the properties of the tree operations, including the runs in which
  the code leaves its contract.
\<close>

section \<open>The interface\<close>

fun insert_all :: "('s \<Rightarrow> 'a \<Rightarrow> 's option) \<Rightarrow> 's \<Rightarrow> 'a list \<Rightarrow> 's option" where
  "insert_all op s [] = Some s"
| "insert_all op s (x # xs) = do { s' \<leftarrow> op s x; insert_all op s' xs }"

locale ordered_index =
  fixes rep :: "'s \<Rightarrow> 'a list \<Rightarrow> bool" and alloc :: "'s \<Rightarrow> 'a \<Rightarrow> bool" and lt :: "'a \<Rightarrow> 'a \<Rightarrow> bool"
    and insert_op :: "'s \<Rightarrow> 'a \<Rightarrow> 's option" and iterate :: "'s \<Rightarrow> 'a list option"
  assumes sorted_law: "rep s xs \<Longrightarrow> sorted_wrt lt xs"
    and insert_law: "rep s xs \<Longrightarrow> alloc s x \<Longrightarrow> x \<notin> set xs \<Longrightarrow> (\<And>y. y \<in> set xs \<Longrightarrow> lt y x \<or> lt x y) \<Longrightarrow>
      \<exists>s' us vs. insert_op s x = Some s' \<and> xs = us @ vs \<and> rep s' (us @ x # vs) \<and> (\<forall>y. alloc s y \<longrightarrow> alloc s' y)"
    and iterate_law: "rep s xs \<Longrightarrow> iterate s = Some xs"
begin

text \<open>Inserting nodes one by one and iterating lists them in order.\<close>

lemma insert_all_iterate:
  assumes "rep s ys" "\<And>x. x \<in> set xs \<Longrightarrow> alloc s x" "distinct (xs @ ys)"
    and "\<And>x y. x \<in> set (xs @ ys) \<Longrightarrow> y \<in> set (xs @ ys) \<Longrightarrow> x \<noteq> y \<Longrightarrow> lt x y \<or> lt y x"
  shows "\<exists>s' zs. insert_all insert_op s xs = Some s' \<and> rep s' zs \<and> iterate s' = Some zs \<and> sorted_wrt lt zs \<and> set zs = set xs \<union> set ys"
  using assms
proof (induction xs arbitrary: s ys)
  case Nil
  then show ?case using sorted_law iterate_law by auto
next
  case (Cons x xs)
  have "lt y x \<or> lt x y" if "y \<in> set ys" for y
    using Cons.prems(3) Cons.prems(4) [of y x] that by auto
  then obtain s' us vs where s': "insert_op s x = Some s'" "ys = us @ vs" "rep s' (us @ x # vs)"
    "\<forall>y. alloc s y \<longrightarrow> alloc s' y"
    using insert_law [OF Cons.prems(1), of x] Cons.prems(2,3) by auto
  have "\<exists>s'' zs. insert_all insert_op s' xs = Some s'' \<and> rep s'' zs \<and> iterate s'' = Some zs \<and> sorted_wrt lt zs \<and>
      set zs = set xs \<union> set (us @ x # vs)"
  proof (rule Cons.IH [OF s'(3)])
    show "distinct (xs @ us @ x # vs)" using Cons.prems(3) s'(2) by auto
    show "lt a b \<or> lt b a" if "a \<in> set (xs @ us @ x # vs)" "b \<in> set (xs @ us @ x # vs)" "a \<noteq> b" for a b
      using Cons.prems(4) [of a b] that s'(2) by auto
  qed (use Cons.prems(2) s'(4) in auto)
  then show ?case using s'(1,2) by auto
qed

end

section \<open>The tree provides it\<close>

definition rb_rep :: "rb_cmp_t \<Rightarrow> rb_tree \<times> rb_heap \<Rightarrow> usize_ptr list \<Rightarrow> bool" where
  "rb_rep cmp = (\<lambda>(T, h) xs. cmp_ok cmp UNIV \<and> rb_cmp T = cmp \<and>
     (\<exists>t. wft h (rb_root T) t \<and> rb_inv t \<and> bst cmp t \<and> inord t = xs))"

definition rb_alloc :: "rb_tree \<times> rb_heap \<Rightarrow> usize_ptr \<Rightarrow> bool" where
  "rb_alloc = (\<lambda>(T, h) x. h x \<noteq> None \<and> x \<noteq> 0 \<and> aligned x)"

definition rb_insert_state :: "rb_tree \<times> rb_heap \<Rightarrow> usize_ptr \<Rightarrow> (rb_tree \<times> rb_heap) option" where
  "rb_insert_state s x = do { (ret, s', aug) \<leftarrow> rb_insert s x; Some s' }"

definition rb_iterate :: "rb_tree \<times> rb_heap \<Rightarrow> usize_ptr list option" where
  "rb_iterate s = do { m \<leftarrow> rb_min s; rb_for_each (snd s) m }"

lemma rtree_alloc: "rtree h par t \<Longrightarrow> a \<in> set (inord t) \<Longrightarrow> h a \<noteq> None \<and> a \<noteq> 0 \<and> aligned a"
  by (induction t arbitrary: par) (auto simp: node_at_def)

interpretation rbi: ordered_index "rb_rep cmp" rb_alloc "\<lambda>a b. cmp a b < 0" rb_insert_state rb_iterate
proof (unfold_locales, goal_cases)
  case (1 s xs)
  then show ?case by (auto simp: rb_rep_def bst_def)
next
  case (2 s xs x)
  obtain T h where s: "s = (T, h)" by (cases s)
  obtain t where t: "wft h (rb_root T) t" "rb_inv t" "bst cmp t" "inord t = xs" and cmp: "cmp_ok cmp UNIV" "rb_cmp T = cmp"
    using 2(1) by (auto simp: rb_rep_def s)
  obtain n where n: "h x = Some n" "x \<noteq> 0" "aligned x" using 2(2) by (auto simp: rb_alloc_def s)
  have ok: "cmp_ok (rb_cmp T) (insert x (set (inord t)))" using cmp cmp_ok_mono by blast
  have ne: "\<not> (\<exists>a\<in>set (inord t). rb_cmp T a x = 0)"
    using 2(4) t(4) cmp(2) cmp_okD(1) [OF cmp(1)] by (metis UNIV_I less_irrefl)
  have x: "x \<notin> set (inord t)" using 2(3) t(4) by simp
  from rb_insert_correct [OF t(1,2) t(3) [folded cmp(2)] ok n x] ne obtain root' h' aug t' us vs where
    r: "rb_insert (T, h) x = Some (x, (T\<lparr>rb_root := root'\<rparr>, h'), aug)" "wft h' root' t'" "rb_inv t'" "bst cmp t'"
      "inord t = us @ vs" "inord t' = us @ x # vs" "same_outside (inord t') h h'"
    using cmp(2) by auto
  have "rb_alloc (T\<lparr>rb_root := root'\<rparr>, h') y" if "rb_alloc s y" for y
    using that r(2,7) rtree_alloc [of h' 0 t' y] by (cases "y \<in> set (inord t')") (auto simp: rb_alloc_def s same_outside_def wft_def)
  moreover have "rb_rep cmp (T\<lparr>rb_root := root'\<rparr>, h') (us @ x # vs)"
    using r cmp by (auto simp: rb_rep_def)
  ultimately show ?case
    using r(1,5) t(4) by (intro exI [of _ "(T\<lparr>rb_root := root'\<rparr>, h')"] exI [of _ us] exI [of _ vs])
      (auto simp: rb_insert_state_def s)
next
  case (3 s xs)
  obtain T h where s: "s = (T, h)" by (cases s)
  obtain t where t: "wft h (rb_root T) t" "inord t = xs" using 3 by (auto simp: rb_rep_def s)
  show ?case using rb_min_correct [OF t(1)] rb_for_each_correct [OF t(1), of "[]" xs] t(2)
    by (simp add: rb_iterate_def s)
qed

section \<open>Concrete trees\<close>

text \<open>Nodes at addresses 4, 8, 12, ..., compared by address; every node is allocated.\<close>

definition by_addr :: rb_cmp_t where
  "by_addr a b = uint a - uint b"

definition fresh_heap :: rb_heap where
  "fresh_heap a = (if a = 0 then None else Some \<lparr>parent_color = 0, rb_left = 0, rb_right = 0\<rparr>)"

definition empty_tree :: "rb_tree \<times> rb_heap" where
  "empty_tree = (rb_init_tree by_addr, fresh_heap)"

lemma by_addr_ok: "cmp_ok by_addr S"
  by (simp add: cmp_ok_def by_addr_def)

lemma empty_tree_rep: "rb_rep by_addr empty_tree []"
  by (auto simp: rb_rep_def empty_tree_def rb_init_tree_def by_addr_ok wft_def rb_inv_def bst_def intro!: exI [of _ Lf])

lemma empty_tree_alloc: "a \<noteq> 0 \<Longrightarrow> aligned a \<Longrightarrow> rb_alloc empty_tree a"
  by (simp add: rb_alloc_def empty_tree_def fresh_heap_def)

section \<open>Properties\<close>

text \<open>C1. Insertion into a red-black tree: \<^verbatim>\<open>rb_insert\<close> always returns; it returns NULL and
  changes nothing when an equal node is present; otherwise the result is again a
  red-black search tree in the heap (parent pointers, colours, equal black heights, black
  root), its nodes are the old ones plus the new one in order, and no other node of the heap
  is changed.\<close>

theorem rb_insert_preserves:
  assumes "wft h (rb_root T) t" "rb_inv t" "bst (rb_cmp T) t"
    and "cmp_ok (rb_cmp T) (insert node (set (inord t)))"
    and "h node = Some n" "node \<noteq> 0" "aligned node" "node \<notin> set (inord t)"
  shows "if \<exists>a\<in>set (inord t). rb_cmp T a node = 0 then rb_insert (T, h) node = Some (NULL, (T, h), [])
    else \<exists>root' h' aug t' before after. rb_insert (T, h) node = Some (node, (T\<lparr>rb_root := root'\<rparr>, h'), aug) \<and>
      wft h' root' t' \<and> rb_inv t' \<and> bst (rb_cmp T) t' \<and> inord t = before @ after \<and>
      inord t' = before @ node # after \<and> same_outside (inord t') h h'"
  using assms by (rule rb_insert_correct)

theorem rb_insert_preserves_witness:
  "\<exists>root' h' aug t' before after.
     rb_insert empty_tree 4 = Some (4, (rb_init_tree by_addr\<lparr>rb_root := root'\<rparr>, h'), aug) \<and>
     wft h' root' t' \<and> rb_inv t' \<and> bst by_addr t' \<and> [] = before @ after \<and> inord t' = before @ 4 # after \<and>
     same_outside (inord t') fresh_heap h'"
  using rb_insert_preserves [of fresh_heap "rb_init_tree by_addr" Lf 4 "\<lparr>parent_color = 0, rb_left = 0, rb_right = 0\<rparr>"]
  by (simp add: wft_def rb_init_tree_def rb_inv_def bst_def by_addr_ok fresh_heap_def aligned_def RB_FLAGS_def empty_tree_def)

text \<open>C36. Inserting any list of distinct allocated nodes into the empty tree and iterating with
  \<^verbatim>\<open>rb_min\<close> and \<^verbatim>\<open>rb_next\<close> visits exactly these nodes, each once, in increasing order.\<close>

theorem rb_insert_all_sorted:
  assumes "distinct xs" "\<And>x. x \<in> set xs \<Longrightarrow> x \<noteq> 0 \<and> aligned x"
  shows "\<exists>s' zs. insert_all rb_insert_state empty_tree xs = Some s' \<and> rb_iterate s' = Some zs \<and>
    sorted_wrt (\<lambda>a b. a < b) zs \<and> set zs = set xs"
proof -
  have total: "by_addr x y < 0 \<or> by_addr y x < 0" if "x \<noteq> y" for x y
    using that by (auto simp: by_addr_def word_uint_eq_iff)
  have lt: "(\<lambda>a b. by_addr a b < 0) = (\<lambda>a b. a < b)" by (auto simp: by_addr_def word_less_def fun_eq_iff)
  show ?thesis
    using rbi.insert_all_iterate [OF empty_tree_rep, of xs] assms empty_tree_alloc total
    unfolding lt by auto
qed

theorem rb_insert_all_sorted_witness:
  "\<exists>s' zs. insert_all rb_insert_state empty_tree [12, 4, 8] = Some s' \<and> rb_iterate s' = Some zs \<and>
     sorted_wrt (\<lambda>a b. a < b) zs \<and> set zs = {12, 4, 8}"
proof -
  have "x \<noteq> 0 \<and> aligned x" if "x \<in> set [12, 4, 8]" for x
    using that by (auto simp: aligned_def RB_FLAGS_def)
  from rb_insert_all_sorted [of "[12, 4, 8]", OF _ this] show ?thesis by simp
qed

text \<open>Search in a search tree returns a node that compares equal to the key if there is one,
  and NULL exactly when there is none.\<close>

theorem rb_search_finds:
  assumes "wft h (rb_root T) t" "bst (rb_cmp T) t" "cmp_ok (rb_cmp T) (insert key (set (inord t)))"
  shows "\<exists>a. rb_search (T, h) key = Some a \<and>
    (if a = 0 then \<forall>x\<in>set (inord t). rb_cmp T x key \<noteq> 0 else a \<in> set (inord t) \<and> rb_cmp T a key = 0)"
  using assms by (rule rb_search_correct)

definition one_node_heap :: rb_heap where
  "one_node_heap = [4 \<mapsto> \<lparr>parent_color = 0, rb_left = 0, rb_right = 0\<rparr>]"

lemma one_node_tree: "wft one_node_heap 4 (Nd False Lf 4 Lf)"
  by (simp add: wft_def node_at_def node_is_def one_node_heap_def aligned_def RB_FLAGS_def RB_COLOR_def)

theorem rb_search_finds_witness:
  "rb_search (\<lparr>rb_root = 4, rb_cmp = by_addr\<rparr>, one_node_heap) 4 = Some 4"
  using rb_search_finds [of one_node_heap "\<lparr>rb_root = 4, rb_cmp = by_addr\<rparr>" "Nd False Lf 4 Lf" 4] one_node_tree
  by (auto simp: bst_def by_addr_ok by_addr_def split: if_splits)

text \<open>C12. Removal from a red-black tree: \<^verbatim>\<open>rb_remove_node\<close> returns (no NULL is dereferenced and
  the rebalancing loop ends), exactly the given node is unlinked, the order of the others is
  kept, no red node has a red child, the root is black, and no node outside the tree is
  changed.\<close>

theorem rb_remove_node_unlinks:
  assumes "wft h (rb_root T) t" "rb_inv t" "inord t = xs @ node # ys"
  shows "\<exists>root' h' aug t'. rb_remove_node (T, h) node = Some (node, (T\<lparr>rb_root := root'\<rparr>, h'), aug) \<and>
    wft h' root' t' \<and> inord t' = xs @ ys \<and> invc t' \<and> \<not> red t' \<and> same_outside (inord t) h h'"
  using assms by (rule rb_remove_node_correct)

theorem rb_remove_node_unlinks_witness:
  "\<exists>root' h' aug t'. rb_remove_node (rb_init_tree by_addr\<lparr>rb_root := 4\<rparr>, one_node_heap) 4
     = Some (4, (rb_init_tree by_addr\<lparr>rb_root := root'\<rparr>, h'), aug) \<and>
     wft h' root' t' \<and> inord t' = [] \<and> invc t' \<and> \<not> red t' \<and> same_outside [4] one_node_heap h'"
  using rb_remove_node_unlinks [of one_node_heap "rb_init_tree by_addr\<lparr>rb_root := 4\<rparr>" "Nd False Lf 4 Lf" "[]" 4 "[]"]
  by (auto simp: wft_def rb_inv_def node_at_def node_is_def one_node_heap_def aligned_def RB_FLAGS_def RB_COLOR_def rb_init_tree_def)

section \<open>Runs that leave the contract\<close>

definition rb_ops :: "bool \<Rightarrow> usize_ptr list \<Rightarrow> rb_tree \<times> rb_heap \<Rightarrow> (rb_tree \<times> rb_heap) option" where
  "rb_ops ins xs s = fold (\<lambda>x r. do { s \<leftarrow> r; (ret, s', aug) \<leftarrow> (if ins then rb_insert s x else rb_remove_node s x); Some s' }) xs (Some s)"

text \<open>C39. The removal code does not keep the black heights equal: in every red-black tree in which a black node
  without children is the left child of a red node and its sibling has a red child, \<^verbatim>\<open>rb_remove_node\<close> of the
  black node returns a tree with no common black height. (The rebalancing paints the parent black
  and leaves the new top of the subtree black, so its paths get one black node more than the others.)\<close>

theorem rb_remove_unbalances:
  assumes "wft h (rb_root T) (fill K (Nd True (Nd False Lf node Lf) parent (Nd False C sibling D)))"
    and "rb_inv (fill K (Nd True (Nd False Lf node Lf) parent (Nd False C sibling D)))" "red C \<or> red D"
  shows "\<exists>root' h' aug t'. rb_remove_node (T, h) node = Some (node, (T\<lparr>rb_root := root'\<rparr>, h'), aug) \<and>
    wft h' root' t' \<and> (\<nexists>n. bh t' n)"
  using assms by (rule remove_leaf_unbalances)

text \<open>A tree of this shape: the root 20 with the red left child 8 and the black right child 24; below 8 the black nodes
  4 and 12, and the red node 16 below 12.\<close>

definition lean_heap :: rb_heap where
  "lean_heap = [4 \<mapsto> \<lparr>parent_color = 8, rb_left = 0, rb_right = 0\<rparr>, 8 \<mapsto> \<lparr>parent_color = 21, rb_left = 4, rb_right = 12\<rparr>,
     12 \<mapsto> \<lparr>parent_color = 8, rb_left = 0, rb_right = 16\<rparr>, 16 \<mapsto> \<lparr>parent_color = 13, rb_left = 0, rb_right = 0\<rparr>,
     20 \<mapsto> \<lparr>parent_color = 0, rb_left = 8, rb_right = 24\<rparr>, 24 \<mapsto> \<lparr>parent_color = 20, rb_left = 0, rb_right = 0\<rparr>]"

theorem rb_remove_unbalances_witness:
  "\<exists>root' h' aug t'. rb_remove_node (rb_init_tree by_addr\<lparr>rb_root := 20\<rparr>, lean_heap) 4
     = Some (4, (rb_init_tree by_addr\<lparr>rb_root := root'\<rparr>, h'), aug) \<and> wft h' root' t' \<and> (\<nexists>n. bh t' n)"
proof -
  let ?K = "CLeft False 20 (Nd False Lf 24 Lf) CTop"
  let ?t = "fill ?K (Nd True (Nd False Lf 4 Lf) 8 (Nd False Lf 12 (Nd True Lf 16 Lf)))"
  have "wft lean_heap 20 ?t"
    by (simp add: wft_def node_at_def node_is_def lean_heap_def aligned_def RB_FLAGS_def RB_COLOR_def)
  moreover have "rb_inv ?t" by (auto simp: rb_inv_def)
  ultimately show ?thesis
    using rb_remove_unbalances [of lean_heap "rb_init_tree by_addr\<lparr>rb_root := 20\<rparr>" ?K 4 8 Lf 12 "Nd True Lf 16 Lf"]
    by (simp add: rb_init_tree_def)
qed

text \<open>A later removal from such a tree can dereference NULL: six insertions into the empty tree and three removals
  succeed, and the fourth removal, of a node that is in the tree, does not return.\<close>

theorem rb_remove_null_dereference:
  "(do { s \<leftarrow> rb_ops True [4, 16, 8, 24, 12, 20] empty_tree;
         s \<leftarrow> rb_ops False [12, 20, 24] s;
         found \<leftarrow> rb_search s 8;
         Some (found, rb_ops False [8] s = None) }) = Some (8, True)"
  by code_simp

text \<open>\<^verbatim>\<open>rb_free_tree\<close> forgets nodes: on the tree made of a root and its left child it calls
  the free callback for the root only.\<close>

theorem rb_free_tree_forgets:
  "(do { s \<leftarrow> rb_ops True [8, 4] empty_tree;
         nodes \<leftarrow> rb_iterate s;
         (T, freed) \<leftarrow> rb_free_tree s;
         Some (nodes, freed) }) = Some ([4, 8], [8])"
  by code_simp

end
