(* ===== verification/Boot_Data.thy ===== *)
theory Boot_Data
  imports Core_Defs Flat_Memory
begin

text \<open>
  The walk over the Multiboot memory map of \<^verbatim>\<open>kernel/arch/i386/boot/boot_data.c\<close>. The map
  lies in the flat memory: an entry starts with the number of bytes that follow its size
  field, so the walk ends only when those sizes lead past the end of the map, and the four
  loops are \<open>partial_function\<close>s. A callback is a function on the caller's state that may
  fail.

  The lemmas say that every walk is a fold over the list of entries (\<open>mmap_entries\<close>), when
  the map is well formed.
\<close>

section \<open>Definitions\<close>

record multiboot_info =
  mbi_flags :: u32
  mbi_mmap_length :: u32
  mbi_mmap_addr :: u32

record mmap_entry =
  mm_addr_low :: u32
  mm_len_low :: u32
  mm_type :: u32

definition MULTIBOOT_INFO_MEM_MAP :: u32 where
  "MULTIBOOT_INFO_MEM_MAP = 0x40"

definition MULTIBOOT_MEMORY_AVAILABLE :: u32 where
  "MULTIBOOT_MEMORY_AVAILABLE = 1"

definition STOR_1MiB :: u32 where
  "STOR_1MiB = 0x100000"

definition boot_has_memory :: "multiboot_info \<Rightarrow> bool" where
  "boot_has_memory mbd \<longleftrightarrow> mbi_flags mbd AND MULTIBOOT_INFO_MEM_MAP \<noteq> 0"

text \<open>The fields of the packed entry at an address that the code reads.\<close>

definition mmap_at :: "mem \<Rightarrow> u32 \<Rightarrow> mmap_entry" where
  "mmap_at m a = \<lparr>mm_addr_low = load32 m (a + 4), mm_len_low = load32 m (a + 12), mm_type = load32 m (a + 20)\<rparr>"

definition next_mmap :: "mem \<Rightarrow> u32 \<Rightarrow> u32" where
  "next_mmap m mmap = mmap + 4 + load32 m mmap"

partial_function (option) get_max_memory_loop :: "mem \<Rightarrow> u32 \<Rightarrow> u32 \<Rightarrow> u32 \<Rightarrow> u32 option" where
  "get_max_memory_loop m mmap_end mmap max_memory =
     (if mmap < mmap_end
      then get_max_memory_loop m mmap_end (mmap + (4 + load32 m mmap))
             (let e = mmap_at m mmap; top = round_page_up (mm_addr_low e + mm_len_low e)
              in if max_memory > top then max_memory else top)
      else Some max_memory)"

declare get_max_memory_loop.simps [code]

definition get_max_memory :: "mem \<Rightarrow> multiboot_info \<Rightarrow> usize_ptr option" where
  "get_max_memory m mbd =
     get_max_memory_loop m (mbi_mmap_addr mbd + mbi_mmap_length mbd) (mbi_mmap_addr mbd) 0"

text \<open>A loop over the page addresses from \<open>low\<close> up to \<open>high\<close>.\<close>

partial_function (option) page_loop ::
  "(usize_ptr \<Rightarrow> 's \<Rightarrow> 's kres) \<Rightarrow> u32 \<Rightarrow> u32 \<Rightarrow> 's \<Rightarrow> 's kloop" where
  "page_loop callback low high s =
     (if low < high then lbind (Some (callback low s)) (page_loop callback (low + PAGE_SIZE) high)
      else lret s)"

declare page_loop.simps [code]

definition free_page_step :: "(usize_ptr \<Rightarrow> 's \<Rightarrow> 's kres) \<Rightarrow> mmap_entry \<Rightarrow> 's \<Rightarrow> 's kloop" where
  "free_page_step callback e s =
     (let low = round_page_up (mm_addr_low e); high = round_page_down (mm_addr_low e + mm_len_low e)
      in if mm_type e \<noteq> MULTIBOOT_MEMORY_AVAILABLE \<or> low \<ge> high then lret s
         else if high \<le> STOR_1MiB then lret s
         else let low = (if low < STOR_1MiB then STOR_1MiB else low)
              in page_loop callback low high s)"

partial_function (option) boot_foreach_free_page_loop ::
  "(usize_ptr \<Rightarrow> 's \<Rightarrow> 's kres) \<Rightarrow> mem \<Rightarrow> u32 \<Rightarrow> u32 \<Rightarrow> 's \<Rightarrow> 's kloop" where
  "boot_foreach_free_page_loop callback m mmap_end mmap s =
     (if mmap < mmap_end
      then lbind (free_page_step callback (mmap_at m mmap) s)
             (boot_foreach_free_page_loop callback m mmap_end (next_mmap m mmap))
      else lret s)"

declare boot_foreach_free_page_loop.simps [code]

definition boot_foreach_free_page ::
  "(usize_ptr \<Rightarrow> 's \<Rightarrow> 's kres) \<Rightarrow> mem \<Rightarrow> multiboot_info \<Rightarrow> 's \<Rightarrow> 's kloop" where
  "boot_foreach_free_page callback m mbd =
     boot_foreach_free_page_loop callback m (mbi_mmap_addr mbd + mbi_mmap_length mbd) (mbi_mmap_addr mbd)"

partial_function (option) boot_foreach_free_page_region_loop ::
  "(usize_ptr \<Rightarrow> usize_ptr \<Rightarrow> 's \<Rightarrow> 's kloop) \<Rightarrow> mem \<Rightarrow> u32 \<Rightarrow> u32 \<Rightarrow> 's \<Rightarrow> 's kloop" where
  "boot_foreach_free_page_region_loop callback m mmap_end mmap s =
     (if mmap < mmap_end
      then (let e = mmap_at m mmap;
                low = round_page_up (mm_addr_low e);
                high = round_page_down (mm_addr_low e + mm_len_low e)
            in lbind (if mm_type e = MULTIBOOT_MEMORY_AVAILABLE \<and> low < high then callback low high s else lret s)
                 (boot_foreach_free_page_region_loop callback m mmap_end (next_mmap m mmap)))
      else lret s)"

declare boot_foreach_free_page_region_loop.simps [code]

definition boot_foreach_free_page_region ::
  "(usize_ptr \<Rightarrow> usize_ptr \<Rightarrow> 's \<Rightarrow> 's kloop) \<Rightarrow> mem \<Rightarrow> multiboot_info \<Rightarrow> 's \<Rightarrow> 's kloop" where
  "boot_foreach_free_page_region callback m mbd =
     boot_foreach_free_page_region_loop callback m (mbi_mmap_addr mbd + mbi_mmap_length mbd) (mbi_mmap_addr mbd)"

definition reserved_region_step ::
  "(usize_ptr \<Rightarrow> usize_ptr \<Rightarrow> 's \<Rightarrow> 's kloop) \<Rightarrow> mmap_entry \<Rightarrow> 's \<Rightarrow> 's kloop" where
  "reserved_region_step callback e s =
     (let low = round_page_down (mm_addr_low e); high = round_page_up (mm_addr_low e + mm_len_low e)
      in if mm_type e = MULTIBOOT_MEMORY_AVAILABLE \<or> low \<ge> high then lret s
         else if high \<le> STOR_1MiB then lret s
         else if low < STOR_1MiB then callback STOR_1MiB high s
         else callback low high s)"

partial_function (option) boot_foreach_reserved_region_loop ::
  "(usize_ptr \<Rightarrow> usize_ptr \<Rightarrow> 's \<Rightarrow> 's kloop) \<Rightarrow> mem \<Rightarrow> u32 \<Rightarrow> u32 \<Rightarrow> 's \<Rightarrow> 's kloop" where
  "boot_foreach_reserved_region_loop callback m mmap_end mmap s =
     (if mmap < mmap_end
      then lbind (reserved_region_step callback (mmap_at m mmap) s)
             (boot_foreach_reserved_region_loop callback m mmap_end (next_mmap m mmap))
      else lret s)"

declare boot_foreach_reserved_region_loop.simps [code]

definition boot_foreach_reserved_region ::
  "(usize_ptr \<Rightarrow> usize_ptr \<Rightarrow> 's \<Rightarrow> 's kloop) \<Rightarrow> mem \<Rightarrow> multiboot_info \<Rightarrow> 's \<Rightarrow> 's kloop" where
  "boot_foreach_reserved_region callback m mbd s =
     lbind (boot_foreach_reserved_region_loop callback m (mbi_mmap_addr mbd + mbi_mmap_length mbd)
              (mbi_mmap_addr mbd) s)
       (callback 0 STOR_1MiB)"

section \<open>Page numbers\<close>

definition page_addr :: "nat \<Rightarrow> u32" where
  "page_addr i = of_nat (4096 * i)"

definition page_no :: "u32 \<Rightarrow> nat" where
  "page_no a = unat a div 4096"

lemma page_no_lt [simp]: "page_no a < 1048576"
  using unat_u32_lt [of a] by (simp add: page_no_def del: unat_u32_lt)

lemma unat_page_addr: "i < 1048576 \<Longrightarrow> unat (page_addr i) = 4096 * i"
  unfolding page_addr_def unat_of_nat by simp

lemma page_no_page_addr [simp]: "i < 1048576 \<Longrightarrow> page_no (page_addr i) = i"
  by (simp add: page_no_def unat_page_addr)

lemma page_addr_page_no: "4096 dvd unat a \<Longrightarrow> page_addr (page_no a) = a"
  by (simp add: page_addr_def page_no_def)

lemma round_page_down_aligned [simp]: "4096 dvd unat (round_page_down a)"
  by (simp add: round_page_down_nat)

lemma round_page_up_alt: "round_page_up a = round_page_down (a + PAGE_SIZE - 1)"
  by (simp add: round_page_up_def round_page_down_def)

lemma round_page_up_aligned [simp]: "4096 dvd unat (round_page_up a)"
  by (simp add: round_page_up_alt)

lemma aligned_less_iff: "4096 dvd unat a \<Longrightarrow> 4096 dvd unat b \<Longrightarrow> a < b \<longleftrightarrow> page_no a < page_no b"
  by (auto simp: page_no_def word_less_nat_alt dvd_def)

lemma aligned_le_iff: "4096 dvd unat a \<Longrightarrow> 4096 dvd unat b \<Longrightarrow> a \<le> b \<longleftrightarrow> page_no a \<le> page_no b"
  by (auto simp: page_no_def word_le_nat_alt dvd_def)

lemma STOR_1MiB_page: "4096 dvd unat STOR_1MiB" "page_no STOR_1MiB = 256"
  by (simp_all add: STOR_1MiB_def page_no_def)

lemma page_addr_step: "page_addr i + PAGE_SIZE = page_addr (Suc i)"
  by (simp add: page_addr_def PAGE_SIZE_def)

lemma page_loop_numbers:
  assumes "q < 1048576" "p \<le> q"
  shows "page_loop cb (page_addr p) (page_addr q) s = Some (kfor (\<lambda>i. cb (page_addr i)) [p..<q] s)"
  using assms(2)
proof (induction "q - p" arbitrary: p s)
  case 0
  then show ?case by (subst page_loop.simps) simp
next
  case (Suc d)
  then have lt: "p < q" by simp
  with assms(1) have "page_addr p < page_addr q"
    by (simp add: word_less_nat_alt unat_page_addr)
  moreover have "page_loop cb (page_addr (Suc p)) (page_addr q) s' =
      Some (kfor (\<lambda>i. cb (page_addr i)) [Suc p..<q] s')" for s'
    using Suc lt by (intro Suc.hyps(1)) simp_all
  ultimately show ?case
    using lt by (subst page_loop.simps)
      (cases "cb (page_addr p) s"; simp add: page_addr_step upt_conv_Cons)
qed

lemma page_loop_pages:
  assumes "4096 dvd unat low" "4096 dvd unat high"
  shows "page_loop cb low high s = Some (kfor (\<lambda>i. cb (page_addr i)) [page_no low..<page_no high] s)"
proof (cases "page_no low \<le> page_no high")
  case True
  then show ?thesis using page_loop_numbers [of "page_no high" "page_no low" cb s] assms
    by (simp add: page_addr_page_no)
next
  case False
  then have "\<not> low < high" using assms by (simp add: aligned_less_iff)
  with False show ?thesis by (subst page_loop.simps) simp
qed

section \<open>The walk as a fold over the entries\<close>

inductive mmap_chain :: "mem \<Rightarrow> u32 \<Rightarrow> u32 \<Rightarrow> mmap_entry list \<Rightarrow> bool" for m mmap_end where
  mmap_end: "\<not> a < mmap_end \<Longrightarrow> mmap_chain m mmap_end a []"
| mmap_next: "a < mmap_end \<Longrightarrow> mmap_chain m mmap_end (next_mmap m a) es \<Longrightarrow>
    mmap_chain m mmap_end a (mmap_at m a # es)"

definition mmap_entries :: "mem \<Rightarrow> multiboot_info \<Rightarrow> mmap_entry list \<Rightarrow> bool" where
  "mmap_entries m mbd es \<longleftrightarrow> mmap_chain m (mbi_mmap_addr mbd + mbi_mmap_length mbd) (mbi_mmap_addr mbd) es"

text \<open>The page numbers an entry contributes, never below the first MiB.\<close>

definition entry_free_pages :: "mmap_entry \<Rightarrow> nat list" where
  "entry_free_pages e =
     (if mm_type e = MULTIBOOT_MEMORY_AVAILABLE
      then [max 256 (page_no (round_page_up (mm_addr_low e)))..<
            page_no (round_page_down (mm_addr_low e + mm_len_low e))] else [])"

definition entry_reserved_pages :: "mmap_entry \<Rightarrow> nat list" where
  "entry_reserved_pages e =
     (if mm_type e = MULTIBOOT_MEMORY_AVAILABLE then []
      else [max 256 (page_no (round_page_down (mm_addr_low e)))..<
            page_no (round_page_up (mm_addr_low e + mm_len_low e))])"

definition entry_top :: "mmap_entry \<Rightarrow> u32" where
  "entry_top e = round_page_up (mm_addr_low e + mm_len_low e)"

lemma free_page_step_pages:
  "free_page_step cb e s = Some (kfor (\<lambda>i. cb (page_addr i)) (entry_free_pages e) s)"
  unfolding free_page_step_def entry_free_pages_def Let_def
  by (simp add: page_loop_pages STOR_1MiB_page aligned_less_iff aligned_le_iff max_def)

lemma reserved_region_step_pages:
  "reserved_region_step (page_loop cb) e s = Some (kfor (\<lambda>i. cb (page_addr i)) (entry_reserved_pages e) s)"
  unfolding reserved_region_step_def entry_reserved_pages_def Let_def
  by (simp add: page_loop_pages STOR_1MiB_page aligned_less_iff aligned_le_iff max_def)

lemma lbind_Some_kfor:
  "(\<And>s. g s = Some (kfor f ys s)) \<Longrightarrow> lbind (Some (kfor f xs s)) g = Some (kfor f (xs @ ys) s)"
  by (cases "kfor f xs s") (simp_all add: kfor_append)

lemma boot_foreach_free_page_loop_pages:
  "mmap_chain m mmap_end a es \<Longrightarrow>
   boot_foreach_free_page_loop cb m mmap_end a s =
     Some (kfor (\<lambda>i. cb (page_addr i)) (concat (map entry_free_pages es)) s)"
  by (induction arbitrary: s rule: mmap_chain.induct)
    (subst boot_foreach_free_page_loop.simps, force simp: free_page_step_pages intro: lbind_Some_kfor)+

lemma boot_foreach_reserved_region_loop_pages:
  "mmap_chain m mmap_end a es \<Longrightarrow>
   boot_foreach_reserved_region_loop (page_loop cb) m mmap_end a s =
     Some (kfor (\<lambda>i. cb (page_addr i)) (concat (map entry_reserved_pages es)) s)"
  by (induction arbitrary: s rule: mmap_chain.induct)
    (subst boot_foreach_reserved_region_loop.simps, force simp: reserved_region_step_pages intro: lbind_Some_kfor)+

lemma get_max_memory_loop_fold:
  "mmap_chain m mmap_end a es \<Longrightarrow>
   get_max_memory_loop m mmap_end a x = Some (fold (\<lambda>e x. max x (entry_top e)) es x)"
proof (induction arbitrary: x rule: mmap_chain.induct)
  case (mmap_next a es)
  have "(if x > entry_top e then x else entry_top e) = max x (entry_top e)" for e
    by (auto simp: max_def)
  with mmap_next show ?case
    by (subst get_max_memory_loop.simps) (simp add: next_mmap_def entry_top_def [symmetric] Let_def algebra_simps)
qed (subst get_max_memory_loop.simps, simp)

lemma boot_foreach_free_page_pages:
  "mmap_entries m mbd es \<Longrightarrow>
   boot_foreach_free_page cb m mbd s = Some (kfor (\<lambda>i. cb (page_addr i)) (concat (map entry_free_pages es)) s)"
  by (simp add: boot_foreach_free_page_def mmap_entries_def boot_foreach_free_page_loop_pages)

lemma boot_foreach_reserved_region_pages:
  assumes "mmap_entries m mbd es"
  shows "boot_foreach_reserved_region (page_loop cb) m mbd s =
     Some (kfor (\<lambda>i. cb (page_addr i)) (concat (map entry_reserved_pages es) @ [0..<256]) s)"
proof -
  have "page_loop cb 0 STOR_1MiB = (\<lambda>s. Some (kfor (\<lambda>i. cb (page_addr i)) [0..<256] s))"
    by (rule ext) (simp add: page_loop_pages STOR_1MiB_page page_no_def [of 0])
  then show ?thesis
    using assms unfolding boot_foreach_reserved_region_def mmap_entries_def
    by (simp only: boot_foreach_reserved_region_loop_pages) (rule lbind_Some_kfor, simp)
qed

lemma get_max_memory_max:
  assumes "mmap_entries m mbd es"
  shows "\<exists>x. get_max_memory m mbd = Some x \<and> (\<forall>e\<in>set es. entry_top e \<le> x) \<and> (x = 0 \<or> x \<in> entry_top ` set es)"
proof -
  have up: "x \<le> fold (\<lambda>e x. max x (entry_top e)) es x" for x es
    by (induction es arbitrary: x) (auto intro: order_trans [OF max.cobounded1])
  have "\<forall>e\<in>set es. entry_top e \<le> fold (\<lambda>e x. max x (entry_top e)) es x" for x
    by (induction es arbitrary: x) (auto intro: order_trans [OF max.cobounded2] up)
  moreover have "fold (\<lambda>e x. max x (entry_top e)) es x = x \<or> fold (\<lambda>e x. max x (entry_top e)) es x \<in> entry_top ` set es" for x
    by (induction es arbitrary: x) (auto simp: max_def split: if_splits)
  ultimately show ?thesis
    using get_max_memory_loop_fold [of m _ _ es 0] assms
    unfolding get_max_memory_def mmap_entries_def by blast
qed

end
