(* ===== verification/Bitmap_Alloc.thy ===== *)
theory Bitmap_Alloc
  imports Boot_Data
begin

text \<open>
  The boot-time page allocator of \<^verbatim>\<open>kernel/memory/phys_alloc/bitmap_alloc.c\<close>: one bit per
  physical page, set when the page is free, and the index of the byte where the next search
  starts. The array is a function on its indices with every access checked against
  \<open>PAGES_ARR_SIZE\<close>; an access outside it is the error \<open>BadAccess\<close>.

  \<open>page_free\<close> reads the bitmap as a set of page numbers. The lemmas give each operation as
  an operation on that set, the allocation as the first run of free pages from the search
  index on, and the state after initialisation from the entries of the memory map.
\<close>

section \<open>Definitions\<close>

record bitmap =
  bm_pages :: "u32 \<Rightarrow> u8"
  bm_last_free_group_index :: usize_ptr

record phys_alloc =
  pa_addr :: usize_ptr
  pa_count :: usize_ptr

definition BIT_TO_BYTE :: u32 where
  "BIT_TO_BYTE = 8"

definition PAGES_ARR_SIZE :: u32 where
  "PAGES_ARR_SIZE = 0x80000000 div PAGE_SIZE div BIT_TO_BYTE"

definition bm_store :: "u32 \<Rightarrow> u8 \<Rightarrow> bitmap \<Rightarrow> bitmap kres" where
  "bm_store i v b =
     (if i < PAGES_ARR_SIZE then Inr (b\<lparr>bm_pages := (bm_pages b)(i := v)\<rparr>) else Inl BadAccess)"

definition reset_pages_allocated :: "usize_ptr \<Rightarrow> bitmap \<Rightarrow> bitmap kres" where
  "reset_pages_allocated max_memory b =
     (let pages_amount = max_memory div PAGE_SIZE
      in kbind (kfor (\<lambda>i. bm_store (of_nat i) 0) [0..<unat pages_amount] b)
           (\<lambda>b. Inr (b\<lparr>bm_last_free_group_index := 0\<rparr>)))"

definition alloc_page_at :: "usize_ptr \<Rightarrow> bitmap \<Rightarrow> bitmap kres" where
  "alloc_page_at addr b =
     (let page_index = addr div PAGE_SIZE;
          bit = push_bit (unat (page_index mod BIT_TO_BYTE)) 1;
          page_chunk_index = page_index div BIT_TO_BYTE
      in bm_store page_chunk_index (bm_pages b page_chunk_index AND NOT bit) b)"

definition free_page_at :: "usize_ptr \<Rightarrow> bitmap \<Rightarrow> bitmap kres" where
  "free_page_at addr b =
     (let page_index = addr div PAGE_SIZE;
          bit = push_bit (unat (page_index mod BIT_TO_BYTE)) 1;
          page_chunk_index = page_index div BIT_TO_BYTE
      in bm_store page_chunk_index (bm_pages b page_chunk_index OR bit) b)"

definition alloc_page_region :: "usize_ptr \<Rightarrow> usize_ptr \<Rightarrow> bitmap \<Rightarrow> bitmap kloop" where
  "alloc_page_region = page_loop alloc_page_at"

text \<open>The value of \<^verbatim>\<open>kernel_size\<close> is the first component.\<close>

definition reserve_kernel_memory :: "usize_ptr \<Rightarrow> usize_ptr \<Rightarrow> bitmap \<Rightarrow> (usize_ptr \<times> bitmap) kloop" where
  "reserve_kernel_memory kernel_begin_pa kernel_end_pa b =
     lbind (alloc_page_region (round_page_down kernel_begin_pa) (round_page_up kernel_end_pa) b)
       (\<lambda>b. lret (round_page_up kernel_end_pa - round_page_down kernel_begin_pa, b))"

text \<open>The search for the first byte with a free page.\<close>

function find_page_group :: "(u32 \<Rightarrow> u8) \<Rightarrow> u32 \<Rightarrow> u32" where
  "find_page_group pages page_group_index =
     (if page_group_index < PAGES_ARR_SIZE
      then if pages page_group_index \<noteq> 0 then page_group_index
           else find_page_group pages (page_group_index + 1)
      else page_group_index)"
  by pat_completeness auto
termination
  by (relation "measure (\<lambda>(_, i). unat PAGES_ARR_SIZE - unat i)")
    (auto simp: word_less_nat_alt unat_Suc_lt)

declare find_page_group.simps [simp del]

definition total_pages :: u32 where
  "total_pages = PAGES_ARR_SIZE * BIT_TO_BYTE"

text \<open>The scan for a run, whose start is \<open>-1\<close> until a free page is met.\<close>

function scan_run :: "(u32 \<Rightarrow> u8) \<Rightarrow> u32 \<Rightarrow> u32 \<Rightarrow> u32 \<Rightarrow> u32 \<Rightarrow> u32 \<times> u32" where
  "scan_run pages count i run_start run_length =
     (if i < total_pages
      then let group = i div BIT_TO_BYTE; b = i mod BIT_TO_BYTE;
               is_free = (pages group AND push_bit (unat b) 1 \<noteq> 0)
           in if \<not> is_free \<and> run_start \<noteq> -1 then (run_start, run_length)
              else if is_free
              then let run_start = (if run_start = -1 then i else run_start); run_length = run_length + 1
                   in if run_length = count then (run_start, run_length)
                      else scan_run pages count (i + 1) run_start run_length
              else scan_run pages count (i + 1) run_start run_length
      else (run_start, run_length))"
  by pat_completeness auto
termination
  by (relation "measure (\<lambda>(_, _, i, _, _). unat total_pages - unat i)")
    (auto simp: word_less_nat_alt unat_Suc_lt)

declare scan_run.simps [simp del]

definition bitmap_alloc_pages :: "usize_ptr \<Rightarrow> bitmap \<Rightarrow> (phys_alloc \<times> bitmap) kres" where
  "bitmap_alloc_pages count b =
     (if count = 0 then Inr (\<lparr>pa_addr = NULL, pa_count = 0\<rparr>, b)
      else let page_group_index = find_page_group (bm_pages b) (bm_last_free_group_index b);
               (run_start, run_length) =
                 scan_run (bm_pages b) count (page_group_index * BIT_TO_BYTE) (-1) 0
           in if run_start = -1 then Inr (\<lparr>pa_addr = NULL, pa_count = 0\<rparr>, b)
              else let base_addr = run_start * PAGE_SIZE; allocated = run_length
                   in kbind (kfor (\<lambda>j. alloc_page_at ((run_start + of_nat j) * PAGE_SIZE))
                               [0..<unat allocated] b)
                        (\<lambda>b. Inr (\<lparr>pa_addr = base_addr, pa_count = allocated\<rparr>, b)))"

definition bitmap_alloc_page :: "bitmap \<Rightarrow> (usize_ptr \<times> bitmap) kres" where
  "bitmap_alloc_page b =
     kbind (bitmap_alloc_pages 1 b)
       (\<lambda>(alloc, b). Inr (if pa_count alloc \<noteq> 0 then pa_addr alloc else NULL, b))"

definition free_phys_page_bitmap :: "usize_ptr \<Rightarrow> bitmap \<Rightarrow> bitmap kres" where
  "free_phys_page_bitmap addr b =
     kbind (free_page_at addr b)
       (\<lambda>b. Inr (b\<lparr>bm_last_free_group_index := addr div PAGE_SIZE div BIT_TO_BYTE\<rparr>))"

definition free_phys_pages_bitmap :: "phys_alloc \<Rightarrow> bitmap \<Rightarrow> bitmap kres" where
  "free_phys_pages_bitmap free_params b =
     kfor (\<lambda>i. free_phys_page_bitmap (pa_addr free_params + of_nat i * PAGE_SIZE))
       [0..<unat (pa_count free_params)] b"

definition init_bitmap_phys_allocator ::
  "mem \<Rightarrow> multiboot_info \<Rightarrow> usize_ptr \<Rightarrow> usize_ptr \<Rightarrow> usize_ptr \<Rightarrow> bitmap \<Rightarrow> (usize_ptr \<times> bitmap) kloop" where
  "init_bitmap_phys_allocator m boot_data max_memory kernel_begin_pa kernel_end_pa b =
     lbind (Some (reset_pages_allocated max_memory b)) (\<lambda>b.
     lbind (boot_foreach_free_page free_page_at m boot_data b) (\<lambda>b.
     lbind (boot_foreach_reserved_region alloc_page_region m boot_data b) (\<lambda>b.
     reserve_kernel_memory kernel_begin_pa kernel_end_pa b)))"

section \<open>The bitmap as a set of pages\<close>

definition page_free :: "bitmap \<Rightarrow> nat \<Rightarrow> bool" where
  "page_free b p \<longleftrightarrow> p < 524288 \<and> bit (bm_pages b (of_nat (p div 8))) (p mod 8)"

definition mark_page :: "bool \<Rightarrow> nat \<Rightarrow> bitmap \<Rightarrow> bitmap" where
  "mark_page v p b =
     b\<lparr>bm_pages := (bm_pages b)(of_nat (p div 8) :=
        (if v then set_bit else unset_bit) (p mod 8) (bm_pages b (of_nat (p div 8))))\<rparr>"

lemma sizes [simp]: "PAGES_ARR_SIZE = 65536" "total_pages = 524288"
  by (simp_all add: PAGES_ARR_SIZE_def total_pages_def PAGE_SIZE_def BIT_TO_BYTE_def)

lemma page_free_mark:
  assumes "p < 524288"
  shows "page_free (mark_page v p b) q \<longleftrightarrow> (if q = p then v else page_free b q)"
proof (cases "q < 524288")
  case True
  then have "(of_nat (q div 8) :: u32) = of_nat (p div 8) \<longleftrightarrow> q div 8 = p div 8"
    using assms by (intro of_nat_u32_inj) simp_all
  moreover have "q div 8 = p div 8 \<Longrightarrow> q mod 8 = p mod 8 \<Longrightarrow> q = p"
    by (metis mult_div_mod_eq)
  ultimately show ?thesis
    using True assms by (auto simp: page_free_def mark_page_def bit_set_bit_iff bit_unset_bit_iff)
qed (use assms in \<open>auto simp: page_free_def\<close>)

lemma mark_page_last [simp]: "bm_last_free_group_index (mark_page v p b) = bm_last_free_group_index b"
  by (simp add: mark_page_def)

lemma page_index_nat:
  "unat (addr div PAGE_SIZE) = page_no addr"
  "unat (addr div PAGE_SIZE mod BIT_TO_BYTE) = page_no addr mod 8"
  "addr div PAGE_SIZE div BIT_TO_BYTE = of_nat (page_no addr div 8)"
proof -
  show 1: "unat (addr div PAGE_SIZE) = page_no addr"
    by (simp add: unat_div_distrib page_no_def)
  show "unat (addr div PAGE_SIZE mod BIT_TO_BYTE) = page_no addr mod 8"
    by (simp add: unat_mod_distrib 1 BIT_TO_BYTE_def)
  have "page_no addr div 8 < 4294967296" using page_no_lt [of addr] by linarith
  then show "addr div PAGE_SIZE div BIT_TO_BYTE = of_nat (page_no addr div 8)"
    by (simp add: word_unat_eq_iff unat_div_distrib page_no_def BIT_TO_BYTE_def unat_of_nat)
qed

lemma group_in_range: "p < 524288 \<Longrightarrow> (of_nat (p div 8) :: u32) < PAGES_ARR_SIZE"
  by (simp add: word_less_nat_alt unat_of_nat)

lemma alloc_page_at_mark:
  "page_no addr < 524288 \<Longrightarrow> alloc_page_at addr b = Inr (mark_page False (page_no addr) b)"
  using group_in_range [of "page_no addr"]
  by (simp add: alloc_page_at_def bm_store_def mark_page_def page_index_nat unset_bit_eq_and_not Let_def)

lemma free_page_at_mark:
  "page_no addr < 524288 \<Longrightarrow> free_page_at addr b = Inr (mark_page True (page_no addr) b)"
  using group_in_range [of "page_no addr"]
  by (simp add: free_page_at_def bm_store_def mark_page_def page_index_nat set_bit_eq_or Let_def)

lemma alloc_page_at_outside: "\<not> page_no addr < 524288 \<Longrightarrow> alloc_page_at addr b = Inl BadAccess"
  using page_no_lt [of addr]
  by (simp add: alloc_page_at_def bm_store_def page_index_nat word_less_nat_alt unat_of_nat Let_def
    del: page_no_lt)

text \<open>Marking a list of pages.\<close>

lemma page_free_mark_all:
  "\<forall>p\<in>set ps. p < 524288 \<Longrightarrow>
   page_free (fold (mark_page v) ps b) q \<longleftrightarrow> (if q \<in> set ps then v else page_free b q)"
  by (induction ps arbitrary: b) (auto simp: page_free_mark)

lemma mark_all_last [simp]:
  "bm_last_free_group_index (fold (mark_page v) ps b) = bm_last_free_group_index b"
  by (induction ps arbitrary: b) auto

lemma page_bound: "(524288 :: nat) < 1048576"
  by simp

lemma kfor_alloc:
  "\<forall>p\<in>set ps. p < 524288 \<Longrightarrow> kfor (\<lambda>i. alloc_page_at (page_addr i)) ps b = Inr (fold (mark_page False) ps b)"
  by (rule kfor_fold_simple) (metis alloc_page_at_mark page_no_page_addr less_trans page_bound)

lemma kfor_free:
  "\<forall>p\<in>set ps. p < 524288 \<Longrightarrow> kfor (\<lambda>i. free_page_at (page_addr i)) ps b = Inr (fold (mark_page True) ps b)"
  by (rule kfor_fold_simple) (metis free_page_at_mark page_no_page_addr less_trans page_bound)

section \<open>The search\<close>

lemma find_page_group_step:
  assumes "g < 2 ^ 32"
  shows "find_page_group pages (of_nat g) =
    (if g < 65536 \<and> pages (of_nat g) = 0 then find_page_group pages (of_nat (Suc g)) else of_nat g)"
proof -
  have "(of_nat g :: u32) < PAGES_ARR_SIZE \<longleftrightarrow> g < 65536"
    using assms by (simp add: word_less_nat_alt unat_of_nat)
  then show ?thesis by (subst find_page_group.simps) (simp add: add.commute)
qed

lemma find_page_group_spec:
  assumes "g < 2 ^ 32"
  shows "\<exists>g'. find_page_group pages (of_nat g) = of_nat g' \<and> g \<le> g' \<and> g' \<le> max g 65536 \<and>
     (\<forall>i. g \<le> i \<and> i < g' \<longrightarrow> pages (of_nat i) = 0)"
  using assms
proof (induction "65536 - g" arbitrary: g)
  case 0
  then show ?case by (intro exI [of _ g]) (auto simp: find_page_group_step)
next
  case (Suc d)
  then have lt: "g < 65536" by simp
  show ?case
  proof (cases "pages (of_nat g) = 0")
    case True
    obtain g' where g': "find_page_group pages (of_nat (Suc g)) = of_nat g'" "Suc g \<le> g'"
      "g' \<le> max (Suc g) 65536" "\<forall>i. Suc g \<le> i \<and> i < g' \<longrightarrow> pages (of_nat i) = 0"
    proof -
      have "d = 65536 - Suc g" "Suc g < 2 ^ 32" using Suc.hyps(2) lt by simp_all
      from Suc.hyps(1) [OF this] that show ?thesis by blast
    qed
    have "pages (of_nat i) = 0" if "g \<le> i" "i < g'" for i
      using that True g'(4) by (cases "i = g") auto
    then show ?thesis using True g' lt Suc.prems
      by (intro exI [of _ g']) (auto simp: find_page_group_step)
  qed (use lt Suc.prems in \<open>intro exI [of _ g], auto simp: find_page_group_step\<close>)
qed

lemma scan_bit:
  assumes "i < 524288"
  shows "pages ((of_nat i :: u32) div BIT_TO_BYTE) AND push_bit (unat ((of_nat i :: u32) mod BIT_TO_BYTE)) 1 = (0 :: u8)
     \<longleftrightarrow> \<not> bit (pages (of_nat (i div 8))) (i mod 8)"
proof -
  have i: "unat (of_nat i :: u32) = i" using assms by (simp add: unat_of_nat)
  have 1: "(of_nat i :: u32) div BIT_TO_BYTE = of_nat (i div 8)"
    using assms by (simp add: word_unat_eq_iff unat_div_distrib i BIT_TO_BYTE_def unat_of_nat)
  have 2: "unat ((of_nat i :: u32) mod BIT_TO_BYTE) = i mod 8"
    by (simp add: unat_mod_distrib i BIT_TO_BYTE_def)
  have "(x AND push_bit k 1 = 0) = (\<not> bit x k)" if "k < 8" for x :: u8 and k
    using that by (simp add: and_exp_eq_0_iff_not_bit)
  then show ?thesis unfolding 1 2 by simp
qed

lemma scan_run_step:
  assumes "i < 524288"
  shows "scan_run (bm_pages b) count (of_nat i) rs rl =
    (if \<not> page_free b i then if rs \<noteq> -1 then (rs, rl) else scan_run (bm_pages b) count (of_nat (Suc i)) rs rl
     else let rs = (if rs = -1 then of_nat i else rs)
          in if rl + 1 = count then (rs, rl + 1) else scan_run (bm_pages b) count (of_nat (Suc i)) rs (rl + 1))"
proof -
  have "(of_nat i :: u32) < total_pages" using assms by (simp add: word_less_nat_alt unat_of_nat)
  moreover have "page_free b i \<longleftrightarrow> bit (bm_pages b (of_nat (i div 8))) (i mod 8)"
    using assms by (simp add: page_free_def)
  moreover have "(of_nat i :: u32) + 1 = of_nat (Suc i)" by simp
  ultimately show ?thesis
    by (subst scan_run.simps) (auto simp only: scan_bit [OF assms] Let_def if_True if_False simp_thms not_not cong: if_cong)
qed

lemma scan_run_end: "scan_run pages count (of_nat 524288) rs rl = (rs, rl)"
  by (subst scan_run.simps) simp

lemma page_free_lt: "page_free b p \<Longrightarrow> p < 524288"
  by (simp add: page_free_def)

lemma of_nat_not_max: "p < 524288 \<Longrightarrow> (of_nat p :: u32) \<noteq> -1"
  by (auto simp: word_unat_eq_iff unat_of_nat unsigned_minus_1_eq_mask mask_eq_exp_minus_1)

text \<open>Inside a run that started at \<open>s\<close>.\<close>

lemma scan_run_inside:
  assumes "s < i" "i \<le> 524288" "i - s < unat count" "\<forall>p\<in>{s..<i}. page_free b p"
  shows "\<exists>n. scan_run (bm_pages b) count (of_nat i) (of_nat s) (of_nat (i - s)) = (of_nat s, of_nat n) \<and>
     0 < n \<and> n \<le> unat count \<and> (\<forall>p\<in>{s..<s + n}. page_free b p) \<and> (n = unat count \<or> \<not> page_free b (s + n))"
  using assms
proof (induction "524288 - i" arbitrary: i)
  case 0
  then have "i = 524288" by simp
  with 0 show ?case
    by (intro exI [of _ "i - s"]) (auto simp: scan_run_end page_free_def simp del: of_nat_numeral)
next
  case (Suc d)
  then have i: "i < 524288" by simp
  have s: "(of_nat s :: u32) \<noteq> -1" using Suc.prems(1) i by (intro of_nat_not_max) simp
  show ?case
  proof (cases "page_free b i")
    case False
    then show ?thesis using Suc.prems s i by (intro exI [of _ "i - s"]) (simp add: scan_run_step)
  next
    case True
    have next_len: "(of_nat (i - s) :: u32) + 1 = of_nat (Suc i - s)"
      using Suc.prems(1) by (simp add: Suc_diff_le)
    have all: "\<forall>p\<in>{s..<Suc i}. page_free b p"
      using Suc.prems(4) True by (auto simp: less_Suc_eq)
    have "(of_nat (Suc i - s) :: u32) = count \<longleftrightarrow> Suc i - s = unat count"
      using i by (auto simp: word_unat_eq_iff unat_of_nat)
    with True s have step: "scan_run (bm_pages b) count (of_nat i) (of_nat s) (of_nat (i - s)) =
        (if Suc i - s = unat count then (of_nat s, of_nat (Suc i - s))
         else scan_run (bm_pages b) count (of_nat (Suc i)) (of_nat s) (of_nat (Suc i - s)))"
      unfolding scan_run_step [OF i] next_len Let_def by simp
    show ?thesis
    proof (cases "Suc i - s = unat count")
      case True
      moreover have "s + (Suc i - s) = Suc i" using Suc.prems(1) by simp
      ultimately show ?thesis
        using all Suc.prems(1) unfolding step by (intro exI [of _ "Suc i - s"]) simp
    next
      case False
      have "d = 524288 - Suc i" "s < Suc i" "Suc i \<le> 524288" "Suc i - s < unat count"
        using Suc.hyps(2) Suc.prems False i by linarith+
      from Suc.hyps(1) [OF this all] False show ?thesis unfolding step by (simp only: if_False)
    qed
  qed
qed

text \<open>Before the first free page.\<close>

lemma scan_run_outside:
  assumes "i \<le> 524288" "count \<noteq> 0"
  shows "(\<exists>s n. scan_run (bm_pages b) count (of_nat i) (-1) 0 = (of_nat s, of_nat n) \<and>
      i \<le> s \<and> (\<forall>p\<in>{i..<s}. \<not> page_free b p) \<and> 0 < n \<and> n \<le> unat count \<and>
      (\<forall>p\<in>{s..<s + n}. page_free b p) \<and> (n = unat count \<or> \<not> page_free b (s + n))) \<or>
    (scan_run (bm_pages b) count (of_nat i) (-1) 0 = (-1, 0) \<and> (\<forall>p\<ge>i. \<not> page_free b p))"
  using assms
proof (induction "524288 - i" arbitrary: i)
  case 0
  then have "i = 524288" by simp
  then show ?case by (auto simp: scan_run_end page_free_def simp del: of_nat_numeral)
next
  case (Suc d)
  then have i: "i < 524288" by simp
  show ?case
  proof (cases "page_free b i")
    case True
    show ?thesis
    proof (cases "count = 1")
      case True
      then show ?thesis using \<open>page_free b i\<close> i
        by (intro disjI1 exI [of _ i] exI [of _ 1]) (simp add: scan_run_step Let_def)
    next
      case False
      with Suc.prems have c: "1 < unat count"
        by (metis less_one linorder_neqE_nat unat_1 unat_eq_zero word_unat_eq_iff)
      have "scan_run (bm_pages b) count (of_nat i) (-1) 0 =
          scan_run (bm_pages b) count (of_nat (Suc i)) (of_nat i) (of_nat (Suc i - i))"
        using False \<open>page_free b i\<close> i by (auto simp: scan_run_step Let_def)
      moreover obtain n where "scan_run (bm_pages b) count (of_nat (Suc i)) (of_nat i) (of_nat (Suc i - i)) = (of_nat i, of_nat n)"
        "0 < n" "n \<le> unat count" "\<forall>p\<in>{i..<i + n}. page_free b p" "n = unat count \<or> \<not> page_free b (i + n)"
        using c \<open>page_free b i\<close> i scan_run_inside [of i "Suc i" count b] by auto
      ultimately show ?thesis by (intro disjI1 exI [of _ i] exI [of _ n]) simp
    qed
  next
    case False
    then have "scan_run (bm_pages b) count (of_nat i) (-1) 0 = scan_run (bm_pages b) count (of_nat (Suc i)) (-1) 0"
      using i by (simp add: scan_run_step)
    moreover have "(\<forall>p\<ge>i. \<not> page_free b p) \<longleftrightarrow> (\<forall>p\<ge>Suc i. \<not> page_free b p)"
      using False by (metis Suc_leI le_neq_implies_less Suc_leD)
    moreover have "(i \<le> s \<and> (\<forall>p\<in>{i..<s}. \<not> page_free b p) \<and> P) \<longleftrightarrow> (Suc i \<le> s \<and> (\<forall>p\<in>{Suc i..<s}. \<not> page_free b p) \<and> P)"
      if "P \<Longrightarrow> page_free b s" for P s
      using False that by (auto simp: Suc_le_eq le_less)
    moreover have "d = 524288 - Suc i" "Suc i \<le> 524288" using Suc.hyps(2) i by simp_all
    note Suc.hyps(1) [OF this Suc.prems(2)]
    ultimately show ?thesis by simp
  qed
qed

lemma zero_group_not_free: "bm_pages b (of_nat (p div 8)) = 0 \<Longrightarrow> \<not> page_free b p"
  by (simp add: page_free_def)

lemma run_addr: "((of_nat s :: u32) + of_nat j) * PAGE_SIZE = page_addr (s + j)"
  by (simp add: page_addr_def PAGE_SIZE_def)

lemma alloc_run:
  assumes "\<forall>p\<in>{s..<s + n}. p < 524288" "n < 2 ^ 32"
  shows "kfor (\<lambda>j. alloc_page_at ((of_nat s + of_nat j) * PAGE_SIZE)) [0..<unat (of_nat n :: u32)] b =
    Inr (fold (mark_page False) [s..<s + n] b)"
proof -
  have map: "[s..<s + n] = map (\<lambda>j. s + j) [0..<n]"
    by (simp add: map_add_upt add.commute)
  have "kfor (\<lambda>j. alloc_page_at (page_addr (s + j))) js b' = kfor (\<lambda>i. alloc_page_at (page_addr i)) (map (\<lambda>j. s + j) js) b'" for js b'
    by (induction js arbitrary: b') (auto simp: kbind_def split: sum.splits)
  then show ?thesis
    using assms by (simp add: run_addr unat_of_nat kfor_alloc flip: map)
qed

lemma bitmap_alloc_pages_run:
  assumes "count \<noteq> 0" "unat (bm_last_free_group_index b) \<le> 65536"
  shows "(\<exists>s n. bitmap_alloc_pages count b =
        Inr (\<lparr>pa_addr = page_addr s, pa_count = of_nat n\<rparr>, fold (mark_page False) [s..<s + n] b) \<and>
      8 * unat (bm_last_free_group_index b) \<le> s \<and>
      (\<forall>p\<in>{8 * unat (bm_last_free_group_index b)..<s}. \<not> page_free b p) \<and> 0 < n \<and> n \<le> unat count \<and>
      (\<forall>p\<in>{s..<s + n}. page_free b p) \<and> (n = unat count \<or> \<not> page_free b (s + n))) \<or>
    (bitmap_alloc_pages count b = Inr (\<lparr>pa_addr = 0, pa_count = 0\<rparr>, b) \<and>
      (\<forall>p\<ge>8 * unat (bm_last_free_group_index b). \<not> page_free b p))"
proof -
  let ?h = "unat (bm_last_free_group_index b)"
  obtain g where g: "find_page_group (bm_pages b) (bm_last_free_group_index b) = of_nat g"
    "?h \<le> g" "g \<le> 65536" "\<forall>i. ?h \<le> i \<and> i < g \<longrightarrow> bm_pages b (of_nat i) = 0"
    using find_page_group_spec [of ?h "bm_pages b"] assms(2) by auto
  have skipped: "\<not> page_free b p" if "8 * ?h \<le> p" "p < 8 * g" for p
    using g(4) that by (intro zero_group_not_free) (simp add: less_mult_imp_div_less mult.commute div_le_mono)
  have i: "(of_nat g * BIT_TO_BYTE :: u32) = of_nat (8 * g)" by (simp add: BIT_TO_BYTE_def)
  have *: "bitmap_alloc_pages count b = (case scan_run (bm_pages b) count (of_nat (8 * g)) (-1) 0 of (rs, rl) \<Rightarrow>
      if rs = -1 then Inr (\<lparr>pa_addr = NULL, pa_count = 0\<rparr>, b)
      else kbind (kfor (\<lambda>j. alloc_page_at ((rs + of_nat j) * PAGE_SIZE)) [0..<unat rl] b)
        (\<lambda>b. Inr (\<lparr>pa_addr = rs * PAGE_SIZE, pa_count = rl\<rparr>, b)))"
    using assms(1) unfolding bitmap_alloc_pages_def Let_def g(1) i by (simp split: prod.splits)
  have "8 * g \<le> 524288" using g(3) by simp
  from scan_run_outside [OF this assms(1), of b] consider
    (run) s n where "scan_run (bm_pages b) count (of_nat (8 * g)) (-1) 0 = (of_nat s, of_nat n)"
       "8 * g \<le> s" "\<forall>p\<in>{8 * g..<s}. \<not> page_free b p" "0 < n" "n \<le> unat count"
       "\<forall>p\<in>{s..<s + n}. page_free b p" "n = unat count \<or> \<not> page_free b (s + n)"
    | (full) "scan_run (bm_pages b) count (of_nat (8 * g)) (-1) 0 = (-1, 0)" "\<forall>p\<ge>8 * g. \<not> page_free b p"
    by blast
  then show ?thesis
  proof cases
    case (run s n)
    note sr = run(1)
    note s = run(2-)
    have lt: "\<forall>p\<in>{s..<s + n}. p < 524288" using s(5) page_free_lt by blast
    have "n < 2 ^ 32" using s(4) unat_u32_lt [of count] by (simp del: unat_u32_lt)
    moreover have "(of_nat s :: u32) \<noteq> -1" using lt s(3) by (intro of_nat_not_max) simp
    ultimately have "bitmap_alloc_pages count b =
        Inr (\<lparr>pa_addr = page_addr s, pa_count = of_nat n\<rparr>, fold (mark_page False) [s..<s + n] b)"
      using run_addr [of s 0] unfolding * sr by (simp add: alloc_run [OF lt])
    moreover have "\<not> page_free b p" if "8 * ?h \<le> p" "p < s" for p
      using that skipped s(2) by (cases "p < 8 * g") auto
    ultimately show ?thesis using s g(2)
      by (intro disjI1 exI [of _ s] exI [of _ n]) simp
  next
    case full
    note sr = full(1)
    from full have "\<not> page_free b p" if "8 * ?h \<le> p" for p
      using that skipped by (cases "p < 8 * g") auto
    with sr show ?thesis by (intro disjI2) (simp only: * sr, simp)
  qed
qed

section \<open>Freeing and initialisation\<close>

definition hint_at :: "nat \<Rightarrow> bitmap \<Rightarrow> bitmap" where
  "hint_at p b = b\<lparr>bm_last_free_group_index := of_nat (p div 8)\<rparr>"

lemma hint_at_simps [simp]:
  "page_free (hint_at p b) q = page_free b q"
  "bm_last_free_group_index (hint_at p b) = of_nat (p div 8)"
  by (simp_all add: hint_at_def page_free_def)

lemma free_phys_page_bitmap_mark:
  "page_no addr < 524288 \<Longrightarrow>
   free_phys_page_bitmap addr b = Inr (hint_at (page_no addr) (mark_page True (page_no addr) b))"
  by (simp add: free_phys_page_bitmap_def free_page_at_mark page_index_nat hint_at_def)

lemma free_phys_pages_bitmap_free:
  assumes "s + n \<le> 524288"
  shows "\<exists>b'. free_phys_pages_bitmap \<lparr>pa_addr = page_addr s, pa_count = of_nat n\<rparr> b = Inr b' \<and>
    (\<forall>q. page_free b' q \<longleftrightarrow> q \<in> {s..<s + n} \<or> page_free b q)"
proof -
  let ?f = "\<lambda>i b. hint_at (s + i) (mark_page True (s + i) b)"
  have addr: "page_addr s + of_nat i * PAGE_SIZE = page_addr (s + i)" for i
    by (simp add: page_addr_def PAGE_SIZE_def)
  have n: "unat (of_nat n :: u32) = n" using assms by (simp add: unat_of_nat)
  have "free_phys_page_bitmap (page_addr s + of_nat i * PAGE_SIZE) b = Inr (?f i b)" if "i < n" for i b
    using that assms free_phys_page_bitmap_mark [of "page_addr (s + i)"] by (simp add: addr)
  then have "free_phys_pages_bitmap \<lparr>pa_addr = page_addr s, pa_count = of_nat n\<rparr> b = Inr (fold ?f [0..<n] b)"
    unfolding free_phys_pages_bitmap_def phys_alloc.select_convs n by (intro kfor_fold_simple) simp
  moreover have "page_free (fold ?f is b) q \<longleftrightarrow> q \<in> (\<lambda>i. s + i) ` set is \<or> page_free b q"
    if "\<forall>i\<in>set is. s + i < 524288" for "is" q
    using that by (induction "is" arbitrary: b) (auto simp: page_free_mark)
  moreover have "(\<lambda>i. s + i) ` set [0..<n] = {s..<s + n}" by (simp add: add.commute)
  moreover have "\<forall>i\<in>set [0..<n]. s + i < 524288" using assms by simp
  ultimately show ?thesis by (intro exI [of _ "fold ?f [0..<n] b"]) (simp only: simp_thms)
qed

lemma reset_pages_allocated_zero:
  assumes "unat max_memory div 4096 \<le> 65536" "bm_pages b = (\<lambda>_. 0)"
  shows "reset_pages_allocated max_memory b = Inr (b\<lparr>bm_last_free_group_index := 0\<rparr>)"
proof -
  have n: "unat (max_memory div PAGE_SIZE) = unat max_memory div 4096" by (simp add: unat_div_distrib)
  have "bm_store (of_nat i) 0 s = Inr s \<and> bm_pages s = (\<lambda>_. 0)" if "i < 65536" "bm_pages s = (\<lambda>_. 0)" for i s
  proof -
    have "(\<lambda>_. 0)(i := 0) = (\<lambda>_. 0 :: u8)" for i :: u32 by auto
    with that show ?thesis by (simp add: bm_store_def word_less_nat_alt unat_of_nat flip: that(2))
  qed
  then have "kfor (\<lambda>i. bm_store (of_nat i) 0) [0..<unat max_memory div 4096] b = Inr (fold (\<lambda>_ s. s) [0..<unat max_memory div 4096] b)"
    using assms kfor_fold [of "[0..<unat max_memory div 4096]" "\<lambda>s. bm_pages s = (\<lambda>_. 0)"
      "\<lambda>i. bm_store (of_nat i) 0" "\<lambda>_ s. s" b] by simp
  moreover have "fold (\<lambda>_ s. s) xs b = b" for xs :: "nat list" by (induction xs) auto
  ultimately show ?thesis by (simp add: reset_pages_allocated_def n)
qed

lemma reset_pages_allocated_overruns:
  assumes "65536 < unat max_memory div 4096"
  shows "reset_pages_allocated max_memory b = Inl BadAccess"
proof -
  have n: "unat (max_memory div PAGE_SIZE) = unat max_memory div 4096" by (simp add: unat_div_distrib)
  define top where "top = (65536 :: nat)"
  have split: "[0..<unat max_memory div 4096] = [0..<top] @ top # [Suc top..<unat max_memory div 4096]"
    using assms unfolding top_def by (metis upt_conv_Cons upt_add_eq_append le_add_diff_inverse less_imp_le zero_le add_0)
  have lt: "(of_nat i :: u32) < PAGES_ARR_SIZE" if "i < top" for i
    using that by (simp add: word_less_nat_alt unat_of_nat top_def)
  obtain b' where "kfor (\<lambda>i. bm_store (of_nat i) 0) [0..<top] b = Inr b'"
    using kfor_fold_simple [of "[0..<top]" "\<lambda>i. bm_store (of_nat i) 0"
      "\<lambda>i b. b\<lparr>bm_pages := (bm_pages b)(of_nat i := 0)\<rparr>" b] lt by (simp add: bm_store_def)
  moreover have "\<not> (of_nat top :: u32) < PAGES_ARR_SIZE" by (simp add: top_def)
  ultimately show ?thesis
    unfolding reset_pages_allocated_def n Let_def split kfor_append by (simp add: bm_store_def)
qed

lemma round_down_up_page:
  assumes "a \<le> 0xFFFFF000"
  shows "page_no (round_page_down a) \<le> page_no (round_page_up a)"
proof -
  have "unat (a + PAGE_SIZE - 1) = unat a + 4096 - 1"
    using unat_add_pred [of a PAGE_SIZE] assms by (simp add: word_le_nat_alt PAGE_SIZE_def)
  then show ?thesis
    by (simp add: page_no_def round_page_up_alt round_page_down_nat div_le_mono)
qed

lemma entry_pages_below:
  assumes "unat (entry_top e) \<le> 65536 * 4096" "mm_addr_low e + mm_len_low e \<le> 0xFFFFF000"
  shows "\<forall>p\<in>set (entry_free_pages e) \<union> set (entry_reserved_pages e). p < 65536"
proof -
  have "page_no (round_page_up (mm_addr_low e + mm_len_low e)) \<le> 65536"
    using assms(1) by (simp add: page_no_def entry_top_def)
  with round_down_up_page [OF assms(2)] show ?thesis
    by (auto simp: entry_free_pages_def entry_reserved_pages_def)
qed

section \<open>Properties\<close>

lemma Least_first_free:
  assumes "h \<le> s" "page_free b s" "\<forall>p\<in>{h..<s}. \<not> page_free b p"
  shows "(LEAST p. h \<le> p \<and> page_free b p) = s"
  using assms by (intro Least_equality) (auto simp: leI)

text \<open>C22. \<^verbatim>\<open>bitmap_alloc_pages\<close> always returns. When some page at or above the search index is
  free it takes the first such page and the free pages that follow it, up to the requested
  count: every page of the run was free, the run is shorter than the request only because the
  next page is not free, and exactly the pages of the run are no longer free afterwards. When
  there is none it returns a null allocation and leaves the bitmap as it is.\<close>

theorem bitmap_alloc_pages_first_run:
  assumes "count \<noteq> 0" "unat (bm_last_free_group_index b) \<le> 65536"
  defines "h \<equiv> 8 * unat (bm_last_free_group_index b)"
  shows "if \<exists>p\<ge>h. page_free b p
    then \<exists>s n b'. bitmap_alloc_pages count b = Inr (\<lparr>pa_addr = page_addr s, pa_count = of_nat n\<rparr>, b') \<and>
      s = (LEAST p. h \<le> p \<and> page_free b p) \<and> 0 < n \<and> n \<le> unat count \<and>
      (\<forall>p\<in>{s..<s + n}. page_free b p) \<and> (n = unat count \<or> \<not> page_free b (s + n)) \<and>
      (\<forall>q. page_free b' q \<longleftrightarrow> page_free b q \<and> q \<notin> {s..<s + n}) \<and>
      bm_last_free_group_index b' = bm_last_free_group_index b
    else bitmap_alloc_pages count b = Inr (\<lparr>pa_addr = NULL, pa_count = 0\<rparr>, b)"
proof -
  from bitmap_alloc_pages_run [OF assms(1,2)] consider
    (run) s n where "bitmap_alloc_pages count b =
        Inr (\<lparr>pa_addr = page_addr s, pa_count = of_nat n\<rparr>, fold (mark_page False) [s..<s + n] b)"
      "h \<le> s" "\<forall>p\<in>{h..<s}. \<not> page_free b p" "0 < n" "n \<le> unat count"
      "\<forall>p\<in>{s..<s + n}. page_free b p" "n = unat count \<or> \<not> page_free b (s + n)"
    | (full) "bitmap_alloc_pages count b = Inr (\<lparr>pa_addr = 0, pa_count = 0\<rparr>, b)" "\<forall>p\<ge>h. \<not> page_free b p"
    unfolding h_def by blast
  then show ?thesis
  proof cases
    case (run s n)
    have s: "page_free b s" using run(4,6) by simp
    have lt: "\<forall>p\<in>set [s..<s + n]. p < 524288" using run(6) page_free_lt by auto
    have "(LEAST p. h \<le> p \<and> page_free b p) = s" using run(2,3) s by (intro Least_first_free)
    moreover have "page_free (fold (mark_page False) [s..<s + n] b) q \<longleftrightarrow> page_free b q \<and> q \<notin> {s..<s + n}" for q
      unfolding page_free_mark_all [OF lt] by simp
    moreover have "\<exists>p\<ge>h. page_free b p" using run(2) s by blast
    ultimately show ?thesis
      using run(1,4-7) by (intro if_bool_eq_conj [THEN iffD2] conjI impI exI [of _ s] exI [of _ n]
        exI [of _ "fold (mark_page False) [s..<s + n] b"]) (simp_all only: mark_all_last simp_thms)
  next
    case full
    then show ?thesis by auto
  qed
qed

definition two_free_pages :: bitmap where
  "two_free_pages = \<lparr>bm_pages = (\<lambda>g. if g = 3 then 0x30 else 0), bm_last_free_group_index = 2\<rparr>"

theorem bitmap_alloc_pages_first_run_witness:
  "\<exists>s n b'. bitmap_alloc_pages 5 two_free_pages = Inr (\<lparr>pa_addr = page_addr s, pa_count = of_nat n\<rparr>, b') \<and>
     s = (LEAST p. 16 \<le> p \<and> page_free two_free_pages p) \<and> 0 < n \<and> n \<le> 5 \<and>
     (\<forall>p\<in>{s..<s + n}. page_free two_free_pages p) \<and> (n = 5 \<or> \<not> page_free two_free_pages (s + n)) \<and>
     (\<forall>q. page_free b' q \<longleftrightarrow> page_free two_free_pages q \<and> q \<notin> {s..<s + n}) \<and>
     bm_last_free_group_index b' = 2"
proof -
  have "page_free two_free_pages 28"
    by (simp add: page_free_def two_free_pages_def bit_iff_odd_drop_bit)
  then have "\<exists>p\<ge>16. page_free two_free_pages p" by (metis numeral_le_iff semiring_norm)
  then show ?thesis
    using bitmap_alloc_pages_first_run [of 5 two_free_pages] by (simp add: two_free_pages_def)
qed

text \<open>Giving an allocation back to \<^verbatim>\<open>free_phys_pages_bitmap\<close> succeeds and makes exactly
  the pages free that were free before it was made.\<close>

theorem bitmap_alloc_free_roundtrip:
  assumes "count \<noteq> 0" "unat (bm_last_free_group_index b) \<le> 65536"
    "bitmap_alloc_pages count b = Inr (r, b')"
  shows "\<exists>b''. free_phys_pages_bitmap r b' = Inr b'' \<and> page_free b'' = page_free b"
proof -
  from bitmap_alloc_pages_run [OF assms(1,2)] consider
    (run) s n where "r = \<lparr>pa_addr = page_addr s, pa_count = of_nat n\<rparr>" "b' = fold (mark_page False) [s..<s + n] b"
      "\<forall>p\<in>{s..<s + n}. page_free b p" "0 < n"
    | (full) "r = \<lparr>pa_addr = 0, pa_count = 0\<rparr>" "b' = b"
    using assms(3) by auto
  then show ?thesis
  proof cases
    case (run s n)
    have lt: "\<forall>p\<in>set [s..<s + n]. p < 524288" using run(3) page_free_lt by auto
    then have "s + n - 1 < 524288" using run(4) by simp
    then have "s + n \<le> 524288" by simp
    then obtain b'' where "free_phys_pages_bitmap r b' = Inr b''"
      and free: "\<forall>q. page_free b'' q \<longleftrightarrow> q \<in> {s..<s + n} \<or> page_free b' q"
      unfolding run(1) using free_phys_pages_bitmap_free by blast
    moreover have "page_free b'' = page_free b"
      using free run(3) unfolding run(2) page_free_mark_all [OF lt] by (intro ext) auto
    ultimately show ?thesis by blast
  qed (simp add: free_phys_pages_bitmap_def)
qed

theorem bitmap_alloc_free_roundtrip_witness:
  "\<exists>r b' b''. bitmap_alloc_pages 2 two_free_pages = Inr (r, b') \<and> pa_addr r = 0x1C000 \<and> pa_count r = 2 \<and>
     free_phys_pages_bitmap r b' = Inr b'' \<and> page_free b'' = page_free two_free_pages"
proof -
  have "map_sum id fst (bitmap_alloc_pages 2 two_free_pages) = Inr \<lparr>pa_addr = 0x1C000, pa_count = 2\<rparr>"
    by code_simp
  then have "\<exists>b'. bitmap_alloc_pages 2 two_free_pages = Inr (\<lparr>pa_addr = 0x1C000, pa_count = 2\<rparr>, b')"
    by (cases "bitmap_alloc_pages 2 two_free_pages") auto
  then show ?thesis
    using bitmap_alloc_free_roundtrip [of 2 two_free_pages] by (force simp: two_free_pages_def)
qed

text \<open>\<^verbatim>\<open>free_phys_page_bitmap\<close> moves the search index to the freed page even when that is
  forward. A page that is free below it is then never found again: with no other free page
  from there on, one allocation takes the freed page and the next one reports that no memory
  is left, although the lower page is still free.\<close>

theorem bitmap_free_hides_lower_pages:
  assumes "page_free b q" "q < 8 * (page_no addr div 8)" "page_no addr < 524288"
    "\<forall>p\<ge>8 * (page_no addr div 8). \<not> page_free b p"
  shows "\<exists>b1 b2. free_phys_page_bitmap addr b = Inr b1 \<and>
    bitmap_alloc_page b1 = Inr (page_addr (page_no addr), b2) \<and>
    bitmap_alloc_page b2 = Inr (NULL, b2) \<and> page_free b2 q"
proof -
  let ?p = "page_no addr"
  define b1 where "b1 = hint_at ?p (mark_page True ?p b)"
  have free1: "page_free b1 x \<longleftrightarrow> x = ?p \<or> page_free b x" for x
    using assms(3) by (auto simp: b1_def page_free_mark)
  have "?p div 8 < 4294967296" using assms(3) by simp
  then have hint: "unat (bm_last_free_group_index b1) = ?p div 8"
    using assms(3) by (simp add: b1_def unat_of_nat)
  then have hint1: "unat (bm_last_free_group_index b1) \<le> 65536" using assms(3) by simp
  have run1: "free_phys_page_bitmap addr b = Inr b1"
    using assms(3) by (simp add: b1_def free_phys_page_bitmap_mark)
  have ge: "8 * (?p div 8) \<le> ?p" by simp
  obtain s n b2 where s: "bitmap_alloc_pages 1 b1 = Inr (\<lparr>pa_addr = page_addr s, pa_count = of_nat n\<rparr>, b2)"
    "b2 = fold (mark_page False) [s..<s + n] b1" "8 * (?p div 8) \<le> s" "0 < n" "n \<le> 1"
    "\<forall>p\<in>{s..<s + n}. page_free b1 p"
  proof -
    have "page_free b1 ?p" by (simp add: free1)
    then have "\<not> (\<forall>p\<ge>8 * (?p div 8). \<not> page_free b1 p)" using ge by blast
    with bitmap_alloc_pages_run [of 1 b1, OF _ hint1] that show ?thesis unfolding hint by auto
  qed
  then have n: "n = 1" by simp
  then have sp: "s = ?p" using s(3,6) free1 assms(4) by auto
  have free2: "page_free b2 x \<longleftrightarrow> page_free b x \<and> x \<noteq> ?p" for x
    using s(2) n sp assms(3) free1 by (auto simp: page_free_mark)
  have "bm_last_free_group_index b2 = bm_last_free_group_index b1" using s(2) by simp
  then have "bitmap_alloc_pages 1 b2 = Inr (\<lparr>pa_addr = 0, pa_count = 0\<rparr>, b2)"
    using bitmap_alloc_pages_run [of 1 b2] hint hint1 free2 assms(4) by fastforce
  moreover have "page_free b2 q" using free2 assms(1,2) ge by simp
  ultimately show ?thesis
    using run1 s(1) n sp by (intro exI [of _ b1] exI [of _ b2]) (simp add: bitmap_alloc_page_def)
qed

theorem bitmap_free_hides_lower_pages_witness:
  "\<exists>b1 b2. free_phys_page_bitmap 0x40000 two_free_pages = Inr b1 \<and>
    bitmap_alloc_page b1 = Inr (page_addr 64, b2) \<and> bitmap_alloc_page b2 = Inr (NULL, b2) \<and> page_free b2 28"
proof -
  have "page_free two_free_pages 28"
    by (simp add: page_free_def two_free_pages_def bit_iff_odd_drop_bit)
  moreover have "\<not> page_free two_free_pages p" if "p \<ge> 64" for p
  proof
    assume "page_free two_free_pages p"
    then have "(of_nat (p div 8) :: u32) = of_nat 3" "p < 524288"
      by (auto simp: page_free_def two_free_pages_def split: if_splits)
    then have "p div 8 = 3" using of_nat_u32_inj [of "p div 8" 3] by simp
    with that show False by linarith
  qed
  ultimately show ?thesis
    using bitmap_free_hides_lower_pages [of two_free_pages 28 "0x40000"] by (simp add: page_no_def)
qed

text \<open>With at most 256 MiB of memory, \<^verbatim>\<open>init_bitmap_phys_allocator\<close> walks the memory map to
  its end and leaves exactly those pages free that lie wholly inside an available entry, above
  the first MiB, and touch no reserved entry and not the kernel image.\<close>

theorem init_bitmap_phys_allocator_pages:
  assumes "mmap_entries m mbd es" "get_max_memory m mbd = Some max_memory"
    "unat max_memory \<le> 65536 * 4096" "unat kernel_end_pa \<le> 65536 * 4096"
    "\<forall>e\<in>set es. mm_addr_low e + mm_len_low e \<le> 0xFFFFF000" "bm_pages b = (\<lambda>_. 0)"
  shows "\<exists>b'. init_bitmap_phys_allocator m mbd max_memory kernel_begin_pa kernel_end_pa b =
      lret (round_page_up kernel_end_pa - round_page_down kernel_begin_pa, b') \<and>
    bm_last_free_group_index b' = 0 \<and>
    (\<forall>p. page_free b' p \<longleftrightarrow> 256 \<le> p \<and> (\<exists>e\<in>set es. p \<in> set (entry_free_pages e)) \<and>
       (\<forall>e\<in>set es. p \<notin> set (entry_reserved_pages e)) \<and>
       p \<notin> {page_no (round_page_down kernel_begin_pa)..<page_no (round_page_up kernel_end_pa)})"
proof -
  let ?free = "concat (map entry_free_pages es)"
  let ?resv = "concat (map entry_reserved_pages es) @ [0..<256]"
  let ?kern = "[page_no (round_page_down kernel_begin_pa)..<page_no (round_page_up kernel_end_pa)]"
  obtain x where x: "get_max_memory m mbd = Some x" "\<forall>e\<in>set es. entry_top e \<le> x"
    using get_max_memory_max [OF assms(1)] by blast
  have below: "\<forall>p\<in>set (entry_free_pages e) \<union> set (entry_reserved_pages e). p < 65536" if "e \<in> set es" for e
    using x assms(2,3,5) that by (intro entry_pages_below) (auto simp: word_le_nat_alt)
  have free: "\<forall>p\<in>set ?free. p < 524288"
  proof
    fix p assume "p \<in> set ?free"
    then have "p < 65536" using below by (auto simp del: upt_rec_numeral)
    then show "p < 524288" by simp
  qed
  have resv: "\<forall>p\<in>set ?resv. p < 524288"
  proof
    fix p assume "p \<in> set ?resv"
    then have "p < 65536" using below by (auto simp del: upt_rec_numeral)
    then show "p < 524288" by simp
  qed
  have "unat (round_page_up kernel_end_pa) \<le> 65537 * 4096"
  proof -
    have "unat (kernel_end_pa + PAGE_SIZE - 1) = unat kernel_end_pa + 4096 - 1"
      using unat_add_pred [of kernel_end_pa PAGE_SIZE] assms(4) by (simp add: PAGE_SIZE_def)
    then show ?thesis using assms(4) by (simp add: round_page_up_alt round_page_down_nat)
  qed
  then have kern: "\<forall>p\<in>set ?kern. p < 524288" by (auto simp: page_no_def)
  let ?b1 = "fold (mark_page True) ?free (b\<lparr>bm_last_free_group_index := 0\<rparr>)"
  let ?b' = "fold (mark_page False) ?kern (fold (mark_page False) ?resv ?b1)"
  have "reset_pages_allocated max_memory b = Inr (b\<lparr>bm_last_free_group_index := 0\<rparr>)"
    using assms(3,6) by (intro reset_pages_allocated_zero) simp_all
  then have run: "init_bitmap_phys_allocator m mbd max_memory kernel_begin_pa kernel_end_pa b =
      lret (round_page_up kernel_end_pa - round_page_down kernel_begin_pa, ?b')"
    unfolding init_bitmap_phys_allocator_def reserve_kernel_memory_def alloc_page_region_def
      boot_foreach_free_page_pages [OF assms(1)] boot_foreach_reserved_region_pages [OF assms(1)]
    by (simp only: lbind_simps page_loop_pages round_page_down_aligned round_page_up_aligned
      kfor_free [OF free] kfor_alloc [OF resv] kfor_alloc [OF kern])
  have none: "\<not> page_free (b\<lparr>bm_last_free_group_index := 0\<rparr>) p" for p
    using assms(6) by (simp add: page_free_def)
  have "page_free ?b' p \<longleftrightarrow> p \<in> set ?free \<and> p \<notin> set ?resv \<and> p \<notin> set ?kern" for p
    unfolding page_free_mark_all [OF kern] page_free_mark_all [OF resv] page_free_mark_all [OF free]
    using none by auto
  then have "page_free ?b' p \<longleftrightarrow> 256 \<le> p \<and> (\<exists>e\<in>set es. p \<in> set (entry_free_pages e)) \<and>
       (\<forall>e\<in>set es. p \<notin> set (entry_reserved_pages e)) \<and>
       p \<notin> {page_no (round_page_down kernel_begin_pa)..<page_no (round_page_up kernel_end_pa)}" for p
    by (auto simp del: upt_rec_numeral)
  moreover have "bm_last_free_group_index ?b' = 0" unfolding mark_all_last by simp
  ultimately show ?thesis by (intro exI [of _ ?b'] conjI run allI)
qed

definition one_entry_map :: mem where
  "one_entry_map a = (if a = 0x9000 then 20 else if a = 0x900D then 0x40 else if a = 0x900E then 0x10
     else if a = 0x9014 then 1 else 0)"

definition one_entry_info :: multiboot_info where
  "one_entry_info = \<lparr>mbi_flags = 0x40, mbi_mmap_length = 24, mbi_mmap_addr = 0x9000\<rparr>"

definition one_entry :: mmap_entry where
  "one_entry = \<lparr>mm_addr_low = 0, mm_len_low = 0x104000, mm_type = 1\<rparr>"

theorem init_bitmap_phys_allocator_pages_witness:
  "\<exists>b'. init_bitmap_phys_allocator one_entry_map one_entry_info 0x104000 0x100000 0x100800
      \<lparr>bm_pages = (\<lambda>_. 0), bm_last_free_group_index = 0\<rparr> = lret (0x1000, b') \<and>
    page_free b' 257 \<and> page_free b' 259 \<and> \<not> page_free b' 256 \<and> \<not> page_free b' 260"
proof -
  have "mmap_at one_entry_map 0x9000 = one_entry" "next_mmap one_entry_map 0x9000 = 0x9018" by code_simp+
  then have chain: "mmap_entries one_entry_map one_entry_info [one_entry]"
    using mmap_chain.mmap_next [of "0x9000" "0x9018" one_entry_map "[]"]
    by (simp add: mmap_entries_def one_entry_info_def mmap_chain.mmap_end)
  have top: "get_max_memory one_entry_map one_entry_info = Some 0x104000" by code_simp
  have pages: "page_no (round_page_down 0x100000) = 256" "page_no (round_page_up 0x100800) = 257"
    "entry_free_pages one_entry = [256, 257, 258, 259]" "entry_reserved_pages one_entry = []"
    "round_page_up 0x100800 - round_page_down 0x100000 = 0x1000"
    by (simp_all add: entry_free_pages_def entry_reserved_pages_def one_entry_def page_no_def
      MULTIBOOT_MEMORY_AVAILABLE_def round_page_up_def round_page_down_def PAGE_MASK_def PAGE_SIZE_def)
  let ?b = "\<lparr>bm_pages = (\<lambda>_. 0), bm_last_free_group_index = 0\<rparr> :: bitmap"
  have side: "unat (0x104000 :: u32) \<le> 65536 * 4096" "unat (0x100800 :: u32) \<le> 65536 * 4096"
    "\<forall>e\<in>set [one_entry]. mm_addr_low e + mm_len_low e \<le> 0xFFFFF000" "bm_pages ?b = (\<lambda>_. 0)"
    by (simp_all add: one_entry_def)
  have "\<exists>b'. init_bitmap_phys_allocator one_entry_map one_entry_info 0x104000 0x100000 0x100800 ?b = lret (0x1000, b') \<and>
      bm_last_free_group_index b' = 0 \<and>
      (\<forall>p. page_free b' p \<longleftrightarrow> 256 \<le> p \<and> (\<exists>e\<in>set [one_entry]. p \<in> set (entry_free_pages e)) \<and>
        (\<forall>e\<in>set [one_entry]. p \<notin> set (entry_reserved_pages e)) \<and> p \<notin> {256..<257})"
    using init_bitmap_phys_allocator_pages [OF chain top side, of "0x100000"] unfolding pages .
  then obtain b' where "init_bitmap_phys_allocator one_entry_map one_entry_info 0x104000 0x100000 0x100800 ?b = lret (0x1000, b')"
    and "\<forall>p. page_free b' p \<longleftrightarrow> 256 \<le> p \<and> (\<exists>e\<in>set [one_entry]. p \<in> set (entry_free_pages e)) \<and>
        (\<forall>e\<in>set [one_entry]. p \<notin> set (entry_reserved_pages e)) \<and> p \<notin> {256..<257}"
    by blast
  then show ?thesis by (intro exI [of _ b']) (simp add: pages)
qed

text \<open>The reset loop of \<^verbatim>\<open>init_bitmap_phys_allocator\<close> clears one byte per page where the bitmap
  has one bit per page: on a machine with more than 256 MiB of memory it writes past the end
  of the array.\<close>

theorem init_bitmap_overruns:
  assumes "65536 * 4096 + 4096 \<le> unat max_memory"
  shows "init_bitmap_phys_allocator m mbd max_memory kernel_begin_pa kernel_end_pa b = Some (Inl BadAccess)"
proof -
  have "65536 < unat max_memory div 4096" using div_le_mono [OF assms, of 4096] by simp
  then show ?thesis by (simp add: init_bitmap_phys_allocator_def reset_pages_allocated_overruns)
qed

theorem init_bitmap_overruns_witness:
  "init_bitmap_phys_allocator one_entry_map one_entry_info 0x20000000 0x100000 0x100800
      \<lparr>bm_pages = (\<lambda>_. 0), bm_last_free_group_index = 0\<rparr> = Some (Inl BadAccess)"
  by (rule init_bitmap_overruns) simp

end
