(* ===== verification/Paging.thy ===== *)
theory Paging
  imports Boot_Data
begin

text \<open>
  The two-level page tables of \<^verbatim>\<open>kernel/arch/i386/memory/paging_utils.c\<close> and
  \<^verbatim>\<open>kernel/arch/i386/memory/paging.c\<close>.

  Physical memory is a function from the base address of a page frame and the index of a
  word in it to the word. The processor's walk is \<open>mmu_walk\<close>: the directory is the frame in
  \<open>cr3\<close>, and the code reaches the tables only through virtual addresses, the directory at
  \<open>0xFFFFF000\<close> and the table of directory entry \<open>i\<close> at \<open>0xFFC00000 + i * 0x1000\<close>. An
  access whose walk meets an entry that is not present is a page fault, the error
  \<open>BadAccess\<close>. Large pages, permissions and the translation cache are not modelled: the
  code sets no large-page bit and invalidates every entry it changes.

  \<open>mm_alloc_pagetable\<close>, which gives the frame for a new table, is an argument that threads
  its own state.
\<close>

section \<open>Definitions\<close>

type_synonym phys_mem = "u32 \<Rightarrow> u32 \<Rightarrow> u32"

definition PAGE_ENTRY_FLAG_PRESENT :: u32 where "PAGE_ENTRY_FLAG_PRESENT = 0x1"
definition PAGE_ENTRY_FLAG_WRITE :: u32 where "PAGE_ENTRY_FLAG_WRITE = 0x2"
definition PAGE_ENTRY_FLAG_USER :: u32 where "PAGE_ENTRY_FLAG_USER = 0x4"
definition PAGE_ENTRY_FLAG_ACCESS :: u32 where "PAGE_ENTRY_FLAG_ACCESS = 0x20"
definition PAGE_ENTRY_FLAG_DIRTY :: u32 where "PAGE_ENTRY_FLAG_DIRTY = 0x40"

definition PAGE_ENTRY_WRITE_KERNEL_FLAGS :: u16 where
  "PAGE_ENTRY_WRITE_KERNEL_FLAGS = ucast (PAGE_ENTRY_FLAG_PRESENT OR PAGE_ENTRY_FLAG_WRITE)"

definition INVALID_PAGE_MEMORY :: u32 where
  "INVALID_PAGE_MEMORY = NOT 0"

definition ENTRIES_AMOUNT :: u32 where
  "ENTRIES_AMOUNT = 1024"

definition PAGING_FLAG_PRESENT :: u16 where "PAGING_FLAG_PRESENT = 0x1"
definition PAGING_FLAG_DIRTY :: u16 where "PAGING_FLAG_DIRTY = 0x2"
definition PAGING_FLAG_ACCESS :: u16 where "PAGING_FLAG_ACCESS = 0x4"
definition PAGING_FLAG_USER :: u16 where "PAGING_FLAG_USER = 0x8"
definition PAGING_FLAG_WRITE :: u16 where "PAGING_FLAG_WRITE = 0x10"
definition PAGING_FLAG_NOEXEC :: u16 where "PAGING_FLAG_NOEXEC = 0x20"
definition PAGING_FLAG_READ :: u16 where "PAGING_FLAG_READ = 0x40"

definition present :: "u32 \<Rightarrow> bool" where
  "present e \<longleftrightarrow> e AND PAGE_ENTRY_FLAG_PRESENT \<noteq> 0"

definition get_pde_index :: "u32 \<Rightarrow> u32" where
  "get_pde_index va = drop_bit 22 va"

definition get_pte_index :: "u32 \<Rightarrow> u32" where
  "get_pte_index va = drop_bit 12 va AND 0x3FF"

text \<open>The processor: the frame a virtual address is mapped to, and accesses to a word.\<close>

definition mmu_walk :: "u32 \<Rightarrow> phys_mem \<Rightarrow> u32 \<Rightarrow> u32 option" where
  "mmu_walk cr3 m va =
     (let pde = m cr3 (drop_bit 22 va)
      in if \<not> present pde then None
         else let pte = m (pde AND PAGE_MASK) (drop_bit 12 va AND 0x3FF)
              in if \<not> present pte then None else Some (pte AND PAGE_MASK))"

definition vread :: "u32 \<Rightarrow> phys_mem \<Rightarrow> u32 \<Rightarrow> u32 kres" where
  "vread cr3 m va =
     (case mmu_walk cr3 m va of None \<Rightarrow> Inl BadAccess | Some f \<Rightarrow> Inr (m f (drop_bit 2 (va AND 0xFFF))))"

definition vwrite :: "u32 \<Rightarrow> u32 \<Rightarrow> u32 \<Rightarrow> phys_mem \<Rightarrow> phys_mem kres" where
  "vwrite cr3 va v m =
     (case mmu_walk cr3 m va of None \<Rightarrow> Inl BadAccess
      | Some f \<Rightarrow> Inr (m(f := (m f)(drop_bit 2 (va AND 0xFFF) := v))))"

definition PAGE_DIRECTORY_VA :: u32 where
  "PAGE_DIRECTORY_VA = 0xFFFFF000"

definition table_va :: "u32 \<Rightarrow> u32" where
  "table_va dir_index = 0xFFC00000 + dir_index * PAGE_SIZE"

text \<open>\<^verbatim>\<open>table->entries[i]\<close> for a pointer to a table.\<close>

definition entry_va :: "u32 \<Rightarrow> u32 \<Rightarrow> u32" where
  "entry_va table i = table + 4 * i"

definition get_table_entry :: "u32 \<Rightarrow> u32 \<Rightarrow> phys_mem \<Rightarrow> u32 kres" where
  "get_table_entry cr3 va m = vread cr3 m (entry_va PAGE_DIRECTORY_VA (drop_bit 22 va))"

definition get_page_table :: "u32 \<Rightarrow> u32 \<Rightarrow> phys_mem \<Rightarrow> u32 kres" where
  "get_page_table cr3 dir_index m =
     kbind (vread cr3 m (entry_va PAGE_DIRECTORY_VA dir_index)) (\<lambda>page_dir_entry.
     if \<not> present page_dir_entry then Inr NULL else Inr (table_va dir_index))"

definition get_page_entry :: "u32 \<Rightarrow> u32 \<Rightarrow> phys_mem \<Rightarrow> u32 kres" where
  "get_page_entry cr3 va m =
     kbind (vread cr3 m (entry_va PAGE_DIRECTORY_VA (drop_bit 22 va))) (\<lambda>pde.
     if \<not> present pde then Inr INVALID_PAGE_MEMORY
     else vread cr3 m (entry_va (table_va (drop_bit 22 va)) (drop_bit 12 va AND 0x3FF)))"

definition get_page_phys_base :: "u32 \<Rightarrow> u32 \<Rightarrow> u32 \<Rightarrow> phys_mem \<Rightarrow> u32 kres" where
  "get_page_phys_base cr3 table index m =
     kbind (vread cr3 m (entry_va table index)) (\<lambda>e.
     if \<not> present e then Inr NULL else Inr (e AND NOT 0xFFF))"

definition virt_to_phys :: "u32 \<Rightarrow> u32 \<Rightarrow> phys_mem \<Rightarrow> u32 kres" where
  "virt_to_phys cr3 va m =
     kbind (vread cr3 m (entry_va PAGE_DIRECTORY_VA (drop_bit 22 va))) (\<lambda>pde.
     if \<not> present pde then Inr NULL
     else kbind (vread cr3 m (entry_va (table_va (drop_bit 22 va)) (drop_bit 12 va AND 0x3FF))) (\<lambda>pte.
       if \<not> present pte then Inr NULL else Inr ((pte AND NOT 0xFFF) OR (va AND 0xFFF))))"

text \<open>The page-long \<^verbatim>\<open>memset\<close> of a table through its virtual address, word by word.\<close>

definition clear_page :: "u32 \<Rightarrow> u32 \<Rightarrow> phys_mem \<Rightarrow> phys_mem kres" where
  "clear_page cr3 va = kfor (\<lambda>i. vwrite cr3 (entry_va va (of_nat i)) 0) [0..<1024]"

definition map_table_entry :: "u32 \<Rightarrow> u32 \<Rightarrow> u32 \<Rightarrow> u16 \<Rightarrow> phys_mem \<Rightarrow> (bool \<times> phys_mem) kres" where
  "map_table_entry cr3 phys_addr va flags m =
     (let page_dir_index = get_pde_index va
      in kbind (vread cr3 m (entry_va PAGE_DIRECTORY_VA page_dir_index)) (\<lambda>pde.
         if present pde then Inr (False, m)
         else kbind (vwrite cr3 (entry_va PAGE_DIRECTORY_VA page_dir_index) ((phys_addr AND PAGE_MASK) OR ucast flags) m) (\<lambda>m.
              kbind (clear_page cr3 (table_va page_dir_index) m) (\<lambda>m. Inr (True, m)))))"

definition map_page_entry :: "u32 \<Rightarrow> u32 \<Rightarrow> u32 \<Rightarrow> u16 \<Rightarrow> phys_mem \<Rightarrow> (bool \<times> phys_mem) kres" where
  "map_page_entry cr3 phys_addr va flags m =
     (let page_dir_index = get_pde_index va; page_table_index = get_pte_index va
      in kbind (vread cr3 m (entry_va PAGE_DIRECTORY_VA page_dir_index)) (\<lambda>pde.
         if \<not> present pde then Inr (False, m)
         else kbind (vwrite cr3 (entry_va (table_va page_dir_index) page_table_index)
                       ((phys_addr AND 0xFFFFF000) OR (ucast flags AND 0xFFF)) m)
                (\<lambda>m. Inr (True, m))))"

definition set_page_entry :: "u32 \<Rightarrow> u32 \<Rightarrow> u32 \<Rightarrow> phys_mem \<Rightarrow> phys_mem kres" where
  "set_page_entry cr3 vaddr entry m =
     (let page_dir_index = drop_bit 22 vaddr; page_table_index = drop_bit 12 vaddr AND 0x3FF
      in kbind (vread cr3 m (entry_va PAGE_DIRECTORY_VA page_dir_index)) (\<lambda>pde.
         if \<not> present pde then Inr m
         else vwrite cr3 (entry_va (table_va page_dir_index) page_table_index) entry m))"

text \<open>The inner loop of \<^verbatim>\<open>can_map_pages\<close>: \<open>None\<close> when a present entry is met, else the address
  and the count that remain.\<close>

function can_map_table ::
  "u32 \<Rightarrow> phys_mem \<Rightarrow> u32 \<Rightarrow> u32 \<Rightarrow> u32 \<Rightarrow> u32 \<Rightarrow> u32 \<Rightarrow> (u32 \<times> u32) option kres" where
  "can_map_table cr3 m table va table_index pages_in_table count =
     (if pages_in_table \<noteq> 0 \<and> count \<noteq> 0
      then (case vread cr3 m (entry_va table table_index) of
              Inl e \<Rightarrow> Inl e
            | Inr entry \<Rightarrow>
                if present entry then Inr None
                else can_map_table cr3 m table (va + PAGE_SIZE) (table_index + 1) (pages_in_table - 1) (count - 1))
      else Inr (Some (va, count)))"
  by pat_completeness auto
termination
  by (relation "measure (\<lambda>(_, _, _, _, _, _, count). unat count)") (auto simp: unat_gt_0 unat_minus_one)

declare can_map_table.simps [simp del]

partial_function (option) can_map_pages :: "u32 \<Rightarrow> phys_mem \<Rightarrow> u32 \<Rightarrow> u32 \<Rightarrow> bool kloop" where
  "can_map_pages cr3 m va count =
     (if count \<noteq> 0
      then let dir_index = get_pde_index va; table_index = get_pte_index va;
               pages_in_table = ENTRIES_AMOUNT - table_index
           in lbind (Some (get_page_table cr3 dir_index m)) (\<lambda>table.
              if table = NULL
              then let skip = (if pages_in_table < count then pages_in_table else count)
                   in can_map_pages cr3 m (va + skip * PAGE_SIZE) (count - skip)
              else lbind (Some (can_map_table cr3 m table va table_index pages_in_table count)) (\<lambda>r.
                case r of None \<Rightarrow> lret False
                | Some (va, count) \<Rightarrow> can_map_pages cr3 m va count))
      else lret True)"

declare can_map_pages.simps [code]

definition paging_to_hw_flags :: "u16 \<Rightarrow> u16" where
  "paging_to_hw_flags paging_flags =
     (let hw_flags = 0;
          hw_flags = (if paging_flags AND PAGING_FLAG_ACCESS \<noteq> 0 then hw_flags OR ucast PAGE_ENTRY_FLAG_ACCESS else hw_flags);
          hw_flags = (if paging_flags AND PAGING_FLAG_DIRTY \<noteq> 0 then hw_flags OR ucast PAGE_ENTRY_FLAG_DIRTY else hw_flags);
          hw_flags = (if paging_flags AND PAGING_FLAG_WRITE \<noteq> 0 then hw_flags OR ucast PAGE_ENTRY_FLAG_WRITE else hw_flags);
          hw_flags = (if paging_flags AND PAGING_FLAG_USER \<noteq> 0 then hw_flags OR ucast PAGE_ENTRY_FLAG_USER else hw_flags);
          hw_flags = (if paging_flags AND PAGING_FLAG_PRESENT \<noteq> 0 then hw_flags OR ucast PAGE_ENTRY_FLAG_PRESENT else hw_flags)
      in hw_flags)"

definition paging_get_flags :: "u32 \<Rightarrow> u32 \<Rightarrow> phys_mem \<Rightarrow> u16 kres" where
  "paging_get_flags cr3 va m =
     kbind (get_page_entry cr3 va m) (\<lambda>entry.
     let result = 0;
         result = (if entry AND PAGE_ENTRY_FLAG_PRESENT \<noteq> 0 then result OR PAGING_FLAG_PRESENT else result);
         result = (if entry AND PAGE_ENTRY_FLAG_DIRTY \<noteq> 0 then result OR PAGING_FLAG_DIRTY else result);
         result = (if entry AND PAGE_ENTRY_FLAG_ACCESS \<noteq> 0 then result OR PAGING_FLAG_ACCESS else result);
         result = (if entry AND PAGE_ENTRY_FLAG_WRITE \<noteq> 0 then result OR PAGING_FLAG_WRITE else result);
         result = (if entry AND PAGE_ENTRY_FLAG_USER \<noteq> 0 then result OR PAGING_FLAG_USER else result)
     in Inr result)"

definition paging_clear_flags :: "u32 \<Rightarrow> u32 \<Rightarrow> u16 \<Rightarrow> phys_mem \<Rightarrow> phys_mem kres" where
  "paging_clear_flags cr3 va flags m =
     kbind (get_page_entry cr3 va m) (\<lambda>entry.
     kbind (kassert (flags AND PAGING_FLAG_PRESENT = 0)) (\<lambda>_.
     let entry = (if entry AND ucast PAGING_FLAG_ACCESS \<noteq> 0 then entry AND NOT PAGE_ENTRY_FLAG_ACCESS else entry);
         entry = (if entry AND ucast PAGING_FLAG_DIRTY \<noteq> 0 then entry AND NOT PAGE_ENTRY_FLAG_DIRTY else entry);
         entry = (if entry AND ucast PAGING_FLAG_WRITE \<noteq> 0 then entry AND NOT PAGE_ENTRY_FLAG_WRITE else entry);
         entry = (if entry AND ucast PAGING_FLAG_USER \<noteq> 0 then entry AND NOT PAGE_ENTRY_FLAG_USER else entry)
     in set_page_entry cr3 va entry m))"

definition ensure_page_table ::
  "('a \<Rightarrow> (u32 \<times> 'a) kloop) \<Rightarrow> u32 \<Rightarrow> u32 \<Rightarrow> phys_mem \<times> 'a \<Rightarrow> (u32 \<times> phys_mem \<times> 'a) kloop" where
  "ensure_page_table mm_alloc_pagetable cr3 va = (\<lambda>(m, a).
     let dir_index = get_pde_index va
     in lbind (Some (get_table_entry cr3 va m)) (\<lambda>entry.
        if \<not> present entry
        then lbind (mm_alloc_pagetable a) (\<lambda>(new_table_phys, a).
             lbind (lassert (new_table_phys AND (PAGE_SIZE - 1) = 0)) (\<lambda>_.
             if new_table_phys = NULL then lret (NULL, m, a)
             else lbind (Some (map_table_entry cr3 new_table_phys va PAGE_ENTRY_WRITE_KERNEL_FLAGS m)) (\<lambda>(_, m).
                  lbind (Some (get_page_table cr3 dir_index m)) (\<lambda>table. lret (table, m, a)))))
        else lbind (Some (get_page_table cr3 dir_index m)) (\<lambda>table. lret (table, m, a))))"

text \<open>The inner loop of \<^verbatim>\<open>map_phys_range\<close>, which ignores the results of \<^verbatim>\<open>map_page_entry\<close>.\<close>

function map_table_pages ::
  "u32 \<Rightarrow> u16 \<Rightarrow> u32 \<Rightarrow> u32 \<Rightarrow> u32 \<Rightarrow> u32 \<Rightarrow> phys_mem \<Rightarrow> (u32 \<times> u32 \<times> u32 \<times> phys_mem) kres" where
  "map_table_pages cr3 hw_flags pa va pages_in_table count m =
     (if pages_in_table \<noteq> 0 \<and> count \<noteq> 0
      then (case map_page_entry cr3 pa va hw_flags m of
              Inl e \<Rightarrow> Inl e
            | Inr (_, m) \<Rightarrow>
                map_table_pages cr3 hw_flags (pa + PAGE_SIZE) (va + PAGE_SIZE) (pages_in_table - 1) (count - 1) m)
      else Inr (pa, va, count, m))"
  by pat_completeness auto
termination
  by (relation "measure (\<lambda>(_, _, _, _, _, count, _). unat count)") (auto simp: unat_gt_0 unat_minus_one)

declare map_table_pages.simps [simp del]

partial_function (option) map_phys_range ::
  "('a \<Rightarrow> (u32 \<times> 'a) kloop) \<Rightarrow> u32 \<Rightarrow> u16 \<Rightarrow> u32 \<Rightarrow> u32 \<Rightarrow> u32 \<Rightarrow> phys_mem \<times> 'a \<Rightarrow>
   (bool \<times> phys_mem \<times> 'a) kloop" where
  "map_phys_range mm_alloc_pagetable cr3 hw_flags pa va count s =
     (if count \<noteq> 0
      then let table_index = get_pte_index va; pages_in_table = ENTRIES_AMOUNT - table_index
           in lbind (ensure_page_table mm_alloc_pagetable cr3 va s) (\<lambda>(table, m, a).
              if table = NULL then lret (False, m, a)
              else lbind (Some (map_table_pages cr3 hw_flags pa va pages_in_table count m)) (\<lambda>(pa, va, count, m).
                   map_phys_range mm_alloc_pagetable cr3 hw_flags pa va count (m, a)))
      else lret (True, s))"

declare map_phys_range.simps [code]

definition paging_map_pages ::
  "('a \<Rightarrow> (u32 \<times> 'a) kloop) \<Rightarrow> u32 \<Rightarrow> u32 \<Rightarrow> u32 \<Rightarrow> u32 \<Rightarrow> u16 \<Rightarrow> phys_mem \<times> 'a \<Rightarrow>
   (bool \<times> phys_mem \<times> 'a) kloop" where
  "paging_map_pages mm_alloc_pagetable cr3 pa va count paging_flags s =
     (let hw_flags = paging_to_hw_flags (paging_flags OR PAGING_FLAG_PRESENT)
      in lbind (lassert (pa mod PAGE_SIZE = 0)) (\<lambda>_.
         lbind (lassert (va mod PAGE_SIZE = 0)) (\<lambda>_.
         lbind (lassert (count > 0)) (\<lambda>_.
         map_phys_range mm_alloc_pagetable cr3 hw_flags pa va count s))))"

definition paging_map_page ::
  "('a \<Rightarrow> (u32 \<times> 'a) kloop) \<Rightarrow> u32 \<Rightarrow> u32 \<Rightarrow> u32 \<Rightarrow> u16 \<Rightarrow> phys_mem \<times> 'a \<Rightarrow>
   (bool \<times> phys_mem \<times> 'a) kloop" where
  "paging_map_page mm_alloc_pagetable cr3 pa va paging_flags =
     paging_map_pages mm_alloc_pagetable cr3 pa va 1 paging_flags"

definition paging_map_identity ::
  "('a \<Rightarrow> (u32 \<times> 'a) kloop) \<Rightarrow> u32 \<Rightarrow> u32 \<Rightarrow> u32 \<Rightarrow> u16 \<Rightarrow> phys_mem \<times> 'a \<Rightarrow> (phys_mem \<times> 'a) kloop" where
  "paging_map_identity mm_alloc_pagetable cr3 pa count paging_flags s =
     lbind (can_map_pages cr3 (fst s) pa count) (\<lambda>_.
     lbind (paging_map_pages mm_alloc_pagetable cr3 pa pa count paging_flags s) (\<lambda>(_, s). lret s))"

definition paging_unmap_page :: "u32 \<Rightarrow> u32 \<Rightarrow> phys_mem \<Rightarrow> (bool \<times> phys_mem) kres" where
  "paging_unmap_page cr3 va m =
     kbind (get_table_entry cr3 va m) (\<lambda>pde.
     let table = pde AND PAGE_MASK
     in kbind (get_page_entry cr3 va m) (\<lambda>entry.
        if entry = 0 \<or> \<not> present entry then Inr (False, m)
        else let pte_index = get_pte_index va
             in kbind (vwrite cr3 (entry_va table pte_index) 0 m) (\<lambda>m. Inr (True, m))))"

definition unmap_step :: "u32 \<Rightarrow> u32 \<Rightarrow> phys_mem \<Rightarrow> phys_mem kres" where
  "unmap_step cr3 va m =
     kbind (get_table_entry cr3 va m) (\<lambda>pde.
     if \<not> present pde then Inr m
     else let table = pde AND PAGE_MASK
          in kbind (get_page_entry cr3 va m) (\<lambda>entry.
             if \<not> present entry then Inr m
             else vwrite cr3 (entry_va table (get_pte_index va)) 0 m))"

definition paging_unmap_pages :: "u32 \<Rightarrow> u32 \<Rightarrow> u32 \<Rightarrow> phys_mem \<Rightarrow> (bool \<times> phys_mem) kres" where
  "paging_unmap_pages cr3 va count m =
     kbind (kfor (\<lambda>i. unmap_step cr3 (va + of_nat i * PAGE_SIZE)) [0..<unat count] m) (\<lambda>m. Inr (True, m))"

text \<open>The walk over all paging structures; the address of \<^verbatim>\<open>page_directory\<close> is an argument.\<close>

definition boot_foreach_page_struct ::
  "u32 \<Rightarrow> phys_mem \<Rightarrow> u32 \<Rightarrow> (u32 \<Rightarrow> 's \<Rightarrow> 's kres) \<Rightarrow> 's \<Rightarrow> 's kres" where
  "boot_foreach_page_struct cr3 m page_directory callback s =
     kbind (virt_to_phys cr3 page_directory m) (\<lambda>pd_pa.
     kbind (callback pd_pa s) (\<lambda>s.
     kfor (\<lambda>pdi s. kbind (get_page_table cr3 (of_nat pdi) m) (\<lambda>pt.
             if pt = NULL then Inr s
             else kbind (virt_to_phys cr3 pt m) (\<lambda>pt_pa. callback pt_pa s)))
       [0..<unat ENTRIES_AMOUNT] s))"

end
