(* ===== verification/Paging_Correct.thy ===== *)
theory Paging_Correct
  imports Paging
begin

text \<open>
  What the page-table code does to the address space. \<open>aspace\<close> reads the tables as a map
  from page numbers to frames; \<open>pt_ok\<close> is the shape the code relies on: the last directory
  entry points back to the directory and no two directory entries share a table. The
  locale \<open>frame_supply\<close> is what the mapping code relies on in \<^verbatim>\<open>mm_alloc_pagetable\<close>: aligned
  frames it never hands out twice. Under it, mapping a range is the obvious update of the
  address space.
\<close>

section \<open>Addresses of entries\<close>

lemma bit_lt_1024: "i < 1024 \<Longrightarrow> bit (i :: u32) n \<Longrightarrow> n < 10"
proof (rule ccontr)
  assume "i < 1024" "bit i n" "\<not> n < 10"
  then have "unat i < 2 ^ 10" "bit (unat i) n" by (simp_all add: word_less_nat_alt bit_unsigned_iff)
  moreover have "(2 :: nat) ^ 10 \<le> 2 ^ n" using \<open>\<not> n < 10\<close> by (intro power_increasing) simp_all
  ultimately show False by (simp add: bit_iff_odd)
qed

lemma FFF_mask: "(0xFFF :: u32) = mask 12" "(0x3FF :: u32) = mask 10" "PAGE_MASK = NOT (mask 12)"
  "(0xFFFFF000 :: u32) = NOT (mask 12)"
  by (simp_all add: mask_eq_exp_minus_1 PAGE_MASK_def PAGE_SIZE_def)

lemma entry_va_or:
  assumes "p AND 0xFFF = 0" "i < 1024"
  shows "entry_va p i = p OR push_bit 2 i"
proof -
  have "p + push_bit 2 i = p OR push_bit 2 i"
  proof (rule disjunctive_add_eq_or)
    show "p AND push_bit 2 i = 0"
    proof (rule bit_eqI)
      fix n assume "possible_bit TYPE(u32) n"
      have "\<not> bit p n" if "n < 12"
        using arg_cong [OF assms(1), of "\<lambda>w. bit w n"] that by (simp add: FFF_mask bit_simps)
      then show "bit (p AND push_bit 2 i) n = bit (0 :: u32) n"
        using bit_lt_1024 [OF assms(2), of "n - 2"] by (cases "n < 12") (auto simp: bit_simps)
    qed
  qed
  then show ?thesis by (simp add: entry_va_def push_bit_eq_mult mult.commute)
qed

lemma entry_va_parts:
  assumes "p AND 0xFFF = 0" "i < 1024"
  shows "drop_bit 22 (entry_va p i) = drop_bit 22 p"
    "drop_bit 12 (entry_va p i) = drop_bit 12 p"
    "drop_bit 2 (entry_va p i AND 0xFFF) = i"
proof -
  have b: "bit i n \<Longrightarrow> n < 10" for n using bit_lt_1024 [OF assms(2)] by blast
  have p: "n < 12 \<Longrightarrow> \<not> bit p n" for n
    using arg_cong [OF assms(1), of "\<lambda>w. bit w n"] by (simp add: FFF_mask bit_simps)
  show "drop_bit 22 (entry_va p i) = drop_bit 22 p" "drop_bit 12 (entry_va p i) = drop_bit 12 p"
    by (auto simp: entry_va_or [OF assms] bit_eq_iff bit_simps dest: b)
  show "drop_bit 2 (entry_va p i AND 0xFFF) = i"
    using p by (auto simp: entry_va_or [OF assms] FFF_mask bit_eq_iff bit_simps dest: b)
qed

lemma entry_va_index: "p AND 0xFFF = 0 \<Longrightarrow> i < 1024 \<Longrightarrow> drop_bit 2 (entry_va p i) AND 0x3FF = i"
  using entry_va_parts(3) [of p i] by simp

lemma table_va_parts:
  assumes "d < 1024"
  shows "drop_bit 22 (table_va d) = 1023" "drop_bit 12 (table_va d) AND 0x3FF = d" "table_va d AND 0xFFF = 0"
    "table_va d \<noteq> 0"
proof -
  have b: "bit d n \<Longrightarrow> n < 10" for n using bit_lt_1024 [OF assms] by blast
  have c: "(0xFFC00000 :: u32) = NOT (mask 22)" by (simp add: mask_eq_exp_minus_1)
  have "NOT (mask 22) + push_bit 12 d = NOT (mask 22) OR push_bit 12 d"
    by (rule disjunctive_add_eq_or) (auto simp: bit_eq_iff bit_simps dest: b)
  then have eq: "table_va d = NOT (mask 22) OR push_bit 12 d"
    by (simp add: table_va_def PAGE_SIZE_def push_bit_eq_mult mult.commute c)
  have "(1023 :: u32) = mask 10" by (simp add: mask_eq_exp_minus_1)
  then show 1: "drop_bit 22 (table_va d) = 1023"
    unfolding eq by (simp only:) (auto simp: bit_eq_iff bit_simps dest: b)
  show "drop_bit 12 (table_va d) AND 0x3FF = d" "table_va d AND 0xFFF = 0"
    unfolding eq FFF_mask by (auto simp: bit_eq_iff bit_simps dest: b)
  show "table_va d \<noteq> 0" using 1 by auto
qed

lemma dir_va_parts:
  "drop_bit 22 PAGE_DIRECTORY_VA = 1023" "drop_bit 12 PAGE_DIRECTORY_VA AND 0x3FF = 1023" "PAGE_DIRECTORY_VA AND 0xFFF = 0"
  by (simp_all add: PAGE_DIRECTORY_VA_def)

lemma pde_index_lt [simp]: "drop_bit 22 (va :: u32) < 1024" "get_pde_index va < 1024"
proof -
  have "unat va div 4194304 < 1024" using unat_u32_lt [of va] by (simp add: less_mult_imp_div_less del: unat_u32_lt)
  then show "drop_bit 22 va < 1024" by (simp add: word_less_nat_alt drop_bit_eq_div unat_div_distrib)
  then show "get_pde_index va < 1024" by (simp add: get_pde_index_def)
qed

lemma pte_index_lt [simp]: "drop_bit 12 (va :: u32) AND 0x3FF < 1024" "get_pte_index va < 1024"
proof -
  have "drop_bit 12 va AND 0x3FF \<le> 0x3FF" by (rule word_and_le1)
  then show "drop_bit 12 va AND 0x3FF < 1024" by (rule le_less_trans) simp
  then show "get_pte_index va < 1024" by (simp add: get_pte_index_def)
qed

section \<open>Accesses through the recursive mapping\<close>

definition rec_ok :: "u32 \<Rightarrow> phys_mem \<Rightarrow> bool" where
  "rec_ok cr3 m \<longleftrightarrow> present (m cr3 1023) \<and> m cr3 1023 AND PAGE_MASK = cr3"

lemma walk_dir:
  assumes "rec_ok cr3 m" "i < 1024"
  shows "mmu_walk cr3 m (entry_va PAGE_DIRECTORY_VA i) = Some cr3"
  using assms unfolding mmu_walk_def entry_va_parts [OF dir_va_parts(3) assms(2)] dir_va_parts
  by (simp add: rec_ok_def)

lemma walk_table:
  assumes "rec_ok cr3 m" "d < 1024" "i < 1024"
  shows "mmu_walk cr3 m (entry_va (table_va d) i) =
    (if present (m cr3 d) then Some (m cr3 d AND PAGE_MASK) else None)"
  using assms unfolding mmu_walk_def entry_va_parts [OF table_va_parts(3) [OF assms(2)] assms(3)] table_va_parts [OF assms(2)]
  by (simp add: rec_ok_def)

lemma vread_dir [simp]: "rec_ok cr3 m \<Longrightarrow> i < 1024 \<Longrightarrow> vread cr3 m (entry_va PAGE_DIRECTORY_VA i) = Inr (m cr3 i)"
  by (simp add: vread_def walk_dir entry_va_index dir_va_parts)

lemma vwrite_dir [simp]:
  "rec_ok cr3 m \<Longrightarrow> i < 1024 \<Longrightarrow> vwrite cr3 (entry_va PAGE_DIRECTORY_VA i) v m = Inr (m(cr3 := (m cr3)(i := v)))"
  by (simp add: vwrite_def walk_dir entry_va_index dir_va_parts)

lemma vread_table [simp]:
  "rec_ok cr3 m \<Longrightarrow> d < 1024 \<Longrightarrow> i < 1024 \<Longrightarrow> present (m cr3 d) \<Longrightarrow>
   vread cr3 m (entry_va (table_va d) i) = Inr (m (m cr3 d AND PAGE_MASK) i)"
  by (simp add: vread_def walk_table entry_va_index table_va_parts)

lemma vwrite_table [simp]:
  "rec_ok cr3 m \<Longrightarrow> d < 1024 \<Longrightarrow> i < 1024 \<Longrightarrow> present (m cr3 d) \<Longrightarrow>
   vwrite cr3 (entry_va (table_va d) i) v m =
     Inr (m(m cr3 d AND PAGE_MASK := (m (m cr3 d AND PAGE_MASK))(i := v)))"
  by (simp add: vwrite_def walk_table entry_va_index table_va_parts)

lemma get_page_table_eq [simp]:
  "rec_ok cr3 m \<Longrightarrow> d < 1024 \<Longrightarrow> get_page_table cr3 d m = Inr (if present (m cr3 d) then table_va d else NULL)"
  by (simp add: get_page_table_def)

section \<open>The address space\<close>

definition aspace :: "u32 \<Rightarrow> phys_mem \<Rightarrow> nat \<Rightarrow> u32 option" where
  "aspace cr3 m p =
     (let pde = m cr3 (of_nat (p div 1024))
      in if \<not> present pde then None
         else let pte = m (pde AND PAGE_MASK) (of_nat (p mod 1024))
              in if \<not> present pte then None else Some (pte AND PAGE_MASK))"

lemma pde_index_page: "drop_bit 22 va = of_nat (page_no va div 1024)"
proof -
  have "page_no va div 1024 < 4294967296" using page_no_lt [of va] by linarith
  then show ?thesis
    by (simp add: word_unat_eq_iff drop_bit_eq_div unat_div_distrib unat_of_nat page_no_def div_mult2_eq [symmetric])
qed

lemma pte_index_page: "drop_bit 12 va AND 0x3FF = of_nat (page_no va mod 1024)"
proof -
  have "drop_bit 12 va AND 0x3FF = drop_bit 12 va mod 1024"
    by (simp add: FFF_mask(2) flip: take_bit_eq_mask) (simp add: take_bit_eq_mod)
  then show ?thesis
    by (simp add: word_unat_eq_iff drop_bit_eq_div unat_div_distrib unat_mod_distrib unat_of_nat page_no_def)
qed

lemma mmu_walk_aspace: "mmu_walk cr3 m va = aspace cr3 m (page_no va)"
  unfolding mmu_walk_def aspace_def pde_index_page pte_index_page ..

lemma index_of_page [simp]:
  "p < 1048576 \<Longrightarrow> get_pde_index (page_addr p) = of_nat (p div 1024)"
  "p < 1048576 \<Longrightarrow> get_pte_index (page_addr p) = of_nat (p mod 1024)"
  by (simp_all add: get_pde_index_def get_pte_index_def pde_index_page pte_index_page)

lemma of_nat_index_lt [simp]: "(of_nat (p mod 1024) :: u32) < 1024" "p < 1048576 \<Longrightarrow> (of_nat (p div 1024) :: u32) < 1024"
  by (simp_all add: word_less_nat_alt unat_of_nat less_mult_imp_div_less)

lemma of_nat_index_eq:
  "p < 1048576 \<Longrightarrow> q < 1048576 \<Longrightarrow> (of_nat (p div 1024) :: u32) = of_nat (q div 1024) \<longleftrightarrow> p div 1024 = q div 1024"
  "(of_nat (p mod 1024) :: u32) = of_nat (q mod 1024) \<longleftrightarrow> p mod 1024 = q mod 1024"
proof -
  assume "p < 1048576" "q < 1048576"
  then have "p div 1024 < 2 ^ 32" "q div 1024 < 2 ^ 32" by simp_all
  then show "(of_nat (p div 1024) :: u32) = of_nat (q div 1024) \<longleftrightarrow> p div 1024 = q div 1024"
    by (rule of_nat_u32_inj)
next
  have "p mod 1024 < 2 ^ 32" "q mod 1024 < 2 ^ 32"
    by (rule less_trans [OF mod_less_divisor], simp_all)+
  then show "(of_nat (p mod 1024) :: u32) = of_nat (q mod 1024) \<longleftrightarrow> p mod 1024 = q mod 1024"
    by (rule of_nat_u32_inj)
qed

text \<open>The frames that hold the directory and the tables.\<close>

definition tables :: "u32 \<Rightarrow> phys_mem \<Rightarrow> u32 set" where
  "tables cr3 m = {m cr3 d AND PAGE_MASK | d. d < 1024 \<and> present (m cr3 d)}"

definition pt_ok :: "u32 \<Rightarrow> phys_mem \<Rightarrow> bool" where
  "pt_ok cr3 m \<longleftrightarrow> rec_ok cr3 m \<and>
     (\<forall>d<1024. \<forall>d'<1024. d \<noteq> d' \<and> present (m cr3 d) \<and> present (m cr3 d') \<longrightarrow>
        m cr3 d AND PAGE_MASK \<noteq> m cr3 d' AND PAGE_MASK)"

lemma pt_ok_rec [simp]: "pt_ok cr3 m \<Longrightarrow> rec_ok cr3 m"
  by (simp add: pt_ok_def)

lemma pt_okD:
  "pt_ok cr3 m \<Longrightarrow> d < 1024 \<Longrightarrow> d' < 1024 \<Longrightarrow> present (m cr3 d) \<Longrightarrow> present (m cr3 d') \<Longrightarrow>
   m cr3 d AND PAGE_MASK = m cr3 d' AND PAGE_MASK \<Longrightarrow> d = d'"
  unfolding pt_ok_def by blast

lemma pt_ok_dir:
  assumes "pt_ok cr3 m" "d < 1024" "d \<noteq> 1023" "present (m cr3 d)"
  shows "m cr3 d AND PAGE_MASK \<noteq> cr3"
  using pt_okD [OF assms(1,2), of 1023] assms by (auto simp: pt_ok_def rec_ok_def)

lemma cr3_in_tables: "rec_ok cr3 m \<Longrightarrow> cr3 \<in> tables cr3 m"
  unfolding tables_def rec_ok_def by (intro CollectI exI [of _ 1023]) simp

section \<open>Mapping one page\<close>

lemma entry_frame:
  "(((pa :: u32) AND 0xFFFFF000) OR (x AND 0xFFF)) AND PAGE_MASK = pa AND PAGE_MASK"
  by (auto simp: FFF_mask bit_eq_iff bit_simps)

lemma present_bit: "present e \<longleftrightarrow> bit e 0"
  by (simp add: present_def PAGE_ENTRY_FLAG_PRESENT_def and_one_eq bit_0 odd_iff_mod_2_eq_one)

lemma entry_present: "present ((pa AND 0xFFFFF000) OR (ucast (flags :: u16) AND 0xFFF)) \<longleftrightarrow> bit flags 0"
  by (simp add: present_bit FFF_mask bit_simps)

definition map_spec :: "u32 \<Rightarrow> nat \<Rightarrow> nat \<Rightarrow> (nat \<Rightarrow> u32 option) \<Rightarrow> nat \<Rightarrow> u32 option" where
  "map_spec pa p n A = (\<lambda>q. if p \<le> q \<and> q < p + n then Some (pa + of_nat (4096 * (q - p))) else A q)"

lemma user_pde: "p < 1047552 \<Longrightarrow> (of_nat (p div 1024) :: u32) \<noteq> 1023"
proof -
  assume "p < 1047552"
  then have "p div 1024 < 1023" by (simp add: less_mult_imp_div_less)
  then show ?thesis using of_nat_u32_inj [of "p div 1024" 1023] by simp
qed

lemma map_page_entry_correct:
  assumes ok: "pt_ok cr3 m" and p: "p < 1047552" and pde: "present (m cr3 (of_nat (p div 1024)))"
    and flags: "bit flags 0" and pa: "pa AND PAGE_MASK = pa"
  shows "\<exists>m'. map_page_entry cr3 pa (page_addr p) flags m = Inr (True, m') \<and> pt_ok cr3 m' \<and> m' cr3 = m cr3 \<and>
    (\<forall>q<1047552. aspace cr3 m' q = map_spec pa p 1 (aspace cr3 m) q)"
proof -
  let ?d = "of_nat (p div 1024) :: u32" and ?t = "of_nat (p mod 1024) :: u32"
  let ?F = "m cr3 ?d AND PAGE_MASK" and ?e = "(pa AND 0xFFFFF000) OR (ucast flags AND 0xFFF)"
  let ?m = "m(?F := (m ?F)(?t := ?e))"
  have lt: "p < 1048576" using p by simp
  have F: "?F \<noteq> cr3" using pt_ok_dir [OF ok] lt user_pde [OF p] pde by simp
  have "map_page_entry cr3 pa (page_addr p) flags m = Inr (True, ?m)"
    using ok lt pde by (simp add: map_page_entry_def Let_def)
  moreover have cr3: "?m cr3 = m cr3" using F by simp
  moreover have "pt_ok cr3 ?m" using ok unfolding pt_ok_def rec_ok_def cr3 .
  moreover have "aspace cr3 ?m q = map_spec pa p 1 (aspace cr3 m) q" if q: "q < 1047552" for q
  proof (cases "q = p")
    case True
    then show ?thesis
      using pde flags pa by (simp add: aspace_def cr3 map_spec_def entry_frame entry_present del: fun_upd_apply) (simp add: entry_frame entry_present)
  next
    case False
    have "m cr3 (of_nat (q div 1024)) AND PAGE_MASK \<noteq> ?F \<or> (of_nat (q mod 1024) :: u32) \<noteq> ?t"
      if "present (m cr3 (of_nat (q div 1024)))"
    proof (rule ccontr)
      assume *: "\<not> ?thesis"
      have "(of_nat (q div 1024) :: u32) = ?d" using pt_okD [OF ok _ _ that pde] q lt * by simp
      then have "q div 1024 = p div 1024" "q mod 1024 = p mod 1024"
        using of_nat_index_eq(1) [of q p] of_nat_index_eq(2) [of q p] q lt * by simp_all
      then have "q = p" by (metis div_mult_mod_eq)
      with False show False by simp
    qed
    then have "aspace cr3 ?m q = aspace cr3 m q"
      unfolding aspace_def cr3 Let_def by auto
    with False show ?thesis by (auto simp: map_spec_def)
  qed
  ultimately show ?thesis by blast
qed

section \<open>Adding a table\<close>

text \<open>Clearing the table behind directory entry \<open>d\<close>, whose frame is not the directory's.\<close>

lemma clear_table:
  assumes "rec_ok cr3 m" "d < 1024" "present (m cr3 d)" "m cr3 d AND PAGE_MASK \<noteq> cr3" "n \<le> 1024"
  shows "kfor (\<lambda>i. vwrite cr3 (entry_va (table_va d) (of_nat i)) 0) [0..<n] m =
    Inr (m(m cr3 d AND PAGE_MASK := (\<lambda>i. if unat i < n then 0 else m (m cr3 d AND PAGE_MASK) i)))"
  using assms(5)
proof (induction n)
  case (Suc n)
  let ?F = "m cr3 d AND PAGE_MASK"
  let ?m = "m(?F := (\<lambda>i. if unat i < n then 0 else m ?F i))"
  have cr3: "?m cr3 = m cr3" using assms(4) by auto
  have n: "unat (of_nat n :: u32) = n" using Suc.prems by (simp add: unat_of_nat)
  then have "(of_nat n :: u32) < 1024" using Suc.prems by (simp add: word_less_nat_alt)
  moreover have "rec_ok cr3 ?m" using assms(1) unfolding rec_ok_def cr3 .
  ultimately have "vwrite cr3 (entry_va (table_va d) (of_nat n)) 0 ?m = Inr (?m(?F := (?m ?F)(of_nat n := 0)))"
    using vwrite_table [of cr3 ?m d "of_nat n" 0] assms(2,3) unfolding cr3 by blast
  moreover have "?m(?F := (?m ?F)(of_nat n := 0)) = m(?F := (\<lambda>i. if unat i < Suc n then 0 else m ?F i))"
  proof -
    have "(if i = of_nat n then 0 else if unat i < n then 0 else m ?F i) = (if unat i < Suc n then 0 else m ?F i)" for i
      using n by (auto simp: less_Suc_eq word_unat_eq_iff)
    then show ?thesis by (simp add: fun_upd_def fun_eq_iff)
  qed
  moreover have "kfor (\<lambda>i. vwrite cr3 (entry_va (table_va d) (of_nat i)) 0) [0..<n] m = Inr ?m"
    by (rule Suc.IH) (use Suc.prems in simp)
  ultimately show ?case by (simp only: upt_Suc_append le0 kfor_append kbind_simps kfor.simps)
qed (simp add: fun_upd_def cong: if_cong)

definition with_table :: "u32 \<Rightarrow> u32 \<Rightarrow> u32 \<Rightarrow> phys_mem \<Rightarrow> phys_mem" where
  "with_table cr3 d f m =
     (m(cr3 := (m cr3)(d := f OR 3)))(f := (\<lambda>i. if unat i < 1024 then 0 else m f i))"

lemma new_entry: "f AND 0xFFF = 0 \<Longrightarrow> (f OR 3) AND PAGE_MASK = f \<and> present (f OR 3)"
proof -
  assume a: "f AND 0xFFF = (0 :: u32)"
  have "n < 12 \<Longrightarrow> \<not> bit f n" for n
    using arg_cong [OF a, of "\<lambda>w. bit w n"] by (simp add: FFF_mask bit_simps)
  moreover have "bit (3 :: u32) n \<Longrightarrow> n < 12" for n
    using bit_lt_1024 [of 3 n] by simp
  ultimately show ?thesis
    by (auto simp: FFF_mask present_bit bit_simps bit_eq_iff)
qed

lemma aligned_frame: "f AND 0xFFF = (0 :: u32) \<Longrightarrow> f AND PAGE_MASK = f"
  by (simp add: FFF_mask and_not_mask_eq)

lemma map_table_entry_correct:
  assumes "pt_ok cr3 m" "\<not> present (m cr3 (get_pde_index va))" "f AND 0xFFF = 0" "f \<notin> tables cr3 m"
  shows "map_table_entry cr3 f va PAGE_ENTRY_WRITE_KERNEL_FLAGS m = Inr (True, with_table cr3 (get_pde_index va) f m)"
proof -
  let ?d = "get_pde_index va"
  let ?m = "m(cr3 := (m cr3)(?d := f OR 3))"
  have f: "f \<noteq> cr3" using assms(1,4) cr3_in_tables by auto
  have d: "?d \<noteq> 1023" using assms(1,2) by (auto simp: pt_ok_def rec_ok_def)
  have "rec_ok cr3 ?m" using assms(1) d by (simp add: pt_ok_def rec_ok_def)
  moreover have F: "?m cr3 ?d AND PAGE_MASK = f" "present (?m cr3 ?d)" using new_entry [OF assms(3)] by simp_all
  ultimately have "clear_page cr3 (table_va ?d) ?m = Inr (?m(f := (\<lambda>i. if unat i < 1024 then 0 else ?m f i)))"
    using clear_table [of cr3 ?m ?d 1024] f pde_index_lt(2) [of va] unfolding clear_page_def F(1) by blast
  moreover have "(\<lambda>i. if unat i < 1024 then 0 else ?m f i) = (\<lambda>i. if unat i < 1024 then 0 else m f i)"
    using f by (auto simp: fun_eq_iff)
  moreover have "(f AND PAGE_MASK) OR ucast PAGE_ENTRY_WRITE_KERNEL_FLAGS = f OR 3"
    using aligned_frame [OF assms(3)]
    by (simp add: PAGE_ENTRY_WRITE_KERNEL_FLAGS_def PAGE_ENTRY_FLAG_PRESENT_def PAGE_ENTRY_FLAG_WRITE_def)
  ultimately show ?thesis
    using assms(1,2) by (simp add: map_table_entry_def Let_def with_table_def)
qed

lemma with_table_facts:
  assumes ok: "pt_ok cr3 m" and d: "d < 1024" "\<not> present (m cr3 d)" and f: "f AND 0xFFF = 0" "f \<notin> tables cr3 m"
  shows "pt_ok cr3 (with_table cr3 d f m)"
    "present (with_table cr3 d f m cr3 d)"
    "tables cr3 (with_table cr3 d f m) = insert f (tables cr3 m)"
    "p < 1047552 \<Longrightarrow> aspace cr3 (with_table cr3 d f m) p = aspace cr3 m p"
proof -
  have fc: "f \<noteq> cr3" using f(2) ok cr3_in_tables by auto
  have d3: "d \<noteq> 1023" using ok d(2) by (auto simp: pt_ok_def rec_ok_def)
  have cr3: "with_table cr3 d f m cr3 = (m cr3)(d := f OR 3)" using fc by (simp add: with_table_def)
  note new = new_entry [OF f(1)]
  show "present (with_table cr3 d f m cr3 d)" using new by (simp add: cr3)
  show tabs: "tables cr3 (with_table cr3 d f m) = insert f (tables cr3 m)"
    unfolding tables_def cr3 using new d by (auto split: if_splits)
  have other: "m cr3 e AND PAGE_MASK \<noteq> f" if "e < 1024" "present (m cr3 e)" for e
    using f(2) that unfolding tables_def by blast
  show "pt_ok cr3 (with_table cr3 d f m)"
    using ok new d3 other unfolding pt_ok_def rec_ok_def cr3 by (auto dest: sym)
  show "aspace cr3 (with_table cr3 d f m) p = aspace cr3 m p" if "p < 1047552"
  proof (cases "of_nat (p div 1024) = d")
    case True
    have "unat (of_nat (p mod 1024) :: u32) < 1024" using of_nat_index_lt(1) [of p] by (simp add: word_less_nat_alt)
    then have "with_table cr3 d f m f (of_nat (p mod 1024)) = 0" by (simp add: with_table_def)
    then show ?thesis
      using new d(2) True by (simp add: aspace_def cr3 present_def [of 0])
  next
    case False
    have "(of_nat (p div 1024) :: u32) < 1024" using that by simp
    then have "with_table cr3 d f m (m cr3 (of_nat (p div 1024)) AND PAGE_MASK) (of_nat (p mod 1024)) =
        m (m cr3 (of_nat (p div 1024)) AND PAGE_MASK) (of_nat (p mod 1024))"
      if "present (m cr3 (of_nat (p div 1024)))"
      using other [OF _ that] pt_ok_dir [OF ok _ _ that] user_pde [OF \<open>p < 1047552\<close>] by (simp add: with_table_def)
    then show ?thesis
      using False by (simp add: aspace_def cr3 Let_def)
  qed
qed

section \<open>Mapping a range\<close>

lemma map_spec_add:
  "map_spec (pa + of_nat (4096 * k)) (p + k) n (map_spec pa p k A) = map_spec pa p (k + n) A"
proof (rule ext)
  fix q
  have "pa + of_nat (4096 * k) + of_nat (4096 * (q - (p + k))) = pa + (of_nat (4096 * (q - p)) :: u32)" if "p + k \<le> q"
  proof -
    have "4096 * k + 4096 * (q - (p + k)) = 4096 * (q - p)" using that by simp
    then show ?thesis by (metis add.assoc of_nat_add)
  qed
  then show "map_spec (pa + of_nat (4096 * k)) (p + k) n (map_spec pa p k A) q = map_spec pa p (k + n) A q"
    by (auto simp: map_spec_def)
qed

lemma map_spec_cong:
  "\<forall>q<b. A q = B q \<Longrightarrow> \<forall>q<b. map_spec pa p n A q = map_spec pa p n B q"
  by (simp add: map_spec_def)

lemma map_spec_0 [simp]: "map_spec pa p 0 A = A"
  by (rule ext) (auto simp: map_spec_def)

lemma aligned_add: "pa AND PAGE_MASK = pa \<Longrightarrow> (pa + of_nat (4096 * k)) AND PAGE_MASK = (pa + of_nat (4096 * k) :: u32)"
proof -
  assume "pa AND PAGE_MASK = pa"
  then have "4096 dvd unat pa" using round_page_down_aligned [of pa] by (simp add: round_page_down_def)
  then obtain j where "unat pa = 4096 * j" by blast
  then have "pa = of_nat (4096 * j)" by (metis of_nat_unat ucast_id)
  then have "pa + of_nat (4096 * k) = of_nat (4096 * (j + k))" by (simp add: distrib_left)
  then have "unat (pa + of_nat (4096 * k)) = (4096 * (j + k)) mod 2 ^ 32" by (simp only: unat_of_nat) simp
  moreover have "(4096 * (j + k)) mod 2 ^ 32 = 4096 * ((j + k) mod 1048576)"
    using mult_mod_right [of 4096 "j + k" 1048576] by simp
  ultimately have "4096 dvd unat (pa + of_nat (4096 * k))" by simp
  then have "unat (round_page_down (pa + of_nat (4096 * k))) = unat (pa + of_nat (4096 * k))"
    by (simp add: round_page_down_nat)
  then show ?thesis by (simp add: word_unat_eq_iff round_page_down_def)
qed

lemma map_table_pages_correct:
  assumes "pt_ok cr3 m" "present (m cr3 (of_nat (p div 1024)))" "bit hw 0" "pa AND PAGE_MASK = pa"
    "k \<le> unat pit" "k \<le> unat c" "k = unat pit \<or> k = unat c" "p mod 1024 + k \<le> 1024" "p < 1047552"
  shows "\<exists>m'. map_table_pages cr3 hw pa (page_addr p) pit c m =
      Inr (pa + of_nat (4096 * k), page_addr (p + k), c - of_nat k, m') \<and> pt_ok cr3 m' \<and> m' cr3 = m cr3 \<and>
    (\<forall>q<1047552. aspace cr3 m' q = map_spec pa p k (aspace cr3 m) q)"
  using assms
proof (induction k arbitrary: m p pa pit c)
  case 0
  then have "pit = 0 \<or> c = 0" by (auto simp: unat_eq_zero)
  with 0 show ?case by (subst map_table_pages.simps) auto
next
  case (Suc k)
  have nz: "pit \<noteq> 0" "c \<noteq> 0" using Suc.prems(5,6) by auto
  have pred: "unat (pit - 1) = unat pit - 1" "unat (c - 1) = unat c - 1" using nz by (simp_all add: unat_minus_one)
  obtain m1 where m1: "map_page_entry cr3 pa (page_addr p) hw m = Inr (True, m1)" "pt_ok cr3 m1" "m1 cr3 = m cr3"
    "\<forall>q<1047552. aspace cr3 m1 q = map_spec pa p 1 (aspace cr3 m) q"
    using map_page_entry_correct [OF Suc.prems(1) Suc.prems(9) Suc.prems(2,3,4)] by blast
  have step: "map_table_pages cr3 hw pa (page_addr p) pit c m =
      map_table_pages cr3 hw (pa + of_nat (4096 * 1)) (page_addr (p + 1)) (pit - 1) (c - 1) m1"
    using nz m1(1) by (subst map_table_pages.simps) (simp add: page_addr_step PAGE_SIZE_def [symmetric])
  show ?case
  proof (cases "k = 0")
    case True
    with Suc.prems pred have "pit - 1 = 0 \<or> c - 1 = 0" by (auto simp: unat_eq_zero [symmetric] simp del: unat_eq_zero)
    then have "map_table_pages cr3 hw (pa + of_nat (4096 * 1)) (page_addr (p + 1)) (pit - 1) (c - 1) m1 =
        Inr (pa + of_nat (4096 * 1), page_addr (p + 1), c - 1, m1)"
      by (subst map_table_pages.simps) auto
    with step True m1 show ?thesis by auto
  next
    case False
    have same: "(p + 1) div 1024 = p div 1024" "(p + 1) mod 1024 + k \<le> 1024" "p + 1 < 1047552"
    proof -
      have "p \<noteq> 1047551" using Suc.prems(8) False by auto
      then show "p + 1 < 1047552" using Suc.prems(9) by simp
    qed (use Suc.prems(8) False in \<open>auto simp: div_Suc mod_Suc\<close>)
    then have pde: "present (m1 cr3 (of_nat ((p + 1) div 1024)))" using Suc.prems(2) m1(3) by simp
    have "k \<le> unat (pit - 1)" "k \<le> unat (c - 1)" "k = unat (pit - 1) \<or> k = unat (c - 1)"
      using Suc.prems(5-7) pred by auto
    from Suc.IH [OF m1(2) pde Suc.prems(3) aligned_add [OF Suc.prems(4), of 1] this same(2,3)]
    obtain m' where m': "map_table_pages cr3 hw (pa + of_nat (4096 * 1)) (page_addr (p + 1)) (pit - 1) (c - 1) m1 =
        Inr (pa + of_nat (4096 * 1) + of_nat (4096 * k), page_addr (p + 1 + k), c - 1 - of_nat k, m')"
      "pt_ok cr3 m'" "m' cr3 = m1 cr3"
      "\<forall>q<1047552. aspace cr3 m' q = map_spec (pa + of_nat (4096 * 1)) (p + 1) k (aspace cr3 m1) q"
      by blast
    have "\<forall>q<1047552. aspace cr3 m' q = map_spec pa p (Suc k) (aspace cr3 m) q"
      using m'(4) map_spec_cong [OF m1(4), of "pa + of_nat (4096 * 1)" "p + 1" k] map_spec_add [of pa 1 p k "aspace cr3 m"] by simp
    with m' m1(3) step show ?thesis by (intro exI [of _ m']) (simp add: algebra_simps)
  qed
qed

section \<open>Flags\<close>

lemmas paging_flag_defs =
  PAGING_FLAG_PRESENT_def PAGING_FLAG_DIRTY_def PAGING_FLAG_ACCESS_def PAGING_FLAG_USER_def PAGING_FLAG_WRITE_def

lemmas entry_flag_defs =
  PAGE_ENTRY_FLAG_PRESENT_def PAGE_ENTRY_FLAG_WRITE_def PAGE_ENTRY_FLAG_USER_def PAGE_ENTRY_FLAG_ACCESS_def
  PAGE_ENTRY_FLAG_DIRTY_def

lemma flag_test_u16:
  "(f :: u16) AND 0x1 \<noteq> 0 \<longleftrightarrow> bit f 0" "f AND 0x2 \<noteq> 0 \<longleftrightarrow> bit f 1" "f AND 0x4 \<noteq> 0 \<longleftrightarrow> bit f 2"
  "f AND 0x8 \<noteq> 0 \<longleftrightarrow> bit f 3" "f AND 0x10 \<noteq> 0 \<longleftrightarrow> bit f 4"
  using and_exp_eq_0_iff_not_bit [of f 0] and_exp_eq_0_iff_not_bit [of f 1] and_exp_eq_0_iff_not_bit [of f 2]
    and_exp_eq_0_iff_not_bit [of f 3] and_exp_eq_0_iff_not_bit [of f 4] by simp_all

lemma flag_test_u32:
  "(e :: u32) AND 0x1 \<noteq> 0 \<longleftrightarrow> bit e 0" "e AND 0x2 \<noteq> 0 \<longleftrightarrow> bit e 1" "e AND 0x4 \<noteq> 0 \<longleftrightarrow> bit e 2"
  "e AND 0x20 \<noteq> 0 \<longleftrightarrow> bit e 5" "e AND 0x40 \<noteq> 0 \<longleftrightarrow> bit e 6"
  using and_exp_eq_0_iff_not_bit [of e 0] and_exp_eq_0_iff_not_bit [of e 1] and_exp_eq_0_iff_not_bit [of e 2]
    and_exp_eq_0_iff_not_bit [of e 5] and_exp_eq_0_iff_not_bit [of e 6] by simp_all

text \<open>The hardware bits of the flags, and back.\<close>

lemma paging_to_hw_flags_bits:
  "paging_to_hw_flags f =
     (if bit f 2 then 0x20 else 0) OR (if bit f 1 then 0x40 else 0) OR (if bit f 4 then 0x2 else 0) OR
     (if bit f 3 then 0x4 else 0) OR (if bit f 0 then 0x1 else 0)"
  unfolding paging_to_hw_flags_def paging_flag_defs entry_flag_defs Let_def flag_test_u16
  by (cases "bit f 2"; cases "bit f 1"; cases "bit f 4"; cases "bit f 3"; cases "bit f 0"; simp)

lemma hw_flags_bit:
  "bit (paging_to_hw_flags f) 0 = bit f 0" "bit (paging_to_hw_flags f) 1 = bit f 4" "bit (paging_to_hw_flags f) 2 = bit f 3"
  "bit (paging_to_hw_flags f) 5 = bit f 2" "bit (paging_to_hw_flags f) 6 = bit f 1"
  unfolding paging_to_hw_flags_bits
  by (cases "bit f 2"; cases "bit f 1"; cases "bit f 4"; cases "bit f 3"; cases "bit f 0"; simp add: bit_iff_odd_drop_bit)+

text \<open>The word \<^verbatim>\<open>paging_get_flags\<close> builds from the bits of an entry.\<close>

definition flags_of_bits :: "bool \<Rightarrow> bool \<Rightarrow> bool \<Rightarrow> bool \<Rightarrow> bool \<Rightarrow> u16" where
  "flags_of_bits p d a w u =
     (let r = 0; r = (if p then r OR 0x1 else r); r = (if d then r OR 0x2 else r); r = (if a then r OR 0x4 else r);
          r = (if w then r OR 0x10 else r); r = (if u then r OR 0x8 else r) in r)"

lemma and_pow2_if: "(f :: 'a::len word) AND 2 ^ n = (if bit f n then 2 ^ n else 0)"
  by (rule bit_eqI) (auto simp: bit_and_iff bit_exp_iff)

lemma flags_of_bits: "flags_of_bits (bit f 0) (bit f 1) (bit f 2) (bit f 4) (bit f 3) = f AND 0x1F"
proof -
  have m: "(0x1F :: u16) = 0x1 OR 0x2 OR 0x4 OR 0x10 OR 0x8" by simp
  have "f AND 0x1F = (if bit f 0 then 0x1 else 0) OR (if bit f 1 then 0x2 else 0) OR
      (if bit f 2 then 0x4 else 0) OR (if bit f 4 then 0x10 else 0) OR (if bit f 3 then 0x8 else 0)"
    unfolding m bit.conj_disj_distrib
    using and_pow2_if [of f 0] and_pow2_if [of f 1] and_pow2_if [of f 2] and_pow2_if [of f 3] and_pow2_if [of f 4]
    by (simp only: power_0 power_one_right) simp
  then show ?thesis
    unfolding flags_of_bits_def Let_def
    by (cases "bit f 2"; cases "bit f 1"; cases "bit f 4"; cases "bit f 3"; cases "bit f 0") simp_all
qed

section \<open>The supply of table frames\<close>

locale frame_supply =
  fixes inv :: "'a \<Rightarrow> bool" and frames :: "'a \<Rightarrow> u32 set" and alloc :: "'a \<Rightarrow> (u32 \<times> 'a) kloop"
  assumes frames_aligned: "inv a \<Longrightarrow> f \<in> frames a \<Longrightarrow> f \<noteq> 0 \<and> f AND 0xFFF = 0"
    and alloc_some: "inv a \<Longrightarrow> frames a \<noteq> {} \<Longrightarrow>
      \<exists>f a'. alloc a = lret (f, a') \<and> f \<in> frames a \<and> inv a' \<and> frames a' = frames a - {f}"
    and alloc_none: "inv a \<Longrightarrow> frames a = {} \<Longrightarrow> alloc a = lret (NULL, a)"
begin

lemma ensure_page_table_correct:
  assumes ok: "pt_ok cr3 m" and a: "inv a" "frames a \<inter> tables cr3 m = {}" and p: "p < 1047552"
  shows "\<exists>table m' a'. ensure_page_table alloc cr3 (page_addr p) (m, a) = lret (table, m', a') \<and>
    pt_ok cr3 m' \<and> inv a' \<and> frames a' \<inter> tables cr3 m' = {} \<and>
    (\<forall>q<1047552. aspace cr3 m' q = aspace cr3 m q) \<and>
    (if table = NULL then frames a' = {} else present (m' cr3 (of_nat (p div 1024))))"
proof -
  let ?d = "of_nat (p div 1024) :: u32"
  have lt: "p < 1048576" and d: "?d < 1024" using p by simp_all
  have d': "get_pde_index (page_addr p) = ?d" "drop_bit 22 (page_addr p) = ?d"
    using lt by (simp_all add: pde_index_page)
  show ?thesis
  proof (cases "present (m cr3 ?d)")
    case True
    then have "ensure_page_table alloc cr3 (page_addr p) (m, a) = lret (table_va ?d, m, a)"
      using ok d d' by (simp add: ensure_page_table_def get_table_entry_def)
    then show ?thesis using ok a True table_va_parts(4) [OF d] by simp
  next
    case absent: False
    show ?thesis
    proof (cases "frames a = {}")
      case True
      then have "ensure_page_table alloc cr3 (page_addr p) (m, a) = lret (NULL, m, a)"
        using ok d d' absent alloc_none [OF a(1)] by (simp add: ensure_page_table_def get_table_entry_def)
      then show ?thesis using ok a True by simp
    next
      case False
      obtain f a' where f: "alloc a = lret (f, a')" "f \<in> frames a" "inv a'" "frames a' = frames a - {f}"
        using alloc_some [OF a(1) False] by blast
      have fa: "f \<noteq> 0" "f AND 0xFFF = 0" using frames_aligned [OF a(1) f(2)] by simp_all
      have ft: "f \<notin> tables cr3 m" using f(2) a(2) by blast
      let ?m = "with_table cr3 ?d f m"
      note wt = with_table_facts [OF ok d absent fa(2) ft]
      have "map_table_entry cr3 f (page_addr p) PAGE_ENTRY_WRITE_KERNEL_FLAGS m = Inr (True, ?m)"
        using map_table_entry_correct [OF ok _ fa(2) ft, of "page_addr p"] absent d' by simp
      moreover have "f AND (PAGE_SIZE - 1) = 0" using fa(2) by (simp add: PAGE_SIZE_def)
      ultimately have "ensure_page_table alloc cr3 (page_addr p) (m, a) = lret (table_va ?d, ?m, a')"
        using ok d d' absent f(1) fa(1) wt(1,2) by (simp add: ensure_page_table_def get_table_entry_def)
      moreover have "frames a' \<inter> tables cr3 ?m = {}" using a(2) f(4) unfolding wt(3) by blast
      ultimately show ?thesis
        using wt f(3) table_va_parts(4) [OF d] by (intro exI [of _ "table_va ?d"] exI [of _ ?m] exI [of _ a']) simp
    qed
  qed
qed

text \<open>Mapping \<open>n\<close> pages maps a prefix of them: all of them unless the supply runs out.\<close>

lemma map_phys_range_correct:
  assumes "pt_ok cr3 m" "inv a" "frames a \<inter> tables cr3 m = {}" "p + n \<le> 1047552"
    "pa AND PAGE_MASK = pa" "bit hw 0"
  shows "\<exists>b m' a' k. map_phys_range alloc cr3 hw pa (page_addr p) (of_nat n) (m, a) = lret (b, m', a') \<and>
    pt_ok cr3 m' \<and> inv a' \<and> frames a' \<inter> tables cr3 m' = {} \<and> k \<le> n \<and> (b \<longleftrightarrow> k = n) \<and> (\<not> b \<longrightarrow> frames a' = {}) \<and>
    (\<forall>q<1047552. aspace cr3 m' q = map_spec pa p k (aspace cr3 m) q)"
  using assms(1-5)
proof (induction n arbitrary: m a p pa rule: less_induct)
  case (less n)
  show ?case
  proof (cases "n = 0")
    case True
    with less.prems show ?thesis
      by (subst map_phys_range.simps) (intro exI [of _ True] exI [of _ m] exI [of _ a] exI [of _ 0], simp)
  next
    case False
    then have p: "p < 1047552" "n < 4294967296" "p < 1048576" using less.prems(4) by linarith+
    have n: "unat (of_nat n :: u32) = n" using p by (simp add: unat_of_nat)
    then have nz: "(of_nat n :: u32) \<noteq> 0" using False by (metis unat_0)
    obtain table m1 a1 where e: "ensure_page_table alloc cr3 (page_addr p) (m, a) = lret (table, m1, a1)"
      "pt_ok cr3 m1" "inv a1" "frames a1 \<inter> tables cr3 m1 = {}" "\<forall>q<1047552. aspace cr3 m1 q = aspace cr3 m q"
      "if table = NULL then frames a1 = {} else present (m1 cr3 (of_nat (p div 1024)))"
      using ensure_page_table_correct [OF less.prems(1-3) p(1)] by blast
    show ?thesis
    proof (cases "table = NULL")
      case True
      then have "map_phys_range alloc cr3 hw pa (page_addr p) (of_nat n) (m, a) = lret (False, m1, a1)"
        using nz e(1) by (subst map_phys_range.simps) simp
      then show ?thesis using e True False
        by (intro exI [of _ False] exI [of _ m1] exI [of _ a1] exI [of _ 0]) simp
    next
      case nnull: False
      let ?pit = "ENTRIES_AMOUNT - of_nat (p mod 1024) :: u32" and ?k = "min (1024 - p mod 1024) n"
      have pit: "unat ?pit = 1024 - p mod 1024"
      proof -
        have m: "unat (of_nat (p mod 1024) :: u32) = p mod 1024"
          by (simp add: unat_of_nat less_trans [OF mod_less_divisor])
        have "(of_nat (p mod 1024) :: u32) \<le> ENTRIES_AMOUNT"
          using of_nat_index_lt(1) [of p] by (simp add: ENTRIES_AMOUNT_def less_imp_le)
        then show ?thesis using m by (simp add: unat_sub) (simp add: ENTRIES_AMOUNT_def)
      qed
      have k: "?k \<le> unat ?pit" "?k \<le> unat (of_nat n :: u32)" "?k = unat ?pit \<or> ?k = unat (of_nat n :: u32)"
        "p mod 1024 + ?k \<le> 1024" "0 < ?k" "?k \<le> n"
        using False by (auto simp: pit n min_def)
      have pde: "present (m1 cr3 (of_nat (p div 1024)))" using e(6) nnull by simp
      obtain m2 where m2: "map_table_pages cr3 hw pa (page_addr p) ?pit (of_nat n) m1 =
          Inr (pa + of_nat (4096 * ?k), page_addr (p + ?k), of_nat n - of_nat ?k, m2)"
        "pt_ok cr3 m2" "m2 cr3 = m1 cr3" "\<forall>q<1047552. aspace cr3 m2 q = map_spec pa p ?k (aspace cr3 m1) q"
        using map_table_pages_correct [OF e(2) pde assms(6) less.prems(5) k(1-4) p(1)] by blast
      have cnt: "(of_nat n - of_nat ?k :: u32) = of_nat (n - ?k)" using k(6) by (simp only: of_nat_diff)
      have step: "map_phys_range alloc cr3 hw pa (page_addr p) (of_nat n) (m, a) =
          map_phys_range alloc cr3 hw (pa + of_nat (4096 * ?k)) (page_addr (p + ?k)) (of_nat (n - ?k)) (m2, a1)"
        using nz nnull p(3) by (subst map_phys_range.simps) (simp only: e(1) m2(1) cnt index_of_page Let_def lbind_simps prod.case if_True if_False simp_thms)
      have "tables cr3 m2 = tables cr3 m1" by (simp add: tables_def m2(3))
      with e(4) have dis: "frames a1 \<inter> tables cr3 m2 = {}" by simp
      have "n - ?k < n" "p + ?k + (n - ?k) \<le> 1047552" using k(5,6) less.prems(4) by simp_all
      from less.IH [OF this(1) m2(2) e(3) dis this(2) aligned_add [OF less.prems(5)]]
      obtain b m' a' j where r: "map_phys_range alloc cr3 hw (pa + of_nat (4096 * ?k)) (page_addr (p + ?k)) (of_nat (n - ?k)) (m2, a1) = lret (b, m', a')"
        "pt_ok cr3 m'" "inv a'" "frames a' \<inter> tables cr3 m' = {}" "j \<le> n - ?k" "b \<longleftrightarrow> j = n - ?k" "\<not> b \<longrightarrow> frames a' = {}"
        "\<forall>q<1047552. aspace cr3 m' q = map_spec (pa + of_nat (4096 * ?k)) (p + ?k) j (aspace cr3 m2) q"
        by blast
      have "\<forall>q<1047552. aspace cr3 m' q = map_spec pa p (?k + j) (aspace cr3 m) q"
      proof (intro allI impI)
        fix q :: nat assume q: "q < 1047552"
        have "aspace cr3 m' q = map_spec (pa + of_nat (4096 * ?k)) (p + ?k) j (map_spec pa p ?k (aspace cr3 m1)) q"
          using r(8) map_spec_cong [OF m2(4)] q by metis
        also have "\<dots> = map_spec pa p (?k + j) (aspace cr3 m1) q" by (simp only: map_spec_add)
        also have "\<dots> = map_spec pa p (?k + j) (aspace cr3 m) q" using map_spec_cong [OF e(5)] q by metis
        finally show "aspace cr3 m' q = map_spec pa p (?k + j) (aspace cr3 m) q" .
      qed
      moreover have "?k + j \<le> n" "b \<longleftrightarrow> ?k + j = n" using r(5,6) k(6) by auto
      ultimately show ?thesis unfolding step r(1) using r(2-4,7)
        by (intro exI [of _ b] exI [of _ m'] exI [of _ a'] exI [of _ "?k + j"]) simp
    qed
  qed
qed

end

section \<open>Properties\<close>

text \<open>A directory in frame 0x1000 that maps itself, with one table in frame 0x2000 for the first
  4 MiB; the table maps virtual page 5 to frame 0x7000.\<close>

definition small_space :: phys_mem where
  "small_space f i =
     (if f = 0x1000 \<and> i = 0 then 0x2003 else if f = 0x1000 \<and> i = 1023 then 0x1003
      else if f = 0x2000 \<and> i = 5 then 0x7007 else 0)"

lemma small_space_ok: "pt_ok 0x1000 small_space"
proof -
  have "d = 0 \<or> d = 1023" if "present (small_space 0x1000 d)" for d
    using that by (auto simp: small_space_def present_def split: if_splits)
  then show ?thesis
    unfolding pt_ok_def rec_ok_def
    by (auto simp: small_space_def present_def PAGE_ENTRY_FLAG_PRESENT_def PAGE_MASK_def PAGE_SIZE_def)
qed

text \<open>Through the recursive mapping \<^verbatim>\<open>virt_to_phys\<close> computes what the processor's walk computes:
  the frame with the offset of the address, and NULL where the walk would fault.\<close>

theorem virt_to_phys_agrees_with_walk:
  assumes "rec_ok cr3 m"
  shows "virt_to_phys cr3 va m =
    Inr (case mmu_walk cr3 m va of None \<Rightarrow> NULL | Some f \<Rightarrow> f OR (va AND 0xFFF))"
  using assms by (simp add: virt_to_phys_def mmu_walk_def Let_def FFF_mask(3) [symmetric] PAGE_MASK_def PAGE_SIZE_def)

theorem virt_to_phys_agrees_with_walk_witness:
  "virt_to_phys 0x1000 0x5123 small_space = Inr 0x7123 \<and> virt_to_phys 0x1000 0x6000 small_space = Inr NULL"
  using virt_to_phys_agrees_with_walk [OF pt_ok_rec [OF small_space_ok], of "0x5123"]
    virt_to_phys_agrees_with_walk [OF pt_ok_rec [OF small_space_ok], of "0x6000"]
  by (simp add: mmu_walk_def small_space_def present_def PAGE_ENTRY_FLAG_PRESENT_def PAGE_MASK_def PAGE_SIZE_def)

text \<open>The flags a page is mapped with are the flags \<^verbatim>\<open>paging_get_flags\<close> reports for it, as far
  as the hardware entry can hold them: present, dirty, access, user and write.\<close>

theorem paging_flags_roundtrip:
  assumes "pt_ok cr3 m" "present (m cr3 (get_pde_index va))" "get_pde_index va \<noteq> 1023" "bit flags 0"
  shows "\<exists>m'. map_page_entry cr3 pa va (paging_to_hw_flags flags) m = Inr (True, m') \<and>
    paging_get_flags cr3 va m' = Inr (flags AND 0x1F)"
proof -
  let ?F = "m cr3 (get_pde_index va) AND PAGE_MASK" and ?hw = "paging_to_hw_flags flags"
  let ?e = "(pa AND 0xFFFFF000) OR (ucast ?hw AND 0xFFF) :: u32"
  let ?m = "m(?F := (m ?F)(get_pte_index va := ?e))"
  have F: "?F \<noteq> cr3" using pt_ok_dir [OF assms(1) _ assms(3,2)] by simp
  then have cr3: "?m cr3 = m cr3" by simp
  then have rec: "rec_ok cr3 ?m" using assms(1) unfolding pt_ok_def rec_ok_def by simp
  have "get_page_entry cr3 va ?m = Inr ?e"
    using rec assms(2) F unfolding get_page_entry_def get_pde_index_def [symmetric] get_pte_index_def [symmetric]
    by (simp del: fun_upd_apply) simp
  moreover have e: "bit ?e n = bit ?hw n" if "n < 12" for n using that by (simp add: FFF_mask bit_simps)
  ultimately have "paging_get_flags cr3 va ?m = Inr (flags_of_bits (bit flags 0) (bit flags 1) (bit flags 2) (bit flags 4) (bit flags 3))"
    unfolding paging_get_flags_def entry_flag_defs paging_flag_defs flags_of_bits_def
    by (simp add: flag_test_u32 e hw_flags_bit hw_flags_bit(2) [unfolded One_nat_def])
  then have "paging_get_flags cr3 va ?m = Inr (flags AND 0x1F)" unfolding flags_of_bits .
  then show ?thesis
    using assms(1,2) by (intro exI [of _ ?m]) (simp add: map_page_entry_def Let_def)
qed

theorem paging_flags_roundtrip_witness:
  "\<exists>m'. map_page_entry 0x1000 0x9000 0x6000 (paging_to_hw_flags 0x51) small_space = Inr (True, m') \<and>
     paging_get_flags 0x1000 0x6000 m' = Inr 0x11"
proof -
  have "present (small_space 0x1000 (get_pde_index 0x6000))" "get_pde_index 0x6000 \<noteq> 1023" "bit (0x51 :: u16) 0"
    "(0x51 :: u16) AND 0x1F = 0x11"
    by (simp_all add: small_space_def get_pde_index_def present_def PAGE_ENTRY_FLAG_PRESENT_def)
  with paging_flags_roundtrip [OF small_space_ok, of "0x6000" "0x51" "0x9000"] show ?thesis by simp
qed

lemma walk_entry_va: "t AND 0xFFF = 0 \<Longrightarrow> i < 1024 \<Longrightarrow> mmu_walk cr3 m (entry_va t i) = mmu_walk cr3 m t"
  by (simp add: mmu_walk_def entry_va_parts Let_def)

lemma frame_low_bits: "(e AND PAGE_MASK) AND 0xFFF = (0 :: u32)"
  by (auto simp: FFF_mask bit_eq_iff bit_simps)

text \<open>Clearing an entry of a table removes exactly that page.\<close>

lemma clear_entry_aspace:
  assumes ok: "pt_ok cr3 m" and pde: "present (m cr3 (of_nat (p div 1024)))" and p: "p < 1047552" and q: "q < 1047552"
    and F: "F = m cr3 (of_nat (p div 1024)) AND PAGE_MASK"
  shows "aspace cr3 (m(F := (m F)(of_nat (p mod 1024) := 0))) q = (if q = p then None else aspace cr3 m q)"
proof -
  have cr3: "F \<noteq> cr3" using pt_ok_dir [OF ok _ _ pde] user_pde [OF p] p F by simp
  have "F \<noteq> m cr3 (of_nat (q div 1024)) AND PAGE_MASK \<or> (of_nat (q mod 1024) :: u32) \<noteq> of_nat (p mod 1024)"
    if "present (m cr3 (of_nat (q div 1024)))" "q \<noteq> p"
  proof (rule ccontr)
    assume *: "\<not> ?thesis"
    then have "m cr3 (of_nat (q div 1024)) AND PAGE_MASK = m cr3 (of_nat (p div 1024)) AND PAGE_MASK"
      by (simp only: F simp_thms not_not de_Morgan_disj)
    then have "(of_nat (q div 1024) :: u32) = of_nat (p div 1024)"
      using p q by (intro pt_okD [OF ok _ _ that(1) pde]) simp_all
    then have "q div 1024 = p div 1024" "q mod 1024 = p mod 1024"
      using of_nat_index_eq(1) [of q p] of_nat_index_eq(2) [of q p] p q * by simp_all
    then have "q = p" by (metis div_mult_mod_eq)
    with that(2) show False by simp
  qed
  then have other: "aspace cr3 (m(F := (m F)(of_nat (p mod 1024) := 0))) q = aspace cr3 m q" if "q \<noteq> p"
    using that cr3 unfolding aspace_def Let_def by (simp add: cr3 [symmetric]) blast
  have dir: "(m(F := (m F)(of_nat (p mod 1024) := 0))) cr3 = m cr3" using cr3 by simp
  have "aspace cr3 (m(F := (m F)(of_nat (p mod 1024) := 0))) p = None"
    unfolding aspace_def dir Let_def F [symmetric] by (simp add: present_def [of 0])
  with other show ?thesis by simp
qed

text \<open>\<^verbatim>\<open>paging_unmap_page\<close> takes the physical address of the table for a pointer. For a mapped
  page it writes through whatever that address is mapped to as a virtual address: it faults
  where nothing is mapped there, and it removes the page, and only it, when the table is
  mapped at its own physical address.\<close>

theorem paging_unmap_page_writes_physical:
  assumes ok: "pt_ok cr3 m" and va: "mmu_walk cr3 m va = Some g" and p: "page_no va < 1047552"
  defines "table \<equiv> m cr3 (get_pde_index va) AND PAGE_MASK"
  shows "paging_unmap_page cr3 va m =
      (case mmu_walk cr3 m table of None \<Rightarrow> Inl BadAccess
       | Some f \<Rightarrow> Inr (True, m(f := (m f)(get_pte_index va := 0)))) \<and>
    (mmu_walk cr3 m table = Some table \<longrightarrow>
       (\<exists>m'. paging_unmap_page cr3 va m = Inr (True, m') \<and>
         (\<forall>q<1047552. aspace cr3 m' q = (if q = page_no va then None else aspace cr3 m q))))"
proof -
  let ?d = "drop_bit 22 va" and ?t = "drop_bit 12 va AND 0x3FF"
  have pde: "present (m cr3 ?d)" and pte: "present (m (m cr3 ?d AND PAGE_MASK) ?t)"
    using va by (auto simp: mmu_walk_def Let_def split: if_splits)
  have nz: "m (m cr3 ?d AND PAGE_MASK) ?t \<noteq> 0" using pte by (auto simp: present_def)
  have t: "table AND 0xFFF = 0" by (simp add: table_def frame_low_bits)
  have run: "paging_unmap_page cr3 va m =
      (case mmu_walk cr3 m table of None \<Rightarrow> Inl BadAccess
       | Some f \<Rightarrow> Inr (True, m(f := (m f)(get_pte_index va := 0))))"
    using ok pde pte nz walk_entry_va [OF t pte_index_lt(2)] entry_va_index [OF t pte_index_lt(2)]
    unfolding paging_unmap_page_def get_table_entry_def get_page_entry_def vwrite_def table_def get_pde_index_def
    by (simp split: option.split)
  have idx: "get_pde_index va = of_nat (page_no va div 1024)" "get_pte_index va = of_nat (page_no va mod 1024)"
    by (simp_all only: get_pde_index_def get_pte_index_def pde_index_page pte_index_page)
  have pde': "present (m cr3 (of_nat (page_no va div 1024)))" using pde by (simp add: pde_index_page)
  have "\<forall>q<1047552. aspace cr3 (m(table := (m table)(get_pte_index va := 0))) q = (if q = page_no va then None else aspace cr3 m q)"
    using clear_entry_aspace [OF ok pde' p] unfolding table_def idx by blast
  with run show ?thesis by auto
qed

text \<open>In \<open>small_space\<close> the table at 0x2000 is not mapped at that address, so unmapping faults.\<close>

theorem paging_unmap_page_writes_physical_witness:
  "paging_unmap_page 0x1000 0x5000 small_space = Inl BadAccess"
proof -
  have 1: "mmu_walk 0x1000 small_space 0x5000 = Some 0x7000" "page_no 0x5000 < 1047552"
    "small_space 0x1000 (get_pde_index 0x5000) AND PAGE_MASK = 0x2000" "mmu_walk 0x1000 small_space 0x2000 = None"
    by (simp_all add: mmu_walk_def small_space_def present_def PAGE_ENTRY_FLAG_PRESENT_def PAGE_MASK_def PAGE_SIZE_def
      page_no_def get_pde_index_def)
  show ?thesis using paging_unmap_page_writes_physical [OF small_space_ok 1(1,2)] unfolding 1(3,4) by simp
qed

text \<open>\<^verbatim>\<open>paging_clear_flags\<close> never looks at its flags argument beyond the assertion: any two
  arguments without the present flag have the same effect, and an entry that is writable and
  has caching enabled stays writable.\<close>

theorem paging_clear_flags_ignores_argument:
  assumes "flags AND PAGING_FLAG_PRESENT = 0" "flags' AND PAGING_FLAG_PRESENT = 0" "pt_ok cr3 m"
    "present (m cr3 (get_pde_index va))" "get_pde_index va \<noteq> 1023"
    "get_page_entry cr3 va m = Inr e" "bit e 1" "\<not> bit e 4"
  shows "paging_clear_flags cr3 va flags m = paging_clear_flags cr3 va flags' m \<and>
    (\<exists>m' e'. paging_clear_flags cr3 va flags m = Inr m' \<and> get_page_entry cr3 va m' = Inr e' \<and> bit e' 1)"
proof -
  let ?F = "m cr3 (get_pde_index va) AND PAGE_MASK"
  have F: "?F \<noteq> cr3" using pt_ok_dir [OF assms(3) _ assms(5,4)] by simp
  define e' where "e' = (let e = (if e AND ucast PAGING_FLAG_ACCESS \<noteq> 0 then e AND NOT PAGE_ENTRY_FLAG_ACCESS else e);
      e = (if e AND ucast PAGING_FLAG_DIRTY \<noteq> 0 then e AND NOT PAGE_ENTRY_FLAG_DIRTY else e);
      e = (if e AND ucast PAGING_FLAG_WRITE \<noteq> 0 then e AND NOT PAGE_ENTRY_FLAG_WRITE else e)
      in (if e AND ucast PAGING_FLAG_USER \<noteq> 0 then e AND NOT PAGE_ENTRY_FLAG_USER else e))"
  let ?m = "m(?F := (m ?F)(get_pte_index va := e'))"
  have run: "paging_clear_flags cr3 va f m = Inr ?m" if "f AND PAGING_FLAG_PRESENT = 0" for f
    using that assms(3,4,6)
    by (simp add: paging_clear_flags_def set_page_entry_def e'_def Let_def get_pde_index_def get_pte_index_def)
  have w: "(x :: u32) AND 0x10 \<noteq> 0 \<longleftrightarrow> bit x 4" for x using and_exp_eq_0_iff_not_bit [of x 4] by simp
  have "bit (NOT 0x20 :: u32) 1" "bit (NOT 0x40 :: u32) 1" "bit (NOT 0x4 :: u32) 1"
    by (simp_all add: bit_simps bit_iff_odd_drop_bit)
  then have e': "bit e' 1" using assms(7,8)
    unfolding e'_def paging_flag_defs entry_flag_defs Let_def
    by (simp add: w bit_and_iff)
  have "rec_ok cr3 ?m" using assms(3) F unfolding pt_ok_def rec_ok_def by simp
  then have "get_page_entry cr3 va ?m = Inr e'"
    using assms(4) F unfolding get_page_entry_def get_pde_index_def [symmetric] get_pte_index_def [symmetric]
    by (simp del: fun_upd_apply) simp
  with run assms(1,2) e' show ?thesis by (metis (no_types))
qed

theorem paging_clear_flags_ignores_argument_witness:
  "paging_clear_flags 0x1000 0x5000 PAGING_FLAG_WRITE small_space = paging_clear_flags 0x1000 0x5000 0 small_space \<and>
   (\<exists>m' e'. paging_clear_flags 0x1000 0x5000 PAGING_FLAG_WRITE small_space = Inr m' \<and>
      get_page_entry 0x1000 0x5000 m' = Inr e' \<and> bit e' 1)"
proof -
  have 1: "PAGING_FLAG_WRITE AND PAGING_FLAG_PRESENT = 0" "0 AND PAGING_FLAG_PRESENT = 0"
    "present (small_space 0x1000 (get_pde_index 0x5000))" "get_pde_index 0x5000 \<noteq> 1023"
    by (simp_all add: paging_flag_defs small_space_def get_pde_index_def present_def PAGE_ENTRY_FLAG_PRESENT_def)
  have 2: "get_page_entry 0x1000 0x5000 small_space = Inr 0x7007" by code_simp
  have 3: "bit (0x7007 :: u32) 1" "\<not> bit (0x7007 :: u32) 4" by (simp_all add: bit_iff_odd_drop_bit)
  show ?thesis by (rule paging_clear_flags_ignores_argument [OF 1(1,2) small_space_ok 1(3,4) 2 3])
qed

end
