(* ===== verification/Pfn_Desc.thy ===== *)
theory Pfn_Desc
  imports Paging
begin

text \<open>
  The page descriptors of \<^verbatim>\<open>kernel/memory/core/pfn_handler.c\<close>: one descriptor per physical
  page, their types and reference counts, and the operations that mark ranges of them.

  A \<^verbatim>\<open>page_t*\<close> is \<open>Some i\<close> for the address of descriptor \<open>i\<close> and \<open>None\<close> for NULL; the table has
  \<open>pfn_count\<close> descriptors, and an access outside it is \<open>BadAccess\<close>. Of the union in a
  descriptor only the free-page part is modelled, not the part the heap uses.
\<close>

section \<open>Definitions\<close>

datatype phys_page_type =
  PAGETYPE_NONE | PAGETYPE_1MiB | PAGETYPE_RESERVED | PAGETYPE_UNUSED | PAGETYPE_ACPI | PAGETYPE_MMIO
  | PAGETYPE_KERNELIMG | PAGETYPE_PFN | PAGETYPE_DRIVER | PAGETYPE_PHYS_PAGES | PAGETYPE_USED

type_synonym page_ptr = "u32 option"

record page =
  pg_ref_count :: u32
  pg_flags :: u16
  pg_type :: phys_page_type
  pg_next_desc :: page_ptr
  pg_prev_desc :: page_ptr
  pg_count :: u32

record pfn_manager_data =
  pfn_descs :: "u32 \<Rightarrow> page"
  pfn_descs_set :: bool
  pfn_count :: usize_ptr
  pfn_free_count :: usize_ptr
  page_desc_free_ll :: page_ptr

definition PAGEFLAG_RESERVED :: u16 where
  "PAGEFLAG_RESERVED = 0x4"

text \<open>Reading and changing a descriptor through a pointer.\<close>

definition desc_at :: "pfn_manager_data \<Rightarrow> page_ptr \<Rightarrow> page kres" where
  "desc_at s ptr = (case ptr of None \<Rightarrow> Inl BadAccess
     | Some i \<Rightarrow> if i < pfn_count s then Inr (pfn_descs s i) else Inl BadAccess)"

definition desc_upd :: "page_ptr \<Rightarrow> (page \<Rightarrow> page) \<Rightarrow> pfn_manager_data \<Rightarrow> pfn_manager_data kres" where
  "desc_upd ptr f s = (case ptr of None \<Rightarrow> Inl BadAccess
     | Some i \<Rightarrow> if i < pfn_count s then Inr (s\<lparr>pfn_descs := (pfn_descs s)(i := f (pfn_descs s i))\<rparr>) else Inl BadAccess)"

text \<open>\<open>ptr + j\<close> in the array of descriptors.\<close>

definition desc_add :: "page_ptr \<Rightarrow> nat \<Rightarrow> page_ptr" where
  "desc_add ptr j = map_option (\<lambda>i. i + of_nat j) ptr"

definition pfn_set_type :: "page_ptr \<Rightarrow> phys_page_type \<Rightarrow> pfn_manager_data \<Rightarrow> pfn_manager_data kres" where
  "pfn_set_type desc type = desc_upd desc (\<lambda>d. d\<lparr>pg_type := type\<rparr>)"

definition pfn_range_set_type ::
  "page_ptr \<Rightarrow> usize_ptr \<Rightarrow> phys_page_type \<Rightarrow> pfn_manager_data \<Rightarrow> pfn_manager_data kres" where
  "pfn_range_set_type desc count type =
     kfor (\<lambda>i. desc_upd (desc_add desc i) (\<lambda>d. d\<lparr>pg_type := type\<rparr>)) [0..<unat count]"

definition page_index_to_pfn :: "usize_ptr \<Rightarrow> page_ptr" where
  "page_index_to_pfn pfn_index = Some pfn_index"

definition pa_to_pfn :: "pfn_manager_data \<Rightarrow> u32 \<Rightarrow> page_ptr" where
  "pa_to_pfn s phys_addr =
     (if \<not> pfn_descs_set s then None
      else let page_index = phys_addr div PAGE_SIZE
           in if page_index < pfn_count s then Some page_index else None)"

text \<open>The difference of pointers into the table; undefined for NULL.\<close>

definition get_pfn_index :: "page_ptr \<Rightarrow> usize_ptr kres" where
  "get_pfn_index desc = (case desc of None \<Rightarrow> Inl BadAccess | Some i \<Rightarrow> Inr i)"

definition pfn_to_pa :: "page_ptr \<Rightarrow> u32 kres" where
  "pfn_to_pa desc = kbind (get_pfn_index desc) (\<lambda>i. Inr (PAGE_SIZE * i))"

definition pfn_reset_free :: "pfn_manager_data \<Rightarrow> pfn_manager_data" where
  "pfn_reset_free s = s\<lparr>pfn_free_count := 0\<rparr>"

definition virt_to_pfn :: "u32 \<Rightarrow> phys_mem \<Rightarrow> pfn_manager_data \<Rightarrow> u32 \<Rightarrow> page_ptr kres" where
  "virt_to_pfn cr3 m s addr =
     kbind (virt_to_phys cr3 addr m) (\<lambda>pa.
     let page_index = pa div PAGE_SIZE
     in kbind (kassert (page_index < pfn_count s)) (\<lambda>_. Inr (Some page_index)))"

definition mark_range ::
  "u32 \<Rightarrow> u32 \<Rightarrow> phys_page_type \<Rightarrow> u32 \<Rightarrow> u16 \<Rightarrow> pfn_manager_data \<Rightarrow> (page_ptr \<times> pfn_manager_data) kres" where
  "mark_range start_pa inclusive_end_pa type ref_count flags s =
     kbind (kassert (inclusive_end_pa > start_pa)) (\<lambda>_.
     let start = start_pa div PAGE_SIZE; end_idx = (inclusive_end_pa - 1) div PAGE_SIZE
     in if start \<ge> pfn_count s then Inr (None, s)
        else let end_idx = (if end_idx \<ge> pfn_count s then pfn_count s - 1 else end_idx)
             in kbind (kfor (\<lambda>i. desc_upd (Some (of_nat i))
                           (\<lambda>d. d\<lparr>pg_type := type, pg_ref_count := ref_count, pg_flags := flags\<rparr>))
                         [unat start..<Suc (unat end_idx)] s)
                  (\<lambda>s. Inr (Some start, s)))"

definition mark_page_structure :: "u32 \<Rightarrow> pfn_manager_data \<Rightarrow> pfn_manager_data kres" where
  "mark_page_structure page_struct_pa =
     desc_upd (Some (page_struct_pa div PAGE_SIZE)) (\<lambda>d. d\<lparr>pg_type := PAGETYPE_PHYS_PAGES\<rparr>)"

definition mark_range_usable :: "u32 \<Rightarrow> u32 \<Rightarrow> pfn_manager_data \<Rightarrow> pfn_manager_data kres" where
  "mark_range_usable start_pa end_pa s =
     kbind (mark_range start_pa end_pa PAGETYPE_UNUSED 0 0 s) (\<lambda>(_, s). Inr s)"

definition mark_range_reserved :: "u32 \<Rightarrow> u32 \<Rightarrow> pfn_manager_data \<Rightarrow> pfn_manager_data kres" where
  "mark_range_reserved start_pa end_pa s =
     kbind (mark_range start_pa end_pa PAGETYPE_RESERVED 0 PAGEFLAG_RESERVED s) (\<lambda>(_, s). Inr s)"

definition pfn_mark_range ::
  "u32 \<Rightarrow> usize_ptr \<Rightarrow> phys_page_type \<Rightarrow> u16 \<Rightarrow> pfn_manager_data \<Rightarrow> pfn_manager_data kres" where
  "pfn_mark_range start_pa count page_type page_flags s =
     kbind (mark_range start_pa (start_pa + count * PAGE_SIZE) page_type 1 page_flags s) (\<lambda>(_, s). Inr s)"

definition pfn_identity_range ::
  "u32 \<Rightarrow> usize_ptr \<Rightarrow> phys_page_type \<Rightarrow> u16 \<Rightarrow> pfn_manager_data \<Rightarrow> pfn_manager_data kres" where
  "pfn_identity_range pa count pfn_type pfn_flags s =
     kbind (mark_range pa (pa + count - PAGE_SIZE) pfn_type 1 pfn_flags s) (\<lambda>(_, s). Inr s)"

text \<open>The body of the loop of \<^verbatim>\<open>pfn_mark_vrange\<close>: the state is the start and the length of the
  current physical run.\<close>

definition mark_vrange_step ::
  "u32 \<Rightarrow> phys_mem \<Rightarrow> u32 \<Rightarrow> phys_page_type \<Rightarrow> u16 \<Rightarrow> nat \<Rightarrow>
   u32 \<times> u32 \<times> pfn_manager_data \<Rightarrow> (u32 \<times> u32 \<times> pfn_manager_data) kres" where
  "mark_vrange_step cr3 m start_va page_type page_flags i = (\<lambda>(run_pa_start, run_pa_count, s).
     kbind (virt_to_phys cr3 (start_va + PAGE_SIZE * of_nat i) m) (\<lambda>cur_pa.
     if run_pa_count = 0 then Inr (cur_pa, 1, s)
     else if run_pa_start + PAGE_SIZE * run_pa_count = cur_pa then Inr (run_pa_start, run_pa_count + 1, s)
     else kbind (mark_range run_pa_start (run_pa_start + run_pa_count * PAGE_SIZE) page_type 1 page_flags s)
            (\<lambda>(_, s). Inr (cur_pa, 1, s))))"

definition pfn_mark_vrange ::
  "u32 \<Rightarrow> phys_mem \<Rightarrow> u32 \<Rightarrow> usize_ptr \<Rightarrow> phys_page_type \<Rightarrow> u16 \<Rightarrow> pfn_manager_data \<Rightarrow> pfn_manager_data kres" where
  "pfn_mark_vrange cr3 m start_va count page_type page_flags s =
     kbind (kfor (mark_vrange_step cr3 m start_va page_type page_flags) [0..<unat count] (0, 0, s))
       (\<lambda>(run_pa_start, run_pa_count, s).
        if run_pa_count > 0
        then kbind (mark_range run_pa_start (run_pa_start + run_pa_count * PAGE_SIZE) page_type 1 page_flags s)
               (\<lambda>(_, s). Inr s)
        else Inr s)"

definition pfn_ref_page :: "page_ptr \<Rightarrow> pfn_manager_data \<Rightarrow> pfn_manager_data kres" where
  "pfn_ref_page desc s =
     kbind (kassert (desc \<noteq> None)) (\<lambda>_. desc_upd desc (\<lambda>d. d\<lparr>pg_ref_count := pg_ref_count d + 1\<rparr>) s)"

definition pfn_unref_page :: "page_ptr \<Rightarrow> pfn_manager_data \<Rightarrow> (bool \<times> pfn_manager_data) kres" where
  "pfn_unref_page desc s =
     kbind (kassert (desc \<noteq> None)) (\<lambda>_.
     kbind (desc_at s desc) (\<lambda>d.
     kbind (kassert (pg_ref_count d > 0)) (\<lambda>_.
     kbind (desc_upd desc (\<lambda>d. d\<lparr>pg_ref_count := pg_ref_count d - 1\<rparr>) s) (\<lambda>s.
     Inr (pg_ref_count d - 1 = 0, s)))))"

definition pfn_ref_range :: "page_ptr \<Rightarrow> usize_ptr \<Rightarrow> pfn_manager_data \<Rightarrow> pfn_manager_data kres" where
  "pfn_ref_range desc count =
     kfor (\<lambda>i s. kbind (kassert (desc_add desc i \<noteq> None)) (\<lambda>_. pfn_ref_page (desc_add desc i) s)) [0..<unat count]"

definition pfn_unref_range :: "page_ptr \<Rightarrow> usize_ptr \<Rightarrow> pfn_manager_data \<Rightarrow> (usize_ptr \<times> pfn_manager_data) kres" where
  "pfn_unref_range desc count s =
     kfor (\<lambda>i (free_count, s).
        kbind (kassert (desc_add desc i \<noteq> None)) (\<lambda>_.
        kbind (desc_at s (desc_add desc i)) (\<lambda>d.
        kbind (kassert (pg_ref_count d \<noteq> 0)) (\<lambda>_.
        kbind (pfn_unref_page (desc_add desc i) s) (\<lambda>(is_free, s).
        Inr (free_count + (if is_free then 1 else 0), s))))))
       [0..<unat count] (0, s)"

definition pfn_page_count :: "pfn_manager_data \<Rightarrow> usize_ptr" where
  "pfn_page_count s = pfn_count s"

definition pfn_page_free_count :: "pfn_manager_data \<Rightarrow> usize_ptr" where
  "pfn_page_free_count s = pfn_free_count s"

definition pfn_free_amount :: "usize_ptr \<Rightarrow> pfn_manager_data \<Rightarrow> pfn_manager_data kres" where
  "pfn_free_amount amount s =
     (let s = s\<lparr>pfn_free_count := pfn_free_count s + amount\<rparr>
      in kbind (kassert (pfn_free_count s < pfn_count s)) (\<lambda>_. Inr s))"

definition pfn_alloc_amount :: "usize_ptr \<Rightarrow> pfn_manager_data \<Rightarrow> pfn_manager_data kres" where
  "pfn_alloc_amount amount s =
     kbind (kassert (pfn_free_count s > amount)) (\<lambda>_. Inr (s\<lparr>pfn_free_count := pfn_free_count s - amount\<rparr>))"

end
