(* ===== verification/Frame_Alloc.thy ===== *)
theory Frame_Alloc
  imports Pfn_Desc
begin

text \<open>
  The page-frame allocator of \<^verbatim>\<open>kernel/memory/phys_alloc/frame_alloc.c\<close>: a doubly linked list of
  free blocks threaded through the page descriptors, each block's length kept in the
  descriptors of its first and last page. The search for a block follows the list and may
  not end when the list is cyclic, so it is a \<open>partial_function\<close>.
\<close>

section \<open>Definitions\<close>

definition pfn_mark_pages ::
  "u32 \<Rightarrow> u32 \<Rightarrow> phys_page_type \<Rightarrow> u16 \<Rightarrow> u32 \<Rightarrow> pfn_manager_data \<Rightarrow> pfn_manager_data kres" where
  "pfn_mark_pages begin_idx end_idx type flags ref_count =
     kfor (\<lambda>i. desc_upd (page_index_to_pfn (of_nat i))
               (\<lambda>d. d\<lparr>pg_type := type, pg_flags := flags, pg_ref_count := ref_count\<rparr>))
       [unat begin_idx..<unat end_idx]"

text \<open>The walk along the free list to the first block that is long enough.\<close>

partial_function (option) frame_find :: "pfn_manager_data \<Rightarrow> usize_ptr \<Rightarrow> page_ptr \<Rightarrow> page_ptr kloop" where
  "frame_find s request_count it =
     (if it = None then lret None
      else lbind (Some (desc_at s it)) (\<lambda>d.
           if pg_count d < request_count then frame_find s request_count (pg_next_desc d)
           else lret it))"

declare frame_find.simps [code]

text \<open>Taking \<open>block\<close> out of the list.\<close>

definition frame_unlink :: "page_ptr \<Rightarrow> pfn_manager_data \<Rightarrow> pfn_manager_data kres" where
  "frame_unlink block s =
     kbind (desc_at s block) (\<lambda>d.
     let prev = pg_prev_desc d; next = pg_next_desc d
     in kbind (if prev \<noteq> None then desc_upd prev (\<lambda>d. d\<lparr>pg_next_desc := next\<rparr>) s
               else Inr (s\<lparr>page_desc_free_ll := next\<rparr>)) (\<lambda>s.
        if next \<noteq> None then desc_upd next (\<lambda>d. d\<lparr>pg_prev_desc := prev\<rparr>) s else Inr s))"

definition frame_check_unused :: "usize_ptr \<Rightarrow> usize_ptr \<Rightarrow> pfn_manager_data \<Rightarrow> unit kres" where
  "frame_check_unused alloc_begin count s =
     kfor (\<lambda>j _. kbind (desc_at s (desc_add (page_index_to_pfn alloc_begin) j)) (\<lambda>d.
               kbind (kassert (pg_ref_count d = 0)) (\<lambda>_. kassert (pg_type d = PAGETYPE_UNUSED))))
       [0..<unat count] ()"

definition frame_take :: "page_ptr \<Rightarrow> usize_ptr \<Rightarrow> pfn_manager_data \<Rightarrow> (page_ptr \<times> pfn_manager_data) kres" where
  "frame_take it request_count s =
     kbind (desc_at s it) (\<lambda>d.
     let block_count = pg_count d
     in kbind (get_pfn_index it) (\<lambda>block_start_index.
        let block_end_index = block_start_index + block_count;
            alloc_start_index = block_end_index - request_count;
            alloc_begin = page_index_to_pfn alloc_start_index
        in kbind (frame_check_unused alloc_start_index request_count s) (\<lambda>_.
           kbind (pfn_range_set_type alloc_begin (block_end_index - alloc_start_index + 1) PAGETYPE_USED s) (\<lambda>s.
           let new_count = block_count - request_count
           in kbind (if new_count = 0 then frame_unlink it s
                     else kbind (desc_upd it (\<lambda>d. d\<lparr>pg_count := new_count\<rparr>) s) (\<lambda>s.
                          let new_foot = page_index_to_pfn alloc_start_index
                          in desc_upd new_foot (\<lambda>d. d\<lparr>pg_count := new_count\<rparr>) s))
                (\<lambda>s. Inr (page_index_to_pfn alloc_start_index, s))))))"

definition frame_alloc_phys_pages ::
  "usize_ptr \<Rightarrow> pfn_manager_data \<Rightarrow> (page_ptr \<times> pfn_manager_data) kloop" where
  "frame_alloc_phys_pages request_count s =
     lbind (frame_find s request_count (page_desc_free_ll s)) (\<lambda>it.
     if it = None then lret (None, s) else Some (frame_take it request_count s))"

text \<open>Putting a block in front of the list.\<close>

definition frame_push :: "page_ptr \<Rightarrow> pfn_manager_data \<Rightarrow> pfn_manager_data kres" where
  "frame_push head s =
     kbind (desc_upd head (\<lambda>d. d\<lparr>pg_prev_desc := None\<rparr>) s) (\<lambda>s.
     kbind (desc_upd head (\<lambda>d. d\<lparr>pg_next_desc := page_desc_free_ll s\<rparr>) s) (\<lambda>s.
     kbind (if page_desc_free_ll s \<noteq> None
            then desc_upd (page_desc_free_ll s) (\<lambda>d. d\<lparr>pg_prev_desc := head\<rparr>) s else Inr s) (\<lambda>s.
     Inr (s\<lparr>page_desc_free_ll := head\<rparr>))))"

definition frame_free_phys_pages :: "page_ptr \<Rightarrow> usize_ptr \<Rightarrow> pfn_manager_data \<Rightarrow> pfn_manager_data kres" where
  "frame_free_phys_pages pfn count s =
     kbind (pfn_to_pa pfn) (\<lambda>start.
     let end_pa = start + count * PAGE_SIZE;
         page_index_begin = start div PAGE_SIZE;
         page_index_end = end_pa div PAGE_SIZE;
         total_pages = pfn_page_count s
     in if page_index_begin \<ge> total_pages then Inr s
        else let page_index_end = (if page_index_end > total_pages then total_pages else page_index_end)
        in kbind (pfn_mark_pages page_index_begin page_index_end PAGETYPE_UNUSED 0 0 s) (\<lambda>s.
           let cur_head = page_index_begin; cur_foot = page_index_end - 1
           in kbind (if page_index_begin > 0
                     then kbind (desc_at s (page_index_to_pfn (page_index_begin - 1))) (\<lambda>old_foot.
                          Inr (if pg_type old_foot = PAGETYPE_UNUSED then page_index_begin - pg_count old_foot else cur_head))
                     else Inr cur_head) (\<lambda>cur_head.
              kbind (if page_index_end < total_pages
                     then kbind (desc_at s (page_index_to_pfn page_index_end)) (\<lambda>old_head.
                          if pg_type old_head = PAGETYPE_UNUSED
                          then kbind (frame_unlink (page_index_to_pfn page_index_end) s)
                                 (\<lambda>s. Inr (page_index_end + pg_count old_head - 1, s))
                          else Inr (cur_foot, s))
                     else Inr (cur_foot, s)) (\<lambda>(cur_foot, s).
              let cur_count = cur_foot - cur_head + 1
              in kbind (desc_upd (Some cur_head) (\<lambda>d. d\<lparr>pg_count := cur_count\<rparr>) s) (\<lambda>s.
                 kbind (desc_upd (Some cur_foot) (\<lambda>d. d\<lparr>pg_count := cur_count\<rparr>) s) (\<lambda>s.
                 frame_push (Some cur_head) s))))))"

text \<open>The three loops of \<^verbatim>\<open>build_free_list\<close>: skipping pages that are not unused, finding the end of a
  run, and the loop around them. The index counts up to the number of descriptors.\<close>

function skip_used :: "usize_ptr \<Rightarrow> pfn_manager_data \<Rightarrow> usize_ptr \<times> pfn_manager_data" where
  "skip_used i s =
     (if i < pfn_count s \<and> pg_type (pfn_descs s i) \<noteq> PAGETYPE_UNUSED
      then skip_used (i + 1)
             (s\<lparr>pfn_descs := (pfn_descs s)(i := (pfn_descs s i)\<lparr>pg_count := 0, pg_prev_desc := None, pg_next_desc := None\<rparr>)\<rparr>)
      else (i, s))"
  by pat_completeness auto
termination
  by (relation "measure (\<lambda>(i, s). unat (pfn_count s) - unat i)") (auto simp: word_less_nat_alt unat_Suc_lt)

declare skip_used.simps [simp del]

function run_end :: "pfn_manager_data \<Rightarrow> usize_ptr \<Rightarrow> usize_ptr" where
  "run_end s i =
     (if i < pfn_count s \<and> pg_type (pfn_descs s i) = PAGETYPE_UNUSED then run_end s (i + 1) else i)"
  by pat_completeness auto
termination
  by (relation "measure (\<lambda>(s, i). unat (pfn_count s) - unat i)") (auto simp: word_less_nat_alt unat_Suc_lt)

declare run_end.simps [simp del]

partial_function (option) build_free_loop ::
  "usize_ptr \<Rightarrow> usize_ptr \<Rightarrow> pfn_manager_data \<Rightarrow> (usize_ptr \<times> pfn_manager_data) kloop" where
  "build_free_loop i free_count s =
     (if i < pfn_page_count s
      then let (i, s) = skip_used i s
           in if i \<ge> pfn_page_count s then lret (free_count, s)
              else let run_start = i; i = run_end s i; count = i - run_start
                   in if count = 0 then build_free_loop i free_count s
                      else lbind (Some (desc_upd (Some run_start) (\<lambda>d. d\<lparr>pg_count := count\<rparr>) s)) (\<lambda>s.
                           lbind (Some (desc_upd (Some (run_start + count - 1)) (\<lambda>d. d\<lparr>pg_count := count\<rparr>) s)) (\<lambda>s.
                           lbind (Some (frame_push (Some run_start) s)) (\<lambda>s.
                           build_free_loop i (free_count + count) s)))
      else lret (free_count, s))"

declare build_free_loop.simps [code]

definition build_free_list :: "pfn_manager_data \<Rightarrow> (usize_ptr \<times> pfn_manager_data) kloop" where
  "build_free_list s = build_free_loop 0 0 (s\<lparr>page_desc_free_ll := None\<rparr>)"

end
