(* ===== verification/Frame_Correct.thy ===== *)
theory Frame_Correct
  imports Frame_Alloc
begin

text \<open>
  The free list as a list of blocks (first page, length). \<open>dseg\<close> says that the links and
  the lengths in the descriptors spell out a segment of a list of blocks; \<open>fl_inv\<close> says that
  the whole list does, that the blocks lie inside the table, do not touch each other and
  account for every unused page. Allocation and release refine operations on the list of
  blocks.
\<close>

section \<open>Linked segments\<close>

type_synonym block = "nat \<times> nat"

fun dseg :: "(u32 \<Rightarrow> page) \<Rightarrow> page_ptr \<Rightarrow> page_ptr \<Rightarrow> block list \<Rightarrow> page_ptr \<Rightarrow> page_ptr \<Rightarrow> bool" where
  "dseg d pv it [] pv' it' \<longleftrightarrow> pv' = pv \<and> it' = it"
| "dseg d pv it ((b, n) # bs) pv' it' \<longleftrightarrow>
     it = Some (of_nat b) \<and> pg_prev_desc (d (of_nat b)) = pv \<and> pg_count (d (of_nat b)) = of_nat n \<and>
     dseg d (Some (of_nat b)) (pg_next_desc (d (of_nat b))) bs pv' it'"

definition heads :: "block list \<Rightarrow> u32 list" where
  "heads bs = map (\<lambda>x. of_nat (fst x)) bs"

lemma heads_simps [simp]:
  "heads [] = []" "heads ((b, n) # bs) = of_nat b # heads bs" "heads (xs @ ys) = heads xs @ heads ys"
  by (simp_all add: heads_def)

lemma heads_iff: "h \<in> set (heads bs) \<longleftrightarrow> (\<exists>x\<in>set bs. h = of_nat (fst x))"
  by (auto simp: heads_def)

lemma dseg_append:
  "dseg d pv it (xs @ ys) pv' it' \<longleftrightarrow> (\<exists>pm im. dseg d pv it xs pm im \<and> dseg d pm im ys pv' it')"
proof (induction xs arbitrary: pv it)
  case (Cons x xs)
  show ?case by (cases x) (simp add: Cons)
qed simp

text \<open>Descriptors that agree on links and lengths at the heads spell the same segment.\<close>

definition same_links :: "page \<Rightarrow> page \<Rightarrow> bool" where
  "same_links x y \<longleftrightarrow> pg_next_desc x = pg_next_desc y \<and> pg_prev_desc x = pg_prev_desc y \<and> pg_count x = pg_count y"

lemma dseg_cong:
  "(\<And>h. h \<in> set (heads bs) \<Longrightarrow> same_links (d' h) (d h)) \<Longrightarrow> dseg d' pv it bs pv' it' = dseg d pv it bs pv' it'"
proof (induction bs arbitrary: pv it)
  case (Cons x bs)
  obtain b n where x: "x = (b, n)" by (cases x)
  have "same_links (d' (of_nat b)) (d (of_nat b))" using Cons.prems by (simp add: x)
  with Cons show ?case by (auto simp: x same_links_def)
qed simp

lemma dseg_frame: "h \<notin> set (heads bs) \<Longrightarrow> dseg (d(h := x)) pv it bs pv' it' = dseg d pv it bs pv' it'"
  by (rule dseg_cong) (auto simp: same_links_def)

lemma dseg_last: "dseg d pv it (xs @ [(b, n)]) pv' it' \<Longrightarrow> pv' = Some (of_nat b)"
  by (auto simp: dseg_append)

lemma dseg_first: "dseg d pv it ((b, n) # bs) pv' it' \<Longrightarrow> it = Some (of_nat b)"
  by simp

text \<open>Redirecting the end of a segment, and its beginning.\<close>

lemma dseg_set_next:
  assumes "dseg d pv it (xs @ [(b, n)]) pv' it'" "of_nat b \<notin> set (heads xs)"
  shows "dseg (d(of_nat b := (d (of_nat b))\<lparr>pg_next_desc := z\<rparr>)) pv it (xs @ [(b, n)]) pv' z"
  using assms by (auto simp: dseg_append dseg_frame)

lemma dseg_set_prev:
  assumes "dseg d pv it ((b, n) # ys) pv' it'" "of_nat b \<notin> set (heads ys)"
  shows "dseg (d(of_nat b := (d (of_nat b))\<lparr>pg_prev_desc := z\<rparr>)) z it ((b, n) # ys) pv' it'"
  using assms by (auto simp: dseg_frame)

section \<open>Unlinking and pushing\<close>

text \<open>Changes of the links only.\<close>

definition only_links :: "pfn_manager_data \<Rightarrow> pfn_manager_data \<Rightarrow> bool" where
  "only_links s s' \<longleftrightarrow> pfn_count s' = pfn_count s \<and> pfn_free_count s' = pfn_free_count s \<and>
     (\<forall>i. pg_type (pfn_descs s' i) = pg_type (pfn_descs s i) \<and> pg_ref_count (pfn_descs s' i) = pg_ref_count (pfn_descs s i))"

lemma only_links_refl [simp]: "only_links s s"
  by (simp add: only_links_def)

lemma only_links_trans: "only_links s t \<Longrightarrow> only_links t u \<Longrightarrow> only_links s u"
  by (simp add: only_links_def)

lemma desc_upd_Some: "i < pfn_count s \<Longrightarrow> desc_upd (Some i) f s = Inr (s\<lparr>pfn_descs := (pfn_descs s)(i := f (pfn_descs s i))\<rparr>)"
  by (simp add: desc_upd_def)

lemma desc_at_Some: "i < pfn_count s \<Longrightarrow> desc_at s (Some i) = Inr (pfn_descs s i)"
  by (simp add: desc_at_def)

lemma frame_unlink_correct:
  assumes seg: "dseg (pfn_descs s) None (page_desc_free_ll s) (xs @ (b, n) # ys) pv' None"
    and dist: "distinct (heads (xs @ (b, n) # ys))"
    and range: "\<forall>h\<in>set (heads (xs @ (b, n) # ys)). h < pfn_count s"
  shows "\<exists>s' pv''. frame_unlink (Some (of_nat b)) s = Inr s' \<and> only_links s s' \<and>
    dseg (pfn_descs s') None (page_desc_free_ll s') (xs @ ys) pv'' None"
proof -
  let ?d = "pfn_descs s"
  obtain pm where xs: "dseg ?d None (page_desc_free_ll s) xs pm (Some (of_nat b))"
    and b: "pg_prev_desc (?d (of_nat b)) = pm"
    and ys: "dseg ?d (Some (of_nat b)) (pg_next_desc (?d (of_nat b))) ys pv' None"
    using seg by (auto simp: dseg_append)
  let ?nx = "pg_next_desc (?d (of_nat b))"
  have at: "desc_at s (Some (of_nat b)) = Inr (?d (of_nat b))" using range by (simp add: desc_at_Some)
  \<comment> \<open>the part in front of the block\<close>
  obtain s1 where s1: "(if pm \<noteq> None then desc_upd pm (\<lambda>d. d\<lparr>pg_next_desc := ?nx\<rparr>) s else Inr (s\<lparr>page_desc_free_ll := ?nx\<rparr>)) = Inr s1"
    "only_links s s1" "dseg (pfn_descs s1) None (page_desc_free_ll s1) xs pm ?nx"
    "dseg (pfn_descs s1) (Some (of_nat b)) ?nx ys pv' None"
  proof (cases xs rule: rev_cases)
    case Nil
    with xs ys that [of "s\<lparr>page_desc_free_ll := ?nx\<rparr>"] show ?thesis by (simp add: only_links_def)
  next
    case (snoc xs0 x)
    obtain c k where x: "x = (c, k)" by (cases x)
    have pm: "pm = Some (of_nat c)" using xs dseg_last unfolding snoc x by blast
    have c: "(of_nat c :: u32) < pfn_count s" "of_nat c \<notin> set (heads xs0)" "of_nat c \<notin> set (heads ys)"
      using range dist unfolding snoc x by auto
    let ?s1 = "s\<lparr>pfn_descs := ?d(of_nat c := (?d (of_nat c))\<lparr>pg_next_desc := ?nx\<rparr>)\<rparr>"
    have "dseg (pfn_descs ?s1) None (page_desc_free_ll ?s1) xs pm ?nx"
      using dseg_set_next [OF xs [unfolded snoc x] c(2)] by (simp add: snoc x)
    moreover have "dseg (pfn_descs ?s1) (Some (of_nat b)) ?nx ys pv' None" using ys c(3) by (simp add: dseg_frame)
    moreover have "only_links s ?s1" by (simp add: only_links_def)
    ultimately show ?thesis using that [of ?s1] pm c(1) by (simp add: desc_upd_Some)
  qed
  \<comment> \<open>the part behind it\<close>
  obtain s2 pv'' where s2: "(if ?nx \<noteq> None then desc_upd ?nx (\<lambda>d. d\<lparr>pg_prev_desc := pm\<rparr>) s1 else Inr s1) = Inr s2"
    "only_links s1 s2" "page_desc_free_ll s2 = page_desc_free_ll s1"
    "dseg (pfn_descs s2) None (page_desc_free_ll s1) xs pm ?nx" "dseg (pfn_descs s2) pm ?nx ys pv'' None"
  proof (cases ys)
    case Nil
    with s1 that show ?thesis by auto
  next
    case (Cons y ys0)
    obtain c k where y: "y = (c, k)" by (cases y)
    have nx: "?nx = Some (of_nat c)" using s1(4) dseg_first unfolding Cons y by blast
    have c: "(of_nat c :: u32) < pfn_count s1" "of_nat c \<notin> set (heads ys0)" "of_nat c \<notin> set (heads xs)"
      using range dist s1(2) unfolding Cons y by (auto simp: only_links_def)
    let ?s2 = "s1\<lparr>pfn_descs := (pfn_descs s1)(of_nat c := (pfn_descs s1 (of_nat c))\<lparr>pg_prev_desc := pm\<rparr>)\<rparr>"
    have "dseg (pfn_descs ?s2) pm ?nx ys pv' None"
      using dseg_set_prev [OF s1(4) [unfolded Cons y] c(2)] by (simp add: Cons y)
    moreover have "dseg (pfn_descs ?s2) None (page_desc_free_ll s1) xs pm ?nx" using s1(3) c(3) by (simp add: dseg_frame)
    moreover have "only_links s1 ?s2" by (simp add: only_links_def)
    ultimately show ?thesis using that [of ?s2] nx c(1) by (simp add: desc_upd_Some)
  qed
  have "frame_unlink (Some (of_nat b)) s = Inr s2"
    using s1(1) s2(1) unfolding frame_unlink_def at kbind_simps Let_def b by simp
  moreover have "dseg (pfn_descs s2) None (page_desc_free_ll s2) (xs @ ys) pv'' None"
    using s2(3-5) by (auto simp: dseg_append)
  ultimately show ?thesis using only_links_trans [OF s1(2) s2(2)] by blast
qed

lemma frame_push_correct:
  assumes seg: "dseg (pfn_descs s) None (page_desc_free_ll s) bs pv' None"
    and dist: "distinct (heads bs)" "of_nat b \<notin> set (heads bs)" and count: "pg_count (pfn_descs s (of_nat b)) = of_nat n"
    and range: "\<forall>h\<in>set (heads bs). h < pfn_count s" "of_nat b < pfn_count s"
  shows "\<exists>s' pv''. frame_push (Some (of_nat b)) s = Inr s' \<and> only_links s s' \<and>
    dseg (pfn_descs s') None (page_desc_free_ll s') ((b, n) # bs) pv'' None"
proof -
  let ?d1 = "(pfn_descs s)(of_nat b := (pfn_descs s (of_nat b))\<lparr>pg_prev_desc := None, pg_next_desc := page_desc_free_ll s\<rparr>)"
  let ?s1 = "s\<lparr>pfn_descs := ?d1\<rparr>"
  have seg1: "dseg ?d1 None (page_desc_free_ll s) bs pv' None" using seg dist(2) by (simp add: dseg_frame)
  obtain s2 pv'' where s2: "(if page_desc_free_ll s \<noteq> None then desc_upd (page_desc_free_ll s) (\<lambda>d. d\<lparr>pg_prev_desc := Some (of_nat b)\<rparr>) ?s1 else Inr ?s1) = Inr s2"
    "only_links s s2" "dseg (pfn_descs s2) (Some (of_nat b)) (page_desc_free_ll s) bs pv'' None"
    "pfn_descs s2 (of_nat b) = ?d1 (of_nat b)"
  proof (cases bs)
    case Nil
    with seg1 that [of ?s1] show ?thesis by (auto simp: only_links_def)
  next
    case (Cons y ys)
    obtain c k where y: "y = (c, k)" by (cases y)
    have ll: "page_desc_free_ll s = Some (of_nat c)" using seg1 dseg_first unfolding Cons y by blast
    have c: "(of_nat c :: u32) < pfn_count s" "of_nat c \<notin> set (heads ys)" "(of_nat c :: u32) \<noteq> of_nat b"
      using range dist unfolding Cons y by auto
    let ?d2 = "?d1(of_nat c := (?d1 (of_nat c))\<lparr>pg_prev_desc := Some (of_nat b)\<rparr>)"
    let ?s2 = "?s1\<lparr>pfn_descs := ?d2\<rparr>"
    have "pfn_descs ?s2 = ?d2" by simp
    then have "dseg (pfn_descs ?s2) (Some (of_nat b)) (page_desc_free_ll s) bs pv' None"
      using dseg_set_prev [OF seg1 [unfolded Cons y] c(2)] by (simp only: Cons y)
    moreover have "only_links s ?s2" by (simp add: only_links_def)
    ultimately show ?thesis using that [of ?s2] ll c by (simp add: desc_upd_Some)
  qed
  have "frame_push (Some (of_nat b)) s = Inr (s2\<lparr>page_desc_free_ll := Some (of_nat b)\<rparr>)"
    using s2(1) range(2) by (auto simp: frame_push_def desc_upd_Some split: if_splits)
  moreover have "only_links s (s2\<lparr>page_desc_free_ll := Some (of_nat b)\<rparr>)" using s2(2) by (simp add: only_links_def)
  moreover have "dseg (pfn_descs s2) None (Some (of_nat b)) ((b, n) # bs) pv'' None"
    using s2(3,4) count by simp
  ultimately show ?thesis by (intro exI [of _ "s2\<lparr>page_desc_free_ll := Some (of_nat b)\<rparr>"] exI [of _ pv'']) simp
qed

section \<open>The invariant\<close>

definition apart :: "block \<Rightarrow> block \<Rightarrow> bool" where
  "apart x y \<longleftrightarrow> fst x + snd x < fst y \<or> fst y + snd y < fst x"

definition pages_of :: "block \<Rightarrow> nat set" where
  "pages_of x = {fst x..<fst x + snd x}"

definition blocks_ok :: "usize_ptr \<Rightarrow> block list \<Rightarrow> bool" where
  "blocks_ok count bs \<longleftrightarrow> sorted_wrt apart bs \<and> (\<forall>x\<in>set bs. 0 < snd x \<and> fst x + snd x < unat count)"

definition fl_inv :: "pfn_manager_data \<Rightarrow> block list \<Rightarrow> bool" where
  "fl_inv s bs \<longleftrightarrow> (\<exists>pv. dseg (pfn_descs s) None (page_desc_free_ll s) bs pv None) \<and> blocks_ok (pfn_count s) bs \<and>
     (\<forall>p<unat (pfn_count s). pg_type (pfn_descs s (of_nat p)) = PAGETYPE_UNUSED \<longleftrightarrow> p \<in> \<Union> (pages_of ` set bs)) \<and>
     (\<forall>p<unat (pfn_count s). pg_type (pfn_descs s (of_nat p)) = PAGETYPE_UNUSED \<longrightarrow> pg_ref_count (pfn_descs s (of_nat p)) = 0)"

lemma apart_sym: "apart x y \<longleftrightarrow> apart y x"
  by (auto simp: apart_def)

lemma blocks_ok_Nil [simp]: "blocks_ok c []"
  by (simp add: blocks_ok_def)

lemma blocks_ok_append:
  "blocks_ok c (xs @ ys) \<longleftrightarrow> blocks_ok c xs \<and> blocks_ok c ys \<and> (\<forall>x\<in>set xs. \<forall>y\<in>set ys. apart x y)"
  by (auto simp: blocks_ok_def sorted_wrt_append)

lemma blocks_ok_Cons:
  "blocks_ok c (x # xs) \<longleftrightarrow> 0 < snd x \<and> fst x + snd x < unat c \<and> (\<forall>y\<in>set xs. apart x y) \<and> blocks_ok c xs"
  by (auto simp: blocks_ok_def)

lemma index_inj: "p < unat (c :: u32) \<Longrightarrow> q < unat c \<Longrightarrow> (of_nat p :: u32) = of_nat q \<longleftrightarrow> p = q"
  using unat_u32_lt [of c] by (intro of_nat_u32_inj) (simp_all del: unat_u32_lt)

lemma unat_index: "p < unat (c :: u32) \<Longrightarrow> unat (of_nat p :: u32) = p"
  using unat_u32_lt [of c] by (simp add: unat_of_nat del: unat_u32_lt)

lemma index_less: "p < unat (c :: u32) \<Longrightarrow> (of_nat p :: u32) < c"
  by (simp add: word_less_nat_alt unat_index)

lemma heads_in_range: "blocks_ok c bs \<Longrightarrow> \<forall>h\<in>set (heads bs). h < c"
  unfolding heads_def blocks_ok_def using index_less by fastforce

lemma heads_distinct: "blocks_ok c bs \<Longrightarrow> distinct (heads bs)"
proof (induction bs)
  case (Cons x bs)
  have "of_nat (fst x) \<noteq> (of_nat (fst y) :: u32)" if "y \<in> set bs" for y
  proof -
    have "fst x < unat c" "fst y < unat c" using Cons.prems that by (auto simp: blocks_ok_def)
    moreover have "fst x \<noteq> fst y" using Cons.prems that by (auto simp: blocks_ok_Cons apart_def)
    ultimately show ?thesis by (simp add: index_inj)
  qed
  with Cons show ?case by (cases x) (auto simp: heads_def blocks_ok_Cons)
qed simp

lemma head_page: "blocks_ok c bs \<Longrightarrow> h \<in> set (heads bs) \<Longrightarrow> \<exists>x\<in>set bs. h = of_nat (fst x) \<and> fst x \<in> pages_of x"
  by (auto simp: heads_def blocks_ok_def pages_of_def)

section \<open>Allocation\<close>

lemma frame_find_correct:
  assumes "dseg (pfn_descs s) pv it (xs @ ys) pv' None" "blocks_ok (pfn_count s) (xs @ ys)"
    "\<forall>x\<in>set xs. snd x < unat r"
  shows "\<exists>pm im. dseg (pfn_descs s) pm im ys pv' None \<and> frame_find s r it = frame_find s r im"
  using assms
proof (induction xs arbitrary: pv it)
  case (Cons x xs)
  obtain b n where x: "x = (b, n)" by (cases x)
  have b: "b < unat (pfn_count s)" "n < unat (pfn_count s)" using Cons.prems(2) by (auto simp: x blocks_ok_Cons)
  have seg: "it = Some (of_nat b)" "pg_count (pfn_descs s (of_nat b)) = of_nat n"
    "dseg (pfn_descs s) (Some (of_nat b)) (pg_next_desc (pfn_descs s (of_nat b))) (xs @ ys) pv' None"
    using Cons.prems(1) by (simp_all add: x)
  have "(of_nat n :: u32) < r" using Cons.prems(3) b(2) by (simp add: x word_less_nat_alt unat_index)
  then have "frame_find s r it = frame_find s r (pg_next_desc (pfn_descs s (of_nat b)))"
    using index_less [OF b(1)] by (subst frame_find.simps) (simp add: seg desc_at_Some)
  moreover have "blocks_ok (pfn_count s) (xs @ ys)" "\<forall>x\<in>set xs. snd x < unat r"
    using Cons.prems(2,3) by (simp_all add: x blocks_ok_Cons)
  from Cons.IH [OF seg(3) this] obtain pm im where
    "dseg (pfn_descs s) pm im ys pv' None" "frame_find s r (pg_next_desc (pfn_descs s (of_nat b))) = frame_find s r im"
    by blast
  ultimately show ?case by auto
qed auto

lemma frame_find_none:
  assumes "dseg (pfn_descs s) None (page_desc_free_ll s) bs pv' None" "blocks_ok (pfn_count s) bs" "\<forall>x\<in>set bs. snd x < unat r"
  shows "frame_find s r (page_desc_free_ll s) = lret None"
  using frame_find_correct [of s None "page_desc_free_ll s" bs "[]" pv' r] assms
  by (auto simp: frame_find.simps [of s r None])

lemma frame_find_some:
  assumes "dseg (pfn_descs s) None (page_desc_free_ll s) (xs @ (b, n) # ys) pv' None"
    "blocks_ok (pfn_count s) (xs @ (b, n) # ys)" "\<forall>x\<in>set xs. snd x < unat r" "unat r \<le> n"
  shows "frame_find s r (page_desc_free_ll s) = lret (Some (of_nat b))"
proof -
  have b: "b < unat (pfn_count s)" "n < unat (pfn_count s)" using assms(2) by (auto simp: blocks_ok_append blocks_ok_Cons)
  obtain pm im where im: "dseg (pfn_descs s) pm im ((b, n) # ys) pv' None"
    "frame_find s r (page_desc_free_ll s) = frame_find s r im"
    using frame_find_correct [OF assms(1,2,3)] by blast
  then have "im = Some (of_nat b)" "pg_count (pfn_descs s (of_nat b)) = of_nat n" by simp_all
  moreover have "\<not> (of_nat n :: u32) < r" using assms(4) b(2) by (simp add: word_less_nat_alt unat_index)
  ultimately show ?thesis
    unfolding im(2) using index_less [OF b(1)] by (subst frame_find.simps) (simp add: desc_at_Some)
qed

text \<open>Setting the type of a range of descriptors.\<close>

definition typed :: "phys_page_type \<Rightarrow> nat set \<Rightarrow> pfn_manager_data \<Rightarrow> pfn_manager_data" where
  "typed t A s = s\<lparr>pfn_descs := (\<lambda>i. if unat i \<in> A then (pfn_descs s i)\<lparr>pg_type := t\<rparr> else pfn_descs s i)\<rparr>"

lemma typed_simps [simp]:
  "pfn_count (typed t A s) = pfn_count s" "page_desc_free_ll (typed t A s) = page_desc_free_ll s"
  "pfn_free_count (typed t A s) = pfn_free_count s"
  "same_links (pfn_descs (typed t A s) i) (pfn_descs s i)"
  "pg_ref_count (pfn_descs (typed t A s) i) = pg_ref_count (pfn_descs s i)"
  "pg_type (pfn_descs (typed t A s) i) = (if unat i \<in> A then t else pg_type (pfn_descs s i))"
  by (simp_all add: typed_def same_links_def)

lemma typed_insert:
  assumes "unat w = q"
  shows "(typed t A s)\<lparr>pfn_descs := (pfn_descs (typed t A s))(w := (pfn_descs (typed t A s) w)\<lparr>pg_type := t\<rparr>)\<rparr> =
    typed t (insert q A) s"
proof -
  have "(\<lambda>i. if unat i \<in> A then (pfn_descs s i)\<lparr>pg_type := t\<rparr> else pfn_descs s i)
      (w := (if unat w \<in> A then (pfn_descs s w)\<lparr>pg_type := t\<rparr> else pfn_descs s w)\<lparr>pg_type := t\<rparr>) =
    (\<lambda>i. if unat i \<in> insert q A then (pfn_descs s i)\<lparr>pg_type := t\<rparr> else pfn_descs s i)"
  proof -
    have "unat i = q \<longleftrightarrow> i = w" for i using assms by (auto simp: word_unat_eq_iff)
    then show ?thesis by (auto simp: fun_eq_iff)
  qed
  then show ?thesis by (simp add: typed_def)
qed

lemma pfn_range_set_type_typed:
  assumes "p + n \<le> unat (pfn_count s)" "unat c = n"
  shows "pfn_range_set_type (Some (of_nat p)) c t s = Inr (typed t {p..<p + n} s)"
proof -
  have "kfor (\<lambda>i. desc_upd (desc_add (Some (of_nat p)) i) (\<lambda>d. d\<lparr>pg_type := t\<rparr>)) [0..<k] s = Inr (typed t {p..<p + k} s)"
    if "k \<le> n" for k
    using that
  proof (induction k)
    case (Suc k)
    have lt: "p + k < unat (pfn_count s)" using Suc.prems assms(1) by simp
    have "insert (p + k) {p..<p + k} = {p..<p + Suc k}" by auto
    then show ?case
      using Suc index_less [OF lt] typed_insert [OF unat_index [OF lt], of t "{p..<p + k}" s]
      by (simp add: kfor_append desc_add_def desc_upd_Some)
  qed (simp add: typed_def)
  then show ?thesis by (simp add: pfn_range_set_type_def assms(2))
qed

lemma frame_check_unused_ok:
  assumes "p + n \<le> unat (pfn_count s)" "unat c = n"
    "\<forall>q\<in>{p..<p + n}. pg_type (pfn_descs s (of_nat q)) = PAGETYPE_UNUSED \<and> pg_ref_count (pfn_descs s (of_nat q)) = 0"
  shows "frame_check_unused (of_nat p) c s = Inr ()"
proof -
  have "kfor f [0..<k] () = Inr ()" if "\<forall>j<k. f j () = Inr ()" for f :: "nat \<Rightarrow> unit \<Rightarrow> unit kres" and k
    using that kfor_fold_simple [of "[0..<k]" f "\<lambda>_ _. ()" "()"] by simp
  moreover have "desc_at s (desc_add (page_index_to_pfn (of_nat p)) j) = Inr (pfn_descs s (of_nat (p + j)))" if "j < n" for j
    using index_less [of "p + j" "pfn_count s"] that assms(1) by (simp add: desc_add_def page_index_to_pfn_def desc_at_Some)
  moreover have "pg_type (pfn_descs s (of_nat (p + j))) = PAGETYPE_UNUSED" "pg_ref_count (pfn_descs s (of_nat (p + j))) = 0"
    if "j < n" for j
    using assms(3) that by (simp_all del: of_nat_add)
  ultimately show ?thesis unfolding frame_check_unused_def assms(2) by simp
qed

lemma same_links_heads:
  "dseg (pfn_descs (typed t A s)) pv it bs pv' it' = dseg (pfn_descs s) pv it bs pv' it'"
  by (rule dseg_cong) simp

text \<open>What the allocation leaves of a block.\<close>

definition shrink :: "block \<Rightarrow> nat \<Rightarrow> block list" where
  "shrink x r = (if snd x = r then [] else [(fst x, snd x - r)])"

lemma frame_take_links:
  assumes seg: "dseg (pfn_descs s) None (page_desc_free_ll s) (xs @ (b, n) # ys) pv None"
    and ok: "blocks_ok (pfn_count s) (xs @ (b, n) # ys)" and r: "0 < r" "r \<le> n"
  shows "\<exists>s' pv'. (if (of_nat (n - r) :: u32) = 0 then frame_unlink (Some (of_nat b)) s
      else kbind (desc_upd (Some (of_nat b)) (\<lambda>d. d\<lparr>pg_count := of_nat (n - r)\<rparr>) s) (\<lambda>s.
           desc_upd (Some (of_nat (b + n - r))) (\<lambda>d. d\<lparr>pg_count := of_nat (n - r)\<rparr>) s)) = Inr s' \<and>
    only_links s s' \<and> dseg (pfn_descs s') None (page_desc_free_ll s') (xs @ shrink (b, n) r @ ys) pv' None"
proof -
  have bn: "b + n < unat (pfn_count s)" using ok by (simp add: blocks_ok_append blocks_ok_Cons)
  have z: "(of_nat (n - r) :: u32) = 0 \<longleftrightarrow> n = r"
    using unat_index [of "n - r" "pfn_count s"] bn r by (auto simp: word_unat_eq_iff)
  show ?thesis
  proof (cases "n = r")
    case True
    then show ?thesis
      using frame_unlink_correct [OF seg heads_distinct [OF ok] heads_in_range [OF ok]] z by (auto simp: shrink_def)
  next
    case False
    let ?d1 = "(pfn_descs s)(of_nat b := (pfn_descs s (of_nat b))\<lparr>pg_count := of_nat (n - r)\<rparr>)"
    let ?f = "of_nat (b + n - r) :: u32"
    let ?d2 = "?d1(?f := (?d1 ?f)\<lparr>pg_count := of_nat (n - r)\<rparr>)"
    have lt: "(of_nat b :: u32) < pfn_count s" "?f < pfn_count s"
      using index_less [of b "pfn_count s"] index_less [of "b + n - r" "pfn_count s"] bn r by simp_all
    have fresh: "?f \<notin> set (heads (xs @ (b, n) # ys))"
    proof
      assume "?f \<in> set (heads (xs @ (b, n) # ys))"
      then obtain x where x: "x \<in> set (xs @ (b, n) # ys)" "?f = of_nat (fst x)" unfolding heads_iff by blast
      have "fst x + snd x < unat (pfn_count s)" using ok x(1) unfolding blocks_ok_def by blast
      then have "b + n - r = fst x"
        using x(2) bn r index_inj [of "b + n - r" "pfn_count s" "fst x"] by simp
      moreover have "x = (b, n) \<or> apart x (b, n)"
        using ok x(1) by (auto simp: blocks_ok_append blocks_ok_Cons apart_sym)
      ultimately show False using False r by (auto simp: apart_def)
    qed
    have nb: "of_nat b \<notin> set (heads xs)" "of_nat b \<notin> set (heads ys)" using heads_distinct [OF ok] by auto
    have "dseg ?d1 None (page_desc_free_ll s) (xs @ (b, n - r) # ys) pv None"
      using seg nb by (auto simp: dseg_append dseg_frame)
    then have "dseg ?d2 None (page_desc_free_ll s) (xs @ (b, n - r) # ys) pv None"
      using fresh by (subst dseg_frame) auto
    moreover have "only_links s (s\<lparr>pfn_descs := ?d2\<rparr>)" by (simp add: only_links_def)
    ultimately show ?thesis
      using lt False z by (intro exI [of _ "s\<lparr>pfn_descs := ?d2\<rparr>"] exI [of _ pv]) (simp add: desc_upd_Some shrink_def)
  qed
qed

lemma shrink_pages: "r \<le> n \<Longrightarrow> \<Union> (pages_of ` set (shrink (b, n) r)) = {b..<b + n - r}"
  by (auto simp: shrink_def pages_of_def)

lemma blocks_ok_shrink:
  assumes "blocks_ok c (xs @ (b, n) # ys)" "0 < r" "r \<le> n"
  shows "blocks_ok c (xs @ shrink (b, n) r @ ys)"
  using assms by (auto simp: blocks_ok_append blocks_ok_Cons shrink_def apart_def)

text \<open>Taking the last \<open>r\<close> pages of a block: the page after them is marked as well.\<close>

lemma frame_take_correct:
  assumes inv: "fl_inv s (xs @ (b, n) # ys)" and r: "0 < unat r" "unat r \<le> n"
  shows "\<exists>s'. frame_take (Some (of_nat b)) r s = Inr (Some (of_nat (b + n - unat r)), s') \<and>
    fl_inv s' (xs @ shrink (b, n) (unat r) @ ys) \<and> pfn_count s' = pfn_count s \<and>
    (\<forall>p<unat (pfn_count s). pg_type (pfn_descs s' (of_nat p)) =
       (if p \<in> {b + n - unat r..b + n} then PAGETYPE_USED else pg_type (pfn_descs s (of_nat p)))) \<and>
    (\<forall>i. pg_ref_count (pfn_descs s' i) = pg_ref_count (pfn_descs s i))"
proof -
  let ?k = "unat r" and ?a = "b + n - unat r"
  obtain pv where seg: "dseg (pfn_descs s) None (page_desc_free_ll s) (xs @ (b, n) # ys) pv None"
    and ok: "blocks_ok (pfn_count s) (xs @ (b, n) # ys)"
    and types: "\<forall>p<unat (pfn_count s). pg_type (pfn_descs s (of_nat p)) = PAGETYPE_UNUSED \<longleftrightarrow> p \<in> \<Union> (pages_of ` set (xs @ (b, n) # ys))"
    and refs: "\<forall>p<unat (pfn_count s). pg_type (pfn_descs s (of_nat p)) = PAGETYPE_UNUSED \<longrightarrow> pg_ref_count (pfn_descs s (of_nat p)) = 0"
    using inv unfolding fl_inv_def by blast
  have bn: "b + n < unat (pfn_count s)" and n: "0 < n" using ok by (simp_all add: blocks_ok_append blocks_ok_Cons)
  have cnt: "pg_count (pfn_descs s (of_nat b)) = of_nat n" using seg by (auto simp: dseg_append)
  have at: "desc_at s (Some (of_nat b)) = Inr (pfn_descs s (of_nat b))"
    using index_less [of b "pfn_count s"] bn by (simp add: desc_at_Some)
  have r_nat: "(of_nat ?k :: u32) = r" by simp
  have "of_nat b + of_nat n - of_nat ?k = (of_nat ?a :: u32)"
    by (simp only: of_nat_add [symmetric] of_nat_diff [OF trans_le_add2 [OF r(2)]])
  then have start: "of_nat b + of_nat n - r = (of_nat ?a :: u32)" unfolding r_nat .
  have len: "unat (of_nat b + of_nat n - of_nat ?a + 1 :: u32) = ?k + 1"
  proof -
    have "of_nat b + of_nat n - of_nat ?a + 1 = (of_nat (?k + 1) :: u32)" using start by (simp add: algebra_simps)
    moreover have "?k + 1 < 2 ^ 32" using bn r(2) unat_u32_lt [of "pfn_count s"] by (simp del: unat_u32_lt)
    ultimately show ?thesis by (simp only: unat_of_nat) simp
  qed
  have new: "of_nat n - r = (of_nat (n - ?k) :: u32)" using of_nat_diff [OF r(2)] r_nat by metis
  have unused: "frame_check_unused (of_nat ?a) r s = Inr ()"
    using bn r types refs by (intro frame_check_unused_ok [where n = ?k]) (auto simp: pages_of_def)
  let ?A = "{?a..<?a + (?k + 1)}"
  have A: "?A = {b + n - ?k..b + n}" using r by auto
  let ?s1 = "typed PAGETYPE_USED ?A s"
  have set: "pfn_range_set_type (page_index_to_pfn (of_nat ?a)) (of_nat b + of_nat n - of_nat ?a + 1) PAGETYPE_USED s = Inr ?s1"
    unfolding page_index_to_pfn_def using bn r by (intro pfn_range_set_type_typed [OF _ len]) simp
  have seg1: "dseg (pfn_descs ?s1) None (page_desc_free_ll ?s1) (xs @ (b, n) # ys) pv None"
    using seg by (simp add: same_links_heads)
  obtain s' pv' where s': "(if (of_nat (n - ?k) :: u32) = 0 then frame_unlink (Some (of_nat b)) ?s1
      else kbind (desc_upd (Some (of_nat b)) (\<lambda>d. d\<lparr>pg_count := of_nat (n - ?k)\<rparr>) ?s1) (\<lambda>s.
           desc_upd (Some (of_nat ?a)) (\<lambda>d. d\<lparr>pg_count := of_nat (n - ?k)\<rparr>) s)) = Inr s'"
    "only_links ?s1 s'" "dseg (pfn_descs s') None (page_desc_free_ll s') (xs @ shrink (b, n) ?k @ ys) pv' None"
    using frame_take_links [OF seg1 _ r] ok by auto
  have run: "frame_take (Some (of_nat b)) r s = Inr (Some (of_nat ?a), s')"
    by (simp only: frame_take_def at kbind_simps Let_def cnt get_pfn_index_def option.case start unused
      set [unfolded page_index_to_pfn_def] new page_index_to_pfn_def s'(1))
  have ty: "pg_type (pfn_descs s' (of_nat p)) = (if p \<in> {b + n - ?k..b + n} then PAGETYPE_USED else pg_type (pfn_descs s (of_nat p)))"
    if "p < unat (pfn_count s)" for p
    using s'(2) unat_index [OF that] unfolding A [symmetric] by (simp add: only_links_def)
  have rf: "pg_ref_count (pfn_descs s' i) = pg_ref_count (pfn_descs s i)" for i
    using s'(2) by (simp add: only_links_def)
  have c: "pfn_count s' = pfn_count s" using s'(2) by (simp add: only_links_def)
  have "pg_type (pfn_descs s' (of_nat p)) = PAGETYPE_UNUSED \<longleftrightarrow> p \<in> \<Union> (pages_of ` set (xs @ shrink (b, n) ?k @ ys))"
    if "p < unat (pfn_count s)" for p
  proof -
    have "p \<notin> pages_of x" if "x \<in> set xs \<union> set ys" "p \<in> {b + n - ?k..b + n}" for x
    proof -
      have "apart x (b, n)" using ok that(1) by (auto simp: blocks_ok_append blocks_ok_Cons apart_sym)
      then show ?thesis using that(2) r by (auto simp: apart_def pages_of_def)
    qed
    moreover have "pages_of (b, n) = {b..<b + n - ?k} \<union> {b + n - ?k..<b + n}" using r by (auto simp: pages_of_def)
    ultimately show ?thesis
      using types that shrink_pages [OF r(2), of b] r by (auto simp: ty)
  qed
  moreover have "pg_ref_count (pfn_descs s' (of_nat p)) = 0"
    if "p < unat (pfn_count s)" "pg_type (pfn_descs s' (of_nat p)) = PAGETYPE_UNUSED" for p
    using refs that ty [OF that(1)] by (simp add: rf split: if_splits)
  ultimately have "fl_inv s' (xs @ shrink (b, n) ?k @ ys)"
    unfolding fl_inv_def c using s'(3) blocks_ok_shrink [OF ok r] by blast
  with run c ty rf show ?thesis by blast
qed

section \<open>Release\<close>

definition released :: "nat set \<Rightarrow> pfn_manager_data \<Rightarrow> pfn_manager_data" where
  "released A s = s\<lparr>pfn_descs := (\<lambda>i. if unat i \<in> A
     then (pfn_descs s i)\<lparr>pg_type := PAGETYPE_UNUSED, pg_flags := 0, pg_ref_count := 0\<rparr> else pfn_descs s i)\<rparr>"

lemma released_simps [simp]:
  "pfn_count (released A s) = pfn_count s" "page_desc_free_ll (released A s) = page_desc_free_ll s"
  "same_links (pfn_descs (released A s) i) (pfn_descs s i)"
  "pg_ref_count (pfn_descs (released A s) i) = (if unat i \<in> A then 0 else pg_ref_count (pfn_descs s i))"
  "pg_type (pfn_descs (released A s) i) = (if unat i \<in> A then PAGETYPE_UNUSED else pg_type (pfn_descs s i))"
  by (simp_all add: released_def same_links_def)

lemma released_insert:
  assumes "unat w = q"
  shows "(released A s)\<lparr>pfn_descs := (pfn_descs (released A s))(w := (pfn_descs (released A s) w)
      \<lparr>pg_type := PAGETYPE_UNUSED, pg_flags := 0, pg_ref_count := 0\<rparr>)\<rparr> = released (insert q A) s"
proof -
  have "unat i = q \<longleftrightarrow> i = w" for i using assms by (auto simp: word_unat_eq_iff)
  then have "(\<lambda>i. if unat i \<in> A then (pfn_descs s i)\<lparr>pg_type := PAGETYPE_UNUSED, pg_flags := 0, pg_ref_count := 0\<rparr> else pfn_descs s i)
      (w := (if unat w \<in> A then (pfn_descs s w)\<lparr>pg_type := PAGETYPE_UNUSED, pg_flags := 0, pg_ref_count := 0\<rparr> else pfn_descs s w)
        \<lparr>pg_type := PAGETYPE_UNUSED, pg_flags := 0, pg_ref_count := 0\<rparr>) =
    (\<lambda>i. if unat i \<in> insert q A then (pfn_descs s i)\<lparr>pg_type := PAGETYPE_UNUSED, pg_flags := 0, pg_ref_count := 0\<rparr> else pfn_descs s i)"
    by (auto simp: fun_eq_iff)
  then show ?thesis by (simp add: released_def)
qed

lemma pfn_mark_pages_released:
  assumes "p + n \<le> unat (pfn_count s)"
  shows "pfn_mark_pages (of_nat p) (of_nat (p + n)) PAGETYPE_UNUSED 0 0 s = Inr (released {p..<p + n} s)"
proof -
  have "kfor (\<lambda>i. desc_upd (page_index_to_pfn (of_nat i)) (\<lambda>d. d\<lparr>pg_type := PAGETYPE_UNUSED, pg_flags := 0, pg_ref_count := 0\<rparr>))
      [p..<p + k] s = Inr (released {p..<p + k} s)" if "k \<le> n" for k
    using that
  proof (induction k)
    case (Suc k)
    have lt: "p + k < unat (pfn_count s)" using Suc.prems assms by simp
    have "insert (p + k) {p..<p + k} = {p..<p + Suc k}" by auto
    then show ?case
      using Suc index_less [OF lt] released_insert [OF unat_index [OF lt], of "{p..<p + k}" s]
      by (simp add: kfor_append page_index_to_pfn_def desc_upd_Some)
  qed (simp add: released_def)
  moreover have "unat (of_nat p :: u32) = p" "unat (of_nat (p + n) :: u32) = p + n"
    using assms unat_u32_lt [of "pfn_count s"] by (simp_all only: unat_of_nat) (simp_all del: unat_u32_lt)
  ultimately show ?thesis unfolding pfn_mark_pages_def by simp
qed

text \<open>Writing the length into head and foot and putting the block in front of the list.\<close>

lemma frame_attach:
  assumes seg: "dseg (pfn_descs s) None (page_desc_free_ll s) bs pv None" and ok: "blocks_ok (pfn_count s) ((p, k) # bs)"
  shows "\<exists>s' pv'. kbind (desc_upd (Some (of_nat p)) (\<lambda>d. d\<lparr>pg_count := of_nat k\<rparr>) s) (\<lambda>s.
      kbind (desc_upd (Some (of_nat (p + k - 1))) (\<lambda>d. d\<lparr>pg_count := of_nat k\<rparr>) s) (\<lambda>s. frame_push (Some (of_nat p)) s)) = Inr s' \<and>
    only_links s s' \<and> dseg (pfn_descs s') None (page_desc_free_ll s') ((p, k) # bs) pv' None"
proof -
  let ?f = "of_nat (p + k - 1) :: u32" and ?h = "of_nat p :: u32"
  have pk: "0 < k" "p + k < unat (pfn_count s)" using ok by (simp_all add: blocks_ok_Cons)
  have ok': "blocks_ok (pfn_count s) bs" using ok by (simp add: blocks_ok_Cons)
  have fresh: "of_nat q \<notin> set (heads bs)" if "q \<in> {p..<p + k}" for q
  proof
    assume "of_nat q \<in> set (heads bs)"
    then obtain x where x: "x \<in> set bs" "of_nat q = (of_nat (fst x) :: u32)" unfolding heads_iff by blast
    have "fst x + snd x < unat (pfn_count s)" using ok' x(1) unfolding blocks_ok_def by blast
    then have "q = fst x" using x(2) pk(2) that index_inj [of q "pfn_count s" "fst x"] by simp
    moreover have "apart (p, k) x" using ok x(1) by (simp add: blocks_ok_Cons)
    ultimately show False using that by (auto simp: apart_def)
  qed
  have lt: "?h < pfn_count s" "?f < pfn_count s"
    using index_less [of p "pfn_count s"] index_less [of "p + k - 1" "pfn_count s"] pk by simp_all
  let ?d1 = "(pfn_descs s)(?h := (pfn_descs s ?h)\<lparr>pg_count := of_nat k\<rparr>)"
  let ?d2 = "?d1(?f := (?d1 ?f)\<lparr>pg_count := of_nat k\<rparr>)"
  let ?s2 = "s\<lparr>pfn_descs := ?d2\<rparr>"
  have f1: "?h \<notin> set (heads bs)" "?f \<notin> set (heads bs)" using fresh [of p] fresh [of "p + k - 1"] pk(1) by simp_all
  have "dseg (pfn_descs ?s2) None (page_desc_free_ll ?s2) bs pv None" using seg f1 by (simp add: dseg_frame)
  moreover have "pg_count (pfn_descs ?s2 ?h) = of_nat k" by simp
  ultimately obtain s' pv' where s': "frame_push (Some ?h) ?s2 = Inr s'" "only_links ?s2 s'"
    "dseg (pfn_descs s') None (page_desc_free_ll s') ((p, k) # bs) pv' None"
    using frame_push_correct [of ?s2 bs pv p k] heads_distinct [OF ok'] heads_in_range [OF ok'] f1(1) lt(1) by auto
  moreover have "only_links s s'" using s'(2) by (simp add: only_links_def)
  ultimately show ?thesis using lt by (auto simp: desc_upd_Some)
qed

definition free_block :: "block list \<Rightarrow> nat \<Rightarrow> nat \<Rightarrow> block list" where
  "free_block bs p c =
     (p, c + (case find (\<lambda>x. fst x = p + c) bs of None \<Rightarrow> 0 | Some x \<Rightarrow> snd x)) # filter (\<lambda>x. fst x \<noteq> p + c) bs"

lemma no_head:
  "(\<And>x. x \<in> set bs \<Longrightarrow> fst x \<noteq> k) \<Longrightarrow> find (\<lambda>x. fst x = k) bs = None \<and> filter (\<lambda>x. fst x \<noteq> k) bs = bs"
  by (induction bs) auto

lemma free_block_none: "p + c \<notin> fst ` set bs \<Longrightarrow> free_block bs p c = (p, c) # bs"
  using no_head [of bs "p + c"] by (force simp: free_block_def)

lemma free_block_merge:
  assumes "blocks_ok k (xs @ (p + c, n) # ys)"
  shows "free_block (xs @ (p + c, n) # ys) p c = (p, c + n) # xs @ ys"
proof -
  have other: "fst x \<noteq> p + c" if "x \<in> set xs \<union> set ys" for x
    using assms that by (auto simp: blocks_ok_append blocks_ok_Cons apart_def)
  then show ?thesis
    using no_head [of xs "p + c"] no_head [of ys "p + c"] by (simp add: free_block_def find_append)
qed

text \<open>The blocks of the list keep clear of pages that are in use, and do not end in front of them.\<close>

lemma blocks_far:
  assumes ok: "blocks_ok (pfn_count s) bs"
    and types: "\<forall>p<unat (pfn_count s). pg_type (pfn_descs s (of_nat p)) = PAGETYPE_UNUSED \<longleftrightarrow> p \<in> \<Union> (pages_of ` set bs)"
    and pc: "p + c < unat (pfn_count s)"
    and used: "\<forall>q\<in>{p..<p + c}. pg_type (pfn_descs s (of_nat q)) \<noteq> PAGETYPE_UNUSED"
    and left: "0 < p \<Longrightarrow> pg_type (pfn_descs s (of_nat (p - 1))) \<noteq> PAGETYPE_UNUSED"
    and x: "x \<in> set bs"
  shows "fst x + snd x < p \<or> p + c \<le> fst x"
proof (rule ccontr)
  assume *: "\<not> ?thesis"
  have not_in: "q \<notin> pages_of x" if "q \<in> {p..<p + c}" for q using types used that pc x by fastforce
  have sx: "0 < snd x" using ok x by (auto simp: blocks_ok_def)
  show False
  proof (cases "p \<le> fst x")
    case True
    then show False using * not_in [of "fst x"] sx by (auto simp: pages_of_def)
  next
    case False
    have "p - 1 \<in> pages_of x" using * False by (auto simp: pages_of_def)
    moreover have "p - 1 < unat (pfn_count s)" using pc by simp
    ultimately show False using types left False x by auto
  qed
qed

text \<open>The end of \<^verbatim>\<open>frame_free_phys_pages\<close>, once head and foot of the new block are known.\<close>

definition attach_block :: "nat \<Rightarrow> u32 \<times> pfn_manager_data \<Rightarrow> pfn_manager_data kres" where
  "attach_block p = (\<lambda>(cur_foot, s). let cur_count = cur_foot - of_nat p + 1
     in kbind (desc_upd (Some (of_nat p)) (\<lambda>d. d\<lparr>pg_count := cur_count\<rparr>) s) (\<lambda>s.
        kbind (desc_upd (Some cur_foot) (\<lambda>d. d\<lparr>pg_count := cur_count\<rparr>) s) (\<lambda>s.
        frame_push (Some (of_nat p)) s)))"

lemma attach_block_correct:
  assumes "dseg (pfn_descs t) None (page_desc_free_ll t) bs' pv'' None" "blocks_ok (pfn_count t) ((p, k) # bs')"
  shows "\<exists>s' pv'. attach_block p (of_nat (p + k - 1), t) = Inr s' \<and> only_links t s' \<and>
    dseg (pfn_descs s') None (page_desc_free_ll s') ((p, k) # bs') pv' None"
proof -
  have "0 < k" using assms(2) by (simp add: blocks_ok_Cons)
  then have "of_nat (p + k - 1) - of_nat p + 1 = (of_nat k :: u32)" by (simp add: of_nat_diff)
  then show ?thesis using frame_attach [OF assms] by (simp add: attach_block_def Let_def)
qed

text \<open>The run of \<^verbatim>\<open>frame_free_phys_pages\<close> when the page in front of the range is in use: only the block behind it matters.\<close>

lemma frame_free_run:
  assumes size: "unat (pfn_count s) \<le> 1048576" and pc: "0 < c" "p + c < unat (pfn_count s)"
    and left: "0 < p \<Longrightarrow> pg_type (pfn_descs s (of_nat (p - 1))) \<noteq> PAGETYPE_UNUSED"
  shows "frame_free_phys_pages (Some (of_nat p)) (of_nat c) s =
    (let s1 = released {p..<p + c} s in
     kbind (if pg_type (pfn_descs s (of_nat (p + c))) = PAGETYPE_UNUSED
         then kbind (frame_unlink (Some (of_nat (p + c))) s1)
                (\<lambda>s. Inr (of_nat (p + c) + pg_count (pfn_descs s1 (of_nat (p + c))) - 1, s))
         else Inr (of_nat (p + c - 1), s1)) (attach_block p))"
proof -
  let ?s1 = "released {p..<p + c} s"
  have addr: "PAGE_SIZE * of_nat p = page_addr p" "page_addr p + of_nat c * PAGE_SIZE = page_addr (p + c)"
    by (simp_all add: page_addr_def PAGE_SIZE_def)
  have idx: "page_addr q div PAGE_SIZE = of_nat q" if "q < 1048576" for q
    using that by (simp add: word_unat_eq_iff unat_div_distrib unat_page_addr unat_of_nat)
  have ib: "page_addr p div PAGE_SIZE = of_nat p" "page_addr (p + c) div PAGE_SIZE = of_nat (p + c)"
    using idx pc(2) size by simp_all
  have lt: "(of_nat p :: u32) < pfn_count s" "(of_nat (p + c) :: u32) < pfn_count s"
    using index_less pc(2) by (simp_all del: of_nat_add)
  have foot: "(of_nat (p + c) :: u32) - 1 = of_nat (p + c - 1)" using pc(1) by (simp add: of_nat_diff)
  let ?h0 = "(if 0 < (of_nat p :: u32)
     then kbind (desc_at ?s1 (page_index_to_pfn (of_nat p - 1))) (\<lambda>old_foot.
          Inr (if pg_type old_foot = PAGETYPE_UNUSED then of_nat p - pg_count old_foot else of_nat p))
     else Inr (of_nat p)) :: u32 kres"
  have head: "?h0 = Inr (of_nat p)"
  proof (cases "p = 0")
    case False
    have l: "p - 1 < unat (pfn_count s)" using pc(2) by simp
    have e: "(of_nat p :: u32) - 1 = of_nat (p - 1)" using False by (simp add: of_nat_diff)
    have "unat (of_nat (p - 1) :: u32) \<notin> {p..<p + c}" using unat_index [OF l] False by simp
    then have "pg_type (pfn_descs ?s1 (of_nat (p - 1))) \<noteq> PAGETYPE_UNUSED" using left False by simp
    then show ?thesis unfolding e page_index_to_pfn_def using index_less [OF l] by (simp add: desc_at_Some)
  qed simp
  have 1: "\<not> pfn_count s \<le> of_nat p" "\<not> pfn_count s < of_nat (p + c)" using lt by (simp_all add: leD less_imp_le not_le del: of_nat_add)
  have 2: "pfn_mark_pages (of_nat p) (of_nat (p + c)) PAGETYPE_UNUSED 0 0 s = Inr ?s1"
    using pc(2) by (intro pfn_mark_pages_released) simp
  have 3: "desc_at ?s1 (page_index_to_pfn (of_nat (p + c))) = Inr (pfn_descs ?s1 (of_nat (p + c)))"
    unfolding page_index_to_pfn_def using lt(2) by (simp add: desc_at_Some del: of_nat_add)
  have "pg_type (pfn_descs ?s1 (of_nat (p + c))) = pg_type (pfn_descs s (of_nat (p + c)))"
    using unat_index [OF pc(2)] by (simp del: of_nat_add)
  then show ?thesis
    unfolding frame_free_phys_pages_def pfn_to_pa_def get_pfn_index_def option.case kbind_simps Let_def addr ib pfn_page_count_def
    by (simp only: 1 2 3 [unfolded page_index_to_pfn_def] head [unfolded page_index_to_pfn_def] lt(2)
      if_False if_True kbind_simps foot page_index_to_pfn_def attach_block_def Let_def)
qed

text \<open>The invariant after the links of the new list were set.\<close>

lemma released_inv:
  assumes inv: "fl_inv s bs" and links: "only_links (released {p..<p + c} s) s'"
    and seg: "dseg (pfn_descs s') None (page_desc_free_ll s') bs' pv' None" and ok: "blocks_ok (pfn_count s) bs'"
    and pages: "\<Union> (pages_of ` set bs') = {p..<p + c} \<union> \<Union> (pages_of ` set bs)"
  shows "fl_inv s' bs'"
proof -
  have c: "pfn_count s' = pfn_count s" using links by (simp add: only_links_def)
  have ty: "pg_type (pfn_descs s' (of_nat q)) = PAGETYPE_UNUSED \<longleftrightarrow> q \<in> {p..<p + c} \<union> \<Union> (pages_of ` set bs)"
    and rf: "pg_type (pfn_descs s' (of_nat q)) = PAGETYPE_UNUSED \<longrightarrow> pg_ref_count (pfn_descs s' (of_nat q)) = 0"
    if "q < unat (pfn_count s)" for q
    using links inv unat_index [OF that] that by (auto simp: only_links_def fl_inv_def)
  show ?thesis unfolding fl_inv_def c using seg ok ty rf unfolding pages by blast
qed

lemma merged_blocks_ok:
  assumes ok: "blocks_ok k (xs @ (p + c, n) # ys)" and c: "0 < c"
    and far: "\<forall>x\<in>set (xs @ ys). fst x + snd x < p \<or> p + c \<le> fst x"
  shows "blocks_ok k ((p, c + n) # xs @ ys)"
proof -
  have "apart (p, c + n) x" if "x \<in> set (xs @ ys)" for x
  proof -
    have "apart x (p + c, n)" using ok that by (auto simp: blocks_ok_append blocks_ok_Cons apart_sym)
    then show ?thesis using far that by (auto simp: apart_def)
  qed
  then show ?thesis using ok c by (auto simp: blocks_ok_append blocks_ok_Cons)
qed

lemma frame_free_correct:
  assumes inv: "fl_inv s bs" and size: "unat (pfn_count s) \<le> 1048576"
    and pc: "0 < c" "p + c < unat (pfn_count s)"
    and used: "\<forall>q\<in>{p..<p + c}. pg_type (pfn_descs s (of_nat q)) \<noteq> PAGETYPE_UNUSED"
    and left: "0 < p \<Longrightarrow> pg_type (pfn_descs s (of_nat (p - 1))) \<noteq> PAGETYPE_UNUSED"
  shows "\<exists>s'. frame_free_phys_pages (Some (of_nat p)) (of_nat c) s = Inr s' \<and> fl_inv s' (free_block bs p c) \<and>
    pfn_count s' = pfn_count s"
proof -
  let ?s1 = "released {p..<p + c} s"
  obtain pv where seg: "dseg (pfn_descs s) None (page_desc_free_ll s) bs pv None"
    and ok: "blocks_ok (pfn_count s) bs"
    and types: "\<forall>p<unat (pfn_count s). pg_type (pfn_descs s (of_nat p)) = PAGETYPE_UNUSED \<longleftrightarrow> p \<in> \<Union> (pages_of ` set bs)"
    using inv unfolding fl_inv_def by blast
  have seg1: "dseg (pfn_descs ?s1) None (page_desc_free_ll ?s1) bs pv None" using seg by (subst dseg_cong) simp_all
  have far: "fst x + snd x < p \<or> p + c \<le> fst x" if "x \<in> set bs" for x
    by (rule blocks_far [OF ok types pc(2) used left that])
  have run: "frame_free_phys_pages (Some (of_nat p)) (of_nat c) s =
     kbind (if pg_type (pfn_descs s (of_nat (p + c))) = PAGETYPE_UNUSED
         then kbind (frame_unlink (Some (of_nat (p + c))) ?s1) (\<lambda>s. Inr (of_nat (p + c) + pg_count (pfn_descs ?s1 (of_nat (p + c))) - 1, s))
         else Inr (of_nat (p + c - 1), ?s1)) (attach_block p)"
    by (rule frame_free_run [OF size pc left, unfolded Let_def])
  show ?thesis
  proof (cases "p + c \<in> fst ` set bs")
    case False
    have "fst x \<noteq> p + c" if "x \<in> set bs" for x using False that by force
    with far have far': "fst x + snd x < p \<or> p + c < fst x" if "x \<in> set bs" for x
      using that by (metis le_neq_implies_less)
    then have "p + c \<notin> \<Union> (pages_of ` set bs)" by (fastforce simp: pages_of_def)
    then have "pg_type (pfn_descs s (of_nat (p + c))) \<noteq> PAGETYPE_UNUSED" using types pc(2) by blast
    moreover have ok1: "blocks_ok (pfn_count s) ((p, c) # bs)"
      using ok pc far' by (simp add: blocks_ok_Cons apart_def) blast
    then obtain s' pv' where s': "attach_block p (of_nat (p + c - 1), ?s1) = Inr s'" "only_links ?s1 s'"
      "dseg (pfn_descs s') None (page_desc_free_ll s') ((p, c) # bs) pv' None"
      using attach_block_correct [OF seg1, of p c] ok1 unfolding released_simps(1) by blast
    moreover have "fl_inv s' ((p, c) # bs)" using released_inv [OF inv s'(2,3) ok1] by (simp add: pages_of_def)
    ultimately show ?thesis unfolding run free_block_none [OF False] by (auto simp: only_links_def)
  next
    case True
    then obtain n where "(p + c, n) \<in> set bs" by force
    then obtain xs ys where bs: "bs = xs @ (p + c, n) # ys" by (auto simp: in_set_conv_decomp)
    have n: "0 < n" using ok by (simp add: bs blocks_ok_append blocks_ok_Cons)
    have un: "pg_type (pfn_descs s (of_nat (p + c))) = PAGETYPE_UNUSED"
      using types pc(2) n unfolding bs by (force simp: pages_of_def)
    have cnt: "pg_count (pfn_descs ?s1 (of_nat (p + c))) = of_nat n" using seg1 unfolding bs by (auto simp: dseg_append)
    obtain s2 pv2 where s2: "frame_unlink (Some (of_nat (p + c))) ?s1 = Inr s2" "only_links ?s1 s2"
      "dseg (pfn_descs s2) None (page_desc_free_ll s2) (xs @ ys) pv2 None"
      using frame_unlink_correct [OF seg1 [unfolded bs]] heads_distinct [OF ok] heads_in_range [OF ok] unfolding bs by auto
    have ok1: "blocks_ok (pfn_count s) ((p, c + n) # xs @ ys)"
      using ok far pc(1) unfolding bs by (intro merged_blocks_ok) auto
    have c2: "pfn_count s2 = pfn_count s" using s2(2) by (simp add: only_links_def)
    obtain s' pv' where s': "attach_block p (of_nat (p + (c + n) - 1), s2) = Inr s'" "only_links s2 s'"
      "dseg (pfn_descs s') None (page_desc_free_ll s') ((p, c + n) # xs @ ys) pv' None"
      using attach_block_correct [OF s2(3), of p "c + n"] ok1 unfolding c2 by blast
    have foot': "of_nat (p + c) + of_nat n - 1 = (of_nat (p + (c + n) - 1) :: u32)" using n by (simp add: of_nat_diff)
    have ol: "only_links ?s1 s'" using only_links_trans [OF s2(2) s'(2)] .
    have "\<Union> (pages_of ` set ((p, c + n) # xs @ ys)) = {p..<p + c} \<union> \<Union> (pages_of ` set bs)"
      unfolding bs by (auto simp: pages_of_def)
    then have "fl_inv s' ((p, c + n) # xs @ ys)" by (rule released_inv [OF inv ol s'(3) ok1])
    moreover have "frame_free_phys_pages (Some (of_nat p)) (of_nat c) s = Inr s'"
      unfolding run by (simp only: un s2(1) cnt foot' kbind_simps s'(1) if_True simp_thms)
    moreover have "free_block bs p c = (p, c + n) # xs @ ys" using free_block_merge ok unfolding bs by blast
    ultimately show ?thesis using ol by (auto simp: only_links_def)
  qed
qed

section \<open>Building the list\<close>

text \<open>The descriptors below \<open>i\<close> have been turned into blocks: \<open>bs\<close> lists the runs of unused pages
  below \<open>i\<close>, and when a run ends at \<open>i\<close> then page \<open>i\<close> is not unused.\<close>

definition built :: "pfn_manager_data \<Rightarrow> nat \<Rightarrow> block list \<Rightarrow> bool" where
  "built s i bs \<longleftrightarrow> (\<exists>pv. dseg (pfn_descs s) None (page_desc_free_ll s) bs pv None) \<and> blocks_ok (pfn_count s) bs \<and>
     (\<forall>x\<in>set bs. fst x + snd x \<le> i \<and> (fst x + snd x = i \<longrightarrow> pg_type (pfn_descs s (of_nat i)) \<noteq> PAGETYPE_UNUSED)) \<and>
     (\<forall>p<i. pg_type (pfn_descs s (of_nat p)) = PAGETYPE_UNUSED \<longleftrightarrow> p \<in> \<Union> (pages_of ` set bs))"

lemma skip_used_step:
  assumes "i < unat (pfn_count s)"
  shows "skip_used (of_nat i) s = (if pg_type (pfn_descs s (of_nat i)) \<noteq> PAGETYPE_UNUSED
     then skip_used (of_nat (Suc i)) (s\<lparr>pfn_descs := (pfn_descs s)(of_nat i :=
            (pfn_descs s (of_nat i))\<lparr>pg_count := 0, pg_prev_desc := None, pg_next_desc := None\<rparr>)\<rparr>)
     else (of_nat i, s))"
  using index_less [OF assms] by (subst skip_used.simps) (simp add: add.commute)

lemma skip_used_correct:
  assumes "built s i bs" "i \<le> unat (pfn_count s)"
  shows "\<exists>j s'. skip_used (of_nat i) s = (of_nat j, s') \<and> i \<le> j \<and> j \<le> unat (pfn_count s) \<and> built s' j bs \<and>
    only_links s s' \<and> (j < unat (pfn_count s) \<longrightarrow> pg_type (pfn_descs s (of_nat j)) = PAGETYPE_UNUSED)"
  using assms
proof (induction "unat (pfn_count s) - i" arbitrary: i s)
  case 0
  then have "i = unat (pfn_count s)" by simp
  then have "skip_used (of_nat i) s = (of_nat i, s)" by (subst skip_used.simps) simp
  with 0 show ?case by (intro exI [of _ i] exI [of _ s]) simp
next
  case (Suc k)
  then have i: "i < unat (pfn_count s)" by simp
  show ?case
  proof (cases "pg_type (pfn_descs s (of_nat i)) = PAGETYPE_UNUSED")
    case True
    then have "skip_used (of_nat i) s = (of_nat i, s)" using skip_used_step [OF i] by simp
    with Suc.prems i True show ?thesis by (intro exI [of _ i] exI [of _ s]) simp
  next
    case False
    let ?s = "s\<lparr>pfn_descs := (pfn_descs s)(of_nat i := (pfn_descs s (of_nat i))\<lparr>pg_count := 0, pg_prev_desc := None, pg_next_desc := None\<rparr>)\<rparr>"
    have ol: "only_links s ?s" by (simp add: only_links_def)
    obtain pv where b: "dseg (pfn_descs s) None (page_desc_free_ll s) bs pv None" "blocks_ok (pfn_count s) bs"
      "\<forall>x\<in>set bs. fst x + snd x \<le> i" "\<forall>p<i. pg_type (pfn_descs s (of_nat p)) = PAGETYPE_UNUSED \<longleftrightarrow> p \<in> \<Union> (pages_of ` set bs)"
      using Suc.prems(1) unfolding built_def by blast
    have b3: "fst x < i" "fst x + snd x < Suc i" if "x \<in> set bs" for x
      using b(2,3) that by (fastforce simp: blocks_ok_def)+
    have "of_nat i \<notin> set (heads bs)"
    proof
      assume "of_nat i \<in> set (heads bs)"
      then obtain x where x: "x \<in> set bs" "of_nat i = (of_nat (fst x) :: u32)" unfolding heads_iff by blast
      then have "fst x < i" using b3 by blast
      then show False using x(2) index_inj [OF i, of "fst x"] i by simp
    qed
    then have "dseg (pfn_descs ?s) None (page_desc_free_ll ?s) bs pv None" using b(1) by (simp add: dseg_frame)
    moreover have ty: "pg_type (pfn_descs ?s w) = pg_type (pfn_descs s w)" for w by simp
    moreover have "i \<notin> \<Union> (pages_of ` set bs)" using b(3) by (fastforce simp: pages_of_def)
    ultimately have built: "built ?s (Suc i) bs"
      unfolding built_def using b(2,4) b3 False by (fastforce simp: less_Suc_eq simp del: fun_upd_apply)
    obtain j s' where j: "skip_used (of_nat (Suc i)) ?s = (of_nat j, s')" "Suc i \<le> j" "j \<le> unat (pfn_count ?s)"
      "built s' j bs" "only_links ?s s'" "j < unat (pfn_count ?s) \<longrightarrow> pg_type (pfn_descs ?s (of_nat j)) = PAGETYPE_UNUSED"
    proof -
      have "k = unat (pfn_count ?s) - Suc i" "Suc i \<le> unat (pfn_count ?s)" using Suc.hyps(2) i by simp_all
      from Suc.hyps(1) [OF this(1) built this(2)] that show ?thesis by blast
    qed
    then show ?thesis
      using skip_used_step [OF i] False only_links_trans [OF ol j(5)] j(6) [unfolded ty]
      by (intro exI [of _ j] exI [of _ s']) (simp del: fun_upd_apply)
  qed
qed

lemma run_end_correct:
  assumes "i \<le> unat (pfn_count s)"
  shows "\<exists>j. run_end s (of_nat i) = of_nat j \<and> i \<le> j \<and> j \<le> unat (pfn_count s) \<and>
    (\<forall>p\<in>{i..<j}. pg_type (pfn_descs s (of_nat p)) = PAGETYPE_UNUSED) \<and>
    (j < unat (pfn_count s) \<longrightarrow> pg_type (pfn_descs s (of_nat j)) \<noteq> PAGETYPE_UNUSED)"
  using assms
proof (induction "unat (pfn_count s) - i" arbitrary: i)
  case 0
  then have "i = unat (pfn_count s)" by simp
  then have "run_end s (of_nat i) = of_nat i" by (subst run_end.simps) simp
  with 0 show ?case by (intro exI [of _ i]) simp
next
  case (Suc k)
  then have i: "i < unat (pfn_count s)" by simp
  have step: "run_end s (of_nat i) = (if pg_type (pfn_descs s (of_nat i)) = PAGETYPE_UNUSED then run_end s (of_nat (Suc i)) else of_nat i)"
    using index_less [OF i] by (subst run_end.simps) (simp add: add.commute)
  show ?case
  proof (cases "pg_type (pfn_descs s (of_nat i)) = PAGETYPE_UNUSED")
    case True
    obtain j where j: "run_end s (of_nat (Suc i)) = of_nat j" "Suc i \<le> j" "j \<le> unat (pfn_count s)"
      "\<forall>p\<in>{Suc i..<j}. pg_type (pfn_descs s (of_nat p)) = PAGETYPE_UNUSED"
      "j < unat (pfn_count s) \<longrightarrow> pg_type (pfn_descs s (of_nat j)) \<noteq> PAGETYPE_UNUSED"
    proof -
      have "k = unat (pfn_count s) - Suc i" "Suc i \<le> unat (pfn_count s)" using Suc.hyps(2) i by simp_all
      from Suc.hyps(1) [OF this] that show ?thesis by blast
    qed
    have "{i..<j} = insert i {Suc i..<j}" using j(2) by auto
    with True j step show ?thesis by (intro exI [of _ j]) simp
  next
    case False
    with step i show ?thesis by (intro exI [of _ i]) simp
  qed
qed

lemma built_types:
  assumes "only_links s s'" "built s i bs" "i \<le> j" "dseg (pfn_descs s') None (page_desc_free_ll s') ((i, j - i) # bs) pv None"
    "blocks_ok (pfn_count s) ((i, j - i) # bs)" "\<forall>p\<in>{i..<j}. pg_type (pfn_descs s (of_nat p)) = PAGETYPE_UNUSED"
    "pg_type (pfn_descs s (of_nat j)) \<noteq> PAGETYPE_UNUSED"
  shows "built s' j ((i, j - i) # bs)"
proof -
  have ty: "pg_type (pfn_descs s' w) = pg_type (pfn_descs s w)" for w using assms(1) by (simp add: only_links_def)
  have c: "pfn_count s' = pfn_count s" using assms(1) by (simp add: only_links_def)
  have below: "\<forall>x\<in>set bs. fst x + snd x \<le> j"
    using assms(2,3) unfolding built_def by (auto intro: order_trans)
  have old: "\<forall>p<i. pg_type (pfn_descs s (of_nat p)) = PAGETYPE_UNUSED \<longleftrightarrow> p \<in> \<Union> (pages_of ` set bs)"
    using assms(2) unfolding built_def by blast
  have "pg_type (pfn_descs s (of_nat p)) = PAGETYPE_UNUSED \<longleftrightarrow> p \<in> \<Union> (pages_of ` set ((i, j - i) # bs))" if "p < j" for p
    using old assms(6) that by (cases "p < i") (simp_all add: pages_of_def)
  moreover have "\<forall>x\<in>set ((i, j - i) # bs). fst x + snd x \<le> j" using below assms(3) by simp
  ultimately show ?thesis unfolding built_def c ty using assms(4,5,7) by blast
qed

definition total :: "block list \<Rightarrow> nat" where
  "total bs = sum_list (map snd bs)"

lemma build_free_loop_correct:
  assumes "built s i bs" "i \<le> unat (pfn_count s)" "f = of_nat (total bs)"
    "0 < unat (pfn_count s) \<Longrightarrow> pg_type (pfn_descs s (of_nat (unat (pfn_count s) - 1))) \<noteq> PAGETYPE_UNUSED"
  shows "\<exists>s' bs'. build_free_loop (of_nat i) f s = lret (of_nat (total bs'), s') \<and> built s' (unat (pfn_count s)) bs' \<and> only_links s s'"
  using assms
proof (induction "unat (pfn_count s) - i" arbitrary: i s bs f rule: less_induct)
  case less
  let ?c = "unat (pfn_count s)"
  show ?case
  proof (cases "i < ?c")
    case False
    then have "i = ?c" using less.prems(2) by simp
    then have "build_free_loop (of_nat i) f s = lret (f, s)"
      by (subst build_free_loop.simps) (simp add: pfn_page_count_def)
    with less.prems \<open>i = ?c\<close> show ?thesis by auto
  next
    case True
    obtain j s1 where sk: "skip_used (of_nat i) s = (of_nat j, s1)" "i \<le> j" "j \<le> ?c" "built s1 j bs" "only_links s s1"
      "j < ?c \<longrightarrow> pg_type (pfn_descs s (of_nat j)) = PAGETYPE_UNUSED"
      using skip_used_correct [OF less.prems(1,2)] by blast
    have ol: "pfn_count s1 = pfn_count s" "\<And>w. pg_type (pfn_descs s1 w) = pg_type (pfn_descs s w)"
      using sk(5) by (simp_all add: only_links_def)
    show ?thesis
    proof (cases "j = ?c")
      case True
      then have "build_free_loop (of_nat i) f s = lret (f, s1)"
        using index_less [OF \<open>i < ?c\<close>] sk(1) by (subst build_free_loop.simps) (simp add: pfn_page_count_def ol)
      with less.prems(3) sk(4,5) True show ?thesis by auto
    next
      case False
      then have j: "j < ?c" using sk(3) by simp
      obtain e where e: "run_end s1 (of_nat j) = of_nat e" "j \<le> e" "e \<le> ?c"
        "\<forall>p\<in>{j..<e}. pg_type (pfn_descs s1 (of_nat p)) = PAGETYPE_UNUSED"
        "e < ?c \<longrightarrow> pg_type (pfn_descs s1 (of_nat e)) \<noteq> PAGETYPE_UNUSED"
        using run_end_correct [of j s1] sk(3) unfolding ol(1) by blast
      have unused: "pg_type (pfn_descs s1 (of_nat j)) = PAGETYPE_UNUSED" using sk(6) j ol(2) by simp
      then have je: "j < e" using e(2,5) j by (cases "j = e") auto
      have ec: "e < ?c"
      proof (rule ccontr)
        assume "\<not> e < ?c"
        then have "?c - 1 \<in> {j..<e}" using e(3) j je by auto
        then have "pg_type (pfn_descs s (of_nat (?c - 1))) = PAGETYPE_UNUSED" using e(4) unfolding ol(2) by blast
        then show False using less.prems(4) j by linarith
      qed
      obtain pv where b: "dseg (pfn_descs s1) None (page_desc_free_ll s1) bs pv None" "blocks_ok (pfn_count s) bs"
        "\<forall>x\<in>set bs. fst x + snd x < j"
      proof -
        have "\<forall>x\<in>set bs. fst x + snd x < j"
          using sk(4) unused unfolding built_def by (auto simp: le_less)
        then show ?thesis using that sk(4) unfolding built_def ol(1) by blast
      qed
      have ok: "blocks_ok (pfn_count s) ((j, e - j) # bs)"
        using b(2,3) je ec by (auto simp: blocks_ok_Cons apart_def)
      obtain s2 pv2 where s2: "kbind (desc_upd (Some (of_nat j)) (\<lambda>d. d\<lparr>pg_count := of_nat (e - j)\<rparr>) s1) (\<lambda>s.
          kbind (desc_upd (Some (of_nat (j + (e - j) - 1))) (\<lambda>d. d\<lparr>pg_count := of_nat (e - j)\<rparr>) s) (\<lambda>s. frame_push (Some (of_nat j)) s)) = Inr s2"
        "only_links s1 s2" "dseg (pfn_descs s2) None (page_desc_free_ll s2) ((j, e - j) # bs) pv2 None"
        using frame_attach [OF b(1)] ok unfolding ol(1) by blast
      have ty2: "pg_type (pfn_descs s2 w) = pg_type (pfn_descs s w)" "pfn_count s2 = pfn_count s" for w
        using s2(2) ol by (simp_all add: only_links_def)
      have ne: "pg_type (pfn_descs s1 (of_nat e)) \<noteq> PAGETYPE_UNUSED" using e(5) ec by blast
      have built2: "built s2 e ((j, e - j) # bs)"
        using built_types [OF s2(2) sk(4) e(2) s2(3) _ e(4) ne] ok ol(1) by simp
      have run: "build_free_loop (of_nat i) f s = build_free_loop (of_nat e) (f + of_nat (e - j)) s2"
      proof -
        have d: "(of_nat e :: u32) - of_nat j = of_nat (e - j)" using e(2) by (simp add: of_nat_diff)
        have nz: "(of_nat (e - j) :: u32) \<noteq> 0"
          using unat_index [of "e - j" "pfn_count s"] ec je by (auto simp: word_unat_eq_iff)
        have ft: "of_nat j + of_nat (e - j) - 1 = (of_nat (j + (e - j) - 1) :: u32)" using je by (simp add: of_nat_diff)
        have lt: "of_nat i < pfn_count s" "\<not> pfn_count s1 \<le> of_nat j"
          using index_less [OF \<open>i < ?c\<close>] index_less [OF j] by (simp_all add: ol(1) leD)
        obtain t1 where t1: "desc_upd (Some (of_nat j)) (\<lambda>d. d\<lparr>pg_count := of_nat (e - j)\<rparr>) s1 = Inr t1"
          using s2(1) unfolding kbind_Inr_iff by blast
        obtain t2 where t2: "desc_upd (Some (of_nat (j + (e - j) - 1))) (\<lambda>d. d\<lparr>pg_count := of_nat (e - j)\<rparr>) t1 = Inr t2"
          "frame_push (Some (of_nat j)) t2 = Inr s2"
          using s2(1) unfolding t1 kbind_simps kbind_Inr_iff by blast
        show ?thesis
          by (subst build_free_loop.simps)
            (simp only: lt sk(1) e(1) d nz ft t1 t2 Let_def prod.case pfn_page_count_def if_True if_False lbind_simps)
      qed
      have m1: "unat (pfn_count s2) - e < ?c - i" "e \<le> unat (pfn_count s2)" using ty2(2) je sk(2) ec by simp_all
      have m2: "f + of_nat (e - j) = (of_nat (total ((j, e - j) # bs)) :: u32)"
        using less.prems(3) by (simp add: total_def)
      have m3: "pg_type (pfn_descs s2 (of_nat (unat (pfn_count s2) - 1))) \<noteq> PAGETYPE_UNUSED" if "0 < unat (pfn_count s2)"
        using less.prems(4) that unfolding ty2 by blast
      obtain s' bs' where r: "build_free_loop (of_nat e) (f + of_nat (e - j)) s2 = lret (of_nat (total bs'), s')"
        "built s' (unat (pfn_count s2)) bs'" "only_links s2 s'"
        using less.hyps [OF m1(1) built2 m1(2) m2 m3] by blast
      then show ?thesis
        unfolding run ty2(2) using only_links_trans [OF only_links_trans [OF sk(5) s2(2)] r(3)] by blast
    qed
  qed
qed

end
