(* ===== verification/Frame_Props.thy ===== *)
theory Frame_Props
  imports Frame_Correct
begin

text \<open>
  The promises of the page-frame allocator, and two ways it breaks them: allocation is first
  fit on the list of blocks, release puts a block back and joins it with the block behind
  it, and initialisation lists every run of unused pages. The page after an allocation is
  marked as used as well, and joining a block with the one in front of it makes the list
  cyclic.
\<close>

section \<open>Specification\<close>

text \<open>First fit: the last \<open>r\<close> pages of the first block that has as many.\<close>

fun take_first :: "nat \<Rightarrow> block list \<Rightarrow> (nat \<times> block list) option" where
  "take_first r [] = None"
| "take_first r ((b, n) # bs) =
     (if r \<le> n then Some (b + n - r, shrink (b, n) r @ bs)
      else map_option (\<lambda>(p, bs). (p, (b, n) # bs)) (take_first r bs))"

lemma take_first_None: "take_first r bs = None \<longleftrightarrow> (\<forall>x\<in>set bs. snd x < r)"
  by (induction r bs rule: take_first.induct) auto

lemma take_first_Some:
  "take_first r bs = Some (p, bs') \<Longrightarrow> \<exists>xs b n ys. bs = xs @ (b, n) # ys \<and> (\<forall>x\<in>set xs. snd x < r) \<and> r \<le> n \<and>
     p = b + n - r \<and> bs' = xs @ shrink (b, n) r @ ys"
proof (induction r bs arbitrary: bs' rule: take_first.induct)
  case (2 r b n bs)
  show ?case
  proof (cases "r \<le> n")
    case True
    with 2(2) show ?thesis by (intro exI [of _ "[]"]) auto
  next
    case False
    then obtain bs0 where "take_first r bs = Some (p, bs0)" "bs' = (b, n) # bs0" using 2(2) by auto
    then obtain xs c k ys where "bs = xs @ (c, k) # ys" "\<forall>x\<in>set xs. snd x < r" "r \<le> k"
      "p = c + k - r" "bs' = (b, n) # xs @ shrink (c, k) r @ ys"
      using 2(1) [OF False] by blast
    then show ?thesis using False by (intro exI [of _ "(b, n) # xs"] exI [of _ c] exI [of _ k] exI [of _ ys]) simp
  qed
qed simp

section \<open>Properties\<close>

text \<open>C10. \<^verbatim>\<open>frame_alloc_phys_pages\<close> is first fit: it returns NULL and changes nothing exactly when no
  block of the free list is long enough; otherwise it returns the last pages of the first
  block that is, all of which were unused, and the list loses exactly them. It marks the
  pages it returns as used, and also the page behind them.\<close>

theorem frame_alloc_first_fit:
  assumes inv: "fl_inv s bs" and r: "0 < unat r"
  shows "case take_first (unat r) bs of
      None \<Rightarrow> frame_alloc_phys_pages r s = lret (None, s)
    | Some (p, bs') \<Rightarrow> \<exists>s'. frame_alloc_phys_pages r s = lret (Some (of_nat p), s') \<and> fl_inv s' bs' \<and>
        (\<forall>q\<in>{p..<p + unat r}. pg_type (pfn_descs s (of_nat q)) = PAGETYPE_UNUSED) \<and>
        (\<forall>q<unat (pfn_count s). pg_type (pfn_descs s' (of_nat q)) =
           (if q \<in> {p..p + unat r} then PAGETYPE_USED else pg_type (pfn_descs s (of_nat q))))"
proof -
  obtain pv where seg: "dseg (pfn_descs s) None (page_desc_free_ll s) bs pv None" and ok: "blocks_ok (pfn_count s) bs"
    and types: "\<forall>p<unat (pfn_count s). pg_type (pfn_descs s (of_nat p)) = PAGETYPE_UNUSED \<longleftrightarrow> p \<in> \<Union> (pages_of ` set bs)"
    using inv unfolding fl_inv_def by blast
  show ?thesis
  proof (cases "take_first (unat r) bs")
    case None
    then have "frame_find s r (page_desc_free_ll s) = lret None"
      using frame_find_none [OF seg ok] by (simp add: take_first_None)
    with None show ?thesis by (simp add: frame_alloc_phys_pages_def)
  next
    case (Some pb)
    obtain p bs' where pb: "pb = (p, bs')" by (cases pb)
    obtain xs b n ys where x: "bs = xs @ (b, n) # ys" "\<forall>x\<in>set xs. snd x < unat r" "unat r \<le> n"
      "p = b + n - unat r" "bs' = xs @ shrink (b, n) (unat r) @ ys"
      using take_first_Some [of "unat r" bs p bs'] Some pb by blast
    have "frame_find s r (page_desc_free_ll s) = lret (Some (of_nat b))"
      using frame_find_some [of s xs b n ys pv r] seg ok x by simp
    moreover obtain s' where s': "frame_take (Some (of_nat b)) r s = Inr (Some (of_nat p), s')" "fl_inv s' bs'"
      "\<forall>q<unat (pfn_count s). pg_type (pfn_descs s' (of_nat q)) =
         (if q \<in> {b + n - unat r..b + n} then PAGETYPE_USED else pg_type (pfn_descs s (of_nat q)))"
      using frame_take_correct [of s xs b n ys r] inv r x by auto
    moreover have pn: "p + unat r = b + n" using x(3,4) by simp
    moreover have "\<forall>q\<in>{p..<p + unat r}. pg_type (pfn_descs s (of_nat q)) = PAGETYPE_UNUSED"
    proof
      fix q assume q: "q \<in> {p..<p + unat r}"
      have "b + n < unat (pfn_count s)" using ok by (simp add: x(1) blocks_ok_append blocks_ok_Cons)
      then have "q < unat (pfn_count s)" using q pn by simp
      moreover have "q \<in> pages_of (b, n)" using q pn x(3,4) by (auto simp: pages_of_def)
      ultimately show "pg_type (pfn_descs s (of_nat q)) = PAGETYPE_UNUSED" using types x(1) by auto
    qed
    ultimately show ?thesis unfolding Some pb by (auto simp: frame_alloc_phys_pages_def x(4))
  qed
qed

text \<open>A table of eight pages: page 0 reserved, pages 1 to 3 free, the others used.\<close>

definition blank_page :: page where
  "blank_page = \<lparr>pg_ref_count = 0, pg_flags = 0, pg_type = PAGETYPE_USED, pg_next_desc = None, pg_prev_desc = None, pg_count = 0\<rparr>"

definition eight_pages :: pfn_manager_data where
  "eight_pages = \<lparr>pfn_descs = (\<lambda>i. if i = 1 \<or> i = 3 then blank_page\<lparr>pg_type := PAGETYPE_UNUSED, pg_count := 3\<rparr>
       else if i = 2 then blank_page\<lparr>pg_type := PAGETYPE_UNUSED\<rparr> else blank_page),
     pfn_descs_set = True, pfn_count = 8, pfn_free_count = 3, page_desc_free_ll = Some 1\<rparr>"

lemma all_below_8: "(\<forall>p<8. P p) \<longleftrightarrow> P 0 \<and> P 1 \<and> P 2 \<and> P 3 \<and> P 4 \<and> P 5 \<and> P 6 \<and> P (7 :: nat)"
  by (simp add: numeral_eq_Suc All_less_Suc) blast

lemma eight_pages_inv: "fl_inv eight_pages [(1, 3)]"
  unfolding fl_inv_def eight_pages_def blocks_ok_def
  by (simp add: blank_page_def pages_of_def all_below_8)

theorem frame_alloc_first_fit_witness:
  "\<exists>s'. frame_alloc_phys_pages 2 eight_pages = lret (Some 2, s') \<and> fl_inv s' [(1, 1)] \<and>
     pg_type (pfn_descs s' 2) = PAGETYPE_USED \<and> pg_type (pfn_descs s' 4) = PAGETYPE_USED"
  using frame_alloc_first_fit [OF eight_pages_inv, of 2]
  by (auto simp: shrink_def eight_pages_def all_below_8)

text \<open>C27. Releasing pages that are in use and that end before the last page, with no free page right in front of
  them, returns and keeps the free list well formed: the pages become a block at the head of the list, joined
  with the block that starts right behind them if there is one. The condition on the page in front is needed:
  when the first block of the list ends there, the list becomes cyclic (\<open>frame_free_joins_left_cycle\<close> below).\<close>

theorem frame_free_joins_right:
  assumes "fl_inv s bs" "unat (pfn_count s) \<le> 1048576" "0 < c" "p + c < unat (pfn_count s)"
    "\<forall>q\<in>{p..<p + c}. pg_type (pfn_descs s (of_nat q)) \<noteq> PAGETYPE_UNUSED"
    "0 < p \<Longrightarrow> pg_type (pfn_descs s (of_nat (p - 1))) \<noteq> PAGETYPE_UNUSED"
  shows "\<exists>s'. frame_free_phys_pages (Some (of_nat p)) (of_nat c) s = Inr s' \<and> fl_inv s' (free_block bs p c)"
  using frame_free_correct [OF assms] by blast

theorem frame_free_joins_right_witness:
  "\<exists>s'. frame_free_phys_pages (Some 0) 1 eight_pages = Inr s' \<and> fl_inv s' [(0, 4)]"
  using frame_free_joins_right [OF eight_pages_inv, of 1 0]
  by (simp add: eight_pages_def blank_page_def free_block_def)

lemma total_card: "blocks_ok c bs \<Longrightarrow> total bs = card (\<Union> (pages_of ` set bs))"
proof (induction bs)
  case (Cons x bs)
  have "pages_of x \<inter> \<Union> (pages_of ` set bs) = {}"
    using Cons.prems by (fastforce simp: blocks_ok_Cons pages_of_def apart_def)
  moreover have "finite (\<Union> (pages_of ` set bs))" "finite (pages_of x)" by (auto simp: pages_of_def)
  ultimately have "card (\<Union> (pages_of ` set (x # bs))) = card (pages_of x) + card (\<Union> (pages_of ` set bs))"
    by (simp add: card_Un_disjoint)
  with Cons show ?case by (simp add: total_def pages_of_def blocks_ok_Cons)
qed (simp add: total_def)

text \<open>C32. \<^verbatim>\<open>build_free_list\<close> returns, for descriptors whose unused pages have no references and whose
  last page is not unused: the free list then lists exactly the maximal runs of unused pages,
  and the number returned is the number of unused pages.\<close>

theorem build_free_list_lists_runs:
  assumes "\<forall>p<unat (pfn_count s). pg_type (pfn_descs s (of_nat p)) = PAGETYPE_UNUSED \<longrightarrow> pg_ref_count (pfn_descs s (of_nat p)) = 0"
    "0 < unat (pfn_count s) \<Longrightarrow> pg_type (pfn_descs s (of_nat (unat (pfn_count s) - 1))) \<noteq> PAGETYPE_UNUSED"
  shows "\<exists>s' bs. build_free_list s =
      lret (of_nat (card {p. p < unat (pfn_count s) \<and> pg_type (pfn_descs s (of_nat p)) = PAGETYPE_UNUSED}), s') \<and>
    fl_inv s' bs \<and> (\<forall>i. pg_type (pfn_descs s' i) = pg_type (pfn_descs s i))"
proof -
  let ?s0 = "s\<lparr>page_desc_free_ll := None\<rparr>"
  have "built ?s0 0 []" by (simp add: built_def)
  then obtain s' bs where r: "build_free_loop (of_nat 0) 0 ?s0 = lret (of_nat (total bs), s')"
    "built s' (unat (pfn_count ?s0)) bs" "only_links ?s0 s'"
    using build_free_loop_correct [of ?s0 0 "[]" 0] assms(2) by (auto simp: total_def)
  have ol: "pfn_count s' = pfn_count s" "\<And>i. pg_type (pfn_descs s' i) = pg_type (pfn_descs s i)"
    "\<And>i. pg_ref_count (pfn_descs s' i) = pg_ref_count (pfn_descs s i)"
    using r(3) by (simp_all add: only_links_def)
  obtain pv where b: "dseg (pfn_descs s') None (page_desc_free_ll s') bs pv None" "blocks_ok (pfn_count s) bs"
    "\<forall>p<unat (pfn_count s). pg_type (pfn_descs s (of_nat p)) = PAGETYPE_UNUSED \<longleftrightarrow> p \<in> \<Union> (pages_of ` set bs)"
    using r(2) unfolding built_def ol by auto
  have "fl_inv s' bs" unfolding fl_inv_def ol using b assms(1) by blast
  moreover have "\<Union> (pages_of ` set bs) = {p. p < unat (pfn_count s) \<and> pg_type (pfn_descs s (of_nat p)) = PAGETYPE_UNUSED}"
  proof -
    have "p < unat (pfn_count s)" if "p \<in> \<Union> (pages_of ` set bs)" for p
      using that b(2) by (fastforce simp: blocks_ok_def pages_of_def)
    then show ?thesis using b(3) by blast
  qed
  then have "total bs = card {p. p < unat (pfn_count s) \<and> pg_type (pfn_descs s (of_nat p)) = PAGETYPE_UNUSED}"
    using total_card [OF b(2)] by simp
  ultimately show ?thesis using r(1) ol(2) by (auto simp: build_free_list_def)
qed

theorem build_free_list_lists_runs_witness:
  "\<exists>s' bs. build_free_list eight_pages = lret (3, s') \<and> fl_inv s' bs \<and>
     (\<forall>i. pg_type (pfn_descs s' i) = pg_type (pfn_descs eight_pages i))"
proof -
  have "{p. p < unat (pfn_count eight_pages) \<and> pg_type (pfn_descs eight_pages (of_nat p)) = PAGETYPE_UNUSED} = {1, 2, 3}"
  proof -
    have "(p < 8 \<and> pg_type (pfn_descs eight_pages (of_nat p)) = PAGETYPE_UNUSED) = (p \<in> {1, 2, 3})" for p
    proof (cases "p < 8")
      case True
      then have "p \<in> {0, 1, 2, 3, 4, 5, 6, 7}" by auto
      then show ?thesis by (auto simp: eight_pages_def blank_page_def)
    qed auto
    then show ?thesis by (auto simp: eight_pages_def)
  qed
  moreover have "card {1, 2, 3 :: nat} = 3" by simp
  moreover have "\<forall>p<unat (pfn_count eight_pages). pg_type (pfn_descs eight_pages (of_nat p)) = PAGETYPE_UNUSED \<longrightarrow>
      pg_ref_count (pfn_descs eight_pages (of_nat p)) = 0"
    "pg_type (pfn_descs eight_pages (of_nat (unat (pfn_count eight_pages) - 1))) \<noteq> PAGETYPE_UNUSED"
    by (simp_all add: eight_pages_def blank_page_def all_below_8)
  ultimately have "\<exists>s' bs. build_free_list eight_pages = lret (of_nat 3, s') \<and> fl_inv s' bs \<and>
      (\<forall>i. pg_type (pfn_descs s' i) = pg_type (pfn_descs eight_pages i))"
    using build_free_list_lists_runs [of eight_pages] by (simp only: simp_thms)
  then show ?thesis by simp
qed

text \<open>A walk over a block that links to itself and is too short never ends.\<close>

lemma frame_find_self_loop:
  assumes "h < pfn_count s" "pg_next_desc (pfn_descs s h) = Some h" "pg_count (pfn_descs s h) < r"
  shows "frame_find s r (Some h) = None"
proof (rule ccontr)
  assume "frame_find s r (Some h) \<noteq> None"
  then obtain y where "frame_find s r (Some h) = Some y" by blast
  moreover have "frame_find t k it = Some z \<Longrightarrow> \<not> (t = s \<and> k = r \<and> it = Some h)" for t k it z
    by (erule frame_find.raw_induct [rotated, where P = "\<lambda>t k it z. \<not> (t = s \<and> k = r \<and> it = Some h)"])
      (use assms in \<open>fastforce simp: desc_at_Some\<close>)
  ultimately show False by blast
qed

text \<open>Releasing the page right behind the first block of the list does not take that block out of
  the list before putting the joined block in front: its head becomes its own successor, and
  a later request for more pages than it has follows the list forever.\<close>

theorem frame_free_joins_left_cycle:
  assumes inv: "fl_inv s ((b, n) # bs)" and size: "unat (pfn_count s) \<le> 1048576"
    and foot: "pg_count (pfn_descs s (of_nat (b + n - 1))) = of_nat n"
    and page: "b + n + 1 < unat (pfn_count s)" "pg_type (pfn_descs s (of_nat (b + n + 1))) \<noteq> PAGETYPE_UNUSED"
    and r: "n + 1 < unat r"
  shows "\<exists>s'. frame_free_phys_pages (Some (of_nat (b + n))) 1 s = Inr s' \<and>
    pg_next_desc (pfn_descs s' (of_nat b)) = Some (of_nat b) \<and> frame_alloc_phys_pages r s' = None"
proof -
  let ?p = "b + n"
  let ?s1 = "released {?p..<?p + 1} s"
  obtain pv where seg: "dseg (pfn_descs s) None (page_desc_free_ll s) ((b, n) # bs) pv None"
    and ok: "blocks_ok (pfn_count s) ((b, n) # bs)"
    and types: "\<forall>p<unat (pfn_count s). pg_type (pfn_descs s (of_nat p)) = PAGETYPE_UNUSED \<longleftrightarrow> p \<in> \<Union> (pages_of ` set ((b, n) # bs))"
    using inv unfolding fl_inv_def by blast
  have n: "0 < n" using ok by (simp add: blocks_ok_Cons)
  have ll: "page_desc_free_ll s = Some (of_nat b)" using seg by simp
  have addr: "PAGE_SIZE * of_nat ?p = page_addr ?p" "page_addr ?p + 1 * PAGE_SIZE = page_addr (?p + 1)"
    by (simp_all add: page_addr_def PAGE_SIZE_def)
  have idx: "page_addr q div PAGE_SIZE = of_nat q" if "q < 1048576" for q
    using that by (simp add: word_unat_eq_iff unat_div_distrib unat_page_addr unat_of_nat)
  have ib: "page_addr ?p div PAGE_SIZE = of_nat ?p" "page_addr (?p + 1) div PAGE_SIZE = of_nat (?p + 1)"
    using idx page(1) size by simp_all
  have lt: "(of_nat q :: u32) < pfn_count s" if "q \<le> ?p + 1" for q using that page(1) index_less [of q "pfn_count s"] by simp
  have 1: "\<not> pfn_count s \<le> of_nat ?p" "\<not> pfn_count s < of_nat (?p + 1)"
    using lt [of ?p] lt [of "?p + 1"] by (simp_all add: leD less_imp_le not_le del: of_nat_add)
  have 2: "pfn_mark_pages (of_nat ?p) (of_nat (?p + 1)) PAGETYPE_UNUSED 0 0 s = Inr ?s1"
    using page(1) by (intro pfn_mark_pages_released) simp
  have e: "(of_nat ?p :: u32) - 1 = of_nat (?p - 1)" "(of_nat (?p + 1) :: u32) - 1 = of_nat ?p"
    "(of_nat ?p :: u32) - of_nat n = of_nat b" "(of_nat ?p :: u32) - of_nat b + 1 = of_nat (n + 1)"
    using n by (simp_all add: of_nat_diff)
  have gt: "0 < (of_nat ?p :: u32)" using unat_index [of ?p "pfn_count s"] page(1) n by (simp add: word_less_nat_alt)
  have u: "unat (of_nat q :: u32) = q" if "q \<le> ?p + 1" for q using that page(1) unat_index [of q "pfn_count s"] by simp
  have left: "desc_at ?s1 (Some (of_nat (?p - 1))) = Inr (pfn_descs s (of_nat (?p - 1)))"
    using lt [of "?p - 1"] u [of "?p - 1"] n by (simp add: desc_at_Some released_def)
  have lu: "pg_type (pfn_descs s (of_nat (?p - 1))) = PAGETYPE_UNUSED"
  proof -
    have "?p - 1 \<in> pages_of (b, n)" "?p - 1 < unat (pfn_count s)" using n page(1) by (auto simp: pages_of_def)
    then show ?thesis using types by simp
  qed
  have right: "desc_at ?s1 (Some (of_nat (?p + 1))) = Inr (pfn_descs s (of_nat (?p + 1)))"
    using lt [of "?p + 1"] u [of "?p + 1"] by (simp add: desc_at_Some released_def del: of_nat_add of_nat_Suc)
  let ?h = "of_nat b :: u32"
  have run: "frame_free_phys_pages (Some (of_nat ?p)) 1 s =
      kbind (desc_upd (Some ?h) (\<lambda>d. d\<lparr>pg_count := of_nat (n + 1)\<rparr>) ?s1) (\<lambda>s.
      kbind (desc_upd (Some (of_nat ?p)) (\<lambda>d. d\<lparr>pg_count := of_nat (n + 1)\<rparr>) s) (\<lambda>s. frame_push (Some ?h) s))"
    unfolding frame_free_phys_pages_def pfn_to_pa_def get_pfn_index_def option.case kbind_simps Let_def addr ib pfn_page_count_def
    by (simp only: 1 2 e gt left lu right page(2) foot lt [OF order_refl] if_False if_True kbind_simps page_index_to_pfn_def prod.case simp_thms)
  have hp: "?h \<noteq> of_nat ?p" using u [of b] u [of ?p] n by (metis le_add1 trans_le_add1 less_add_same_cancel1 nat_less_le)
  have hl: "?h < pfn_count s" "of_nat ?p < pfn_count s" using lt [of b] lt [of ?p] by simp_all
  obtain s' where s': "frame_free_phys_pages (Some (of_nat ?p)) 1 s = Inr s'" "pfn_count s' = pfn_count s"
    "page_desc_free_ll s' = Some ?h" "pg_next_desc (pfn_descs s' ?h) = Some ?h" "pg_count (pfn_descs s' ?h) = of_nat (n + 1)"
    using hl hp ll unfolding run frame_push_def by (simp add: desc_upd_Some)
  have "(of_nat (n + 1) :: u32) < r" using u [of "n + 1"] r n by (cases b) (simp_all add: word_less_nat_alt)
  then have "frame_find s' r (Some ?h) = None" using s' hl by (intro frame_find_self_loop) simp_all
  then show ?thesis using s' by (intro exI [of _ s']) (simp add: frame_alloc_phys_pages_def)
qed

theorem frame_free_joins_left_cycle_witness:
  "\<exists>s'. frame_free_phys_pages (Some 4) 1 eight_pages = Inr s' \<and>
     pg_next_desc (pfn_descs s' 1) = Some 1 \<and> frame_alloc_phys_pages 5 s' = None"
  using frame_free_joins_left_cycle [OF eight_pages_inv, of 5] by (simp add: eight_pages_def blank_page_def)

end
