(* ===== verification/Memory_Manager.thy ===== *)
theory Memory_Manager
  imports Bitmap_Alloc Paging_Correct Frame_Props
begin

text \<open>
  The memory manager of \<^verbatim>\<open>kernel/memory/core/memory_manager.c\<close>, the boot-time part of
  \<^verbatim>\<open>kernel/memory/core/pfn_handler.c\<close> (early mappings, the bump allocator, the descriptor table),
  the initialisation of the frame allocator and \<^verbatim>\<open>kernel/memory/core/init.c\<close> up to it. The
  state is the physical memory, the two page allocators, which of them is in use, and the
  bump allocator. The page directory's address \<open>cr3\<close> and the linker symbols are arguments.
\<close>

section \<open>Definitions\<close>

datatype mm_alloc_type = ALLOC_NONE | ALLOC_BITMAP | ALLOC_FRAME

record mm_state =
  mm_type :: mm_alloc_type
  mm_bitmap :: bitmap
  mm_pfn :: pfn_manager_data

definition mm_ensure_memory :: "usize_ptr \<Rightarrow> mm_state \<Rightarrow> unit kres" where
  "mm_ensure_memory count s = kassert (pfn_page_free_count (mm_pfn s) > count)"

definition mm_reclaim_memory :: "usize_ptr \<Rightarrow> mm_state \<Rightarrow> unit kres" where
  "mm_reclaim_memory count s = kassert (pfn_page_free_count (mm_pfn s) > count)"

definition mm_set_allocator_type :: "mm_alloc_type \<Rightarrow> mm_state \<Rightarrow> mm_state" where
  "mm_set_allocator_type new_alloc_type s = s\<lparr>mm_type := new_alloc_type\<rparr>"

definition mm_alloc_pagetable :: "mm_state \<Rightarrow> (u32 \<times> mm_state) kloop" where
  "mm_alloc_pagetable s =
     (case mm_type s of
        ALLOC_BITMAP \<Rightarrow> lbind (Some (bitmap_alloc_page (mm_bitmap s))) (\<lambda>(pa, b). lret (pa, s\<lparr>mm_bitmap := b\<rparr>))
      | ALLOC_FRAME \<Rightarrow> lbind (frame_alloc_phys_pages 1 (mm_pfn s)) (\<lambda>(desc, p).
                        lbind (Some (pfn_to_pa desc)) (\<lambda>pa. lret (pa, s\<lparr>mm_pfn := p\<rparr>)))
      | ALLOC_NONE \<Rightarrow> Some (Inl Aborted))"

definition mm_alloc_pages :: "usize_ptr \<Rightarrow> pfn_manager_data \<Rightarrow> (page_ptr \<times> pfn_manager_data) kloop" where
  "mm_alloc_pages count s =
     lbind (frame_alloc_phys_pages count s) (\<lambda>(result, s).
     lbind (Some (kfor (\<lambda>i s. kbind (desc_at s (desc_add result i)) (\<lambda>d.
                    kbind (kassert (pg_type d = PAGETYPE_USED)) (\<lambda>_.
                    desc_upd (desc_add result i) (\<lambda>d. d\<lparr>pg_ref_count := 1\<rparr>) s)))
                  [0..<unat count] s))
       (\<lambda>s. lret (result, s)))"

definition mm_get_page :: "page_ptr \<Rightarrow> pfn_manager_data \<Rightarrow> pfn_manager_data kres" where
  "mm_get_page desc s =
     kbind (desc_at s desc) (\<lambda>d.
     kbind (kassert (pg_type d \<noteq> PAGETYPE_UNUSED)) (\<lambda>_.
     kbind (kassert (pg_ref_count d \<noteq> 0)) (\<lambda>_.
     desc_upd desc (\<lambda>d. d\<lparr>pg_ref_count := pg_ref_count d + 1\<rparr>) s)))"

definition mm_put_page :: "page_ptr \<Rightarrow> pfn_manager_data \<Rightarrow> pfn_manager_data kres" where
  "mm_put_page desc s =
     kbind (desc_at s desc) (\<lambda>d.
     kbind (kassert (pg_ref_count d \<noteq> 0)) (\<lambda>_.
     kbind (desc_upd desc (\<lambda>d. d\<lparr>pg_ref_count := pg_ref_count d - 1\<rparr>) s) (\<lambda>s.
     if pg_ref_count d - 1 = 0 then frame_free_phys_pages desc 1 s else Inr s)))"

definition mm_get_range :: "page_ptr \<Rightarrow> usize_ptr \<Rightarrow> pfn_manager_data \<Rightarrow> pfn_manager_data kres" where
  "mm_get_range begin_desc count =
     kfor (\<lambda>i s. kbind (kassert (desc_add begin_desc i \<noteq> None)) (\<lambda>_.
                kbind (desc_at s (desc_add begin_desc i)) (\<lambda>d.
                kbind (kassert (pg_ref_count d \<noteq> 0)) (\<lambda>_.
                desc_upd (desc_add begin_desc i) (\<lambda>d. d\<lparr>pg_ref_count := pg_ref_count d + 1\<rparr>) s))))
       [0..<unat count]"

definition mm_put_range :: "page_ptr \<Rightarrow> usize_ptr \<Rightarrow> pfn_manager_data \<Rightarrow> pfn_manager_data kres" where
  "mm_put_range begin_desc count =
     kfor (\<lambda>i s. kbind (kassert (desc_add begin_desc i \<noteq> None)) (\<lambda>_. mm_put_page (desc_add begin_desc i) s))
       [0..<unat count]"

subsection \<open>Early mappings and the bump allocator\<close>

record bump_vars =
  bump_max_addr :: usize_ptr
  bump_alloc_addr :: usize_ptr
  bump_begin_addr :: usize_ptr

record early_state =
  es_mem :: phys_mem
  es_mm :: mm_state
  es_bump :: bump_vars

text \<open>Mapping pages with the current page-table allocator.\<close>

definition es_map_pages :: "u32 \<Rightarrow> u32 \<Rightarrow> u32 \<Rightarrow> u32 \<Rightarrow> u16 \<Rightarrow> early_state \<Rightarrow> (bool \<times> early_state) kloop" where
  "es_map_pages cr3 pa va count paging_flags s =
     lbind (paging_map_pages mm_alloc_pagetable cr3 pa va count paging_flags (es_mem s, es_mm s))
       (\<lambda>(b, m, mm). lret (b, s\<lparr>es_mem := m, es_mm := mm\<rparr>))"

partial_function (option) early_alloc_loop ::
  "u32 \<Rightarrow> u32 \<Rightarrow> u16 \<Rightarrow> u32 \<Rightarrow> u32 \<Rightarrow> early_state \<Rightarrow> (usize_ptr \<times> early_state) kloop" where
  "early_alloc_loop cr3 page_total paging_flags mapped cur_va s =
     (if mapped < page_total
      then lbind (Some (bitmap_alloc_pages (page_total - mapped) (mm_bitmap (es_mm s)))) (\<lambda>(phys_run, b).
           let s = s\<lparr>es_mm := (es_mm s)\<lparr>mm_bitmap := b\<rparr>\<rparr>
           in if pa_count phys_run = 0 then Some (Inl Aborted)
              else lbind (es_map_pages cr3 (pa_addr phys_run) cur_va (pa_count phys_run) paging_flags s) (\<lambda>(_, s).
                   early_alloc_loop cr3 page_total paging_flags (mapped + pa_count phys_run)
                     (cur_va + pa_count phys_run * PAGE_SIZE) s))
      else lret (mapped, s))"

declare early_alloc_loop.simps [code]

definition early_alloc_and_map :: "u32 \<Rightarrow> u32 \<Rightarrow> u32 \<Rightarrow> u16 \<Rightarrow> early_state \<Rightarrow> (usize_ptr \<times> early_state) kloop" where
  "early_alloc_and_map cr3 start_va page_total paging_flags = early_alloc_loop cr3 page_total paging_flags 0 start_va"

definition bump_alloc_align :: "u32 \<Rightarrow> usize_ptr \<Rightarrow> usize_ptr \<Rightarrow> early_state \<Rightarrow> (u32 \<times> early_state) kloop" where
  "bump_alloc_align cr3 size_bytes alignment s =
     (let alignment = (if alignment < 4 then 4 else alignment);
          alignment = align_up_pow2 alignment;
          bump = es_bump s;
          aligned_addr = (bump_alloc_addr bump + alignment - 1) AND NOT (alignment - 1)
      in if aligned_addr > 0xFFFFFFFF - size_bytes then Some (Inl Aborted)
         else let needed_end = aligned_addr + size_bytes
              in lbind (if needed_end > bump_max_addr bump
                        then let new_max = round_page_up needed_end; delta = new_max - bump_max_addr bump
                             in lbind (early_alloc_and_map cr3 (bump_max_addr bump) (delta div PAGE_SIZE)
                                         (PAGING_FLAG_WRITE OR PAGING_FLAG_READ) s) (\<lambda>(mapped, s).
                                lbind (lassert (mapped \<noteq> 0)) (\<lambda>_.
                                lret (s\<lparr>es_bump := (es_bump s)\<lparr>bump_max_addr := new_max\<rparr>\<rparr>)))
                        else lret s) (\<lambda>s.
                 lret (aligned_addr, s\<lparr>es_bump := (es_bump s)\<lparr>bump_alloc_addr := aligned_addr + size_bytes\<rparr>\<rparr>)))"

definition INIT_SIZE :: u32 where
  "INIT_SIZE = 0x4000"

definition init_bump :: "u32 \<Rightarrow> u32 \<Rightarrow> early_state \<Rightarrow> early_state kloop" where
  "init_bump cr3 begin_addr_va s =
     (let pages_count = round_page_up INIT_SIZE div PAGE_SIZE
      in lbind (early_alloc_and_map cr3 begin_addr_va pages_count (PAGING_FLAG_WRITE OR PAGING_FLAG_READ) s) (\<lambda>(mapped, s).
         lbind (lassert (mapped \<noteq> 0)) (\<lambda>_.
         lret (s\<lparr>es_bump := \<lparr>bump_max_addr = begin_addr_va + pages_count * PAGE_SIZE,
                            bump_alloc_addr = begin_addr_va, bump_begin_addr = begin_addr_va\<rparr>\<rparr>))))"

subsection \<open>The descriptor table\<close>

definition es_pfn :: "(pfn_manager_data \<Rightarrow> pfn_manager_data kres) \<Rightarrow> early_state \<Rightarrow> early_state kloop" where
  "es_pfn f s = lbind (Some (f (mm_pfn (es_mm s)))) (\<lambda>p. lret (s\<lparr>es_mm := (es_mm s)\<lparr>mm_pfn := p\<rparr>\<rparr>))"

text \<open>\<^verbatim>\<open>mark_range\<close> for its effect only.\<close>

definition mark_range_only :: "u32 \<Rightarrow> u32 \<Rightarrow> phys_page_type \<Rightarrow> u32 \<Rightarrow> u16 \<Rightarrow> pfn_manager_data \<Rightarrow> pfn_manager_data kres" where
  "mark_range_only start_pa end_pa type ref_count flags p =
     kbind (mark_range start_pa end_pa type ref_count flags p) (\<lambda>(_, p). Inr p)"

definition init_phys_pages ::
  "u32 \<Rightarrow> mem \<Rightarrow> multiboot_info \<Rightarrow> u32 \<Rightarrow> u32 \<Rightarrow> u32 \<Rightarrow> early_state \<Rightarrow> early_state kloop" where
  "init_phys_pages cr3 bm boot_data kernel_begin_pa kernel_end_pa page_directory s =
     lbind (es_pfn (mark_range_only 0 ((pfn_count (mm_pfn (es_mm s)) - 1) * PAGE_SIZE) PAGETYPE_RESERVED 1 0) s) (\<lambda>s.
     lbind (boot_foreach_free_page_region (\<lambda>a b. es_pfn (mark_range_usable a b)) bm boot_data s) (\<lambda>s.
     lbind (boot_foreach_reserved_region (\<lambda>a b. es_pfn (mark_range_reserved a b)) bm boot_data s) (\<lambda>s.
     lbind (es_pfn (mark_range_only (round_page_down kernel_begin_pa) (round_page_down kernel_end_pa) PAGETYPE_KERNELIMG 1 0) s) (\<lambda>s.
     lbind (Some (virt_to_phys cr3 (bump_begin_addr (es_bump s)) (es_mem s))) (\<lambda>begin_pa.
     lbind (Some (virt_to_phys cr3 (bump_alloc_addr (es_bump s) - PAGE_SIZE) (es_mem s))) (\<lambda>end_pa.
     lbind (es_pfn (mark_range_only (round_page_down begin_pa) (round_page_down end_pa) PAGETYPE_PFN 1 0) s) (\<lambda>s.
     es_pfn (boot_foreach_page_struct cr3 (es_mem s) page_directory mark_page_structure) s)))))))"

definition reserve_map_page_region :: "u32 \<Rightarrow> u32 \<Rightarrow> u32 \<Rightarrow> early_state \<Rightarrow> early_state kloop" where
  "reserve_map_page_region cr3 begin_pa end_pa s =
     (let paging_flags = PAGING_FLAG_WRITE OR PAGING_FLAG_PRESENT
      in lbind (paging_map_identity mm_alloc_pagetable cr3 begin_pa ((end_pa - begin_pa) div PAGE_SIZE) paging_flags
                  (es_mem s, es_mm s)) (\<lambda>(m, mm).
         es_pfn (pfn_mark_range begin_pa ((end_pa - begin_pa) div PAGE_SIZE) PAGETYPE_RESERVED paging_flags)
           (s\<lparr>es_mem := m, es_mm := mm\<rparr>)))"

definition init_frame_allocator :: "u32 \<Rightarrow> mem \<Rightarrow> multiboot_info \<Rightarrow> early_state \<Rightarrow> (usize_ptr \<times> early_state) kloop" where
  "init_frame_allocator cr3 bm boot_data s =
     lbind (es_pfn (\<lambda>p. Inr (p\<lparr>page_desc_free_ll := None\<rparr>)) s) (\<lambda>s.
     lbind (boot_foreach_reserved_region (reserve_map_page_region cr3) bm boot_data s) (\<lambda>s.
     lbind (build_free_list (mm_pfn (es_mm s))) (\<lambda>(free_count, p).
     lret (free_count, s\<lparr>es_mm := (es_mm s)\<lparr>mm_pfn := p\<rparr>\<rparr>))))"

definition null_page :: page where
  "null_page = \<lparr>pg_ref_count = 0, pg_flags = 0, pg_type = PAGETYPE_NONE, pg_next_desc = None, pg_prev_desc = None, pg_count = 0\<rparr>"

text \<open>\<open>sizeof_page\<close> is the size of a descriptor; the first component of the result is the new
  value of \<^verbatim>\<open>*alloc_addr\<close>.\<close>

definition init_pfn_descriptors ::
  "u32 \<Rightarrow> u32 \<Rightarrow> mem \<Rightarrow> multiboot_info \<Rightarrow> usize_ptr \<Rightarrow> u32 \<Rightarrow> u32 \<Rightarrow> u32 \<Rightarrow> u32 \<Rightarrow> early_state \<Rightarrow> (u32 \<times> early_state) kloop" where
  "init_pfn_descriptors sizeof_page cr3 bm boot_data max_memory kernel_begin_pa kernel_end_pa page_directory alloc_addr s =
     lbind (es_pfn (\<lambda>p. Inr (pfn_reset_free (p\<lparr>pfn_count := 0, pfn_descs_set := False\<rparr>))) s) (\<lambda>s.
     lbind (init_bump cr3 alloc_addr s) (\<lambda>s.
     let count = max_memory div PAGE_SIZE
     in lbind (bump_alloc_align cr3 (count * sizeof_page) 0 s) (\<lambda>(descs, s).
        lbind (es_pfn (\<lambda>p. Inr (p\<lparr>pfn_count := count, pfn_descs_set := True, pfn_descs := (\<lambda>_. null_page)\<rparr>)) s) (\<lambda>s.
        lbind (init_phys_pages cr3 bm boot_data kernel_begin_pa kernel_end_pa page_directory s) (\<lambda>s.
        lbind (init_frame_allocator cr3 bm boot_data s) (\<lambda>(free_count, s).
        lbind (es_pfn (\<lambda>p. Inr (p\<lparr>pfn_free_count := free_count\<rparr>)) s) (\<lambda>s.
        lret (bump_alloc_addr (es_bump s), s))))))))"

section \<open>The bitmap allocator as a supply of table frames\<close>

definition bitmap_phase :: "mm_state \<Rightarrow> bool" where
  "bitmap_phase s \<longleftrightarrow> mm_type s = ALLOC_BITMAP \<and> unat (bm_last_free_group_index (mm_bitmap s)) \<le> 65536 \<and>
     \<not> page_free (mm_bitmap s) 0"

definition bitmap_frames :: "mm_state \<Rightarrow> u32 set" where
  "bitmap_frames s = page_addr ` {p. 8 * unat (bm_last_free_group_index (mm_bitmap s)) \<le> p \<and> page_free (mm_bitmap s) p}"

lemma page_addr_low_bits: "p < 1048576 \<Longrightarrow> page_addr p AND 0xFFF = 0"
proof -
  assume "p < 1048576"
  then have "unat (page_addr p AND (2 ^ 12 - 1)) = 0" unfolding unat_and_pow2_mask by (simp add: unat_page_addr)
  then show ?thesis by (simp add: unat_eq_zero)
qed

lemma page_addr_inj: "p < 1048576 \<Longrightarrow> q < 1048576 \<Longrightarrow> page_addr p = page_addr q \<longleftrightarrow> p = q"
  by (metis page_no_page_addr)

lemma page_addr_nonzero: "p < 1048576 \<Longrightarrow> p \<noteq> 0 \<Longrightarrow> page_addr p \<noteq> 0"
  using page_addr_inj [of p 0] by (simp add: page_addr_def)

lemma free_page_lt: "page_free b p \<Longrightarrow> p < 1048576"
  using page_free_lt [of b p] by simp

lemma bitmap_frames_aligned:
  "bitmap_phase s \<Longrightarrow> f \<in> bitmap_frames s \<Longrightarrow> f \<noteq> 0 \<and> f AND 0xFFF = 0"
  unfolding bitmap_frames_def bitmap_phase_def
  by (auto simp: page_addr_low_bits free_page_lt) (metis free_page_lt page_addr_nonzero)

lemma bitmap_supply_some:
  assumes "bitmap_phase s" "bitmap_frames s \<noteq> {}"
  shows "\<exists>f s'. mm_alloc_pagetable s = lret (f, s') \<and> f \<in> bitmap_frames s \<and> bitmap_phase s' \<and>
    bitmap_frames s' = bitmap_frames s - {f}"
proof -
  let ?b = "mm_bitmap s"
  let ?h = "8 * unat (bm_last_free_group_index ?b)"
  have t: "mm_type s = ALLOC_BITMAP" and h: "unat (bm_last_free_group_index ?b) \<le> 65536" and z: "\<not> page_free ?b 0"
    using assms(1) by (simp_all add: bitmap_phase_def)
  have "\<not> (\<forall>p\<ge>?h. \<not> page_free ?b p)" using assms(2) unfolding bitmap_frames_def by blast
  then obtain p n where r: "bitmap_alloc_pages 1 ?b =
        Inr (\<lparr>pa_addr = page_addr p, pa_count = of_nat n\<rparr>, fold (mark_page False) [p..<p + n] ?b)"
      "?h \<le> p" "0 < n" "n \<le> 1" "\<forall>q\<in>{p..<p + n}. page_free ?b q"
    using bitmap_alloc_pages_run [of 1 ?b, OF _ h] by auto
  then have n: "n = 1" by simp
  have p: "page_free ?b p" using r(5) n by simp
  let ?s = "s\<lparr>mm_bitmap := mark_page False p ?b\<rparr>"
  have run: "mm_alloc_pagetable s = lret (page_addr p, ?s)"
    using r(1) n by (simp add: mm_alloc_pagetable_def t bitmap_alloc_page_def)
  have free: "page_free (mark_page False p ?b) q \<longleftrightarrow> page_free ?b q \<and> q \<noteq> p" for q
    using page_free_mark [OF page_free_lt [OF p]] by auto
  have "bitmap_frames ?s = bitmap_frames s - {page_addr p}"
    unfolding bitmap_frames_def using free free_page_lt page_addr_inj [OF _ free_page_lt [OF p]] by auto
  moreover have "page_addr p \<in> bitmap_frames s" unfolding bitmap_frames_def using p r(2) by blast
  moreover have "bitmap_phase ?s" using t h z free by (simp add: bitmap_phase_def)
  ultimately show ?thesis using run by blast
qed

lemma bitmap_supply_none:
  assumes "bitmap_phase s" "bitmap_frames s = {}"
  shows "mm_alloc_pagetable s = lret (NULL, s)"
proof -
  let ?b = "mm_bitmap s"
  have t: "mm_type s = ALLOC_BITMAP" and h: "unat (bm_last_free_group_index ?b) \<le> 65536"
    using assms(1) by (simp_all add: bitmap_phase_def)
  have none: "\<not> page_free ?b p" if "8 * unat (bm_last_free_group_index ?b) \<le> p" for p
    using assms(2) that unfolding bitmap_frames_def by blast
  then have "bitmap_alloc_pages 1 ?b = Inr (\<lparr>pa_addr = 0, pa_count = 0\<rparr>, ?b)"
    using bitmap_alloc_pages_run [of 1 ?b, OF _ h] by fastforce
  then show ?thesis by (simp add: mm_alloc_pagetable_def t bitmap_alloc_page_def)
qed

interpretation bms: frame_supply bitmap_phase bitmap_frames mm_alloc_pagetable
  by unfold_locales (rule bitmap_frames_aligned bitmap_supply_some bitmap_supply_none; assumption)+

section \<open>Properties\<close>

lemma hw_flags_present: "bit (paging_to_hw_flags (f OR PAGING_FLAG_PRESENT)) 0"
  by (simp add: hw_flags_bit PAGING_FLAG_PRESENT_def bit_or_iff bit_1_0)

lemma aligned_page: "a mod PAGE_SIZE = 0 \<Longrightarrow> a = page_addr (page_no a) \<and> a AND PAGE_MASK = a"
proof -
  assume "a mod PAGE_SIZE = 0"
  then have "unat a mod 4096 = 0" by (metis PAGE_SIZE_nat unat_0 unat_mod_distrib)
  then have d: "4096 dvd unat a" by blast
  then have "unat (round_page_down a) = unat a" by (simp add: round_page_down_nat)
  then show ?thesis using page_addr_page_no [OF d] by (simp add: round_page_down_def word_unat_eq_iff)
qed

text \<open>C4. Mapping a range of pages during boot, with tables taken from the bitmap allocator: the call
  returns; when it reports success the processor translates every page of the range to the
  corresponding page of the physical range and every other page below the table window as
  before, and when it reports failure it has mapped a prefix and no page is left for a table.
  The tables stay well formed and never share a frame with what is still free.\<close>

theorem paging_map_pages_maps:
  assumes "pt_ok cr3 m" "bitmap_phase s" "bitmap_frames s \<inter> tables cr3 m = {}"
    "pa mod PAGE_SIZE = 0" "va mod PAGE_SIZE = 0" "count > 0" "page_no va + unat count \<le> 1047552"
  shows "\<exists>b m' s' k. paging_map_pages mm_alloc_pagetable cr3 pa va count flags (m, s) = lret (b, m', s') \<and>
    pt_ok cr3 m' \<and> bitmap_phase s' \<and> bitmap_frames s' \<inter> tables cr3 m' = {} \<and>
    k \<le> unat count \<and> (b \<longleftrightarrow> k = unat count) \<and> (\<not> b \<longrightarrow> bitmap_frames s' = {}) \<and>
    (\<forall>q<1047552. aspace cr3 m' q = map_spec pa (page_no va) k (aspace cr3 m) q)"
proof -
  have va: "page_addr (page_no va) = va" and pa: "pa AND PAGE_MASK = pa" using aligned_page assms(4,5) by metis+
  have "paging_map_pages mm_alloc_pagetable cr3 pa va count flags (m, s) =
      map_phys_range mm_alloc_pagetable cr3 (paging_to_hw_flags (flags OR PAGING_FLAG_PRESENT)) pa
        (page_addr (page_no va)) (of_nat (unat count)) (m, s)"
    using assms(4-6) by (simp add: paging_map_pages_def va)
  then show ?thesis using bms.map_phys_range_correct [OF assms(1-3,7) pa hw_flags_present] by simp
qed

definition boot_mm :: mm_state where
  "boot_mm = \<lparr>mm_type = ALLOC_BITMAP, mm_bitmap = two_free_pages, mm_pfn = eight_pages\<rparr>"

lemma two_free_pages_only: "page_free two_free_pages p \<Longrightarrow> p = 28 \<or> p = 29"
proof -
  assume *: "page_free two_free_pages p"
  then have "(of_nat (p div 8) :: u32) = of_nat 3" "p < 524288" "bit (0x30 :: u8) (p mod 8)"
    by (auto simp: page_free_def two_free_pages_def split: if_splits)
  then have d: "p div 8 = 3" using of_nat_u32_inj [of "p div 8" 3] by simp
  have "p mod 8 \<in> {0, 1, 2, 3, 4, 5, 6, 7}" by auto
  with \<open>bit 0x30 (p mod 8)\<close> have "p mod 8 = 4 \<or> p mod 8 = 5" by (auto simp: bit_iff_odd_drop_bit)
  with d show ?thesis using div_mult_mod_eq [of p 8] by auto
qed

lemma small_space_tables: "tables 0x1000 small_space \<subseteq> {0x1000, 0x2000}"
  by (auto simp: tables_def small_space_def present_def PAGE_MASK_def PAGE_SIZE_def split: if_splits)

theorem paging_map_pages_maps_witness:
  "\<exists>m' s'. paging_map_pages mm_alloc_pagetable 0x1000 0x9000 0x6000 2 PAGING_FLAG_WRITE (small_space, boot_mm) = lret (True, m', s') \<and>
     aspace 0x1000 m' 6 = Some 0x9000 \<and> aspace 0x1000 m' 7 = Some 0xA000 \<and> aspace 0x1000 m' 5 = Some 0x7000"
proof -
  have phase: "bitmap_phase boot_mm"
    by (auto simp: bitmap_phase_def boot_mm_def two_free_pages_def dest: two_free_pages_only) (use two_free_pages_only [of 0] in \<open>simp add: two_free_pages_def\<close>)
  have "bitmap_frames boot_mm \<subseteq> {page_addr 28, page_addr 29}"
    using two_free_pages_only by (auto simp: bitmap_frames_def boot_mm_def)
  moreover have "{page_addr 28, page_addr 29} \<inter> {0x1000, 0x2000} = {}" by (simp add: page_addr_def)
  ultimately have "bitmap_frames boot_mm \<inter> tables 0x1000 small_space = {}" using small_space_tables by blast
  moreover have arg: "(0x9000 :: u32) mod PAGE_SIZE = 0" "(0x6000 :: u32) mod PAGE_SIZE = 0" "(2 :: u32) > 0"
    "page_no 0x6000 + unat (2 :: u32) \<le> 1047552" "page_no 0x6000 = 6" by (simp_all add: PAGE_SIZE_def page_no_def)
  ultimately obtain b m' s' k where r: "paging_map_pages mm_alloc_pagetable 0x1000 0x9000 0x6000 2 PAGING_FLAG_WRITE (small_space, boot_mm) = lret (b, m', s')"
    "b \<longleftrightarrow> k = unat (2 :: u32)" "\<forall>q<1047552. aspace 0x1000 m' q = map_spec 0x9000 (page_no 0x6000) k (aspace 0x1000 small_space) q"
    using paging_map_pages_maps [OF small_space_ok phase _ arg(1-4), of PAGING_FLAG_WRITE] by blast
  have "map_option (map_sum id fst) (paging_map_pages mm_alloc_pagetable 0x1000 0x9000 0x6000 2 PAGING_FLAG_WRITE (small_space, boot_mm)) = Some (Inr True)"
    by code_simp
  then have b: "b" using r(1) by simp
  have "aspace 0x1000 small_space 5 = Some 0x7000"
    by (simp add: aspace_def small_space_def present_def PAGE_ENTRY_FLAG_PRESENT_def PAGE_MASK_def PAGE_SIZE_def)
  then show ?thesis using r b arg(5) by (simp add: map_spec_def)
qed

text \<open>Taking and then dropping a reference to a page leaves the descriptors as they were, up to
  the largest reference count; there the counter wraps to zero and dropping the reference
  stops at the assertion.\<close>

theorem mm_get_put_page:
  assumes "i < pfn_count s" "pg_type (pfn_descs s i) \<noteq> PAGETYPE_UNUSED" "pg_ref_count (pfn_descs s i) \<noteq> 0"
  shows "\<exists>s'. mm_get_page (Some i) s = Inr s' \<and>
    mm_put_page (Some i) s' = (if pg_ref_count (pfn_descs s i) = 0xFFFFFFFF then Inl AssertFailed else Inr s)"
proof -
  let ?d = "pfn_descs s i"
  let ?s = "s\<lparr>pfn_descs := (pfn_descs s)(i := ?d\<lparr>pg_ref_count := pg_ref_count ?d + 1\<rparr>)\<rparr>"
  have get: "mm_get_page (Some i) s = Inr ?s"
    using assms by (simp add: mm_get_page_def desc_at_Some desc_upd_Some)
  have top: "pg_ref_count ?d + 1 = 0 \<longleftrightarrow> pg_ref_count ?d = 0xFFFFFFFF"
  proof -
    have m1: "(0xFFFFFFFF :: u32) = -1" by simp
    show ?thesis unfolding m1 by (simp add: eq_neg_iff_add_eq_0)
  qed
  have "(pfn_descs s)(i := ?d\<lparr>pg_ref_count := pg_ref_count ?d\<rparr>) = pfn_descs s" by (rule ext) simp
  then have "mm_put_page (Some i) ?s = (if pg_ref_count ?d = 0xFFFFFFFF then Inl AssertFailed else Inr s)"
    using assms top by (simp add: mm_put_page_def desc_at_Some desc_upd_Some)
  with get show ?thesis by blast
qed

theorem mm_get_put_page_witness:
  "\<exists>s'. mm_get_page (Some 5) (eight_pages\<lparr>pfn_descs := (pfn_descs eight_pages)(5 := blank_page\<lparr>pg_ref_count := 1\<rparr>)\<rparr>) = Inr s' \<and>
     mm_put_page (Some 5) s' = Inr (eight_pages\<lparr>pfn_descs := (pfn_descs eight_pages)(5 := blank_page\<lparr>pg_ref_count := 1\<rparr>)\<rparr>)"
  using mm_get_put_page [of 5 "eight_pages\<lparr>pfn_descs := (pfn_descs eight_pages)(5 := blank_page\<lparr>pg_ref_count := 1\<rparr>)\<rparr>"]
  by (simp add: eight_pages_def blank_page_def)

end
