(* ===== verification/Virt_Region.thy ===== *)
theory Virt_Region
  imports Rb_Tree_Props Core_Defs
begin

text \<open>
  The kernel's map of used virtual addresses, \<^verbatim>\<open>kernel/memory/virt/virt_region.c\<close>: a red-black
  tree of half-open intervals. The tree nodes are embedded in the intervals, so a node address
  is also the address of its interval; the state has the root of the tree, the heap of nodes
  and the interval at every address.

  The slab cache the intervals come from is the argument \<open>kalloc\<close>, a function on the whole
  state (allocating may itself map heap pages and mark regions); the address of the probe
  that the searches build on the stack is the argument \<open>sp\<close>.
\<close>

section \<open>Definitions\<close>

datatype virt_region_type =
  VREGION_UNKNOWN | VREGION_KERNELIMG | VREGION_PFN | VREGION_HEAP | VREGION_USER | VREGION_RESREVED
  | VREGION_CACHE | VREGION_MMIO | VREGION_ACPI | VREGION_DRIVER | VREGION_BIO_BUFFER

record virt_interval =
  vi_from :: usize_ptr
  vi_to :: usize_ptr
  vi_name :: string
  vi_vregion :: virt_region_type
  vi_vflags :: u16

type_synonym intervals = "usize_ptr \<Rightarrow> virt_interval"

record vr_state =
  vr_root :: usize_ptr
  vr_nodes :: rb_heap
  vr_ivs :: intervals

definition MAX_VADDR :: usize_ptr where "MAX_VADDR = 0xFFFFFFFF"

definition HIGH_VADDR :: usize_ptr where "HIGH_VADDR = 0xC0000000"

definition RESERVE_PAGES_NAME :: string where "RESERVE_PAGES_NAME = ''Virtual Reserved''"

fun vregion_to_str :: "virt_region_type \<Rightarrow> string kres" where
  "vregion_to_str VREGION_HEAP = Inr ''HEAP''"
| "vregion_to_str VREGION_PFN = Inr ''PFN''"
| "vregion_to_str VREGION_ACPI = Inr ''ACPI''"
| "vregion_to_str VREGION_DRIVER = Inr ''DRIVER''"
| "vregion_to_str VREGION_USER = Inr ''USER''"
| "vregion_to_str VREGION_RESREVED = Inr ''RESERVED''"
| "vregion_to_str VREGION_CACHE = Inr ''CACHE''"
| "vregion_to_str VREGION_BIO_BUFFER = Inr ''BIO BUFFER''"
| "vregion_to_str VREGION_MMIO = Inr ''MMIO''"
| "vregion_to_str VREGION_KERNELIMG = Inr ''KERNEL_IMG''"
| "vregion_to_str VREGION_UNKNOWN = Inl Aborted"

definition interval_cmp :: "intervals \<Rightarrow> rb_cmp_t" where
  "interval_cmp ivs node_a node_b =
     (if vi_to (ivs node_a) \<le> vi_from (ivs node_b) then -1
      else if vi_to (ivs node_b) \<le> vi_from (ivs node_a) then 1
      else 0)"

definition vr_tree :: "'a vr_state_scheme \<Rightarrow> rb_tree" where
  "vr_tree s = \<lparr>rb_root = vr_root s, rb_cmp = interval_cmp (vr_ivs s)\<rparr>"

text \<open>The loop of \<^verbatim>\<open>find_gap_start\<close> over two neighbouring nodes: \<open>Inl\<close> is the address it returns from
  inside the loop, \<open>Inr\<close> the value of \<^verbatim>\<open>cur\<close> (the node it points to) when the loop ends.\<close>

partial_function (option) find_gap_loop ::
  "rb_heap \<Rightarrow> intervals \<Rightarrow> usize_ptr \<Rightarrow> usize_ptr \<Rightarrow> usize_ptr \<Rightarrow> usize_ptr \<Rightarrow> (usize_ptr + usize_ptr) option" where
  "find_gap_loop h ivs sz cur cur_node next_node =
     (if next_node = NULL then Some (Inr cur)
      else let cur = cur_node; next = next_node
           in if vi_from (ivs next) - vi_to (ivs cur) \<ge> sz then Some (Inl (vi_to (ivs cur)))
              else do { n \<leftarrow> rb_next h next_node; find_gap_loop h ivs sz cur next_node n })"

declare find_gap_loop.simps [code]

definition find_gap_start ::
  "'a vr_state_scheme \<Rightarrow> usize_ptr \<Rightarrow> usize_ptr \<Rightarrow> usize_ptr \<Rightarrow> usize_ptr kloop" where
  "find_gap_start s sz min_addr max_inclusive_addr =
     lbind (lopt (rb_min (vr_tree s, vr_nodes s))) (\<lambda>cur_node.
     if cur_node = NULL
     then lret (if max_inclusive_addr - min_addr + 1 \<ge> sz then min_addr else NULL)
     else let cur = vr_ivs s cur_node
          in lbind (lassert (vi_from cur \<ge> min_addr)) (\<lambda>_.
             if vi_from cur - min_addr \<ge> sz then lret min_addr
             else lbind (lopt (rb_next (vr_nodes s) cur_node)) (\<lambda>next_node.
                  if next_node = NULL
                  then lret (if max_inclusive_addr - vi_to cur + 1 \<ge> sz then vi_to cur else NULL)
                  else lbind (lopt (find_gap_loop (vr_nodes s) (vr_ivs s) sz cur_node cur_node next_node)) (\<lambda>r.
                       case r of Inl va \<Rightarrow> lret va
                       | Inr cur \<Rightarrow> lret (if (max_inclusive_addr - vi_to (vr_ivs s cur)) + 1 \<ge> sz
                                         then vi_to (vr_ivs s cur) else NULL)))))"

text \<open>The tree searched with a probe for the page at \<open>va\<close>.\<close>

definition probe_at :: "usize_ptr \<Rightarrow> usize_ptr \<Rightarrow> intervals \<Rightarrow> intervals" where
  "probe_at sp va ivs = ivs(sp := (ivs sp)\<lparr>vi_from := va, vi_to := va + PAGE_SIZE\<rparr>)"

definition search_interval_addr :: "usize_ptr \<Rightarrow> usize_ptr \<Rightarrow> 'a vr_state_scheme \<Rightarrow> usize_ptr kloop" where
  "search_interval_addr sp va_ptr s =
     lopt (rb_search (\<lparr>rb_root = vr_root s, rb_cmp = interval_cmp (probe_at sp va_ptr (vr_ivs s))\<rparr>, vr_nodes s) sp)"

text \<open>\<^verbatim>\<open>rb_insert\<close> and \<^verbatim>\<open>rb_remove_node\<close> on the region tree; the returned pointers are not used.\<close>

definition vr_rb_insert :: "usize_ptr \<Rightarrow> 'a vr_state_scheme \<Rightarrow> 'a vr_state_scheme kloop" where
  "vr_rb_insert node s =
     lbind (lopt (rb_insert (vr_tree s, vr_nodes s) node))
       (\<lambda>(_, (T, h), _). lret (s\<lparr>vr_root := rb_root T, vr_nodes := h\<rparr>))"

definition vr_rb_remove :: "usize_ptr \<Rightarrow> 'a vr_state_scheme \<Rightarrow> 'a vr_state_scheme kloop" where
  "vr_rb_remove node s =
     lbind (lopt (rb_remove_node (vr_tree s, vr_nodes s) node))
       (\<lambda>(_, (T, h), _). lret (s\<lparr>vr_root := rb_root T, vr_nodes := h\<rparr>))"

definition kvregion_mark ::
  "('a vr_state_scheme \<Rightarrow> (usize_ptr \<times> 'a vr_state_scheme) kloop) \<Rightarrow>
   usize_ptr \<Rightarrow> usize_ptr \<Rightarrow> virt_region_type \<Rightarrow> string \<Rightarrow> 'a vr_state_scheme \<Rightarrow> 'a vr_state_scheme kloop" where
  "kvregion_mark kalloc from count vregion name s =
     lbind (kalloc s) (\<lambda>(new_interval, s).
     lbind (lassert (new_interval \<noteq> NULL)) (\<lambda>_.
     let s = s\<lparr>vr_ivs := (vr_ivs s)(new_interval := (vr_ivs s new_interval)
                \<lparr>vi_from := from, vi_to := from + count * PAGE_SIZE, vi_name := name, vi_vregion := vregion\<rparr>)\<rparr>
     in vr_rb_insert new_interval s))"

definition kvregion_release :: "usize_ptr \<Rightarrow> usize_ptr \<Rightarrow> 'a vr_state_scheme \<Rightarrow> 'a vr_state_scheme kloop" where
  "kvregion_release sp va s =
     lbind (search_interval_addr sp va s) (\<lambda>cur_interval.
     lbind (lassert (cur_interval \<noteq> NULL)) (\<lambda>_.
     vr_rb_remove cur_interval s))"

definition kvregion_reserve ::
  "('a vr_state_scheme \<Rightarrow> (usize_ptr \<times> 'a vr_state_scheme) kloop) \<Rightarrow>
   usize_ptr \<Rightarrow> virt_region_type \<Rightarrow> string option \<Rightarrow> 'a vr_state_scheme \<Rightarrow> (usize_ptr \<times> 'a vr_state_scheme) kloop" where
  "kvregion_reserve kalloc count vregion name s =
     (let sz = count * PAGE_SIZE
      in lbind (find_gap_start s sz HIGH_VADDR MAX_VADDR) (\<lambda>gap_start.
         if gap_start = NULL then lret (NULL, s)
         else lbind (kvregion_mark kalloc gap_start count vregion (case name of Some n \<Rightarrow> n | None \<Rightarrow> RESERVE_PAGES_NAME) s)
                (\<lambda>s. lret (gap_start, s))))"

definition kvregion_is_free :: "usize_ptr \<Rightarrow> usize_ptr \<Rightarrow> 'a vr_state_scheme \<Rightarrow> bool kloop" where
  "kvregion_is_free sp va s =
     (if va = NULL then lret False
      else lbind (lassert (va AND (PAGE_SIZE - 1) = 0)) (\<lambda>_.
           lbind (search_interval_addr sp va s) (\<lambda>node. lret (node = NULL))))"

definition kvregion_count :: "usize_ptr \<Rightarrow> usize_ptr \<Rightarrow> 'a vr_state_scheme \<Rightarrow> usize_ptr kloop" where
  "kvregion_count sp va s =
     lbind (search_interval_addr sp va s) (\<lambda>node.
     if node = NULL then Some (Inl BadAccess) else lret (vi_to (vr_ivs s node) - vi_from (vr_ivs s node)))"

text \<open>\<open>kcreate\<close> stands for the creation of the slab cache, whose handle \<open>kalloc\<close> owns.\<close>

definition init_virt_region ::
  "('a vr_state_scheme \<Rightarrow> 'a vr_state_scheme kloop) \<Rightarrow> 'a vr_state_scheme \<Rightarrow> 'a vr_state_scheme kloop" where
  "init_virt_region kcreate s = kcreate (s\<lparr>vr_root := rb_root (rb_init_tree (interval_cmp (vr_ivs s)))\<rparr>)"


section \<open>Intervals as numbers\<close>

definition iv_ok :: "intervals \<Rightarrow> usize_ptr \<Rightarrow> bool" where
  "iv_ok ivs a \<longleftrightarrow> vi_from (ivs a) < vi_to (ivs a)"

definition span :: "intervals \<Rightarrow> usize_ptr \<Rightarrow> nat \<times> nat" where
  "span ivs a = (unat (vi_from (ivs a)), unat (vi_to (ivs a)))"

text \<open>The order the tree uses is the order of disjoint intervals, a strict order on the non-empty
  ones.\<close>

lemma interval_cmp_neg: "interval_cmp ivs a b < 0 \<longleftrightarrow> vi_to (ivs a) \<le> vi_from (ivs b)"
  by (simp add: interval_cmp_def)

lemma interval_cmp_pos:
  "interval_cmp ivs b a > 0 \<longleftrightarrow> vi_to (ivs a) \<le> vi_from (ivs b) \<and> \<not> vi_to (ivs b) \<le> vi_from (ivs a)"
  by (auto simp: interval_cmp_def)

lemma interval_cmp_ok:
  assumes "\<And>a. a \<in> S \<Longrightarrow> iv_ok ivs a"
  shows "cmp_ok (interval_cmp ivs) S"
proof -
  have lt: "vi_from (ivs a) < vi_to (ivs a)" if "a \<in> S" for a using assms that by (simp add: iv_ok_def)
  have trans: "vi_to (ivs a) \<le> vi_from (ivs c)"
    if "b \<in> S" "vi_to (ivs a) \<le> vi_from (ivs b)" "vi_to (ivs b) \<le> vi_from (ivs c)" for a b c
    using that lt [of b] by simp
  have asym: "\<not> vi_to (ivs b) \<le> vi_from (ivs a)" if "a \<in> S" "b \<in> S" "vi_to (ivs a) \<le> vi_from (ivs b)" for a b
    using that lt [of a] lt [of b] by simp
  show ?thesis
    unfolding cmp_ok_def interval_cmp_neg interval_cmp_pos using trans asym by blast
qed

lemma interval_cmp_zero:
  "interval_cmp ivs a b = 0 \<longleftrightarrow> vi_from (ivs b) < vi_to (ivs a) \<and> vi_from (ivs a) < vi_to (ivs b)"
  by (auto simp: interval_cmp_def)

text \<open>The tree holds the intervals \<open>xs\<close> in order; \<open>vr_ok\<close> adds the balance of the tree, which a
  removal does not keep.\<close>

definition vr_lists :: "'a vr_state_scheme \<Rightarrow> usize_ptr list \<Rightarrow> bool" where
  "vr_lists s xs \<longleftrightarrow> (\<exists>t. wft (vr_nodes s) (vr_root s) t \<and> bst (interval_cmp (vr_ivs s)) t \<and> inord t = xs) \<and>
     (\<forall>a\<in>set xs. iv_ok (vr_ivs s) a)"

definition vr_ok :: "'a vr_state_scheme \<Rightarrow> usize_ptr list \<Rightarrow> bool" where
  "vr_ok s xs \<longleftrightarrow> (\<exists>t. wft (vr_nodes s) (vr_root s) t \<and> rb_inv t \<and> bst (interval_cmp (vr_ivs s)) t \<and> inord t = xs) \<and>
     (\<forall>a\<in>set xs. iv_ok (vr_ivs s) a)"

lemma vr_ok_lists: "vr_ok s xs \<Longrightarrow> vr_lists s xs"
  by (auto simp: vr_ok_def vr_lists_def)

definition spans :: "'a vr_state_scheme \<Rightarrow> usize_ptr list \<Rightarrow> (nat \<times> nat) list" where
  "spans s xs = map (span (vr_ivs s)) xs"

definition sorted_spans :: "(nat \<times> nat) list \<Rightarrow> bool" where
  "sorted_spans L \<longleftrightarrow> sorted_wrt (\<lambda>x y. snd x \<le> fst y) L \<and> (\<forall>x\<in>set L. fst x < snd x)"

lemma vr_ok_sorted: "vr_ok s xs \<Longrightarrow> sorted_spans (spans s xs)"
  using vr_ok_lists [of s xs]
  by (auto simp: vr_lists_def sorted_spans_def spans_def span_def bst_def sorted_wrt_map interval_cmp_neg iv_ok_def
      word_le_nat_alt word_less_nat_alt)

section \<open>Gaps\<close>

definition gap_at :: "(nat \<times> nat) list \<Rightarrow> nat \<Rightarrow> nat \<Rightarrow> bool" where
  "gap_at L n a \<longleftrightarrow> (\<forall>x\<in>set L. a + n \<le> fst x \<or> snd x \<le> a)"

text \<open>The lowest gap of \<open>n\<close> bytes that starts at \<open>lo\<close> or at the end of an interval, below the last
  interval.\<close>

fun first_gap :: "nat \<Rightarrow> nat \<Rightarrow> (nat \<times> nat) list \<Rightarrow> nat option" where
  "first_gap n lo [] = None"
| "first_gap n lo (x # L) = (if lo + n \<le> fst x then Some lo else first_gap n (snd x) L)"

lemma first_gap_Some:
  assumes "first_gap n lo L = Some a" "sorted_spans L" "\<forall>x\<in>set L. lo \<le> fst x"
  shows "gap_at L n a \<and> lo \<le> a \<and> (\<exists>x\<in>set L. a + n \<le> fst x) \<and> (\<forall>b\<ge>lo. 0 < n \<longrightarrow> gap_at L n b \<longrightarrow> a \<le> b)"
  using assms
proof (induction L arbitrary: lo)
  case (Cons x L)
  show ?case
  proof (cases "lo + n \<le> fst x")
    case True
    then show ?thesis using Cons.prems by (auto simp: gap_at_def sorted_spans_def)
  next
    case False
    have s: "sorted_spans L" "\<forall>y\<in>set L. snd x \<le> fst y" using Cons.prems(2) by (auto simp: sorted_spans_def)
    have x: "lo \<le> fst x" "fst x < snd x" using Cons.prems by (auto simp: sorted_spans_def)
    have g: "first_gap n (snd x) L = Some a" using Cons.prems(1) False by simp
    have IH: "gap_at L n a" "snd x \<le> a" "\<exists>y\<in>set L. a + n \<le> fst y" "\<forall>b\<ge>snd x. 0 < n \<longrightarrow> gap_at L n b \<longrightarrow> a \<le> b"
      using Cons.IH [OF g s] by blast+
    have "a \<le> b" if "lo \<le> b" "0 < n" "gap_at (x # L) n b" for b
    proof -
      have "snd x \<le> b" using that False by (auto simp: gap_at_def)
      then show ?thesis using IH(4) that by (simp add: gap_at_def)
    qed
    moreover have "gap_at (x # L) n a" using IH by (simp add: gap_at_def)
    ultimately show ?thesis using IH x by auto
  qed
qed simp

lemma first_gap_None:
  assumes "first_gap n lo L = None" "sorted_spans L" "\<forall>x\<in>set L. lo \<le> fst x" "L \<noteq> []" "lo \<le> b" "gap_at L n b"
  shows "snd (last L) \<le> b"
  using assms
proof (induction L arbitrary: lo)
  case (Cons x L)
  have b: "snd x \<le> b" using Cons.prems by (auto simp: gap_at_def split: if_splits)
  have "sorted_spans L" "\<forall>y\<in>set L. snd x \<le> fst y" "first_gap n (snd x) L = None" "gap_at L n b"
    using Cons.prems by (auto simp: sorted_spans_def gap_at_def split: if_splits)
  then show ?case using b Cons.IH [of "snd x"] by (cases "L = []") auto
qed simp


lemma gap_loop:
  assumes wf: "wft h root t" and "inord t = pre @ a # b # ys" "sorted_spans (map (span ivs) (a # b # ys))"
  shows "find_gap_loop h ivs sz cur a b =
    Some (case first_gap (unat sz) (unat (vi_to (ivs a))) (map (span ivs) (b # ys)) of
            Some v \<Rightarrow> Inl (of_nat v) | None \<Rightarrow> Inr (last (butlast (a # b # ys))))"
  using assms(2,3)
proof (induction ys arbitrary: pre a b cur)
  case Nil
  have le: "vi_to (ivs a) \<le> vi_from (ivs b)" using Nil.prems(2) by (simp add: sorted_spans_def span_def word_le_nat_alt)
  have b: "b \<noteq> 0" using wf Nil.prems(1) rtree_nonzero [of h 0 t b] by (auto simp: wft_def)
  have "rb_next h b = Some 0" using rb_next_correct [OF wf, of "pre @ [a]" b "[]"] Nil.prems(1) by simp
  moreover have "find_gap_loop h ivs sz a b 0 = Some (Inr a)" by (subst find_gap_loop.simps) simp
  ultimately show ?case
    using b le by (subst find_gap_loop.simps) (auto simp: Let_def span_def word_le_nat_alt unat_sub)
next
  case (Cons y ys)
  have le: "vi_to (ivs a) \<le> vi_from (ivs b)" using Cons.prems(2) by (simp add: sorted_spans_def span_def word_le_nat_alt)
  have b: "b \<noteq> 0" using wf Cons.prems(1) rtree_nonzero [of h 0 t b] by (auto simp: wft_def)
  have n: "rb_next h b = Some y" using rb_next_correct [OF wf, of "pre @ [a]" b "y # ys"] Cons.prems(1) by simp
  have s: "sorted_spans (map (span ivs) (b # y # ys))" using Cons.prems(2) by (auto simp: sorted_spans_def)
  have IH: "find_gap_loop h ivs sz a b y = Some (case first_gap (unat sz) (unat (vi_to (ivs b))) (map (span ivs) (y # ys)) of
            Some v \<Rightarrow> Inl (of_nat v) | None \<Rightarrow> Inr (last (butlast (b # y # ys))))"
    using Cons.IH [of "pre @ [a]" b y a] Cons.prems(1) s by simp
  show ?case
    using b le n IH by (subst find_gap_loop.simps) (auto simp: Let_def span_def word_le_nat_alt unat_sub split: option.split)
qed

text \<open>What \<^verbatim>\<open>find_gap_start\<close> computes. When no gap below the last interval is large enough, the end of
  the only interval is tried, but with two or more intervals it is the end of the last but
  one.\<close>

lemma top_room:
  assumes "0 < (to :: u32)"
  shows "MAX_VADDR - to + 1 \<ge> sz \<longleftrightarrow> unat to + unat sz \<le> 4294967296"
proof -
  have "unat (MAX_VADDR - to) = 4294967295 - unat to"
    using unat_u32_lt [of to] by (subst unat_sub) (auto simp: MAX_VADDR_def word_le_nat_alt simp del: unat_u32_lt)
  moreover have "0 < unat to" using assms by (simp add: word_less_nat_alt)
  ultimately have "unat (MAX_VADDR - to + 1) = 4294967296 - unat to"
    using unat_u32_lt [of to] by (simp add: unat_word_ariths del: unat_u32_lt)
  then show ?thesis using unat_u32_lt [of to] by (auto simp: word_le_nat_alt simp del: unat_u32_lt)
qed

definition top_candidate :: "usize_ptr list \<Rightarrow> usize_ptr" where
  "top_candidate xs = (if length xs < 2 then last xs else last (butlast xs))"

lemma find_gap_start_eq:
  assumes ok: "vr_ok s xs" and lo: "\<forall>a\<in>set xs. HIGH_VADDR \<le> vi_from (vr_ivs s a)"
  shows "find_gap_start s sz HIGH_VADDR MAX_VADDR =
    lret (case first_gap (unat sz) 0xC0000000 (spans s xs) of
            Some v \<Rightarrow> of_nat v
          | None \<Rightarrow>
              if xs = [] then if unat sz \<le> 0x40000000 then HIGH_VADDR else NULL
              else let to = vi_to (vr_ivs s (top_candidate xs))
                   in if unat to + unat sz \<le> 4294967296 then to else NULL)"
proof -
  obtain t where wf: "wft (vr_nodes s) (vr_root s) t" and xs: "inord t = xs" using ok by (auto simp: vr_ok_def)
  have wf': "wft (vr_nodes s) (rb_root (vr_tree s)) t" using wf by (simp add: vr_tree_def)
  have pos: "0 < vi_to (vr_ivs s a)" if "a \<in> set xs" for a
    using ok that by (auto simp: vr_ok_def iv_ok_def) (metis not_gr_zero word_less_nat_alt not_less_zero unat_0 word_greater_zero_iff)
  note min = rb_min_correct [OF wf', unfolded xs]
  have diff: "from - HIGH_VADDR \<ge> sz \<longleftrightarrow> 3221225472 + unat sz \<le> unat from" if "HIGH_VADDR \<le> from" for "from"
    using that by (auto simp: word_le_nat_alt unat_sub HIGH_VADDR_def)
  show ?thesis
  proof (cases xs)
    case Nil
    then show ?thesis using min
      by (simp add: find_gap_start_def spans_def MAX_VADDR_def HIGH_VADDR_def word_le_nat_alt)
  next
    case (Cons a ys)
    have a: "a \<noteq> 0" using wf xs Cons rtree_nonzero [of "vr_nodes s" 0 t a] by (auto simp: wft_def)
    have lo_a: "HIGH_VADDR \<le> vi_from (vr_ivs s a)" using lo Cons by simp
    show ?thesis
    proof (cases ys)
      case Nil
      then have "rb_next (vr_nodes s) a = Some 0" using rb_next_correct [OF wf, of "[]" a "[]"] xs Cons by simp
      then show ?thesis using min Cons Nil a lo_a diff [OF lo_a] top_room [OF pos [of a]]
        by (auto simp: find_gap_start_def spans_def span_def top_candidate_def Let_def) (simp_all add: HIGH_VADDR_def)
    next
      case (Cons b zs)
      then have n: "rb_next (vr_nodes s) a = Some b" using rb_next_correct [OF wf, of "[]" a "b # zs"] xs \<open>xs = a # ys\<close> by simp
      have b: "b \<noteq> 0" using wf xs Cons \<open>xs = a # ys\<close> rtree_nonzero [of "vr_nodes s" 0 t b] by (auto simp: wft_def)
      have loop: "find_gap_loop (vr_nodes s) (vr_ivs s) sz a a b =
        Some (case first_gap (unat sz) (unat (vi_to (vr_ivs s a))) (map (span (vr_ivs s)) (b # zs)) of
            Some v \<Rightarrow> Inl (of_nat v) | None \<Rightarrow> Inr (last (butlast (a # b # zs))))"
        using gap_loop [OF wf, of "[]" a b zs "vr_ivs s"] vr_ok_sorted [OF ok] xs Cons \<open>xs = a # ys\<close> by (simp add: spans_def)
      have c: "top_candidate xs = last (butlast (a # b # zs))" using Cons \<open>xs = a # ys\<close> by (simp add: top_candidate_def)
      have "last (butlast (a # b # zs)) \<in> set xs"
        using Cons \<open>xs = a # ys\<close> by (metis in_set_butlastD last_in_set butlast.simps(2) list.distinct(1))
      note room = top_room [OF pos [OF this]]
      show ?thesis
      proof (cases "3221225472 + unat sz \<le> unat (vi_from (vr_ivs s a))")
        case True
        then show ?thesis using min a lo_a diff [OF lo_a] \<open>xs = a # ys\<close>
          by (simp add: find_gap_start_def spans_def span_def HIGH_VADDR_def)
      next
        case False
        then show ?thesis
          using min a b n lo_a diff [OF lo_a] loop room c \<open>xs = a # ys\<close> Cons
          by (simp add: find_gap_start_def spans_def span_def Let_def split: option.split)
      qed
    qed
  qed
qed


section \<open>The operations on the list of intervals\<close>

lemma bst_interval_cong:
  "(\<And>a. a \<in> set (inord t) \<Longrightarrow> ivs a = ivs' a) \<Longrightarrow> bst (interval_cmp ivs) t \<longleftrightarrow> bst (interval_cmp ivs') t"
  unfolding bst_def interval_cmp_neg
  by (auto intro: sorted_wrt_mono_rel [of "inord t", rotated])

text \<open>Only the nodes and the intervals of \<open>xs\<close> matter.\<close>

lemma vr_ok_cong:
  assumes "vr_ok s xs" "vr_root s' = vr_root s" "\<And>a. a \<in> set xs \<Longrightarrow> vr_nodes s' a = vr_nodes s a \<and> vr_ivs s' a = vr_ivs s a"
  shows "vr_ok s' xs"
proof -
  obtain t where t: "wft (vr_nodes s) (vr_root s) t" "rb_inv t" "bst (interval_cmp (vr_ivs s)) t" "inord t = xs"
    and iv: "\<forall>a\<in>set xs. iv_ok (vr_ivs s) a" using assms(1) by (auto simp: vr_ok_def)
  have "wft (vr_nodes s') (vr_root s') t"
    using t(1,4) assms(2,3) rtree_cong [of t "vr_nodes s" "vr_nodes s'"] by (simp add: wft_def)
  moreover have "bst (interval_cmp (vr_ivs s')) t" using t(3,4) assms(3) bst_interval_cong [of t "vr_ivs s" "vr_ivs s'"] by simp
  moreover have "\<forall>a\<in>set xs. iv_ok (vr_ivs s') a" using iv assms(3) by (simp add: iv_ok_def)
  ultimately show ?thesis using t(2,4) by (auto simp: vr_ok_def)
qed

lemma vr_rb_insert_correct:
  assumes ok: "vr_ok s xs" and p: "vr_nodes s p = Some n" "p \<noteq> 0" "aligned p" "p \<notin> set xs" "iv_ok (vr_ivs s) p"
  shows "if \<exists>a\<in>set xs. interval_cmp (vr_ivs s) a p = 0 then vr_rb_insert p s = lret s
    else \<exists>root h us vs. vr_rb_insert p s = lret (s\<lparr>vr_root := root, vr_nodes := h\<rparr>) \<and> xs = us @ vs \<and>
      vr_ok (s\<lparr>vr_root := root, vr_nodes := h\<rparr>) (us @ p # vs)"
proof -
  obtain t where t: "wft (vr_nodes s) (vr_root s) t" "rb_inv t" "bst (interval_cmp (vr_ivs s)) t" "inord t = xs"
    and iv: "\<forall>a\<in>set xs. iv_ok (vr_ivs s) a" using ok by (auto simp: vr_ok_def)
  have cmp: "cmp_ok (rb_cmp (vr_tree s)) (insert p (set (inord t)))"
    using interval_cmp_ok [of "insert p (set xs)" "vr_ivs s"] iv p(5) t(4) by (auto simp: vr_tree_def)
  have T: "wft (vr_nodes s) (rb_root (vr_tree s)) t" "bst (rb_cmp (vr_tree s)) t" using t by (simp_all add: vr_tree_def)
  from rb_insert_correct [OF T(1) t(2) T(2) cmp p(1-3)] p(4) t(4) have
    r: "if \<exists>a\<in>set (inord t). rb_cmp (vr_tree s) a p = 0 then rb_insert (vr_tree s, vr_nodes s) p = Some (NULL, (vr_tree s, vr_nodes s), [])
    else \<exists>root' h' aug t' before after. rb_insert (vr_tree s, vr_nodes s) p = Some (p, ((vr_tree s)\<lparr>rb_root := root'\<rparr>, h'), aug) \<and>
      wft h' root' t' \<and> rb_inv t' \<and> bst (rb_cmp (vr_tree s)) t' \<and> inord t = before @ after \<and>
      inord t' = before @ p # after \<and> same_outside (inord t') (vr_nodes s) h'" by simp
  show ?thesis
  proof (cases "\<exists>a\<in>set xs. interval_cmp (vr_ivs s) a p = 0")
    case True
    then have "rb_insert (vr_tree s, vr_nodes s) p = Some (NULL, (vr_tree s, vr_nodes s), [])"
      using r t(4) by (simp add: vr_tree_def)
    then show ?thesis using True by (simp add: vr_rb_insert_def) (simp add: vr_tree_def)
  next
    case False
    then obtain root' h' aug t' us vs where
      i: "rb_insert (vr_tree s, vr_nodes s) p = Some (p, ((vr_tree s)\<lparr>rb_root := root'\<rparr>, h'), aug)"
        "wft h' root' t'" "rb_inv t'" "bst (interval_cmp (vr_ivs s)) t'" "xs = us @ vs" "inord t' = us @ p # vs"
      using r t(4) by (auto simp: vr_tree_def)
    have "vr_ok (s\<lparr>vr_root := root', vr_nodes := h'\<rparr>) (us @ p # vs)"
      using i iv p(5) by (auto simp: vr_ok_def)
    then show ?thesis using False i(1,5) by (auto simp: vr_rb_insert_def)
  qed
qed

lemma search_correct:
  assumes ok: "vr_lists s xs" and sp: "sp \<notin> set xs" and va: "unat va + 4096 < 4294967296"
  shows "\<exists>a. search_interval_addr sp va s = lret a \<and>
    (if a = 0 then gap_at (spans s xs) 4096 (unat va)
     else a \<in> set xs \<and> vi_from (vr_ivs s a) < va + PAGE_SIZE \<and> va < vi_to (vr_ivs s a))"
proof -
  let ?ivs = "probe_at sp va (vr_ivs s)"
  let ?T = "\<lparr>rb_root = vr_root s, rb_cmp = interval_cmp ?ivs\<rparr>"
  obtain t where t: "wft (vr_nodes s) (vr_root s) t" "bst (interval_cmp (vr_ivs s)) t" "inord t = xs"
    and iv: "\<forall>a\<in>set xs. iv_ok (vr_ivs s) a" using ok by (auto simp: vr_lists_def)
  have same: "?ivs a = vr_ivs s a" if "a \<in> set xs" for a using sp that by (auto simp: probe_at_def)
  have end_va: "unat (va + PAGE_SIZE) = unat va + 4096" using va by (simp add: unat_word_ariths PAGE_SIZE_def)
  have probe: "vi_from (?ivs sp) = va" "vi_to (?ivs sp) = va + PAGE_SIZE" by (simp_all add: probe_at_def)
  have "iv_ok ?ivs sp" by (simp add: iv_ok_def probe word_less_nat_alt end_va)
  then have "iv_ok ?ivs a" if "a \<in> insert sp (set xs)" for a
    using that iv same by (auto simp: iv_ok_def)
  then have cmp: "cmp_ok (rb_cmp ?T) (insert sp (set (inord t)))"
    using interval_cmp_ok [of "insert sp (set xs)" ?ivs] t(3) by simp
  have "bst (rb_cmp ?T) t" using t(2,3) bst_interval_cong [of t "vr_ivs s" ?ivs] same by simp
  from rb_search_correct [OF _ this cmp, of "vr_nodes s"] t(1) obtain a where
    a: "rb_search (?T, vr_nodes s) sp = Some a"
      "if a = 0 then \<forall>x\<in>set xs. rb_cmp ?T x sp \<noteq> 0 else a \<in> set xs \<and> rb_cmp ?T a sp = 0"
    unfolding t(3) by auto
  have z: "rb_cmp ?T x sp = 0 \<longleftrightarrow> va < vi_to (vr_ivs s x) \<and> vi_from (vr_ivs s x) < va + PAGE_SIZE" if "x \<in> set xs" for x
    using same [OF that] by (simp add: interval_cmp_zero probe)
  show ?thesis
  proof (cases "a = 0")
    case True
    then have "\<forall>x\<in>set xs. \<not> (va < vi_to (vr_ivs s x) \<and> vi_from (vr_ivs s x) < va + PAGE_SIZE)" using a(2) z by simp
    then have "gap_at (spans s xs) 4096 (unat va)"
      by (auto simp: gap_at_def spans_def span_def word_less_nat_alt end_va)
    then show ?thesis using a(1) True by (simp add: search_interval_addr_def)
  next
    case False
    then show ?thesis using a z by (auto simp: search_interval_addr_def)
  qed
qed


lemma kvregion_is_free_correct:
  assumes "vr_lists s xs" "sp \<notin> set xs" "unat va + 4096 < 4294967296" "va \<noteq> 0" "va AND (PAGE_SIZE - 1) = 0"
  shows "kvregion_is_free sp va s = lret (gap_at (spans s xs) 4096 (unat va))"
proof -
  obtain a where a: "search_interval_addr sp va s = lret a" "if a = 0 then gap_at (spans s xs) 4096 (unat va)
     else a \<in> set xs \<and> vi_from (vr_ivs s a) < va + PAGE_SIZE \<and> va < vi_to (vr_ivs s a)"
    using search_correct [OF assms(1-3)] by blast
  have "\<not> gap_at (spans s xs) 4096 (unat va)" if "a \<noteq> 0"
    using a(2) that assms(3)
    by (auto simp: gap_at_def spans_def span_def word_less_nat_alt unat_word_ariths PAGE_SIZE_def intro!: bexI [of _ a])
  then show ?thesis using a assms(4,5) by (auto simp: kvregion_is_free_def)
qed

lemma vr_rb_remove_correct:
  assumes "vr_ok s (us @ p # vs)"
  shows "\<exists>root h. vr_rb_remove p s = lret (s\<lparr>vr_root := root, vr_nodes := h\<rparr>) \<and>
    vr_lists (s\<lparr>vr_root := root, vr_nodes := h\<rparr>) (us @ vs)"
proof -
  obtain t where t: "wft (vr_nodes s) (vr_root s) t" "rb_inv t" "bst (interval_cmp (vr_ivs s)) t" "inord t = us @ p # vs"
    and iv: "\<forall>a\<in>set (us @ p # vs). iv_ok (vr_ivs s) a" using assms by (auto simp: vr_ok_def)
  have "wft (vr_nodes s) (rb_root (vr_tree s)) t" using t(1) by (simp add: vr_tree_def)
  from rb_remove_node_correct [OF this t(2,4)] obtain root' h' aug t' where
    r: "rb_remove_node (vr_tree s, vr_nodes s) p = Some (p, ((vr_tree s)\<lparr>rb_root := root'\<rparr>, h'), aug)"
      "wft h' root' t'" "inord t' = us @ vs" by blast
  have "bst (interval_cmp (vr_ivs s)) t'" using t(3,4) r(3) by (simp add: bst_def sorted_wrt_append)
  then have "vr_lists (s\<lparr>vr_root := root', vr_nodes := h'\<rparr>) (us @ vs)" using r iv by (auto simp: vr_lists_def)
  then show ?thesis using r(1) by (auto simp: vr_rb_remove_def)
qed

lemma kvregion_release_correct:
  assumes ok: "vr_ok s (us @ p # vs)" and sp: "sp \<notin> set (us @ p # vs)"
    and va: "vi_from (vr_ivs s p) = va" "unat va + 4096 \<le> unat (vi_to (vr_ivs s p))"
  shows "\<exists>root h. kvregion_release sp va s = lret (s\<lparr>vr_root := root, vr_nodes := h\<rparr>) \<and>
    vr_lists (s\<lparr>vr_root := root, vr_nodes := h\<rparr>) (us @ vs)"
proof -
  let ?xs = "us @ p # vs"
  have lt: "unat va + 4096 < 4294967296" using va(2) unat_u32_lt [of "vi_to (vr_ivs s p)"] by (simp del: unat_u32_lt)
  obtain a where a: "search_interval_addr sp va s = lret a" "if a = 0 then gap_at (spans s ?xs) 4096 (unat va)
     else a \<in> set ?xs \<and> vi_from (vr_ivs s a) < va + PAGE_SIZE \<and> va < vi_to (vr_ivs s a)"
    using search_correct [OF vr_ok_lists [OF ok] sp lt] by blast
  have e: "unat (va + PAGE_SIZE) = unat va + 4096" using lt by (simp add: unat_word_ariths PAGE_SIZE_def)
  have srt: "sorted_spans (spans s ?xs)" using vr_ok_sorted [OF ok] .
  have "a = p"
  proof (rule ccontr)
    assume ne: "a \<noteq> p"
    have "\<not> gap_at (spans s ?xs) 4096 (unat va)" using va by (auto simp: gap_at_def spans_def span_def)
    then have "a \<in> set us \<or> a \<in> set vs" "vi_from (vr_ivs s a) < va + PAGE_SIZE" "va < vi_to (vr_ivs s a)"
      using a(2) ne by (auto split: if_splits)
    then show False using srt va e
      by (auto simp: sorted_spans_def spans_def span_def sorted_wrt_append sorted_wrt_map word_less_nat_alt)
  qed
  moreover have "p \<noteq> 0" using ok rtree_nonzero [of "vr_nodes s" 0 _ p] by (fastforce simp: vr_ok_def wft_def)
  ultimately show ?thesis using a(1) vr_rb_remove_correct [OF ok] by (simp add: kvregion_release_def)
qed


section \<open>Reserving\<close>

text \<open>What is asked of the slab cache: it hands out the address of an unused, aligned node and leaves
  the intervals in use alone.\<close>

definition gives_node ::
  "('a vr_state_scheme \<Rightarrow> (usize_ptr \<times> 'a vr_state_scheme) kloop) \<Rightarrow> 'a vr_state_scheme \<Rightarrow> usize_ptr list \<Rightarrow> usize_ptr \<Rightarrow> bool" where
  "gives_node kalloc s xs p \<longleftrightarrow> (\<exists>s'. kalloc s = lret (p, s') \<and> vr_root s' = vr_root s \<and>
     (\<forall>a\<in>set xs. vr_nodes s' a = vr_nodes s a \<and> vr_ivs s' a = vr_ivs s a) \<and>
     vr_nodes s' p \<noteq> None \<and> p \<noteq> 0 \<and> aligned p \<and> p \<notin> set xs)"

lemma kvregion_mark_correct:
  assumes ok: "vr_ok s xs" and g: "gives_node kalloc s xs p"
    and n: "n = unat count * 4096" "0 < n" "unat va + n < 4294967296"
  shows "\<exists>s'. kvregion_mark kalloc va count vregion name s = lret s' \<and> (\<forall>a\<in>set xs. vr_ivs s' a = vr_ivs s a) \<and>
    (if gap_at (spans s xs) n (unat va)
     then \<exists>us vs. xs = us @ vs \<and> vr_ok s' (us @ p # vs) \<and> span (vr_ivs s') p = (unat va, unat va + n)
     else vr_ok s' xs)"
proof -
  obtain s1 where k: "kalloc s = lret (p, s1)" "vr_root s1 = vr_root s"
      "\<forall>a\<in>set xs. vr_nodes s1 a = vr_nodes s a \<and> vr_ivs s1 a = vr_ivs s a"
      "vr_nodes s1 p \<noteq> None" "p \<noteq> 0" "aligned p" "p \<notin> set xs" using g by (auto simp: gives_node_def)
  obtain nd where nd: "vr_nodes s1 p = Some nd" using k(4) by auto
  define s2 where "s2 = s1\<lparr>vr_ivs := (vr_ivs s1)(p := (vr_ivs s1 p)
                \<lparr>vi_from := va, vi_to := va + count * PAGE_SIZE, vi_name := name, vi_vregion := vregion\<rparr>)\<rparr>"
  have "unat (count * PAGE_SIZE) = n" using n by (simp add: unat_word_ariths PAGE_SIZE_def)
  then have e: "unat (va + count * PAGE_SIZE) = unat va + n" using n by (simp add: unat_word_ariths)
  have sp: "span (vr_ivs s2) p = (unat va, unat va + n)" by (simp add: s2_def span_def e)
  have same: "vr_ivs s2 a = vr_ivs s a" if "a \<in> set xs" for a using that k(3,7) by (auto simp: s2_def)
  have ok2: "vr_ok s2 xs" using vr_ok_cong [OF ok, of s2] k(2,3) same by (simp add: s2_def)
  have ivp: "iv_ok (vr_ivs s2) p" using n e by (simp add: iv_ok_def s2_def word_less_nat_alt)
  have run: "kvregion_mark kalloc va count vregion name s = vr_rb_insert p s2"
    using k by (simp add: kvregion_mark_def s2_def)
  have cmp: "(\<exists>a\<in>set xs. interval_cmp (vr_ivs s2) a p = 0) \<longleftrightarrow> \<not> gap_at (spans s xs) n (unat va)"
    using same sp by (auto simp: interval_cmp_zero gap_at_def spans_def span_def word_less_nat_alt not_le)
  have nd2: "vr_nodes s2 p = Some nd" using nd by (simp add: s2_def)
  note ins = vr_rb_insert_correct [OF ok2 nd2 k(5-7) ivp, unfolded cmp]
  show ?thesis
  proof (cases "gap_at (spans s xs) n (unat va)")
    case True
    then obtain root h us vs where r: "vr_rb_insert p s2 = lret (s2\<lparr>vr_root := root, vr_nodes := h\<rparr>)" "xs = us @ vs"
      "vr_ok (s2\<lparr>vr_root := root, vr_nodes := h\<rparr>) (us @ p # vs)" using ins by auto
    then show ?thesis using True run sp same by auto
  next
    case False
    then show ?thesis using ins run same ok2 by auto
  qed
qed

lemma find_gap_start_least:
  assumes "vr_ok s xs" "\<forall>a\<in>set xs. HIGH_VADDR \<le> vi_from (vr_ivs s a)" "0 < n" "n = unat sz"
    and g: "gap_at (spans s xs) n g" "3221225472 \<le> g" "g + n \<le> 4294967296"
    and below: "length xs < 2 \<or> g + n \<le> unat (vi_from (vr_ivs s (last xs)))"
  shows "\<exists>va. find_gap_start s sz HIGH_VADDR MAX_VADDR = lret va \<and> va \<noteq> 0 \<and> gap_at (spans s xs) n (unat va) \<and> 3221225472 \<le> unat va \<and>
    (\<forall>b. 3221225472 \<le> b \<longrightarrow> gap_at (spans s xs) n b \<longrightarrow> unat va \<le> b)"
proof -
  let ?L = "spans s xs"
  note eq = find_gap_start_eq [OF assms(1,2), of sz, folded assms(4)]
  have srt: "sorted_spans ?L" using vr_ok_sorted [OF assms(1)] .
  have lo: "\<forall>x\<in>set ?L. 3221225472 \<le> fst x" using assms(2) by (auto simp: spans_def span_def HIGH_VADDR_def word_le_nat_alt)
  show ?thesis
  proof (cases "first_gap n 3221225472 ?L")
    case (Some v)
    from first_gap_Some [OF Some srt lo] assms(3) have
      v: "gap_at ?L n v" "3221225472 \<le> v" "\<exists>x\<in>set ?L. v + n \<le> fst x" "\<forall>b\<ge>3221225472. gap_at ?L n b \<longrightarrow> v \<le> b" by auto
    have "v < 4294967296"
      using v(3) unat_u32_lt by (auto simp: spans_def span_def simp del: unat_u32_lt) (meson add_leE le_less_trans)
    then have "unat (of_nat v :: u32) = v" by (simp add: unat_of_nat)
    then show ?thesis using eq Some v by (intro exI [of _ "of_nat v"]) (auto dest: arg_cong [of _ _ unat])
  next
    case None
    show ?thesis
    proof (cases "xs = []")
      case True
      then show ?thesis using eq None g
        by (intro exI [of _ HIGH_VADDR]) (auto simp: HIGH_VADDR_def gap_at_def spans_def)
    next
      case False
      have last: "last ?L = span (vr_ivs s) (last xs)" using False by (simp add: spans_def last_map)
      have last_in: "last xs \<in> set xs" using False by simp
      then have iv: "vi_from (vr_ivs s (last xs)) < vi_to (vr_ivs s (last xs))" using assms(1) by (simp add: vr_ok_def iv_ok_def)
      have ge: "unat (vi_to (vr_ivs s (last xs))) \<le> g"
        using first_gap_None [OF None srt lo _ g(2,1)] False last by (simp add: spans_def span_def)
      then have "length xs < 2" using below iv by (auto simp: word_less_nat_alt)
      then obtain a where xs: "xs = [a]" using False by (cases xs) auto
      have min: "unat (vi_to (vr_ivs s a)) \<le> b" if "3221225472 \<le> b" "gap_at ?L n b" for b
        using first_gap_None [OF None srt lo _ that] False last xs by (simp add: spans_def span_def)
      have "gap_at ?L n (unat (vi_to (vr_ivs s a)))" by (simp add: gap_at_def spans_def span_def xs)
      moreover have "3221225472 \<le> unat (vi_to (vr_ivs s a))" using lo iv xs by (simp add: spans_def span_def word_less_nat_alt)
      moreover have "vi_to (vr_ivs s a) \<noteq> 0" using iv xs by (auto simp: word_less_nat_alt)
      ultimately show ?thesis using eq None xs ge g(3) min by (auto simp: top_candidate_def Let_def)
    qed
  qed
qed


section \<open>Concrete states\<close>

definition no_interval :: virt_interval where
  "no_interval = \<lparr>vi_from = 0, vi_to = 0, vi_name = [], vi_vregion = VREGION_UNKNOWN, vi_vflags = 0\<rparr>"

definition blank_regions :: vr_state where
  "blank_regions = \<lparr>vr_root = NULL, vr_nodes = fresh_heap, vr_ivs = (\<lambda>_. no_interval)\<rparr>"

text \<open>A cache that hands out the given node.\<close>

definition node_cache :: "usize_ptr \<Rightarrow> vr_state \<Rightarrow> (usize_ptr \<times> vr_state) kloop" where
  "node_cache p s = lret (p, s)"

text \<open>Two regions with a gap of 64 KiB between them and 512 MiB above them.\<close>

definition two_regions :: vr_state where
  "two_regions = \<lparr>vr_root = 4,
     vr_nodes = [4 \<mapsto> \<lparr>parent_color = 0, rb_left = 0, rb_right = 8\<rparr>, 8 \<mapsto> \<lparr>parent_color = 5, rb_left = 0, rb_right = 0\<rparr>],
     vr_ivs = (\<lambda>_. no_interval)(4 := no_interval\<lparr>vi_from := 0xC0000000, vi_to := 0xD0000000\<rparr>,
                               8 := no_interval\<lparr>vi_from := 0xD0010000, vi_to := 0xE0000000\<rparr>)\<rparr>"

lemma two_regions_ok: "vr_ok two_regions [4, 8]"
proof -
  have "wft (vr_nodes two_regions) (vr_root two_regions) (Nd False Lf 4 (Nd True Lf 8 Lf))"
    by (simp add: two_regions_def wft_def node_at_def node_is_def aligned_def RB_FLAGS_def RB_COLOR_def)
  then show ?thesis
    by (auto simp: vr_ok_def rb_inv_def bst_def interval_cmp_neg iv_ok_def two_regions_def
        intro!: exI [of _ "Nd False Lf 4 (Nd True Lf 8 Lf)"])
qed

lemma blank_regions_ok: "vr_ok blank_regions []"
  by (auto simp: vr_ok_def blank_regions_def wft_def rb_inv_def bst_def intro!: exI [of _ Lf])

lemma node_cache_gives:
  "vr_nodes s p \<noteq> None \<Longrightarrow> p \<noteq> 0 \<Longrightarrow> aligned p \<Longrightarrow> p \<notin> set xs \<Longrightarrow> gives_node (node_cache p) s xs p"
  by (auto simp: gives_node_def node_cache_def)

section \<open>Properties\<close>

text \<open>C11. Reserving virtual pages: when there is room below the last region (or there is at most one
  region), \<^verbatim>\<open>kvregion_reserve\<close> returns the lowest address of the high half at which the requested
  pages are free, the tree then holds exactly the old regions and the new one, still in order
  and balanced, and no other region is changed.\<close>

theorem kvregion_reserve_first_gap:
  assumes "vr_ok s xs" "\<forall>a\<in>set xs. HIGH_VADDR \<le> vi_from (vr_ivs s a)" "gives_node kalloc s xs p"
    and "n = unat count * 4096" "0 < n" "n < 4294967296"
    and "gap_at (spans s xs) n g" "3221225472 \<le> g" "g + n < 4294967296"
    and "length xs < 2 \<or> g + n \<le> unat (vi_from (vr_ivs s (last xs)))"
  shows "\<exists>va s' us vs. kvregion_reserve kalloc count vregion name s = lret (va, s') \<and>
    gap_at (spans s xs) n (unat va) \<and> HIGH_VADDR \<le> va \<and>
    (\<forall>b. 3221225472 \<le> b \<longrightarrow> gap_at (spans s xs) n b \<longrightarrow> unat va \<le> b) \<and>
    xs = us @ vs \<and> vr_ok s' (us @ p # vs) \<and> span (vr_ivs s') p = (unat va, unat va + n) \<and>
    (\<forall>a\<in>set xs. vr_ivs s' a = vr_ivs s a)"
proof -
  have sz: "unat (count * PAGE_SIZE) = n" using assms(4,6) by (simp add: unat_word_ariths PAGE_SIZE_def)
  obtain va where va: "find_gap_start s (count * PAGE_SIZE) HIGH_VADDR MAX_VADDR = lret va" "va \<noteq> 0"
      "gap_at (spans s xs) n (unat va)" "3221225472 \<le> unat va" "\<forall>b. 3221225472 \<le> b \<longrightarrow> gap_at (spans s xs) n b \<longrightarrow> unat va \<le> b"
    using find_gap_start_least [OF assms(1,2,5) sz [symmetric] assms(7,8) _ assms(10)] assms(9) by auto
  have "unat va + n < 4294967296" using va(5) assms(7-9) by fastforce
  then obtain s' where m: "kvregion_mark kalloc va count vregion (case name of Some n \<Rightarrow> n | None \<Rightarrow> RESERVE_PAGES_NAME) s = lret s'"
      "\<forall>a\<in>set xs. vr_ivs s' a = vr_ivs s a"
      "\<exists>us vs. xs = us @ vs \<and> vr_ok s' (us @ p # vs) \<and> span (vr_ivs s') p = (unat va, unat va + n)"
    using kvregion_mark_correct [OF assms(1,3,4,5), of va vregion "case name of Some n \<Rightarrow> n | None \<Rightarrow> RESERVE_PAGES_NAME"] va(3)
    by auto
  have "HIGH_VADDR \<le> va" using va(4) by (simp add: HIGH_VADDR_def word_le_nat_alt)
  then show ?thesis using va m by (auto simp: kvregion_reserve_def)
qed

theorem kvregion_reserve_first_gap_witness:
  "\<exists>va s'. kvregion_reserve (node_cache 4) 16 VREGION_HEAP None blank_regions = lret (va, s') \<and>
     HIGH_VADDR \<le> va \<and> vr_ok s' [4] \<and> span (vr_ivs s') 4 = (unat va, unat va + 65536)"
proof -
  have g: "gives_node (node_cache 4) blank_regions [] 4"
    by (rule node_cache_gives) (simp_all add: blank_regions_def fresh_heap_def aligned_def RB_FLAGS_def)
  show ?thesis
    using kvregion_reserve_first_gap [OF blank_regions_ok _ g, where n = 65536 and count = 16 and g = 3221225472 and vregion = VREGION_HEAP and name = None]
    by (auto simp: gap_at_def spans_def)
qed

text \<open>A page is reported free exactly when it meets no region.\<close>

theorem kvregion_is_free_iff:
  assumes "vr_ok s xs" "sp \<notin> set xs" "unat va + 4096 < 4294967296" "va \<noteq> 0" "va AND (PAGE_SIZE - 1) = 0"
  shows "kvregion_is_free sp va s = lret (gap_at (spans s xs) 4096 (unat va))"
  using kvregion_is_free_correct [OF vr_ok_lists] assms by blast

theorem kvregion_is_free_iff_witness:
  "kvregion_is_free 4 0xC0000000 blank_regions = lret True"
  using kvregion_is_free_iff [OF blank_regions_ok, of 4 "0xC0000000"]
  by (simp add: PAGE_SIZE_def gap_at_def spans_def)

text \<open>C34. Marking a free range and releasing its first page gives back the map there was: the release
  finds the region, unlinks it and nothing else, and afterwards the same pages are free as
  before.\<close>

theorem kvregion_mark_release:
  assumes "vr_ok s xs" "gives_node kalloc s xs p" "sp \<notin> set (p # xs)"
    and "n = unat count * 4096" "0 < n" "unat va + n < 4294967296" "gap_at (spans s xs) n (unat va)"
  shows "\<exists>s1 s2. kvregion_mark kalloc va count vregion name s = lret s1 \<and> kvregion_release sp va s1 = lret s2 \<and>
    vr_lists s2 xs \<and> (\<forall>a\<in>set xs. vr_ivs s2 a = vr_ivs s a) \<and>
    (\<forall>v. v \<noteq> 0 \<and> v AND (PAGE_SIZE - 1) = 0 \<and> unat v + 4096 < 4294967296 \<longrightarrow>
       kvregion_is_free sp v s2 = kvregion_is_free sp v s)"
proof -
  obtain s1 us vs where m: "kvregion_mark kalloc va count vregion name s = lret s1" "\<forall>a\<in>set xs. vr_ivs s1 a = vr_ivs s a"
      "xs = us @ vs" "vr_ok s1 (us @ p # vs)" "span (vr_ivs s1) p = (unat va, unat va + n)"
    using kvregion_mark_correct [OF assms(1,2,4,5,6), of vregion name] assms(7) by auto
  have p: "vi_from (vr_ivs s1 p) = va" "unat va + 4096 \<le> unat (vi_to (vr_ivs s1 p))"
    using m(5) assms(4,5) by (auto simp: span_def word_unat_eq_iff)
  obtain root h where r: "kvregion_release sp va s1 = lret (s1\<lparr>vr_root := root, vr_nodes := h\<rparr>)"
      "vr_lists (s1\<lparr>vr_root := root, vr_nodes := h\<rparr>) xs"
    using kvregion_release_correct [OF m(4) _ p, of sp] assms(3) m(3) by auto
  have "spans (s1\<lparr>vr_root := root, vr_nodes := h\<rparr>) xs = spans s xs"
    using m(2) by (auto simp: spans_def span_def)
  then have "kvregion_is_free sp v (s1\<lparr>vr_root := root, vr_nodes := h\<rparr>) = kvregion_is_free sp v s"
    if "v \<noteq> 0" "v AND (PAGE_SIZE - 1) = 0" "unat v + 4096 < 4294967296" for v
    using kvregion_is_free_correct [OF r(2), of sp v] kvregion_is_free_correct [OF vr_ok_lists [OF assms(1)], of sp v] assms(3) that
    by simp
  then show ?thesis using m r by auto
qed

theorem kvregion_mark_release_witness:
  "\<exists>s1 s2. kvregion_mark (node_cache 4) 0xC0000000 16 VREGION_HEAP [] blank_regions = lret s1 \<and>
     kvregion_release 8 0xC0000000 s1 = lret s2 \<and> vr_lists s2 []"
proof -
  have g: "gives_node (node_cache 4) blank_regions [] 4"
    by (rule node_cache_gives) (simp_all add: blank_regions_def fresh_heap_def aligned_def RB_FLAGS_def)
  show ?thesis
    using kvregion_mark_release [OF blank_regions_ok g, where sp = 8 and n = 65536 and count = 16 and va = "0xC0000000" and vregion = VREGION_HEAP and name = "[]"]
    by (auto simp: gap_at_def spans_def)
qed

text \<open>Above the last region the search goes wrong: with two or more regions, when no gap below the
  last one is large enough, the end of the last region but one is returned whenever the
  pages fit below the top of memory from there, and the range overlaps the last region.\<close>

theorem find_gap_start_overlaps:
  assumes "vr_ok s xs" "xs = us @ [a, b]" "\<forall>c\<in>set xs. HIGH_VADDR \<le> vi_from (vr_ivs s c)" "0 < unat sz"
    and "\<forall>g. 3221225472 \<le> g \<and> gap_at (spans s xs) (unat sz) g \<longrightarrow> unat (vi_to (vr_ivs s b)) \<le> g"
    and "unat (vi_to (vr_ivs s a)) + unat sz \<le> 4294967296"
  shows "find_gap_start s sz HIGH_VADDR MAX_VADDR = lret (vi_to (vr_ivs s a)) \<and>
    \<not> gap_at (spans s xs) (unat sz) (unat (vi_to (vr_ivs s a)))"
proof -
  let ?L = "spans s xs"
  have srt: "sorted_spans ?L" using vr_ok_sorted [OF assms(1)] .
  have lo: "\<forall>x\<in>set ?L. 3221225472 \<le> fst x" using assms(3) by (auto simp: spans_def span_def HIGH_VADDR_def word_le_nat_alt)
  have ab: "unat (vi_to (vr_ivs s a)) \<le> unat (vi_from (vr_ivs s b))" "unat (vi_from (vr_ivs s b)) < unat (vi_to (vr_ivs s b))"
      "unat (vi_from (vr_ivs s a)) < unat (vi_to (vr_ivs s a))"
    using srt assms(2) by (auto simp: sorted_spans_def spans_def span_def sorted_wrt_append)
  have high: "3221225472 \<le> unat (vi_to (vr_ivs s a))" using lo ab(3) assms(2) by (auto simp: spans_def span_def)
  have "first_gap (unat sz) 3221225472 ?L = None"
  proof (rule ccontr)
    assume "first_gap (unat sz) 3221225472 ?L \<noteq> None"
    then obtain v where v: "first_gap (unat sz) 3221225472 ?L = Some v" by blast
    from first_gap_Some [OF v srt lo] have g: "gap_at ?L (unat sz) v" "3221225472 \<le> v" "\<exists>x\<in>set ?L. v + unat sz \<le> fst x" by auto
    have "unat (vi_to (vr_ivs s b)) \<le> v" using assms(5) g by blast
    moreover have "fst x \<le> unat (vi_from (vr_ivs s b))" if "x \<in> set ?L" for x
      using that srt assms(2) ab by (fastforce simp: sorted_spans_def spans_def span_def sorted_wrt_append)
    ultimately show False using g(3) ab(2) by fastforce
  qed
  then have "find_gap_start s sz HIGH_VADDR MAX_VADDR = lret (vi_to (vr_ivs s a))"
    using find_gap_start_eq [OF assms(1,3), of sz] assms(2,6) by (simp add: top_candidate_def butlast_append)
  moreover have "\<not> gap_at ?L (unat sz) (unat (vi_to (vr_ivs s a)))" using assms(5) high ab by fastforce
  ultimately show ?thesis by blast
qed

theorem find_gap_start_overlaps_witness:
  "find_gap_start two_regions 0x20000000 HIGH_VADDR MAX_VADDR = lret 0xD0000000 \<and>
     \<not> gap_at (spans two_regions [4, 8]) 0x20000000 0xD0000000"
proof -
  have sp: "spans two_regions [4, 8] = [(0xC0000000, 0xD0000000), (0xD0010000, 0xE0000000)]"
    by (simp add: spans_def span_def two_regions_def)
  have "find_gap_start two_regions 0x20000000 HIGH_VADDR MAX_VADDR = lret (vi_to (vr_ivs two_regions 4)) \<and>
    \<not> gap_at (spans two_regions [4, 8]) (unat (0x20000000 :: u32)) (unat (vi_to (vr_ivs two_regions 4)))"
  proof (rule find_gap_start_overlaps [OF two_regions_ok, where us = "[]" and b = 8])
    show "\<forall>g. 3221225472 \<le> g \<and> gap_at (spans two_regions [4, 8]) (unat (0x20000000 :: u32)) g \<longrightarrow> unat (vi_to (vr_ivs two_regions 8)) \<le> g"
      unfolding sp by (auto simp: gap_at_def two_regions_def)
  qed (simp_all add: two_regions_def HIGH_VADDR_def)
  then show ?thesis by (simp add: two_regions_def)
qed

end
