(* ===== verification/Virt_Map.thy ===== *)
theory Virt_Map
  imports Virt_Region Memory_Manager
begin

text \<open>
  Mapping and allocating virtual pages: \<^verbatim>\<open>kernel/memory/virt/virt_map.c\<close> and
  \<^verbatim>\<open>kernel/memory/virt/virt_alloc.c\<close>. The state of the region map is extended with the
  physical memory (the page tables) and the memory manager. The results of
  \<^verbatim>\<open>paging_map_pages\<close> are ignored, as in the source.
\<close>

section \<open>Definitions\<close>

record virt_state = vr_state +
  vs_mem :: phys_mem
  vs_mm :: mm_state

definition VFLAG_READ :: u16 where "VFLAG_READ = 0x1"
definition VFLAG_WRITE :: u16 where "VFLAG_WRITE = 0x2"
definition VFLAG_EXEC :: u16 where "VFLAG_EXEC = 0x4"
definition VFLAG_USER :: u16 where "VFLAG_USER = 0x8"
definition VFLAG_SHARED :: u16 where "VFLAG_SHARED = 0x10"

fun vregion_to_vflags :: "virt_region_type \<Rightarrow> u16" where
  "vregion_to_vflags VREGION_KERNELIMG = VFLAG_READ OR VFLAG_EXEC OR VFLAG_WRITE"
| "vregion_to_vflags VREGION_PFN = VFLAG_READ OR VFLAG_WRITE"
| "vregion_to_vflags VREGION_HEAP = VFLAG_READ OR VFLAG_WRITE"
| "vregion_to_vflags VREGION_USER = VFLAG_READ OR VFLAG_WRITE OR VFLAG_USER"
| "vregion_to_vflags VREGION_CACHE = VFLAG_READ OR VFLAG_SHARED"
| "vregion_to_vflags VREGION_MMIO = VFLAG_READ OR VFLAG_WRITE OR VFLAG_SHARED"
| "vregion_to_vflags VREGION_ACPI = VFLAG_READ OR VFLAG_SHARED"
| "vregion_to_vflags VREGION_BIO_BUFFER = VFLAG_READ OR VFLAG_WRITE"
| "vregion_to_vflags VREGION_DRIVER = VFLAG_READ OR VFLAG_WRITE OR VFLAG_SHARED"
| "vregion_to_vflags VREGION_RESREVED = 0"
| "vregion_to_vflags VREGION_UNKNOWN = 0"

definition vflags_to_paging :: "u16 \<Rightarrow> u16" where
  "vflags_to_paging vmm_flags =
     (let paging_flags = PAGING_FLAG_PRESENT;
          paging_flags = (if vmm_flags AND VFLAG_READ \<noteq> 0 then paging_flags OR PAGING_FLAG_READ else paging_flags);
          paging_flags = (if vmm_flags AND VFLAG_EXEC = 0 then paging_flags OR PAGING_FLAG_NOEXEC else paging_flags);
          paging_flags = (if vmm_flags AND VFLAG_USER \<noteq> 0 then paging_flags OR PAGING_FLAG_USER else paging_flags);
          paging_flags = (if vmm_flags AND VFLAG_WRITE \<noteq> 0 then paging_flags OR PAGING_FLAG_WRITE else paging_flags)
      in paging_flags)"

type_synonym cache = "virt_state \<Rightarrow> (usize_ptr \<times> virt_state) kloop"

definition vmap_pages ::
  "cache \<Rightarrow> u32 \<Rightarrow> u32 \<Rightarrow> page_ptr \<Rightarrow> virt_region_type \<Rightarrow> usize_ptr \<Rightarrow> virt_state \<Rightarrow> virt_state kloop" where
  "vmap_pages kalloc cr3 va pfn vregion count s =
     lbind (Some (vregion_to_str vregion)) (\<lambda>name.
     lbind (kvregion_mark kalloc va count vregion name s) (\<lambda>s.
     lbind (Some (pfn_to_pa pfn)) (\<lambda>pa.
     lbind (paging_map_pages mm_alloc_pagetable cr3 pa va count (vflags_to_paging (vregion_to_vflags vregion)) (vs_mem s, vs_mm s))
       (\<lambda>(_, m, mm). lret (s\<lparr>vs_mem := m, vs_mm := mm\<rparr>)))))"

definition vmap_page :: "cache \<Rightarrow> u32 \<Rightarrow> u32 \<Rightarrow> page_ptr \<Rightarrow> virt_region_type \<Rightarrow> virt_state \<Rightarrow> virt_state kloop" where
  "vmap_page kalloc cr3 va pfn vregion = vmap_pages kalloc cr3 va pfn vregion 1"

text \<open>The physical address is passed on as if it were a pointer to a descriptor; \<open>as_desc\<close> is the
  descriptor that an address denotes when it is read that way.\<close>

definition vmap_identity ::
  "(u32 \<Rightarrow> page_ptr) \<Rightarrow> cache \<Rightarrow> u32 \<Rightarrow> u32 \<Rightarrow> usize_ptr \<Rightarrow> virt_region_type \<Rightarrow> virt_state \<Rightarrow> (u32 \<times> virt_state) kloop" where
  "vmap_identity as_desc kalloc cr3 pa count type s =
     lbind (vmap_pages kalloc cr3 pa (as_desc pa) type count s) (\<lambda>s. lret (pa, s))"

definition kvalloc_pages :: "cache \<Rightarrow> u32 \<Rightarrow> usize_ptr \<Rightarrow> virt_region_type \<Rightarrow> virt_state \<Rightarrow> (u32 \<times> virt_state) kloop" where
  "kvalloc_pages kalloc cr3 count vregion s =
     lbind (Some (vregion_to_str vregion)) (\<lambda>name.
     lbind (kvregion_reserve kalloc count vregion (Some name) s) (\<lambda>(va, s).
     lbind (mm_alloc_pages count (mm_pfn (vs_mm s))) (\<lambda>(page, p).
     lbind (vmap_pages kalloc cr3 va page vregion count (s\<lparr>vs_mm := (vs_mm s)\<lparr>mm_pfn := p\<rparr>\<rparr>)) (\<lambda>s.
     lret (va, s)))))"

definition kvfree_pages :: "usize_ptr \<Rightarrow> u32 \<Rightarrow> virt_state \<Rightarrow> virt_state kloop" where
  "kvfree_pages sp va_ptr = kvregion_release sp va_ptr"

section \<open>Properties\<close>

text \<open>The entry flags of the pages of a region.\<close>

definition region_hw_flags :: "virt_region_type \<Rightarrow> u16" where
  "region_hw_flags r = paging_to_hw_flags (vflags_to_paging (vregion_to_vflags r) OR PAGING_FLAG_PRESENT)"

lemmas vflag_defs = VFLAG_READ_def VFLAG_WRITE_def VFLAG_EXEC_def VFLAG_USER_def VFLAG_SHARED_def
  PAGING_FLAG_PRESENT_def PAGING_FLAG_DIRTY_def PAGING_FLAG_ACCESS_def PAGING_FLAG_USER_def PAGING_FLAG_WRITE_def
  PAGING_FLAG_NOEXEC_def PAGING_FLAG_READ_def PAGE_ENTRY_FLAG_PRESENT_def PAGE_ENTRY_FLAG_WRITE_def
  PAGE_ENTRY_FLAG_USER_def PAGE_ENTRY_FLAG_ACCESS_def PAGE_ENTRY_FLAG_DIRTY_def

text \<open>The protection of a region: the entries of every region are present, those of
  \<^verbatim>\<open>VREGION_USER\<close> alone are open to user mode, and the entries of caches, ACPI tables and
  reserved or unknown regions are not writable.\<close>

theorem region_protection:
  "region_hw_flags r AND ucast PAGE_ENTRY_FLAG_PRESENT \<noteq> 0 \<and>
   (region_hw_flags r AND ucast PAGE_ENTRY_FLAG_USER \<noteq> 0 \<longleftrightarrow> r = VREGION_USER) \<and>
   (region_hw_flags r AND ucast PAGE_ENTRY_FLAG_WRITE = 0 \<longleftrightarrow>
      r \<in> {VREGION_CACHE, VREGION_ACPI, VREGION_RESREVED, VREGION_UNKNOWN})"
  by (cases r) (simp_all add: region_hw_flags_def vflags_to_paging_def paging_to_hw_flags_def vflag_defs Let_def)

end
