(* ===== verification/Heap.thy ===== *)
theory Heap
  imports Core_Defs
begin

text \<open>
  The kernel heap of \<^verbatim>\<open>kernel/memory/heap/heap.c\<close>: a buddy allocator whose free lists run through
  the page descriptors, and a slab allocator on top of it whose free lists run through the
  free objects.

  \<^item> The heap's part of a page descriptor is \<open>hpage\<close>: the flags and the six words of the union of
    \<^verbatim>\<open>heap_structs.h\<close>, which the buddy view and the slab view share (\<open>hp_w1\<close> is \<^verbatim>\<open>virt_addr\<close> for one and
    \<^verbatim>\<open>obj_count\<close> and \<^verbatim>\<open>used_count\<close> for the other, and so on).
  \<^item> Pointers are addresses: a descriptor takes 36 bytes from \<open>hs_descs_va\<close> on, its list node begins at
    offset 16, its slab metadata at offset 12. A pointer that is not the address of such a part
    of a descriptor is \<open>BadAccess\<close> when it is followed.
  \<^item> \<open>hs_mem\<close> is the memory of the heap and of the variable \<^verbatim>\<open>heap\<close> at \<open>hs_vars_va\<close>, word by word: the heads of
    the free lists, the slab orders, the links of the free objects. \<open>hs_v2p\<close> is the translation
    of the page tables.
  \<^item> Buddy orders are natural numbers; the code keeps them in a \<^verbatim>\<open>u8\<close> and they stay below 32.
  \<^item> \<open>map_more\<close> stands for the two calls with which the heap takes pages and maps them at its end.
\<close>

section \<open>Data\<close>

record hpage =
  hp_flags :: u8
  hp_w0 :: u32
  hp_w1 :: u32
  hp_w2 :: u32
  hp_w3 :: u32
  hp_w4 :: u32
  hp_w5 :: u32

abbreviation "hp_num_pages \<equiv> hp_w0"
abbreviation "hp_slab_head \<equiv> hp_w0"
abbreviation "hp_virt_addr \<equiv> hp_w1"
abbreviation "hp_buddy_order \<equiv> hp_w2"
abbreviation "hp_prev_slab \<equiv> hp_w2"
abbreviation "hp_prev_free \<equiv> hp_w3"
abbreviation "hp_next_slab \<equiv> hp_w3"
abbreviation "hp_next_free \<equiv> hp_w4"
abbreviation "hp_free_node \<equiv> hp_w4"
abbreviation "hp_buddy_cache \<equiv> hp_w5"
abbreviation "hp_order_cache \<equiv> hp_w5"

definition hp_obj_count :: "hpage \<Rightarrow> u16" where
  "hp_obj_count d = ucast (hp_w1 d)"

definition hp_used_count :: "hpage \<Rightarrow> u16" where
  "hp_used_count d = ucast (drop_bit 16 (hp_w1 d))"

definition set_obj_count :: "u16 \<Rightarrow> hpage \<Rightarrow> hpage" where
  "set_obj_count c d = d\<lparr>hp_w1 := (hp_w1 d AND 0xFFFF0000) OR ucast c\<rparr>"

definition set_used_count :: "u16 \<Rightarrow> hpage \<Rightarrow> hpage" where
  "set_used_count c d = d\<lparr>hp_w1 := (hp_w1 d AND 0xFFFF) OR push_bit 16 (ucast c)\<rparr>"

definition HEAPFLAG_VFREE :: u8 where "HEAPFLAG_VFREE = 1"
definition HEAPFLAG_BUDDY :: u8 where "HEAPFLAG_BUDDY = 2"
definition HEAPFLAG_HEAD :: u8 where "HEAPFLAG_HEAD = 4"

abbreviation BUDDY_EXPON_MIN :: nat where "BUDDY_EXPON_MIN \<equiv> 12"
abbreviation BUDDY_ORDER_MAX :: nat where "BUDDY_ORDER_MAX \<equiv> 19"
abbreviation BUDDY_ORDER_COUNT :: nat where "BUDDY_ORDER_COUNT \<equiv> 20"
abbreviation SLAB_ORDER_COUNT :: u32 where "SLAB_ORDER_COUNT \<equiv> 13"
abbreviation SLAB_INDEX_ORDER_MAX :: u32 where "SLAB_INDEX_ORDER_MAX \<equiv> 12"
abbreviation SLAB_CUSTOM_ORDER :: u32 where "SLAB_CUSTOM_ORDER \<equiv> 14"
abbreviation MIN_SLAB_OBJ_AMOUNT :: u32 where "MIN_SLAB_OBJ_AMOUNT \<equiv> 32"
abbreviation MAX_SLAB_PAGE_AMOUNT :: u32 where "MAX_SLAB_PAGE_AMOUNT \<equiv> 64"

record heap_state =
  hs_pages :: "u32 \<Rightarrow> hpage"
  hs_count :: u32
  hs_descs_va :: u32
  hs_vars_va :: u32
  hs_v2p :: "u32 \<Rightarrow> u32"
  hs_mem :: "u32 \<Rightarrow> u32"
  heap_min_addr :: usize_ptr
  heap_cur_max_addr :: usize_ptr
  heap_reserved_max_addr :: usize_ptr
  heap_cur_size :: usize_ptr
  heap_reserved_max_size :: usize_ptr

section \<open>Access\<close>

definition hpage_get :: "heap_state \<Rightarrow> u32 \<Rightarrow> hpage kres" where
  "hpage_get s i = (if i < hs_count s then Inr (hs_pages s i) else Inl BadAccess)"

definition hpage_upd :: "u32 \<Rightarrow> (hpage \<Rightarrow> hpage) \<Rightarrow> heap_state \<Rightarrow> heap_state kres" where
  "hpage_upd i f s = (if i < hs_count s then Inr (s\<lparr>hs_pages := (hs_pages s)(i := f (hs_pages s i))\<rparr>) else Inl BadAccess)"

text \<open>The descriptor of the page that a virtual address is mapped to, \<^verbatim>\<open>pa_to_pfn(virt_to_phys(va))\<close>; every
  caller dereferences it, so NULL is an error here.\<close>

definition desc_of :: "heap_state \<Rightarrow> u32 \<Rightarrow> u32 kres" where
  "desc_of s va = (let i = hs_v2p s va div PAGE_SIZE in if i < hs_count s then Inr i else Inl BadAccess)"

definition part_ptr :: "u32 \<Rightarrow> heap_state \<Rightarrow> u32 \<Rightarrow> u32" where
  "part_ptr off s i = hs_descs_va s + 36 * i + off"

definition part_idx :: "u32 \<Rightarrow> heap_state \<Rightarrow> u32 \<Rightarrow> u32 kres" where
  "part_idx off s p = (let i = (p - hs_descs_va s - off) div 36
     in if i < hs_count s \<and> part_ptr off s i = p then Inr i else Inl BadAccess)"

abbreviation "order_ptr \<equiv> part_ptr 16"
abbreviation "order_idx \<equiv> part_idx 16"
abbreviation "slab_ptr \<equiv> part_ptr 12"
abbreviation "slab_idx \<equiv> part_idx 12"
abbreviation "desc_ptr \<equiv> part_ptr 0"
abbreviation "desc_idx \<equiv> part_idx 0"

definition buddy_cache_ptr :: "heap_state \<Rightarrow> nat \<Rightarrow> u32" where
  "buddy_cache_ptr s order = hs_vars_va s + 4 * of_nat order"

definition slab_order_ptr :: "heap_state \<Rightarrow> u32 \<Rightarrow> u32" where
  "slab_order_ptr s i = hs_vars_va s + 80 + 16 * i"

definition word_upd :: "u32 \<Rightarrow> u32 \<Rightarrow> heap_state \<Rightarrow> heap_state" where
  "word_upd a v s = s\<lparr>hs_mem := (hs_mem s)(a := v)\<rparr>"

definition free_buddies :: "heap_state \<Rightarrow> nat \<Rightarrow> u32" where
  "free_buddies s order = hs_mem s (buddy_cache_ptr s order)"

definition fb_get :: "heap_state \<Rightarrow> nat \<Rightarrow> u32 kres" where
  "fb_get s order = (if order < BUDDY_ORDER_COUNT then Inr (free_buddies s order) else Inl BadAccess)"

definition fb_set :: "nat \<Rightarrow> u32 \<Rightarrow> heap_state \<Rightarrow> heap_state kres" where
  "fb_set order p s = (if order < BUDDY_ORDER_COUNT then Inr (word_upd (buddy_cache_ptr s order) p s) else Inl BadAccess)"

definition klog2 :: "u32 \<Rightarrow> nat kres" where
  "klog2 x = (case log2_u32 x of None \<Rightarrow> Inl BadAccess | Some k \<Rightarrow> Inr (unat k))"

text \<open>The fields of a \<^verbatim>\<open>heap_slab_order_t\<close> and of a \<^verbatim>\<open>heap_slab_node_t\<close> at an address.\<close>

abbreviation "so_order s p \<equiv> hs_mem s p"
abbreviation "so_obj_size s p \<equiv> hs_mem s (p + 4)"
abbreviation "so_slab_size s p \<equiv> hs_mem s (p + 8)"
abbreviation "so_free_slab s p \<equiv> hs_mem s (p + 12)"
abbreviation "node_next s p \<equiv> hs_mem s (p + 4)"

section \<open>The buddy allocator\<close>

text \<open>Taking the block of descriptor \<open>i\<close> out of its list, as \<^verbatim>\<open>resolve_merge\<close> does for both halves.\<close>

definition buddy_unlink :: "nat \<Rightarrow> u32 \<Rightarrow> heap_state \<Rightarrow> heap_state kres" where
  "buddy_unlink order i s =
     kbind (hpage_get s i) (\<lambda>d.
     kbind (if hp_next_free d \<noteq> 0
            then kbind (order_idx s (hp_next_free d)) (\<lambda>j. hpage_upd j (\<lambda>e. e\<lparr>hp_w3 := hp_prev_free d\<rparr>) s)
            else Inr s) (\<lambda>s.
     kbind (hpage_get s i) (\<lambda>d.
     kbind (if hp_prev_free d \<noteq> 0
            then kbind (order_idx s (hp_prev_free d)) (\<lambda>j. hpage_upd j (\<lambda>e. e\<lparr>hp_w4 := hp_next_free d\<rparr>) s)
            else Inr s) (\<lambda>s.
     kbind (hpage_get s i) (\<lambda>d.
     kbind (fb_get s order) (\<lambda>hd.
     if hd = order_ptr s i then fb_set order (hp_next_free d) s else Inr s))))))"

text \<open>Putting it in front of a list.\<close>

definition buddy_push :: "nat \<Rightarrow> u32 \<Rightarrow> heap_state \<Rightarrow> heap_state kres" where
  "buddy_push order i s =
     kbind (fb_get s order) (\<lambda>hd.
     kbind (hpage_upd i (\<lambda>d. d\<lparr>hp_w4 := hd\<rparr>) s) (\<lambda>s.
     kbind (hpage_upd i (\<lambda>d. d\<lparr>hp_w3 := 0\<rparr>) s) (\<lambda>s.
     kbind (if hd \<noteq> 0 then kbind (order_idx s hd) (\<lambda>j. hpage_upd j (\<lambda>e. e\<lparr>hp_w3 := order_ptr s i\<rparr>) s) else Inr s) (\<lambda>s.
     fb_set order (order_ptr s i) s))))"

definition resolve_merge :: "u32 \<Rightarrow> nat \<Rightarrow> heap_state \<Rightarrow> (u32 option \<times> heap_state) kres" where
  "resolve_merge cur_desc order s =
     kbind (hpage_get s cur_desc) (\<lambda>d.
     let neighbour_va = hp_virt_addr d XOR push_bit (order + BUDDY_EXPON_MIN) 1
     in kbind (desc_of s neighbour_va) (\<lambda>neighbour_desc.
        kbind (hpage_get s neighbour_desc) (\<lambda>nd.
        let buddy_flags = HEAPFLAG_BUDDY OR HEAPFLAG_VFREE OR HEAPFLAG_HEAD
        in if hp_flags nd AND buddy_flags \<noteq> buddy_flags \<or> hp_num_pages nd \<noteq> hp_num_pages d
           then Inr (None, s)
           else let addr = min neighbour_va (hp_virt_addr d);
                    new_desc = (if addr = neighbour_va then neighbour_desc else cur_desc);
                    old_desc = (if addr = neighbour_va then cur_desc else neighbour_desc)
                in kbind (hpage_upd old_desc (\<lambda>e. e\<lparr>hp_flags := hp_flags e AND NOT HEAPFLAG_HEAD\<rparr>) s) (\<lambda>s.
                   kbind (buddy_unlink order new_desc s) (\<lambda>s.
                   kbind (buddy_unlink order old_desc s) (\<lambda>s.
                   kbind (hpage_upd old_desc (\<lambda>e. e\<lparr>hp_w4 := 0, hp_w3 := 0\<rparr>) s) (\<lambda>s.
                   let new_order = order + 1
                   in kbind (kassert (new_order < BUDDY_ORDER_COUNT)) (\<lambda>_.
                      kbind (buddy_push new_order new_desc s) (\<lambda>s.
                      kbind (hpage_upd new_desc (\<lambda>e. e\<lparr>hp_w5 := buddy_cache_ptr s new_order, hp_w2 := of_nat new_order,
                                                         hp_w0 := hp_w0 e * 2\<rparr>) s) (\<lambda>s.
                      Inr (Some new_desc, s))))))))))) "

partial_function (option) merge_upwards :: "u32 option \<Rightarrow> nat \<Rightarrow> heap_state \<Rightarrow> heap_state kloop" where
  "merge_upwards cur_desc order s =
     (case cur_desc of None \<Rightarrow> lret s
      | Some i \<Rightarrow> lbind (Some (resolve_merge i order s)) (\<lambda>(cur_desc, s). merge_upwards cur_desc (order + 1) s))"

declare merge_upwards.simps [code]

text \<open>The inner loop of \<^verbatim>\<open>add_buddies\<close> lowers the order until the address is aligned to the block.\<close>

fun fit_order :: "u32 \<Rightarrow> nat \<Rightarrow> nat" where
  "fit_order heap_addr 0 = 0"
| "fit_order heap_addr (Suc order) =
     (if heap_addr AND (push_bit (Suc order + BUDDY_EXPON_MIN) 1 - 1) \<noteq> 0 then fit_order heap_addr order else Suc order)"

partial_function (option) add_buddies :: "usize_ptr \<Rightarrow> usize_ptr \<Rightarrow> bool \<Rightarrow> heap_state \<Rightarrow> heap_state kloop" where
  "add_buddies heap_addr remaining_size is_init s =
     (if remaining_size = 0 then lret s
      else lbind (Some (klog2 remaining_size)) (\<lambda>k.
           let order = fit_order heap_addr (unat (min (of_nat k - of_nat BUDDY_EXPON_MIN :: u32) (of_nat BUDDY_ORDER_MAX)));
               cur_size = push_bit (order + BUDDY_EXPON_MIN) 1
           in lbind (lassert (order \<noteq> 0 \<or> heap_addr mod PAGE_SIZE = 0)) (\<lambda>_.
              lbind (Some (desc_of s heap_addr)) (\<lambda>page_desc.
              lbind (Some (hpage_upd page_desc (\<lambda>d. d\<lparr>hp_flags := hp_flags d OR HEAPFLAG_HEAD,
                        hp_w5 := buddy_cache_ptr s order, hp_w2 := of_nat order, hp_w1 := heap_addr\<rparr>) s)) (\<lambda>s.
              lbind (Some (buddy_push order page_desc s)) (\<lambda>s.
              lbind (Some (hpage_upd page_desc (\<lambda>d. d\<lparr>hp_w0 := cur_size div PAGE_SIZE\<rparr>) s)) (\<lambda>s.
              lbind (if is_init then lret s else merge_upwards (Some page_desc) order s) (\<lambda>s.
              add_buddies (heap_addr + cur_size) (remaining_size - cur_size) is_init s))))))))"

declare add_buddies.simps [code]

type_synonym map_more = "u32 \<Rightarrow> usize_ptr \<Rightarrow> heap_state \<Rightarrow> heap_state kloop"

definition add_heap_region :: "map_more \<Rightarrow> usize_ptr \<Rightarrow> heap_state \<Rightarrow> heap_state kloop" where
  "add_heap_region map_more add_size s =
     lbind (lassert (add_size \<noteq> 0 \<and> add_size mod PAGE_SIZE = 0)) (\<lambda>_.
     if heap_cur_max_addr s + add_size > heap_reserved_max_addr s then Some (Inl Aborted)
     else lbind (map_more (heap_cur_max_addr s) (add_size div PAGE_SIZE) s) (\<lambda>s.
          lbind (add_buddies (heap_cur_max_addr s) add_size False s) (\<lambda>s.
          lret (s\<lparr>heap_cur_max_addr := heap_cur_max_addr s + add_size, heap_cur_size := heap_cur_size s + add_size\<rparr>))))"

definition grow_heap :: "map_more \<Rightarrow> usize_ptr \<Rightarrow> heap_state \<Rightarrow> heap_state kloop" where
  "grow_heap map_more failed_size s =
     (let grow_size = min (max failed_size (heap_cur_size s)) (heap_reserved_max_size s - heap_cur_size s)
      in if heap_cur_size s + grow_size > heap_reserved_max_size s then Some (Inl Aborted)
         else add_heap_region map_more grow_size s)"

definition pages_for_obj_size :: "usize_ptr \<Rightarrow> usize_ptr kres" where
  "pages_for_obj_size obj_size =
     (let min_total_bytes = obj_size * MIN_SLAB_OBJ_AMOUNT
      in kbind (klog2 (max (align_up_pow2 min_total_bytes) PAGE_SIZE)) (\<lambda>k.
         let pages = push_bit k 1 div PAGE_SIZE in Inr (min pages MAX_SLAB_PAGE_AMOUNT)))"

definition init_heap_vars :: "usize_ptr \<Rightarrow> usize_ptr \<Rightarrow> usize_ptr \<Rightarrow> heap_state \<Rightarrow> heap_state kres" where
  "init_heap_vars sz max_size start_va s =
     kbind (kfor (\<lambda>i s. let p = slab_order_ptr s (of_nat i); obj_size = push_bit (4 + i) 1
                        in kbind (pages_for_obj_size obj_size) (\<lambda>pages.
                           Inr (word_upd (p + 8) (pages * PAGE_SIZE) (word_upd p (of_nat i)
                                  (word_upd (p + 4) obj_size (word_upd (p + 12) 0 s))))))
              [0..<unat SLAB_ORDER_COUNT]
              (fold (\<lambda>i s. word_upd (buddy_cache_ptr s i) 0 s) [0..<BUDDY_ORDER_COUNT] (s\<lparr>heap_cur_size := sz\<rparr>))) (\<lambda>s.
     Inr (s\<lparr>heap_min_addr := start_va, heap_cur_max_addr := start_va + sz,
            heap_reserved_max_addr := start_va + max_size, heap_reserved_max_size := max_size\<rparr>))"

text \<open>The first order from \<open>order\<close> on with a free block; \<^verbatim>\<open>BUDDY_ORDER_COUNT\<close> when there is none.\<close>

function first_order :: "(nat \<Rightarrow> u32) \<Rightarrow> nat \<Rightarrow> nat" where
  "first_order fb order = (if order \<le> BUDDY_ORDER_MAX \<and> fb order = 0 then first_order fb (order + 1) else order)"
  by pat_completeness auto
termination
  by (relation "measure (\<lambda>(_, order). Suc BUDDY_ORDER_MAX - order)") auto

declare first_order.simps [simp del]

text \<open>One round of the splitting loop: the first block of \<open>order + 1\<close> becomes two blocks of \<open>order\<close>.\<close>

definition split_buddy :: "nat \<Rightarrow> heap_state \<Rightarrow> heap_state kres" where
  "split_buddy order s =
     kbind (fb_get s (Suc order)) (\<lambda>cur.
     kbind (order_idx s cur) (\<lambda>i.
     kbind (hpage_get s i) (\<lambda>d.
     kbind (if hp_next_free d \<noteq> 0
            then kbind (order_idx s (hp_next_free d)) (\<lambda>j. hpage_upd j (\<lambda>e. e\<lparr>hp_w3 := 0\<rparr>) s) else Inr s) (\<lambda>s.
     kbind (fb_set (Suc order) (hp_next_free d) s) (\<lambda>s.
     kbind (desc_of s (hp_virt_addr d)) (\<lambda>cur_page_desc.
     let neighbor_va = hp_virt_addr d + push_bit (order + BUDDY_EXPON_MIN) 1
     in kbind (desc_of s neighbor_va) (\<lambda>nb.
        kbind (hpage_upd cur_page_desc (\<lambda>e. e\<lparr>hp_w0 := hp_w0 e div 2, hp_w2 := of_nat order, hp_w5 := buddy_cache_ptr s order\<rparr>) s) (\<lambda>s.
        kbind (hpage_get s cur_page_desc) (\<lambda>cd.
        kbind (hpage_upd nb (\<lambda>e. e\<lparr>hp_flags := HEAPFLAG_VFREE OR HEAPFLAG_BUDDY OR HEAPFLAG_HEAD,
                 hp_w0 := hp_num_pages cd, hp_w5 := buddy_cache_ptr s order,
                 hp_w2 := of_nat order, hp_w1 := neighbor_va, hp_w4 := 0, hp_w3 := 0\<rparr>) s) (\<lambda>s.
        kbind (buddy_push order i s) (\<lambda>s.
        buddy_push order nb s)))))))))))"

text \<open>The blocks are split from order \<open>og_order + n\<close> down to \<open>og_order\<close>.\<close>

primrec split_down :: "nat \<Rightarrow> nat \<Rightarrow> heap_state \<Rightarrow> heap_state kres" where
  "split_down og_order 0 s = Inr s"
| "split_down og_order (Suc n) s = kbind (split_buddy (og_order + n) s) (split_down og_order n)"

text \<open>Taking the first block of a list.\<close>

definition take_buddy :: "nat \<Rightarrow> heap_state \<Rightarrow> (u32 \<times> heap_state) kres" where
  "take_buddy order s =
     kbind (fb_get s order) (\<lambda>cur.
     kbind (order_idx s cur) (\<lambda>i.
     kbind (hpage_get s i) (\<lambda>d.
     kbind (fb_set order (hp_next_free d) s) (\<lambda>s.
     kbind (desc_of s (hp_virt_addr d)) (\<lambda>cur_page_desc.
     kbind (hpage_upd cur_page_desc (\<lambda>e. e\<lparr>hp_flags := hp_flags e AND NOT HEAPFLAG_VFREE\<rparr>) s) (\<lambda>s.
     kbind (if hp_next_free d \<noteq> 0
            then kbind (order_idx s (hp_next_free d)) (\<lambda>j. hpage_upd j (\<lambda>e. e\<lparr>hp_w3 := 0\<rparr>) s) else Inr s) (\<lambda>s.
     Inr (hp_virt_addr d, s))))))))"

partial_function (option) alloc_buddy :: "map_more \<Rightarrow> usize_ptr \<Rightarrow> heap_state \<Rightarrow> (u32 \<times> heap_state) kloop" where
  "alloc_buddy map_more sz s =
     lbind (lassert (sz \<noteq> 0 \<and> sz mod PAGE_SIZE = 0)) (\<lambda>_.
     lbind (lassert (sz AND (sz - 1) = 0)) (\<lambda>_.
     lbind (Some (klog2 sz)) (\<lambda>expon.
     let og_order = expon - BUDDY_EXPON_MIN;
         order = first_order (free_buddies s) og_order
     in if order > BUDDY_ORDER_MAX
        then lbind (grow_heap map_more sz s) (alloc_buddy map_more sz)
        else lbind (Some (split_down og_order (order - og_order) s)) (\<lambda>s. Some (take_buddy og_order s)))))"

declare alloc_buddy.simps [code]

definition free_buddy :: "u32 \<Rightarrow> heap_state \<Rightarrow> heap_state kloop" where
  "free_buddy addr s =
     lbind (lassert (addr mod PAGE_SIZE = 0)) (\<lambda>_.
     lbind (Some (desc_of s addr)) (\<lambda>cur_desc.
     lbind (Some (hpage_get s cur_desc)) (\<lambda>d.
     lbind (lassert (hp_flags d AND HEAPFLAG_BUDDY \<noteq> 0)) (\<lambda>_.
     lbind (lassert (hp_flags d AND HEAPFLAG_HEAD \<noteq> 0)) (\<lambda>_.
     lbind (lassert (hp_flags d AND HEAPFLAG_VFREE = 0)) (\<lambda>_.
     lbind (lassert (hp_num_pages d AND (hp_num_pages d - 1) = 0)) (\<lambda>_.
     lbind (lassert (hp_num_pages d > 0)) (\<lambda>_.
     lbind (Some (klog2 (hp_num_pages d))) (\<lambda>order.
     lbind (lassert (hp_buddy_cache d = buddy_cache_ptr s order)) (\<lambda>_.
     lbind (Some (hpage_upd cur_desc (\<lambda>e. e\<lparr>hp_flags := hp_flags e OR HEAPFLAG_VFREE\<rparr>) s)) (\<lambda>s.
     lbind (Some (fb_get s order)) (\<lambda>hd.
     lbind (Some (if hd \<noteq> 0 then kbind (order_idx s hd) (\<lambda>j. hpage_upd j (\<lambda>e. e\<lparr>hp_w3 := order_ptr s cur_desc\<rparr>) s) else Inr s)) (\<lambda>s.
     lbind (Some (hpage_upd cur_desc (\<lambda>e. e\<lparr>hp_w4 := hd, hp_w3 := 0\<rparr>) s)) (\<lambda>s.
     lbind (Some (fb_set order (order_ptr s cur_desc) s)) (\<lambda>s.
     lbind (Some (hpage_upd cur_desc (\<lambda>e. e\<lparr>hp_w1 := addr, hp_w2 := of_nat order\<rparr>) s)) (\<lambda>s.
     merge_upwards (Some cur_desc) order s))))))))))))))))"

section \<open>The slab allocator\<close>

text \<open>The loop of \<^verbatim>\<open>init_slab_free_list\<close>, for the indices from 1 on.\<close>

primrec slab_list_loop :: "usize_ptr \<Rightarrow> nat \<Rightarrow> u32 \<Rightarrow> heap_state \<Rightarrow> u32 \<times> heap_state" where
  "slab_list_loop obj_size 0 last_ptr s = (last_ptr, s)"
| "slab_list_loop obj_size (Suc n) last_ptr s =
     (let current_ptr = last_ptr + obj_size
      in slab_list_loop obj_size n current_ptr (word_upd current_ptr last_ptr (word_upd (last_ptr + 4) current_ptr s)))"

definition init_slab_free_list :: "u32 \<Rightarrow> usize_ptr \<Rightarrow> u16 \<Rightarrow> heap_state \<Rightarrow> heap_state" where
  "init_slab_free_list base_addr obj_size obj_count s =
     (let s = word_upd base_addr 0 s;
          (last_ptr, s) = slab_list_loop obj_size (unat obj_count - 1) base_addr s
      in word_upd (last_ptr + 4) 0 s)"

text \<open>The offsets of the pages of a slab after the first.\<close>

definition tail_offsets :: "u32 \<Rightarrow> u32 list" where
  "tail_offsets bytes = map (\<lambda>i. of_nat i * PAGE_SIZE) [1..<(unat bytes + 4095) div 4096]"

definition alloc_slab :: "map_more \<Rightarrow> u32 \<Rightarrow> heap_state \<Rightarrow> (u32 \<times> heap_state) kloop" where
  "alloc_slab map_more slab_order s =
     (if so_free_slab s slab_order \<noteq> 0
      then Some (
        kbind (slab_idx s (so_free_slab s slab_order)) (\<lambda>i.
        kbind (hpage_get s i) (\<lambda>d.
        let used_node = hp_free_node d;
            free_node = (if used_node \<noteq> 0 then node_next s used_node else 0);
            s = (if free_node \<noteq> 0 then word_upd free_node 0 s else s)
        in kbind (hpage_upd i (\<lambda>e. set_used_count (hp_used_count e + 1) (e\<lparr>hp_w4 := free_node\<rparr>)) s) (\<lambda>s.
           kbind (hpage_get s i) (\<lambda>d.
           kbind (if hp_used_count d = hp_obj_count d
                  then kbind (if hp_next_slab d \<noteq> 0
                              then kbind (slab_idx s (hp_next_slab d)) (\<lambda>j. hpage_upd j (\<lambda>e. e\<lparr>hp_w2 := 0\<rparr>) s)
                              else Inr s) (\<lambda>s.
                       kbind (hpage_get s i) (\<lambda>d. Inr (word_upd (slab_order + 12) (hp_next_slab d) s)))
                  else Inr s) (\<lambda>s. Inr (used_node, s)))))))
      else
        lbind (alloc_buddy map_more (so_slab_size s slab_order) s) (\<lambda>(buddy_addr, s).
        lbind (Some (desc_of s buddy_addr)) (\<lambda>i.
        lbind (Some (hpage_upd i (\<lambda>e. e\<lparr>hp_flags := hp_flags e AND NOT HEAPFLAG_BUDDY\<rparr>) s)) (\<lambda>s.
        let obj_size = so_obj_size s slab_order
        in if obj_size = 0 then Some (Inl DivideError)
           else let obj_count = so_slab_size s slab_order div obj_size
        in lbind (lassert (obj_count \<noteq> 0)) (\<lambda>_.
           lbind (Some (hpage_upd i (\<lambda>e. set_obj_count (ucast obj_count) ((set_used_count 0 e)\<lparr>hp_w5 := slab_order\<rparr>)) s)) (\<lambda>s.
           lbind (Some (hpage_get s i)) (\<lambda>d.
           lbind (Some (kfor (\<lambda>off s. kbind (desc_of s (buddy_addr + off)) (\<lambda>tail.
                          hpage_upd tail (\<lambda>e. e\<lparr>hp_flags := hp_flags e AND NOT (HEAPFLAG_BUDDY OR HEAPFLAG_HEAD),
                                                hp_w0 := desc_ptr s i\<rparr>) s))
                        (tail_offsets (hp_num_pages d * PAGE_SIZE)) s)) (\<lambda>s.
           let s = init_slab_free_list buddy_addr obj_size (ucast obj_count) s
           in lbind (Some (hpage_upd i (\<lambda>e. e\<lparr>hp_w4 := buddy_addr, hp_w3 := 0\<rparr>) s)) (\<lambda>s.
              let s = word_upd (slab_order + 12) (slab_ptr s i) s;
                  used_node = buddy_addr;
                  free_node = node_next s used_node;
                  s = (if free_node \<noteq> 0 then word_upd free_node 0 s else s)
              in lbind (Some (hpage_upd i (\<lambda>e. set_used_count 1 (e\<lparr>hp_w4 := free_node\<rparr>)) s)) (\<lambda>s.
                 lret (used_node, s)))))))))))"

definition free_slab :: "u32 \<Rightarrow> heap_state \<Rightarrow> heap_state kloop" where
  "free_slab addr s =
     lbind (Some (desc_of s addr)) (\<lambda>i.
     lbind (Some (hpage_get s i)) (\<lambda>d.
     lbind (lassert (hp_flags d AND HEAPFLAG_BUDDY = 0)) (\<lambda>_.
     lbind (Some (if hp_flags d AND HEAPFLAG_HEAD = 0 then desc_idx s (hp_slab_head d) else Inr i)) (\<lambda>i.
     lbind (Some (hpage_get s i)) (\<lambda>d.
     let slab_cache = hp_order_cache d
     in lbind (lassert (so_order s slab_cache < SLAB_ORDER_COUNT \<or> so_order s slab_cache = SLAB_CUSTOM_ORDER)) (\<lambda>_.
        let s = word_upd (addr + 4) (hp_free_node d) (word_upd addr 0 s);
            s = (if hp_free_node d \<noteq> 0 then word_upd (hp_free_node d) addr s else s)
        in lbind (Some (hpage_upd i (\<lambda>e. e\<lparr>hp_w4 := addr\<rparr>) s)) (\<lambda>s.
           lbind (Some (if hp_used_count d = hp_obj_count d
                        then kbind (hpage_upd i (\<lambda>e. e\<lparr>hp_w2 := 0, hp_w3 := so_free_slab s slab_cache\<rparr>) s) (\<lambda>s.
                             kbind (hpage_get s i) (\<lambda>d.
                             kbind (if hp_next_slab d \<noteq> 0
                                    then kbind (slab_idx s (hp_next_slab d)) (\<lambda>j. hpage_upd j (\<lambda>e. e\<lparr>hp_w2 := slab_ptr s i\<rparr>) s)
                                    else Inr s) (\<lambda>s.
                             Inr (word_upd (slab_cache + 12) (slab_ptr s i) s))))
                        else Inr s)) (\<lambda>s.
           lbind (Some (hpage_upd i (\<lambda>e. set_used_count (hp_used_count e - 1) e) s)) (\<lambda>s.
           lbind (Some (hpage_get s i)) (\<lambda>d.
           if hp_used_count d \<noteq> 0 then lret s
           else lbind (Some (klog2 (hp_num_pages d))) (\<lambda>buddy_order.
                let pages_total_size = push_bit (buddy_order + BUDDY_EXPON_MIN) 1;
                    slab_start_addr = hp_free_node d AND NOT (pages_total_size - 1)
                in lbind (Some (kfor (\<lambda>off s. kbind (desc_of s (off + slab_start_addr)) (\<lambda>tail.
                             hpage_upd tail (\<lambda>e. e\<lparr>hp_flags := hp_flags e OR HEAPFLAG_BUDDY, hp_w0 := 0\<rparr>) s))
                           (tail_offsets (hp_num_pages d * PAGE_SIZE)) s)) (\<lambda>s.
                   lbind (Some (hpage_upd i (\<lambda>e. e\<lparr>hp_flags := hp_flags e OR HEAPFLAG_BUDDY,
                                                    hp_w5 := buddy_cache_ptr s buddy_order\<rparr>) s)) (\<lambda>s.
                   lbind (Some (hpage_get s i)) (\<lambda>d.
                   lbind (Some (if hp_prev_slab d \<noteq> 0
                                then kbind (slab_idx s (hp_prev_slab d)) (\<lambda>j. hpage_upd j (\<lambda>e. e\<lparr>hp_w3 := hp_next_slab d\<rparr>) s)
                                else Inr s)) (\<lambda>s.
                   lbind (Some (hpage_get s i)) (\<lambda>d.
                   lbind (Some (if hp_next_slab d \<noteq> 0
                                then kbind (slab_idx s (hp_next_slab d)) (\<lambda>j. hpage_upd j (\<lambda>e. e\<lparr>hp_w2 := hp_prev_slab d\<rparr>) s)
                                else Inr s)) (\<lambda>s.
                   lbind (Some (hpage_get s i)) (\<lambda>d.
                   let s = (if so_free_slab s slab_cache = slab_ptr s i then word_upd (slab_cache + 12) (hp_next_slab d) s else s)
                   in free_buddy slab_start_addr s))))))))))))))))))"

section \<open>The interface\<close>

definition kmalloc :: "map_more \<Rightarrow> usize_ptr \<Rightarrow> heap_state \<Rightarrow> (u32 \<times> heap_state) kloop" where
  "kmalloc map_more sz s =
     (if sz > 0x10000
      then let sz = align_up_pow2 sz in lbind (lassert (sz \<noteq> 0)) (\<lambda>_. alloc_buddy map_more sz s)
      else let sz = align_up_pow2 sz; sz = (if sz < 16 then 16 else sz)
           in lbind (Some (klog2 sz)) (\<lambda>expon.
              lbind (lassert (expon \<le> 16)) (\<lambda>_.
              lbind (lassert (sz AND (sz - 1) = 0)) (\<lambda>_.
              alloc_slab map_more (slab_order_ptr s (of_nat (expon - 4))) s))))"

definition kmalloc_aligned :: "map_more \<Rightarrow> usize_ptr \<Rightarrow> usize_ptr \<Rightarrow> heap_state \<Rightarrow> (u32 \<times> heap_state) kloop" where
  "kmalloc_aligned map_more alignment sz = kmalloc map_more (max alignment sz)"

definition get_slab_order :: "u32 \<Rightarrow> heap_state \<Rightarrow> u32 kres" where
  "get_slab_order obj_addr s =
     kbind (desc_of s obj_addr) (\<lambda>i.
     kbind (hpage_get s i) (\<lambda>d.
     kbind (if hp_flags d AND HEAPFLAG_HEAD = 0 then desc_idx s (hp_slab_head d) else Inr i) (\<lambda>i.
     kbind (hpage_get s i) (\<lambda>d. Inr (hp_order_cache d)))))"

definition get_buddy_size :: "u32 \<Rightarrow> heap_state \<Rightarrow> usize_ptr kres" where
  "get_buddy_size buddy_addr s =
     kbind (desc_of s buddy_addr) (\<lambda>i.
     kbind (hpage_get s i) (\<lambda>d.
     kbind (kassert (hp_flags d AND HEAPFLAG_HEAD \<noteq> 0)) (\<lambda>_.
     Inr (push_bit (unat (hp_buddy_order d) + BUDDY_EXPON_MIN) 1))))"

definition kfree :: "u32 \<Rightarrow> heap_state \<Rightarrow> heap_state kloop" where
  "kfree addr s =
     lbind (Some (desc_of s addr)) (\<lambda>i.
     lbind (Some (hpage_get s i)) (\<lambda>d.
     if hp_flags d AND HEAPFLAG_BUDDY \<noteq> 0 then free_buddy addr s else free_slab addr s))"

text \<open>Copying the contents, whose sizes are multiples of the word.\<close>

primrec copy_words :: "nat \<Rightarrow> u32 \<Rightarrow> u32 \<Rightarrow> (u32 \<Rightarrow> u32) \<Rightarrow> (u32 \<Rightarrow> u32)" where
  "copy_words 0 dst src m = m"
| "copy_words (Suc n) dst src m = copy_words n (dst + 4) (src + 4) (m(dst := m src))"

definition krealloc :: "map_more \<Rightarrow> u32 \<Rightarrow> usize_ptr \<Rightarrow> heap_state \<Rightarrow> (u32 \<times> heap_state) kloop" where
  "krealloc map_more addr new_size s =
     (if addr = 0 then kmalloc map_more new_size s
      else lbind (Some (desc_of s addr)) (\<lambda>i.
           lbind (Some (hpage_get s i)) (\<lambda>d.
           if hp_flags d AND HEAPFLAG_BUDDY \<noteq> 0
           then lbind (Some (get_buddy_size addr s)) (\<lambda>old_size.
                if old_size \<ge> new_size then lret (addr, s)
                else lbind (alloc_buddy map_more (align_up_pow2 new_size) s) (\<lambda>(new_addr, s).
                     if new_addr = 0 then lret (0, s)
                     else lbind (free_buddy addr (s\<lparr>hs_mem := copy_words (unat old_size div 4) new_addr addr (hs_mem s)\<rparr>)) (\<lambda>s.
                          lret (new_addr, s))))
           else lbind (Some (get_slab_order addr s)) (\<lambda>slab_order.
                let old_size = so_obj_size s slab_order
                in if old_size \<ge> new_size then lret (addr, s)
                   else if \<not> (slab_order_ptr s 0 \<le> slab_order \<and> slab_order \<le> slab_order_ptr s SLAB_INDEX_ORDER_MAX)
                   then lret (0, s)
                   else let new_size = align_up_pow2 new_size
                        in lbind (Some (klog2 new_size)) (\<lambda>k.
                           let slab_order_index = of_nat k - 4 :: u8
                           in lbind (if slab_order_index \<le> 12 then alloc_slab map_more (slab_order_ptr s (ucast slab_order_index)) s
                                     else alloc_buddy map_more new_size s) (\<lambda>(new_addr, s).
                              if new_addr = 0 then lret (0, s)
                              else lbind (free_slab addr (s\<lparr>hs_mem := copy_words (unat old_size div 4) new_addr addr (hs_mem s)\<rparr>)) (\<lambda>s.
                                   lret (new_addr, s))))))))"

definition kcreate_slab_cache :: "map_more \<Rightarrow> usize_ptr \<Rightarrow> u32 \<Rightarrow> heap_state \<Rightarrow> (u32 \<times> heap_state) kloop" where
  "kcreate_slab_cache map_more obj_size slab_name s =
     lbind (lassert (obj_size \<ge> 8)) (\<lambda>_.
     lbind (Some (align_up_n obj_size 4)) (\<lambda>obj_size.
     lbind (kmalloc map_more 20 s) (\<lambda>(slab_cache, s).
     lbind (Some (pages_for_obj_size obj_size)) (\<lambda>pages.
     lret (slab_cache,
       word_upd (slab_cache + 8) (pages * PAGE_SIZE) (word_upd slab_cache SLAB_CUSTOM_ORDER
         (word_upd (slab_cache + 4) obj_size (word_upd (slab_cache + 12) 0 (word_upd (slab_cache + 16) slab_name s)))))))))"

definition kalloc_cache :: "map_more \<Rightarrow> u32 \<Rightarrow> heap_state \<Rightarrow> (u32 \<times> heap_state) kloop" where
  "kalloc_cache map_more cache = alloc_slab map_more cache"

definition kfree_slab_cache :: "u32 \<Rightarrow> heap_state \<Rightarrow> heap_state kloop" where
  "kfree_slab_cache = kfree"

text \<open>\<open>map_initial\<close> stands for the calls that take the first pages and map them.\<close>

definition init_heap :: "map_more \<Rightarrow> u32 \<Rightarrow> usize_ptr \<Rightarrow> usize_ptr \<Rightarrow> heap_state \<Rightarrow> heap_state kloop" where
  "init_heap map_initial heap_addr max_size init_size s =
     lbind (lassert (heap_addr mod PAGE_SIZE = 0)) (\<lambda>_.
     lbind (lassert (init_size \<noteq> 0)) (\<lambda>_.
     lbind (lassert (init_size mod PAGE_SIZE = 0)) (\<lambda>_.
     lbind (lassert (init_size < 0x80000000)) (\<lambda>_.
     lbind (Some (init_heap_vars init_size max_size heap_addr s)) (\<lambda>s.
     lbind (map_initial heap_addr (init_size div PAGE_SIZE) s) (\<lambda>s.
     add_buddies heap_addr init_size True s))))))"

end
