(* ===== verification/Heap_Correct.thy ===== *)
theory Heap_Correct
  imports Heap Boot_Data
begin

text \<open>
  Correctness of the buddy allocator. The descriptors of the heap's pages are seen through the
  page numbers (\<open>sees\<close>), the free lists are lists of page numbers (\<open>chain\<close>), and each step of the
  code is a step on these lists.
\<close>

section \<open>Pointers into descriptors\<close>

text \<open>The constants of a heap, which no operation but growth changes.\<close>

definition geo :: "heap_state \<Rightarrow> u32 \<times> u32 \<times> u32 \<times> (u32 \<Rightarrow> u32)" where
  "geo s = (hs_count s, hs_descs_va s, hs_vars_va s, hs_v2p s)"

definition dsc :: "heap_state \<Rightarrow> nat \<Rightarrow> u32" where
  "dsc s p = hs_v2p s (page_addr p) div PAGE_SIZE"

definition optr :: "heap_state \<Rightarrow> nat \<Rightarrow> u32" where
  "optr s p = order_ptr s (dsc s p)"

definition geo_ok :: "heap_state \<Rightarrow> nat set \<Rightarrow> bool" where
  "geo_ok s R \<longleftrightarrow> R \<subseteq> {..<1048576} \<and> (\<forall>p\<in>R. dsc s p < hs_count s) \<and> inj_on (dsc s) R \<and>
     unat (hs_descs_va s) + 36 * unat (hs_count s) < 4294967296"

lemma geo_dsc: "geo s' = geo s \<Longrightarrow> dsc s' = dsc s"
  by (simp add: geo_def dsc_def fun_eq_iff)

lemma geo_optr: "geo s' = geo s \<Longrightarrow> optr s' = optr s"
  by (simp add: geo_def dsc_def optr_def part_ptr_def fun_eq_iff)

lemma geo_cache: "geo s' = geo s \<Longrightarrow> buddy_cache_ptr s' = buddy_cache_ptr s"
  by (simp add: geo_def buddy_cache_ptr_def fun_eq_iff)

lemma geo_ok_cong: "geo s' = geo s \<Longrightarrow> geo_ok s' R \<longleftrightarrow> geo_ok s R"
  using geo_dsc [of s' s] by (simp add: geo_ok_def) (simp add: geo_def)

lemma part_idx_ptr:
  assumes "i < hs_count s" "unat (hs_descs_va s) + 36 * unat (hs_count s) < 4294967296"
  shows "part_idx off s (part_ptr off s i) = Inr i"
proof -
  have "36 * unat i < 4294967296" using assms by (simp add: word_less_nat_alt)
  then have "unat (36 * i) = 36 * unat i" by (simp add: unat_word_ariths)
  then have "unat (36 * i div 36) = unat i" by (simp add: unat_div)
  then have "36 * i div 36 = i" by (simp add: word_unat_eq_iff)
  then show ?thesis using assms(1) by (simp add: part_idx_def part_ptr_def Let_def)
qed

lemma optr_idx: "geo_ok s R \<Longrightarrow> p \<in> R \<Longrightarrow> order_idx s (optr s p) = Inr (dsc s p)"
  by (simp add: optr_def part_idx_ptr geo_ok_def)

lemma optr_nonzero:
  assumes "geo_ok s R" "p \<in> R"
  shows "optr s p \<noteq> 0"
proof -
  let ?i = "dsc s p"
  have i: "unat ?i < unat (hs_count s)" using assms by (auto simp: geo_ok_def word_less_nat_alt)
  then have *: "unat (hs_descs_va s) + 36 * unat ?i + 16 < 4294967296" using assms(1) by (auto simp: geo_ok_def)
  then have "unat (optr s p) = unat (hs_descs_va s) + 36 * unat ?i + 16"
    by (simp add: optr_def part_ptr_def unat_word_ariths)
  then show ?thesis by auto
qed

lemma optr_inj:
  assumes "geo_ok s R" "p \<in> R" "q \<in> R" "optr s p = optr s q"
  shows "p = q"
proof -
  have "Inr (dsc s p) = (Inr (dsc s q) :: u32 kres)" using optr_idx [OF assms(1)] assms(2-4) by metis
  then show ?thesis using assms(1-3) by (auto simp: geo_ok_def inj_on_def)
qed

lemma desc_of_page: "geo_ok s R \<Longrightarrow> p \<in> R \<Longrightarrow> desc_of s (page_addr p) = Inr (dsc s p)"
  by (simp add: desc_of_def dsc_def geo_ok_def Let_def)

lemma cache_ptr_inj: "k < 20 \<Longrightarrow> j < 20 \<Longrightarrow> buddy_cache_ptr s k = buddy_cache_ptr s j \<longleftrightarrow> k = j"
proof
  assume *: "k < 20" "j < 20" "buddy_cache_ptr s k = buddy_cache_ptr s j"
  then have "(of_nat (4 * k) :: u32) = of_nat (4 * j)" by (simp add: buddy_cache_ptr_def)
  then have "unat (of_nat (4 * k) :: u32) = unat (of_nat (4 * j) :: u32)" by (rule arg_cong)
  then show "k = j" using *(1,2) unfolding unat_of_nat by simp
qed simp

section \<open>The heap through its pages\<close>

definition sees :: "heap_state \<Rightarrow> nat set \<Rightarrow> (nat \<Rightarrow> hpage) \<Rightarrow> (nat \<Rightarrow> u32) \<Rightarrow> bool" where
  "sees s R v h \<longleftrightarrow> geo_ok s R \<and> (\<forall>p\<in>R. hs_pages s (dsc s p) = v p) \<and> (\<forall>k<20. free_buddies s k = h k)"

lemma sees_geo: "sees s R v h \<Longrightarrow> geo_ok s R"
  by (simp add: sees_def)

lemma sees_get: "sees s R v h \<Longrightarrow> p \<in> R \<Longrightarrow> hpage_get s (dsc s p) = Inr (v p)"
  by (auto simp: sees_def hpage_get_def geo_ok_def)

lemma sees_upd:
  assumes "sees s R v h" "p \<in> R"
  shows "\<exists>s'. hpage_upd (dsc s p) f s = Inr s' \<and> sees s' R (v(p := f (v p))) h \<and> geo s' = geo s"
proof -
  let ?s = "s\<lparr>hs_pages := (hs_pages s)(dsc s p := f (hs_pages s (dsc s p)))\<rparr>"
  have lt: "dsc s p < hs_count s" and inj: "inj_on (dsc s) R" using assms by (auto simp: sees_def geo_ok_def)
  have g: "geo ?s = geo s" by (simp add: geo_def)
  have "hs_pages ?s (dsc s q) = (v(p := f (v p))) q" if "q \<in> R" for q
    using assms inj_onD [OF inj _ assms(2) that] that by (auto simp: sees_def)
  then have "sees ?s R (v(p := f (v p))) h"
    using assms(1) geo_ok_cong [OF g] geo_dsc [OF g] by (simp add: sees_def free_buddies_def buddy_cache_ptr_def)
  then show ?thesis using lt g by (auto simp: hpage_upd_def)
qed

lemma sees_fb_get: "sees s R v h \<Longrightarrow> k < 20 \<Longrightarrow> fb_get s k = Inr (h k)"
  by (simp add: sees_def fb_get_def)

lemma sees_fb_set:
  assumes "sees s R v h" "k < 20"
  shows "\<exists>s'. fb_set k x s = Inr s' \<and> sees s' R v (h(k := x)) \<and> geo s' = geo s"
proof -
  let ?s = "word_upd (buddy_cache_ptr s k) x s"
  have g: "geo ?s = geo s" by (simp add: geo_def word_upd_def)
  have "free_buddies ?s j = (h(k := x)) j" if "j < 20" for j
    using assms that cache_ptr_inj [OF assms(2) that, of s] geo_cache [OF g]
    by (auto simp: sees_def free_buddies_def) (auto simp: word_upd_def)
  then have "sees ?s R v (h(k := x))"
    using assms(1) geo_ok_cong [OF g] geo_dsc [OF g] by (simp add: sees_def) (simp add: word_upd_def)
  then show ?thesis using assms(2) g by (auto simp: fb_set_def)
qed

section \<open>Free lists\<close>

definition nxt :: "(nat \<Rightarrow> u32) \<Rightarrow> nat list \<Rightarrow> u32" where
  "nxt P ps = (case ps of [] \<Rightarrow> 0 | p # _ \<Rightarrow> P p)"

lemma nxt_simps [simp]: "nxt P [] = 0" "nxt P (p # ps) = P p"
  by (simp_all add: nxt_def)

fun chain :: "(nat \<Rightarrow> u32) \<Rightarrow> (nat \<Rightarrow> hpage) \<Rightarrow> u32 \<Rightarrow> nat list \<Rightarrow> bool" where
  "chain P v prev [] = True"
| "chain P v prev (p # ps) = (hp_prev_free (v p) = prev \<and> hp_next_free (v p) = nxt P ps \<and> chain P v (P p) ps)"

definition block_ok :: "(nat \<Rightarrow> u32) \<Rightarrow> (nat \<Rightarrow> hpage) \<Rightarrow> nat \<Rightarrow> nat \<Rightarrow> bool" where
  "block_ok C v k p \<longleftrightarrow> hp_virt_addr (v p) = page_addr p \<and> hp_num_pages (v p) = 2 ^ k \<and>
     hp_buddy_order (v p) = of_nat k \<and> hp_buddy_cache (v p) = C k \<and> hp_flags (v p) AND HEAPFLAG_HEAD \<noteq> 0"

lemma chain_cong: "(\<And>p. p \<in> set ps \<Longrightarrow> v p = v' p) \<Longrightarrow> chain P v prev ps \<longleftrightarrow> chain P v' prev ps"
  by (induction ps arbitrary: prev) auto

lemma chain_prev:
  assumes "chain P v a (p # ps)" "p \<notin> set ps"
  shows "chain P (v(p := (v p)\<lparr>hp_w3 := b\<rparr>)) b (p # ps)"
proof -
  have "chain P (v(p := (v p)\<lparr>hp_w3 := b\<rparr>)) (P p) ps \<longleftrightarrow> chain P v (P p) ps"
    by (rule chain_cong) (use assms(2) in auto)
  then show ?thesis using assms(1) by simp
qed


text \<open>The operations on lists change links only, and only in the lists they work on.\<close>

definition same_data :: "(nat \<Rightarrow> hpage) \<Rightarrow> (nat \<Rightarrow> hpage) \<Rightarrow> bool" where
  "same_data v v' \<longleftrightarrow> (\<forall>p. hp_flags (v' p) = hp_flags (v p) \<and> hp_w0 (v' p) = hp_w0 (v p) \<and> hp_w1 (v' p) = hp_w1 (v p) \<and>
     hp_w2 (v' p) = hp_w2 (v p) \<and> hp_w5 (v' p) = hp_w5 (v p))"

lemma same_data_refl [simp]: "same_data v v"
  by (simp add: same_data_def)

lemma same_data_trans: "same_data v v' \<Longrightarrow> same_data v' v'' \<Longrightarrow> same_data v v''"
  by (simp add: same_data_def)

lemma same_data_links [simp]: "same_data v (v(p := (v p)\<lparr>hp_w3 := a\<rparr>))" "same_data v (v(p := (v p)\<lparr>hp_w4 := a\<rparr>))"
  by (simp_all add: same_data_def)

lemma block_ok_data: "same_data v v' \<Longrightarrow> block_ok C v' k p \<longleftrightarrow> block_ok C v k p"
  by (simp add: same_data_def block_ok_def)

definition same_off :: "nat set \<Rightarrow> (nat \<Rightarrow> hpage) \<Rightarrow> (nat \<Rightarrow> hpage) \<Rightarrow> bool" where
  "same_off A v v' \<longleftrightarrow> (\<forall>p. p \<notin> A \<longrightarrow> v' p = v p)"

lemma same_off_trans: "same_off A v v' \<Longrightarrow> same_off B v' v'' \<Longrightarrow> same_off (A \<union> B) v v''"
  by (simp add: same_off_def)

lemma same_off_mono: "same_off A v v' \<Longrightarrow> A \<subseteq> B \<Longrightarrow> same_off B v v'"
  by (auto simp: same_off_def)

lemma chain_off: "same_off A v v' \<Longrightarrow> A \<inter> set ps = {} \<Longrightarrow> chain P v' prev ps \<longleftrightarrow> chain P v prev ps"
  by (rule chain_cong) (auto simp: same_off_def)

text \<open>Clearing the back link of what becomes the first block.\<close>

lemma clear_first:
  assumes "sees s R v h" "chain (optr s) v a ps" "set ps \<subseteq> R" "distinct ps"
  shows "\<exists>s' v'. (if nxt (optr s) ps \<noteq> 0
      then kbind (order_idx s (nxt (optr s) ps)) (\<lambda>j. hpage_upd j (\<lambda>e. e\<lparr>hp_w3 := 0\<rparr>) s) else Inr s) = Inr s' \<and>
    sees s' R v' h \<and> geo s' = geo s \<and> chain (optr s) v' 0 ps \<and> same_data v v' \<and> same_off (set ps) v v'"
proof (cases ps)
  case Nil
  then show ?thesis using assms(1) by (intro exI [of _ s] exI [of _ v]) (simp add: same_off_def)
next
  case (Cons p qs)
  have p: "p \<in> R" "p \<notin> set qs" using assms(3,4) Cons by auto
  obtain s' where s': "hpage_upd (dsc s p) (\<lambda>e. e\<lparr>hp_w3 := 0\<rparr>) s = Inr s'" "sees s' R (v(p := (v p)\<lparr>hp_w3 := 0\<rparr>)) h" "geo s' = geo s"
    using sees_upd [OF assms(1) p(1), of "\<lambda>e. e\<lparr>hp_w3 := 0\<rparr>"] by blast
  have "chain (optr s) (v(p := (v p)\<lparr>hp_w3 := 0\<rparr>)) 0 ps" using chain_prev [of "optr s" v a p qs] assms(2) p(2) Cons by simp
  then show ?thesis
    using s' Cons p optr_nonzero [OF sees_geo [OF assms(1)] p(1)] optr_idx [OF sees_geo [OF assms(1)] p(1)]
    by (intro exI [of _ s'] exI [of _ "v(p := (v p)\<lparr>hp_w3 := 0\<rparr>)"]) (auto simp: same_off_def)
qed

lemma buddy_push_correct:
  assumes se: "sees s R v h" and ch: "chain (optr s) v 0 qs" "h k = nxt (optr s) qs" "set qs \<subseteq> R" "distinct qs"
    and p: "p \<in> R" "p \<notin> set qs" and k: "k < 20"
  shows "\<exists>s' v'. buddy_push k (dsc s p) s = Inr s' \<and> sees s' R v' (h(k := optr s p)) \<and> geo s' = geo s \<and>
    chain (optr s) v' 0 (p # qs) \<and> same_data v v' \<and> same_off (set (p # qs)) v v'"
proof -
  let ?hd = "nxt (optr s) qs"
  define v1 where "v1 = v(p := (v p)\<lparr>hp_w4 := ?hd\<rparr>)"
  define v2 where "v2 = v1(p := (v1 p)\<lparr>hp_w3 := 0\<rparr>)"
  obtain s1 where s1: "hpage_upd (dsc s p) (\<lambda>d. d\<lparr>hp_w4 := ?hd\<rparr>) s = Inr s1" "sees s1 R v1 h" "geo s1 = geo s"
    using sees_upd [OF se p(1), of "\<lambda>d. d\<lparr>hp_w4 := ?hd\<rparr>"] by (auto simp: v1_def)
  obtain s2 where s2: "hpage_upd (dsc s p) (\<lambda>d. d\<lparr>hp_w3 := 0\<rparr>) s1 = Inr s2" "sees s2 R v2 h" "geo s2 = geo s"
    using sees_upd [OF s1(2) p(1), of "\<lambda>d. d\<lparr>hp_w3 := 0\<rparr>"] s1(3) geo_dsc [OF s1(3)] by (auto simp: v2_def)
  have op: "order_ptr s2 (dsc s p) = optr s p" using geo_optr [OF s2(3)] geo_dsc [OF s2(3)] by (metis optr_def)
  have c2: "chain (optr s) v2 0 qs"
    using ch(1) chain_off [of "{p}" v v2 qs] p(2) by (simp add: v1_def v2_def same_off_def)
  obtain s3 v3 where s3: "(if ?hd \<noteq> 0 then kbind (order_idx s2 ?hd) (\<lambda>j. hpage_upd j (\<lambda>e. e\<lparr>hp_w3 := optr s p\<rparr>) s2) else Inr s2) = Inr s3"
      "sees s3 R v3 h" "geo s3 = geo s" "chain (optr s) v3 (optr s p) qs" "same_data v2 v3" "same_off (set qs) v2 v3"
  proof (cases qs)
    case Nil
    then show ?thesis using that [of s2 v2] s2 by (simp add: same_off_def)
  next
    case (Cons q rs)
    then have q: "q \<in> R" "q \<notin> set rs" using ch(3,4) by auto
    let ?v3 = "v2(q := (v2 q)\<lparr>hp_w3 := optr s p\<rparr>)"
    obtain s3 where s3: "hpage_upd (dsc s q) (\<lambda>e. e\<lparr>hp_w3 := optr s p\<rparr>) s2 = Inr s3" "sees s3 R ?v3 h" "geo s3 = geo s2"
      using sees_upd [OF s2(2) q(1), of "\<lambda>e. e\<lparr>hp_w3 := optr s p\<rparr>"] geo_dsc [OF s2(3)] by auto
    have "order_idx s2 (optr s q) = Inr (dsc s q)"
      using optr_idx [OF sees_geo [OF s2(2)] q(1)] geo_optr [OF s2(3)] geo_dsc [OF s2(3)] by simp
    moreover have "chain (optr s) ?v3 (optr s p) qs" using chain_prev [of "optr s" v2 0 q rs] c2 q(2) Cons by simp
    ultimately show ?thesis
      using that [of s3 ?v3] s3 s2(3) Cons optr_nonzero [OF sees_geo [OF se] q(1)] by (auto simp: same_off_def)
  qed
  obtain s4 where s4: "fb_set k (optr s p) s3 = Inr s4" "sees s4 R v3 (h(k := optr s p))" "geo s4 = geo s"
    using sees_fb_set [OF s3(2) k, of "optr s p"] s3(3) by auto
  have op3: "order_ptr s3 (dsc s p) = optr s p" using geo_optr [OF s3(3)] geo_dsc [OF s3(3)] by (metis optr_def)
  have "buddy_push k (dsc s p) s = Inr s4"
    using sees_fb_get [OF se k] ch(2) s1(1) s2(1) s3(1) s4(1) op op3 by (auto simp: buddy_push_def split: if_splits)
  moreover have "v3 p = v2 p" using s3(6) p(2) by (simp add: same_off_def)
  then have "chain (optr s) v3 0 (p # qs)" using s3(4) by (simp add: v1_def v2_def)
  moreover have "same_data v v3" using s3(5) by (auto simp: v1_def v2_def same_data_def)
  moreover have "same_off (set (p # qs)) v v3" using s3(6) by (auto simp: v1_def v2_def same_off_def)
  ultimately show ?thesis using s4 by blast
qed


section \<open>The free blocks\<close>

definition blk :: "nat \<Rightarrow> nat \<Rightarrow> nat set" where
  "blk k p = {p..<p + 2 ^ k}"

lemma blk_head [simp]: "p \<in> blk k p"
  by (simp add: blk_def)

lemma blk_split: "blk (Suc k) p = blk k p \<union> blk k (p + 2 ^ k)" "blk k p \<inter> blk k (p + 2 ^ k) = {}"
  by (auto simp: blk_def)

definition lists_ok :: "(nat \<Rightarrow> u32) \<Rightarrow> (nat \<Rightarrow> u32) \<Rightarrow> nat set \<Rightarrow> (nat \<Rightarrow> hpage) \<Rightarrow> (nat \<Rightarrow> u32) \<Rightarrow> (nat \<Rightarrow> nat list) \<Rightarrow> bool" where
  "lists_ok P C R v h F \<longleftrightarrow>
     (\<forall>k<20. chain P v 0 (F k) \<and> h k = nxt P (F k) \<and> distinct (F k) \<and>
        (\<forall>p\<in>set (F k). block_ok C v k p \<and> 2 ^ k dvd p \<and> blk k p \<subseteq> R)) \<and>
     (\<forall>k<20. \<forall>j<20. \<forall>p\<in>set (F k). \<forall>q\<in>set (F j). (k, p) \<noteq> (j, q) \<longrightarrow> blk k p \<inter> blk j q = {})"

text \<open>A descriptor with all three flags set is the head of a free block.\<close>

definition flags_ok :: "nat set \<Rightarrow> (nat \<Rightarrow> hpage) \<Rightarrow> (nat \<Rightarrow> nat list) \<Rightarrow> bool" where
  "flags_ok R v F \<longleftrightarrow> (\<forall>p\<in>R. hp_flags (v p) AND 7 = 7 \<longrightarrow> (\<exists>k<20. p \<in> set (F k)))"

definition heap_ok :: "heap_state \<Rightarrow> nat set \<Rightarrow> (nat \<Rightarrow> nat list) \<Rightarrow> bool" where
  "heap_ok s R F \<longleftrightarrow> (\<exists>v h. sees s R v h \<and> lists_ok (optr s) (buddy_cache_ptr s) R v h F \<and> flags_ok R v F)"

definition free_pages :: "(nat \<Rightarrow> nat list) \<Rightarrow> nat set" where
  "free_pages F = (\<Union>k<20. \<Union>p\<in>set (F k). blk k p)"

lemma lists_okD:
  assumes "lists_ok P C R v h F" "k < 20"
  shows "chain P v 0 (F k)" "h k = nxt P (F k)" "distinct (F k)" "set (F k) \<subseteq> R"
    "\<And>p. p \<in> set (F k) \<Longrightarrow> block_ok C v k p" "\<And>p. p \<in> set (F k) \<Longrightarrow> 2 ^ k dvd p" "\<And>p. p \<in> set (F k) \<Longrightarrow> blk k p \<subseteq> R"
  using assms unfolding lists_ok_def by (auto simp: blk_def subset_iff)

lemma lists_ok_disjoint:
  assumes "lists_ok P C R v h F" "k < 20" "j < 20" "p \<in> set (F k)" "q \<in> set (F j)" "(k, p) \<noteq> (j, q)"
  shows "blk k p \<inter> blk j q = {}"
  using assms unfolding lists_ok_def by blast

text \<open>No other block starts inside a block.\<close>

lemma head_outside:
  assumes "lists_ok P C R v h F" "k < 20" "j < 20" "p \<in> set (F k)" "q \<in> set (F j)" "(k, p) \<noteq> (j, q)"
  shows "q \<notin> blk k p"
  using lists_ok_disjoint [OF assms] blk_head [of q j] by blast

definition split_lists :: "nat \<Rightarrow> (nat \<Rightarrow> nat list) \<Rightarrow> nat \<Rightarrow> nat list" where
  "split_lists k F = (case F (Suc k) of [] \<Rightarrow> F | p # ps \<Rightarrow> F(Suc k := ps, k := (p + 2 ^ k) # p # F k))"

lemma neighbour_addr: "page_addr p + push_bit (k + 12) 1 = page_addr (p + 2 ^ k)"
  by (simp add: page_addr_def push_bit_eq_mult power_add ring_distribs)

lemma half_pages: "k < 19 \<Longrightarrow> (2 ^ Suc k :: u32) div 2 = 2 ^ k"
  by (simp add: word_unat_eq_iff unat_div unat_pow2 del: power_Suc) simp


text \<open>The lists after a split are well formed when the code has done its updates.\<close>

lemma split_lists_ok:
  assumes ok: "lists_ok P C R v h F" and k: "k < 19" and F: "F (Suc k) = p # ps"
    and h': "\<And>j. h' j = (if j = Suc k then nxt P ps else if j = k then P (p + 2 ^ k) else h j)"
    and ch: "chain P v' 0 ps" "chain P v' 0 ((p + 2 ^ k) # p # F k)"
    and bl: "block_ok C v' k p" "block_ok C v' k (p + 2 ^ k)"
    and off: "\<And>x. x \<notin> set ps \<union> set (F k) \<union> {p, p + 2 ^ k} \<Longrightarrow> v' x = v x"
    and data: "\<And>x j. x \<notin> {p, p + 2 ^ k} \<Longrightarrow> block_ok C v' j x = block_ok C v j x"
  shows "lists_ok P C R v' h' (split_lists k F)"
proof -
  let ?q = "p + 2 ^ k"
  have sk: "Suc k < 20" "k < 20" using k by auto
  have p: "p \<in> set (F (Suc k))" using F by simp
  note pR = lists_okD(7) [OF ok sk(1) p]
  have dv: "2 ^ Suc k dvd p" using lists_okD(6) [OF ok sk(1) p] .
  then have dvs: "2 ^ k dvd p" "2 ^ k dvd ?q" by (metis dvd_mult_right power_Suc dvd_add dvd_refl)+
  have out: "x \<notin> blk (Suc k) p" if "x \<in> set (F j)" "j < 20" "(j, x) \<noteq> (Suc k, p)" for x j
    using head_outside [OF ok sk(1) that(2) p that(1)] that(3) by auto
  have sub: "{p, ?q} \<subseteq> blk (Suc k) p" by (auto simp: blk_def)
  have F': "split_lists k F = F(Suc k := ps, k := ?q # p # F k)" by (simp add: split_lists_def F)
  have dps: "distinct (p # ps)" using lists_okD(3) [OF ok sk(1)] F by simp
  have one: "chain P v' 0 (split_lists k F j) \<and> h' j = nxt P (split_lists k F j) \<and> distinct (split_lists k F j) \<and>
        (\<forall>x\<in>set (split_lists k F j). block_ok C v' j x \<and> 2 ^ j dvd x \<and> blk j x \<subseteq> R)" if j: "j < 20" for j
  proof -
    consider "j = Suc k" | "j = k" | "j \<noteq> k" "j \<noteq> Suc k" by blast
    then show ?thesis
    proof cases
      case 1
      have "x \<notin> {p, ?q}" if "x \<in> set ps" for x
        using out [of x "Suc k"] that F sk dps sub by auto
      then show ?thesis using 1 F' ch(1) h' dps lists_okD(5-7) [OF ok sk(1)] F data by auto
    next
      case 2
      have x: "x \<notin> {p, ?q}" if "x \<in> set (F k)" for x using out [of x k] that sk sub by auto
      have "blk k p \<subseteq> R" "blk k ?q \<subseteq> R" using pR blk_split(1) [of k p] by auto
      then show ?thesis using 2 F' ch(2) h' x dvs bl data lists_okD(3,5-7) [OF ok sk(2)] by auto
    next
      case 3
      have x: "x \<notin> set ps \<union> set (F k) \<union> {p, ?q}" if "x \<in> set (F j)" for x
      proof -
        have "x \<notin> {p, ?q}" using out [of x j] that j sub 3 by auto
        moreover have "x \<notin> set ps" using head_outside [OF ok sk(1) j, of x x] F that 3 by auto
        moreover have "x \<notin> set (F k)" using head_outside [OF ok sk(2) j, of x x] that 3 by auto
        ultimately show ?thesis by blast
      qed
      have "chain P v' 0 (F j) \<longleftrightarrow> chain P v 0 (F j)" by (rule chain_cong) (use off x in blast)
      moreover have "block_ok C v' j x = block_ok C v j x" if "x \<in> set (F j)" for x using data x [OF that] by blast
      ultimately show ?thesis using 3 F' h' lists_okD [OF ok j] by auto
    qed
  qed
  text \<open>Every new block is an old one or a half of the one that was split.\<close>
  have origin: "x \<in> set (F j) \<and> (j, x) \<noteq> (Suc k, p) \<or> j = k \<and> (x = p \<or> x = ?q)" if "x \<in> set (split_lists k F j)" for j x
    using that F dps by (auto simp: F' split: if_splits)
  have dis: "blk i x \<inter> blk j y = {}" if "i < 20" "j < 20" "x \<in> set (split_lists k F i)" "y \<in> set (split_lists k F j)" "(i, x) \<noteq> (j, y)" for i j x y
  proof -
    have halves: "blk k p \<subseteq> blk (Suc k) p" "blk k ?q \<subseteq> blk (Suc k) p" using blk_split(1) [of k p] by auto
    have old: "blk j y \<inter> blk (Suc k) p = {}" if "j < 20" "y \<in> set (F j)" "(j, y) \<noteq> (Suc k, p)" for j y
      using lists_ok_disjoint [OF ok that(1) sk(1) that(2) p] that(3) by blast
    show ?thesis
      using origin [OF that(3)] origin [OF that(4)] that(1,2,5) old [of i x] old [of j y] halves blk_split(2) [of k p]
        lists_ok_disjoint [OF ok that(1,2), of x y] by fastforce
  qed
  show ?thesis unfolding lists_ok_def using one dis by blast
qed

text \<open>Every page that is marked as the head of a free block is in a list, before and after a split.\<close>

lemma split_flags_ok:
  assumes fl: "flags_ok R v F" and k: "k < 19" and F: "F (Suc k) = p # ps"
    and same: "\<And>x. x \<notin> {p, p + 2 ^ k} \<Longrightarrow> hp_flags (v' x) = hp_flags (v x)"
  shows "flags_ok R v' (split_lists k F)"
proof -
  have keep: "x \<in> set (split_lists k F j)" if "x \<in> set (F j)" "x \<noteq> p" for x j
    using that F by (auto simp: split_lists_def)
  have "\<exists>j<20. x \<in> set (split_lists k F j)" if "x \<in> R" "hp_flags (v' x) AND 7 = 7" for x
  proof (cases "x \<in> {p, p + 2 ^ k}")
    case True
    then have "x \<in> set (split_lists k F k)" using F by (auto simp: split_lists_def)
    then show ?thesis using k by (intro exI [of _ k]) simp
  next
    case False
    then show ?thesis using that fl same keep unfolding flags_ok_def by (metis insert_iff)
  qed
  then show ?thesis unfolding flags_ok_def by blast
qed

lemma split_buddy_correct:
  assumes ok: "heap_ok s R F" and k: "k < 19" and F: "F (Suc k) = p # ps"
  shows "\<exists>s'. split_buddy k s = Inr s' \<and> heap_ok s' R (split_lists k F) \<and> geo s' = geo s"
proof -
  obtain v h where se: "sees s R v h" and l: "lists_ok (optr s) (buddy_cache_ptr s) R v h F" and fl: "flags_ok R v F"
    using ok by (auto simp: heap_ok_def)
  let ?P = "optr s" and ?C = "buddy_cache_ptr s" and ?q = "p + 2 ^ k"
  have sk: "Suc k < 20" "k < 20" using k by auto
  have pF: "p \<in> set (F (Suc k))" using F by simp
  have "{p, ?q} \<subseteq> blk (Suc k) p" by (auto simp: blk_def)
  then have R: "p \<in> R" "?q \<in> R" using lists_okD(7) [OF l sk(1) pF] by blast+
  have g: "geo_ok s R" using sees_geo [OF se] .
  have b: "block_ok ?C v (Suc k) p" using lists_okD(5) [OF l sk(1) pF] .
  have ps: "chain ?P v (?P p) ps" "hp_next_free (v p) = nxt ?P ps" "h (Suc k) = ?P p" "set ps \<subseteq> R" "distinct ps" "p \<notin> set ps"
    using lists_okD(1-4) [OF l sk(1)] F by auto
  have qs: "chain ?P v 0 (F k)" "h k = nxt ?P (F k)" "set (F k) \<subseteq> R" "distinct (F k)" using lists_okD(1-4) [OF l sk(2)] by auto
  have out: "x \<notin> {p, ?q}" if "x \<in> set (F j)" "j < 20" "(j, x) \<noteq> (Suc k, p)" for x j
    using head_outside [OF l sk(1) that(2) pF that(1)] that(3) by (auto simp: blk_def)
  have disj: "x \<notin> set ps" if "x \<in> set (F k)" for x using head_outside [OF l sk(1) sk(2), of x x] F that by auto
  obtain s1 v1 where s1: "(if nxt ?P ps \<noteq> 0 then kbind (order_idx s (nxt ?P ps)) (\<lambda>j. hpage_upd j (\<lambda>e. e\<lparr>hp_w3 := 0\<rparr>) s) else Inr s) = Inr s1"
      "sees s1 R v1 h" "geo s1 = geo s" "chain ?P v1 0 ps" "same_data v v1" "same_off (set ps) v v1"
    using clear_first [OF se ps(1,4,5)] by blast
  let ?h2 = "h(Suc k := nxt ?P ps)"
  obtain s2 where s2: "fb_set (Suc k) (nxt ?P ps) s1 = Inr s2" "sees s2 R v1 ?h2" "geo s2 = geo s"
    using sees_fb_set [OF s1(2) sk(1), of "nxt ?P ps"] s1(3) by auto
  have vp: "v1 p = v p" using s1(6) ps(6) by (simp add: same_off_def)
  have va: "hp_virt_addr (v p) = page_addr p" using b by (simp add: block_ok_def)
  have d2: "desc_of s2 (page_addr x) = Inr (dsc s x)" if "x \<in> R" for x
    using desc_of_page [OF sees_geo [OF s2(2)] that] geo_dsc [OF s2(3)] by simp
  let ?f = "\<lambda>e. e\<lparr>hp_w0 := hp_w0 e div 2, hp_w2 := of_nat k, hp_w5 := ?C k\<rparr>"
  obtain s3 where s3: "hpage_upd (dsc s p) ?f s2 = Inr s3" "sees s3 R (v1(p := ?f (v p))) ?h2" "geo s3 = geo s"
    using sees_upd [OF s2(2) R(1), of ?f] geo_dsc [OF s2(3)] s2(3) vp by auto
  let ?np = "hp_w0 (v p) div 2"
  let ?g = "\<lambda>e. e\<lparr>hp_flags := HEAPFLAG_VFREE OR HEAPFLAG_BUDDY OR HEAPFLAG_HEAD, hp_w0 := ?np, hp_w5 := ?C k,
                 hp_w2 := of_nat k, hp_w1 := page_addr ?q, hp_w4 := 0, hp_w3 := 0\<rparr>"
  define v4 where "v4 = v1(p := ?f (v p), ?q := ?g (v1 ?q))"
  obtain s4 where s4: "hpage_upd (dsc s ?q) ?g s3 = Inr s4" "sees s4 R v4 ?h2" "geo s4 = geo s"
    using sees_upd [OF s3(2) R(2), of ?g] geo_dsc [OF s3(3)] s3(3) by (auto simp: v4_def)
  have get3: "hpage_get s3 (dsc s p) = Inr (?f (v p))"
    using sees_get [OF s3(2) R(1)] geo_dsc [OF s3(3)] by simp
  have w0: "hp_w0 (?f (v p)) = ?np" by simp
  note eq4 = geo_optr [OF s4(3)] geo_dsc [OF s4(3)]
  have inF: "p \<notin> set (F k)" "?q \<notin> set (F k)" using out [of p k] out [of ?q k] sk by auto
  have off4: "same_off (set ps \<union> {p, ?q}) v v4" using s1(6) by (auto simp: v4_def same_off_def)
  have c4: "chain ?P v4 0 (F k)" using qs(1) chain_off [OF off4, of "F k"] disj inF by auto
  obtain s5 v5 where s5: "buddy_push k (dsc s p) s4 = Inr s5" "sees s5 R v5 (?h2(k := ?P p))" "geo s5 = geo s"
      "chain ?P v5 0 (p # F k)" "same_data v4 v5" "same_off (set (p # F k)) v4 v5"
    using buddy_push_correct [OF s4(2), of "F k" k p] c4 qs R(1) inF sk s4(3) unfolding eq4 by auto
  note eq5 = geo_optr [OF s5(3)] geo_dsc [OF s5(3)]
  have q: "?q \<notin> set (p # F k)" using inF by auto
  have "set (p # F k) \<subseteq> R" "distinct (p # F k)" using qs R inF by auto
  then obtain s6 v6 where s6: "buddy_push k (dsc s ?q) s5 = Inr s6" "sees s6 R v6 (?h2(k := ?P p, k := ?P ?q))" "geo s6 = geo s"
      "chain ?P v6 0 (?q # p # F k)" "same_data v5 v6" "same_off (set (?q # p # F k)) v5 v6"
    using buddy_push_correct [OF s5(2), of "p # F k" k ?q] s5(3,4) R(2) q sk unfolding eq5 by auto
  have run: "split_buddy k s = Inr s6"
    by (simp only: split_buddy_def kbind_simps Let_def sees_fb_get [OF se sk(1)] ps(2,3) optr_idx [OF g R(1)]
        sees_get [OF se R(1)] s1(1) s2(1) va neighbour_addr d2 [OF R(1)] d2 [OF R(2)] geo_cache [OF s2(3)] s3(1) get3 w0
        geo_cache [OF s3(3)] s4(1) s5(1) s6(1))
  have data: "same_data v4 v6" using s5(5) s6(5) by (rule same_data_trans)
  have half: "?np = 2 ^ k" using b half_pages [OF k] by (simp add: block_ok_def)
  have b4: "block_ok ?C v4 k p" "block_ok ?C v4 k ?q"
    using b half by (auto simp: v4_def block_ok_def HEAPFLAG_HEAD_def HEAPFLAG_VFREE_def HEAPFLAG_BUDDY_def)
  have "lists_ok ?P ?C R v6 (?h2(k := ?P p, k := ?P ?q)) (split_lists k F)"
  proof (rule split_lists_ok [OF l k F])
    have "same_off {p, ?q} v1 v4" by (simp add: v4_def same_off_def)
    from same_off_trans [OF same_off_trans [OF this s5(6)] s6(6)]
    have "same_off ({p, ?q} \<union> set (F k)) v1 v6" by (rule same_off_mono) auto
    moreover have "({p, ?q} \<union> set (F k)) \<inter> set ps = {}" using ps(6) disj out [of ?q "Suc k"] F sk by auto
    ultimately have "chain ?P v6 0 ps \<longleftrightarrow> chain ?P v1 0 ps" by (rule chain_off)
    then show "chain ?P v6 0 ps" using s1(4) by simp
    show "chain ?P v6 0 (?q # p # F k)" by (rule s6(4))
    show "block_ok ?C v6 k p" "block_ok ?C v6 k ?q" using b4 block_ok_data [OF data] by simp_all
    from same_off_trans [OF same_off_trans [OF off4 s5(6)] s6(6)]
    have off6: "same_off (set ps \<union> set (F k) \<union> {p, ?q}) v v6" by (rule same_off_mono) auto
    show "v6 x = v x" if "x \<notin> set ps \<union> set (F k) \<union> {p, ?q}" for x
      using that off6 by (simp add: same_off_def)
    show "block_ok ?C v6 j x = block_ok ?C v j x" if "x \<notin> {p, ?q}" for x j
      using that block_ok_data [OF data] block_ok_data [OF s1(5)] by (auto simp: v4_def block_ok_def)
  qed auto
  moreover have "flags_ok R v6 (split_lists k F)"
    using data s1(5) by (intro split_flags_ok [OF fl k F]) (simp add: same_data_def v4_def)
  ultimately have "heap_ok s6 R (split_lists k F)"
    using s6(2) geo_optr [OF s6(3)] geo_cache [OF s6(3)] by (auto simp: heap_ok_def)
  then show ?thesis using run s6(3) by blast
qed


lemma split_free_pages: "k < 19 \<Longrightarrow> free_pages (split_lists k F) = free_pages F"
proof (cases "F (Suc k)")
  case (Cons p ps)
  assume k: "k < 19"
  have all: "{..<20} = insert k (insert (Suc k) ({..<20} - {k, Suc k}))" using k by auto
  have "free_pages G = (\<Union>p\<in>set (G k). blk k p) \<union> ((\<Union>p\<in>set (G (Suc k)). blk (Suc k) p) \<union> (\<Union>j\<in>{..<20} - {k, Suc k}. \<Union>p\<in>set (G j). blk j p))" for G
    unfolding free_pages_def by (subst all) (simp only: UN_insert)
  from this [of F] this [of "split_lists k F"] show ?thesis
    using Cons blk_split(1) [of k p] by (auto simp: split_lists_def)
qed (simp add: split_lists_def)

text \<open>Splitting down to the order that is asked for, on the lists.\<close>

primrec split_lists_down :: "nat \<Rightarrow> nat \<Rightarrow> (nat \<Rightarrow> nat list) \<Rightarrow> nat \<Rightarrow> nat list" where
  "split_lists_down k 0 F = F"
| "split_lists_down k (Suc n) F = split_lists_down k n (split_lists (k + n) F)"

lemma split_down_correct:
  assumes "heap_ok s R F" "k + n < 20" "F (k + n) \<noteq> []"
  shows "\<exists>s'. split_down k n s = Inr s' \<and> heap_ok s' R (split_lists_down k n F) \<and> geo s' = geo s \<and>
    split_lists_down k n F k \<noteq> [] \<and> free_pages (split_lists_down k n F) = free_pages F"
  using assms
proof (induction n arbitrary: s F)
  case 0
  then show ?case by auto
next
  case (Suc n)
  then obtain p ps where F: "F (Suc (k + n)) = p # ps" by (cases "F (Suc (k + n))") auto
  obtain s1 where s1: "split_buddy (k + n) s = Inr s1" "heap_ok s1 R (split_lists (k + n) F)" "geo s1 = geo s"
    using split_buddy_correct [OF Suc.prems(1), of "k + n"] Suc.prems(2) F by auto
  have ne: "split_lists (k + n) F (k + n) \<noteq> []" using F by (simp add: split_lists_def)
  have "free_pages (split_lists (k + n) F) = free_pages F" using split_free_pages [of "k + n" F] Suc.prems(2) by simp
  then show ?case using Suc.IH [OF s1(2) _ ne] s1 Suc.prems(2) by auto
qed

text \<open>What the descriptor of a block says once the block is handed out.\<close>

definition handed_out :: "heap_state \<Rightarrow> nat \<Rightarrow> nat \<Rightarrow> bool" where
  "handed_out s k p \<longleftrightarrow> (let d = hs_pages s (dsc s p) in
     hp_num_pages d = 2 ^ k \<and> hp_buddy_cache d = buddy_cache_ptr s k \<and>
     hp_flags d AND HEAPFLAG_HEAD \<noteq> 0 \<and> hp_flags d AND HEAPFLAG_VFREE = 0)"

lemma clear_free_flag:
  "(f AND NOT HEAPFLAG_VFREE) AND HEAPFLAG_HEAD = f AND HEAPFLAG_HEAD" "(f AND NOT HEAPFLAG_VFREE) AND HEAPFLAG_VFREE = 0"
  by (simp_all add: and.assoc HEAPFLAG_VFREE_def HEAPFLAG_HEAD_def)

lemma take_buddy_correct:
  assumes ok: "heap_ok s R F" and k: "k < 20" and F: "F k = p # ps"
  shows "\<exists>s'. take_buddy k s = Inr (page_addr p, s') \<and> heap_ok s' R (F(k := ps)) \<and> geo s' = geo s \<and> handed_out s' k p"
proof -
  obtain v h where se: "sees s R v h" and l: "lists_ok (optr s) (buddy_cache_ptr s) R v h F" and fl: "flags_ok R v F"
    using ok by (auto simp: heap_ok_def)
  let ?P = "optr s" and ?C = "buddy_cache_ptr s"
  have pF: "p \<in> set (F k)" using F by simp
  have R: "p \<in> R" using lists_okD(4) [OF l k] pF by blast
  have g: "geo_ok s R" using sees_geo [OF se] .
  have va: "hp_virt_addr (v p) = page_addr p" using lists_okD(5) [OF l k pF] by (simp add: block_ok_def)
  have ps: "chain ?P v (?P p) ps" "hp_next_free (v p) = nxt ?P ps" "h k = ?P p" "set ps \<subseteq> R" "distinct ps" "p \<notin> set ps"
    using lists_okD(1-4) [OF l k] F by auto
  obtain s1 where s1: "fb_set k (nxt ?P ps) s = Inr s1" "sees s1 R v (h(k := nxt ?P ps))" "geo s1 = geo s"
    using sees_fb_set [OF se k, of "nxt ?P ps"] by auto
  let ?f = "\<lambda>e. e\<lparr>hp_flags := hp_flags e AND NOT HEAPFLAG_VFREE\<rparr>"
  have d1: "desc_of s1 (page_addr p) = Inr (dsc s p)"
    using desc_of_page [OF sees_geo [OF s1(2)] R] geo_dsc [OF s1(3)] by simp
  define v2 where "v2 = v(p := ?f (v p))"
  obtain s2 where s2: "hpage_upd (dsc s p) ?f s1 = Inr s2" "sees s2 R v2 (h(k := nxt ?P ps))" "geo s2 = geo s"
    using sees_upd [OF s1(2) R, of ?f] geo_dsc [OF s1(3)] s1(3) by (auto simp: v2_def)
  have off2: "same_off {p} v v2" by (simp add: v2_def same_off_def)
  have c2: "chain ?P v2 (?P p) ps" using chain_off [OF off2] ps(1,6) by simp
  note eq2 = geo_optr [OF s2(3)]
  obtain s3 v3 where s3: "(if nxt ?P ps \<noteq> 0 then kbind (order_idx s2 (nxt ?P ps)) (\<lambda>j. hpage_upd j (\<lambda>e. e\<lparr>hp_w3 := 0\<rparr>) s2) else Inr s2) = Inr s3"
      "sees s3 R v3 (h(k := nxt ?P ps))" "geo s3 = geo s" "chain ?P v3 0 ps" "same_data v2 v3" "same_off (set ps) v2 v3"
    using clear_first [OF s2(2), of "?P p" ps] c2 ps(4,5) s2(3) unfolding eq2 by auto
  have run: "take_buddy k s = Inr (page_addr p, s3)"
    by (simp only: take_buddy_def kbind_simps sees_fb_get [OF se k] ps(2,3) optr_idx [OF g R] sees_get [OF se R] s1(1) va d1 s2(1) s3(1))
  have b3: "block_ok ?C v3 j x = block_ok ?C v j x" if "x \<noteq> p" for j x
    using that block_ok_data [OF s3(5)] by (simp add: v2_def block_ok_def)
  have mem: "(F(k := ps)) j = F j \<or> j = k \<and> (F(k := ps)) j = ps" for j by auto
  have sub: "set ((F(k := ps)) j) \<subseteq> set (F j)" for j using F by auto
  have notp: "x \<noteq> p" if "x \<in> set ((F(k := ps)) j)" "j < 20" for j x
    using that ps(6) head_outside [OF l k, of j p x] F by (cases "j = k") auto
  have one: "chain ?P v3 0 ((F(k := ps)) j) \<and> (h(k := nxt ?P ps)) j = nxt ?P ((F(k := ps)) j) \<and> distinct ((F(k := ps)) j) \<and>
        (\<forall>x\<in>set ((F(k := ps)) j). block_ok ?C v3 j x \<and> 2 ^ j dvd x \<and> blk j x \<subseteq> R)" if j: "j < 20" for j
  proof -
    have "chain ?P v3 0 (F j) \<longleftrightarrow> chain ?P v 0 (F j)" if "j \<noteq> k"
    proof (rule chain_cong)
      fix x assume x: "x \<in> set (F j)"
      then have "x \<notin> set ps" "x \<noteq> p" using head_outside [OF l k j, of x x] notp [of x j] that F j by auto
      then show "v3 x = v x" using s3(6) by (simp add: same_off_def v2_def)
    qed
    then have c: "chain ?P v3 0 ((F(k := ps)) j)" using lists_okD(1) [OF l j] s3(4) by simp
    have b: "block_ok ?C v3 j x \<and> 2 ^ j dvd x \<and> blk j x \<subseteq> R" if "x \<in> set ((F(k := ps)) j)" for x
      using lists_okD(5-7) [OF l j, of x] b3 notp [OF that j] that sub [of j] by blast
    show ?thesis using c b lists_okD(2,3) [OF l j] ps(5) by auto
  qed
  have "lists_ok ?P ?C R v3 (h(k := nxt ?P ps)) (F(k := ps))"
    unfolding lists_ok_def using one lists_ok_disjoint [OF l] sub by blast
  moreover have "flags_ok R v3 (F(k := ps))"
  proof -
    have "hp_flags (v3 p) AND 7 \<noteq> 7"
    proof
      assume "hp_flags (v3 p) AND 7 = 7"
      then have "bit (hp_flags (v3 p) AND 7) 0" by simp
      moreover have "hp_flags (v3 p) = hp_flags (v p) AND NOT HEAPFLAG_VFREE" using s3(5) by (simp add: same_data_def v2_def)
      ultimately show False by (simp add: bit_simps HEAPFLAG_VFREE_def)
    qed
    moreover have "hp_flags (v3 x) = hp_flags (v x)" if "x \<noteq> p" for x using that s3(5) by (simp add: same_data_def v2_def)
    moreover have "x \<in> set ((F(k := ps)) j)" if "x \<in> set (F j)" "x \<noteq> p" for x j using that F by auto
    ultimately show ?thesis using fl unfolding flags_ok_def by metis
  qed
  ultimately have "heap_ok s3 R (F(k := ps))" using s3(2) geo_optr [OF s3(3)] geo_cache [OF s3(3)] by (auto simp: heap_ok_def)
  moreover have "hs_pages s3 (dsc s3 p) = ?f (v p)"
    using s3(2,6) R ps(6) by (simp add: sees_def same_off_def v2_def)
  then have "handed_out s3 k p"
    using lists_okD(5) [OF l k pF] geo_cache [OF s3(3)] by (simp add: handed_out_def block_ok_def clear_free_flag)
  ultimately show ?thesis using run s3(3) by auto
qed


lemma take_free_pages:
  assumes "heap_ok s R F" "k < 20" "F k = p # ps"
  shows "free_pages (F(k := ps)) = free_pages F - blk k p" "blk k p \<subseteq> free_pages F" "2 ^ k dvd p"
proof -
  obtain v h where l: "lists_ok (optr s) (buddy_cache_ptr s) R v h F" using assms(1) by (auto simp: heap_ok_def)
  have p: "p \<in> set (F k)" "p \<notin> set ps" using assms(3) lists_okD(3) [OF l assms(2)] by auto
  show "blk k p \<subseteq> free_pages F" "2 ^ k dvd p" using p(1) assms(2) lists_okD(6) [OF l assms(2)] by (auto simp: free_pages_def)
  have other: "blk j q \<inter> blk k p = {}" if "j < 20" "q \<in> set ((F(k := ps)) j)" for j q
    using that lists_ok_disjoint [OF l that(1) assms(2) _ p(1), of q] p assms(3) by (cases "j = k") auto
  have "free_pages F = free_pages (F(k := ps)) \<union> blk k p"
  proof -
    have "(\<Union>q\<in>set (F j). blk j q) = (\<Union>q\<in>set ((F(k := ps)) j). blk j q) \<union> (if j = k then blk k p else {})" for j
      using assms(3) by (simp add: Un_commute)
    then have "free_pages F = free_pages (F(k := ps)) \<union> (\<Union>j<20. if j = k then blk k p else {})"
      unfolding free_pages_def by (simp only: UN_Un_distrib)
    also have "(\<Union>j<20. if j = k then blk k p else {}) = blk k p" using assms(2) by (auto split: if_splits)
    finally show ?thesis .
  qed
  moreover have "free_pages (F(k := ps)) \<inter> blk k p = {}" using other by (auto simp: free_pages_def)
  ultimately show "free_pages (F(k := ps)) = free_pages F - blk k p" by blast
qed

lemma first_order_spec:
  assumes "k \<le> 20"
  shows "k \<le> first_order fb k \<and> first_order fb k \<le> 20 \<and> (\<forall>j. k \<le> j \<and> j < first_order fb k \<longrightarrow> fb j = 0) \<and>
    (first_order fb k < 20 \<longrightarrow> fb (first_order fb k) \<noteq> 0)"
  using assms
proof (induction fb k rule: first_order.induct)
  case (1 fb k)
  show ?case
  proof (cases "k \<le> 19 \<and> fb k = 0")
    case True
    then have "first_order fb k = first_order fb (k + 1)" by (subst first_order.simps) simp
    then show ?thesis using 1 True by simp (metis Suc_leI Suc_le_eq le_neq_implies_less)
  next
    case False
    then have "first_order fb k = k" by (subst first_order.simps) auto
    then show ?thesis using 1(2) False by auto
  qed
qed

lemma klog2_pow2:
  assumes "unat sz = 2 ^ n" "n < 32"
  shows "klog2 sz = Inr n"
proof -
  have nz: "sz \<noteq> 0" using assms(1) by auto
  obtain k where k: "log2_u32 sz = Some (of_nat k)" "k < 32" "2 ^ k \<le> unat sz" "unat sz < 2 ^ Suc k"
    using log2_u32_spec [OF nz] by blast
  then have "k = n" using assms(1) by (simp del: power_Suc)
  moreover have "unat (of_nat k :: u32) = k" using k(2) by (simp add: unat_of_nat)
  ultimately show ?thesis using k(1) by (simp add: klog2_def)
qed

text \<open>Whether some order from \<open>k\<close> on has a free block.\<close>

definition has_room :: "(nat \<Rightarrow> nat list) \<Rightarrow> nat \<Rightarrow> bool" where
  "has_room F k \<longleftrightarrow> (\<exists>j. k \<le> j \<and> j < 20 \<and> F j \<noteq> [])"

text \<open>\<open>taken F k p F'\<close>: the first order from \<open>k\<close> on with a block is split down to \<open>k\<close>, and the first block there is \<open>p\<close>.\<close>

definition taken :: "(nat \<Rightarrow> nat list) \<Rightarrow> nat \<Rightarrow> nat \<Rightarrow> (nat \<Rightarrow> nat list) \<Rightarrow> bool" where
  "taken F k p F' \<longleftrightarrow> (\<exists>n ps. k + n < 20 \<and> F (k + n) \<noteq> [] \<and> (\<forall>i<n. F (k + i) = []) \<and>
     split_lists_down k n F k = p # ps \<and> F' = (split_lists_down k n F)(k := ps))"

lemma alloc_buddy_lists:
  assumes ok: "heap_ok s R F" and sz: "unat sz = 2 ^ (k + 12)" "k < 20"
  shows "if has_room F k
    then \<exists>p s' F'. alloc_buddy map_more sz s = lret (page_addr p, s') \<and> heap_ok s' R F' \<and> geo s' = geo s \<and> taken F k p F' \<and>
      2 ^ k dvd p \<and> blk k p \<subseteq> free_pages F \<and> free_pages F' = free_pages F - blk k p \<and> handed_out s' k p
    else alloc_buddy map_more sz s = lbind (grow_heap map_more sz s) (alloc_buddy map_more sz)"
proof -
  obtain v h where se: "sees s R v h" and l: "lists_ok (optr s) (buddy_cache_ptr s) R v h F" using ok by (auto simp: heap_ok_def)
  have log: "klog2 sz = Inr (k + 12)" using klog2_pow2 [OF sz(1)] sz(2) by simp
  have nz: "sz \<noteq> 0" using sz(1) by auto
  have "unat (sz mod PAGE_SIZE) = 2 ^ (k + 12) mod 2 ^ 12" using sz(1) by (simp add: unat_mod)
  then have m: "sz mod PAGE_SIZE = 0" by (simp add: word_unat_eq_iff power_add)
  have pw: "sz AND (sz - 1) = 0" by (rule word_pow2_and_pred) (use sz(1) in \<open>metis is_pow2I\<close>)
  let ?j = "first_order (free_buddies s) k"
  have fb: "free_buddies s j = 0 \<longleftrightarrow> F j = []" if "j < 20" for j
    using se that lists_okD(2,4) [OF l that] optr_nonzero [OF sees_geo [OF se]] by (cases "F j") (auto simp: sees_def)
  have run: "alloc_buddy map_more sz s =
     (if ?j > 19 then lbind (grow_heap map_more sz s) (alloc_buddy map_more sz)
      else lbind (Some (split_down k (?j - k) s)) (\<lambda>s. Some (take_buddy k s)))"
    using log nz m pw by (subst alloc_buddy.simps) simp
  have spec: "k \<le> ?j" "?j \<le> 20" "\<forall>j. k \<le> j \<and> j < ?j \<longrightarrow> free_buddies s j = 0" "?j < 20 \<longrightarrow> free_buddies s ?j \<noteq> 0"
    using first_order_spec [of k "free_buddies s"] sz(2) by auto
  show ?thesis
  proof (cases "?j < 20")
    case True
    then have ne: "F ?j \<noteq> []" using spec(4) fb by blast
    then have room: "has_room F k" using spec(1) True by (auto simp: has_room_def)
    let ?n = "?j - k" and ?F1 = "split_lists_down k (?j - k) F"
    obtain s1 where s1: "split_down k ?n s = Inr s1" "heap_ok s1 R ?F1" "geo s1 = geo s" "?F1 k \<noteq> []" "free_pages ?F1 = free_pages F"
      using split_down_correct [OF ok, of k ?n] spec(1) True ne by auto
    obtain p ps where F1: "?F1 k = p # ps" using s1(4) by (cases "?F1 k") auto
    obtain s2 where s2: "take_buddy k s1 = Inr (page_addr p, s2)" "heap_ok s2 R (?F1(k := ps))" "geo s2 = geo s1" "handed_out s2 k p"
      using take_buddy_correct [OF s1(2) sz(2) F1] by blast
    have "\<forall>i<?n. F (k + i) = []" using spec(3) fb True by auto
    then have "taken F k p (?F1(k := ps))" unfolding taken_def using F1 ne True spec(1) by (intro exI [of _ ?n] exI [of _ ps]) simp
    moreover have "alloc_buddy map_more sz s = lret (page_addr p, s2)" using run True s1(1) s2(1) by simp
    ultimately show ?thesis using room s1 s2 take_free_pages [OF s1(2) sz(2) F1] by auto
  next
    case False
    then have "?j = 20" using spec(2) by simp
    then have "\<not> has_room F k" using spec(3) fb by (auto simp: has_room_def)
    then show ?thesis using run False by simp
  qed
qed

lemma alloc_buddy_correct:
  assumes "heap_ok s R F" "unat sz = 2 ^ (k + 12)" "k < 20"
  shows "if has_room F k
    then \<exists>p s' F'. alloc_buddy map_more sz s = lret (page_addr p, s') \<and> heap_ok s' R F' \<and> geo s' = geo s \<and>
      2 ^ k dvd p \<and> blk k p \<subseteq> free_pages F \<and> free_pages F' = free_pages F - blk k p \<and> handed_out s' k p
    else alloc_buddy map_more sz s = lbind (grow_heap map_more sz s) (alloc_buddy map_more sz)"
  using alloc_buddy_lists [OF assms, of map_more] by (simp split: if_splits) blast

section \<open>Heaps with one block per order\<close>

text \<open>
  A heap that was created at an aligned address, and from which only has been allocated since, has at most one block
  of each order. Taking a block keeps it so, and such a heap can serve every request up to its number of free pages.
\<close>

definition single_blocks :: "(nat \<Rightarrow> nat list) \<Rightarrow> bool" where
  "single_blocks F \<longleftrightarrow> (\<forall>k<20. length (F k) \<le> 1)"

lemma split_lists_down_lengths:
  assumes "F (k + n) \<noteq> []" "\<forall>i<n. F (k + i) = []"
  shows "length (split_lists_down k n F j) =
    (if n = 0 then length (F j) else if j = k then 2 else if k < j \<and> j < k + n then 1
     else if j = k + n then length (F j) - 1 else length (F j))"
  using assms
proof (induction n arbitrary: F)
  case (Suc n)
  obtain p ps where p: "F (Suc (k + n)) = p # ps" using Suc.prems(1) by (cases "F (Suc (k + n))") auto
  define G where "G = F(Suc (k + n) := ps, k + n := [p + 2 ^ (k + n), p])"
  have G: "split_lists (k + n) F = G" using Suc.prems(2) by (simp add: split_lists_def p G_def)
  have "G (k + n) \<noteq> []" "\<forall>i<n. G (k + i) = []" using Suc.prems(2) by (auto simp: G_def)
  then show ?case using Suc.IH [of G] p by (auto simp: G) (auto simp: G_def)
qed simp

lemma taken_single:
  assumes "taken F k p F'" "single_blocks F"
  shows "single_blocks F'"
proof -
  obtain n ps where n: "k + n < 20" "F (k + n) \<noteq> []" "\<forall>i<n. F (k + i) = []" "split_lists_down k n F k = p # ps"
      "F' = (split_lists_down k n F)(k := ps)"
    using assms(1) by (auto simp: taken_def)
  note len = split_lists_down_lengths [OF n(2,3)]
  have "length ps \<le> 1" using len [of k] n(1,4) assms(2) by (auto simp: single_blocks_def split: if_splits)
  moreover have "length (split_lists_down k n F j) \<le> 1" if "j < 20" "j \<noteq> k" for j
    using len [of j] that assms(2) n(1) by (auto simp: single_blocks_def split: if_splits)
  ultimately show ?thesis by (simp add: single_blocks_def n(5))
qed

lemma finite_free_pages [simp]: "finite (free_pages F)"
  by (simp add: free_pages_def blk_def)

lemma card_blk [simp]: "card (blk k p) = 2 ^ k"
  by (simp add: blk_def)

lemma single_room:
  assumes "single_blocks F" "2 ^ k \<le> card (free_pages F)" "k < 20"
  shows "has_room F k"
proof (rule ccontr)
  assume no: "\<not> has_room F k"
  have "card (\<Union>p\<in>set (F j). blk j p) \<le> (if j < k then 2 ^ j else 0)" if "j < 20" for j
  proof (cases "F j")
    case (Cons p ps)
    then have "F j = [p]" using assms(1) that by (auto simp: single_blocks_def)
    moreover have "j < k" using no that Cons unfolding has_room_def by (metis leI list.distinct(1))
    ultimately show ?thesis by simp
  qed simp
  then have "(\<Sum>j<20. card (\<Union>p\<in>set (F j). blk j p)) \<le> (\<Sum>j<20. if j < k then 2 ^ j else 0)"
    by (intro sum_mono) simp
  also have "\<dots> = (\<Sum>j<k. 2 ^ j)" using assms(3) by (intro sum.mono_neutral_cong_right) auto
  also have "\<dots> < 2 ^ k" by (induction k) auto
  finally have "card (free_pages F) < 2 ^ k"
    using card_UN_le [of "{..<20 :: nat}" "\<lambda>j. \<Union>p\<in>set (F j). blk j p"] by (simp add: free_pages_def)
  then show False using assms(2) by simp
qed

end
