(* ===== verification/Heap_Merge.thy ===== *)
theory Heap_Merge
  imports Heap_Correct
begin

text \<open>
  Releasing a block to the buddy allocator: unlinking from a free list, joining a block with
  its buddy, and the loop that repeats it upwards.
\<close>

section \<open>Unlinking\<close>

fun seg :: "(nat \<Rightarrow> u32) \<Rightarrow> (nat \<Rightarrow> hpage) \<Rightarrow> u32 \<Rightarrow> nat list \<Rightarrow> u32 \<Rightarrow> bool" where
  "seg P v prev [] e = True"
| "seg P v prev (p # ps) e = (hp_prev_free (v p) = prev \<and> hp_next_free (v p) = (if ps = [] then e else P (hd ps)) \<and> seg P v (P p) ps e)"

definition lastp :: "(nat \<Rightarrow> u32) \<Rightarrow> u32 \<Rightarrow> nat list \<Rightarrow> u32" where
  "lastp P a xs = (if xs = [] then a else P (last xs))"

lemma chain_append: "chain P v a (xs @ ys) \<longleftrightarrow> seg P v a xs (nxt P ys) \<and> chain P v (lastp P a xs) ys"
proof (induction xs arbitrary: a)
  case (Cons x xs)
  then show ?case by (cases xs) (auto simp: lastp_def)
qed (simp add: lastp_def)

lemma seg_cong: "(\<And>p. p \<in> set ps \<Longrightarrow> v p = v' p) \<Longrightarrow> seg P v a ps e \<longleftrightarrow> seg P v' a ps e"
  by (induction ps arbitrary: a) auto

lemma seg_last:
  assumes "seg P v a (us @ [z]) e" "z \<notin> set us"
  shows "seg P (v(z := (v z)\<lparr>hp_w4 := e'\<rparr>)) a (us @ [z]) e'"
  using assms
proof (induction us arbitrary: a)
  case (Cons u us)
  then show ?case by (cases us) auto
qed simp

lemma buddy_unlink_correct:
  assumes se: "sees s R v h" and ch: "chain (optr s) v 0 (xs @ x # ys)" "h k = nxt (optr s) (xs @ x # ys)"
    and R: "set (xs @ x # ys) \<subseteq> R" "distinct (xs @ x # ys)" and k: "k < 20"
  shows "\<exists>s' v'. buddy_unlink k (dsc s x) s = Inr s' \<and> sees s' R v' (h(k := nxt (optr s) (xs @ ys))) \<and> geo s' = geo s \<and>
    chain (optr s) v' 0 (xs @ ys) \<and> same_data v v' \<and> same_off (set (xs @ ys)) v v'"
proof -
  let ?P = "optr s"
  note g = sees_geo [OF se]
  have x: "x \<in> R" "x \<notin> set xs" "x \<notin> set ys" using R by auto
  have sx: "seg ?P v 0 xs (?P x)" "hp_prev_free (v x) = lastp ?P 0 xs" "hp_next_free (v x) = nxt ?P ys" "chain ?P v (?P x) ys"
    using ch(1) by (auto simp: chain_append)
  define v1 where "v1 = (case ys of [] \<Rightarrow> v | y # _ \<Rightarrow> v(y := (v y)\<lparr>hp_w3 := lastp ?P 0 xs\<rparr>))"
  obtain s1 where s1: "(if nxt ?P ys \<noteq> 0
            then kbind (order_idx s (nxt ?P ys)) (\<lambda>j. hpage_upd j (\<lambda>e. e\<lparr>hp_w3 := lastp ?P 0 xs\<rparr>) s) else Inr s) = Inr s1"
      "sees s1 R v1 h" "geo s1 = geo s"
  proof (cases ys)
    case Nil
    then show ?thesis using that [of s] se by (simp add: v1_def)
  next
    case (Cons y zs)
    then have y: "y \<in> R" using R by simp
    show ?thesis using that sees_upd [OF se y, of "\<lambda>e. e\<lparr>hp_w3 := lastp ?P 0 xs\<rparr>"] Cons optr_nonzero [OF g y] optr_idx [OF g y]
      by (auto simp: v1_def)
  qed
  have v1x: "v1 x = v x" using x by (auto simp: v1_def split: list.splits)
  have off1: "same_off (set ys) v v1" by (auto simp: v1_def same_off_def split: list.splits)
  have c1: "chain ?P v1 (lastp ?P 0 xs) ys"
    using sx(4) R(2) chain_prev [of ?P v "?P x" _ _ "lastp ?P 0 xs"] by (cases ys) (auto simp: v1_def)
  note e1 = geo_dsc [OF s1(3)] geo_optr [OF s1(3)]
  note g1 = sees_geo [OF s1(2)]
  define v2 where "v2 = (if xs = [] then v1 else v1(last xs := (v1 (last xs))\<lparr>hp_w4 := nxt ?P ys\<rparr>))"
  obtain s2 where s2: "(if lastp ?P 0 xs \<noteq> 0
            then kbind (order_idx s1 (lastp ?P 0 xs)) (\<lambda>j. hpage_upd j (\<lambda>e. e\<lparr>hp_w4 := nxt ?P ys\<rparr>) s1) else Inr s1) = Inr s2"
      "sees s2 R v2 h" "geo s2 = geo s"
  proof (cases "xs = []")
    case True
    then show ?thesis using that [of s1] s1 by (simp add: v2_def lastp_def)
  next
    case False
    then have z: "last xs \<in> R" using R(1) by auto
    obtain s2 where "hpage_upd (dsc s1 (last xs)) (\<lambda>e. e\<lparr>hp_w4 := nxt ?P ys\<rparr>) s1 = Inr s2" "sees s2 R v2 h" "geo s2 = geo s1"
      using sees_upd [OF s1(2) z, of "\<lambda>e. e\<lparr>hp_w4 := nxt ?P ys\<rparr>"] False by (auto simp: v2_def)
    then show ?thesis using that [of s2] False s1(3) optr_nonzero [OF g1 z] optr_idx [OF g1 z] by (simp add: lastp_def e1)
  qed
  have v2x: "v2 x = v x" using v1x x(2) by (auto simp: v2_def)
  note e2 = geo_dsc [OF s2(3)] geo_optr [OF s2(3)]
  have hd: "nxt ?P (xs @ x # ys) = ?P x \<longleftrightarrow> xs = []"
  proof (cases xs)
    case (Cons y zs)
    then show ?thesis using optr_inj [OF g, of y x] R x by auto
  qed simp
  have ptr: "order_ptr s2 (dsc s x) = ?P x" using e2 by (metis optr_def)
  obtain s3 where s3: "(if nxt ?P (xs @ x # ys) = ?P x then fb_set k (nxt ?P ys) s2 else Inr s2) = Inr s3"
      "sees s3 R v2 (h(k := nxt ?P (xs @ ys)))" "geo s3 = geo s"
  proof (cases "xs = []")
    case True
    then show ?thesis using that sees_fb_set [OF s2(2) k, of "nxt ?P ys"] s2(3) by auto
  next
    case False
    then have "h(k := nxt ?P (xs @ ys)) = h" using ch(2) by (cases xs) auto
    then show ?thesis using that [of s2] s2 False hd by simp
  qed
  have gx: "hpage_get s (dsc s x) = Inr (v x)" "hpage_get s1 (dsc s x) = Inr (v x)" "hpage_get s2 (dsc s x) = Inr (v x)"
    using sees_get [OF se x(1)] sees_get [OF s1(2) x(1)] sees_get [OF s2(2) x(1)] v1x v2x by (simp_all add: e1 e2)
  have run: "buddy_unlink k (dsc s x) s = Inr s3"
    by (simp only: buddy_unlink_def kbind_simps gx sx(2,3) s1(1) s2(1) sees_fb_get [OF s2(2) k] ch(2) ptr s3(1))
  have "seg ?P v2 0 xs (nxt ?P ys)"
  proof (cases xs rule: rev_cases)
    case (snoc us z)
    have "seg ?P v 0 xs (?P x) \<longleftrightarrow> seg ?P v1 0 xs (?P x)"
      by (rule seg_cong) (use off1 R(2) in \<open>auto simp: same_off_def\<close>)
    then have "seg ?P v1 0 xs (?P x)" using sx(1) by simp
    then show ?thesis using seg_last [of ?P v1 0 us z "?P x" "nxt ?P ys"] snoc R(2) by (simp add: v2_def)
  qed simp
  moreover have "chain ?P v2 (lastp ?P 0 xs) ys"
    using c1 chain_off [of "set xs" v1 v2 ys] R(2) by (auto simp: v2_def same_off_def split: if_splits)
  ultimately have "chain ?P v2 0 (xs @ ys)" by (simp add: chain_append)
  moreover have "same_data v v2" by (auto simp: v2_def v1_def same_data_def split: list.splits)
  moreover have "same_off (set (xs @ ys)) v v2"
    using off1 by (auto simp: v2_def same_off_def)
  ultimately show ?thesis using run s3 by blast
qed


lemma buddy_unlink_remove:
  assumes se: "sees s R v h" and ch: "chain (optr s) v 0 L" "h k = nxt (optr s) L"
    and R: "set L \<subseteq> R" "distinct L" and x: "x \<in> set L" and k: "k < 20"
  shows "\<exists>s' v'. buddy_unlink k (dsc s x) s = Inr s' \<and> sees s' R v' (h(k := nxt (optr s) (remove1 x L))) \<and> geo s' = geo s \<and>
    chain (optr s) v' 0 (remove1 x L) \<and> same_data v v' \<and> same_off (set (remove1 x L)) v v'"
proof -
  obtain xs ys where L: "L = xs @ x # ys" using split_list [OF x] by blast
  then have r: "remove1 x L = xs @ ys" using R(2) by (simp add: remove1_append)
  show ?thesis using buddy_unlink_correct [OF se, of xs x ys k] ch R k unfolding r by (simp add: L)
qed

section \<open>Buddies\<close>

definition bud :: "nat \<Rightarrow> nat \<Rightarrow> nat" where
  "bud k p = xor p (2 ^ k)"

lemma bud_addr: "page_addr p XOR push_bit (k + 12) 1 = page_addr (bud k p)"
proof -
  have pa: "page_addr x = push_bit 12 (of_nat x)" for x by (simp add: page_addr_def push_bit_eq_mult mult.commute)
  have "page_addr p XOR push_bit (k + 12) 1 = push_bit 12 (of_nat p XOR push_bit k 1)"
    unfolding pa push_bit_xor by (simp add: push_bit_push_bit add.commute del: push_bit_of_1)
  also have "of_nat p XOR push_bit k (1 :: u32) = of_nat (bud k p)"
    by (simp add: bud_def of_nat_xor_eq)
  finally show ?thesis by (simp add: pa)
qed

lemma bud_cases:
  assumes "2 ^ k dvd p"
  shows "bud k p = (if 2 ^ Suc k dvd p then p + 2 ^ k else p - 2 ^ k)" "\<not> 2 ^ Suc k dvd p \<Longrightarrow> 2 ^ k \<le> p"
proof -
  obtain m where m: "p = 2 ^ k * m" using assms by blast
  have "bud k p = xor (push_bit k m) (push_bit k 1)" by (simp add: bud_def m push_bit_eq_mult mult.commute)
  also have "\<dots> = push_bit k (xor m 1)" by (simp add: push_bit_xor del: push_bit_of_1)
  also have "xor m 1 = (if even m then m + 1 else m - 1)" by (simp add: xor_Suc_0_eq)
  finally have b: "bud k p = 2 ^ k * (if even m then m + 1 else m - 1)" by (simp add: push_bit_eq_mult mult.commute)
  have e: "2 ^ Suc k dvd p \<longleftrightarrow> even m" by (simp add: m mult.commute [of 2])
  show "bud k p = (if 2 ^ Suc k dvd p then p + 2 ^ k else p - 2 ^ k)"
    unfolding b e by (simp add: m ring_distribs diff_mult_distrib2)
  show "2 ^ k \<le> p" if "\<not> 2 ^ Suc k dvd p" using that unfolding e by (cases m) (simp_all add: m)
qed

lemma bud_join:
  assumes "2 ^ k dvd p"
  shows "2 ^ Suc k dvd min p (bud k p)" "blk (Suc k) (min p (bud k p)) = blk k p \<union> blk k (bud k p)" "bud k p \<noteq> p"
proof -
  have "2 ^ Suc k dvd p - 2 ^ k" if "\<not> 2 ^ Suc k dvd p"
  proof -
    obtain m where m: "p = 2 ^ k * m" using assms by blast
    then have "odd m" using that by (auto simp: mult.commute [of 2])
    then obtain j where "m = 2 * j + 1" by (rule oddE)
    then show ?thesis using m by (simp add: ring_distribs)
  qed
  moreover have lt: "p - 2 ^ k < p" if "\<not> 2 ^ Suc k dvd p"
    using bud_cases(2) [OF assms that] by (metis diff_less less_le_trans zero_less_numeral zero_less_power)
  ultimately show "2 ^ Suc k dvd min p (bud k p)" using bud_cases(1) [OF assms] by (auto simp: min_def)
  show "blk (Suc k) (min p (bud k p)) = blk k p \<union> blk k (bud k p)"
    using bud_cases [OF assms] lt by (auto simp: blk_def min_def)
  show "bud k p \<noteq> p" using bud_cases(1) [OF assms] lt by auto
qed

lemma bud_neq [simp]: "bud k p \<noteq> p" "p \<noteq> bud k p"
proof -
  have "xor p (bud k p) = 2 ^ k" by (simp add: bud_def flip: xor.assoc)
  then show "bud k p \<noteq> p" "p \<noteq> bud k p" by (metis xor_self_eq power_not_zero zero_neq_numeral)+
qed

lemma bud_dvd: "2 ^ k dvd p \<Longrightarrow> 2 ^ k dvd bud k p"
  using bud_cases [of k p] by (auto simp: dvd_diff_nat)

lemma bud_lt: "2 ^ k dvd p \<Longrightarrow> p < 1048576 \<Longrightarrow> k < 20 \<Longrightarrow> bud k p < 1048576"
proof -
  assume a: "2 ^ k dvd p" "p < 1048576" "k < 20"
  show ?thesis
  proof (cases "2 ^ Suc k dvd p")
    case True
    have d: "(2 :: nat) ^ Suc k dvd 2 ^ 20" using a(3) by (intro le_imp_power_dvd) simp
    obtain m where m: "p = 2 ^ Suc k * m" using True by blast
    obtain n where n: "(2 :: nat) ^ 20 = 2 ^ Suc k * n" using d by blast
    have "p < 2 ^ 20" using a(2) by simp
    then have "m < n" unfolding m n by simp
    then have "2 ^ Suc k * (m + 1) \<le> 2 ^ Suc k * n" by (intro mult_le_mono2) simp
    then have "p + 2 ^ Suc k \<le> 2 ^ 20" unfolding m n by (simp add: ring_distribs)
    then have "p + 2 ^ k < 2 ^ 20" by (simp) (metis add_less_cancel_left add_less_same_cancel1 le_less_trans less_le_trans mult_2 nat_add_left_cancel_less zero_less_numeral zero_less_power less_add_same_cancel1)
    then show ?thesis using bud_cases(1) [OF a(1)] True by simp
  next
    case False
    then show ?thesis using bud_cases(1) [OF a(1)] a(2) by simp
  qed
qed


section \<open>Joining two buddies\<close>

text \<open>The lists after joining the block at \<open>n\<close> (the lower one) with the block at \<open>o\<close>.\<close>

definition join_lists :: "nat \<Rightarrow> nat \<Rightarrow> nat \<Rightarrow> (nat \<Rightarrow> nat list) \<Rightarrow> nat \<Rightarrow> nat list" where
  "join_lists k n q F = F(k := remove1 q (remove1 n (F k)), Suc k := n # F (Suc k))"

lemma set_remove2: "distinct L \<Longrightarrow> set (remove1 q (remove1 n L)) = set L - {n, q}"
  by (auto simp: set_remove1_eq)

lemma join_lists_ok:
  assumes ok: "lists_ok P C R v h F" and k: "k < 19" and n: "n \<in> set (F k)" and q: "q \<in> set (F k)"
    and nq: "n \<noteq> q" "2 ^ Suc k dvd n" "blk (Suc k) n = blk k n \<union> blk k q"
    and h': "\<And>j. h' j = (if j = Suc k then P n else if j = k then nxt P (remove1 q (remove1 n (F k))) else h j)"
    and ch: "chain P v' 0 (remove1 q (remove1 n (F k)))" "chain P v' 0 (n # F (Suc k))"
    and bl: "block_ok C v' (Suc k) n"
    and off: "\<And>x. x \<notin> set (F k) \<union> set (F (Suc k)) \<Longrightarrow> v' x = v x"
    and data: "\<And>x j. x \<notin> {n, q} \<Longrightarrow> block_ok C v' j x = block_ok C v j x"
  shows "lists_ok P C R v' h' (join_lists k n q F)"
proof -
  have sk: "Suc k < 20" "k < 20" using k by auto
  note dk = lists_okD(3) [OF ok sk(2)]
  have rem: "set (remove1 q (remove1 n (F k))) = set (F k) - {n, q}" using set_remove2 [OF dk] .
  have apart: "x \<notin> set (F k)" if "x \<in> set (F j)" "j < 20" "j \<noteq> k" for x j
    using head_outside [OF ok sk(2) that(2), of x x] that by auto
  have one: "chain P v' 0 (join_lists k n q F j) \<and> h' j = nxt P (join_lists k n q F j) \<and> distinct (join_lists k n q F j) \<and>
        (\<forall>x\<in>set (join_lists k n q F j). block_ok C v' j x \<and> 2 ^ j dvd x \<and> blk j x \<subseteq> R)" if j: "j < 20" for j
  proof -
    consider "j = Suc k" | "j = k" | "j \<noteq> k" "j \<noteq> Suc k" by blast
    then show ?thesis
    proof cases
      case 1
      have x: "x \<notin> {n, q}" if "x \<in> set (F (Suc k))" for x using apart [OF that sk(1)] n q by auto
      have "blk (Suc k) n \<subseteq> R" using nq(3) lists_okD(7) [OF ok sk(2)] n q by auto
      then show ?thesis using 1 ch(2) h' bl nq(2) x data lists_okD(3,5-7) [OF ok sk(1)] by (auto simp: join_lists_def)
    next
      case 2
      have "distinct (remove1 q (remove1 n (F k)))" using dk by simp
      moreover have "block_ok C v' k x \<and> 2 ^ k dvd x \<and> blk k x \<subseteq> R" if "x \<in> set (remove1 q (remove1 n (F k)))" for x
        using that data lists_okD(5-7) [OF ok sk(2), of x] unfolding rem by auto
      ultimately show ?thesis using 2 ch(1) h' by (simp add: join_lists_def)
    next
      case 3
      have x: "x \<notin> set (F k) \<union> set (F (Suc k))" if "x \<in> set (F j)" for x
        using apart [OF that j] head_outside [OF ok sk(1) j, of x x] that 3 by auto
      have "chain P v' 0 (F j) \<longleftrightarrow> chain P v 0 (F j)" by (rule chain_cong) (use off x in blast)
      moreover have "block_ok C v' j x = block_ok C v j x" if "x \<in> set (F j)" for x
        by (rule data) (use x [OF that] n q in auto)
      ultimately show ?thesis using 3 h' lists_okD [OF ok j] by (auto simp: join_lists_def)
    qed
  qed
  have origin: "x \<in> set (F j) \<and> (j, x) \<noteq> (k, n) \<and> (j, x) \<noteq> (k, q) \<or> j = Suc k \<and> x = n" if "x \<in> set (join_lists k n q F j)" for j x
    using that rem by (auto simp: join_lists_def split: if_splits)
  have old: "blk j y \<inter> blk (Suc k) n = {}" if "j < 20" "y \<in> set (F j)" "(j, y) \<noteq> (k, n)" "(j, y) \<noteq> (k, q)" for j y
    using lists_ok_disjoint [OF ok that(1) sk(2) that(2) n] lists_ok_disjoint [OF ok that(1) sk(2) that(2) q] that(3,4) nq(3) by blast
  have dis: "blk i x \<inter> blk j y = {}" if "i < 20" "j < 20" "x \<in> set (join_lists k n q F i)" "y \<in> set (join_lists k n q F j)" "(i, x) \<noteq> (j, y)" for i j x y
    using origin [OF that(3)] origin [OF that(4)] that(1,2,5) old [of i x] old [of j y] lists_ok_disjoint [OF ok that(1,2), of x y]
    by (metis Int_commute)
  show ?thesis unfolding lists_ok_def using one dis by blast
qed

lemma join_free_pages:
  assumes ok: "lists_ok P C R v h F" and k: "k < 19" and n: "n \<in> set (F k)" and q: "q \<in> set (F k)"
    and b: "blk (Suc k) n = blk k n \<union> blk k q"
  shows "free_pages (join_lists k n q F) = free_pages F"
proof -
  have all: "{..<20} = insert k (insert (Suc k) ({..<20} - {k, Suc k}))" using k by auto
  have sum: "free_pages G = (\<Union>p\<in>set (G k). blk k p) \<union> ((\<Union>p\<in>set (G (Suc k)). blk (Suc k) p) \<union> (\<Union>j\<in>{..<20} - {k, Suc k}. \<Union>p\<in>set (G j). blk j p))" for G
    unfolding free_pages_def by (subst all) (simp only: UN_insert)
  have rem: "set (remove1 q (remove1 n (F k))) = set (F k) - {n, q}"
    by (rule set_remove2) (use lists_okD(3) [OF ok, of k] k in simp)
  have "set (F k) = (set (F k) - {n, q}) \<union> {n, q}" using n q by auto
  then have "(\<Union>p\<in>set (F k). blk k p) = (\<Union>p\<in>set (F k) - {n, q}. blk k p) \<union> (blk k n \<union> blk k q)"
    by (metis UN_Un UN_empty UN_insert Un_empty_right)
  then show ?thesis unfolding sum [of F] sum [of "join_lists k n q F"] by (simp add: join_lists_def rem b Un_ac)
qed


text \<open>Every page number is translated to the descriptor of a page of \<open>U\<close>, and no other page shares a
  frame with a page of the heap.\<close>

definition alias_ok :: "heap_state \<Rightarrow> nat set \<Rightarrow> nat set \<Rightarrow> bool" where
  "alias_ok s U R \<longleftrightarrow> R \<subseteq> U \<and> 0 \<notin> R \<and> (\<forall>q<1048576. \<exists>u\<in>U. dsc s q = dsc s u \<and> (u \<in> R \<longrightarrow> u = q))"

lemma alias_ok_cong: "geo s' = geo s \<Longrightarrow> alias_ok s' U R \<longleftrightarrow> alias_ok s U R"
  using geo_dsc [of s' s] by (simp add: alias_ok_def)

lemma pow2_word_inj: "k < 32 \<Longrightarrow> j < 32 \<Longrightarrow> (2 :: u32) ^ k = 2 ^ j \<longleftrightarrow> k = j"
proof
  assume *: "k < 32" "j < 32" "(2 :: u32) ^ k = 2 ^ j"
  then have "unat ((2 :: u32) ^ k) = unat ((2 :: u32) ^ j)" by simp
  then have "(2 :: nat) ^ k = 2 ^ j" using *(1,2) unat_pow2 [of k, where ?'a = 32] unat_pow2 [of j, where ?'a = 32] by simp
  then show "k = j" by simp
qed simp

lemma head_free: "k < 20 \<Longrightarrow> p \<in> set (F k) \<Longrightarrow> p \<in> free_pages F"
  unfolding free_pages_def using blk_head by blast

text \<open>What the test on the buddy finds.\<close>

lemma find_buddy:
  assumes se: "sees s U v h" and l: "lists_ok (optr s) (buddy_cache_ptr s) U v h F" and fl: "flags_ok U v F"
    and al: "alias_ok s U R" "free_pages F \<subseteq> R" and k: "k < 20" and p: "p \<in> set (F k)"
  obtains u where "u \<in> U" "desc_of s (page_addr (bud k p)) = Inr (dsc s u)"
    "hp_flags (v u) AND 7 = 7 \<and> hp_w0 (v u) = 2 ^ k \<Longrightarrow> u = bud k p \<and> bud k p \<in> set (F k) \<and> k < 19"
proof -
  have dv: "2 ^ k dvd p" using lists_okD(6) [OF l k p] .
  have pR: "p \<in> R" using al(2) head_free [of k p F] k p by blast
  then have "p < 1048576" using al(1) sees_geo [OF se] by (auto simp: alias_ok_def geo_ok_def)
  then have b: "bud k p < 1048576" using bud_lt [OF dv _ k] by blast
  then obtain u where u: "u \<in> U" "dsc s (bud k p) = dsc s u" "u \<in> R \<longrightarrow> u = bud k p" using al(1) unfolding alias_ok_def by blast
  have d: "desc_of s (page_addr (bud k p)) = Inr (dsc s u)"
    using u sees_geo [OF se] by (simp add: desc_of_def Let_def geo_ok_def flip: dsc_def)
  have "u = bud k p \<and> bud k p \<in> set (F k) \<and> k < 19" if seven: "hp_flags (v u) AND 7 = 7 \<and> hp_w0 (v u) = 2 ^ k"
  proof -
    obtain j where j: "j < 20" "u \<in> set (F j)" using fl u(1) seven unfolding flags_ok_def by blast
    have "hp_w0 (v u) = 2 ^ j" using lists_okD(5) [OF l j] by (simp add: block_ok_def)
    then have jk: "j = k" using seven pow2_word_inj [of k j] j(1) k by simp
    have "u \<in> R" using al(2) head_free [of j u F] j by blast
    then have ub: "u = bud k p" using u(3) by blast
    have "k \<noteq> 19"
    proof
      assume k19: "k = 19"
      have join: "2 ^ 20 dvd min p (bud k p)" using bud_join(1) [OF dv] k19 by simp
      have "min p (bud k p) < 2 ^ 20" using b \<open>p < 1048576\<close> by simp
      then have "min p (bud k p) = 0" using join by (metis dvd_imp_le gr0I not_less)
      then have "p = 0 \<or> bud k p = 0" by (auto simp: min_def split: if_splits)
      then show False using pR \<open>u \<in> R\<close> ub al(1) by (auto simp: alias_ok_def)
    qed
    then show ?thesis using ub j(2) jk k by auto
  qed
  with that u(1) d show ?thesis by blast
qed


text \<open>The descriptor of a page carries the three flags that \<^verbatim>\<open>resolve_merge\<close> asks of a buddy.\<close>

definition marked :: "heap_state \<Rightarrow> nat \<Rightarrow> bool" where
  "marked s q \<longleftrightarrow> hp_flags (hs_pages s (dsc s q)) AND 7 = 7"

lemma sees_marked: "sees s U v h \<Longrightarrow> q \<in> U \<Longrightarrow> marked s q \<longleftrightarrow> hp_flags (v q) AND 7 = 7"
  by (simp add: sees_def marked_def)

text \<open>\<open>marks_are M s F\<close>: the free blocks whose descriptors are marked are those of \<open>M\<close>.\<close>

definition marks_are :: "(nat \<Rightarrow> bool) \<Rightarrow> heap_state \<Rightarrow> (nat \<Rightarrow> nat list) \<Rightarrow> bool" where
  "marks_are M s F \<longleftrightarrow> (\<forall>j<20. \<forall>q\<in>set (F j). M q \<longleftrightarrow> marked s q)"

text \<open>The work of \<^verbatim>\<open>resolve_merge\<close> once the buddy is known, on the lower block \<open>n\<close> and the upper one \<open>q\<close>.\<close>

definition join_step :: "nat \<Rightarrow> u32 \<Rightarrow> u32 \<Rightarrow> heap_state \<Rightarrow> (u32 option \<times> heap_state) kres" where
  "join_step order new_desc old_desc s =
     kbind (hpage_upd old_desc (\<lambda>e. e\<lparr>hp_flags := hp_flags e AND NOT HEAPFLAG_HEAD\<rparr>) s) (\<lambda>s.
     kbind (buddy_unlink order new_desc s) (\<lambda>s.
     kbind (buddy_unlink order old_desc s) (\<lambda>s.
     kbind (hpage_upd old_desc (\<lambda>e. e\<lparr>hp_w4 := 0, hp_w3 := 0\<rparr>) s) (\<lambda>s.
     kbind (kassert (order + 1 < BUDDY_ORDER_COUNT)) (\<lambda>_.
     kbind (buddy_push (order + 1) new_desc s) (\<lambda>s.
     kbind (hpage_upd new_desc (\<lambda>e. e\<lparr>hp_w5 := buddy_cache_ptr s (order + 1), hp_w2 := of_nat (order + 1), hp_w0 := hp_w0 e * 2\<rparr>) s) (\<lambda>s.
     Inr (Some new_desc, s))))))))"

lemma join_flags_ok:
  assumes fl: "flags_ok U v F" and k: "k < 19" and d: "distinct (F k)"
    and head: "\<not> bit (hp_flags (v' q)) 2" and same: "\<And>x. x \<noteq> q \<Longrightarrow> hp_flags (v' x) = hp_flags (v x)"
  shows "flags_ok U v' (join_lists k n q F)"
proof -
  have "hp_flags (v' q) AND 7 \<noteq> 7"
  proof
    assume "hp_flags (v' q) AND 7 = 7"
    moreover have "bit (7 :: u8) 2" by (simp add: bit_iff_odd_drop_bit)
    ultimately have "bit (hp_flags (v' q) AND 7) 2" by simp
    then show False using head by (simp add: bit_simps)
  qed
  moreover have "\<exists>j<20. x \<in> set (join_lists k n q F j)" if "x \<in> set (F j)" "j < 20" "x \<noteq> q" for x j
  proof (cases "x = n")
    case True
    then have "x \<in> set (join_lists k n q F (Suc k))" by (simp add: join_lists_def)
    then show ?thesis using k by (intro exI [of _ "Suc k"]) simp
  next
    case False
    then have "x \<in> set (join_lists k n q F j)" using that d by (auto simp: join_lists_def set_remove1_eq)
    then show ?thesis using that(2) by blast
  qed
  ultimately show ?thesis using fl same unfolding flags_ok_def by metis
qed

lemma join_step_correct:
  assumes se: "sees s U v h" and l: "lists_ok (optr s) (buddy_cache_ptr s) U v h F" and fl: "flags_ok U v F"
    and k: "k < 19" and n: "n \<in> set (F k)" and q: "q \<in> set (F k)"
    and nq: "n \<noteq> q" "2 ^ Suc k dvd n" "blk (Suc k) n = blk k n \<union> blk k q"
  shows "\<exists>s'. join_step k (dsc s n) (dsc s q) s = Inr (Some (dsc s n), s') \<and> geo s' = geo s \<and> heap_ok s' U (join_lists k n q F) \<and>
    (\<forall>x\<in>U. x \<noteq> q \<longrightarrow> marked s' x = marked s x)"
proof -
  let ?P = "optr s" and ?C = "buddy_cache_ptr s"
  have sk: "k < 20" "Suc k < 20" using k by auto
  note dk = lists_okD [OF l sk(1)]
  note dS = lists_okD [OF l sk(2)]
  have R: "n \<in> U" "q \<in> U" using dk(4) n q by auto
  let ?L1 = "remove1 n (F k)" and ?L2 = "remove1 q (remove1 n (F k))"
  have mem: "q \<in> set ?L1" "n \<notin> set ?L1" "set ?L1 \<subseteq> U" "distinct ?L1" "distinct ?L2" "set ?L2 \<subseteq> U" "set ?L2 = set (F k) - {n, q}"
    using dk(3,4) q nq(1) by (auto simp: set_remove1_eq)
  let ?f1 = "\<lambda>e. e\<lparr>hp_flags := hp_flags e AND NOT HEAPFLAG_HEAD\<rparr>"
  define v1 where "v1 = v(q := ?f1 (v q))"
  obtain s1 where s1: "hpage_upd (dsc s q) ?f1 s = Inr s1" "sees s1 U v1 h" "geo s1 = geo s"
    using sees_upd [OF se R(2), of ?f1] by (auto simp: v1_def)
  have links: "chain ?P v1 a L = chain ?P v a L" for a L by (induction L arbitrary: a) (auto simp: v1_def)
  note e1 = geo_optr [OF s1(3)] geo_dsc [OF s1(3)]
  obtain s2 v2 where s2: "buddy_unlink k (dsc s n) s1 = Inr s2" "sees s2 U v2 (h(k := nxt ?P ?L1))" "geo s2 = geo s"
      "chain ?P v2 0 ?L1" "same_data v1 v2" "same_off (set ?L1) v1 v2"
    using buddy_unlink_remove [OF s1(2), of "F k" k n] dk(1-4) n sk s1(3) links unfolding e1 by auto
  note e2 = geo_optr [OF s2(3)] geo_dsc [OF s2(3)]
  obtain s3 v3 where s3: "buddy_unlink k (dsc s q) s2 = Inr s3" "sees s3 U v3 (h(k := nxt ?P ?L1, k := nxt ?P ?L2))" "geo s3 = geo s"
      "chain ?P v3 0 ?L2" "same_data v2 v3" "same_off (set ?L2) v2 v3"
    using buddy_unlink_remove [OF s2(2), of ?L1 k q] s2(3,4) mem sk unfolding e2 by auto
  note e3 = geo_optr [OF s3(3)] geo_dsc [OF s3(3)]
  let ?f4 = "\<lambda>e. e\<lparr>hp_w4 := 0, hp_w3 := 0\<rparr>"
  define v4 where "v4 = v3(q := ?f4 (v3 q))"
  obtain s4 where s4: "hpage_upd (dsc s q) ?f4 s3 = Inr s4" "sees s4 U v4 (h(k := nxt ?P ?L2))" "geo s4 = geo s"
    using sees_upd [OF s3(2) R(2), of ?f4] s3(3) e3 by (auto simp: v4_def)
  note e4 = geo_optr [OF s4(3)] geo_dsc [OF s4(3)]
  have apart: "set (F k) \<inter> set (F (Suc k)) = {}" using head_outside [OF l sk, of _ _] blk_head by fastforce
  have off4: "same_off (set (F k)) v v4"
  proof -
    have "same_off {q} v v1" "same_off {q} v3 v4" by (simp_all add: v1_def v4_def same_off_def)
    from same_off_trans [OF same_off_trans [OF same_off_trans [OF this(1) s2(6)] s3(6)] this(2)]
    show ?thesis by (rule same_off_mono) (use q mem(7) dk(3) in \<open>auto simp: set_remove1_eq\<close>)
  qed
  have cS: "chain ?P v4 0 (F (Suc k)) \<longleftrightarrow> chain ?P v 0 (F (Suc k))" by (rule chain_off [OF off4 apart])
  obtain s5 v5 where s5: "buddy_push (Suc k) (dsc s n) s4 = Inr s5" "sees s5 U v5 (h(k := nxt ?P ?L2, Suc k := ?P n))" "geo s5 = geo s"
      "chain ?P v5 0 (n # F (Suc k))" "same_data v4 v5" "same_off (set (n # F (Suc k))) v4 v5"
    using buddy_push_correct [OF s4(2), of "F (Suc k)" "Suc k" n] cS dS(1-4) apart n R(1) sk s4(3) unfolding e4 by auto
  note e5 = geo_optr [OF s5(3)] geo_dsc [OF s5(3)] geo_cache [OF s5(3)]
  let ?f6 = "\<lambda>e. e\<lparr>hp_w5 := ?C (Suc k), hp_w2 := of_nat (Suc k), hp_w0 := hp_w0 e * 2\<rparr>"
  define v6 where "v6 = v5(n := ?f6 (v5 n))"
  let ?h = "h(k := nxt ?P ?L2, Suc k := ?P n)"
  obtain s6 where s6: "hpage_upd (dsc s n) ?f6 s5 = Inr s6" "sees s6 U v6 ?h" "geo s6 = geo s"
    using sees_upd [OF s5(2) R(1), of ?f6] s5(3) e5 by (auto simp: v6_def)
  have run: "join_step k (dsc s n) (dsc s q) s = Inr (Some (dsc s n), s6)"
    using sk(2) by (simp add: join_step_def s1(1) s2(1) s3(1) s4(1) s5(1) e5 s6(1) del: of_nat_Suc)
  have d4: "same_data v1 v4" using same_data_trans [OF s2(5) s3(5)] by (simp add: v4_def same_data_def)
  note d5 = same_data_trans [OF d4 s5(5)]
  have fields: "hp_w0 (v5 n) = hp_w0 (v n)" "hp_w1 (v5 n) = hp_w1 (v n)" "hp_flags (v5 n) = hp_flags (v n)"
    using d5 nq(1) by (simp_all add: same_data_def v1_def)
  have "lists_ok ?P ?C U v6 ?h (join_lists k n q F)"
  proof (rule join_lists_ok [OF l k n q nq])
    have o6: "same_off {n} v5 v6" by (simp add: v6_def same_off_def)
    have "same_off {q} v3 v4" by (simp add: v4_def same_off_def)
    from same_off_trans [OF same_off_trans [OF this s5(6)] o6]
    have "same_off ({n, q} \<union> set (F (Suc k))) v3 v6" by (rule same_off_mono) auto
    moreover have "({n, q} \<union> set (F (Suc k))) \<inter> set ?L2 = {}" using mem(7) apart by auto
    ultimately have "chain ?P v6 0 ?L2 \<longleftrightarrow> chain ?P v3 0 ?L2" by (rule chain_off)
    then show "chain ?P v6 0 ?L2" using s3(4) by simp
    have "chain ?P v6 a L = chain ?P v5 a L" for a L by (induction L arbitrary: a) (auto simp: v6_def)
    then show "chain ?P v6 0 (n # F (Suc k))" using s5(4) by blast
    have "hp_w0 (v n) * 2 = 2 ^ Suc k" using dk(5) [OF n] by (simp add: block_ok_def mult.commute)
    then show "block_ok ?C v6 (Suc k) n" using dk(5) [OF n] fields by (simp add: block_ok_def v6_def del: of_nat_Suc power_Suc)
    from same_off_trans [OF same_off_trans [OF off4 s5(6)] o6]
    have off6: "same_off (set (F k) \<union> set (F (Suc k))) v v6" by (rule same_off_mono) (use n in auto)
    show "v6 x = v x" if "x \<notin> set (F k) \<union> set (F (Suc k))" for x using off6 that by (simp add: same_off_def)
    show "block_ok ?C v6 j x = block_ok ?C v j x" if "x \<notin> {n, q}" for x j
      using that block_ok_data [OF d5, of ?C j x] by (auto simp: v6_def v1_def block_ok_def)
  qed auto
  moreover have fl6: "hp_flags (v6 x) = hp_flags (v1 x)" for x using d5 by (simp add: same_data_def v6_def)
  moreover have "flags_ok U v6 (join_lists k n q F)"
  proof (rule join_flags_ok [OF fl k dk(3)])
    show "\<not> bit (hp_flags (v6 q)) 2" by (simp add: fl6 v1_def bit_simps HEAPFLAG_HEAD_def)
    show "hp_flags (v6 x) = hp_flags (v x)" if "x \<noteq> q" for x using fl6 that by (simp add: v1_def)
  qed
  ultimately have "heap_ok s6 U (join_lists k n q F)" using s6(2) geo_optr [OF s6(3)] geo_cache [OF s6(3)] by (auto simp: heap_ok_def)
  moreover have "\<forall>x\<in>U. x \<noteq> q \<longrightarrow> marked s6 x = marked s x"
    using sees_marked [OF s6(2)] sees_marked [OF se] by (simp add: fl6 v1_def)
  ultimately show ?thesis using run s6(3) by blast
qed

lemma all_flags: "HEAPFLAG_BUDDY OR HEAPFLAG_VFREE OR HEAPFLAG_HEAD = 7"
  by (simp add: HEAPFLAG_BUDDY_def HEAPFLAG_VFREE_def HEAPFLAG_HEAD_def)

lemma page_addr_le: "p < 1048576 \<Longrightarrow> q < 1048576 \<Longrightarrow> page_addr p \<le> page_addr q \<longleftrightarrow> p \<le> q"
  by (simp add: word_le_nat_alt unat_page_addr)

lemma page_addr_eq: "p < 1048576 \<Longrightarrow> q < 1048576 \<Longrightarrow> page_addr p = page_addr q \<longleftrightarrow> p = q"
  by (metis page_no_page_addr)

text \<open>
  Joining upwards on the lists: as long as the buddy of the block is free, of the same order
  and marked, the two become one block of the next order.
\<close>

function merge_lists :: "(nat \<Rightarrow> bool) \<Rightarrow> nat \<Rightarrow> nat \<Rightarrow> (nat \<Rightarrow> nat list) \<Rightarrow> nat \<Rightarrow> nat list" where
  "merge_lists M k p F =
     (if k < 19 \<and> bud k p \<in> set (F k) \<and> M (bud k p)
      then merge_lists M (Suc k) (min p (bud k p)) (join_lists k (min p (bud k p)) (max p (bud k p)) F)
      else F)"
  by pat_completeness auto
termination
  by (relation "measure (\<lambda>(_, k, _, _). 19 - k)") auto

declare merge_lists.simps [simp del]

lemma find_buddy_marked:
  assumes se: "sees s U v h" and l: "lists_ok (optr s) (buddy_cache_ptr s) U v h F" and fl: "flags_ok U v F"
    and al: "alias_ok s U R" "free_pages F \<subseteq> R" and k: "k < 20" and p: "p \<in> set (F k)"
  obtains u where "u \<in> U" "desc_of s (page_addr (bud k p)) = Inr (dsc s u)"
    "hp_flags (v u) AND 7 = 7 \<and> hp_w0 (v u) = 2 ^ k \<longleftrightarrow> k < 19 \<and> bud k p \<in> set (F k) \<and> marked s (bud k p)"
    "hp_flags (v u) AND 7 = 7 \<and> hp_w0 (v u) = 2 ^ k \<Longrightarrow> u = bud k p"
proof (rule find_buddy [OF se l fl al k p])
  fix u assume u: "u \<in> U" "desc_of s (page_addr (bud k p)) = Inr (dsc s u)"
    "hp_flags (v u) AND 7 = 7 \<and> hp_w0 (v u) = 2 ^ k \<Longrightarrow> u = bud k p \<and> bud k p \<in> set (F k) \<and> k < 19"
  have "hp_flags (v u) AND 7 = 7 \<and> hp_w0 (v u) = 2 ^ k" if q: "bud k p \<in> set (F k)" "marked s (bud k p)"
  proof -
    have qU: "bud k p \<in> U" using lists_okD(4) [OF l k] q(1) by blast
    then have "u = bud k p"
      using u(1,2) desc_of_page [OF sees_geo [OF se] qU] sees_geo [OF se] by (auto simp: geo_ok_def dest: inj_onD)
    then show ?thesis using q sees_marked [OF se qU] lists_okD(5) [OF l k q(1)] by (simp add: block_ok_def)
  qed
  moreover have "k < 19 \<and> bud k p \<in> set (F k) \<and> marked s (bud k p)" if "hp_flags (v u) AND 7 = 7 \<and> hp_w0 (v u) = 2 ^ k"
    using u(3) [OF that] that u(1) sees_marked [OF se, of u] by auto
  ultimately show ?thesis using that [OF u(1,2)] u(3) by blast
qed

lemma resolve_merge_correct:
  assumes ok: "heap_ok s U F" and al: "alias_ok s U R" "free_pages F \<subseteq> R" and k: "k < 20" and p: "p \<in> set (F k)"
    and q_def: "q = bud k p"
  shows "if k < 19 \<and> q \<in> set (F k) \<and> marked s q
    then \<exists>s'. resolve_merge (dsc s p) k s = Inr (Some (dsc s (min p q)), s') \<and> geo s' = geo s \<and>
      heap_ok s' U (join_lists k (min p q) (max p q) F) \<and> free_pages (join_lists k (min p q) (max p q) F) = free_pages F \<and>
      (\<forall>x\<in>U. x \<noteq> max p q \<longrightarrow> marked s' x = marked s x)
    else resolve_merge (dsc s p) k s = Inr (None, s)"
proof -
  obtain v h where se: "sees s U v h" and l: "lists_ok (optr s) (buddy_cache_ptr s) U v h F" and fl: "flags_ok U v F"
    using ok by (auto simp: heap_ok_def)
  have pU: "p \<in> U" using lists_okD(4) [OF l k] p by blast
  have b: "block_ok (buddy_cache_ptr s) v k p" and dv: "2 ^ k dvd p" using lists_okD(5,6) [OF l k p] .
  then have va: "hp_virt_addr (v p) = page_addr p" "hp_w0 (v p) = 2 ^ k" by (simp_all add: block_ok_def)
  obtain u where u: "u \<in> U" "desc_of s (page_addr q) = Inr (dsc s u)"
    "hp_flags (v u) AND 7 = 7 \<and> hp_w0 (v u) = 2 ^ k \<longleftrightarrow> k < 19 \<and> q \<in> set (F k) \<and> marked s q"
    "hp_flags (v u) AND 7 = 7 \<and> hp_w0 (v u) = 2 ^ k \<Longrightarrow> u = q"
    using find_buddy_marked [OF se l fl al k p] unfolding q_def by blast
  have ba: "page_addr p XOR push_bit (k + 12) 1 = page_addr q" using bud_addr q_def by simp
  show ?thesis
  proof (cases "k < 19 \<and> q \<in> set (F k) \<and> marked s q")
    case False
    then have "\<not> (hp_flags (v u) AND 7 = 7 \<and> hp_w0 (v u) = 2 ^ k)" using u(3) by blast
    then have "resolve_merge (dsc s p) k s = Inr (None, s)"
      using sees_get [OF se pU] sees_get [OF se u(1)] u(2) va
      by (simp add: resolve_merge_def Let_def all_flags ba del: push_bit_of_1)
    then show ?thesis using False by auto
  next
    case True
    then have q: "u = q" "q \<in> set (F k)" "k < 19" "hp_flags (v u) AND 7 = 7 \<and> hp_w0 (v u) = 2 ^ k" using u(3,4) by blast+
    have lt: "p < 1048576" "q < 1048576" using lists_okD(4) [OF l k] p q(2) sees_geo [OF se] by (auto simp: geo_ok_def)
    let ?n = "min p q" and ?o = "max p q"
    have choice: "(if min (page_addr q) (page_addr p) = page_addr q then dsc s q else dsc s p) = dsc s ?n"
      "(if min (page_addr q) (page_addr p) = page_addr q then dsc s p else dsc s q) = dsc s ?o"
      using page_addr_le [OF lt(2,1)] page_addr_eq [OF lt] by (auto simp: min_def max_def)
    have nq: "?n \<noteq> ?o" "2 ^ Suc k dvd ?n" "blk (Suc k) ?n = blk k ?n \<union> blk k ?o"
      using bud_join [OF dv] by (auto simp: min_def max_def q_def)
    have mem: "?n \<in> set (F k)" "?o \<in> set (F k)" using p q(2) by (auto simp: min_def max_def)
    obtain s' where s': "join_step k (dsc s ?n) (dsc s ?o) s = Inr (Some (dsc s ?n), s')" "geo s' = geo s"
        "heap_ok s' U (join_lists k ?n ?o F)" "\<forall>x\<in>U. x \<noteq> ?o \<longrightarrow> marked s' x = marked s x"
      using join_step_correct [OF se l fl q(3) mem nq] by blast
    have "resolve_merge (dsc s p) k s = join_step k (dsc s ?n) (dsc s ?o) s"
      using sees_get [OF se pU] sees_get [OF se u(1)] u(2) va q(1,4) choice
      by (simp add: resolve_merge_def join_step_def Let_def all_flags ba del: push_bit_of_1)
    moreover have "free_pages (join_lists k ?n ?o F) = free_pages F" using join_free_pages [OF l q(3) mem nq(3)] .
    ultimately show ?thesis using s' True by metis
  qed
qed

text \<open>A join changes no mark of a block that stays in a list.\<close>

lemma join_marks:
  assumes ok: "heap_ok s U F" and k: "k < 19" and n: "n \<in> set (F k)" and q: "q \<in> set (F k)"
    and M: "marks_are M s F" and same: "\<forall>x\<in>U. x \<noteq> q \<longrightarrow> marked s' x = marked s x" and nq: "n \<noteq> q"
  shows "marks_are M s' (join_lists k n q F)"
  unfolding marks_are_def
proof (intro allI impI ballI)
  obtain v h where l: "lists_ok (optr s) (buddy_cache_ptr s) U v h F" using ok by (auto simp: heap_ok_def)
  have sk: "k < 20" using k by simp
  fix j x assume j: "j < 20" and x: "x \<in> set (join_lists k n q F j)"
  have "x \<noteq> q \<and> (\<exists>i<20. x \<in> set (F i))"
  proof (cases "x = n")
    case True
    then show ?thesis using n sk nq by blast
  next
    case False
    then have "x \<in> set (F j)" "j = k \<longrightarrow> x \<noteq> q"
      using x set_remove2 [OF lists_okD(3) [OF l sk], of q n] by (auto simp: join_lists_def split: if_splits)
    moreover have "j \<noteq> k \<longrightarrow> x \<noteq> q" using head_outside [OF l sk j q, of x] \<open>x \<in> set (F j)\<close> by auto
    ultimately show ?thesis using j by blast
  qed
  moreover from this have "x \<in> U" using lists_okD(4) [OF l] by blast
  ultimately show "M x = marked s' x" using M same unfolding marks_are_def by blast
qed

lemma merge_upwards_correct:
  assumes "heap_ok s U F" "alias_ok s U R" "free_pages F \<subseteq> R" "k < 20" "p \<in> set (F k)" "marks_are M s F"
  shows "\<exists>s'. merge_upwards (Some (dsc s p)) k s = lret s' \<and> geo s' = geo s \<and> heap_ok s' U (merge_lists M k p F) \<and>
    free_pages (merge_lists M k p F) = free_pages F \<and> marks_are M s' (merge_lists M k p F)"
  using assms
proof (induction M k p F arbitrary: s rule: merge_lists.induct)
  case (1 M k p F)
  let ?q = "bud k p" and ?J = "join_lists k (min p (bud k p)) (max p (bud k p)) F"
  have none: "merge_upwards None j s = lret s" for j s by (subst merge_upwards.simps) simp
  note rm = resolve_merge_correct [OF 1(2-6) refl]
  have Mq: "M ?q \<longleftrightarrow> marked s ?q" if "?q \<in> set (F k)" using 1(5,7) that by (simp add: marks_are_def)
  show ?case
  proof (cases "k < 19 \<and> ?q \<in> set (F k) \<and> M ?q")
    case False
    then have "resolve_merge (dsc s p) k s = Inr (None, s)" using rm Mq by (auto split: if_splits)
    moreover have "merge_lists M k p F = F" by (subst merge_lists.simps) (simp only: False if_False)
    ultimately show ?thesis using 1(2,7) none by (subst merge_upwards.simps) auto
  next
    case True
    then obtain s1 where s1: "resolve_merge (dsc s p) k s = Inr (Some (dsc s (min p ?q)), s1)" "geo s1 = geo s" "heap_ok s1 U ?J"
        "free_pages ?J = free_pages F" "\<forall>x\<in>U. x \<noteq> max p ?q \<longrightarrow> marked s1 x = marked s x"
      using rm Mq by auto
    have eq: "merge_lists M k p F = merge_lists M (Suc k) (min p ?q) ?J" by (subst merge_lists.simps) (simp only: True if_True simp_thms)
    have marks: "marks_are M s1 ?J"
      by (rule join_marks [OF 1(2) _ _ _ 1(7) s1(5)]) (use True 1(6) bud_neq in \<open>auto simp: min_def max_def\<close>)
    have next': "alias_ok s1 U R" "free_pages ?J \<subseteq> R" "Suc k < 20" "min p ?q \<in> set (?J (Suc k))"
      using alias_ok_cong [OF s1(2)] 1(3,4) s1(4) True by (auto simp: join_lists_def)
    note 1(1) [OF True s1(3) next' marks]
    then show ?thesis using s1 geo_dsc [OF s1(2)] eq by (subst merge_upwards.simps) auto
  qed
qed

section \<open>Releasing a block\<close>

lemma push_lists_ok:
  assumes ok: "lists_ok P C U v h F" and k: "k < 20" and p: "blk k p \<inter> free_pages F = {}" "blk k p \<subseteq> U" "2 ^ k dvd p"
    and ch: "chain P v' 0 (p # F k)" and bl: "block_ok C v' k p"
    and off: "\<And>x. x \<notin> set (p # F k) \<Longrightarrow> v' x = v x"
    and data: "\<And>x j. x \<noteq> p \<Longrightarrow> block_ok C v' j x = block_ok C v j x"
  shows "lists_ok P C U v' (h(k := P p)) (F(k := p # F k))"
proof -
  have notin: "x \<notin> blk k p" if "x \<in> set (F j)" "j < 20" for x j using head_free [of j x F] that p(1) by blast
  have disj: "blk j x \<inter> blk k p = {}" if "x \<in> set (F j)" "j < 20" for x j
    using that p(1) unfolding free_pages_def by blast
  have one: "chain P v' 0 ((F(k := p # F k)) j) \<and> (h(k := P p)) j = nxt P ((F(k := p # F k)) j) \<and> distinct ((F(k := p # F k)) j) \<and>
        (\<forall>x\<in>set ((F(k := p # F k)) j). block_ok C v' j x \<and> 2 ^ j dvd x \<and> blk j x \<subseteq> U)" if j: "j < 20" for j
  proof (cases "j = k")
    case True
    have "x \<noteq> p" if "x \<in> set (F k)" for x using notin [OF that k] by auto
    then show ?thesis using True ch bl p(2,3) data lists_okD(3,5-7) [OF ok k] by auto
  next
    case False
    have x: "x \<notin> set (p # F k)" if "x \<in> set (F j)" for x
      using notin [OF that j] head_outside [OF ok k j, of x x] that False by auto
    have "chain P v' 0 (F j) \<longleftrightarrow> chain P v 0 (F j)" by (rule chain_cong) (use off x in blast)
    moreover have "block_ok C v' j y = block_ok C v j y" if "y \<in> set (F j)" for y by (rule data) (use x [OF that] in auto)
    ultimately show ?thesis using False lists_okD [OF ok j] by auto
  qed
  have origin: "x \<in> set (F j) \<or> j = k \<and> x = p" if "x \<in> set ((F(k := p # F k)) j)" for x j using that by (auto split: if_splits)
  have "blk i x \<inter> blk j y = {}" if "i < 20" "j < 20" "x \<in> set ((F(k := p # F k)) i)" "y \<in> set ((F(k := p # F k)) j)" "(i, x) \<noteq> (j, y)" for i j x y
    using origin [OF that(3)] origin [OF that(4)] that(1,2,5) disj [of x i] disj [of y j] lists_ok_disjoint [OF ok that(1,2), of x y]
    by (metis Int_commute)
  then show ?thesis unfolding lists_ok_def using one by blast
qed

lemma push_free_pages: "k < 20 \<Longrightarrow> free_pages (F(k := p # F k)) = free_pages F \<union> blk k p"
proof -
  assume k: "k < 20"
  have "(\<Union>q\<in>set ((F(k := p # F k)) j). blk j q) = (\<Union>q\<in>set (F j). blk j q) \<union> (if j = k then blk k p else {})" for j by auto
  then have "free_pages (F(k := p # F k)) = free_pages F \<union> (\<Union>j<20. if j = k then blk k p else {})"
    unfolding free_pages_def by (simp only: UN_Un_distrib)
  also have "(\<Union>j<20. if j = k then blk k p else {}) = blk k p" using k by (auto split: if_splits)
  finally show ?thesis .
qed

text \<open>A block that was handed out and may be released carries the buddy flag as well.\<close>

definition owned :: "heap_state \<Rightarrow> nat \<Rightarrow> nat \<Rightarrow> bool" where
  "owned s k p \<longleftrightarrow> handed_out s k p \<and> hp_flags (hs_pages s (dsc s p)) AND HEAPFLAG_BUDDY \<noteq> 0"

lemma set_free_head: "f AND HEAPFLAG_HEAD \<noteq> 0 \<Longrightarrow> (f OR HEAPFLAG_VFREE) AND HEAPFLAG_HEAD \<noteq> 0"
  by (simp add: bit.conj_disj_distrib2 or_eq_0_iff)

lemma all_three:
  assumes "f AND HEAPFLAG_BUDDY \<noteq> 0" "f AND HEAPFLAG_HEAD \<noteq> 0"
  shows "(f OR HEAPFLAG_VFREE) AND 7 = 7"
proof -
  have b: "bit f 1" "bit f 2" using assms
    by (simp_all add: HEAPFLAG_BUDDY_def HEAPFLAG_HEAD_def bit_iff_and_push_bit_not_eq_0 push_bit_eq_mult)
  have m: "(7 :: u8) = mask 3" by (simp add: mask_eq_exp_minus_1)
  show ?thesis
    unfolding m by (rule bit_word_eqI) (use b in \<open>auto simp: bit_simps HEAPFLAG_VFREE_def less_Suc_eq numeral_3_eq_3 numeral_2_eq_2\<close>)
qed

lemma free_buddy_correct:
  assumes ok: "heap_ok s U F" and al: "alias_ok s U R" "free_pages F \<subseteq> R"
    and k: "k < 20" and p: "2 ^ k dvd p" "blk k p \<subseteq> R" "blk k p \<inter> free_pages F = {}" and ow: "owned s k p"
    and F': "F' = merge_lists ((marked s)(p := True)) k p (F(k := p # F k))"
  shows "\<exists>s'. free_buddy (page_addr p) s = lret s' \<and> geo s' = geo s \<and> heap_ok s' U F' \<and> free_pages F' = free_pages F \<union> blk k p \<and>
    marks_are ((marked s)(p := True)) s' F'"
proof -
  obtain v h where se: "sees s U v h" and l: "lists_ok (optr s) (buddy_cache_ptr s) U v h F" and fl: "flags_ok U v F"
    using ok by (auto simp: heap_ok_def)
  let ?P = "optr s" and ?C = "buddy_cache_ptr s"
  have pU: "p \<in> U" using p(2) al(1) blk_head [of p k] unfolding alias_ok_def by blast
  note g = sees_geo [OF se]
  have lt: "p < 1048576" using pU g by (auto simp: geo_ok_def)
  have d: "hs_pages s (dsc s p) = v p" using se pU by (simp add: sees_def)
  have f: "hp_w0 (v p) = 2 ^ k" "hp_w5 (v p) = ?C k" and
    fb: "hp_flags (v p) AND HEAPFLAG_BUDDY \<noteq> 0" "hp_flags (v p) AND HEAPFLAG_HEAD \<noteq> 0" "hp_flags (v p) AND HEAPFLAG_VFREE = 0"
    using ow by (simp_all add: owned_def handed_out_def Let_def d)
  have pg: "page_addr p mod PAGE_SIZE = 0" using lt by (simp add: word_unat_eq_iff unat_mod unat_page_addr)
  have up: "unat ((2 :: u32) ^ k) = 2 ^ k" using unat_pow2 [of k, where ?'a = 32] k by simp
  have pow: "(2 :: u32) ^ k AND (2 ^ k - 1) = 0" by (rule word_pow2_and_pred) (use up in \<open>metis is_pow2I\<close>)
  have gt: "(0 :: u32) < 2 ^ k" using up by (simp add: word_less_nat_alt)
  have lg: "klog2 (2 ^ k) = Inr k" using klog2_pow2 [OF up] k by simp
  have pF: "p \<notin> set (F k)" using p(3) head_free [of k p F] k blk_head [of p k] by blast
  let ?f1 = "\<lambda>e. e\<lparr>hp_flags := hp_flags e OR HEAPFLAG_VFREE\<rparr>"
  define v1 where "v1 = v(p := ?f1 (v p))"
  obtain s1 where s1: "hpage_upd (dsc s p) ?f1 s = Inr s1" "sees s1 U v1 h" "geo s1 = geo s"
    using sees_upd [OF se pU, of ?f1] by (auto simp: v1_def)
  have hk: "fb_get s1 k = Inr (nxt ?P (F k))" using sees_fb_get [OF s1(2) k] lists_okD(2) [OF l k] by simp
  note e1 = geo_optr [OF s1(3)] geo_dsc [OF s1(3)]
  have op1: "order_ptr s1 (dsc s p) = ?P p" using e1 by (metis optr_def)
  define v2 where "v2 = (case F k of [] \<Rightarrow> v1 | y # _ \<Rightarrow> v1(y := (v1 y)\<lparr>hp_w3 := ?P p\<rparr>))"
  obtain s2 where s2: "(if nxt ?P (F k) \<noteq> 0 then kbind (order_idx s1 (nxt ?P (F k))) (\<lambda>j. hpage_upd j (\<lambda>e. e\<lparr>hp_w3 := ?P p\<rparr>) s1) else Inr s1) = Inr s2"
      "sees s2 U v2 h" "geo s2 = geo s"
  proof (cases "F k")
    case Nil
    then show ?thesis using that [of s1] s1 by (simp add: v2_def)
  next
    case (Cons y zs)
    then have y: "y \<in> U" using lists_okD(4) [OF l k] by simp
    obtain s2 where "hpage_upd (dsc s1 y) (\<lambda>e. e\<lparr>hp_w3 := ?P p\<rparr>) s1 = Inr s2" "sees s2 U v2 h" "geo s2 = geo s1"
      using sees_upd [OF s1(2) y, of "\<lambda>e. e\<lparr>hp_w3 := ?P p\<rparr>"] Cons by (auto simp: v2_def)
    then show ?thesis using that [of s2] Cons s1(3) optr_nonzero [OF sees_geo [OF s1(2)] y] optr_idx [OF sees_geo [OF s1(2)] y] by (simp add: e1)
  qed
  let ?f3 = "\<lambda>e. e\<lparr>hp_w4 := nxt ?P (F k), hp_w3 := 0\<rparr>"
  define v3 where "v3 = v2(p := ?f3 (v2 p))"
  obtain s3 where s3: "hpage_upd (dsc s p) ?f3 s2 = Inr s3" "sees s3 U v3 h" "geo s3 = geo s"
    using sees_upd [OF s2(2) pU, of ?f3] s2(3) geo_dsc [OF s2(3)] by (auto simp: v3_def)
  have op3: "order_ptr s3 (dsc s p) = ?P p" using geo_optr [OF s3(3)] geo_dsc [OF s3(3)] by (metis optr_def)
  obtain s4 where s4: "fb_set k (?P p) s3 = Inr s4" "sees s4 U v3 (h(k := ?P p))" "geo s4 = geo s"
    using sees_fb_set [OF s3(2) k, of "?P p"] s3(3) by auto
  let ?f5 = "\<lambda>e. e\<lparr>hp_w1 := page_addr p, hp_w2 := of_nat k\<rparr>"
  define v5 where "v5 = v3(p := ?f5 (v3 p))"
  obtain s5 where s5: "hpage_upd (dsc s p) ?f5 s4 = Inr s5" "sees s5 U v5 (h(k := ?P p))" "geo s5 = geo s"
    using sees_upd [OF s4(2) pU, of ?f5] s4(3) geo_dsc [OF s4(3)] by (auto simp: v5_def)
  have run: "free_buddy (page_addr p) s = merge_upwards (Some (dsc s p)) k s5"
    by (simp only: free_buddy_def pg desc_of_page [OF g pU] sees_get [OF se pU] f fb pow gt lg lbind_simps lassert_simps simp_thms
        s1(1) hk op1 s2(1) s3(1) op3 s4(1) s5(1))
  have v2p: "v2 p = v1 p" using pF by (auto simp: v2_def split: list.splits)
  have c2: "chain ?P v2 (?P p) (F k)"
  proof -
    have "chain ?P v1 0 (F k) \<longleftrightarrow> chain ?P v 0 (F k)" by (rule chain_cong) (use pF in \<open>auto simp: v1_def\<close>)
    then show ?thesis using lists_okD(1,3) [OF l k] chain_prev [of ?P v1 0 _ _ "?P p"] by (cases "F k") (auto simp: v2_def)
  qed
  have c5: "chain ?P v5 0 (p # F k)"
  proof -
    have "chain ?P v5 (?P p) (F k) \<longleftrightarrow> chain ?P v2 (?P p) (F k)" by (rule chain_cong) (use pF in \<open>auto simp: v5_def v3_def\<close>)
    then show ?thesis using c2 by (simp add: v5_def v3_def)
  qed
  have L: "lists_ok ?P ?C U v5 (h(k := ?P p)) (F(k := p # F k))"
  proof (rule push_lists_ok [OF l k p(3) _ p(1) c5])
    show "blk k p \<subseteq> U" using p(2) al(1) by (auto simp: alias_ok_def)
    show "block_ok ?C v5 k p" using f fb set_free_head by (simp add: block_ok_def v5_def v3_def v2p v1_def)
    show "v5 x = v x" if "x \<notin> set (p # F k)" for x
      using that by (auto simp: v5_def v3_def v2_def v1_def split: list.splits)
    show "block_ok ?C v5 j x = block_ok ?C v j x" if "x \<noteq> p" for j x
      using that by (auto simp: v5_def v3_def v2_def v1_def block_ok_def split: list.splits)
  qed
  have same: "hp_flags (v5 x) = hp_flags (v x)" if "x \<noteq> p" for x
    using that by (auto simp: v5_def v3_def v2_def v1_def split: list.splits)
  have "flags_ok U v5 (F(k := p # F k))"
  proof -
    have keep: "x \<in> set ((F(k := p # F k)) j)" if "x \<in> set (F j)" for x j using that by auto
    have "p \<in> set ((F(k := p # F k)) k)" by simp
    then show ?thesis using fl same keep k unfolding flags_ok_def by metis
  qed
  then have ok5: "heap_ok s5 U (F(k := p # F k))" using L s5(2) geo_optr [OF s5(3)] geo_cache [OF s5(3)] by (auto simp: heap_ok_def)
  have "hp_flags (v5 p) = hp_flags (v p) OR HEAPFLAG_VFREE" by (simp add: v5_def v3_def v2p v1_def)
  then have "marked s5 p" using fb sees_marked [OF s5(2) pU] all_three by simp
  moreover have "marked s5 x \<longleftrightarrow> marked s x" if "x \<in> U" "x \<noteq> p" for x
    using sees_marked [OF s5(2) that(1)] sees_marked [OF se that(1)] same [OF that(2)] by simp
  moreover have "x \<in> U" if "j < 20" "x \<in> set ((F(k := p # F k)) j)" for j x
    using that lists_okD(4) [OF l that(1)] pU by (auto split: if_splits)
  ultimately have "marks_are ((marked s)(p := True)) s5 (F(k := p # F k))" unfolding marks_are_def by (metis fun_upd_apply)
  moreover have "free_pages (F(k := p # F k)) \<subseteq> R" using al(2) p(2) push_free_pages [OF k] by auto
  moreover have "p \<in> set ((F(k := p # F k)) k)" by simp
  ultimately obtain s' where "merge_upwards (Some (dsc s5 p)) k s5 = lret s'" "geo s' = geo s5" "heap_ok s' U F'"
      "free_pages F' = free_pages (F(k := p # F k))" "marks_are ((marked s)(p := True)) s' F'"
    using merge_upwards_correct [OF ok5, of R k p] alias_ok_cong [OF s5(3)] al(1) k unfolding F' by blast
  then show ?thesis using run s5(3) geo_dsc [OF s5(3)] push_free_pages [OF k, of F p] by auto
qed

section \<open>No two free buddies remain\<close>

text \<open>
  A heap is tidy when every free block is marked and no two free blocks of an order are
  buddies of each other (the two halves of the address space excepted). Releasing a
  block keeps it tidy: the joining stops only where there is nothing left to join.
\<close>

definition no_buddies :: "(nat \<Rightarrow> nat list) \<Rightarrow> bool" where
  "no_buddies F \<longleftrightarrow> (\<forall>j<19. \<forall>q\<in>set (F j). bud j q \<notin> set (F j))"

definition tidy :: "heap_state \<Rightarrow> (nat \<Rightarrow> nat list) \<Rightarrow> bool" where
  "tidy s F \<longleftrightarrow> (\<forall>j<20. \<forall>q\<in>set (F j). marked s q) \<and> no_buddies F"

definition apart_heads :: "(nat \<Rightarrow> nat list) \<Rightarrow> bool" where
  "apart_heads F \<longleftrightarrow> (\<forall>j<20. distinct (F j)) \<and> (\<forall>i<20. \<forall>j<20. i \<noteq> j \<longrightarrow> set (F i) \<inter> set (F j) = {})"

definition only_pair :: "nat \<Rightarrow> nat \<Rightarrow> (nat \<Rightarrow> nat list) \<Rightarrow> bool" where
  "only_pair k p F \<longleftrightarrow> (\<forall>j<19. \<forall>q\<in>set (F j). bud j q \<in> set (F j) \<longrightarrow> j = k \<and> q \<in> {p, bud k p})"

lemma bud_bud [simp]: "bud k (bud k p) = p"
  by (simp add: bud_def xor.assoc)

lemma heap_ok_apart: "heap_ok s U F \<Longrightarrow> apart_heads F"
proof -
  assume "heap_ok s U F"
  then obtain v h where l: "lists_ok (optr s) (buddy_cache_ptr s) U v h F" by (auto simp: heap_ok_def)
  have "set (F i) \<inter> set (F j) = {}" if "i < 20" "j < 20" "i \<noteq> j" for i j
    using head_outside [OF l that(1,2)] that(3) blk_head by fastforce
  then show ?thesis using lists_okD(3) [OF l] by (simp add: apart_heads_def)
qed

lemma join_sets:
  assumes "apart_heads F" "k < 19"
  shows "set (join_lists k n q F j) =
    (if j = k then set (F k) - {n, q} else if j = Suc k then insert n (set (F (Suc k))) else set (F j))"
  using assms set_remove2 [of "F k" q n] by (auto simp: join_lists_def apart_heads_def)

lemma join_apart:
  assumes ap: "apart_heads F" and k: "k < 19" and n: "n \<in> set (F k)"
  shows "apart_heads (join_lists k n q F)"
proof -
  have sk: "k < 20" "Suc k < 20" using k by auto
  have nj: "n \<notin> set (F j)" if "j < 20" "j \<noteq> k" for j using ap n sk(1) that unfolding apart_heads_def by blast
  have "distinct (join_lists k n q F j)" if "j < 20" for j
    using ap that nj [of "Suc k"] sk by (auto simp: join_lists_def apart_heads_def)
  moreover have "set (join_lists k n q F i) \<inter> set (join_lists k n q F j) = {}" if "i < 20" "j < 20" "i \<noteq> j" for i j
  proof -
    have "set (F i) \<inter> set (F j) = {}" "k = i \<or> set (F k) \<inter> set (F i) = {}" "k = j \<or> set (F k) \<inter> set (F j) = {}"
        "Suc k = i \<or> set (F (Suc k)) \<inter> set (F i) = {}" "Suc k = j \<or> set (F (Suc k)) \<inter> set (F j) = {}"
      using ap that sk unfolding apart_heads_def by blast+
    then show ?thesis unfolding join_sets [OF ap k] using that nj [of i] nj [of j] by (auto split: if_splits)
  qed
  ultimately show ?thesis by (simp add: apart_heads_def)
qed

lemma join_only_pair:
  assumes ap: "apart_heads F" and k: "k < 19" and one: "only_pair k p F" and n: "{n, q} = {p, bud k p}"
  shows "only_pair (Suc k) n (join_lists k n q F)"
  unfolding only_pair_def join_sets [OF ap k]
proof (intro allI impI ballI)
  fix j x assume j: "j < 19"
    and x: "x \<in> (if j = k then set (F k) - {n, q} else if j = Suc k then insert n (set (F (Suc k))) else set (F j))"
    and b: "bud j x \<in> (if j = k then set (F k) - {n, q} else if j = Suc k then insert n (set (F (Suc k))) else set (F j))"
  have old: "j = k \<and> x \<in> {n, q}" if "x \<in> set (F j)" "bud j x \<in> set (F j)"
    using one j that n unfolding only_pair_def by blast
  show "j = Suc k \<and> x \<in> {n, bud (Suc k) n}"
  proof (cases "j = Suc k")
    case True
    then have "x = n \<or> bud j x = n" using x b old by auto
    then show ?thesis using True by (metis bud_bud insertCI)
  next
    case False
    then show ?thesis using x b old by (auto split: if_splits)
  qed
qed

lemma merge_lists_no_buddies:
  assumes "apart_heads F" "only_pair k p F" "p \<in> set (F k)" "k < 20" "\<forall>j<20. \<forall>q\<in>set (F j). M q"
  shows "no_buddies (merge_lists M k p F)"
  using assms
proof (induction M k p F rule: merge_lists.induct)
  case (1 M k p F)
  let ?q = "bud k p" and ?J = "join_lists k (min p (bud k p)) (max p (bud k p)) F"
  show ?case
  proof (cases "k < 19 \<and> ?q \<in> set (F k) \<and> M ?q")
    case False
    then have no: "\<not> (k < 19 \<and> ?q \<in> set (F k))" using 1(5,6) by blast
    have "merge_lists M k p F = F" by (subst merge_lists.simps) (simp only: False if_False)
    moreover have "no_buddies F"
      unfolding no_buddies_def using 1(3) no unfolding only_pair_def by (metis bud_bud empty_iff insert_iff)
    ultimately show ?thesis by simp
  next
    case True
    then have k: "k < 19" and mem: "min p ?q \<in> set (F k)" using 1(4) by (auto simp: min_def)
    have "{min p ?q, max p ?q} = {p, ?q}" by (auto simp: min_def max_def)
    note step = join_apart [OF 1(2) k mem, of "max p ?q"] join_only_pair [OF 1(2) k 1(3) this]
    have "\<forall>j<20. \<forall>x\<in>set (?J j). M x"
    proof (intro allI impI ballI)
      fix j x assume "j < 20" "x \<in> set (?J j)"
      then have "x \<in> set (F j) \<or> x \<in> set (F k)" using mem unfolding join_sets [OF 1(2) k] by (auto split: if_splits)
      then show "M x" using 1(5,6) \<open>j < 20\<close> by blast
    qed
    moreover have "min p ?q \<in> set (?J (Suc k))" "Suc k < 20" using k by (simp_all add: join_lists_def)
    ultimately have "no_buddies (merge_lists M (Suc k) (min p ?q) ?J)" using 1(1) [OF True step] by blast
    moreover have "merge_lists M k p F = merge_lists M (Suc k) (min p ?q) ?J"
      by (subst merge_lists.simps) (simp only: True if_True simp_thms)
    ultimately show ?thesis by simp
  qed
qed

lemma merge_lists_heads:
  assumes "k < 20" "p \<in> set (F k)" "j < 20" "x \<in> set (merge_lists M k p F j)"
  shows "\<exists>i<20. x \<in> set (F i)"
  using assms
proof (induction M k p F rule: merge_lists.induct)
  case (1 M k p F)
  let ?q = "bud k p" and ?J = "join_lists k (min p (bud k p)) (max p (bud k p)) F"
  show ?case
  proof (cases "k < 19 \<and> ?q \<in> set (F k) \<and> M ?q")
    case False
    then have "merge_lists M k p F = F" by (subst merge_lists.simps) (simp only: False if_False)
    then show ?thesis using 1(4,5) by auto
  next
    case True
    have "merge_lists M k p F = merge_lists M (Suc k) (min p ?q) ?J"
      by (subst merge_lists.simps) (simp only: True if_True simp_thms)
    moreover have "Suc k < 20" "min p ?q \<in> set (?J (Suc k))" using True by (simp_all add: join_lists_def)
    ultimately obtain i where i: "i < 20" "x \<in> set (?J i)" using 1(1) [OF True] 1(4,5) by auto
    moreover have "min p ?q \<in> set (F k)" using 1(3) True by (simp add: min_def)
    ultimately have "x \<in> set (F i) \<or> x \<in> set (F k)"
      by (auto simp: join_lists_def split: if_splits dest: notin_set_remove1 set_mp [OF set_remove1_subset])
    then show ?thesis using i(1) 1(2) by blast
  qed
qed

lemma free_buddy_tidy:
  assumes ok: "heap_ok s U F" and k: "k < 20" and p: "blk k p \<inter> free_pages F = {}"
    and F': "F' = merge_lists ((marked s)(p := True)) k p (F(k := p # F k))"
    and marks: "marks_are ((marked s)(p := True)) s' F'" and tidy: "tidy s F"
  shows "tidy s' F'"
proof -
  let ?M = "(marked s)(p := True)" and ?G = "F(k := p # F k)"
  have new: "p \<notin> set (F j)" if "j < 20" for j using p head_free [of j p F] blk_head [of p k] that by blast
  then have "apart_heads ?G" using heap_ok_apart [OF ok] k by (auto simp: apart_heads_def)
  moreover have "only_pair k p ?G"
    using tidy by (auto simp: only_pair_def tidy_def no_buddies_def split: if_splits)
  moreover have all: "\<forall>j<20. \<forall>q\<in>set (?G j). ?M q" using tidy by (auto simp: tidy_def split: if_splits)
  ultimately have "no_buddies F'" unfolding F' using k by (intro merge_lists_no_buddies) auto
  moreover have "marked s' q" if q: "j < 20" "q \<in> set (F' j)" for j q
  proof -
    obtain i where "i < 20" "q \<in> set (?G i)" using merge_lists_heads [of k p ?G j q ?M] k q unfolding F' by auto
    then have "?M q" using all by blast
    then show ?thesis using marks that unfolding marks_are_def by blast
  qed
  ultimately show ?thesis by (simp add: tidy_def)
qed

end
