(* ===== verification/Heap_Props.thy ===== *)
theory Heap_Props
  imports Heap_Merge
begin

text \<open>
  The contract of the buddy allocator as an interface (\<open>block_store\<close>) with its interpretation, and
  the properties of the heap, including the runs in which the slab and the buddy allocator
  disagree about a block.
\<close>

section \<open>The interface\<close>

fun take_seq :: "(nat \<Rightarrow> 's \<Rightarrow> (nat \<times> 's) option) \<Rightarrow> nat list \<Rightarrow> 's \<Rightarrow> (nat list \<times> 's) option" where
  "take_seq grab [] s = Some ([], s)"
| "take_seq grab (k # ks) s = do { (p, s) \<leftarrow> grab k s; (ps, s) \<leftarrow> take_seq grab ks s; Some (p # ps, s) }"

locale block_store =
  fixes holds :: "'s \<Rightarrow> nat set \<Rightarrow> bool" and grab :: "nat \<Rightarrow> 's \<Rightarrow> (nat \<times> 's) option" and orders :: nat
  assumes finite_law: "holds s A \<Longrightarrow> finite A"
    and take_law: "holds s A \<Longrightarrow> k < orders \<Longrightarrow> 2 ^ k \<le> card A \<Longrightarrow>
      \<exists>p s'. grab k s = Some (p, s') \<and> 2 ^ k dvd p \<and> blk k p \<subseteq> A \<and> holds s' (A - blk k p)"
begin

text \<open>A sequence of requests that fits the free pages is served with blocks that lie in them and apart from each other.\<close>

lemma take_seq_serves:
  assumes "holds s A" "\<forall>k\<in>set ks. k < orders" "(\<Sum>k\<leftarrow>ks. 2 ^ k) \<le> card A"
  shows "\<exists>ps s'. take_seq grab ks s = Some (ps, s') \<and> length ps = length ks \<and>
    (\<forall>(k, p)\<in>set (zip ks ps). 2 ^ k dvd p \<and> blk k p \<subseteq> A) \<and>
    sorted_wrt (\<lambda>(k, p) (j, q). blk k p \<inter> blk j q = {}) (zip ks ps) \<and>
    holds s' (A - (\<Union>(k, p)\<in>set (zip ks ps). blk k p))"
  using assms
proof (induction ks arbitrary: s A)
  case (Cons k ks)
  have "2 ^ k \<le> card A" using Cons.prems(3) by simp
  then obtain p s1 where t: "grab k s = Some (p, s1)" "2 ^ k dvd p" "blk k p \<subseteq> A" "holds s1 (A - blk k p)"
    using take_law [OF Cons.prems(1), of k] Cons.prems(2) by auto
  have "card (A - blk k p) = card A - 2 ^ k"
    using t(3) finite_subset [OF t(3) finite_law [OF Cons.prems(1)]] by (simp add: card_Diff_subset)
  then have "(\<Sum>k\<leftarrow>ks. 2 ^ k) \<le> card (A - blk k p)" using Cons.prems(3) by simp
  then obtain qs s' where IH: "take_seq grab ks s1 = Some (qs, s')" "length qs = length ks"
    "\<forall>(k', p')\<in>set (zip ks qs). 2 ^ k' dvd p' \<and> blk k' p' \<subseteq> A - blk k p"
    "sorted_wrt (\<lambda>(k, p) (j, q). blk k p \<inter> blk j q = {}) (zip ks qs)"
    "holds s' (A - blk k p - (\<Union>(k, p)\<in>set (zip ks qs). blk k p))"
    using Cons.IH [OF t(4)] Cons.prems(2) by auto
  have "\<forall>y\<in>set (zip ks qs). case y of (j, q) \<Rightarrow> blk k p \<inter> blk j q = {}" using IH(3) by fast
  moreover have "\<forall>(j, q)\<in>set (zip ks qs). 2 ^ j dvd q \<and> blk j q \<subseteq> A" using IH(3) by fast
  moreover have "take_seq grab (k # ks) s = Some (p # qs, s')" using t(1) IH(1) by simp
  moreover have "A - blk k p - (\<Union>(k, p)\<in>set (zip ks qs). blk k p) = A - (\<Union>(k, p)\<in>set (zip (k # ks) (p # qs)). blk k p)" by auto
  ultimately show ?case using t(2,3) IH(2,4,5) by (intro exI [of _ "p # qs"] exI [of _ s']) simp
qed simp

end

section \<open>The heap provides it\<close>

definition no_growth :: map_more where
  "no_growth va count s = Some (Inl Aborted)"

text \<open>A heap with at most one free block per order, whose free pages are \<open>A\<close>.\<close>

definition heap_holds :: "nat set \<Rightarrow> heap_state \<Rightarrow> nat set \<Rightarrow> bool" where
  "heap_holds R s A \<longleftrightarrow> (\<exists>F. heap_ok s R F \<and> single_blocks F \<and> A = free_pages F)"

definition heap_take :: "map_more \<Rightarrow> nat \<Rightarrow> heap_state \<Rightarrow> (nat \<times> heap_state) option" where
  "heap_take map_more k s = (case alloc_buddy map_more (2 ^ (k + 12)) s of
     Some (Inr (a, s')) \<Rightarrow> Some (page_no a, s') | _ \<Rightarrow> None)"

lemma block_size: "k < 20 \<Longrightarrow> unat ((2 :: u32) ^ (k + 12)) = 2 ^ (k + 12)"
  using unat_pow2 [of "k + 12", where ?'a = 32] by simp

lemma free_pages_lt: "heap_ok s R F \<Longrightarrow> p \<in> free_pages F \<Longrightarrow> p < 1048576"
  unfolding heap_ok_def sees_def geo_ok_def lists_ok_def free_pages_def by blast

interpretation hbs: block_store "heap_holds R" "heap_take map_more" 20
proof (unfold_locales, goal_cases)
  case (1 s A)
  then show ?case by (auto simp: heap_holds_def)
next
  case (2 s A k)
  obtain F where F: "heap_ok s R F" "single_blocks F" "A = free_pages F" using 2(1) by (auto simp: heap_holds_def)
  have "has_room F k" using single_room [OF F(2)] 2(2,3) F(3) by simp
  then obtain p s' F' where r: "alloc_buddy map_more (2 ^ (k + 12)) s = lret (page_addr p, s')" "heap_ok s' R F'" "taken F k p F'"
    "2 ^ k dvd p" "blk k p \<subseteq> free_pages F" "free_pages F' = free_pages F - blk k p"
    using alloc_buddy_lists [OF F(1) block_size [OF 2(2)] 2(2), of map_more] by auto
  have "p < 1048576" using free_pages_lt [OF F(1)] r(5) blk_head [of p k] by blast
  then have "heap_take map_more k s = Some (p, s')" using r(1) by (simp add: heap_take_def)
  moreover have "single_blocks F'" using taken_single [OF r(3) F(2)] .
  ultimately show ?case using r(2,4,5,6) F(3) by (auto simp: heap_holds_def)
qed

section \<open>Concrete heaps\<close>

definition blank_hpage :: hpage where
  "blank_hpage = \<lparr>hp_flags = 0, hp_w0 = 0, hp_w1 = 0, hp_w2 = 0, hp_w3 = 0, hp_w4 = 0, hp_w5 = 0\<rparr>"

text \<open>A heap of 16 KiB at \<^verbatim>\<open>0xD0000000\<close>, mapped to the frames from 1 on, that is one free block as
  \<^verbatim>\<open>init_heap\<close> leaves it, with the slab order for objects of 256 bytes.\<close>

definition small_heap :: heap_state where
  "small_heap = \<lparr>hs_pages = (\<lambda>_. blank_hpage)(1 := blank_hpage\<lparr>hp_flags := 4, hp_w0 := 4, hp_w1 := 0xD0000000, hp_w2 := 2, hp_w5 := 0xC0001008\<rparr>),
     hs_count = 8, hs_descs_va = 0xE0000000, hs_vars_va = 0xC0001000,
     hs_v2p = (\<lambda>va. if 0xD0000000 \<le> va \<and> va < 0xD0004000 then va - 0xCFFFF000 else 0),
     hs_mem = (\<lambda>_. 0)(0xC0001008 := 0xE0000034, 0xC0001090 := 4, 0xC0001094 := 256, 0xC0001098 := 0x2000),
     heap_min_addr = 0xD0000000, heap_cur_max_addr = 0xD0004000, heap_reserved_max_addr = 0xD0100000,
     heap_cur_size = 0x4000, heap_reserved_max_size = 0x100000\<rparr>"



definition small_pages :: "nat set" where
  "small_pages = {0xD0000, 0xD0001, 0xD0002, 0xD0003}"

definition small_free :: "nat \<Rightarrow> nat list" where
  "small_free = (\<lambda>_. [])(2 := [0xD0000])"

lemma small_dsc: "q < 1048576 \<Longrightarrow> dsc small_heap q = (if q \<in> small_pages then of_nat q - 0xCFFFF else 0)"
proof -
  assume q: "q < 1048576"
  have in_range: "0xD0000000 \<le> page_addr q \<and> page_addr q < 0xD0004000 \<longleftrightarrow> q \<in> small_pages"
    using q by (auto simp: word_le_nat_alt word_less_nat_alt unat_page_addr small_pages_def)
  show ?thesis
  proof (cases "q \<in> small_pages")
    case True
    then show ?thesis by (auto simp: dsc_def small_heap_def small_pages_def page_addr_def PAGE_SIZE_def)
  next
    case False
    then show ?thesis using in_range by (auto simp: dsc_def small_heap_def)
  qed
qed

lemma small_dscs: "dsc small_heap 0 = 0" "dsc small_heap 0xD0000 = 1" "dsc small_heap 0xD0001 = 2"
    "dsc small_heap 0xD0002 = 3" "dsc small_heap 0xD0003 = 4"
  by (simp_all add: small_dsc small_pages_def)

lemma small_heap_geo: "geo_ok small_heap (insert 0 small_pages)"
  unfolding geo_ok_def inj_on_def small_pages_def
  by (intro conjI ballI) (auto simp: small_dscs, simp_all add: small_heap_def)

lemma small_heap_alias: "alias_ok small_heap (insert 0 small_pages) small_pages"
proof -
  have "\<exists>u\<in>insert 0 small_pages. dsc small_heap q = dsc small_heap u \<and> (u \<in> small_pages \<longrightarrow> u = q)" if "q < 1048576" for q
  proof (cases "q \<in> small_pages")
    case False
    moreover have "0 \<notin> small_pages" by (simp add: small_pages_def)
    ultimately show ?thesis using that small_dsc [OF that] small_dscs(1) by (intro bexI [of _ 0]) auto
  qed blast
  then show ?thesis unfolding alias_ok_def by (auto simp: small_pages_def)
qed

lemma small_buddies: "k < 20 \<Longrightarrow> free_buddies small_heap k = (if k = 2 then 0xE0000034 else 0)"
proof -
  assume k: "k < 20"
  have u: "unat (4 * of_nat k :: u32) = 4 * k" using k by (simp add: unat_word_ariths unat_of_nat)
  have "(4 * of_nat k :: u32) = 8 \<longleftrightarrow> k = 2" "(4 * of_nat k :: u32) \<noteq> 144" "(4 * of_nat k :: u32) \<noteq> 148" "(4 * of_nat k :: u32) \<noteq> 152"
    unfolding word_unat_eq_iff u using k by auto
  then show ?thesis by (simp add: free_buddies_def small_heap_def buddy_cache_ptr_def)
qed

lemma small_heap_ok: "heap_ok small_heap (insert 0 small_pages) small_free"
proof -
  let ?v = "\<lambda>p. hs_pages small_heap (dsc small_heap p)" and ?h = "free_buddies small_heap"
  have first: "?v 0xD0000 = blank_hpage\<lparr>hp_flags := 4, hp_w0 := 4, hp_w1 := 0xD0000000, hp_w2 := 2, hp_w5 := 0xC0001008\<rparr>"
    by (simp add: small_dscs) (simp add: small_heap_def)
  have ptr: "optr small_heap 0xD0000 = 0xE0000034" by (simp add: optr_def part_ptr_def small_dscs) (simp add: small_heap_def)
  have cache: "buddy_cache_ptr small_heap 2 = 0xC0001008" by (simp add: buddy_cache_ptr_def small_heap_def)
  have b: "block_ok (buddy_cache_ptr small_heap) ?v 2 0xD0000"
    unfolding block_ok_def first cache by (simp add: blank_hpage_def page_addr_def HEAPFLAG_HEAD_def)
  have "blk 2 0xD0000 \<subseteq> insert 0 small_pages" by (auto simp: blk_def small_pages_def)
  then have "lists_ok (optr small_heap) (buddy_cache_ptr small_heap) (insert 0 small_pages) ?v ?h small_free"
    unfolding lists_ok_def using b first ptr small_buddies by (auto simp: small_free_def blank_hpage_def)
  moreover have "sees small_heap (insert 0 small_pages) ?v ?h" using small_heap_geo by (simp add: sees_def)
  moreover have "flags_ok (insert 0 small_pages) ?v small_free"
    unfolding flags_ok_def small_pages_def by (simp add: small_dscs) (simp add: small_heap_def blank_hpage_def)
  ultimately show ?thesis unfolding heap_ok_def by blast
qed

text \<open>The same heap with its upper half handed out and its lower half free.\<close>

definition half_heap :: heap_state where
  "half_heap = small_heap\<lparr>
     hs_pages := (\<lambda>_. blank_hpage)(1 := blank_hpage\<lparr>hp_flags := 7, hp_w0 := 2, hp_w1 := 0xD0000000, hp_w2 := 1, hp_w5 := 0xC0001004\<rparr>,
                                   3 := blank_hpage\<lparr>hp_flags := 6, hp_w0 := 2, hp_w1 := 0xD0002000, hp_w2 := 1, hp_w5 := 0xC0001004\<rparr>),
     hs_mem := (\<lambda>_. 0)(0xC0001004 := 0xE0000034)\<rparr>"

definition half_free :: "nat \<Rightarrow> nat list" where
  "half_free = (\<lambda>_. [])(1 := [0xD0000])"

lemma blk_1: "blk (Suc 0) p = {p, Suc p}"
  by (auto simp: blk_def)

lemma half_geo: "geo half_heap = geo small_heap"
  by (simp add: geo_def half_heap_def)

lemma half_buddies: "k < 20 \<Longrightarrow> free_buddies half_heap k = (if k = 1 then 0xE0000034 else 0)"
proof -
  assume k: "k < 20"
  have u: "unat (4 * of_nat k :: u32) = 4 * k" using k by (simp add: unat_word_ariths unat_of_nat)
  have "(4 * of_nat k :: u32) = 4 \<longleftrightarrow> k = 1" unfolding word_unat_eq_iff u using k by auto
  then show ?thesis by (simp add: free_buddies_def half_heap_def small_heap_def buddy_cache_ptr_def)
qed

lemma half_heap_ok: "heap_ok half_heap (insert 0 small_pages) half_free"
proof -
  note dscs = small_dscs [folded geo_dsc [OF half_geo]]
  let ?v = "\<lambda>p. hs_pages half_heap (dsc half_heap p)" and ?h = "free_buddies half_heap"
  have first: "?v 0xD0000 = blank_hpage\<lparr>hp_flags := 7, hp_w0 := 2, hp_w1 := 0xD0000000, hp_w2 := 1, hp_w5 := 0xC0001004\<rparr>"
    by (simp add: dscs) (simp add: half_heap_def)
  have ptr: "optr half_heap 0xD0000 = 0xE0000034" by (simp add: optr_def part_ptr_def dscs) (simp add: half_heap_def small_heap_def)
  have cache: "buddy_cache_ptr half_heap 1 = 0xC0001004" by (simp add: buddy_cache_ptr_def half_heap_def small_heap_def)
  have b: "block_ok (buddy_cache_ptr half_heap) ?v 1 0xD0000"
    unfolding block_ok_def first cache by (simp add: blank_hpage_def page_addr_def HEAPFLAG_HEAD_def)
  have "blk 1 0xD0000 \<subseteq> insert 0 small_pages" by (auto simp: blk_def small_pages_def)
  then have "lists_ok (optr half_heap) (buddy_cache_ptr half_heap) (insert 0 small_pages) ?v ?h half_free"
    unfolding lists_ok_def using b first ptr half_buddies by (auto simp: half_free_def blank_hpage_def)
  moreover have "sees half_heap (insert 0 small_pages) ?v ?h"
    using small_heap_geo geo_ok_cong [OF half_geo] by (simp add: sees_def)
  moreover have "\<exists>k<20. 0xD0000 \<in> set (half_free k)" by (rule exI [of _ 1]) (simp add: half_free_def)
  then have "flags_ok (insert 0 small_pages) ?v half_free"
    unfolding flags_ok_def small_pages_def by (simp add: dscs) (simp add: half_heap_def blank_hpage_def)
  ultimately show ?thesis unfolding heap_ok_def by blast
qed

section \<open>Properties\<close>

text \<open>C2. Allocation from the buddy lists: for a size of \<open>2^k\<close> pages, when some list from order \<open>k\<close> on is
  not empty, \<^verbatim>\<open>alloc_buddy\<close> returns the address of a block of that many pages, aligned to its size,
  that was free; it splits blocks and relinks lists so that they stay well formed, exactly
  these pages stop being free, and the descriptor records the length and the list. Otherwise
  it grows the heap and tries again.\<close>

theorem alloc_buddy_takes_block:
  assumes "heap_ok s U F" "unat sz = 2 ^ (k + 12)" "k < 20"
  shows "if has_room F k
    then \<exists>p s' F'. alloc_buddy map_more sz s = lret (page_addr p, s') \<and> heap_ok s' U F' \<and> geo s' = geo s \<and>
      2 ^ k dvd p \<and> blk k p \<subseteq> free_pages F \<and> free_pages F' = free_pages F - blk k p \<and> handed_out s' k p
    else alloc_buddy map_more sz s = lbind (grow_heap map_more sz s) (alloc_buddy map_more sz)"
  using assms by (rule alloc_buddy_correct)

theorem alloc_buddy_takes_block_witness:
  "\<exists>p s' F'. alloc_buddy no_growth 0x2000 small_heap = lret (page_addr p, s') \<and> heap_ok s' (insert 0 small_pages) F' \<and>
     blk 1 p \<subseteq> free_pages small_free \<and> free_pages F' = free_pages small_free - blk 1 p"
proof -
  have "has_room small_free 1" by (auto simp: has_room_def small_free_def intro!: exI [of _ 2])
  then show ?thesis using alloc_buddy_takes_block [OF small_heap_ok, of "0x2000" 1 no_growth] by auto
qed

text \<open>C3. Releasing a block: when the block's descriptor carries the buddy flag, \<^verbatim>\<open>free_buddy\<close> returns
  (the joining loop ends and passes its assertion) and exactly the block's pages become free.
  The free lists it leaves are \<open>merge_lists\<close>: the block is put in front of its list and joined
  upwards, order by order, as long as its buddy is free, of the same order and marked. So on a
  heap where every free block is marked and no two free blocks are buddies, both hold again.\<close>

theorem free_buddy_returns_block:
  assumes "heap_ok s U F" "alias_ok s U R" "free_pages F \<subseteq> R"
    and "k < 20" "2 ^ k dvd p" "blk k p \<subseteq> R" "blk k p \<inter> free_pages F = {}" "owned s k p"
    and "F' = merge_lists ((marked s)(p := True)) k p (F(k := p # F k))"
  shows "\<exists>s'. free_buddy (page_addr p) s = lret s' \<and> geo s' = geo s \<and> heap_ok s' U F' \<and>
    free_pages F' = free_pages F \<union> blk k p \<and> (tidy s F \<longrightarrow> tidy s' F')"
  using free_buddy_correct [OF assms] free_buddy_tidy [OF assms(1,4,7,9)] by blast

theorem free_buddy_returns_block_witness:
  "\<exists>s'. free_buddy 0xD0002000 half_heap = lret s' \<and> heap_ok s' (insert 0 small_pages) small_free \<and> tidy s' small_free"
proof -
  have "free_pages (\<lambda>_. []) = {}" by (simp add: free_pages_def)
  then have "free_pages half_free = blk 1 0xD0000" using push_free_pages [of 1 "\<lambda>_. []" "0xD0000"] by (simp add: half_free_def)
  then have fp: "free_pages half_free = {0xD0000, 0xD0001}" by (simp add: blk_1)
  have al: "alias_ok half_heap (insert 0 small_pages) small_pages" using small_heap_alias alias_ok_cong [OF half_geo] by simp
  have "dsc half_heap 0xD0002 = 3" using small_dscs(4) geo_dsc [OF half_geo] by simp
  then have ow: "owned half_heap 1 0xD0002"
    by (simp add: owned_def handed_out_def buddy_cache_ptr_def) (simp add: half_heap_def small_heap_def blank_hpage_def HEAPFLAG_BUDDY_def HEAPFLAG_HEAD_def HEAPFLAG_VFREE_def)
  have "dsc half_heap 0xD0000 = 1" using small_dscs(2) geo_dsc [OF half_geo] by simp
  then have m: "marked half_heap 0xD0000" by (simp add: marked_def) (simp add: half_heap_def blank_hpage_def)
  have b: "bud 1 0xD0002 = 0xD0000" "bud 1 0xD0000 = 0xD0002" "bud 2 0xD0000 = 0xD0004" by (simp_all add: bud_def)
  have t: "tidy half_heap half_free" using m b(2) by (auto simp: tidy_def no_buddies_def half_free_def)
  let ?M = "(marked half_heap)(0xD0002 := True)" and ?G = "half_free(1 := 0xD0002 # half_free 1)"
  have G: "?G 1 = [0xD0002, 0xD0000]" by (simp add: half_free_def)
  have J: "join_lists 1 0xD0000 0xD0002 ?G = small_free"
    by (simp add: join_lists_def half_free_def small_free_def fun_eq_iff Suc_1 [symmetric] del: Suc_1 One_nat_def)
  have up: "1 < (19 :: nat) \<and> bud 1 0xD0002 \<in> set (?G 1) \<and> ?M (bud 1 0xD0002)" unfolding b(1) G using m by simp
  have stop: "\<not> (2 < (19 :: nat) \<and> bud 2 0xD0000 \<in> set (small_free 2) \<and> ?M (bud 2 0xD0000))" unfolding b(3) by (simp add: small_free_def)
  have "min 0xD0002 0xD0000 = (0xD0000 :: nat)" "max 0xD0002 0xD0000 = (0xD0002 :: nat)" by simp_all
  then have "merge_lists ?M 1 0xD0002 ?G = merge_lists ?M 2 0xD0000 small_free"
    by (subst merge_lists.simps) (simp only: up [unfolded b(1)] if_True simp_thms b(1) J Suc_1)
  also have "\<dots> = small_free" by (subst merge_lists.simps) (simp only: stop if_False)
  finally have F': "small_free = merge_lists ?M 1 0xD0002 ?G" by simp
  have "\<exists>s'. free_buddy (page_addr 0xD0002) half_heap = lret s' \<and> geo s' = geo half_heap \<and>
      heap_ok s' (insert 0 small_pages) small_free \<and> free_pages small_free = free_pages half_free \<union> blk 1 0xD0002 \<and>
      (tidy half_heap half_free \<longrightarrow> tidy s' small_free)"
    by (rule free_buddy_returns_block [OF half_heap_ok al _ _ _ _ _ ow F']) (auto simp: fp blk_1 small_pages_def)
  then show ?thesis using t by (auto simp: page_addr_def)
qed

text \<open>C35. A heap with at most one free block of each order, as it is when it was created at an aligned address and
  since then only allocated from, serves every sequence of requests for blocks of \<open>2^k\<close> pages that together ask
  for no more pages than are free, in any order and without growing: each request returns, and the blocks
  are aligned, were free at the start and do not overlap. What is left free are exactly the other pages.\<close>

theorem heap_serves_requests:
  assumes "heap_ok s U F" "single_blocks F" "\<forall>k\<in>set ks. k < 20" "(\<Sum>k\<leftarrow>ks. 2 ^ k) \<le> card (free_pages F)"
  shows "\<exists>ps s' F'. take_seq (heap_take map_more) ks s = Some (ps, s') \<and> length ps = length ks \<and>
    (\<forall>(k, p)\<in>set (zip ks ps). 2 ^ k dvd p \<and> blk k p \<subseteq> free_pages F) \<and>
    sorted_wrt (\<lambda>(k, p) (j, q). blk k p \<inter> blk j q = {}) (zip ks ps) \<and>
    heap_ok s' U F' \<and> free_pages F' = free_pages F - (\<Union>(k, p)\<in>set (zip ks ps). blk k p)"
proof -
  have "heap_holds U s (free_pages F)" using assms(1,2) by (auto simp: heap_holds_def)
  from hbs.take_seq_serves [OF this assms(3,4), of map_more] obtain ps s' where
    "take_seq (heap_take map_more) ks s = Some (ps, s')" "length ps = length ks"
    "\<forall>(k, p)\<in>set (zip ks ps). 2 ^ k dvd p \<and> blk k p \<subseteq> free_pages F"
    "sorted_wrt (\<lambda>(k, p) (j, q). blk k p \<inter> blk j q = {}) (zip ks ps)"
    and left: "heap_holds U s' (free_pages F - (\<Union>(k, p)\<in>set (zip ks ps). blk k p))" by blast
  moreover from left obtain F' where "heap_ok s' U F'" "free_pages F' = free_pages F - (\<Union>(k, p)\<in>set (zip ks ps). blk k p)"
    unfolding heap_holds_def by metis
  ultimately show ?thesis by blast
qed

theorem heap_serves_requests_witness:
  "\<exists>ps s'. take_seq (heap_take no_growth) [1, 0, 0] small_heap = Some (ps, s') \<and> length ps = 3 \<and>
     sorted_wrt (\<lambda>(k, p) (j, q). blk k p \<inter> blk j q = {}) (zip [1, 0, 0] ps)"
proof -
  have "free_pages (\<lambda>_. []) = {}" by (simp add: free_pages_def)
  then have "free_pages small_free = blk 2 0xD0000" using push_free_pages [of 2 "\<lambda>_. []" "0xD0000"] by (simp add: small_free_def)
  moreover have "single_blocks small_free" by (simp add: single_blocks_def small_free_def)
  ultimately show ?thesis using heap_serves_requests [OF small_heap_ok, of "[1, 0, 0]" no_growth] by auto
qed

section \<open>Runs in which slabs and buddies disagree\<close>

text \<open>Rules for running the heap on concrete states: the continuations are left alone until their
  argument is known.\<close>

lemma run_congs: "r = r' \<Longrightarrow> kbind r f = kbind r' f" "q = q' \<Longrightarrow> lbind q g = lbind q' g"
  by simp_all

lemma slab_list_loop_num:
  "slab_list_loop obj_size (numeral n) last_ptr s =
     (let current_ptr = last_ptr + obj_size
      in slab_list_loop obj_size (pred_numeral n) current_ptr (word_upd current_ptr last_ptr (word_upd (last_ptr + 4) current_ptr s)))"
  by (simp add: numeral_eq_Suc)

lemmas run_heap = slab_list_loop_num hpage_get_def hpage_upd_def desc_of_def part_ptr_def part_idx_def buddy_cache_ptr_def slab_order_ptr_def word_upd_def
  free_buddies_def fb_get_def fb_set_def klog2_def log2_u32_def bsr.simps buddy_push_def buddy_unlink_def split_buddy_def take_buddy_def
  first_order.simps PAGE_SIZE_def blank_hpage_def HEAPFLAG_VFREE_def HEAPFLAG_BUDDY_def HEAPFLAG_HEAD_def Let_def
  kmalloc_def kfree_def alloc_slab_def free_slab_def free_buddy_def resolve_merge_def align_up_pow2_def smear_def
  alloc_buddy.simps merge_upwards.simps init_slab_free_list_def tail_offsets_def upt_conv_Cons hp_obj_count_def hp_used_count_def set_obj_count_def set_used_count_def



text \<open>The first object of a slab of two or more pages cannot be released: \<^verbatim>\<open>alloc_slab\<close> does not
  set \<^verbatim>\<open>prev_slab\<close>, which shares its word with the buddy order, and when the slab becomes empty
  \<^verbatim>\<open>free_slab\<close> follows the order as a pointer. On a fresh heap of 16 KiB \<^verbatim>\<open>kmalloc(256)\<close> succeeds
  and \<^verbatim>\<open>kfree\<close> of the result is an access through the address 1.\<close>

theorem kfree_follows_buddy_order:
  "lbind (kmalloc no_growth 256 small_heap) (\<lambda>(a, s). lret (a, kfree a s)) = lret (0xD0002000, Some (Inl BadAccess))"
  by (simp add: run_heap small_heap_def cong: run_congs if_weak_cong let_weak_cong option.case_cong_weak sum.case_cong_weak)

text \<open>A heap of 128 KiB that is one block, as \<^verbatim>\<open>init_heap\<close> leaves it.\<close>

definition big_heap :: heap_state where
  "big_heap = small_heap\<lparr>
     hs_pages := (\<lambda>_. blank_hpage)(1 := blank_hpage\<lparr>hp_flags := 4, hp_w0 := 32, hp_w1 := 0xD0000000, hp_w2 := 5, hp_w5 := 0xC0001014\<rparr>),
     hs_count := 64, hs_v2p := (\<lambda>va. if 0xD0000000 \<le> va \<and> va < 0xD0020000 then va - 0xCFFFF000 else 0),
     hs_mem := (\<lambda>_. 0)(0xC0001014 := 0xE0000034), heap_cur_max_addr := 0xD0020000, heap_cur_size := 0x20000\<rparr>"

text \<open>A block of the size of the whole heap is lost when it is released: \<^verbatim>\<open>add_buddies\<close> never sets
  \<^verbatim>\<open>HEAPFLAG_BUDDY\<close>, so \<^verbatim>\<open>kfree\<close> takes the block for a slab object, returns normally, and no
  free list holds the block afterwards.\<close>

theorem kfree_loses_initial_block:
  "lbind (kmalloc no_growth 0x20000 big_heap) (\<lambda>(a, s). lbind (kfree a s) (\<lambda>s. lret (a, list_all (\<lambda>k. free_buddies s k = 0) [0..<20])))
   = lret (0xD0000000, True)"
  by (simp add: run_heap big_heap_def small_heap_def cong: run_congs if_weak_cong let_weak_cong option.case_cong_weak sum.case_cong_weak)

end
