(* ===== verification/Terminal.thy ===== *)
theory Terminal
  imports Libk_String
begin

text \<open>
  The text console: \<^verbatim>\<open>kernel/drivers/tty.c\<close> with the entries of \<^verbatim>\<open>drivers/vga.h\<close>, and
  \<^verbatim>\<open>putchar\<close> of \<^verbatim>\<open>libk/stdio/putchar.c\<close> and \<^verbatim>\<open>boot/tty/early_putchar.c\<close>. The video memory is
  a function from cell numbers to 16-bit entries, so that the cells behind the 25 rows, which
  \<^verbatim>\<open>terminal_scroll\<close> reads, exist as well. A block of characters is the list of its bytes.
  The refinement relates a terminal to the text written to it: the lines finished so far and
  the line the cursor is in.
\<close>

section \<open>The driver\<close>

definition VGA_WIDTH :: usize where "VGA_WIDTH = 80"
definition VGA_HEIGHT :: usize where "VGA_HEIGHT = 25"

definition VGA_COLOR_WHITE :: u8 where "VGA_COLOR_WHITE = 15"
definition VGA_COLOR_BLACK :: u8 where "VGA_COLOR_BLACK = 0"

definition vga_entry_color :: "u8 \<Rightarrow> u8 \<Rightarrow> u8" where
  "vga_entry_color fg bg = fg OR push_bit 4 bg"

definition vga_entry :: "u8 \<Rightarrow> u8 \<Rightarrow> u16" where
  "vga_entry uc color = ucast uc OR push_bit 8 (ucast color)"

record terminal =
  terminal_row :: usize
  terminal_column :: usize
  terminal_color :: u8
  terminal_buffer :: "usize \<Rightarrow> u16"

text \<open>A \<^verbatim>\<open>for\<close> loop over a variable of type \<open>usize\<close> from 0 below a bound.\<close>

definition for_usize :: "usize \<Rightarrow> (usize \<Rightarrow> 's \<Rightarrow> 's) \<Rightarrow> 's \<Rightarrow> 's" where
  "for_usize n body = fold (\<lambda>i. body (of_nat i)) [0..<unat n]"

definition terminal_initialize :: "terminal \<Rightarrow> terminal" where
  "terminal_initialize t =
     (let t = t\<lparr>terminal_row := 0, terminal_column := 0,
                terminal_color := vga_entry_color VGA_COLOR_WHITE VGA_COLOR_BLACK\<rparr>
      in t\<lparr>terminal_buffer :=
             for_usize VGA_HEIGHT (\<lambda>y. for_usize VGA_WIDTH (\<lambda>x b.
               b(y * VGA_WIDTH + x := vga_entry 32 (terminal_color t)))) (terminal_buffer t)\<rparr>)"

definition terminal_setcolor :: "u8 \<Rightarrow> terminal \<Rightarrow> terminal" where
  "terminal_setcolor color t = t\<lparr>terminal_color := color\<rparr>"

definition terminal_putentryat :: "u8 \<Rightarrow> u8 \<Rightarrow> usize \<Rightarrow> usize \<Rightarrow> terminal \<Rightarrow> terminal" where
  "terminal_putentryat c color x y t =
     t\<lparr>terminal_buffer := (terminal_buffer t)(y * VGA_WIDTH + x := vga_entry c color)\<rparr>"

definition terminal_scroll :: "terminal \<Rightarrow> terminal" where
  "terminal_scroll t =
     (let b = for_usize VGA_HEIGHT (\<lambda>row. for_usize VGA_WIDTH (\<lambda>col b.
                b(row * VGA_WIDTH + col := b ((row + 1) * VGA_WIDTH + col)))) (terminal_buffer t)
      in t\<lparr>terminal_buffer := for_usize VGA_WIDTH (\<lambda>col b.
                b((VGA_HEIGHT - 1) * VGA_WIDTH + col := vga_entry 32 (terminal_color t))) b\<rparr>)"

definition terminal_nextline :: "terminal \<Rightarrow> terminal" where
  "terminal_nextline t =
     (let t = t\<lparr>terminal_column := 0\<rparr>
      in if terminal_row t + 1 \<noteq> VGA_HEIGHT then t\<lparr>terminal_row := terminal_row t + 1\<rparr>
         else terminal_scroll t)"

definition terminal_putchar :: "u8 \<Rightarrow> terminal \<Rightarrow> terminal" where
  "terminal_putchar c t =
     (if c = 10 then terminal_nextline t
      else let t = terminal_putentryat c (terminal_color t) (terminal_column t) (terminal_row t) t
           in if terminal_column t + 1 = VGA_WIDTH then terminal_nextline t
              else t\<lparr>terminal_column := terminal_column t + 1\<rparr>)"

definition terminal_write :: "u8 list \<Rightarrow> terminal \<Rightarrow> terminal" where
  "terminal_write data t = fold terminal_putchar data t"

definition terminal_writestring :: "mem \<Rightarrow> u32 \<Rightarrow> terminal \<Rightarrow> terminal option" where
  "terminal_writestring m data t =
     map_option (\<lambda>len. terminal_write (bytes m data (unat len)) t) (strlen m data)"

text \<open>\<^verbatim>\<open>putchar\<close> returns the character it was given.\<close>

definition putchar :: "u32 \<Rightarrow> terminal \<Rightarrow> u32 \<times> terminal" where
  "putchar ic t = (ic, terminal_write [ucast ic] t)"

text \<open>The early version calls the same code at its physical address.\<close>

definition early_putchar :: "u32 \<Rightarrow> terminal \<Rightarrow> u32 \<times> terminal" where
  "early_putchar ic t = (ic, terminal_write [ucast ic] t)"

section \<open>The text that has been written\<close>

text \<open>The finished lines, the latest one first, and the line that is being written; a line ends at
  a newline character or when it has 80 characters.\<close>

type_synonym text_log = "u8 list list \<times> u8 list"

fun log_putchar :: "u8 \<Rightarrow> text_log \<Rightarrow> text_log" where
  "log_putchar c (ls, cur) =
     (if c = 10 then (cur # ls, [])
      else if length cur = 79 then ((cur @ [c]) # ls, [])
      else (ls, cur @ [c]))"

definition log_write :: "u8 list \<Rightarrow> text_log \<Rightarrow> text_log" where
  "log_write cs lg = fold log_putchar cs lg"

text \<open>The character in column \<open>c\<close> of a line, which is blank behind its end.\<close>

definition char_at :: "u8 list \<Rightarrow> nat \<Rightarrow> u8" where
  "char_at l c = (if c < length l then l ! c else 32)"

text \<open>Row \<open>r\<close> of the 25 rows that show the end of the text.\<close>

definition visible_row :: "text_log \<Rightarrow> nat \<Rightarrow> u8 list" where
  "visible_row lg r =
     (let k = min (length (fst lg)) 24
      in if r < k then fst lg ! (k - 1 - r) else if r = k then snd lg else [])"

definition term_shows :: "terminal \<Rightarrow> text_log \<Rightarrow> bool" where
  "term_shows t lg \<longleftrightarrow>
     terminal_row t = of_nat (min (length (fst lg)) 24) \<and>
     terminal_column t = of_nat (length (snd lg)) \<and> length (snd lg) < 80 \<and>
     (\<forall>r<25. \<forall>c<80. terminal_buffer t (of_nat (r * 80 + c)) =
        vga_entry (char_at (visible_row lg r) c) (terminal_color t))"

section \<open>Loops over the screen\<close>

lemma of_nat_u64_inj:
  assumes "i < 2 ^ 64" "j < 2 ^ 64"
  shows "(of_nat i :: u64) = of_nat j \<longleftrightarrow> i = j"
proof
  assume "(of_nat i :: u64) = of_nat j"
  then have "unat (of_nat i :: u64) = unat (of_nat j :: u64)" by simp
  then show "i = j" using assms by (simp add: unat_of_nat)
qed simp

text \<open>The two nested loops visit the cells in order.\<close>

lemma cells_fold: "fold (\<lambda>r. fold g (map (\<lambda>c. r * w + c) [0..<w])) [0..<n] s = fold g [0..<n * w] s"
proof (induction n)
  case (Suc n)
  have "map (\<lambda>c. n * w + c) [0..<w] = [n * w..<n * w + w]"
    by (simp add: list_eq_iff_nth_eq)
  moreover have "[0..<Suc n * w] = [0..<n * w] @ [n * w..<n * w + w]"
    using upt_add_eq_append [of 0 "n * w" w] by (simp add: add.commute)
  ultimately show ?case using Suc by simp
qed simp

lemma for_cells:
  assumes "\<And>r c. r < 25 \<Longrightarrow> c < 80 \<Longrightarrow> body (of_nat r) (of_nat c) = g (r * 80 + c)"
  shows "for_usize VGA_HEIGHT (\<lambda>y. for_usize VGA_WIDTH (body y)) s = fold g [0..<2000] s"
proof -
  have row: "fold (\<lambda>c. body (of_nat r) (of_nat c)) [0..<80] = fold g (map (\<lambda>c. r * 80 + c) [0..<80])"
    if "r < 25" for r
    unfolding fold_map by (intro ext fold_cong) (use assms that in \<open>auto simp: o_def\<close>)
  have "for_usize VGA_HEIGHT (\<lambda>y. for_usize VGA_WIDTH (body y)) s =
      fold (\<lambda>r. fold g (map (\<lambda>c. r * 80 + c) [0..<80])) [0..<25] s"
    unfolding for_usize_def VGA_HEIGHT_def VGA_WIDTH_def
    by (intro fold_cong) (simp_all add: row)
  then show ?thesis using cells_fold [of g 80 25 s] by simp
qed

lemma fold_fill:
  assumes "\<And>i. i < n \<Longrightarrow> f i < (2::nat) ^ 64"
  shows "fold (\<lambda>i b. b((of_nat (f i) :: u64) := v)) [0..<n] b =
    (\<lambda>x. if x \<in> (\<lambda>i. of_nat (f i)) ` {..<n} then v else b x)"
  by (induction n) (auto simp: fun_eq_iff lessThan_Suc)

lemma fold_shift:
  assumes "n + w < 2 ^ 64" "0 < w"
  shows "fold (\<lambda>i b. b((of_nat i :: u64) := b (of_nat (i + w)))) [0..<n] b =
    (\<lambda>x. if unat x < n then b (x + of_nat w) else b x)"
  using assms(1)
proof (induction n)
  case (Suc n)
  have u: "unat (of_nat n :: u64) = n" "unat (of_nat (n + w) :: u64) = n + w"
    using Suc.prems by (simp_all only: unat_of_nat) (simp_all add: unat_of_nat)
  have e: "x = of_nat n \<longleftrightarrow> unat x = n" for x :: u64
    using u(1) by (simp add: word_unat_eq_iff)
  show ?case using Suc u assms(2)
    by (auto simp: fun_eq_iff less_Suc_eq e simp del: of_nat_add) (simp add: e [THEN iffD2])
qed simp

text \<open>What the loops leave in the cells of the screen.\<close>

lemma cell_number: "r < 25 \<Longrightarrow> c < 80 \<Longrightarrow> r * 80 + c < (2000::nat)"
  by simp

lemma of_nat_cell: "(of_nat r :: u64) * VGA_WIDTH + of_nat c = of_nat (r * 80 + c)"
  by (simp add: VGA_WIDTH_def)

lemma unat_cell: "r < 25 \<Longrightarrow> c < 80 \<Longrightarrow> unat (of_nat (r * 80 + c) :: u64) = r * 80 + c"
  by (simp add: unat_of_nat del: of_nat_add of_nat_mult)

lemma initialize_cell:
  assumes "r < 25" "c < 80"
  shows "terminal_buffer (terminal_initialize t) (of_nat (r * 80 + c)) = vga_entry 32 15"
proof -
  have "for_usize VGA_HEIGHT (\<lambda>y. for_usize VGA_WIDTH (\<lambda>x b. b(y * VGA_WIDTH + x := v))) b =
      fold (\<lambda>i b. b(of_nat i := v)) [0..<2000] b" for v :: u16 and b
    by (rule for_cells) (simp add: of_nat_cell del: of_nat_add of_nat_mult)
  moreover have "(of_nat (r * 80 + c) :: u64) \<in> of_nat ` {..<2000}"
    using cell_number [OF assms] by blast
  ultimately show ?thesis
    by (simp add: terminal_initialize_def Let_def fold_fill [of 2000 "\<lambda>i. i"] vga_entry_color_def
        VGA_COLOR_WHITE_def VGA_COLOR_BLACK_def del: of_nat_add of_nat_mult)
qed

lemma scroll_cell:
  assumes "r < 25" "c < 80"
  shows "terminal_buffer (terminal_scroll t) (of_nat (r * 80 + c)) =
    (if r = 24 then vga_entry 32 (terminal_color t) else terminal_buffer t (of_nat (Suc r * 80 + c)))"
proof -
  have up: "for_usize VGA_HEIGHT (\<lambda>row. for_usize VGA_WIDTH (\<lambda>col b.
        b(row * VGA_WIDTH + col := b ((row + 1) * VGA_WIDTH + col)))) b =
      fold (\<lambda>i b. b(of_nat i := b (of_nat (i + 80)))) [0..<2000] b" for b :: "u64 \<Rightarrow> u16"
    by (rule for_cells) (simp add: VGA_WIDTH_def algebra_simps)
  have last: "for_usize VGA_WIDTH (\<lambda>col b. b((VGA_HEIGHT - 1) * VGA_WIDTH + col := v)) b =
      fold (\<lambda>i b. b(of_nat (1920 + i) := v)) [0..<80] b" for v :: u16 and b
    by (simp add: for_usize_def VGA_WIDTH_def VGA_HEIGHT_def)
  have mem: "(of_nat (r * 80 + c) :: u64) \<in> (\<lambda>i. of_nat (1920 + i)) ` {..<80} \<longleftrightarrow> r = 24"
  proof
    assume "(of_nat (r * 80 + c) :: u64) \<in> (\<lambda>i. of_nat (1920 + i)) ` {..<80}"
    then obtain i where i: "i < 80" "(of_nat (r * 80 + c) :: u64) = of_nat (1920 + i)" by blast
    then have "r * 80 + c = 1920 + i"
      using cell_number [OF assms] by (subst (asm) of_nat_u64_inj) auto
    with i(1) assms show "r = 24" by linarith
  qed (use assms in \<open>auto simp: image_iff intro!: bexI [of _ c]\<close>)
  have sum: "(of_nat (r * 80 + c) + 80 :: u64) = of_nat (80 + r * 80 + c)" by simp
  show ?thesis
    using mem cell_number [OF assms]
    by (simp add: terminal_scroll_def Let_def up last fold_fill [of 80 "\<lambda>i. 1920 + i"] fold_shift [of 2000 80]
        unat_cell [OF assms] sum del: of_nat_add of_nat_mult)
qed

section \<open>The terminal shows the end of the text\<close>

definition cells_show :: "terminal \<Rightarrow> text_log \<Rightarrow> bool" where
  "cells_show t lg \<longleftrightarrow> terminal_row t = of_nat (min (length (fst lg)) 24) \<and>
     (\<forall>r<25. \<forall>c<80. terminal_buffer t (of_nat (r * 80 + c)) =
        vga_entry (char_at (visible_row lg r) c) (terminal_color t))"

lemma term_shows_iff:
  "term_shows t lg \<longleftrightarrow> cells_show t lg \<and> terminal_column t = of_nat (length (snd lg)) \<and> length (snd lg) < 80"
  by (auto simp: term_shows_def cells_show_def)

lemma visible_row_next:
  "length ls < 24 \<Longrightarrow> visible_row (cur # ls, []) r = visible_row (ls, cur) r"
  "24 \<le> length ls \<Longrightarrow> r < 24 \<Longrightarrow> visible_row (cur # ls, []) r = visible_row (ls, cur) (Suc r)"
  "24 \<le> length ls \<Longrightarrow> visible_row (cur # ls, []) 24 = []"
  by (auto simp: visible_row_def Let_def nth_Cons' min_def)

lemma row_is_24: "n \<le> 24 \<Longrightarrow> (of_nat n + 1 = VGA_HEIGHT) = (n = 24)"
proof -
  assume "n \<le> 24"
  then have "(of_nat (Suc n) :: u64) = of_nat 25 \<longleftrightarrow> Suc n = 25" by (intro of_nat_u64_inj) auto
  then show ?thesis by (simp add: VGA_HEIGHT_def add.commute)
qed

lemma nextline_shows:
  assumes "cells_show t (ls, cur)"
  shows "term_shows (terminal_nextline t) (cur # ls, [])"
proof (cases "length ls < 24")
  case True
  then show ?thesis
    using assms row_is_24 [of "length ls"]
    by (simp add: terminal_nextline_def Let_def term_shows_def cells_show_def visible_row_next(1))
next
  case False
  then have len: "24 \<le> length ls" by simp
  have "terminal_buffer (terminal_scroll t) (of_nat (r * 80 + c)) =
      vga_entry (char_at (visible_row (cur # ls, []) r) c) (terminal_color t)"
    if rc: "r < 25" "c < 80" for r c
  proof (cases "r = 24")
    case True
    then show ?thesis using scroll_cell [OF rc, of t] len by (simp add: visible_row_next(3) char_at_def)
  next
    case False
    then have "Suc r < 25" "r < 24" using rc by auto
    then show ?thesis
      using scroll_cell [OF rc, of t] assms rc(2) len False
      by (simp only: visible_row_next(2) cells_show_def) (metis fst_conv)
  qed
  then show ?thesis
    using assms len row_is_24 [of 24]
    by (simp add: terminal_nextline_def Let_def term_shows_def cells_show_def terminal_scroll_def
        for_usize_def VGA_HEIGHT_def del: of_nat_add of_nat_mult)
qed

lemma cell_inj:
  assumes x: "x < 80" "l < (80::nat)"
  shows "r * 80 + x = k * 80 + l \<longleftrightarrow> r = k \<and> x = l"
proof
  assume e: "r * 80 + x = k * 80 + l"
  have "(r * 80 + x) div 80 = (k * 80 + l) div 80" by (simp only: e)
  with x have "r = k" by simp
  with e show "r = k \<and> x = l" by simp
qed simp

lemma putentry_shows:
  assumes "term_shows t (ls, cur)"
  shows "cells_show (terminal_putentryat c (terminal_color t) (terminal_column t) (terminal_row t) t) (ls, cur @ [c])"
proof -
  let ?k = "min (length ls) 24"
  have pos: "terminal_row t = of_nat ?k" "terminal_column t = of_nat (length cur)" "length cur < 80"
    using assms by (auto simp: term_shows_def)
  have cell: "terminal_row t * VGA_WIDTH + terminal_column t = of_nat (?k * 80 + length cur)"
    by (simp add: pos VGA_WIDTH_def)
  have eq: "(of_nat (r * 80 + x) :: u64) = of_nat (?k * 80 + length cur) \<longleftrightarrow> r = ?k \<and> x = length cur"
    if "r < 25" "x < 80" for r x
  proof -
    have "(of_nat (r * 80 + x) :: u64) = of_nat (?k * 80 + length cur) \<longleftrightarrow> r * 80 + x = ?k * 80 + length cur"
      using that pos(3) by (intro of_nat_u64_inj) auto
    also have "\<dots> \<longleftrightarrow> r = ?k \<and> x = length cur" by (rule cell_inj [OF that(2) pos(3)])
    finally show ?thesis .
  qed
  have vis: "char_at (visible_row (ls, cur @ [c]) r) x =
      (if r = ?k \<and> x = length cur then c else char_at (visible_row (ls, cur) r) x)" for r x
    by (auto simp: visible_row_def Let_def char_at_def nth_append)
  show ?thesis
    using assms unfolding cells_show_def
    by (simp add: terminal_putentryat_def cell eq vis del: of_nat_add of_nat_mult)
      (simp add: term_shows_def)
qed

lemma putchar_shows:
  assumes "term_shows t lg"
  shows "term_shows (terminal_putchar c t) (log_putchar c lg)"
proof -
  obtain ls cur where lg: "lg = (ls, cur)" by fastforce
  let ?t = "terminal_putentryat c (terminal_color t) (terminal_column t) (terminal_row t) t"
  have col: "terminal_column t = of_nat (length cur)" "length cur < 80" "terminal_column ?t = terminal_column t"
    using assms by (auto simp: lg term_shows_def terminal_putentryat_def)
  have full: "terminal_column t + 1 = VGA_WIDTH \<longleftrightarrow> length cur = 79"
    using of_nat_u64_inj [of "Suc (length cur)" 80] col by (simp add: VGA_WIDTH_def add.commute)
  have put: "cells_show ?t (ls, cur @ [c])" using putentry_shows assms lg by simp
  consider "c = 10" | "c \<noteq> 10" "length cur = 79" | "c \<noteq> 10" "length cur \<noteq> 79" by blast
  then show ?thesis
  proof cases
    case 1
    then show ?thesis using nextline_shows [of t ls cur] assms by (simp add: lg terminal_putchar_def term_shows_iff)
  next
    case 2
    then show ?thesis using nextline_shows [OF put] by (simp add: lg terminal_putchar_def Let_def col(3) full)
  next
    case 3
    then show ?thesis using put col full
      by (simp add: lg terminal_putchar_def Let_def term_shows_iff cells_show_def add.commute)
  qed
qed

lemma write_shows: "term_shows t lg \<Longrightarrow> term_shows (terminal_write cs t) (log_write cs lg)"
  unfolding terminal_write_def log_write_def
  by (induction cs arbitrary: t lg) (simp_all add: putchar_shows)

lemma initialize_shows: "term_shows (terminal_initialize t) ([], [])"
proof -
  have "terminal_color (terminal_initialize t) = 15" "terminal_row (terminal_initialize t) = 0"
    "terminal_column (terminal_initialize t) = 0"
    by (simp_all add: terminal_initialize_def Let_def vga_entry_color_def VGA_COLOR_WHITE_def VGA_COLOR_BLACK_def)
  then show ?thesis
    by (simp add: term_shows_def initialize_cell visible_row_def char_at_def del: of_nat_add of_nat_mult)
qed

lemma write_append: "terminal_write (xs @ ys) t = terminal_write ys (terminal_write xs t)"
  by (simp add: terminal_write_def)

text \<open>C7. Whatever is written to a freshly initialised terminal, in one call or in many, the 25 rows of
  the screen show the last lines of the text: lines end at newline characters and after 80
  characters, the last 24 finished lines are followed by the unfinished one, and the cursor
  stands behind its last character, always inside the screen.
\<close>

theorem terminal_shows_last_lines:
  "term_shows (terminal_write cs (terminal_initialize t)) (log_write cs ([], []))"
  by (intro write_shows initialize_shows)

end
