(* ===== verification/Printf.thy ===== *)
theory Printf
  imports Terminal
begin

text \<open>
  Formatted output: \<^verbatim>\<open>libk/stdio/printf.c\<close> and its copy \<^verbatim>\<open>boot/tty/early_printf.c\<close>, which
  differs only in the function that puts a character. That function is the argument \<open>pc\<close>
  of the routines, and the two files are the instances with \<^verbatim>\<open>putchar\<close> and \<^verbatim>\<open>early_putchar\<close>.

  Format strings and string arguments are read from the flat memory. A \<^verbatim>\<open>va_list\<close> is the
  list of the 32-bit words on the stack: an \<^verbatim>\<open>int\<close>, a \<^verbatim>\<open>long\<close> and a pointer take one, a \<^verbatim>\<open>long long\<close>
  takes two, and reading past the last word is \<open>BadAccess\<close>. Negation of the smallest
  signed value wraps around.
\<close>

section \<open>Characters and digits\<close>

type_synonym 's putc = "u32 \<Rightarrow> 's \<Rightarrow> u32 \<times> 's"

definition EOF :: u32 where "EOF = - 1"

fun print_loop :: "'s putc \<Rightarrow> u8 list \<Rightarrow> 's \<Rightarrow> bool \<times> 's" where
  "print_loop pc [] s = (True, s)"
| "print_loop pc (b # bs) s =
     (let (r, s) = pc (ucast b) s in if r = EOF then (False, s) else print_loop pc bs s)"

definition print :: "'s putc \<Rightarrow> u8 list \<Rightarrow> 's \<Rightarrow> bool \<times> 's" where
  "print pc data s = print_loop pc data s"

text \<open>Storing a digit in the local array of 32 characters.\<close>

definition put_digit :: "u8 list \<Rightarrow> u8 \<Rightarrow> u8 list kres" where
  "put_digit digits d = (if length digits < 32 then Inr (digits @ [d]) else Inl BadAccess)"

text \<open>The loops that take the digits off a number. The divisions do not overflow, so the loop
  variables are numbers; \<open>digit\<close> is the character of a digit.\<close>

function signed_digits :: "int \<Rightarrow> u8 list \<Rightarrow> u8 list kres" where
  "signed_digits v digits =
     (if v > 0 then kbind (put_digit digits (48 + of_int (v mod 10))) (signed_digits (v div 10))
      else Inr digits)"
  by auto
termination by (relation "measure (\<lambda>(v, _). nat v)") auto

function base_digits :: "nat \<Rightarrow> (nat \<Rightarrow> u8) \<Rightarrow> nat \<Rightarrow> u8 list \<Rightarrow> u8 list kres" where
  "base_digits base digit v digits =
     (if v > 0 \<and> base > 1
      then kbind (put_digit digits (digit (v mod base))) (base_digits base digit (v div base))
      else Inr digits)"
  by auto
termination by (relation "measure (\<lambda>(_, _, v, _). v)") auto

declare signed_digits.simps [simp del] base_digits.simps [simp del]

definition dec_digit :: "nat \<Rightarrow> u8" where
  "dec_digit d = 48 + of_nat d"

text \<open>The strings \<^verbatim>\<open>"0123456789abcdef"\<close> and \<^verbatim>\<open>"0123456789ABCDEF"\<close>.\<close>

definition hex_digit :: "bool \<Rightarrow> nat \<Rightarrow> u8" where
  "hex_digit uppercase d = (if d < 10 then 48 + of_nat d else (if uppercase then 55 else 87) + of_nat d)"

text \<open>Putting the digits in reverse order; the result is the count, or \<open>-1\<close>.\<close>

fun put_reverse :: "'s putc \<Rightarrow> u8 list \<Rightarrow> u32 \<Rightarrow> 's \<Rightarrow> u32 \<times> 's" where
  "put_reverse pc [] count s = (count, s)"
| "put_reverse pc (d # ds) count s =
     (let (r, s) = pc (ucast d) s in if r = EOF then (- 1, s) else put_reverse pc ds (count + 1) s)"

section \<open>Numbers\<close>

text \<open>\<^verbatim>\<open>print_int\<close>, \<^verbatim>\<open>print_long\<close> and \<^verbatim>\<open>print_longlong\<close> have the same body for types of \<open>w\<close> bits.\<close>

definition print_signed :: "nat \<Rightarrow> 's putc \<Rightarrow> int \<Rightarrow> 's \<Rightarrow> (u32 \<times> 's) kres" where
  "print_signed w pc v s =
     (if v = 0 then Inr (1, snd (pc 48 s))
      else let (count, v, s) = (if v < 0 then (1, signed_take_bit (w - 1) (- v), snd (pc 45 s)) else (0, v, s))
           in kbind (signed_digits v []) (\<lambda>digits. Inr (put_reverse pc (rev digits) count s)))"

definition print_int :: "'s putc \<Rightarrow> u32 \<Rightarrow> 's \<Rightarrow> (u32 \<times> 's) kres" where
  "print_int pc v = print_signed 32 pc (sint v)"

definition print_long :: "'s putc \<Rightarrow> u32 \<Rightarrow> 's \<Rightarrow> (u32 \<times> 's) kres" where
  "print_long pc v = print_signed 32 pc (sint v)"

definition print_longlong :: "'s putc \<Rightarrow> u64 \<Rightarrow> 's \<Rightarrow> (u32 \<times> 's) kres" where
  "print_longlong pc v = print_signed 64 pc (sint v)"

definition print_unsigned :: "'s putc \<Rightarrow> nat \<Rightarrow> 's \<Rightarrow> (u32 \<times> 's) kres" where
  "print_unsigned pc v s =
     (if v = 0 then Inr (1, snd (pc 48 s))
      else kbind (base_digits 10 dec_digit v []) (\<lambda>digits. Inr (put_reverse pc (rev digits) 0 s)))"

definition print_ulong :: "'s putc \<Rightarrow> u32 \<Rightarrow> 's \<Rightarrow> (u32 \<times> 's) kres" where
  "print_ulong pc v = print_unsigned pc (unat v)"

definition print_ulonglong :: "'s putc \<Rightarrow> u64 \<Rightarrow> 's \<Rightarrow> (u32 \<times> 's) kres" where
  "print_ulonglong pc v = print_unsigned pc (unat v)"

text \<open>The padding loop of \<^verbatim>\<open>print_hex\<close>.\<close>

function pad_digits :: "nat \<Rightarrow> u8 list \<Rightarrow> u8 list kres" where
  "pad_digits min_digits digits =
     (if length digits < min_digits \<and> length digits < 32 then pad_digits min_digits (digits @ [48])
      else if length digits < min_digits then Inl BadAccess
      else Inr digits)"
  by auto
termination by (relation "measure (\<lambda>(_, ds). 32 - length ds)") auto

declare pad_digits.simps [simp del]

definition print_hex :: "'s putc \<Rightarrow> u32 \<Rightarrow> bool \<Rightarrow> u32 \<Rightarrow> 's \<Rightarrow> (u32 \<times> 's) kres" where
  "print_hex pc v uppercase min_digits s =
     kbind (if v = 0 then put_digit [] 48 else base_digits 16 (hex_digit uppercase) (unat v) [])
       (\<lambda>digits. kbind (pad_digits (unat min_digits) digits)
          (\<lambda>digits. Inr (put_reverse pc (rev digits) 0 s)))"

text \<open>The code for \<^verbatim>\<open>%llx\<close> and \<^verbatim>\<open>%llX\<close> inside \<^verbatim>\<open>printf\<close>, which does not look at the result of \<^verbatim>\<open>putchar\<close>.\<close>

fun put_unchecked :: "'s putc \<Rightarrow> u8 list \<Rightarrow> u32 \<Rightarrow> 's \<Rightarrow> u32 \<times> 's" where
  "put_unchecked pc [] written s = (written, s)"
| "put_unchecked pc (d # ds) written s = put_unchecked pc ds (written + 1) (snd (pc (ucast d) s))"

definition print_llx :: "'s putc \<Rightarrow> u64 \<Rightarrow> bool \<Rightarrow> u32 \<Rightarrow> 's \<Rightarrow> (u32 \<times> 's) kres" where
  "print_llx pc v uppercase written s =
     (if v = 0 then Inr (written + 1, snd (pc 48 s))
      else kbind (base_digits 16 (hex_digit uppercase) (unat v) [])
             (\<lambda>buf. Inr (put_unchecked pc (rev buf) written s)))"

section \<open>The format string\<close>

text \<open>One round of the loop of \<^verbatim>\<open>printf\<close> returns from it, or goes on with the format pointer, the
  remaining arguments and the number of characters written.\<close>

datatype 's pf_result = PReturn u32 's | PNext u32 "u32 list" u32 's

definition arg32 :: "u32 list \<Rightarrow> (u32 \<times> u32 list) kloop" where
  "arg32 args = (case args of [] \<Rightarrow> Some (Inl BadAccess) | a # as \<Rightarrow> lret (a, as))"

definition arg64 :: "u32 list \<Rightarrow> (u64 \<times> u32 list) kloop" where
  "arg64 args = (case args of a # b # as \<Rightarrow> lret (ucast a OR push_bit 32 (ucast b), as) | _ \<Rightarrow> Some (Inl BadAccess))"

definition maxrem :: "u32 \<Rightarrow> usize" where
  "maxrem written = scast (0x7FFFFFFF - written)"

text \<open>What follows every call of a number routine.\<close>

definition add_count :: "u32 \<Rightarrow> u32 list \<Rightarrow> u32 \<Rightarrow> (u32 \<times> 's) kres \<Rightarrow> 's pf_result kloop" where
  "add_count f args written r =
     lbind (Some r) (\<lambda>(count, s). lret (if count = - 1 then PReturn (- 1) s else PNext f args (written + count) s))"

partial_function (option) amount_loop :: "mem \<Rightarrow> u32 \<Rightarrow> usize \<Rightarrow> usize option" where
  "amount_loop m f amount =
     (if m (f + ucast amount) \<noteq> 0 \<and> m (f + ucast amount) \<noteq> 37 then amount_loop m f (amount + 1) else Some amount)"

declare amount_loop.simps [code]

definition printf_plain :: "'s putc \<Rightarrow> mem \<Rightarrow> u32 \<Rightarrow> u32 list \<Rightarrow> u32 \<Rightarrow> 's \<Rightarrow> 's pf_result kloop" where
  "printf_plain pc m f args written s =
     (let f = (if m f = 37 then f + 1 else f)
      in lbind (lopt (amount_loop m f 1)) (\<lambda>amount.
         if maxrem written < amount then lret (PReturn (- 1) s)
         else let (ok, s) = print pc (bytes m f (unat (ucast amount :: u32))) s
              in if \<not> ok then lret (PReturn (- 1) s)
                 else lret (PNext (f + ucast amount) args (written + ucast amount) s)))"

definition printf_c :: "'s putc \<Rightarrow> u32 \<Rightarrow> u32 list \<Rightarrow> u32 \<Rightarrow> 's \<Rightarrow> 's pf_result kloop" where
  "printf_c pc f args written s =
     lbind (arg32 args) (\<lambda>(a, args).
       if maxrem written = 0 then lret (PReturn (- 1) s)
       else let (ok, s) = print pc [ucast a] s
            in if \<not> ok then lret (PReturn (- 1) s) else lret (PNext f args (written + 1) s))"

definition printf_s :: "'s putc \<Rightarrow> mem \<Rightarrow> u32 \<Rightarrow> u32 list \<Rightarrow> u32 \<Rightarrow> 's \<Rightarrow> 's pf_result kloop" where
  "printf_s pc m f args written s =
     lbind (arg32 args) (\<lambda>(str, args). lbind (lopt (strlen m str)) (\<lambda>len.
       if maxrem written < ucast len then lret (PReturn (- 1) s)
       else let (ok, s) = print pc (bytes m str (unat len)) s
            in if \<not> ok then lret (PReturn (- 1) s) else lret (PNext f args (written + len) s)))"

partial_function (option) width_loop :: "mem \<Rightarrow> u32 \<Rightarrow> u32 \<Rightarrow> (u32 \<times> u32) option" where
  "width_loop m f width =
     (if 48 \<le> m f \<and> m f \<le> 57 then width_loop m (f + 1) (width * 10 + (ucast (m f) - 48)) else Some (f, width))"

declare width_loop.simps [code]

definition printf_zero :: "'s putc \<Rightarrow> mem \<Rightarrow> u32 \<Rightarrow> u32 list \<Rightarrow> u32 \<Rightarrow> 's \<Rightarrow> 's pf_result kloop" where
  "printf_zero pc m f args written s =
     lbind (lopt (width_loop m f 0)) (\<lambda>(f, width).
       if m f = 120 then lbind (arg32 args) (\<lambda>(v, args). add_count (f + 1) args written (print_hex pc v False width s))
       else if m f = 88 then lbind (arg32 args) (\<lambda>(v, args). add_count (f + 1) args written (print_hex pc v True width s))
       else lret (PNext f args written s))"

definition printf_ll :: "'s putc \<Rightarrow> mem \<Rightarrow> u32 \<Rightarrow> u32 list \<Rightarrow> u32 \<Rightarrow> 's \<Rightarrow> 's pf_result kloop" where
  "printf_ll pc m f args written s =
     (if m f = 100 then lbind (arg64 args) (\<lambda>(v, args). add_count (f + 1) args written (print_longlong pc v s))
      else if m f = 117 then lbind (arg64 args) (\<lambda>(v, args). add_count (f + 1) args written (print_ulonglong pc v s))
      else if m f = 120 then lbind (arg64 args) (\<lambda>(v, args). lbind (Some (print_llx pc v False written s)) (\<lambda>(written, s).
        lret (PNext (f + 1) args written s)))
      else if m f = 88 then lbind (arg64 args) (\<lambda>(v, args). lbind (Some (print_llx pc v True written s)) (\<lambda>(written, s).
        lret (PNext (f + 1) args written s)))
      else lret (PNext f args written s))"

definition printf_l :: "'s putc \<Rightarrow> mem \<Rightarrow> u32 \<Rightarrow> u32 list \<Rightarrow> u32 \<Rightarrow> 's \<Rightarrow> 's pf_result kloop" where
  "printf_l pc m f args written s =
     (if m f = 100 then lbind (arg32 args) (\<lambda>(v, args). add_count (f + 1) args written (print_long pc v s))
      else if m f = 117 then lbind (arg32 args) (\<lambda>(v, args). add_count (f + 1) args written (print_ulong pc v s))
      else if m f = 108 then printf_ll pc m (f + 1) args written s
      else lret (PNext f args written s))"

definition printf_unknown :: "'s putc \<Rightarrow> mem \<Rightarrow> u32 \<Rightarrow> u32 list \<Rightarrow> u32 \<Rightarrow> 's \<Rightarrow> 's pf_result kloop" where
  "printf_unknown pc m f args written s =
     lbind (lopt (strlen m f)) (\<lambda>len.
       if maxrem written < ucast len then lret (PReturn (- 1) s)
       else let (ok, s) = print pc (bytes m f (unat len)) s
            in if \<not> ok then lret (PReturn (- 1) s) else lret (PNext (f + len) args (written + len) s))"

definition printf_round :: "'s putc \<Rightarrow> mem \<Rightarrow> u32 \<Rightarrow> u32 list \<Rightarrow> u32 \<Rightarrow> 's \<Rightarrow> 's pf_result kloop" where
  "printf_round pc m f args written s =
     (if m f \<noteq> 37 \<or> m (f + 1) = 37 then printf_plain pc m f args written s
      else let format_begun_at = f; f = f + 1
           in if m f = 99 then printf_c pc (f + 1) args written s
              else if m f = 115 then printf_s pc m (f + 1) args written s
              else if m f = 100 then lbind (arg32 args) (\<lambda>(v, args). add_count (f + 1) args written (print_int pc v s))
              else if m f = 120 then lbind (arg32 args) (\<lambda>(v, args). add_count (f + 1) args written (print_hex pc v False 0 s))
              else if m f = 88 then lbind (arg32 args) (\<lambda>(v, args). add_count (f + 1) args written (print_hex pc v True 0 s))
              else if m f = 48 then printf_zero pc m (f + 1) args written s
              else if m f = 108 then printf_l pc m (f + 1) args written s
              else printf_unknown pc m format_begun_at args written s)"

partial_function (option) printf_loop :: "'s putc \<Rightarrow> mem \<Rightarrow> u32 \<Rightarrow> u32 list \<Rightarrow> u32 \<Rightarrow> 's \<Rightarrow> (u32 \<times> 's) kloop" where
  "printf_loop pc m f args written s =
     (if m f = 0 then lret (written, s)
      else lbind (printf_round pc m f args written s) (\<lambda>r.
        case r of PReturn v s \<Rightarrow> lret (v, s) | PNext f args written s \<Rightarrow> printf_loop pc m f args written s))"

declare printf_loop.simps [code]

definition printf_with :: "'s putc \<Rightarrow> mem \<Rightarrow> u32 \<Rightarrow> u32 list \<Rightarrow> 's \<Rightarrow> (u32 \<times> 's) kloop" where
  "printf_with pc m format args s = printf_loop pc m format args 0 s"

definition printf :: "mem \<Rightarrow> u32 \<Rightarrow> u32 list \<Rightarrow> terminal \<Rightarrow> (u32 \<times> terminal) kloop" where
  "printf = printf_with putchar"

text \<open>The string \<^verbatim>\<open>"%s\n"\<close> of \<^verbatim>\<open>puts\<close> is a constant at the address \<open>fmt\<close>.\<close>

definition puts :: "u32 \<Rightarrow> mem \<Rightarrow> u32 \<Rightarrow> terminal \<Rightarrow> (u32 \<times> terminal) kloop" where
  "puts fmt m string = printf (m(fmt := 37, fmt + 1 := 115, fmt + 2 := 10, fmt + 3 := 0)) fmt [string]"

section \<open>The copy for early boot\<close>

definition early_print :: "u8 list \<Rightarrow> terminal \<Rightarrow> bool \<times> terminal" where
  "early_print = print early_putchar"

definition early_print_int :: "u32 \<Rightarrow> terminal \<Rightarrow> (u32 \<times> terminal) kres" where
  "early_print_int = print_int early_putchar"

definition early_print_long :: "u32 \<Rightarrow> terminal \<Rightarrow> (u32 \<times> terminal) kres" where
  "early_print_long = print_long early_putchar"

definition early_print_longlong :: "u64 \<Rightarrow> terminal \<Rightarrow> (u32 \<times> terminal) kres" where
  "early_print_longlong = print_longlong early_putchar"

definition early_print_ulong :: "u32 \<Rightarrow> terminal \<Rightarrow> (u32 \<times> terminal) kres" where
  "early_print_ulong = print_ulong early_putchar"

definition early_print_ulonglong :: "u64 \<Rightarrow> terminal \<Rightarrow> (u32 \<times> terminal) kres" where
  "early_print_ulonglong = print_ulonglong early_putchar"

definition early_print_hex :: "u32 \<Rightarrow> bool \<Rightarrow> u32 \<Rightarrow> terminal \<Rightarrow> (u32 \<times> terminal) kres" where
  "early_print_hex = print_hex early_putchar"

definition early_printf :: "mem \<Rightarrow> u32 \<Rightarrow> u32 list \<Rightarrow> terminal \<Rightarrow> (u32 \<times> terminal) kloop" where
  "early_printf = printf_with early_putchar"

section \<open>Numerals\<close>

text \<open>The numeral of a number, most significant digit first.\<close>

function numeral_of :: "nat \<Rightarrow> (nat \<Rightarrow> u8) \<Rightarrow> nat \<Rightarrow> u8 list" where
  "numeral_of b d n = (if n < b \<or> b < 2 then [d n] else numeral_of b d (n div b) @ [d (n mod b)])"
  by auto
termination by (relation "measure (\<lambda>(_, _, n). n)") auto

declare numeral_of.simps [simp del]

lemma numeral_of_small: "n < b \<Longrightarrow> numeral_of b d n = [d n]"
  by (simp add: numeral_of.simps)

lemma numeral_of_step: "b \<le> n \<Longrightarrow> 1 < b \<Longrightarrow> numeral_of b d n = numeral_of b d (n div b) @ [d (n mod b)]"
  by (simp add: numeral_of.simps [of b d n])

lemma numeral_of_nonempty [simp]: "numeral_of b d n \<noteq> []"
  by (simp add: numeral_of.simps)

lemma length_numeral_of: "n < b ^ k \<Longrightarrow> 1 < b \<Longrightarrow> 0 < k \<Longrightarrow> length (numeral_of b d n) \<le> k"
proof (induction b d n arbitrary: k rule: numeral_of.induct)
  case (1 b d n)
  show ?case
  proof (cases "n < b")
    case False
    with 1 obtain j where j: "k = Suc j" "0 < j" by (cases k) (auto, cases "k = 1", auto)
    have "n div b < b ^ j" using 1 j(1) by (simp add: less_mult_imp_div_less mult.commute)
    with 1 False j show ?thesis by (simp add: numeral_of_step)
  qed (use 1 in \<open>simp add: numeral_of_small\<close>)
qed

text \<open>Reading a numeral.\<close>

definition value_of :: "nat \<Rightarrow> (u8 \<Rightarrow> nat) \<Rightarrow> u8 list \<Rightarrow> nat" where
  "value_of b val cs = foldl (\<lambda>n c. n * b + val c) 0 cs"

lemma value_of_numeral_of:
  "1 < b \<Longrightarrow> (\<And>i. i < b \<Longrightarrow> val (d i) = i) \<Longrightarrow> value_of b val (numeral_of b d n) = n"
proof (induction b d n rule: numeral_of.induct)
  case (1 b d n)
  then show ?case
    by (cases "n < b") (simp_all add: numeral_of_small numeral_of_step value_of_def)
qed

lemma base_digits_eq:
  assumes "0 < v" "1 < b" "length ds + length (numeral_of b d v) \<le> 32"
  shows "base_digits b d v ds = Inr (ds @ rev (numeral_of b d v))"
  using assms
proof (induction b d v arbitrary: ds rule: numeral_of.induct)
  case (1 b d n)
  show ?case
  proof (cases "n < b")
    case True
    then show ?thesis using 1
      by (simp add: base_digits.simps [of b d n] base_digits.simps [of b d 0] put_digit_def numeral_of_small)
  next
    case False
    then have "0 < n div b" using 1 by (simp add: div_greater_zero_iff)
    with False 1 show ?thesis
      by (simp add: base_digits.simps [of b d n] put_digit_def numeral_of_step)
  qed
qed

lemma signed_digits_eq: "signed_digits v ds = base_digits 10 dec_digit (nat v) ds"
proof (induction v ds rule: signed_digits.induct)
  case (1 v ds)
  show ?case
  proof (cases "0 < v")
    case True
    then have "of_int (v mod 10) = (of_nat (nat v mod 10) :: u8)"
      by (metis int_nat_eq less_imp_le nat_mod_distrib of_int_of_nat_eq zmod_int of_nat_numeral nat_0_le)
    then have "dec_digit (nat v mod 10) = 48 + of_int (v mod 10)" by (simp add: dec_digit_def)
    with True 1 show ?thesis
      by (simp add: signed_digits.simps [of v] base_digits.simps [of 10 dec_digit "nat v"] put_digit_def nat_div_distrib)
  qed (simp add: signed_digits.simps [of v] base_digits.simps [of 10 dec_digit 0])
qed

lemma pad_digits_eq:
  "length ds \<le> 32 \<Longrightarrow> pad_digits k ds = (if k \<le> 32 then Inr (ds @ replicate (k - length ds) 48) else Inl BadAccess)"
proof (induction k ds rule: pad_digits.induct)
  case (1 k ds)
  consider "length ds < k" "length ds < 32" | "length ds < k" "\<not> length ds < 32" | "\<not> length ds < k" by blast
  then show ?case
  proof cases
    case 1
    then have "replicate (k - length ds) (48::u8) = 48 # replicate (k - Suc (length ds)) 48"
      by (metis Suc_diff_Suc replicate_Suc)
    with 1 "1.IH" show ?thesis by (simp add: pad_digits.simps [of k ds])
  next
    case 2
    then show ?thesis using "1.prems" by (simp add: pad_digits.simps [of k ds])
  next
    case 3
    then show ?thesis using "1.prems" by (auto simp: pad_digits.simps [of k ds])
  qed
qed

text \<open>The text of a signed number and of a padded hexadecimal number.\<close>

definition dec_text :: "int \<Rightarrow> u8 list" where
  "dec_text v = (if v < 0 then [45] else []) @ numeral_of 10 dec_digit (nat \<bar>v\<bar>)"

definition hex_text :: "bool \<Rightarrow> nat \<Rightarrow> nat \<Rightarrow> u8 list" where
  "hex_text uppercase k n =
     (let t = numeral_of 16 (hex_digit uppercase) n in replicate (k - length t) 48 @ t)"

section \<open>Strings in memory\<close>

primrec str_at :: "mem \<Rightarrow> u32 \<Rightarrow> u8 list \<Rightarrow> bool" where
  "str_at m f [] \<longleftrightarrow> m f = 0"
| "str_at m f (c # cs) \<longleftrightarrow> m f = c \<and> c \<noteq> 0 \<and> str_at m (f + 1) cs"

lemma str_at_append:
  "str_at m f (xs @ ys) \<Longrightarrow> bytes m f (length xs) = xs \<and> str_at m (f + of_nat (length xs)) ys"
  by (induction xs arbitrary: f) (auto simp: bytes_Suc simp flip: add.assoc)

lemma str_at_bytes: "str_at m f xs \<Longrightarrow> bytes m f (length xs) = xs"
  using str_at_append [of m f xs "[]"] by simp

lemma str_at_drop: "str_at m f (xs @ ys) \<Longrightarrow> str_at m (f + of_nat (length xs)) ys"
  using str_at_append by blast

lemma str_at_hd: "str_at m f cs \<Longrightarrow> m f = (case cs of [] \<Rightarrow> 0 | c # _ \<Rightarrow> c)"
  by (cases cs) auto

lemma strlen_loop_str: "str_at m (f + n) cs \<Longrightarrow> strlen_loop m f n = Some (n + of_nat (length cs))"
  by (induction cs arbitrary: n) (simp_all add: strlen_loop.simps [of m f] add.assoc)

lemma strlen_str: "str_at m f cs \<Longrightarrow> strlen m f = Some (of_nat (length cs))"
  using strlen_loop_str [of m f 0 cs] by (simp add: strlen_def)

lemma ucast_incr: "(ucast (n + 1 :: u64) :: u32) = ucast n + 1"
  by (simp add: word_unat_eq_iff unsigned_ucast_eq take_bit_eq_mod unat_word_ariths mod_mod_cancel mod_simps)

lemma amount_loop_str:
  assumes "str_at m (f + ucast n) (cs @ r)" "37 \<notin> set cs" "r = [] \<or> hd r = 37"
  shows "amount_loop m f n = Some (n + of_nat (length cs))"
  using assms(1,2)
proof (induction cs arbitrary: n)
  case Nil
  then show ?case using assms(3) by (cases r) (auto simp: amount_loop.simps [of m f n])
next
  case (Cons c cs)
  have "(ucast (n + 1) :: u32) = ucast n + 1" by (rule ucast_incr)
  with Cons show ?case by (simp add: amount_loop.simps [of m f n] add.assoc)
qed

definition is_digit :: "u8 \<Rightarrow> bool" where
  "is_digit c \<longleftrightarrow> 48 \<le> c \<and> c \<le> 57"

lemma width_loop_str:
  assumes "str_at m f (ds @ r)" "\<forall>d\<in>set ds. is_digit d" "r = [] \<or> \<not> is_digit (hd r)"
  shows "width_loop m f w = Some (f + of_nat (length ds), foldl (\<lambda>w c. w * 10 + (ucast c - 48)) w ds)"
  using assms(1,2)
proof (induction ds arbitrary: f w)
  case Nil
  then show ?case using assms(3) by (cases r) (auto simp: width_loop.simps [of m f] is_digit_def)
next
  case (Cons d ds)
  then show ?case by (simp add: width_loop.simps [of m f] is_digit_def add.assoc)
qed

lemma dec_digit_is_digit:
  assumes "i < 10"
  shows "is_digit (dec_digit i)" "ucast (dec_digit i) - (48::u32) = of_nat i"
proof -
  have "\<forall>i\<in>set [0..<10]. is_digit (dec_digit i) \<and> ucast (dec_digit i) - (48::u32) = of_nat i" by code_simp
  then show "is_digit (dec_digit i)" "ucast (dec_digit i) - (48::u32) = of_nat i" using assms by auto
qed

lemma numeral_digits: "\<forall>d\<in>set (numeral_of 10 dec_digit n). is_digit d"
proof (induction n rule: less_induct)
  case (less n)
  show ?case
    using less [of "n div 10"] by (cases "n < 10") (simp_all add: numeral_of_small numeral_of_step dec_digit_is_digit)
qed

lemma numeral_width:
  "foldl (\<lambda>w c. w * 10 + (ucast c - 48)) (0::u32) (numeral_of 10 dec_digit n) = of_nat n"
proof (induction n rule: less_induct)
  case (less n)
  show ?case
  proof (cases "n < 10")
    case False
    have "of_nat (n div 10) * 10 + of_nat (n mod 10) = (of_nat (n div 10 * 10 + n mod 10) :: u32)"
      by (simp only: of_nat_add of_nat_mult of_nat_numeral)
    also have "\<dots> = of_nat n" by (simp only: div_mult_mod_eq)
    finally have "of_nat (n div 10) * 10 + of_nat (n mod 10) = (of_nat n :: u32)" .
    then show ?thesis using False less [of "n div 10"] by (simp add: numeral_of_step dec_digit_is_digit)
  qed (simp add: numeral_of_small dec_digit_is_digit)
qed

section \<open>Formats as lists of items\<close>

text \<open>An item of a format string with its argument: plain text, \<^verbatim>\<open>%%\<close> and the text after it, and the
  conversions \<^verbatim>\<open>%c\<close>, \<^verbatim>\<open>%s\<close>, \<^verbatim>\<open>%d\<close>, \<^verbatim>\<open>%x\<close>, \<^verbatim>\<open>%0\<close> with a width and \<^verbatim>\<open>x\<close>, \<^verbatim>\<open>%ld\<close>, \<^verbatim>\<open>%lu\<close>, \<^verbatim>\<open>%lld\<close>, \<^verbatim>\<open>%llu\<close>, \<^verbatim>\<open>%llx\<close>; the
  Boolean is the case of the hexadecimal digits.\<close>

datatype item = Text "u8 list" | Percent "u8 list" | Conv_c u32 | Conv_s u32 "u8 list" | Conv_d u32
  | Conv_x bool u32 | Conv_0x bool nat u32 | Conv_ld u32 | Conv_lu u32 | Conv_lld u64 | Conv_llu u64
  | Conv_llx bool u64

definition x_char :: "bool \<Rightarrow> u8" where
  "x_char uppercase = (if uppercase then 88 else 120)"

definition words64 :: "u64 \<Rightarrow> u32 list" where
  "words64 v = [ucast v, ucast (drop_bit 32 v)]"

fun item_format :: "item \<Rightarrow> u8 list" where
  "item_format (Text t) = t"
| "item_format (Percent t) = 37 # 37 # t"
| "item_format (Conv_c _) = [37, 99]"
| "item_format (Conv_s _ _) = [37, 115]"
| "item_format (Conv_d _) = [37, 100]"
| "item_format (Conv_x u _) = [37, x_char u]"
| "item_format (Conv_0x u k _) = 37 # 48 # numeral_of 10 dec_digit k @ [x_char u]"
| "item_format (Conv_ld _) = [37, 108, 100]"
| "item_format (Conv_lu _) = [37, 108, 117]"
| "item_format (Conv_lld _) = [37, 108, 108, 100]"
| "item_format (Conv_llu _) = [37, 108, 108, 117]"
| "item_format (Conv_llx u _) = [37, 108, 108, x_char u]"

fun item_args :: "item \<Rightarrow> u32 list" where
  "item_args (Text _) = []"
| "item_args (Percent _) = []"
| "item_args (Conv_c c) = [c]"
| "item_args (Conv_s p _) = [p]"
| "item_args (Conv_d v) = [v]"
| "item_args (Conv_x _ v) = [v]"
| "item_args (Conv_0x _ _ v) = [v]"
| "item_args (Conv_ld v) = [v]"
| "item_args (Conv_lu v) = [v]"
| "item_args (Conv_lld v) = words64 v"
| "item_args (Conv_llu v) = words64 v"
| "item_args (Conv_llx _ v) = words64 v"

fun item_out :: "item \<Rightarrow> u8 list" where
  "item_out (Text t) = t"
| "item_out (Percent t) = 37 # t"
| "item_out (Conv_c c) = [ucast c]"
| "item_out (Conv_s _ t) = t"
| "item_out (Conv_d v) = dec_text (sint v)"
| "item_out (Conv_x u v) = hex_text u 0 (unat v)"
| "item_out (Conv_0x u k v) = hex_text u k (unat v)"
| "item_out (Conv_ld v) = dec_text (sint v)"
| "item_out (Conv_lu v) = dec_text (uint v)"
| "item_out (Conv_lld v) = dec_text (sint v)"
| "item_out (Conv_llu v) = dec_text (uint v)"
| "item_out (Conv_llx u v) = hex_text u 0 (unat v)"

text \<open>Text has no percent sign, a string argument is in memory, a width fits the array of digits and
  a signed number is not the smallest of its type.\<close>

fun item_ok :: "mem \<Rightarrow> item \<Rightarrow> bool" where
  "item_ok m (Text t) \<longleftrightarrow> t \<noteq> [] \<and> 37 \<notin> set t"
| "item_ok m (Percent t) \<longleftrightarrow> 37 \<notin> set t"
| "item_ok m (Conv_s p t) \<longleftrightarrow> str_at m p t"
| "item_ok m (Conv_d v) \<longleftrightarrow> sint v \<noteq> - (2 ^ 31)"
| "item_ok m (Conv_0x u k v) \<longleftrightarrow> k \<le> 32"
| "item_ok m (Conv_ld v) \<longleftrightarrow> sint v \<noteq> - (2 ^ 31)"
| "item_ok m (Conv_lld v) \<longleftrightarrow> sint v \<noteq> - (2 ^ 63)"
| "item_ok m _ \<longleftrightarrow> True"

definition is_text :: "item \<Rightarrow> bool" where
  "is_text i = (case i of Text _ \<Rightarrow> True | _ \<Rightarrow> False)"

definition ends_in_text :: "item \<Rightarrow> bool" where
  "ends_in_text i = (case i of Text _ \<Rightarrow> True | Percent _ \<Rightarrow> True | _ \<Rightarrow> False)"

text \<open>A text item reaches up to the next percent sign.\<close>

fun items_ok :: "mem \<Rightarrow> item list \<Rightarrow> bool" where
  "items_ok m [] \<longleftrightarrow> True"
| "items_ok m (i # is) \<longleftrightarrow> item_ok m i \<and> items_ok m is \<and> (is \<noteq> [] \<and> is_text (hd is) \<longrightarrow> \<not> ends_in_text i)"

definition format_of :: "item list \<Rightarrow> u8 list" where
  "format_of is = concat (map item_format is)"

definition args_of :: "item list \<Rightarrow> u32 list" where
  "args_of is = concat (map item_args is)"

definition out_of :: "item list \<Rightarrow> u8 list" where
  "out_of is = concat (map item_out is)"

section \<open>Output through a console\<close>

text \<open>
  What the routines need of the function that puts a character: it returns its argument and
  appends one character to the output, where \<open>emit\<close> is writing a list of characters.
\<close>

locale console =
  fixes pc :: "'s putc" and emit :: "u8 list \<Rightarrow> 's \<Rightarrow> 's"
  assumes put_result: "fst (pc ic s) = ic"
    and put_effect: "snd (pc ic s) = emit [ucast ic] s"
    and emit_nil: "emit [] s = s"
    and emit_append: "emit (xs @ ys) s = emit ys (emit xs s)"
begin

lemma put_eq: "pc ic s = (ic, emit [ucast ic] s)"
  by (metis put_result put_effect prod.collapse)

lemma emit_emit: "emit ys (emit xs s) = emit (xs @ ys) s"
  by (simp add: emit_append)

lemma char_not_EOF: "(ucast (b :: u8) :: u32) \<noteq> EOF"
proof
  assume "(ucast b :: u32) = EOF"
  then have "unat (ucast b :: u32) = unat EOF" by simp
  moreover have "EOF = 0xFFFFFFFF" by (simp add: EOF_def)
  then have "unat EOF = unat (0xFFFFFFFF :: u32)" by (rule arg_cong)
  ultimately show False using unat_u8_lt [of b] by (simp add: unsigned_ucast_eq take_bit_eq_mod)
qed

lemma char_cast [simp]: "ucast (ucast (b :: u8) :: u32) = b"
  by (rule bit_eqI) (auto simp: bit_simps)

lemma print_eq: "print pc bs s = (True, emit bs s)"
  unfolding print_def
  by (induction bs arbitrary: s) (simp_all add: put_eq char_not_EOF emit_nil emit_emit)

lemma put_reverse_eq: "put_reverse pc ds count s = (count + of_nat (length ds), emit ds s)"
  by (induction ds arbitrary: s count)
    (simp_all add: put_eq char_not_EOF emit_nil emit_emit add_ac)

lemma put_unchecked_eq: "put_unchecked pc ds count s = (count + of_nat (length ds), emit ds s)"
  by (induction ds arbitrary: s count) (simp_all add: put_eq emit_nil emit_emit add_ac)

lemma print_unsigned_eq:
  assumes "v < 10 ^ 32"
  shows "print_unsigned pc v s =
    Inr (of_nat (length (numeral_of 10 dec_digit v)), emit (numeral_of 10 dec_digit v) s)"
proof (cases "v = 0")
  case True
  then show ?thesis by (simp add: print_unsigned_def put_eq numeral_of_small dec_digit_def)
next
  case False
  then show ?thesis
    using length_numeral_of [of v 10 32 dec_digit] assms
    by (simp add: print_unsigned_def base_digits_eq put_reverse_eq)
qed

lemma print_signed_eq:
  assumes "\<bar>v\<bar> < 2 ^ (w - 1)" "w \<le> 64"
  shows "print_signed w pc v s = Inr (of_nat (length (dec_text v)), emit (dec_text v) s)"
proof (cases "v = 0")
  case True
  then show ?thesis by (simp add: print_signed_def put_eq dec_text_def numeral_of_small dec_digit_def)
next
  case False
  have "(2::int) ^ (w - 1) \<le> 2 ^ 63" using assms(2) by (intro power_increasing) auto
  then have "nat \<bar>v\<bar> < 10 ^ 32" using assms(1) by simp
  then have len: "length (numeral_of 10 dec_digit (nat \<bar>v\<bar>)) \<le> 32" by (intro length_numeral_of) auto
  have neg: "signed_take_bit (w - 1) (- v) = - v"
    using assms(1) by (intro signed_take_bit_int_eq_self) auto
  have "signed_digits \<bar>v\<bar> [] = Inr (rev (numeral_of 10 dec_digit (nat \<bar>v\<bar>)))"
    using False len by (simp add: signed_digits_eq base_digits_eq)
  then show ?thesis
    using False by (auto simp: print_signed_def neg [unfolded One_nat_def] put_eq put_reverse_eq dec_text_def emit_emit)
qed

lemma sint_in_range: "sint (v :: u32) \<noteq> - (2 ^ 31) \<Longrightarrow> \<bar>sint v\<bar> < 2 ^ (32 - 1)"
  "sint (w :: u64) \<noteq> - (2 ^ 63) \<Longrightarrow> \<bar>sint w\<bar> < 2 ^ (64 - 1)"
  using sint_ge [of v] sint_lt [of v] sint_ge [of w] sint_lt [of w] by (auto simp: abs_less_iff)

lemma print_int_eq: "sint v \<noteq> - (2 ^ 31) \<Longrightarrow>
    print_int pc v s = Inr (of_nat (length (dec_text (sint v))), emit (dec_text (sint v)) s)"
  unfolding print_int_def by (rule print_signed_eq) (use sint_in_range in auto)

lemma print_longlong_eq: "sint v \<noteq> - (2 ^ 63) \<Longrightarrow>
    print_longlong pc v s = Inr (of_nat (length (dec_text (sint v))), emit (dec_text (sint v)) s)"
  unfolding print_longlong_def by (rule print_signed_eq) (use sint_in_range in auto)

lemma print_ulong_eq:
  "print_ulong pc v s = Inr (of_nat (length (dec_text (uint v))), emit (dec_text (uint v)) s)"
  unfolding print_ulong_def
  by (subst print_unsigned_eq [OF order.strict_trans [OF unat_u32_lt]]) (simp_all add: dec_text_def unat_eq_nat_uint [symmetric])

lemma print_ulonglong_eq:
  "print_ulonglong pc v s = Inr (of_nat (length (dec_text (uint v))), emit (dec_text (uint v)) s)"
  unfolding print_ulonglong_def
  by (subst print_unsigned_eq [OF order.strict_trans [OF unat_u64_lt]]) (simp_all add: dec_text_def unat_eq_nat_uint [symmetric])

lemma arg64_words: "arg64 (words64 v @ args) = lret (v, args)"
proof -
  have "ucast (ucast v :: u32) OR push_bit 32 (ucast (ucast (drop_bit 32 v) :: u32)) = v"
    by (rule bit_eqI) (auto simp: bit_simps)
  then show ?thesis by (simp add: arg64_def words64_def)
qed

lemma print_hex_eq:
  assumes "k \<le> 32"
  shows "print_hex pc v u k s =
    Inr (of_nat (length (hex_text u (unat k) (unat v))), emit (hex_text u (unat k) (unat v)) s)"
proof -
  let ?t = "numeral_of 16 (hex_digit u) (unat v)"
  have len: "length ?t \<le> 8" using unat_u32_lt [of v] by (intro length_numeral_of) auto
  have k: "unat k \<le> 32" using assms by (simp add: word_le_nat_alt)
  have "(if v = 0 then put_digit [] 48 else base_digits 16 (hex_digit u) (unat v) []) = Inr (rev ?t)"
    using len by (simp add: put_digit_def base_digits_eq numeral_of_small hex_digit_def unat_gt_0)
  then show ?thesis using len k
    by (simp add: print_hex_def pad_digits_eq put_reverse_eq hex_text_def Let_def)
qed

lemma print_hex_overruns: "32 < k \<Longrightarrow> print_hex pc v u k s = Inl BadAccess"
proof -
  assume "32 < k"
  then have k: "\<not> unat k \<le> 32" by (simp add: word_less_nat_alt)
  have "length (numeral_of 16 (hex_digit u) (unat v)) \<le> 8" using unat_u32_lt [of v] by (intro length_numeral_of) auto
  then show ?thesis using k
    by (auto simp add: print_hex_def put_digit_def base_digits_eq unat_gt_0 pad_digits_eq)
qed

lemma print_llx_eq:
  "print_llx pc v u written s =
    Inr (written + of_nat (length (hex_text u 0 (unat v))), emit (hex_text u 0 (unat v)) s)"
proof -
  have "length (numeral_of 16 (hex_digit u) (unat v)) \<le> 16" using unat_u64_lt [of v] by (intro length_numeral_of) auto
  then show ?thesis
    by (simp add: print_llx_def put_eq put_unchecked_eq base_digits_eq unat_gt_0 hex_text_def Let_def numeral_of_small hex_digit_def)
qed

text \<open>The number of characters that can still be written.\<close>

lemma sint_small: "unat (x :: u32) < 2 ^ 31 \<Longrightarrow> sint x = int (unat x)"
proof -
  assume "unat x < 2 ^ 31"
  then have "int (unat x) < int (2 ^ 31)" by (simp only: of_nat_less_iff)
  then have "uint x < 2 ^ 31" by simp
  moreover have "- (2 ^ 31) \<le> uint x" by (rule order_trans [of _ 0]) simp_all
  ultimately have "sint x = uint x" unfolding sint_uint by (intro signed_take_bit_int_eq_self) simp_all
  then show ?thesis by simp
qed

lemma maxrem_eq: "n < 2 ^ 31 \<Longrightarrow> unat (maxrem (of_nat n)) = 2 ^ 31 - 1 - n"
proof -
  assume n: "n < 2 ^ 31"
  have "unat (0x7FFFFFFF - of_nat n :: u32) = 2 ^ 31 - 1 - n"
    using n by (subst unat_sub) (simp_all add: word_le_nat_alt unat_of_nat)
  moreover have "scast x = (of_nat (unat x) :: u64)" if "unat (x :: u32) < 2 ^ 31" for x
    using that by (simp add: scast_eq sint_small)
  ultimately show ?thesis by (simp add: maxrem_def unat_of_nat)
qed

lemma add_count_eq:
  "length out < 2 ^ 31 \<Longrightarrow> add_count f args (of_nat n) (Inr (of_nat (length out), s)) =
     lret (PNext f args (of_nat (n + length out)) s)"
proof -
  assume "length out < 2 ^ 31"
  then have "(of_nat (length out) :: u32) \<noteq> 0xFFFFFFFF"
    using of_nat_u32_inj [of "length out" 4294967295] by simp
  moreover have "(0xFFFFFFFF :: u32) = - 1" by simp
  ultimately show ?thesis by (simp only: add_count_def) simp
qed

text \<open>One round of the loop handles one item.\<close>

lemma plain_round:
  assumes "str_at m f (t @ r)" "t \<noteq> []" "37 \<notin> set (tl t)" "r = [] \<or> hd r = 37" "n + length t < 2 ^ 31"
    "m f0 = 37 \<Longrightarrow> f = f0 + 1" "m f0 \<noteq> 37 \<Longrightarrow> f = f0"
  shows "printf_plain pc m f0 args (of_nat n) s = lret (PNext (f + of_nat (length t)) args (of_nat (n + length t)) (emit t s))"
proof -
  obtain c t' where t: "t = c # t'" using assms(2) by (cases t) auto
  have "amount_loop m f 1 = Some (1 + of_nat (length t'))"
    using assms(1,3,4) by (intro amount_loop_str [where r = r]) (simp_all add: t)
  then have amount: "amount_loop m f 1 = Some (of_nat (length t))" by (simp add: t)
  have len: "unat (of_nat (length t) :: u64) = length t" using assms(5) by (simp add: unat_of_nat)
  have cast: "(ucast (of_nat (length t) :: u64) :: u32) = of_nat (length t)"
    using assms(5) by (simp add: word_unat_eq_iff unsigned_ucast_eq take_bit_eq_mod unat_of_nat)
  have len32: "unat (of_nat (length t) :: u32) = length t" using assms(5) by (simp add: unat_of_nat)
  have rem: "\<not> maxrem (of_nat n) < of_nat (length t)"
    using assms(5) maxrem_eq [of n] len by (simp add: word_less_nat_alt)
  have f: "(if m f0 = 37 then f0 + 1 else f0) = f" using assms(6,7) by auto
  have "bytes m f (length t) = t" using str_at_append [OF assms(1)] by simp
  then show ?thesis
    unfolding printf_plain_def f
    by (simp add: amount rem cast len32 print_eq)
qed

lemma item_round:
  assumes "str_at m f (item_format i @ r)" "item_ok m i" "ends_in_text i \<Longrightarrow> r = [] \<or> hd r = 37"
    and n: "n + length (item_out i) < 2 ^ 31"
  shows "printf_round pc m f (item_args i @ args) (of_nat n) s =
     lret (PNext (f + of_nat (length (item_format i))) args (of_nat (n + length (item_out i))) (emit (item_out i) s))"
proof (cases i)
  case (Text t)
  have "m f \<noteq> 37" "37 \<notin> set (tl t)" "t \<noteq> []"
    using assms(1,2) by (cases t; auto simp: Text)+
  then show ?thesis
    using plain_round [of m f t r n f] assms by (simp add: Text printf_round_def ends_in_text_def)
next
  case (Percent t)
  have "m f = 37" "m (f + 1) = 37" using assms(1) by (simp_all add: Percent)
  then show ?thesis
    using plain_round [of m "f + 1" "37 # t" r n f] assms
    by (simp add: Percent printf_round_def ends_in_text_def add_ac)
next
  case (Conv_c c)
  have "maxrem (of_nat n) \<noteq> 0" using maxrem_eq [of n] n by (auto simp: Conv_c)
  moreover have "m f = 37" "m (f + 1) = 99" using assms(1) by (simp_all add: Conv_c)
  ultimately show ?thesis
    by (simp add: Conv_c printf_round_def printf_c_def arg32_def print_eq add.assoc)
next
  case (Conv_s p t)
  have len: "strlen m p = Some (of_nat (length t))" "bytes m p (length t) = t"
    using assms(2) by (simp_all add: Conv_s strlen_str str_at_bytes)
  have u: "unat (of_nat (length t) :: u32) = length t" using n by (simp add: Conv_s unat_of_nat)
  have rem: "\<not> maxrem (of_nat n) < ucast (of_nat (length t) :: u32)"
    using n maxrem_eq [of n] u by (simp add: Conv_s word_less_nat_alt)
  have "m f = 37" "m (f + 1) = 115" using assms(1) by (simp_all add: Conv_s)
  then show ?thesis
    by (simp add: Conv_s printf_round_def printf_s_def arg32_def print_eq len u rem add.assoc)
next
  case (Conv_d v)
  have "m f = 37" "m (f + 1) = 100" using assms(1) by (simp_all add: Conv_d)
  then show ?thesis
    using assms(2) n by (simp add: Conv_d printf_round_def arg32_def print_int_eq add_count_eq add.assoc)
next
  case (Conv_x u v)
  have "m f = 37" "m (f + 1) = x_char u" using assms(1) by (simp_all add: Conv_x)
  then show ?thesis
    using n by (cases u) (simp_all add: Conv_x printf_round_def arg32_def print_hex_eq add_count_eq x_char_def add.assoc)
next
  case (Conv_0x u k v)
  let ?ds = "numeral_of 10 dec_digit k"
  have "str_at m (f + 2) (?ds @ x_char u # r)" using assms(1) by (simp add: Conv_0x add.assoc)
  then have w: "width_loop m (f + 2) 0 = Some (f + 2 + of_nat (length ?ds), of_nat k)"
    and x: "m (f + 2 + of_nat (length ?ds)) = x_char u"
    using width_loop_str [of m "f + 2" ?ds "x_char u # r"] numeral_digits numeral_width
    by (auto simp: is_digit_def x_char_def dest: str_at_drop)
  have k: "unat (of_nat k :: u32) = k" "(of_nat k :: u32) \<le> 32"
    using assms(2) by (simp_all add: Conv_0x word_le_nat_alt unat_of_nat)
  have "m f = 37" "m (f + 1) = 48" using assms(1) by (simp_all add: Conv_0x)
  then show ?thesis
    using n w x k print_hex_eq [OF k(2), of v]
    by (cases u) (simp_all add: Conv_0x printf_round_def printf_zero_def arg32_def add_count_eq x_char_def add.assoc)
next
  case (Conv_ld v)
  have "m f = 37" "m (f + 1) = 108" "m (f + 2) = 100" using assms(1) by (simp_all add: Conv_ld add.assoc)
  then show ?thesis
    using assms(2) n print_int_eq [of v s]
    by (simp add: Conv_ld printf_round_def printf_l_def print_long_def print_int_def arg32_def add_count_eq add.assoc)
next
  case (Conv_lu v)
  have "m f = 37" "m (f + 1) = 108" "m (f + 2) = 117" using assms(1) by (simp_all add: Conv_lu add.assoc)
  then show ?thesis
    using n by (simp add: Conv_lu printf_round_def printf_l_def arg32_def print_ulong_eq add_count_eq add.assoc)
next
  case (Conv_lld v)
  have "m f = 37" "m (f + 1) = 108" "m (f + 2) = 108" "m (f + 3) = 100"
    using assms(1) by (simp_all add: Conv_lld add.assoc)
  then show ?thesis
    using assms(2) n
    by (simp add: Conv_lld printf_round_def printf_l_def printf_ll_def arg64_words print_longlong_eq add_count_eq add.assoc)
next
  case (Conv_llu v)
  have "m f = 37" "m (f + 1) = 108" "m (f + 2) = 108" "m (f + 3) = 117"
    using assms(1) by (simp_all add: Conv_llu add.assoc)
  then show ?thesis
    using n
    by (simp add: Conv_llu printf_round_def printf_l_def printf_ll_def arg64_words print_ulonglong_eq add_count_eq add.assoc)
next
  case (Conv_llx u v)
  have "m f = 37" "m (f + 1) = 108" "m (f + 2) = 108" "m (f + 3) = x_char u"
    using assms(1) by (simp_all add: Conv_llx add.assoc)
  then show ?thesis
    by (cases u) (simp_all add: Conv_llx printf_round_def printf_l_def printf_ll_def arg64_words print_llx_eq x_char_def add.assoc)
qed

lemma item_format_nonempty: "item_ok m i \<Longrightarrow> item_format i \<noteq> []"
  by (cases i) auto

lemma format_rest:
  "items_ok m (i # is) \<Longrightarrow> ends_in_text i \<Longrightarrow> rest = [] \<or> hd rest = 37 \<Longrightarrow>
    format_of is @ rest = [] \<or> hd (format_of is @ rest) = 37"
proof (cases "is")
  case (Cons j js)
  moreover assume "items_ok m (i # is)" "ends_in_text i"
  ultimately have "\<not> is_text j" by simp
  then show ?thesis by (cases j) (simp_all add: Cons format_of_def is_text_def)
qed (simp add: format_of_def)

lemma printf_items_then:
  assumes "items_ok m is" "str_at m f (format_of is @ rest)" "rest = [] \<or> hd rest = 37" "n + length (out_of is) < 2 ^ 31"
  shows "printf_loop pc m f (args_of is @ args) (of_nat n) s =
    printf_loop pc m (f + of_nat (length (format_of is))) args (of_nat (n + length (out_of is))) (emit (out_of is) s)"
  using assms
proof (induction "is" arbitrary: f n s)
  case Nil
  then show ?case by (simp add: format_of_def args_of_def out_of_def emit_nil)
next
  case (Cons i "is")
  have ok: "item_ok m i" "items_ok m is" using Cons.prems(1) by auto
  have str: "str_at m f (item_format i @ format_of is @ rest)" using Cons.prems(2) by (simp add: format_of_def)
  have nz: "m f \<noteq> 0" using str item_format_nonempty [OF ok(1)] by (cases "item_format i") auto
  have len: "n + length (item_out i) + length (out_of is) < 2 ^ 31" using Cons.prems(4) by (simp add: out_of_def)
  have step: "printf_round pc m f (item_args i @ args_of is @ args) (of_nat n) s =
      lret (PNext (f + of_nat (length (item_format i))) (args_of is @ args) (of_nat (n + length (item_out i))) (emit (item_out i) s))"
    using item_round [OF str ok(1) format_rest [OF Cons.prems(1) _ Cons.prems(3)]] len by simp
  note Cons.IH [OF ok(2) str_at_drop [OF str] Cons.prems(3) len, of "emit (item_out i) s"]
  then show ?case
    using nz step
    by (simp add: printf_loop.simps [of _ m f] args_of_def out_of_def format_of_def emit_emit add.assoc)
qed

lemma printf_items:
  assumes "items_ok m is" "str_at m f (format_of is)" "length (out_of is) < 2 ^ 31"
  shows "printf_with pc m f (args_of is @ args) s = lret (of_nat (length (out_of is)), emit (out_of is) s)"
proof -
  have "m (f + of_nat (length (format_of is))) = 0" using str_at_drop [of m f "format_of is" "[]"] assms(2) by simp
  then show ?thesis
    using printf_items_then [of m "is" f "[]" 0 args s] assms
    by (simp add: printf_with_def printf_loop.simps [of _ m "f + of_nat (length (format_of is))"])
qed

text \<open>A percent sign before a character that is no conversion ends the formatting.\<close>

lemma unknown_rest:
  assumes w: "w = 37 # c # cs" and str: "str_at m f w" and c: "c \<notin> {37, 99, 115, 100, 120, 88, 48, 108}"
    and n: "n + length w < 2 ^ 31"
  shows "printf_loop pc m f args (of_nat n) s = lret (of_nat (n + length w), emit w s)"
proof -
  have ch: "m f = 37" "m (f + 1) = c" using str by (simp_all add: w)
  have u: "unat (of_nat (length w) :: u32) = length w" using n by (simp add: unat_of_nat)
  have rem: "\<not> maxrem (of_nat n) < ucast (of_nat (length w) :: u32)"
    using n maxrem_eq [of n] u by (simp add: word_less_nat_alt)
  have last: "m (f + of_nat (length w)) = 0" using str_at_drop [of m f w "[]"] str by simp
  have "printf_round pc m f args (of_nat n) s =
      lret (PNext (f + of_nat (length w)) args (of_nat n + of_nat (length w)) (emit w s))"
    using ch c by (simp add: printf_round_def printf_unknown_def print_eq strlen_str [OF str] rem u str_at_bytes [OF str])
  then show ?thesis
    using ch last by (simp add: printf_loop.simps [of _ m f] printf_loop.simps [of _ m "f + of_nat (length w)"])
qed

lemma printf_unknown_rest:
  assumes "items_ok m is" "str_at m f (format_of is @ w)" "w = 37 # c # cs"
    "c \<notin> {37, 99, 115, 100, 120, 88, 48, 108}" "length (out_of is) + length w < 2 ^ 31"
  shows "printf_with pc m f (args_of is @ args) s = lret (of_nat (length (out_of is) + length w), emit (out_of is @ w) s)"
  using printf_items_then [of m "is" f w 0 args s] assms
    unknown_rest [OF assms(3) str_at_drop [OF assms(2)] assms(4,5), of args "emit (out_of is) s"]
  by (simp add: printf_with_def emit_emit)

end

interpretation tty: console putchar terminal_write
  by unfold_locales (simp_all add: putchar_def terminal_write_def)

interpretation early_tty: console early_putchar terminal_write
  by unfold_locales (simp_all add: early_putchar_def terminal_write_def)

section \<open>Properties\<close>

text \<open>C6. A format string made of any sequence of text, \<^verbatim>\<open>%%\<close> and conversions (\<^verbatim>\<open>%c\<close>, \<^verbatim>\<open>%s\<close>, \<^verbatim>\<open>%d\<close>, \<^verbatim>\<open>%x\<close>, \<^verbatim>\<open>%X\<close>,
  \<^verbatim>\<open>%0\<close> with a width of at most 32, \<^verbatim>\<open>%ld\<close>, \<^verbatim>\<open>%lu\<close>, \<^verbatim>\<open>%lld\<close>, \<^verbatim>\<open>%llu\<close>, \<^verbatim>\<open>%llx\<close>) makes \<^verbatim>\<open>printf\<close> terminate, write
  exactly the texts of the items one after the other and return their length, whatever
  other arguments follow.
\<close>

theorem printf_prints_items:
  assumes "items_ok m is" "str_at m format (format_of is)" "length (out_of is) < 2 ^ 31"
  shows "printf m format (args_of is @ args) t =
    lret (of_nat (length (out_of is)), terminal_write (out_of is) t)"
  unfolding printf_def by (rule tty.printf_items [OF assms])

text \<open>The format \<^verbatim>\<open>"A:%d %08x\n"\<close> at address 16 with the arguments -7 and 0xBEEF.\<close>

definition format_mem :: mem where
  "format_mem a = (if 16 \<le> a \<and> a < 27 then [65, 58, 37, 100, 32, 37, 48, 56, 120, 10, 0] ! unat (a - 16) else 0)"

theorem printf_prints_items_witness:
  "\<forall>t. printf format_mem 16 [- 7, 0xBEEF] t =
    lret (14, terminal_write [65, 58, 45, 55, 32, 48, 48, 48, 48, 98, 101, 101, 102, 10] t)"
proof
  fix t
  let ?is = "[Text [65, 58], Conv_d (- 7), Text [32], Conv_0x False 8 0xBEEF, Text [10]]"
  have "sint (- 7 :: u32) = - 7" by simp
  moreover have four: "replicate 4 x = [x, x, x, x]" for x :: u8 by (simp add: numeral_eq_Suc)
  ultimately have out: "out_of ?is = [65, 58, 45, 55, 32, 48, 48, 48, 48, 98, 101, 101, 102, 10]"
    and ok: "items_ok format_mem ?is"
    by (simp_all add: out_of_def dec_text_def hex_text_def Let_def numeral_of_step numeral_of_small dec_digit_def
        hex_digit_def is_text_def ends_in_text_def four)
  have "str_at format_mem 16 (format_of ?is)"
    by (simp add: format_of_def format_mem_def numeral_of_small dec_digit_def x_char_def)
  moreover have "args_of ?is @ [] = [- 7, 0xBEEF]" by (simp add: args_of_def)
  ultimately show "printf format_mem 16 [- 7, 0xBEEF] t =
      lret (14, terminal_write [65, 58, 45, 55, 32, 48, 48, 48, 48, 98, 101, 101, 102, 10] t)"
    using printf_prints_items [of format_mem ?is 16 "[]" t] ok by (simp add: out)
qed

text \<open>The number that a decimal text denotes.\<close>

definition read_dec :: "u8 list \<Rightarrow> int" where
  "read_dec cs = (let val = value_of 10 (\<lambda>c. unat (c - 48)) in
     case cs of [] \<Rightarrow> 0 | c # cs' \<Rightarrow> if c = 45 then - int (val cs') else int (val cs))"

lemma dec_digit_value: "i < 10 \<Longrightarrow> unat (dec_digit i - 48) = i"
  by (simp add: dec_digit_def unat_of_nat)

lemma length_dec_text: "length (numeral_of 10 dec_digit (nat \<bar>v\<bar>)) \<le> k \<Longrightarrow> length (dec_text v) \<le> Suc k"
  by (auto simp: dec_text_def)

lemma read_dec_text: "read_dec (dec_text v) = v"
proof -
  let ?t = "numeral_of 10 dec_digit (nat \<bar>v\<bar>)"
  have val: "value_of 10 (\<lambda>c. unat (c - 48)) ?t = nat \<bar>v\<bar>"
    by (rule value_of_numeral_of) (simp_all add: dec_digit_value)
  have "is_digit (hd ?t)" using numeral_digits hd_in_set numeral_of_nonempty by blast
  then have "hd ?t \<noteq> 45" by (auto simp: is_digit_def)
  then obtain c cs where t: "?t = c # cs" "c \<noteq> 45" by (cases ?t) auto
  show ?thesis using val t by (auto simp: read_dec_def dec_text_def)
qed

text \<open>\<^verbatim>\<open>print_int\<close> writes a text from which the value can be read back, at most eleven characters
  long, and returns its length, for every value but the smallest one; for that one it writes
  a minus sign and no digits.
\<close>

theorem print_int_roundtrip:
  "\<exists>txt. print_int putchar v t = Inr (of_nat (length txt), terminal_write txt t) \<and> length txt \<le> 11 \<and>
     (if sint v = - (2 ^ 31) then txt = [45] else read_dec txt = sint v)"
proof (cases "sint v = - (2 ^ 31)")
  case True
  have "signed_take_bit 31 (2147483648 :: int) = - 2147483648" by code_simp
  with True show ?thesis
    by (intro exI [of _ "[45]"])
      (simp add: print_int_def print_signed_def tty.put_eq signed_digits.simps [of "- 2147483648"])
next
  case False
  have "nat \<bar>sint v\<bar> < 10 ^ 10" using tty.sint_in_range(1) [OF False] by simp
  then have "length (numeral_of 10 dec_digit (nat \<bar>sint v\<bar>)) \<le> 10" by (intro length_numeral_of) auto
  then have "length (dec_text (sint v)) \<le> 11" using length_dec_text [of "sint v" 10] by simp
  with False show ?thesis by (intro exI [of _ "dec_text (sint v)"]) (simp add: tty.print_int_eq read_dec_text)
qed

text \<open>A width of more than 32 makes \<^verbatim>\<open>%0\<close>..\<^verbatim>\<open>x\<close> write behind the 32 digits that \<^verbatim>\<open>print_hex\<close> has room for,
  whatever the number is; up to 32 the text has exactly the wanted width or the number's own.
\<close>

theorem print_hex_width:
  "print_hex putchar v uppercase k t =
     (if k \<le> 32 then Inr (of_nat (length (hex_text uppercase (unat k) (unat v))),
                         terminal_write (hex_text uppercase (unat k) (unat v)) t)
      else Inl BadAccess)"
  using tty.print_hex_eq [of k v uppercase t] tty.print_hex_overruns [of k v uppercase t] by (simp add: not_le)

text \<open>At a percent sign before a character that is no conversion (such as the \<^verbatim>\<open>%u\<close> of the early
  interrupt handler) the rest of the format string is written as it is and the remaining arguments are ignored.
\<close>

theorem early_printf_unknown_conversion:
  assumes "items_ok m is" "str_at m format (format_of is @ w)" "w = 37 # c # cs"
    "c \<notin> {37, 99, 115, 100, 120, 88, 48, 108}" "length (out_of is) + length w < 2 ^ 31"
  shows "early_printf m format (args_of is @ args) t =
    lret (of_nat (length (out_of is) + length w), terminal_write (out_of is @ w) t)"
  unfolding early_printf_def by (rule early_tty.printf_unknown_rest [OF assms])

text \<open>The format \<^verbatim>\<open>"%u"\<close> of \<^verbatim>\<open>early_idt_c_handler\<close>.\<close>

theorem early_printf_unknown_conversion_witness:
  "\<forall>t. early_printf ((\<lambda>_. 0)(16 := 37, 17 := 117)) 16 [13] t = lret (2, terminal_write [37, 117] t)"
  using early_printf_unknown_conversion [of "(\<lambda>_. 0)(16 := 37, 17 := 117)" "[]" 16 "[37, 117]" 117 "[]" "[13]"]
  by (simp add: format_of_def args_of_def out_of_def)

end
