(* ===== verification/Spinlock.thy ===== *)
theory Spinlock
  imports Kernel_Prelude
begin

text \<open>
  Interrupt flags and the spinlock: \<^verbatim>\<open>irq_save\<close>, \<^verbatim>\<open>irq_restore\<close>, \<^verbatim>\<open>irq_enable\<close>, \<^verbatim>\<open>irq_disable\<close> and
  \<^verbatim>\<open>irq_is_enabled\<close> of \<^verbatim>\<open>kernel/arch/i386/interrupts/irq.c\<close>, and
  \<^verbatim>\<open>kernel/services/threads/locks/spinlock.c\<close>.

  The operations are given twice. On one processor that nobody interferes with they are
  functions on the lock and the flags register. For several processors they are a step
  relation: one step per access to the shared lock, interleaved in any order, with sequentially
  consistent memory. Saving and restoring the flags of a processor is one step, because an
  interrupt handler leaves the flags of the code it interrupts alone.
\<close>

section \<open>The flags register\<close>

definition IF_BIT :: u32 where "IF_BIT = 0x200"

text \<open>The result and the new register.\<close>

definition irq_save :: "u32 \<Rightarrow> u32 \<times> u32" where
  "irq_save eflags = (eflags, eflags AND NOT IF_BIT)"

definition irq_restore :: "u32 \<Rightarrow> u32 \<Rightarrow> u32" where
  "irq_restore flags eflags = flags"

definition irq_enable :: "u32 \<Rightarrow> u32" where
  "irq_enable eflags = eflags OR IF_BIT"

definition irq_disable :: "u32 \<Rightarrow> u32" where
  "irq_disable eflags = eflags AND NOT IF_BIT"

definition irq_is_enabled :: "u32 \<Rightarrow> bool" where
  "irq_is_enabled eflags \<longleftrightarrow> eflags AND IF_BIT \<noteq> 0"

lemma irq_save_disables: "\<not> irq_is_enabled (snd (irq_save e))"
  by (simp add: irq_is_enabled_def irq_save_def and.assoc)

section \<open>One processor\<close>

record spinlock =
  lk_locked :: bool
  lk_irq_data :: u32

text \<open>The loop around \<^verbatim>\<open>atomic_exchange_explicit\<close>: it sets the flag and ends when the flag was clear.\<close>

partial_function (option) spin_loop :: "spinlock \<Rightarrow> spinlock option" where
  "spin_loop lock =
     (if lk_locked lock then spin_loop (lock\<lparr>lk_locked := True\<rparr>) else Some (lock\<lparr>lk_locked := True\<rparr>))"

declare spin_loop.simps [code]

definition spinlock_lock :: "spinlock \<times> u32 \<Rightarrow> (spinlock \<times> u32) option" where
  "spinlock_lock = (\<lambda>(lock, eflags).
     let (irq_state, eflags) = irq_save eflags
     in map_option (\<lambda>lock. (lock\<lparr>lk_irq_data := irq_state\<rparr>, eflags)) (spin_loop lock))"

definition spinlock_initlock :: "bool \<Rightarrow> spinlock \<times> u32 \<Rightarrow> (spinlock \<times> u32) option" where
  "spinlock_initlock start_locked = (\<lambda>(lock, eflags).
     let lock = lock\<lparr>lk_locked := False\<rparr>
     in if start_locked then spinlock_lock (lock, eflags) else Some (lock, eflags))"

definition spinlock_try_lock :: "spinlock \<times> u32 \<Rightarrow> bool \<times> spinlock \<times> u32" where
  "spinlock_try_lock = (\<lambda>(lock, eflags).
     let (irq_state, eflags) = irq_save eflags; was_locked = lk_locked lock; lock = lock\<lparr>lk_locked := True\<rparr>
     in if was_locked = False then (True, lock\<lparr>lk_irq_data := irq_state\<rparr>, eflags)
        else (False, lock, irq_restore irq_state eflags))"

definition spinlock_is_locked :: "spinlock \<Rightarrow> bool" where
  "spinlock_is_locked lock = lk_locked lock"

definition spinlock_unlock :: "spinlock \<times> u32 \<Rightarrow> spinlock \<times> u32" where
  "spinlock_unlock = (\<lambda>(lock, eflags).
     let lock = lock\<lparr>lk_locked := False\<rparr>; eflags = irq_restore (lk_irq_data lock) eflags
     in (lock\<lparr>lk_irq_data := 0\<rparr>, eflags))"

text \<open>Taking a free lock returns at once, and taking a lock that is held never returns.\<close>

lemma spinlock_lock_free:
  "\<not> lk_locked lock \<Longrightarrow> spinlock_lock (lock, e) = Some (lock\<lparr>lk_locked := True, lk_irq_data := e\<rparr>, e AND NOT IF_BIT)"
  by (simp add: spinlock_lock_def irq_save_def spin_loop.simps [of lock])

lemma spin_loop_held: "spin_loop lock = Some lock' \<Longrightarrow> \<not> lk_locked lock"
  by (erule spin_loop.raw_induct [rotated, where P = "\<lambda>l _. \<not> lk_locked l"]) (fastforce split: if_splits)

lemma spinlock_lock_held: "lk_locked lock \<Longrightarrow> spinlock_lock (lock, e) = None"
  using spin_loop_held [of lock] by (cases "spin_loop lock") (auto simp: spinlock_lock_def irq_save_def)

section \<open>Several processors\<close>

text \<open>Where a processor is in the code of the lock. \<open>Lock_Exchange\<close> is the head of the loop in
  \<^verbatim>\<open>spinlock_lock\<close> and \<open>Lock_Store\<close> the assignment behind it; \<open>Try_Exchange\<close>, \<open>Try_Store\<close> and
  \<open>Try_Restore\<close> are in \<^verbatim>\<open>spinlock_try_lock\<close>; \<open>Holding\<close> is the critical section; \<open>Unlock_Restore\<close> and
  \<open>Unlock_Clear\<close> are behind the store that releases the lock. The word is the local \<^verbatim>\<open>irq_state\<close>.\<close>

datatype spin_pc = Outside | Lock_Exchange u32 | Lock_Store u32
  | Try_Exchange u32 | Try_Store u32 | Try_Restore u32
  | Holding | Unlock_Restore | Unlock_Clear

record machine =
  mc_lock :: spinlock
  mc_eflags :: "nat \<Rightarrow> u32"
  mc_pc :: "nat \<Rightarrow> spin_pc"

definition goto :: "nat \<Rightarrow> spin_pc \<Rightarrow> machine \<Rightarrow> machine" where
  "goto c p m = m\<lparr>mc_pc := (mc_pc m)(c := p)\<rparr>"

definition set_eflags :: "nat \<Rightarrow> u32 \<Rightarrow> machine \<Rightarrow> machine" where
  "set_eflags c e m = m\<lparr>mc_eflags := (mc_eflags m)(c := e)\<rparr>"

definition set_locked :: "bool \<Rightarrow> machine \<Rightarrow> machine" where
  "set_locked b m = m\<lparr>mc_lock := (mc_lock m)\<lparr>lk_locked := b\<rparr>\<rparr>"

definition set_irq_data :: "u32 \<Rightarrow> machine \<Rightarrow> machine" where
  "set_irq_data v m = m\<lparr>mc_lock := (mc_lock m)\<lparr>lk_irq_data := v\<rparr>\<rparr>"

lemmas machine_defs = goto_def set_eflags_def set_locked_def set_irq_data_def

text \<open>The next step of processor \<open>c\<close> inside the code of the lock.\<close>

fun spin_next :: "nat \<Rightarrow> machine \<Rightarrow> machine" where
  "spin_next c m = (case mc_pc m c of
       Lock_Exchange st \<Rightarrow>
         (if lk_locked (mc_lock m) then set_locked True m else goto c (Lock_Store st) (set_locked True m))
     | Lock_Store st \<Rightarrow> goto c Holding (set_irq_data st m)
     | Try_Exchange st \<Rightarrow>
         (if lk_locked (mc_lock m) then goto c (Try_Restore st) (set_locked True m)
          else goto c (Try_Store st) (set_locked True m))
     | Try_Store st \<Rightarrow> goto c Holding (set_irq_data st m)
     | Try_Restore st \<Rightarrow> goto c Outside (set_eflags c (irq_restore st (mc_eflags m c)) m)
     | Holding \<Rightarrow> goto c Unlock_Restore (set_locked False m)
     | Unlock_Restore \<Rightarrow> goto c Unlock_Clear (set_eflags c (irq_restore (lk_irq_data (mc_lock m)) (mc_eflags m c)) m)
     | Unlock_Clear \<Rightarrow> goto c Outside (set_irq_data 0 m)
     | Outside \<Rightarrow> m)"

text \<open>Entering \<^verbatim>\<open>spinlock_lock\<close> or \<^verbatim>\<open>spinlock_try_lock\<close> saves the flags. Outside of the lock a processor
  may change its flags.\<close>

inductive spin_step :: "machine \<Rightarrow> machine \<Rightarrow> bool" where
  set_flags: "mc_pc m c = Outside \<Longrightarrow> spin_step m (set_eflags c e m)"
| lock_call: "mc_pc m c = Outside \<Longrightarrow> irq_save (mc_eflags m c) = (st, e) \<Longrightarrow>
    spin_step m (goto c (Lock_Exchange st) (set_eflags c e m))"
| try_call: "mc_pc m c = Outside \<Longrightarrow> irq_save (mc_eflags m c) = (st, e) \<Longrightarrow>
    spin_step m (goto c (Try_Exchange st) (set_eflags c e m))"
| inside: "mc_pc m c \<noteq> Outside \<Longrightarrow> spin_step m (spin_next c m)"

definition spin_init :: "(nat \<Rightarrow> u32) \<Rightarrow> u32 \<Rightarrow> machine" where
  "spin_init ef d = \<lparr>mc_lock = \<lparr>lk_locked = False, lk_irq_data = d\<rparr>, mc_eflags = ef, mc_pc = (\<lambda>_. Outside)\<rparr>"

inductive spin_reachable :: "machine \<Rightarrow> bool" where
  init: "spin_reachable (spin_init ef d)"
| step: "spin_reachable m \<Longrightarrow> spin_step m m' \<Longrightarrow> spin_reachable m'"

text \<open>The processors between taking the flag and clearing it, and those that have interrupts off.\<close>

fun owns :: "spin_pc \<Rightarrow> bool" where
  "owns (Lock_Store _) = True"
| "owns (Try_Store _) = True"
| "owns Holding = True"
| "owns _ = False"

fun masked :: "spin_pc \<Rightarrow> bool" where
  "masked Outside = False"
| "masked Unlock_Clear = False"
| "masked _ = True"

text \<open>The invariant names the processor \<open>h\<close> that owns the lock.\<close>

definition spin_inv :: "nat option \<Rightarrow> machine \<Rightarrow> bool" where
  "spin_inv h m \<longleftrightarrow>
     (lk_locked (mc_lock m) \<longleftrightarrow> h \<noteq> None) \<and> (\<forall>c. owns (mc_pc m c) \<longleftrightarrow> h = Some c) \<and>
     (\<forall>c. masked (mc_pc m c) \<longrightarrow> \<not> irq_is_enabled (mc_eflags m c))"

definition next_owner :: "nat \<Rightarrow> spin_pc \<Rightarrow> nat option \<Rightarrow> nat option" where
  "next_owner c p h = (if owns p then Some c else if h = Some c then None else h)"

lemma spin_inv_next:
  assumes "spin_inv h m"
  shows "spin_inv (next_owner c (mc_pc (spin_next c m) c) h) (spin_next c m)"
proof -
  have own: "owns (mc_pc m c) \<longleftrightarrow> h = Some c" using assms by (simp add: spin_inv_def)
  show ?thesis
    using assms own by (cases "mc_pc m c") (auto simp: spin_inv_def next_owner_def machine_defs)
qed

lemma outside_not_owner: "spin_inv h m \<Longrightarrow> mc_pc m c = Outside \<Longrightarrow> h \<noteq> Some c"
  unfolding spin_inv_def by (metis owns.simps(4))

lemma spin_inv_step: "spin_step m m' \<Longrightarrow> spin_inv h m \<Longrightarrow> \<exists>h'. spin_inv h' m'"
proof (induction rule: spin_step.induct)
  case (set_flags m c e)
  then show ?case by (intro exI [of _ h]) (auto simp: spin_inv_def machine_defs)
next
  case (lock_call m c st e)
  moreover have "\<not> irq_is_enabled e" using irq_save_disables [of "mc_eflags m c"] lock_call.hyps by simp
  moreover have "h \<noteq> Some c" using outside_not_owner lock_call by blast
  ultimately show ?case by (intro exI [of _ h]) (auto simp: spin_inv_def machine_defs)
next
  case (try_call m c st e)
  moreover have "\<not> irq_is_enabled e" using irq_save_disables [of "mc_eflags m c"] try_call.hyps by simp
  moreover have "h \<noteq> Some c" using outside_not_owner try_call by blast
  ultimately show ?case by (intro exI [of _ h]) (auto simp: spin_inv_def machine_defs)
next
  case (inside m c)
  then show ?case using spin_inv_next by blast
qed

lemma spin_reachable_inv: "spin_reachable m \<Longrightarrow> \<exists>h. spin_inv h m"
proof (induction rule: spin_reachable.induct)
  case (init ef d)
  have "spin_inv None (spin_init ef d)" by (simp add: spin_inv_def spin_init_def)
  then show ?case by blast
qed (blast intro: spin_inv_step)

section \<open>Properties\<close>

text \<open>C8. However the steps of any number of processors interleave, at most one of them is in the
  critical section of a spinlock, the flag of the lock is set while it is there, and its
  interrupts are off.
\<close>

theorem spinlock_mutual_exclusion:
  assumes "spin_reachable m" "mc_pc m c = Holding" "mc_pc m d = Holding"
  shows "c = d \<and> spinlock_is_locked (mc_lock m) \<and> \<not> irq_is_enabled (mc_eflags m c)"
proof -
  obtain h where h: "spin_inv h m" using spin_reachable_inv [OF assms(1)] by blast
  have "h = Some c" "h = Some d" using h assms(2,3) by (simp_all add: spin_inv_def [of h]) (metis owns.simps(3))+
  moreover have "masked (mc_pc m c)" using assms(2) by simp
  ultimately show ?thesis using h unfolding spin_inv_def spinlock_is_locked_def by auto
qed

text \<open>Running processors in a given order: an entry names a processor and, if it is outside of the
  lock, the call it makes.\<close>

fun run_cpu :: "nat \<Rightarrow> machine \<Rightarrow> machine" where
  "run_cpu c m = (if mc_pc m c = Outside
     then goto c (Lock_Exchange (fst (irq_save (mc_eflags m c)))) (set_eflags c (snd (irq_save (mc_eflags m c))) m)
     else spin_next c m)"

lemma run_cpu_reachable: "spin_reachable m \<Longrightarrow> spin_reachable (fold run_cpu cs m)"
proof (induction cs arbitrary: m)
  case (Cons c cs)
  have "spin_step m (run_cpu c m)"
    by (cases "mc_pc m c = Outside") (simp_all add: spin_step.intros del: spin_next.simps)
  then show ?case using Cons spin_reachable.step by simp
qed simp

text \<open>A processor that runs alone behaves as the functions say.\<close>

lemma lock_alone:
  assumes "mc_pc m c = Outside" "spinlock_lock (mc_lock m, mc_eflags m c) = Some (l, e)"
  shows "fold run_cpu [c, c, c] m =
    m\<lparr>mc_lock := l, mc_eflags := (mc_eflags m)(c := e), mc_pc := (mc_pc m)(c := Holding)\<rparr>"
proof -
  have free: "\<not> lk_locked (mc_lock m)" using assms(2) spinlock_lock_held [of "mc_lock m"] by auto
  then have "l = (mc_lock m)\<lparr>lk_locked := True, lk_irq_data := mc_eflags m c\<rparr>" "e = mc_eflags m c AND NOT IF_BIT"
    using assms(2) spinlock_lock_free [of "mc_lock m"] by auto
  then show ?thesis using assms(1) free by (simp add: machine_defs irq_save_def)
qed

lemma unlock_alone:
  assumes "mc_pc m c = Holding" "spinlock_unlock (mc_lock m, mc_eflags m c) = (l, e)"
  shows "fold run_cpu [c, c, c] m =
    m\<lparr>mc_lock := l, mc_eflags := (mc_eflags m)(c := e), mc_pc := (mc_pc m)(c := Outside)\<rparr>"
  using assms by (auto simp: machine_defs spinlock_unlock_def irq_restore_def Let_def)

text \<open>Processor 0 takes the lock with interrupts on, processor 1 spins with interrupts off.\<close>

definition race_flags :: "nat \<Rightarrow> u32" where
  "race_flags = (\<lambda>_. 0)(0 := 0x202, 1 := 2)"

definition race_schedule :: "nat list" where
  "race_schedule = [0, 0, 0, 0, 1, 1, 1, 0, 0]"

theorem spinlock_mutual_exclusion_witness:
  "spinlock_is_locked (mc_lock (fold run_cpu [0, 0, 0, 1, 1] (spin_init race_flags 0))) \<and>
   mc_pc (fold run_cpu [0, 0, 0, 1, 1] (spin_init race_flags 0)) 0 = Holding"
proof -
  let ?m = "fold run_cpu [0, 0, 0, 1, 1] (spin_init race_flags 0)"
  have "spin_reachable ?m" by (intro run_cpu_reachable spin_reachable.init)
  moreover have "mc_pc ?m 0 = Holding" by (simp add: spin_init_def machine_defs)
  ultimately show ?thesis using spinlock_mutual_exclusion [of ?m 0 0] by simp
qed

text \<open>\<^verbatim>\<open>spinlock_unlock\<close> reads the saved flags after it has released the lock. With two processors
  there is an interleaving from a free lock in which processor 0 takes and releases the lock, processor 1
  takes it between the release and the read, and processor 0 leaves with the flags that
  processor 1 had saved: it entered with interrupts on and leaves with interrupts off.
\<close>

theorem spinlock_unlock_race:
  "\<exists>m. spin_reachable m \<and> m = fold run_cpu race_schedule (spin_init race_flags 0) \<and>
     irq_is_enabled (race_flags 0) \<and> mc_pc m 0 = Outside \<and> mc_pc m 1 = Holding \<and>
     \<not> irq_is_enabled (mc_eflags m 0) \<and> lk_irq_data (mc_lock m) = 0"
proof -
  let ?m = "fold run_cpu race_schedule (spin_init race_flags 0)"
  have "spin_reachable ?m" by (intro run_cpu_reachable spin_reachable.init)
  then show ?thesis
    by (intro exI [of _ ?m])
      (simp add: race_schedule_def spin_init_def machine_defs race_flags_def irq_is_enabled_def IF_BIT_def irq_save_def irq_restore_def)
qed

text \<open>On one processor, taking a free lock and releasing it gives back the flags the caller had and
  a free lock; a failed attempt to take it changes neither the lock nor the flags, and
  taking a lock that is already held never returns.
\<close>

theorem spinlock_single_processor:
  "\<not> lk_locked lock \<Longrightarrow>
     map_option spinlock_unlock (spinlock_lock (lock, e)) = Some (lock\<lparr>lk_irq_data := 0\<rparr>, e) \<and>
     spinlock_try_lock (lock, e) = (True, the (spinlock_lock (lock, e))) \<and>
     spinlock_try_lock (lock\<lparr>lk_locked := True\<rparr>, e) = (False, lock\<lparr>lk_locked := True\<rparr>, e) \<and>
     spinlock_lock (lock\<lparr>lk_locked := True\<rparr>, e) = None"
  by (simp add: spinlock_lock_free spinlock_lock_held spinlock_unlock_def spinlock_try_lock_def irq_save_def irq_restore_def)

theorem spinlock_single_processor_witness:
  "spinlock_lock (\<lparr>lk_locked = True, lk_irq_data = 0\<rparr>, 0x202) = None"
  using spinlock_single_processor [of "\<lparr>lk_locked = False, lk_irq_data = 0\<rparr>" "0x202"] by simp

end
