(* ===== verification/Boot_Paging.thy ===== *)
theory Boot_Paging
  imports Paging_Correct
begin

text \<open>
  The first page tables: \<^verbatim>\<open>kernel/arch/i386/boot/paging.c\<close>. Paging is still off, so the code
  reaches the directory and the tables at their physical addresses. The addresses of the
  static arrays and the linker symbols are arguments; an array of tables is a run of
  consecutive frames. The result is the memory, with the values of \<open>cr3\<close> and \<open>cr0\<close>.
\<close>

section \<open>Definitions\<close>

definition KERNEL_TABLES :: u32 where "KERNEL_TABLES = 64"
definition BOOT_TABLES :: u32 where "BOOT_TABLES = 2"

definition PAGES_UP :: "u32 \<Rightarrow> u32" where
  "PAGES_UP x = (x + (PAGE_SIZE - 1)) div PAGE_SIZE"

definition zero_frame :: "u32 \<Rightarrow> phys_mem \<Rightarrow> phys_mem" where
  "zero_frame pt m = fold (\<lambda>i m. m(pt := (m pt)(of_nat i := 0))) [0..<1024] m"

definition zero_page_directory :: "u32 \<Rightarrow> phys_mem \<Rightarrow> phys_mem" where
  "zero_page_directory page_dir m = zero_frame page_dir m"

text \<open>The loop is \<^verbatim>\<open>do ... while(amount)\<close>: for 0 tables it would count down from the largest number.\<close>

partial_function (option) zero_page_table :: "u32 \<Rightarrow> u32 \<Rightarrow> phys_mem \<Rightarrow> phys_mem option" where
  "zero_page_table page_table amount m =
     (let m = zero_frame page_table m; amount = amount - 1; page_table = page_table + PAGE_SIZE
      in if amount \<noteq> 0 then zero_page_table page_table amount m else Some m)"

declare zero_page_table.simps [code]

text \<open>The inner loop of \<^verbatim>\<open>map_span\<close>: entries of one table.\<close>

function fill_ptes :: "u32 \<Rightarrow> u32 \<Rightarrow> u32 \<Rightarrow> u32 \<Rightarrow> u32 \<Rightarrow> u16 \<Rightarrow> phys_mem \<Rightarrow> phys_mem \<times> u32 \<times> u32 \<times> u32" where
  "fill_ptes pt table_index vaddr paddr pages flags m =
     (if table_index < ENTRIES_AMOUNT \<and> pages \<noteq> 0
      then fill_ptes pt (table_index + 1) (vaddr + PAGE_SIZE) (paddr + PAGE_SIZE) (pages - 1) flags
             (m(pt := (m pt)(table_index := paddr OR ucast flags)))
      else (m, vaddr, paddr, pages))"
  by auto
termination by (relation "measure (\<lambda>(_, _, _, _, pages, _). unat pages)") (auto simp: unat_minus_one unat_gt_0)

declare fill_ptes.simps [simp del]

lemma fill_ptes_step:
  "t < ENTRIES_AMOUNT \<Longrightarrow> n \<noteq> 0 \<Longrightarrow> fill_ptes pt t v p n fl m =
     fill_ptes pt (t + 1) (v + PAGE_SIZE) (p + PAGE_SIZE) (n - 1) fl (m(pt := (m pt)(t := p OR ucast fl)))"
  "\<not> (t < ENTRIES_AMOUNT \<and> n \<noteq> 0) \<Longrightarrow> fill_ptes pt t v p n fl m = (m, v, p, n)"
  by (simp_all only: fill_ptes.simps [of pt t v p n fl m] simp_thms if_True if_False)

lemma fill_ptes_pages: "unat (snd (snd (snd (fill_ptes pt t v p n fl m)))) \<le> unat n"
proof (induction pt t v p n fl m rule: fill_ptes.induct)
  case (1 pt t v p n fl m)
  show ?case
  proof (cases "t < ENTRIES_AMOUNT \<and> n \<noteq> 0")
    case True
    moreover have "unat (n - 1) \<le> unat n" using True by (simp add: unat_minus_one)
    ultimately show ?thesis using order_trans [OF 1 [OF True]] by (simp only: fill_ptes_step(1) simp_thms)
  next
    case False
    then show ?thesis by (simp add: fill_ptes_step(2))
  qed
qed

lemma fill_ptes_decreases:
  assumes "t < ENTRIES_AMOUNT" "n \<noteq> 0"
  shows "unat (snd (snd (snd (fill_ptes pt t v p n fl m)))) < unat n"
proof -
  have "unat (n - 1) < unat n" using assms(2) by (simp add: unat_minus_one unat_gt_0)
  then show ?thesis unfolding fill_ptes_step(1) [OF assms] by (rule le_less_trans [OF fill_ptes_pages])
qed

text \<open>The table behind a directory entry: an existing one, or the next free one, cleared.\<close>

definition boot_table :: "u32 \<Rightarrow> u32 \<Rightarrow> u16 \<Rightarrow> u32 \<times> phys_mem \<Rightarrow> u32 \<times> u32 \<times> phys_mem" where
  "boot_table pd dir_index flags = (\<lambda>(free_pt, m).
     let pde_val = m pd dir_index
     in if pde_val AND PAGE_ENTRY_FLAG_PRESENT = 0
        then let pt = free_pt; m = zero_frame pt m; m = m(pd := (m pd)(dir_index := (pt AND NOT 0xFFF) OR ucast flags))
             in (pt, free_pt + PAGE_SIZE, m)
        else (pde_val AND NOT 0xFFF, free_pt, m))"

function map_span :: "u32 \<Rightarrow> u32 \<Rightarrow> u32 \<Rightarrow> u32 \<Rightarrow> u16 \<Rightarrow> u32 \<times> phys_mem \<Rightarrow> u32 \<times> phys_mem" where
  "map_span pd vaddr paddr pages flags s =
     (if pages \<noteq> 0
      then let (pt, free_pt, m) = boot_table pd (drop_bit 22 vaddr) flags s;
               (m, vaddr', paddr', pages') = fill_ptes pt (drop_bit 12 vaddr AND 0x3FF) vaddr paddr pages flags m
           in map_span pd vaddr' paddr' pages' flags (free_pt, m)
      else s)"
  by auto
termination
proof (relation "measure (\<lambda>(_, _, _, pages, _). unat pages)", goal_cases)
  case (2 pd vaddr paddr pages flags s x pt y free_pt m z m' w vaddr' v paddr' pages')
  then show ?case
    using fill_ptes_decreases [of "drop_bit 12 vaddr AND 0x3FF" pages pt vaddr paddr flags m] pte_index_lt(1) [of vaddr]
    by (simp add: ENTRIES_AMOUNT_def) (metis snd_conv)
qed simp

declare map_span.simps [simp del]

definition set_cr3 :: "u32 \<Rightarrow> u32 \<Rightarrow> u32" where
  "set_cr3 page_directory cr3 = page_directory"

definition enable_paging :: "u32 \<Rightarrow> u32" where
  "enable_paging cr0 = cr0 OR 0x80000000"

text \<open>The addresses that the linker and the static arrays give.\<close>

record boot_layout =
  page_directory :: u32
  kernel_tables :: u32
  boot_tables :: u32
  va_pa_off :: u32
  kernel_start :: u32
  kernel_phys_base :: u32
  image_end :: u32

definition init_paging :: "boot_layout \<Rightarrow> phys_mem \<Rightarrow> u32 \<Rightarrow> u32 \<Rightarrow> (phys_mem \<times> u32 \<times> u32) option" where
  "init_paging L m cr3 cr0 =
     (let pd = page_directory L; m = zero_page_directory pd m
      in Option.bind (zero_page_table (kernel_tables L) KERNEL_TABLES m) (\<lambda>m.
         Option.bind (zero_page_table (boot_tables L) BOOT_TABLES m) (\<lambda>m.
         let pa_boot_base = 0x100000; off = va_pa_off L; va_kernel_base = kernel_start L; pa_kernel_base = kernel_phys_base L;
             kernel_pages = PAGES_UP (image_end L - kernel_start L); boot_pages = PAGES_UP (pa_kernel_base - pa_boot_base);
             flags = PAGE_ENTRY_WRITE_KERNEL_FLAGS;
             (free_boot_pt, m) = map_span pd 0 0 ENTRIES_AMOUNT flags (boot_tables L, m);
             (free_kern_pt, m) = map_span pd (pa_boot_base + off) pa_boot_base boot_pages flags (kernel_tables L, m);
             (free_kern_pt, m) = map_span pd va_kernel_base pa_kernel_base kernel_pages flags (free_kern_pt, m);
             m = m(pd := (m pd)(ENTRIES_AMOUNT - 1 := pd OR ucast flags))
         in Some (m, set_cr3 pd cr3, enable_paging cr0))))"

section \<open>Clearing frames\<close>

lemma zero_frame_upto:
  "n \<le> 1024 \<Longrightarrow> fold (\<lambda>i m. m(pt := (m pt)(of_nat i := 0))) [0..<n] m =
    m(pt := (\<lambda>i :: u32. if unat i < n then 0 else m pt i))"
proof (induction n)
  case (Suc n)
  have "unat (of_nat n :: u32) = n" using Suc.prems by (simp add: unat_of_nat)
  then have "(i = of_nat n) = (unat i = n)" for i :: u32 by (auto simp: word_unat_eq_iff)
  then show ?case using Suc by (simp add: fun_eq_iff less_Suc_eq)
qed (simp add: fun_upd_def cong: if_cong)

lemma zero_frame_eq: "zero_frame pt m = m(pt := (\<lambda>i. if unat i < 1024 then 0 else m pt i))"
  unfolding zero_frame_def by (rule zero_frame_upto) simp

text \<open>A run of \<open>n\<close> frames from \<open>a\<close>.\<close>

definition frames :: "u32 \<Rightarrow> nat \<Rightarrow> u32 set" where
  "frames a n = (\<lambda>i. a + of_nat (4096 * i)) ` {..<n}"

lemma frames_Suc: "frames a (Suc n) = insert a (frames (a + PAGE_SIZE) n)"
  unfolding frames_def lessThan_Suc_eq_insert_0 image_insert image_image
  by (simp add: PAGE_SIZE_def add.assoc distrib_left)

lemma zero_page_table_keeps:
  assumes "unat n = Suc k" "x \<notin> frames a (Suc k)"
  shows "\<exists>m'. zero_page_table a n m = Some m' \<and> m' x = m x"
  using assms
proof (induction k arbitrary: a n m)
  case 0
  then have "n = 1" by (simp add: word_unat_eq_iff)
  with 0 show ?case by (simp add: zero_page_table.simps [of a] zero_frame_eq frames_Suc)
next
  case (Suc k)
  have n: "unat (n - 1) = Suc k" using Suc.prems(1) by (intro unat_pred) simp
  then have "n - 1 \<noteq> 0" by (metis nat.distinct(1) unsigned_0)
  moreover have "x \<notin> frames (a + PAGE_SIZE) (Suc k)" "x \<noteq> a"
    using Suc.prems(2) by (auto simp: frames_Suc [of a "Suc k"])
  ultimately obtain m' where "zero_page_table (a + PAGE_SIZE) (n - 1) (zero_frame a m) = Some m'" "m' x = zero_frame a m x"
    using Suc.IH [OF n] by blast
  with \<open>n - 1 \<noteq> 0\<close> \<open>x \<noteq> a\<close> show ?case
    by (simp add: zero_page_table.simps [of a n m] Let_def zero_frame_eq [of a m, THEN fun_cong, of x] )
qed

section \<open>The directory with its recursive entry\<close>

text \<open>The code adds the recursive entry last; the facts about page tables are used on the memory
  that already has it.\<close>

definition rec_dir :: "u32 \<Rightarrow> phys_mem \<Rightarrow> phys_mem" where
  "rec_dir cr3 m = m(cr3 := (m cr3)(1023 := cr3 OR 3))"

definition boot_ok :: "u32 \<Rightarrow> phys_mem \<Rightarrow> bool" where
  "boot_ok cr3 m \<longleftrightarrow> pt_ok cr3 (rec_dir cr3 m)"

definition boot_space :: "u32 \<Rightarrow> phys_mem \<Rightarrow> nat \<Rightarrow> u32 option" where
  "boot_space cr3 m = aspace cr3 (rec_dir cr3 m)"

definition boot_used :: "u32 \<Rightarrow> phys_mem \<Rightarrow> u32 set" where
  "boot_used cr3 m = tables cr3 (rec_dir cr3 m)"

lemma rec_dir_entry [simp]: "d \<noteq> 1023 \<Longrightarrow> rec_dir cr3 m cr3 d = m cr3 d" "f \<noteq> cr3 \<Longrightarrow> rec_dir cr3 m f = m f"
  by (simp_all add: rec_dir_def)

lemma rec_dir_upd: "f \<noteq> cr3 \<Longrightarrow> rec_dir cr3 (m(f := g)) = (rec_dir cr3 m)(f := g)"
  by (simp add: rec_dir_def fun_upd_twist)

lemma rec_dir_with_table:
  "d \<noteq> 1023 \<Longrightarrow> f \<noteq> cr3 \<Longrightarrow> rec_dir cr3 (with_table cr3 d f m) = with_table cr3 d f (rec_dir cr3 m)"
  by (auto simp: rec_dir_def with_table_def fun_eq_iff)

lemma cr3_used: "boot_ok cr3 m \<Longrightarrow> cr3 \<in> boot_used cr3 m"
  unfolding boot_ok_def boot_used_def using cr3_in_tables by simp

lemma kernel_flags: "ucast PAGE_ENTRY_WRITE_KERNEL_FLAGS = (3 :: u32)"
  by (simp add: PAGE_ENTRY_WRITE_KERNEL_FLAGS_def PAGE_ENTRY_FLAG_PRESENT_def PAGE_ENTRY_FLAG_WRITE_def)

section \<open>One table\<close>

lemma pte_write:
  assumes ok: "pt_ok cr3 m" and p: "p < 1047552" and pde: "present (m cr3 (of_nat (p div 1024)))" and pa: "pa AND PAGE_MASK = pa"
    and F: "F = m cr3 (of_nat (p div 1024)) AND PAGE_MASK" and t: "t = of_nat (p mod 1024)"
    and m': "m' = m(F := (m F)(t := pa OR 3))"
  shows "F \<noteq> cr3" "pt_ok cr3 m'" "\<forall>q<1047552. aspace cr3 m' q = map_spec pa p 1 (aspace cr3 m) q"
proof -
  have e: "(pa AND 0xFFFFF000) OR (ucast PAGE_ENTRY_WRITE_KERNEL_FLAGS AND 0xFFF) = pa OR 3"
  proof -
    have "pa AND 0xFFFFF000 = pa" using pa by (simp only: FFF_mask)
    then show ?thesis by (simp only: kernel_flags) simp
  qed
  have "bit PAGE_ENTRY_WRITE_KERNEL_FLAGS 0"
    by (simp add: PAGE_ENTRY_WRITE_KERNEL_FLAGS_def PAGE_ENTRY_FLAG_PRESENT_def PAGE_ENTRY_FLAG_WRITE_def)
  then obtain m2 where m2: "map_page_entry cr3 pa (page_addr p) PAGE_ENTRY_WRITE_KERNEL_FLAGS m = Inr (True, m2)" "pt_ok cr3 m2"
      "\<forall>q<1047552. aspace cr3 m2 q = map_spec pa p 1 (aspace cr3 m) q"
    using map_page_entry_correct [OF ok p pde _ pa] by blast
  have "map_page_entry cr3 pa (page_addr p) PAGE_ENTRY_WRITE_KERNEL_FLAGS m = Inr (True, m')"
    using ok p pde unfolding m' F t by (simp add: map_page_entry_def Let_def e)
  with m2 show "pt_ok cr3 m'" "\<forall>q<1047552. aspace cr3 m' q = map_spec pa p 1 (aspace cr3 m) q" by auto
  show "F \<noteq> cr3" using pt_ok_dir [OF ok _ _ pde] user_pde [OF p] p by (simp add: F)
qed

lemma page_addr_Suc: "page_addr p + PAGE_SIZE = page_addr (Suc p)"
  by (simp add: page_addr_def PAGE_SIZE_def)

lemma map_spec_step:
  assumes "\<forall>q<b. A1 q = map_spec pa p 1 A q" "\<forall>q<b. A2 q = map_spec (pa + PAGE_SIZE) (Suc p) k A1 q"
  shows "\<forall>q<b. A2 q = map_spec pa p (Suc k) A q"
proof (intro allI impI)
  fix q :: nat assume q: "q < b"
  have "A2 q = map_spec (pa + of_nat (4096 * 1)) (p + 1) k (map_spec pa p 1 A) q"
    using assms q by (simp add: map_spec_def PAGE_SIZE_def)
  then show "A2 q = map_spec pa p (Suc k) A q" by (simp only: map_spec_add) simp
qed

lemma fill_ptes_correct:
  assumes "boot_ok cr3 m" "p = d * 1024 + j" "j \<le> 1024" "p + unat n \<le> 1047552" "d < 1023" "present (m cr3 (of_nat d))"
    "F = m cr3 (of_nat d) AND PAGE_MASK" "pa AND PAGE_MASK = pa" "k = min (1024 - j) (unat n)"
  shows "\<exists>m'. fill_ptes F (of_nat j) (page_addr p) pa n PAGE_ENTRY_WRITE_KERNEL_FLAGS m =
      (m', page_addr (p + k), pa + of_nat (4096 * k), n - of_nat k) \<and> boot_ok cr3 m' \<and> m' cr3 = m cr3 \<and>
    (\<forall>q<1047552. boot_space cr3 m' q = map_spec pa p k (boot_space cr3 m) q)"
  using assms
proof (induction k arbitrary: m p j n pa)
  case 0
  have "\<not> ((of_nat j :: u32) < ENTRIES_AMOUNT \<and> n \<noteq> 0)"
    using 0 by (auto simp: ENTRIES_AMOUNT_def word_less_nat_alt unat_of_nat min_def unat_eq_zero split: if_splits)
  with 0 show ?case by (simp add: fill_ptes_step(2))
next
  case (Suc k)
  have j: "j < 1024" "n \<noteq> 0" "Suc 0 \<le> unat n" using Suc.prems(9) by auto
  have dj: "p div 1024 = d" "p mod 1024 = j" "p < 1047552" using j Suc.prems(2,4) by auto
  have d3: "(of_nat d :: u32) \<noteq> 1023" using of_nat_u32_inj [of d 1023] Suc.prems(5) by simp
  define m1 where "m1 = m(F := (m F)(of_nat j := pa OR 3))"
  have pde: "present (rec_dir cr3 m cr3 (of_nat (p div 1024)))" "F = rec_dir cr3 m cr3 (of_nat (p div 1024)) AND PAGE_MASK"
    using Suc.prems(6,7) d3 dj by simp_all
  have ok: "pt_ok cr3 (rec_dir cr3 m)" using Suc.prems(1) by (simp add: boot_ok_def)
  note w = pte_write [OF ok dj(3) pde(1) Suc.prems(8) pde(2) refl refl]
  have m': "rec_dir cr3 m1 = (rec_dir cr3 m)(F := (rec_dir cr3 m F)(of_nat (p mod 1024) := pa OR 3))"
    using w(1) by (simp add: m1_def rec_dir_upd dj)
  have ok1: "boot_ok cr3 m1" and sp1: "\<forall>q<1047552. boot_space cr3 m1 q = map_spec pa p 1 (boot_space cr3 m) q"
    using w(2,3) by (simp_all add: boot_ok_def boot_space_def m')
  have cr3: "m1 cr3 = m cr3" using w(1) by (simp add: m1_def)
  have n1: "unat (n - 1) = unat n - 1" using j by (simp add: unat_minus_one)
  have pa1: "(pa + PAGE_SIZE) AND PAGE_MASK = pa + PAGE_SIZE"
    using aligned_add [OF Suc.prems(8), of 1] by (simp add: PAGE_SIZE_def)
  have "\<exists>m'. fill_ptes F (of_nat (Suc j)) (page_addr (Suc p)) (pa + PAGE_SIZE) (n - 1) PAGE_ENTRY_WRITE_KERNEL_FLAGS m1 =
      (m', page_addr (Suc p + k), pa + PAGE_SIZE + of_nat (4096 * k), n - 1 - of_nat k) \<and> boot_ok cr3 m' \<and> m' cr3 = m1 cr3 \<and>
    (\<forall>q<1047552. boot_space cr3 m' q = map_spec (pa + PAGE_SIZE) (Suc p) k (boot_space cr3 m1) q)"
    using Suc.prems(2-7,9) j by (intro Suc.IH [OF ok1]) (simp_all add: n1 pa1 cr3)
  then obtain m' where m': "fill_ptes F (of_nat (Suc j)) (page_addr (Suc p)) (pa + PAGE_SIZE) (n - 1) PAGE_ENTRY_WRITE_KERNEL_FLAGS m1 =
      (m', page_addr (Suc p + k), pa + PAGE_SIZE + of_nat (4096 * k), n - 1 - of_nat k)" "boot_ok cr3 m'" "m' cr3 = m1 cr3"
    "\<forall>q<1047552. boot_space cr3 m' q = map_spec (pa + PAGE_SIZE) (Suc p) k (boot_space cr3 m1) q" by blast
  have "(of_nat j :: u32) < ENTRIES_AMOUNT" using j by (simp add: ENTRIES_AMOUNT_def word_less_nat_alt unat_of_nat)
  then have "fill_ptes F (of_nat j) (page_addr p) pa n PAGE_ENTRY_WRITE_KERNEL_FLAGS m =
      (m', page_addr (p + Suc k), pa + of_nat (4096 * Suc k), n - of_nat (Suc k))"
    using m'(1) j(2) by (simp add: fill_ptes_step(1) page_addr_Suc kernel_flags m1_def [symmetric]) (simp add: PAGE_SIZE_def algebra_simps)
  then show ?case using m'(2-4) cr3 map_spec_step [OF sp1 m'(4)] by auto
qed

section \<open>A span of pages\<close>

text \<open>The next \<open>n\<close> tables of an array are aligned, different and not in use.\<close>

definition fresh_tables :: "u32 \<Rightarrow> phys_mem \<Rightarrow> u32 \<Rightarrow> nat \<Rightarrow> bool" where
  "fresh_tables cr3 m free n \<longleftrightarrow> free AND 0xFFF = 0 \<and> n \<le> 1048576 \<and> frames free n \<inter> boot_used cr3 m = {}"

lemma fresh_tablesD: "fresh_tables cr3 m free n \<Longrightarrow> 0 < n \<Longrightarrow> free AND 0xFFF = 0 \<and> free \<notin> boot_used cr3 m"
  by (cases n) (auto simp: fresh_tables_def frames_Suc)

lemma aligned_frames: "a AND 0xFFF = 0 \<Longrightarrow> (a + of_nat (4096 * k)) AND 0xFFF = (0 :: u32)"
  using aligned_add [OF aligned_frame, of a k] frame_low_bits [of "a + of_nat (4096 * k)"] by simp

lemma frames_add: "frames a (j + n) = frames a j \<union> frames (a + of_nat (4096 * j)) n"
proof -
  have "{..<j + n} = {..<j} \<union> (+) j ` {..<n}"
    using image_add_atLeastLessThan [of j 0 n] by (auto simp: lessThan_atLeast0)
  then show ?thesis
    unfolding frames_def by (simp add: image_Un image_image distrib_left add.assoc)
qed

lemma frames_mono: "i \<le> j \<Longrightarrow> frames a i \<subseteq> frames a j"
  unfolding frames_def by auto

lemma frames_apart: "j + n \<le> 1048576 \<Longrightarrow> frames a j \<inter> frames (a + of_nat (4096 * j)) n = {}"
proof (rule ccontr)
  assume n: "j + n \<le> 1048576" and "\<not> ?thesis"
  then obtain i k where ik: "i < j" "k < n" "a + of_nat (4096 * i) = a + of_nat (4096 * j) + of_nat (4096 * k)"
    by (auto simp: frames_def)
  then have "(of_nat (4096 * i) :: u32) = of_nat (4096 * (j + k))" by (simp add: distrib_left)
  moreover have "4096 * i < 2 ^ 32" "4096 * (j + k) < 2 ^ 32" using ik n by simp_all
  ultimately have "4096 * i = 4096 * (j + k)" using of_nat_u32_inj by blast
  with ik show False by simp
qed

lemma fresh_tables_next:
  assumes "fresh_tables cr3 m free n" "j \<le> n" "boot_used cr3 m' \<subseteq> boot_used cr3 m \<union> frames free j"
  shows "fresh_tables cr3 m' (free + of_nat (4096 * j)) (n - j)"
proof -
  have "frames (free + of_nat (4096 * j)) (n - j) \<subseteq> frames free n"
    using frames_add [of free j "n - j"] assms(2) by auto
  moreover have "frames free j \<inter> frames (free + of_nat (4096 * j)) (n - j) = {}"
    using assms(1,2) by (intro frames_apart) (simp add: fresh_tables_def)
  ultimately show ?thesis
    using assms aligned_frames [of free j] unfolding fresh_tables_def by auto
qed

lemma boot_table_correct:
  assumes ok: "boot_ok cr3 m" and d: "d < 1023" and fresh: "fresh_tables cr3 m free n" "0 < n"
  obtains F free' m' u where
    "boot_table cr3 (of_nat d) PAGE_ENTRY_WRITE_KERNEL_FLAGS (free, m) = (F, free', m')"
    "boot_ok cr3 m'" "present (m' cr3 (of_nat d))" "F = m' cr3 (of_nat d) AND PAGE_MASK"
    "\<forall>q<1047552. boot_space cr3 m' q = boot_space cr3 m q"
    "u \<le> 1" "free' = free + of_nat (4096 * u)" "boot_used cr3 m' \<subseteq> boot_used cr3 m \<union> frames free u"
proof (cases "present (m cr3 (of_nat d))")
  case True
  have "NOT (0xFFF :: u32) = PAGE_MASK" by (simp add: PAGE_MASK_def PAGE_SIZE_def)
  then show ?thesis
    using that [of "m cr3 (of_nat d) AND PAGE_MASK" free m 0] True ok
    by (simp add: boot_table_def present_def)
next
  case False
  let ?d = "of_nat d :: u32" and ?m = "with_table cr3 (of_nat d) free m"
  have d3: "?d \<noteq> 1023" "?d < 1024" using of_nat_u32_inj [of d 1023] d by (simp_all add: word_less_nat_alt unat_of_nat)
  have f: "free AND 0xFFF = 0" "free \<notin> tables cr3 (rec_dir cr3 m)"
    using fresh_tablesD [OF fresh] by (simp_all add: boot_used_def)
  have fc: "free \<noteq> cr3" using cr3_used [OF ok] fresh_tablesD [OF fresh] by auto
  have np: "\<not> present (rec_dir cr3 m cr3 ?d)" using False d3 by simp
  have pok: "pt_ok cr3 (rec_dir cr3 m)" using ok by (simp add: boot_ok_def)
  note wt = with_table_facts [OF pok d3(2) np f, folded rec_dir_with_table [OF d3(1) fc]]
  have "(free AND NOT 0xFFF) = free" using f(1) aligned_frame [OF f(1)] by (simp add: PAGE_MASK_def PAGE_SIZE_def)
  then have "boot_table cr3 ?d PAGE_ENTRY_WRITE_KERNEL_FLAGS (free, m) = (free, free + PAGE_SIZE, ?m)"
    using False fc by (simp add: boot_table_def present_def kernel_flags with_table_def zero_frame_eq fun_upd_twist)
  moreover have "?m cr3 ?d = free OR 3" using fc by (simp add: with_table_def)
  then have "present (?m cr3 ?d)" "free = ?m cr3 ?d AND PAGE_MASK" using new_entry [OF f(1)] by simp_all
  moreover have "boot_ok cr3 ?m" using wt(1) by (simp add: boot_ok_def)
  moreover have "\<forall>q<1047552. boot_space cr3 ?m q = boot_space cr3 m q" using wt(4) by (simp add: boot_space_def)
  moreover have "boot_used cr3 ?m \<subseteq> boot_used cr3 m \<union> frames free 1" using wt(3) by (auto simp: boot_used_def frames_Suc)
  ultimately show ?thesis using that [of free "free + PAGE_SIZE" ?m 1] by (simp add: PAGE_SIZE_def)
qed

text \<open>The number of directory entries that a span of pages touches.\<close>

definition span_tables :: "nat \<Rightarrow> nat \<Rightarrow> nat" where
  "span_tables p n = (if n = 0 then 0 else (p + n + 1023) div 1024 - p div 1024)"

lemma span_tables_pos: "0 < n \<Longrightarrow> 0 < span_tables p n"
proof -
  assume "0 < n"
  then have "p div 1024 < (p + n + 1023) div 1024" by linarith
  then show ?thesis using \<open>0 < n\<close> by (simp add: span_tables_def)
qed

lemma span_tables_next:
  assumes "0 < n" "k = min (1024 - p mod 1024) n"
  shows "Suc (span_tables (p + k) (n - k)) \<le> span_tables p n"
proof (cases "n - k = 0")
  case True
  then show ?thesis using span_tables_pos [OF assms(1), of p] by (simp add: span_tables_def)
next
  case False
  then have k: "k = 1024 - p mod 1024" "k < n" using assms(2) by auto
  then have "k + p mod 1024 = 1024" using mod_le_divisor [of 1024 p] by linarith
  moreover have "p div 1024 * 1024 + p mod 1024 = p" by (rule div_mult_mod_eq)
  ultimately have "p + k = (p div 1024 + 1) * 1024" by (simp only: add_mult_distrib)
  then have "(p + k) div 1024 = Suc (p div 1024)" by simp
  moreover have "p + k + (n - k) + 1023 = p + n + 1023" using k by simp
  moreover have "Suc (Suc (p div 1024)) * 1024 \<le> p + n + 1023" using k(2) \<open>p + k = _\<close> by simp
  then have "Suc (p div 1024) < (p + n + 1023) div 1024" by (simp add: less_eq_div_iff_mult_less_eq flip: Suc_le_eq)
  ultimately show ?thesis using False assms(1) Suc_diff_Suc [of "p div 1024" "(p + n + 1023) div 1024"]
    by (simp add: span_tables_def)
qed

lemma map_span_correct:
  assumes "boot_ok cr3 m" "p + unat n \<le> 1047552" "pa AND PAGE_MASK = pa" "fresh_tables cr3 m free K" "span_tables p (unat n) \<le> K"
  shows "\<exists>m' u. map_span cr3 (page_addr p) pa n PAGE_ENTRY_WRITE_KERNEL_FLAGS (free, m) = (free + of_nat (4096 * u), m') \<and>
    u \<le> span_tables p (unat n) \<and> boot_ok cr3 m' \<and>
    (\<forall>q<1047552. boot_space cr3 m' q = map_spec pa p (unat n) (boot_space cr3 m) q) \<and>
    boot_used cr3 m' \<subseteq> boot_used cr3 m \<union> frames free u"
  using assms
proof (induction "unat n" arbitrary: n m p pa free K rule: less_induct)
  case less
  show ?case
  proof (cases "n = 0")
    case True
    then show ?thesis using less.prems by (intro exI [of _ m] exI [of _ 0]) (simp add: map_span.simps)
  next
    case False
    let ?fl = PAGE_ENTRY_WRITE_KERNEL_FLAGS
    let ?d = "p div 1024" and ?j = "p mod 1024"
    define k where "k = min (1024 - ?j) (unat n)"
    have n: "0 < unat n" using False by (simp add: unat_gt_0)
    have p: "p < 1047552" "?d < 1023" using less.prems(2) n by auto
    have k: "0 < k" "k \<le> unat n" using n by (simp_all add: k_def)
    have idx: "drop_bit 22 (page_addr p) = of_nat ?d" "drop_bit 12 (page_addr p) AND 0x3FF = of_nat ?j"
      using index_of_page [of p] p by (simp_all add: get_pde_index_def get_pte_index_def)
    have K: "0 < K" using span_tables_pos [OF n, of p] less.prems(5) by simp
    obtain F free1 m1 u where bt: "boot_table cr3 (of_nat ?d) ?fl (free, m) = (F, free1, m1)"
      "boot_ok cr3 m1" "present (m1 cr3 (of_nat ?d))" "F = m1 cr3 (of_nat ?d) AND PAGE_MASK"
      "\<forall>q<1047552. boot_space cr3 m1 q = boot_space cr3 m q"
      "u \<le> 1" "free1 = free + of_nat (4096 * u)" "boot_used cr3 m1 \<subseteq> boot_used cr3 m \<union> frames free u"
      using boot_table_correct [OF less.prems(1) p(2) less.prems(4) K] by blast
    obtain m2 where fp: "fill_ptes F (of_nat ?j) (page_addr p) pa n ?fl m1 =
        (m2, page_addr (p + k), pa + of_nat (4096 * k), n - of_nat k)" "boot_ok cr3 m2" "m2 cr3 = m1 cr3"
      "\<forall>q<1047552. boot_space cr3 m2 q = map_spec pa p k (boot_space cr3 m1) q"
      using fill_ptes_correct [OF bt(2) _ _ less.prems(2) p(2) bt(3,4) less.prems(3) k_def]
      by (metis div_mult_mod_eq mod_le_divisor zero_less_numeral)
    have nk: "unat (n - of_nat k) = unat n - k"
      using k unat_u32_lt [of n] by (subst unat_sub) (simp_all add: word_le_nat_alt unat_of_nat del: unat_u32_lt)
    have used2: "boot_used cr3 m2 = boot_used cr3 m1" by (simp add: boot_used_def tables_def rec_dir_def fp(3))
    have fresh2: "fresh_tables cr3 m2 free1 (K - u)"
      using fresh_tables_next [OF less.prems(4) _ bt(8)] bt(6) K unfolding fresh_tables_def used2 bt(7) by simp
    have st: "Suc (span_tables (p + k) (unat n - k)) \<le> span_tables p (unat n)" by (rule span_tables_next [OF n k_def])
    have "\<exists>m' u'. map_span cr3 (page_addr (p + k)) (pa + of_nat (4096 * k)) (n - of_nat k) ?fl (free1, m2) = (free1 + of_nat (4096 * u'), m') \<and>
        u' \<le> span_tables (p + k) (unat (n - of_nat k)) \<and> boot_ok cr3 m' \<and>
        (\<forall>q<1047552. boot_space cr3 m' q = map_spec (pa + of_nat (4096 * k)) (p + k) (unat (n - of_nat k)) (boot_space cr3 m2) q) \<and>
        boot_used cr3 m' \<subseteq> boot_used cr3 m2 \<union> frames free1 u'"
      using less.prems(2,5) k st bt(6)
      by (intro less.hyps [OF _ fp(2) _ aligned_add [OF less.prems(3)] fresh2]) (simp_all add: nk)
    then obtain m' u' where rest: "map_span cr3 (page_addr (p + k)) (pa + of_nat (4096 * k)) (n - of_nat k) ?fl (free1, m2) = (free1 + of_nat (4096 * u'), m')"
        "u' \<le> span_tables (p + k) (unat (n - of_nat k))" "boot_ok cr3 m'"
        "\<forall>q<1047552. boot_space cr3 m' q = map_spec (pa + of_nat (4096 * k)) (p + k) (unat (n - of_nat k)) (boot_space cr3 m2) q"
        "boot_used cr3 m' \<subseteq> boot_used cr3 m2 \<union> frames free1 u'" by blast
    have "map_span cr3 (page_addr p) pa n ?fl (free, m) = (free + of_nat (4096 * (u + u')), m')"
      using False rest(1) bt(1,7) fp(1) idx by (simp add: map_span.simps [of cr3 "page_addr p"] distrib_left add.assoc)
    moreover have "u + u' \<le> span_tables p (unat n)" using rest(2) st bt(6) by (simp add: nk)
    moreover have "\<forall>q<1047552. boot_space cr3 m' q = map_spec pa p (unat n) (boot_space cr3 m) q"
    proof (intro allI impI)
      fix q :: nat assume q: "q < 1047552"
      have "boot_space cr3 m' q = map_spec (pa + of_nat (4096 * k)) (p + k) (unat n - k) (map_spec pa p k (boot_space cr3 m)) q"
        using rest(4) fp(4) bt(5) q by (simp add: nk map_spec_def)
      then show "boot_space cr3 m' q = map_spec pa p (unat n) (boot_space cr3 m) q"
        using k(2) by (simp only: map_spec_add) simp
    qed
    moreover have "boot_used cr3 m' \<subseteq> boot_used cr3 m \<union> frames free (u + u')"
      using rest(5) bt(8) frames_add [of free u u'] unfolding used2 bt(7) by blast
    ultimately show ?thesis using rest(3) by blast
  qed
qed

section \<open>The boot address space\<close>

lemma empty_directory:
  assumes "cr3 AND 0xFFF = 0" "\<And>d. d < 1024 \<Longrightarrow> m cr3 d = 0"
  shows "boot_ok cr3 m" "boot_used cr3 m = {cr3}" "q < 1047552 \<Longrightarrow> boot_space cr3 m q = None"
proof -
  have dir: "rec_dir cr3 m cr3 d = (if d = 1023 then cr3 OR 3 else 0)" if "d < 1024" for d
    using assms(2) [OF that] by (simp add: rec_dir_def)
  have z: "\<not> present 0" by (simp add: present_def)
  note e = new_entry [OF assms(1)]
  show "boot_ok cr3 m" unfolding boot_ok_def pt_ok_def rec_ok_def using e z by (auto simp: dir)
  show "boot_used cr3 m = {cr3}" unfolding boot_used_def tables_def using e z by (auto simp: dir intro!: exI [of _ 1023] split: if_splits)
  show "q < 1047552 \<Longrightarrow> boot_space cr3 m q = None"
    using user_pde [of q] assms(2) [OF of_nat_index_lt(2) [of q]] z by (simp add: boot_space_def aspace_def Let_def)
qed

text \<open>What the linker script and the declarations of the arrays give: page-aligned arrays that do not
  overlap, and a kernel image whose two spans fit below the last 4 MiB and into 64 tables.\<close>

definition layout_ok :: "boot_layout \<Rightarrow> bool" where
  "layout_ok L \<longleftrightarrow>
     page_directory L AND 0xFFF = 0 \<and> kernel_tables L AND 0xFFF = 0 \<and> boot_tables L AND 0xFFF = 0 \<and>
     page_directory L \<notin> frames (kernel_tables L) 64 \<and> page_directory L \<notin> frames (boot_tables L) 2 \<and>
     frames (kernel_tables L) 64 \<inter> frames (boot_tables L) 2 = {} \<and>
     (0x100000 + va_pa_off L) AND 0xFFF = 0 \<and> kernel_start L AND 0xFFF = 0 \<and> kernel_phys_base L AND 0xFFF = 0"

definition boot_pages :: "boot_layout \<Rightarrow> nat" where
  "boot_pages L = unat (PAGES_UP (kernel_phys_base L - 0x100000))"

definition kernel_pages :: "boot_layout \<Rightarrow> nat" where
  "kernel_pages L = unat (PAGES_UP (image_end L - kernel_start L))"

definition spans_fit :: "boot_layout \<Rightarrow> bool" where
  "spans_fit L \<longleftrightarrow>
     page_no (0x100000 + va_pa_off L) + boot_pages L \<le> 1047552 \<and> page_no (kernel_start L) + kernel_pages L \<le> 1047552 \<and>
     span_tables (page_no (0x100000 + va_pa_off L)) (boot_pages L) + span_tables (page_no (kernel_start L)) (kernel_pages L) \<le> 64"

text \<open>The address space after boot: the first 4 MiB, the alias of the boot code, the kernel.\<close>

definition boot_map :: "boot_layout \<Rightarrow> nat \<Rightarrow> u32 option" where
  "boot_map L = map_spec (kernel_phys_base L) (page_no (kernel_start L)) (kernel_pages L)
     (map_spec 0x100000 (page_no (0x100000 + va_pa_off L)) (boot_pages L) (map_spec 0 0 1024 (\<lambda>_. None)))"

lemma aligned_page_addr: "a AND 0xFFF = 0 \<Longrightarrow> page_addr (page_no a) = a"
proof -
  assume "a AND 0xFFF = (0 :: u32)"
  then have "unat a mod 4096 = 0" using unat_and_pow2_mask [of a 12] by simp
  then show ?thesis by (intro page_addr_page_no) (simp add: dvd_eq_mod_eq_0)
qed

lemma init_tables:
  assumes "layout_ok L"
  shows "\<exists>m1 m2. zero_page_table (kernel_tables L) KERNEL_TABLES (zero_page_directory (page_directory L) m) = Some m1 \<and>
    zero_page_table (boot_tables L) BOOT_TABLES m1 = Some m2 \<and> (\<forall>d<1024. m2 (page_directory L) d = 0)"
proof -
  have dir: "page_directory L \<notin> frames (kernel_tables L) (Suc 63)" "page_directory L \<notin> frames (boot_tables L) (Suc 1)"
    using assms by (simp_all add: layout_ok_def eval_nat_numeral)
  obtain m1 where m1: "zero_page_table (kernel_tables L) KERNEL_TABLES (zero_page_directory (page_directory L) m) = Some m1"
    "m1 (page_directory L) = zero_page_directory (page_directory L) m (page_directory L)"
    using zero_page_table_keeps [OF _ dir(1), of KERNEL_TABLES] by (auto simp: KERNEL_TABLES_def)
  obtain m2 where m2: "zero_page_table (boot_tables L) BOOT_TABLES m1 = Some m2" "m2 (page_directory L) = m1 (page_directory L)"
    using zero_page_table_keeps [OF _ dir(2), of BOOT_TABLES] by (auto simp: BOOT_TABLES_def)
  have "m2 (page_directory L) d = 0" if "d < 1024" for d
    using that by (simp add: m2 m1 zero_page_directory_def zero_frame_eq word_less_nat_alt)
  with m1 m2 show ?thesis by blast
qed

lemma used_fresh: "a AND 0xFFF = 0 \<Longrightarrow> frames a n \<inter> boot_used cr3 m = {} \<Longrightarrow> n \<le> 64 \<Longrightarrow> fresh_tables cr3 m a n"
  by (simp add: fresh_tables_def)

text \<open>C5. \<^verbatim>\<open>init_paging\<close> terminates and turns paging on with a directory that maps the first 4 MiB to
  themselves, the boot code and the kernel image to their high addresses and nothing else
  below the last 4 MiB; the directory maps itself in its last entry and no two entries share
  a table, which is what the run-time paging code relies on.
\<close>

theorem init_paging_maps:
  assumes "layout_ok L" "spans_fit L"
  shows "\<exists>m'. init_paging L m cr3 cr0 = Some (m', page_directory L, cr0 OR 0x80000000) \<and> pt_ok (page_directory L) m' \<and>
    (\<forall>va. page_no va < 1047552 \<longrightarrow> mmu_walk (page_directory L) m' va = boot_map L (page_no va))"
proof -
  let ?pd = "page_directory L" and ?fl = PAGE_ENTRY_WRITE_KERNEL_FLAGS
  let ?pb = "page_no (0x100000 + va_pa_off L)" and ?pk = "page_no (kernel_start L)"
  note lay = assms(1) [unfolded layout_ok_def]
  note fit = assms(2) [unfolded spans_fit_def]
  obtain m1 m2 where z: "zero_page_table (kernel_tables L) KERNEL_TABLES (zero_page_directory ?pd m) = Some m1"
    "zero_page_table (boot_tables L) BOOT_TABLES m1 = Some m2" "\<forall>d<1024. m2 ?pd d = 0"
    using init_tables [OF assms(1)] by blast
  have pd: "?pd AND 0xFFF = 0" using lay by simp
  note e = empty_directory [of ?pd m2, OF pd z(3) [rule_format]]
  have "fresh_tables ?pd m2 (boot_tables L) 2" using lay e(2) by (intro used_fresh) auto
  moreover have "unat ENTRIES_AMOUNT = 1024" "span_tables 0 1024 = 1" "0 = page_addr 0" "(0 :: u32) AND PAGE_MASK = 0"
    by (simp_all add: ENTRIES_AMOUNT_def span_tables_def page_addr_def)
  ultimately obtain m3 u where s1: "map_span ?pd 0 0 ENTRIES_AMOUNT ?fl (boot_tables L, m2) = (boot_tables L + of_nat (4096 * u), m3)"
    "u \<le> 1" "boot_ok ?pd m3" "\<forall>q<1047552. boot_space ?pd m3 q = map_spec 0 0 1024 (boot_space ?pd m2) q"
    "boot_used ?pd m3 \<subseteq> {?pd} \<union> frames (boot_tables L) u"
    using map_span_correct [OF e(1), of 0 ENTRIES_AMOUNT 0 "boot_tables L" 2] e(2) by auto
  have "boot_used ?pd m3 \<subseteq> {?pd} \<union> frames (boot_tables L) 2" using s1(2,5) frames_mono [of u 2] by fastforce
  then have f3: "fresh_tables ?pd m3 (kernel_tables L) 64" using lay by (intro used_fresh) auto
  have pa: "(0x100000 :: u32) AND PAGE_MASK = 0x100000" "kernel_phys_base L AND PAGE_MASK = kernel_phys_base L"
    using lay aligned_frame by (simp_all add: PAGE_MASK_def PAGE_SIZE_def)
  obtain m4 v where s2: "map_span ?pd (0x100000 + va_pa_off L) 0x100000 (PAGES_UP (kernel_phys_base L - 0x100000)) ?fl (kernel_tables L, m3) =
      (kernel_tables L + of_nat (4096 * v), m4)" "v \<le> span_tables ?pb (boot_pages L)" "boot_ok ?pd m4"
    "\<forall>q<1047552. boot_space ?pd m4 q = map_spec 0x100000 ?pb (boot_pages L) (boot_space ?pd m3) q"
    "boot_used ?pd m4 \<subseteq> boot_used ?pd m3 \<union> frames (kernel_tables L) v"
    using map_span_correct [OF s1(3) _ pa(1) f3, of ?pb "PAGES_UP (kernel_phys_base L - 0x100000)"] fit lay
    by (auto simp: boot_pages_def aligned_page_addr)
  have f4: "fresh_tables ?pd m4 (kernel_tables L + of_nat (4096 * v)) (64 - v)"
    using fresh_tables_next [OF f3 _ s2(5)] s2(2) fit by simp
  have k4: "span_tables ?pk (unat (PAGES_UP (image_end L - kernel_start L))) \<le> 64 - v"
    using fit s2(2) unfolding kernel_pages_def by linarith
  obtain m5 w where s3: "map_span ?pd (kernel_start L) (kernel_phys_base L) (PAGES_UP (image_end L - kernel_start L)) ?fl
      (kernel_tables L + of_nat (4096 * v), m4) = (kernel_tables L + of_nat (4096 * v) + of_nat (4096 * w), m5)" "boot_ok ?pd m5"
    "\<forall>q<1047552. boot_space ?pd m5 q = map_spec (kernel_phys_base L) ?pk (kernel_pages L) (boot_space ?pd m4) q"
    using map_span_correct [OF s2(3) _ pa(2) f4, of ?pk "PAGES_UP (image_end L - kernel_start L)", OF _ k4] fit lay
    by (auto simp: kernel_pages_def aligned_page_addr)
  have "init_paging L m cr3 cr0 = Some (rec_dir ?pd m5, ?pd, cr0 OR 0x80000000)"
    by (simp add: init_paging_def z(1,2) s1(1) s2(1) s3(1) Let_def kernel_flags del: of_nat_mult)
      (simp add: rec_dir_def ENTRIES_AMOUNT_def set_cr3_def enable_paging_def)
  moreover have "\<forall>q<1047552. boot_space ?pd m5 q = boot_map L q"
    using s3(3) s2(4) s1(4) e(3) by (simp add: boot_map_def map_spec_def)
  ultimately show ?thesis
    using s3(2) by (auto simp: boot_ok_def boot_space_def mmu_walk_aspace)
qed

text \<open>A kernel linked at 0xC0000000 and loaded at 2 MiB, with an image of 1 MiB and its tables at 1 MiB.\<close>

definition small_layout :: boot_layout where
  "small_layout = \<lparr>page_directory = 0x110000, kernel_tables = 0x111000, boot_tables = 0x151000, va_pa_off = 0xBFE00000,
     kernel_start = 0xC0000000, kernel_phys_base = 0x200000, image_end = 0xC0100000\<rparr>"

lemma frames_disjoint:
  assumes "a + 4096 * n \<le> b" "b + 4096 * k \<le> 2 ^ 32"
  shows "frames (of_nat a) n \<inter> frames (of_nat b) k = {}"
proof (rule ccontr)
  assume "\<not> ?thesis"
  then obtain i j where ij: "i < n" "j < k" "(of_nat (a + 4096 * i) :: u32) = of_nat (b + 4096 * j)"
    by (auto simp: frames_def)
  then have "a + 4096 * i = b + 4096 * j" using assms of_nat_u32_inj [of "a + 4096 * i" "b + 4096 * j"] by simp
  with ij assms show False by simp
qed

lemma small_layout_ok: "layout_ok small_layout" "spans_fit small_layout"
proof -
  have "frames (of_nat 0x111000) 64 \<inter> frames (of_nat 0x151000) 2 = {}"
    "frames (of_nat 0x110000) 1 \<inter> frames (of_nat 0x111000) 64 = {}" "frames (of_nat 0x110000) 1 \<inter> frames (of_nat 0x151000) 2 = {}"
    by (rule frames_disjoint; simp)+
  moreover have "frames a 1 = {a}" for a by (simp add: frames_def lessThan_Suc)
  ultimately show "layout_ok small_layout" by (simp add: layout_ok_def small_layout_def)
  show "spans_fit small_layout"
    by (simp add: spans_fit_def small_layout_def span_tables_def page_no_def boot_pages_def kernel_pages_def PAGES_UP_def PAGE_SIZE_def)
qed

theorem init_paging_maps_witness:
  "\<exists>m'. init_paging small_layout (\<lambda>_ _. 7) 0 0x11 = Some (m', 0x110000, 0x80000011) \<and>
     mmu_walk 0x110000 m' 0xC0042123 = Some 0x242000 \<and> mmu_walk 0x110000 m' 0xB8000 = Some 0xB8000 \<and>
     mmu_walk 0x110000 m' 0xC0200000 = None"
proof -
  obtain m' where m': "init_paging small_layout (\<lambda>_ _. 7) 0 0x11 = Some (m', page_directory small_layout, 0x11 OR 0x80000000)"
    "\<forall>va. page_no va < 1047552 \<longrightarrow> mmu_walk (page_directory small_layout) m' va = boot_map small_layout (page_no va)"
    using init_paging_maps [OF small_layout_ok] by blast
  have "page_no 0xC0042123 < 1047552" "page_no 0xB8000 < 1047552" "page_no 0xC0200000 < 1047552" by (simp_all add: page_no_def)
  then show ?thesis
    using m' by (intro exI [of _ m'])
      (simp add: boot_map_def map_spec_def page_no_def small_layout_def boot_pages_def kernel_pages_def PAGES_UP_def PAGE_SIZE_def)
qed

end
