(* ===== verification/Ext2.thy ===== *)
theory Ext2
  imports Core_Defs Libk_String
begin

text \<open>
  The Ext2 driver: \<^verbatim>\<open>kernel/filesystem/Ext2\<close> with the on-disk structures of \<^verbatim>\<open>disk.h\<close>.

  A block device is its block size and the bytes that a read of some blocks leaves in the
  buffer: \<open>bd_read\<close> stands for \<^verbatim>\<open>block_submit\<close> and the wait for its completion, which go through
  the driver's function pointer. On-disk structures are decoded from little-endian bytes, with
  the fields that the code reads. Buffers are lists of bytes, and accesses behind their
  end are \<open>BadAccess\<close>. The results of the \<^verbatim>\<open>i32\<close> functions are integers, negative for errors.
\<close>

section \<open>The disk\<close>

record block_dev =
  bd_block_size :: usize
  bd_read :: "usize \<Rightarrow> usize \<Rightarrow> u8 list kres"

text \<open>\<^verbatim>\<open>fs_read_bytes\<close>: whole blocks are read into a buffer of whole pages, and the wanted part is
  copied out of it.\<close>

definition fs_read_bytes :: "block_dev \<Rightarrow> u32 \<Rightarrow> usize \<Rightarrow> u8 list kres" where
  "fs_read_bytes dev len offset =
     (let bs = bd_block_size dev
      in if bs = 0 then Inl DivideError
         else let unnecessary = offset mod bs; fetch_length = ucast len + unnecessary
         in kbind (div_up fetch_length (ucast PAGE_SIZE)) (\<lambda>pages.
            kbind (align_up_n (ucast fetch_length) (ucast bs)) (\<lambda>aligned.
            let block_count = ucast aligned div bs
            in if unat pages * 4096 < unat block_count * unat bs then Inl BadAccess
               else kbind (bd_read dev (offset div bs) block_count) (\<lambda>buf.
                    Inr (take (unat len) (drop (unat unnecessary) buf))))))"

definition le16 :: "u8 list \<Rightarrow> nat \<Rightarrow> u16" where
  "le16 b i = ucast (b ! i) OR push_bit 8 (ucast (b ! (i + 1)))"

definition le32 :: "u8 list \<Rightarrow> nat \<Rightarrow> u32" where
  "le32 b i = ucast (b ! i) OR push_bit 8 (ucast (b ! (i + 1)))
     OR push_bit 16 (ucast (b ! (i + 2))) OR push_bit 24 (ucast (b ! (i + 3)))"

section \<open>On-disk structures\<close>

definition EXT2_MAGIC :: u16 where "EXT2_MAGIC = 0xEF53"
definition EXT2_SB_OFFSET :: usize where "EXT2_SB_OFFSET = 1024"
definition EXT2_ROOT_INODE :: u32 where "EXT2_ROOT_INODE = 2"
definition EXT2_FT_DIR :: u16 where "EXT2_FT_DIR = 4"
definition EXT2_INODE_INDIRECT_BLOCKS :: u32 where "EXT2_INODE_INDIRECT_BLOCKS = 12"

definition EXT2_BLOCK_SIZE :: "u32 \<Rightarrow> u32" where
  "EXT2_BLOCK_SIZE base = push_bit (unat base) 1024"

record ext2_disk_superblock =
  inodes_count :: u32
  blocks_count :: u32
  log_block_size :: u32
  blocks_per_group :: u32
  inodes_per_group :: u32
  sb_magic :: u16
  inode_size :: u16

definition sizeof_disk_superblock :: u32 where "sizeof_disk_superblock = 90"

definition disk_superblock :: "u8 list \<Rightarrow> ext2_disk_superblock" where
  "disk_superblock b = \<lparr>inodes_count = le32 b 0, blocks_count = le32 b 4, log_block_size = le32 b 24,
     blocks_per_group = le32 b 32, inodes_per_group = le32 b 40, sb_magic = le16 b 56, inode_size = le16 b 88\<rparr>"

record ext2_inode =
  in_num :: u32
  in_mode :: u16
  in_size :: u32
  in_block :: "u32 list"

definition sizeof_disk_inode :: u32 where "sizeof_disk_inode = 128"

definition disk_inode :: "u32 \<Rightarrow> u8 list \<Rightarrow> ext2_inode" where
  "disk_inode num b = \<lparr>in_num = num, in_mode = le16 b 0, in_size = le32 b 4,
     in_block = map (\<lambda>k. le32 b (40 + 4 * k)) [0..<15]\<rparr>"

definition ext2_inode_is_type :: "ext2_inode \<Rightarrow> u16 \<Rightarrow> bool" where
  "ext2_inode_is_type node type \<longleftrightarrow> drop_bit 12 (in_mode node AND 0xF000) = type"

text \<open>A mounted file system: the superblock, the block size and the inode tables of its groups.\<close>

record ext2_fs_instance =
  disk_sb :: ext2_disk_superblock
  fs_block_size :: u32
  bgdt_offset :: u32
  bgd_descs_count :: u32
  bgd_inode_table :: "u32 list"

section \<open>Mounting\<close>

definition ext2_match :: "block_dev \<Rightarrow> bool kres" where
  "ext2_match dev =
     kbind (fs_read_bytes dev sizeof_disk_superblock EXT2_SB_OFFSET) (\<lambda>b.
     let sb = disk_superblock b
     in kbind (div_up (ucast (inodes_count sb)) (ucast (inodes_per_group sb))) (\<lambda>groups1.
        kbind (div_up (ucast (blocks_count sb)) (ucast (blocks_per_group sb))) (\<lambda>groups2.
        Inr (sb_magic sb = EXT2_MAGIC \<and> (ucast groups1 :: u32) = ucast groups2))))"

definition fetch_bgdt :: "block_dev \<Rightarrow> ext2_fs_instance \<Rightarrow> ext2_fs_instance kres" where
  "fetch_bgdt dev fs =
     (let fs = fs\<lparr>bgdt_offset := (if fs_block_size fs = 1024 then 2 * fs_block_size fs else 1 * fs_block_size fs)\<rparr>
      in kbind (div_up (ucast (inodes_count (disk_sb fs))) (ucast (inodes_per_group (disk_sb fs)))) (\<lambda>count.
         let fs = fs\<lparr>bgd_descs_count := ucast count\<rparr>; descs_size = bgd_descs_count fs * 32
         in kbind (fs_read_bytes dev descs_size (ucast (bgdt_offset fs))) (\<lambda>b.
            Inr (fs\<lparr>bgd_inode_table := map (\<lambda>g. le32 b (32 * g + 8)) [0..<unat (bgd_descs_count fs)]\<rparr>))))"

text \<open>\<^verbatim>\<open>ext2_mount\<close> without the inode cache: the caller fetches the root inode into it.\<close>

definition ext2_mount_instance :: "block_dev \<Rightarrow> ext2_fs_instance kres" where
  "ext2_mount_instance dev =
     kbind (fs_read_bytes dev sizeof_disk_superblock EXT2_SB_OFFSET) (\<lambda>b.
     fetch_bgdt dev \<lparr>disk_sb = disk_superblock b, fs_block_size = EXT2_BLOCK_SIZE (log_block_size (disk_superblock b)),
       bgdt_offset = 0, bgd_descs_count = 0, bgd_inode_table = []\<rparr>)"

section \<open>Inodes\<close>

definition ext2_get_block_group :: "ext2_fs_instance \<Rightarrow> u32 \<Rightarrow> u32 kres" where
  "ext2_get_block_group fs inode_num =
     kbind (kassert (inode_num \<le> inodes_count (disk_sb fs))) (\<lambda>_.
     if inodes_per_group (disk_sb fs) = 0 then Inl DivideError
     else Inr ((inode_num - 1) div inodes_per_group (disk_sb fs)))"

text \<open>The offset is computed with 32 bits. The local array has \<^verbatim>\<open>inode_size\<close> bytes.\<close>

definition make_init_inode :: "block_dev \<Rightarrow> ext2_fs_instance \<Rightarrow> u32 \<Rightarrow> ext2_inode kres" where
  "make_init_inode dev fs inode_num =
     kbind (ext2_get_block_group fs inode_num) (\<lambda>bgd_index.
     if \<not> unat bgd_index < length (bgd_inode_table fs) then Inl BadAccess
     else let inode_table_block = bgd_inode_table fs ! unat bgd_index;
              index_in_group = (inode_num - 1) mod inodes_per_group (disk_sb fs);
              inode_offset = ucast (inode_table_block * fs_block_size fs + ucast (inode_size (disk_sb fs)) * index_in_group);
              inode_size = ucast (inode_size (disk_sb fs))
          in kbind (fs_read_bytes dev inode_size inode_offset) (\<lambda>b.
             if inode_size < sizeof_disk_inode then Inl BadAccess else Inr (disk_inode inode_num b)))"

definition ext2_read_u32 :: "block_dev \<Rightarrow> usize \<Rightarrow> u32 \<Rightarrow> u32 \<Rightarrow> u32 kres" where
  "ext2_read_u32 dev block_size block index =
     kbind (fs_read_bytes dev 4 (ucast block * block_size + ucast (index * 4))) (\<lambda>b. Inr (le32 b 0))"

definition ext2_get_inode_block_index :: "block_dev \<Rightarrow> ext2_fs_instance \<Rightarrow> ext2_inode \<Rightarrow> u32 \<Rightarrow> u32 kres" where
  "ext2_get_inode_block_index dev fs node index =
     (let block_size = fs_block_size fs; ptrs = block_size div 4
      in if index < EXT2_INODE_INDIRECT_BLOCKS then Inr (in_block node ! unat index)
         else let index = index - EXT2_INODE_INDIRECT_BLOCKS
         in if index < ptrs then ext2_read_u32 dev (ucast block_size) (in_block node ! 12) index
         else let index = index - ptrs
         in if index < ptrs * ptrs
            then let double_block = in_block node ! 13; index1 = index div ptrs; index2 = index mod ptrs
                 in kbind (ext2_read_u32 dev (ucast block_size) double_block index1)
                      (\<lambda>block. ext2_read_u32 dev (ucast block_size) block index2)
         else if ptrs * ptrs = 0 then Inl DivideError
         else let index = index - ptrs * ptrs; triple_block = in_block node ! 14;
                  index1 = index div (ptrs * ptrs); remainder = index mod (ptrs * ptrs);
                  index2 = remainder div ptrs; index3 = remainder mod ptrs
              in kbind (ext2_read_u32 dev (ucast block_size) triple_block index1) (\<lambda>double_block.
                 kbind (ext2_read_u32 dev (ucast block_size) double_block index2) (\<lambda>block.
                 ext2_read_u32 dev (ucast block_size) block index3)))"

section \<open>Reading a file\<close>

definition VFS_ERR_NOENT :: int where "VFS_ERR_NOENT = 1"
definition VFS_ERR_NOTDIR :: int where "VFS_ERR_NOTDIR = 3"
definition VFS_ERR_ISDIR :: int where "VFS_ERR_ISDIR = 4"
definition VFS_ERR_INVAL :: int where "VFS_ERR_INVAL = 7"

text \<open>Storing bytes at the start of a buffer.\<close>

definition put_bytes :: "u8 list \<Rightarrow> u8 list \<Rightarrow> u8 list kres" where
  "put_bytes data buf = (if length data \<le> length buf then Inr (data @ drop (length data) buf) else Inl BadAccess)"

text \<open>The loop of \<^verbatim>\<open>ext2_read_inode\<close>: \<^verbatim>\<open>cur_buffer\<close> stays at the start of the buffer, and the whole length is
  subtracted from the remaining length.\<close>

partial_function (option) read_inode_loop ::
  "block_dev \<Rightarrow> ext2_fs_instance \<Rightarrow> ext2_inode \<Rightarrow> usize \<Rightarrow> usize \<Rightarrow> usize \<Rightarrow> u8 list \<Rightarrow> u8 list kloop" where
  "read_inode_loop dev fs node len file_offset remaining_length buf =
     (if remaining_length = 0 then lret buf
      else let block_size = ucast (fs_block_size fs)
      in if block_size = 0 then Some (Inl DivideError)
      else let file_block_index = ucast (file_offset div block_size); file_block_off = file_offset mod block_size;
               chunk_length = (if block_size - file_block_off < remaining_length then block_size - file_block_off else remaining_length)
      in lbind (Some (ext2_get_inode_block_index dev fs node file_block_index)) (\<lambda>block_index.
         if block_index = 0 then lret buf
         else lbind (Some (fs_read_bytes dev (ucast chunk_length) (ucast block_index * block_size + file_block_off))) (\<lambda>data.
              lbind (Some (put_bytes data buf)) (\<lambda>buf.
              read_inode_loop dev fs node len (file_offset + chunk_length) (remaining_length - len) buf))))"

declare read_inode_loop.simps [code]

definition ext2_read_inode ::
  "block_dev \<Rightarrow> ext2_fs_instance \<Rightarrow> ext2_inode \<Rightarrow> u8 list \<Rightarrow> usize \<Rightarrow> usize \<Rightarrow> (int \<times> u8 list) kloop" where
  "ext2_read_inode dev fs node buf len file_offset =
     (if len + file_offset > ucast (in_size node) then lret (- VFS_ERR_INVAL, buf)
      else lbind (read_inode_loop dev fs node len file_offset len buf) (\<lambda>buf. lret (sint (ucast len :: u32), buf)))"

definition ext2_vfs_read ::
  "block_dev \<Rightarrow> ext2_fs_instance \<Rightarrow> ext2_inode \<Rightarrow> u8 list \<Rightarrow> usize \<Rightarrow> usize \<Rightarrow> (int \<times> u8 list) kloop" where
  "ext2_vfs_read dev fs node buf sz offset =
     (if ext2_inode_is_type node EXT2_FT_DIR then lret (- VFS_ERR_ISDIR, buf)
      else ext2_read_inode dev fs node buf sz offset)"

section \<open>Directories\<close>

text \<open>The loop over the entries of a directory: \<open>Some (Inr i)\<close> in the result is the inode number of the
  entry with the wanted name. An entry has its inode number, its length, the length of the name and the
  file type in eight bytes before the name.\<close>

partial_function (option) lookup_loop :: "u8 list \<Rightarrow> u8 list \<Rightarrow> u32 \<Rightarrow> u32 \<Rightarrow> u32 option kloop" where
  "lookup_loop dir_data child sz cur =
     (if cur < sz
      then if length dir_data < unat cur + 8 then Some (Inl BadAccess)
      else let name_len = unat (dir_data ! (unat cur + 6)); rec_len = le16 dir_data (unat cur + 4);
               name = take name_len (drop (unat cur + 8) dir_data)
      in if length child = name_len \<and> name = child then lret (Some (le32 dir_data (unat cur)))
      else if length child = name_len \<and> length name < name_len \<and> name = take (length name) child then Some (Inl BadAccess)
      else lookup_loop dir_data child sz (cur + ucast rec_len)
      else lret None)"

declare lookup_loop.simps [code]

text \<open>\<open>junk\<close> is what \<^verbatim>\<open>kmalloc\<close> leaves in the buffer; the result is an error or the inode number found,
  which \<^verbatim>\<open>ext2_fetch_inode\<close> turns into an inode.\<close>

definition ext2_vfs_lookup ::
  "block_dev \<Rightarrow> ext2_fs_instance \<Rightarrow> ext2_inode \<Rightarrow> u8 list \<Rightarrow> u8 list \<Rightarrow> (int + u32) kloop" where
  "ext2_vfs_lookup dev fs node junk child =
     (if \<not> ext2_inode_is_type node EXT2_FT_DIR then lret (Inl (- VFS_ERR_NOTDIR))
      else lbind (ext2_read_inode dev fs node junk (ucast (in_size node)) 0) (\<lambda>(res, dir_data).
           if res < 0 then lret (Inl res)
           else lbind (lookup_loop dir_data child (in_size node) 0) (\<lambda>found.
                case found of Some i \<Rightarrow> lret (Inr i) | None \<Rightarrow> lret (Inl (- VFS_ERR_NOENT)))))"

section \<open>Reading bytes\<close>

text \<open>What the driver gives: a read of some blocks returns the bytes of the disk there.\<close>

definition disk_bytes :: "(nat \<Rightarrow> u8) \<Rightarrow> nat \<Rightarrow> nat \<Rightarrow> u8 list" where
  "disk_bytes disk a n = map disk [a..<a + n]"

lemma length_disk_bytes [simp]: "length (disk_bytes disk a n) = n"
  by (simp add: disk_bytes_def)

lemma nth_disk_bytes [simp]: "i < n \<Longrightarrow> disk_bytes disk a n ! i = disk (a + i)"
  by (simp add: disk_bytes_def)

lemma take_drop_disk_bytes: "i + k \<le> n \<Longrightarrow> take k (drop i (disk_bytes disk a n)) = disk_bytes disk (a + i) k"
  by (rule nth_equalityI) (simp_all add: add.assoc)

text \<open>The block sizes of real devices are powers of two that divide the page size.\<close>

definition dev_ok :: "(nat \<Rightarrow> u8) \<Rightarrow> block_dev \<Rightarrow> bool" where
  "dev_ok disk dev \<longleftrightarrow> is_pow2 (unat (bd_block_size dev)) \<and> unat (bd_block_size dev) \<le> 4096 \<and>
     (\<forall>b n. bd_read dev b n =
        Inr (disk_bytes disk (unat b * unat (bd_block_size dev)) (unat n * unat (bd_block_size dev))))"

lemma pow2_dvd_4096: "is_pow2 n \<Longrightarrow> n \<le> 4096 \<Longrightarrow> n dvd (4096 :: nat)"
proof -
  assume "is_pow2 n" "n \<le> 4096"
  then obtain k where k: "n = 2 ^ k" by (auto simp: is_pow2_def)
  then have "(2::nat) ^ k \<le> 2 ^ 12" using \<open>n \<le> 4096\<close> by simp
  then have "k \<le> 12" by (simp only: power_increasing_iff)
  then show ?thesis using k le_imp_power_dvd [of k 12 "2 :: nat"] by simp
qed

lemma fs_read_bytes_eq:
  assumes dev: "dev_ok disk dev" and len: "unat len \<le> 2 ^ 31" and off: "unat offset + unat len < 2 ^ 64"
  shows "fs_read_bytes dev len offset = Inr (disk_bytes disk (unat offset) (unat len))"
proof -
  define bs where "bs = bd_block_size dev"
  have bs: "is_pow2 (unat bs)" "unat bs \<le> 4096" "0 < unat bs" "bs \<noteq> 0"
    using dev is_pow2_pos [of "unat bs"] by (auto simp: dev_ok_def bs_def)
  define un where "un = offset mod bs"
  have un: "unat un = unat offset mod unat bs" "unat un < unat bs" using bs by (simp_all add: un_def unat_mod_distrib)
  define fl where "fl = ucast len + un"
  have "unat len + unat un < 2 ^ 64" using len un(2) bs(2) by simp
  then have fl: "unat fl = unat len + unat un" by (simp add: fl_def unat_word_ariths)
  have "unat fl < 2 ^ 32" using fl len un(2) bs(2) by simp
  then have fl32: "unat (ucast fl :: u32) = unat fl" by (simp add: unsigned_ucast_eq take_bit_eq_mod)
  have bs32: "unat (ucast bs :: u32) = unat bs" using bs by (simp add: unsigned_ucast_eq take_bit_eq_mod)
  obtain pages where pages: "div_up fl (ucast PAGE_SIZE) = Inr pages" "unat fl \<le> unat pages * 4096"
  proof (rule div_up_spec [of "ucast PAGE_SIZE :: u64" fl])
    show "unat fl + unat (ucast PAGE_SIZE :: u64) \<le> 2 ^ 64"
      using \<open>unat fl < 2 ^ 32\<close> by (simp add: PAGE_SIZE_def)
  qed (simp_all add: PAGE_SIZE_def)
  have "is_pow2 (unat (ucast bs :: u32))" "unat (ucast fl :: u32) + unat (ucast bs :: u32) \<le> 2 ^ 32"
    using bs bs32 fl32 fl len un by auto
  then obtain r where r: "align_up_n (ucast fl) (ucast bs) = Inr r" "unat bs dvd unat r" "unat fl \<le> unat r"
      "unat r < unat fl + unat bs"
    using align_up_n_spec [of "ucast bs" "ucast fl"] bs32 fl32 by metis
  define bc where "bc = (ucast r :: u64) div bs"
  have bc: "unat bc * unat bs = unat r" using r(2) by (simp add: bc_def unat_div_distrib)
  have "unat r \<le> unat pages * 4096"
  proof -
    obtain a where a: "unat r = unat bs * a" using r(2) by (rule dvdE)
    obtain b where b: "4096 = unat bs * b" using pow2_dvd_4096 [OF bs(1,2)] by (rule dvdE)
    note ab = a b
    have "unat bs * a < unat bs * (unat pages * b + 1)"
      using r(4) pages(2) ab by (simp add: algebra_simps)
    then have "a < unat pages * b + 1" by (simp only: nat_mult_less_cancel1 [OF bs(3)])
    then have "unat bs * a \<le> unat bs * (unat pages * b)" by simp
    also have "\<dots> = unat pages * (unat bs * b)" by (simp only: ac_simps)
    finally show ?thesis by (simp only: ab [symmetric])
  qed
  moreover have "bd_read dev (offset div bs) bc = Inr (disk_bytes disk (unat offset div unat bs * unat bs) (unat r))"
    using dev bc by (simp add: dev_ok_def bs_def unat_div_distrib)
  moreover have "unat offset div unat bs * unat bs + unat un = unat offset" by (simp add: un)
  ultimately show ?thesis
    using bs pages(1) r(1,3) bc fl
    by (simp add: fs_read_bytes_def bs_def [symmetric] un_def [symmetric] fl_def [symmetric] bc_def [symmetric] Let_def take_drop_disk_bytes)
qed

section \<open>The block tree of an inode\<close>

text \<open>The reference: the root pointer of a file block and the path of pointers below it, for \<open>p\<close> pointers in a
  block.\<close>

definition block_path :: "nat \<Rightarrow> nat \<Rightarrow> nat \<times> nat list" where
  "block_path p i =
     (if i < 12 then (i, [])
      else if i < 12 + p then (12, [i - 12])
      else if i < 12 + p + p * p then (13, [(i - 12 - p) div p, (i - 12 - p) mod p])
      else let j = i - 12 - p - p * p in (14, [j div (p * p), j div p mod p, j mod p]))"

definition disk_le32 :: "(nat \<Rightarrow> u8) \<Rightarrow> nat \<Rightarrow> u32" where
  "disk_le32 disk a = le32 (disk_bytes disk a 4) 0"

primrec follow :: "(nat \<Rightarrow> u8) \<Rightarrow> nat \<Rightarrow> u32 \<Rightarrow> nat list \<Rightarrow> u32" where
  "follow disk bs block [] = block"
| "follow disk bs block (i # path) = follow disk bs (disk_le32 disk (unat block * bs + 4 * i)) path"

definition file_block :: "(nat \<Rightarrow> u8) \<Rightarrow> nat \<Rightarrow> ext2_inode \<Rightarrow> nat \<Rightarrow> u32" where
  "file_block disk bs node i = (case block_path (bs div 4) i of (r, path) \<Rightarrow> follow disk bs (in_block node ! r) path)"

definition max_file_blocks :: "nat \<Rightarrow> nat" where
  "max_file_blocks p = 12 + p + p * p + p * p * p"

text \<open>File-system blocks have 1, 2 or 4 KiB.\<close>

definition fs_ok :: "ext2_fs_instance \<Rightarrow> bool" where
  "fs_ok fs \<longleftrightarrow> is_pow2 (unat (fs_block_size fs)) \<and> 1024 \<le> unat (fs_block_size fs) \<and> unat (fs_block_size fs) \<le> 4096"

lemma unat_block_offset:
  fixes block b :: u32 and off :: u64
  assumes "unat b \<le> 4096" "unat off \<le> 2 ^ 32"
  shows "unat (ucast block * ucast b + off) = unat block * unat b + unat off"
    "unat block * unat b + unat off < 2 ^ 60"
proof -
  have "unat block * unat b \<le> 2 ^ 32 * 4096" by (rule mult_le_mono [OF less_imp_le assms(1)]) simp
  then show *: "unat block * unat b + unat off < 2 ^ 60" using assms(2) by simp
  have "unat (ucast block * ucast b :: u64) = unat block * unat b"
    using * by (simp add: unat_word_ariths unsigned_ucast_eq take_bit_eq_mod)
  then show "unat (ucast block * ucast b + off) = unat block * unat b + unat off"
    using * by (simp add: unat_word_ariths)
qed

lemma ext2_read_u32_eq:
  fixes b :: u32
  assumes dev: "dev_ok disk dev" and b: "unat b \<le> 4096" and i: "unat index < 1024"
  shows "ext2_read_u32 dev (ucast b) block index = Inr (disk_le32 disk (unat block * unat b + 4 * unat index))"
proof -
  have "unat (index * 4) = 4 * unat index" using i by (simp add: unat_word_ariths)
  then have i4: "unat (ucast (index * 4) :: u64) = 4 * unat index" by simp
  then have "unat (ucast (index * 4) :: u64) \<le> 2 ^ 32" using i by simp
  note off = unat_block_offset [OF b this, of block]
  have "fs_read_bytes dev 4 (ucast block * ucast b + ucast (index * 4)) =
      Inr (disk_bytes disk (unat block * unat b + 4 * unat index) 4)"
    using fs_read_bytes_eq [OF dev, of 4 "ucast block * ucast b + ucast (index * 4)"] off i4 by simp
  then show ?thesis by (simp add: ext2_read_u32_def disk_le32_def)
qed

lemma file_block_eq:
  assumes dev: "dev_ok disk dev" and fs: "fs_ok fs"
    and i: "unat index < max_file_blocks (unat (fs_block_size fs) div 4)"
  shows "ext2_get_inode_block_index dev fs node index = Inr (file_block disk (unat (fs_block_size fs)) node (unat index))"
proof -
  define b where "b = fs_block_size fs"
  define p where "p = unat b div 4"
  define q where "q = b div 4"
  have b: "unat b \<le> 4096" "1024 \<le> unat b" using fs by (simp_all add: fs_ok_def b_def)
  have q: "unat q = p" by (simp add: q_def p_def unat_div_distrib)
  have p: "p \<le> 1024" "0 < p" using b by (simp_all add: p_def)
  have pp: "p * p \<le> 1024 * 1024" by (rule mult_le_mono [OF p(1) p(1)])
  have qq: "unat (q * q) = p * p" using pp q by (simp add: unat_word_ariths)
  note rd = ext2_read_u32_eq [OF dev b(1) order.strict_trans2 [OF _ p(1)]]
  define j where "j = index - 12"
  define k where "k = j - q"
  define l where "l = k - q * q"
  have code: "ext2_get_inode_block_index dev fs node index =
      (if unat index < 12 then Inr (in_block node ! unat index)
       else if unat j < p then ext2_read_u32 dev (ucast b) (in_block node ! 12) j
       else if unat k < p * p
       then kbind (ext2_read_u32 dev (ucast b) (in_block node ! 13) (k div q)) (\<lambda>block. ext2_read_u32 dev (ucast b) block (k mod q))
       else kbind (ext2_read_u32 dev (ucast b) (in_block node ! 14) (l div (q * q))) (\<lambda>double_block.
            kbind (ext2_read_u32 dev (ucast b) double_block (l mod (q * q) div q)) (\<lambda>block.
            ext2_read_u32 dev (ucast b) block (l mod (q * q) mod q))))"
    using p qq q by (auto simp: ext2_get_inode_block_index_def EXT2_INODE_INDIRECT_BLOCKS_def word_less_nat_alt Let_def
        b_def [symmetric] q_def [symmetric] j_def [symmetric] k_def [symmetric] l_def [symmetric])
  have j: "12 \<le> unat index \<Longrightarrow> unat j = unat index - 12" by (simp add: j_def unat_sub word_le_nat_alt)
  have k: "p \<le> unat j \<Longrightarrow> unat k = unat j - p" using q by (simp add: k_def unat_sub word_le_nat_alt)
  have l: "p * p \<le> unat k \<Longrightarrow> unat l = unat k - p * p" using qq by (simp add: l_def unat_sub word_le_nat_alt)
  have path: "file_block disk (unat b) node (unat index) =
      (case block_path p (unat index) of (r, path) \<Rightarrow> follow disk (unat b) (in_block node ! r) path)"
    by (simp add: file_block_def p_def)
  consider (direct) "unat index < 12" | (single) "12 \<le> unat index" "unat j < p"
    | (double) "12 \<le> unat index" "p \<le> unat j" "unat k < p * p"
    | (triple) "12 \<le> unat index" "p \<le> unat j" "p * p \<le> unat k" by linarith
  then have "ext2_get_inode_block_index dev fs node index = Inr (file_block disk (unat b) node (unat index))"
  proof cases
    case direct
    then show ?thesis by (simp add: code path block_path_def)
  next
    case single
    then have "unat index < 12 + p" using j by simp
    then show ?thesis using single j rd [of j] p by (simp add: code path block_path_def)
  next
    case double
    then have i: "unat k = unat index - 12 - p" "12 + p \<le> unat index" "unat index < 12 + p + p * p"
      using j k by simp_all
    have "unat (k div q) = unat k div p" "unat (k mod q) = unat k mod p" "unat k div p < p" "unat k mod p < p"
      using double(3) p q by (simp_all add: unat_div_distrib unat_mod_distrib less_mult_imp_div_less)
    then show ?thesis using double i rd p by (simp add: code path block_path_def)
  next
    case triple
    then have i: "unat l = unat index - 12 - p - p * p" "12 + p + p * p \<le> unat index"
      using j k l by simp_all
    have "unat index < 12 + p + p * p + p * p * p" using assms(3) by (simp add: max_file_blocks_def p_def b_def)
    then have "unat l < p * (p * p)" using i by (simp add: mult.assoc)
    then have "unat l div (p * p) < p" by (rule less_mult_imp_div_less)
    moreover have "unat l mod (p * p) div p = unat l div p mod p" "unat l mod (p * p) mod p = unat l mod p"
      using p(2) by (simp_all add: mod_mult2_eq)
    moreover have "unat l div p mod p < p" "unat l mod p < p" using p by simp_all
    moreover have "unat (l div (q * q)) = unat l div (p * p)" "unat (l mod (q * q) div q) = unat l mod (p * p) div p"
        "unat (l mod (q * q) mod q) = unat l mod (p * p) mod p"
      using q qq by (simp_all add: unat_div_distrib unat_mod_distrib)
    ultimately show ?thesis using triple i rd p by (simp add: code path block_path_def Let_def)
  qed
  then show ?thesis by (simp add: b_def)
qed

text \<open>Different file blocks have different paths, so the tree is read as a tree.\<close>

lemma block_path_direct: "i < 12 \<Longrightarrow> block_path p i = (i, [])"
  by (simp add: block_path_def)

lemma block_path_single: "12 \<le> i \<Longrightarrow> i < 12 + p \<Longrightarrow> block_path p i = (12, [i - 12])"
  by (simp add: block_path_def)

lemma block_path_double:
  "12 + p \<le> i \<Longrightarrow> i < 12 + p + p * p \<Longrightarrow> block_path p i = (13, [(i - 12 - p) div p, (i - 12 - p) mod p])"
  by (simp add: block_path_def)

lemma block_path_triple:
  "12 + p + p * p \<le> i \<Longrightarrow> block_path p i =
     (14, [(i - 12 - p - p * p) div (p * p), (i - 12 - p - p * p) div p mod p, (i - 12 - p - p * p) mod p])"
  by (simp add: block_path_def Let_def)

fun path_index :: "nat \<Rightarrow> nat \<times> nat list \<Rightarrow> nat" where
  "path_index p (r, [a]) = 12 + a"
| "path_index p (r, [a, b]) = 12 + p + (a * p + b)"
| "path_index p (r, [a, b, c]) = 12 + p + p * p + ((a * p + b) * p + c)"
| "path_index p (r, _) = r"

lemma path_index_block_path: "path_index p (block_path p i) = i"
proof -
  consider (a) "i < 12" | (b) "12 \<le> i" "i < 12 + p" | (c) "12 + p \<le> i" "i < 12 + p + p * p"
    | (d) "12 + p + p * p \<le> i"
    by linarith
  then show ?thesis
  proof cases
    case d
    define x where "x = i - 12 - p - p * p"
    have "x div (p * p) * p + x div p mod p = x div p" by (simp only: div_mult2_eq div_mult_mod_eq)
    then have "(x div (p * p) * p + x div p mod p) * p + x mod p = x" by (simp only: div_mult_mod_eq)
    then have "path_index p (block_path p i) = 12 + p + p * p + x"
      by (simp only: block_path_triple [OF d] path_index.simps x_def [symmetric])
    then show ?thesis using d by (simp add: x_def)
  qed (simp_all add: block_path_direct block_path_single block_path_double)
qed

lemma block_path_inj: "block_path p i = block_path p j \<Longrightarrow> i = j"
  by (metis path_index_block_path)

lemma block_path_slots:
  assumes "i < max_file_blocks p" "0 < p"
  shows "fst (block_path p i) < 15" "\<forall>x\<in>set (snd (block_path p i)). x < p"
proof -
  consider (a) "i < 12" | (b) "12 \<le> i" "i < 12 + p" | (c) "12 + p \<le> i" "i < 12 + p + p * p"
    | (d) "12 + p + p * p \<le> i" "i < 12 + p + p * p + p * (p * p)"
    using assms(1) unfolding max_file_blocks_def mult.assoc by linarith
  then have "fst (block_path p i) < 15 \<and> (\<forall>x\<in>set (snd (block_path p i)). x < p)"
  proof cases
    case c
    then have "i - 12 - p < p * p" by simp
    then show ?thesis using assms(2) by (simp add: block_path_double [OF c] less_mult_imp_div_less)
  next
    case d
    then have "i - 12 - p - p * p < p * (p * p)" by simp
    then have "(i - 12 - p - p * p) div (p * p) < p" by (rule less_mult_imp_div_less)
    then show ?thesis using assms(2) by (simp add: block_path_triple [OF d(1)])
  qed (simp_all add: block_path_direct block_path_single)
  then show "fst (block_path p i) < 15" "\<forall>x\<in>set (snd (block_path p i)). x < p" by simp_all
qed

section \<open>Reading a file\<close>

text \<open>The bytes of a file as the block tree gives them.\<close>

definition file_byte :: "(nat \<Rightarrow> u8) \<Rightarrow> nat \<Rightarrow> ext2_inode \<Rightarrow> nat \<Rightarrow> u8" where
  "file_byte disk bs node i = disk (unat (file_block disk bs node (i div bs)) * bs + i mod bs)"

definition file_bytes :: "(nat \<Rightarrow> u8) \<Rightarrow> nat \<Rightarrow> ext2_inode \<Rightarrow> nat \<Rightarrow> nat \<Rightarrow> u8 list" where
  "file_bytes disk bs node off n = map (file_byte disk bs node) [off..<off + n]"

text \<open>What one call reads: the part of the wanted bytes that lies in the block of the offset.\<close>

definition first_chunk :: "nat \<Rightarrow> nat \<Rightarrow> nat \<Rightarrow> nat" where
  "first_chunk bs off len = min (bs - off mod bs) len"

lemma file_bytes_chunk:
  assumes "off mod bs + n \<le> bs" "0 < bs"
  shows "file_bytes disk bs node off n = disk_bytes disk (unat (file_block disk bs node (off div bs)) * bs + off mod bs) n"
proof (rule nth_equalityI)
  fix k assume "k < length (file_bytes disk bs node off n)"
  then have k: "k < n" by (simp add: file_bytes_def)
  have "off + k = off mod bs + k + off div bs * bs" by simp
  moreover have "off mod bs + k < bs" using k assms(1) by simp
  ultimately have "(off + k) div bs = off div bs" "(off + k) mod bs = off mod bs + k"
    using assms(2) by (simp_all only: div_mult_self1 mod_mult_self1) simp_all
  then show "file_bytes disk bs node off n ! k =
      disk_bytes disk (unat (file_block disk bs node (off div bs)) * bs + off mod bs) n ! k"
    using k by (simp add: file_bytes_def file_byte_def add.assoc)
qed (simp add: file_bytes_def)

lemma read_inode_loop_first:
  assumes dev: "dev_ok disk dev" and fs: "fs_ok fs"
    and len: "len \<noteq> 0" "unat off + unat len < 2 ^ 32" "unat len \<le> length buf"
    and blocks: "unat off div unat (fs_block_size fs) < max_file_blocks (unat (fs_block_size fs) div 4)"
  defines "bs \<equiv> unat (fs_block_size fs)" and "n \<equiv> first_chunk (unat (fs_block_size fs)) (unat off) (unat len)"
  shows "read_inode_loop dev fs node len off len buf =
    Some (Inr (if file_block disk bs node (unat off div bs) = 0 then buf
               else file_bytes disk bs node (unat off) n @ drop n buf))"
proof -
  define b where "b = fs_block_size fs"
  have b: "unat b \<le> 4096" "1024 \<le> unat b" using fs by (simp_all add: fs_ok_def b_def)
  define B :: u64 where "B = ucast b"
  have "unat B = unat b" by (simp add: B_def unsigned_ucast_eq take_bit_eq_mod)
  then have B: "unat B = unat b" "B \<noteq> 0" using b by auto
  define fo where "fo = off mod B"
  have fo: "unat fo = unat off mod unat b" "unat fo < unat b" using B b by (simp_all add: fo_def unat_mod_distrib)
  define fb :: u32 where "fb = ucast (off div B)"
  have "unat off div unat b < 2 ^ 32" by (rule le_less_trans [OF div_le_dividend]) (use len(2) in simp)
  then have "unat (off div B) < 2 ^ 32" by (simp add: unat_div_distrib B)
  then have fb: "unat fb = unat off div unat b"
    by (simp add: fb_def unsigned_ucast_eq take_bit_eq_mod unat_div_distrib B)
  define cl where "cl = (if B - fo < len then B - fo else len)"
  have "unat (B - fo) = unat b - unat fo" using fo B by (simp add: unat_sub word_le_nat_alt)
  then have cl: "unat cl = n"
    by (simp add: cl_def n_def first_chunk_def word_less_nat_alt fo b_def min_def)
  have n: "n \<le> 4096" "n \<le> unat len" "unat fo + n \<le> unat b"
    using b fo(2) by (simp_all add: n_def first_chunk_def b_def [symmetric] fo(1) [symmetric])
  then have cl32: "unat (ucast cl :: u32) = n" using cl by (simp add: unsigned_ucast_eq take_bit_eq_mod)
  have idx: "ext2_get_inode_block_index dev fs node fb = Inr (file_block disk bs node (unat off div bs))"
    using file_block_eq [OF dev fs, of fb node] blocks fb by (simp add: bs_def b_def)
  define blk where "blk = file_block disk bs node (unat off div bs)"
  have "unat fo \<le> 2 ^ 32" using fo(2) b by simp
  note off = unat_block_offset [OF b(1) this, of blk]
  have "fs_read_bytes dev (ucast cl) (ucast blk * B + fo) = Inr (disk_bytes disk (unat blk * unat b + unat fo) n)"
    using fs_read_bytes_eq [OF dev, of "ucast cl" "ucast blk * B + fo"] off n(1) by (simp add: B_def cl32)
  also have "disk_bytes disk (unat blk * unat b + unat fo) n = file_bytes disk bs node (unat off) n"
    using file_bytes_chunk [of "unat off" bs n disk node] n(3) fo b by (simp add: blk_def bs_def b_def)
  finally have rd: "fs_read_bytes dev (ucast cl) (ucast blk * B + fo) = Inr (file_bytes disk bs node (unat off) n)" .
  have put: "put_bytes (file_bytes disk bs node (unat off) n) buf = Inr (file_bytes disk bs node (unat off) n @ drop n buf)"
    using n(2) len(3) by (simp add: put_bytes_def file_bytes_def)
  have stop: "read_inode_loop dev fs node len x 0 y = lret y" for x y
    by (simp add: read_inode_loop.simps)
  show ?thesis
    using len(1) B(2) idx rd put
    by (simp add: read_inode_loop.simps [of _ _ _ _ off len] Let_def b_def [symmetric] B_def [symmetric] fo_def [symmetric]
        fb_def [symmetric] cl_def [symmetric] blk_def [symmetric] stop)
qed

lemma ext2_read_inode_chunk:
  assumes "dev_ok disk dev" "fs_ok fs" "len \<noteq> 0" "unat len < 2 ^ 31" "unat len \<le> length buf"
    and "unat off + unat len \<le> unat (in_size node)"
    and "unat off div unat (fs_block_size fs) < max_file_blocks (unat (fs_block_size fs) div 4)"
    and "file_block disk (unat (fs_block_size fs)) node (unat off div unat (fs_block_size fs)) \<noteq> 0"
  shows "ext2_read_inode dev fs node buf len off =
    lret (int (unat len), let n = first_chunk (unat (fs_block_size fs)) (unat off) (unat len)
                          in file_bytes disk (unat (fs_block_size fs)) node (unat off) n @ drop n buf)"
proof -
  have lt: "unat off + unat len < 2 ^ 32" by (rule le_less_trans [OF assms(6)]) simp
  have "unat (len + off) = unat len + unat off" using lt by (simp add: unat_word_ariths)
  then have sz: "\<not> ucast (in_size node) < len + off" using assms(6) by (simp add: word_less_nat_alt)
  have "unat (ucast len :: u32) = unat len" using lt by (simp add: unsigned_ucast_eq take_bit_eq_mod)
  then have "uint (ucast len :: u32) = int (unat len)" by (simp only: uint_nat)
  moreover have "signed_take_bit 31 (int (unat len)) = int (unat len)"
  proof (rule signed_take_bit_int_eq_self)
    have "int (unat len) < int (2 ^ 31)" using assms(4) by (simp only: of_nat_less_iff)
    then show "int (unat len) < 2 ^ 31" by (simp only: of_nat_power of_nat_numeral)
  qed (rule order.trans [of _ 0], simp_all)
  ultimately have "sint (ucast len :: u32) = int (unat len)" by (simp only: sint_uint) simp
  then show ?thesis
    using sz read_inode_loop_first [OF assms(1-3) lt assms(5,7), of node] assms(8) by (simp add: ext2_read_inode_def Let_def)
qed

section \<open>Directories as lists of entries\<close>

text \<open>The entries of a directory and their bytes on the disk; \<open>de_pad\<close> is what the record length adds behind the
  name.\<close>

record dir_entry =
  de_inode :: u32
  de_type :: u8
  de_name :: "u8 list"
  de_pad :: "u8 list"

definition entry_length :: "dir_entry \<Rightarrow> nat" where
  "entry_length e = 8 + length (de_name e) + length (de_pad e)"

definition bytes16 :: "u16 \<Rightarrow> u8 list" where
  "bytes16 w = [ucast w, ucast (drop_bit 8 w)]"

definition bytes32 :: "u32 \<Rightarrow> u8 list" where
  "bytes32 w = [ucast w, ucast (drop_bit 8 w), ucast (drop_bit 16 w), ucast (drop_bit 24 w)]"

definition encode_entry :: "dir_entry \<Rightarrow> u8 list" where
  "encode_entry e = bytes32 (de_inode e) @ bytes16 (of_nat (entry_length e)) @
     [of_nat (length (de_name e)), de_type e] @ de_name e @ de_pad e"

definition encode_dir :: "dir_entry list \<Rightarrow> u8 list" where
  "encode_dir es = concat (map encode_entry es)"

definition entry_ok :: "dir_entry \<Rightarrow> bool" where
  "entry_ok e \<longleftrightarrow> length (de_name e) < 256 \<and> entry_length e < 2 ^ 16"

lemma length_encode_entry [simp]: "length (encode_entry e) = entry_length e"
  by (simp add: encode_entry_def entry_length_def bytes16_def bytes32_def)

lemma split16: "ucast (ucast w :: u8) OR push_bit 8 (ucast (ucast (drop_bit 8 w) :: u8)) = (w :: u16)"
proof (rule bit_eqI)
  fix n :: nat
  have "n < 8 \<or> 8 \<le> n \<and> 8 + (n - 8) = n" by arith
  then show "bit (ucast (ucast w :: u8) OR push_bit 8 (ucast (ucast (drop_bit 8 w) :: u8)) :: u16) n = bit w n"
    if "possible_bit TYPE(u16) n"
    using that by (auto simp: bit_or_iff bit_push_bit_iff bit_ucast_iff bit_drop_bit_eq simp del: push_bit_numeral push_bit_of_1)
qed

lemma split32:
  "ucast (ucast w :: u8) OR push_bit 8 (ucast (ucast (drop_bit 8 w) :: u8)) OR
   push_bit 16 (ucast (ucast (drop_bit 16 w) :: u8)) OR push_bit 24 (ucast (ucast (drop_bit 24 w) :: u8)) = (w :: u32)"
proof (rule bit_eqI)
  fix n :: nat
  have "n < 8 \<or> 8 \<le> n \<and> n < 16 \<and> 8 + (n - 8) = n \<or> 16 \<le> n \<and> n < 24 \<and> 16 + (n - 16) = n \<or> 24 \<le> n \<and> 24 + (n - 24) = n"
    by arith
  then show "bit (ucast (ucast w :: u8) OR push_bit 8 (ucast (ucast (drop_bit 8 w) :: u8)) OR
   push_bit 16 (ucast (ucast (drop_bit 16 w) :: u8)) OR push_bit 24 (ucast (ucast (drop_bit 24 w) :: u8)) :: u32) n = bit w n"
    if "possible_bit TYPE(u32) n"
    using that by (auto simp: bit_or_iff bit_push_bit_iff bit_ucast_iff bit_drop_bit_eq simp del: push_bit_numeral push_bit_of_1)
qed

lemma length_le_bytes [simp]: "length (bytes16 w) = 2" "length (bytes32 v) = 4"
  by (simp_all add: bytes16_def bytes32_def)

lemma le16_bytes: "le16 (pre @ bytes16 w @ post) (length pre) = w"
  using split16 [of w] by (simp add: le16_def bytes16_def nth_append)

lemma le32_bytes: "le32 (pre @ bytes32 w @ post) (length pre) = w"
  using split32 [of w] by (simp add: le32_def bytes32_def nth_append)

lemma lookup_loop_encode:
  assumes "\<forall>e\<in>set es. entry_ok e" "unat sz = length pre + length (encode_dir es)" "unat cur = length pre"
    "data = pre @ encode_dir es @ post"
  shows "lookup_loop data child sz cur = lret (map_option de_inode (find (\<lambda>e. de_name e = child) es))"
  using assms
proof (induction es arbitrary: pre cur)
  case Nil
  then have "\<not> cur < sz" by (simp add: encode_dir_def word_less_nat_alt)
  then show ?case by (simp add: lookup_loop.simps)
next
  case (Cons e es)
  define n where "n = length (de_name e)"
  define r where "r = encode_dir es @ post"
  have ok: "n < 256" "entry_length e < 65536" using Cons.prems(1) by (simp_all add: entry_ok_def n_def)
  have data: "data = pre @ encode_entry e @ r" using Cons.prems(4) by (simp add: encode_dir_def r_def)
  have sz: "unat sz = length pre + entry_length e + length (encode_dir es)" using Cons.prems(2) by (simp add: encode_dir_def)
  have lt: "cur < sz" using Cons.prems(3) sz by (simp add: word_less_nat_alt entry_length_def)
  have len: "\<not> length data < unat cur + 8" using Cons.prems(3) data by (simp add: entry_length_def)
  have nl: "unat (data ! (unat cur + 6)) = n"
    using ok Cons.prems(3) data
    by (simp add: encode_entry_def bytes16_def bytes32_def nth_append n_def [symmetric] unat_of_nat take_bit_eq_mod)
  have rl: "le16 data (unat cur + 4) = of_nat (entry_length e)"
    using le16_bytes [of "pre @ bytes32 (de_inode e)"] Cons.prems(3) data by (simp add: encode_entry_def)
  have ino: "le32 data (unat cur) = de_inode e"
    using le32_bytes [of pre] Cons.prems(3) data by (simp add: encode_entry_def)
  have nm: "take n (drop (unat cur + 8) data) = de_name e"
    using Cons.prems(3) data by (simp add: encode_entry_def bytes16_def bytes32_def n_def)
  have adv: "unat (cur + ucast (of_nat (entry_length e) :: u16)) = length (pre @ encode_entry e)"
  proof -
    have "unat (ucast (of_nat (entry_length e) :: u16) :: u32) = entry_length e"
      using ok by (simp add: unsigned_ucast_eq unat_of_nat take_bit_eq_mod)
    moreover have "unat cur + entry_length e < 4294967296"
      using Cons.prems(3) sz unat_u32_lt [of sz] by linarith
    ultimately show ?thesis using Cons.prems(3) by (simp add: unat_word_ariths)
  qed
  have "lookup_loop data child sz (cur + ucast (of_nat (entry_length e) :: u16)) =
      lret (map_option de_inode (find (\<lambda>e. de_name e = child) es))"
    by (rule Cons.IH [of "pre @ encode_entry e"]) (use Cons.prems(1) sz data adv in \<open>simp_all add: r_def\<close>)
  then show ?case
    using lt len by (subst lookup_loop.simps) (auto simp: nl rl ino nm n_def [symmetric] Let_def)
qed

section \<open>Properties\<close>

text \<open>Reading bytes reads exactly them: on a device whose blocks are a power of two of at most a page, \<^verbatim>\<open>fs_read_bytes\<close>
  gives the bytes of the disk at the offset, for every length up to 2 GiB and every offset, whether or not they are
  aligned; its temporary buffer is always large enough for the blocks that are transferred.\<close>

theorem fs_read_bytes_exact:
  assumes "dev_ok disk dev" "unat len \<le> 2 ^ 31" "unat offset + unat len < 2 ^ 64"
  shows "fs_read_bytes dev len offset = Inr (disk_bytes disk (unat offset) (unat len))"
  using assms by (rule fs_read_bytes_eq)

definition test_disk :: "(nat \<Rightarrow> u8) \<Rightarrow> block_dev" where
  "test_disk disk = \<lparr>bd_block_size = 512, bd_read = (\<lambda>b n. Inr (disk_bytes disk (unat b * 512) (unat n * 512)))\<rparr>"

lemma test_disk_ok [simp]: "dev_ok disk (test_disk disk)"
proof -
  have "is_pow2 512" unfolding is_pow2_def by (rule exI [of _ 9]) simp
  then show ?thesis by (simp add: dev_ok_def test_disk_def)
qed

theorem fs_read_bytes_exact_witness:
  "dev_ok of_nat (test_disk of_nat) \<and> fs_read_bytes (test_disk of_nat) 3 511 = Inr [255, 0, 1]"
  using fs_read_bytes_exact [OF test_disk_ok, of 3 511 of_nat] by (simp add: disk_bytes_def upt_rec)

text \<open>C15. The block tree: for every block below the largest file size, the direct pointers and the single, double and
  triple indirection blocks are followed along the path of the reference, each file block has a path of its own, and
  every step of it stays inside its pointer block.\<close>

theorem ext2_block_tree:
  assumes "dev_ok disk dev" "fs_ok fs" "unat index < max_file_blocks (unat (fs_block_size fs) div 4)"
  shows "ext2_get_inode_block_index dev fs node index = Inr (file_block disk (unat (fs_block_size fs)) node (unat index)) \<and>
    fst (block_path (unat (fs_block_size fs) div 4) (unat index)) < 15 \<and>
    (\<forall>x\<in>set (snd (block_path (unat (fs_block_size fs) div 4) (unat index))). x < unat (fs_block_size fs) div 4) \<and>
    (\<forall>i. block_path (unat (fs_block_size fs) div 4) i = block_path (unat (fs_block_size fs) div 4) (unat index) \<longrightarrow> i = unat index)"
proof -
  have "0 < unat (fs_block_size fs) div 4" using assms(2) by (auto simp: fs_ok_def div_greater_zero_iff)
  then show ?thesis using file_block_eq [OF assms] block_path_slots [OF assms(3)] block_path_inj by blast
qed

definition test_fs :: ext2_fs_instance where
  "test_fs = \<lparr>disk_sb = \<lparr>inodes_count = 16, blocks_count = 64, log_block_size = 0, blocks_per_group = 64,
     inodes_per_group = 16, sb_magic = EXT2_MAGIC, inode_size = 128\<rparr>,
     fs_block_size = 1024, bgdt_offset = 2048, bgd_descs_count = 1, bgd_inode_table = [5]\<rparr>"

lemma test_fs_ok [simp]: "fs_ok test_fs"
proof -
  have "is_pow2 1024" unfolding is_pow2_def by (rule exI [of _ 10]) simp
  then show ?thesis by (simp add: fs_ok_def test_fs_def)
qed

definition test_node :: "u16 \<Rightarrow> u32 \<Rightarrow> ext2_inode" where
  "test_node mode sz = \<lparr>in_num = 2, in_mode = mode, in_size = sz, in_block = [20, 21, 22, 23, 24, 25, 26, 27, 28, 29, 30, 31, 32, 33, 34]\<rparr>"

theorem ext2_block_tree_witness:
  "ext2_get_inode_block_index (test_disk (\<lambda>a. if a = 32772 then 7 else 0)) test_fs (test_node 0 0) 13 = Inr 7"
  using ext2_block_tree [OF test_disk_ok test_fs_ok, of 13 "\<lambda>a. if a = 32772 then 7 else 0" "test_node 0 0"]
  by (simp add: test_fs_def test_node_def max_file_blocks_def file_block_def block_path_def disk_le32_def le32_def)

text \<open>C19. Reading a file: a request inside the file returns its length, and the buffer then holds the bytes of the
  file from the offset on, but only those in the block of the offset. A request that crosses into another block returns
  the whole length too, with the rest of the buffer unchanged.\<close>

theorem ext2_read_first_chunk:
  assumes "dev_ok disk dev" "fs_ok fs" "len \<noteq> 0" "unat len < 2 ^ 31" "unat len \<le> length buf"
    and "unat off + unat len \<le> unat (in_size node)"
    and "unat off div unat (fs_block_size fs) < max_file_blocks (unat (fs_block_size fs) div 4)"
    and "file_block disk (unat (fs_block_size fs)) node (unat off div unat (fs_block_size fs)) \<noteq> 0"
  shows "ext2_read_inode dev fs node buf len off =
    lret (int (unat len), let n = first_chunk (unat (fs_block_size fs)) (unat off) (unat len)
                          in file_bytes disk (unat (fs_block_size fs)) node (unat off) n @ drop n buf)"
  using assms by (rule ext2_read_inode_chunk)

theorem ext2_read_first_chunk_witness:
  "ext2_read_inode (test_disk (\<lambda>a. if a = 21503 then 7 else 9)) test_fs (test_node 0 2048) [1, 2, 3] 3 1023 = lret (3, [7, 2, 3])"
  using ext2_read_first_chunk [OF test_disk_ok test_fs_ok, of 3 "[1, 2, 3]" 1023 "test_node 0 2048" "\<lambda>a. if a = 21503 then 7 else 9"]
  by (simp add: test_fs_def test_node_def max_file_blocks_def file_block_def block_path_def first_chunk_def file_bytes_def file_byte_def)

text \<open>C17. Looking up a name: in a directory of one block, the lookup gives the inode number of the first entry with
  exactly this name, and the error for a missing name when there is none; it passes over the padding of the records and
  ends for every list of entries.\<close>

theorem ext2_lookup_finds_entry:
  assumes dev: "dev_ok disk dev" "fs_ok fs" and type: "ext2_inode_is_type node EXT2_FT_DIR"
    and es: "\<forall>e\<in>set es. entry_ok e" "unat (in_size node) = length (encode_dir es)"
    and one: "length (encode_dir es) \<le> unat (fs_block_size fs)" "in_block node ! 0 \<noteq> 0"
    and data: "disk_bytes disk (unat (in_block node ! 0) * unat (fs_block_size fs)) (length (encode_dir es)) = encode_dir es"
    and junk: "length junk = length (encode_dir es)"
  shows "ext2_vfs_lookup dev fs node junk child =
    lret (case find (\<lambda>e. de_name e = child) es of Some e \<Rightarrow> Inr (de_inode e) | None \<Rightarrow> Inl (- VFS_ERR_NOENT))"
proof -
  define bs where "bs = unat (fs_block_size fs)"
  have bs: "1024 \<le> bs" "bs \<le> 4096" using dev(2) by (simp_all add: fs_ok_def bs_def)
  have loop: "lookup_loop (encode_dir es) child (in_size node) 0 = lret (map_option de_inode (find (\<lambda>e. de_name e = child) es))"
    using lookup_loop_encode [OF es(1), of "in_size node" "[]" 0 "encode_dir es" "[]"] es(2) by simp
  have len: "unat (ucast (in_size node) :: u64) = length (encode_dir es)" using es(2) by simp
  have blk: "file_block disk bs node 0 = in_block node ! 0" by (simp add: file_block_def block_path_def)
  have fb: "file_bytes disk bs node 0 (length (encode_dir es)) = encode_dir es"
    using file_bytes_chunk [of 0 bs "length (encode_dir es)" disk node] one(1) data bs blk by (simp add: bs_def)
  have "ext2_read_inode dev fs node junk (ucast (in_size node)) 0 = lret (int (length (encode_dir es)), encode_dir es)"
  proof (cases "in_size node = 0")
    case True
    then show ?thesis using es(2) junk by (simp add: ext2_read_inode_def read_inode_loop.simps)
  next
    case False
    have "first_chunk bs 0 (length (encode_dir es)) = length (encode_dir es)" using one(1) by (simp add: first_chunk_def bs_def)
    moreover have "length (encode_dir es) < 2 ^ 31" using one(1) bs by (simp add: bs_def)
    moreover have "(ucast (in_size node) :: u64) \<noteq> 0" using False len es(2) by (metis unat_0 unat_eq_zero)
    moreover have "0 div bs < max_file_blocks (bs div 4)" by (simp add: max_file_blocks_def)
    ultimately show ?thesis
      using ext2_read_inode_chunk [OF dev, of "ucast (in_size node)" junk 0 node] junk len es(2) one(2) blk fb
      by (simp add: bs_def)
  qed
  then show ?thesis using type loop by (simp add: ext2_vfs_lookup_def split: option.splits)
qed

definition test_dir :: "dir_entry list" where
  "test_dir = [\<lparr>de_inode = 2, de_type = 2, de_name = [46], de_pad = [0, 0, 0]\<rparr>,
     \<lparr>de_inode = 12, de_type = 1, de_name = [97, 98], de_pad = [0, 0]\<rparr>]"

definition test_dir_disk :: "nat \<Rightarrow> u8" where
  "test_dir_disk a = (if 20480 \<le> a \<and> a < 20504 then encode_dir test_dir ! (a - 20480) else 0)"

theorem ext2_lookup_finds_entry_witness:
  "ext2_vfs_lookup (test_disk test_dir_disk) test_fs (test_node 0x4000 24) (replicate 24 9) [97, 98] = lret (Inr 12) \<and>
   ext2_vfs_lookup (test_disk test_dir_disk) test_fs (test_node 0x4000 24) (replicate 24 9) [97] = lret (Inl (- 1))"
proof -
  let ?node = "test_node 0x4000 24"
  have len: "length (encode_dir test_dir) = 24" by (simp add: encode_dir_def test_dir_def entry_length_def)
  have type: "ext2_inode_is_type ?node EXT2_FT_DIR"
    by (simp add: ext2_inode_is_type_def test_node_def EXT2_FT_DIR_def)
  have ok: "\<forall>e\<in>set test_dir. entry_ok e" by (simp add: test_dir_def entry_ok_def entry_length_def)
  have "disk_bytes test_dir_disk 20480 24 = encode_dir test_dir"
    by (rule nth_equalityI) (simp_all add: len test_dir_disk_def)
  then have data: "disk_bytes test_dir_disk (unat (in_block ?node ! 0) * unat (fs_block_size test_fs)) (length (encode_dir test_dir)) =
      encode_dir test_dir"
    by (simp add: len test_node_def test_fs_def)
  note rule = ext2_lookup_finds_entry [OF test_disk_ok test_fs_ok type ok _ _ _ data, of "replicate 24 9"]
  show ?thesis
    using rule [of "[97, 98]"] rule [of "[97]"] len
    by (simp add: test_node_def test_fs_def) (simp add: test_dir_def VFS_ERR_NOENT_def)
qed

text \<open>A blank disk is not recognised as something else, it stops the kernel: the group counts are computed before the
  magic number is looked at, and the division rounding up asserts that the divisor is not zero.\<close>

theorem ext2_match_blank:
  assumes "dev_ok disk dev" "\<forall>a. 1024 \<le> a \<and> a < 1114 \<longrightarrow> disk a = 0"
  shows "ext2_match dev = Inl AssertFailed"
proof -
  have rd: "fs_read_bytes dev sizeof_disk_superblock EXT2_SB_OFFSET = Inr (disk_bytes disk 1024 90)"
    using fs_read_bytes_eq [OF assms(1), of sizeof_disk_superblock EXT2_SB_OFFSET]
    by (simp add: sizeof_disk_superblock_def EXT2_SB_OFFSET_def)
  have "inodes_per_group (disk_superblock (disk_bytes disk 1024 90)) = 0"
    using assms(2) by (simp add: disk_superblock_def le32_def)
  then show ?thesis by (simp add: ext2_match_def rd div_up_def Let_def)
qed

theorem ext2_match_blank_witness: "ext2_match (test_disk (\<lambda>_. 0)) = Inl AssertFailed"
  by (rule ext2_match_blank [OF test_disk_ok]) simp

text \<open>The reference for mounting: the group table follows the block of the superblock, and inode numbers start at one.\<close>

definition sb_on_disk :: "(nat \<Rightarrow> u8) \<Rightarrow> ext2_disk_superblock" where
  "sb_on_disk disk = disk_superblock (disk_bytes disk 1024 90)"

definition bgdt_pos :: "nat \<Rightarrow> nat" where
  "bgdt_pos bs = (1024 div bs + 1) * bs"

definition inode_pos :: "(nat \<Rightarrow> u8) \<Rightarrow> nat \<Rightarrow> nat \<Rightarrow> nat" where
  "inode_pos disk bs num =
     (let ipg = unat (inodes_per_group (sb_on_disk disk)); g = (num - 1) div ipg; k = (num - 1) mod ipg
      in unat (disk_le32 disk (bgdt_pos bs + 32 * g + 8)) * bs + unat (inode_size (sb_on_disk disk)) * k)"

text \<open>A superblock with one of the supported block sizes, whose group table has less than 2 GiB.\<close>

definition sb_ok :: "ext2_disk_superblock \<Rightarrow> nat \<Rightarrow> bool" where
  "sb_ok sb bs \<longleftrightarrow> unat (log_block_size sb) \<le> 2 \<and> bs = 1024 * 2 ^ unat (log_block_size sb) \<and> inodes_per_group sb \<noteq> 0 \<and>
     unat (inodes_count sb) div unat (inodes_per_group sb) < 2 ^ 26 - 1"

lemma le32_disk_bytes: "i + 4 \<le> n \<Longrightarrow> le32 (disk_bytes disk a n) i = disk_le32 disk (a + i)"
  by (simp add: le32_def disk_le32_def add.assoc)

lemma div_up_u32:
  fixes a b :: u32
  assumes "b \<noteq> 0"
  shows "\<exists>q. div_up (ucast a) (ucast b) = Inr q \<and> unat q = (unat a + unat b - 1) div unat b"
proof -
  have b: "0 < unat b" using assms by (simp add: unat_gt_0)
  have nz: "(ucast b :: u64) \<noteq> 0"
  proof
    assume "(ucast b :: u64) = 0"
    then have "unat (ucast b :: u64) = 0" by simp
    then show False using b by simp
  qed
  have "unat (ucast b - 1 :: u64) = unat b - 1" using b by (simp add: unat_sub word_le_nat_alt)
  moreover have "unat a + (unat b - 1) < 2 ^ 64"
    using add_strict_mono [OF unat_u32_lt [of a] unat_u32_lt [of b]] by simp
  ultimately have "unat (ucast a + (ucast b - 1) :: u64) = unat a + unat b - 1"
    using b by (simp add: unat_word_ariths)
  then show ?thesis using nz by (simp add: div_up_def unat_div_distrib)
qed

lemma ext2_mount_eq:
  assumes dev: "dev_ok disk dev" and sb: "sb_ok (sb_on_disk disk) bs"
  shows "\<exists>fs. ext2_mount_instance dev = Inr fs \<and> disk_sb fs = sb_on_disk disk \<and> unat (fs_block_size fs) = bs \<and>
    length (bgd_inode_table fs) = (unat (inodes_count (sb_on_disk disk)) + unat (inodes_per_group (sb_on_disk disk)) - 1)
      div unat (inodes_per_group (sb_on_disk disk)) \<and>
    (\<forall>g < length (bgd_inode_table fs). bgd_inode_table fs ! g = disk_le32 disk (bgdt_pos bs + 32 * g + 8))"
proof -
  define s where "s = sb_on_disk disk"
  define ipg where "ipg = unat (inodes_per_group s)"
  define b where "b = EXT2_BLOCK_SIZE (log_block_size s)"
  have log: "unat (log_block_size s) = 0 \<or> unat (log_block_size s) = 1 \<or> unat (log_block_size s) = 2"
    using sb unfolding sb_ok_def s_def by linarith
  have b: "unat b = bs" "bs = 1024 \<or> bs = 2048 \<or> bs = 4096" "bs = 1024 \<longleftrightarrow> b = 1024"
    using log sb by (auto simp: b_def EXT2_BLOCK_SIZE_def sb_ok_def s_def)
  define off where "off = (if b = 1024 then 2 * b else 1 * b)"
  have off: "unat off = bgdt_pos bs" "unat off \<le> 4096"
    using b by (auto simp: off_def bgdt_pos_def unat_word_ariths)
  have ipg: "inodes_per_group s \<noteq> 0" "0 < ipg" using sb by (simp_all add: sb_ok_def s_def ipg_def unat_gt_0)
  obtain q where q: "div_up (ucast (inodes_count s)) (ucast (inodes_per_group s)) = Inr q"
      "unat q = (unat (inodes_count s) + ipg - 1) div ipg"
    using div_up_u32 [OF ipg(1), of "inodes_count s"] by (auto simp: ipg_def)
  have "unat q \<le> (unat (inodes_count s) + ipg) div ipg" unfolding q(2) by (intro div_le_mono) simp
  also have "\<dots> = unat (inodes_count s) div ipg + 1" using ipg(2) by (simp add: div_add_self2)
  finally have q26: "unat q < 2 ^ 26" using sb by (simp add: sb_ok_def s_def ipg_def)
  define c :: u32 where "c = ucast q"
  have c: "unat c = unat q" using q26 by (simp add: c_def unsigned_ucast_eq take_bit_eq_mod)
  have c32: "unat (c * 32) = 32 * unat c" using q26 c by (simp add: unat_word_ariths)
  have rd: "fs_read_bytes dev sizeof_disk_superblock EXT2_SB_OFFSET = Inr (disk_bytes disk 1024 90)"
    using fs_read_bytes_eq [OF dev, of sizeof_disk_superblock EXT2_SB_OFFSET]
    by (simp add: sizeof_disk_superblock_def EXT2_SB_OFFSET_def)
  have rd2: "fs_read_bytes dev (c * 32) (ucast off) = Inr (disk_bytes disk (bgdt_pos bs) (32 * unat c))"
    using fs_read_bytes_eq [OF dev, of "c * 32" "ucast off"] c32 c q26 off by simp
  define fs where "fs = \<lparr>disk_sb = s, fs_block_size = b, bgdt_offset = off, bgd_descs_count = c,
      bgd_inode_table = map (\<lambda>g. le32 (disk_bytes disk (bgdt_pos bs) (32 * unat c)) (32 * g + 8)) [0..<unat c]\<rparr>"
  have "ext2_mount_instance dev = Inr fs"
    using q(1) rd2 by (cases "b = 1024") (simp_all add: ext2_mount_instance_def rd fetch_bgdt_def Let_def fs_def
        s_def [symmetric] b_def [symmetric] sb_on_disk_def [symmetric] off_def c_def [symmetric])
  moreover have "length (bgd_inode_table fs) = (unat (inodes_count s) + ipg - 1) div ipg" by (simp add: fs_def c q(2))
  moreover have "bgd_inode_table fs ! g = disk_le32 disk (bgdt_pos bs + 32 * g + 8)" if "g < length (bgd_inode_table fs)" for g
    using that le32_disk_bytes [of "32 * g + 8" "32 * unat c" disk "bgdt_pos bs"] by (simp add: fs_def add.assoc)
  ultimately show ?thesis
    by (intro exI [of _ fs]) (simp add: s_def [symmetric] ipg_def [symmetric] b(1), simp add: fs_def b(1))
qed

text \<open>C18. Mounting and finding inodes: mounting an image with blocks of 1, 2 or 4 KiB succeeds, and then every inode number
  from 1 to the inode count is read from its place in the table of its group, as long as that place is below 4 GiB, where
  the 32-bit offset does not wrap around.\<close>

theorem ext2_mount_inodes:
  assumes dev: "dev_ok disk dev" and sb: "sb_ok (sb_on_disk disk) bs" "128 \<le> unat (inode_size (sb_on_disk disk))"
  shows "\<exists>fs. ext2_mount_instance dev = Inr fs \<and> fs_ok fs \<and> unat (fs_block_size fs) = bs \<and>
    (\<forall>num. 1 \<le> num \<and> num \<le> inodes_count (sb_on_disk disk) \<and> inode_pos disk bs (unat num) < 2 ^ 32 \<longrightarrow>
       make_init_inode dev fs num =
         Inr (disk_inode num (disk_bytes disk (inode_pos disk bs (unat num)) (unat (inode_size (sb_on_disk disk))))))"
proof -
  define s where "s = sb_on_disk disk"
  define ipg where "ipg = unat (inodes_per_group s)"
  obtain fs where fs: "ext2_mount_instance dev = Inr fs" "disk_sb fs = s" "unat (fs_block_size fs) = bs"
    "length (bgd_inode_table fs) = (unat (inodes_count s) + ipg - 1) div ipg"
    "\<And>g. g < length (bgd_inode_table fs) \<Longrightarrow> bgd_inode_table fs ! g = disk_le32 disk (bgdt_pos bs + 32 * g + 8)"
    using ext2_mount_eq [OF dev sb(1)] by (auto simp: s_def ipg_def)
  have "make_init_inode dev fs num = Inr (disk_inode num (disk_bytes disk (inode_pos disk bs (unat num)) (unat (inode_size s))))"
    if num: "1 \<le> num" "num \<le> inodes_count s" "inode_pos disk bs (unat num) < 2 ^ 32" for num
  proof -
    have ipg: "inodes_per_group s \<noteq> 0" "0 < ipg" using sb by (simp_all add: sb_ok_def s_def ipg_def unat_gt_0)
    have n1: "unat (num - 1) = unat num - 1" using num(1) by (simp add: unat_sub word_le_nat_alt)
    define g where "g = (num - 1) div inodes_per_group s"
    define k where "k = (num - 1) mod inodes_per_group s"
    have gk: "unat g = (unat num - 1) div ipg" "unat k = (unat num - 1) mod ipg"
      by (simp_all add: g_def k_def ipg_def unat_div_distrib unat_mod_distrib n1)
    have "unat g + 1 = (unat num - 1 + ipg) div ipg" using ipg(2) by (simp add: gk div_add_self2)
    also have "\<dots> \<le> (unat (inodes_count s) + ipg - 1) div ipg"
      using num(1,2) by (intro div_le_mono) (simp add: word_le_nat_alt)
    finally have g: "unat g < length (bgd_inode_table fs)" by (simp add: fs(4))
    have tab: "bgd_inode_table fs ! unat g = disk_le32 disk (bgdt_pos bs + 32 * unat g + 8)" by (rule fs(5) [OF g])
    define T where "T = bgd_inode_table fs ! unat g"
    define P where "P = T * fs_block_size fs + ucast (inode_size s) * k"
    have "inode_pos disk bs (unat num) = unat T * bs + unat (inode_size s) * unat k"
      using tab by (simp add: inode_pos_def Let_def s_def [symmetric] ipg_def [symmetric] T_def gk)
    moreover have sz: "unat (ucast (inode_size s) :: u32) = unat (inode_size s)" "unat (inode_size s) < 2 ^ 16"
      using unsigned_less [of "inode_size s", where 'a = nat] by (simp_all add: unsigned_ucast_eq take_bit_eq_mod)
    ultimately have P: "unat P = inode_pos disk bs (unat num)"
      using num(3) fs(3) by (simp add: P_def unat_word_ariths)
    have "fs_read_bytes dev (ucast (inode_size s)) (ucast P) =
        Inr (disk_bytes disk (inode_pos disk bs (unat num)) (unat (inode_size s)))"
      using fs_read_bytes_eq [OF dev, of "ucast (inode_size s)" "ucast P"] sz P num(3) by simp
    moreover have "\<not> ucast (inode_size s) < sizeof_disk_inode"
      using sb(2) sz by (simp add: sizeof_disk_inode_def word_less_nat_alt s_def)
    ultimately show ?thesis
      using num(2) ipg(1) g by (simp add: make_init_inode_def ext2_get_block_group_def fs(2) Let_def g_def [symmetric]
          k_def [symmetric] T_def [symmetric] P_def [symmetric])
  qed
  moreover have "fs_ok fs"
  proof -
    have "unat (log_block_size s) = 0 \<or> unat (log_block_size s) = 1 \<or> unat (log_block_size s) = 2"
      using sb(1) unfolding sb_ok_def s_def by linarith
    then have "bs = 2 ^ 10 \<or> bs = 2 ^ 11 \<or> bs = 2 ^ 12" using sb(1) by (auto simp: sb_ok_def s_def)
    then show ?thesis using is_pow2I [of 10] is_pow2I [of 11] is_pow2I [of 12] by (auto simp: fs_ok_def fs(3))
  qed
  ultimately show ?thesis using fs(1,3) by (auto simp: s_def)
qed

definition test_image :: "nat \<Rightarrow> u8" where
  "test_image a = (if a = 1024 then 16 else if a = 1064 then 16 else if a = 1112 then 128 else if a = 2056 then 5
     else if a = 5249 then 0x41 else 0)"

theorem ext2_mount_inodes_witness:
  "\<exists>fs. ext2_mount_instance (test_disk test_image) = Inr fs \<and>
     make_init_inode (test_disk test_image) fs 2 = Inr (disk_inode 2 (disk_bytes test_image 5248 128))"
proof -
  have s: "sb_on_disk test_image = \<lparr>inodes_count = 16, blocks_count = 0, log_block_size = 0, blocks_per_group = 0,
      inodes_per_group = 16, sb_magic = 0, inode_size = 128\<rparr>"
    by (simp add: sb_on_disk_def disk_superblock_def le32_def le16_def test_image_def)
  have ok: "sb_ok (sb_on_disk test_image) 1024" by (simp add: s sb_ok_def)
  have pos: "inode_pos test_image 1024 2 = 5248"
    by (simp add: inode_pos_def s bgdt_pos_def disk_le32_def le32_def test_image_def Let_def)
  show ?thesis
    using ext2_mount_inodes [OF test_disk_ok [of test_image] ok] s pos by (auto dest!: spec [of _ 2] simp: s word_le_nat_alt)
qed

end
