(* ===== verification/Port_IO.thy ===== *)
theory Port_IO
  imports Spinlock
begin

text \<open>
  Port input and output, \<^verbatim>\<open>kernel/include/arch/i386/drivers/io/io.h\<close>.

  The processor is the history of its port accesses and its flags register. Hardware is a parameter: what a read
  returns is a function of the accesses before it and of the port, which is all that a device can depend on.
  Driver states extend the record of the processor with the variables of the driver.
\<close>

datatype io_event =
    Out8 u16 u8
  | Out16 u16 u16
  | Out32 u16 u32
  | In8 u16 u8
  | In16 u16 u16
  | In32 u16 u32

type_synonym hardware = "io_event list \<Rightarrow> u16 \<Rightarrow> u32"

record cpu =
  cpu_io :: "io_event list"
  cpu_eflags :: u32

definition outb :: "u16 \<Rightarrow> u8 \<Rightarrow> 'a cpu_scheme \<Rightarrow> 'a cpu_scheme" where
  "outb port v s = s\<lparr>cpu_io := cpu_io s @ [Out8 port v]\<rparr>"

definition outl :: "u16 \<Rightarrow> u32 \<Rightarrow> 'a cpu_scheme \<Rightarrow> 'a cpu_scheme" where
  "outl port v s = s\<lparr>cpu_io := cpu_io s @ [Out32 port v]\<rparr>"

definition outw :: "u16 \<Rightarrow> u16 \<Rightarrow> 'a cpu_scheme \<Rightarrow> 'a cpu_scheme" where
  "outw port v s = s\<lparr>cpu_io := cpu_io s @ [Out16 port v]\<rparr>"

definition inb :: "hardware \<Rightarrow> u16 \<Rightarrow> 'a cpu_scheme \<Rightarrow> u8 \<times> 'a cpu_scheme" where
  "inb hw port s = (let v = ucast (hw (cpu_io s) port) in (v, s\<lparr>cpu_io := cpu_io s @ [In8 port v]\<rparr>))"

definition inw :: "hardware \<Rightarrow> u16 \<Rightarrow> 'a cpu_scheme \<Rightarrow> u16 \<times> 'a cpu_scheme" where
  "inw hw port s = (let v = ucast (hw (cpu_io s) port) in (v, s\<lparr>cpu_io := cpu_io s @ [In16 port v]\<rparr>))"

definition inl :: "hardware \<Rightarrow> u16 \<Rightarrow> 'a cpu_scheme \<Rightarrow> u32 \<times> 'a cpu_scheme" where
  "inl hw port s = (let v = hw (cpu_io s) port in (v, s\<lparr>cpu_io := cpu_io s @ [In32 port v]\<rparr>))"

definition io_wait :: "'a cpu_scheme \<Rightarrow> 'a cpu_scheme" where
  "io_wait s = outb 0x80 0 s"

text \<open>\<^verbatim>\<open>rep insw\<close>: the words that were read, in order.\<close>

primrec insw :: "hardware \<Rightarrow> u16 \<Rightarrow> nat \<Rightarrow> 'a cpu_scheme \<Rightarrow> u16 list \<times> 'a cpu_scheme" where
  "insw hw port 0 s = ([], s)"
| "insw hw port (Suc n) s =
     (let (w, s) = inw hw port s; (ws, s) = insw hw port n s in (w # ws, s))"

definition cpu_irq_save :: "'a cpu_scheme \<Rightarrow> u32 \<times> 'a cpu_scheme" where
  "cpu_irq_save s = (let (flags, eflags) = irq_save (cpu_eflags s) in (flags, s\<lparr>cpu_eflags := eflags\<rparr>))"

definition cpu_irq_restore :: "u32 \<Rightarrow> 'a cpu_scheme \<Rightarrow> 'a cpu_scheme" where
  "cpu_irq_restore flags s = s\<lparr>cpu_eflags := irq_restore flags (cpu_eflags s)\<rparr>"

named_theorems io_defs

lemmas [io_defs] = outb_def outl_def outw_def inb_def inw_def inl_def io_wait_def cpu_irq_save_def cpu_irq_restore_def
  irq_save_def irq_restore_def

lemma length_insw [simp]: "length (fst (insw hw port n s)) = n"
  by (induction n arbitrary: s) (simp_all add: inw_def Let_def split_def)

lemma insw_keeps [simp]: "cpu_eflags (snd (insw hw port n s)) = cpu_eflags s" "cpu.more (snd (insw hw port n s)) = cpu.more s"
  by (induction n arbitrary: s) (simp_all add: inw_def Let_def split_def)

text \<open>Bytes of register values.\<close>

lemma and_bytes: "x AND 0xFF = take_bit 8 x" "x AND 0xF = take_bit 4 x" for x :: "'a :: len word"
  by (simp_all add: take_bit_eq_mask mask_eq_exp_minus_1)

lemma small_bit: "unat (x :: 'a :: len word) < 2 ^ k \<Longrightarrow> bit x n \<Longrightarrow> n < k"
proof (rule ccontr)
  assume a: "unat x < 2 ^ k" "bit x n" "\<not> n < k"
  then have "bit (unat x) n" by (simp add: bit_unsigned_iff)
  moreover have "unat x = take_bit k (unat x)" using a(1) by (simp add: take_bit_nat_eq_self)
  ultimately have "bit (take_bit k (unat x)) n" by metis
  then show False using a(3) by (simp add: bit_take_bit_iff)
qed

end
