(* ===== verification/Pic.thy ===== *)
theory Pic
  imports Port_IO
begin

text \<open>
  The interrupt controllers, \<^verbatim>\<open>kernel/arch/i386/drivers/pic/pic.c\<close>, and a model of the two 8259 chips that reads
  the history of port accesses: initialisation words, masks and ends of interrupts.
\<close>

section \<open>Definitions\<close>

definition PIC1 :: u16 where "PIC1 = 0x20"
definition PIC2 :: u16 where "PIC2 = 0xA0"
definition PIC_EOI :: u8 where "PIC_EOI = 0x20"
definition PIC1_COMMAND :: u16 where "PIC1_COMMAND = PIC1"
definition PIC1_DATA :: u16 where "PIC1_DATA = PIC1 + 1"
definition PIC2_COMMAND :: u16 where "PIC2_COMMAND = PIC2"
definition PIC2_DATA :: u16 where "PIC2_DATA = PIC2 + 1"
definition PIC_IRQ_OFFSET :: u8 where "PIC_IRQ_OFFSET = 0x20"
definition ICW1_ICW4 :: u8 where "ICW1_ICW4 = 0x01"
definition ICW1_INIT :: u8 where "ICW1_INIT = 0x10"
definition ICW4_8086 :: u8 where "ICW4_8086 = 0x01"
definition PIC_READ_IRR :: u8 where "PIC_READ_IRR = 0x0a"
definition PIC_READ_ISR :: u8 where "PIC_READ_ISR = 0x0b"

record pic = cpu +
  pic_master_base :: u8
  pic_slave_base :: u8

definition pic_remap :: "u8 \<Rightarrow> u8 \<Rightarrow> 'a pic_scheme \<Rightarrow> 'a pic_scheme" where
  "pic_remap offset1 offset2 s =
     (let s = s\<lparr>pic_master_base := offset1, pic_slave_base := offset2\<rparr>;
          s = io_wait (outb PIC1_COMMAND (ICW1_INIT OR ICW1_ICW4) s);
          s = io_wait (outb PIC2_COMMAND (ICW1_INIT OR ICW1_ICW4) s);
          s = io_wait (outb PIC1_DATA offset1 s);
          s = io_wait (outb PIC2_DATA offset2 s);
          s = io_wait (outb PIC1_DATA 4 s);
          s = io_wait (outb PIC2_DATA 2 s);
          s = io_wait (outb PIC1_DATA ICW4_8086 s);
          s = io_wait (outb PIC2_DATA ICW4_8086 s);
          s = outb PIC1_DATA 0 s
      in outb PIC2_DATA 0 s)"

definition pic_get_irq_reg :: "hardware \<Rightarrow> u8 \<Rightarrow> 'a pic_scheme \<Rightarrow> u16 \<times> 'a pic_scheme" where
  "pic_get_irq_reg hw ocw3 s =
     (let s = outb PIC1_COMMAND ocw3 s; s = outb PIC2_COMMAND ocw3 s;
          (irr1, s) = inb hw PIC1_COMMAND s; (irr2, s) = inb hw PIC2_COMMAND s
      in (push_bit 8 (ucast irr2) OR ucast irr1, s))"

definition pic_get_irr :: "hardware \<Rightarrow> 'a pic_scheme \<Rightarrow> u16 \<times> 'a pic_scheme" where
  "pic_get_irr hw s = pic_get_irq_reg hw PIC_READ_IRR s"

definition pic_get_isr :: "hardware \<Rightarrow> 'a pic_scheme \<Rightarrow> u16 \<times> 'a pic_scheme" where
  "pic_get_isr hw s = pic_get_irq_reg hw PIC_READ_ISR s"

text \<open>The comparisons are made in \<^verbatim>\<open>int\<close>, so the end of the range does not wrap around.\<close>

definition in_window :: "u8 \<Rightarrow> u8 \<Rightarrow> bool" where
  "in_window base vector \<longleftrightarrow> base \<le> vector \<and> uint vector < uint base + 8"

definition pic_send_eoi_vector :: "u8 \<Rightarrow> 'a pic_scheme \<Rightarrow> 'a pic_scheme" where
  "pic_send_eoi_vector vector s =
     (let s = (if in_window (pic_slave_base s) vector then outb PIC2 PIC_EOI s else s)
      in outb PIC1 PIC_EOI s)"

definition pic_unmask_irq :: "hardware \<Rightarrow> u8 \<Rightarrow> 'a pic_scheme \<Rightarrow> 'a pic_scheme" where
  "pic_unmask_irq hw irq_line s =
     (let (irq_data, s) = cpu_irq_save s;
          (port, bit) = (if irq_line < 8 then (PIC1_DATA, irq_line) else (PIC2_DATA, irq_line - 8));
          s = io_wait s;
          (mask, s) = inb hw port s;
          new_mask = mask AND NOT (push_bit (unat bit) 1);
          s = io_wait s;
          s = outb port new_mask s
      in cpu_irq_restore irq_data s)"

definition vector_to_irq :: "'a pic_scheme \<Rightarrow> u8 \<Rightarrow> int" where
  "vector_to_irq s vector =
     (if in_window (pic_master_base s) vector then uint vector - uint (pic_master_base s)
      else if in_window (pic_slave_base s) vector then 8 + (uint vector - uint (pic_slave_base s))
      else - 1)"

definition pic_unmask_vector :: "hardware \<Rightarrow> u8 \<Rightarrow> 'a pic_scheme \<Rightarrow> 'a pic_scheme" where
  "pic_unmask_vector hw vector s =
     (let irq = vector_to_irq s vector in if irq \<ge> 0 then pic_unmask_irq hw (word_of_int irq) s else s)"

definition setup_pic :: "'a pic_scheme \<Rightarrow> 'a pic_scheme" where
  "setup_pic s =
     (let s = pic_remap PIC_IRQ_OFFSET (PIC_IRQ_OFFSET + 8) s;
          s = outb PIC1_DATA (0xFF XOR push_bit 2 1) s
      in outb PIC2_DATA 0xFF s)"

section \<open>The chips\<close>

text \<open>One 8259: how many initialisation words it still expects, its vector base and its mask, and the number of
  end-of-interrupt commands it got. A write to the command port with bit 4 starts the initialisation, which takes three
  words at the data port in cascade mode; another write to the data port sets the mask.\<close>

record chip =
  ch_expect :: nat
  ch_base :: u8
  ch_mask :: u8
  ch_eoi :: nat

definition chip_cmd :: "u8 \<Rightarrow> chip \<Rightarrow> chip" where
  "chip_cmd v c = (if bit v 4 then c\<lparr>ch_expect := 3, ch_mask := 0\<rparr>
                   else if v = 0x20 then c\<lparr>ch_eoi := ch_eoi c + 1\<rparr> else c)"

definition chip_data :: "u8 \<Rightarrow> chip \<Rightarrow> chip" where
  "chip_data v c =
     (if ch_expect c = 3 then c\<lparr>ch_expect := 2, ch_base := v\<rparr>
      else if ch_expect c > 0 then c\<lparr>ch_expect := ch_expect c - 1\<rparr>
      else c\<lparr>ch_mask := v\<rparr>)"

fun chip_event :: "u16 \<Rightarrow> io_event \<Rightarrow> chip \<Rightarrow> chip" where
  "chip_event p (Out8 q v) c = (if q = p then chip_cmd v c else if q = p + 1 then chip_data v c else c)"
| "chip_event p _ c = c"

definition chip_of :: "u16 \<Rightarrow> io_event list \<Rightarrow> chip" where
  "chip_of p es = fold (chip_event p) es \<lparr>ch_expect = 0, ch_base = 0, ch_mask = 0, ch_eoi = 0\<rparr>"

text \<open>Hardware with the two chips: a read of a data port gives the mask.\<close>

definition pic_hw :: "hardware \<Rightarrow> bool" where
  "pic_hw hw \<longleftrightarrow> (\<forall>es. ucast (hw es 0x21) = ch_mask (chip_of 0x20 es) \<and> ucast (hw es 0xA1) = ch_mask (chip_of 0xA0 es))"

text \<open>A vector is delivered when the line that has it is not masked, and the line of the second chip only
  through line 2 of the first one.\<close>

definition vector_enabled :: "io_event list \<Rightarrow> u8 \<Rightarrow> bool" where
  "vector_enabled es v \<longleftrightarrow>
     (let m = chip_of 0x20 es; sl = chip_of 0xA0 es
      in in_window (ch_base m) v \<and> \<not> bit (ch_mask m) (unat (v - ch_base m)) \<or>
         in_window (ch_base sl) v \<and> \<not> bit (ch_mask sl) (unat (v - ch_base sl)) \<and> \<not> bit (ch_mask m) 2)"

lemma chip_of_snoc [simp]: "chip_of p (es @ [e]) = chip_event p e (chip_of p es)"
  by (simp add: chip_of_def)

lemmas pic_consts = PIC1_def PIC2_def PIC1_COMMAND_def PIC1_DATA_def PIC2_COMMAND_def PIC2_DATA_def PIC_EOI_def
  PIC_IRQ_OFFSET_def ICW1_ICW4_def ICW1_INIT_def ICW4_8086_def

lemma append2: "xs @ [a, b] = (xs @ [a]) @ [b]"
  by simp

lemma setup_pic_bases:
  "pic_master_base (setup_pic s) = 0x20" "pic_slave_base (setup_pic s) = 0x28"
  "cpu_eflags (setup_pic s) = cpu_eflags s"
  by (simp_all add: setup_pic_def pic_remap_def io_defs Let_def pic_consts)

lemma setup_pic_chips:
  "chip_of 0x20 (cpu_io (setup_pic s)) = \<lparr>ch_expect = 0, ch_base = 0x20, ch_mask = 0xFB, ch_eoi = ch_eoi (chip_of 0x20 (cpu_io s))\<rparr>"
  "chip_of 0xA0 (cpu_io (setup_pic s)) = \<lparr>ch_expect = 0, ch_base = 0x28, ch_mask = 0xFF, ch_eoi = ch_eoi (chip_of 0xA0 (cpu_io s))\<rparr>"
  by (simp_all add: setup_pic_def pic_remap_def io_defs Let_def pic_consts chip_cmd_def chip_data_def del: append_assoc)

section \<open>Which vectors are delivered\<close>

text \<open>The driver and the chips agree, and line 2 of the first chip is open.\<close>

definition pic_ok :: "'a pic_scheme \<Rightarrow> bool" where
  "pic_ok s \<longleftrightarrow> pic_master_base s = 0x20 \<and> pic_slave_base s = 0x28 \<and>
     ch_expect (chip_of 0x20 (cpu_io s)) = 0 \<and> ch_base (chip_of 0x20 (cpu_io s)) = 0x20 \<and> \<not> bit (ch_mask (chip_of 0x20 (cpu_io s))) 2 \<and>
     ch_expect (chip_of 0xA0 (cpu_io s)) = 0 \<and> ch_base (chip_of 0xA0 (cpu_io s)) = 0x28"

lemma setup_pic_ok: "pic_ok (setup_pic s)"
  by (simp add: pic_ok_def setup_pic_bases setup_pic_chips)

lemma in_window_iff: "in_window b v \<longleftrightarrow> unat b \<le> unat v \<and> unat v < unat b + 8"
  unfolding in_window_def word_le_nat_alt uint_nat by linarith

lemma window_cases:
  "in_window 0x20 v \<longleftrightarrow> 32 \<le> unat v \<and> unat v < 40" "in_window 0x28 v \<longleftrightarrow> 40 \<le> unat v \<and> unat v < 48"
  by (simp_all add: in_window_iff)

text \<open>The line of a vector on its chip.\<close>

lemma unat_line: "in_window b v \<Longrightarrow> unat (v - b) = unat v - unat b \<and> unat (v - b) < 8"
  by (auto simp: in_window_iff unat_sub word_le_nat_alt)

lemma pic_unmask_master:
  assumes "pic_hw hw" "pic_ok s" "in_window 0x20 v"
  shows "pic_unmask_vector hw v s =
    s\<lparr>cpu_io := cpu_io s @ [Out8 0x80 0, In8 0x21 (ch_mask (chip_of 0x20 (cpu_io s))), Out8 0x80 0,
        Out8 0x21 (ch_mask (chip_of 0x20 (cpu_io s)) AND NOT (push_bit (unat (v - 0x20)) 1))]\<rparr>"
proof -
  have irq: "vector_to_irq s v = int (unat (v - 0x20))"
    using assms(2,3) unat_line [OF assms(3)] by (simp add: vector_to_irq_def pic_ok_def uint_nat window_cases del: of_nat_unat)
  have "word_of_int (int (unat (v - 0x20))) = (v - 0x20)" by simp
  moreover have "v - 0x20 < 8" using unat_line [OF assms(3)] by (simp add: word_less_nat_alt)
  moreover have "(ucast (hw (cpu_io s @ [Out8 0x80 0]) 0x21) :: u8) = ch_mask (chip_of 0x20 (cpu_io s))"
    using assms(1) by (simp add: pic_hw_def)
  ultimately show ?thesis
    by (simp add: pic_unmask_vector_def irq pic_unmask_irq_def io_defs pic_consts Let_def del: of_nat_unat)
qed

lemma pic_unmask_slave:
  assumes "pic_hw hw" "pic_ok s" "in_window 0x28 v"
  shows "pic_unmask_vector hw v s =
    s\<lparr>cpu_io := cpu_io s @ [Out8 0x80 0, In8 0xA1 (ch_mask (chip_of 0xA0 (cpu_io s))), Out8 0x80 0,
        Out8 0xA1 (ch_mask (chip_of 0xA0 (cpu_io s)) AND NOT (push_bit (unat (v - 0x28)) 1))]\<rparr>"
proof -
  have k: "unat (v - 0x28) < 8" "unat (v - 0x28) = unat v - 40" using unat_line [OF assms(3)] by simp_all
  have irq: "vector_to_irq s v = 8 + int (unat (v - 0x28))"
    using assms(2,3) k(2) by (simp add: vector_to_irq_def pic_ok_def uint_nat window_cases del: of_nat_unat)
  have w: "word_of_int (8 + int (unat (v - 0x28))) = 8 + (v - 0x28)" by simp
  have "unat (8 + (v - 0x28)) = 8 + unat (v - 0x28)" using k(1) by (simp only: unat_word_ariths) simp
  then have "\<not> 8 + (v - 0x28) < 8" by (simp only: word_less_nat_alt) simp
  moreover have "8 + (v - 0x28) - 8 = v - 0x28" by simp
  moreover have "(ucast (hw (cpu_io s @ [Out8 0x80 0]) 0xA1) :: u8) = ch_mask (chip_of 0xA0 (cpu_io s))"
    using assms(1) by (simp add: pic_hw_def)
  ultimately show ?thesis
    unfolding pic_unmask_vector_def irq w pic_unmask_irq_def io_defs pic_consts Let_def by simp
qed

lemma pic_unmask_other: "pic_ok s \<Longrightarrow> \<not> in_window 0x20 v \<Longrightarrow> \<not> in_window 0x28 v \<Longrightarrow> pic_unmask_vector hw v s = s"
  by (simp add: pic_unmask_vector_def vector_to_irq_def pic_ok_def)

lemma bit_clear: "bit (m AND NOT (2 ^ k)) j \<longleftrightarrow> bit m j \<and> j \<noteq> k" if "j < 8" for m :: u8
  using that by (auto simp: bit_and_iff bit_not_iff bit_exp_iff)

lemma line_eq: "unat (w - b) = unat (v - b) \<longleftrightarrow> w = v" for v w b :: u8
  by (simp flip: word_unat_eq_iff)

lemma vector_enabled_ok:
  "pic_ok s \<Longrightarrow> vector_enabled (cpu_io s) v \<longleftrightarrow>
     in_window 0x20 v \<and> \<not> bit (ch_mask (chip_of 0x20 (cpu_io s))) (unat (v - 0x20)) \<or>
     in_window 0x28 v \<and> \<not> bit (ch_mask (chip_of 0xA0 (cpu_io s))) (unat (v - 0x28))"
  by (auto simp: vector_enabled_def pic_ok_def Let_def)

text \<open>What unmasking does to the chips.\<close>

lemma pic_unmask_chips:
  assumes "pic_hw hw" "pic_ok s"
  shows "chip_of 0x20 (cpu_io (pic_unmask_vector hw v s)) =
      (if in_window 0x20 v then (chip_of 0x20 (cpu_io s))\<lparr>ch_mask := ch_mask (chip_of 0x20 (cpu_io s)) AND NOT (push_bit (unat (v - 0x20)) 1)\<rparr>
       else chip_of 0x20 (cpu_io s))" (is ?m)
    "chip_of 0xA0 (cpu_io (pic_unmask_vector hw v s)) =
      (if in_window 0x28 v then (chip_of 0xA0 (cpu_io s))\<lparr>ch_mask := ch_mask (chip_of 0xA0 (cpu_io s)) AND NOT (push_bit (unat (v - 0x28)) 1)\<rparr>
       else chip_of 0xA0 (cpu_io s))" (is ?s)
    "cpu_eflags (pic_unmask_vector hw v s) = cpu_eflags s" (is ?f)
    "pic_master_base (pic_unmask_vector hw v s) = pic_master_base s" (is ?a)
    "pic_slave_base (pic_unmask_vector hw v s) = pic_slave_base s" (is ?b)
proof -
  have e: "ch_expect (chip_of 0x20 (cpu_io s)) = 0" "ch_expect (chip_of 0xA0 (cpu_io s)) = 0"
    using assms(2) by (simp_all add: pic_ok_def)
  have snoc4: "chip_of p (es @ [a, b, c, d]) = chip_event p d (chip_event p c (chip_event p b (chip_event p a (chip_of p es))))"
    for p es a b c d by (simp add: chip_of_def)
  consider (m) "in_window 0x20 v" "\<not> in_window 0x28 v" | (sl) "in_window 0x28 v" "\<not> in_window 0x20 v"
    | (n) "\<not> in_window 0x20 v" "\<not> in_window 0x28 v"
    by (auto simp: window_cases)
  then have "?m \<and> ?s \<and> ?f \<and> ?a \<and> ?b"
  proof cases
    case m
    then show ?thesis using e by (simp add: pic_unmask_master [OF assms m(1)] snoc4 chip_data_def)
  next
    case sl
    then show ?thesis using e by (simp add: pic_unmask_slave [OF assms sl(1)] snoc4 chip_data_def)
  next
    case n
    then show ?thesis by (simp add: pic_unmask_other [OF assms(2)])
  qed
  then show ?m ?s ?f ?a ?b by blast+
qed

lemma pic_unmask_effect:
  assumes "pic_hw hw" "pic_ok s"
  shows "pic_ok (pic_unmask_vector hw v s)"
    "vector_enabled (cpu_io (pic_unmask_vector hw v s)) w \<longleftrightarrow>
       vector_enabled (cpu_io s) w \<or> w = v \<and> (in_window 0x20 v \<or> in_window 0x28 v)"
proof -
  show ok: "pic_ok (pic_unmask_vector hw v s)"
    using assms(2) by (simp add: pic_ok_def pic_unmask_chips [OF assms] bit_and_iff)
  show "vector_enabled (cpu_io (pic_unmask_vector hw v s)) w \<longleftrightarrow>
       vector_enabled (cpu_io s) w \<or> w = v \<and> (in_window 0x20 v \<or> in_window 0x28 v)"
    using unat_line [of "0x20" w, THEN conjunct2] unat_line [of "0x28" w, THEN conjunct2]
    by (auto simp: vector_enabled_ok [OF ok] vector_enabled_ok [OF assms(2)] pic_unmask_chips [OF assms] bit_clear line_eq)
qed

lemma pic_eoi_effect:
  assumes "pic_ok s"
  shows "pic_ok (pic_send_eoi_vector v s)"
    "vector_enabled (cpu_io (pic_send_eoi_vector v s)) w \<longleftrightarrow> vector_enabled (cpu_io s) w"
    "ch_eoi (chip_of 0x20 (cpu_io (pic_send_eoi_vector v s))) = ch_eoi (chip_of 0x20 (cpu_io s)) + 1"
    "ch_eoi (chip_of 0xA0 (cpu_io (pic_send_eoi_vector v s))) = ch_eoi (chip_of 0xA0 (cpu_io s)) + (if in_window 0x28 v then 1 else 0)"
  using assms
  by (simp_all add: pic_ok_def vector_enabled_def pic_send_eoi_vector_def outb_def pic_consts chip_cmd_def Let_def append2 del: append_assoc)

section \<open>Properties\<close>

text \<open>The driver's calls after the set-up, in any order.\<close>

datatype pic_op = Unmask u8 | Eoi u8

fun pic_call :: "hardware \<Rightarrow> pic_op \<Rightarrow> 'a pic_scheme \<Rightarrow> 'a pic_scheme" where
  "pic_call hw (Unmask v) s = pic_unmask_vector hw v s"
| "pic_call hw (Eoi v) s = pic_send_eoi_vector v s"

lemma pic_calls_effect:
  assumes "pic_hw hw" "pic_ok s"
  shows "pic_ok (fold (pic_call hw) cs s) \<and>
    (vector_enabled (cpu_io (fold (pic_call hw) cs s)) w \<longleftrightarrow>
       vector_enabled (cpu_io s) w \<or> Unmask w \<in> set cs \<and> (in_window 0x20 w \<or> in_window 0x28 w)) \<and>
    ch_eoi (chip_of 0x20 (cpu_io (fold (pic_call hw) cs s))) = ch_eoi (chip_of 0x20 (cpu_io s)) + length [v. Eoi v \<leftarrow> cs] \<and>
    ch_eoi (chip_of 0xA0 (cpu_io (fold (pic_call hw) cs s))) =
      ch_eoi (chip_of 0xA0 (cpu_io s)) + length [v. Eoi v \<leftarrow> cs, in_window 0x28 v]"
  using assms(2)
proof (induction cs arbitrary: s)
  case (Cons c cs)
  show ?case
  proof (cases c)
    case (Unmask v)
    show ?thesis
      using Cons.IH [OF pic_unmask_effect(1) [OF assms(1) Cons.prems, of v]]
      by (auto simp: Unmask pic_unmask_effect(2) [OF assms(1) Cons.prems] pic_unmask_chips [OF assms(1) Cons.prems])
  next
    case (Eoi v)
    show ?thesis
      using Cons.IH [OF pic_eoi_effect(1) [OF Cons.prems, of v]] by (simp add: Eoi pic_eoi_effect [OF Cons.prems])
  qed
qed simp

text \<open>C29. The interrupt controllers: after the set-up and any sequence of unmask and end-of-interrupt calls, exactly
  the unmasked vectors of the two chips are delivered, with the vector of the cascade line; the first chip has got every
  end of interrupt, the second one those of its own vectors.\<close>

theorem pic_delivers_unmasked:
  assumes "pic_hw hw"
  shows "(\<forall>w. vector_enabled (cpu_io (fold (pic_call hw) cs (setup_pic s))) w \<longleftrightarrow>
      w = 0x22 \<or> Unmask w \<in> set cs \<and> 0x20 \<le> w \<and> w < 0x30) \<and>
    ch_eoi (chip_of 0x20 (cpu_io (fold (pic_call hw) cs (setup_pic s)))) = ch_eoi (chip_of 0x20 (cpu_io s)) + length [v. Eoi v \<leftarrow> cs] \<and>
    ch_eoi (chip_of 0xA0 (cpu_io (fold (pic_call hw) cs (setup_pic s)))) =
      ch_eoi (chip_of 0xA0 (cpu_io s)) + length [v. Eoi v \<leftarrow> cs, 0x28 \<le> v \<and> v < 0x30]"
proof -
  have win: "in_window 0x28 v \<longleftrightarrow> 0x28 \<le> v \<and> v < 0x30" "in_window 0x20 v \<or> in_window 0x28 v \<longleftrightarrow> 0x20 \<le> v \<and> v < 0x30" for v
    by (auto simp: window_cases word_le_nat_alt word_less_nat_alt)
  have "vector_enabled (cpu_io (setup_pic s)) w \<longleftrightarrow> w = 0x22" for w
  proof -
    have "\<not> bit (0xFB :: u8) k \<longleftrightarrow> k = 2" if "k < 8" for k
      using that by (auto simp: less_Suc_eq numeral_eq_Suc)
    then have "in_window 0x20 w \<and> \<not> bit (0xFB :: u8) (unat (w - 0x20)) \<longleftrightarrow> in_window 0x20 w \<and> unat (w - 0x20) = unat (0x22 - 0x20 :: u8)"
      using unat_line [of "0x20" w] by auto
    also have "\<dots> \<longleftrightarrow> w = 0x22" unfolding line_eq by (auto simp: in_window_iff)
    moreover have "bit (0xFF :: u8) k" if "k < 8" for k
      using that by (auto simp: less_Suc_eq numeral_eq_Suc)
    ultimately show ?thesis
      using unat_line [of "0x28" w] by (auto simp: vector_enabled_ok [OF setup_pic_ok] setup_pic_chips)
  qed
  then have "vector_enabled (cpu_io (fold (pic_call hw) cs (setup_pic s))) w \<longleftrightarrow> w = 0x22 \<or> Unmask w \<in> set cs \<and> 0x20 \<le> w \<and> w < 0x30" for w
    using pic_calls_effect [OF assms setup_pic_ok, of cs s w] win(2) by blast
  moreover have win28: "in_window 0x28 = (\<lambda>v. 0x28 \<le> v \<and> v < 0x30)" using win(1) by blast
  ultimately show ?thesis
    using pic_calls_effect [OF assms setup_pic_ok, of cs s] unfolding win28 by (simp add: setup_pic_chips)
qed

definition test_pic_hw :: hardware where
  "test_pic_hw es port = (if port = 0x21 then ucast (ch_mask (chip_of 0x20 es)) else if port = 0xA1 then ucast (ch_mask (chip_of 0xA0 es)) else 0)"

theorem pic_delivers_unmasked_witness:
  "pic_hw test_pic_hw \<and>
   vector_enabled (cpu_io (fold (pic_call test_pic_hw) [Unmask 0x2E, Eoi 0x2E, Unmask 0x50]
     (setup_pic \<lparr>cpu_io = [], cpu_eflags = 0, pic_master_base = 0, pic_slave_base = 0\<rparr>))) 0x2E \<and>
   \<not> vector_enabled (cpu_io (fold (pic_call test_pic_hw) [Unmask 0x2E, Eoi 0x2E, Unmask 0x50]
     (setup_pic \<lparr>cpu_io = [], cpu_eflags = 0, pic_master_base = 0, pic_slave_base = 0\<rparr>))) 0x2F"
proof -
  have "ucast (ucast b :: u32) = b" for b :: u8 by (rule bit_word_eqI) (simp add: bit_simps)
  then have hw: "pic_hw test_pic_hw" by (simp add: pic_hw_def test_pic_hw_def)
  show ?thesis
    using hw pic_delivers_unmasked [OF hw, of "[Unmask 0x2E, Eoi 0x2E, Unmask 0x50]"
        "\<lparr>cpu_io = [], cpu_eflags = 0, pic_master_base = 0, pic_slave_base = 0\<rparr>"] by simp
qed

end
