(* ===== verification/Pit.thy ===== *)
theory Pit
  imports Pic
begin

text \<open>
  The interval timer, \<^verbatim>\<open>kernel/arch/i386/drivers/pic/pit.c\<close> and \<^verbatim>\<open>init_int_timer\<close>: the reload value for a frequency,
  and the system time as a fixed-point number of milliseconds with 32 fraction bits. The callback is a parameter;
  the variable holds its address.
\<close>

section \<open>Definitions\<close>

definition PIT_INPUT_CLOCK :: u64 where "PIT_INPUT_CLOCK = 3579545"
definition PIT_DIVISOR :: u32 where "PIT_DIVISOR = 3"
definition MIN_PIT_HZ :: u32 where "MIN_PIT_HZ = 18"
definition MAX_PIT_HZ :: u32 where "MAX_PIT_HZ = 1193181"
definition PIT_CHANNEL0 :: u16 where "PIT_CHANNEL0 = 0x40"
definition PIT_COMMAND :: u16 where "PIT_COMMAND = 0x43"
definition IRQ_TIMER_VEC :: u8 where "IRQ_TIMER_VEC = 0x20"

record pit = pic +
  system_timer_ms_fractions :: u32
  system_timer_ms :: u32
  tick_ms_fractions :: u32
  tick_ms :: u32
  pit_reload_value :: u16
  pit_hz :: u32
  tick_count :: u32
  pit_callback :: usize_ptr

record int_timer_event =
  ev_timestamp_ns :: u64
  ev_tick_count :: u64
  ev_frequency_hz :: u32

definition div_round :: "u64 \<Rightarrow> u32 \<Rightarrow> u64 kres" where
  "div_round num d =
     (if d = 0 then Inl DivideError
      else let q = num div ucast d; r = num mod ucast d in Inr (if r * 2 \<ge> ucast d then q + 1 else q))"

definition compute_per_tick_time :: "u32 \<Rightarrow> 'a pit_scheme \<Rightarrow> 'a pit_scheme" where
  "compute_per_tick_time reload s =
     (let product = drop_bit 10 (ucast reload * 0xDBB3A062 :: u64)
      in s\<lparr>tick_ms := ucast (drop_bit 32 product), tick_ms_fractions := ucast (product AND 0xFFFFFFFF)\<rparr>)"

definition compute_tick_frequency :: "u32 \<Rightarrow> u32 kres" where
  "compute_tick_frequency reload =
     kbind (div_round PIT_INPUT_CLOCK reload) (\<lambda>q.
     kbind (div_round (ucast (ucast q :: u32)) PIT_DIVISOR) (\<lambda>hz. Inr (ucast hz)))"

definition compute_system_nanoseconds :: "'a pit_scheme \<Rightarrow> u64" where
  "compute_system_nanoseconds s =
     (let ns = ucast (system_timer_ms s) * 1000000;
          frac_ns = drop_bit 32 (ucast (system_timer_ms_fractions s) * 1000000)
      in ns + frac_ns)"

definition pit_reload_for :: "u32 \<Rightarrow> u16 kres" where
  "pit_reload_for desired_hz =
     (if desired_hz \<le> MIN_PIT_HZ then Inr 0xFFFF
      else if desired_hz \<ge> MAX_PIT_HZ then Inr 1
      else kbind (div_round PIT_INPUT_CLOCK desired_hz) (\<lambda>q.
           kbind (div_round q PIT_DIVISOR) (\<lambda>r.
           let v = ucast r :: u16 in Inr (if v = 0 then 1 else v))))"

definition set_pit_vars :: "u32 \<Rightarrow> 'a pit_scheme \<Rightarrow> 'a pit_scheme kres" where
  "set_pit_vars desired_hz s =
     kbind (pit_reload_for desired_hz) (\<lambda>reload.
     let s = s\<lparr>pit_reload_value := reload\<rparr>
     in kbind (compute_tick_frequency (ucast reload)) (\<lambda>hz.
        Inr (compute_per_tick_time (ucast reload) (s\<lparr>pit_hz := hz\<rparr>))))"

definition load_pit :: "hardware \<Rightarrow> u32 \<Rightarrow> 'a pit_scheme \<Rightarrow> 'a pit_scheme kres" where
  "load_pit hw desired_hz s =
     kbind (set_pit_vars desired_hz s) (\<lambda>s.
     let s = outb PIT_COMMAND 0x34 s;
         s = outb PIT_CHANNEL0 (ucast (pit_reload_value s AND 0xFF)) s;
         s = outb PIT_CHANNEL0 (ucast (drop_bit 8 (pit_reload_value s) AND 0xFF)) s
     in Inr (pic_unmask_vector hw IRQ_TIMER_VEC s))"

definition pit_tick :: "'a pit_scheme \<Rightarrow> 'a pit_scheme" where
  "pit_tick s =
     (let sum = ucast (system_timer_ms_fractions s) + ucast (tick_ms_fractions s) :: u64
      in s\<lparr>system_timer_ms_fractions := ucast (sum AND 0xFFFFFFFF),
           system_timer_ms := system_timer_ms s + (tick_ms s + ucast (drop_bit 32 sum)),
           tick_count := tick_count s + 1\<rparr>)"

definition pit_event :: "'a pit_scheme \<Rightarrow> int_timer_event" where
  "pit_event s = \<lparr>ev_timestamp_ns = compute_system_nanoseconds s, ev_tick_count = ucast (tick_count s), ev_frequency_hz = pit_hz s\<rparr>"

definition pit_timer_dispatch :: "(int_timer_event \<Rightarrow> 'a pit_scheme \<Rightarrow> 'a pit_scheme) \<Rightarrow> 'a pit_scheme \<Rightarrow> 'a pit_scheme" where
  "pit_timer_dispatch callback s =
     (let s = pit_tick s;
          s = (if pit_callback s \<noteq> NULL then callback (pit_event s) s else s)
      in pic_send_eoi_vector IRQ_TIMER_VEC s)"

definition pit_update_callback :: "usize_ptr \<Rightarrow> 'a pit_scheme \<Rightarrow> 'a pit_scheme kres" where
  "pit_update_callback callback s = kbind (kassert (callback \<noteq> NULL)) (\<lambda>_. Inr (s\<lparr>pit_callback := callback\<rparr>))"

text \<open>\<^verbatim>\<open>init_int_timer\<close>, with \<^verbatim>\<open>irq_register_handler\<close> as the last step of the caller.\<close>

definition init_int_timer :: "hardware \<Rightarrow> u64 \<Rightarrow> usize_ptr \<Rightarrow> 'a pit_scheme \<Rightarrow> 'a pit_scheme kres" where
  "init_int_timer hw hz callback s = kbind (load_pit hw (ucast hz) s) (pit_update_callback callback)"

section \<open>The frequency\<close>

lemma div_round_nat:
  fixes num :: u64 and d :: u32
  assumes "d \<noteq> 0" "unat num < 2 ^ 62"
  shows "\<exists>q. div_round num d = Inr q \<and> unat q = (2 * unat num + unat d) div (2 * unat d)"
proof -
  have d: "0 < unat d" using assms(1) by (simp add: unat_gt_0)
  define q r where "q = unat num div unat d" and "r = unat num mod unat d"
  have num: "unat num = q * unat d + r" and r: "r < unat d" using d by (simp_all add: q_def r_def)
  have "(2 * unat num + unat d) div (2 * unat d) = (if unat d \<le> 2 * r then q + 1 else q)"
  proof (cases "unat d \<le> 2 * r")
    case True
    have "2 * unat num + unat d = (q + 1) * (2 * unat d) + (2 * r - unat d)" using True by (simp add: num algebra_simps)
    moreover have "2 * r - unat d < 2 * unat d" using r by simp
    ultimately show ?thesis using True by (metis div_mult_self3 div_less add.commute add_0 d less_numeral_extra(3) mult_is_0 zero_neq_numeral)
  next
    case False
    have "2 * unat num + unat d = q * (2 * unat d) + (2 * r + unat d)" by (simp add: num algebra_simps)
    moreover have "2 * r + unat d < 2 * unat d" using False by simp
    ultimately show ?thesis using False by (metis div_mult_self3 div_less add.commute add_0 d less_numeral_extra(3) mult_is_0 zero_neq_numeral)
  qed
  moreover have "unat (num div ucast d) = q" "unat (num mod ucast d) = r"
    by (simp_all add: q_def r_def unat_div_distrib unat_mod_distrib)
  moreover have "r < 2 ^ 32" using r by (rule order.strict_trans) simp
  moreover have "q \<le> unat num" by (simp add: q_def)
  ultimately show ?thesis using assms
    by (auto simp: div_round_def Let_def word_le_nat_alt unat_word_ariths)
qed

lemma div_round_near:
  fixes num :: u64 and d :: u32
  assumes "d \<noteq> 0" "unat num < 2 ^ 62"
  shows "\<exists>q. div_round num d = Inr q \<and> 2 * unat num < 2 * (unat q * unat d) + unat d \<and> 2 * (unat q * unat d) \<le> 2 * unat num + unat d"
proof -
  obtain q where q: "div_round num d = Inr q" "unat q = (2 * unat num + unat d) div (2 * unat d)"
    using div_round_nat [OF assms] by blast
  define m where "m = (2 * unat num + unat d) mod (2 * unat d)"
  have "0 < unat d" using assms(1) by (simp add: unat_gt_0)
  then have "m < 2 * unat d" by (simp add: m_def)
  moreover have "2 * unat num + unat d = unat q * (2 * unat d) + m" unfolding q(2) m_def by (simp only: div_mult_mod_eq)
  moreover have "unat q * (2 * unat d) = 2 * (unat q * unat d)" by simp
  ultimately show ?thesis using q(1) by auto
qed

text \<open>The reload value for a frequency in the range of the timer is not truncated.\<close>

lemma pit_reload_near:
  assumes "MIN_PIT_HZ < hz" "hz < MAX_PIT_HZ"
  shows "\<exists>r. pit_reload_for hz = Inr r \<and> 1 \<le> unat r \<and>
    2 * 3579545 < 6 * (unat hz * unat r) + 3 * unat hz \<and> 6 * (unat hz * unat r) \<le> 2 * 3579545 + 3 * unat hz"
proof -
  have hz: "18 < unat hz" "unat hz < 1193181" "hz \<noteq> 0"
    using assms by (auto simp: MIN_PIT_HZ_def MAX_PIT_HZ_def word_less_nat_alt)
  obtain q where q: "div_round PIT_INPUT_CLOCK hz = Inr q" "7159090 < 2 * (unat q * unat hz) + unat hz"
      "2 * (unat q * unat hz) \<le> 7159090 + unat hz"
    using div_round_near [of hz PIT_INPUT_CLOCK] hz(3) by (auto simp: PIT_INPUT_CLOCK_def)
  have q_ge: "3 \<le> unat q"
  proof (rule ccontr)
    assume "\<not> 3 \<le> unat q"
    then have "unat q * unat hz \<le> 2 * unat hz" by (intro mult_le_mono1) simp
    then show False using q(2) hz(2) by linarith
  qed
  have q_le: "unat q \<le> 188397"
  proof (rule ccontr)
    assume "\<not> unat q \<le> 188397"
    then have "188398 * unat hz \<le> unat q * unat hz" by (intro mult_le_mono1) simp
    then show False using q(3) hz(1) by linarith
  qed
  obtain r where r: "div_round q PIT_DIVISOR = Inr r" "2 * unat q < 2 * (unat r * 3) + 3" "2 * (unat r * 3) \<le> 2 * unat q + 3"
    using div_round_near [of PIT_DIVISOR q] q_le by (auto simp: PIT_DIVISOR_def)
  define v :: u16 where "v = ucast r"
  have v: "unat v = unat r" "1 \<le> unat r" using r q_ge q_le by (simp_all add: v_def unsigned_ucast_eq take_bit_eq_mod)
  then have "v \<noteq> 0" by auto
  then have code: "pit_reload_for hz = Inr v"
    using assms [folded not_le] q(1) r(1) by (simp add: pit_reload_for_def v_def [symmetric] Let_def)
  have "3 * unat r \<le> unat q + 1" "unat q \<le> 3 * unat r + 1" using r(2,3) by linarith+
  then have "(3 * unat r) * unat hz \<le> (unat q + 1) * unat hz" "unat q * unat hz \<le> (3 * unat r + 1) * unat hz"
    by (intro mult_le_mono1; simp)+
  then have "6 * (unat hz * unat r) \<le> 2 * (unat q * unat hz) + 2 * unat hz" "2 * (unat q * unat hz) \<le> 6 * (unat hz * unat r) + 2 * unat hz"
    by (simp_all add: algebra_simps)
  then have "2 * 3579545 < 6 * (unat hz * unat v) + 3 * unat hz" "6 * (unat hz * unat v) \<le> 2 * 3579545 + 3 * unat hz"
    using q(2,3) unfolding v(1) by linarith+
  then show ?thesis using code v by auto
qed

section \<open>The time\<close>

text \<open>The system time and the time of a tick in units of \<open>2\<^sup>-\<^sup>3\<^sup>2\<close> milliseconds.\<close>

definition sys_time :: "'a pit_scheme \<Rightarrow> nat" where
  "sys_time s = unat (system_timer_ms s) * 2 ^ 32 + unat (system_timer_ms_fractions s)"

definition tick_time :: "'a pit_scheme \<Rightarrow> nat" where
  "tick_time s = unat (tick_ms s) * 2 ^ 32 + unat (tick_ms_fractions s)"

lemma tick_time_reload:
  "tick_time (compute_per_tick_time reload s) = unat reload * 3685982306 div 1024"
proof -
  define P where "P = drop_bit 10 (ucast reload * 0xDBB3A062 :: u64)"
  have "unat reload * 3685982306 < 4294967296 * 4294967296"
    by (rule mult_strict_mono) simp_all
  then have "unat (ucast reload * 0xDBB3A062 :: u64) = unat reload * 3685982306" by (simp add: unat_word_ariths)
  then have P: "unat P = unat reload * 3685982306 div 1024" by (simp add: P_def drop_bit_eq_div unat_div_distrib)
  have "P AND 0xFFFFFFFF = take_bit 32 P" by (simp add: take_bit_eq_mask mask_eq_exp_minus_1)
  then have "unat (ucast (P AND 0xFFFFFFFF) :: u32) = unat P mod 2 ^ 32"
    by (simp add: unsigned_ucast_eq take_bit_eq_mod unat_mod_distrib)
  moreover have "unat (ucast (drop_bit 32 P) :: u32) = unat P div 2 ^ 32"
  proof -
    have "unat P div 2 ^ 32 < 2 ^ 32" using unsigned_less [of P, where 'a = nat] by (intro div_less_iff_less_mult [THEN iffD2]) simp_all
    then show ?thesis by (simp add: drop_bit_eq_div unat_div_distrib unsigned_ucast_eq take_bit_eq_mod)
  qed
  ultimately show ?thesis
    by (simp add: tick_time_def compute_per_tick_time_def P_def [symmetric] P [symmetric] Let_def)
qed

lemma pit_tick_keeps [simp]:
  "tick_ms (pit_tick s) = tick_ms s" "tick_ms_fractions (pit_tick s) = tick_ms_fractions s" "pit_hz (pit_tick s) = pit_hz s"
  "pit_callback (pit_tick s) = pit_callback s" "cpu_io (pit_tick s) = cpu_io s"
  "tick_count (pit_tick s) = tick_count s + 1" "tick_time (pit_tick s) = tick_time s"
  by (simp_all add: pit_tick_def Let_def tick_time_def)

lemma pit_tick_time: "sys_time (pit_tick s) = (sys_time s + tick_time s) mod 2 ^ 64"
proof -
  define a b where "a = unat (system_timer_ms_fractions s)" and "b = unat (tick_ms_fractions s)"
  define m t where "m = unat (system_timer_ms s)" and "t = unat (tick_ms s)"
  have ab: "a < 2 ^ 32" "b < 2 ^ 32" by (simp_all add: a_def b_def)
  define S :: u64 where "S = ucast (system_timer_ms_fractions s) + ucast (tick_ms_fractions s)"
  have "a + b < 2 ^ 64" using ab by simp
  then have S: "unat S = a + b" by (simp add: S_def a_def [symmetric] b_def [symmetric] unat_word_ariths)
  have "S AND 0xFFFFFFFF = take_bit 32 S" by (simp add: take_bit_eq_mask mask_eq_exp_minus_1)
  then have lo: "unat (ucast (S AND 0xFFFFFFFF) :: u32) = (a + b) mod 2 ^ 32"
    by (simp add: unsigned_ucast_eq take_bit_eq_mod unat_mod_distrib S)
  have hi: "unat (ucast (drop_bit 32 S) :: u32) = (a + b) div 2 ^ 32"
    using ab by (simp add: drop_bit_eq_div unat_div_distrib unsigned_ucast_eq take_bit_eq_mod S)
  have "sys_time (pit_tick s) = (m + (t + (a + b) div 2 ^ 32)) mod 2 ^ 32 * 2 ^ 32 + (a + b) mod 2 ^ 32"
    by (simp add: sys_time_def pit_tick_def S_def [symmetric] lo hi m_def t_def Let_def unat_word_ariths mod_simps)
  also have "\<dots> = (m * 2 ^ 32 + a + (t * 2 ^ 32 + b)) mod 2 ^ 64"
  proof -
    define X where "X = m * 2 ^ 32 + a + (t * 2 ^ 32 + b)"
    have X: "X = (a + b) + (m + t) * 2 ^ 32" by (simp add: X_def algebra_simps)
    have "X div 2 ^ 32 = (m + t) + (a + b) div 2 ^ 32" unfolding X by (rule div_mult_self1) simp
    moreover have "X mod 2 ^ 32 = (a + b) mod 2 ^ 32" unfolding X by (rule mod_mult_self1)
    moreover have "X mod (2 ^ 32 * 2 ^ 32) = 2 ^ 32 * (X div 2 ^ 32 mod 2 ^ 32) + X mod 2 ^ 32" by (rule mod_mult2_eq)
    ultimately have "X mod 2 ^ 64 = (m + (t + (a + b) div 2 ^ 32)) mod 2 ^ 32 * 2 ^ 32 + (a + b) mod 2 ^ 32"
      by (simp add: add.assoc mult.commute)
    then show ?thesis by (simp only: X_def)
  qed
  finally show ?thesis by (simp add: sys_time_def tick_time_def m_def a_def t_def b_def)
qed

lemma sys_time_lt: "sys_time s < 2 ^ 64"
proof -
  have "unat (system_timer_ms s) \<le> 4294967295" "unat (system_timer_ms_fractions s) \<le> 4294967295"
    using unat_u32_lt [of "system_timer_ms s"] unat_u32_lt [of "system_timer_ms_fractions s"] by linarith+
  then show ?thesis by (simp add: sys_time_def)
qed

text \<open>A callback that leaves the clock alone.\<close>

definition timer_callback_ok :: "(int_timer_event \<Rightarrow> 'a pit_scheme \<Rightarrow> 'a pit_scheme) \<Rightarrow> bool" where
  "timer_callback_ok cb \<longleftrightarrow> (\<forall>e s. sys_time (cb e s) = sys_time s \<and> tick_time (cb e s) = tick_time s)"

lemma pit_dispatch_time:
  assumes "timer_callback_ok cb"
  shows "sys_time (pit_timer_dispatch cb s) = (sys_time s + tick_time s) mod 2 ^ 64"
    "tick_time (pit_timer_dispatch cb s) = tick_time s"
proof -
  have eoi: "sys_time (pic_send_eoi_vector v t) = sys_time t" "tick_time (pic_send_eoi_vector v t) = tick_time t"
    for v and t :: "'a pit_scheme"
    by (simp_all add: sys_time_def tick_time_def pic_send_eoi_vector_def outb_def Let_def)
  show "sys_time (pit_timer_dispatch cb s) = (sys_time s + tick_time s) mod 2 ^ 64"
    "tick_time (pit_timer_dispatch cb s) = tick_time s"
    using assms by (simp_all add: pit_timer_dispatch_def Let_def eoi timer_callback_ok_def pit_tick_time)
qed

lemma pit_ticks:
  assumes "timer_callback_ok cb"
  shows "sys_time ((pit_timer_dispatch cb ^^ n) s) = (sys_time s + n * tick_time s) mod 2 ^ 64 \<and>
    tick_time ((pit_timer_dispatch cb ^^ n) s) = tick_time s"
proof (induction n)
  case 0
  then show ?case using sys_time_lt [of s] by simp
next
  case (Suc n)
  define u where "u = (pit_timer_dispatch cb ^^ n) s"
  have IH: "sys_time u = (sys_time s + n * tick_time s) mod 2 ^ 64" "tick_time u = tick_time s"
    using Suc by (simp_all only: u_def)
  have "sys_time (pit_timer_dispatch cb u) = (sys_time s + n * tick_time s + tick_time s) mod 2 ^ 64"
    unfolding pit_dispatch_time [OF assms] IH by (rule mod_add_left_eq)
  then show ?case using IH(2) by (simp add: u_def [symmetric] pit_dispatch_time [OF assms] add.assoc add.commute [of "tick_time s"])
qed

lemma system_ns: "unat (compute_system_nanoseconds s) = sys_time s * 1000000 div 2 ^ 32"
proof -
  define a m where "a = unat (system_timer_ms_fractions s)" and "m = unat (system_timer_ms s)"
  have am: "a < 4294967296" "m < 4294967296" by (simp_all add: a_def m_def)
  have m: "unat (ucast (system_timer_ms s) * 1000000 :: u64) = m * 1000000"
    using am by (simp add: m_def [symmetric] unat_word_ariths)
  have "unat (ucast (system_timer_ms_fractions s) * 1000000 :: u64) = a * 1000000"
    using am by (simp add: a_def [symmetric] unat_word_ariths)
  then have a: "unat (drop_bit 32 (ucast (system_timer_ms_fractions s) * 1000000 :: u64)) = a * 1000000 div 4294967296"
    by (simp add: drop_bit_eq_div unat_div_distrib)
  have "sys_time s * 1000000 = m * 1000000 * 4294967296 + a * 1000000" by (simp add: sys_time_def a_def m_def)
  then have "sys_time s * 1000000 div 2 ^ 32 = m * 1000000 + a * 1000000 div 4294967296" by simp
  moreover have "m * 1000000 + a * 1000000 div 4294967296 < 2 ^ 64" using am by simp
  ultimately show ?thesis
    unfolding compute_system_nanoseconds_def Let_def by (subst unat_word_ariths(1)) (simp only: m a, simp)
qed

section \<open>Properties\<close>

text \<open>Programming the timer: for every frequency in its range the reload value is not truncated and the distance of
  the period to the exact one is at most half an input clock; slower and faster requests are clamped.\<close>

theorem pit_reload_nearest:
  assumes "MIN_PIT_HZ < hz" "hz < MAX_PIT_HZ"
  shows "\<exists>r. pit_reload_for hz = Inr r \<and> 1 \<le> unat r \<and> 2 * \<bar>3579545 - 3 * int (unat hz) * int (unat r)\<bar> \<le> 3 * int (unat hz)"
proof -
  obtain r where r: "pit_reload_for hz = Inr r" "1 \<le> unat r" "2 * 3579545 < 6 * (unat hz * unat r) + 3 * unat hz"
      "6 * (unat hz * unat r) \<le> 2 * 3579545 + 3 * unat hz"
    using pit_reload_near [OF assms] by blast
  have "int (2 * 3579545) < int (6 * (unat hz * unat r) + 3 * unat hz)" "int (6 * (unat hz * unat r)) \<le> int (2 * 3579545 + 3 * unat hz)"
    using r(3,4) by (simp_all only: of_nat_less_iff of_nat_le_iff)
  then show ?thesis using r(1,2) by (auto simp: abs_if)
qed

theorem pit_reload_nearest_witness: "\<exists>r. pit_reload_for 100 = Inr r \<and> 1 \<le> unat r \<and> 2 * \<bar>3579545 - 300 * int (unat r)\<bar> \<le> 300"
  using pit_reload_nearest [of 100] by (simp add: MIN_PIT_HZ_def MAX_PIT_HZ_def del: of_nat_unat)

text \<open>C30. The clock: after the timer was programmed and \<open>n\<close> interrupts came in, the time stamp is the time of the
  ticks in nanoseconds, rounded down, as long as the counter of milliseconds does not wrap around, and the time of one tick
  differs from the exact one by less than 4 units of \<open>2\<^sup>-\<^sup>3\<^sup>2\<close> milliseconds.\<close>

theorem pit_clock:
  assumes "timer_callback_ok cb" "set_pit_vars hz s = Inr s1" "sys_time s1 + n * tick_time s1 < 2 ^ 64"
  shows "unat (compute_system_nanoseconds ((pit_timer_dispatch cb ^^ n) s1)) = (sys_time s1 + n * tick_time s1) * 1000000 div 2 ^ 32 \<and>
    \<bar>3579545 * int (tick_time s1) - int (unat (pit_reload_value s1)) * 3000 * 2 ^ 32\<bar> < 4 * 3579545"
proof -
  obtain r h where s1: "s1 = compute_per_tick_time (ucast (r :: u16)) (s\<lparr>pit_reload_value := r, pit_hz := h\<rparr>)"
    using assms(2) by (auto simp: set_pit_vars_def kbind_Inr_iff Let_def)
  have r: "pit_reload_value s1 = r" by (simp add: s1 compute_per_tick_time_def Let_def)
  have r16: "unat r \<le> 65535" using unsigned_less [of r, where 'a = nat] by simp
  then have "unat (ucast r :: u32) = unat r" by (simp add: unsigned_ucast_eq take_bit_eq_mod)
  then have t: "tick_time s1 = unat r * 3685982306 div 1024" unfolding s1 by (simp only: tick_time_reload)
  define T m where "T = tick_time s1" and "m = unat r * 3685982306 mod 1024"
  have "unat r * 3685982306 = T * 1024 + m" unfolding T_def t m_def by (simp only: div_mult_mod_eq)
  then have "int (unat r) * 3685982306 = int T * 1024 + int m"
    by (metis (no_types, opaque_lifting) of_nat_add of_nat_mult of_nat_numeral)
  moreover have "int m < 1024" "int (unat r) \<le> 65535" using r16 by (simp_all add: m_def del: of_nat_unat)
  ultimately have "\<bar>3579545 * int T - int (unat r) * 3000 * 2 ^ 32\<bar> < 4 * 3579545"
    by (simp add: abs_if del: of_nat_unat)
  then show ?thesis
    using assms(3) pit_ticks [OF assms(1), of n s1] by (simp add: system_ns r T_def del: of_nat_unat)
qed

definition test_pit :: pit where
  "test_pit = \<lparr>cpu_io = [], cpu_eflags = 0, pic_master_base = 0, pic_slave_base = 0, system_timer_ms_fractions = 0,
     system_timer_ms = 0, tick_ms_fractions = 0, tick_ms = 0, pit_reload_value = 0, pit_hz = 0, tick_count = 0, pit_callback = 0\<rparr>"

theorem pit_clock_witness:
  "\<exists>s1. set_pit_vars 100 test_pit = Inr s1 \<and>
     unat (compute_system_nanoseconds ((pit_timer_dispatch (\<lambda>_ s. s) ^^ 1000) s1)) = 10000153650"
proof -
  define s1 where "s1 = compute_per_tick_time 11932 (test_pit\<lparr>pit_reload_value := 11932, pit_hz := 100\<rparr>)"
  have "set_pit_vars 100 test_pit = Inr s1"
    by (simp add: set_pit_vars_def pit_reload_for_def compute_tick_frequency_def div_round_def PIT_INPUT_CLOCK_def PIT_DIVISOR_def
        MIN_PIT_HZ_def MAX_PIT_HZ_def s1_def)
  moreover have "sys_time s1 = 0" by (simp add: s1_def sys_time_def compute_per_tick_time_def test_pit_def Let_def)
  moreover have "tick_time s1 = 42950332885" unfolding s1_def tick_time_reload by simp
  moreover have "timer_callback_ok (\<lambda>_ s :: pit. s)" by (simp add: timer_callback_ok_def)
  ultimately show ?thesis
    using pit_clock [of "\<lambda>_ s. s" 100 test_pit s1 1000] by simp
qed

end
