(* ===== verification/Ps2_Key.thy ===== *)
theory Ps2_Key
  imports Pic
begin

text \<open>
  The keyboard, \<^verbatim>\<open>kernel/arch/i386/drivers/pic/ps2_key.c\<close> and \<^verbatim>\<open>kernel/arch/i386/devices/keyboard.c\<close>. The key codes are the
  positions in the enumeration of \<^verbatim>\<open>keyboard.h\<close>, whose names are kept as strings. The callback of the kernel is a
  parameter; the variable holds its address.
\<close>

section \<open>Definitions\<close>

definition key_codes :: "string list" where
  "key_codes = ''NONE'' # map (\<lambda>c. [c]) ''0123456789ABCDEFGHIJKLMNOPQRSTUVWXYZ'' @ [
     ''MINUS'', ''EQUAL'', ''BACKTICK'', ''BACKSLASH'', ''BRACKET_LEFT'', ''BRACKET_RIGHT'', ''SEMICOLON'',
     ''APOSTROPHE'', ''COMMA'', ''DOT'', ''SLASH'', ''SHIFT_LEFT'', ''SHIFT_RIGHT'', ''CTRL_LEFT'',
     ''CTRL_RIGHT'', ''ALT_LEFT'', ''ALT_RIGHT'', ''WIN_LEFT'', ''WIN_RIGHT'', ''MENU'', ''CAPS'',
     ''NUMLOCK'', ''SCROLLLOCK'', ''ENTER'', ''BACKSPACE'', ''TAB'', ''SPACE'', ''ESCAPE'', ''INSERT'',
     ''DELETE'', ''HOME'', ''END'', ''PAGE_UP'', ''PAGE_DOWN'', ''ARROW_LEFT'', ''ARROW_RIGHT'',
     ''ARROW_UP'', ''ARROW_DOWN'', ''F1'', ''F2'', ''F3'', ''F4'', ''F5'', ''F6'', ''F7'', ''F8'', ''F9'',
     ''F10'', ''F11'', ''F12'', ''NUMPAD_0'', ''NUMPAD_1'', ''NUMPAD_2'', ''NUMPAD_3'', ''NUMPAD_4'',
     ''NUMPAD_5'', ''NUMPAD_6'', ''NUMPAD_7'', ''NUMPAD_8'', ''NUMPAD_9'', ''NUMPAD_PLUS'', ''NUMPAD_MINUS'',
     ''NUMPAD_STAR'', ''NUMPAD_SLASH'', ''NUMPAD_DOT'', ''NUMPAD_ENTER'']"

primrec position :: "'a \<Rightarrow> 'a list \<Rightarrow> nat" where
  "position x [] = 0"
| "position x (y # ys) = (if x = y then 0 else Suc (position x ys))"

definition KEYCODE :: "string \<Rightarrow> u16" where
  "KEYCODE name = of_nat (position name key_codes)"

definition PS2_DATA :: u16 where "PS2_DATA = 0x60"
definition PS2_IRQ_VECTOR :: u8 where "PS2_IRQ_VECTOR = 0x21"

record raw_key_event =
  key_code :: u32
  key_pressed :: bool

record ps2 = pic +
  ps2_kc_map :: "u16 list"
  ps2_kc_map_ext :: "u16 list"
  ps2_extended :: bool
  key_event_callback :: usize_ptr

definition ps2_read_data :: "hardware \<Rightarrow> 'a ps2_scheme \<Rightarrow> u8 \<times> 'a ps2_scheme" where
  "ps2_read_data hw s = inb hw PS2_DATA s"

definition ps2_send_eoi :: "'a ps2_scheme \<Rightarrow> 'a ps2_scheme" where
  "ps2_send_eoi s = pic_send_eoi_vector PS2_IRQ_VECTOR s"

definition unmask_ps2_key :: "hardware \<Rightarrow> 'a ps2_scheme \<Rightarrow> 'a ps2_scheme" where
  "unmask_ps2_key hw s =
     (let s = io_wait s; (mask, s) = inb hw PIC1_DATA s in outb PIC1_DATA (mask AND NOT 0x02) s)"

text \<open>The assignments of \<^verbatim>\<open>ps2_init\<close>, in order.\<close>

definition ps2_keys :: "(nat \<times> string) list" where
  "ps2_keys = [
     (0x1E, ''A''), (0x30, ''B''), (0x2E, ''C''), (0x20, ''D''), (0x12, ''E''), (0x21, ''F''), (0x22, ''G''),
     (0x23, ''H''), (0x17, ''I''), (0x24, ''J''), (0x25, ''K''), (0x26, ''L''), (0x32, ''M''), (0x31, ''N''),
     (0x18, ''O''), (0x19, ''P''), (0x10, ''Q''), (0x13, ''R''), (0x1F, ''S''), (0x14, ''T''), (0x16, ''U''),
     (0x2F, ''V''), (0x11, ''W''), (0x2D, ''X''), (0x15, ''Y''), (0x2C, ''Z''), (0x02, ''1''), (0x03, ''2''),
     (0x04, ''3''), (0x05, ''4''), (0x06, ''5''), (0x07, ''6''), (0x08, ''7''), (0x09, ''8''), (0x0A, ''9''),
     (0x0B, ''0''), (0x0C, ''MINUS''), (0x0D, ''EQUAL''), (0x29, ''BACKTICK''), (0x2B, ''BACKSLASH''),
     (0x1A, ''BRACKET_LEFT''), (0x1B, ''BRACKET_RIGHT''), (0x27, ''SEMICOLON''), (0x28, ''APOSTROPHE''),
     (0x33, ''COMMA''), (0x34, ''DOT''), (0x35, ''SLASH''), (0x2A, ''SHIFT_LEFT''), (0x36, ''SHIFT_RIGHT''),
     (0x1D, ''CTRL_LEFT''), (0x38, ''ALT_LEFT''), (0x3A, ''CAPS''), (0x45, ''NUMLOCK''),
     (0x46, ''SCROLLLOCK''), (0x39, ''SPACE''), (0x0F, ''TAB''), (0x1C, ''ENTER''), (0x0E, ''BACKSPACE''),
     (0x01, ''ESCAPE''), (0x3B, ''F1''), (0x3C, ''F2''), (0x3D, ''F3''), (0x3E, ''F4''), (0x3F, ''F5''),
     (0x40, ''F6''), (0x41, ''F7''), (0x42, ''F8''), (0x43, ''F9''), (0x44, ''F10''), (0x57, ''F11''),
     (0x58, ''F12''), (0x52, ''NUMPAD_0''), (0x4F, ''NUMPAD_1''), (0x50, ''NUMPAD_2''), (0x51, ''NUMPAD_3''),
     (0x4B, ''NUMPAD_4''), (0x4C, ''NUMPAD_5''), (0x4D, ''NUMPAD_6''), (0x47, ''NUMPAD_7''),
     (0x48, ''NUMPAD_8''), (0x49, ''NUMPAD_9''), (0x53, ''NUMPAD_DOT''), (0x37, ''NUMPAD_STAR''),
     (0x4A, ''NUMPAD_MINUS''), (0x4E, ''NUMPAD_PLUS'')]"

definition ps2_keys_ext :: "(nat \<times> string) list" where
  "ps2_keys_ext = [
     (0x1C, ''NUMPAD_ENTER''), (0x35, ''NUMPAD_SLASH''), (0x1D, ''CTRL_RIGHT''), (0x38, ''ALT_RIGHT''),
     (0x52, ''INSERT''), (0x53, ''DELETE''), (0x47, ''HOME''), (0x4F, ''END''), (0x49, ''PAGE_UP''),
     (0x51, ''PAGE_DOWN''), (0x48, ''ARROW_UP''), (0x50, ''ARROW_DOWN''), (0x4B, ''ARROW_LEFT''),
     (0x4D, ''ARROW_RIGHT''), (0x5B, ''WIN_LEFT''), (0x5C, ''WIN_RIGHT''), (0x5D, ''MENU'')]"

definition kc_table :: "(nat \<times> string) list \<Rightarrow> u16 list" where
  "kc_table keys = fold (\<lambda>(i, name) xs. xs[i := KEYCODE name]) keys (replicate 128 (KEYCODE ''NONE''))"

definition ps2_init :: "'a ps2_scheme \<Rightarrow> 'a ps2_scheme" where
  "ps2_init s = s\<lparr>ps2_kc_map := kc_table ps2_keys, ps2_kc_map_ext := kc_table ps2_keys_ext\<rparr>"

definition ps2_key_dispatch ::
  "hardware \<Rightarrow> (raw_key_event \<Rightarrow> 'a ps2_scheme \<Rightarrow> 'a ps2_scheme) \<Rightarrow> 'a ps2_scheme \<Rightarrow> 'a ps2_scheme kres" where
  "ps2_key_dispatch hw callback s =
     (let (ps2_scancode, s) = ps2_read_data hw s
      in if ps2_scancode = 0xE0 then Inr (ps2_send_eoi (io_wait (s\<lparr>ps2_extended := True\<rparr>)))
         else
           let s = (if ps2_scancode = 0xE1 then ps2_send_eoi (io_wait s) else s);
               released = ps2_scancode AND 0x80 \<noteq> 0;
               code = unat (ps2_scancode AND 0x7F);
               (keycode, s) = (if ps2_extended s then (ps2_kc_map_ext s ! code, s\<lparr>ps2_extended := False\<rparr>)
                               else (ps2_kc_map s ! code, s))
           in if key_event_callback s = NULL then Inl BadAccess
              else let s = callback \<lparr>key_code = ucast keycode, key_pressed = \<not> released\<rparr> s
                   in Inr (ps2_send_eoi (io_wait s)))"

text \<open>\<^verbatim>\<open>init_keyboard\<close>, with the registration of the handler left to its caller.\<close>

definition init_keyboard :: "hardware \<Rightarrow> usize_ptr \<Rightarrow> 'a ps2_scheme \<Rightarrow> 'a ps2_scheme kres" where
  "init_keyboard hw callback s =
     kbind (kassert (callback \<noteq> NULL)) (\<lambda>_.
     Inr ((pic_unmask_vector hw PS2_IRQ_VECTOR (ps2_init s))\<lparr>key_event_callback := callback\<rparr>))"

section \<open>The tables\<close>

lemma keys_distinct: "distinct (map fst ps2_keys)" "distinct (map fst ps2_keys_ext)"
  by code_simp+

lemma keys_valid: "list_all (\<lambda>(i, n). i < 128 \<and> i \<noteq> 0x60 \<and> i \<noteq> 0x61) (ps2_keys @ ps2_keys_ext)"
  by code_simp

lemma names_distinct: "distinct (map snd ps2_keys @ map snd ps2_keys_ext)"
  by code_simp

lemma key_codes_distinct: "distinct key_codes"
  by code_simp

lemma names_known: "list_all (\<lambda>n. n \<in> set (tl key_codes)) (map snd ps2_keys @ map snd ps2_keys_ext)"
  by code_simp

lemma names_all: "set (map snd ps2_keys @ map snd ps2_keys_ext) = set (tl key_codes)"
proof (rule card_subset_eq)
  show "set (map snd ps2_keys @ map snd ps2_keys_ext) \<subseteq> set (tl key_codes)"
    using names_known unfolding list_all_iff by blast
  have "length (map snd ps2_keys @ map snd ps2_keys_ext) = length (tl key_codes)" by code_simp
  then show "card (set (map snd ps2_keys @ map snd ps2_keys_ext)) = card (set (tl key_codes))"
    by (simp only: distinct_card [OF names_distinct] distinct_card [OF distinct_tl [OF key_codes_distinct]])
qed simp

lemma fold_update:
  assumes "distinct (map fst keys)" "(i, n) \<in> set keys" "i < length xs"
  shows "fold (\<lambda>(i, name) xs. xs[i := f name]) keys xs ! i = f n"
  using assms
proof (induction keys arbitrary: xs)
  case (Cons k keys)
  have other: "i \<notin> fst ` set ks \<Longrightarrow> fold (\<lambda>(i, name) xs. xs[i := f name]) ks ys ! i = ys ! i" for ks ys
    by (induction ks arbitrary: ys) (auto split: prod.splits)
  show ?case
  proof (cases "k = (i, n)")
    case True
    then show ?thesis using Cons.prems other [of keys] by simp
  next
    case False
    then show ?thesis using Cons by (cases k) auto
  qed
qed simp

lemma key_valid: "(i, n) \<in> set ps2_keys \<or> (i, n) \<in> set ps2_keys_ext \<Longrightarrow> i < 128 \<and> i \<noteq> 0x60 \<and> i \<noteq> 0x61"
  using keys_valid by (auto simp: list_all_iff)

lemma kc_table_nth: "(i, n) \<in> set ps2_keys \<Longrightarrow> kc_table ps2_keys ! i = KEYCODE n"
    "(i, n) \<in> set ps2_keys_ext \<Longrightarrow> kc_table ps2_keys_ext ! i = KEYCODE n"
  using key_valid [of i n] by (simp_all add: kc_table_def fold_update keys_distinct)

section \<open>Scan codes\<close>

text \<open>The bytes that the keyboard sends for a key.\<close>

definition scan_byte :: "nat \<Rightarrow> bool \<Rightarrow> u8" where
  "scan_byte i pressed = of_nat i OR (if pressed then 0 else 0x80)"

definition scan_of :: "string \<Rightarrow> bool \<Rightarrow> u8 list" where
  "scan_of name pressed =
     (case find (\<lambda>k. snd k = name) ps2_keys of Some k \<Rightarrow> [scan_byte (fst k) pressed]
      | None \<Rightarrow> (case find (\<lambda>k. snd k = name) ps2_keys_ext of Some k \<Rightarrow> [0xE0, scan_byte (fst k) pressed] | None \<Rightarrow> []))"

lemma scan_byte_parts:
  assumes "i < 128"
  shows "unat (scan_byte i p AND 0x7F) = i" "scan_byte i p AND 0x80 \<noteq> 0 \<longleftrightarrow> \<not> p"
    "scan_byte i p = 0xE0 \<Longrightarrow> i = 0x60" "scan_byte i p = 0xE1 \<Longrightarrow> i = 0x61"
proof -
  define x :: u8 where "x = of_nat i"
  have x: "unat x = i" using assms by (simp add: x_def unat_of_nat take_bit_eq_mod)
  have "x AND 0x7F = take_bit 7 x" by (simp add: take_bit_eq_mask mask_eq_exp_minus_1)
  also have "\<dots> = x" using x assms by (intro word_unat_eq_iff [THEN iffD2]) (simp add: unat_mod_distrib take_bit_eq_mod)
  finally have x7: "x AND 0x7F = x" .
  have "x AND 0x80 = (x AND 0x7F) AND 0x80" by (simp only: x7)
  then have x8: "x AND 0x80 = 0" by (simp add: and.assoc)
  have lo: "scan_byte i p AND 0x7F = x"
    by (simp add: scan_byte_def x_def [symmetric] bit.conj_disj_distrib2 x7)
  then show *: "unat (scan_byte i p AND 0x7F) = i" by (simp add: x)
  show "scan_byte i p AND 0x80 \<noteq> 0 \<longleftrightarrow> \<not> p"
    by (simp add: scan_byte_def x_def [symmetric] bit.conj_disj_distrib2 x8)
  show "scan_byte i p = 0xE0 \<Longrightarrow> i = 0x60" "scan_byte i p = 0xE1 \<Longrightarrow> i = 0x61" using * by auto
qed

section \<open>Typing\<close>

text \<open>How many bytes were read from the keyboard, and hardware that delivers a sequence of bytes.\<close>

definition kbd_reads :: "io_event list \<Rightarrow> nat" where
  "kbd_reads es = length (filter (\<lambda>e. case e of In8 p _ \<Rightarrow> p = 0x60 | _ \<Rightarrow> False) es)"

definition kbd_hw :: "hardware \<Rightarrow> u8 list \<Rightarrow> bool" where
  "kbd_hw hw bytes \<longleftrightarrow> (\<forall>es. kbd_reads es < length bytes \<longrightarrow> ucast (hw es 0x60) = bytes ! kbd_reads es)"

text \<open>A callback that keeps the events, and the interrupts one after another.\<close>

record ps2_log = ps2 +
  key_log :: "raw_key_event list"

definition log_key :: "raw_key_event \<Rightarrow> ps2_log \<Rightarrow> ps2_log" where
  "log_key e s = s\<lparr>key_log := key_log s @ [e]\<rparr>"

primrec key_interrupts :: "hardware \<Rightarrow> nat \<Rightarrow> ps2_log \<Rightarrow> ps2_log kres" where
  "key_interrupts hw 0 s = Inr s"
| "key_interrupts hw (Suc n) s = kbind (ps2_key_dispatch hw log_key s) (key_interrupts hw n)"

lemma key_interrupts_add: "key_interrupts hw (m + n) s = kbind (key_interrupts hw m s) (key_interrupts hw n)"
  by (induction m arbitrary: s) (auto simp: kbind_def split: sum.splits)

text \<open>The state between two keys.\<close>

definition kbd_ready :: "ps2_log \<Rightarrow> nat \<Rightarrow> bool" where
  "kbd_ready s n \<longleftrightarrow> ps2_kc_map s = kc_table ps2_keys \<and> ps2_kc_map_ext s = kc_table ps2_keys_ext \<and> \<not> ps2_extended s \<and>
     key_event_callback s \<noteq> 0 \<and> pic_slave_base s = 0x28 \<and> ch_expect (chip_of 0x20 (cpu_io s)) = 0 \<and> kbd_reads (cpu_io s) = n"

definition key_event :: "string \<times> bool \<Rightarrow> raw_key_event" where
  "key_event k = \<lparr>key_code = ucast (KEYCODE (fst k)), key_pressed = snd k\<rparr>"

lemma kbd_reads_snoc [simp]:
  "kbd_reads (es @ [Out8 p v]) = kbd_reads es" "kbd_reads (es @ [In8 p v]) = kbd_reads es + (if p = 0x60 then 1 else 0)"
  by (simp_all add: kbd_reads_def)

lemma find_SomeD: "find P xs = Some x \<Longrightarrow> x \<in> set xs \<and> P x"
  by (auto simp: find_Some_iff)

lemma key_interrupts_key:
  assumes hw: "kbd_hw hw (pre @ scan_of name p @ post)" and s: "kbd_ready s (length pre)" and n: "name \<in> set (tl key_codes)"
  shows "\<exists>s'. key_interrupts hw (length (scan_of name p)) s = Inr s' \<and> kbd_ready s' (length (pre @ scan_of name p)) \<and>
    key_log s' = key_log s @ [key_event (name, p)] \<and>
    ch_eoi (chip_of 0x20 (cpu_io s')) = ch_eoi (chip_of 0x20 (cpu_io s)) + length (scan_of name p)"
proof -
  have eoi: "\<not> in_window 0x28 PS2_IRQ_VECTOR" by (simp add: PS2_IRQ_VECTOR_def window_cases)
  note disp = ps2_key_dispatch_def ps2_read_data_def ps2_send_eoi_def pic_send_eoi_vector_def io_defs log_key_def
    PS2_DATA_def pic_consts Let_def
  have rd: "(ucast (hw es 0x60) :: u8) = (pre @ scan_of name p @ post) ! kbd_reads es"
    if "kbd_reads es < length (pre @ scan_of name p @ post)" for es
    using hw that by (simp add: kbd_hw_def)
  show ?thesis
  proof (cases "find (\<lambda>k. snd k = name) ps2_keys")
    case (Some k)
    from find_SomeD [OF this] obtain i where i: "k = (i, name)" "(i, name) \<in> set ps2_keys" by (cases k) auto
    define b where "b = scan_byte i p"
    have sc: "scan_of name p = [b]" using Some i(1) by (simp add: scan_of_def b_def)
    have b: "b \<noteq> 0xE0" "b \<noteq> 0xE1" "unat (b AND 0x7F) = i" "b AND 0x80 \<noteq> 0 \<longleftrightarrow> \<not> p"
      using scan_byte_parts [of i p] key_valid [of i name] i(2) by (auto simp: b_def)
    have rd1: "(ucast (hw (cpu_io s) 0x60) :: u8) = b" using rd [of "cpu_io s"] s by (simp add: sc kbd_ready_def)
    show ?thesis
      using s eoi kc_table_nth(1) [OF i(2)] b(3,4)
      by (simp add: sc disp rd1 b(1,2) kbd_ready_def key_event_def chip_cmd_def append2 del: append_assoc)
  next
    case None
    then have "name \<notin> snd ` set ps2_keys" by (auto simp: find_None_iff)
    then have "name \<in> snd ` set ps2_keys_ext" using n names_all by auto
    then have "find (\<lambda>k. snd k = name) ps2_keys_ext \<noteq> None" by (auto simp: find_None_iff)
    then obtain k where k: "find (\<lambda>k. snd k = name) ps2_keys_ext = Some k" by blast
    from find_SomeD [OF k] obtain i where i: "k = (i, name)" "(i, name) \<in> set ps2_keys_ext" by (cases k) auto
    define b where "b = scan_byte i p"
    have sc: "scan_of name p = [0xE0, b]" using None k i(1) by (simp add: scan_of_def b_def)
    have b: "b \<noteq> 0xE0" "b \<noteq> 0xE1" "unat (b AND 0x7F) = i" "b AND 0x80 \<noteq> 0 \<longleftrightarrow> \<not> p"
      using scan_byte_parts [of i p] key_valid [of i name] i(2) by (auto simp: b_def)
    have rd1: "(ucast (hw (cpu_io s) 0x60) :: u8) = 0xE0" using rd [of "cpu_io s"] s by (simp add: sc kbd_ready_def)
    define u where "u = s\<lparr>cpu_io := cpu_io s @ [In8 0x60 0xE0, Out8 0x80 0, Out8 0x20 0x20], ps2_extended := True\<rparr>"
    have u: "ps2_key_dispatch hw log_key s = Inr u"
      using s eoi by (simp add: disp rd1 u_def kbd_ready_def)
    have snoc: "cpu_io u = ((cpu_io s @ [In8 0x60 0xE0]) @ [Out8 0x80 0]) @ [Out8 0x20 0x20]" by (simp add: u_def)
    have cu: "kbd_reads (cpu_io u) = length pre + 1" "ch_expect (chip_of 0x20 (cpu_io u)) = 0"
        "ch_eoi (chip_of 0x20 (cpu_io u)) = ch_eoi (chip_of 0x20 (cpu_io s)) + 1"
      using s unfolding snoc by (simp_all add: kbd_ready_def chip_cmd_def del: append_assoc)
    have rd2: "(ucast (hw (cpu_io u) 0x60) :: u8) = b" using rd [of "cpu_io u"] cu(1) by (simp add: sc nth_append)
    have uf: "ps2_kc_map_ext u = kc_table ps2_keys_ext" "ps2_kc_map u = kc_table ps2_keys" "ps2_extended u"
        "key_event_callback u \<noteq> 0" "pic_slave_base u = 0x28" "key_log u = key_log s"
      using s by (simp_all add: u_def kbd_ready_def)
    show ?thesis
      using uf cu eoi kc_table_nth(2) [OF i(2)] b(3,4)
      by (simp add: sc u, simp add: disp rd2 b(1,2) kbd_ready_def key_event_def chip_cmd_def append2 del: append_assoc)
  qed
qed

lemma key_interrupts_keys:
  assumes "kbd_hw hw (pre @ concat (map (\<lambda>(n, p). scan_of n p) ks) @ post)" "kbd_ready s (length pre)"
    "\<forall>(n, p)\<in>set ks. n \<in> set (tl key_codes)"
  shows "\<exists>s'. key_interrupts hw (length (concat (map (\<lambda>(n, p). scan_of n p) ks))) s = Inr s' \<and>
    key_log s' = key_log s @ map key_event ks \<and>
    ch_eoi (chip_of 0x20 (cpu_io s')) = ch_eoi (chip_of 0x20 (cpu_io s)) + length (concat (map (\<lambda>(n, p). scan_of n p) ks))"
  using assms
proof (induction ks arbitrary: pre s)
  case (Cons k ks)
  obtain n p where k: "k = (n, p)" by (cases k)
  have hw: "kbd_hw hw (pre @ scan_of n p @ concat (map (\<lambda>(n, p). scan_of n p) ks) @ post)"
      "kbd_hw hw ((pre @ scan_of n p) @ concat (map (\<lambda>(n, p). scan_of n p) ks) @ post)"
    using Cons.prems(1) by (simp_all add: k)
  obtain s1 where s1: "key_interrupts hw (length (scan_of n p)) s = Inr s1" "kbd_ready s1 (length (pre @ scan_of n p))"
      "key_log s1 = key_log s @ [key_event (n, p)]"
      "ch_eoi (chip_of 0x20 (cpu_io s1)) = ch_eoi (chip_of 0x20 (cpu_io s)) + length (scan_of n p)"
    using key_interrupts_key [OF hw(1) Cons.prems(2)] Cons.prems(3) by (auto simp: k)
  show ?case
    using Cons.IH [OF hw(2) s1(2)] Cons.prems(3) s1(1,3,4) by (auto simp: k key_interrupts_add)
qed simp

lemma position_less: "x \<in> set xs \<Longrightarrow> position x xs < length xs \<and> xs ! position x xs = x"
  by (induction xs) auto

lemma KEYCODE_inj: "inj_on KEYCODE (set key_codes)"
proof (rule inj_onI)
  fix x y assume xy: "x \<in> set key_codes" "y \<in> set key_codes" "KEYCODE x = KEYCODE y"
  have len: "length key_codes = 103" by code_simp
  have "unat (KEYCODE z) = position z key_codes" if "z \<in> set key_codes" for z
    using position_less [OF that] by (simp add: KEYCODE_def len unat_of_nat take_bit_eq_mod)
  then show "x = y" using xy position_less by metis
qed

section \<open>Properties\<close>

text \<open>C31. Typing: after the keyboard was set up, the handler reports for the scan codes of any sequence of pressed and
  released keys exactly these keys, in order, and acknowledges every byte; all 102 keys have a scan code, and no two keys
  have the same key code.\<close>

theorem ps2_typing:
  assumes "pic_hw hw" "pic_ok s" "kbd_reads (cpu_io s) = 0" "\<not> ps2_extended s" "callback \<noteq> NULL"
    and "\<forall>(n, p)\<in>set ks. n \<in> set (tl key_codes)" "kbd_hw hw (concat (map (\<lambda>(n, p). scan_of n p) ks))"
  shows "\<exists>s1 s2. init_keyboard hw callback s = Inr s1 \<and>
    key_interrupts hw (length (concat (map (\<lambda>(n, p). scan_of n p) ks))) s1 = Inr s2 \<and>
    key_log s2 = key_log s @ map key_event ks \<and>
    ch_eoi (chip_of 0x20 (cpu_io s2)) = ch_eoi (chip_of 0x20 (cpu_io s)) + length (concat (map (\<lambda>(n, p). scan_of n p) ks)) \<and>
    inj_on KEYCODE (set key_codes)"
proof -
  define t where "t = ps2_init s"
  have t: "pic_ok t" "cpu_io t = cpu_io s" "key_log t = key_log s" using assms(2) by (simp_all add: t_def ps2_init_def pic_ok_def)
  have w: "in_window 0x20 PS2_IRQ_VECTOR" by (simp add: PS2_IRQ_VECTOR_def window_cases)
  note um = pic_unmask_master [OF assms(1) t(1) w]
  define s1 where "s1 = (pic_unmask_vector hw PS2_IRQ_VECTOR t)\<lparr>key_event_callback := callback\<rparr>"
  have "init_keyboard hw callback s = Inr s1" using assms(5) by (simp add: init_keyboard_def s1_def t_def)
  moreover have "kbd_ready s1 0"
    using assms(3-5) pic_unmask_effect(1) [OF assms(1) t(1), of PS2_IRQ_VECTOR]
    by (simp add: kbd_ready_def s1_def um) (simp add: t_def ps2_init_def pic_ok_def kbd_reads_def)
  moreover have "key_log s1 = key_log s" using t(3) by (simp add: s1_def um)
  moreover have "ch_eoi (chip_of 0x20 (cpu_io s1)) = ch_eoi (chip_of 0x20 (cpu_io s))"
    using t(2) by (simp add: s1_def pic_unmask_chips [OF assms(1) t(1)])
  ultimately show ?thesis
    using key_interrupts_keys [of hw "[]" ks "[]" s1] assms(6,7) KEYCODE_inj by auto
qed

text \<open>The first byte of the Pause key: the handler acknowledges it and then goes on, so it reports an event with the
  key code for no key and acknowledges the same interrupt a second time.\<close>

theorem ps2_pause_prefix:
  assumes "kbd_ready s 0" "kbd_hw hw [0xE1]"
  shows "\<exists>s'. ps2_key_dispatch hw log_key s = Inr s' \<and> key_log s' = key_log s @ [\<lparr>key_code = 0, key_pressed = False\<rparr>] \<and>
    ch_eoi (chip_of 0x20 (cpu_io s')) = ch_eoi (chip_of 0x20 (cpu_io s)) + 2"
proof -
  have rd: "(ucast (hw (cpu_io s) 0x60) :: u8) = 0xE1" using assms by (simp add: kbd_hw_def kbd_ready_def)
  have "kc_table ps2_keys ! 0x61 = 0" by code_simp
  moreover have "\<not> in_window 0x28 PS2_IRQ_VECTOR" by (simp add: PS2_IRQ_VECTOR_def window_cases)
  ultimately show ?thesis
    using assms(1) rd
    by (simp add: ps2_key_dispatch_def ps2_read_data_def ps2_send_eoi_def pic_send_eoi_vector_def io_defs log_key_def
        PS2_DATA_def pic_consts Let_def kbd_ready_def chip_cmd_def append2 del: append_assoc)
qed

definition test_kbd_hw :: "u8 list \<Rightarrow> hardware" where
  "test_kbd_hw bytes es port =
     (if port = 0x60 then (if kbd_reads es < length bytes then ucast (bytes ! kbd_reads es) else 0) else test_pic_hw es port)"

definition test_kbd :: ps2_log where
  "test_kbd = setup_pic \<lparr>cpu_io = [], cpu_eflags = 0, pic_master_base = 0, pic_slave_base = 0, ps2_kc_map = [], ps2_kc_map_ext = [],
     ps2_extended = False, key_event_callback = 0, key_log = []\<rparr>"

lemma ucast_down_up: "ucast (ucast b :: u32) = (b :: u8)"
  by (rule bit_word_eqI) (simp add: bit_simps)

lemma test_kbd_hw: "pic_hw (test_kbd_hw bytes)" "kbd_hw (test_kbd_hw bytes) bytes"
  by (simp_all add: pic_hw_def kbd_hw_def test_kbd_hw_def test_pic_hw_def ucast_down_up)

lemma test_kbd: "pic_ok test_kbd" "kbd_reads (cpu_io test_kbd) = 0" "\<not> ps2_extended test_kbd" "key_log test_kbd = []"
  by (simp_all add: test_kbd_def setup_pic_ok)
    (simp_all add: setup_pic_def pic_remap_def io_defs Let_def pic_consts kbd_reads_def)

theorem ps2_typing_witness:
  "\<exists>s1 s2. init_keyboard (test_kbd_hw [0x1E, 0xE0, 0xC7]) 1 test_kbd = Inr s1 \<and>
     key_interrupts (test_kbd_hw [0x1E, 0xE0, 0xC7]) 3 s1 = Inr s2 \<and>
     key_log s2 = [\<lparr>key_code = 11, key_pressed = True\<rparr>, \<lparr>key_code = 67, key_pressed = False\<rparr>]"
proof -
  let ?ks = "[(''A'', True), (''HOME'', False)]"
  have "concat (map (\<lambda>(n, p). scan_of n p) ?ks) = [0x1E, 0xE0, 0xC7]" by code_simp
  moreover have "map key_event ?ks = [\<lparr>key_code = 11, key_pressed = True\<rparr>, \<lparr>key_code = 67, key_pressed = False\<rparr>]" by code_simp
  moreover have "\<forall>(n, p)\<in>set ?ks. n \<in> set (tl key_codes)" by code_simp
  ultimately show ?thesis
    using ps2_typing [OF test_kbd_hw(1) test_kbd(1-3), of 1 ?ks "[0x1E, 0xE0, 0xC7]"] test_kbd(4)
      test_kbd_hw(2) [of "[0x1E, 0xE0, 0xC7]"] by (auto simp: numeral_3_eq_3)
qed

theorem ps2_pause_prefix_witness:
  "\<exists>s1 s2. init_keyboard (test_kbd_hw [0xE1]) 1 test_kbd = Inr s1 \<and> ps2_key_dispatch (test_kbd_hw [0xE1]) log_key s1 = Inr s2 \<and>
     key_log s2 = [\<lparr>key_code = 0, key_pressed = False\<rparr>]"
proof -
  have w: "in_window 0x20 PS2_IRQ_VECTOR" by (simp add: PS2_IRQ_VECTOR_def window_cases)
  have t: "pic_ok (ps2_init test_kbd)" using test_kbd(1) by (simp add: ps2_init_def pic_ok_def)
  note um = pic_unmask_master [OF test_kbd_hw(1) [of "[0xE1]"] t w]
  define s1 where "s1 = (pic_unmask_vector (test_kbd_hw [0xE1]) PS2_IRQ_VECTOR (ps2_init test_kbd))\<lparr>key_event_callback := 1\<rparr>"
  have "init_keyboard (test_kbd_hw [0xE1]) 1 test_kbd = Inr s1" by (simp add: init_keyboard_def s1_def)
  moreover have "kbd_ready s1 0"
    using test_kbd pic_unmask_effect(1) [OF test_kbd_hw(1) [of "[0xE1]"] t, of PS2_IRQ_VECTOR]
    by (simp add: kbd_ready_def s1_def um) (simp add: ps2_init_def pic_ok_def kbd_reads_def)
  moreover have "key_log s1 = []" using test_kbd(4) by (simp add: s1_def um) (simp add: ps2_init_def)
  ultimately show ?thesis using ps2_pause_prefix [OF _ test_kbd_hw(2)] by (metis append_Nil)
qed

end
