(* ===== verification/Pci.thy ===== *)
theory Pci
  imports Port_IO Core_Defs
begin

text \<open>
  Configuration space of the PCI bus, \<^verbatim>\<open>kernel/arch/i386/firmware/pci/pci_ops.c\<close>, and the scan of all buses,
  \<^verbatim>\<open>kernel/firmware/pci/pci.c\<close>.

  The lists of buses, devices and functions are built by adding nodes in front and are only read afterwards, so they are
  given as lists. The allocations of nodes, whose results the code uses without a test, are taken to succeed. A header is the list of
  the double words that were read. The scan of a bus calls itself through the bridges; it does not return (\<open>None\<close>)
  when bridges lead back to a bus that is being scanned.
\<close>

section \<open>Configuration space\<close>

definition PCI_CONFIG_ADDR :: u16 where "PCI_CONFIG_ADDR = 0xCF8"
definition PCI_CONFIG_DATA :: u16 where "PCI_CONFIG_DATA = 0xCFC"

definition pci_address :: "u8 \<Rightarrow> u8 \<Rightarrow> u8 \<Rightarrow> u8 \<Rightarrow> u32" where
  "pci_address bus slot func offset =
     push_bit 31 1 OR push_bit 16 (ucast bus) OR push_bit 11 (ucast slot) OR push_bit 8 (ucast func) OR ucast (offset AND 0xFC)"

definition pci_write_address :: "u8 \<Rightarrow> u8 \<Rightarrow> u8 \<Rightarrow> u8 \<Rightarrow> 'a cpu_scheme \<Rightarrow> 'a cpu_scheme" where
  "pci_write_address bus slot func offset s = outl PCI_CONFIG_ADDR (pci_address bus slot func offset) s"

definition pci_config_read_dword :: "hardware \<Rightarrow> u8 \<Rightarrow> u8 \<Rightarrow> u8 \<Rightarrow> u8 \<Rightarrow> 'a cpu_scheme \<Rightarrow> u32 \<times> 'a cpu_scheme" where
  "pci_config_read_dword hw bus slot func offset s = inl hw PCI_CONFIG_DATA (pci_write_address bus slot func offset s)"

definition pci_config_read_byte :: "hardware \<Rightarrow> u8 \<Rightarrow> u8 \<Rightarrow> u8 \<Rightarrow> u8 \<Rightarrow> 'a cpu_scheme \<Rightarrow> u8 \<times> 'a cpu_scheme" where
  "pci_config_read_byte hw bus slot func offset s =
     (let (val, s) = inl hw PCI_CONFIG_DATA (pci_write_address bus slot func offset s)
      in (ucast (drop_bit (unat (offset AND 3) * 8) val AND 0xFF), s))"

definition pci_config_read_word :: "hardware \<Rightarrow> u8 \<Rightarrow> u8 \<Rightarrow> u8 \<Rightarrow> u8 \<Rightarrow> 'a cpu_scheme \<Rightarrow> u16 \<times> 'a cpu_scheme" where
  "pci_config_read_word hw bus slot func offset s =
     (let (val, s) = inl hw PCI_CONFIG_DATA (pci_write_address bus slot func offset s)
      in (ucast (drop_bit (unat (offset AND 2) * 8) val AND 0xFFFF), s))"

definition pci_config_write_byte :: "hardware \<Rightarrow> u8 \<Rightarrow> u8 \<Rightarrow> u8 \<Rightarrow> u8 \<Rightarrow> u8 \<Rightarrow> 'a cpu_scheme \<Rightarrow> 'a cpu_scheme" where
  "pci_config_write_byte hw bus slot func offset data s =
     (let (val, s) = inl hw PCI_CONFIG_DATA (pci_write_address bus slot func offset s);
          shift = unat (offset AND 3) * 8;
          val = val AND NOT (push_bit shift 0xFF);
          val = val OR push_bit shift (ucast data)
      in outl PCI_CONFIG_DATA val s)"

definition pci_config_write_word :: "hardware \<Rightarrow> u8 \<Rightarrow> u8 \<Rightarrow> u8 \<Rightarrow> u8 \<Rightarrow> u16 \<Rightarrow> 'a cpu_scheme \<Rightarrow> 'a cpu_scheme" where
  "pci_config_write_word hw bus slot func offset data s =
     (let (val, s) = inl hw PCI_CONFIG_DATA (pci_write_address bus slot func offset s);
          shift = unat (offset AND 2) * 8;
          val = val AND NOT (push_bit shift 0xFFFF);
          val = val OR push_bit shift (ucast data)
      in outl PCI_CONFIG_DATA val s)"

definition pci_config_write_dword :: "u8 \<Rightarrow> u8 \<Rightarrow> u8 \<Rightarrow> u8 \<Rightarrow> u32 \<Rightarrow> 'a cpu_scheme \<Rightarrow> 'a cpu_scheme" where
  "pci_config_write_dword bus slot func offset data s =
     outl PCI_CONFIG_DATA data (pci_write_address bus slot func offset s)"

section \<open>The scan\<close>

record pci_driver =
  pd_func :: u8
  pd_slot :: u8
  pd_bus :: u8
  pd_header :: "u32 list"
  pd_device_name :: "string option"

record pci_device =
  dv_slot :: u8
  dv_bus :: u8
  dv_func_ll :: "pci_driver list"

record pci_bus =
  bs_bus :: u8
  bs_dev_ll :: "pci_device list"

record device_metadata =
  md_class_code :: u8
  md_subclass_code :: u8
  md_device_name :: "string option"

record pci_vars = cpu +
  pci_ll :: "pci_bus list"
  devs_metadata :: "device_metadata list"
  pci_amount :: u32

definition INVALID_VENDOR_ID :: u16 where "INVALID_VENDOR_ID = 0xFFFF"
definition OFFSET_VENDOR_ID :: u8 where "OFFSET_VENDOR_ID = 0"
definition OFFSET_HEADER_TYPE_ID :: u8 where "OFFSET_HEADER_TYPE_ID = 0xE"
definition PCI_HEADER_GENERAL_DEVICE :: u8 where "PCI_HEADER_GENERAL_DEVICE = 0"
definition PCI_HEADER_PCI_BRIDGE :: u8 where "PCI_HEADER_PCI_BRIDGE = 1"
definition PCI_HEADER_CARDBUS_BRIDGE :: u8 where "PCI_HEADER_CARDBUS_BRIDGE = 2"
definition DEVS_COUNT :: nat where "DEVS_COUNT = 32"
definition FUNCS_COUNT :: nat where "FUNCS_COUNT = 8"

text \<open>The fields of a header that are used, by their offsets in the packed structures.\<close>

definition header_byte :: "u32 list \<Rightarrow> nat \<Rightarrow> u8" where
  "header_byte h offset = ucast (drop_bit (offset mod 4 * 8) (h ! (offset div 4)))"

definition subclass_code :: "u32 list \<Rightarrow> u8" where "subclass_code h = header_byte h 10"
definition class_code :: "u32 list \<Rightarrow> u8" where "class_code h = header_byte h 11"
definition header_type :: "u32 list \<Rightarrow> u8" where "header_type h = header_byte h 14"
definition secondary_bus_number :: "u32 list \<Rightarrow> u8" where "secondary_bus_number h = header_byte h 25"

definition get_vendor_id :: "hardware \<Rightarrow> u8 \<Rightarrow> u8 \<Rightarrow> u8 \<Rightarrow> pci_vars \<Rightarrow> u16 \<times> pci_vars" where
  "get_vendor_id hw bus dev_slot func s = pci_config_read_word hw bus dev_slot func OFFSET_VENDOR_ID s"

definition get_header_type :: "hardware \<Rightarrow> u8 \<Rightarrow> u8 \<Rightarrow> u8 \<Rightarrow> pci_vars \<Rightarrow> u8 \<times> pci_vars" where
  "get_header_type hw bus dev_slot func s = pci_config_read_byte hw bus dev_slot func OFFSET_HEADER_TYPE_ID s"

definition is_multifunction :: "hardware \<Rightarrow> u8 \<Rightarrow> u8 \<Rightarrow> pci_vars \<Rightarrow> bool \<times> pci_vars" where
  "is_multifunction hw bus dev_slot s =
     (let (header_type, s) = pci_config_read_byte hw bus dev_slot 0 OFFSET_HEADER_TYPE_ID s in (header_type AND 0x80 \<noteq> 0, s))"

definition init_device_names :: "pci_vars \<Rightarrow> pci_vars" where
  "init_device_names s =
     s\<lparr>devs_metadata := [\<lparr>md_class_code = 1, md_subclass_code = 1, md_device_name = Some ''IDE Controller''\<rparr>]\<rparr>"

definition fetch_dev_name :: "pci_driver \<Rightarrow> pci_vars \<Rightarrow> pci_driver" where
  "fetch_dev_name node s =
     fold (\<lambda>m node. if md_class_code m = class_code (pd_header node) \<and> md_subclass_code m = subclass_code (pd_header node)
                    then node\<lparr>pd_device_name := md_device_name m\<rparr> else node)
       (devs_metadata s) (node\<lparr>pd_device_name := None\<rparr>)"

text \<open>The size of a header in double words, and the loop that reads it.\<close>

definition header_words :: "u8 \<Rightarrow> nat kres" where
  "header_words type =
     (if type = PCI_HEADER_GENERAL_DEVICE then Inr 16
      else if type = PCI_HEADER_CARDBUS_BRIDGE then Inr 18
      else if type = PCI_HEADER_PCI_BRIDGE then Inr 16
      else Inl Aborted)"

primrec read_header :: "hardware \<Rightarrow> u8 \<Rightarrow> u8 \<Rightarrow> u8 \<Rightarrow> nat \<Rightarrow> pci_vars \<Rightarrow> u32 list \<times> pci_vars" where
  "read_header hw bus slot func 0 s = ([], s)"
| "read_header hw bus slot func (Suc n) s =
     (let (h, s) = read_header hw bus slot func n s; (v, s) = pci_config_read_dword hw bus slot func (of_nat (4 * n)) s in (h @ [v], s))"

definition fetch_func_header :: "hardware \<Rightarrow> pci_driver \<Rightarrow> pci_vars \<Rightarrow> (pci_driver \<times> pci_vars) kres" where
  "fetch_func_header hw node s =
     (let (type, s) = get_header_type hw (pd_bus node) (pd_slot node) (pd_func node) s
      in kbind (header_words (type AND 0x7F)) (\<lambda>n.
         let (h, s) = read_header hw (pd_bus node) (pd_slot node) (pd_func node) n s in Inr (node\<lparr>pd_header := h\<rparr>, s)))"

definition make_func_node :: "hardware \<Rightarrow> pci_device \<Rightarrow> u8 \<Rightarrow> pci_vars \<Rightarrow> (pci_driver \<times> pci_device \<times> pci_vars) kres" where
  "make_func_node hw dev_node func_index s =
     (let node = \<lparr>pd_func = func_index, pd_slot = dv_slot dev_node, pd_bus = dv_bus dev_node, pd_header = [], pd_device_name = None\<rparr>
      in kbind (fetch_func_header hw node s) (\<lambda>(node, s).
         let node = fetch_dev_name node s in Inr (node, dev_node\<lparr>dv_func_ll := node # dv_func_ll dev_node\<rparr>, s)))"

text \<open>\<open>scan\<close> is the call of \<^verbatim>\<open>scan_bus\<close> for the bus behind a bridge.\<close>

definition scan_function :: "(u8 \<Rightarrow> pci_vars \<Rightarrow> pci_vars kloop) \<Rightarrow> pci_driver \<Rightarrow> pci_vars \<Rightarrow> pci_vars kloop" where
  "scan_function scan node s =
     (if header_type (pd_header node) AND 0x7F = PCI_HEADER_PCI_BRIDGE then scan (secondary_bus_number (pd_header node)) s else lret s)"

definition add_function ::
  "hardware \<Rightarrow> (u8 \<Rightarrow> pci_vars \<Rightarrow> pci_vars kloop) \<Rightarrow> pci_device \<Rightarrow> u8 \<Rightarrow> pci_vars \<Rightarrow> (pci_device \<times> pci_vars) kloop" where
  "add_function hw scan dev_node func_index s =
     lbind (Some (make_func_node hw dev_node func_index (s\<lparr>pci_amount := pci_amount s + 1\<rparr>))) (\<lambda>(node, dev_node, s).
     lbind (scan_function scan node s) (\<lambda>s. lret (dev_node, s)))"

primrec scan_functions ::
  "hardware \<Rightarrow> (u8 \<Rightarrow> pci_vars \<Rightarrow> pci_vars kloop) \<Rightarrow> u8 list \<Rightarrow> pci_device \<Rightarrow> pci_vars \<Rightarrow> (pci_device \<times> pci_vars) kloop" where
  "scan_functions hw scan [] dev_node s = lret (dev_node, s)"
| "scan_functions hw scan (func_index # fs) dev_node s =
     (let (vendor_id, s) = get_vendor_id hw (dv_bus dev_node) (dv_slot dev_node) func_index s
      in if vendor_id = INVALID_VENDOR_ID then scan_functions hw scan fs dev_node s
         else lbind (add_function hw scan dev_node func_index s) (\<lambda>(dev_node, s). scan_functions hw scan fs dev_node s))"

definition scan_device ::
  "hardware \<Rightarrow> (u8 \<Rightarrow> pci_vars \<Rightarrow> pci_vars kloop) \<Rightarrow> pci_device \<Rightarrow> pci_vars \<Rightarrow> (pci_device \<times> pci_vars) kloop" where
  "scan_device hw scan dev_node s =
     (let (multi, s) = is_multifunction hw (dv_bus dev_node) (dv_slot dev_node) s
      in if \<not> multi then add_function hw scan dev_node 0 s
         else scan_functions hw scan (map of_nat [0..<FUNCS_COUNT]) dev_node s)"

primrec scan_devices ::
  "hardware \<Rightarrow> (u8 \<Rightarrow> pci_vars \<Rightarrow> pci_vars kloop) \<Rightarrow> u8 list \<Rightarrow> pci_bus \<Rightarrow> pci_vars \<Rightarrow> (pci_bus \<times> pci_vars) kloop" where
  "scan_devices hw scan [] bus_node s = lret (bus_node, s)"
| "scan_devices hw scan (dev_index # ds) bus_node s =
     (let (vendor_id, s) = get_vendor_id hw (bs_bus bus_node) dev_index 0 s
      in if vendor_id = INVALID_VENDOR_ID then scan_devices hw scan ds bus_node s
         else lbind (scan_device hw scan \<lparr>dv_slot = dev_index, dv_bus = bs_bus bus_node, dv_func_ll = []\<rparr>
                      (s\<lparr>pci_amount := pci_amount s + 1\<rparr>)) (\<lambda>(dev_node, s).
              scan_devices hw scan ds (bus_node\<lparr>bs_dev_ll := dev_node # bs_dev_ll bus_node\<rparr>) s))"

lemma case_prod_mono [partial_function_mono]: "(\<And>a b. mono_option (\<lambda>f. C a b f)) \<Longrightarrow> mono_option (\<lambda>f. case p of (a, b) \<Rightarrow> C a b f)"
  by (cases p) simp

lemma scan_function_mono [partial_function_mono]:
  assumes [partial_function_mono]: "\<And>b s. mono_option (\<lambda>f. S b s f)"
  shows "mono_option (\<lambda>f. scan_function (\<lambda>b s. S b s f) node s)"
  unfolding scan_function_def by (intro partial_function_mono)

lemma add_function_mono [partial_function_mono]:
  assumes [partial_function_mono]: "\<And>b s. mono_option (\<lambda>f. S b s f)"
  shows "mono_option (\<lambda>f. add_function hw (\<lambda>b s. S b s f) dev func s)"
  unfolding add_function_def by (intro partial_function_mono)

lemma scan_functions_mono [partial_function_mono]:
  assumes [partial_function_mono]: "\<And>b s. mono_option (\<lambda>f. S b s f)"
  shows "mono_option (\<lambda>f. scan_functions hw (\<lambda>b s. S b s f) fs dev s)"
proof (induction fs arbitrary: dev s)
  case Nil
  show ?case by (simp only: scan_functions.simps) (intro partial_function_mono)
next
  case (Cons a fs)
  note [partial_function_mono] = Cons.IH
  show ?case by (simp only: scan_functions.simps Let_def) (intro partial_function_mono)
qed

lemma scan_device_mono [partial_function_mono]:
  assumes [partial_function_mono]: "\<And>b s. mono_option (\<lambda>f. S b s f)"
  shows "mono_option (\<lambda>f. scan_device hw (\<lambda>b s. S b s f) dev s)"
  unfolding scan_device_def Let_def by (intro partial_function_mono)

lemma scan_devices_mono [partial_function_mono]:
  assumes [partial_function_mono]: "\<And>b s. mono_option (\<lambda>f. S b s f)"
  shows "mono_option (\<lambda>f. scan_devices hw (\<lambda>b s. S b s f) ds bus s)"
proof (induction ds arbitrary: bus s)
  case Nil
  show ?case by (simp only: scan_devices.simps) (intro partial_function_mono)
next
  case (Cons a fs)
  note [partial_function_mono] = Cons.IH
  show ?case by (simp only: scan_devices.simps Let_def) (intro partial_function_mono)
qed

partial_function (option) scan_bus :: "hardware \<Rightarrow> u8 \<Rightarrow> pci_vars \<Rightarrow> pci_vars kloop" where
  "scan_bus hw bus s =
     lbind (scan_devices hw (\<lambda>b s. scan_bus hw b s) (map of_nat [0..<DEVS_COUNT]) \<lparr>bs_bus = bus, bs_dev_ll = []\<rparr>
             (s\<lparr>pci_amount := pci_amount s + 1\<rparr>)) (\<lambda>(bus_node, s).
     lret (s\<lparr>pci_ll := bus_node # pci_ll s\<rparr>))"

declare scan_bus.simps [code]

definition get_pci_device :: "u16 \<Rightarrow> u16 \<Rightarrow> pci_vars \<Rightarrow> pci_driver option" where
  "get_pci_device class subclass s =
     List.find (\<lambda>d. ucast (class_code (pd_header d)) = class \<and> ucast (subclass_code (pd_header d)) = subclass)
       (concat (map (\<lambda>b. concat (map dv_func_ll (bs_dev_ll b))) (pci_ll s)))"

definition init_pci :: "hardware \<Rightarrow> pci_vars \<Rightarrow> pci_vars kloop" where
  "init_pci hw s = scan_bus hw 0 ((init_device_names s)\<lparr>pci_ll := []\<rparr>)"

end
