(* ===== verification/Pci_Props.thy ===== *)
theory Pci_Props
  imports Pci
begin

text \<open>
  Correctness of the accesses to configuration space and of the scan, against a model of the host bridge: an address
  register and a store of double words, which reads the history of port events.
\<close>

section \<open>The host bridge\<close>

record pci_chip =
  chip_addr :: u32
  chip_regs :: "u32 \<Rightarrow> u32"

fun pci_chip_step :: "pci_chip \<Rightarrow> io_event \<Rightarrow> pci_chip" where
  "pci_chip_step c (Out32 p v) =
     (if p = PCI_CONFIG_ADDR then c\<lparr>chip_addr := v\<rparr>
      else if p = PCI_CONFIG_DATA \<and> bit (chip_addr c) 31 then c\<lparr>chip_regs := (chip_regs c)(chip_addr c := v)\<rparr> else c)"
| "pci_chip_step c _ = c"

definition pci_chip_after :: "pci_chip \<Rightarrow> io_event list \<Rightarrow> pci_chip" where
  "pci_chip_after c es = foldl pci_chip_step c es"

definition pci_hw :: "pci_chip \<Rightarrow> hardware" where
  "pci_hw c es port =
     (if port = PCI_CONFIG_DATA then chip_regs (pci_chip_after c es) (chip_addr (pci_chip_after c es)) else 0xFFFFFFFF)"

text \<open>The double words of configuration space after the events so far.\<close>

definition pci_regs :: "pci_chip \<Rightarrow> 'a cpu_scheme \<Rightarrow> u32 \<Rightarrow> u32" where
  "pci_regs c s = chip_regs (pci_chip_after c (cpu_io s))"

definition config_byte :: "pci_chip \<Rightarrow> 'a cpu_scheme \<Rightarrow> u8 \<Rightarrow> u8 \<Rightarrow> u8 \<Rightarrow> u8 \<Rightarrow> u8" where
  "config_byte c s bus slot func offset = ucast (drop_bit (unat (offset AND 3) * 8) (pci_regs c s (pci_address bus slot func offset)))"

lemma bit_pci_address_31: "bit (pci_address bus slot func offset) 31"
  by (simp add: pci_address_def bit_or_iff bit_push_bit_iff)

lemma pci_read_dword:
  "pci_config_read_dword (pci_hw c) bus slot func offset s =
     (let v = pci_regs c s (pci_address bus slot func offset) in
      (v, s\<lparr>cpu_io := cpu_io s @ [Out32 PCI_CONFIG_ADDR (pci_address bus slot func offset), In32 PCI_CONFIG_DATA v]\<rparr>))"
  by (simp add: pci_config_read_dword_def pci_write_address_def outl_def inl_def pci_hw_def pci_chip_after_def pci_regs_def Let_def
      PCI_CONFIG_ADDR_def PCI_CONFIG_DATA_def)

lemma pci_regs_read [simp]:
  "pci_regs c (s\<lparr>cpu_io := cpu_io s @ [Out32 PCI_CONFIG_ADDR a, In32 PCI_CONFIG_DATA v]\<rparr>) = pci_regs c s"
  by (simp add: pci_regs_def pci_chip_after_def)

lemma pci_regs_write:
  "bit a 31 \<Longrightarrow> pci_regs c (s\<lparr>cpu_io := cpu_io s @ [Out32 PCI_CONFIG_ADDR a, In32 PCI_CONFIG_DATA v, Out32 PCI_CONFIG_DATA w]\<rparr>) =
    (pci_regs c s)(a := w)"
  by (simp add: pci_regs_def pci_chip_after_def PCI_CONFIG_ADDR_def PCI_CONFIG_DATA_def)

lemmas pci_read_inl = pci_read_dword [unfolded pci_config_read_dword_def]

section \<open>Addresses\<close>

lemma address_fields:
  assumes "unat slot < 32" "unat func < 8"
  shows "ucast (drop_bit 16 (pci_address bus slot func offset)) = bus"
    "ucast (drop_bit 11 (pci_address bus slot func offset) AND 0x1F) = slot"
    "ucast (drop_bit 8 (pci_address bus slot func offset) AND 0x7) = func"
    "ucast (pci_address bus slot func offset) = offset AND 0xFC"
proof -
  have s: "bit slot n \<Longrightarrow> n < 5" and f: "bit func n \<Longrightarrow> n < 3" for n
    using small_bit [of slot 5 n] small_bit [of func 3 n] assms by simp_all
  have o: "bit (offset AND 0xFC) n \<Longrightarrow> n < 8" for n by (auto dest: bit_imp_le_length)
  have m: "(0x1F :: u32) = mask 5" "(0x7 :: u32) = mask 3" by (simp_all add: mask_eq_exp_minus_1)
  have p: "bit (push_bit k (ucast x) :: u32) n \<longleftrightarrow> k \<le> n \<and> n < 32 \<and> bit x (n - k)" for x :: u8 and k n
    by (auto simp: bit_push_bit_iff bit_ucast_iff possible_bit_word)
  have r: "bit (ucast x :: u32) n \<longleftrightarrow> n < 32 \<and> bit x n" for x :: u8 and n by (auto simp: bit_ucast_iff)
  have q: "bit (push_bit 31 (1 :: u32)) n \<longleftrightarrow> n = 31" for n unfolding bit_push_bit_iff bit_1_iff by (auto simp: possible_bit_word)
  have a: "bit (pci_address bus slot func offset) n \<longleftrightarrow> n = 31 \<or> 16 \<le> n \<and> n < 32 \<and> bit bus (n - 16) \<or>
      11 \<le> n \<and> n < 32 \<and> bit slot (n - 11) \<or> 8 \<le> n \<and> n < 32 \<and> bit func (n - 8) \<or> n < 32 \<and> bit (offset AND 0xFC) n" for n
    unfolding pci_address_def bit_or_iff p q r by blast
  show "ucast (drop_bit 16 (pci_address bus slot func offset)) = bus"
    by (rule bit_word_eqI) (auto simp: bit_ucast_iff bit_drop_bit_eq a dest: s f o)
  show "ucast (drop_bit 11 (pci_address bus slot func offset) AND 0x1F) = slot"
    unfolding m by (rule bit_word_eqI) (auto simp: bit_ucast_iff bit_and_iff bit_mask_iff bit_drop_bit_eq a possible_bit_word dest: s f o)
  show "ucast (drop_bit 8 (pci_address bus slot func offset) AND 0x7) = func"
    unfolding m by (rule bit_word_eqI) (auto simp: bit_ucast_iff bit_and_iff bit_mask_iff bit_drop_bit_eq a possible_bit_word dest: s f o)
  show "ucast (pci_address bus slot func offset) = offset AND 0xFC"
    by (rule bit_word_eqI) (auto simp: bit_ucast_iff a dest: s f o)
qed

lemma pci_address_eq_iff:
  assumes "unat slot < 32" "unat func < 8" "unat slot' < 32" "unat func' < 8"
  shows "pci_address bus slot func offset = pci_address bus' slot' func' offset' \<longleftrightarrow>
    bus = bus' \<and> slot = slot' \<and> func = func' \<and> offset AND 0xFC = offset' AND 0xFC"
  using address_fields [OF assms(1,2), of bus offset] address_fields [OF assms(3,4), of bus' offset']
  by (metis (no_types) pci_address_def)

lemma offset_eq_iff: "offset = offset' \<longleftrightarrow> offset AND 0xFC = offset' AND 0xFC \<and> offset AND 3 = offset' AND (3 :: u8)"
proof -
  have "(0xFC :: u8) OR 3 = - 1" by simp
  then have "x = (x AND 0xFC) OR (x AND 3)" for x :: u8 by (metis and.right_neutral bit.conj_disj_distrib)
  then show ?thesis by metis
qed

section \<open>Fields of a double word\<close>

definition merge_bits :: "nat \<Rightarrow> u32 \<Rightarrow> u32 \<Rightarrow> u32 \<Rightarrow> u32" where
  "merge_bits sh m v d = v AND NOT (push_bit sh m) OR push_bit sh d"

lemma bit_merge_bits:
  fixes d :: "'a :: len word"
  assumes "n < 32" "w = LENGTH('a)"
  shows "bit (merge_bits sh (mask w) v (ucast d)) n \<longleftrightarrow> (if sh \<le> n \<and> n < sh + w then bit d (n - sh) else bit v n)"
  using assms unfolding merge_bits_def
  by (auto simp: bit_or_iff bit_and_iff bit_not_iff bit_push_bit_iff bit_mask_iff bit_ucast_iff possible_bit_word
      dest: bit_imp_le_length)

lemma mask_consts: "(0xFF :: u32) = mask 8" "(0xFFFF :: u32) = mask 16"
  by (simp_all add: mask_eq_exp_minus_1)

lemma bit_byte: "n < 8 \<Longrightarrow> bit (ucast (drop_bit j x) :: u8) n = bit x (j + n)" for x :: "'a :: len word"
  by (simp add: bit_ucast_iff bit_drop_bit_eq)

lemma merge_byte:
  fixes d :: u8
  assumes "i < 4" "k < 4"
  shows "ucast (drop_bit (k * 8) (merge_bits (i * 8) 0xFF v (ucast d))) = (if k = i then d else ucast (drop_bit (k * 8) v))"
    (is "?l = ?r")
proof (rule bit_word_eqI)
  fix n assume n: "n < LENGTH(8)"
  then have n8: "n < 8" and lt: "k * 8 + n < 32" using assms by simp_all
  have "bit ?l n \<longleftrightarrow> (if i * 8 \<le> k * 8 + n \<and> k * 8 + n < i * 8 + 8 then bit d (k * 8 + n - i * 8) else bit v (k * 8 + n))"
    unfolding bit_byte [OF n8] mask_consts by (rule bit_merge_bits [OF lt]) simp
  moreover have "i * 8 \<le> k * 8 + n \<and> k * 8 + n < i * 8 + 8 \<longleftrightarrow> k = i" using n8 by auto
  ultimately show "bit ?l n = bit ?r n" using bit_byte [OF n8, of "k * 8" v] by simp
qed

lemma merge_word:
  fixes d :: u16
  assumes "i = 0 \<or> i = 2" "k < 4"
  shows "ucast (drop_bit (k * 8) (merge_bits (i * 8) 0xFFFF v (ucast d))) =
    (if k = i then ucast d else if k = i + 1 then ucast (drop_bit 8 d) else ucast (drop_bit (k * 8) v) :: u8)"
    (is "?l = ?r")
proof (rule bit_word_eqI)
  fix n assume n: "n < LENGTH(8)"
  then have n8: "n < 8" and lt: "k * 8 + n < 32" using assms by simp_all
  have "bit ?l n \<longleftrightarrow> (if i * 8 \<le> k * 8 + n \<and> k * 8 + n < i * 8 + 16 then bit d (k * 8 + n - i * 8) else bit v (k * 8 + n))"
    unfolding bit_byte [OF n8] mask_consts by (rule bit_merge_bits [OF lt]) simp
  moreover have "i * 8 \<le> k * 8 + n \<and> k * 8 + n < i * 8 + 16 \<longleftrightarrow> k = i \<or> k = i + 1" using n8 by auto
  moreover have "k = i + 1 \<Longrightarrow> k * 8 + n - i * 8 = 8 + n" by simp
  ultimately show "bit ?l n = bit ?r n"
    using bit_byte [OF n8, of "k * 8" v] bit_byte [OF n8, of 8 d] bit_byte [OF n8, of 0 d] by (simp split: if_split_asm)
qed

lemma offset_parts:
  fixes offset :: u8
  shows "unat (offset AND 3) < 4" "unat (offset AND 2) = 0 \<or> unat (offset AND 2) = 2"
    "\<not> bit offset 0 \<Longrightarrow> offset AND 3 = offset AND 2"
proof -
  have "offset AND 3 = take_bit 2 offset" by (simp add: take_bit_eq_mask mask_eq_exp_minus_1)
  then show "unat (offset AND 3) < 4" by (simp add: take_bit_eq_mod unat_mod_distrib)
  have "offset AND 2 = (if bit offset 1 then 2 else 0)"
    by (rule bit_word_eqI) (auto simp: bit_and_iff bit_2_iff)
  then show "unat (offset AND 2) = 0 \<or> unat (offset AND 2) = 2" by simp
  assume odd: "\<not> bit offset 0"
  have three: "bit (3 :: u8) n \<longleftrightarrow> n = 0 \<or> n = 1" for n
  proof -
    have "(3 :: u8) = mask 2" by (simp add: mask_eq_exp_minus_1)
    then show ?thesis by (simp only: bit_mask_iff) (auto simp: possible_bit_word)
  qed
  show "offset AND 3 = offset AND 2"
  proof (rule bit_word_eqI)
    show "bit (offset AND 3) n = bit (offset AND 2) n" for n
      unfolding bit_and_iff three bit_2_iff using odd by (cases "n = 0") (auto simp: possible_bit_word)
  qed
qed

section \<open>Reading and writing\<close>

lemma pci_read_byte:
  "pci_config_read_byte (pci_hw c) bus slot func offset s =
     (config_byte c s bus slot func offset, s\<lparr>cpu_io := cpu_io s @ [Out32 PCI_CONFIG_ADDR (pci_address bus slot func offset),
        In32 PCI_CONFIG_DATA (pci_regs c s (pci_address bus slot func offset))]\<rparr>)"
proof -
  have "ucast (x AND 0xFF) = (ucast x :: u8)" for x :: u32
    unfolding and_bytes by (rule bit_word_eqI) (simp add: bit_ucast_iff bit_take_bit_iff)
  then show ?thesis by (simp add: pci_config_read_byte_def pci_read_inl Let_def config_byte_def)
qed

lemma pci_read_word:
  "pci_config_read_word (pci_hw c) bus slot func offset s =
     (ucast (drop_bit (unat (offset AND 2) * 8) (pci_regs c s (pci_address bus slot func offset))),
      s\<lparr>cpu_io := cpu_io s @ [Out32 PCI_CONFIG_ADDR (pci_address bus slot func offset),
        In32 PCI_CONFIG_DATA (pci_regs c s (pci_address bus slot func offset))]\<rparr>)"
proof -
  have "ucast (x AND 0xFFFF) = (ucast x :: u16)" for x :: u32
    unfolding mask_consts by (rule bit_word_eqI) (simp add: bit_ucast_iff bit_and_iff bit_mask_iff possible_bit_word)
  then show ?thesis by (simp add: pci_config_read_word_def pci_read_inl Let_def)
qed

lemma regs_write_byte:
  "pci_regs c (pci_config_write_byte (pci_hw c) bus slot func offset d s) =
     (let a = pci_address bus slot func offset; v = pci_regs c s a; sh = unat (offset AND 3) * 8
      in (pci_regs c s)(a := merge_bits sh 0xFF v (ucast d)))"
  by (simp add: pci_config_write_byte_def pci_read_inl Let_def outl_def pci_regs_write [OF bit_pci_address_31] merge_bits_def)

lemma regs_write_word:
  "pci_regs c (pci_config_write_word (pci_hw c) bus slot func offset d s) =
     (let a = pci_address bus slot func offset; v = pci_regs c s a; sh = unat (offset AND 2) * 8
      in (pci_regs c s)(a := merge_bits sh 0xFFFF v (ucast d)))"
  by (simp add: pci_config_write_word_def pci_read_inl Let_def outl_def pci_regs_write [OF bit_pci_address_31] merge_bits_def)


lemma config_byte_write_byte:
  assumes "unat slot < 32" "unat func < 8" "unat slot' < 32" "unat func' < 8"
  shows "config_byte c (pci_config_write_byte (pci_hw c) bus slot func offset d s) bus' slot' func' offset' =
    (if bus' = bus \<and> slot' = slot \<and> func' = func \<and> offset' = offset then d else config_byte c s bus' slot' func' offset')"
proof (cases "pci_address bus' slot' func' offset' = pci_address bus slot func offset")
  case True
  then have eq: "bus' = bus \<and> slot' = slot \<and> func' = func" "offset' AND 0xFC = offset AND 0xFC"
    using pci_address_eq_iff [OF assms(3,4,1,2)] by blast+
  then have "offset' = offset \<longleftrightarrow> unat (offset' AND 3) = unat (offset AND 3)"
    using offset_eq_iff [of offset' offset] by (metis word_unat_eq_iff)
  then show ?thesis
    using True eq by (simp add: config_byte_def regs_write_byte Let_def merge_byte offset_parts)
next
  case False
  then show ?thesis
    using pci_address_eq_iff [OF assms(3,4,1,2), of bus' offset' bus offset] by (auto simp: config_byte_def regs_write_byte Let_def)
qed

lemma succ_offset:
  fixes offset :: u8
  assumes "even (unat offset)"
  shows "(offset + 1) AND 0xFC = offset AND 0xFC" "unat ((offset + 1) AND 3) = unat (offset AND 3) + 1" "offset AND 3 = offset AND 2"
proof -
  have z: "\<not> bit offset 0" using assms bit_0 [of "unat offset"] by (simp only: bit_unsigned_iff) (auto dest: bit_imp_possible_bit)
  then have "offset AND 1 = 0" by (simp add: and_one_eq bit_0 even_iff_mod_2_eq_zero)
  moreover have "(offset AND 3) AND 1 = offset AND 1" by (simp add: and.assoc)
  ultimately have and1: "offset AND 1 = 0" "(offset AND 3) AND 1 = 0" by simp_all
  have s: "offset + 1 = offset OR 1" "(offset AND 3) + 1 = (offset AND 3) OR 1"
    by (rule disjunctive_add_eq_or, rule and1)+
  show "(offset + 1) AND 0xFC = offset AND 0xFC" by (simp add: s(1) bit.conj_disj_distrib2)
  have "(offset + 1) AND 3 = (offset AND 3) + 1" unfolding s by (simp add: bit.conj_disj_distrib2)
  then show "unat ((offset + 1) AND 3) = unat (offset AND 3) + 1" using offset_parts(1) [of offset] by (simp add: unat_word_ariths)
  show "offset AND 3 = offset AND 2" using z by (rule offset_parts(3))
qed

lemma config_byte_write_word:
  assumes "unat slot < 32" "unat func < 8" "unat slot' < 32" "unat func' < 8" "even (unat offset)"
  shows "config_byte c (pci_config_write_word (pci_hw c) bus slot func offset d s) bus' slot' func' offset' =
    (if bus' = bus \<and> slot' = slot \<and> func' = func \<and> offset' = offset then ucast d
     else if bus' = bus \<and> slot' = slot \<and> func' = func \<and> offset' = offset + 1 then ucast (drop_bit 8 d)
     else config_byte c s bus' slot' func' offset')"
proof (cases "pci_address bus' slot' func' offset' = pci_address bus slot func offset")
  case True
  then have eq: "bus' = bus \<and> slot' = slot \<and> func' = func" "offset' AND 0xFC = offset AND 0xFC"
    using pci_address_eq_iff [OF assms(3,4,1,2)] by blast+
  have "offset' = offset \<longleftrightarrow> unat (offset' AND 3) = unat (offset AND 2)"
    using offset_eq_iff [of offset' offset] eq(2) succ_offset(3) [OF assms(5)] by (metis word_unat_eq_iff)
  moreover have "offset' = offset + 1 \<longleftrightarrow> unat (offset' AND 3) = unat (offset AND 2) + 1"
    using offset_eq_iff [of offset' "offset + 1"] eq(2) succ_offset [OF assms(5)] by (metis word_unat_eq_iff)
  ultimately show ?thesis
    using True eq by (simp add: config_byte_def regs_write_word Let_def merge_word offset_parts)
next
  case False
  then show ?thesis
    using pci_address_eq_iff [OF assms(3,4,1,2), of bus' offset' bus offset] succ_offset(1) [OF assms(5)]
    by (auto simp: config_byte_def regs_write_word Let_def)
qed

text \<open>C20. Configuration space as the drivers see it is a store of bytes: on a host bridge that keeps what is written, writing a byte
  or an even word changes exactly these bytes of exactly this function, and reading a byte, a word or a double word
  returns the bytes and changes none.
\<close>

theorem pci_config_access:
  assumes "unat slot < 32" "unat func < 8" "unat slot' < 32" "unat func' < 8" "even (unat offset)"
  shows "config_byte c (pci_config_write_byte (pci_hw c) bus slot func o1 b s) bus' slot' func' offset' =
      (if bus' = bus \<and> slot' = slot \<and> func' = func \<and> offset' = o1 then b else config_byte c s bus' slot' func' offset') \<and>
    config_byte c (pci_config_write_word (pci_hw c) bus slot func offset w s) bus' slot' func' offset' =
      (if bus' = bus \<and> slot' = slot \<and> func' = func \<and> offset' = offset then ucast w
       else if bus' = bus \<and> slot' = slot \<and> func' = func \<and> offset' = offset + 1 then ucast (drop_bit 8 w)
       else config_byte c s bus' slot' func' offset') \<and>
    fst (pci_config_read_byte (pci_hw c) bus slot func o1 s) = config_byte c s bus slot func o1 \<and>
    fst (pci_config_read_word (pci_hw c) bus slot func offset s) =
      ucast (config_byte c s bus slot func offset) OR push_bit 8 (ucast (config_byte c s bus slot func (offset + 1))) \<and>
    config_byte c (snd (pci_config_read_byte (pci_hw c) bus slot func o1 s)) = config_byte c s \<and>
    config_byte c (snd (pci_config_read_word (pci_hw c) bus slot func offset s)) = config_byte c s"
proof -
  have a: "pci_address bus slot func (offset + 1) = pci_address bus slot func offset"
    unfolding pci_address_def succ_offset(1) [OF assms(5)] ..
  have "ucast (drop_bit (unat (offset AND 2) * 8) x) = (ucast (ucast (drop_bit (unat (offset AND 3) * 8) x) :: u8) OR
      push_bit 8 (ucast (ucast (drop_bit (unat ((offset + 1) AND 3) * 8) x) :: u8)) :: u16)" for x :: u32
  proof (rule bit_word_eqI)
    fix n assume n: "n < LENGTH(16)"
    show "bit (ucast (drop_bit (unat (offset AND 2) * 8) x) :: u16) n = bit (ucast (ucast (drop_bit (unat (offset AND 3) * 8) x) :: u8) OR
      push_bit 8 (ucast (ucast (drop_bit (unat ((offset + 1) AND 3) * 8) x) :: u8)) :: u16) n"
      unfolding succ_offset [OF assms(5)]
      using n by (cases "n < 8") (auto simp: bit_or_iff bit_push_bit_iff bit_ucast_iff bit_drop_bit_eq add.assoc)
  qed
  then have "fst (pci_config_read_word (pci_hw c) bus slot func offset s) =
      ucast (config_byte c s bus slot func offset) OR push_bit 8 (ucast (config_byte c s bus slot func (offset + 1)))"
    by (simp add: pci_read_word config_byte_def a)
  moreover have "config_byte c (snd (pci_config_read_byte (pci_hw c) bus slot func o1 s)) = config_byte c s"
    "config_byte c (snd (pci_config_read_word (pci_hw c) bus slot func offset s)) = config_byte c s"
    by (simp_all add: pci_read_byte pci_read_word config_byte_def fun_eq_iff)
  ultimately show ?thesis
    using config_byte_write_byte [OF assms(1-4), of c bus o1 b s bus' offset'] config_byte_write_word [OF assms, of c bus w s bus' offset']
    by (intro conjI) (assumption | simp only: pci_read_byte fst_conv)+
qed


theorem pci_config_access_witness:
  "let c = \<lparr>chip_addr = 0, chip_regs = \<lambda>_. 0x11223344\<rparr>; s = \<lparr>cpu_io = [], cpu_eflags = 0\<rparr>;
       t = pci_config_write_word (pci_hw c) 0 5 1 6 0xABCD s
   in config_byte c t 0 5 1 7 = 0xAB \<and> config_byte c t 0 5 1 5 = config_byte c s 0 5 1 5"
proof -
  note p = pci_config_access [of 5 1 5 1 6 "\<lparr>chip_addr = 0, chip_regs = \<lambda>_. 0x11223344\<rparr>" 0 0 0 "\<lparr>cpu_io = [], cpu_eflags = 0\<rparr>"]
  show ?thesis using p [of 0 7 "0xABCD"] p [of 0 5 "0xABCD"] by (simp add: Let_def)
qed

section \<open>What a scan finds\<close>

text \<open>The functions on a bus, their headers, and the buses behind the bridges, from the contents of configuration space.\<close>

definition present :: "(u32 \<Rightarrow> u32) \<Rightarrow> u8 \<Rightarrow> u8 \<Rightarrow> u8 \<Rightarrow> bool" where
  "present r b sl f \<longleftrightarrow> (ucast (r (pci_address b sl f 0)) :: u16) \<noteq> 0xFFFF"

definition type_at :: "(u32 \<Rightarrow> u32) \<Rightarrow> u8 \<Rightarrow> u8 \<Rightarrow> u8 \<Rightarrow> u8" where
  "type_at r b sl f = ucast (drop_bit 16 (r (pci_address b sl f 12)))"

definition functions_at :: "(u32 \<Rightarrow> u32) \<Rightarrow> u8 \<Rightarrow> u8 \<Rightarrow> u8 list" where
  "functions_at r b sl =
     (if type_at r b sl 0 AND 0x80 = 0 then [0] else filter (present r b sl) (map of_nat [0..<FUNCS_COUNT]))"

definition slots_at :: "(u32 \<Rightarrow> u32) \<Rightarrow> u8 \<Rightarrow> u8 list" where
  "slots_at r b = filter (\<lambda>sl. present r b sl 0) (map of_nat [0..<DEVS_COUNT])"

definition header_at :: "(u32 \<Rightarrow> u32) \<Rightarrow> u8 \<Rightarrow> u8 \<Rightarrow> u8 \<Rightarrow> u32 list" where
  "header_at r b sl f = map (\<lambda>i. r (pci_address b sl f (of_nat (4 * i)))) [0..<if type_at r b sl f AND 0x7F = 2 then 18 else 16]"

definition is_bridge :: "(u32 \<Rightarrow> u32) \<Rightarrow> u8 \<Rightarrow> u8 \<Rightarrow> u8 \<Rightarrow> bool" where
  "is_bridge r b sl f \<longleftrightarrow> type_at r b sl f AND 0x7F = 1"

definition behind :: "(u32 \<Rightarrow> u32) \<Rightarrow> u8 \<Rightarrow> u8 \<Rightarrow> u8 \<Rightarrow> u8" where
  "behind r b sl f = ucast (drop_bit 8 (r (pci_address b sl f 24)))"

definition found :: "(u32 \<Rightarrow> u32) \<Rightarrow> u8 \<Rightarrow> (u8 \<times> u8) set" where
  "found r b = {(sl, f). sl \<in> set (slots_at r b) \<and> f \<in> set (functions_at r b sl)}"


inductive reaches :: "(u32 \<Rightarrow> u32) \<Rightarrow> u8 \<Rightarrow> u8 \<Rightarrow> bool" for r where
  reaches_refl: "reaches r b b"
| reaches_bridge: "(sl, f) \<in> found r b \<Longrightarrow> is_bridge r b sl f \<Longrightarrow> reaches r (behind r b sl f) b' \<Longrightarrow> reaches r b b'"

definition driver_at :: "device_metadata list \<Rightarrow> (u32 \<Rightarrow> u32) \<Rightarrow> u8 \<Rightarrow> u8 \<Rightarrow> u8 \<Rightarrow> pci_driver" where
  "driver_at md r b sl f =
     fetch_dev_name \<lparr>pd_func = f, pd_slot = sl, pd_bus = b, pd_header = header_at r b sl f, pd_device_name = None\<rparr>
       \<lparr>cpu_io = [], cpu_eflags = 0, pci_ll = [], devs_metadata = md, pci_amount = 0\<rparr>"

definition bus_drivers :: "pci_bus \<Rightarrow> pci_driver list" where
  "bus_drivers bn = concat (map dv_func_ll (bs_dev_ll bn))"

definition drivers :: "pci_vars \<Rightarrow> pci_driver set" where
  "drivers s = set (concat (map bus_drivers (pci_ll s)))"

definition reached_drivers :: "device_metadata list \<Rightarrow> (u32 \<Rightarrow> u32) \<Rightarrow> u8 \<Rightarrow> pci_driver set" where
  "reached_drivers md r b = {driver_at md r b' sl f |b' sl f. reaches r b b' \<and> (sl, f) \<in> found r b'}"

text \<open>States that differ in the history of reads and the counter only.\<close>

definition scanning :: "pci_chip \<Rightarrow> (u32 \<Rightarrow> u32) \<Rightarrow> device_metadata list \<Rightarrow> pci_vars \<Rightarrow> bool" where
  "scanning c r md s \<longleftrightarrow> pci_regs c s = r \<and> devs_metadata s = md"

lemma scanning_read:
  "scanning c r md s \<Longrightarrow> scanning c r md (s\<lparr>cpu_io := cpu_io s @ [Out32 PCI_CONFIG_ADDR a, In32 PCI_CONFIG_DATA v]\<rparr>)"
  by (simp add: scanning_def)

lemma scanning_amount [simp]: "scanning c r md (s\<lparr>pci_amount := n\<rparr>) = scanning c r md s"
  "scanning c r md (s\<lparr>pci_ll := l\<rparr>) = scanning c r md s"
  by (simp_all add: scanning_def pci_regs_def)

lemma get_vendor_id_scan:
  assumes "scanning c r md s"
  shows "\<exists>s'. get_vendor_id (pci_hw c) b sl f s = (ucast (r (pci_address b sl f 0)), s') \<and> scanning c r md s' \<and> pci_ll s' = pci_ll s"
  using assms scanning_read [OF assms] by (simp add: get_vendor_id_def pci_read_word OFFSET_VENDOR_ID_def scanning_def)

lemma type_byte: "scanning c r md s \<Longrightarrow> config_byte c s b sl f 0xE = type_at r b sl f"
  by (simp add: config_byte_def type_at_def scanning_def pci_address_def)

lemma header_type_scan:
  assumes "scanning c r md s"
  shows "\<exists>s'. pci_config_read_byte (pci_hw c) b sl f 0xE s = (type_at r b sl f, s') \<and> scanning c r md s' \<and> pci_ll s' = pci_ll s"
  using assms scanning_read [OF assms] by (simp add: pci_read_byte type_byte)

lemma read_header_scan:
  assumes "scanning c r md s"
  shows "\<exists>s'. read_header (pci_hw c) b sl f n s = (map (\<lambda>i. r (pci_address b sl f (of_nat (4 * i)))) [0..<n], s') \<and>
    scanning c r md s' \<and> pci_ll s' = pci_ll s"
proof (induction n)
  case 0
  show ?case using assms by simp
next
  case (Suc n)
  then obtain s' where s: "read_header (pci_hw c) b sl f n s = (map (\<lambda>i. r (pci_address b sl f (of_nat (4 * i)))) [0..<n], s')"
    "scanning c r md s'" "pci_ll s' = pci_ll s" by blast
  then show ?case using scanning_read [OF s(2)] by (simp add: pci_read_dword Let_def scanning_def)
qed

lemma make_func_node_scan:
  assumes "scanning c r md s" "unat (type_at r (dv_bus dev) (dv_slot dev) f AND 0x7F) \<le> 2"
  shows "\<exists>s'. make_func_node (pci_hw c) dev f s =
      Inr (driver_at md r (dv_bus dev) (dv_slot dev) f,
           dev\<lparr>dv_func_ll := driver_at md r (dv_bus dev) (dv_slot dev) f # dv_func_ll dev\<rparr>, s') \<and>
    scanning c r md s' \<and> pci_ll s' = pci_ll s"
proof -
  let ?b = "dv_bus dev" and ?sl = "dv_slot dev"
  obtain s1 where 1: "pci_config_read_byte (pci_hw c) ?b ?sl f 0xE s = (type_at r ?b ?sl f, s1)" "scanning c r md s1" "pci_ll s1 = pci_ll s"
    using header_type_scan [OF assms(1)] by blast
  define n where "n = (if type_at r ?b ?sl f AND 0x7F = 2 then 18 else 16 :: nat)"
  have w: "header_words (type_at r ?b ?sl f AND 0x7F) = Inr n"
  proof -
    have "x = 0 \<or> x = 1 \<or> x = 2" if "unat x \<le> 2" for x :: u8 using that by (auto simp: word_unat_eq_iff)
    then show ?thesis using assms(2)
      by (auto simp: header_words_def n_def PCI_HEADER_GENERAL_DEVICE_def PCI_HEADER_CARDBUS_BRIDGE_def PCI_HEADER_PCI_BRIDGE_def)
  qed
  obtain s2 where 2: "read_header (pci_hw c) ?b ?sl f n s1 = (header_at r ?b ?sl f, s2)" "scanning c r md s2" "pci_ll s2 = pci_ll s1"
    using read_header_scan [OF 1(2), of ?b ?sl f n] unfolding header_at_def n_def by blast
  have "fetch_dev_name node s2 = fetch_dev_name node \<lparr>cpu_io = [], cpu_eflags = 0, pci_ll = [], devs_metadata = md, pci_amount = 0\<rparr>" for node
    using 2(2) by (simp add: fetch_dev_name_def scanning_def)
  then show ?thesis
    using 1 2 w by (simp add: make_func_node_def fetch_func_header_def get_header_type_def OFFSET_HEADER_TYPE_ID_def driver_at_def Let_def)
qed


lemma fetch_dev_name_keeps [simp]:
  "pd_header (fetch_dev_name node s) = pd_header node" "pd_bus (fetch_dev_name node s) = pd_bus node"
  "pd_slot (fetch_dev_name node s) = pd_slot node" "pd_func (fetch_dev_name node s) = pd_func node"
proof -
  have "pd_header (fold g ms n) = pd_header n \<and> pd_bus (fold g ms n) = pd_bus n \<and> pd_slot (fold g ms n) = pd_slot n \<and> pd_func (fold g ms n) = pd_func n"
    if "\<And>m n. pd_header (g m n) = pd_header n \<and> pd_bus (g m n) = pd_bus n \<and> pd_slot (g m n) = pd_slot n \<and> pd_func (g m n) = pd_func n"
    for g :: "device_metadata \<Rightarrow> pci_driver \<Rightarrow> pci_driver" and ms n
    using that by (induction ms arbitrary: n) simp_all
  note * = this [of "\<lambda>m node. if md_class_code m = class_code (pd_header node) \<and> md_subclass_code m = subclass_code (pd_header node)
      then node\<lparr>pd_device_name := md_device_name m\<rparr> else node"]
  show "pd_header (fetch_dev_name node s) = pd_header node" "pd_bus (fetch_dev_name node s) = pd_bus node"
    "pd_slot (fetch_dev_name node s) = pd_slot node" "pd_func (fetch_dev_name node s) = pd_func node"
    using * by (simp_all add: fetch_dev_name_def)
qed

lemma driver_header [simp]: "pd_header (driver_at md r b sl f) = header_at r b sl f"
  by (simp add: driver_at_def)

lemma header_fields:
  "header_type (header_at r b sl f) = type_at r b sl f" "secondary_bus_number (header_at r b sl f) = behind r b sl f"
  by (simp_all add: header_type_def secondary_bus_number_def header_byte_def header_at_def type_at_def behind_def)

lemma reached_drivers_unfold:
  "reached_drivers md r b = (\<Union>(sl, f)\<in>found r b. insert (driver_at md r b sl f)
     (if is_bridge r b sl f then reached_drivers md r (behind r b sl f) else {}))"
  (is "_ = ?R")
proof (intro equalityI subsetI)
  fix d assume "d \<in> reached_drivers md r b"
  then obtain b' sl f where d: "d = driver_at md r b' sl f" "reaches r b b'" "(sl, f) \<in> found r b'" by (auto simp: reached_drivers_def)
  from d(2) show "d \<in> ?R"
  proof cases
    case reaches_refl
    then show ?thesis using d by blast
  next
    case (reaches_bridge sl0 f0)
    then have "d \<in> reached_drivers md r (behind r b sl0 f0)" using d by (auto simp: reached_drivers_def)
    then show ?thesis using reaches_bridge by force
  qed
next
  fix d assume "d \<in> ?R"
  then obtain sl f where p: "(sl, f) \<in> found r b" "d = driver_at md r b sl f \<or> is_bridge r b sl f \<and> d \<in> reached_drivers md r (behind r b sl f)"
    by (auto split: if_splits)
  then show "d \<in> reached_drivers md r b"
    using reaches_bridge [OF p(1)] reaches_refl [of r b] unfolding reached_drivers_def by blast
qed

text \<open>What is relied on: headers of the known types, and bridges that lead to buses with greater numbers.\<close>

definition valid_config :: "(u32 \<Rightarrow> u32) \<Rightarrow> bool" where
  "valid_config r \<longleftrightarrow> (\<forall>b sl f. (sl, f) \<in> found r b \<longrightarrow>
     unat (type_at r b sl f AND 0x7F) \<le> 2 \<and> (is_bridge r b sl f \<longrightarrow> unat b < unat (behind r b sl f)))"

definition good_scan ::
  "pci_chip \<Rightarrow> device_metadata list \<Rightarrow> (u32 \<Rightarrow> u32) \<Rightarrow> (u8 \<Rightarrow> pci_vars \<Rightarrow> pci_vars kloop) \<Rightarrow> u8 \<Rightarrow> bool" where
  "good_scan c md r scan b \<longleftrightarrow> (\<forall>s. scanning c r md s \<longrightarrow>
     (\<exists>s'. scan b s = lret s' \<and> scanning c r md s' \<and> drivers s' = drivers s \<union> reached_drivers md r b))"

lemma drivers_eq: "pci_ll s' = pci_ll s \<Longrightarrow> drivers s' = drivers s"
  by (simp add: drivers_def)

definition bridged :: "device_metadata list \<Rightarrow> (u32 \<Rightarrow> u32) \<Rightarrow> u8 \<Rightarrow> u8 \<Rightarrow> u8 \<Rightarrow> pci_driver set" where
  "bridged md r b sl f = (if is_bridge r b sl f then reached_drivers md r (behind r b sl f) else {})"

lemma add_function_scan:
  assumes "scanning c r md s" "unat (type_at r (dv_bus dev) (dv_slot dev) f AND 0x7F) \<le> 2"
    and "is_bridge r (dv_bus dev) (dv_slot dev) f \<Longrightarrow> good_scan c md r scan (behind r (dv_bus dev) (dv_slot dev) f)"
  shows "\<exists>s'. add_function (pci_hw c) scan dev f s =
      lret (dev\<lparr>dv_func_ll := driver_at md r (dv_bus dev) (dv_slot dev) f # dv_func_ll dev\<rparr>, s') \<and>
    scanning c r md s' \<and> drivers s' = drivers s \<union> bridged md r (dv_bus dev) (dv_slot dev) f"
proof -
  have "scanning c r md (s\<lparr>pci_amount := pci_amount s + 1\<rparr>)" using assms(1) by simp
  from make_func_node_scan [OF this assms(2)] obtain s1 where 1: "make_func_node (pci_hw c) dev f (s\<lparr>pci_amount := pci_amount s + 1\<rparr>) =
      Inr (driver_at md r (dv_bus dev) (dv_slot dev) f, dev\<lparr>dv_func_ll := driver_at md r (dv_bus dev) (dv_slot dev) f # dv_func_ll dev\<rparr>, s1)"
    "scanning c r md s1" "drivers s1 = drivers s"
    by (auto simp: drivers_def)
  have "\<exists>s'. scan_function scan (driver_at md r (dv_bus dev) (dv_slot dev) f) s1 = lret s' \<and> scanning c r md s' \<and>
      drivers s' = drivers s \<union> bridged md r (dv_bus dev) (dv_slot dev) f"
  proof (cases "is_bridge r (dv_bus dev) (dv_slot dev) f")
    case True
    then show ?thesis
      using assms(3) [OF True] 1(2,3) unfolding good_scan_def
      by (simp add: scan_function_def header_fields is_bridge_def PCI_HEADER_PCI_BRIDGE_def bridged_def) metis
  next
    case False
    then show ?thesis using 1(2,3) by (simp add: scan_function_def header_fields is_bridge_def PCI_HEADER_PCI_BRIDGE_def bridged_def)
  qed
  then show ?thesis using 1(1) by (auto simp: add_function_def)
qed


lemma scan_functions_scan:
  assumes "scanning c r md s" "\<And>f. f \<in> set fs \<Longrightarrow> present r (dv_bus dev) (dv_slot dev) f \<Longrightarrow>
      unat (type_at r (dv_bus dev) (dv_slot dev) f AND 0x7F) \<le> 2 \<and>
      (is_bridge r (dv_bus dev) (dv_slot dev) f \<longrightarrow> good_scan c md r scan (behind r (dv_bus dev) (dv_slot dev) f))"
  shows "\<exists>s'. scan_functions (pci_hw c) scan fs dev s =
      lret (dev\<lparr>dv_func_ll := rev (map (driver_at md r (dv_bus dev) (dv_slot dev)) (filter (present r (dv_bus dev) (dv_slot dev)) fs)) @ dv_func_ll dev\<rparr>, s') \<and>
    scanning c r md s' \<and>
    drivers s' = drivers s \<union> (\<Union>f\<in>set (filter (present r (dv_bus dev) (dv_slot dev)) fs). bridged md r (dv_bus dev) (dv_slot dev) f)"
  using assms
proof (induction fs arbitrary: dev s)
  case Nil
  then show ?case by simp
next
  case (Cons f fs)
  let ?b = "dv_bus dev" and ?sl = "dv_slot dev"
  obtain s1 where 1: "get_vendor_id (pci_hw c) ?b ?sl f s = (ucast (r (pci_address ?b ?sl f 0)), s1)" "scanning c r md s1" "drivers s1 = drivers s"
    using get_vendor_id_scan [OF Cons.prems(1)] drivers_eq by metis
  show ?case
  proof (cases "present r ?b ?sl f")
    case False
    then show ?thesis using 1 Cons.IH [OF 1(2), of dev] Cons.prems(2) by (simp add: present_def INVALID_VENDOR_ID_def)
  next
    case True
    then have p: "unat (type_at r ?b ?sl f AND 0x7F) \<le> 2" "is_bridge r ?b ?sl f \<Longrightarrow> good_scan c md r scan (behind r ?b ?sl f)"
      using Cons.prems(2) [of f] by simp_all
    let ?dev = "dev\<lparr>dv_func_ll := driver_at md r ?b ?sl f # dv_func_ll dev\<rparr>"
    obtain s2 where 2: "add_function (pci_hw c) scan dev f s1 = lret (?dev, s2)" "scanning c r md s2"
        "drivers s2 = drivers s1 \<union> bridged md r ?b ?sl f"
      using add_function_scan [OF 1(2) p] by blast
    obtain s3 where 3: "scan_functions (pci_hw c) scan fs ?dev s2 =
        lret (?dev\<lparr>dv_func_ll := rev (map (driver_at md r ?b ?sl) (filter (present r ?b ?sl) fs)) @ dv_func_ll ?dev\<rparr>, s3)"
        "scanning c r md s3" "drivers s3 = drivers s2 \<union> (\<Union>f\<in>set (filter (present r ?b ?sl) fs). bridged md r ?b ?sl f)"
      using Cons.IH [OF 2(2), of ?dev] Cons.prems(2) by auto
    have "(ucast (r (pci_address ?b ?sl f 0)) :: u16) \<noteq> INVALID_VENDOR_ID" using True by (simp add: present_def INVALID_VENDOR_ID_def)
    then have "scan_functions (pci_hw c) scan (f # fs) dev s =
        lret (dev\<lparr>dv_func_ll := rev (map (driver_at md r ?b ?sl) (filter (present r ?b ?sl) (f # fs))) @ dv_func_ll dev\<rparr>, s3)"
      using 1(1) 2(1) 3(1) True by simp
    moreover have "drivers s3 = drivers s \<union> (\<Union>f\<in>set (filter (present r ?b ?sl) (f # fs)). bridged md r ?b ?sl f)"
      using 1(3) 2(3) 3(3) True by auto
    ultimately show ?thesis using 3(2) by blast
  qed
qed

lemma scan_device_scan:
  assumes "scanning c r md s" "dv_func_ll dev = []" "\<And>f. f \<in> set (functions_at r (dv_bus dev) (dv_slot dev)) \<Longrightarrow>
      unat (type_at r (dv_bus dev) (dv_slot dev) f AND 0x7F) \<le> 2 \<and>
      (is_bridge r (dv_bus dev) (dv_slot dev) f \<longrightarrow> good_scan c md r scan (behind r (dv_bus dev) (dv_slot dev) f))"
  shows "\<exists>dev' s'. scan_device (pci_hw c) scan dev s = lret (dev', s') \<and> scanning c r md s' \<and>
    set (dv_func_ll dev') = driver_at md r (dv_bus dev) (dv_slot dev) ` set (functions_at r (dv_bus dev) (dv_slot dev)) \<and>
    drivers s' = drivers s \<union> (\<Union>f\<in>set (functions_at r (dv_bus dev) (dv_slot dev)). bridged md r (dv_bus dev) (dv_slot dev) f)"
proof -
  let ?b = "dv_bus dev" and ?sl = "dv_slot dev"
  obtain s1 where 1: "pci_config_read_byte (pci_hw c) ?b ?sl 0 0xE s = (type_at r ?b ?sl 0, s1)" "scanning c r md s1" "drivers s1 = drivers s"
    using header_type_scan [OF assms(1)] drivers_eq by metis
  then have m: "is_multifunction (pci_hw c) ?b ?sl s = (type_at r ?b ?sl 0 AND 0x80 \<noteq> 0, s1)"
    by (simp add: is_multifunction_def OFFSET_HEADER_TYPE_ID_def)
  show ?thesis
  proof (cases "type_at r ?b ?sl 0 AND 0x80 = 0")
    case True
    then have f: "functions_at r ?b ?sl = [0]" by (simp add: functions_at_def)
    then show ?thesis using add_function_scan [OF 1(2), of dev 0 scan] assms(2,3) 1(3) True by (auto simp: scan_device_def m)
  next
    case False
    then have f: "functions_at r ?b ?sl = filter (present r ?b ?sl) (map of_nat [0..<FUNCS_COUNT])" by (simp add: functions_at_def)
    obtain s2 where 2: "scan_functions (pci_hw c) scan (map of_nat [0..<FUNCS_COUNT]) dev s1 =
        lret (dev\<lparr>dv_func_ll := rev (map (driver_at md r ?b ?sl) (functions_at r ?b ?sl)) @ dv_func_ll dev\<rparr>, s2)" "scanning c r md s2"
        "drivers s2 = drivers s1 \<union> (\<Union>f\<in>set (functions_at r ?b ?sl). bridged md r ?b ?sl f)"
      using scan_functions_scan [OF 1(2), of "map of_nat [0..<FUNCS_COUNT]" dev scan] assms(3) unfolding f by auto
    then show ?thesis using False 1(3) assms(2) by (simp add: scan_device_def m)
  qed
qed


lemma scan_devices_scan:
  assumes "scanning c r md s" "\<And>sl f. sl \<in> set ds \<Longrightarrow> present r (bs_bus bn) sl 0 \<Longrightarrow> f \<in> set (functions_at r (bs_bus bn) sl) \<Longrightarrow>
      unat (type_at r (bs_bus bn) sl f AND 0x7F) \<le> 2 \<and> (is_bridge r (bs_bus bn) sl f \<longrightarrow> good_scan c md r scan (behind r (bs_bus bn) sl f))"
  shows "\<exists>bn' s'. scan_devices (pci_hw c) scan ds bn s = lret (bn', s') \<and> scanning c r md s' \<and>
    set (bus_drivers bn') \<union> drivers s' = set (bus_drivers bn) \<union> drivers s \<union>
      (\<Union>sl\<in>set (filter (\<lambda>sl. present r (bs_bus bn) sl 0) ds). \<Union>f\<in>set (functions_at r (bs_bus bn) sl).
         insert (driver_at md r (bs_bus bn) sl f) (bridged md r (bs_bus bn) sl f))"
  using assms
proof (induction ds arbitrary: bn s)
  case Nil
  then show ?case by simp
next
  case (Cons sl ds)
  let ?b = "bs_bus bn"
  obtain s1 where 1: "get_vendor_id (pci_hw c) ?b sl 0 s = (ucast (r (pci_address ?b sl 0 0)), s1)" "scanning c r md s1" "drivers s1 = drivers s"
    using get_vendor_id_scan [OF Cons.prems(1)] drivers_eq by metis
  show ?case
  proof (cases "present r ?b sl 0")
    case False
    then show ?thesis using 1 Cons.IH [OF 1(2), of bn] Cons.prems(2) by (simp add: present_def INVALID_VENDOR_ID_def)
  next
    case True
    let ?dev = "\<lparr>dv_slot = sl, dv_bus = ?b, dv_func_ll = []\<rparr>"
    have s1: "scanning c r md (s1\<lparr>pci_amount := pci_amount s1 + 1\<rparr>)" "drivers (s1\<lparr>pci_amount := pci_amount s1 + 1\<rparr>) = drivers s"
      using 1 by (simp_all add: drivers_def)
    obtain dev s2 where 2: "scan_device (pci_hw c) scan ?dev (s1\<lparr>pci_amount := pci_amount s1 + 1\<rparr>) = lret (dev, s2)" "scanning c r md s2"
        "set (dv_func_ll dev) = driver_at md r ?b sl ` set (functions_at r ?b sl)"
        "drivers s2 = drivers s \<union> (\<Union>f\<in>set (functions_at r ?b sl). bridged md r ?b sl f)"
      using scan_device_scan [OF s1(1), of ?dev scan] Cons.prems(2) [of sl] True s1(2) by auto
    let ?bn = "bn\<lparr>bs_dev_ll := dev # bs_dev_ll bn\<rparr>"
    obtain bn' s3 where 3: "scan_devices (pci_hw c) scan ds ?bn s2 = lret (bn', s3)" "scanning c r md s3"
        "set (bus_drivers bn') \<union> drivers s3 = set (bus_drivers ?bn) \<union> drivers s2 \<union>
          (\<Union>sl\<in>set (filter (\<lambda>sl. present r ?b sl 0) ds). \<Union>f\<in>set (functions_at r ?b sl). insert (driver_at md r ?b sl f) (bridged md r ?b sl f))"
      using Cons.IH [OF 2(2), of ?bn] Cons.prems(2) by auto
    have "(ucast (r (pci_address ?b sl 0 0)) :: u16) \<noteq> INVALID_VENDOR_ID" using True by (simp add: present_def INVALID_VENDOR_ID_def)
    then have "scan_devices (pci_hw c) scan (sl # ds) bn s = lret (bn', s3)" using 1(1) 2(1) 3(1) by simp
    moreover have "set (bus_drivers ?bn) = driver_at md r ?b sl ` set (functions_at r ?b sl) \<union> set (bus_drivers bn)"
      by (simp add: bus_drivers_def 2(3))
    ultimately show ?thesis using 3(2,3) 2(4) True by (intro exI [of _ bn'] exI [of _ s3]) auto
  qed
qed

lemma scan_bus_scan:
  assumes v: "valid_config r"
  shows "good_scan c md r (scan_bus (pci_hw c)) b"
proof (induction "256 - unat b" arbitrary: b rule: less_induct)
  case less
  have g: "unat (type_at r b sl f AND 0x7F) \<le> 2 \<and> (is_bridge r b sl f \<longrightarrow> good_scan c md r (scan_bus (pci_hw c)) (behind r b sl f))"
    if "sl \<in> set (map of_nat [0..<DEVS_COUNT])" "present r b sl 0" "f \<in> set (functions_at r b sl)" for sl f
  proof -
    have "(sl, f) \<in> found r b" using that by (simp add: found_def slots_at_def)
    then have "unat (type_at r b sl f AND 0x7F) \<le> 2" "is_bridge r b sl f \<Longrightarrow> unat b < unat (behind r b sl f)"
      using v by (auto simp: valid_config_def)
    moreover have "unat (behind r b sl f) < 256" using unsigned_less [of "behind r b sl f"] by simp
    ultimately show ?thesis using less.hyps by (metis diff_less_mono2 dual_order.strict_trans)
  qed
  show ?case
    unfolding good_scan_def
  proof (intro allI impI)
    fix s assume "scanning c r md s"
    then have s: "scanning c r md (s\<lparr>pci_amount := pci_amount s + 1\<rparr>)" by simp
    obtain bn s1 where 1: "scan_devices (pci_hw c) (scan_bus (pci_hw c)) (map of_nat [0..<DEVS_COUNT]) \<lparr>bs_bus = b, bs_dev_ll = []\<rparr>
        (s\<lparr>pci_amount := pci_amount s + 1\<rparr>) = lret (bn, s1)" "scanning c r md s1"
        "set (bus_drivers bn) \<union> drivers s1 = drivers s \<union>
          (\<Union>sl\<in>set (slots_at r b). \<Union>f\<in>set (functions_at r b sl). insert (driver_at md r b sl f) (bridged md r b sl f))"
      using scan_devices_scan [OF s, of "map of_nat [0..<DEVS_COUNT]" "\<lparr>bs_bus = b, bs_dev_ll = []\<rparr>" "scan_bus (pci_hw c)"] g
      by (auto simp: bus_drivers_def drivers_def slots_at_def)
    have "(\<Union>sl\<in>set (slots_at r b). \<Union>f\<in>set (functions_at r b sl). insert (driver_at md r b sl f) (bridged md r b sl f)) = reached_drivers md r b"
      by (subst reached_drivers_unfold) (auto simp: found_def bridged_def)
    moreover have "scan_bus (pci_hw c) b s = lret (s1\<lparr>pci_ll := bn # pci_ll s1\<rparr>)" using 1(1) by (subst scan_bus.simps) simp
    moreover have "drivers (s1\<lparr>pci_ll := bn # pci_ll s1\<rparr>) = set (bus_drivers bn) \<union> drivers s1" by (simp add: drivers_def)
    ultimately show "\<exists>s'. scan_bus (pci_hw c) b s = lret s' \<and> scanning c r md s' \<and> drivers s' = drivers s \<union> reached_drivers md r b"
      using 1(2,3) by (intro exI [of _ "s1\<lparr>pci_ll := bn # pci_ll s1\<rparr>"]) simp
  qed
qed

text \<open>C14. When all bridges lead to buses with greater numbers and all headers have a known type, the scan returns, and
  looking up a class afterwards gives a function of that class which is present on a bus that can be reached
  from bus 0 through bridges, with its header as it stands in configuration space, or NULL when there is no such function.
\<close>

theorem init_pci_finds:
  assumes "valid_config (pci_regs c s)"
  shows "\<exists>s'. init_pci (pci_hw c) s = lret s' \<and> (\<forall>cls sub.
    (case get_pci_device cls sub s' of
       None \<Rightarrow> \<forall>b sl f. reaches (pci_regs c s) 0 b \<longrightarrow> (sl, f) \<in> found (pci_regs c s) b \<longrightarrow>
         \<not> (ucast (class_code (header_at (pci_regs c s) b sl f)) = cls \<and> ucast (subclass_code (header_at (pci_regs c s) b sl f)) = sub)
     | Some d \<Rightarrow> \<exists>b sl f. reaches (pci_regs c s) 0 b \<and> (sl, f) \<in> found (pci_regs c s) b \<and>
         pd_bus d = b \<and> pd_slot d = sl \<and> pd_func d = f \<and> pd_header d = header_at (pci_regs c s) b sl f \<and>
         ucast (class_code (pd_header d)) = cls \<and> ucast (subclass_code (pd_header d)) = sub))"
proof -
  let ?r = "pci_regs c s" and ?s = "(init_device_names s)\<lparr>pci_ll := []\<rparr>"
  have drivers_none: "drivers ?s = {}" by (simp add: drivers_def)
  have "scanning c ?r (devs_metadata ?s) ?s" by (simp add: scanning_def init_device_names_def pci_regs_def)
  then obtain s' where s': "init_pci (pci_hw c) s = lret s'" "drivers s' = reached_drivers (devs_metadata ?s) ?r 0"
    using scan_bus_scan [OF assms, of c "devs_metadata ?s" 0, unfolded good_scan_def, rule_format]
    unfolding init_pci_def by (metis (no_types) drivers_none sup_bot_left)
  have set: "set (concat (map (\<lambda>b. concat (map dv_func_ll (bs_dev_ll b))) (pci_ll s'))) =
      {driver_at (devs_metadata ?s) ?r b sl f |b sl f. reaches ?r 0 b \<and> (sl, f) \<in> found ?r b}"
    using s'(2) by (simp add: drivers_def bus_drivers_def reached_drivers_def)
  have keeps: "pd_bus (driver_at md r b sl f) = b" "pd_slot (driver_at md r b sl f) = sl" "pd_func (driver_at md r b sl f) = f" for md r b sl f
    by (simp_all add: driver_at_def)
  show ?thesis
  proof (intro exI conjI allI)
    fix cls sub :: u16
    show "case get_pci_device cls sub s' of
       None \<Rightarrow> \<forall>b sl f. reaches ?r 0 b \<longrightarrow> (sl, f) \<in> found ?r b \<longrightarrow>
         \<not> (ucast (class_code (header_at ?r b sl f)) = cls \<and> ucast (subclass_code (header_at ?r b sl f)) = sub)
     | Some d \<Rightarrow> \<exists>b sl f. reaches ?r 0 b \<and> (sl, f) \<in> found ?r b \<and>
         pd_bus d = b \<and> pd_slot d = sl \<and> pd_func d = f \<and> pd_header d = header_at ?r b sl f \<and>
         ucast (class_code (pd_header d)) = cls \<and> ucast (subclass_code (pd_header d)) = sub"
    proof (cases "get_pci_device cls sub s'")
      case None
      then have "\<not> (\<exists>d. d \<in> set (concat (map (\<lambda>b. concat (map dv_func_ll (bs_dev_ll b))) (pci_ll s'))) \<and>
          ucast (class_code (pd_header d)) = cls \<and> ucast (subclass_code (pd_header d)) = sub)"
        unfolding get_pci_device_def find_None_iff .
      then show ?thesis unfolding set None option.case by fastforce
    next
      case (Some d)
      then have "d \<in> set (concat (map (\<lambda>b. concat (map dv_func_ll (bs_dev_ll b))) (pci_ll s')))"
          "ucast (class_code (pd_header d)) = cls \<and> ucast (subclass_code (pd_header d)) = sub"
        unfolding get_pci_device_def find_Some_iff by (metis nth_mem)+
      then show ?thesis unfolding set Some option.case using keeps driver_header by auto
    qed
  qed (rule s'(1))
qed


text \<open>A machine with a bridge on bus 0 and an IDE controller on bus 1 behind it.\<close>

definition demo_config :: "u32 \<Rightarrow> u32" where
  "demo_config a =
     (if drop_bit 8 a = 0x800008 then (if a AND 0xFF = 0 then 0x12378086 else if a AND 0xFF = 12 then 0x10000 else if a AND 0xFF = 24 then 0x100 else 0)
      else if drop_bit 8 a = 0x800120 then (if a AND 0xFF = 0 then 0x70108086 else if a AND 0xFF = 8 then 0x01018000 else 0)
      else 0xFFFFFFFF)"

lemma address_page: "drop_bit 8 (pci_address b sl f offset) = drop_bit 8 (pci_address b sl f 0)"
proof -
  have "drop_bit 8 (ucast x :: u32) = 0" for x :: u8
    by (rule bit_word_eqI) (auto simp: bit_drop_bit_eq bit_ucast_iff dest: bit_imp_le_length)
  then show ?thesis by (simp add: pci_address_def drop_bit_or)
qed

lemma address_offset: "pci_address b sl f offset AND 0xFF = ucast (offset AND 0xFC)"
proof -
  have "drop_bit 8 (ucast (offset AND 0xFC) :: u32) = 0" for offset :: u8
    by (rule bit_word_eqI) (auto simp: bit_drop_bit_eq bit_ucast_iff dest: bit_imp_le_length)
  have "take_bit 8 (push_bit n x) = 0" if "8 \<le> n" for n and x :: u32 using that by (simp add: take_bit_push_bit)
  then have "take_bit 8 (pci_address b sl f offset) = take_bit 8 (ucast (offset AND 0xFC))"
    unfolding pci_address_def take_bit_or by simp
  also have "\<dots> = ucast (offset AND 0xFC)"
    by (rule bit_word_eqI) (auto simp: bit_take_bit_iff bit_ucast_iff dest: bit_imp_le_length)
  finally show ?thesis unfolding and_bytes .
qed

lemma valid_demo_config: "valid_config demo_config"
  unfolding valid_config_def
proof (intro allI impI)
  fix b sl f assume a: "(sl, f) \<in> found demo_config b"
  have lt: "unat sl < 32" "unat f < 8"
    using a by (auto simp: found_def slots_at_def functions_at_def DEVS_COUNT_def FUNCS_COUNT_def unat_of_nat split: if_splits)
  have p: "present demo_config b sl f" using a by (auto simp: found_def slots_at_def functions_at_def split: if_splits)
  then have "drop_bit 8 (pci_address b sl f 0) = 0x800008 \<or> drop_bit 8 (pci_address b sl f 0) = 0x800120"
    by (auto simp: present_def demo_config_def split: if_splits)
  then show "unat (type_at demo_config b sl f AND 0x7F) \<le> 2 \<and> (is_bridge demo_config b sl f \<longrightarrow> unat b < unat (behind demo_config b sl f))"
  proof
    assume 1: "drop_bit 8 (pci_address b sl f 0) = 0x800008"
    then have "drop_bit 16 (pci_address b sl f 0) = 0x8000"
      using drop_bit_drop_bit [of 8 8 "pci_address b sl f 0"] by simp
    then have "b = 0" using address_fields(1) [OF lt, of b 0] by simp
    then show ?thesis using 1
      by (simp add: type_at_def behind_def demo_config_def address_page [of 0 sl f 12] address_page [of 0 sl f 24] address_offset)
  next
    assume "drop_bit 8 (pci_address b sl f 0) = 0x800120"
    then show ?thesis
      by (simp add: is_bridge_def type_at_def demo_config_def address_page [of b sl f 12] address_offset)
  qed
qed


lemma slots_at_iff: "sl \<in> set (slots_at r b) \<longleftrightarrow> unat sl < 32 \<and> present r b sl 0"
  by (auto simp: slots_at_def DEVS_COUNT_def unat_of_nat intro!: image_eqI [of _ _ "unat sl"])

lemmas demo_eval = found_def slots_at_iff functions_at_def present_def type_at_def is_bridge_def behind_def demo_config_def pci_address_def
  class_code_def subclass_code_def header_byte_def header_at_def

theorem init_pci_finds_witness:
  "\<exists>s'. init_pci (pci_hw \<lparr>chip_addr = 0, chip_regs = demo_config\<rparr>)
      \<lparr>cpu_io = [], cpu_eflags = 0, pci_ll = [], devs_metadata = [], pci_amount = 0\<rparr> = lret s' \<and> get_pci_device 1 1 s' \<noteq> None"
proof -
  let ?c = "\<lparr>chip_addr = 0, chip_regs = demo_config\<rparr>" and ?s = "\<lparr>cpu_io = [], cpu_eflags = 0, pci_ll = [], devs_metadata = [], pci_amount = 0\<rparr>"
  have r: "pci_regs ?c ?s = demo_config" by (simp add: pci_regs_def pci_chip_after_def)
  have "(1, 0) \<in> found demo_config 0" "is_bridge demo_config 0 1 0" "behind demo_config 0 1 0 = 1" by (simp_all add: demo_eval)
  then have "reaches demo_config 0 1" using reaches_bridge [of 1 0 demo_config 0 1] reaches_refl by simp
  note reach = this
  have ide: "(4, 0) \<in> found demo_config 1" "class_code (header_at demo_config 1 4 0) = 1" "subclass_code (header_at demo_config 1 4 0) = 1"
    by (simp_all add: demo_eval)
  from init_pci_finds [of ?c ?s, unfolded r, OF valid_demo_config]
  obtain s' where s': "init_pci (pci_hw ?c) ?s = lret s'" and all: "\<forall>cls sub. case get_pci_device cls sub s' of
       None \<Rightarrow> \<forall>b sl f. reaches demo_config 0 b \<longrightarrow> (sl, f) \<in> found demo_config b \<longrightarrow>
         \<not> (ucast (class_code (header_at demo_config b sl f)) = cls \<and> ucast (subclass_code (header_at demo_config b sl f)) = sub)
     | Some d \<Rightarrow> \<exists>b sl f. reaches demo_config 0 b \<and> (sl, f) \<in> found demo_config b \<and>
         pd_bus d = b \<and> pd_slot d = sl \<and> pd_func d = f \<and> pd_header d = header_at demo_config b sl f \<and>
         ucast (class_code (pd_header d)) = cls \<and> ucast (subclass_code (pd_header d)) = sub"
    by blast
  have "get_pci_device 1 1 s' \<noteq> None"
  proof
    assume n: "get_pci_device 1 1 s' = None"
    show False
      using all [rule_format, of 1 1, unfolded n option.case, rule_format, OF reach ide(1)] unfolding ide(2,3) by simp
  qed
  then show ?thesis using s' by blast
qed

end
