(* ===== verification/Ide.thy ===== *)
theory Ide
  imports Pic Core_Defs
begin

text \<open>
  The IDE driver, \<^verbatim>\<open>kernel/arch/i386/drivers/pci/ide.c\<close>: channels and drives, the table of physical regions for bus-master
  transfers, the task-file registers, the request queue of a channel and its interrupt handlers.

  A request names its drive by the index in \<^verbatim>\<open>ide.devices\<close>, which is what \<^verbatim>\<open>dev_data\<close> points to. Queue items are a store from
  addresses; the address that \<^verbatim>\<open>kmalloc\<close> gives to an item is an argument. \<open>krealloc\<close> gives the address of a grown table,
  \<open>v2p\<close> is \<^verbatim>\<open>virt_to_phys\<close> with the current page tables, \<open>callback\<close> calls the function of a request.
  New memory of a grown table is written before it is read, so it is given as zero.
\<close>

section \<open>State\<close>

record ide_channel =
  ic_base :: u16
  ic_ctrl :: u16
  ic_bus_master :: u32
  ic_has_dma :: bool
  ic_dma_io :: bool
  ic_irq :: u32
  ic_pic_enabled :: bool

record ide_device =
  id_present :: bool
  id_slave :: bool
  id_size_type :: u8
  id_cylinders :: u16
  id_heads :: u8
  id_sectors :: u8
  id_supports_dma :: bool
  id_channel :: u8
  id_type :: u8
  id_signature :: u16
  id_features :: u16
  id_command_sets :: u32
  id_size :: u64
  id_model :: "u8 list"
  id_external_dev_id :: u64

record ide_prd_entry =
  prd_phys_addr :: u32
  prd_bytes_size :: u16
  prd_flags :: u16

record ide_dma_vars =
  dma_prdt_addr :: usize_ptr
  dma_prdt :: "ide_prd_entry list"
  dma_prdt_capacity :: u64

datatype stor_request_io = STOR_REQ_READ | STOR_REQ_WRITE

record stor_request_chunk_entry =
  pa_buffer :: usize_ptr
  chunk_sectors :: u64

record stor_request =
  rq_device :: nat
  rq_lba :: u64
  rq_chunk_list :: "stor_request_chunk_entry list"
  rq_action :: stor_request_io
  rq_callback :: usize_ptr

record ide_request_item =
  it_request :: stor_request
  it_prev :: usize_ptr

record ide_request_queue =
  q_head :: usize_ptr
  q_tail :: usize_ptr

record ide_vars = pic +
  ide_channels :: "ide_channel list"
  ide_dma :: "ide_dma_vars list"
  ide_queue :: "ide_request_queue list"
  ide_devices :: "ide_device list"
  ide_items :: "usize_ptr \<Rightarrow> ide_request_item option"

section \<open>Registers\<close>

definition SECTOR_SIZE :: u32 where "SECTOR_SIZE = 512"
definition REG_OFF_DATA :: u8 where "REG_OFF_DATA = 0"
definition REG_OFF_SECCOUNT0 :: u8 where "REG_OFF_SECCOUNT0 = 2"
definition REG_OFF_LBA0 :: u8 where "REG_OFF_LBA0 = 3"
definition REG_OFF_LBA1 :: u8 where "REG_OFF_LBA1 = 4"
definition REG_OFF_LBA2 :: u8 where "REG_OFF_LBA2 = 5"
definition REG_OFF_HDDEVSEL :: u8 where "REG_OFF_HDDEVSEL = 6"
definition REG_OFF_COMMAND :: u8 where "REG_OFF_COMMAND = 7"
definition REG_OFF_STATUS :: u8 where "REG_OFF_STATUS = 7"
definition ATA_STATUS_BSY :: u8 where "ATA_STATUS_BSY = 0x80"
definition ATA_STATUS_DRQ :: u8 where "ATA_STATUS_DRQ = 0x08"
definition ATA_STATUS_ERR :: u8 where "ATA_STATUS_ERR = 0x01"
definition ATA_CMD_READ_DMA :: u8 where "ATA_CMD_READ_DMA = 0xC8"
definition ATA_CMD_READ_DMA_EXT :: u8 where "ATA_CMD_READ_DMA_EXT = 0x25"
definition ATA_CMD_WRITE_DMA :: u8 where "ATA_CMD_WRITE_DMA = 0xCA"
definition ATA_CMD_WRITE_DMA_EXT :: u8 where "ATA_CMD_WRITE_DMA_EXT = 0x35"
definition ATA_CMD_IDENTIFY :: u8 where "ATA_CMD_IDENTIFY = 0xEC"
definition ATA_BM_OFF_CMD :: u32 where "ATA_BM_OFF_CMD = 0"
definition ATA_BM_OFF_STATUS :: u32 where "ATA_BM_OFF_STATUS = 2"
definition ATA_BM_OFF_PRDT :: u32 where "ATA_BM_OFF_PRDT = 4"
definition ATA_BM_CMD_START :: u8 where "ATA_BM_CMD_START = 0x01"
definition ATA_BM_CMD_READ :: u8 where "ATA_BM_CMD_READ = 0x08"
definition ATA_BM_CMD_STOP :: u8 where "ATA_BM_CMD_STOP = 0x00"
definition ATA_BM_STATUS_IRQ :: u8 where "ATA_BM_STATUS_IRQ = 0x02"
definition ATA_BM_STATUS_ERR :: u8 where "ATA_BM_STATUS_ERR = 0x01"
definition IDE_SIZE_CHS :: u8 where "IDE_SIZE_CHS = 0"
definition IDE_SIZE_LBA28 :: u8 where "IDE_SIZE_LBA28 = 1"
definition IDE_SIZE_LBA48 :: u8 where "IDE_SIZE_LBA48 = 2"
definition ATA_PRIMARY :: nat where "ATA_PRIMARY = 0"
definition ATA_SECONDARY :: nat where "ATA_SECONDARY = 1"

lemmas ide_consts = SECTOR_SIZE_def REG_OFF_DATA_def REG_OFF_SECCOUNT0_def REG_OFF_LBA0_def REG_OFF_LBA1_def REG_OFF_LBA2_def
  REG_OFF_HDDEVSEL_def REG_OFF_COMMAND_def REG_OFF_STATUS_def ATA_STATUS_BSY_def ATA_STATUS_DRQ_def ATA_STATUS_ERR_def
  ATA_CMD_READ_DMA_def ATA_CMD_READ_DMA_EXT_def ATA_CMD_WRITE_DMA_def ATA_CMD_WRITE_DMA_EXT_def ATA_CMD_IDENTIFY_def
  ATA_BM_OFF_CMD_def ATA_BM_OFF_STATUS_def ATA_BM_OFF_PRDT_def ATA_BM_CMD_START_def ATA_BM_CMD_READ_def ATA_BM_CMD_STOP_def
  ATA_BM_STATUS_IRQ_def ATA_BM_STATUS_ERR_def IDE_SIZE_CHS_def IDE_SIZE_LBA28_def IDE_SIZE_LBA48_def
  ATA_PRIMARY_def ATA_SECONDARY_def

definition ide_cmd_inb :: "hardware \<Rightarrow> nat \<Rightarrow> u8 \<Rightarrow> ide_vars \<Rightarrow> u8 \<times> ide_vars" where
  "ide_cmd_inb hw channel reg s = inb hw (ic_base (ide_channels s ! channel) + ucast reg) s"

definition ide_cmd_outb :: "nat \<Rightarrow> u8 \<Rightarrow> u8 \<Rightarrow> ide_vars \<Rightarrow> ide_vars" where
  "ide_cmd_outb channel reg val s = outb (ic_base (ide_channels s ! channel) + ucast reg) val s"

definition ide_select :: "nat \<Rightarrow> bool \<Rightarrow> u8 \<Rightarrow> ide_vars \<Rightarrow> ide_vars" where
  "ide_select channel slave lba_high4 s =
     (let val = 0xE0 OR (if slave then 0x10 else 0x00) OR (lba_high4 AND 0x0F)
      in io_wait (io_wait (ide_cmd_outb channel REG_OFF_HDDEVSEL val s)))"

definition ide_send_cmd :: "nat \<Rightarrow> u8 \<Rightarrow> ide_vars \<Rightarrow> ide_vars" where
  "ide_send_cmd channel cmd s = ide_cmd_outb channel REG_OFF_COMMAND cmd s"

definition ide_get_status :: "hardware \<Rightarrow> nat \<Rightarrow> ide_vars \<Rightarrow> u8 \<times> ide_vars" where
  "ide_get_status hw channel s = ide_cmd_inb hw channel REG_OFF_STATUS s"

definition ide_set_lba28 :: "nat \<Rightarrow> bool \<Rightarrow> u32 \<Rightarrow> u8 \<Rightarrow> ide_vars \<Rightarrow> ide_vars" where
  "ide_set_lba28 channel slave lba sector_count s =
     (let s = ide_select channel slave (ucast (drop_bit 24 lba AND 0x0F)) s;
          s = ide_cmd_outb channel REG_OFF_SECCOUNT0 sector_count s;
          s = ide_cmd_outb channel REG_OFF_LBA0 (ucast (lba AND 0xFF)) s;
          s = ide_cmd_outb channel REG_OFF_LBA1 (ucast (drop_bit 8 lba AND 0xFF)) s
      in ide_cmd_outb channel REG_OFF_LBA2 (ucast (drop_bit 16 lba AND 0xFF)) s)"

definition ide_set_lba48 :: "nat \<Rightarrow> bool \<Rightarrow> u64 \<Rightarrow> u16 \<Rightarrow> ide_vars \<Rightarrow> ide_vars" where
  "ide_set_lba48 channel slave lba sector_count s =
     (let s = ide_select channel slave (ucast (drop_bit 24 lba AND 0x0F)) s;
          s = ide_cmd_outb channel REG_OFF_SECCOUNT0 (ucast (drop_bit 8 sector_count AND 0xFF)) s;
          s = ide_cmd_outb channel REG_OFF_LBA0 (ucast (drop_bit 24 lba AND 0xFF)) s;
          s = ide_cmd_outb channel REG_OFF_LBA1 (ucast (drop_bit 32 lba AND 0xFF)) s;
          s = ide_cmd_outb channel REG_OFF_LBA2 (ucast (drop_bit 40 lba AND 0xFF)) s;
          s = ide_cmd_outb channel REG_OFF_SECCOUNT0 (ucast (sector_count AND 0xFF)) s;
          s = ide_cmd_outb channel REG_OFF_LBA0 (ucast (lba AND 0xFF)) s;
          s = ide_cmd_outb channel REG_OFF_LBA1 (ucast (drop_bit 8 lba AND 0xFF)) s
      in ide_cmd_outb channel REG_OFF_LBA2 (ucast (drop_bit 16 lba AND 0xFF)) s)"

definition ide_read_buffer :: "hardware \<Rightarrow> nat \<Rightarrow> nat \<Rightarrow> ide_vars \<Rightarrow> u16 list \<times> ide_vars" where
  "ide_read_buffer hw channel words s = insw hw (ic_base (ide_channels s ! channel) + ucast REG_OFF_DATA) words s"

definition get_channel_identity :: "hardware \<Rightarrow> nat \<Rightarrow> ide_vars \<Rightarrow> u16 list \<times> ide_vars" where
  "get_channel_identity hw channel s = ide_read_buffer hw channel 256 s"

definition send_bm_cmd :: "nat \<Rightarrow> u8 \<Rightarrow> ide_vars \<Rightarrow> ide_vars kres" where
  "send_bm_cmd channel cmd s =
     (if ic_dma_io (ide_channels s ! channel)
      then Inr (outb (ucast (ic_bus_master (ide_channels s ! channel) + ATA_BM_OFF_CMD)) cmd s) else Inl Aborted)"

definition recv_bm_status :: "hardware \<Rightarrow> nat \<Rightarrow> ide_vars \<Rightarrow> (u8 \<times> ide_vars) kres" where
  "recv_bm_status hw channel s =
     (if ic_dma_io (ide_channels s ! channel)
      then Inr (inb hw (ucast (ic_bus_master (ide_channels s ! channel) + ATA_BM_OFF_STATUS)) s) else Inl Aborted)"

definition send_bm_status :: "nat \<Rightarrow> u8 \<Rightarrow> ide_vars \<Rightarrow> ide_vars kres" where
  "send_bm_status channel status s =
     (if ic_dma_io (ide_channels s ! channel)
      then Inr (outb (ucast (ic_bus_master (ide_channels s ! channel) + ATA_BM_OFF_STATUS)) status s) else Inl Aborted)"

definition set_prdt_addr :: "nat \<Rightarrow> u32 \<Rightarrow> ide_vars \<Rightarrow> ide_vars kres" where
  "set_prdt_addr channel prdt_phys_addr s =
     (if ic_dma_io (ide_channels s ! channel)
      then Inr (outl (ucast (ic_bus_master (ide_channels s ! channel) + ATA_BM_OFF_PRDT)) prdt_phys_addr s) else Inl Aborted)"

section \<open>Channels and drives\<close>

text \<open>\<open>progif\<close>, \<open>bar\<close> and \<open>interrupt_line\<close> are the fields of the PCI header that are used.\<close>

definition make_ide_channel :: "bool \<Rightarrow> u16 \<Rightarrow> u16 \<Rightarrow> u32 \<Rightarrow> u32 \<Rightarrow> u32 \<Rightarrow> u32 \<Rightarrow> bool \<Rightarrow> u32 \<Rightarrow> u8 \<Rightarrow> ide_channel" where
  "make_ide_channel iscompat cport cctrl cirq bar_base bar_ctrl bus_master support_dma bar4 interrupt_line =
     \<lparr>ic_base = (if iscompat then cport else ucast (bar_base AND NOT 1)),
      ic_ctrl = (if iscompat then cctrl else ucast (bar_ctrl AND NOT 1)),
      ic_bus_master = bus_master, ic_has_dma = support_dma, ic_dma_io = (bar4 AND 1 \<noteq> 0),
      ic_irq = (if iscompat then cirq else ucast interrupt_line) + ucast PIC_IRQ_OFFSET, ic_pic_enabled = False\<rparr>"

definition reset_bm :: "nat \<Rightarrow> ide_vars \<Rightarrow> ide_vars kres" where
  "reset_bm channel s =
     kbind (send_bm_cmd channel ATA_BM_CMD_STOP s) (send_bm_status channel (ATA_BM_STATUS_IRQ OR ATA_BM_STATUS_ERR))"

definition init_ide_channels :: "u8 \<Rightarrow> (nat \<Rightarrow> u32) \<Rightarrow> u8 \<Rightarrow> ide_vars \<Rightarrow> ide_vars kres" where
  "init_ide_channels progif bar interrupt_line s =
     (let pri_compat = (progif AND 1 = 0); sec_compat = (progif AND 4 = 0); support_dma = (progif AND 0x80 \<noteq> 0);
          base = bar 4 AND NOT 0xF;
          pri = make_ide_channel pri_compat 0x1F0 0x3F6 14 (bar 0) (bar 1) (base + 0) support_dma (bar 4) interrupt_line;
          sec = make_ide_channel sec_compat 0x170 0x376 15 (bar 2) (bar 3) (base + 8) support_dma (bar 4) interrupt_line;
          s = s\<lparr>ide_channels := [pri, sec]\<rparr>
      in kbind (if ic_has_dma (ide_channels s ! ATA_PRIMARY) then reset_bm ATA_PRIMARY s else Inr s) (\<lambda>s.
         kbind (if ic_has_dma (ide_channels s ! ATA_SECONDARY) then reset_bm ATA_SECONDARY s else Inr s) (\<lambda>s.
         Inr (s\<lparr>ide_queue := [\<lparr>q_head = NULL, q_tail = NULL\<rparr>, \<lparr>q_head = NULL, q_tail = NULL\<rparr>]\<rparr>))))"

text \<open>The polling loop: whether the drive reported an error.\<close>

partial_function (option) ide_poll :: "hardware \<Rightarrow> nat \<Rightarrow> ide_vars \<Rightarrow> (bool \<times> ide_vars) option" where
  "ide_poll hw channel s =
     (case ide_get_status hw channel s of (status, s) \<Rightarrow>
        if status AND ATA_STATUS_ERR \<noteq> 0 then Some (True, s)
        else if status AND ATA_STATUS_BSY = 0 \<and> status AND ATA_STATUS_DRQ \<noteq> 0 then Some (False, s)
        else ide_poll hw channel s)"

declare ide_poll.simps [code]

text \<open>Fields of the identification data, which is given as words.\<close>

definition ident32 :: "u16 list \<Rightarrow> nat \<Rightarrow> u32" where
  "ident32 ws i = ucast (ws ! (i div 2)) OR push_bit 16 (ucast (ws ! (i div 2 + 1)))"

definition ident64 :: "u16 list \<Rightarrow> nat \<Rightarrow> u64" where
  "ident64 ws i = ucast (ident32 ws i) OR push_bit 32 (ucast (ident32 ws (i + 4)))"

definition ident_model :: "u16 list \<Rightarrow> u8 list" where
  "ident_model ws = concat (map (\<lambda>i. [ucast (drop_bit 8 (ws ! (27 + i)) AND 0xFF), ucast (ws ! (27 + i) AND 0xFF)]) [0..<20]) @ [0]"

definition ident_size :: "u16 list \<Rightarrow> ide_device \<Rightarrow> ide_device" where
  "ident_size ws d =
     (if id_command_sets d AND push_bit 26 1 \<noteq> 0
      then d\<lparr>id_size := ident64 ws 200 AND (push_bit 48 1 - 1), id_size_type := IDE_SIZE_LBA48\<rparr>
      else if id_features d AND 0x200 \<noteq> 0
      then d\<lparr>id_size := ucast (ident32 ws 120 AND (push_bit 28 1 - 1)), id_size_type := IDE_SIZE_LBA28\<rparr>
      else let d = d\<lparr>id_heads := ucast (ws ! 3), id_sectors := ucast (ws ! 6), id_cylinders := ws ! 1\<rparr>
           in d\<lparr>id_size := ucast (id_cylinders d) * ucast (id_heads d) * ucast (id_sectors d), id_size_type := IDE_SIZE_CHS\<rparr>)"

definition ident_device :: "u16 list \<Rightarrow> nat \<Rightarrow> nat \<Rightarrow> ide_device \<Rightarrow> ide_device" where
  "ident_device ws channel_index drive_select d =
     (let d = d\<lparr>id_present := True, id_type := 0, id_channel := of_nat channel_index, id_slave := (drive_select = 1),
                id_signature := ws ! 0, id_features := ws ! 49, id_command_sets := ident32 ws 164\<rparr>;
          d = d\<lparr>id_supports_dma := (id_features d AND push_bit 8 1 \<noteq> 0)\<rparr>;
          d = ident_size ws d
      in d\<lparr>id_model := ident_model ws\<rparr>)"

definition init_ide_device :: "hardware \<Rightarrow> nat \<Rightarrow> nat \<Rightarrow> nat \<Rightarrow> ide_vars \<Rightarrow> ide_vars option" where
  "init_ide_device hw device_index channel_index drive_select s =
     (let s = s\<lparr>ide_devices := (ide_devices s)[device_index := (ide_devices s ! device_index)
                  \<lparr>id_external_dev_id := NOT 0, id_present := False, id_slave := (drive_select = 1)\<rparr>]\<rparr>;
          s = io_wait (io_wait (ide_select channel_index (id_slave (ide_devices s ! device_index)) 0 s));
          s = io_wait (io_wait (ide_send_cmd channel_index ATA_CMD_IDENTIFY s));
          (status, s) = ide_get_status hw channel_index s
      in if status = 0 then Some s
         else case ide_poll hw channel_index s of None \<Rightarrow> None
              | Some (err, s) \<Rightarrow>
                  if err then Some s
                  else let (ws, s) = get_channel_identity hw channel_index s
                       in Some (s\<lparr>ide_devices := (ide_devices s)[device_index :=
                                    ident_device ws channel_index drive_select (ide_devices s ! device_index)]\<rparr>))"

text \<open>The first loop of \<^verbatim>\<open>init_ide_devices\<close>; the second one prints what was found.\<close>

definition init_ide_devices :: "hardware \<Rightarrow> ide_vars \<Rightarrow> ide_vars option" where
  "init_ide_devices hw s =
     Option.bind (init_ide_device hw 0 0 0 s) (\<lambda>s.
     Option.bind (init_ide_device hw 1 0 1 s) (\<lambda>s.
     Option.bind (init_ide_device hw 2 1 0 s) (\<lambda>s.
     init_ide_device hw 3 1 1 s)))"

definition init_dma_channel :: "usize_ptr \<Rightarrow> nat \<Rightarrow> ide_vars \<Rightarrow> ide_vars kres" where
  "init_dma_channel prdt ch s =
     (if id_supports_dma (ide_devices s ! (ch * 2)) \<or> id_supports_dma (ide_devices s ! (ch * 2 + 1))
      then kbind (kassert (prdt \<noteq> NULL)) (\<lambda>_.
           Inr (s\<lparr>ide_dma := (ide_dma s)[ch := \<lparr>dma_prdt_addr = prdt,
             dma_prdt = replicate 8 \<lparr>prd_phys_addr = 0, prd_bytes_size = 0, prd_flags = 0\<rparr>, dma_prdt_capacity = 8\<rparr>]\<rparr>))
      else Inr s)"

text \<open>\<^verbatim>\<open>init_dma_devices\<close>, with the results of \<^verbatim>\<open>kmalloc_aligned\<close> for the two channels.\<close>

definition init_dma_devices :: "usize_ptr \<Rightarrow> usize_ptr \<Rightarrow> ide_vars \<Rightarrow> ide_vars kres" where
  "init_dma_devices prdt0 prdt1 s = kbind (init_dma_channel prdt0 0 s) (init_dma_channel prdt1 1)"

section \<open>The region table\<close>

definition PRD_MAX_BOUNDARY :: u32 where "PRD_MAX_BOUNDARY = 0x10000"
definition PRD_LAST_BIT :: u16 where "PRD_LAST_BIT = 0x8000"

definition prd_take :: "u32 \<Rightarrow> u32 \<Rightarrow> u32 \<Rightarrow> u32 \<Rightarrow> u32" where
  "prd_take pa cur_chunk_size cur_pa remaining =
     (let page_offset = (pa + cur_chunk_size) AND (PAGE_SIZE - 1);
          page_space = PAGE_SIZE - page_offset;
          take = (if remaining < page_space then remaining else page_space);
          boundary = PRD_MAX_BOUNDARY - ((cur_pa + cur_chunk_size) AND (PRD_MAX_BOUNDARY - 1));
          take = (if take > boundary then boundary else take)
      in take - take mod SECTOR_SIZE)"

lemma prd_take_le: "prd_take pa c cp r \<le> r"
proof -
  have "t - t mod SECTOR_SIZE \<le> t" for t :: u32
    by (simp add: word_le_nat_alt unat_sub_if' unat_mod_distrib word_less_nat_alt)
  moreover have "(if b < (if r < a then r else a) then b else if r < a then r else a) \<le> r" for a b :: u32
    by (auto simp: not_less)
  ultimately show ?thesis unfolding prd_take_def Let_def by (meson order_trans)
qed

function prd_loop :: "u32 \<Rightarrow> u32 \<Rightarrow> u32 \<Rightarrow> u32 \<Rightarrow> u32 \<times> u32" where
  "prd_loop pa cur_chunk_size cur_pa remaining =
     (if remaining = 0 then (cur_chunk_size, remaining)
      else let take = prd_take pa cur_chunk_size cur_pa remaining
           in if take = 0 then (cur_chunk_size, remaining)
              else let cur_chunk_size = cur_chunk_size + take; remaining = remaining - take
                   in if remaining = 0 then (cur_chunk_size, remaining)
                      else let next_pa = pa + cur_chunk_size
                           in if next_pa \<noteq> cur_pa + cur_chunk_size then (cur_chunk_size, remaining)
                              else if cur_pa AND NOT (PRD_MAX_BOUNDARY - 1) \<noteq> next_pa AND NOT (PRD_MAX_BOUNDARY - 1)
                              then (cur_chunk_size, remaining)
                              else prd_loop pa cur_chunk_size next_pa remaining)"
  by pat_completeness auto
termination
proof (relation "measure (\<lambda>(pa, c, cp, r). unat r)", goal_cases)
  case (2 pa c cp r)
  then show ?case using prd_take_le [of pa c cp r] by (simp add: unat_sub word_le_nat_alt unat_gt_0)
qed simp

declare prd_loop.simps [simp del]

definition prdt_iterate_chunk_prd ::
  "(usize_ptr \<Rightarrow> usize_ptr \<Rightarrow> usize_ptr) \<Rightarrow> u64 \<Rightarrow> ide_dma_vars \<Rightarrow> u32 \<Rightarrow> u32 \<Rightarrow> (ide_dma_vars \<times> u32 \<times> u32) kres" where
  "prdt_iterate_chunk_prd krealloc prd_index dma remaining pa =
     kbind (if prd_index \<ge> dma_prdt_capacity dma
            then let new_capacity = dma_prdt_capacity dma * 2; addr = krealloc (dma_prdt_addr dma) (ucast (8 * new_capacity))
                 in kbind (kassert (addr \<noteq> NULL)) (\<lambda>_.
                    Inr (dma\<lparr>dma_prdt_addr := addr, dma_prdt := take (unat new_capacity) (dma_prdt dma @
                           replicate (unat new_capacity) \<lparr>prd_phys_addr = 0, prd_bytes_size = 0, prd_flags = 0\<rparr>),
                         dma_prdt_capacity := new_capacity\<rparr>))
            else Inr dma) (\<lambda>dma.
     let start_pa = pa; (cur_chunk_size, remaining) = prd_loop pa 0 start_pa remaining
     in if \<not> unat prd_index < length (dma_prdt dma) then Inl BadAccess
        else let entry = \<lparr>prd_phys_addr = start_pa,
                          prd_bytes_size = (if cur_chunk_size = PRD_MAX_BOUNDARY then 0 else ucast cur_chunk_size), prd_flags = 0\<rparr>
             in Inr (dma\<lparr>dma_prdt := (dma_prdt dma)[unat prd_index := entry]\<rparr>, remaining, pa + cur_chunk_size))"

text \<open>The inner loop of \<^verbatim>\<open>fill_prdt\<close> for one chunk, and the loop over the chunks: the next free entry and the sectors.\<close>

partial_function (option) fill_chunk ::
  "(usize_ptr \<Rightarrow> usize_ptr \<Rightarrow> usize_ptr) \<Rightarrow> u64 \<Rightarrow> ide_dma_vars \<Rightarrow> u32 \<Rightarrow> u32 \<Rightarrow> (u64 \<times> ide_dma_vars) kloop" where
  "fill_chunk krealloc prd_index dma remaining pa =
     (if remaining = 0 then lret (prd_index, dma)
      else lbind (Some (prdt_iterate_chunk_prd krealloc prd_index dma remaining pa))
             (\<lambda>(dma, remaining, pa). fill_chunk krealloc (prd_index + 1) dma remaining pa))"

declare fill_chunk.simps [code]

fun fill_chunks ::
  "(usize_ptr \<Rightarrow> usize_ptr \<Rightarrow> usize_ptr) \<Rightarrow> u64 \<Rightarrow> u64 \<Rightarrow> ide_dma_vars \<Rightarrow> stor_request_chunk_entry list \<Rightarrow>
   (u64 \<times> u64 \<times> ide_dma_vars) kloop" where
  "fill_chunks krealloc total_sectors prd_index dma [] = lret (total_sectors, prd_index, dma)"
| "fill_chunks krealloc total_sectors prd_index dma (c # cs) =
     (let pa = pa_buffer c; remaining = ucast (chunk_sectors c * ucast SECTOR_SIZE)
      in lbind (lassert (pa mod SECTOR_SIZE = 0)) (\<lambda>_.
         lbind (fill_chunk krealloc prd_index dma remaining pa) (\<lambda>(prd_index, dma).
         fill_chunks krealloc (total_sectors + chunk_sectors c) prd_index dma cs)))"

definition fill_prdt ::
  "(usize_ptr \<Rightarrow> usize_ptr \<Rightarrow> usize_ptr) \<Rightarrow> (usize_ptr \<Rightarrow> u32) \<Rightarrow> nat \<Rightarrow> stor_request_chunk_entry list \<Rightarrow> ide_vars \<Rightarrow>
   (u64 \<times> ide_vars) kloop" where
  "fill_prdt krealloc v2p channel chunks s =
     lbind (fill_chunks krealloc 0 0 (ide_dma s ! channel) chunks) (\<lambda>(total_sectors, prd_index, dma).
     if prd_index > 0
     then let last = dma_prdt dma ! unat (prd_index - 1);
              dma = dma\<lparr>dma_prdt := (dma_prdt dma)[unat (prd_index - 1) := last\<lparr>prd_flags := prd_flags last OR PRD_LAST_BIT\<rparr>]\<rparr>;
              s = s\<lparr>ide_dma := (ide_dma s)[channel := dma]\<rparr>
          in lbind (Some (set_prdt_addr channel (v2p (dma_prdt_addr dma)) s)) (\<lambda>s. lret (total_sectors, s))
     else lret (total_sectors, s\<lparr>ide_dma := (ide_dma s)[channel := dma]\<rparr>))"

section \<open>Requests\<close>

text \<open>The part that reading and writing share, from the addressing of the sectors on.\<close>

definition ide_issue :: "nat \<Rightarrow> nat \<Rightarrow> u64 \<Rightarrow> u64 \<Rightarrow> u8 \<Rightarrow> u8 \<Rightarrow> u8 \<Rightarrow> ide_vars \<Rightarrow> ide_vars kres" where
  "ide_issue device channel lba sector_count cmd_ext cmd28 bm_cmd s =
     kbind (send_bm_status channel (ATA_BM_STATUS_IRQ OR ATA_BM_STATUS_ERR) s) (\<lambda>s.
     let dev = ide_devices s ! device
     in kbind (if id_size_type dev = IDE_SIZE_LBA48
               then Inr (cmd_ext, ide_set_lba48 channel (id_slave dev) lba (ucast sector_count) s)
               else if id_size_type dev = IDE_SIZE_LBA28
               then Inr (cmd28, ide_set_lba28 channel (id_slave dev) (ucast lba) (ucast sector_count)
                                  (ide_cmd_outb channel REG_OFF_SECCOUNT0 0 s))
               else Inl Aborted) (\<lambda>(command, s).
        send_bm_cmd channel bm_cmd (ide_send_cmd channel command s)))"

definition ide_read_sectors_async ::
  "(usize_ptr \<Rightarrow> usize_ptr \<Rightarrow> usize_ptr) \<Rightarrow> (usize_ptr \<Rightarrow> u32) \<Rightarrow> nat \<Rightarrow> u64 \<Rightarrow> stor_request_chunk_entry list \<Rightarrow> ide_vars \<Rightarrow> ide_vars kloop" where
  "ide_read_sectors_async krealloc v2p device lba chunks s =
     (let channel = unat (id_channel (ide_devices s ! device))
      in if \<not> ic_has_dma (ide_channels s ! channel) then Some (Inl Aborted)
         else lbind (fill_prdt krealloc v2p channel chunks s) (\<lambda>(sector_count, s).
              Some (ide_issue device channel lba sector_count ATA_CMD_READ_DMA_EXT ATA_CMD_READ_DMA
                (ATA_BM_CMD_READ OR ATA_BM_CMD_START) s)))"

definition ide_write_sectors_async ::
  "(usize_ptr \<Rightarrow> usize_ptr \<Rightarrow> usize_ptr) \<Rightarrow> (usize_ptr \<Rightarrow> u32) \<Rightarrow> nat \<Rightarrow> u64 \<Rightarrow> stor_request_chunk_entry list \<Rightarrow> ide_vars \<Rightarrow> ide_vars kloop" where
  "ide_write_sectors_async krealloc v2p device lba chunks s =
     (let channel = unat (id_channel (ide_devices s ! device))
      in if \<not> ic_has_dma (ide_channels s ! channel) then Some (Inl Aborted)
         else lbind (fill_prdt krealloc v2p channel chunks s) (\<lambda>(sector_count, s).
              lbind (lassert (sector_count \<noteq> 0)) (\<lambda>_.
              Some (ide_issue device channel lba sector_count ATA_CMD_WRITE_DMA_EXT ATA_CMD_WRITE_DMA ATA_BM_CMD_START s))))"

definition ide_push_queue :: "usize_ptr \<Rightarrow> stor_request \<Rightarrow> ide_vars \<Rightarrow> ide_vars kres" where
  "ide_push_queue item request s =
     (let channel = unat (id_channel (ide_devices s ! rq_device request))
      in kbind (kassert (item \<noteq> NULL)) (\<lambda>_.
         let s = s\<lparr>ide_items := (ide_items s)(item \<mapsto> \<lparr>it_request = request, it_prev = NULL\<rparr>)\<rparr>; q = ide_queue s ! channel
         in if q_tail q = NULL
            then Inr (s\<lparr>ide_queue := (ide_queue s)[channel := q\<lparr>q_tail := item, q_head := item\<rparr>]\<rparr>)
            else case ide_items s (q_tail q) of None \<Rightarrow> Inl BadAccess
                 | Some t \<Rightarrow> Inr (s\<lparr>ide_items := (ide_items s)(q_tail q \<mapsto> t\<lparr>it_prev := item\<rparr>),
                                   ide_queue := (ide_queue s)[channel := q\<lparr>q_tail := item\<rparr>]\<rparr>)))"

definition ide_pop_queue :: "nat \<Rightarrow> ide_vars \<Rightarrow> (usize_ptr \<times> ide_vars) kres" where
  "ide_pop_queue channel s =
     (let q = ide_queue s ! channel
      in if q_head q = NULL then Inr (NULL, s)
         else case ide_items s (q_head q) of None \<Rightarrow> Inl BadAccess
              | Some it \<Rightarrow>
                  let q' = q\<lparr>q_head := it_prev it\<rparr>;
                      q' = (if q_head q' = NULL then q'\<lparr>q_tail := NULL\<rparr> else q')
                  in Inr (q_head q, s\<lparr>ide_queue := (ide_queue s)[channel := q']\<rparr>))"

definition make_request ::
  "(usize_ptr \<Rightarrow> usize_ptr \<Rightarrow> usize_ptr) \<Rightarrow> (usize_ptr \<Rightarrow> u32) \<Rightarrow> stor_request \<Rightarrow> ide_vars \<Rightarrow> ide_vars kloop" where
  "make_request krealloc v2p request s =
     (let dev = ide_devices s ! rq_device request
      in case rq_action request of
           STOR_REQ_READ \<Rightarrow> ide_read_sectors_async krealloc v2p (unat (id_channel dev)) (rq_lba request) (rq_chunk_list request) s
         | STOR_REQ_WRITE \<Rightarrow> ide_write_sectors_async krealloc v2p (unat (id_channel dev)) (rq_lba request) (rq_chunk_list request) s)"

definition ide_submit ::
  "(usize_ptr \<Rightarrow> usize_ptr \<Rightarrow> usize_ptr) \<Rightarrow> (usize_ptr \<Rightarrow> u32) \<Rightarrow> usize_ptr \<Rightarrow> stor_request \<Rightarrow> ide_vars \<Rightarrow> ide_vars kloop" where
  "ide_submit krealloc v2p item request s =
     (let channel = unat (id_channel (ide_devices s ! rq_device request)); (irq_data, s) = cpu_irq_save s
      in lbind (lassert (q_head (ide_queue s ! channel) = NULL)) (\<lambda>_.
         lbind (Some (ide_push_queue item request s)) (\<lambda>s.
         lbind (make_request krealloc v2p request s) (\<lambda>s.
         lret (cpu_irq_restore irq_data s)))))"

text \<open>The two interrupt handlers, which differ in the channel and in the test of the callback.\<close>

definition ide_irq ::
  "hardware \<Rightarrow> (usize_ptr \<Rightarrow> usize_ptr \<Rightarrow> usize_ptr) \<Rightarrow> (usize_ptr \<Rightarrow> u32) \<Rightarrow>
   (usize_ptr \<Rightarrow> stor_request \<Rightarrow> int \<Rightarrow> ide_vars \<Rightarrow> ide_vars kloop) \<Rightarrow> bool \<Rightarrow> nat \<Rightarrow> ide_vars \<Rightarrow> ide_vars kloop" where
  "ide_irq hw krealloc v2p callback check_callback channel s =
     lbind (Some (ide_pop_queue channel s)) (\<lambda>(item, s).
     if item = NULL
     then lbind (Some (reset_bm channel s)) (\<lambda>s.
          lret (pic_send_eoi_vector (ucast (ic_irq (ide_channels s ! channel))) s))
     else
       lbind (Some (reset_bm channel s)) (\<lambda>s.
       lbind (Some (recv_bm_status hw channel s)) (\<lambda>(bm_status, s).
       let (drv_status, s) = ide_get_status hw channel s;
           result = (if bm_status AND ATA_BM_STATUS_ERR \<noteq> 0 \<or> drv_status AND ATA_STATUS_ERR \<noteq> 0 then - 1 else 1)
       in case ide_items s item of None \<Rightarrow> Some (Inl BadAccess)
          | Some it \<Rightarrow>
            lbind (if rq_callback (it_request it) \<noteq> NULL then callback (rq_callback (it_request it)) (it_request it) result s
                   else if check_callback then lret s else Some (Inl BadAccess)) (\<lambda>s.
            lbind (if q_head (ide_queue s ! channel) \<noteq> NULL
                   then (case ide_items s (q_head (ide_queue s ! channel)) of None \<Rightarrow> Some (Inl BadAccess)
                         | Some nxt \<Rightarrow> make_request krealloc v2p (it_request nxt) s)
                   else lret s) (\<lambda>s.
            let s = s\<lparr>ide_items := (ide_items s)(item := None)\<rparr>
            in lret (pic_send_eoi_vector (ucast (ic_irq (ide_channels s ! channel))) s))))))"

definition primary_irq where
  "primary_irq hw krealloc v2p callback = ide_irq hw krealloc v2p callback True ATA_PRIMARY"

definition secondary_irq where
  "secondary_irq hw krealloc v2p callback = ide_irq hw krealloc v2p callback False ATA_SECONDARY"

text \<open>\<^verbatim>\<open>enable_pic\<close> without the registration of the two handlers.\<close>

definition enable_device :: "hardware \<Rightarrow> nat \<Rightarrow> ide_vars \<Rightarrow> ide_vars kres" where
  "enable_device hw i s =
     (let dev = ide_devices s ! i; channel = unat (id_channel dev)
      in if channel \<noteq> ATA_PRIMARY \<and> channel \<noteq> ATA_SECONDARY then Inl Aborted
         else if id_present dev \<and> \<not> ic_pic_enabled (ide_channels s ! channel)
         then kbind (reset_bm channel s) (\<lambda>s.
              let (_, s) = ide_get_status hw channel s;
                  s = pic_unmask_vector hw (ucast (ic_irq (ide_channels s ! channel))) s
              in Inr (s\<lparr>ide_channels := (ide_channels s)[channel := (ide_channels s ! channel)\<lparr>ic_pic_enabled := True\<rparr>]\<rparr>))
         else Inr s)"

definition enable_pic :: "hardware \<Rightarrow> ide_vars \<Rightarrow> ide_vars kres" where
  "enable_pic hw s =
     kbind (enable_device hw 0 s) (\<lambda>s. kbind (enable_device hw 1 s) (\<lambda>s.
     kbind (enable_device hw 2 s) (enable_device hw 3)))"

end
