(* ===== verification/Block.thy ===== *)
theory Block
  imports Ring_Queue Ide
begin

text \<open>
  Storage devices and the block layer on top of them: \<^verbatim>\<open>kernel/drivers/storage.c\<close> and
  \<^verbatim>\<open>kernel/services/block\<close> (disks, partitions, the partition table and the list of devices).

  Pointers to devices are positions in the lists of all devices that were made. Requests of the block layer are a store from addresses,
  because a queue keeps their addresses in memory. \<open>bl_pool\<close> holds the next results of \<^verbatim>\<open>kmalloc\<close>, one for each call; an exhausted pool
  answers NULL. \<open>submit\<close> is the function of the hardware driver that a storage device points to, with the state \<open>bl_hw\<close> of the driver,
  \<open>v2p\<close> is \<^verbatim>\<open>virt_to_phys\<close>, and \<open>user\<close> runs a callback of a client.
  The lock of a device is held or free: on one processor, waiting for a lock that is held does not end (\<open>None\<close>).
\<close>

section \<open>State\<close>

datatype storage_dev_type = STOR_TYPE_PIO | STOR_TYPE_DMA

record stor_device =
  sd_dev_id :: usize
  sd_dev_data :: nat
  sd_disk_size :: usize
  sd_sector_size :: usize
  sd_active_requests :: u32
  sd_max_requests :: u32
  sd_type :: storage_dev_type
  sd_lock :: bool

record stor_req =
  sr_device :: nat
  sr_lba :: usize
  sr_chunk_list :: "stor_request_chunk_entry list"
  sr_action :: stor_request_io
  sr_ctx :: usize_ptr

datatype block_io_type = BLOCK_IO_READ | BLOCK_IO_WRITE

datatype block_request_cb = Block_partition_cb | Partitions_cb | User_cb usize_ptr

record block_request =
  br_device :: nat
  br_io :: block_io_type
  br_block_offset :: usize
  br_block_count :: usize
  br_block_vbuffer :: usize_ptr
  br_cb :: block_request_cb
  br_ctx :: usize_ptr

datatype block_dev_data =
    BLOCK_DEV_DISK nat ring_queue
  | BLOCK_DEV_PARTITION nat usize

record block_device =
  bd_block_size :: usize
  bd_block_count :: usize
  bd_data :: block_dev_data

record 'h blk =
  bl_hw :: 'h
  bl_pool :: "usize_ptr list"
  bl_mem :: mem
  bl_stor :: "stor_device list"
  storage_dev_arr :: "nat list"
  storage_capacity :: usize_ptr
  storage_count :: usize_ptr
  main_device :: "nat option"
  main_device_disk_size :: u64
  bl_devices :: "block_device list"
  bl_requests :: "usize_ptr \<Rightarrow> block_request option"
  block_devs :: "nat list"
  block_dev_max_size :: usize
  main_block_dev :: "nat option"

type_synonym 'h driver = "stor_device \<Rightarrow> stor_req \<Rightarrow> 'h \<Rightarrow> 'h kloop"
type_synonym 'h user = "usize_ptr \<Rightarrow> usize_ptr \<Rightarrow> int \<Rightarrow> 'h blk \<Rightarrow> 'h blk kloop"

definition kmalloc_next :: "'h blk \<Rightarrow> usize_ptr \<times> 'h blk" where
  "kmalloc_next s = (case bl_pool s of [] \<Rightarrow> (NULL, s) | a # as \<Rightarrow> (a, s\<lparr>bl_pool := as\<rparr>))"

section \<open>Storage devices\<close>

definition lock_device :: "nat \<Rightarrow> 'h blk \<Rightarrow> 'h blk kloop" where
  "lock_device i s = (if sd_lock (bl_stor s ! i) then None else lret (s\<lparr>bl_stor := (bl_stor s)[i := (bl_stor s ! i)\<lparr>sd_lock := True\<rparr>]\<rparr>))"

definition unlock_device :: "nat \<Rightarrow> 'h blk \<Rightarrow> 'h blk" where
  "unlock_device i s = s\<lparr>bl_stor := (bl_stor s)[i := (bl_stor s ! i)\<lparr>sd_lock := False\<rparr>]\<rparr>"

definition stor_submit :: "'h driver \<Rightarrow> stor_req \<Rightarrow> 'h blk \<Rightarrow> (bool \<times> 'h blk) kloop" where
  "stor_submit submit request s =
     (let dev = sr_device request
      in lbind (lock_device dev s) (\<lambda>s.
         if sd_active_requests (bl_stor s ! dev) < sd_max_requests (bl_stor s ! dev)
         then lbind (submit (bl_stor s ! dev) request (bl_hw s)) (\<lambda>h. lret (True, unlock_device dev (s\<lparr>bl_hw := h\<rparr>)))
         else lret (False, unlock_device dev s)))"

definition add_stor_device ::
  "nat \<Rightarrow> usize \<Rightarrow> usize \<Rightarrow> u32 \<Rightarrow> storage_dev_type \<Rightarrow> 'h blk \<Rightarrow> (usize_ptr \<times> 'h blk) kres" where
  "add_stor_device data disk_size sector_size max_requests type s =
     kbind (kassert (sector_size = ucast (align_up_pow2 (ucast sector_size)))) (\<lambda>_.
     kbind (if storage_count s + 1 \<ge> storage_capacity s
            then let capacity = storage_capacity s * 2; (arr, s) = kmalloc_next s
                 in kbind (kassert (arr \<noteq> NULL)) (\<lambda>_.
                    Inr (s\<lparr>storage_capacity := capacity,
                           storage_dev_arr := take (unat capacity) (storage_dev_arr s @ replicate (unat capacity) 0)\<rparr>))
            else Inr s) (\<lambda>s.
     let (dev, s) = kmalloc_next s
     in kbind (kassert (dev \<noteq> NULL)) (\<lambda>_.
        let cur_device = length (bl_stor s);
            s = s\<lparr>bl_stor := bl_stor s @ [\<lparr>sd_dev_id = ucast (storage_count s), sd_dev_data = data, sd_disk_size = disk_size,
                   sd_sector_size = sector_size, sd_active_requests = 0, sd_max_requests = max_requests, sd_type = type, sd_lock = False\<rparr>]\<rparr>
        in if \<not> unat (storage_count s) < length (storage_dev_arr s) then Inl BadAccess
           else let s = s\<lparr>storage_dev_arr := (storage_dev_arr s)[unat (storage_count s) := cur_device]\<rparr>;
                    s = (if disk_size > main_device_disk_size s
                         then s\<lparr>main_device_disk_size := disk_size, main_device := Some (storage_dev_arr s ! unat (storage_count s))\<rparr> else s)
                in Inr (storage_count s, s\<lparr>storage_count := storage_count s + 1\<rparr>))))"

definition stor_main_device :: "'h blk \<Rightarrow> nat option" where
  "stor_main_device s = main_device s"

definition stor_get_device_count :: "'h blk \<Rightarrow> usize_ptr" where
  "stor_get_device_count s = storage_count s"

definition stor_get_device :: "usize_ptr \<Rightarrow> 'h blk \<Rightarrow> nat option" where
  "stor_get_device dev_index s =
     (if dev_index \<ge> storage_count s then None else Some (storage_dev_arr s ! unat dev_index))"

definition main_stor_device :: "'h blk \<Rightarrow> nat option" where
  "main_stor_device s = main_device s"

text \<open>\<open>init_arch\<close> is \<^verbatim>\<open>init_arch_storage\<close>, which adds the devices of the machine.\<close>

definition init_storage :: "('h blk \<Rightarrow> 'h blk kloop) \<Rightarrow> 'h blk \<Rightarrow> 'h blk kloop" where
  "init_storage init_arch s =
     (let s = s\<lparr>main_device_disk_size := 0, main_device := None, storage_capacity := 1, storage_count := 0\<rparr>;
          (arr, s) = kmalloc_next s
      in lbind (lassert (arr \<noteq> NULL)) (\<lambda>_.
         lbind (init_arch (s\<lparr>storage_dev_arr := [0]\<rparr>)) (\<lambda>s.
         lbind (lassert (main_device s \<noteq> None)) (\<lambda>_. lret s))))"

section \<open>Requests\<close>

definition block_req_generate ::
  "nat \<Rightarrow> block_io_type \<Rightarrow> usize_ptr \<Rightarrow> usize_ptr \<Rightarrow> usize \<Rightarrow> block_request_cb \<Rightarrow> usize_ptr \<Rightarrow> 'h blk \<Rightarrow> (usize_ptr \<times> 'h blk) kres" where
  "block_req_generate device io vbuffer count offset cb ctx s =
     (let (request, s) = kmalloc_next s
      in kbind (kassert (request \<noteq> NULL)) (\<lambda>_.
         Inr (request, s\<lparr>bl_requests := (bl_requests s)(request \<mapsto> \<lparr>br_device = device, br_io = io, br_block_offset = offset,
           br_block_count = ucast count, br_block_vbuffer = vbuffer, br_cb = cb, br_ctx = ctx\<rparr>)\<rparr>)))"

definition block_req_cleanup :: "usize_ptr \<Rightarrow> 'h blk \<Rightarrow> 'h blk" where
  "block_req_cleanup request s = s\<lparr>bl_requests := (bl_requests s)(request := None)\<rparr>"

definition block_to_stor_type :: "block_io_type \<Rightarrow> stor_request_io" where
  "block_to_stor_type io = (case io of BLOCK_IO_READ \<Rightarrow> STOR_REQ_READ | BLOCK_IO_WRITE \<Rightarrow> STOR_REQ_WRITE)"

definition udiv :: "u64 \<Rightarrow> u64 \<Rightarrow> u64 kres" where
  "udiv a b = (if b = 0 then Inl DivideError else Inr (a div b))"

definition request_disk :: "block_request \<Rightarrow> 'h blk \<Rightarrow> (nat \<times> ring_queue) kres" where
  "request_disk r s =
     (case bd_data (bl_devices s ! br_device r) of BLOCK_DEV_DISK hw queue \<Rightarrow> Inr (hw, queue) | BLOCK_DEV_PARTITION _ _ \<Rightarrow> Inl BadAccess)"

definition block_disk_make_stor_request :: "(usize_ptr \<Rightarrow> usize_ptr) \<Rightarrow> usize_ptr \<Rightarrow> 'h blk \<Rightarrow> (stor_req \<times> 'h blk) kres" where
  "block_disk_make_stor_request v2p p s =
     (case bl_requests s p of None \<Rightarrow> Inl BadAccess
      | Some r \<Rightarrow>
        let block_size = bd_block_size (bl_devices s ! br_device r)
        in kbind (if block_size = 0 then Inl DivideError else kassert (ucast (br_block_vbuffer r) mod block_size = 0)) (\<lambda>_.
           let (result, s) = kmalloc_next s
           in kbind (kassert (result \<noteq> NULL)) (\<lambda>_.
              kbind (request_disk r s) (\<lambda>(hw, _).
              let (chunk_list, s) = kmalloc_next s
              in kbind (kassert (chunk_list \<noteq> NULL)) (\<lambda>_.
                 kbind (udiv (br_block_count r * block_size) (sd_sector_size (bl_stor s ! hw))) (\<lambda>sectors.
                 kbind (udiv (br_block_offset r * block_size) (sd_sector_size (bl_stor s ! hw))) (\<lambda>lba.
                 Inr (\<lparr>sr_device = hw, sr_lba = lba, sr_chunk_list = [\<lparr>pa_buffer = v2p (br_block_vbuffer r), chunk_sectors = sectors\<rparr>],
                        sr_action = block_to_stor_type (br_io r), sr_ctx = p\<rparr>, s))))))))"

definition block_submit_disk :: "'h driver \<Rightarrow> (usize_ptr \<Rightarrow> usize_ptr) \<Rightarrow> usize_ptr \<Rightarrow> 'h blk \<Rightarrow> 'h blk kloop" where
  "block_submit_disk submit v2p p s =
     (case bl_requests s p of None \<Rightarrow> Some (Inl BadAccess)
      | Some r \<Rightarrow>
        lbind (Some (request_disk r s)) (\<lambda>(hw, queue).
        lbind (lock_device hw s) (\<lambda>s.
        let can_add_request = sd_active_requests (bl_stor s ! hw) < sd_max_requests (bl_stor s ! hw); s = unlock_device hw s
        in if can_add_request
           then lbind (Some (block_disk_make_stor_request v2p p s)) (\<lambda>(stor_request, s).
                lbind (stor_submit submit stor_request s) (\<lambda>(_, s). lret s))
           else let (a, s) = kmalloc_next s; (_, m, queue) = ring_queue_push (\<lambda>_. a) p (bl_mem s, queue)
                in lret (s\<lparr>bl_mem := m, bl_devices := (bl_devices s)[br_device r := (bl_devices s ! br_device r)\<lparr>bd_data := BLOCK_DEV_DISK hw queue\<rparr>]\<rparr>))))"

partial_function (option) block_submit ::
  "'h driver \<Rightarrow> (usize_ptr \<Rightarrow> usize_ptr) \<Rightarrow> nat \<Rightarrow> block_io_type \<Rightarrow> usize_ptr \<Rightarrow> usize_ptr \<Rightarrow> usize \<Rightarrow> block_request_cb \<Rightarrow> usize_ptr \<Rightarrow>
   'h blk \<Rightarrow> 'h blk kloop" where
  "block_submit submit v2p device io vbuffer count offset cb ctx s =
     lbind (lassert (ucast vbuffer AND (bd_block_size (bl_devices s ! device) - 1) = 0)) (\<lambda>_.
     lbind (Some (block_req_generate device io vbuffer count offset cb ctx s)) (\<lambda>(request, s).
     case bd_data (bl_devices s ! device) of
       BLOCK_DEV_DISK _ _ \<Rightarrow> block_submit_disk submit v2p request s
     | BLOCK_DEV_PARTITION disk start \<Rightarrow>
         block_submit submit v2p disk io vbuffer count (start + offset) Block_partition_cb request s))"

declare block_submit.simps [code]

section \<open>Devices and partitions\<close>

definition MAX_DEVS :: nat where "MAX_DEVS = 128"
definition MBR_SECTOR_SIZE :: usize where "MBR_SECTOR_SIZE = 512"

definition block_disk_generate :: "nat \<Rightarrow> 'h blk \<Rightarrow> (nat \<times> 'h blk) kres" where
  "block_disk_generate stor_dev s =
     (let sector_size = sd_sector_size (bl_stor s ! stor_dev); (block_device, s) = kmalloc_next s
      in if block_device = NULL then Inl BadAccess
         else kbind (udiv (sd_disk_size (bl_stor s ! stor_dev)) sector_size) (\<lambda>count.
         let (a, s) = kmalloc_next s
         in kbind (ring_queue_init (\<lambda>_. a)) (\<lambda>queue.
            Inr (length (bl_devices s), s\<lparr>bl_devices := bl_devices s @
              [\<lparr>bd_block_size = sector_size, bd_block_count = count, bd_data = BLOCK_DEV_DISK stor_dev queue\<rparr>]\<rparr>))))"

definition block_partition_generate :: "nat \<Rightarrow> usize \<Rightarrow> usize \<Rightarrow> 'h blk \<Rightarrow> (nat \<times> 'h blk) kres" where
  "block_partition_generate disk lba_offset sector_count s =
     (let d = bl_devices s ! disk
      in kbind (kassert (case bd_data d of BLOCK_DEV_DISK _ _ \<Rightarrow> True | _ \<Rightarrow> False)) (\<lambda>_.
         let (partition_block_dev, s) = kmalloc_next s
         in if partition_block_dev = NULL then Inl BadAccess
            else kbind (udiv sector_count (bd_block_size d)) (\<lambda>count.
            Inr (length (bl_devices s), s\<lparr>bl_devices := bl_devices s @
              [\<lparr>bd_block_size = bd_block_size d, bd_block_count = count, bd_data = BLOCK_DEV_PARTITION disk lba_offset\<rparr>]\<rparr>))))"

definition block_manager_add_device :: "nat \<Rightarrow> 'h blk \<Rightarrow> 'h blk kres" where
  "block_manager_add_device device s =
     (if \<not> length (block_devs s) < MAX_DEVS then Inl BadAccess
      else let s = s\<lparr>block_devs := block_devs s @ [device]\<rparr>;
               size = bd_block_size (bl_devices s ! device) * bd_block_count (bl_devices s ! device)
           in Inr (if size > block_dev_max_size s then s\<lparr>block_dev_max_size := size, main_block_dev := Some device\<rparr> else s))"

definition block_manager_get_device :: "nat \<Rightarrow> 'h blk \<Rightarrow> nat option" where
  "block_manager_get_device index s = (if index < length (block_devs s) then Some (block_devs s ! index) else None)"

definition block_manager_main_device :: "'h blk \<Rightarrow> nat option" where
  "block_manager_main_device s = main_block_dev s"

text \<open>Fields of the partition table at address \<open>mbr\<close>.\<close>

definition mbr_signature :: "mem \<Rightarrow> u32 \<Rightarrow> u16" where
  "mbr_signature m mbr = load16 m (mbr + 510)"

definition mbr_entry :: "u32 \<Rightarrow> nat \<Rightarrow> u32" where
  "mbr_entry mbr i = mbr + 446 + 16 * of_nat i"

definition partition_type :: "mem \<Rightarrow> u32 \<Rightarrow> u8" where "partition_type m e = m (e + 4)"
definition partition_lba_offset :: "mem \<Rightarrow> u32 \<Rightarrow> u32" where "partition_lba_offset m e = load32 m (e + 8)"
definition partition_sector_count :: "mem \<Rightarrow> u32 \<Rightarrow> u32" where "partition_sector_count m e = load32 m (e + 12)"

definition partition_add_block_device :: "nat \<Rightarrow> u32 \<Rightarrow> 'h blk \<Rightarrow> 'h blk kres" where
  "partition_add_block_device disk e s =
     (let sector_multiplier = bd_block_size (bl_devices s ! disk) div MBR_SECTOR_SIZE
      in kbind (udiv (ucast (partition_lba_offset (bl_mem s) e)) sector_multiplier) (\<lambda>lba_offset.
         kbind (udiv (ucast (partition_sector_count (bl_mem s) e)) sector_multiplier) (\<lambda>sector_count.
         kbind (block_partition_generate disk lba_offset sector_count s) (\<lambda>(dev, s).
         block_manager_add_device dev s))))"

definition parse_mbr :: "nat \<Rightarrow> u32 \<Rightarrow> 'h blk \<Rightarrow> (bool \<times> 'h blk) kres" where
  "parse_mbr disk mbr s =
     (if mbr_signature (bl_mem s) mbr \<noteq> 0xAA55 then Inr (False, s)
      else kbind (kfor (\<lambda>i s. if partition_type (bl_mem s) (mbr_entry mbr i) = 0 then Inr s
                              else partition_add_block_device disk (mbr_entry mbr i) s) [0, 1, 2, 3] s)
             (\<lambda>s. Inr (True, s)))"

definition partitions_cb :: "usize_ptr \<Rightarrow> int \<Rightarrow> 'h blk \<Rightarrow> 'h blk kres" where
  "partitions_cb p result s =
     kbind (kassert (result \<ge> 0)) (\<lambda>_.
     case bl_requests s p of None \<Rightarrow> Inl BadAccess
     | Some r \<Rightarrow> kbind (parse_mbr (br_device r) (br_ctx r) s) (\<lambda>(_, s). Inr s))"

section \<open>Completion\<close>

text \<open>The call of a request's callback, with \<^verbatim>\<open>block_partition_cb\<close>.\<close>

partial_function (option) block_call_cb :: "'h user \<Rightarrow> usize_ptr \<Rightarrow> int \<Rightarrow> 'h blk \<Rightarrow> 'h blk kloop" where
  "block_call_cb user p result s =
     (case bl_requests s p of None \<Rightarrow> Some (Inl BadAccess)
      | Some r \<Rightarrow>
        (case br_cb r of
           User_cb f \<Rightarrow> user f p result s
         | Partitions_cb \<Rightarrow> Some (partitions_cb p result s)
         | Block_partition_cb \<Rightarrow>
             lbind (lassert (result \<ge> 0)) (\<lambda>_.
             lbind (block_call_cb user (br_ctx r) result s) (\<lambda>s. lret (block_req_cleanup (br_ctx r) s)))))"

declare block_call_cb.simps [code]

definition stor_disk_cb :: "'h driver \<Rightarrow> (usize_ptr \<Rightarrow> usize_ptr) \<Rightarrow> 'h user \<Rightarrow> stor_req \<Rightarrow> int \<Rightarrow> 'h blk \<Rightarrow> 'h blk kloop" where
  "stor_disk_cb submit v2p user stor_request result s =
     lbind (lassert (result \<ge> 0)) (\<lambda>_.
     let stor_dev = sr_device stor_request; p = sr_ctx stor_request
     in case bl_requests s p of None \<Rightarrow> Some (Inl BadAccess)
        | Some r \<Rightarrow>
          lbind (Some (request_disk r s)) (\<lambda>_.
          lbind (block_call_cb user p result s) (\<lambda>s.
          let s = block_req_cleanup p s
          in lbind (lock_device stor_dev s) (\<lambda>s.
             lbind (Some (request_disk r s)) (\<lambda>(hw, queue).
             lbind (if sd_active_requests (bl_stor s ! stor_dev) < sd_max_requests (bl_stor s ! stor_dev) \<and> \<not> ring_queue_is_empty queue
                    then let (next_request, m, queue) = ring_queue_pop (bl_mem s, queue);
                             s = s\<lparr>bl_mem := m, bl_devices := (bl_devices s)[br_device r := (bl_devices s ! br_device r)\<lparr>bd_data := BLOCK_DEV_DISK hw queue\<rparr>]\<rparr>
                         in lbind (Some (block_disk_make_stor_request v2p next_request s)) (\<lambda>(next_stor_request, s).
                            lbind (stor_submit submit next_stor_request s) (\<lambda>(success, s).
                            lbind (lassert success) (\<lambda>_. lret s)))
                    else lret s) (\<lambda>s.
             lret (unlock_device stor_dev s)))))))"

section \<open>Finding the devices\<close>

definition fetch_partitions :: "'h driver \<Rightarrow> (usize_ptr \<Rightarrow> usize_ptr) \<Rightarrow> nat \<Rightarrow> 'h blk \<Rightarrow> 'h blk kloop" where
  "fetch_partitions submit v2p block_dev s =
     (let (page_data, s) = kmalloc_next s
      in lbind (Some (div_up MBR_SECTOR_SIZE (bd_block_size (bl_devices s ! block_dev)))) (\<lambda>n.
         block_submit submit v2p block_dev BLOCK_IO_READ page_data (ucast n) 0 Partitions_cb page_data s))"

primrec fetch_devices :: "'h driver \<Rightarrow> (usize_ptr \<Rightarrow> usize_ptr) \<Rightarrow> nat list \<Rightarrow> 'h blk \<Rightarrow> 'h blk kloop" where
  "fetch_devices submit v2p [] s = lret s"
| "fetch_devices submit v2p (i # is) s =
     (case stor_get_device (of_nat i) s of None \<Rightarrow> Some (Inl BadAccess)
      | Some stor_dev \<Rightarrow>
        lbind (Some (block_disk_generate stor_dev s)) (\<lambda>(device, s).
        lbind (Some (block_manager_add_device device s)) (\<lambda>s.
        lbind (fetch_partitions submit v2p device s) (fetch_devices submit v2p is))))"

definition fetch_storage :: "'h driver \<Rightarrow> (usize_ptr \<Rightarrow> usize_ptr) \<Rightarrow> 'h blk \<Rightarrow> 'h blk kloop" where
  "fetch_storage submit v2p s = fetch_devices submit v2p [0..<unat (stor_get_device_count s)] s"

definition init_block_manager :: "'h driver \<Rightarrow> (usize_ptr \<Rightarrow> usize_ptr) \<Rightarrow> 'h blk \<Rightarrow> 'h blk kloop" where
  "init_block_manager submit v2p s = fetch_storage submit v2p s"

end
