(* ===== verification/Ide_Props.thy ===== *)
theory Ide_Props
  imports Ide
begin

text \<open>Proofs about the IDE driver: the region table covers a request exactly, the task file gets the sector address, and
  what becomes of a request.\<close>

section \<open>One entry of the region table\<close>

lemma and_mask_mod: "x AND 0xFFF = x mod 0x1000" "x AND 0xFFFF = x mod 0x10000" for x :: u32
proof -
  have "x AND 0xFFF = take_bit 12 x" by (simp add: take_bit_eq_mask mask_eq_exp_minus_1)
  then show "x AND 0xFFF = x mod 0x1000" by (simp add: take_bit_eq_mod)
  have "x AND 0xFFFF = take_bit 16 x" by (simp add: take_bit_eq_mask mask_eq_exp_minus_1)
  then show "x AND 0xFFFF = x mod 0x10000" by (simp add: take_bit_eq_mod)
qed

lemma unat_if_less: "unat (if a < b then a else b) = min (unat a) (unat b)" "unat (if b < a then b else a) = min (unat a) (unat b)"
  by (auto simp: word_less_nat_alt min_def)

lemma unat_room: "unat (0x1000 - x mod 0x1000 :: u32) = 4096 - unat x mod 4096" "unat (0x10000 - x mod 0x10000 :: u32) = 65536 - unat x mod 65536"
  by (simp_all add: unat_sub word_le_nat_alt unat_mod_distrib)

lemma unat_prd_take:
  "unat (prd_take pa c cp r) =
     (let t = min (65536 - unat (cp + c) mod 65536) (min (unat r) (4096 - unat (pa + c) mod 4096)) in t - t mod 512)"
proof -
  have sub: "unat (t - t mod 512) = unat t - unat t mod 512" for t :: u32
    by (simp add: unat_sub word_le_nat_alt unat_mod_distrib)
  show ?thesis
    by (simp add: prd_take_def Let_def PAGE_SIZE_def PRD_MAX_BOUNDARY_def SECTOR_SIZE_def and_mask_mod sub unat_if_less unat_room)
qed

lemma room_512: "512 dvd x \<Longrightarrow> k = 4096 \<or> k = 65536 \<Longrightarrow> 512 dvd k - x mod k \<and> 512 \<le> k - x mod (k :: nat)"
proof -
  assume a: "512 dvd x" "k = 4096 \<or> k = 65536"
  then have k: "512 dvd k" "0 < k" by auto
  then have "512 dvd x mod k" using a(1) by (simp add: dvd_mod)
  then have "512 dvd k - x mod k" using k(1) by (simp add: dvd_diff_nat)
  moreover have "0 < k - x mod k" using k(2) by simp
  ultimately show ?thesis by (auto dest: dvd_imp_le)
qed

lemma page_room_le: "4096 - x mod 4096 \<le> 65536 - x mod (65536 :: nat)"
proof -
  have "x mod (4096 * 16) = 4096 * (x div 4096 mod 16) + x mod 4096" by (rule mod_mult2_eq)
  moreover have "x div 4096 mod 16 \<le> 15" using mod_less_divisor [of 16 "x div 4096"] by simp
  moreover have "4096 - b \<le> 65536 - (4096 * a + b)" if "a \<le> 15" "b < 4096" for a b :: nat using that by linarith
  ultimately show ?thesis by simp
qed

lemma sub_mod_512: "512 dvd t \<Longrightarrow> t - t mod 512 = (t :: nat)"
  by (simp add: dvd_eq_mod_eq_0)

lemma dvd_min: "d dvd a \<Longrightarrow> d dvd b \<Longrightarrow> d dvd min a (b :: nat)"
  by (simp add: min_def)

lemma prd_take_first:
  assumes "512 dvd unat pa" "512 dvd unat r"
  shows "unat (prd_take pa 0 pa r) = min (unat r) (4096 - unat pa mod 4096)"
proof -
  have "min (65536 - unat pa mod 65536) (min (unat r) (4096 - unat pa mod 4096)) = min (unat r) (4096 - unat pa mod 4096)"
    using page_room_le [of "unat pa"] by (simp add: min_def)
  moreover have "512 dvd min (unat r) (4096 - unat pa mod 4096)"
    using assms room_512 [of "unat pa" 4096] by (simp add: dvd_min)
  ultimately show ?thesis by (simp add: unat_prd_take sub_mod_512)
qed

lemma prd_take_second:
  assumes "512 dvd unat (cp + c)" "512 dvd unat r" "0 < unat r" "4096 dvd unat (pa + c)"
  shows "0 < unat (prd_take pa c cp r)" "unat (prd_take pa c cp r) \<le> 4096" "512 dvd unat (prd_take pa c cp r)"
    "unat (prd_take pa c cp r) \<le> unat r"
proof -
  define t where "t = min (65536 - unat (cp + c) mod 65536) (min (unat r) 4096)"
  have room: "512 dvd 65536 - unat (cp + c) mod 65536" "512 \<le> 65536 - unat (cp + c) mod 65536"
    using room_512 [OF assms(1), of 65536] by simp_all
  have "unat (pa + c) mod 4096 = 0" using assms(4) by (simp add: dvd_eq_mod_eq_0)
  moreover have "512 dvd t" unfolding t_def using room assms(2) by (intro dvd_min) simp_all
  ultimately have "unat (prd_take pa c cp r) = t" by (simp add: unat_prd_take t_def sub_mod_512)
  moreover have "0 < t" using room assms(3) by (simp add: t_def)
  ultimately show "0 < unat (prd_take pa c cp r)" "unat (prd_take pa c cp r) \<le> 4096" "512 dvd unat (prd_take pa c cp r)"
    "unat (prd_take pa c cp r) \<le> unat r"
    using \<open>512 dvd t\<close> by (simp_all add: t_def)
qed

lemma same_page: "x mod 4096 + n \<le> 4096 \<Longrightarrow> 0 < n \<Longrightarrow> (x + n - 1) div 65536 = x div (65536 :: nat)"
proof -
  assume a: "x mod 4096 + n \<le> 4096" "0 < n"
  have "x + n - 1 = (x mod 4096 + (n - 1)) + x div 4096 * 4096" using a(2) by (simp add: mult.commute)
  moreover have "x mod 4096 + (n - 1) < 4096" using a by linarith
  ultimately have "(x + n - 1) div 4096 = x div 4096" by (simp only: div_mult_self1) simp
  then have "(x + n - 1) div (4096 * 16) = x div (4096 * 16)" by (simp only: div_mult2_eq)
  then show ?thesis by simp
qed

lemma same_64k: "x AND NOT 0xFFFF = y AND NOT 0xFFFF \<Longrightarrow> unat x div 65536 = unat y div 65536" for x y :: u32
proof -
  have *: "drop_bit 16 (z AND NOT 0xFFFF) = drop_bit 16 z" for z :: u32
  proof (rule bit_word_eqI)
    fix n assume "n < LENGTH(32)"
    have "\<not> bit (0xFFFF :: u32) (16 + n)"
    proof -
      have "(0xFFFF :: u32) = mask 16" by (simp add: mask_eq_exp_minus_1)
      then show ?thesis by (simp only: bit_mask_iff) simp
    qed
    then show "bit (drop_bit 16 (z AND NOT 0xFFFF)) n = bit (drop_bit 16 z) n"
      unfolding bit_drop_bit_eq comp_def bit_and_iff bit_not_iff by (auto dest: bit_imp_possible_bit)
  qed
  assume "x AND NOT 0xFFFF = y AND NOT 0xFFFF"
  then have "drop_bit 16 x = drop_bit 16 y" using * [of x] * [of y] by metis
  then have "unat (drop_bit 16 x) = unat (drop_bit 16 y)" by simp
  then show ?thesis by (simp add: drop_bit_eq_div unat_div_distrib)
qed

text \<open>The loop runs at most twice: the third test compares with an address that is advanced twice.\<close>

lemma prd_loop_spec:
  assumes "512 dvd unat pa" "512 dvd unat r" "0 < unat r" "unat pa + unat r \<le> 2 ^ 32"
  shows "\<exists>c. prd_loop pa 0 pa r = (c, r - c) \<and> 0 < unat c \<and> unat c \<le> unat r \<and> unat c \<le> 8192 \<and> 512 dvd unat c \<and>
    unat pa div 65536 = (unat pa + unat c - 1) div 65536"
proof -
  define t where "t = prd_take pa 0 pa r"
  have t: "unat t = min (unat r) (4096 - unat pa mod 4096)" unfolding t_def by (rule prd_take_first [OF assms(1,2)])
  have room: "512 dvd 4096 - unat pa mod 4096" "512 \<le> 4096 - unat pa mod 4096" using room_512 [OF assms(1), of 4096] by simp_all
  have t_pos: "0 < unat t" "512 dvd unat t" "unat t \<le> unat r" "unat t \<le> 4096"
    using t room assms(2,3) by (simp_all add: dvd_min)
  have t0: "t \<noteq> 0" "r \<noteq> 0" using t_pos(1) assms(3) by auto
  have page: "unat pa div 65536 = (unat pa + unat t - 1) div 65536"
    by (rule same_page [symmetric]) (use t t_pos(1) in simp_all)
  define l where "l = (if r - t = 0 then (t, r - t)
      else if pa AND NOT 0xFFFF \<noteq> (pa + t) AND NOT 0xFFFF then (t, r - t) else prd_loop pa t (pa + t) (r - t))"
  have l: "prd_loop pa 0 pa r = l"
    using t0 by (subst prd_loop.simps) (simp add: t_def [symmetric] l_def Let_def PRD_MAX_BOUNDARY_def)
  show ?thesis
  proof (cases "r - t = 0 \<or> pa AND NOT 0xFFFF \<noteq> (pa + t) AND NOT 0xFFFF")
    case True
    then show ?thesis using l t_pos page by (intro exI [of _ t]) (auto simp: l_def)
  next
    case False
    have rt: "unat (r - t) = unat r - unat t" using t_pos(3) by (simp add: unat_sub word_le_nat_alt)
    have "unat t \<noteq> unat r" using False by (auto simp: word_unat_eq_iff [symmetric])
    then have rt0: "0 < unat (r - t)" "unat t = 4096 - unat pa mod 4096" using rt t t_pos(3) by auto
    have pt: "unat (pa + t) = unat pa + unat t" using assms(4) rt rt0(1) by (simp add: unat_word_ariths)
    have up: "x = 4096 * a + b \<Longrightarrow> b < 4096 \<Longrightarrow> x + (4096 - b) = 4096 * (a + 1)" for x a b :: nat by simp
    have "unat pa + (4096 - unat pa mod 4096) = 4096 * (unat pa div 4096 + 1)" by (rule up) simp_all
    then have q: "4096 dvd unat (pa + t)" unfolding pt rt0(2) by simp
    define u where "u = prd_take pa t (pa + t) (r - t)"
    have "unat (pa + t + t) = (unat (pa + t) + unat t) mod 2 ^ 32" by (subst unat_word_ariths(1)) simp
    moreover have "512 dvd unat (pa + t) + unat t" using assms(1) t_pos(2) by (simp add: pt)
    ultimately have "512 dvd unat (pa + t + t)" by (simp add: dvd_mod)
    moreover have "512 dvd unat (r - t)" using assms(2) t_pos(2) by (simp add: rt dvd_diff_nat)
    ultimately have "512 dvd unat (pa + t + t)" "512 dvd unat (r - t)" by simp_all
    note u = prd_take_second [OF this rt0(1) q, folded u_def]
    have "u \<noteq> 0" using u(1) by auto
    moreover have "pa + (t + u) \<noteq> pa + t + (t + u)" using t0 by simp
    ultimately have loop: "prd_loop pa t (pa + t) (r - t) = (t + u, r - t - u)"
      using False by (subst prd_loop.simps) (simp add: u_def [symmetric] Let_def)
    have tu: "unat (t + u) = unat t + unat u" using t_pos(4) u(2) by (simp add: unat_word_ariths)
    have "unat pa div 65536 = (unat pa + unat (t + u) - 1) div 65536"
    proof -
      have "unat pa div 65536 = unat (pa + t) div 65536" using False by (intro same_64k) simp
      also have "\<dots> = (unat (pa + t) + unat u - 1) div 65536"
        by (rule same_page [symmetric]) (use q u in \<open>simp_all add: dvd_eq_mod_eq_0\<close>)
      finally show ?thesis by (simp add: pt tu add.assoc)
    qed
    then show ?thesis
      using l loop False u t_pos tu rt by (intro exI [of _ "t + u"]) (auto simp: l_def diff_diff_eq)
  qed
qed

section \<open>The region table\<close>

text \<open>The bytes of an entry and of a chunk, and what the bus master expects of an entry.\<close>

definition prd_range :: "ide_prd_entry \<Rightarrow> nat list" where
  "prd_range e = [unat (prd_phys_addr e)..<unat (prd_phys_addr e) + unat (prd_bytes_size e)]"

definition chunk_range :: "stor_request_chunk_entry \<Rightarrow> nat list" where
  "chunk_range c = [unat (pa_buffer c)..<unat (pa_buffer c) + unat (chunk_sectors c) * 512]"

definition prd_ok :: "ide_prd_entry \<Rightarrow> bool" where
  "prd_ok e \<longleftrightarrow> 0 < unat (prd_bytes_size e) \<and> even (unat (prd_phys_addr e)) \<and> even (unat (prd_bytes_size e)) \<and>
     unat (prd_phys_addr e) div 65536 = (unat (prd_phys_addr e) + unat (prd_bytes_size e) - 1) div 65536"

definition chunk_ok :: "stor_request_chunk_entry \<Rightarrow> bool" where
  "chunk_ok c \<longleftrightarrow> 512 dvd unat (pa_buffer c) \<and> unat (chunk_sectors c) < 2 ^ 23 \<and>
     unat (pa_buffer c) + unat (chunk_sectors c) * 512 \<le> 2 ^ 32"

definition dma_ok :: "ide_dma_vars \<Rightarrow> nat \<Rightarrow> bool" where
  "dma_ok dma i \<longleftrightarrow> length (dma_prdt dma) = unat (dma_prdt_capacity dma) \<and> 0 < unat (dma_prdt_capacity dma) \<and>
     i \<le> unat (dma_prdt_capacity dma) \<and> unat (dma_prdt_capacity dma) < 2 ^ 62"

text \<open>What filling in adds behind index \<open>i\<close>: entries that cover the given bytes.\<close>

definition prd_added :: "nat \<Rightarrow> ide_dma_vars \<Rightarrow> nat \<Rightarrow> ide_dma_vars \<Rightarrow> nat list \<Rightarrow> bool" where
  "prd_added i dma j dma' bytes \<longleftrightarrow> i \<le> j \<and> dma_ok dma' j \<and> take i (dma_prdt dma') = take i (dma_prdt dma) \<and>
     (\<forall>e\<in>set (drop i (take j (dma_prdt dma'))). prd_ok e \<and> prd_flags e = 0) \<and>
     concat (map prd_range (drop i (take j (dma_prdt dma')))) = bytes"

lemma prd_added_refl: "dma_ok dma i \<Longrightarrow> prd_added i dma i dma []"
  by (simp add: prd_added_def)

lemma drop_take_split: "i \<le> j \<Longrightarrow> j \<le> k \<Longrightarrow> drop i (take k xs) = drop i (take j xs) @ drop j (take k xs)"
  by (simp add: drop_take) (metis add_diff_inverse_nat diff_add_assoc2 drop_drop le_add_diff_inverse2 linorder_not_le take_add)

lemma prd_added_trans:
  assumes "prd_added i dma j dma' xs" "prd_added j dma' k dma'' ys"
  shows "prd_added i dma k dma'' (xs @ ys)"
proof -
  have ij: "i \<le> j" "j \<le> k" using assms by (simp_all add: prd_added_def)
  have tj: "take j (dma_prdt dma'') = take j (dma_prdt dma')" using assms(2) by (simp add: prd_added_def)
  have "take i (dma_prdt dma'') = take i (take j (dma_prdt dma''))" using ij(1) by (simp add: min_absorb1)
  also have "\<dots> = take i (dma_prdt dma)" using assms(1) ij(1) by (simp add: tj prd_added_def min_absorb1)
  finally show ?thesis
    using assms ij drop_take_split [OF ij, of "dma_prdt dma''"] tj by (auto simp: prd_added_def)
qed

lemma iterate_spec:
  assumes kr: "\<forall>a n. krealloc a n \<noteq> NULL" and dma: "dma_ok dma (unat i)" "unat i < 2 ^ 60"
    and pa: "512 dvd unat pa" "512 dvd unat r" "0 < unat r" "unat pa + unat r \<le> 2 ^ 32"
  shows "\<exists>dma' c. prdt_iterate_chunk_prd krealloc i dma r pa = Inr (dma', r - c, pa + c) \<and>
    prd_added (unat i) dma (unat i + 1) dma' [unat pa..<unat pa + unat c] \<and> 0 < unat c \<and> unat c \<le> unat r \<and> 512 dvd unat c"
proof -
  obtain c where c: "prd_loop pa 0 pa r = (c, r - c)" "0 < unat c" "unat c \<le> unat r" "unat c \<le> 8192" "512 dvd unat c"
      "unat pa div 65536 = (unat pa + unat c - 1) div 65536"
    using prd_loop_spec [OF pa] by blast
  have c16: "unat (ucast c :: u16) = unat c" "c \<noteq> PRD_MAX_BOUNDARY"
    using c(4) by (auto simp: unsigned_ucast_eq take_bit_eq_mod PRD_MAX_BOUNDARY_def)
  define e where "e = \<lparr>prd_phys_addr = pa, prd_bytes_size = ucast c, prd_flags = 0\<rparr>"
  have e: "prd_ok e" "prd_flags e = 0" "prd_range e = [unat pa..<unat pa + unat c]"
    using c pa(1) by (auto simp: prd_ok_def e_def c16 prd_range_def intro: dvd_trans [of 2 512])
  define g where "g = (if dma_prdt_capacity dma \<le> i
      then dma\<lparr>dma_prdt_addr := krealloc (dma_prdt_addr dma) (ucast (8 * (dma_prdt_capacity dma * 2))),
               dma_prdt := take (unat (dma_prdt_capacity dma * 2)) (dma_prdt dma @
                 replicate (unat (dma_prdt_capacity dma * 2)) \<lparr>prd_phys_addr = 0, prd_bytes_size = 0, prd_flags = 0\<rparr>),
               dma_prdt_capacity := dma_prdt_capacity dma * 2\<rparr>
      else dma)"
  have g: "dma_ok g (unat i + 1)" "take (unat i) (dma_prdt g) = take (unat i) (dma_prdt dma)" "unat i < length (dma_prdt g)"
  proof -
    have "dma_ok g (unat i + 1) \<and> take (unat i) (dma_prdt g) = take (unat i) (dma_prdt dma) \<and> unat i < length (dma_prdt g)"
    proof (cases "dma_prdt_capacity dma \<le> i")
      case True
      then have cap: "unat (dma_prdt_capacity dma) = unat i" using dma(1) by (simp add: dma_ok_def word_le_nat_alt)
      then have "unat (dma_prdt_capacity dma * 2) = 2 * unat i" using dma(2) by (simp add: unat_word_ariths)
      then show ?thesis using True cap dma by (simp add: g_def dma_ok_def)
    next
      case False
      then show ?thesis using dma(1) by (simp add: g_def dma_ok_def word_le_nat_alt)
    qed
    then show "dma_ok g (unat i + 1)" "take (unat i) (dma_prdt g) = take (unat i) (dma_prdt dma)" "unat i < length (dma_prdt g)"
      by simp_all
  qed
  have "prdt_iterate_chunk_prd krealloc i dma r pa = Inr (g\<lparr>dma_prdt := (dma_prdt g)[unat i := e]\<rparr>, r - c, pa + c)"
  proof (cases "dma_prdt_capacity dma \<le> i")
    case True
    then have "g = dma\<lparr>dma_prdt_addr := krealloc (dma_prdt_addr dma) (ucast (8 * (dma_prdt_capacity dma * 2))),
               dma_prdt := take (unat (dma_prdt_capacity dma * 2)) (dma_prdt dma @
                 replicate (unat (dma_prdt_capacity dma * 2)) \<lparr>prd_phys_addr = 0, prd_bytes_size = 0, prd_flags = 0\<rparr>),
               dma_prdt_capacity := dma_prdt_capacity dma * 2\<rparr>" unfolding g_def by simp
    then show ?thesis
      using True kr c16(2) g(3) unfolding prdt_iterate_chunk_prd_def Let_def by (simp only: if_True simp_thms kassert_simps kbind_simps) (simp add: c(1) e_def)
  next
    case False
    then have "g = dma" unfolding g_def by simp
    then show ?thesis using False c16(2) g(3) by (simp add: prdt_iterate_chunk_prd_def c(1) e_def Let_def)
  qed
  moreover have "prd_added (unat i) dma (unat i + 1) (g\<lparr>dma_prdt := (dma_prdt g)[unat i := e]\<rparr>) [unat pa..<unat pa + unat c]"
    using g e dma(1) by (simp add: prd_added_def dma_ok_def take_Suc_conv_app_nth)
  ultimately show ?thesis using c by blast
qed

lemma fill_chunk_spec:
  assumes kr: "\<forall>a n. krealloc a n \<noteq> NULL"
  shows "dma_ok dma (unat i) \<Longrightarrow> unat i + unat r < 2 ^ 60 \<Longrightarrow> 512 dvd unat pa \<Longrightarrow> 512 dvd unat r \<Longrightarrow> unat pa + unat r \<le> 2 ^ 32 \<Longrightarrow>
    \<exists>j dma'. fill_chunk krealloc i dma r pa = lret (j, dma') \<and> prd_added (unat i) dma (unat j) dma' [unat pa..<unat pa + unat r] \<and>
      unat j \<le> unat i + unat r \<and> (r \<noteq> 0 \<longrightarrow> unat i < unat j)"
proof (induction "unat r" arbitrary: i dma r pa rule: less_induct)
  case less
  show ?case
  proof (cases "r = 0")
    case True
    then show ?thesis using prd_added_refl [OF less.prems(1)] by (simp add: fill_chunk.simps)
  next
    case False
    then have r: "0 < unat r" by (simp add: unat_gt_0)
    obtain dma1 c where c: "prdt_iterate_chunk_prd krealloc i dma r pa = Inr (dma1, r - c, pa + c)"
        "prd_added (unat i) dma (unat i + 1) dma1 [unat pa..<unat pa + unat c]" "0 < unat c" "unat c \<le> unat r" "512 dvd unat c"
      using iterate_spec [OF kr less.prems(1) _ less.prems(3,4) r less.prems(5)] less.prems(2) by auto
    have rc: "unat (r - c) = unat r - unat c" using c(4) by (simp add: unat_sub word_le_nat_alt)
    have i1: "unat (i + 1) = unat i + 1" using less.prems(2) by (simp add: unat_word_ariths)
    show ?thesis
    proof (cases "r - c = 0")
      case True
      then have "unat c = unat r" using rc c(4) by simp
      then show ?thesis
        using c False i1 r True by (simp add: fill_chunk.simps [of krealloc i] fill_chunk.simps [of krealloc "i + 1"])
    next
      case nz: False
      then have rc0: "0 < unat (r - c)" by (simp add: unat_gt_0)
      have pc: "unat (pa + c) = unat pa + unat c" using less.prems(5) rc rc0 by (simp add: unat_word_ariths)
      have ok1: "dma_ok dma1 (unat (i + 1))" using c(2) by (simp add: prd_added_def i1)
      have lim: "unat (i + 1) + unat (r - c) < 2 ^ 60" using less.prems(2) c(3,4) i1 rc by linarith
      obtain j dma2 where j: "fill_chunk krealloc (i + 1) dma1 (r - c) (pa + c) = lret (j, dma2)"
          "prd_added (unat (i + 1)) dma1 (unat j) dma2 [unat (pa + c)..<unat (pa + c) + unat (r - c)]"
          "unat j \<le> unat (i + 1) + unat (r - c)" "unat (i + 1) < unat j"
        using less.hyps [of "r - c" dma1 "i + 1" "pa + c", OF _ ok1 lim] less.prems(3-5) c(3,4,5) rc rc0 pc nz
        by (auto simp: dvd_diff_nat)
      have "[unat pa..<unat pa + unat c] @ [unat (pa + c)..<unat (pa + c) + unat (r - c)] = [unat pa..<unat pa + unat r]"
        using c(4) upt_add_eq_append [of "unat pa" "unat pa + unat c" "unat r - unat c"] by (simp add: rc pc)
      then have "prd_added (unat i) dma (unat j) dma2 [unat pa..<unat pa + unat r]"
        using prd_added_trans [OF c(2) j(2) [unfolded i1]] by metis
      moreover have "unat j \<le> unat i + unat r" using j(3) i1 rc c(3,4) by linarith
      ultimately show ?thesis using False c(1) j(1,4) i1 by (simp add: fill_chunk.simps [of krealloc i])
    qed
  qed
qed


lemma fill_chunks_spec:
  assumes kr: "\<forall>a n. krealloc a n \<noteq> NULL"
  shows "dma_ok dma (unat i) \<Longrightarrow> list_all chunk_ok chunks \<Longrightarrow> unat i + (\<Sum>c\<leftarrow>chunks. unat (chunk_sectors c)) * 512 < 2 ^ 60 \<Longrightarrow>
    unat n + (\<Sum>c\<leftarrow>chunks. unat (chunk_sectors c)) < 2 ^ 60 \<Longrightarrow>
    \<exists>m j dma'. fill_chunks krealloc n i dma chunks = lret (m, j, dma') \<and> unat m = unat n + (\<Sum>c\<leftarrow>chunks. unat (chunk_sectors c)) \<and>
      prd_added (unat i) dma (unat j) dma' (concat (map chunk_range chunks)) \<and>
      ((\<Sum>c\<leftarrow>chunks. unat (chunk_sectors c)) \<noteq> 0 \<longrightarrow> unat i < unat j)"
proof (induction chunks arbitrary: n i dma)
  case Nil
  then show ?case using prd_added_refl by simp
next
  case (Cons c cs)
  define r where "r = (ucast (chunk_sectors c * ucast SECTOR_SIZE) :: u32)"
  have c: "512 dvd unat (pa_buffer c)" "unat (chunk_sectors c) < 2 ^ 23" "unat (pa_buffer c) + unat (chunk_sectors c) * 512 \<le> 2 ^ 32"
    using Cons.prems(2) by (simp_all add: chunk_ok_def)
  have r: "unat r = unat (chunk_sectors c) * 512"
    using c(2) by (simp add: r_def SECTOR_SIZE_def unsigned_ucast_eq take_bit_eq_mod unat_word_ariths)
  have "unat (pa_buffer c mod SECTOR_SIZE) = unat (0 :: u32)" using c(1) by (simp add: SECTOR_SIZE_def unat_mod_distrib dvd_eq_mod_eq_0)
  then have al: "pa_buffer c mod SECTOR_SIZE = 0" by (simp only: word_unat_eq_iff)
  obtain j dma1 where j: "fill_chunk krealloc i dma r (pa_buffer c) = lret (j, dma1)"
      "prd_added (unat i) dma (unat j) dma1 (chunk_range c)" "unat j \<le> unat i + unat r" "r \<noteq> 0 \<longrightarrow> unat i < unat j"
    using fill_chunk_spec [OF kr Cons.prems(1), of r "pa_buffer c"] Cons.prems(3) c by (auto simp: r chunk_range_def)
  have n: "unat (n + chunk_sectors c) = unat n + unat (chunk_sectors c)" using Cons.prems(4) by (simp add: unat_word_ariths)
  have ok: "dma_ok dma1 (unat j)" "unat i \<le> unat j" using j(2) by (simp_all add: prd_added_def)
  obtain m k dma2 where k: "fill_chunks krealloc (n + chunk_sectors c) j dma1 cs = lret (m, k, dma2)"
      "unat m = unat (n + chunk_sectors c) + (\<Sum>c\<leftarrow>cs. unat (chunk_sectors c))"
      "prd_added (unat j) dma1 (unat k) dma2 (concat (map chunk_range cs))"
      "(\<Sum>c\<leftarrow>cs. unat (chunk_sectors c)) \<noteq> 0 \<longrightarrow> unat j < unat k"
    using Cons.IH [OF ok(1), of "n + chunk_sectors c"] Cons.prems(2-4) j(3) by (auto simp: r n)
  have "unat j \<le> unat k" using k(3) by (simp add: prd_added_def)
  moreover have "r \<noteq> 0 \<longleftrightarrow> unat (chunk_sectors c) \<noteq> 0" using r by (metis mult_eq_0_iff unat_eq_zero zero_neq_numeral)
  ultimately have "(\<Sum>c\<leftarrow>c # cs. unat (chunk_sectors c)) \<noteq> 0 \<longrightarrow> unat i < unat k"
    using j(4) k(4) ok(2) by (cases "r = 0") auto
  moreover have "fill_chunks krealloc n i dma (c # cs) = lret (m, k, dma2)"
    using al j(1) k(1) by (simp add: r_def Let_def)
  ultimately show ?case using prd_added_trans [OF j(2) k(3)] k(2) n by (auto simp: add.assoc)
qed


lemma prd_range_flags [simp]: "prd_range (e\<lparr>prd_flags := f\<rparr>) = prd_range e" "prd_ok (e\<lparr>prd_flags := f\<rparr>) = prd_ok e"
  by (simp_all add: prd_range_def prd_ok_def)

text \<open>
  The region table for a non-empty request with chunks of whole sectors at sector boundaries: the first entries cover exactly
  the bytes of the chunks, in their order; every entry is a non-empty even range inside one block of 64 KiB, as the
  bus master requires, the last one and no other carries the end mark.
\<close>

definition prdt_covers :: "ide_prd_entry list \<Rightarrow> stor_request_chunk_entry list \<Rightarrow> bool" where
  "prdt_covers prdt chunks \<longleftrightarrow> (\<exists>k. Suc k \<le> length prdt \<and> concat (map prd_range (take (Suc k) prdt)) = concat (map chunk_range chunks) \<and>
     list_all prd_ok (take (Suc k) prdt) \<and> (\<forall>i<k. prd_flags (prdt ! i) = 0) \<and> prd_flags (prdt ! k) = PRD_LAST_BIT)"

lemma fill_prdt_spec:
  assumes "\<forall>a n. krealloc a n \<noteq> NULL" "dma_ok (ide_dma s ! channel) 0"
    "ic_dma_io (ide_channels s ! channel)" "list_all chunk_ok chunks" "(\<Sum>c\<leftarrow>chunks. unat (chunk_sectors c)) \<noteq> 0"
    "(\<Sum>c\<leftarrow>chunks. unat (chunk_sectors c)) * 512 < 2 ^ 60"
  shows "\<exists>total dma. unat total = (\<Sum>c\<leftarrow>chunks. unat (chunk_sectors c)) \<and> prdt_covers (dma_prdt dma) chunks \<and>
    fill_prdt krealloc v2p channel chunks s = lret (total, s\<lparr>ide_dma := (ide_dma s)[channel := dma],
      cpu_io := cpu_io s @ [Out32 (ucast (ic_bus_master (ide_channels s ! channel) + ATA_BM_OFF_PRDT)) (v2p (dma_prdt_addr dma))]\<rparr>)"
proof -
  obtain m j dma where f: "fill_chunks krealloc 0 0 (ide_dma s ! channel) chunks = lret (m, j, dma)"
      "unat m = (\<Sum>c\<leftarrow>chunks. unat (chunk_sectors c))"
      "prd_added 0 (ide_dma s ! channel) (unat j) dma (concat (map chunk_range chunks))" "0 < unat j"
    using fill_chunks_spec [OF assms(1), of "ide_dma s ! channel" 0 chunks 0] assms(2,4,5,6) by auto
  define k where "k = unat j - 1"
  have k: "unat j = Suc k" "unat (j - 1) = k" using f(4) by (auto simp: k_def unat_minus_one unat_gt_0)
  have len: "Suc k \<le> length (dma_prdt dma)" using f(3) by (simp add: prd_added_def dma_ok_def k)
  define prdt where "prdt = (dma_prdt dma)[k := (dma_prdt dma ! k)\<lparr>prd_flags := prd_flags (dma_prdt dma ! k) OR PRD_LAST_BIT\<rparr>]"
  have ok: "\<And>i. i < Suc k \<Longrightarrow> prd_ok (dma_prdt dma ! i) \<and> prd_flags (dma_prdt dma ! i) = 0"
    using f(3) len by (auto simp: prd_added_def k set_conv_nth)
  have "concat (map prd_range (take (Suc k) prdt)) = concat (map chunk_range chunks)"
    using f(3) len by (simp add: prd_added_def k prdt_def take_Suc_conv_app_nth)
  moreover have "list_all prd_ok (take (Suc k) prdt)" using ok len by (auto simp: list_all_length prdt_def nth_list_update)
  moreover have "\<forall>i<k. prd_flags (prdt ! i) = 0" "prd_flags (prdt ! k) = PRD_LAST_BIT" "length prdt = length (dma_prdt dma)"
    using ok [of k] ok len by (simp_all add: prdt_def nth_list_update)
  ultimately have "prdt_covers prdt chunks" using len unfolding prdt_covers_def by auto
  moreover have "j > 0" using f(4) by (simp add: word_less_nat_alt)
  then have "fill_prdt krealloc v2p channel chunks s = lret (m, s\<lparr>ide_dma := (ide_dma s)[channel := dma\<lparr>dma_prdt := prdt\<rparr>],
      cpu_io := cpu_io s @ [Out32 (ucast (ic_bus_master (ide_channels s ! channel) + ATA_BM_OFF_PRDT))
        (v2p (dma_prdt_addr (dma\<lparr>dma_prdt := prdt\<rparr>)))]\<rparr>)"
    using assms(3) by (simp add: fill_prdt_def f(1) k Let_def set_prdt_addr_def prdt_def outl_def)
  moreover have "dma_prdt (dma\<lparr>dma_prdt := prdt\<rparr>) = prdt" by simp
  ultimately show ?thesis using f(2) by metis
qed

section \<open>Addressing the drive\<close>

text \<open>
  The bytes that a drive finds in one of its registers (the register keeps the last two), the sector address and count
  that it reads from them, where a count of zero stands for the largest count, and the selected drive.
\<close>

fun port_writes :: "u16 \<Rightarrow> io_event list \<Rightarrow> u8 list" where
  "port_writes p [] = []"
| "port_writes p (Out8 q v # es) = (if q = p then [v] else []) @ port_writes p es"
| "port_writes p (_ # es) = port_writes p es"

definition reg_now :: "u16 \<Rightarrow> u8 \<Rightarrow> io_event list \<Rightarrow> u8" where
  "reg_now base r es = last (port_writes (base + ucast r) es)"

definition reg_previous :: "u16 \<Rightarrow> u8 \<Rightarrow> io_event list \<Rightarrow> u8" where
  "reg_previous base r es = last (butlast (port_writes (base + ucast r) es))"

definition drive_lba28 :: "u16 \<Rightarrow> io_event list \<Rightarrow> u64" where
  "drive_lba28 base es = ucast (reg_now base 3 es) OR push_bit 8 (ucast (reg_now base 4 es)) OR
     push_bit 16 (ucast (reg_now base 5 es)) OR push_bit 24 (ucast (reg_now base 6 es AND 0x0F))"

definition drive_lba48 :: "u16 \<Rightarrow> io_event list \<Rightarrow> u64" where
  "drive_lba48 base es = ucast (reg_now base 3 es) OR push_bit 8 (ucast (reg_now base 4 es)) OR
     push_bit 16 (ucast (reg_now base 5 es)) OR push_bit 24 (ucast (reg_previous base 3 es)) OR
     push_bit 32 (ucast (reg_previous base 4 es)) OR push_bit 40 (ucast (reg_previous base 5 es))"

definition drive_count28 :: "u16 \<Rightarrow> io_event list \<Rightarrow> nat" where
  "drive_count28 base es = (let n = unat (reg_now base 2 es) in if n = 0 then 256 else n)"

definition drive_count48 :: "u16 \<Rightarrow> io_event list \<Rightarrow> nat" where
  "drive_count48 base es = (let n = unat (reg_now base 2 es) + 256 * unat (reg_previous base 2 es) in if n = 0 then 65536 else n)"

definition drive_is_slave :: "u16 \<Rightarrow> io_event list \<Rightarrow> bool" where
  "drive_is_slave base es = bit (reg_now base 6 es) 4"

lemma port_writes_append [simp]: "port_writes p (es @ fs) = port_writes p es @ port_writes p fs"
  by (induction es rule: port_writes.induct) simp_all

lemma bit_lba_byte:
  "k \<le> 56 \<Longrightarrow> bit (push_bit k (ucast (ucast (drop_bit k (lba :: u64) AND 0xFF) :: u8)) :: u64) n \<longleftrightarrow> k \<le> n \<and> n < k + 8 \<and> bit lba n"
  unfolding and_bytes by (cases "k \<le> n") (auto simp: bit_simps)

lemma bit_lba_byte32:
  "k \<le> 24 \<Longrightarrow> bit (push_bit k (ucast (ucast (drop_bit k (ucast (lba :: u64) :: u32) AND 0xFF) :: u8)) :: u64) n \<longleftrightarrow>
     k \<le> n \<and> n < k + 8 \<and> bit lba n"
  unfolding and_bytes by (cases "k \<le> n") (auto simp: bit_simps)

lemma bit_lba_nibble:
  "k \<le> 28 \<Longrightarrow> bit (push_bit k (ucast (ucast (drop_bit k (ucast (lba :: u64) :: u32) AND 0xF) AND 0xF :: u8)) :: u64) n \<longleftrightarrow>
     k \<le> n \<and> n < k + 4 \<and> bit lba n"
  unfolding and_bytes by (cases "k \<le> n") (auto simp: bit_simps)

definition is_part :: "nat \<Rightarrow> nat \<Rightarrow> u64 \<Rightarrow> u64 \<Rightarrow> bool" where
  "is_part k m x b \<longleftrightarrow> (\<forall>n. bit b n \<longleftrightarrow> k \<le> n \<and> n < m \<and> bit x n)"

lemma is_part_or: "is_part k m x b \<Longrightarrow> is_part m l x c \<Longrightarrow> k \<le> m \<Longrightarrow> m \<le> l \<Longrightarrow> is_part k l x (b OR c)"
  unfolding is_part_def bit_or_iff by (metis dual_order.strict_trans1 linorder_not_le order_less_le_trans order_trans)

lemma is_part_all: "is_part 0 m x b \<Longrightarrow> unat x < 2 ^ m \<Longrightarrow> b = x"
  unfolding is_part_def by (rule bit_word_eqI) (auto dest: small_bit)

lemma is_part_byte: "k \<le> 56 \<Longrightarrow> m = k + 8 \<Longrightarrow> is_part k m x (push_bit k (ucast (ucast (drop_bit k x AND 0xFF) :: u8)))"
  unfolding is_part_def using bit_lba_byte by blast

lemma is_part_byte32:
  "k \<le> 24 \<Longrightarrow> m = k + 8 \<Longrightarrow> is_part k m x (push_bit k (ucast (ucast (drop_bit k (ucast x :: u32) AND 0xFF) :: u8)))"
  unfolding is_part_def using bit_lba_byte32 by blast

lemma is_part_nibble:
  "k \<le> 28 \<Longrightarrow> m = k + 4 \<Longrightarrow> is_part k m x (push_bit k (ucast (ucast (drop_bit k (ucast x :: u32) AND 0xF) AND 0xF :: u8)))"
  unfolding is_part_def using bit_lba_nibble by blast

lemma lba48_bytes:
  assumes "unat (lba :: u64) < 2 ^ 48"
  shows "ucast (ucast (lba AND 0xFF) :: u8) OR (push_bit 8 (ucast (ucast (drop_bit 8 lba AND 0xFF) :: u8)) OR
     (push_bit 16 (ucast (ucast (drop_bit 16 lba AND 0xFF) :: u8)) OR (push_bit 24 (ucast (ucast (drop_bit 24 lba AND 0xFF) :: u8)) OR
     (push_bit 32 (ucast (ucast (drop_bit 32 lba AND 0xFF) :: u8)) OR push_bit 40 (ucast (ucast (drop_bit 40 lba AND 0xFF) :: u8)))))) = lba"
proof (rule is_part_all [OF _ assms])
  have 0: "is_part 0 8 lba (ucast (ucast (lba AND 0xFF) :: u8))" using is_part_byte [of 0 8 lba] by simp
  show "is_part 0 48 lba (ucast (ucast (lba AND 0xFF) :: u8) OR (push_bit 8 (ucast (ucast (drop_bit 8 lba AND 0xFF) :: u8)) OR
     (push_bit 16 (ucast (ucast (drop_bit 16 lba AND 0xFF) :: u8)) OR (push_bit 24 (ucast (ucast (drop_bit 24 lba AND 0xFF) :: u8)) OR
     (push_bit 32 (ucast (ucast (drop_bit 32 lba AND 0xFF) :: u8)) OR push_bit 40 (ucast (ucast (drop_bit 40 lba AND 0xFF) :: u8)))))))"
    by (rule is_part_or [OF 0 is_part_or [OF is_part_byte [of 8 16] is_part_or [OF is_part_byte [of 16 24]
      is_part_or [OF is_part_byte [of 24 32] is_part_or [OF is_part_byte [of 32 40] is_part_byte [of 40 48]]]]]]) simp_all
qed

lemma lba28_bytes:
  assumes "unat (lba :: u64) < 2 ^ 28"
  shows "ucast (ucast ((ucast lba :: u32) AND 0xFF) :: u8) OR (push_bit 8 (ucast (ucast (drop_bit 8 (ucast lba :: u32) AND 0xFF) :: u8)) OR
     (push_bit 16 (ucast (ucast (drop_bit 16 (ucast lba :: u32) AND 0xFF) :: u8)) OR
     push_bit 24 (ucast (ucast (drop_bit 24 (ucast lba :: u32) AND 0xF) AND 0xF :: u8)))) = lba"
proof (rule is_part_all [OF _ assms])
  have 0: "is_part 0 8 lba (ucast (ucast ((ucast lba :: u32) AND 0xFF) :: u8))" using is_part_byte32 [of 0 8 lba] by simp
  show "is_part 0 28 lba (ucast (ucast ((ucast lba :: u32) AND 0xFF) :: u8) OR (push_bit 8 (ucast (ucast (drop_bit 8 (ucast lba :: u32) AND 0xFF) :: u8)) OR
     (push_bit 16 (ucast (ucast (drop_bit 16 (ucast lba :: u32) AND 0xFF) :: u8)) OR
     push_bit 24 (ucast (ucast (drop_bit 24 (ucast lba :: u32) AND 0xF) AND 0xF :: u8)))))"
    by (rule is_part_or [OF 0 is_part_or [OF is_part_byte32 [of 8 16] is_part_or [OF is_part_byte32 [of 16 24]
      is_part_nibble [of 24 28]]]]) simp_all
qed


definition ports_apart :: "u16 \<Rightarrow> u32 \<Rightarrow> bool" where
  "ports_apart base bm = list_all (\<lambda>r. base + r \<noteq> 0x80 \<and> base + r \<noteq> ucast (bm + ATA_BM_OFF_CMD) \<and> base + r \<noteq> ucast (bm + ATA_BM_OFF_STATUS))
     [2, 3, 4, 5, 6, 7]"

definition sel_value :: "bool \<Rightarrow> u8 \<Rightarrow> u8" where
  "sel_value slave high = 0xE0 OR (if slave then 0x10 else 0x00) OR (high AND 0x0F)"

definition issue48 where
  "issue48 base bm sel n1 l3 l4 l5 n0 l0 l1 l2 cmd bm_cmd =
     [Out8 (ucast (bm + ATA_BM_OFF_STATUS)) 3, Out8 (base + 6) sel, Out8 0x80 0, Out8 0x80 0,
      Out8 (base + 2) n1, Out8 (base + 3) l3, Out8 (base + 4) l4, Out8 (base + 5) l5,
      Out8 (base + 2) n0, Out8 (base + 3) l0, Out8 (base + 4) l1, Out8 (base + 5) l2,
      Out8 (base + 7) cmd, Out8 (ucast (bm + ATA_BM_OFF_CMD)) bm_cmd]"

definition issue28 where
  "issue28 base bm sel n l0 l1 l2 cmd bm_cmd =
     [Out8 (ucast (bm + ATA_BM_OFF_STATUS)) 3, Out8 (base + 2) 0, Out8 (base + 6) sel, Out8 0x80 0, Out8 0x80 0,
      Out8 (base + 2) n, Out8 (base + 3) l0, Out8 (base + 4) l1, Out8 (base + 5) l2,
      Out8 (base + 7) cmd, Out8 (ucast (bm + ATA_BM_OFF_CMD)) bm_cmd]"

lemma issue48_decode:
  assumes "ports_apart base bm"
  shows "drive_lba48 base (issue48 base bm sel n1 l3 l4 l5 n0 l0 l1 l2 cmd bm_cmd) =
      ucast l0 OR push_bit 8 (ucast l1) OR push_bit 16 (ucast l2) OR push_bit 24 (ucast l3) OR push_bit 32 (ucast l4) OR push_bit 40 (ucast l5)"
    "drive_count48 base (issue48 base bm sel n1 l3 l4 l5 n0 l0 l1 l2 cmd bm_cmd) =
      (let m = unat n0 + 256 * unat n1 in if m = 0 then 65536 else m)"
    "drive_is_slave base (issue48 base bm sel n1 l3 l4 l5 n0 l0 l1 l2 cmd bm_cmd) = bit sel 4"
    "port_writes (base + 7) (issue48 base bm sel n1 l3 l4 l5 n0 l0 l1 l2 cmd bm_cmd) = [cmd]"
    "last (issue48 base bm sel n1 l3 l4 l5 n0 l0 l1 l2 cmd bm_cmd) = Out8 (ucast (bm + ATA_BM_OFF_CMD)) bm_cmd"
  using assms by (auto simp: ports_apart_def issue48_def drive_lba48_def drive_count48_def drive_is_slave_def reg_now_def reg_previous_def)

lemma issue28_decode:
  assumes "ports_apart base bm"
  shows "drive_lba28 base (issue28 base bm sel n l0 l1 l2 cmd bm_cmd) =
      ucast l0 OR push_bit 8 (ucast l1) OR push_bit 16 (ucast l2) OR push_bit 24 (ucast (sel AND 0x0F))"
    "drive_count28 base (issue28 base bm sel n l0 l1 l2 cmd bm_cmd) = (let m = unat n in if m = 0 then 256 else m)"
    "drive_is_slave base (issue28 base bm sel n l0 l1 l2 cmd bm_cmd) = bit sel 4"
    "port_writes (base + 7) (issue28 base bm sel n l0 l1 l2 cmd bm_cmd) = [cmd]"
    "last (issue28 base bm sel n l0 l1 l2 cmd bm_cmd) = Out8 (ucast (bm + ATA_BM_OFF_CMD)) bm_cmd"
  using assms by (auto simp: ports_apart_def issue28_def drive_lba28_def drive_count28_def drive_is_slave_def reg_now_def)

lemma ide_issue48_events:
  assumes "ic_dma_io (ide_channels s ! channel)" "id_size_type (ide_devices s ! device) = IDE_SIZE_LBA48"
  shows "ide_issue device channel lba n cmd_ext cmd28 bm_cmd s = Inr (s\<lparr>cpu_io := cpu_io s @
    issue48 (ic_base (ide_channels s ! channel)) (ic_bus_master (ide_channels s ! channel))
      (sel_value (id_slave (ide_devices s ! device)) (ucast (drop_bit 24 lba AND 0xF)))
      (ucast (drop_bit 8 (ucast n :: u16) AND 0xFF)) (ucast (drop_bit 24 lba AND 0xFF)) (ucast (drop_bit 32 lba AND 0xFF))
      (ucast (drop_bit 40 lba AND 0xFF)) (ucast ((ucast n :: u16) AND 0xFF)) (ucast (lba AND 0xFF))
      (ucast (drop_bit 8 lba AND 0xFF)) (ucast (drop_bit 16 lba AND 0xFF)) cmd_ext bm_cmd\<rparr>)"
  using assms
  by (simp add: issue48_def ide_issue_def send_bm_status_def send_bm_cmd_def ide_set_lba48_def ide_select_def ide_send_cmd_def ide_cmd_outb_def
      outb_def io_wait_def Let_def sel_value_def REG_OFF_SECCOUNT0_def REG_OFF_LBA0_def REG_OFF_LBA1_def REG_OFF_LBA2_def
      REG_OFF_HDDEVSEL_def REG_OFF_COMMAND_def ATA_BM_STATUS_IRQ_def ATA_BM_STATUS_ERR_def)

lemma ide_issue28_events:
  assumes "ic_dma_io (ide_channels s ! channel)" "id_size_type (ide_devices s ! device) = IDE_SIZE_LBA28"
  shows "ide_issue device channel lba n cmd_ext cmd28 bm_cmd s = Inr (s\<lparr>cpu_io := cpu_io s @
    issue28 (ic_base (ide_channels s ! channel)) (ic_bus_master (ide_channels s ! channel))
      (sel_value (id_slave (ide_devices s ! device)) (ucast (drop_bit 24 (ucast lba :: u32) AND 0xF)))
      (ucast n) (ucast ((ucast lba :: u32) AND 0xFF)) (ucast (drop_bit 8 (ucast lba :: u32) AND 0xFF))
      (ucast (drop_bit 16 (ucast lba :: u32) AND 0xFF)) cmd28 bm_cmd\<rparr>)"
  using assms
  by (simp add: issue28_def ide_issue_def send_bm_status_def send_bm_cmd_def ide_set_lba28_def ide_select_def ide_send_cmd_def ide_cmd_outb_def
      outb_def io_wait_def Let_def sel_value_def REG_OFF_SECCOUNT0_def REG_OFF_LBA0_def REG_OFF_LBA1_def REG_OFF_LBA2_def
      REG_OFF_HDDEVSEL_def REG_OFF_COMMAND_def ATA_BM_STATUS_IRQ_def ATA_BM_STATUS_ERR_def IDE_SIZE_LBA28_def IDE_SIZE_LBA48_def)

lemma sel_value_bits: "bit (sel_value slave h) 4 = slave" "sel_value slave h AND 0xF = h AND 0xF"
  unfolding sel_value_def and_bytes by (simp_all add: bit_simps take_bit_or)

lemma count_bytes:
  assumes "0 < unat (n :: u64)" "unat n \<le> 65536"
  shows "(let m = unat (ucast ((ucast n :: u16) AND 0xFF) :: u8) + 256 * unat (ucast (drop_bit 8 (ucast n :: u16) AND 0xFF) :: u8)
    in if m = 0 then 65536 else m) = unat n"
proof -
  have "unat (ucast ((ucast n :: u16) AND 0xFF) :: u8) = unat n mod 65536 mod 256"
    unfolding and_bytes by (simp add: unsigned_ucast_eq unsigned_take_bit_eq take_bit_eq_mod unat_mod_distrib)
  moreover have "unat (ucast (drop_bit 8 (ucast n :: u16) AND 0xFF) :: u8) = unat n mod 65536 div 256"
    unfolding and_bytes by (simp add: unsigned_ucast_eq unsigned_take_bit_eq take_bit_eq_mod unat_mod_distrib unat_div_distrib drop_bit_eq_div)
  ultimately show ?thesis using assms by (auto simp: Let_def le_less)
qed


lemma count28_byte: "0 < unat (n :: u64) \<Longrightarrow> unat n \<le> 256 \<Longrightarrow> (let m = unat (ucast n :: u8) in if m = 0 then 256 else m) = unat n"
  by (auto simp: Let_def le_less unsigned_ucast_eq take_bit_eq_mod)

definition drive_lba :: "u8 \<Rightarrow> u16 \<Rightarrow> io_event list \<Rightarrow> u64" where
  "drive_lba size_type base es = (if size_type = IDE_SIZE_LBA48 then drive_lba48 base es else drive_lba28 base es)"

definition drive_count :: "u8 \<Rightarrow> u16 \<Rightarrow> io_event list \<Rightarrow> nat" where
  "drive_count size_type base es = (if size_type = IDE_SIZE_LBA48 then drive_count48 base es else drive_count28 base es)"

definition fits_drive :: "u8 \<Rightarrow> u64 \<Rightarrow> nat \<Rightarrow> bool" where
  "fits_drive size_type lba n \<longleftrightarrow> 0 < n \<and>
     (size_type = IDE_SIZE_LBA48 \<and> unat lba < 2 ^ 48 \<and> n \<le> 65536 \<or> size_type = IDE_SIZE_LBA28 \<and> unat lba < 2 ^ 28 \<and> n \<le> 256)"

lemma fits_drive_bounds: "fits_drive t lba n \<Longrightarrow> n \<noteq> 0 \<and> n * 512 < 2 ^ 60"
  by (auto simp: fits_drive_def)

lemma ide_issue_programs:
  assumes io: "ic_dma_io (ide_channels s ! channel)" and fit: "fits_drive (id_size_type (ide_devices s ! device)) lba (unat n)"
    and ap: "ports_apart (ic_base (ide_channels s ! channel)) (ic_bus_master (ide_channels s ! channel))"
  shows "\<exists>es. ide_issue device channel lba n cmd_ext cmd28 bm_cmd s = Inr (s\<lparr>cpu_io := cpu_io s @ es\<rparr>) \<and>
    drive_lba (id_size_type (ide_devices s ! device)) (ic_base (ide_channels s ! channel)) es = lba \<and>
    drive_count (id_size_type (ide_devices s ! device)) (ic_base (ide_channels s ! channel)) es = unat n \<and>
    drive_is_slave (ic_base (ide_channels s ! channel)) es = id_slave (ide_devices s ! device) \<and>
    port_writes (ic_base (ide_channels s ! channel) + 7) es =
      [if id_size_type (ide_devices s ! device) = IDE_SIZE_LBA48 then cmd_ext else cmd28] \<and>
    last es = Out8 (ucast (ic_bus_master (ide_channels s ! channel) + ATA_BM_OFF_CMD)) bm_cmd"
proof (cases "id_size_type (ide_devices s ! device) = IDE_SIZE_LBA48")
  case True
  then have b: "unat lba < 2 ^ 48" "0 < unat n" "unat n \<le> 65536" using fit by (auto simp: fits_drive_def IDE_SIZE_LBA48_def IDE_SIZE_LBA28_def)
  show ?thesis
    by (rule exI, rule conjI, rule ide_issue48_events [OF io True], intro conjI)
      (simp_all only: True simp_thms drive_lba_def drive_count_def if_True issue48_decode [OF ap] lba48_bytes [OF b(1)] count_bytes [OF b(2,3)] sel_value_bits)
next
  case False
  then have ty: "id_size_type (ide_devices s ! device) = IDE_SIZE_LBA28" and b: "unat lba < 2 ^ 28" "0 < unat n" "unat n \<le> 256"
    using fit by (auto simp: fits_drive_def)
  show ?thesis
    by (rule exI, rule conjI, rule ide_issue28_events [OF io ty], intro conjI)
      (simp_all only: False simp_thms drive_lba_def drive_count_def if_False issue28_decode [OF ap] lba28_bytes [OF b(1)] count28_byte [OF b(2,3)] sel_value_bits)
qed


lemma fill_prdt_frame:
  assumes "fill_prdt krealloc v2p channel chunks s = lret (n, s')"
  shows "\<exists>dma es. s' = s\<lparr>ide_dma := (ide_dma s)[channel := dma], cpu_io := cpu_io s @ es\<rparr> \<and>
      set es \<subseteq> range (Out32 (ucast (ic_bus_master (ide_channels s ! channel) + ATA_BM_OFF_PRDT)))"
proof -
  obtain m j dma where f: "fill_chunks krealloc 0 0 (ide_dma s ! channel) chunks = lret (m, j, dma)"
    using assms unfolding fill_prdt_def lbind_ret_iff by auto
  show ?thesis
  proof (cases "j > 0")
    case True
    then show ?thesis
      using assms
      by (auto simp: fill_prdt_def f Let_def set_prdt_addr_def outl_def split: if_splits intro!: exI [of _ "[Out32 x y]" for x y])
  next
    case False
    then show ?thesis using assms by (auto simp: fill_prdt_def f intro!: exI [of _ dma] exI [of _ "[]"])
  qed
qed

lemma ide_read_spec:
  assumes "\<forall>a n. krealloc a n \<noteq> NULL" "channel = unat (id_channel (ide_devices s ! device))" "channel < length (ide_dma s)"
    "dma_ok (ide_dma s ! channel) 0" "ic_dma_io (ide_channels s ! channel)" "ic_has_dma (ide_channels s ! channel)"
    "list_all chunk_ok chunks"
    "fits_drive (id_size_type (ide_devices s ! device)) lba (\<Sum>c\<leftarrow>chunks. unat (chunk_sectors c))"
    "ports_apart (ic_base (ide_channels s ! channel)) (ic_bus_master (ide_channels s ! channel))"
  shows "\<exists>s' es. ide_read_sectors_async krealloc v2p device lba chunks s = lret s' \<and>
    cpu_io s' = cpu_io s @ Out32 (ucast (ic_bus_master (ide_channels s ! channel) + ATA_BM_OFF_PRDT))
      (v2p (dma_prdt_addr (ide_dma s' ! channel))) # es \<and>
    prdt_covers (dma_prdt (ide_dma s' ! channel)) chunks \<and>
    drive_lba (id_size_type (ide_devices s ! device)) (ic_base (ide_channels s ! channel)) es = lba \<and>
    drive_count (id_size_type (ide_devices s ! device)) (ic_base (ide_channels s ! channel)) es = (\<Sum>c\<leftarrow>chunks. unat (chunk_sectors c)) \<and>
    drive_is_slave (ic_base (ide_channels s ! channel)) es = id_slave (ide_devices s ! device) \<and>
    port_writes (ic_base (ide_channels s ! channel) + 7) es =
      [if id_size_type (ide_devices s ! device) = IDE_SIZE_LBA48 then ATA_CMD_READ_DMA_EXT else ATA_CMD_READ_DMA] \<and>
    last es = Out8 (ucast (ic_bus_master (ide_channels s ! channel) + ATA_BM_OFF_CMD)) (ATA_BM_CMD_READ OR ATA_BM_CMD_START)"
proof -
  define b :: u16 where "b = ucast (ic_bus_master (ide_channels s ! channel) + ATA_BM_OFF_PRDT)"
  have n: "(\<Sum>c\<leftarrow>chunks. unat (chunk_sectors c)) \<noteq> 0" "(\<Sum>c\<leftarrow>chunks. unat (chunk_sectors c)) * 512 < 2 ^ 60"
    using fits_drive_bounds [OF assms(8)] by simp_all
  obtain m dma where f: "unat m = (\<Sum>c\<leftarrow>chunks. unat (chunk_sectors c))" "prdt_covers (dma_prdt dma) chunks"
      "fill_prdt krealloc v2p channel chunks s =
         lret (m, s\<lparr>ide_dma := (ide_dma s)[channel := dma], cpu_io := cpu_io s @ [Out32 b (v2p (dma_prdt_addr dma))]\<rparr>)"
    using fill_prdt_spec [OF assms(1,4,5,7) n] unfolding b_def by metis
  define s1 where "s1 = s\<lparr>ide_dma := (ide_dma s)[channel := dma], cpu_io := cpu_io s @ [Out32 b (v2p (dma_prdt_addr dma))]\<rparr>"
  have s1: "ide_channels s1 = ide_channels s" "ide_devices s1 = ide_devices s" by (simp_all add: s1_def)
  obtain es where es: "ide_issue device channel lba m ATA_CMD_READ_DMA_EXT ATA_CMD_READ_DMA (ATA_BM_CMD_READ OR ATA_BM_CMD_START) s1 =
        Inr (s1\<lparr>cpu_io := cpu_io s1 @ es\<rparr>)"
      "drive_lba (id_size_type (ide_devices s ! device)) (ic_base (ide_channels s ! channel)) es = lba"
      "drive_count (id_size_type (ide_devices s ! device)) (ic_base (ide_channels s ! channel)) es = unat m"
      "drive_is_slave (ic_base (ide_channels s ! channel)) es = id_slave (ide_devices s ! device)"
      "port_writes (ic_base (ide_channels s ! channel) + 7) es =
        [if id_size_type (ide_devices s ! device) = IDE_SIZE_LBA48 then ATA_CMD_READ_DMA_EXT else ATA_CMD_READ_DMA]"
      "last es = Out8 (ucast (ic_bus_master (ide_channels s ! channel) + ATA_BM_OFF_CMD)) (ATA_BM_CMD_READ OR ATA_BM_CMD_START)"
    using ide_issue_programs [of s1 channel device lba m] assms(5,8,9) unfolding s1 f(1) by metis
  have "ide_read_sectors_async krealloc v2p device lba chunks s = lret (s1\<lparr>cpu_io := cpu_io s1 @ es\<rparr>)"
    using assms(2,6) f(3) es(1) by (simp add: ide_read_sectors_async_def Let_def s1_def)
  then show ?thesis
    by (intro exI conjI, assumption) (use f es assms(3) in \<open>simp_all add: s1_def b_def\<close>)
qed


text \<open>A machine with both drives of the primary channel and the second channel, and a request of three chunks.\<close>

definition demo_channel :: "u16 \<Rightarrow> u32 \<Rightarrow> ide_channel" where
  "demo_channel base bm = \<lparr>ic_base = base, ic_ctrl = base + 0x206, ic_bus_master = bm, ic_has_dma = True, ic_dma_io = True,
     ic_irq = 0x2E, ic_pic_enabled = True\<rparr>"

definition demo_drive :: "u8 \<Rightarrow> bool \<Rightarrow> u8 \<Rightarrow> ide_device" where
  "demo_drive channel slave size_type = \<lparr>id_present = True, id_slave = slave, id_size_type = size_type, id_cylinders = 0, id_heads = 0,
     id_sectors = 0, id_supports_dma = True, id_channel = channel, id_type = 0, id_signature = 0, id_features = 0,
     id_command_sets = 0, id_size = 0x100000, id_model = [], id_external_dev_id = 0\<rparr>"

definition demo_ide :: ide_vars where
  "demo_ide = \<lparr>cpu_io = [], cpu_eflags = 0x200, pic_master_base = 0x20, pic_slave_base = 0x28, ide_channels = [demo_channel 0x1F0 0xC000, demo_channel 0x170 0xC008],
     ide_dma = replicate 2 \<lparr>dma_prdt_addr = 0x8000, dma_prdt = replicate 8 \<lparr>prd_phys_addr = 0, prd_bytes_size = 0, prd_flags = 0\<rparr>,
       dma_prdt_capacity = 8\<rparr>,
     ide_queue = replicate 2 \<lparr>q_head = NULL, q_tail = NULL\<rparr>,
     ide_devices = [demo_drive 0 False IDE_SIZE_LBA48, demo_drive 0 True IDE_SIZE_LBA28, demo_drive 1 False IDE_SIZE_LBA48,
       demo_drive 1 True IDE_SIZE_LBA28], ide_items = Map.empty\<rparr>"

definition demo_chunks :: "stor_request_chunk_entry list" where
  "demo_chunks = [\<lparr>pa_buffer = 0x10FE00, chunk_sectors = 4\<rparr>, \<lparr>pa_buffer = 0x200000, chunk_sectors = 200\<rparr>, \<lparr>pa_buffer = 0x1200, chunk_sectors = 1\<rparr>]"

lemmas demo_defs = demo_ide_def demo_chunks_def demo_channel_def demo_drive_def

text \<open>C13. A request to read sectors that fit the drive is carried out: the region table covers the chunks and its address is given to
  the bus master, then the drive finds the wanted sector address, sector count, drive and one read command in its
  registers, and the transfer is started last.
\<close>

theorem ide_read_programs_drive:
  assumes "\<forall>a n. krealloc a n \<noteq> NULL" "channel = unat (id_channel (ide_devices s ! device))" "channel < length (ide_dma s)"
    "dma_ok (ide_dma s ! channel) 0" "ic_dma_io (ide_channels s ! channel)" "ic_has_dma (ide_channels s ! channel)"
    "list_all chunk_ok chunks"
    "fits_drive (id_size_type (ide_devices s ! device)) lba (\<Sum>c\<leftarrow>chunks. unat (chunk_sectors c))"
    "ports_apart (ic_base (ide_channels s ! channel)) (ic_bus_master (ide_channels s ! channel))"
  shows "\<exists>s' es. ide_read_sectors_async krealloc v2p device lba chunks s = lret s' \<and>
    cpu_io s' = cpu_io s @ Out32 (ucast (ic_bus_master (ide_channels s ! channel) + ATA_BM_OFF_PRDT))
      (v2p (dma_prdt_addr (ide_dma s' ! channel))) # es \<and>
    prdt_covers (dma_prdt (ide_dma s' ! channel)) chunks \<and>
    drive_lba (id_size_type (ide_devices s ! device)) (ic_base (ide_channels s ! channel)) es = lba \<and>
    drive_count (id_size_type (ide_devices s ! device)) (ic_base (ide_channels s ! channel)) es = (\<Sum>c\<leftarrow>chunks. unat (chunk_sectors c)) \<and>
    drive_is_slave (ic_base (ide_channels s ! channel)) es = id_slave (ide_devices s ! device) \<and>
    port_writes (ic_base (ide_channels s ! channel) + 7) es =
      [if id_size_type (ide_devices s ! device) = IDE_SIZE_LBA48 then ATA_CMD_READ_DMA_EXT else ATA_CMD_READ_DMA] \<and>
    last es = Out8 (ucast (ic_bus_master (ide_channels s ! channel) + ATA_BM_OFF_CMD)) (ATA_BM_CMD_READ OR ATA_BM_CMD_START)"
  using assms by (rule ide_read_spec)

theorem ide_read_programs_drive_witness:
  "\<exists>s' es. ide_read_sectors_async (\<lambda>a n. 0x9000) (\<lambda>a. a - 0x1000) 0 0x123456789A demo_chunks demo_ide = lret s' \<and>
    prdt_covers (dma_prdt (ide_dma s' ! 0)) demo_chunks \<and> drive_lba IDE_SIZE_LBA48 0x1F0 es = 0x123456789A \<and>
    drive_count IDE_SIZE_LBA48 0x1F0 es = 205 \<and> cpu_io s' = Out32 0xC004 (dma_prdt_addr (ide_dma s' ! 0) - 0x1000) # es"
proof -
  from ide_read_programs_drive [where krealloc = "\<lambda>a n. 0x9000" and channel = 0 and s = demo_ide and device = 0 and chunks = demo_chunks and
    lba = "0x123456789A" and v2p = "\<lambda>a. a - 0x1000"]
  show ?thesis
    by (auto simp: demo_defs dma_ok_def chunk_ok_def fits_drive_def ports_apart_def ide_consts)
qed


section \<open>Drives of the second channel\<close>

fun io_port :: "io_event \<Rightarrow> u16" where
  "io_port (Out8 p v) = p"
| "io_port (Out16 p v) = p"
| "io_port (Out32 p v) = p"
| "io_port (In8 p v) = p"
| "io_port (In16 p v) = p"
| "io_port (In32 p v) = p"

definition channel_ports :: "ide_channel \<Rightarrow> u16 set" where
  "channel_ports ch = (\<lambda>r. ic_base ch + r) ` {2, 3, 4, 5, 6, 7} \<union>
     (\<lambda>r. ucast (ic_bus_master ch + r)) ` {ATA_BM_OFF_CMD, ATA_BM_OFF_STATUS, ATA_BM_OFF_PRDT}"

lemma ide_issue_ports:
  assumes "ide_issue device channel lba n cmd_ext cmd28 bm_cmd s = Inr s'"
  shows "\<exists>es. s' = s\<lparr>cpu_io := cpu_io s @ es\<rparr> \<and> io_port ` set es \<subseteq> insert 0x80 (channel_ports (ide_channels s ! channel))"
proof -
  have io: "ic_dma_io (ide_channels s ! channel)" using assms by (auto simp: ide_issue_def send_bm_status_def split: if_splits)
  moreover have "id_size_type (ide_devices s ! device) = IDE_SIZE_LBA48 \<or> id_size_type (ide_devices s ! device) = IDE_SIZE_LBA28"
    using assms io by (auto simp: ide_issue_def send_bm_status_def outb_def Let_def split: if_splits)
  ultimately consider "ic_dma_io (ide_channels s ! channel)" "id_size_type (ide_devices s ! device) = IDE_SIZE_LBA48"
    | "ic_dma_io (ide_channels s ! channel)" "id_size_type (ide_devices s ! device) = IDE_SIZE_LBA28" by blast
  then show ?thesis
  proof cases
    case 1
    show ?thesis
      using assms [unfolded ide_issue48_events [OF 1] sum.inject, symmetric]
      by (intro exI conjI, assumption) (auto simp: issue48_def channel_ports_def)
  next
    case 2
    show ?thesis
      using assms [unfolded ide_issue28_events [OF 2] sum.inject, symmetric]
      by (intro exI conjI, assumption) (auto simp: issue28_def channel_ports_def)
  qed
qed

lemma ide_read_ports:
  assumes "ide_read_sectors_async krealloc v2p device lba chunks s = lret s'" "channel = unat (id_channel (ide_devices s ! device))"
  shows "\<exists>es dma. s' = s\<lparr>ide_dma := (ide_dma s)[channel := dma], cpu_io := cpu_io s @ es\<rparr> \<and>
    io_port ` set es \<subseteq> insert 0x80 (channel_ports (ide_channels s ! channel))"
proof -
  obtain n s1 where f: "fill_prdt krealloc v2p channel chunks s = lret (n, s1)"
      "ide_issue device channel lba n ATA_CMD_READ_DMA_EXT ATA_CMD_READ_DMA (ATA_BM_CMD_READ OR ATA_BM_CMD_START) s1 = Inr s'"
    using assms by (auto simp: ide_read_sectors_async_def Let_def lbind_ret_iff split: if_splits)
  obtain dma es1 where 1: "s1 = s\<lparr>ide_dma := (ide_dma s)[channel := dma], cpu_io := cpu_io s @ es1\<rparr>"
      "set es1 \<subseteq> range (Out32 (ucast (ic_bus_master (ide_channels s ! channel) + ATA_BM_OFF_PRDT)))"
    using fill_prdt_frame [OF f(1)] by blast
  obtain es2 where 2: "s' = s1\<lparr>cpu_io := cpu_io s1 @ es2\<rparr>" "io_port ` set es2 \<subseteq> insert 0x80 (channel_ports (ide_channels s1 ! channel))"
    using ide_issue_ports [OF f(2)] by blast
  have "io_port ` set (es1 @ es2) \<subseteq> insert 0x80 (channel_ports (ide_channels s ! channel))"
    using 1 2 by (auto simp: channel_ports_def image_subset_iff)
  moreover have "s' = s\<lparr>ide_dma := (ide_dma s)[channel := dma], cpu_io := cpu_io s @ (es1 @ es2)\<rparr>" using 1(1) 2(1) by simp
  ultimately show ?thesis by blast
qed

text \<open>
  \<^verbatim>\<open>make_request\<close> hands the channel number of the drive on as the index of a drive. A request to read from a drive of the second
  channel, whose number is 1, is therefore carried out by the drive with index 1, which is the slave of the first
  channel: no port of the second channel is touched and its region table stays as it is.
\<close>

theorem make_request_wrong_drive:
  assumes "id_channel (ide_devices s ! rq_device request) = 1" "id_channel (ide_devices s ! 1) = 0" "rq_action request = STOR_REQ_READ"
    "make_request krealloc v2p request s = lret s'"
  shows "\<exists>es dma. s' = s\<lparr>ide_dma := (ide_dma s)[0 := dma], cpu_io := cpu_io s @ es\<rparr> \<and>
    io_port ` set es \<subseteq> insert 0x80 (channel_ports (ide_channels s ! 0))"
  using assms ide_read_ports [of krealloc v2p 1 "rq_lba request" "rq_chunk_list request" s s' 0] by (simp add: make_request_def)

definition demo_request :: stor_request where
  "demo_request = \<lparr>rq_device = 2, rq_lba = 0x1000, rq_chunk_list = demo_chunks, rq_action = STOR_REQ_READ, rq_callback = NULL\<rparr>"

theorem make_request_wrong_drive_witness:
  "\<exists>s' es dma. make_request (\<lambda>a n. 0x9000) (\<lambda>a. a - 0x1000) demo_request demo_ide = lret s' \<and>
    s' = demo_ide\<lparr>ide_dma := (ide_dma demo_ide)[0 := dma], cpu_io := es\<rparr> \<and>
    io_port ` set es \<subseteq> insert 0x80 (channel_ports (demo_channel 0x1F0 0xC000))"
proof -
  from ide_read_spec [where krealloc = "\<lambda>a n. 0x9000" and channel = 0 and s = demo_ide and device = 1 and chunks = demo_chunks and
    lba = "0x1000" and v2p = "\<lambda>a. a - 0x1000"]
  obtain s' where "ide_read_sectors_async (\<lambda>a n. 0x9000) (\<lambda>a. a - 0x1000) 1 0x1000 demo_chunks demo_ide = lret s'"
    by (auto simp: demo_defs dma_ok_def chunk_ok_def fits_drive_def ports_apart_def ide_consts)
  then have run: "make_request (\<lambda>a n. 0x9000) (\<lambda>a. a - 0x1000) demo_request demo_ide = lret s'"
    by (simp add: make_request_def demo_request_def demo_ide_def demo_drive_def)
  show ?thesis
    using make_request_wrong_drive [OF _ _ _ run] run by (simp add: demo_request_def demo_ide_def demo_drive_def)
qed

end
