(* ===== verification/Block_Props.thy ===== *)
theory Block_Props
  imports Block Ide_Props
begin

text \<open>
  Correctness of the block layer: what reaches the driver of a disk for a request to a partition, what completion does, the
  partition table, the largest device, and the two places where a second request cannot be served.
\<close>

section \<open>Requests\<close>

text \<open>A disk that takes requests at once: block and sector size agree.\<close>

definition disk_ready :: "'h blk \<Rightarrow> nat \<Rightarrow> nat \<Rightarrow> ring_queue \<Rightarrow> bool" where
  "disk_ready s d hw q \<longleftrightarrow> bd_data (bl_devices s ! d) = BLOCK_DEV_DISK hw q \<and> hw < length (bl_stor s) \<and> \<not> sd_lock (bl_stor s ! hw) \<and>
     sd_active_requests (bl_stor s ! hw) < sd_max_requests (bl_stor s ! hw) \<and>
     bd_block_size (bl_devices s ! d) = sd_sector_size (bl_stor s ! hw) \<and> 0 < unat (bd_block_size (bl_devices s ! d)) \<and>
     unat (bd_block_size (bl_devices s ! d)) < 2 ^ 32"

definition buffer_ok :: "'h blk \<Rightarrow> nat \<Rightarrow> usize_ptr \<Rightarrow> bool" where
  "buffer_ok s d buf \<longleftrightarrow> (ucast buf :: u64) AND (bd_block_size (bl_devices s ! d) - 1) = 0 \<and>
     (ucast buf :: u64) mod bd_block_size (bl_devices s ! d) = 0"

lemma disk_ready_cong: "disk_ready s d hw q \<Longrightarrow> bl_devices t = bl_devices s \<Longrightarrow> bl_stor t = bl_stor s \<Longrightarrow> disk_ready t d hw q"
  unfolding disk_ready_def by metis

lemma buffer_ok_cong: "buffer_ok s d buf \<Longrightarrow> bl_devices t = bl_devices s \<Longrightarrow> buffer_ok t d buf"
  unfolding buffer_ok_def by metis

lemma relock: "sd_lock (xs ! i) = False \<Longrightarrow> i < length xs \<Longrightarrow> xs[i := (xs ! i)\<lparr>sd_lock := False\<rparr>] = xs"
  by (simp add: list_update_same_conv)

lemma mult_div_u64: "unat a * unat b < 2 ^ 64 \<Longrightarrow> 0 < unat b \<Longrightarrow> a * b div b = (a :: u64)"
  by (simp add: word_unat_eq_iff unat_div_distrib unat_word_ariths)

definition disk_request :: "(usize_ptr \<Rightarrow> usize_ptr) \<Rightarrow> nat \<Rightarrow> usize_ptr \<Rightarrow> block_io_type \<Rightarrow> usize_ptr \<Rightarrow> usize_ptr \<Rightarrow> usize \<Rightarrow> stor_req" where
  "disk_request v2p hw p io buf count lba =
     \<lparr>sr_device = hw, sr_lba = lba, sr_chunk_list = [\<lparr>pa_buffer = v2p buf, chunk_sectors = ucast count\<rparr>],
      sr_action = block_to_stor_type io, sr_ctx = p\<rparr>"

definition block_req ::
  "nat \<Rightarrow> block_io_type \<Rightarrow> usize_ptr \<Rightarrow> usize_ptr \<Rightarrow> usize \<Rightarrow> block_request_cb \<Rightarrow> usize_ptr \<Rightarrow> block_request" where
  "block_req d io buf count off cb ctx = \<lparr>br_device = d, br_io = io, br_block_offset = off, br_block_count = ucast count,
     br_block_vbuffer = buf, br_cb = cb, br_ctx = ctx\<rparr>"

lemma lbind_assoc: "lbind (lbind m f) g = lbind m (\<lambda>x. lbind (f x) g)"
  by (auto simp: lbind_def split: option.splits sum.splits)

lemma block_submit_disk_spec:
  assumes "disk_ready s d hw q" "buffer_ok s d buf" "bl_pool s = a # b # c # pool" "a \<noteq> NULL" "b \<noteq> NULL" "c \<noteq> NULL"
    "unat off * unat (bd_block_size (bl_devices s ! d)) < 2 ^ 64"
  shows "block_submit submit v2p d io buf count off cb ctx s =
    lbind (submit ((bl_stor s ! hw)\<lparr>sd_lock := True\<rparr>) (disk_request v2p hw a io buf count off) (bl_hw s)) (\<lambda>h.
    lret (s\<lparr>bl_requests := (bl_requests s)(a \<mapsto> block_req d io buf count off cb ctx), bl_pool := pool, bl_hw := h\<rparr>))"
proof -
  define bs where "bs = sd_sector_size (bl_stor s ! hw)"
  have r: "bd_data (bl_devices s ! d) = BLOCK_DEV_DISK hw q" "hw < length (bl_stor s)" "sd_lock (bl_stor s ! hw) = False"
      "sd_active_requests (bl_stor s ! hw) < sd_max_requests (bl_stor s ! hw)" "bd_block_size (bl_devices s ! d) = bs"
      "0 < unat bs" "unat bs < 2 ^ 32" "bs \<noteq> 0"
    using assms(1) by (auto simp: disk_ready_def bs_def)
  have "unat (ucast count :: u64) < 2 ^ 32" using unsigned_less [of count] by simp
  then have "unat (ucast count :: u64) * unat bs < 2 ^ 32 * 2 ^ 32" using r(7) by (intro mult_strict_mono) simp_all
  then have n: "ucast count * bs div bs = (ucast count :: u64)" using r(6) by (intro mult_div_u64) simp_all
  have o: "off * bs div bs = off" using assms(7) r(5,6) by (intro mult_div_u64) simp_all
  have b: "(ucast buf :: u64) AND (bs - 1) = 0" "(ucast buf :: u64) mod bs = 0" using assms(2) r(5) by (simp_all add: buffer_ok_def)
  show ?thesis
    using assms(3-6) r b n o
    by (subst block_submit.simps)
      (simp add: block_req_generate_def kmalloc_next_def block_submit_disk_def request_disk_def lock_device_def unlock_device_def
        block_disk_make_stor_request_def Let_def udiv_def bs_def [symmetric] stor_submit_def disk_request_def relock lbind_assoc block_req_def)
qed


lemma block_submit_partition_spec:
  assumes "disk_ready s d hw q" "buffer_ok s d buf" "bl_pool s = a # b # c # e # pool" "a \<noteq> NULL" "b \<noteq> NULL" "c \<noteq> NULL" "e \<noteq> NULL"
    "bd_data (bl_devices s ! p) = BLOCK_DEV_PARTITION d start" "bd_block_size (bl_devices s ! p) = bd_block_size (bl_devices s ! d)"
    "unat (start + off) * unat (bd_block_size (bl_devices s ! d)) < 2 ^ 64"
  shows "block_submit submit v2p p io buf count off cb ctx s =
    lbind (submit ((bl_stor s ! hw)\<lparr>sd_lock := True\<rparr>) (disk_request v2p hw b io buf count (start + off)) (bl_hw s)) (\<lambda>h.
    lret (s\<lparr>bl_requests := (bl_requests s)(a \<mapsto> block_req p io buf count off cb ctx,
        b \<mapsto> block_req d io buf count (start + off) Block_partition_cb a), bl_pool := pool, bl_hw := h\<rparr>))"
proof -
  define s1 where "s1 = s\<lparr>bl_pool := b # c # e # pool, bl_requests := (bl_requests s)(a \<mapsto> block_req p io buf count off cb ctx)\<rparr>"
  have s1: "disk_ready s1 d hw q" "buffer_ok s1 d buf" "bl_pool s1 = b # c # e # pool" "bl_stor s1 = bl_stor s" "bl_hw s1 = bl_hw s"
      "unat (start + off) * unat (bd_block_size (bl_devices s1 ! d)) < 2 ^ 64"
      "bl_requests s1 = (bl_requests s)(a \<mapsto> block_req p io buf count off cb ctx)"
    using assms(10) disk_ready_cong [OF assms(1), of s1] buffer_ok_cong [OF assms(2), of s1] by (simp_all add: s1_def)
  have "block_submit submit v2p p io buf count off cb ctx s = block_submit submit v2p d io buf count (start + off) Block_partition_cb a s1"
    using assms(2-4,8,9)
    by (subst block_submit.simps) (simp add: block_req_generate_def kmalloc_next_def buffer_ok_def s1_def block_req_def)
  also have "\<dots> = lbind (submit ((bl_stor s ! hw)\<lparr>sd_lock := True\<rparr>) (disk_request v2p hw b io buf count (start + off)) (bl_hw s)) (\<lambda>h.
    lret (s1\<lparr>bl_requests := (bl_requests s1)(b \<mapsto> block_req d io buf count (start + off) Block_partition_cb a), bl_pool := pool, bl_hw := h\<rparr>))"
    using block_submit_disk_spec [OF s1(1,2,3) assms(5-7) s1(6), of submit v2p io count Block_partition_cb a] by (simp add: s1(4,5))
  finally show ?thesis by (simp add: s1_def fun_upd_twist)
qed

text \<open>Completion of a request to a disk with an empty queue.\<close>

lemma block_call_cb_partition:
  assumes "bl_requests s b = Some (block_req d io buf count off' Block_partition_cb a)" "bl_requests s a = Some (block_req p io buf count off (User_cb f) ctx)"
    "result \<ge> 0"
  shows "block_call_cb user b result s = lbind (user f a result s) (\<lambda>s. lret (block_req_cleanup a s))"
proof -
  have "block_call_cb user a result s = user f a result s"
    using assms(2) by (subst block_call_cb.simps) (simp add: block_req_def)
  then show ?thesis using assms by (subst block_call_cb.simps) (simp add: block_req_def)
qed

lemma stor_disk_cb_empty:
  assumes "bl_requests s b = Some r" "br_device r = d" "disk_ready s d hw q" "result \<ge> 0"
    and "block_call_cb user b result s = lret s'" "disk_ready s' d hw q'" "ring_queue_is_empty q'"
  shows "stor_disk_cb submit v2p user (req\<lparr>sr_device := hw, sr_ctx := b\<rparr>) result s = lret (block_req_cleanup b s')"
  using assms
  by (simp add: stor_disk_cb_def request_disk_def disk_ready_def Let_def lock_device_def block_req_cleanup_def unlock_device_def relock)


text \<open>C16. A request to a partition reaches the driver of the disk as one request for the same buffer and number of blocks at the
  start of the partition plus the offset. When the driver reports its completion, the callback of the client is called
  with the request of the client, and then both requests are released.
\<close>

theorem block_partition_request:
  assumes "disk_ready s d hw q" "buffer_ok s d buf" "ring_queue_is_empty q" "bl_pool s = a # b # c # e # pool"
    "a \<noteq> NULL" "b \<noteq> NULL" "c \<noteq> NULL" "e \<noteq> NULL" "a \<noteq> b"
    "bd_data (bl_devices s ! p) = BLOCK_DEV_PARTITION d start" "bd_block_size (bl_devices s ! p) = bd_block_size (bl_devices s ! d)"
    "unat (start + off) * unat (bd_block_size (bl_devices s ! d)) < 2 ^ 64" "result \<ge> 0"
    "submit ((bl_stor s ! hw)\<lparr>sd_lock := True\<rparr>) (disk_request v2p hw b io buf count (start + off)) (bl_hw s) = lret h"
  shows "\<exists>s1. block_submit submit v2p p io buf count off (User_cb f) ctx s = lret s1 \<and> bl_hw s1 = h \<and>
    bl_requests s1 a = Some (block_req p io buf count off (User_cb f) ctx) \<and>
    (\<forall>s2. user f a result s1 = lret s2 \<longrightarrow> bl_devices s2 = bl_devices s1 \<longrightarrow> bl_stor s2 = bl_stor s1 \<longrightarrow>
       stor_disk_cb submit v2p user (disk_request v2p hw b io buf count (start + off)) result s1 =
         lret (block_req_cleanup b (block_req_cleanup a s2)))"
proof -
  define s1 where "s1 = s\<lparr>bl_requests := (bl_requests s)(a \<mapsto> block_req p io buf count off (User_cb f) ctx,
      b \<mapsto> block_req d io buf count (start + off) Block_partition_cb a), bl_pool := pool, bl_hw := h\<rparr>"
  have 1: "block_submit submit v2p p io buf count off (User_cb f) ctx s = lret s1"
    using block_submit_partition_spec [OF assms(1,2,4-8,10-12), of submit v2p io count "User_cb f" ctx] assms(14) by (simp add: s1_def)
  have a: "bl_requests s1 a = Some (block_req p io buf count off (User_cb f) ctx)"
      "bl_requests s1 b = Some (block_req d io buf count (start + off) Block_partition_cb a)"
    using assms(9) by (simp_all add: s1_def)
  have "stor_disk_cb submit v2p user (disk_request v2p hw b io buf count (start + off)) result s1 =
         lret (block_req_cleanup b (block_req_cleanup a s2))"
    if "user f a result s1 = lret s2" "bl_devices s2 = bl_devices s1" "bl_stor s2 = bl_stor s1" for s2
  proof -
    have "block_call_cb user b result s1 = lret (block_req_cleanup a s2)"
      using block_call_cb_partition [OF a(2,1) assms(13)] that(1) by simp
    moreover have "disk_ready s1 d hw q" "disk_ready (block_req_cleanup a s2) d hw q"
      using that(2,3) by (auto simp: s1_def block_req_cleanup_def intro!: disk_ready_cong [OF assms(1)])
    moreover have "br_device (block_req d io buf count (start + off) Block_partition_cb a) = d" by (simp add: block_req_def)
    ultimately show ?thesis
      using stor_disk_cb_empty [OF a(2) _ _ assms(13), where req = "disk_request v2p hw b io buf count (start + off)"] assms(3)
      by (simp add: disk_request_def)
  qed
  moreover have "bl_hw s1 = h" by (simp add: s1_def)
  ultimately show ?thesis using 1 a(1) by blast
qed

section \<open>A request behind another one\<close>

text \<open>
  A disk whose queue holds a request when another one completes never gets on: \<^verbatim>\<open>stor_disk_cb\<close> submits the queued request with the lock of
  the device held, and \<^verbatim>\<open>stor_submit\<close> waits for the same lock.
\<close>

theorem stor_disk_cb_deadlock:
  assumes "bl_requests s b = Some r" "br_device r = d" "disk_ready s d hw q" "result \<ge> 0"
    and "block_call_cb user b result s = lret s'" "disk_ready s' d hw q'" "\<not> ring_queue_is_empty q'"
    and "fst (ring_queue_pop (bl_mem s', q')) = nx" "nx \<noteq> b" "bl_requests s' nx = Some (block_req d io buf count off cb ctx)"
    and "buffer_ok s' d buf" "bl_pool s' = x # y # pool" "x \<noteq> NULL" "y \<noteq> NULL" "d < length (bl_devices s')"
  shows "stor_disk_cb submit v2p user (req\<lparr>sr_device := hw, sr_ctx := b\<rparr>) result s = None"
proof -
  obtain m q'' where pop: "ring_queue_pop (bl_mem s', q') = (nx, m, q'')" using assms(8) by (metis fst_conv prod_cases3)
  have "sd_sector_size (bl_stor s' ! hw) \<noteq> 0" using assms(6) unfolding disk_ready_def by (metis less_irrefl unsigned_0)
  then show ?thesis
    using assms pop
    by (simp add: stor_disk_cb_def request_disk_def disk_ready_def Let_def lock_device_def block_req_cleanup_def unlock_device_def
        block_disk_make_stor_request_def block_req_def buffer_ok_def kmalloc_next_def udiv_def stor_submit_def unat_gt_0)
qed


text \<open>The IDE driver as the driver of the storage devices; \<open>item\<close> is what \<^verbatim>\<open>kmalloc\<close> gives for the driver's own queue.\<close>

definition ide_request :: "stor_device \<Rightarrow> stor_req \<Rightarrow> stor_request" where
  "ide_request dev r = \<lparr>rq_device = sd_dev_data dev, rq_lba = sr_lba r, rq_chunk_list = sr_chunk_list r, rq_action = sr_action r,
     rq_callback = 1\<rparr>"

definition ide_driver :: "(usize_ptr \<Rightarrow> usize_ptr \<Rightarrow> usize_ptr) \<Rightarrow> (usize_ptr \<Rightarrow> u32) \<Rightarrow> usize_ptr \<Rightarrow> ide_vars driver" where
  "ide_driver krealloc v2p item dev r h = ide_submit krealloc v2p item (ide_request dev r) h"

definition drive_channel :: "ide_vars \<Rightarrow> nat \<Rightarrow> nat" where
  "drive_channel h drive = unat (id_channel (ide_devices h ! drive))"

lemma make_request_keeps:
  assumes "make_request krealloc v2p request h = lret h'" "rq_action request = STOR_REQ_READ"
  shows "ide_queue h' = ide_queue h" "ide_devices h' = ide_devices h"
  using assms ide_read_ports [of krealloc v2p "unat (id_channel (ide_devices h ! rq_device request))" "rq_lba request" "rq_chunk_list request" h h']
  by (auto simp: make_request_def)

lemma ide_submit_queues:
  assumes "ide_submit krealloc v2p item request h = lret h'" "rq_action request = STOR_REQ_READ"
    "q_tail (ide_queue h ! drive_channel h (rq_device request)) = NULL" "drive_channel h (rq_device request) < length (ide_queue h)"
  shows "q_head (ide_queue h' ! drive_channel h' (rq_device request)) \<noteq> NULL" "ide_devices h' = ide_devices h"
proof -
  let ?h1 = "snd (cpu_irq_save h)" and ?ch = "drive_channel h (rq_device request)"
  have h1: "ide_devices ?h1 = ide_devices h" "ide_queue ?h1 = ide_queue h" by (simp_all add: cpu_irq_save_def irq_save_def)
  from assms(1) obtain h2 h3 where 2: "ide_push_queue item request ?h1 = Inr h2" "make_request krealloc v2p request h2 = lret h3"
      "h' = cpu_irq_restore (fst (cpu_irq_save h)) h3"
    by (auto simp: ide_submit_def Let_def split_def lbind_ret_iff)
  have "ide_queue h2 ! ?ch = \<lparr>q_head = item, q_tail = item\<rparr>" "item \<noteq> NULL" "ide_devices h2 = ide_devices h"
    using 2(1) assms(3,4) by (auto simp: ide_push_queue_def Let_def h1 drive_channel_def kbind_Inr_iff)
  then show "q_head (ide_queue h' ! drive_channel h' (rq_device request)) \<noteq> NULL" "ide_devices h' = ide_devices h"
    using make_request_keeps [OF 2(2) assms(2)] 2(3) by (simp_all add: cpu_irq_restore_def drive_channel_def)
qed

lemma ide_submit_busy:
  "q_head (ide_queue h ! drive_channel h (rq_device request)) \<noteq> NULL \<Longrightarrow> ide_submit krealloc v2p item request h = Some (Inl AssertFailed)"
  by (simp add: ide_submit_def Let_def split_def drive_channel_def cpu_irq_save_def irq_save_def)

text \<open>C37. A second request to a disk before the first one has completed stops the kernel: the number of active requests is never
  raised, so the block layer hands the request on at once instead of queueing it, and the IDE driver asserts that its own
  queue is empty.
\<close>

theorem block_second_request_asserts:
  assumes "disk_ready s d hw q" "buffer_ok s d buf" "buffer_ok s d buf'" "bl_pool s = a # b # c # a' # b' # c' # pool"
    "a \<noteq> NULL" "b \<noteq> NULL" "c \<noteq> NULL" "a' \<noteq> NULL" "b' \<noteq> NULL" "c' \<noteq> NULL"
    "unat off * unat (bd_block_size (bl_devices s ! d)) < 2 ^ 64" "unat off' * unat (bd_block_size (bl_devices s ! d)) < 2 ^ 64"
    "drive_channel (bl_hw s) (sd_dev_data (bl_stor s ! hw)) < length (ide_queue (bl_hw s))"
    "q_tail (ide_queue (bl_hw s) ! drive_channel (bl_hw s) (sd_dev_data (bl_stor s ! hw))) = NULL"
    "block_submit (ide_driver krealloc v2p item) v2p d BLOCK_IO_READ buf count off cb ctx s = lret s1"
  shows "block_submit (ide_driver krealloc' v2p item') v2p d io' buf' count' off' cb' ctx' s1 = Some (Inl AssertFailed)"
proof -
  let ?dev = "(bl_stor s ! hw)\<lparr>sd_lock := True\<rparr>" and ?r = "disk_request v2p hw a BLOCK_IO_READ buf count off"
  obtain h where h: "ide_driver krealloc v2p item ?dev ?r (bl_hw s) = lret h"
      "s1 = s\<lparr>bl_requests := (bl_requests s)(a \<mapsto> block_req d BLOCK_IO_READ buf count off cb ctx), bl_pool := a' # b' # c' # pool, bl_hw := h\<rparr>"
    using assms(15) unfolding block_submit_disk_spec [OF assms(1,2,4-7,11)] lbind_ret_iff by auto
  have busy: "q_head (ide_queue h ! drive_channel h (sd_dev_data (bl_stor s ! hw))) \<noteq> NULL"
    using ide_submit_queues(1) [of krealloc v2p item "ide_request ?dev ?r" "bl_hw s" h] h(1) assms(13,14)
    by (simp add: ide_driver_def ide_request_def disk_request_def block_to_stor_type_def)
  have s1: "disk_ready s1 d hw q" "buffer_ok s1 d buf'" "bl_pool s1 = a' # b' # c' # pool" "bl_stor s1 = bl_stor s" "bl_hw s1 = h"
      "unat off' * unat (bd_block_size (bl_devices s1 ! d)) < 2 ^ 64"
    using disk_ready_cong [OF assms(1), of s1] buffer_ok_cong [OF assms(3), of s1] assms(12) by (simp_all add: h(2))
  have "ide_driver krealloc' v2p item' ?dev (disk_request v2p hw a' io' buf' count' off') h = Some (Inl AssertFailed)"
    using ide_submit_busy [of h "ide_request ?dev (disk_request v2p hw a' io' buf' count' off')"] busy
    by (simp add: ide_driver_def ide_request_def)
  then show ?thesis
    using block_submit_disk_spec [OF s1(1,2,3) assms(8-10) s1(6), of "ide_driver krealloc' v2p item'" v2p io' count' cb' ctx'] s1(4,5) by simp
qed


section \<open>The list of devices and the partition table\<close>

definition device_size :: "block_device \<Rightarrow> usize" where
  "device_size d = bd_block_size d * bd_block_count d"

text \<open>The list of devices is consistent and its main device is a largest one.\<close>

definition manager_ok :: "'h blk \<Rightarrow> bool" where
  "manager_ok s \<longleftrightarrow> (\<forall>i\<in>set (block_devs s). i < length (bl_devices s) \<and> device_size (bl_devices s ! i) \<le> block_dev_max_size s) \<and>
     (case main_block_dev s of None \<Rightarrow> block_dev_max_size s = 0
      | Some m \<Rightarrow> m \<in> set (block_devs s) \<and> device_size (bl_devices s ! m) = block_dev_max_size s)"

lemma manager_ok_append:
  assumes "manager_ok s"
  shows "manager_ok (s\<lparr>bl_devices := bl_devices s @ ds\<rparr>)"
  using assms unfolding manager_ok_def by (auto simp: nth_append split: option.splits)

lemma add_device_ok:
  assumes "manager_ok s" "device < length (bl_devices s)" "length (block_devs s) < MAX_DEVS"
  shows "\<exists>s'. block_manager_add_device device s = Inr s' \<and> manager_ok s' \<and> block_devs s' = block_devs s @ [device] \<and>
    bl_devices s' = bl_devices s \<and> bl_mem s' = bl_mem s \<and> bl_stor s' = bl_stor s \<and> bl_requests s' = bl_requests s \<and> bl_pool s' = bl_pool s"
proof -
  let ?size = "device_size (bl_devices s ! device)"
  show ?thesis
  proof (cases "?size > block_dev_max_size s")
    case True
    then have "\<forall>i\<in>set (block_devs s). device_size (bl_devices s ! i) \<le> ?size" using assms(1) by (force simp: manager_ok_def)
    then show ?thesis using True assms by (auto simp: block_manager_add_device_def device_size_def manager_ok_def Let_def)
  next
    case False
    then show ?thesis using assms
      by (auto simp: block_manager_add_device_def device_size_def manager_ok_def Let_def not_less split: option.splits)
  qed
qed

definition mbr_partition_device :: "mem \<Rightarrow> nat \<Rightarrow> usize \<Rightarrow> u32 \<Rightarrow> block_device" where
  "mbr_partition_device m disk bs e =
     \<lparr>bd_block_size = bs, bd_block_count = ucast (partition_sector_count m e) div (bs div 512) div bs,
      bd_data = BLOCK_DEV_PARTITION disk (ucast (partition_lba_offset m e) div (bs div 512))\<rparr>"

text \<open>The next \<open>n\<close> calls of \<^verbatim>\<open>kmalloc\<close> succeed.\<close>

definition pool_gives :: "nat \<Rightarrow> 'h blk \<Rightarrow> bool" where
  "pool_gives n s \<longleftrightarrow> n \<le> length (bl_pool s) \<and> NULL \<notin> set (take n (bl_pool s))"

lemma partition_add_ok:
  assumes "manager_ok s" "disk < length (bl_devices s)" "bd_data (bl_devices s ! disk) = BLOCK_DEV_DISK hw q"
    "bd_block_size (bl_devices s ! disk) = bs" "bs div 512 \<noteq> 0" "length (block_devs s) < MAX_DEVS" "pool_gives (Suc n) s"
  shows "\<exists>s'. partition_add_block_device disk e s = Inr s' \<and> manager_ok s' \<and> block_devs s' = block_devs s @ [length (bl_devices s)] \<and>
    bl_devices s' = bl_devices s @ [mbr_partition_device (bl_mem s) disk bs e] \<and> bl_mem s' = bl_mem s \<and> pool_gives n s'"
proof -
  have bs: "bs \<noteq> 0" using assms(5) by auto
  have a: "fst (kmalloc_next s) \<noteq> NULL" "pool_gives n (snd (kmalloc_next s))"
    using assms(7) by (auto simp: pool_gives_def kmalloc_next_def split: list.splits)
  let ?s = "(snd (kmalloc_next s))\<lparr>bl_devices := bl_devices s @ [mbr_partition_device (bl_mem s) disk bs e]\<rparr>"
  have k: "bl_devices (snd (kmalloc_next s)) = bl_devices s" "block_devs (snd (kmalloc_next s)) = block_devs s" "bl_mem (snd (kmalloc_next s)) = bl_mem s"
    "block_dev_max_size (snd (kmalloc_next s)) = block_dev_max_size s" "main_block_dev (snd (kmalloc_next s)) = main_block_dev s"
    by (simp_all add: kmalloc_next_def split: list.splits)
  have "manager_ok (snd (kmalloc_next s))" using assms(1) unfolding manager_ok_def k by blast
  then have "manager_ok ?s" using manager_ok_append [of "snd (kmalloc_next s)" "[mbr_partition_device (bl_mem s) disk bs e]"] by (simp add: k)
  moreover have "partition_add_block_device disk e s = block_manager_add_device (length (bl_devices s)) ?s"
    using assms(1-5) bs a(1)
    by (simp add: partition_add_block_device_def MBR_SECTOR_SIZE_def udiv_def block_partition_generate_def Let_def split_def k mbr_partition_device_def)
  ultimately show ?thesis
    using add_device_ok [of ?s "length (bl_devices s)"] assms(6) a(2) by (auto simp: k pool_gives_def)
qed

lemma parse_entries:
  assumes "manager_ok s" "disk < length (bl_devices s)" "bd_data (bl_devices s ! disk) = BLOCK_DEV_DISK hw q"
    "bd_block_size (bl_devices s ! disk) = bs" "bs div 512 \<noteq> 0" "length (block_devs s) + length is \<le> MAX_DEVS"
    "pool_gives (length (filter (\<lambda>i. partition_type (bl_mem s) (mbr_entry mbr i) \<noteq> 0) is)) s"
  shows "\<exists>s'. kfor (\<lambda>i s. if partition_type (bl_mem s) (mbr_entry mbr i) = 0 then Inr s
                              else partition_add_block_device disk (mbr_entry mbr i) s) is s = Inr s' \<and> manager_ok s' \<and>
    (let ps = filter (\<lambda>i. partition_type (bl_mem s) (mbr_entry mbr i) \<noteq> 0) is in
     bl_devices s' = bl_devices s @ map (\<lambda>i. mbr_partition_device (bl_mem s) disk bs (mbr_entry mbr i)) ps \<and>
     block_devs s' = block_devs s @ [length (bl_devices s)..<length (bl_devices s) + length ps])"
  using assms
proof (induction "is" arbitrary: s)
  case Nil
  then show ?case by simp
next
  case (Cons i "is")
  show ?case
  proof (cases "partition_type (bl_mem s) (mbr_entry mbr i) = 0")
    case True
    then show ?thesis using Cons.IH [OF Cons.prems(1-5)] Cons.prems(6,7) by simp
  next
    case False
    obtain s1 where 1: "partition_add_block_device disk (mbr_entry mbr i) s = Inr s1" "manager_ok s1"
        "block_devs s1 = block_devs s @ [length (bl_devices s)]"
        "bl_devices s1 = bl_devices s @ [mbr_partition_device (bl_mem s) disk bs (mbr_entry mbr i)]" "bl_mem s1 = bl_mem s"
        "pool_gives (length (filter (\<lambda>i. partition_type (bl_mem s) (mbr_entry mbr i) \<noteq> 0) is)) s1"
      using partition_add_ok [OF Cons.prems(1-5), of _ "mbr_entry mbr i"] Cons.prems(6,7) False by auto
    have "disk < length (bl_devices s1)" "bd_data (bl_devices s1 ! disk) = BLOCK_DEV_DISK hw q"
        "bd_block_size (bl_devices s1 ! disk) = bs" "length (block_devs s1) + length is \<le> MAX_DEVS"
      using Cons.prems 1 by (simp_all add: nth_append)
    from Cons.IH [OF 1(2) this(1-3) Cons.prems(5) this(4)] show ?thesis
      using False 1 by (auto simp: Let_def upt_rec [of "length (bl_devices s)"])
  qed
qed

text \<open>Without memory for the device of a partition the code writes through \<^verbatim>\<open>NULL\<close>.\<close>

lemma partition_add_no_memory:
  assumes "bd_data (bl_devices s ! disk) = BLOCK_DEV_DISK hw q" "bd_block_size (bl_devices s ! disk) div 512 \<noteq> 0" "fst (kmalloc_next s) = NULL"
  shows "partition_add_block_device disk e s = Inl BadAccess"
  using assms by (simp add: partition_add_block_device_def MBR_SECTOR_SIZE_def udiv_def block_partition_generate_def Let_def split_def)

text \<open>C24. A sector with the signature of a partition table adds one device for every entry that is in use, in their order, as
  long as \<^verbatim>\<open>kmalloc\<close> gives memory for them (see \<open>partition_add_no_memory\<close> for the other case), with
  the start of the entry in blocks of the disk, and afterwards the main device is still a largest one of the list. (The
  number of blocks of such a device is the number of sectors divided by the block size, once more than it should be.)
\<close>

theorem parse_mbr_partitions:
  assumes "mbr_signature (bl_mem s) mbr = 0xAA55" "manager_ok s" "disk < length (bl_devices s)" "bd_data (bl_devices s ! disk) = BLOCK_DEV_DISK hw q"
    "bd_block_size (bl_devices s ! disk) = bs" "bs div 512 \<noteq> 0" "length (block_devs s) + 4 \<le> MAX_DEVS"
    "pool_gives (length (filter (\<lambda>i. partition_type (bl_mem s) (mbr_entry mbr i) \<noteq> 0) [0, 1, 2, 3])) s"
  shows "\<exists>s'. parse_mbr disk mbr s = Inr (True, s') \<and> manager_ok s' \<and>
    (let ps = filter (\<lambda>i. partition_type (bl_mem s) (mbr_entry mbr i) \<noteq> 0) [0, 1, 2, 3] in
     bl_devices s' = bl_devices s @ map (\<lambda>i. mbr_partition_device (bl_mem s) disk bs (mbr_entry mbr i)) ps \<and>
     block_devs s' = block_devs s @ [length (bl_devices s)..<length (bl_devices s) + length ps])"
  using parse_entries [OF assms(2-6), of "[0, 1, 2, 3]" mbr] assms(1,7,8) unfolding parse_mbr_def by (auto simp: Let_def)


section \<open>Storage devices\<close>

text \<open>The array of storage devices has room for one more, lists them in order, and the main device is a largest one.\<close>

definition storage_ok :: "'h blk \<Rightarrow> bool" where
  "storage_ok s \<longleftrightarrow> length (bl_stor s) = unat (storage_count s) \<and> length (storage_dev_arr s) = unat (storage_capacity s) \<and>
     unat (storage_count s) < unat (storage_capacity s) \<and> unat (storage_capacity s) \<le> 2 * (unat (storage_count s) + 1) \<and>
     take (unat (storage_count s)) (storage_dev_arr s) = [0..<unat (storage_count s)] \<and>
     (\<forall>d\<in>set (bl_stor s). sd_disk_size d \<le> main_device_disk_size s) \<and>
     (case main_device s of None \<Rightarrow> main_device_disk_size s = 0
      | Some m \<Rightarrow> m < length (bl_stor s) \<and> sd_disk_size (bl_stor s ! m) = main_device_disk_size s)"

definition new_stor_device :: "nat \<Rightarrow> usize \<Rightarrow> usize \<Rightarrow> u32 \<Rightarrow> storage_dev_type \<Rightarrow> usize_ptr \<Rightarrow> stor_device" where
  "new_stor_device data disk_size sector_size max_requests type n =
     \<lparr>sd_dev_id = ucast n, sd_dev_data = data, sd_disk_size = disk_size, sd_sector_size = sector_size, sd_active_requests = 0,
      sd_max_requests = max_requests, sd_type = type, sd_lock = False\<rparr>"

lemma add_stor_device_spec:
  assumes "storage_ok s" "sector_size = ucast (align_up_pow2 (ucast sector_size))" "bl_pool s = a # b # pool" "a \<noteq> NULL" "b \<noteq> NULL"
    "unat (storage_count s) < 2 ^ 28"
  shows "\<exists>s'. add_stor_device data disk_size sector_size max_requests type s = Inr (storage_count s, s') \<and> storage_ok s' \<and>
    bl_stor s' = bl_stor s @ [new_stor_device data disk_size sector_size max_requests type (storage_count s)] \<and>
    (\<forall>i. stor_get_device i s' = (if unat i \<le> unat (storage_count s) then Some (unat i) else None)) \<and>
    bl_hw s' = bl_hw s \<and> storage_count s' = storage_count s + 1 \<and> (\<exists>k\<le>2. bl_pool s' = drop k (bl_pool s))"
proof -
  define n where "n = unat (storage_count s)"
  have inv: "length (bl_stor s) = n" "length (storage_dev_arr s) = unat (storage_capacity s)" "n < unat (storage_capacity s)"
      "unat (storage_capacity s) \<le> 2 * (n + 1)" "take n (storage_dev_arr s) = [0..<n]"
    using assms(1) by (simp_all add: storage_ok_def n_def)
  have n1: "unat (storage_count s + 1) = n + 1" using assms(6) by (simp add: n_def unat_word_ariths)
  define g where "g = (if storage_count s + 1 \<ge> storage_capacity s
     then s\<lparr>bl_pool := b # pool, storage_capacity := storage_capacity s * 2,
            storage_dev_arr := take (unat (storage_capacity s * 2)) (storage_dev_arr s @ replicate (unat (storage_capacity s * 2)) 0)\<rparr>
     else s)"
  have cap: "unat (storage_capacity s * 2) = 2 * unat (storage_capacity s)"
    using inv(4) assms(6) by (simp add: unat_word_ariths n_def)
  have g: "bl_stor g = bl_stor s" "storage_count g = storage_count s" "main_device g = main_device s"
      "main_device_disk_size g = main_device_disk_size s" "length (storage_dev_arr g) = unat (storage_capacity g)"
      "n + 1 < unat (storage_capacity g)" "unat (storage_capacity g) \<le> 2 * (n + 2)" "take n (storage_dev_arr g) = [0..<n]"
      "\<exists>p ps. bl_pool g = p # ps \<and> p \<noteq> NULL \<and> (ps = drop 1 (bl_pool s) \<or> ps = drop 2 (bl_pool s))" "bl_hw g = bl_hw s"
    using inv cap n1 assms(3-5) by (auto simp: g_def word_le_nat_alt not_le)
  obtain p ps where p: "bl_pool g = p # ps" "p \<noteq> NULL" "ps = drop 1 (bl_pool s) \<or> ps = drop 2 (bl_pool s)" using g(9) by blast
  let ?d = "new_stor_device data disk_size sector_size max_requests type (storage_count s)"
  define t where "t = g\<lparr>bl_pool := ps, bl_stor := bl_stor s @ [?d], storage_dev_arr := (storage_dev_arr g)[n := n]\<rparr>"
  define u where "u = (if disk_size > main_device_disk_size s then t\<lparr>main_device_disk_size := disk_size, main_device := Some n\<rparr> else t)"
  have run: "add_stor_device data disk_size sector_size max_requests type s = Inr (storage_count s, u\<lparr>storage_count := storage_count s + 1\<rparr>)"
  proof -
    have "(if storage_count s + 1 \<ge> storage_capacity s
            then let capacity = storage_capacity s * 2; (arr, s) = kmalloc_next s
                 in kbind (kassert (arr \<noteq> NULL)) (\<lambda>_.
                    Inr (s\<lparr>storage_capacity := capacity,
                           storage_dev_arr := take (unat capacity) (storage_dev_arr s @ replicate (unat capacity) 0)\<rparr>))
            else Inr s) = Inr g"
      using assms(3,4) by (simp add: g_def kmalloc_next_def Let_def)
    then show ?thesis
      using assms(2) p(1,2) g(1-6) inv(1)
      by (simp add: add_stor_device_def kmalloc_next_def Let_def n_def t_def u_def new_stor_device_def)
  qed
  have arr: "length (storage_dev_arr t) = unat (storage_capacity g)" "take (n + 1) (storage_dev_arr t) = [0..<n + 1]"
    using g(5,6,8) by (simp_all add: t_def take_Suc_conv_app_nth)
  have sizes: "\<forall>d\<in>set (bl_stor s). sd_disk_size d \<le> main_device_disk_size s"
      "case main_device s of None \<Rightarrow> main_device_disk_size s = 0
       | Some m \<Rightarrow> m < length (bl_stor s) \<and> sd_disk_size (bl_stor s ! m) = main_device_disk_size s"
    using assms(1) by (simp_all add: storage_ok_def)
  have "storage_ok (u\<lparr>storage_count := storage_count s + 1\<rparr>)"
  proof (cases "disk_size > main_device_disk_size s")
    case True
    then have "\<forall>d\<in>set (bl_stor s). sd_disk_size d \<le> disk_size" using sizes(1) by force
    then show ?thesis using True arr g inv(1) n1 by (simp add: storage_ok_def u_def t_def new_stor_device_def nth_append)
  next
    case False
    then show ?thesis
      using sizes arr g inv(1) n1 by (auto simp: storage_ok_def u_def t_def new_stor_device_def nth_append not_less split: option.splits)
  qed
  moreover have "bl_stor (u\<lparr>storage_count := storage_count s + 1\<rparr>) = bl_stor s @ [?d]" by (simp add: u_def t_def)
  moreover have "stor_get_device i (u\<lparr>storage_count := storage_count s + 1\<rparr>) = (if unat i \<le> n then Some (unat i) else None)" for i
  proof -
    have "storage_dev_arr u = storage_dev_arr t" by (simp add: u_def)
    moreover have "storage_dev_arr t ! unat i = unat i" if "unat i < n + 1"
      using arg_cong [OF arr(2), of "\<lambda>xs. xs ! unat i"] that by (simp del: upt_Suc)
    ultimately show ?thesis using n1 by (auto simp: stor_get_device_def word_le_nat_alt not_le)
  qed
  moreover have "bl_hw (u\<lparr>storage_count := storage_count s + 1\<rparr>) = bl_hw s" "bl_pool (u\<lparr>storage_count := storage_count s + 1\<rparr>) = ps"
    using g(10) by (simp_all add: u_def t_def)
  moreover have "\<exists>k\<le>2. ps = drop k (bl_pool s)" using p(3) by (elim disjE) (auto intro: exI [of _ 1] exI [of _ 2])
  ultimately show ?thesis using run by (intro exI [of _ "u\<lparr>storage_count := storage_count s + 1\<rparr>"]) (simp add: n_def)
qed

text \<open>C25. Adding a storage device returns its number, under which it is found afterwards like all devices before it; the
  array grows when it has to, and the main device is a device with the largest size.
\<close>

theorem add_stor_device_ok:
  assumes "storage_ok s" "sector_size = ucast (align_up_pow2 (ucast sector_size))" "bl_pool s = a # b # pool" "a \<noteq> NULL" "b \<noteq> NULL"
    "unat (storage_count s) < 2 ^ 28"
  shows "\<exists>s'. add_stor_device data disk_size sector_size max_requests type s = Inr (storage_count s, s') \<and> storage_ok s' \<and>
    bl_stor s' = bl_stor s @ [new_stor_device data disk_size sector_size max_requests type (storage_count s)] \<and>
    (\<forall>i. stor_get_device i s' = (if unat i \<le> unat (storage_count s) then Some (unat i) else None))"
  using add_stor_device_spec [OF assms] by blast


section \<open>Examples\<close>

text \<open>One disk of 512-byte sectors on the first IDE drive, with a partition that starts at sector 63.\<close>

definition demo_blk :: "'h \<Rightarrow> 'h blk" where
  "demo_blk h = \<lparr>bl_hw = h, bl_pool = [0x100, 0x200, 0x300, 0x400, 0x500, 0x600, 0x700, 0x800], bl_mem = (\<lambda>_. 0),
     bl_stor = [new_stor_device 0 4096 512 1 STOR_TYPE_DMA 0], storage_dev_arr = [0, 0], storage_capacity = 2, storage_count = 1,
     main_device = Some 0, main_device_disk_size = 4096,
     bl_devices = [\<lparr>bd_block_size = 512, bd_block_count = 8, bd_data = BLOCK_DEV_DISK 0 \<lparr>rq_head = 0, rq_count = 0, rq_capacity = 16, rq_arr = 0x9000\<rparr>\<rparr>,
       \<lparr>bd_block_size = 512, bd_block_count = 0, bd_data = BLOCK_DEV_PARTITION 0 63\<rparr>],
     bl_requests = Map.empty, block_devs = [0, 1], block_dev_max_size = 4096, main_block_dev = Some 0\<rparr>"

abbreviation demo_queue :: ring_queue where
  "demo_queue \<equiv> \<lparr>rq_head = 0, rq_count = 0, rq_capacity = 16, rq_arr = 0x9000\<rparr>"

lemma demo_blk_ready: "disk_ready (demo_blk h) 0 0 demo_queue" "buffer_ok (demo_blk h) 0 0x8000"
  by (simp_all add: disk_ready_def buffer_ok_def demo_blk_def new_stor_device_def)

theorem block_partition_request_witness:
  "\<exists>s1. block_submit (\<lambda>dev r h. lret (h @ [r])) id 1 BLOCK_IO_READ 0x8000 2 5 (User_cb 7) 9 (demo_blk []) = lret s1 \<and>
    bl_hw s1 = [disk_request id 0 0x200 BLOCK_IO_READ 0x8000 2 68] \<and>
    stor_disk_cb (\<lambda>dev r h. lret (h @ [r])) id (\<lambda>f p r s. lret (s\<lparr>bl_pool := [f, p]\<rparr>))
      (disk_request id 0 0x200 BLOCK_IO_READ 0x8000 2 68) 1 s1 =
        lret (block_req_cleanup 0x200 (block_req_cleanup 0x100 (s1\<lparr>bl_pool := [7, 0x100]\<rparr>)))"
proof -
  let ?submit = "\<lambda>dev r h. lret (h @ [r])" and ?user = "\<lambda>f p r s. lret (s\<lparr>bl_pool := [f, p]\<rparr>)"
  from block_partition_request [OF demo_blk_ready, where h = "[disk_request id 0 0x200 BLOCK_IO_READ 0x8000 2 68]" and a = "0x100" and b = "0x200" and
      c = "0x300" and e = "0x400" and pool = "[0x500, 0x600, 0x700, 0x800]" and p = 1 and start = 63 and off = 5 and result = 1 and
      submit = ?submit and v2p = id and io = BLOCK_IO_READ and count = 2 and f = 7 and ctx = 9 and user = ?user]
  show ?thesis by (auto simp: demo_blk_def ring_queue_is_empty_def)
qed


definition demo_queued :: "unit blk" where
  "demo_queued = (demo_blk ())\<lparr>bl_mem := store32 (\<lambda>_. 0) 0x9000 0x200,
     bl_devices := [\<lparr>bd_block_size = 512, bd_block_count = 8, bd_data = BLOCK_DEV_DISK 0 (demo_queue\<lparr>rq_count := 1\<rparr>)\<rparr>],
     bl_requests := [0x100 \<mapsto> block_req 0 BLOCK_IO_READ 0x8000 1 0 (User_cb 7) 9, 0x200 \<mapsto> block_req 0 BLOCK_IO_READ 0x8000 1 1 (User_cb 7) 9]\<rparr>"

theorem stor_disk_cb_deadlock_witness:
  "stor_disk_cb (\<lambda>dev r h. lret h) id (\<lambda>f p r s. lret s) (disk_request id 0 0x100 BLOCK_IO_READ 0x8000 1 0) 1 demo_queued = None"
proof -
  have r: "disk_ready demo_queued 0 0 (demo_queue\<lparr>rq_count := 1\<rparr>)" "buffer_ok demo_queued 0 0x8000"
    by (simp_all add: disk_ready_def buffer_ok_def demo_queued_def demo_blk_def new_stor_device_def)
  have p: "fst (ring_queue_pop (bl_mem demo_queued, demo_queue\<lparr>rq_count := 1\<rparr>)) = 0x200"
    by (simp add: ring_queue_pop_def demo_queued_def)
  have c: "block_call_cb (\<lambda>f p r s. lret s) 0x100 1 demo_queued = lret demo_queued"
    by (subst block_call_cb.simps) (simp add: demo_queued_def block_req_def)
  have b: "bl_requests demo_queued 0x100 = Some (block_req 0 BLOCK_IO_READ 0x8000 1 0 (User_cb 7) 9)"
      "bl_requests demo_queued 0x200 = Some (block_req 0 BLOCK_IO_READ 0x8000 1 1 (User_cb 7) 9)"
      "bl_pool demo_queued = 0x100 # 0x200 # [0x300, 0x400, 0x500, 0x600, 0x700, 0x800]" "0 < length (bl_devices demo_queued)"
    by (simp_all add: demo_queued_def demo_blk_def)
  show ?thesis
    using stor_disk_cb_deadlock [OF b(1) _ r(1) _ c r(1) _ p _ b(2) r(2) b(3) _ _ b(4), of "\<lambda>dev r h. lret h" id "disk_request id 0 0x100 BLOCK_IO_READ 0x8000 1 0"]
    by (simp add: block_req_def ring_queue_is_empty_def disk_request_def)
qed

lemma demo_ide_fields:
  "ide_queue demo_ide = [\<lparr>q_head = NULL, q_tail = NULL\<rparr>, \<lparr>q_head = NULL, q_tail = NULL\<rparr>]"
  "ide_devices demo_ide ! 0 = demo_drive 0 False IDE_SIZE_LBA48" "ide_items demo_ide = Map.empty"
  by (simp_all add: demo_ide_def numeral_2_eq_2)

theorem block_second_request_asserts_witness:
  "\<exists>s1. block_submit (ide_driver (\<lambda>a n. 0x9000) id 0x50) id 0 BLOCK_IO_READ 0x8000 2 5 (User_cb 7) 9 (demo_blk demo_ide) = lret s1 \<and>
    block_submit (ide_driver (\<lambda>a n. 0x9000) id 0x60) id 0 BLOCK_IO_WRITE 0x8000 1 0 (User_cb 7) 9 s1 = Some (Inl AssertFailed)"
proof -
  let ?r = "disk_request id 0 0x100 BLOCK_IO_READ 0x8000 2 5" and ?dev = "(new_stor_device 0 4096 512 1 STOR_TYPE_DMA 0)\<lparr>sd_lock := True\<rparr>"
  let ?h = "(snd (cpu_irq_save demo_ide))\<lparr>ide_items := [0x50 \<mapsto> \<lparr>it_request = ide_request ?dev ?r, it_prev = NULL\<rparr>],
    ide_queue := [\<lparr>q_head = 0x50, q_tail = 0x50\<rparr>, \<lparr>q_head = NULL, q_tail = NULL\<rparr>]\<rparr>"
  from ide_read_spec [where krealloc = "\<lambda>a n. 0x9000" and channel = 0 and s = ?h and device = 0 and chunks = "sr_chunk_list ?r" and
    lba = 5 and v2p = id]
  obtain h' where "ide_read_sectors_async (\<lambda>a n. 0x9000) id 0 5 (sr_chunk_list ?r) ?h = lret h'"
    by (auto simp: demo_defs dma_ok_def chunk_ok_def fits_drive_def ports_apart_def ide_consts disk_request_def cpu_irq_save_def irq_save_def)
  then obtain h where h: "ide_driver (\<lambda>a n. 0x9000) id 0x50 ?dev ?r demo_ide = lret h"
    by (auto simp: ide_driver_def ide_submit_def Let_def split_def ide_request_def disk_request_def new_stor_device_def cpu_irq_save_def
        irq_save_def ide_push_queue_def make_request_def block_to_stor_type_def demo_ide_fields demo_drive_def)
  have run: "block_submit (ide_driver (\<lambda>a n. 0x9000) id 0x50) id 0 BLOCK_IO_READ 0x8000 2 5 (User_cb 7) 9 (demo_blk demo_ide) =
     lret ((demo_blk demo_ide)\<lparr>bl_requests := [0x100 \<mapsto> block_req 0 BLOCK_IO_READ 0x8000 2 5 (User_cb 7) 9],
       bl_pool := [0x400, 0x500, 0x600, 0x700, 0x800], bl_hw := h\<rparr>)"
    using block_submit_disk_spec [OF demo_blk_ready [of demo_ide], where a = "0x100" and b = "0x200" and c = "0x300" and
      pool = "[0x400, 0x500, 0x600, 0x700, 0x800]" and off = 5 and submit = "ide_driver (\<lambda>a n. 0x9000) id 0x50" and v2p = id and
      io = BLOCK_IO_READ and count = 2 and cb = "User_cb 7" and ctx = 9] h by (simp add: demo_blk_def)
  show ?thesis
    by (intro exI conjI, rule run, rule block_second_request_asserts [OF demo_blk_ready [of demo_ide] demo_blk_ready(2) _ _ _ _ _ _ _ _ _ _ _ run,
        where a = "0x100" and b = "0x200" and c = "0x300" and a' = "0x400" and b' = "0x500" and c' = "0x600" and pool = "[0x700, 0x800]"])
      (simp_all add: demo_blk_def drive_channel_def demo_ide_fields demo_drive_def new_stor_device_def)
qed

definition demo_mbr :: mem where
  "demo_mbr a = (if a = 0x11FE then 0x55 else if a = 0x11FF then 0xAA else if a = 0x11C2 then 0x83 else if a = 0x11C6 then 63
     else if a = 0x11CB then 0x10 else 0)"

theorem parse_mbr_partitions_witness:
  "\<exists>s'. parse_mbr 0 0x1000 ((demo_blk ())\<lparr>bl_mem := demo_mbr\<rparr>) = Inr (True, s') \<and> manager_ok s' \<and>
    bl_devices s' = bl_devices (demo_blk ()) @ [\<lparr>bd_block_size = 512, bd_block_count = 8, bd_data = BLOCK_DEV_PARTITION 0 63\<rparr>] \<and> block_devs s' = [0, 1, 2]"
proof -
  have "manager_ok ((demo_blk ())\<lparr>bl_mem := demo_mbr\<rparr>)" by (simp add: manager_ok_def demo_blk_def device_size_def)
  from parse_mbr_partitions [of "(demo_blk ())\<lparr>bl_mem := demo_mbr\<rparr>" "0x1000" 0 0 demo_queue 512, OF _ this]
  show ?thesis
    by (auto simp: demo_blk_def demo_mbr_def mbr_signature_def load16_def partition_type_def mbr_entry_def mbr_partition_device_def
        partition_lba_offset_def partition_sector_count_def load32_def MAX_DEVS_def pool_gives_def Let_def upt_rec)
qed

theorem add_stor_device_ok_witness:
  "\<exists>s'. add_stor_device 2 8192 512 1 STOR_TYPE_DMA (demo_blk ()) = Inr (1, s') \<and> storage_ok s' \<and> stor_get_device 1 s' = Some 1"
proof -
  have "storage_ok (demo_blk ())" by (simp add: storage_ok_def demo_blk_def new_stor_device_def)
  from add_stor_device_ok [OF this, where data = 2 and disk_size = 8192 and sector_size = 512 and max_requests = 1 and type = STOR_TYPE_DMA and
      a = "0x100" and b = "0x200" and pool = "[0x300, 0x400, 0x500, 0x600, 0x700, 0x800]"]
  obtain s' where "add_stor_device 2 8192 512 1 STOR_TYPE_DMA (demo_blk ()) = Inr (1, s')" "storage_ok s'"
      "\<forall>i. stor_get_device i s' = (if unat i \<le> 1 then Some (unat i) else None)"
    by (auto simp: demo_blk_def align_up_pow2_def smear_def)
  then show ?thesis by simp
qed

end
