(* ===== verification/Storage_Init.thy ===== *)
theory Storage_Init
  imports Pci Block_Props
begin

unbundle bit_operations_syntax

text \<open>
  Bringing up storage: \<^verbatim>\<open>init_ide\<close> of \<^verbatim>\<open>kernel/arch/i386/drivers/pci/ide.c\<close> and \<^verbatim>\<open>kernel/arch/i386/devices/storage.c\<close>, which
  connect the PCI bus, the IDE driver and the table of storage devices. The hardware state of the block layer is here
  the state of the IDE driver. \<open>prdt0\<close> and \<open>prdt1\<close> are the results of \<^verbatim>\<open>kmalloc_aligned\<close> for the region tables.
\<close>

section \<open>Operations\<close>

definition PCI_CMD_DMA_BIT :: u32 where "PCI_CMD_DMA_BIT = 0x4"
definition PCI_CMD_OFF :: u8 where "PCI_CMD_OFF = 0x04"
definition IDE_CLASS_CODE :: u16 where "IDE_CLASS_CODE = 0x01"
definition IDE_SUBCLASS_CODE :: u16 where "IDE_SUBCLASS_CODE = 0x01"
definition DEVICES :: nat where "DEVICES = 4"

definition progif :: "u32 list \<Rightarrow> u8" where "progif h = header_byte h 9"
definition base_addr :: "u32 list \<Rightarrow> nat \<Rightarrow> u32" where "base_addr h i = h ! (4 + i)"
definition interrupt_line :: "u32 list \<Rightarrow> u8" where "interrupt_line h = header_byte h 60"

definition enable_bus_master :: "hardware \<Rightarrow> pci_driver \<Rightarrow> ide_vars \<Rightarrow> ide_vars" where
  "enable_bus_master hw driver s =
     (let (cmd, s) = pci_config_read_dword hw (pd_bus driver) (pd_slot driver) (pd_func driver) 0x4 s
      in if cmd AND PCI_CMD_DMA_BIT = 0
         then pci_config_write_dword (pd_bus driver) (pd_slot driver) (pd_func driver) PCI_CMD_OFF (cmd OR PCI_CMD_DMA_BIT) s
         else s)"

text \<open>The part of \<^verbatim>\<open>init_ide\<close> before the loop.\<close>

definition init_ide_drives :: "hardware \<Rightarrow> usize_ptr \<Rightarrow> usize_ptr \<Rightarrow> pci_driver \<Rightarrow> ide_vars \<Rightarrow> ide_vars kloop" where
  "init_ide_drives hw prdt0 prdt1 driver s =
     (let s = enable_bus_master hw driver s; h = pd_header driver
      in lbind (Some (init_ide_channels (progif h) (base_addr h) (interrupt_line h) s)) (\<lambda>s.
         lbind (lopt (init_ide_devices hw s)) (\<lambda>s.
         Some (init_dma_devices prdt0 prdt1 s))))"

definition add_drive :: "nat \<Rightarrow> ide_vars blk \<Rightarrow> ide_vars blk kres" where
  "add_drive i s =
     (let dev = ide_devices (bl_hw s) ! i
      in if id_present dev
         then kbind (add_stor_device i (id_size dev) (ucast SECTOR_SIZE) 1 (if id_supports_dma dev then STOR_TYPE_DMA else STOR_TYPE_PIO) s) (\<lambda>(n, s).
              Inr (s\<lparr>bl_hw := (bl_hw s)\<lparr>ide_devices := (ide_devices (bl_hw s))[i := dev\<lparr>id_external_dev_id := ucast n\<rparr>]\<rparr>\<rparr>))
         else Inr s)"

definition init_ide :: "hardware \<Rightarrow> usize_ptr \<Rightarrow> usize_ptr \<Rightarrow> pci_driver option \<Rightarrow> ide_vars blk \<Rightarrow> ide_vars blk kloop" where
  "init_ide hw prdt0 prdt1 driver s =
     (case driver of None \<Rightarrow> Some (Inl BadAccess)
      | Some driver \<Rightarrow>
        lbind (init_ide_drives hw prdt0 prdt1 driver (bl_hw s)) (\<lambda>h.
        lbind (Some (kfor add_drive [0..<DEVICES] (s\<lparr>bl_hw := h\<rparr>))) (\<lambda>s.
        lbind (Some (enable_pic hw (bl_hw s))) (\<lambda>h.
        lret (s\<lparr>bl_hw := h\<rparr>)))))"

definition init_arch_storage :: "hardware \<Rightarrow> usize_ptr \<Rightarrow> usize_ptr \<Rightarrow> pci_vars \<Rightarrow> ide_vars blk \<Rightarrow> ide_vars blk kloop" where
  "init_arch_storage hw prdt0 prdt1 pci = init_ide hw prdt0 prdt1 (get_pci_device IDE_CLASS_CODE IDE_SUBCLASS_CODE pci)"

section \<open>Properties\<close>

text \<open>The entry of the storage table for a drive.\<close>

definition drive_entry :: "ide_device list \<Rightarrow> nat \<Rightarrow> usize_ptr \<Rightarrow> stor_device" where
  "drive_entry ds i n = new_stor_device i (id_size (ds ! i)) 512 1 (if id_supports_dma (ds ! i) then STOR_TYPE_DMA else STOR_TYPE_PIO) n"

definition pool_ok :: "nat \<Rightarrow> 'h blk \<Rightarrow> bool" where
  "pool_ok k s \<longleftrightarrow> 2 * k \<le> length (bl_pool s) \<and> list_all (\<lambda>a. a \<noteq> NULL) (bl_pool s)"

lemma sector_pow2: "(512 :: usize) = ucast (align_up_pow2 (ucast (512 :: usize)))"
  by (simp add: align_up_pow2_def smear_def)

lemma storage_ok_hw [simp]: "storage_ok (s\<lparr>bl_hw := h\<rparr>) = storage_ok s"
  by (cases "main_device s") (simp_all add: storage_ok_def)

lemma pool_ok_drop: "pool_ok (Suc k) s \<Longrightarrow> j \<le> 2 \<Longrightarrow> bl_pool s' = drop j (bl_pool s) \<Longrightarrow> pool_ok k s'"
  by (auto simp: pool_ok_def list_all_iff dest: in_set_dropD)

lemma add_drive_present:
  assumes "storage_ok s" "pool_ok (Suc k) s" "unat (storage_count s) < 2 ^ 28" "id_present (ide_devices (bl_hw s) ! i)" "i < length (ide_devices (bl_hw s))"
  shows "\<exists>s'. add_drive i s = Inr s' \<and> storage_ok s' \<and> pool_ok k s' \<and> storage_count s' = storage_count s + 1 \<and>
    bl_stor s' = bl_stor s @ [drive_entry (ide_devices (bl_hw s)) i (storage_count s)] \<and>
    bl_hw s' = (bl_hw s)\<lparr>ide_devices := (ide_devices (bl_hw s))[i := (ide_devices (bl_hw s) ! i)\<lparr>id_external_dev_id := ucast (storage_count s)\<rparr>]\<rparr>"
proof -
  obtain a b pool where pool: "bl_pool s = a # b # pool" "a \<noteq> NULL" "b \<noteq> NULL"
    using assms(2) by (cases "bl_pool s" rule: remdups_adj.cases) (auto simp: pool_ok_def)
  let ?dev = "ide_devices (bl_hw s) ! i"
  obtain s1 j where s1: "add_stor_device i (id_size ?dev) 512 1 (if id_supports_dma ?dev then STOR_TYPE_DMA else STOR_TYPE_PIO) s = Inr (storage_count s, s1)"
      "storage_ok s1" "bl_stor s1 = bl_stor s @ [drive_entry (ide_devices (bl_hw s)) i (storage_count s)]" "bl_hw s1 = bl_hw s"
      "storage_count s1 = storage_count s + 1" "j \<le> 2" "bl_pool s1 = drop j (bl_pool s)"
    using add_stor_device_spec [OF assms(1) sector_pow2 pool assms(3)] unfolding drive_entry_def by blast
  let ?s = "s1\<lparr>bl_hw := (bl_hw s)\<lparr>ide_devices := (ide_devices (bl_hw s))[i := ?dev\<lparr>id_external_dev_id := ucast (storage_count s)\<rparr>]\<rparr>\<rparr>"
  have "add_drive i s = Inr ?s" using assms(4) s1(1,4) by (simp add: add_drive_def Let_def SECTOR_SIZE_def)
  moreover have "storage_ok ?s" using s1(2) by simp
  moreover have "pool_ok k ?s" by (rule pool_ok_drop [OF assms(2) s1(6)]) (simp add: s1(7))
  ultimately show ?thesis using s1(3,5) by (intro exI [of _ ?s]) simp
qed

text \<open>The loop over the drives: what it adds to the table, and the numbers it stores.\<close>

definition present_drives :: "ide_device list \<Rightarrow> nat list \<Rightarrow> nat list" where
  "present_drives ds is = filter (\<lambda>i. id_present (ds ! i)) is"

lemma add_drives:
  assumes "storage_ok s" "pool_ok (length (present_drives (ide_devices (bl_hw s)) is)) s" "distinct is" "\<forall>i\<in>set is. i < length (ide_devices (bl_hw s))"
    "unat (storage_count s) + length is < 2 ^ 28"
  shows "\<exists>s'. kfor add_drive is s = Inr s' \<and> storage_ok s' \<and>
    bl_stor s' = bl_stor s @ map (\<lambda>(k, i). drive_entry (ide_devices (bl_hw s)) i (storage_count s + of_nat k))
      (enumerate 0 (present_drives (ide_devices (bl_hw s)) is)) \<and>
    (\<forall>k<length (present_drives (ide_devices (bl_hw s)) is).
       id_external_dev_id (ide_devices (bl_hw s') ! (present_drives (ide_devices (bl_hw s)) is ! k)) = ucast (storage_count s + of_nat k)) \<and>
    (\<forall>i. i \<notin> set is \<longrightarrow> ide_devices (bl_hw s') ! i = ide_devices (bl_hw s) ! i)"
  using assms
proof (induction "is" arbitrary: s)
  case Nil
  then show ?case by (simp add: present_drives_def)
next
  case (Cons i "is")
  let ?ds = "ide_devices (bl_hw s)"
  show ?case
  proof (cases "id_present (?ds ! i)")
    case False
    then have "add_drive i s = Inr s" "present_drives ?ds (i # is) = present_drives ?ds is"
      by (simp_all add: add_drive_def present_drives_def)
    with Cons.IH [of s] Cons.prems show ?thesis by (simp, blast)
  next
    case True
    then have p: "present_drives ?ds (i # is) = i # present_drives ?ds is" by (simp add: present_drives_def)
    obtain s1 where s1: "add_drive i s = Inr s1" "storage_ok s1" "pool_ok (length (present_drives ?ds is)) s1" "storage_count s1 = storage_count s + 1"
        "bl_stor s1 = bl_stor s @ [drive_entry ?ds i (storage_count s)]"
        "bl_hw s1 = (bl_hw s)\<lparr>ide_devices := ?ds[i := (?ds ! i)\<lparr>id_external_dev_id := ucast (storage_count s)\<rparr>]\<rparr>"
      using add_drive_present [OF Cons.prems(1) _ _ True, of "length (present_drives ?ds is)"] Cons.prems(2,4,5) unfolding p by auto
    let ?ds1 = "ide_devices (bl_hw s1)"
    have other: "?ds1 ! j = ?ds ! j" if "j \<in> set is" for j using that Cons.prems(3) by (cases "j = i") (simp_all add: s1(6))
    then have same: "present_drives ?ds1 is = present_drives ?ds is" by (auto simp: present_drives_def intro!: filter_cong)
    have in_is: "set (present_drives ?ds is) \<subseteq> set is" by (auto simp: present_drives_def)
    have cnt: "unat (storage_count s1) + length is < 2 ^ 28" using Cons.prems(5) by (simp add: s1(4) unat_word_ariths)
    have len: "\<forall>j\<in>set is. j < length ?ds1" using Cons.prems(4) by (simp add: s1(6))
    obtain s' where s': "kfor add_drive is s1 = Inr s'" "storage_ok s'"
        "bl_stor s' = bl_stor s1 @ map (\<lambda>(k, i). drive_entry ?ds1 i (storage_count s1 + of_nat k)) (enumerate 0 (present_drives ?ds is))"
        "\<forall>k<length (present_drives ?ds is). id_external_dev_id (ide_devices (bl_hw s') ! (present_drives ?ds is ! k)) = ucast (storage_count s1 + of_nat k)"
        "\<forall>j. j \<notin> set is \<longrightarrow> ide_devices (bl_hw s') ! j = ?ds1 ! j"
      using Cons.IH [OF s1(2) _ _ len cnt] Cons.prems(3) s1(3) unfolding same by auto
    have entries: "map (\<lambda>(k, i). drive_entry ?ds1 i (storage_count s1 + of_nat k)) (enumerate 0 (present_drives ?ds is)) =
        map (\<lambda>(k, i). drive_entry ?ds i (storage_count s + of_nat k)) (enumerate 1 (present_drives ?ds is))"
      by (rule nth_equalityI) (use other in_is in \<open>auto simp: nth_enumerate_eq s1(4) drive_entry_def add_ac subset_iff\<close>)
    have "i \<notin> set is" using Cons.prems(3) by simp
    then have i: "id_external_dev_id (ide_devices (bl_hw s') ! i) = ucast (storage_count s)"
      using s'(5) Cons.prems(4) by (simp add: s1(6))
    show ?thesis
    proof (intro exI [of _ s'] conjI)
      show "kfor add_drive (i # is) s = Inr s'" using s1(1) s'(1) by simp
      show "storage_ok s'" by (rule s'(2))
      show "bl_stor s' = bl_stor s @ map (\<lambda>(k, i). drive_entry ?ds i (storage_count s + of_nat k)) (enumerate 0 (present_drives ?ds (i # is)))"
        unfolding p s'(3) entries by (simp add: s1(5))
      show "\<forall>k<length (present_drives ?ds (i # is)).
         id_external_dev_id (ide_devices (bl_hw s') ! (present_drives ?ds (i # is) ! k)) = ucast (storage_count s + of_nat k)"
        unfolding p using i s'(4) by (auto simp: less_Suc_eq_0_disj s1(4) add_ac)
      show "\<forall>j. j \<notin> set (i # is) \<longrightarrow> ide_devices (bl_hw s') ! j = ?ds ! j"
        using s'(5) by (simp add: s1(6))
    qed
  qed
qed

lemma init_ide_eq:
  assumes "storage_ok s" "init_ide_drives hw prdt0 prdt1 driver (bl_hw s) = lret h" "length (ide_devices h) = DEVICES"
    "pool_ok (length (present_drives (ide_devices h) [0..<DEVICES])) s" "unat (storage_count s) + DEVICES < 2 ^ 28"
  shows "\<exists>s1. init_ide hw prdt0 prdt1 (Some driver) s = lbind (Some (enable_pic hw (bl_hw s1))) (\<lambda>h. lret (s1\<lparr>bl_hw := h\<rparr>)) \<and>
    storage_ok s1 \<and>
    bl_stor s1 = bl_stor s @ map (\<lambda>(k, i). drive_entry (ide_devices h) i (storage_count s + of_nat k))
      (enumerate 0 (present_drives (ide_devices h) [0..<DEVICES])) \<and>
    (\<forall>k<length (present_drives (ide_devices h) [0..<DEVICES]).
       id_external_dev_id (ide_devices (bl_hw s1) ! (present_drives (ide_devices h) [0..<DEVICES] ! k)) = ucast (storage_count s + of_nat k))"
proof -
  have "pool_ok (length (present_drives (ide_devices h) [0..<DEVICES])) (s\<lparr>bl_hw := h\<rparr>)" using assms(4) by (simp add: pool_ok_def)
  then obtain s1 where "kfor add_drive [0..<DEVICES] (s\<lparr>bl_hw := h\<rparr>) = Inr s1" "storage_ok s1"
      "bl_stor s1 = bl_stor s @ map (\<lambda>(k, i). drive_entry (ide_devices h) i (storage_count s + of_nat k))
        (enumerate 0 (present_drives (ide_devices h) [0..<DEVICES]))"
      "\<forall>k<length (present_drives (ide_devices h) [0..<DEVICES]).
       id_external_dev_id (ide_devices (bl_hw s1) ! (present_drives (ide_devices h) [0..<DEVICES] ! k)) = ucast (storage_count s + of_nat k)"
    using add_drives [of "s\<lparr>bl_hw := h\<rparr>" "[0..<DEVICES]"] assms(1,3,5) by (auto simp del: upt_Suc)
  then show ?thesis by (intro exI [of _ s1]) (simp add: init_ide_def assms(2) del: upt_Suc kfor.simps)
qed

text \<open>C23. When the drives were identified, \<^verbatim>\<open>init_ide\<close> adds one storage device for every drive that is present, in their order and with
  the size, the sectors and the kind of the drive, tells each drive the number it was given, and goes on to enable the
  interrupts with the table well formed: the main device is a largest drive.
\<close>

theorem init_ide_adds_drives:
  assumes "storage_ok s" "init_ide_drives hw prdt0 prdt1 driver (bl_hw s) = lret h" "length (ide_devices h) = DEVICES"
    "pool_ok (length (present_drives (ide_devices h) [0..<DEVICES])) s" "unat (storage_count s) + DEVICES < 2 ^ 28"
  shows "\<exists>s1. init_ide hw prdt0 prdt1 (Some driver) s = lbind (Some (enable_pic hw (bl_hw s1))) (\<lambda>h. lret (s1\<lparr>bl_hw := h\<rparr>)) \<and>
    storage_ok s1 \<and>
    bl_stor s1 = bl_stor s @ map (\<lambda>(k, i). drive_entry (ide_devices h) i (storage_count s + of_nat k))
      (enumerate 0 (present_drives (ide_devices h) [0..<DEVICES])) \<and>
    (\<forall>k<length (present_drives (ide_devices h) [0..<DEVICES]).
       id_external_dev_id (ide_devices (bl_hw s1) ! (present_drives (ide_devices h) [0..<DEVICES] ! k)) = ucast (storage_count s + of_nat k))"
  using assms by (rule init_ide_eq)

section \<open>An example\<close>

text \<open>
  A controller in compatibility mode, with two drives on the first channel that answer every word of the identification
  with \<^verbatim>\<open>0x500\<close>, and none on the second.
\<close>

definition demo_disks :: hardware where
  "demo_disks io port = (if port = 0x1F7 then 0x48 else if port = 0x1F0 then 0x500 else 0)"

definition demo_controller :: pci_driver where
  "demo_controller = \<lparr>pd_func = 1, pd_slot = 1, pd_bus = 0,
     pd_header = [0, 0, 0x01018000, 0, 0, 0, 0, 0, 0xC001, 0, 0, 0, 0, 0, 0, 0], pd_device_name = None\<rparr>"

lemma insw_const: "(\<forall>l. hw l port = v) \<Longrightarrow> \<exists>io. insw hw port n s = (replicate n (ucast v), s\<lparr>cpu_io := io\<rparr>)"
proof (induction n arbitrary: s)
  case 0
  show ?case by (rule exI [of _ "cpu_io s"]) simp
next
  case (Suc n)
  then obtain io where "insw hw port n (s\<lparr>cpu_io := cpu_io s @ [In16 port (ucast v)]\<rparr>) = (replicate n (ucast v), s\<lparr>cpu_io := io\<rparr>)"
    by (metis (no_types, lifting) cpu.update_convs(1) cpu.surjective)
  then show ?case using Suc.prems by (intro exI [of _ io]) (simp add: inw_def Let_def)
qed

text \<open>What identifying a drive does when the drive does not answer, and when it answers at once.\<close>

lemma init_ide_device_absent:
  assumes "\<forall>l. hw l (ic_base (ide_channels s ! c) + 7) = 0"
  shows "\<exists>io. init_ide_device hw d c sel s = Some (s\<lparr>cpu_io := io, ide_devices := (ide_devices s)[d := (ide_devices s ! d)
    \<lparr>id_external_dev_id := NOT 0, id_present := False, id_slave := (sel = 1)\<rparr>]\<rparr>)"
  using assms
  by (cases s) (simp add: init_ide_device_def io_defs ide_select_def ide_send_cmd_def ide_cmd_outb_def ide_get_status_def ide_cmd_inb_def Let_def
    REG_OFF_STATUS_def)

lemma init_ide_device_answers:
  assumes "\<forall>l. hw l (ic_base (ide_channels s ! c) + 7) = 0x48" "\<forall>l. hw l (ic_base (ide_channels s ! c)) = v" "d < length (ide_devices s)"
  shows "\<exists>io dev. init_ide_device hw d c sel s = Some (s\<lparr>cpu_io := io, ide_devices := (ide_devices s)[d :=
    ident_device (replicate 256 (ucast v)) c sel dev]\<rparr>)"
proof -
  let ?dev = "(ide_devices s ! d)\<lparr>id_external_dev_id := NOT 0, id_present := False, id_slave := (sel = 1)\<rparr>"
  have "\<exists>l. init_ide_device hw d c sel s = (let s = s\<lparr>cpu_io := l, ide_devices := (ide_devices s)[d := ?dev]\<rparr>; (ws, s) = get_channel_identity hw c s
      in Some (s\<lparr>ide_devices := (ide_devices s)[d := ident_device ws c sel (ide_devices s ! d)]\<rparr>))"
    using assms(1)
    by (cases s) (auto simp: init_ide_device_def io_defs ide_select_def ide_send_cmd_def ide_cmd_outb_def ide_get_status_def ide_cmd_inb_def Let_def
      REG_OFF_STATUS_def ide_poll.simps ATA_STATUS_ERR_def ATA_STATUS_BSY_def ATA_STATUS_DRQ_def)
  then obtain l where l: "init_ide_device hw d c sel s = (let s = s\<lparr>cpu_io := l, ide_devices := (ide_devices s)[d := ?dev]\<rparr>; (ws, s) = get_channel_identity hw c s
      in Some (s\<lparr>ide_devices := (ide_devices s)[d := ident_device ws c sel (ide_devices s ! d)]\<rparr>))" by blast
  obtain io where gi: "get_channel_identity hw c (s\<lparr>cpu_io := l, ide_devices := (ide_devices s)[d := ?dev]\<rparr>) =
      (replicate 256 (ucast v), s\<lparr>cpu_io := io, ide_devices := (ide_devices s)[d := ?dev]\<rparr>)"
    using insw_const [of hw "ic_base (ide_channels s ! c)" v 256 "s\<lparr>cpu_io := l, ide_devices := (ide_devices s)[d := ?dev]\<rparr>"]
      assms(2) by (cases s) (auto simp: get_channel_identity_def ide_read_buffer_def REG_OFF_DATA_def)
  show ?thesis using assms(3) unfolding l Let_def gi by (intro exI [of _ io] exI [of _ ?dev]) simp
qed

lemma init_dma_devices_keeps:
  "prdt0 \<noteq> NULL \<Longrightarrow> prdt1 \<noteq> NULL \<Longrightarrow> \<exists>h'. init_dma_devices prdt0 prdt1 h = Inr h' \<and> ide_devices h' = ide_devices h"
  by (simp add: init_dma_devices_def init_dma_channel_def)

lemma demo_drives:
  "\<exists>h. init_ide_drives demo_disks 0x8000 0x9000 demo_controller demo_ide = lret h \<and> length (ide_devices h) = DEVICES \<and>
    present_drives (ide_devices h) [0..<DEVICES] = [0, 1] \<and> id_size (ide_devices h ! 0) = 0x50005000500 \<and> id_supports_dma (ide_devices h ! 0)"
proof -
  have up: "[0..<DEVICES] = [0, 1, 2, 3]" by (simp add: DEVICES_def upt_rec)
  obtain h1 where h1: "init_ide_channels (progif (pd_header demo_controller)) (base_addr (pd_header demo_controller)) (interrupt_line (pd_header demo_controller))
      (enable_bus_master demo_disks demo_controller demo_ide) = Inr h1"
      "ic_base (ide_channels h1 ! 0) = 0x1F0" "ic_base (ide_channels h1 ! 1) = 0x170" "length (ide_devices h1) = 4"
    by (simp add: init_ide_channels_def progif_def base_addr_def interrupt_line_def header_byte_def demo_controller_def make_ide_channel_def
      reset_bm_def send_bm_cmd_def send_bm_status_def ATA_PRIMARY_def ATA_SECONDARY_def enable_bus_master_def pci_config_read_dword_def
      pci_config_write_dword_def pci_write_address_def io_defs demo_defs Let_def split_def)
  obtain io1 d1 where 1: "init_ide_device demo_disks 0 0 0 h1 = Some (h1\<lparr>cpu_io := io1, ide_devices := (ide_devices h1)[0 :=
      ident_device (replicate 256 0x500) 0 0 d1]\<rparr>)"
    using init_ide_device_answers [of demo_disks h1 0 "0x500" 0 0] h1 by (auto simp: demo_disks_def)
  let ?h2 = "h1\<lparr>cpu_io := io1, ide_devices := (ide_devices h1)[0 := ident_device (replicate 256 0x500) 0 0 d1]\<rparr>"
  obtain io2 d2 where 2: "init_ide_device demo_disks 1 0 1 ?h2 = Some (?h2\<lparr>cpu_io := io2, ide_devices := (ide_devices ?h2)[1 :=
      ident_device (replicate 256 0x500) 0 1 d2]\<rparr>)"
    using init_ide_device_answers [of demo_disks ?h2 0 "0x500" 1 1] h1 by (auto simp: demo_disks_def)
  let ?h3 = "?h2\<lparr>cpu_io := io2, ide_devices := (ide_devices ?h2)[1 := ident_device (replicate 256 0x500) 0 1 d2]\<rparr>"
  have c: "ic_base (ide_channels ?h3 ! 1) = 0x170" using h1(3) by simp
  obtain io3 where 3: "init_ide_device demo_disks 2 1 0 ?h3 = Some (?h3\<lparr>cpu_io := io3, ide_devices := (ide_devices ?h3)[2 := (ide_devices ?h3 ! 2)
      \<lparr>id_external_dev_id := NOT 0, id_present := False, id_slave := (0 = (1 :: nat))\<rparr>]\<rparr>)"
    using init_ide_device_absent [of demo_disks ?h3 1 2 0] unfolding c by (auto simp: demo_disks_def)
  let ?h4 = "?h3\<lparr>cpu_io := io3, ide_devices := (ide_devices ?h3)[2 := (ide_devices ?h3 ! 2)
      \<lparr>id_external_dev_id := NOT 0, id_present := False, id_slave := (0 = (1 :: nat))\<rparr>]\<rparr>"
  have c4: "ic_base (ide_channels ?h4 ! 1) = 0x170" using h1(3) by simp
  obtain io4 where 4: "init_ide_device demo_disks 3 1 1 ?h4 = Some (?h4\<lparr>cpu_io := io4, ide_devices := (ide_devices ?h4)[3 := (ide_devices ?h4 ! 3)
      \<lparr>id_external_dev_id := NOT 0, id_present := False, id_slave := (1 = (1 :: nat))\<rparr>]\<rparr>)"
    using init_ide_device_absent [of demo_disks ?h4 1 3 1] unfolding c4 by (auto simp: demo_disks_def)
  let ?h5 = "?h4\<lparr>cpu_io := io4, ide_devices := (ide_devices ?h4)[3 := (ide_devices ?h4 ! 3)
      \<lparr>id_external_dev_id := NOT 0, id_present := False, id_slave := (1 = (1 :: nat))\<rparr>]\<rparr>"
  have devs: "init_ide_devices demo_disks h1 = Some ?h5" by (simp only: init_ide_devices_def 1 2 3 4 bind.bind_lunit)
  have ident: "id_present (ident_device (replicate 256 0x500) 0 k d)" "id_supports_dma (ident_device (replicate 256 0x500) 0 k d)"
      "id_size (ident_device (replicate 256 0x500) 0 k d) = 0x50005000500" for k d
    by (simp_all add: ident_device_def ident_size_def ident32_def ident64_def Let_def)
  obtain h where h: "init_dma_devices 0x8000 0x9000 ?h5 = Inr h" "ide_devices h = ide_devices ?h5"
    using init_dma_devices_keeps [of "0x8000" "0x9000" ?h5] by auto
  have "init_ide_drives demo_disks 0x8000 0x9000 demo_controller demo_ide = lret h"
    by (simp only: init_ide_drives_def Let_def h1(1) devs lopt_simps lbind_simps h(1))
  moreover have "present_drives (ide_devices h) [0..<DEVICES] = [0, 1]" "length (ide_devices h) = DEVICES"
      "id_size (ide_devices h ! 0) = 0x50005000500" "id_supports_dma (ide_devices h ! 0)"
    unfolding up present_drives_def h(2) using h1(4) ident by (simp_all add: DEVICES_def)
  ultimately show ?thesis by blast
qed

theorem init_ide_adds_drives_witness:
  "\<exists>s1. init_ide demo_disks 0x8000 0x9000 (Some demo_controller) (demo_blk demo_ide) =
      lbind (Some (enable_pic demo_disks (bl_hw s1))) (\<lambda>h. lret (s1\<lparr>bl_hw := h\<rparr>)) \<and>
    length (bl_stor s1) = 3 \<and> sd_disk_size (bl_stor s1 ! 1) = 0x50005000500 \<and> sd_type (bl_stor s1 ! 1) = STOR_TYPE_DMA \<and>
    id_external_dev_id (ide_devices (bl_hw s1) ! 1) = 2"
proof -
  obtain h where h: "init_ide_drives demo_disks 0x8000 0x9000 demo_controller demo_ide = lret h" "length (ide_devices h) = DEVICES"
      "present_drives (ide_devices h) [0..<DEVICES] = [0, 1]" "id_size (ide_devices h ! 0) = 0x50005000500" "id_supports_dma (ide_devices h ! 0)"
    using demo_drives by blast
  have "storage_ok (demo_blk demo_ide)" by (simp add: storage_ok_def demo_blk_def new_stor_device_def)
  moreover have "init_ide_drives demo_disks 0x8000 0x9000 demo_controller (bl_hw (demo_blk demo_ide)) = lret h" using h(1) by (simp add: demo_blk_def)
  moreover have "pool_ok (length (present_drives (ide_devices h) [0..<DEVICES])) (demo_blk demo_ide)" unfolding h(3) by (simp add: pool_ok_def demo_blk_def)
  moreover have "unat (storage_count (demo_blk demo_ide)) + DEVICES < 2 ^ 28" by (simp add: demo_blk_def DEVICES_def)
  ultimately obtain s1 where s1: "init_ide demo_disks 0x8000 0x9000 (Some demo_controller) (demo_blk demo_ide) =
      lbind (Some (enable_pic demo_disks (bl_hw s1))) (\<lambda>h. lret (s1\<lparr>bl_hw := h\<rparr>))"
      "bl_stor s1 = bl_stor (demo_blk demo_ide) @ map (\<lambda>(k, i). drive_entry (ide_devices h) i (storage_count (demo_blk demo_ide) + of_nat k)) (enumerate 0 [0, 1])"
      "\<forall>k<length [0 :: nat, 1]. id_external_dev_id (ide_devices (bl_hw s1) ! ([0, 1] ! k)) = ucast (storage_count (demo_blk demo_ide) + of_nat k)"
    using init_ide_adds_drives [OF _ _ h(2), of "demo_blk demo_ide" demo_disks "0x8000" "0x9000" demo_controller] unfolding h(3) by blast
  have "id_external_dev_id (ide_devices (bl_hw s1) ! 1) = 2" using s1(3) [rule_format, of 1] by (simp add: demo_blk_def)
  then show ?thesis using s1(1,2) h(4,5) by (intro exI [of _ s1]) (simp add: demo_blk_def drive_entry_def new_stor_device_def)
qed

end
