(* ===== verification/Vfs.thy ===== *)
theory Vfs
  imports Flat_Hashmap_Props
begin

text \<open>
  The file system layer on top of the drivers: path lookup (\<^verbatim>\<open>kernel/vfs/core/path.c\<close>), the cache of directory entries
  (\<^verbatim>\<open>dir_entry_cache.c\<close>), mounts (\<^verbatim>\<open>mount.c\<close>) and the cache of inodes (\<^verbatim>\<open>kernel/vfs/inode/inode_cache.c\<close>).

  Directory entries, mount records and strings are in the flat memory, with the offsets of the C structures; the two hash
  maps are those of \<open>Flat_Hashmap\<close>. The buffers on the stack are at the given addresses: \<open>sub\<close> for the name in
  \<^verbatim>\<open>path_lookup_step\<close>, \<open>key\<close> for the key of a cache access. \<open>kmalloc\<close> gives the address of a new block, \<open>kfree\<close> the memory after a release, and \<open>lookup\<close> is the
  operation of the file system that owns an inode: its error code or the inode that it found, and the memory it leaves.
\<close>

section \<open>Definitions\<close>

definition MAX_NODE_NAME_LENGTH :: u32 where "MAX_NODE_NAME_LENGTH = 255"
definition VFS_ERR_INVAL :: int where "VFS_ERR_INVAL = 7"
definition VFS_ERR_NAMETOOLONG :: int where "VFS_ERR_NAMETOOLONG = 14"

record vfs_mount_map =
  vt_mem :: mem
  vt_root :: usize_ptr
  vt_mounts :: flat_hashmap
  vt_dcache :: flat_hashmap

type_synonym fs_lookup = "usize_ptr \<Rightarrow> usize_ptr \<Rightarrow> mem \<Rightarrow> int \<times> usize_ptr \<times> mem"

text \<open>Fields of a directory entry, of an inode (its operations and its superblock) and of a mount record.\<close>

definition de_parent :: "mem \<Rightarrow> usize_ptr \<Rightarrow> usize_ptr" where "de_parent m e = load32 m e"
definition de_inode :: "mem \<Rightarrow> usize_ptr \<Rightarrow> usize_ptr" where "de_inode m e = load32 m (e + 4)"
definition de_name :: "usize_ptr \<Rightarrow> usize_ptr" where "de_name e = e + 8"
definition inode_ops :: "mem \<Rightarrow> usize_ptr \<Rightarrow> usize_ptr" where "inode_ops m i = load32 m i"
definition ops_lookup :: "mem \<Rightarrow> usize_ptr \<Rightarrow> usize_ptr" where "ops_lookup m o' = load32 m (o' + 4)"
definition mp_mountpoint :: "mem \<Rightarrow> usize_ptr \<Rightarrow> usize_ptr" where "mp_mountpoint m p = load32 m (p + 8)"
definition mp_root :: "mem \<Rightarrow> usize_ptr \<Rightarrow> usize_ptr" where "mp_root m p = load32 m (p + 12)"

text \<open>The buffer \<open>res\<close> has \<^verbatim>\<open>MAX_NODE_NAME_LENGTH + 1\<close> bytes.\<close>

definition fetch_path_section :: "mem \<Rightarrow> usize_ptr \<Rightarrow> usize_ptr \<Rightarrow> usize_ptr \<Rightarrow> (bool \<times> mem) kloop" where
  "fetch_path_section m res path offset =
     lbind (lassert (m (path + offset) = 0x2F)) (\<lambda>_.
     lbind (lopt (kfind_index_first_of_from m path 0x2F (offset + 1))) (\<lambda>index.
     lbind (if index < 0 then lbind (lopt (strlen m path)) (\<lambda>n. lret n) else lret (word_of_int index)) (\<lambda>index.
     let size = index - (offset + 1)
     in if size > MAX_NODE_NAME_LENGTH + 1 then lret (False, m)
        else let m = memcpy m res (path + (offset + 1)) size
             in if size > MAX_NODE_NAME_LENGTH then Some (Inl BadAccess) else lret (True, m(res + size := 0)))))"

definition dir_entry_create :: "(usize_ptr \<Rightarrow> usize_ptr) \<Rightarrow> mem \<Rightarrow> usize_ptr \<Rightarrow> usize_ptr \<Rightarrow> usize_ptr \<Rightarrow> (usize_ptr \<times> mem) kloop" where
  "dir_entry_create kmalloc m parent child_name inode =
     lbind (lopt (strlen m child_name)) (\<lambda>len.
     lbind (lassert (len \<le> MAX_NODE_NAME_LENGTH)) (\<lambda>_.
     let entry = kmalloc (8 + len + 1)
     in lbind (lassert (entry \<noteq> NULL)) (\<lambda>_.
        let m = memcpy m (de_name entry) child_name (len + 1);
            m = store32 m (entry + 4) inode;
            m = store32 m entry parent
        in lret (entry, m))))"

text \<open>A key of the cache: the parent, the length of the name in 8 bytes, the name and its terminator.\<close>

definition dentry_hash :: fmap_hash_func where
  "dentry_hash m key_data len =
     (case murmur2_hash64 m key_data 4 of None \<Rightarrow> None
      | Some h \<Rightarrow> (case murmur2_hash64 m (key_data + 12) (load64 m (key_data + 4)) of None \<Rightarrow> None | Some h' \<Rightarrow> Some (h XOR h')))"

definition make_dentry_key :: "mem \<Rightarrow> usize_ptr \<Rightarrow> usize_ptr \<Rightarrow> usize_ptr \<Rightarrow> (u32 \<times> mem) kloop" where
  "make_dentry_key m key parent name =
     lbind (lopt (strlen m name)) (\<lambda>len.
     lbind (lassert (len \<le> MAX_NODE_NAME_LENGTH)) (\<lambda>_.
     let m = store32 m key parent;
         m = store64 m (key + 4) (ucast len);
         m = memcpy m (key + 12) name (len + 1)
     in lret (12 + len + 1, m)))"

definition dir_entry_cache_lookup :: "usize_ptr \<Rightarrow> mem \<Rightarrow> flat_hashmap \<Rightarrow> usize_ptr \<Rightarrow> usize_ptr \<Rightarrow> (usize_ptr \<times> mem) kloop" where
  "dir_entry_cache_lookup key m cache parent child_name =
     lbind (make_dentry_key m key parent child_name) (\<lambda>(key_length, m).
     lbind (fhashmap_get_data (m, cache) key (ucast key_length)) (\<lambda>res.
     lret (if res_succeed res then res_value res else NULL, m)))"

definition dir_entry_cache_insert ::
  "(usize_ptr \<Rightarrow> usize_ptr) \<Rightarrow> (usize_ptr \<Rightarrow> mem \<Rightarrow> mem) \<Rightarrow> usize_ptr \<Rightarrow> mem \<Rightarrow> flat_hashmap \<Rightarrow> usize_ptr \<Rightarrow> (mem \<times> flat_hashmap) kloop" where
  "dir_entry_cache_insert kmalloc kfree key m cache entry =
     lbind (make_dentry_key m key (de_parent m entry) (de_name entry)) (\<lambda>(key_length, m).
     lbind (fhashmap_insert kmalloc kfree (m, cache) key (ucast key_length) entry FHASHMAP_INS_FLAG_KEY_COPY) (\<lambda>(_, m, cache).
     lret (m, cache)))"

definition dir_entry_cache_drop ::
  "(usize_ptr \<Rightarrow> usize_ptr) \<Rightarrow> (usize_ptr \<Rightarrow> mem \<Rightarrow> mem) \<Rightarrow> usize_ptr \<Rightarrow> mem \<Rightarrow> flat_hashmap \<Rightarrow> usize_ptr \<Rightarrow> (mem \<times> flat_hashmap) kloop" where
  "dir_entry_cache_drop kmalloc kfree key m cache entry =
     lbind (make_dentry_key m key (de_parent m entry) (de_name entry)) (\<lambda>(key_length, m).
     lbind (fhashmap_delete kmalloc kfree (m, cache) key (ucast key_length)) (\<lambda>(_, m, cache).
     lret (m, cache)))"

text \<open>The destroy callback of the cache releases the directory entry.\<close>

definition on_destroy :: "(usize_ptr \<Rightarrow> mem \<Rightarrow> mem) \<Rightarrow> fmap_destroy_cb_func" where
  "on_destroy kfree data key_data key_length m = kfree data m"

definition init_dir_entry_cache :: "(usize_ptr \<Rightarrow> usize_ptr) \<Rightarrow> (usize_ptr \<Rightarrow> mem \<Rightarrow> mem) \<Rightarrow> flat_hashmap kres" where
  "init_dir_entry_cache kmalloc kfree = init_fhashmap_destroy_hash kmalloc dentry_hash (Some (on_destroy kfree))"

definition clean_dir_entry_cache :: "(usize_ptr \<Rightarrow> mem \<Rightarrow> mem) \<Rightarrow> mem \<times> flat_hashmap \<Rightarrow> (mem \<times> flat_hashmap) kloop" where
  "clean_dir_entry_cache kfree s = fhashmap_clear kfree s"

section \<open>Mounts\<close>

text \<open>The key of a mount is the block of 4 bytes that the directory entry starts with.\<close>

definition vfs_mount_register ::
  "(usize_ptr \<Rightarrow> usize_ptr) \<Rightarrow> (usize_ptr \<Rightarrow> mem \<Rightarrow> mem) \<Rightarrow> usize_ptr \<Rightarrow> usize_ptr \<Rightarrow> usize_ptr \<Rightarrow> usize_ptr \<Rightarrow> vfs_mount_map \<Rightarrow> vfs_mount_map kloop" where
  "vfs_mount_register kmalloc kfree new_mount target mount_name root s =
     (let m = store32 (store32 (vt_mem s) (new_mount + 12) root) (new_mount + 8) target
      in lbind (lopt (kstrdup kmalloc m mount_name)) (\<lambda>(m, name).
         let m = store32 m new_mount name
         in lbind (fhashmap_insert kmalloc kfree (m, vt_mounts s) (mp_mountpoint m new_mount) 4 new_mount 0) (\<lambda>(res, m, mounts).
            lbind (lassert (res \<ge> 0)) (\<lambda>_.
            lret (s\<lparr>vt_mem := m, vt_mounts := mounts\<rparr>)))))"

definition vfs_mount_resolve :: "vfs_mount_map \<Rightarrow> usize_ptr \<Rightarrow> usize_ptr kloop" where
  "vfs_mount_resolve s target =
     lbind (fhashmap_get_data (vt_mem s, vt_mounts s) target 4) (\<lambda>result.
     lret (if \<not> res_succeed result then NULL else res_value result))"

text \<open>\<open>root_inode\<close> is what the driver of the superblock returns, \<open>empty_name\<close> the address of an empty string.\<close>

definition vfs_mount_set_root ::
  "(usize_ptr \<Rightarrow> usize_ptr) \<Rightarrow> (usize_ptr \<Rightarrow> mem \<Rightarrow> mem) \<Rightarrow> usize_ptr \<Rightarrow> usize_ptr \<Rightarrow> usize_ptr \<Rightarrow> vfs_mount_map \<Rightarrow> vfs_mount_map kloop" where
  "vfs_mount_set_root kmalloc kfree key empty_name root_inode s =
     lbind (lassert (root_inode \<noteq> NULL)) (\<lambda>_.
     lbind (dir_entry_create kmalloc (vt_mem s) NULL empty_name root_inode) (\<lambda>(root_dentry, m).
     lbind (dir_entry_cache_insert kmalloc kfree key m (vt_dcache s) root_dentry) (\<lambda>(m, cache).
     lret (s\<lparr>vt_mem := m, vt_dcache := cache, vt_root := root_dentry\<rparr>))))"

definition vfs_mount_init_tree :: "(usize_ptr \<Rightarrow> usize_ptr) \<Rightarrow> (usize_ptr \<Rightarrow> mem \<Rightarrow> mem) \<Rightarrow> mem \<Rightarrow> vfs_mount_map kres" where
  "vfs_mount_init_tree kmalloc kfree m =
     kbind (init_fhashmap kmalloc) (\<lambda>mounts.
     kbind (init_dir_entry_cache kmalloc kfree) (\<lambda>dcache.
     Inr \<lparr>vt_mem = m, vt_root = NULL, vt_mounts = mounts, vt_dcache = dcache\<rparr>))"

section \<open>Path lookup\<close>

definition path_lookup_step ::
  "(usize_ptr \<Rightarrow> usize_ptr) \<Rightarrow> (usize_ptr \<Rightarrow> mem \<Rightarrow> mem) \<Rightarrow> fs_lookup \<Rightarrow> usize_ptr \<Rightarrow> usize_ptr \<Rightarrow> vfs_mount_map \<Rightarrow> usize_ptr \<Rightarrow> usize_ptr \<Rightarrow> usize_ptr \<Rightarrow>
   (int \<times> usize_ptr \<times> vfs_mount_map) kloop" where
  "path_lookup_step kmalloc kfree lookup sub key s parent path offset =
     (let m = memset (vt_mem s) sub 0 (MAX_NODE_NAME_LENGTH + 1)
      in lbind (fetch_path_section m sub path offset) (\<lambda>(fetched, m).
         if \<not> fetched then lret (- VFS_ERR_NAMETOOLONG, NULL, s\<lparr>vt_mem := m\<rparr>)
         else
           lbind (dir_entry_cache_lookup key m (vt_dcache s) parent sub) (\<lambda>(entry, m).
           if entry \<noteq> NULL then lret (0, entry, s\<lparr>vt_mem := m\<rparr>)
           else
             lbind (lassert (parent \<noteq> NULL)) (\<lambda>_.
             lbind (lassert (de_inode m parent \<noteq> NULL)) (\<lambda>_.
             lbind (lassert (inode_ops m (de_inode m parent) \<noteq> NULL)) (\<lambda>_.
             lbind (lassert (ops_lookup m (inode_ops m (de_inode m parent)) \<noteq> NULL)) (\<lambda>_.
             let (result, inode, m) = lookup (de_inode m parent) sub m
             in if result < 0 then lret (result, NULL, s\<lparr>vt_mem := m\<rparr>)
                else lbind (dir_entry_create kmalloc m parent sub inode) (\<lambda>(entry, m).
                     lbind (dir_entry_cache_insert kmalloc kfree key m (vt_dcache s) entry) (\<lambda>(m, cache).
                     lret (0, entry, s\<lparr>vt_mem := m, vt_dcache := cache\<rparr>))))))))))"

text \<open>The loop of \<^verbatim>\<open>vfs_lookup_path\<close>: the error code and the entry that was reached.\<close>

partial_function (option) path_loop ::
  "(usize_ptr \<Rightarrow> usize_ptr) \<Rightarrow> (usize_ptr \<Rightarrow> mem \<Rightarrow> mem) \<Rightarrow> fs_lookup \<Rightarrow> usize_ptr \<Rightarrow> usize_ptr \<Rightarrow> usize_ptr \<Rightarrow> vfs_mount_map \<Rightarrow> usize_ptr \<Rightarrow> usize_ptr \<Rightarrow>
   (int \<times> usize_ptr \<times> vfs_mount_map) kloop" where
  "path_loop kmalloc kfree lookup sub key path s cur offset =
     (if vt_mem s (path + offset) = 0 then lret (0, cur, s)
      else lbind (path_lookup_step kmalloc kfree lookup sub key s cur path offset) (\<lambda>(result, child, s).
           if child = NULL \<or> result < 0 then lret (result, NULL, s)
           else lbind (vfs_mount_resolve s child) (\<lambda>mount_res.
                let cur = (if mount_res \<noteq> NULL then mount_res else child)
                in lbind (lopt (kfind_index_first_of_from (vt_mem s) path 0x2F (offset + 1))) (\<lambda>nxt.
                   if nxt < 0 then lret (0, cur, s)
                   else path_loop kmalloc kfree lookup sub key path s cur (word_of_int nxt)))))"

declare path_loop.simps [code]

definition vfs_lookup_path ::
  "(usize_ptr \<Rightarrow> usize_ptr) \<Rightarrow> (usize_ptr \<Rightarrow> mem \<Rightarrow> mem) \<Rightarrow> fs_lookup \<Rightarrow> usize_ptr \<Rightarrow> usize_ptr \<Rightarrow> vfs_mount_map \<Rightarrow> usize_ptr \<Rightarrow>
   (int \<times> usize_ptr \<times> vfs_mount_map) kloop" where
  "vfs_lookup_path kmalloc kfree lookup sub key s path =
     (if path = NULL \<or> vt_mem s path \<noteq> 0x2F then lret (- VFS_ERR_INVAL, NULL, s)
      else if vt_mem s (path + 1) = 0 then lret (0, vt_root s, s)
      else path_loop kmalloc kfree lookup sub key path s (vt_root s) 0)"

section \<open>Inode cache\<close>

text \<open>An inode carries the address and the length of its identification, which is its key.\<close>

definition inode_fs_id :: "mem \<Rightarrow> usize_ptr \<Rightarrow> usize_ptr" where "inode_fs_id m i = load32 m (i + 4)"
definition inode_fs_id_length :: "mem \<Rightarrow> usize_ptr \<Rightarrow> usize_ptr" where "inode_fs_id_length m i = load32 m (i + 8)"

definition inode_cache_insert :: "(usize_ptr \<Rightarrow> usize_ptr) \<Rightarrow> (usize_ptr \<Rightarrow> mem \<Rightarrow> mem) \<Rightarrow> mem \<times> flat_hashmap \<Rightarrow> usize_ptr \<Rightarrow> (mem \<times> flat_hashmap) kloop" where
  "inode_cache_insert kmalloc kfree s node =
     lbind (fhashmap_insert kmalloc kfree s (inode_fs_id (fst s) node) (ucast (inode_fs_id_length (fst s) node)) node 0) (\<lambda>(_, s). lret s)"

definition inode_cache_fetch :: "mem \<times> flat_hashmap \<Rightarrow> usize_ptr \<Rightarrow> usize_ptr \<Rightarrow> usize_ptr kloop" where
  "inode_cache_fetch s fs_id fs_id_length =
     lbind (fhashmap_get_data s fs_id (ucast fs_id_length)) (\<lambda>res. lret (if \<not> res_succeed res then NULL else res_value res))"

definition inode_cache_drop :: "(usize_ptr \<Rightarrow> usize_ptr) \<Rightarrow> (usize_ptr \<Rightarrow> mem \<Rightarrow> mem) \<Rightarrow> mem \<times> flat_hashmap \<Rightarrow> usize_ptr \<Rightarrow> (mem \<times> flat_hashmap) kloop" where
  "inode_cache_drop kmalloc kfree s node =
     lbind (fhashmap_delete kmalloc kfree s (inode_fs_id (fst s) node) (ucast (inode_fs_id_length (fst s) node))) (\<lambda>(_, s). lret s)"

definition init_inode_cache :: "(usize_ptr \<Rightarrow> usize_ptr) \<Rightarrow> fmap_hash_func \<Rightarrow> fmap_destroy_cb_func option \<Rightarrow> flat_hashmap kres" where
  "init_inode_cache kmalloc fs_inode_hash inode_destroy_cb = init_fhashmap_destroy_hash kmalloc fs_inode_hash inode_destroy_cb"

end
