(* ===== verification/Vfs_Props.thy ===== *)
theory Vfs_Props
  imports Vfs
begin

text \<open>
  Properties of the file system layer: the parts of a path, with the length at which the buffer is overrun, the inode
  cache, and what a mount does to the entries of the same directory.
\<close>

section \<open>Parts of a path\<close>

text \<open>The part of a path behind the separator at \<open>off\<close> has \<open>k\<close> characters.\<close>

definition path_part :: "mem \<Rightarrow> usize_ptr \<Rightarrow> nat \<Rightarrow> nat \<Rightarrow> bool" where
  "path_part m path off k \<longleftrightarrow> (\<exists>n. cstr_len m path n \<and> n < 2 ^ 31 \<and> off + 1 + k \<le> n \<and> m (path + of_nat off) = 0x2F \<and>
     (\<forall>i<k. m (path + of_nat (off + 1 + i)) \<noteq> 0x2F) \<and> (off + 1 + k = n \<or> m (path + of_nat (off + 1 + k)) = 0x2F))"

lemma sint_of_nat_small: "x < 2 ^ 31 \<Longrightarrow> sint (of_nat x :: u32) = int x"
  by (simp add: signed_of_nat signed_take_bit_int_eq_self)

lemma path_part_find:
  assumes "path_part m path off k"
  shows "\<exists>n. strlen m path = Some (of_nat n) \<and> off + 1 + k \<le> n \<and> n < 2 ^ 31 \<and>
    kfind_index_first_of_from m path 0x2F (of_nat off + 1) = Some (if off + 1 + k = n then - 1 else int (off + 1 + k))"
proof -
  obtain n where n: "cstr_len m path n" "n < 2 ^ 31" "off + 1 + k \<le> n" "\<forall>i<k. m (path + of_nat (off + 1 + i)) \<noteq> 0x2F"
      "off + 1 + k = n \<or> m (path + of_nat (off + 1 + k)) = 0x2F"
    using assms by (auto simp: path_part_def)
  have at: "path + (of_nat off + 1) + of_nat i = path + of_nat (off + 1 + i)" for i by (simp add: add_ac)
  have "\<forall>i<k. m (path + (of_nat off + 1) + of_nat i) \<noteq> 0x2F \<and> m (path + (of_nat off + 1) + of_nat i) \<noteq> 0"
  proof (intro allI impI)
    fix i assume i: "i < k"
    then have "off + 1 + i < n" using n(3) by simp
    then have "m (path + of_nat (off + 1 + i)) \<noteq> 0" using n(1) unfolding cstr_len_def by blast
    then show "m (path + (of_nat off + 1) + of_nat i) \<noteq> 0x2F \<and> m (path + (of_nat off + 1) + of_nat i) \<noteq> 0"
      using n(4) i unfolding at by blast
  qed
  from kfind_loop_eq [OF this, of path]
  have "kfind_index_first_of_from m path 0x2F (of_nat off + 1) = kfind_loop m path 0x2F (path + of_nat (off + 1 + k))"
    unfolding kfind_index_first_of_from_def at .
  also have "\<dots> = Some (if off + 1 + k = n then - 1 else int (off + 1 + k))"
  proof (cases "off + 1 + k = n")
    case True
    then show ?thesis using n(1) by (subst kfind_loop.simps) (simp add: cstr_len_def)
  next
    case False
    then show ?thesis using n(2,3,5) sint_of_nat_small [of "off + 1 + k"] by (subst kfind_loop.simps) simp
  qed
  finally show ?thesis using strlen_eq [OF n(1)] n(2,3) by blast
qed

text \<open>C33. The part of a path behind a separator is copied to the buffer with a terminator when it has at most 255
  characters; with 257 or more the caller gets the error for a name that is too long. With exactly 256 characters
  the test lets the name through and the terminator is written behind the end of the buffer.
\<close>

theorem fetch_path_section_parts:
  assumes "path_part m path off k"
  shows "fetch_path_section m res path (of_nat off) =
    (if k \<le> 255 then lret (True, (memcpy m res (path + (of_nat off + 1)) (of_nat k))(res + of_nat k := 0))
     else if k = 256 then Some (Inl BadAccess) else lret (False, m))"
proof -
  obtain n where n: "strlen m path = Some (of_nat n)" "off + 1 + k \<le> n" "n < 2 ^ 31"
      "kfind_index_first_of_from m path 0x2F (of_nat off + 1) = Some (if off + 1 + k = n then - 1 else int (off + 1 + k))"
    using path_part_find [OF assms] by blast
  have k: "unat (of_nat k :: u32) = k" using n(2,3) by (simp add: unat_of_nat)
  have "(of_nat (off + 1 + k) :: u32) - (of_nat off + 1) = of_nat k"
      "off + 1 + k = n \<Longrightarrow> (of_nat n :: u32) - (of_nat off + 1) = of_nat k" by (simp, drule sym, simp)
  moreover have "m (path + of_nat off) = 0x2F" using assms by (auto simp: path_part_def)
  ultimately have "fetch_path_section m res path (of_nat off) =
      (if (of_nat k :: u32) > 256 then lret (False, m)
       else if (of_nat k :: u32) > 255 then Some (Inl BadAccess)
       else lret (True, (memcpy m res (path + (of_nat off + 1)) (of_nat k))(res + of_nat k := 0)))"
    using n by (cases "off + 1 + k = n") (simp_all add: fetch_path_section_def MAX_NODE_NAME_LENGTH_def Let_def)
  then show ?thesis using k by (auto simp: word_less_nat_alt)
qed

text \<open>The path \<^verbatim>\<open>/ab/c\<close>.\<close>

definition demo_path :: mem where
  "demo_path a = (if a = 0x1000 \<or> a = 0x1003 then 0x2F else if a = 0x1001 then 0x61 else if a = 0x1002 then 0x62 else if a = 0x1004 then 0x63 else 0)"

theorem fetch_path_section_parts_witness:
  "fetch_path_section demo_path 0x2000 0x1000 0 = lret (True, (memcpy demo_path 0x2000 0x1001 2)(0x2002 := 0))"
proof -
  have "cstr_len demo_path 0x1000 (Suc (Suc (Suc (Suc (Suc 0)))))"
    unfolding cstr_len_Suc by (simp add: cstr_len_def demo_path_def)
  then have "cstr_len demo_path 0x1000 5" by (simp add: eval_nat_numeral)
  then have "path_part demo_path 0x1000 0 2"
    unfolding path_part_def by (intro exI [of _ 5]) (auto simp: demo_path_def less_2_cases_iff)
  from fetch_path_section_parts [OF this, of "0x2000"] show ?thesis by simp
qed

section \<open>Inodes\<close>

text \<open>An inode whose identification is not in the cache yet is found under it after it was inserted.\<close>

lemma inode_cache_insert_fetch:
  assumes "fhm_ok H (m, hm)" "fhm_room kmalloc (m, hm)" "node \<noteq> NULL"
    "fh_abs m hm (bytes m (inode_fs_id m node) (unat (inode_fs_id_length m node))) = None"
    "bytes m fs_id (unat len) = bytes m (inode_fs_id m node) (unat (inode_fs_id_length m node))"
  shows "lbind (inode_cache_insert kmalloc kfree (m, hm) node) (\<lambda>s. inode_cache_fetch s fs_id len) = lret node"
proof -
  let ?p = "(inode_fs_id m node, ucast (inode_fs_id_length m node) :: u64)"
  have key: "fhm_key (m, hm) ?p = Some (bytes m (inode_fs_id m node) (unat (inode_fs_id_length m node)))"
      "fhm_key (m, hm) (fs_id, ucast len) = Some (bytes m fs_id (unat len))"
    using unsigned_less [of "inode_fs_id_length m node"] unsigned_less [of len] by (simp_all add: fhm_key_def)
  have "fhm_view (m, hm) (bytes m (inode_fs_id m node) (unat (inode_fs_id_length m node))) = None" using assms(4) by (simp add: fhm_view_def)
  from fhm.ins_then_get [OF assms(1,2) key(1) this key(2), of kfree node]
  have "lbind (fhashmap_insert kmalloc kfree (m, hm) (inode_fs_id m node) (ucast (inode_fs_id_length m node)) node 0)
      (\<lambda>(r, s'). fhashmap_get_data s' fs_id (ucast len)) = lret (lookup_result (Some node))"
    using assms(5) by simp
  then obtain r s' where "fhashmap_insert kmalloc kfree (m, hm) (inode_fs_id m node) (ucast (inode_fs_id_length m node)) node 0 = lret (r, s')"
      "fhashmap_get_data s' fs_id (ucast len) = lret (lookup_result (Some node))"
    unfolding lbind_ret_iff by auto
  then show ?thesis by (simp add: inode_cache_insert_def inode_cache_fetch_def lookup_result_def)
qed

section \<open>Mounts\<close>

lemma load32_bytes_inj:
  assumes "load32 m a = load32 m b"
  shows "bytes m a 4 = bytes m b 4"
proof -
  have byte: "ucast (ucast x0 OR push_bit 8 (ucast x1) OR push_bit 16 (ucast x2) OR push_bit 24 (ucast x3) :: u32) = x0"
    "ucast (drop_bit 8 (ucast x0 OR push_bit 8 (ucast x1) OR push_bit 16 (ucast x2) OR push_bit 24 (ucast x3) :: u32)) = x1"
    "ucast (drop_bit 16 (ucast x0 OR push_bit 8 (ucast x1) OR push_bit 16 (ucast x2) OR push_bit 24 (ucast x3) :: u32)) = x2"
    "ucast (drop_bit 24 (ucast x0 OR push_bit 8 (ucast x1) OR push_bit 16 (ucast x2) OR push_bit 24 (ucast x3) :: u32)) = x3" for x0 x1 x2 x3 :: u8
    by (rule bit_word_eqI, auto simp: bit_simps dest: bit_imp_le_length)+
  have "m a = m b" "m (a + 1) = m (b + 1)" "m (a + 2) = m (b + 2)" "m (a + 3) = m (b + 3)"
    using arg_cong [OF assms, of "\<lambda>w. ucast w :: u8"] arg_cong [OF assms, of "\<lambda>w. ucast (drop_bit 8 w) :: u8"]
      arg_cong [OF assms, of "\<lambda>w. ucast (drop_bit 16 w) :: u8"] arg_cong [OF assms, of "\<lambda>w. ucast (drop_bit 24 w) :: u8"]
    unfolding load32_def byte by simp_all
  then show ?thesis by (simp add: bytes_def numeral_eq_Suc add.commute)
qed

lemma mount_register_run:
  assumes "vfs_mount_init_tree kmalloc kfree m = Inr s" "\<forall>n. kmalloc n \<noteq> NULL"
    and "kstrdup kmalloc (store32 (store32 (vt_mem s) (new_mount + 12) root) (new_mount + 8) target) name = Some (m1, nm)"
    and m2: "m2 = store32 m1 new_mount nm"
  shows "\<exists>hm. vfs_mount_register kmalloc kfree new_mount target name root s = lret (s\<lparr>vt_mem := m2, vt_mounts := hm\<rparr>) \<and>
    fh_inv (murmur64_ref 0xe17a1465) m2 hm \<and> fh_abs m2 hm = Map.empty(bytes m2 (mp_mountpoint m2 new_mount) 4 \<mapsto> new_mount)"
proof -
  from assms(1) have run: "init_fhashmap_custom kmalloc INIT_CAPACITY murmur2_hash64 None = Inr (vt_mounts s)"
    by (auto simp: vfs_mount_init_tree_def init_fhashmap_def kbind_Inr_iff)
  note cap = init_capacity_64 [OF run]
  have "unat (fh_capacity (vt_mounts s)) \<le> 2 ^ 27" by (simp add: cap)
  note init = init_custom_correct [OF run murmur_hash_ok this]
  obtain hm where hm: "fhashmap_insert kmalloc kfree (m2, vt_mounts s) (mp_mountpoint m2 new_mount) 4 new_mount 0 = lret (0, m2, hm)"
      "fh_inv (murmur64_ref 0xe17a1465) m2 hm" "fh_abs m2 hm = Map.empty(bytes m2 (mp_mountpoint m2 new_mount) 4 \<mapsto> new_mount)"
    using insert_new_correct [where kmalloc = kmalloc and l = 4 and flags = 0, OF init(1) _ _ _ copy_safe_0 refl _ refl, of m2 "mp_mountpoint m2 new_mount" kfree new_mount]
      init(2) cap assms(2) by auto
  then show ?thesis using assms(3) by (intro exI [of _ hm]) (simp add: vfs_mount_register_def m2 Let_def)
qed

text \<open>C38. A mount is found under the first four bytes of the directory entry it is put on, which are its parent. After mounting on one
  entry of a directory every entry of this directory is resolved to the mount, and what it is resolved to is
  the mount record and not the root directory in it, although the caller goes on with it as a directory entry.
\<close>

theorem mount_covers_siblings:
  assumes "vfs_mount_init_tree kmalloc kfree m = Inr s" "\<forall>n. kmalloc n \<noteq> NULL"
    and "vfs_mount_register kmalloc kfree new_mount target name root s = lret s'"
    and "de_parent (vt_mem s') e = de_parent (vt_mem s') (mp_mountpoint (vt_mem s') new_mount)"
  shows "vfs_mount_resolve s' e = lret new_mount"
proof -
  obtain m1 nm where m1: "kstrdup kmalloc (store32 (store32 (vt_mem s) (new_mount + 12) root) (new_mount + 8) target) name = Some (m1, nm)"
    using assms(3) by (auto simp: vfs_mount_register_def lopt_def lbind_ret_iff Let_def)
  define m2 where "m2 = store32 m1 new_mount nm"
  obtain hm where hm: "vfs_mount_register kmalloc kfree new_mount target name root s = lret (s\<lparr>vt_mem := m2, vt_mounts := hm\<rparr>)"
      "fh_inv (murmur64_ref 0xe17a1465) m2 hm" "fh_abs m2 hm = Map.empty(bytes m2 (mp_mountpoint m2 new_mount) 4 \<mapsto> new_mount)"
    using mount_register_run [OF assms(1,2) m1 m2_def] by blast
  then have s': "s' = s\<lparr>vt_mem := m2, vt_mounts := hm\<rparr>" using assms(3) by simp
  have "load32 m2 e = load32 m2 (mp_mountpoint m2 new_mount)" using assms(4) unfolding s' de_parent_def by simp
  then have key: "bytes m2 e 4 = bytes m2 (mp_mountpoint m2 new_mount) 4" by (rule load32_bytes_inj)
  have "fh_abs m2 hm (bytes m2 e 4) = Some new_mount" unfolding hm(3) key by simp
  then have "fhashmap_get_data (m2, hm) e 4 = lret (lookup_result (Some new_mount))"
    using get_data_correct [OF hm(2), of 4 e] by simp
  then show ?thesis by (simp add: vfs_mount_resolve_def s' lookup_result_def)
qed

theorem mount_covers_siblings_witness:
  "\<exists>s s'. vfs_mount_init_tree (\<lambda>_. 0x5000) (\<lambda>_ m. m) (\<lambda>_. 0) = Inr s \<and> vfs_mount_register (\<lambda>_. 0x5000) (\<lambda>_ m. m) 0x6000 0x100 0x300 0x400 s = lret s' \<and>
    vfs_mount_resolve s' 0x200 = lret 0x6000"
proof -
  obtain s where s: "vfs_mount_init_tree (\<lambda>_. 0x5000) (\<lambda>_ m. m) (\<lambda>_. 0) = Inr s" "vt_mem s = (\<lambda>_. 0)"
    by (simp add: vfs_mount_init_tree_def init_fhashmap_def init_dir_entry_cache_def init_fhashmap_destroy_hash_def init_fhashmap_custom_def Let_def
        INIT_CAPACITY_def align_up_pow2_def smear_def)
  let ?m = "store32 (store32 (\<lambda>_. 0) 0x600C 0x400) 0x6008 0x100"
  have "cstr_len ?m 0x300 0" by (simp add: cstr_len_def store32_def)
  then have k: "kstrdup (\<lambda>_. 0x5000) ?m 0x300 = Some (?m(0x5000 := 0), 0x5000)"
    using strlen_eq [of ?m "0x300" 0] by (simp add: kstrdup_def memcpy_def)
  define m2 where "m2 = store32 (?m(0x5000 := 0)) 0x6000 0x5000"
  obtain hm where hm: "vfs_mount_register (\<lambda>_. 0x5000) (\<lambda>_ m. m) 0x6000 0x100 0x300 0x400 s = lret (s\<lparr>vt_mem := m2, vt_mounts := hm\<rparr>)"
    using mount_register_run [OF s(1), of "0x6000" "0x400" "0x100" "0x300" "?m(0x5000 := 0)" "0x5000"] k s(2) by (auto simp: m2_def)
  have "mp_mountpoint m2 0x6000 = 0x100"
    by (simp add: m2_def mp_mountpoint_def load32_def store32_def)
  moreover have "de_parent m2 0x200 = 0" "de_parent m2 0x100 = 0" by (simp_all add: m2_def de_parent_def load32_def store32_def)
  ultimately have "vfs_mount_resolve (s\<lparr>vt_mem := m2, vt_mounts := hm\<rparr>) 0x200 = lret 0x6000"
    using mount_covers_siblings [OF s(1) _ hm, of "0x200"] by simp
  then show ?thesis using s(1) hm by blast
qed

end
