(* ===== verification/Interrupts.thy ===== *)
theory Interrupts
  imports Kernel_Prelude
begin

unbundle bit_operations_syntax

text \<open>
  Descriptor tables and the dispatch of interrupts: \<^verbatim>\<open>kernel/arch/i386/interrupts/irq.c\<close>, the tables of the boot code
  (\<^verbatim>\<open>boot/early_idt.c\<close>, \<^verbatim>\<open>boot/isr.c\<close>) and the segments (\<^verbatim>\<open>boot/gdt.c\<close>).

  The addresses of the assembly stubs (\<open>isr\<close>) and of \<^verbatim>\<open>cpu_halt\<close> are parameters. A handler is the address of a function; \<open>call\<close> runs
  the function at an address. What the handlers print is left out. Loading a table is the pair of limit and
  base that the processor gets.
\<close>

section \<open>Gates\<close>

record idt_entry =
  ie_offset_low :: u16
  ie_segment_selector :: u16
  ie_zero :: u8
  ie_type_attr :: u8
  ie_offset_high :: u16

record irq_vars =
  idt_entries :: "idt_entry list"
  interrupt_callback_entries :: "usize_ptr list"
  idt_loaded :: "u16 \<times> u32"

definition IDT_ENTRIES :: nat where "IDT_ENTRIES = 256"
definition BASE_INTERRUPTS_ENTRIES :: nat where "BASE_INTERRUPTS_ENTRIES = 0x20"
definition IDT_FLAGS :: "u8 \<Rightarrow> u8 \<Rightarrow> u8" where
  "IDT_FLAGS type dpl = push_bit 7 1 OR push_bit 5 (dpl AND 3) OR (type AND 0xF)"
definition IDT_INTERRUPT_32_DPL0 :: u8 where "IDT_INTERRUPT_32_DPL0 = IDT_FLAGS 0xE 0"
definition IDT_TRAP_32_PL0 :: u8 where "IDT_TRAP_32_PL0 = IDT_FLAGS 0xF 0"
definition SEGMENT_SELECTOR_CODE_DPL0 :: u16 where "SEGMENT_SELECTOR_CODE_DPL0 = 0x08 AND 0xFFFF"
definition IRQ_VECTOR_PAGE_FAULT :: nat where "IRQ_VECTOR_PAGE_FAULT = 14"

definition make_gate :: "u32 \<Rightarrow> u16 \<Rightarrow> u8 \<Rightarrow> idt_entry" where
  "make_gate handler_addr selector type_attr =
     \<lparr>ie_offset_low = ucast (handler_addr AND 0xFFFF), ie_segment_selector = selector, ie_zero = 0, ie_type_attr = type_attr,
      ie_offset_high = ucast (drop_bit 16 handler_addr AND 0xFFFF)\<rparr>"

definition set_idt_entry :: "nat \<Rightarrow> u32 \<Rightarrow> u16 \<Rightarrow> u8 \<Rightarrow> irq_vars \<Rightarrow> irq_vars kres" where
  "set_idt_entry entry_index handler_addr selector type_attr s =
     (if entry_index < length (idt_entries s)
      then Inr (s\<lparr>idt_entries := (idt_entries s)[entry_index := make_gate handler_addr selector type_attr]\<rparr>) else Inl BadAccess)"

definition irq_register_handler :: "nat \<Rightarrow> usize_ptr \<Rightarrow> irq_vars \<Rightarrow> irq_vars kres" where
  "irq_register_handler vector handle s =
     (if vector < length (interrupt_callback_entries s)
      then Inr (s\<lparr>interrupt_callback_entries := (interrupt_callback_entries s)[vector := handle]\<rparr>) else Inl BadAccess)"

text \<open>The gates of \<^verbatim>\<open>init_irq\<close>: the stubs 0 to 47, where 1, 3 and 4 are trap gates.\<close>

definition gate_type :: "nat \<Rightarrow> u8" where
  "gate_type i = (if i = 1 \<or> i = 3 \<or> i = 4 then IDT_TRAP_32_PL0 else IDT_INTERRUPT_32_DPL0)"

definition init_irq :: "(nat \<Rightarrow> u32) \<Rightarrow> u32 \<Rightarrow> usize_ptr \<Rightarrow> u32 \<Rightarrow> irq_vars \<Rightarrow> irq_vars kres" where
  "init_irq isr cpu_halt interrupt_page_fault idt_addr s =
     kbind (kfor (\<lambda>i s.
       if i < length (interrupt_callback_entries s)
       then set_idt_entry i cpu_halt SEGMENT_SELECTOR_CODE_DPL0 IDT_INTERRUPT_32_DPL0
              (s\<lparr>interrupt_callback_entries := (interrupt_callback_entries s)[i := 0]\<rparr>)
       else Inl BadAccess) [0..<IDT_ENTRIES] s) (\<lambda>s.
     kbind (kfor (\<lambda>i. set_idt_entry i (isr i) SEGMENT_SELECTOR_CODE_DPL0 (gate_type i)) [0..<48] s) (\<lambda>s.
     kbind (irq_register_handler IRQ_VECTOR_PAGE_FAULT interrupt_page_fault s) (\<lambda>s.
     Inr (s\<lparr>idt_loaded := (of_nat (8 * IDT_ENTRIES) - 1, idt_addr)\<rparr>))))"

record irq_frame =
  err_code :: u32
  irq_index :: u32
  edi :: u32
  esi :: u32
  ebp :: u32
  esp_dummy :: u32
  ebx :: u32
  edx :: u32
  ecx :: u32
  eax :: u32
  user_esp :: u32
  user_ss :: u32
  eflags :: u32
  cs :: u32
  eip :: u32

definition idt_c_handler :: "(usize_ptr \<Rightarrow> irq_frame \<Rightarrow> 's \<Rightarrow> 's kres) \<Rightarrow> irq_vars \<Rightarrow> irq_frame \<Rightarrow> 's \<Rightarrow> 's kres" where
  "idt_c_handler call s frame st =
     (let v = unat (irq_index frame)
      in if v < length (interrupt_callback_entries s)
         then let callback = interrupt_callback_entries s ! v in if callback \<noteq> 0 then call callback frame st else Inr st
         else Inl BadAccess)"

definition irq_frame_get_error :: "irq_frame \<Rightarrow> usize_ptr" where
  "irq_frame_get_error frame = err_code frame"

section \<open>The tables of the boot code\<close>

definition early_set_idt_callback :: "nat \<Rightarrow> u32 \<Rightarrow> irq_vars \<Rightarrow> irq_vars kres" where
  "early_set_idt_callback index handler_addr s =
     (if index < length (idt_entries s)
      then Inr (s\<lparr>idt_entries := (idt_entries s)[index := (idt_entries s ! index)
             \<lparr>ie_offset_low := ucast (handler_addr AND 0xFFFF), ie_offset_high := ucast (drop_bit 16 handler_addr AND 0xFFFF)\<rparr>]\<rparr>)
      else Inl BadAccess)"

definition early_set_interrupt_c_callback :: "u8 \<Rightarrow> usize_ptr \<Rightarrow> irq_vars \<Rightarrow> irq_vars kres" where
  "early_set_interrupt_c_callback entry_index callback s =
     (if unat entry_index < length (interrupt_callback_entries s)
      then Inr (s\<lparr>interrupt_callback_entries := (interrupt_callback_entries s)[unat entry_index := callback]\<rparr>) else Inl BadAccess)"

definition setup_early_idt :: "(nat \<Rightarrow> u32) \<Rightarrow> u32 \<Rightarrow> u32 \<Rightarrow> irq_vars \<Rightarrow> irq_vars kres" where
  "setup_early_idt early_isr c_handler idt_addr s =
     kbind (kfor (\<lambda>i s.
       if i < length (interrupt_callback_entries s)
       then set_idt_entry i c_handler SEGMENT_SELECTOR_CODE_DPL0 IDT_INTERRUPT_32_DPL0
              (s\<lparr>interrupt_callback_entries := (interrupt_callback_entries s)[i := 0]\<rparr>)
       else Inl BadAccess) [0..<IDT_ENTRIES] s) (\<lambda>s.
     kbind (kfor (\<lambda>i. set_idt_entry i (early_isr i) SEGMENT_SELECTOR_CODE_DPL0 (gate_type i)) [0..<32] s) (\<lambda>s.
     Inr (s\<lparr>idt_loaded := (of_nat (8 * IDT_ENTRIES) - 1, idt_addr)\<rparr>)))"

definition init_boot_isr :: "usize_ptr \<Rightarrow> usize_ptr \<Rightarrow> usize_ptr \<Rightarrow> irq_vars \<Rightarrow> irq_vars kres" where
  "init_boot_isr interrupt_div0 interrupt_gen_prot interrupt_page_fault s =
     kbind (early_set_interrupt_c_callback 0 interrupt_div0 s) (\<lambda>s.
     kbind (early_set_interrupt_c_callback 13 interrupt_gen_prot s)
       (early_set_interrupt_c_callback 14 interrupt_page_fault))"

text \<open>A call through a pointer that is NULL is outside of the program.\<close>

definition call_ptr :: "(usize_ptr \<Rightarrow> u32 \<Rightarrow> 's \<Rightarrow> 's kres) \<Rightarrow> usize_ptr \<Rightarrow> u32 \<Rightarrow> 's \<Rightarrow> 's kres" where
  "call_ptr call p arg st = (if p = 0 then Inl BadAccess else call p arg st)"

definition early_idt_c_handler :: "(usize_ptr \<Rightarrow> u32 \<Rightarrow> 's \<Rightarrow> 's kres) \<Rightarrow> irq_vars \<Rightarrow> u8 \<Rightarrow> u32 \<Rightarrow> 's \<Rightarrow> 's kres" where
  "early_idt_c_handler call s interrupt_number error_code st =
     kbind (if unat interrupt_number \<ge> BASE_INTERRUPTS_ENTRIES
            then call_ptr call (interrupt_callback_entries s ! unat interrupt_number) error_code st else Inr st)
       (call_ptr call (interrupt_callback_entries s ! unat interrupt_number) error_code)"

section \<open>Segments\<close>

record gdt_entry =
  ge_limit_low :: u16
  ge_base_low :: u16
  ge_base_middle :: u8
  ge_access :: u8
  ge_granularity :: u8
  ge_base_high :: u8

definition set_gdt_entry :: "u32 \<Rightarrow> u32 \<Rightarrow> u16 \<Rightarrow> gdt_entry" where
  "set_gdt_entry base limit flag =
     \<lparr>ge_limit_low = ucast (limit AND 0xFFFF), ge_base_low = ucast (base AND 0xFFFF), ge_base_middle = ucast (drop_bit 16 base AND 0xFF),
      ge_access = ucast (flag AND 0xFF), ge_granularity = ucast (drop_bit 16 limit AND 0x0F) OR ucast (drop_bit 8 flag AND 0xF0),
      ge_base_high = ucast (drop_bit 24 base AND 0xFF)\<rparr>"

definition seg_flags :: "u16 \<Rightarrow> u16 \<Rightarrow> u16" where
  "seg_flags priv type = push_bit 4 1 OR push_bit 7 1 OR push_bit 12 0 OR push_bit 13 0 OR push_bit 14 1 OR push_bit 15 1 OR
     push_bit 5 (priv AND 3) OR type"

definition GDT_CODE_PL0 :: u16 where "GDT_CODE_PL0 = seg_flags 0 0x0A"
definition GDT_DATA_PL0 :: u16 where "GDT_DATA_PL0 = seg_flags 0 0x02"
definition GDT_CODE_PL3 :: u16 where "GDT_CODE_PL3 = seg_flags 3 0x0A"
definition GDT_DATA_PL3 :: u16 where "GDT_DATA_PL3 = seg_flags 3 0x02"

definition init_gdt :: "gdt_entry list" where
  "init_gdt = [set_gdt_entry 0 0 0, set_gdt_entry 0 0xFFFFF GDT_CODE_PL0, set_gdt_entry 0 0xFFFFF GDT_DATA_PL0,
     set_gdt_entry 0 0xFFFFF GDT_CODE_PL3, set_gdt_entry 0 0xFFFFF GDT_DATA_PL3]"

definition load_gdt :: "u32 \<Rightarrow> gdt_entry list \<Rightarrow> u16 \<times> u32" where
  "load_gdt gdt_addr entries = (of_nat (8 * length entries) - 1, gdt_addr)"

section \<open>What the processor does with the tables\<close>

text \<open>The address, the privilege level, the presence and the kind of a gate, and the fields of a segment.\<close>

definition gate_target :: "idt_entry \<Rightarrow> u32" where
  "gate_target e = ucast (ie_offset_low e) OR push_bit 16 (ucast (ie_offset_high e))"

definition gate_kind :: "idt_entry \<Rightarrow> bool \<times> nat \<times> nat \<times> u16" where
  "gate_kind e = (bit (ie_type_attr e) 7, unat (drop_bit 5 (ie_type_attr e) AND 3), unat (ie_type_attr e AND 0x1F), ie_segment_selector e)"

definition segment_base :: "gdt_entry \<Rightarrow> u32" where
  "segment_base e = ucast (ge_base_low e) OR push_bit 16 (ucast (ge_base_middle e)) OR push_bit 24 (ucast (ge_base_high e))"

definition segment_limit :: "gdt_entry \<Rightarrow> u32" where
  "segment_limit e = ucast (ge_limit_low e) OR push_bit 16 (ucast (ge_granularity e AND 0x0F))"

text \<open>The last byte of a segment, with the limit in pages when the granularity bit is set.\<close>

definition segment_end :: "gdt_entry \<Rightarrow> nat" where
  "segment_end e = unat (segment_base e) + (if bit (ge_granularity e) 7 then unat (segment_limit e) * 4096 + 4095 else unat (segment_limit e))"

lemma u32_halves: "ucast (ucast (x AND 0xFFFF) :: u16) OR push_bit 16 (ucast (ucast (drop_bit 16 x AND 0xFFFF) :: u16)) = (x :: u32)"
proof -
  have m: "y AND 0xFFFF = take_bit 16 y" for y :: u32 by (simp add: take_bit_eq_mask mask_eq_exp_minus_1)
  show ?thesis unfolding m by (rule bit_word_eqI) (auto simp: bit_simps)
qed

lemma gate_target_make [simp]: "gate_target (make_gate h sel attr) = h"
  by (simp add: gate_target_def make_gate_def u32_halves)

lemma gate_kind_make:
  "gate_kind (make_gate h SEGMENT_SELECTOR_CODE_DPL0 (gate_type i)) = (True, 0, if i = 1 \<or> i = 3 \<or> i = 4 then 15 else 14, 8)"
  "gate_kind (make_gate h SEGMENT_SELECTOR_CODE_DPL0 IDT_INTERRUPT_32_DPL0) = (True, 0, 14, 8)"
  by (simp_all add: gate_kind_def make_gate_def gate_type_def IDT_TRAP_32_PL0_def IDT_INTERRUPT_32_DPL0_def IDT_FLAGS_def SEGMENT_SELECTOR_CODE_DPL0_def)


section \<open>Properties\<close>

lemma set_idt_loop:
  "length (idt_entries s) = IDT_ENTRIES \<Longrightarrow> n \<le> IDT_ENTRIES \<Longrightarrow>
   kfor (\<lambda>i. set_idt_entry i (h i) sel (t i)) [0..<n] s =
     Inr (s\<lparr>idt_entries := map (\<lambda>i. make_gate (h i) sel (t i)) [0..<n] @ drop n (idt_entries s)\<rparr>)"
proof (induction n)
  case 0
  then show ?case by simp
next
  case (Suc n)
  then show ?case
    by (simp add: kfor_append set_idt_entry_def list_update_append flip: Cons_nth_drop_Suc)
qed

lemma clear_idt_loop:
  "length (idt_entries s) = IDT_ENTRIES \<Longrightarrow> length (interrupt_callback_entries s) = IDT_ENTRIES \<Longrightarrow> n \<le> IDT_ENTRIES \<Longrightarrow>
   kfor (\<lambda>i s. if i < length (interrupt_callback_entries s)
       then set_idt_entry i h sel t (s\<lparr>interrupt_callback_entries := (interrupt_callback_entries s)[i := 0]\<rparr>)
       else Inl BadAccess) [0..<n] s =
     Inr (s\<lparr>idt_entries := replicate n (make_gate h sel t) @ drop n (idt_entries s),
            interrupt_callback_entries := replicate n 0 @ drop n (interrupt_callback_entries s)\<rparr>)"
proof (induction n)
  case 0
  then show ?case by simp
next
  case (Suc n)
  then show ?case
    by (simp add: kfor_append set_idt_entry_def list_update_append replicate_append_same [symmetric] flip: Cons_nth_drop_Suc)
qed

lemma clear_idt_all:
  assumes "length (idt_entries s) = IDT_ENTRIES" "length (interrupt_callback_entries s) = IDT_ENTRIES"
  shows "kfor (\<lambda>i s. if i < length (interrupt_callback_entries s)
       then set_idt_entry i h sel t (s\<lparr>interrupt_callback_entries := (interrupt_callback_entries s)[i := 0]\<rparr>)
       else Inl BadAccess) [0..<IDT_ENTRIES] s = Inr (s\<lparr>idt_entries := replicate 256 (make_gate h sel t), interrupt_callback_entries := replicate 256 0\<rparr>)"
  using clear_idt_loop [OF assms order_refl] assms by (simp add: IDT_ENTRIES_def)

lemma set_idt_cleared:
  "n \<le> 256 \<Longrightarrow> kfor (\<lambda>i. set_idt_entry i (h i) sel (t i)) [0..<n] (s\<lparr>idt_entries := replicate 256 g, interrupt_callback_entries := cbs\<rparr>) =
     Inr (s\<lparr>idt_entries := map (\<lambda>i. make_gate (h i) sel (t i)) [0..<n] @ replicate (256 - n) g, interrupt_callback_entries := cbs\<rparr>)"
  by (subst set_idt_loop) (simp_all add: IDT_ENTRIES_def)

definition irq_started :: "(nat \<Rightarrow> u32) \<Rightarrow> u32 \<Rightarrow> usize_ptr \<Rightarrow> u32 \<Rightarrow> irq_vars \<Rightarrow> irq_vars" where
  "irq_started isr halt pf addr s = s\<lparr>idt_entries := map (\<lambda>i. make_gate (isr i) SEGMENT_SELECTOR_CODE_DPL0 (gate_type i)) [0..<48] @
       replicate 208 (make_gate halt SEGMENT_SELECTOR_CODE_DPL0 IDT_INTERRUPT_32_DPL0),
     interrupt_callback_entries := (replicate 256 0)[14 := pf], idt_loaded := (2047, addr)\<rparr>"

lemma init_irq_eq:
  assumes "length (idt_entries s) = IDT_ENTRIES" "length (interrupt_callback_entries s) = IDT_ENTRIES"
  shows "init_irq isr halt pf addr s = Inr (irq_started isr halt pf addr s)"
  unfolding init_irq_def clear_idt_all [OF assms] kbind_simps
  by (subst set_idt_cleared) (simp_all add: irq_register_handler_def irq_started_def IRQ_VECTOR_PAGE_FAULT_def IDT_ENTRIES_def del: upt.simps)

text \<open>Registering handlers one after the other.\<close>

definition register_all :: "(nat \<times> usize_ptr) list \<Rightarrow> irq_vars \<Rightarrow> irq_vars kres" where
  "register_all hs = kfor (\<lambda>(v, h). irq_register_handler v h) hs"

lemma register_all_ok:
  "list_all (\<lambda>(v, h). v < length (interrupt_callback_entries s)) hs \<Longrightarrow>
   \<exists>s'. register_all hs s = Inr s' \<and> idt_entries s' = idt_entries s \<and> idt_loaded s' = idt_loaded s \<and>
     length (interrupt_callback_entries s') = length (interrupt_callback_entries s) \<and>
     (\<forall>v<length (interrupt_callback_entries s).
        interrupt_callback_entries s' ! v = (case map_of (rev hs) v of Some h \<Rightarrow> h | None \<Rightarrow> interrupt_callback_entries s ! v))"
proof (induction hs arbitrary: s)
  case Nil
  then show ?case by (simp add: register_all_def)
next
  case (Cons x hs)
  obtain v h where x: "x = (v, h)" by (cases x)
  let ?s = "s\<lparr>interrupt_callback_entries := (interrupt_callback_entries s)[v := h]\<rparr>"
  have "list_all (\<lambda>(v, h). v < length (interrupt_callback_entries ?s)) hs" "v < length (interrupt_callback_entries s)"
    using Cons.prems by (simp_all add: x)
  with Cons.IH [of ?s] show ?case
    by (auto simp: x register_all_def irq_register_handler_def map_add_def nth_list_update split: option.splits)
qed

text \<open>C21. After the interrupt tables were set up and any handlers were registered, the processor enters the stub of its own
  number for the vectors 0 to 47 through a present gate of ring 0 in the kernel's code segment, which masks interrupts except
  for the vectors 1, 3 and 4, and the code of the stub calls the handler that was registered last for the vector, the
  handler of page faults for vector 14 when there is none, and nothing for another vector.
\<close>

theorem irq_dispatch:
  assumes "length (idt_entries s) = IDT_ENTRIES" "length (interrupt_callback_entries s) = IDT_ENTRIES"
    "list_all (\<lambda>(v, h). v < IDT_ENTRIES \<and> h \<noteq> 0) hs" "pf \<noteq> 0" "unat (irq_index frame) < IDT_ENTRIES"
  shows "\<exists>s'. kbind (init_irq isr halt pf addr s) (register_all hs) = Inr s' \<and> idt_loaded s' = (2047, addr) \<and>
    (\<forall>v<IDT_ENTRIES. gate_target (idt_entries s' ! v) = (if v < 48 then isr v else halt) \<and>
       gate_kind (idt_entries s' ! v) = (True, 0, if v = 1 \<or> v = 3 \<or> v = 4 then 15 else 14, 8)) \<and>
    idt_c_handler call s' frame st =
      (case map_of (rev hs) (unat (irq_index frame)) of Some h \<Rightarrow> call h frame st
       | None \<Rightarrow> if irq_index frame = 14 then call pf frame st else Inr st)"
proof -
  let ?s = "irq_started isr halt pf addr s" and ?v = "unat (irq_index frame)"
  have len: "length (interrupt_callback_entries ?s) = 256" by (simp add: irq_started_def)
  have ok: "list_all (\<lambda>(v, h). v < length (interrupt_callback_entries ?s)) hs"
    using assms(3) unfolding len by (auto simp: list_all_iff IDT_ENTRIES_def)
  obtain s' where s': "register_all hs ?s = Inr s'" "idt_entries s' = idt_entries ?s" "idt_loaded s' = (2047, addr)"
      "length (interrupt_callback_entries s') = 256"
      "\<forall>v<256. interrupt_callback_entries s' ! v = (case map_of (rev hs) v of Some h \<Rightarrow> h | None \<Rightarrow> interrupt_callback_entries ?s ! v)"
    using register_all_ok [OF ok] unfolding len by (auto simp: irq_started_def)
  have gates: "gate_target (idt_entries s' ! v) = (if v < 48 then isr v else halt) \<and>
       gate_kind (idt_entries s' ! v) = (True, 0, if v = 1 \<or> v = 3 \<or> v = 4 then 15 else 14, 8)" if "v < IDT_ENTRIES" for v
    using that by (cases "v < 48") (auto simp: s'(2) irq_started_def nth_append IDT_ENTRIES_def gate_kind_make simp del: upt.simps)
  have v: "?v < 256" using assms(5) by (simp add: IDT_ENTRIES_def)
  have nz: "h \<noteq> 0" if "map_of (rev hs) ?v = Some h" for h
    using map_of_SomeD [OF that] assms(3) by (auto simp: list_all_iff)
  have "interrupt_callback_entries ?s ! ?v = (if irq_index frame = 14 then pf else 0)"
    using v by (auto simp: irq_started_def nth_list_update word_unat_eq_iff)
  then have "idt_c_handler call s' frame st =
      (case map_of (rev hs) ?v of Some h \<Rightarrow> call h frame st | None \<Rightarrow> if irq_index frame = 14 then call pf frame st else Inr st)"
    using s'(4,5) v nz assms(4) by (auto simp: idt_c_handler_def Let_def split: option.splits)
  then show ?thesis using init_irq_eq [OF assms(1,2)] s'(1,3) gates by auto
qed

theorem irq_dispatch_witness:
  "\<exists>s'. kbind (init_irq (\<lambda>i. 0xC0100000 + 16 * of_nat i) 0xC0200000 5 0xC0300000
      \<lparr>idt_entries = replicate 256 (make_gate 0 0 0), interrupt_callback_entries = replicate 256 0, idt_loaded = (0, 0)\<rparr>)
      (register_all [(33, 7), (33, 9)]) = Inr s' \<and>
    idt_c_handler (\<lambda>h f l. Inr (l @ [h])) s' \<lparr>err_code = 0, irq_index = 33, edi = 0, esi = 0, ebp = 0, esp_dummy = 0, ebx = 0, edx = 0, ecx = 0, eax = 0,
      user_esp = 0, user_ss = 0, eflags = 0x202, cs = 8, eip = 0xC0100000\<rparr> [] = Inr [9]"
  using irq_dispatch [of "\<lparr>idt_entries = replicate 256 (make_gate 0 0 0), interrupt_callback_entries = replicate 256 0, idt_loaded = (0, 0)\<rparr>"
      "[(33, 7), (33, 9)]" 5 "\<lparr>err_code = 0, irq_index = 33, edi = 0, esi = 0, ebp = 0, esp_dummy = 0, ebx = 0, edx = 0, ecx = 0, eax = 0,
      user_esp = 0, user_ss = 0, eflags = 0x202, cs = 8, eip = 0xC0100000\<rparr>" "\<lambda>i. 0xC0100000 + 16 * of_nat i" "0xC0200000" "0xC0300000"
      "\<lambda>h f l. Inr (l @ [h])" "[]"]
  by (auto simp: IDT_ENTRIES_def)

text \<open>
  Every segment of the table but the first, which is the null descriptor, covers the whole address space; code
  and data come in one pair for ring 0 and one pair for ring 3, all present, and the limit of the table covers the five entries.
\<close>

definition segment_access :: "gdt_entry \<Rightarrow> bool \<times> nat \<times> bool" where
  "segment_access e = (bit (ge_access e) 7, unat (drop_bit 5 (ge_access e) AND 3), bit (ge_access e) 3)"

theorem gdt_flat_segments:
  "map (\<lambda>e. (segment_base e, segment_end e)) (tl init_gdt) = [(0, 4294967295), (0, 4294967295), (0, 4294967295), (0, 4294967295)] \<and>
   map segment_access init_gdt = [(False, 0, False), (True, 0, True), (True, 0, False), (True, 3, True), (True, 3, False)] \<and>
   fst (load_gdt addr init_gdt) = 39"
  by (simp add: init_gdt_def set_gdt_entry_def segment_base_def segment_end_def segment_limit_def segment_access_def load_gdt_def
    GDT_CODE_PL0_def GDT_DATA_PL0_def GDT_CODE_PL3_def GDT_DATA_PL3_def seg_flags_def)

text \<open>
  The interrupts of the boot code: the divide error, the protection fault and the page fault reach their handlers; every
  other vector calls through a pointer that is NULL, since the common handler does not look at the pointer.
\<close>

lemma setup_early_idt_eq:
  assumes "length (idt_entries s) = IDT_ENTRIES" "length (interrupt_callback_entries s) = IDT_ENTRIES"
  shows "\<exists>es. setup_early_idt isr ch addr s =
    Inr (s\<lparr>idt_entries := es, interrupt_callback_entries := replicate 256 0, idt_loaded := (2047, addr)\<rparr>)"
  unfolding setup_early_idt_def clear_idt_all [OF assms] kbind_simps
  by (subst set_idt_cleared) (auto simp: IDT_ENTRIES_def simp del: upt.simps)

theorem early_interrupt_handlers:
  assumes "length (idt_entries s) = IDT_ENTRIES" "length (interrupt_callback_entries s) = IDT_ENTRIES"
    "div_err \<noteq> 0" "gen_prot \<noteq> 0" "page_fault \<noteq> 0"
  shows "\<exists>s'. kbind (setup_early_idt isr ch addr s) (init_boot_isr div_err gen_prot page_fault) = Inr s' \<and>
    (\<forall>v err. early_idt_c_handler call s' v err st =
      (if v = 0 then call div_err err st else if v = 13 then call gen_prot err st
       else if v = 14 then call page_fault err st else Inl BadAccess))"
proof -
  obtain es where es: "setup_early_idt isr ch addr s =
      Inr (s\<lparr>idt_entries := es, interrupt_callback_entries := replicate 256 0, idt_loaded := (2047, addr)\<rparr>)"
    using setup_early_idt_eq [OF assms(1,2)] by blast
  define s' where "s' = s\<lparr>idt_entries := es, interrupt_callback_entries := ((replicate 256 0)[0 := div_err, 13 := gen_prot])[14 := page_fault],
    idt_loaded := (2047, addr)\<rparr>"
  have eq: "kbind (setup_early_idt isr ch addr s) (init_boot_isr div_err gen_prot page_fault) = Inr s'"
    unfolding es by (simp add: init_boot_isr_def early_set_interrupt_c_callback_def s'_def)
  have entry: "interrupt_callback_entries s' ! unat v =
      (if v = 0 then div_err else if v = 13 then gen_prot else if v = 14 then page_fault else 0)" for v :: u8
    using unsigned_less [of v] by (auto simp: s'_def nth_list_update word_unat_eq_iff)
  have "early_idt_c_handler call s' v err st =
      (if v = 0 then call div_err err st else if v = 13 then call gen_prot err st
       else if v = 14 then call page_fault err st else Inl BadAccess)" for v err
    using assms(3-5) by (simp add: early_idt_c_handler_def entry call_ptr_def BASE_INTERRUPTS_ENTRIES_def)
  with eq show ?thesis by blast
qed

theorem early_interrupt_handlers_witness:
  "\<exists>s'. kbind (setup_early_idt (\<lambda>i. 0x100000 + 16 * of_nat i) 0x200000 0x300000
      \<lparr>idt_entries = replicate 256 (make_gate 0 0 0), interrupt_callback_entries = replicate 256 0, idt_loaded = (0, 0)\<rparr>)
      (init_boot_isr 5 6 7) = Inr s' \<and>
    early_idt_c_handler (\<lambda>h e l. Inr (l @ [h])) s' 14 2 [] = Inr [7] \<and>
    early_idt_c_handler (\<lambda>h e l. Inr (l @ [h])) s' 6 0 [] = (Inl BadAccess :: usize_ptr list kres)"
  using early_interrupt_handlers [where s = "\<lparr>idt_entries = replicate 256 (make_gate 0 0 0), interrupt_callback_entries = replicate 256 0, idt_loaded = (0, 0)\<rparr>"
    and div_err = 5 and gen_prot = 6 and page_fault = 7 and isr = "\<lambda>i. 0x100000 + 16 * of_nat i" and ch = "0x200000" and addr = "0x300000"
    and call = "\<lambda>h e l. Inr (l @ [h])" and st = "[]"]
  by (fastforce simp: IDT_ENTRIES_def)

end
