(* ===== verification/Acpi.thy ===== *)
theory Acpi
  imports Virt_Map Libk_String Port_IO
begin

unbundle bit_operations_syntax

text \<open>
  The tables of the firmware and the power-management timer: \<^verbatim>\<open>kernel/firmware/acpi\<close> and
  \<^verbatim>\<open>kernel/arch/i386/firmware/acpi/acpi.c\<close>.

  The tables lie in flat memory at the offsets of the packed structures. \<open>rsd_lit\<close> and \<open>facp_lit\<close> are the addresses of the two
  string literals that the searches compare with. A table that is not mapped reads what the memory says there: the code maps none of them.
\<close>

section \<open>Tables\<close>

definition sdt_length :: "mem \<Rightarrow> u32 \<Rightarrow> u32" where "sdt_length m t = load32 m (t + 4)"
definition rsdp_revision :: "mem \<Rightarrow> u32 \<Rightarrow> u8" where "rsdp_revision m r = m (r + 15)"
definition rsdp_rsdt_address :: "mem \<Rightarrow> u32 \<Rightarrow> u32" where "rsdp_rsdt_address m r = load32 m (r + 16)"
definition xsdp_length :: "mem \<Rightarrow> u32 \<Rightarrow> u32" where "xsdp_length m r = load32 m (r + 20)"
definition xsdp_xsdt_address :: "mem \<Rightarrow> u32 \<Rightarrow> u64" where "xsdp_xsdt_address m r = load64 m (r + 24)"

record gas =
  address_space :: u8
  bit_width :: u8
  bit_offset :: u8
  access_size :: u8
  gas_address :: u64

record fadt =
  PM_timer_block :: u32
  PM_timer_length :: u8
  fadt_flags :: u32
  X_PM_timer_block :: gas

definition load_gas :: "mem \<Rightarrow> u32 \<Rightarrow> gas" where
  "load_gas m a = \<lparr>address_space = m a, bit_width = m (a + 1), bit_offset = m (a + 2), access_size = m (a + 3), gas_address = load64 m (a + 4)\<rparr>"

definition load_fadt :: "mem \<Rightarrow> u32 \<Rightarrow> fadt" where
  "load_fadt m t = \<lparr>PM_timer_block = load32 m (t + 76), PM_timer_length = m (t + 91), fadt_flags = load32 m (t + 112),
     X_PM_timer_block = load_gas m (t + 208)\<rparr>"

section \<open>Checksums and searches\<close>

definition byte_sum :: "mem \<Rightarrow> u32 \<Rightarrow> nat \<Rightarrow> u8" where
  "byte_sum m a n = foldl (\<lambda>sum i. sum + m (a + of_nat i)) 0 [0..<n]"

definition valid_checksum :: "mem \<Rightarrow> u32 \<Rightarrow> bool" where
  "valid_checksum m table_header \<longleftrightarrow> byte_sum m table_header (unat (sdt_length m table_header)) = 0"

definition valid_rsdp_checksum :: "mem \<Rightarrow> u32 \<Rightarrow> bool" where
  "valid_rsdp_checksum m r =
     (if byte_sum m r 20 \<noteq> 0 then False
      else if rsdp_revision m r \<ge> 2 then (if byte_sum m r (unat (xsdp_length m r)) \<noteq> 0 then False else True)
      else True)"

function scan_ebda :: "mem \<Rightarrow> u32 \<Rightarrow> u32 \<Rightarrow> u32 \<Rightarrow> u32 option" where
  "scan_ebda m rsd_lit ebda_ptr i =
     (if i < 1024
      then if memcmp m (ebda_ptr + i) rsd_lit 8 = 0 \<and> valid_rsdp_checksum m (ebda_ptr + i) then Some (ebda_ptr + i)
           else scan_ebda m rsd_lit ebda_ptr (i + 16)
      else None)"
  by pat_completeness auto
termination
proof (relation "measure (\<lambda>(m, l, e, i). 1024 - unat i)")
  fix m :: mem and l e i :: u32
  assume "i < 1024"
  then have "unat i < 1024" "unat (i + 16) = unat i + 16" by (simp_all add: word_less_nat_alt unat_word_ariths)
  then show "((m, l, e, i + 16), m, l, e, i) \<in> measure (\<lambda>(m, l, e, i). 1024 - unat i)" by simp
qed simp

function scan_bios :: "mem \<Rightarrow> u32 \<Rightarrow> u32 \<Rightarrow> u32 option" where
  "scan_bios m rsd_lit iterator =
     (if iterator \<le> 0xFFFFF
      then if memcmp m iterator rsd_lit 8 = 0 then Some iterator else scan_bios m rsd_lit (iterator + 16)
      else None)"
  by pat_completeness auto
termination
proof (relation "measure (\<lambda>(m, l, i). 0x100000 - unat i)")
  fix m :: mem and l i :: u32
  assume "i \<le> 0xFFFFF"
  then have "unat i \<le> 0xFFFFF" "unat (i + 16) = unat i + 16" by (simp_all add: word_le_nat_alt unat_word_ariths)
  then show "((m, l, i + 16), m, l, i) \<in> measure (\<lambda>(m, l, i). 0x100000 - unat i)" by simp
qed simp

declare scan_ebda.simps [simp del] scan_bios.simps [simp del]

definition gather_rdsp :: "mem \<Rightarrow> u32 \<Rightarrow> u32 option" where
  "gather_rdsp m rsd_lit =
     (case scan_ebda m rsd_lit (push_bit 4 (ucast (load16 m 0x040E))) 0 of Some r \<Rightarrow> Some r | None \<Rightarrow> scan_bios m rsd_lit 0x000E0000)"

text \<open>The searches for the table with the signature \<^verbatim>\<open>FACP\<close>; the count subtracts the size of the length field only.\<close>

fun find_facp :: "mem \<Rightarrow> u32 \<Rightarrow> (nat \<Rightarrow> u32) \<Rightarrow> nat list \<Rightarrow> u32 option" where
  "find_facp m facp_lit pointer_sdt [] = None"
| "find_facp m facp_lit pointer_sdt (i # is) =
     (let h = pointer_sdt i in if strncmp m h facp_lit 4 = 0 then Some h else find_facp m facp_lit pointer_sdt is)"

definition find_fadt_by_rsdt :: "mem \<Rightarrow> u32 \<Rightarrow> u32 \<Rightarrow> u32 option" where
  "find_fadt_by_rsdt m facp_lit rsdt =
     (let entries = unat ((sdt_length m rsdt - 4) div 4)
      in find_facp m facp_lit (\<lambda>i. load32 m (rsdt + 36 + 4 * of_nat i)) [0..<entries])"

definition find_fadt_by_xsdt :: "mem \<Rightarrow> u32 \<Rightarrow> u32 \<Rightarrow> u32 option" where
  "find_fadt_by_xsdt m facp_lit rsdt =
     (let entries = unat ((sdt_length m rsdt - 4) div 8)
      in find_facp m facp_lit (\<lambda>i. ucast (load64 m (rsdt + 36 + 8 * of_nat i))) [0..<entries])"

definition gas_unit_size :: "u8 \<Rightarrow> u8 \<Rightarrow> u32" where
  "gas_unit_size asize width =
     (if asize \<ge> 1 \<and> asize \<le> 4 then [0, 1, 2, 4, 8] ! unat asize
      else if width \<le> 8 then 1 else if width \<le> 16 then 2 else if width \<le> 32 then 4 else 8)"

section \<open>The timer\<close>

definition ACPI_TIMER_ACTIVE :: u8 where "ACPI_TIMER_ACTIVE = 0x1"
definition ACPI_TIMER_IO :: u8 where "ACPI_TIMER_IO = 0x2"
definition ACPI_TIMER_MMIO :: u8 where "ACPI_TIMER_MMIO = 0x4"
definition ACPI_TIMER_24 :: u8 where "ACPI_TIMER_24 = 0x8"

text \<open>The two members of the union are two fields: the flags say which of them was set.\<close>

record acpi_timer =
  timer_flags :: u8
  timer_unit :: u8
  timer_addr :: u32
  timer_io_port :: u16

definition get_acpi_time :: "hardware \<Rightarrow> mem \<Rightarrow> acpi_timer \<Rightarrow> 'a cpu_scheme \<Rightarrow> u64 \<times> 'a cpu_scheme" where
  "get_acpi_time hw m t s =
     (if timer_flags t AND ACPI_TIMER_MMIO \<noteq> 0
      then (if timer_unit t = 1 then ucast (m (timer_addr t))
            else if timer_unit t = 2 then ucast (load16 m (timer_addr t))
            else if timer_unit t = 4 then ucast (load32 m (timer_addr t))
            else if timer_unit t = 8 then load64 m (timer_addr t) else 0, s)
      else if timer_flags t AND ACPI_TIMER_IO \<noteq> 0 then (let (v, s) = inl hw (timer_io_port t) s in (ucast v, s))
      else (0, s))"

definition acpi_mmio_timer :: "mem \<Rightarrow> (u32 \<Rightarrow> page_ptr) \<Rightarrow> cache \<Rightarrow> u32 \<Rightarrow> gas \<Rightarrow> acpi_timer \<Rightarrow> virt_state \<Rightarrow> (acpi_timer \<times> virt_state) kloop" where
  "acpi_mmio_timer m as_desc kalloc cr3 gas t s =
     (let unit = gas_unit_size (access_size gas) (if bit_width gas \<noteq> 0 then bit_width gas else 32);
          pa = ucast (gas_address gas AND ucast (NOT (unit - 1)));
          off = ucast (gas_address gas AND ucast (unit - 1))
      in lbind (Some (pfn_mark_range pa 1 PAGETYPE_ACPI 0 (mm_pfn (vs_mm s)))) (\<lambda>p.
         lbind (vmap_identity as_desc kalloc cr3 pa 1 VREGION_MMIO (s\<lparr>vs_mm := (vs_mm s)\<lparr>mm_pfn := p\<rparr>\<rparr>)) (\<lambda>(_, s).
         lret (t\<lparr>timer_unit := ucast unit, timer_addr := pa + off\<rparr>, s))))"

definition init_acpi ::
  "mem \<Rightarrow> u32 \<Rightarrow> u32 \<Rightarrow> (u32 \<Rightarrow> page_ptr) \<Rightarrow> cache \<Rightarrow> u32 \<Rightarrow> acpi_timer \<Rightarrow> virt_state \<Rightarrow> (acpi_timer \<times> virt_state) kloop" where
  "init_acpi m rsd_lit facp_lit as_desc kalloc cr3 t s =
     (case gather_rdsp m rsd_lit of None \<Rightarrow> Some (Inl BadAccess)
      | Some rdsp \<Rightarrow>
        let found = (if rsdp_revision m rdsp \<ge> 2 \<and> xsdp_xsdt_address m rdsp \<noteq> 0
                     then find_fadt_by_xsdt m facp_lit (ucast (xsdp_xsdt_address m rdsp))
                     else find_fadt_by_rsdt m facp_lit (rsdp_rsdt_address m rdsp))
        in case found of None \<Rightarrow> Some (Inl AssertFailed)
           | Some a \<Rightarrow>
             let fadt = load_fadt m a; t = t\<lparr>timer_flags := ACPI_TIMER_ACTIVE\<rparr>
             in lbind (lassert (PM_timer_length fadt = 4)) (\<lambda>_.
                lbind (if rsdp_revision m rdsp \<ge> 2 \<and> gas_address (X_PM_timer_block fadt) \<noteq> 0 \<and> address_space (X_PM_timer_block fadt) = 0
                       then acpi_mmio_timer m as_desc kalloc cr3 (X_PM_timer_block fadt) (t\<lparr>timer_flags := timer_flags t OR ACPI_TIMER_MMIO\<rparr>) s
                       else lret (t\<lparr>timer_flags := timer_flags t OR ACPI_TIMER_IO, timer_io_port := ucast (PM_timer_block fadt)\<rparr>, s)) (\<lambda>(t, s).
                lret (if fadt_flags fadt AND 0x100 \<noteq> 0 then t\<lparr>timer_flags := timer_flags t AND NOT ACPI_TIMER_24\<rparr>
                      else t\<lparr>timer_flags := timer_flags t OR ACPI_TIMER_24\<rparr>, s))))"

section \<open>Properties\<close>

text \<open>The candidates of the two searches, in order.\<close>

lemma scan_ebda_find:
  "k \<le> 64 \<Longrightarrow> scan_ebda m l e (16 * of_nat k) =
     find (\<lambda>a. bytes m a 8 = bytes m l 8 \<and> valid_rsdp_checksum m a) (map (\<lambda>i. e + 16 * of_nat i) [k..<64])"
proof (induction "64 - k" arbitrary: k)
  case 0
  then show ?case by (simp add: scan_ebda.simps)
next
  case (Suc d)
  then have k: "k < 64" "[k..<64] = k # [Suc k..<64]" by (simp_all add: upt_conv_Cons)
  have u: "unat (16 * of_nat k :: u32) = 16 * k" using k by (simp add: unat_word_ariths unat_of_nat)
  then have lt: "16 * of_nat k < (1024 :: u32)" using k by (simp add: word_less_nat_alt)
  have n: "16 * of_nat k + 16 = (16 * of_nat (Suc k) :: u32)" by simp
  have IH: "scan_ebda m l e (16 * of_nat (Suc k)) =
     find (\<lambda>a. bytes m a 8 = bytes m l 8 \<and> valid_rsdp_checksum m a) (map (\<lambda>i. e + 16 * of_nat i) [Suc k..<64])"
    using Suc k by (intro Suc.hyps(1)) auto
  show ?case
    by (subst scan_ebda.simps) (simp add: lt k(2) memcmp_zero_iff n IH del: of_nat_Suc upt_Suc)
qed

lemma scan_bios_find:
  "k \<le> 8192 \<Longrightarrow> scan_bios m l (0xE0000 + 16 * of_nat k) =
     find (\<lambda>a. bytes m a 8 = bytes m l 8) (map (\<lambda>i. 0xE0000 + 16 * of_nat i) [k..<8192])"
proof (induction "8192 - k" arbitrary: k)
  case 0
  then show ?case by (simp add: scan_bios.simps)
next
  case (Suc d)
  then have k: "k < 8192" "[k..<8192] = k # [Suc k..<8192]" by (simp_all add: upt_conv_Cons)
  have u: "unat (0xE0000 + 16 * of_nat k :: u32) = 0xE0000 + 16 * k" using k by (simp add: unat_word_ariths unat_of_nat)
  then have lt: "0xE0000 + 16 * of_nat k \<le> (0xFFFFF :: u32)" using k by (simp add: word_le_nat_alt)
  have n: "0xE0000 + 16 * of_nat k + 16 = (0xE0000 + 16 * of_nat (Suc k) :: u32)" by simp
  have IH: "scan_bios m l (0xE0000 + 16 * of_nat (Suc k)) =
     find (\<lambda>a. bytes m a 8 = bytes m l 8) (map (\<lambda>i. 0xE0000 + 16 * of_nat i) [Suc k..<8192])"
    using Suc k by (intro Suc.hyps(1)) auto
  show ?case
    by (subst scan_bios.simps) (simp add: lt k(2) memcmp_zero_iff n IH del: of_nat_Suc upt_Suc)
qed

lemma gather_rdsp_eq:
  "gather_rdsp m l = (case find (\<lambda>a. bytes m a 8 = bytes m l 8 \<and> valid_rsdp_checksum m a)
       (map (\<lambda>i. push_bit 4 (ucast (load16 m 0x40E)) + 16 * of_nat i) [0..<64]) of Some r \<Rightarrow> Some r
     | None \<Rightarrow> find (\<lambda>a. bytes m a 8 = bytes m l 8) (map (\<lambda>i. 0xE0000 + 16 * of_nat i) [0..<8192]))"
  using scan_ebda_find [of 0 m l "push_bit 4 (ucast (load16 m 0x40E))"] scan_bios_find [of 0 m l]
  unfolding gather_rdsp_def by (simp del: upt_Suc upt.simps cong: option.case_cong)

lemma strncmp_4:
  "bytes m lit 4 = [70, 65, 67, 80] \<Longrightarrow> strncmp m h lit 4 = 0 \<longleftrightarrow> bytes m h 4 = [70, 65, 67, 80]"
proof -
  assume h: "bytes m lit 4 = [70, 65, 67, 80]"
  have u: "[0..<4] = [0, 1, 2, 3 :: nat]" by (simp add: upt_rec)
  have "m lit = 70" "m (lit + 1) = 65" "m (lit + 2) = 67" "m (lit + 3) = 80" using h by (simp_all add: bytes_def u)
  moreover have "uint x = 70 \<longleftrightarrow> x = 70" "uint x = 65 \<longleftrightarrow> x = 65" "uint x = 67 \<longleftrightarrow> x = 67" "uint x = 80 \<longleftrightarrow> x = 80" for x :: u8
    by (simp_all add: word_uint_eq_iff)
  ultimately show ?thesis by (auto simp: strncmp_def bytes_def u uint_diff_zero split: if_splits)
qed

lemma find_facp_eq:
  "bytes m lit 4 = [70, 65, 67, 80] \<Longrightarrow> find_facp m lit slot is = find (\<lambda>h. bytes m h 4 = [70, 65, 67, 80]) (map slot is)"
  by (induction "is") (simp_all add: strncmp_4 Let_def)

text \<open>
  The search in a root table of \<open>n\<close> entries returns the first of the \<open>n + 8\<close> words behind the header that points to
  the signature \<^verbatim>\<open>FACP\<close>: it subtracts the size of the length field where it means the size of the header, so that
  the eight words that follow the table count as entries too.
\<close>

theorem find_fadt_reads_past_end:
  assumes "sdt_length m rsdt = of_nat (36 + 4 * n)" "n < 2 ^ 29" "bytes m facp_lit 4 = [70, 65, 67, 80]"
  shows "find_fadt_by_rsdt m facp_lit rsdt =
    find (\<lambda>h. bytes m h 4 = [70, 65, 67, 80]) (map (\<lambda>i. load32 m (rsdt + 36 + 4 * of_nat i)) [0..<n + 8])"
proof -
  have "sdt_length m rsdt - 4 = of_nat (4 * (n + 8))" by (simp add: assms(1))
  moreover have "unat (x div 4) = unat x div 4" for x :: u32 by (simp add: unat_div)
  moreover have "unat (of_nat (4 * (n + 8)) :: u32) = 4 * (n + 8)" using assms(2) by (subst unat_of_nat) simp
  ultimately have "unat ((sdt_length m rsdt - 4) div 4) = n + 8" by (simp del: of_nat_mult of_nat_add)
  then show ?thesis by (simp add: find_fadt_by_rsdt_def find_facp_eq [OF assms(3)] del: upt_Suc)
qed

text \<open>A root table without entries, whose next word happens to point to the literal.\<close>

definition demo_acpi :: mem where
  "demo_acpi = (store32 (store32 ((\<lambda>_. 0)(0x500 := 70, 0x501 := 65, 0x502 := 67, 0x503 := 80)) 0x1004 36) 0x1024 0x500)"

theorem find_fadt_reads_past_end_witness:
  "find_fadt_by_rsdt demo_acpi 0x500 0x1000 = Some 0x500"
proof -
  have "sdt_length demo_acpi 0x1000 = of_nat (36 + 4 * 0)" "bytes demo_acpi 0x500 4 = [70, 65, 67, 80]"
    by (simp_all add: sdt_length_def demo_acpi_def store32_def load32_def bytes_def upt_rec)
  from find_fadt_reads_past_end [OF this(1) _ this(2)] this(2) show ?thesis
    by (simp add: upt_rec demo_acpi_def load32_def store32_def bytes_def)
qed

text \<open>
  With tables of the first revision whose description gives a timer of four bytes, the initialisation succeeds and every
  later reading of the time reads the port that the description names, cut to 16 bits; the flags record the width of the counter.
\<close>

theorem acpi_timer_port:
  assumes "gather_rdsp m rsd_lit = Some r" "rsdp_revision m r < 2"
    "find_fadt_by_rsdt m facp_lit (rsdp_rsdt_address m r) = Some a" "PM_timer_length (load_fadt m a) = 4"
  shows "\<exists>t'. init_acpi m rsd_lit facp_lit as_desc kalloc cr3 t s = lret (t', s) \<and>
    (timer_flags t' AND ACPI_TIMER_24 = 0 \<longleftrightarrow> bit (fadt_flags (load_fadt m a)) 8) \<and>
    get_acpi_time hw m t' c =
      (let port = ucast (PM_timer_block (load_fadt m a)); v = hw (cpu_io c) port
       in (ucast v, c\<lparr>cpu_io := cpu_io c @ [In32 port v]\<rparr>))"
proof -
  have b: "x AND 0x100 = 0 \<longleftrightarrow> \<not> bit x 8" for x :: u32 by (simp add: bit_iff_and_push_bit_not_eq_0)
  show ?thesis
    using assms by (auto simp: init_acpi_def Let_def b get_acpi_time_def inl_def
      ACPI_TIMER_ACTIVE_def ACPI_TIMER_IO_def ACPI_TIMER_MMIO_def ACPI_TIMER_24_def not_le)
qed

text \<open>Tables of the first revision with one entry; the timer is at port \<^verbatim>\<open>0x408\<close> and counts 24 bits.\<close>

definition store_list :: "u32 \<Rightarrow> u8 list \<Rightarrow> mem \<Rightarrow> mem" where
  "store_list a bs m = fold (\<lambda>(i, b) m. m(a + of_nat i := b)) (enumerate 0 bs) m"

definition demo_tables :: mem where
  "demo_tables = store_list 0x40E [0xC0, 0x9F] (store_list 0x500 [70, 65, 67, 80] (store_list 0x510 [82, 83, 68, 32, 80, 84, 82, 32]
     (store_list 0x9FC00 [82, 83, 68, 32, 80, 84, 82, 32, 0xD1] (store_list 0x9FC10 [0x00, 0x10] (store_list 0x1004 [40]
     (store_list 0x1024 [0x00, 0x20] (store_list 0x2000 [70, 65, 67, 80] (store_list 0x204C [0x08, 0x04] (store_list 0x205B [4] (\<lambda>_. 0))))))))))"

theorem acpi_timer_port_witness:
  "\<forall>as_desc kalloc cr3 t s (c :: cpu). \<exists>t'. init_acpi demo_tables 0x510 0x500 as_desc kalloc cr3 t s = lret (t', s) \<and>
    fst (get_acpi_time (\<lambda>_ port. if port = 0x408 then 77 else 0) demo_tables t' c) = 77"
proof -
  let ?m = demo_tables
  have ebda: "push_bit 4 (ucast (load16 ?m 0x40E)) = (0x9FC00 :: u32)"
    by (simp add: load16_def demo_tables_def store_list_def)
  have sum: "byte_sum ?m 0x9FC00 20 = 0" "rsdp_revision ?m 0x9FC00 = 0"
    by (simp_all add: byte_sum_def upt_rec rsdp_revision_def demo_tables_def store_list_def)
  have sig: "bytes ?m 0x9FC00 8 = bytes ?m 0x510 8"
    by (simp add: bytes_def upt_rec demo_tables_def store_list_def)
  have g: "gather_rdsp ?m 0x510 = Some 0x9FC00"
    by (simp add: gather_rdsp_def ebda scan_ebda.simps memcmp_zero_iff sig valid_rsdp_checksum_def sum)
  have f: "find_fadt_by_rsdt ?m 0x500 (rsdp_rsdt_address ?m 0x9FC00) = Some 0x2000"
    by (simp add: rsdp_rsdt_address_def find_fadt_by_rsdt_def sdt_length_def load32_def upt_rec strncmp_def demo_tables_def store_list_def)
  have t: "PM_timer_length (load_fadt ?m 0x2000) = 4" "PM_timer_block (load_fadt ?m 0x2000) = 0x408"
    by (simp_all add: load_fadt_def load32_def demo_tables_def store_list_def)
  show ?thesis
  proof (intro allI)
    fix as_desc kalloc cr3 t s and c :: cpu
    obtain t' where "init_acpi ?m 0x510 0x500 as_desc kalloc cr3 t s = lret (t', s)"
      "get_acpi_time (\<lambda>_ port. if port = 0x408 then 77 else 0) ?m t' c = (let port = 0x408; v = 77 in (ucast (v :: u32), c\<lparr>cpu_io := cpu_io c @ [In32 port v]\<rparr>))"
      using acpi_timer_port [OF g _ f t(1), where hw = "\<lambda>_ port. if port = 0x408 then 77 else 0"] sum(2) t(2) by (force simp: Let_def)
    then show "\<exists>t'. init_acpi ?m 0x510 0x500 as_desc kalloc cr3 t s = lret (t', s) \<and>
      fst (get_acpi_time (\<lambda>_ port. if port = 0x408 then 77 else 0) ?m t' c) = 77" by (simp add: Let_def)
  qed
qed

end
