(* ===== verification/Spec2Isabelle.thy ===== *)
theory Spec2Isabelle
  imports Core_Defs Libk_String Ring_Queue Flat_Hashmap_Props Rb_Tree_Props
    Memory_Manager Virt_Map Heap_Props Printf Spinlock Boot_Paging Ext2 Pit Ps2_Key Pci_Props Storage_Init Vfs_Props Interrupts Acpi
begin

text \<open>
  A model of the MyFirstOS kernel for 32-bit x86 and theorems about it. Paths below are relative
  to \<^verbatim>\<open>src/\<close>.

  \<^bold>\<open>The program.\<close> The boot loader enters \<^verbatim>\<open>kernel/arch/i386/boot\<close>, which builds the first page tables
  and calls \<^verbatim>\<open>kernel_main\<close>. The memory manager (\<^verbatim>\<open>kernel/memory\<close>) first hands out pages from a bitmap,
  then sets up one descriptor per page frame and a list of free blocks of frames, and on top of
  them a buddy and slab heap and a tree of used virtual ranges. The drivers
  (\<^verbatim>\<open>kernel/drivers\<close>, \<^verbatim>\<open>kernel/arch/i386/drivers\<close>) serve the text console, the interrupt controllers,
  timer, keyboard and the IDE disks, which the scan of the PCI bus (\<^verbatim>\<open>kernel/firmware/pci\<close>) finds. The block layer
  (\<^verbatim>\<open>kernel/services/block\<close>) offers disks and their partitions, \<^verbatim>\<open>kernel/filesystem\<close> reads Ext2 volumes from them, and
  \<^verbatim>\<open>kernel/vfs\<close> resolves paths over the mounted file systems. Shared containers are in \<^verbatim>\<open>kernel/utils\<close>, the C library
  routines in \<^verbatim>\<open>libk\<close>.

  \<^bold>\<open>Conventions.\<close> Integers are machine words of the width the C type has on i386, so that additions
  wrap as the compiled code does; a property that needs the absence of a wrap states the bound.
  \<^theory_text>\<open>None\<close> is behaviour the C code does not survive: a failed \<^verbatim>\<open>assert\<close>, a dereference of NULL or of an
  address outside the modelled objects, an array access out of range, or a loop that does not
  end (loops without an evident bound are \<^theory_text>\<open>partial_function (option)\<close>; the others are recursive
  functions with a termination proof, so no fuel is used except where the source counts down
  itself). Error codes that the C functions return are kept as integers or as \<^theory_text>\<open>Inl\<close>.
  Code outside the repository and code passed at run time is a parameter: the allocator under a
  container (\<^theory_text>\<open>kmalloc\<close>, \<^theory_text>\<open>krealloc\<close>, and \<^theory_text>\<open>kfree\<close> as a change of the memory), callbacks and comparison functions, the symbols of the linker
  script, the block device under the file system, the translation of addresses for bus masters, and
  the hardware behind the ports, which answers a read from the history of port events so far.

  \<^bold>\<open>Prelude.\<close> \<open>Kernel_Prelude\<close> has the integer types, checked array accesses, option helpers and the
  shared lemmas on words, lists and chains; \<open>Flat_Memory\<close> the byte-addressed
  address space with its block operations; \<open>Core_Defs\<close> the arithmetic of \<^verbatim>\<open>core/defs.h\<close>.

  \<^bold>\<open>Containers and library.\<close>
  \<^item> \<open>Libk_String\<close>: \<^verbatim>\<open>libk/string/*.c\<close> on flat memory; \<^verbatim>\<open>memmove\<close> is right under every overlap.
  \<^item> \<open>Ring_Queue\<close>: \<^verbatim>\<open>ring_queue.c\<close>, with the interface \<open>bounded_fifo\<close>; every history within the capacity is
    answered as by a list.
  \<^item> \<open>Murmur_Hash\<close>, \<open>Flat_Hashmap\<close>, \<open>Flat_Hashmap_Correct\<close>, \<open>Flat_Hashmap_Tombstone\<close>, \<open>Flat_Hashmap_Props\<close>:
    \<^verbatim>\<open>murmur2_hash.c\<close> and \<^verbatim>\<open>flat_hashmap.c\<close>. The invariant \<open>fh_inv\<close> and the abstraction to a partial function on
    byte strings give refinement of lookup, insertion of a new key and removal with its destroy callback and
    the release of copied keys, through the interface \<open>byte_map\<close>. The size of the entry array is cut to 32 bits, so
    the invariant bounds the capacity by \<open>2 ^ 27\<close>, and by \<open>2 ^ 26\<close> where an operation may double it. An insertion of
    a key behind a tombstone makes a second entry, and its deletion brings the old value back.
  \<^item> \<open>Rb_Tree\<close>, \<open>Rb_Tree_Shape\<close>, \<open>Rb_Tree_Search\<close>, \<open>Rb_Tree_Insert\<close>, \<open>Rb_Tree_Delete\<close>, \<open>Rb_Tree_Props\<close>:
    \<^verbatim>\<open>rb_tree.c\<close> on a heap of nodes with packed parent and colour, related to abstract trees by
    \<open>wft\<close>. Insertion keeps all red-black conditions; removal keeps everything but the black heights: a
    whole class of trees is left without a common black height, and a concrete history ends in a NULL dereference.

  \<^bold>\<open>Memory.\<close>
  \<^item> \<open>Boot_Data\<close>: the walk over the Multiboot memory map (\<^verbatim>\<open>boot_data.c\<close>). \<open>Boot_Paging\<close>: the page tables of
    \<^verbatim>\<open>boot/paging.c\<close>, which map exactly the spans of the layout for the processor's walk.
  \<^item> \<open>Bitmap_Alloc\<close>: \<^verbatim>\<open>bitmap_alloc.c\<close>, first run of free pages from the search index on.
  \<^item> \<open>Pfn_Desc\<close>, \<open>Frame_Alloc\<close>, \<open>Frame_Correct\<close>, \<open>Frame_Props\<close>: the descriptors (\<^verbatim>\<open>pfn_handler.c\<close>) and the list of
    free blocks (\<^verbatim>\<open>frame_alloc.c\<close>) as a list of intervals; first fit, release with no free page in
    front, construction, and the two cases in which the list is damaged.
  \<^item> \<open>Paging\<close>, \<open>Paging_Correct\<close>: \<^verbatim>\<open>paging.c\<close> and \<^verbatim>\<open>paging_utils.c\<close> against the processor's two-level walk.
  \<^item> \<open>Memory_Manager\<close>: \<^verbatim>\<open>memory_manager.c\<close>, the reference counts, the early bump allocator, and the
    mapping of ranges with tables taken from the allocator.
  \<^item> \<open>Virt_Region\<close>, \<open>Virt_Map\<close>: \<^verbatim>\<open>virt_region.c\<close>, an interval tree on top of the red-black tree through the
    interface \<open>ordered_index\<close>, and \<^verbatim>\<open>virt_map.c\<close>, \<^verbatim>\<open>virt_alloc.c\<close>.
  \<^item> \<open>Heap\<close>, \<open>Heap_Correct\<close>, \<open>Heap_Merge\<close>, \<open>Heap_Props\<close>: \<^verbatim>\<open>heap.c\<close>, the buddy lists threaded through the descriptors, with
    the interface \<open>block_store\<close>: allocation and release keep the lists well formed, release leaves exactly the
    lists of the joining rule \<open>merge_lists\<close>, and a heap with at most one free block per order serves every sequence of
    requests that fits, with disjoint blocks, whatever the growth would do; the slab layer as executable code with a concrete failing history.

  \<^bold>\<open>Devices.\<close>
  \<^item> \<open>Terminal\<close>, \<open>Printf\<close>: \<^verbatim>\<open>drivers/tty.c\<close>, \<^verbatim>\<open>libk/stdio/printf.c\<close> and \<^verbatim>\<open>boot/tty\<close>; the screen refines an unbounded log of
    lines, \<^verbatim>\<open>printf\<close> prints the text of the items of its format.
  \<^item> \<open>Spinlock\<close>: \<^verbatim>\<open>spinlock.c\<close> as a step relation of several processors with mutual exclusion by rule
    induction, and the flags functions of \<^verbatim>\<open>irq.c\<close>.
  \<^item> \<open>Port_IO\<close>, \<open>Pic\<close>, \<open>Pit\<close>, \<open>Ps2_Key\<close>: port accesses as a history of events; the drivers of
    \<^verbatim>\<open>arch/i386/drivers/pic\<close> against models of the 8259 chips, the clock and the keyboard's codes.
  \<^item> \<open>Interrupts\<close>: \<^verbatim>\<open>interrupts/irq.c\<close> and the tables of the boot code (\<^verbatim>\<open>early_idt.c\<close>, \<^verbatim>\<open>isr.c\<close>, \<^verbatim>\<open>gdt.c\<close>); which handler
    a vector reaches after any registrations, read off the tables as the processor does.
  \<^item> \<open>Pci\<close>, \<open>Pci_Props\<close>: \<^verbatim>\<open>pci_ops.c\<close> as a store of bytes on a host bridge that keeps what is written, and the scan
    of \<^verbatim>\<open>pci.c\<close>, which ends and finds the functions on all buses that can be reached.
  \<^item> \<open>Acpi\<close>: the tables of the firmware and the timer (\<^verbatim>\<open>firmware/acpi\<close>), in flat memory.
  \<^item> \<open>Ide\<close>, \<open>Ide_Props\<close>: \<^verbatim>\<open>drivers/pci/ide.c\<close>, channels, drives, tables of physical regions, request queues and
    interrupts; what the drive finds in its registers after a request and that the region table covers the request.

  \<^bold>\<open>Storage and files.\<close>
  \<^item> \<open>Block\<close>, \<open>Block_Props\<close>: \<^verbatim>\<open>drivers/storage.c\<close> and \<^verbatim>\<open>services/block\<close>, with the driver of the disk and the callbacks of
    clients as parameters: requests to partitions down to the driver and back, the partition table, the table of devices,
    and the second request, which the IDE driver does not survive.
  \<^item> \<open>Storage_Init\<close>: \<^verbatim>\<open>init_ide\<close> and \<^verbatim>\<open>init_arch_storage\<close>, the composition of the PCI bus, the IDE driver and the storage table.
  \<^item> \<open>Ext2\<close>: \<^verbatim>\<open>kernel/filesystem/Ext2\<close>; recognising and mounting a volume, inodes, the tree of
    indirection blocks against a reference path, reading and directory lookup.
  \<^item> \<open>Vfs\<close>, \<open>Vfs_Props\<close>: \<^verbatim>\<open>kernel/vfs\<close>; paths, mounts and the caches of directory entries and inodes on the hash map.

  \<^bold>\<open>Not modelled.\<close> The assembly stubs and the code that only loads registers; \<^verbatim>\<open>kernel_main\<close>, \<^verbatim>\<open>init_memory\<close> and
  \<^verbatim>\<open>init_vfs\<close>, which call the parts in order; the functions of the caches that purge a file system, whose
  callback changes the hash map under its own iteration; what fault handlers and initialisers print; the
  translation cache and page permissions of the processor; the effect of \<^verbatim>\<open>kfree\<close> on a freed block outside the hash map and the caches;
  concurrency other than the spinlock's. PROJECT.json lists every part with its state.
\<close>

end
